(* ===== verification/Prelude.thy ===== *)
theory Prelude
  imports Main "HOL-Library.Word" "HOL-Library.Multiset"
begin

text \<open>
  Shared types, rule collections and generic lemmas of the development.  Machine integers
  are words of the source's width; sizes and loop indices that the source keeps in range
  are natural numbers.
\<close>

unbundle bit_operations_syntax

type_synonym u8 = "8 word"
type_synonym u16 = "16 word"
type_synonym u32 = "32 word"
type_synonym u64 = "64 word"

named_theorems kad_inv \<open>invariant preservation of the Kademlia operations\<close>
named_theorems bytes_simps \<open>lengths and reads of encoded byte strings\<close>

text \<open>The size of a part of a file.\<close>

definition PARTSIZE :: nat where "PARTSIZE = 9728000"

lemma PARTSIZE_pos [simp]: "0 < PARTSIZE"
  by (simp add: PARTSIZE_def)

section \<open>Bytes of machine words\<close>

definition byte_of :: "'a::len word \<Rightarrow> nat \<Rightarrow> u8" where
  "byte_of w k = ucast (drop_bit (8 * k) w)"

lemma bit_byte_of: "bit (byte_of w k) n \<longleftrightarrow> n < 8 \<and> bit w (8 * k + n)"
  by (simp add: byte_of_def bit_ucast_iff bit_drop_bit_eq)

section \<open>Counting and filtering lists\<close>

definition count_if :: "('a \<Rightarrow> bool) \<Rightarrow> 'a list \<Rightarrow> nat" where
  "count_if P xs = length (filter P xs)"

lemma count_if_Nil [simp]: "count_if P [] = 0"
  by (simp add: count_if_def)

lemma count_if_Cons [simp]: "count_if P (x # xs) = (if P x then 1 else 0) + count_if P xs"
  by (simp add: count_if_def)

lemma count_if_append [simp]: "count_if P (xs @ ys) = count_if P xs + count_if P ys"
  by (simp add: count_if_def)

lemma count_if_filter_le: "count_if P (filter Q xs) \<le> count_if P xs"
  by (induction xs) auto

lemma count_if_0: "count_if P xs = 0 \<longleftrightarrow> (\<forall>x \<in> set xs. \<not> P x)"
  by (induction xs) auto

end
