(* ===== verification/Kad_UInt128.thy ===== *)
theory Kad_UInt128
  imports Prelude
begin

text \<open>
  The 128-bit unsigned integer of the Kademlia network (src/core/kademlia/KadUInt128.cpp):
  node identifiers, file identifiers and XOR distances.  The source keeps four 32-bit
  chunks, the most significant first, and computes on them chunk by chunk; the
  abstraction \<open>uval\<close> reads the four chunks as one integer, and the lemmas show that
  every chunk-wise operation is the 128-bit operation it stands for.
\<close>

section \<open>Data and accessors\<close>

datatype uint128 = U128 u32 u32 u32 u32

fun get32BitChunk :: "uint128 \<Rightarrow> nat \<Rightarrow> u32" where
  "get32BitChunk (U128 a b c d) i =
     (if i = 0 then a else if i = 1 then b else if i = 2 then c else d)"

fun set_chunk :: "uint128 \<Rightarrow> nat \<Rightarrow> u32 \<Rightarrow> uint128" where
  "set_chunk (U128 a b c d) i w =
     (if i = 0 then U128 w b c d else if i = 1 then U128 a w c d
      else if i = 2 then U128 a b w d else U128 a b c w)"

definition setValue32 :: "u32 \<Rightarrow> uint128" where
  "setValue32 v = U128 0 0 0 v"

definition fill128 :: "bool \<Rightarrow> uint128" where
  "fill128 f = (if f then U128 (-1) (-1) (-1) (-1) else setValue32 0)"

text \<open>\<open>setValueBE\<close> ors each byte into its chunk, starting from zero.\<close>

definition setValueBE :: "u8 list \<Rightarrow> uint128" where
  "setValueBE bs = fold (\<lambda>i a. set_chunk a (i div 4)
      (get32BitChunk a (i div 4) OR push_bit (8 * (3 - i mod 4)) (ucast (bs ! i))))
      [0..<16] (setValue32 0)"

text \<open>\<open>std::byteswap\<close> and a little-endian copy: the chunk's bytes, most significant first.\<close>

definition be_bytes :: "u32 \<Rightarrow> u8 list" where
  "be_bytes w = [byte_of w 3, byte_of w 2, byte_of w 1, byte_of w 0]"

definition toByteArray :: "uint128 \<Rightarrow> u8 list" where
  "toByteArray a = concat (map (\<lambda>i. be_bytes (get32BitChunk a i)) [0..<4])"

section \<open>Bits\<close>

definition getBitNumber :: "uint128 \<Rightarrow> nat \<Rightarrow> u32" where
  "getBitNumber a n =
     (if n > 127 then 0
      else drop_bit (31 - n mod 32) (get32BitChunk a (n div 32)) AND 1)"

text \<open>Callers keep \<open>n < 128\<close>; beyond that the C++ array access is undefined.\<close>

definition setBitNumber :: "nat \<Rightarrow> u32 \<Rightarrow> uint128 \<Rightarrow> uint128" where
  "setBitNumber n v a =
     (let i = n div 32; m = push_bit (31 - n mod 32) 1;
          x = get32BitChunk a i OR m
      in set_chunk a i (if v = 0 then x XOR m else x))"

text \<open>
  The padding constructor keeps the leading \<open>numBits\<close> bits and draws the rest from the
  random engine; \<open>rnd n\<close> is the draw (0 or 1) made for bit \<open>n\<close>.
\<close>

function pad_random :: "(nat \<Rightarrow> u32) \<Rightarrow> nat \<Rightarrow> uint128 \<Rightarrow> uint128" where
  "pad_random rnd n a =
     (if n < 128 then pad_random rnd (Suc n) (setBitNumber n (rnd n) a) else a)"
  by pat_completeness auto
termination by (relation "measure (\<lambda>(rnd, n, a). 128 - n)") auto

declare pad_random.simps [simp del]

section \<open>Arithmetic and logic\<close>

definition xorWith :: "uint128 \<Rightarrow> uint128 \<Rightarrow> uint128" where
  "xorWith a b = U128
     (get32BitChunk a 0 XOR get32BitChunk b 0) (get32BitChunk a 1 XOR get32BitChunk b 1)
     (get32BitChunk a 2 XOR get32BitChunk b 2) (get32BitChunk a 3 XOR get32BitChunk b 3)"

definition xorBE :: "uint128 \<Rightarrow> u8 list \<Rightarrow> uint128" where
  "xorBE a bs = xorWith a (setValueBE bs)"

text \<open>
  The loops run from chunk 3 down to chunk 0 with a signed 64-bit accumulator whose
  magnitude stays below \<open>2 ^ 63\<close>, so an unbounded integer carries the same values;
  \<open>sum >>= 32\<close> is the arithmetic shift, \<open>static_cast<uint32>\<close> the truncation.
\<close>

fun add_loop :: "nat list \<Rightarrow> uint128 \<Rightarrow> int \<Rightarrow> uint128 \<Rightarrow> uint128" where
  "add_loop [] b s a = a"
| "add_loop (i # is) b s a =
     (let s' = s + uint (get32BitChunk a i) + uint (get32BitChunk b i)
      in add_loop is b (drop_bit 32 s') (set_chunk a i (word_of_int s')))"

fun sub_loop :: "nat list \<Rightarrow> uint128 \<Rightarrow> int \<Rightarrow> uint128 \<Rightarrow> uint128" where
  "sub_loop [] b s a = a"
| "sub_loop (i # is) b s a =
     (let s' = s + uint (get32BitChunk a i) - uint (get32BitChunk b i)
      in sub_loop is b (drop_bit 32 s') (set_chunk a i (word_of_int s')))"

fun compareChunks :: "u32 list \<Rightarrow> u32 list \<Rightarrow> int" where
  "compareChunks (x # xs) (y # ys) =
     (if x < y then - 1 else if x > y then 1 else compareChunks xs ys)"
| "compareChunks _ _ = 0"

definition compareTo :: "uint128 \<Rightarrow> uint128 \<Rightarrow> int" where
  "compareTo a b = compareChunks (map (get32BitChunk a) [0..<4]) (map (get32BitChunk b) [0..<4])"

definition compareTo32 :: "uint128 \<Rightarrow> u32 \<Rightarrow> int" where
  "compareTo32 a v =
     (if get32BitChunk a 0 > 0 \<or> get32BitChunk a 1 > 0 \<or> get32BitChunk a 2 > 0
         \<or> get32BitChunk a 3 > v then 1
      else if get32BitChunk a 3 < v then - 1 else 0)"

definition add128 :: "uint128 \<Rightarrow> uint128 \<Rightarrow> uint128" where
  "add128 a b = (if compareTo32 b 0 = 0 then a else add_loop [3, 2, 1, 0] b 0 a)"

definition add32 :: "uint128 \<Rightarrow> u32 \<Rightarrow> uint128" where
  "add32 a v = (if v \<noteq> 0 then add128 a (setValue32 v) else a)"

definition subtract128 :: "uint128 \<Rightarrow> uint128 \<Rightarrow> uint128" where
  "subtract128 a b = (if compareTo32 b 0 \<noteq> 0 then sub_loop [3, 2, 1, 0] b 0 a else a)"

definition subtract32 :: "uint128 \<Rightarrow> u32 \<Rightarrow> uint128" where
  "subtract32 a v = (if v \<noteq> 0 then subtract128 a (setValue32 v) else a)"

fun shift_loop :: "nat list \<Rightarrow> nat \<Rightarrow> nat \<Rightarrow> int \<Rightarrow> uint128 \<Rightarrow> uint128 \<Rightarrow> uint128" where
  "shift_loop [] k r s a res = res"
| "shift_loop (i # is) k r s a res =
     (let s' = s + push_bit r (uint (get32BitChunk a i))
      in shift_loop is k r (drop_bit 32 s') a (set_chunk res (i - k) (word_of_int s')))"

definition shiftLeft :: "uint128 \<Rightarrow> nat \<Rightarrow> uint128" where
  "shiftLeft a n =
     (if n = 0 \<or> compareTo32 a 0 = 0 then a
      else if n > 127 then setValue32 0
      else shift_loop (rev [n div 32..<4]) (n div 32) (n mod 32) 0 a (setValue32 0))"

section \<open>Text\<close>

definition bit_chars :: "uint128 \<Rightarrow> string" where
  "bit_chars a = map (\<lambda>n. if getBitNumber a n = 0 then CHR ''0'' else CHR ''1'') [0..<128]"

definition toBinaryString :: "bool \<Rightarrow> uint128 \<Rightarrow> string" where
  "toBinaryString trim a =
     (let s = (if trim then dropWhile (\<lambda>c. c = CHR ''0'') (bit_chars a) else bit_chars a)
      in if s = [] then ''0'' else s)"

section \<open>The value of an identifier\<close>

fun uval :: "uint128 \<Rightarrow> int" where
  "uval (U128 a b c d) =
     concat_bit 32 (uint d) (concat_bit 32 (uint c) (concat_bit 32 (uint b) (uint a)))"

declare uval.simps [simp del]

lemma take_bit_32_uint [simp]: "take_bit 32 (uint (w :: u32)) = uint w"
  by transfer simp

abbreviation B32 :: int where "B32 \<equiv> 4294967296"

lemma uval_horner: "uval (U128 a b c d) =
    ((uint a * B32 + uint b) * B32 + uint c) * B32 + uint d"
  by (simp only: uval.simps concat_bit_eq push_bit_eq_mult take_bit_32_uint)
    (simp add: algebra_simps)

lemma uint_u32_less [simp]: "uint (w :: u32) < B32"
  using uint_lt2p [of w] by simp

lemma horner_less_iff:
  fixes x y q r B :: int
  assumes "0 \<le> x" "x < B" "0 \<le> y" "y < B"
  shows "q * B + x < r * B + y \<longleftrightarrow> q < r \<or> (q = r \<and> x < y)"
proof (cases q r rule: linorder_cases)
  case less
  then have "(q + 1) * B \<le> r * B" using assms by (intro mult_right_mono) auto
  with less assms show ?thesis by (auto simp: algebra_simps)
next
  case greater
  then have "(r + 1) * B \<le> q * B" using assms by (intro mult_right_mono) auto
  with greater assms show ?thesis by (auto simp: algebra_simps)
qed (use assms in auto)

lemma horner_eq_iff:
  fixes x y q r B :: int
  assumes "0 \<le> x" "x < B" "0 \<le> y" "y < B"
  shows "q * B + x = r * B + y \<longleftrightarrow> q = r \<and> x = y"
  using horner_less_iff [OF assms, of q r] horner_less_iff [OF assms(3,4,1,2), of r q] by auto

lemmas horner_u32_less = horner_less_iff [OF uint_ge_0 uint_u32_less uint_ge_0 uint_u32_less]
lemmas horner_u32_eq = horner_eq_iff [OF uint_ge_0 uint_u32_less uint_ge_0 uint_u32_less]

lemma uval_less_iff: "uval (U128 a b c d) < uval (U128 a' b' c' d') \<longleftrightarrow>
    a < a' \<or> a = a' \<and> (b < b' \<or> b = b' \<and> (c < c' \<or> c = c' \<and> d < d'))"
  unfolding uval_horner horner_u32_less horner_u32_eq word_less_def word_uint_eq_iff by blast

lemma uval_inject: "uval x = uval y \<longleftrightarrow> x = y"
proof -
  obtain a b c d where x: "x = U128 a b c d" by (cases x)
  obtain a' b' c' d' where y: "y = U128 a' b' c' d'" by (cases y)
  show ?thesis unfolding x y uval_horner horner_u32_eq uint128.inject word_uint_eq_iff by blast
qed

lemma uval_bounds: "0 \<le> uval x" "uval x < 2 ^ 128"
proof -
  obtain a b c d where x: "x = U128 a b c d" by (cases x)
  have step: "q * B32 + uint (w :: u32) < m * B32" if "q < m" for q w m
    using horner_less_iff [of "uint w" B32 0 q m] that by simp
  from step [OF step [OF step [OF uint_u32_less [of a], of b], of c], of d]
  show "uval x < 2 ^ 128" unfolding x uval_horner by simp
  show "0 \<le> uval x" unfolding x uval_horner by simp
qed

lemma bit_uint_u32: "bit (uint (w :: u32)) m \<longleftrightarrow> bit w m"
  by (auto simp: bit_uint_iff dest: bit_imp_le_length)

lemma bit_uval_chunks:
  "bit (uval (U128 a b c d)) n \<longleftrightarrow>
     (if n < 32 then bit d n else if n < 64 then bit c (n - 32)
      else if n < 96 then bit b (n - 64) else bit a (n - 96))"
proof -
  consider "n < 32" | "32 \<le> n" "n < 64" | "64 \<le> n" "n < 96" | "96 \<le> n" by linarith
  then show ?thesis unfolding uval.simps bit_concat_bit_iff bit_uint_u32
    by cases auto
qed

lemma bit_uval:
  assumes "n < 128"
  shows "bit (uval x) n \<longleftrightarrow> bit (get32BitChunk x (3 - n div 32)) (n mod 32)"
proof -
  obtain a b c d where x: "x = U128 a b c d" by (cases x)
  define q r where "q = n div 32" and "r = n mod 32"
  then have n: "n = 32 * q + r" "r < 32" by simp_all
  with assms have "q = 0 \<or> q = 1 \<or> q = 2 \<or> q = 3" by linarith
  then show ?thesis unfolding x bit_uval_chunks q_def [symmetric] r_def [symmetric]
    using n by (elim disjE) simp_all
qed

lemma getBitNumber_uval:
  "getBitNumber x n = (if n < 128 \<and> bit (uval x) (127 - n) then 1 else 0)"
proof (cases "n < 128")
  case True
  define q r where "q = n div 32" and "r = n mod 32"
  then have n: "n = 32 * q + r" "r < 32" by simp_all
  with True have q: "q < 4" by linarith
  have "127 - n = 32 * (3 - q) + (31 - r)" using n q by simp
  then have "(127 - n) div 32 = 3 - q" "(127 - n) mod 32 = 31 - r"
    using div_mult_self4 [of 32 "3 - q" "31 - r"] mod_mult_self4 [of 32 "3 - q" "31 - r"] by simp_all
  with True q have "bit (uval x) (127 - n) \<longleftrightarrow> bit (get32BitChunk x q) (31 - r)"
    by (subst bit_uval) simp_all
  then show ?thesis using True unfolding getBitNumber_def q_def [symmetric] r_def [symmetric]
    by (simp add: and_one_eq mod_2_eq_odd bit_iff_odd_drop_bit)
qed (simp add: getBitNumber_def)


section \<open>The operations compute on the 128-bit value\<close>

lemma upt4: "[0..<4] = [0, 1, 2, 3 :: nat]"
  by code_simp

lemma compareTo_uval: "compareTo a b = sgn (uval a - uval b)"
proof -
  obtain a0 a1 a2 a3 where a: "a = U128 a0 a1 a2 a3" by (cases a)
  obtain b0 b1 b2 b3 where b: "b = U128 b0 b1 b2 b3" by (cases b)
  have "compareTo a b = (if uval a < uval b then - 1 else if uval b < uval a then 1 else 0)"
    unfolding a b uval_less_iff compareTo_def upt4 
    by (cases a0 b0 rule: linorder_cases; cases a1 b1 rule: linorder_cases;
        cases a2 b2 rule: linorder_cases; cases a3 b3 rule: linorder_cases) simp_all
  then show ?thesis by (auto simp: sgn_if)
qed

lemma uval_setValue32: "uval (setValue32 v) = uint v"
  by (simp add: setValue32_def uval_horner)

lemma compareTo32_uval: "compareTo32 a v = sgn (uval a - uint v)"
proof -
  obtain a0 a1 a2 a3 where a: "a = U128 a0 a1 a2 a3" by (cases a)
  have "compareTo a (setValue32 v) = compareTo32 a v"
    unfolding a compareTo_def compareTo32_def setValue32_def upt4
    by (cases a3 v rule: linorder_cases) (auto simp: word_gt_0 dest: less_asym)
  then show ?thesis by (simp add: compareTo_uval uval_setValue32)
qed

lemma compareTo32_0: "compareTo32 a 0 = 0 \<longleftrightarrow> uval a = 0"
  by (simp add: compareTo32_uval sgn_0_0)

lemma carry_step: "uint (word_of_int s :: u32) + drop_bit 32 s * B32 = s"
  by (simp add: uint_word_of_int drop_bit_eq_div)

text \<open>One pass of the loop: what has been written plus the carry is the exact sum.\<close>

lemma uint_word_of_int_u32: "uint (word_of_int s :: u32) = s - drop_bit 32 s * B32"
  using carry_step [of s] by simp

lemma uval_mod_eqI: "uval x = s - c * 2 ^ 128 \<Longrightarrow> uval x = s mod 2 ^ 128"
proof -
  assume "uval x = s - c * 2 ^ 128"
  then have "s = uval x + c * 2 ^ 128" by simp
  then have "s mod 2 ^ 128 = uval x mod 2 ^ 128" by simp
  also have "\<dots> = uval x" using uval_bounds [of x] by (rule mod_pos_pos_trivial)
  finally show ?thesis by simp
qed

lemma uval_add128: "uval (add128 a b) = (uval a + uval b) mod 2 ^ 128"
proof (cases "uval b = 0")
  case True
  then show ?thesis using uval_bounds [of a]
    by (simp add: add128_def compareTo32_0 mod_pos_pos_trivial)
next
  case False
  obtain a0 a1 a2 a3 where a: "a = U128 a0 a1 a2 a3" by (cases a)
  obtain b0 b1 b2 b3 where b: "b = U128 b0 b1 b2 b3" by (cases b)
  define s3 where "s3 = uint a3 + uint b3"
  define s2 where "s2 = drop_bit 32 s3 + uint a2 + uint b2"
  define s1 where "s1 = drop_bit 32 s2 + uint a1 + uint b1"
  define s0 where "s0 = drop_bit 32 s1 + uint a0 + uint b0"
  have "add128 a b = U128 (word_of_int s0) (word_of_int s1) (word_of_int s2) (word_of_int s3)"
    using False by (simp add: add128_def compareTo32_0 a b Let_def s0_def s1_def s2_def s3_def)
  then have "uval (add128 a b) = (uval a + uval b) - drop_bit 32 s0 * 2 ^ 128"
    by (simp add: uval_horner uint_word_of_int_u32 a b algebra_simps)
      (simp add: s0_def s1_def s2_def s3_def algebra_simps)
  then show ?thesis by (rule uval_mod_eqI)
qed


lemma uval_subtract128: "uval (subtract128 a b) = (uval a - uval b) mod 2 ^ 128"
proof (cases "uval b = 0")
  case True
  then show ?thesis using uval_bounds [of a]
    by (simp add: subtract128_def compareTo32_0 mod_pos_pos_trivial)
next
  case False
  obtain a0 a1 a2 a3 where a: "a = U128 a0 a1 a2 a3" by (cases a)
  obtain b0 b1 b2 b3 where b: "b = U128 b0 b1 b2 b3" by (cases b)
  define s3 where "s3 = uint a3 - uint b3"
  define s2 where "s2 = drop_bit 32 s3 + uint a2 - uint b2"
  define s1 where "s1 = drop_bit 32 s2 + uint a1 - uint b1"
  define s0 where "s0 = drop_bit 32 s1 + uint a0 - uint b0"
  have "subtract128 a b = U128 (word_of_int s0) (word_of_int s1) (word_of_int s2) (word_of_int s3)"
    using False by (simp add: subtract128_def compareTo32_0 a b Let_def s0_def s1_def s2_def s3_def)
  then have "uval (subtract128 a b) = (uval a - uval b) - drop_bit 32 s0 * 2 ^ 128"
    by (simp add: uval_horner uint_word_of_int_u32 a b algebra_simps)
      (simp add: s0_def s1_def s2_def s3_def algebra_simps)
  then show ?thesis by (rule uval_mod_eqI)
qed

lemma uval_add32: "uval (add32 a v) = (uval a + uint v) mod 2 ^ 128"
  using uval_bounds [of a] by (simp add: add32_def uval_add128 uval_setValue32 mod_pos_pos_trivial)

lemma uval_subtract32: "uval (subtract32 a v) = (uval a - uint v) mod 2 ^ 128"
  using uval_bounds [of a] by (simp add: subtract32_def uval_subtract128 uval_setValue32 mod_pos_pos_trivial)

text \<open>The shift loop, by the number \<open>k\<close> of whole chunks it moves.\<close>

lemma shift_chunks:
  fixes p q u v :: u32
  defines "a \<equiv> U128 p q u v"
  assumes "k < 4"
  shows "\<exists>c. uval (shift_loop (rev [k..<4]) k r 0 a (setValue32 0))
           = uval a * 2 ^ (32 * k + r) - c * 2 ^ 128"
proof -
  define s3 where "s3 = push_bit r (uint v)"
  define s2 where "s2 = drop_bit 32 s3 + push_bit r (uint u)"
  define s1 where "s1 = drop_bit 32 s2 + push_bit r (uint q)"
  define s0 where "s0 = drop_bit 32 s1 + push_bit r (uint p)"
  note s_defs = s0_def s1_def s2_def s3_def
  have upt: "rev [0..<4] = [3, 2, 1, 0 :: nat]" "rev [1..<4] = [3, 2, 1 :: nat]"
    "rev [2..<4] = [3, 2 :: nat]" "rev [3..<4] = [3 :: nat]" by code_simp+
  have "k = 0 \<or> k = 1 \<or> k = 2 \<or> k = 3" using assms(2) by linarith
  then show ?thesis
  proof (elim disjE)
    assume k: "k = 0"
    have "shift_loop (rev [k..<4]) k r 0 a (setValue32 0) =
        U128 (word_of_int s0) (word_of_int s1) (word_of_int s2) (word_of_int s3)"
      unfolding k upt by (simp add: a_def setValue32_def Let_def s_defs)
    then show ?thesis
      by (intro exI [of _ "drop_bit 32 s0"])
        (simp add: k a_def uval_horner uint_word_of_int_u32 algebra_simps,
         simp add: s_defs push_bit_eq_mult algebra_simps)
  next
    assume k: "k = 1"
    have "shift_loop (rev [k..<4]) k r 0 a (setValue32 0) =
        U128 (word_of_int s1) (word_of_int s2) (word_of_int s3) 0"
      unfolding k upt by (simp add: a_def setValue32_def Let_def s_defs)
    then show ?thesis
      by (intro exI [of _ "drop_bit 32 s1 + uint p * 2 ^ r"])
        (simp add: k a_def uval_horner uint_word_of_int_u32 power_add algebra_simps,
         simp add: s_defs push_bit_eq_mult algebra_simps)
  next
    assume k: "k = 2"
    have "shift_loop (rev [k..<4]) k r 0 a (setValue32 0) =
        U128 (word_of_int s2) (word_of_int s3) 0 0"
      unfolding k upt by (simp add: a_def setValue32_def Let_def s_defs)
    then show ?thesis
      by (intro exI [of _ "drop_bit 32 s2 + (uint p * B32 + uint q) * 2 ^ r"])
        (simp add: k a_def uval_horner uint_word_of_int_u32 power_add algebra_simps,
         simp add: s_defs push_bit_eq_mult algebra_simps)
  next
    assume k: "k = 3"
    have "shift_loop (rev [k..<4]) k r 0 a (setValue32 0) = U128 (word_of_int s3) 0 0 0"
      unfolding k upt by (simp add: a_def setValue32_def Let_def s_defs)
    then show ?thesis
      by (intro exI [of _ "drop_bit 32 s3 + ((uint p * B32 + uint q) * B32 + uint u) * 2 ^ r"])
        (simp add: k a_def uval_horner uint_word_of_int_u32 power_add algebra_simps,
         simp add: s_defs push_bit_eq_mult algebra_simps)
  qed
qed

lemma uval_shiftLeft: "uval (shiftLeft a n) = uval a * 2 ^ n mod 2 ^ 128"
proof -
  consider "n = 0 \<or> uval a = 0" | "n > 127" "uval a \<noteq> 0" | "0 < n" "n \<le> 127" "uval a \<noteq> 0"
    by linarith
  then show ?thesis
  proof cases
    case 1
    then show ?thesis using uval_bounds [of a]
      by (auto simp: shiftLeft_def compareTo32_0 mod_pos_pos_trivial)
  next
    case 2
    then have "(2::int) ^ 128 dvd 2 ^ n" by (intro le_imp_power_dvd) simp
    then have "uval a * 2 ^ n mod 2 ^ 128 = 0" by (metis dvd_imp_mod_0 dvd_mult)
    with 2 show ?thesis by (simp add: shiftLeft_def compareTo32_0 uval_setValue32)
  next
    case 3
    obtain a0 a1 a2 a3 where a: "a = U128 a0 a1 a2 a3" by (cases a)
    from 3 have k: "n div 32 < 4" by linarith
    have "uval (shiftLeft a n) = uval (shift_loop (rev [n div 32..<4]) (n div 32) (n mod 32) 0 a (setValue32 0))"
      using 3 by (simp add: shiftLeft_def compareTo32_0)
    then show ?thesis
      using shift_chunks [OF k, where r = "n mod 32" and p = a0 and q = a1 and u = a2 and v = a3]
      uval_mod_eqI unfolding a by fastforce
  qed
qed

section \<open>Bits of the operations\<close>

lemma bit_uval_ge: "128 \<le> n \<Longrightarrow> \<not> bit (uval x) n"
  by (cases x) (auto simp: bit_uval_chunks dest: bit_imp_le_length)

lemma getBitNumber_01: "getBitNumber x n = 0 \<or> getBitNumber x n = 1"
  by (simp add: getBitNumber_uval)

lemma uint128_eq_bits: "(\<And>n. n < 128 \<Longrightarrow> getBitNumber x n = getBitNumber y n) \<Longrightarrow> x = y"
proof -
  assume eq: "\<And>n. n < 128 \<Longrightarrow> getBitNumber x n = getBitNumber y n"
  have "bit (uval x) m = bit (uval y) m" for m
  proof (cases "m < 128")
    case True
    then have "127 - (127 - m) = m" "127 - m < 128" by simp_all
    with eq [of "127 - m"] show ?thesis by (simp add: getBitNumber_uval split: if_splits)
  qed (simp add: bit_uval_ge)
  then show ?thesis by (simp add: bit_eq_iff flip: uval_inject)
qed

lemma uval_xorWith: "uval (xorWith x y) = uval x XOR uval y"
proof (rule bit_eqI)
  fix n
  show "bit (uval (xorWith x y)) n = bit (uval x XOR uval y) n"
    by (cases x; cases y) (simp add: xorWith_def bit_uval_chunks bit_xor_iff)
qed

lemma getBitNumber_xorWith:
  "getBitNumber (xorWith x y) n = (if getBitNumber x n = getBitNumber y n then 0 else 1)"
  by (simp add: getBitNumber_uval uval_xorWith bit_xor_iff)

lemma xorWith_self: "xorWith x x = setValue32 0"
  by (simp add: uval_xorWith uval_setValue32 flip: uval_inject)

lemma xorWith_commute: "xorWith x y = xorWith y x"
  by (simp add: uval_xorWith xor.commute flip: uval_inject)

lemma xorWith_assoc: "xorWith (xorWith x y) z = xorWith x (xorWith y z)"
  by (simp add: uval_xorWith xor.assoc flip: uval_inject)

lemma xorWith_0 [simp]: "xorWith x (setValue32 0) = x" "xorWith (setValue32 0) x = x"
  by (simp_all add: uval_xorWith uval_setValue32 flip: uval_inject)

lemma xorWith_cancel [simp]: "xorWith x y = xorWith x z \<longleftrightarrow> y = z"
  by (metis xorWith_assoc xorWith_self xorWith_0(2))

lemma xorWith_cancel_right [simp]: "xorWith y x = xorWith z x \<longleftrightarrow> y = z"
  by (metis xorWith_commute xorWith_cancel)

lemma get_set_chunk:
  "i < 4 \<Longrightarrow> j < 4 \<Longrightarrow> get32BitChunk (set_chunk x i w) j = (if i = j then w else get32BitChunk x j)"
  by (cases x) auto

lemma getBitNumber_bit:
  "n < 128 \<Longrightarrow> getBitNumber x n = (if bit (get32BitChunk x (n div 32)) (31 - n mod 32) then 1 else 0)"
  by (simp add: getBitNumber_def and_one_eq mod_2_eq_odd bit_iff_odd_drop_bit)

lemma getBitNumber_setBitNumber:
  assumes "n < 128" "m < 128"
  shows "getBitNumber (setBitNumber n v x) m =
    (if m = n then if v = 0 then 0 else 1 else getBitNumber x m)"
proof -
  have chunks: "m div 32 < 4" "n div 32 < 4" using assms by linarith+
  have eqI: "m div 32 = n div 32 \<Longrightarrow> 31 - m mod 32 = 31 - n mod 32 \<Longrightarrow> m = n"
  proof -
    assume eq: "m div 32 = n div 32" "31 - m mod 32 = 31 - n mod 32"
    have "m mod 32 < 32" "n mod 32 < 32" by simp_all
    with eq(2) have "m mod 32 = n mod 32" by linarith
    with eq(1) show "m = n" by (metis div_mult_mod_eq)
  qed
  have bound: "31 - n mod 32 < 32" "31 - m mod 32 < 32" by simp_all
  have mask: "bit (2 ^ (31 - n mod 32) :: u32) k \<longleftrightarrow> k = 31 - n mod 32" if "k < 32" for k
    using that by (auto simp: bit_exp_iff)
  show ?thesis
  proof (cases "m div 32 = n div 32")
    case False
    then have "m \<noteq> n" by auto
    with False show ?thesis
      by (simp add: getBitNumber_bit assms setBitNumber_def Let_def get_set_chunk chunks)
  next
    case True
    then have pos: "31 - m mod 32 = 31 - n mod 32 \<longleftrightarrow> m = n" using eqI by auto
    with True show ?thesis
      by (cases "m = n") (simp_all add: getBitNumber_bit assms setBitNumber_def Let_def get_set_chunk
          chunks bit_or_iff bit_xor_iff mask [OF bound(1)] mask [OF bound(2)])
  qed
qed

lemma getBitNumber_pad_random:
  assumes "m < 128"
  shows "getBitNumber (pad_random rnd n x) m =
    (if m < n then getBitNumber x m else if rnd m = 0 then 0 else 1)"
proof (induction rnd n x rule: pad_random.induct)
  case (1 rnd n a)
  show ?case
  proof (cases "n < 128")
    case True
    then show ?thesis
      using 1 [OF True] assms
      by (auto simp: pad_random.simps [of rnd n a] getBitNumber_setBitNumber less_Suc_eq)
  next
    case False
    then show ?thesis using assms by (simp add: pad_random.simps [of rnd n a])
  qed
qed

lemma getBitNumber_shiftLeft:
  assumes "m < 128"
  shows "getBitNumber (shiftLeft x n) m = (if m + n < 128 then getBitNumber x (m + n) else 0)"
proof -
  have "uval (shiftLeft x n) = take_bit 128 (push_bit n (uval x))"
    by (simp add: uval_shiftLeft take_bit_eq_mod push_bit_eq_mult)
  then have "getBitNumber (shiftLeft x n) m =
      (if n \<le> 127 - m \<and> bit (uval x) (127 - m - n) then 1 else 0)"
    using assms by (simp add: getBitNumber_uval bit_take_bit_iff bit_push_bit_iff)
  moreover have "n \<le> 127 - m \<longleftrightarrow> m + n < 128" "127 - m - n = 127 - (m + n)" using assms by auto
  ultimately show ?thesis by (simp add: getBitNumber_uval)
qed

section \<open>Bytes\<close>

definition be_word :: "u8 \<Rightarrow> u8 \<Rightarrow> u8 \<Rightarrow> u8 \<Rightarrow> u32" where
  "be_word b0 b1 b2 b3 = push_bit 24 (ucast b0) OR push_bit 16 (ucast b1)
     OR push_bit 8 (ucast b2) OR ucast b3"

lemma setValueBE_words:
  "setValueBE [b0, b1, b2, b3, b4, b5, b6, b7, b8, b9, b10, b11, b12, b13, b14, b15] =
     U128 (be_word b0 b1 b2 b3) (be_word b4 b5 b6 b7) (be_word b8 b9 b10 b11)
       (be_word b12 b13 b14 b15)"
proof -
  have "[0..<16] = [0, 1, 2, 3, 4, 5, 6, 7, 8, 9, 10, 11, 12, 13, 14, 15 :: nat]" by code_simp
  then show ?thesis by (simp add: setValueBE_def setValue32_def be_word_def or.assoc)
qed

lemma bit_be_word:
  "bit (be_word b0 b1 b2 b3) n \<longleftrightarrow>
     (if n < 8 then bit b3 n else if n < 16 then bit b2 (n - 8)
      else if n < 24 then bit b1 (n - 16) else bit b0 (n - 24))"
proof -
  have [simp]: "8 \<le> k \<Longrightarrow> \<not> bit (b :: u8) k" for b k by (auto dest: bit_imp_le_length)
  consider "n < 8" | "8 \<le> n" "n < 16" | "16 \<le> n" "n < 24" | "24 \<le> n" "n < 32" | "32 \<le> n"
    by linarith
  then show ?thesis
    by cases (auto simp: be_word_def bit_or_iff bit_push_bit_iff bit_ucast_iff dest: bit_imp_le_length)
qed

lemma be_word_bytes: "be_word (byte_of w 3) (byte_of w 2) (byte_of w (Suc 0)) (byte_of w 0) = w"
proof (rule bit_word_eqI)
  fix n assume "n < LENGTH(32)"
  then show "bit (be_word (byte_of w 3) (byte_of w 2) (byte_of w (Suc 0)) (byte_of w 0)) n = bit w n"
    by (auto simp: bit_be_word bit_byte_of)
qed

lemma be_bytes_be_word: "be_bytes (be_word b0 b1 b2 b3) = [b0, b1, b2, b3]"
proof -
  have "byte_of (be_word b0 b1 b2 b3) 3 = b0" "byte_of (be_word b0 b1 b2 b3) 2 = b1"
    "byte_of (be_word b0 b1 b2 b3) (Suc 0) = b2" "byte_of (be_word b0 b1 b2 b3) 0 = b3"
    by (rule bit_word_eqI; simp add: bit_be_word bit_byte_of)+
  then show ?thesis by (simp add: be_bytes_def)
qed

lemma toByteArray_chunks:
  "toByteArray (U128 a b c d) = be_bytes a @ be_bytes b @ be_bytes c @ be_bytes d"
  unfolding toByteArray_def upt4 by simp

lemma setValueBE_toByteArray: "setValueBE (toByteArray x) = x"
  by (cases x) (simp add: toByteArray_chunks be_bytes_def setValueBE_words be_word_bytes)

lemma length_4_append:
  "length xs = 4 + n \<Longrightarrow> \<exists>a b c d ys. xs = a # b # c # d # ys \<and> length ys = n"
  by (auto simp: numeral_eq_Suc length_Suc_conv)

lemma length_16_cases:
  assumes "length xs = 16"
  obtains b0 b1 b2 b3 b4 b5 b6 b7 b8 b9 b10 b11 b12 b13 b14 b15
  where "xs = [b0, b1, b2, b3, b4, b5, b6, b7, b8, b9, b10, b11, b12, b13, b14, b15]"
proof -
  obtain a b c d ys where 1: "xs = a # b # c # d # ys" "length ys = 4 + 8"
    using length_4_append [of xs 12] assms by auto
  obtain e f g h zs where 2: "ys = e # f # g # h # zs" "length zs = 4 + 4"
    using length_4_append [of ys 8] 1 by auto
  obtain i j k l us where 3: "zs = i # j # k # l # us" "length us = 4 + 0"
    using length_4_append [of zs 4] 2 by auto
  obtain m n p q vs where 4: "us = m # n # p # q # vs" "length vs = 0"
    using length_4_append [of us 0] 3 by auto
  show ?thesis using that 1 2 3 4 by simp
qed

lemma toByteArray_setValueBE: "length bs = 16 \<Longrightarrow> toByteArray (setValueBE bs) = bs"
  by (elim length_16_cases) (simp add: setValueBE_words toByteArray_chunks be_bytes_be_word)

section \<open>Order\<close>

instantiation uint128 :: linorder
begin

definition less_eq_uint128 :: "uint128 \<Rightarrow> uint128 \<Rightarrow> bool" where
  "less_eq_uint128 a b \<longleftrightarrow> compareTo a b \<le> 0"

definition less_uint128 :: "uint128 \<Rightarrow> uint128 \<Rightarrow> bool" where
  "less_uint128 a b \<longleftrightarrow> compareTo a b < 0"

lemma less_eq_uval: "a \<le> b \<longleftrightarrow> uval a \<le> uval b"
  by (simp add: less_eq_uint128_def compareTo_uval sgn_if)

lemma less_uval: "a < b \<longleftrightarrow> uval a < uval b"
  by (simp add: less_uint128_def compareTo_uval sgn_if)

instance
  by standard (auto simp: less_eq_uval less_uval uval_inject)

end

section \<open>Text\<close>

fun bin_val :: "int \<Rightarrow> string \<Rightarrow> int" where
  "bin_val v [] = v"
| "bin_val v (c # cs) = bin_val (2 * v + (if c = CHR ''1'' then 1 else 0)) cs"

lemma bin_val_dropWhile: "bin_val 0 (dropWhile (\<lambda>c. c = CHR ''0'') s) = bin_val 0 s"
  by (induction s) auto

lemma drop_bit_step:
  "drop_bit k v = 2 * drop_bit (Suc k) v + (if bit v k then 1 else 0)" for v :: int
proof -
  have "drop_bit (Suc k) v = drop_bit k v div 2"
    by (simp add: drop_bit_eq_div power_Suc2 zdiv_zmult2_eq del: power_Suc)
  moreover have "bit v k \<longleftrightarrow> odd (drop_bit k v)" by (simp add: bit_iff_odd_drop_bit)
  ultimately show ?thesis by (simp add: mult_div_mod_eq)
qed

lemma bin_val_bits:
  "k \<le> 128 \<Longrightarrow> bin_val (drop_bit (128 - k) (uval x))
     (map (\<lambda>n. if getBitNumber x n = 0 then CHR ''0'' else CHR ''1'') [k..<128]) = uval x"
proof (induction "128 - k" arbitrary: k)
  case 0
  then show ?case by simp
next
  case (Suc j)
  then have k: "k < 128" "128 - k = Suc j" by simp_all
  then have j: "127 - k = j" "128 - Suc k = j" by simp_all
  have "drop_bit j (uval x) = 2 * drop_bit (Suc j) (uval x) + (if bit (uval x) j then 1 else 0)"
    by (rule drop_bit_step)
  moreover have "[k..<128] = k # [Suc k..<128]" using k by (simp add: upt_conv_Cons)
  moreover have "getBitNumber x k = 0 \<longleftrightarrow> \<not> bit (uval x) j" using k j by (simp add: getBitNumber_uval)
  ultimately show ?case using Suc.hyps(1) [of "Suc k"] k j by (cases "bit (uval x) j") simp_all
qed

lemma bin_val_toBinaryString: "bin_val 0 (toBinaryString trim x) = uval x"
proof -
  have "drop_bit 128 (uval x) = 0" using uval_bounds [of x] by (simp add: drop_bit_eq_div)
  then have full: "bin_val 0 (bit_chars x) = uval x"
    using bin_val_bits [of 0 x] by (simp add: bit_chars_def)
  define t where "t = (if trim then dropWhile (\<lambda>c. c = CHR ''0'') (bit_chars x) else bit_chars x)"
  have "bin_val 0 t = uval x" using full bin_val_dropWhile [of "bit_chars x"] by (simp add: t_def)
  then show ?thesis unfolding toBinaryString_def Let_def t_def [symmetric] by auto
qed

section \<open>Properties\<close>

text \<open>The 128-bit arithmetic of the identifiers wraps around at 2 to the power 128, on
  every path of the four-chunk loops, and the comparison is the unsigned one.\<close>

theorem uint128_arithmetic:
  "uval (add128 a b) = (uval a + uval b) mod 2 ^ 128 \<and>
   uval (subtract128 a b) = (uval a - uval b) mod 2 ^ 128 \<and>
   uval (add32 a v) = (uval a + uint v) mod 2 ^ 128 \<and>
   uval (subtract32 a v) = (uval a - uint v) mod 2 ^ 128 \<and>
   uval (shiftLeft a n) = uval a * 2 ^ n mod 2 ^ 128 \<and>
   compareTo a b = sgn (uval a - uval b)"
  by (intro conjI uval_add128 uval_subtract128 uval_add32 uval_subtract32 uval_shiftLeft compareTo_uval)

text \<open>The 16 wire bytes of an identifier are a faithful encoding in both directions.\<close>

theorem id_bytes_roundtrip:
  "length bs = 16 \<Longrightarrow> toByteArray (setValueBE bs) = bs \<and> setValueBE (toByteArray x) = x"
  by (simp add: toByteArray_setValueBE setValueBE_toByteArray)

end
