(* ===== verification/Net_Address.thy ===== *)
theory Net_Address
  imports Prelude
begin

text \<open>
  IPv4 and IPv6 addresses (src/core/net/Address.cpp, Address.h): construction from either
  byte order, the reserved-range tests that decide which peers are accepted, the mapped
  IPv6 form, and the split of textual endpoints.  The \<open>labMode\<close> argument is the
  process-wide switch \<open>g_labNetworkMode\<close>.  Qt's literal parser and formatter
  (\<open>QHostAddress\<close>) are parameters of the text functions.
\<close>

section \<open>Data\<close>

text \<open>\<open>Family::None\<close>, \<open>Family::IPv4\<close> (host order) and \<open>Family::IPv6\<close> (16 bytes, network order).\<close>

datatype address = NoAddress | IPv4 u32 | IPv6 "u8 list"

fun wf_address :: "address \<Rightarrow> bool" where
  "wf_address NoAddress = True"
| "wf_address (IPv4 ip) = (ip \<noteq> 0)"
| "wf_address (IPv6 bs) = (length bs = 16)"

definition fromHostOrder :: "u32 \<Rightarrow> address" where
  "fromHostOrder ip = (if ip \<noteq> 0 then IPv4 ip else NoAddress)"

text \<open>\<open>ntohl\<close> on the little-endian hosts the program runs on reverses the four bytes.\<close>

definition ntohl :: "u32 \<Rightarrow> u32" where
  "ntohl w = push_bit 24 (ucast (byte_of w 0)) OR push_bit 16 (ucast (byte_of w 1))
     OR push_bit 8 (ucast (byte_of w 2)) OR ucast (byte_of w 3)"

definition fromNetworkOrder :: "u32 \<Rightarrow> address" where
  "fromNetworkOrder ip = (if ip = 0 then NoAddress else IPv4 (ntohl ip))"

fun toUint32 :: "address \<Rightarrow> u32" where
  "toUint32 (IPv4 ip) = ip"
| "toUint32 _ = 0"

fun toNetworkUint32 :: "address \<Rightarrow> u32" where
  "toNetworkUint32 (IPv4 ip) = ntohl ip"
| "toNetworkUint32 _ = 0"

section \<open>Validation\<close>

definition v4_public :: "u32 \<Rightarrow> bool" where
  "v4_public ip =
     (let a = byte_of ip 3; b = byte_of ip 2; c = byte_of ip 1 in
      if a = 0 \<or> a = 10 \<or> a = 127 then False
      else if a = 192 \<and> b = 168 then False
      else if a = 172 \<and> b \<ge> 16 \<and> b \<le> 31 then False
      else if a = 169 \<and> b = 254 then False
      else if a \<ge> 224 \<and> a \<le> 239 then False
      else if a \<ge> 240 then False
      else if a = 100 \<and> b \<ge> 64 \<and> b \<le> 127 then False
      else if a = 192 \<and> b = 0 \<and> (c = 0 \<or> c = 2) then False
      else if a = 192 \<and> b = 88 \<and> c = 99 then False
      else if a = 198 \<and> (b = 18 \<or> b = 19) then False
      else if a = 198 \<and> b = 51 \<and> c = 100 then False
      else if a = 203 \<and> b = 0 \<and> c = 113 then False
      else if a = 233 \<and> b = 252 \<and> c = 0 then False
      else True)"

definition v6_global :: "u8 list \<Rightarrow> bool" where
  "v6_global v =
     (if take 15 v = replicate 15 0 \<and> v ! 15 \<le> 1 then False
      else if v ! 0 = 0xFE \<and> v ! 1 AND 0xC0 = 0x80 then False
      else if v ! 0 AND 0xFE = 0xFC then False
      else if take 10 v = replicate 10 0 \<and> v ! 10 = 0xFF \<and> v ! 11 = 0xFF then False
      else if v ! 0 = 0x00 \<and> v ! 1 = 0x64 \<and> v ! 2 = 0xFF \<and> v ! 3 = 0x9B then False
      else if v ! 0 = 0x01 \<and> v ! 1 = 0x00 then False
      else if v ! 0 = 0x20 \<and> v ! 1 = 0x01 \<and> v ! 2 = 0x00 \<and> v ! 3 = 0x00 then False
      else if v ! 0 = 0x20 \<and> v ! 1 = 0x01 \<and> v ! 2 AND 0xF0 = 0x20 then False
      else if v ! 0 = 0x20 \<and> v ! 1 = 0x01 \<and> v ! 2 = 0x0D \<and> v ! 3 = 0xB8 then False
      else if v ! 0 = 0x20 \<and> v ! 1 = 0x02 then False
      else if v ! 0 = 0x5F \<and> v ! 1 = 0x00 then False
      else if v ! 0 = 0xFF then False
      else True)"

fun isGlobalIP :: "address \<Rightarrow> bool" where
  "isGlobalIP (IPv4 ip) = v4_public ip"
| "isGlobalIP (IPv6 v) = v6_global v"
| "isGlobalIP NoAddress = False"

fun isPublicIP :: "bool \<Rightarrow> address \<Rightarrow> bool" where
  "isPublicIP labMode NoAddress = False"
| "isPublicIP labMode (IPv4 ip) = v4_public ip"
| "isPublicIP labMode (IPv6 v) =
     (if labMode then \<not> list_all (\<lambda>b. b = 0) v \<and> v ! 0 \<noteq> 0xFF else isGlobalIP (IPv6 v))"

fun isRoutable :: "bool \<Rightarrow> bool \<Rightarrow> address \<Rightarrow> bool" where
  "isRoutable labMode allowLan addr =
     (if allowLan then
        (case addr of NoAddress \<Rightarrow> False | IPv4 ip \<Rightarrow> byte_of ip 3 \<noteq> 0 | IPv6 _ \<Rightarrow> True)
      else isPublicIP labMode addr)"

definition v4_lan :: "u32 \<Rightarrow> bool" where
  "v4_lan ip =
     (let a = byte_of ip 3; b = byte_of ip 2 in
      if a = 10 then True
      else if a = 172 \<and> b \<ge> 16 \<and> b \<le> 31 then True
      else if a = 192 \<and> b = 168 then True
      else if a = 127 then True
      else if a = 169 \<and> b = 254 then True
      else False)"

fun isLan :: "address \<Rightarrow> bool" where
  "isLan (IPv4 ip) = v4_lan ip"
| "isLan (IPv6 v) =
     (if v = replicate 15 0 @ [1] then True
      else if v ! 0 = 0xFE \<and> v ! 1 AND 0xC0 = 0x80 then True
      else if v ! 0 AND 0xFE = 0xFC then True
      else False)"
| "isLan NoAddress = False"

text \<open>The classic rule on a network-order integer (src/core/utils/OtherFunctions.cpp).\<close>

definition isLanIP :: "u32 \<Rightarrow> bool" where
  "isLanIP nIP =
     (let a = byte_of nIP 0; b = byte_of nIP 1 in
      if a = 10 then True
      else if a = 172 \<and> b \<ge> 16 \<and> b \<le> 31 then True
      else if a = 192 \<and> b = 168 then True
      else if a = 127 then True
      else if a = 169 \<and> b = 254 then True
      else False)"

definition isGoodIP32 :: "bool \<Rightarrow> u32 \<Rightarrow> bool \<Rightarrow> bool" where
  "isGoodIP32 filterLANIPs nIP forceCheck =
     (let a = byte_of nIP 0 in
      if nIP = 0 \<or> a = 0 \<or> a \<ge> 224 then False
      else if isLanIP nIP \<and> \<not> forceCheck \<and> filterLANIPs then False
      else True)"

text \<open>Lab mode is set from \<open>!filterLANIPs\<close>; both are arguments because both are read.\<close>

fun isGoodIP :: "bool \<Rightarrow> bool \<Rightarrow> address \<Rightarrow> bool \<Rightarrow> bool" where
  "isGoodIP labMode filterLANIPs (IPv4 ip) forceCheck =
     isGoodIP32 filterLANIPs (toNetworkUint32 (IPv4 ip)) forceCheck"
| "isGoodIP labMode filterLANIPs (IPv6 v) forceCheck =
     (if isPublicIP labMode (IPv6 v) then True else forceCheck \<and> isLan (IPv6 v))"
| "isGoodIP labMode filterLANIPs NoAddress forceCheck = False"

section \<open>Conversion and keys\<close>

fun toIPv4 :: "address \<Rightarrow> address" where
  "toIPv4 (IPv4 ip) = IPv4 ip"
| "toIPv4 (IPv6 v) =
     (if take 10 v = replicate 10 0 \<and> v ! 10 = 0xFF \<and> v ! 11 = 0xFF
      then fromNetworkOrder (ucast (v ! 12) OR push_bit 8 (ucast (v ! 13))
             OR push_bit 16 (ucast (v ! 14)) OR push_bit 24 (ucast (v ! 15)))
      else NoAddress)"
| "toIPv4 NoAddress = NoAddress"

fun toIPv6Mapped :: "address \<Rightarrow> address" where
  "toIPv6Mapped (IPv6 v) = IPv6 v"
| "toIPv6Mapped (IPv4 ip) =
     (let nbo = ntohl ip
      in IPv6 (replicate 10 0 @ [0xFF, 0xFF] @ map (byte_of nbo) [0..<4]))"
| "toIPv6Mapped NoAddress = NoAddress"

fun peerKey :: "address \<Rightarrow> address" where
  "peerKey (IPv6 v) = IPv6 (take 8 v @ replicate 8 0)"
| "peerKey a = a"

section \<open>Host and port text\<close>

record host_port =
  hp_host :: string
  hp_port :: nat
  hp_hostIsLiteral :: bool

definition is_digit :: "char \<Rightarrow> bool" where
  "is_digit c \<longleftrightarrow> 48 \<le> (of_char c :: nat) \<and> (of_char c :: nat) \<le> 57"

fun port_digits :: "nat \<Rightarrow> string \<Rightarrow> nat option" where
  "port_digits v [] = Some v"
| "port_digits v (c # cs) =
     (if is_digit c then port_digits (v * 10 + (of_char c - 48)) cs else None)"

definition parsePortDigits :: "string \<Rightarrow> nat option" where
  "parsePortDigits text =
     (if text = [] \<or> length text > 5 then None
      else case port_digits 0 text of
             None \<Rightarrow> None
           | Some value \<Rightarrow> if value > 65535 then None else Some value)"

definition colons :: "string \<Rightarrow> nat" where
  "colons s = count_if (\<lambda>c. c = CHR '':'') s"

fun is_v6 :: "address \<Rightarrow> bool" where
  "is_v6 (IPv6 _) = True"
| "is_v6 _ = False"

text \<open>
  \<open>lit\<close> is \<open>Address::fromString\<close> (Qt's literal parser), \<open>trim\<close> is \<open>QStringView::trimmed\<close>.
\<close>

definition splitHostPort :: "(string \<Rightarrow> address) \<Rightarrow> string \<Rightarrow> nat \<Rightarrow> (string \<times> nat) option" where
  "splitHostPort lit s defaultPort =
     (if hd s = CHR ''['' then
        (let rest = dropWhile (\<lambda>c. c \<noteq> CHR '']'') s in
         if rest = [] then None
         else
           let hostPart = tl (takeWhile (\<lambda>c. c \<noteq> CHR '']'') s); tail = tl rest;
               port = (if tail = [] then Some defaultPort
                       else if hd tail \<noteq> CHR '':'' then None else parsePortDigits (tl tail))
           in case port of None \<Rightarrow> None
              | Some p \<Rightarrow> if is_v6 (lit hostPart) then Some (hostPart, p) else None)
      else if colons s \<ge> 2 then
        (if is_v6 (lit s) then Some (s, defaultPort) else None)
      else
        (let rest = dropWhile (\<lambda>c. c \<noteq> CHR '':'') s in
         if rest = [] then Some (s, defaultPort)
         else case parsePortDigits (tl rest) of None \<Rightarrow> None
              | Some p \<Rightarrow> Some (takeWhile (\<lambda>c. c \<noteq> CHR '':'') s, p)))"

definition parseHostPort ::
  "(string \<Rightarrow> address) \<Rightarrow> (string \<Rightarrow> string) \<Rightarrow> string \<Rightarrow> nat \<Rightarrow> host_port option" where
  "parseHostPort lit trim text defaultPort =
     (let s = trim text in
      if s = [] then None
      else case splitHostPort lit s defaultPort of
             None \<Rightarrow> None
           | Some (host, port) \<Rightarrow>
               if host = [] \<or> port = 0 then None
               else Some \<lparr>hp_host = host, hp_port = port, hp_hostIsLiteral = lit host \<noteq> NoAddress\<rparr>)"

text \<open>\<open>QString::arg(uint)\<close> prints the decimal digits without leading zeros.\<close>

fun digits :: "nat \<Rightarrow> string" where
  "digits n = (if n < 10 then [char_of (48 + n)] else digits (n div 10) @ [char_of (48 + n mod 10)])"

declare digits.simps [simp del]

definition formatHostPort :: "string \<Rightarrow> nat \<Rightarrow> string" where
  "formatHostPort host port =
     (if CHR '':'' \<in> set host then ''['' @ host @ '']:'' @ digits port
      else host @ '':'' @ digits port)"

section \<open>Address lemmas\<close>

lemma if_False_conj: "(if c then False else r) \<longleftrightarrow> \<not> c \<and> r"
  by simp

lemma bit_ntohl: "bit (ntohl w) n \<longleftrightarrow>
   (if n < 8 then bit w (24 + n) else if n < 16 then bit w (8 + n)
    else if n < 24 then bit w (n - 8) else n < 32 \<and> bit w (n - 24))"
proof -
  consider "n < 8" | "8 \<le> n" "n < 16" | "16 \<le> n" "n < 24" | "24 \<le> n" "n < 32" | "32 \<le> n"
    by linarith
  then show ?thesis
    by cases (auto simp: ntohl_def bit_or_iff bit_push_bit_iff bit_ucast_iff bit_byte_of algebra_simps
       dest: bit_imp_le_length)
qed

lemma ntohl_ntohl [simp]: "ntohl (ntohl w) = w"
proof (rule bit_word_eqI)
  fix n assume "n < LENGTH(32)"
  then show "bit (ntohl (ntohl w)) n = bit w n" by (auto simp: bit_ntohl)
qed

lemma byte_of_ntohl:
  "byte_of (ntohl w) 0 = byte_of w 3" "byte_of (ntohl w) (Suc 0) = byte_of w 2"
  "byte_of (ntohl w) 2 = byte_of w (Suc 0)" "byte_of (ntohl w) 3 = byte_of w 0"
  by (rule bit_word_eqI; simp add: bit_byte_of bit_ntohl)+

lemma ntohl_0_iff [simp]: "ntohl w = 0 \<longleftrightarrow> w = 0"
proof
  assume "ntohl w = 0"
  then have "ntohl (ntohl w) = ntohl 0" by simp
  moreover have "ntohl 0 = 0" by (rule bit_word_eqI) (simp add: bit_ntohl)
  ultimately show "w = 0" by simp
next
  assume "w = 0"
  have "ntohl 0 = 0" by (rule bit_word_eqI) (simp add: bit_ntohl)
  then show "ntohl w = 0" using \<open>w = 0\<close> by simp
qed

lemma network_host_order: "fromNetworkOrder (toNetworkUint32 (fromHostOrder ip)) = fromHostOrder ip"
  by (simp add: fromHostOrder_def fromNetworkOrder_def)

lemma wf_fromHostOrder: "wf_address (fromHostOrder ip)"
  by (simp add: fromHostOrder_def)

lemma toUint32_fromHostOrder [simp]: "toUint32 (fromHostOrder ip) = ip"
  by (simp add: fromHostOrder_def)

lemma isLanIP_v4_lan: "isLanIP (ntohl ip) = v4_lan ip"
  by (simp add: isLanIP_def v4_lan_def byte_of_ntohl)

lemma public_not_lan_v4: "v4_public ip \<Longrightarrow> \<not> v4_lan ip"
  by (auto simp: v4_public_def v4_lan_def Let_def split: if_splits)

lemma good_v4: "isGoodIP labMode filterLAN (IPv4 ip) force \<longleftrightarrow>
   byte_of ip 3 \<noteq> 0 \<and> byte_of ip 3 < 224 \<and> (v4_lan ip \<longrightarrow> force \<or> \<not> filterLAN)"
proof -
  have "ip = 0 \<Longrightarrow> byte_of ip 3 = 0" by (simp add: byte_of_def)
  then show ?thesis by (auto simp: isGoodIP32_def Let_def byte_of_ntohl isLanIP_v4_lan not_le)
qed

lemma v4_public_good: "v4_public ip \<Longrightarrow> isGoodIP labMode filterLAN (IPv4 ip) force"
proof -
  assume pub: "v4_public ip"
  have "byte_of ip 3 \<noteq> 0" using pub by (auto simp: v4_public_def Let_def)
  moreover have "byte_of ip 3 < 224"
  proof (rule ccontr)
    assume "\<not> byte_of ip 3 < 224"
    then have "224 \<le> byte_of ip 3" by simp
    then have "byte_of ip 3 \<le> 239 \<or> 240 \<le> byte_of ip 3"
      by (simp add: word_le_nat_alt) linarith
    with \<open>224 \<le> byte_of ip 3\<close> have "\<not> v4_public ip"
      by (elim disjE) (simp_all add: v4_public_def Let_def)
    with pub show False by simp
  qed
  ultimately show ?thesis using public_not_lan_v4 [OF pub] unfolding good_v4 by blast
qed

lemma v6_global_not_lan: "length v = 16 \<Longrightarrow> v6_global v \<Longrightarrow> \<not> isLan (IPv6 v)"
proof -
  assume g: "v6_global v"
  have "v \<noteq> replicate 15 0 @ [1]"
  proof
    assume "v = replicate 15 0 @ [1]"
    then have "take 15 v = replicate 15 0 \<and> v ! 15 \<le> 1" by (simp add: nth_append)
    with g show False by (simp add: v6_global_def)
  qed
  moreover have "\<not> (v ! 0 = 0xFE \<and> v ! 1 AND 0xC0 = 0x80) \<and> v ! 0 AND 0xFE \<noteq> 0xFC"
    using g unfolding v6_global_def if_False_conj by blast
  ultimately show ?thesis by simp
qed

lemma toIPv4_toIPv6Mapped:
  assumes "ip \<noteq> 0"
  shows "toIPv4 (toIPv6Mapped (IPv4 ip)) = IPv4 ip"
proof -
  let ?n = "ntohl ip"
  have w: "ucast (byte_of ?n 0) OR push_bit 8 (ucast (byte_of ?n 1))
     OR push_bit 16 (ucast (byte_of ?n 2)) OR push_bit 24 (ucast (byte_of ?n 3)) = ?n" (is "?w = _")
  proof (rule bit_word_eqI)
    fix n assume n: "n < LENGTH(32)"
    consider "n < 8" | "8 \<le> n" "n < 16" | "16 \<le> n" "n < 24" | "24 \<le> n" "n < 32"
      using n by force
    then show "bit ?w n = bit ?n n"
      by cases (auto simp: bit_or_iff bit_push_bit_iff bit_ucast_iff bit_byte_of)
  qed
  have "[0..<4] = [0, 1, 2, 3 :: nat]" by code_simp
  then have "toIPv6Mapped (IPv4 ip) =
     IPv6 (replicate 10 0 @ [0xFF, 0xFF] @ [byte_of ?n 0, byte_of ?n 1, byte_of ?n 2, byte_of ?n 3])"
    by (simp add: Let_def)
  then have "toIPv4 (toIPv6Mapped (IPv4 ip)) = fromNetworkOrder ?w"
    by (simp add: nth_append)
  with assms show ?thesis unfolding w by (simp add: fromNetworkOrder_def)
qed

lemma mapped_not_public:
  "\<not> isPublicIP False (toIPv6Mapped (IPv4 ip))"
  by (simp add: v6_global_def nth_append)

lemma peerKey_idem [simp]: "wf_address a \<Longrightarrow> peerKey (peerKey a) = peerKey a"
  by (cases a) auto

section \<open>Subnets\<close>

definition same_subnet :: "u32 \<Rightarrow> u32 \<Rightarrow> bool" where
  "same_subnet x y \<longleftrightarrow> (x XOR y) AND NOT 0xFF = 0"

definition subnet_of :: "u32 \<Rightarrow> u32" where
  "subnet_of ip = ip AND NOT 0xFF"

lemma bit_not_FF: "bit (NOT (0xFF :: u32)) n \<longleftrightarrow> 8 \<le> n \<and> n < 32"
proof -
  have "(0xFF :: u32) = mask 8" by (simp add: mask_eq_exp_minus_1)
  then show ?thesis unfolding \<open>(0xFF :: u32) = mask 8\<close> by (auto simp only: bit_not_iff bit_mask_iff possible_bit_word len_num1 len_bit0 len_bit1)
qed

lemma bit_subnet_of: "bit (subnet_of ip) n \<longleftrightarrow> 8 \<le> n \<and> bit ip n"
  unfolding subnet_of_def bit_and_iff bit_not_FF by (auto dest: bit_imp_le_length)

lemma xor_eq_0_iff: "x XOR y = 0 \<longleftrightarrow> x = y" for x y :: "'a::len word"
proof
  assume "x XOR y = 0"
  then have "(x XOR y) XOR y = 0 XOR y" by (rule arg_cong)
  then show "x = y" by (simp only: xor.assoc xor_self_eq xor.right_neutral xor.left_neutral)
qed simp

lemma same_subnet_iff: "same_subnet x y \<longleftrightarrow> subnet_of x = subnet_of y"
proof -
  have "(x XOR y) AND NOT 0xFF = subnet_of x XOR subnet_of y"
    unfolding subnet_of_def by (rule bit_word_eqI) (auto simp only: bit_and_iff bit_xor_iff)
  then show ?thesis unfolding same_subnet_def by (simp only: xor_eq_0_iff)
qed

lemma same_subnet_refl [simp]: "same_subnet x x"
  by (simp add: same_subnet_iff)

lemma same_subnet_sym: "same_subnet x y = same_subnet y x"
  by (auto simp: same_subnet_iff)

lemma byte_of_subnet: "k \<in> {1, 2, 3} \<Longrightarrow> byte_of (subnet_of ip) k = byte_of ip k"
  by (rule bit_word_eqI) (auto simp: bit_byte_of bit_subnet_of)

text \<open>Whether an address is a LAN address depends on its /24 only.\<close>

lemma same_subnet_lan: "same_subnet x y \<Longrightarrow> v4_lan x = v4_lan y"
proof -
  assume "same_subnet x y"
  then have "subnet_of x = subnet_of y" by (simp add: same_subnet_iff)
  moreover have "byte_of (subnet_of z) 3 = byte_of z 3" "byte_of (subnet_of z) 2 = byte_of z 2" for z
    by (rule byte_of_subnet; simp)+
  ultimately have "byte_of x 3 = byte_of y 3" "byte_of x 2 = byte_of y 2" by metis+
  then show ?thesis by (simp add: v4_lan_def)
qed

section \<open>Host and port round trip\<close>

lemma digit_char: "n < 10 \<Longrightarrow> is_digit (char_of (48 + n)) \<and> of_char (char_of (48 + n :: nat) :: char) = 48 + n"
  by (simp add: is_digit_def)

lemma port_digits_append:
  "port_digits v (s @ t) = (case port_digits v s of None \<Rightarrow> None | Some w \<Rightarrow> port_digits w t)"
  by (induction s arbitrary: v) auto

lemma port_digits_digits: "port_digits 0 (digits n) = Some n"
proof (induction n rule: digits.induct)
  case (1 n)
  then show ?case
    by (cases "n < 10") (simp_all add: digits.simps [of n] port_digits_append digit_char)
qed

lemma length_digits: "n < 10 ^ k \<Longrightarrow> 0 < k \<Longrightarrow> length (digits n) \<le> k"
proof (induction n arbitrary: k rule: digits.induct)
  case (1 n)
  show ?case
  proof (cases "n < 10")
    case True
    with 1 show ?thesis by (simp add: digits.simps [of n])
  next
    case False
    with "1.prems" obtain j where k: "k = Suc j" "0 < j"
      by (cases k; cases "k - 1") auto
    with "1.prems" have "n div 10 < 10 ^ j" by (simp add: less_mult_imp_div_less mult.commute)
    with "1.IH" False k show ?thesis by (simp add: digits.simps [of n])
  qed
qed

lemma digits_not_nil: "digits n \<noteq> []"
  by (subst digits.simps) simp

lemma parsePortDigits_digits: "n \<le> 65535 \<Longrightarrow> parsePortDigits (digits n) = Some n"
  using length_digits [of n 5] by (simp add: parsePortDigits_def port_digits_digits digits_not_nil)

lemma takeWhile_dropWhile_split:
  "c \<notin> set xs \<Longrightarrow> takeWhile (\<lambda>x. x \<noteq> c) (xs @ c # ys) = xs \<and> dropWhile (\<lambda>x. x \<noteq> c) (xs @ c # ys) = c # ys"
  by (induction xs) auto

lemma colons_append: "colons (s @ t) = colons s + colons t"
  by (simp add: colons_def)

lemma digits_no_colon: "colons (digits n) = 0"
proof (induction n rule: digits.induct)
  case (1 n)
  have "char_of (48 + m) \<noteq> CHR '':''" if "m < 10" for m :: nat
  proof
    assume "char_of (48 + m) = CHR '':''"
    then have "is_digit (CHR '':'')" using digit_char [OF that] by simp
    then show False by (simp add: is_digit_def)
  qed
  note this [simp]
  have "n mod 10 < 10" by simp
  with 1 show ?case
    by (cases "n < 10") (simp_all add: digits.simps [of n] colons_append, simp_all add: colons_def)
qed

lemma colons_0: "colons s = 0 \<longleftrightarrow> CHR '':'' \<notin> set s"
  by (auto simp: colons_def count_if_0)

lemma splitHostPort_plain:
  assumes "CHR '':'' \<notin> set host" "host \<noteq> []" "hd host \<noteq> CHR ''[''" "port \<le> 65535"
  shows "splitHostPort lit (host @ '':'' @ digits port) d = Some (host, port)"
proof -
  have "colons host = 0" "colons '':'' = 1" using assms(1) colons_0 by (auto simp: colons_def)
  then have "colons (host @ '':'' @ digits port) = 1"
    using digits_no_colon [of port] by (metis add.commute add_0 colons_append)
  moreover have "hd (host @ '':'' @ digits port) \<noteq> CHR ''[''" using assms by (cases host) auto
  ultimately show ?thesis
    using takeWhile_dropWhile_split [OF assms(1), of "digits port"] parsePortDigits_digits [OF assms(4)]
    by (simp add: splitHostPort_def Let_def)
qed

lemma splitHostPort_bracketed:
  assumes "CHR '']'' \<notin> set host" "is_v6 (lit host)" "port \<le> 65535"
  shows "splitHostPort lit (''['' @ host @ '']:'' @ digits port) d = Some (host, port)"
proof -
  have "CHR '']'' \<notin> set (''['' @ host)" using assms by simp
  from takeWhile_dropWhile_split [OF this, of "'':'' @ digits port"] show ?thesis
    using assms(2) parsePortDigits_digits [OF assms(3)] by (simp add: splitHostPort_def Let_def)
qed

lemma splitHostPort_multi_colon:
  assumes "hd s \<noteq> CHR ''[''" "2 \<le> colons s" "splitHostPort lit s d = Some (h, p)"
  shows "h = s \<and> p = d \<and> is_v6 (lit s)"
  using assms by (simp add: splitHostPort_def split: if_splits)

section \<open>Properties\<close>

text \<open>What \<open>formatHostPort\<close> prints, \<open>parseHostPort\<close> reads back: a name, an IPv4 literal,
  or an IPv6 literal in brackets, with any port from 1 to 65535.\<close>

theorem host_port_roundtrip:
  assumes "host \<noteq> []" "0 < port" "port \<le> 65535"
    and "CHR '':'' \<in> set host \<Longrightarrow> is_v6 (lit host) \<and> CHR '']'' \<notin> set host"
    and "CHR '':'' \<notin> set host \<Longrightarrow> hd host \<noteq> CHR ''[''"
    and "trim (formatHostPort host port) = formatHostPort host port"
  shows "parseHostPort lit trim (formatHostPort host port) d =
    Some \<lparr>hp_host = host, hp_port = port, hp_hostIsLiteral = lit host \<noteq> NoAddress\<rparr>"
proof -
  have "splitHostPort lit (formatHostPort host port) d = Some (host, port)"
    using assms splitHostPort_plain [of host port lit d] splitHostPort_bracketed [of host lit port d]
    by (cases "CHR '':'' \<in> set host") (simp_all add: formatHostPort_def)
  then show ?thesis using assms by (auto simp: parseHostPort_def Let_def formatHostPort_def)
qed

text \<open>A public IPv4 address is never a LAN one and is always a good peer address; with the
  LAN filter off, the good addresses are exactly the host addresses outside 0/8 and 224/3.\<close>

theorem address_classes:
  "(v4_public ip \<longrightarrow> \<not> isLan (IPv4 ip) \<and> isGoodIP labMode filterLAN (IPv4 ip) force) \<and>
   (isGoodIP labMode False (IPv4 ip) force \<longleftrightarrow> byte_of ip 3 \<noteq> 0 \<and> byte_of ip 3 < 224)"
  using public_not_lan_v4 v4_public_good good_v4 by auto

end
