(* ===== verification/Kad_Contact.thy ===== *)
theory Kad_Contact
  imports Kad_UInt128 Net_Address "HOL-Library.Signed_Division"
begin

text \<open>
  A node of the Kademlia network (src/core/kademlia/KadContact.cpp) and its liveness
  state machine: type 0 (seen for hours) to 4 (expired).  Times are seconds; the clock
  reading of each call is an argument.  The reference count \<open>m_inUse\<close> is mutated through
  pointers that searches share with the table, so it is kept in a store of its own, from
  node identifier to count (\<open>Kad_RoutingBin\<close>).
\<close>

section \<open>Keys and contacts\<close>

record udp_key =
  key_value :: u32
  key_ip :: u32

definition getKeyValue :: "udp_key \<Rightarrow> u32 \<Rightarrow> u32" where
  "getKeyValue k myIP = (if myIP = key_ip k then key_value k else 0)"

definition key_isEmpty :: "udp_key \<Rightarrow> bool" where
  "key_isEmpty k \<longleftrightarrow> key_value k = 0 \<or> key_ip k = 0"

record contact =
  c_clientId :: uint128
  c_distance :: uint128
  c_udpKey :: udp_key
  c_lastTypeSet :: int
  c_checkStart :: int
  c_recheckAt :: int
  c_expires :: int
  c_created :: int
  c_address :: address
  c_tcpPort :: u16
  c_udpPort :: u16
  c_version :: nat
  c_type :: nat
  c_typeBeforeCheck :: nat
  c_ipVerified :: bool
  c_receivedHello :: bool

definition newContact ::
  "int \<Rightarrow> uint128 \<Rightarrow> u32 \<Rightarrow> u16 \<Rightarrow> u16 \<Rightarrow> nat \<Rightarrow> udp_key \<Rightarrow> bool \<Rightarrow> uint128 \<Rightarrow> contact" where
  "newContact now clientId ip udpPort tcpPort version udpKey ipVerified localKadId =
     \<lparr>c_clientId = clientId, c_distance = xorWith localKadId clientId, c_udpKey = udpKey,
      c_lastTypeSet = now, c_checkStart = 0, c_recheckAt = 0, c_expires = 0, c_created = now,
      c_address = fromHostOrder ip, c_tcpPort = tcpPort, c_udpPort = udpPort,
      c_version = version, c_type = 3, c_typeBeforeCheck = 3,
      c_ipVerified = ipVerified, c_receivedHello = False\<rparr>"

definition setClientID :: "uint128 \<Rightarrow> uint128 \<Rightarrow> contact \<Rightarrow> contact" where
  "setClientID clientId localKadId c =
     c\<lparr>c_clientId := clientId, c_distance := xorWith localKadId clientId\<rparr>"

definition setAddress :: "address \<Rightarrow> contact \<Rightarrow> contact" where
  "setAddress addr c =
     (if c_address c \<noteq> addr then c\<lparr>c_ipVerified := False, c_address := addr\<rparr> else c)"

abbreviation cip :: "contact \<Rightarrow> u32" where
  "cip c \<equiv> toUint32 (c_address c)"

section \<open>Liveness\<close>

definition strength :: "contact \<Rightarrow> int" where
  "strength c = (4 - min (int (c_type c)) 4) * 40
     + (if c_ipVerified c then 100 else 0)
     + (if c_receivedHello c then 30 else 0)
     + (if \<not> key_isEmpty (c_udpKey c) then 20 else 0)"

definition updateType :: "int \<Rightarrow> contact \<Rightarrow> contact" where
  "updateType now c =
     (let h = (now - c_created c) sdiv 3600;
          c1 = (if h = 0 then c\<lparr>c_type := 2, c_expires := now + 3600\<rparr>
                else if h = 1 then c\<lparr>c_type := 1, c_expires := now + 5400\<rparr>
                else c\<lparr>c_type := 0, c_expires := now + 7200\<rparr>)
      in c1\<lparr>c_checkStart := 0, c_recheckAt := 0\<rparr>)"

definition checkingType :: "int \<Rightarrow> contact \<Rightarrow> contact" where
  "checkingType now c =
     (if now - c_lastTypeSet c \<ge> 10 \<and> c_type c < 4 then
        let c1 = c\<lparr>c_lastTypeSet := now, c_expires := now + 120\<rparr>;
            c2 = (if c_checkStart c1 = 0
                  then c1\<lparr>c_checkStart := c_lastTypeSet c1, c_typeBeforeCheck := c_type c1\<rparr>
                  else c1)
        in c2\<lparr>c_type := c_type c2 + 1, c_recheckAt := 0\<rparr>
      else c)"

definition voidChecksSince :: "int \<Rightarrow> int \<Rightarrow> contact \<Rightarrow> contact" where
  "voidChecksSince since now c =
     (if c_checkStart c = 0 \<or> c_checkStart c < since then c
      else c\<lparr>c_type := c_typeBeforeCheck c, c_checkStart := 0, c_expires := now\<rparr>)"

definition expire :: "contact \<Rightarrow> contact" where
  "expire c = c\<lparr>c_type := 4, c_expires := 1\<rparr>"

definition markRecheck :: "int \<Rightarrow> contact \<Rightarrow> contact" where
  "markRecheck at c = c\<lparr>c_recheckAt := at\<rparr>"

definition isRecheckDue :: "int \<Rightarrow> contact \<Rightarrow> bool" where
  "isRecheckDue now c \<longleftrightarrow> c_recheckAt c \<noteq> 0 \<and> c_recheckAt c \<le> now"

definition getLastSeen :: "contact \<Rightarrow> int" where
  "getLastSeen c =
     (if c_expires c > 0 then
        (if c_type c = 2 then c_expires c - 3600
         else if c_type c = 1 then c_expires c - 5400
         else if c_type c = 0 then c_expires c - 7200
         else 0)
      else 0)"

section \<open>The contact invariant\<close>

definition wf_contact :: "contact \<Rightarrow> bool" where
  "wf_contact c \<longleftrightarrow> c_type c \<le> 4 \<and> c_typeBeforeCheck c \<le> 4 \<and>
     (c_checkStart c \<noteq> 0 \<longrightarrow> c_typeBeforeCheck c \<le> c_type c \<and> c_checkStart c \<le> c_lastTypeSet c)"

lemma wf_newContact [kad_inv]: "wf_contact (newContact now cid ip up tp v k iv lid)"
  by (simp add: wf_contact_def newContact_def)

lemma wf_updateType [kad_inv]: "wf_contact c \<Longrightarrow> wf_contact (updateType now c)"
  by (simp add: wf_contact_def updateType_def Let_def)

lemma wf_checkingType [kad_inv]: "wf_contact c \<Longrightarrow> wf_contact (checkingType now c)"
  by (auto simp: wf_contact_def checkingType_def Let_def)

lemma wf_voidChecksSince [kad_inv]: "wf_contact c \<Longrightarrow> wf_contact (voidChecksSince since now c)"
  by (auto simp: wf_contact_def voidChecksSince_def)

lemma wf_expire [kad_inv]: "wf_contact c \<Longrightarrow> wf_contact (expire c)"
  by (auto simp: wf_contact_def expire_def)

lemma wf_markRecheck [kad_inv]: "wf_contact c \<Longrightarrow> wf_contact (markRecheck at c)"
  by (auto simp: wf_contact_def markRecheck_def)

lemma wf_setAddress [kad_inv]: "wf_contact c \<Longrightarrow> wf_contact (setAddress a c)"
  by (auto simp: wf_contact_def setAddress_def)

text \<open>No liveness operation touches identity, address or distance.\<close>

lemma ident_simps [simp]:
  "c_clientId (updateType now c) = c_clientId c" "c_distance (updateType now c) = c_distance c"
  "c_address (updateType now c) = c_address c"
  "c_clientId (checkingType now c) = c_clientId c" "c_distance (checkingType now c) = c_distance c"
  "c_address (checkingType now c) = c_address c"
  "c_clientId (voidChecksSince s now c) = c_clientId c" "c_distance (voidChecksSince s now c) = c_distance c"
  "c_address (voidChecksSince s now c) = c_address c"
  "c_clientId (markRecheck at c) = c_clientId c" "c_distance (markRecheck at c) = c_distance c"
  "c_address (markRecheck at c) = c_address c"
  "c_clientId (setAddress a c) = c_clientId c" "c_distance (setAddress a c) = c_distance c"
  "c_address (setAddress a c) = a"
  by (simp_all add: updateType_def checkingType_def voidChecksSince_def markRecheck_def
      setAddress_def Let_def)

lemma newContact_simps [simp]:
  "c_clientId (newContact now cid ip up tp v k iv lid) = cid"
  "c_distance (newContact now cid ip up tp v k iv lid) = xorWith lid cid"
  "c_address (newContact now cid ip up tp v k iv lid) = fromHostOrder ip"
  by (simp_all add: newContact_def)

lemma getLastSeen_updateType: "- 3600 < now \<Longrightarrow> getLastSeen (updateType now c) = now"
  by (simp add: getLastSeen_def updateType_def Let_def)

lemma strength_bounds: "0 \<le> strength c \<and> strength c \<le> 310"
  by (simp add: strength_def min_def)

section \<open>Runs of checks\<close>

abbreviation checks :: "int list \<Rightarrow> contact \<Rightarrow> contact" where
  "checks ts c \<equiv> fold checkingType ts c"

lemma checks_started:
  assumes "c_checkStart c \<noteq> 0" "\<forall>t \<in> set ts. t \<noteq> 0"
  shows "c_checkStart (checks ts c) = c_checkStart c"
    and "c_typeBeforeCheck (checks ts c) = c_typeBeforeCheck c"
proof -
  have "c_checkStart (checks ts c) = c_checkStart c \<and> c_typeBeforeCheck (checks ts c) = c_typeBeforeCheck c"
    using assms by (induction ts arbitrary: c) (auto simp: checkingType_def Let_def)
  then show "c_checkStart (checks ts c) = c_checkStart c"
    "c_typeBeforeCheck (checks ts c) = c_typeBeforeCheck c" by simp_all
qed

lemma checks_first:
  assumes "c_checkStart c = 0" "\<forall>t \<in> set ts. t \<noteq> 0" "\<forall>t \<in> set ts. since \<le> t"
  shows "(c_checkStart (checks ts c) = 0 \<and> c_type (checks ts c) = c_type c)
    \<or> (since \<le> c_checkStart (checks ts c) \<and> c_checkStart (checks ts c) \<noteq> 0
        \<and> c_typeBeforeCheck (checks ts c) = c_type c)"
  using assms
proof (induction ts arbitrary: c)
  case Nil
  then show ?case by simp
next
  case (Cons t ts)
  show ?case
  proof (cases "t - c_lastTypeSet c \<ge> 10 \<and> c_type c < 4")
    case True
    then have "c_checkStart (checkingType t c) = t" "c_typeBeforeCheck (checkingType t c) = c_type c"
      using Cons.prems by (simp_all add: checkingType_def Let_def)
    with Cons.prems checks_started [of "checkingType t c" ts] show ?thesis by simp
  next
    case False
    then have "checkingType t c = c" by (auto simp: checkingType_def)
    with Cons show ?thesis by simp
  qed
qed

section \<open>Properties\<close>

text \<open>Checks that all started during an outage leave no trace: when the outage is over,
  \<open>voidChecksSince\<close> gives the contact the type it had before them, however many there were.\<close>

theorem outage_leaves_type:
  assumes "c_checkStart c = 0" "\<forall>t \<in> set ts. t \<noteq> 0" "\<forall>t \<in> set ts. since \<le> t"
  shows "c_type (voidChecksSince since now (checks ts c)) = c_type c"
  using checks_first [OF assms] by (auto simp: voidChecksSince_def)

end
