(* ===== verification/Kad_RoutingBin.thy ===== *)
theory Kad_RoutingBin
  imports Kad_Contact
begin

text \<open>
  The K-bucket (src/core/kademlia/KadRoutingBin.cpp): at most K contacts, oldest first,
  and the process-wide maps that count the contacts of each IP and of each /24.  A bin is
  the list of its contacts; the two static maps are a record passed through every
  operation.  Pointer comparison of contacts is comparison of identifiers, which the
  invariant keeps distinct in a bin.  The use counts of the contacts live in a store that
  \<open>getClosestTo\<close> updates.
\<close>

section \<open>Global tracking\<close>

definition kK :: nat where
  "kK = 10"

definition kMaxContactsSubnet :: nat where
  "kMaxContactsSubnet = 10"

definition kMaxContactsIP :: nat where
  "kMaxContactsIP = 1"

record tracking =
  contactIPs :: "u32 \<rightharpoonup> nat"
  contactSubnets :: "u32 \<rightharpoonup> nat"

definition cnt :: "(u32 \<rightharpoonup> nat) \<Rightarrow> u32 \<Rightarrow> nat" where
  "cnt m k = (case m k of None \<Rightarrow> 0 | Some n \<Rightarrow> n)"

definition put_cnt :: "(u32 \<rightharpoonup> nat) \<Rightarrow> u32 \<Rightarrow> nat \<Rightarrow> (u32 \<rightharpoonup> nat)" where
  "put_cnt m k n = (if n \<noteq> 0 then m(k \<mapsto> n) else m(k := None))"

definition resetGlobalTracking :: tracking where
  "resetGlobalTracking = \<lparr>contactIPs = Map.empty, contactSubnets = Map.empty\<rparr>"

definition adjustGlobalTracking :: "u32 \<Rightarrow> bool \<Rightarrow> tracking \<Rightarrow> tracking" where
  "adjustGlobalTracking ip increase t =
     (let n = cnt (contactIPs t) ip;
          n' = (if increase then n + 1 else if n = 0 then n else n - 1);
          s = subnet_of ip;
          m = cnt (contactSubnets t) s;
          m' = (if increase then m + 1 else if m = 0 then m else m - 1)
      in \<lparr>contactIPs = put_cnt (contactIPs t) ip n',
          contactSubnets = put_cnt (contactSubnets t) s m'\<rparr>)"

definition checkGlobalIPLimits :: "u32 \<Rightarrow> tracking \<Rightarrow> bool" where
  "checkGlobalIPLimits ip t =
     (if cnt (contactIPs t) ip \<ge> kMaxContactsIP then False
      else if cnt (contactSubnets t) (subnet_of ip) \<ge> kMaxContactsSubnet
              \<and> \<not> isLan (fromHostOrder ip) then False
      else True)"

section \<open>Bins\<close>

type_synonym bin = "contact list"

type_synonym uses = "uint128 \<Rightarrow> nat"

definition incUse :: "uint128 \<Rightarrow> uses \<Rightarrow> uses" where
  "incUse k u = u(k := u k + 1)"

definition decUse :: "uint128 \<Rightarrow> uses \<Rightarrow> uses" where
  "decUse k u = (if u k > 0 then u(k := u k - 1) else u)"

definition inUse :: "uses \<Rightarrow> contact \<Rightarrow> bool" where
  "inUse u c \<longleftrightarrow> u (c_clientId c) > 0"

definition removeId :: "uint128 \<Rightarrow> bin \<Rightarrow> bin" where
  "removeId k b = filter (\<lambda>c. c_clientId c \<noteq> k) b"

definition updateId :: "uint128 \<Rightarrow> (contact \<Rightarrow> contact) \<Rightarrow> bin \<Rightarrow> bin" where
  "updateId k f b = map (\<lambda>c. if c_clientId c = k then f c else c) b"

definition getContact :: "uint128 \<Rightarrow> bin \<Rightarrow> contact option" where
  "getContact k b = find (\<lambda>c. k = c_clientId c) b"

definition getContactByIP :: "u32 \<Rightarrow> u16 \<Rightarrow> bool \<Rightarrow> bin \<Rightarrow> contact option" where
  "getContactByIP ip port tcpPort b =
     find (\<lambda>c. ip = cip c \<and> ((\<not> tcpPort \<and> port = c_udpPort c) \<or> (tcpPort \<and> port = c_tcpPort c)
                               \<or> port = 0)) b"

definition getOldest :: "bin \<Rightarrow> contact option" where
  "getOldest b = (case b of [] \<Rightarrow> None | c # _ \<Rightarrow> Some c)"

text \<open>\<open>kK - size\<close> is unsigned: it would wrap above K.\<close>

definition getRemaining :: "bin \<Rightarrow> int" where
  "getRemaining b = (int kK - int (length b)) mod 2 ^ 32"

fun addContact_scan :: "contact \<Rightarrow> nat \<Rightarrow> bin \<Rightarrow> nat option" where
  "addContact_scan contact n [] = Some n"
| "addContact_scan contact n (c # cs) =
     (if c_clientId contact = c_clientId c then None
      else addContact_scan contact (n + (if same_subnet (cip contact) (cip c) then 1 else 0)) cs)"

definition addContact :: "contact \<Rightarrow> bin \<Rightarrow> tracking \<Rightarrow> bool \<times> bin \<times> tracking" where
  "addContact contact b t =
     (let ip = cip contact in
      case addContact_scan contact 0 b of
        None \<Rightarrow> (False, b, t)
      | Some sameSubnets \<Rightarrow>
          if \<not> checkGlobalIPLimits ip t then (False, b, t)
          else if sameSubnets \<ge> 2 \<and> \<not> isLan (c_address contact) then (False, b, t)
          else if length b < kK then (True, b @ [contact], adjustGlobalTracking ip True t)
          else (False, b, t))"

definition removeContact :: "contact \<Rightarrow> bin \<Rightarrow> tracking \<Rightarrow> bin \<times> tracking" where
  "removeContact c b t =
     (removeId (c_clientId c) b, adjustGlobalTracking (cip c) False t)"

definition pushToBottom :: "contact \<Rightarrow> bin \<Rightarrow> bin" where
  "pushToBottom c b = removeId (c_clientId c) b @ [c]"

definition setAlive :: "int \<Rightarrow> uint128 \<Rightarrow> bin \<Rightarrow> bin" where
  "setAlive now k b =
     (case getContact k b of None \<Rightarrow> b | Some c \<Rightarrow> pushToBottom (updateType now c) b)"

definition setTCPPort :: "int \<Rightarrow> u32 \<Rightarrow> u16 \<Rightarrow> u16 \<Rightarrow> bin \<Rightarrow> bin" where
  "setTCPPort now ip udpPort tcpPort b =
     (case find (\<lambda>c. ip = cip c \<and> udpPort = c_udpPort c) b of
        None \<Rightarrow> b
      | Some c \<Rightarrow> pushToBottom (updateType now (c\<lparr>c_tcpPort := tcpPort\<rparr>)) b)"

text \<open>The scan for the weakest contact: \<open>None\<close> is the early return on a known identifier.\<close>

definition rank_of :: "contact \<Rightarrow> int" where
  "rank_of c = (if c_type c = 4 then - 1 else strength c)"

fun pickVictim :: "uses \<Rightarrow> uint128 \<Rightarrow> contact option \<Rightarrow> bin \<Rightarrow> contact option option" where
  "pickVictim u nid v [] = Some v"
| "pickVictim u nid v (c # cs) =
     (if c_clientId c = nid then None
      else if inUse u c then pickVictim u nid v cs
      else case v of
             None \<Rightarrow> pickVictim u nid (Some c) cs
           | Some w \<Rightarrow> pickVictim u nid (if rank_of c < rank_of w then Some c else v) cs)"

definition kReplaceMargin :: int where
  "kReplaceMargin = 120"

definition replaceAllowed :: "contact \<Rightarrow> contact \<Rightarrow> bin \<Rightarrow> tracking \<Rightarrow> bool" where
  "replaceAllowed newcomer victim b t =
     (let ip = cip newcomer; victimIP = cip victim; lan = isLan (c_address newcomer);
          n = cnt (contactIPs t) ip;
          sameIP = (if ip = victimIP \<and> n > 0 then n - 1 else n);
          m = cnt (contactSubnets t) (subnet_of ip);
          sameSubnet = (if same_subnet ip victimIP \<and> m > 0 then m - 1 else m);
          inBin = count_if (\<lambda>c. same_subnet ip (cip c)) (removeId (c_clientId victim) b)
      in if sameIP \<ge> kMaxContactsIP then False
         else if sameSubnet \<ge> kMaxContactsSubnet \<and> \<not> lan then False
         else if inBin \<ge> 2 \<and> \<not> lan then False
         else True)"

definition replaceWeakest ::
  "uses \<Rightarrow> contact \<Rightarrow> bin \<Rightarrow> tracking \<Rightarrow> contact option \<times> bin \<times> tracking" where
  "replaceWeakest u newcomer b t =
     (if length b < kK then (None, b, t)
      else case pickVictim u (c_clientId newcomer) None b of
             None \<Rightarrow> (None, b, t)
           | Some None \<Rightarrow> (None, b, t)
           | Some (Some victim) \<Rightarrow>
               if c_type victim \<noteq> 4 \<and> strength newcomer < strength victim + kReplaceMargin
               then (None, b, t)
               else if \<not> replaceAllowed newcomer victim b t then (None, b, t)
               else let (b', t') = removeContact victim b t
                    in (Some victim, b' @ [newcomer], adjustGlobalTracking (cip newcomer) True t'))"

definition changeContactIPAddress :: "contact \<Rightarrow> u32 \<Rightarrow> bin \<Rightarrow> tracking \<Rightarrow> bool \<times> bin \<times> tracking" where
  "changeContactIPAddress c newIP b t =
     (if cip c = newIP then (True, b, t)
      else if cnt (contactIPs t) newIP \<ge> kMaxContactsIP then (False, b, t)
      else if \<not> same_subnet newIP (cip c)
              \<and> cnt (contactSubnets t) (subnet_of newIP) \<ge> kMaxContactsSubnet
              \<and> \<not> isLan (fromHostOrder newIP) then (False, b, t)
      else if \<not> same_subnet newIP (cip c)
              \<and> count_if (\<lambda>d. same_subnet newIP (cip d)) b \<ge> 2
              \<and> \<not> isLan (fromHostOrder newIP) then (False, b, t)
      else (True, updateId (c_clientId c) (setAddress (fromHostOrder newIP)) b,
            adjustGlobalTracking newIP True (adjustGlobalTracking (cip c) False t)))"

definition setAllContactsVerified :: "bin \<Rightarrow> bin" where
  "setAllContactsVerified b = map (\<lambda>c. c\<lparr>c_ipVerified := True\<rparr>) b"

definition hasOnlyLANNodes :: "bin \<Rightarrow> bool" where
  "hasOnlyLANNodes b = list_all (\<lambda>c. isLan (c_address c)) b"

fun getNumContacts :: "nat \<Rightarrow> bin \<Rightarrow> nat \<times> nat \<Rightarrow> nat \<times> nat" where
  "getNumContacts minVersion [] (n, f) = (n, f)"
| "getNumContacts minVersion (c # cs) (n, f) =
     getNumContacts minVersion cs (if c_version c \<ge> minVersion then (n + 1, f) else (n, f + 1))"

text \<open>The bin's destructor gives its contacts back to the tracking maps.\<close>

definition destroyBin :: "bin \<Rightarrow> tracking \<Rightarrow> tracking" where
  "destroyBin b t = fold (\<lambda>c t. adjustGlobalTracking (cip c) False t) b t"

section \<open>The closest contacts of a bin\<close>

text \<open>\<open>std::map\<close> keyed by distance, as its sorted list of entries.\<close>

type_synonym contact_map = "(uint128 \<times> contact) list"

fun map_put :: "uint128 \<Rightarrow> contact \<Rightarrow> contact_map \<Rightarrow> contact_map" where
  "map_put k c [] = [(k, c)]"
| "map_put k c ((k', c') # m) =
     (if k < k' then (k, c) # (k', c') # m
      else if k = k' then (k, c) # m
      else (k', c') # map_put k c m)"

fun collect ::
  "nat \<Rightarrow> uint128 \<Rightarrow> bool \<Rightarrow> bin \<Rightarrow> contact_map \<times> uses \<Rightarrow> contact_map \<times> uses" where
  "collect maxType target setInUse [] (m, u) = (m, u)"
| "collect maxType target setInUse (c # cs) (m, u) =
     collect maxType target setInUse cs
       (if c_type c \<le> maxType \<and> c_ipVerified c
        then (map_put (xorWith (c_clientId c) target) c m,
              if setInUse then incUse (c_clientId c) u else u)
        else (m, u))"

function trim :: "nat \<Rightarrow> bool \<Rightarrow> contact_map \<times> uses \<Rightarrow> contact_map \<times> uses" where
  "trim maxRequired setInUse (m, u) =
     (if length m > maxRequired
      then trim maxRequired setInUse
             (butlast m, if setInUse then decUse (c_clientId (snd (last m))) u else u)
      else (m, u))"
  by pat_completeness auto
termination by (relation "measure (\<lambda>(n, s, m, u). length m)") auto

declare trim.simps [simp del]

definition bin_getClosestTo ::
  "nat \<Rightarrow> uint128 \<Rightarrow> nat \<Rightarrow> bool \<Rightarrow> bool \<Rightarrow> bin \<Rightarrow> contact_map \<times> uses \<Rightarrow> contact_map \<times> uses" where
  "bin_getClosestTo maxType target maxRequired emptyFirst setInUse b mu =
     (let mu1 = (if emptyFirst then ([], snd mu) else mu) in
      if b = [] \<or> maxRequired = 0 then mu1
      else trim maxRequired setInUse (collect maxType target setInUse b mu1))"

section \<open>Tracking counts the contacts\<close>

definition tracks :: "tracking \<Rightarrow> contact list \<Rightarrow> bool" where
  "tracks t cs \<longleftrightarrow>
     (\<forall>ip. cnt (contactIPs t) ip = count_if (\<lambda>c. cip c = ip) cs) \<and>
     (\<forall>s. cnt (contactSubnets t) s = count_if (\<lambda>c. subnet_of (cip c) = s) cs)"

definition limits :: "contact list \<Rightarrow> bool" where
  "limits cs \<longleftrightarrow>
     (\<forall>ip. count_if (\<lambda>c. cip c = ip) cs \<le> 1) \<and>
     (\<forall>ip. \<not> v4_lan ip \<longrightarrow> count_if (\<lambda>c. same_subnet ip (cip c)) cs \<le> kMaxContactsSubnet)"

definition wf_entry :: "contact \<Rightarrow> bool" where
  "wf_entry c \<longleftrightarrow> wf_contact c \<and> c_address c = fromHostOrder (cip c)"

definition bin_ok :: "bin \<Rightarrow> bool" where
  "bin_ok b \<longleftrightarrow> distinct (map c_clientId b) \<and> length b \<le> kK \<and>
     (\<forall>ip. \<not> v4_lan ip \<longrightarrow> count_if (\<lambda>c. same_subnet ip (cip c)) b \<le> 2) \<and>
     (\<forall>c \<in> set b. wf_entry c)"

lemma cnt_put_cnt [simp]: "cnt (put_cnt m k n) k' = (if k' = k then n else cnt m k')"
  by (simp add: cnt_def put_cnt_def)

lemma isLan_fromHostOrder [simp]: "isLan (fromHostOrder ip) = v4_lan ip"
  by (simp add: fromHostOrder_def v4_lan_def byte_of_def)

lemma wf_entry_isLan [simp]: "wf_entry c \<Longrightarrow> isLan (c_address c) = v4_lan (cip c)"
  unfolding wf_entry_def by (metis isLan_fromHostOrder)

lemma count_if_cong: "(\<And>x. x \<in> set xs \<Longrightarrow> P x = Q x) \<Longrightarrow> count_if P xs = count_if Q xs"
  by (induction xs) auto

lemma count_subnet: "count_if (\<lambda>c. subnet_of (cip c) = subnet_of ip) cs = count_if (\<lambda>c. same_subnet ip (cip c)) cs"
  by (rule count_if_cong) (auto simp: same_subnet_iff)

lemma tracks_ips: "tracks t cs \<Longrightarrow> cnt (contactIPs t) ip = count_if (\<lambda>c. cip c = ip) cs"
  by (simp add: tracks_def)

lemma tracks_subnets:
  "tracks t cs \<Longrightarrow> cnt (contactSubnets t) (subnet_of ip) = count_if (\<lambda>c. same_subnet ip (cip c)) cs"
  by (simp add: tracks_def count_subnet)

lemma tracks_mset: "tracks t cs \<Longrightarrow> (\<And>P. count_if P cs' = count_if P cs) \<Longrightarrow> tracks t cs'"
  by (simp add: tracks_def)

lemma limits_mset: "limits cs \<Longrightarrow> (\<And>P. count_if P cs' = count_if P cs) \<Longrightarrow> limits cs'"
  by (simp add: limits_def)

lemma limits_mono: "limits cs \<Longrightarrow> (\<And>P. count_if P cs' \<le> count_if P cs) \<Longrightarrow> limits cs'"
  unfolding limits_def by (meson le_trans)

lemma tracks_reset: "tracks resetGlobalTracking []"
  by (simp add: tracks_def resetGlobalTracking_def cnt_def)

lemma tracks_increase: "tracks t cs \<Longrightarrow> tracks (adjustGlobalTracking (cip c) True t) (c # cs)"
  by (auto simp: tracks_def adjustGlobalTracking_def Let_def)

lemma tracks_decrease: "tracks t (c # cs) \<Longrightarrow> tracks (adjustGlobalTracking (cip c) False t) cs"
  by (auto simp: tracks_def adjustGlobalTracking_def Let_def)

lemma tracks_destroyBin: "tracks t (b @ r) \<Longrightarrow> tracks (destroyBin b t) r"
  unfolding destroyBin_def by (induction b arbitrary: t) (auto dest: tracks_decrease)

lemma checkGlobalIPLimits_tracks:
  "tracks t cs \<Longrightarrow> checkGlobalIPLimits ip t \<longleftrightarrow>
     count_if (\<lambda>c. cip c = ip) cs = 0 \<and>
     (v4_lan ip \<or> count_if (\<lambda>c. same_subnet ip (cip c)) cs < kMaxContactsSubnet)"
  by (auto simp: checkGlobalIPLimits_def tracks_ips tracks_subnets kMaxContactsIP_def not_le)

lemma count_same_ip_le_subnet:
  "count_if (\<lambda>c. cip c = ip) cs \<le> count_if (\<lambda>c. same_subnet ip (cip c)) cs"
  by (induction cs) auto

lemma same_subnet_trans: "same_subnet x y \<Longrightarrow> same_subnet x z = same_subnet y z"
  by (simp add: same_subnet_iff)

text \<open>What a contact must satisfy to join a list that already meets the limits.\<close>

lemma limits_Cons:
  assumes "limits cs" "count_if (\<lambda>c. cip c = ip) cs = 0"
    "v4_lan ip \<or> count_if (\<lambda>c. same_subnet ip (cip c)) cs < kMaxContactsSubnet" "cip d = ip"
  shows "limits (d # cs)"
proof -
  have "count_if (\<lambda>c. same_subnet x (cip c)) (d # cs) \<le> kMaxContactsSubnet" if "\<not> v4_lan x" for x
  proof (cases "same_subnet x ip")
    case True
    then have "\<not> v4_lan ip" using that same_subnet_lan by blast
    moreover have "count_if (\<lambda>c. same_subnet x (cip c)) cs = count_if (\<lambda>c. same_subnet ip (cip c)) cs"
      using same_subnet_trans [OF True] by simp
    ultimately show ?thesis using assms True by simp
  next
    case False
    then show ?thesis using assms(1,4) that by (simp add: limits_def)
  qed
  then show ?thesis using assms(1,2,4) by (auto simp: limits_def)
qed

section \<open>Adding\<close>

lemma addContact_scan_eq:
  "addContact_scan c n b =
     (if c_clientId c \<in> c_clientId ` set b then None
      else Some (n + count_if (\<lambda>d. same_subnet (cip c) (cip d)) b))"
  by (induction b arbitrary: n) auto

definition admissible :: "contact \<Rightarrow> bin \<Rightarrow> contact list \<Rightarrow> bool" where
  "admissible c b all \<longleftrightarrow> c_clientId c \<notin> c_clientId ` set b \<and>
     count_if (\<lambda>d. cip d = cip c) all = 0 \<and>
     (v4_lan (cip c) \<or> count_if (\<lambda>d. same_subnet (cip c) (cip d)) all < kMaxContactsSubnet) \<and>
     (v4_lan (cip c) \<or> count_if (\<lambda>d. same_subnet (cip c) (cip d)) b < 2)"

lemma addContact_eq:
  assumes "tracks t (b @ r)" "wf_entry c"
  shows "addContact c b t =
    (if admissible c b (b @ r) \<and> length b < kK
     then (True, b @ [c], adjustGlobalTracking (cip c) True t) else (False, b, t))"
  using assms
  by (auto simp: addContact_def addContact_scan_eq checkGlobalIPLimits_tracks [OF assms(1)]
      admissible_def Let_def not_le)

lemma bin_ok_snoc:
  assumes "bin_ok b" "wf_entry c" "admissible c b (b @ r)" "length b < kK"
  shows "bin_ok (b @ [c])"
proof -
  have "count_if (\<lambda>d. same_subnet x (cip d)) (b @ [c]) \<le> 2" if "\<not> v4_lan x" for x
  proof (cases "same_subnet x (cip c)")
    case True
    then have "\<not> v4_lan (cip c)" using that same_subnet_lan by blast
    moreover have "count_if (\<lambda>d. same_subnet x (cip d)) b = count_if (\<lambda>d. same_subnet (cip c) (cip d)) b"
      using same_subnet_trans [OF True] by simp
    ultimately show ?thesis using assms(3) True by (simp add: admissible_def)
  next
    case False
    then show ?thesis using assms(1) that by (simp add: bin_ok_def)
  qed
  then show ?thesis using assms by (auto simp: bin_ok_def admissible_def)
qed

lemma addContact_correct:
  assumes "tracks t (b @ r)" "limits (b @ r)" "bin_ok b" "wf_entry c"
    and "addContact c b t = (ok, b', t')"
  shows "tracks t' (b' @ r) \<and> limits (b' @ r) \<and> bin_ok b' \<and>
    (if ok then b' = b @ [c] \<and> admissible c b (b @ r) else b' = b \<and> t' = t)"
proof (cases "admissible c b (b @ r) \<and> length b < kK")
  case True
  then have eq: "ok" "b' = b @ [c]" "t' = adjustGlobalTracking (cip c) True t"
    using assms(5) by (simp_all add: addContact_eq [OF assms(1,4)])
  have perm: "count_if P ((b @ [c]) @ r) = count_if P (c # b @ r)" for P by simp
  have "tracks t' ((b @ [c]) @ r)"
    using tracks_increase [OF assms(1), of c] unfolding eq(3) by (rule tracks_mset) (rule perm)
  moreover have "limits (c # b @ r)"
    using limits_Cons [OF assms(2), of "cip c" c] True by (simp add: admissible_def)
  then have "limits ((b @ [c]) @ r)" by (rule limits_mset) (rule perm)
  ultimately show ?thesis using True bin_ok_snoc [OF assms(3,4)] eq by auto
next
  case False
  then show ?thesis using assms by (auto simp: addContact_eq [OF assms(1,4)])
qed

section \<open>Removing and rewriting\<close>

lemma removeId_absent: "k \<notin> c_clientId ` set b \<Longrightarrow> removeId k b = b"
  by (auto simp: removeId_def filter_id_conv)

lemma removeId_split:
  assumes "distinct (map c_clientId b)" "c \<in> set b"
  obtains xs ys where "b = xs @ c # ys" "removeId (c_clientId c) b = xs @ ys"
proof -
  obtain xs ys where b: "b = xs @ c # ys" using split_list [OF assms(2)] by blast
  then have "c_clientId c \<notin> c_clientId ` set xs" "c_clientId c \<notin> c_clientId ` set ys"
    using assms(1) by auto
  then have "removeId (c_clientId c) b = xs @ ys"
    using b removeId_absent [of "c_clientId c" xs] removeId_absent [of "c_clientId c" ys]
    by (simp add: removeId_def)
  with b that show ?thesis by blast
qed

lemma count_if_removeId:
  assumes "distinct (map c_clientId b)" "c \<in> set b"
  shows "count_if P b = (if P c then 1 else 0) + count_if P (removeId (c_clientId c) b)"
  using assms by (elim removeId_split [of b c]) auto

lemma tracks_removeContact:
  assumes "tracks t (b @ r)" "distinct (map c_clientId b)" "c \<in> set b"
  shows "tracks (adjustGlobalTracking (cip c) False t) (removeId (c_clientId c) b @ r)"
  by (rule tracks_decrease, rule tracks_mset [OF assms(1)])
    (simp add: count_if_removeId [OF assms(2,3)])

lemma limits_removeId: "limits (b @ r) \<Longrightarrow> limits (removeId k b @ r)"
  by (erule limits_mono) (simp add: removeId_def count_if_filter_le)

lemma bin_ok_removeId: "bin_ok b \<Longrightarrow> bin_ok (removeId k b)"
proof -
  assume ok: "bin_ok b"
  have "length (removeId k b) \<le> length b" by (simp add: removeId_def)
  moreover have "distinct (map c_clientId (removeId k b))"
    using ok unfolding bin_ok_def removeId_def by (intro distinct_map_filter) simp
  ultimately show ?thesis
    using ok count_if_filter_le unfolding bin_ok_def removeId_def
    by (metis (no_types, lifting) filter_is_subset le_trans subsetD)
qed

lemma removeId_set: "set (removeId k b) = {c \<in> set b. c_clientId c \<noteq> k}"
  by (auto simp: removeId_def)


lemma getContact_Some: "getContact k b = Some c \<Longrightarrow> c \<in> set b \<and> c_clientId c = k"
  by (auto simp: getContact_def find_Some_iff in_set_conv_nth)

lemma getContact_None: "getContact k b = None \<longleftrightarrow> k \<notin> c_clientId ` set b"
  by (auto simp: getContact_def find_None_iff)

lemma getContact_distinct:
  "distinct (map c_clientId b) \<Longrightarrow> c \<in> set b \<Longrightarrow> getContact (c_clientId c) b = Some c"
proof (cases "getContact (c_clientId c) b")
  case (Some d)
  moreover assume "distinct (map c_clientId b)" "c \<in> set b"
  ultimately have "d = c" using getContact_Some [OF Some] by (auto simp: distinct_map inj_on_def)
  with Some show ?thesis by simp
qed (auto simp: getContact_None)

text \<open>An operation that moves a contact or rewrites fields other than identity and address.\<close>

definition same_places :: "contact list \<Rightarrow> contact list \<Rightarrow> bool" where
  "same_places b b' \<longleftrightarrow> mset (map (\<lambda>c. (c_clientId c, c_distance c, c_address c)) b)
     = mset (map (\<lambda>c. (c_clientId c, c_distance c, c_address c)) b')"

lemma count_if_mset: "count_if P xs = size (filter_mset P (mset xs))"
  by (induction xs) auto

lemma count_if_map: "count_if P (map f xs) = count_if (P \<circ> f) xs"
  by (induction xs) auto

lemma count_if_same_places:
  assumes "same_places b b'"
  shows "count_if (\<lambda>c. Q (c_address c)) b = count_if (\<lambda>c. Q (c_address c)) b'"
proof -
  let ?f = "\<lambda>c. (c_clientId c, c_distance c, c_address c)"
  have "count_if (\<lambda>p. Q (snd (snd p))) (map ?f b) = count_if (\<lambda>p. Q (snd (snd p))) (map ?f b')"
    using assms unfolding same_places_def count_if_mset by simp
  then show ?thesis by (simp add: count_if_map comp_def)
qed

lemma same_places_refl [simp]: "same_places b b"
  by (simp add: same_places_def)

lemma same_places_trans: "same_places a b \<Longrightarrow> same_places b c \<Longrightarrow> same_places a c"
  by (simp add: same_places_def)

lemma same_places_map:
  "(\<And>c. c \<in> set b \<Longrightarrow> c_clientId (f c) = c_clientId c \<and> c_distance (f c) = c_distance c \<and> c_address (f c) = c_address c)
     \<Longrightarrow> same_places b (map f b)"
  by (simp add: same_places_def comp_def cong: map_cong)

lemma same_places_ids: "same_places b b' \<Longrightarrow> mset (map c_clientId b) = mset (map c_clientId b')"
proof -
  assume "same_places b b'"
  then have "image_mset fst (mset (map (\<lambda>c. (c_clientId c, c_distance c, c_address c)) b))
     = image_mset fst (mset (map (\<lambda>c. (c_clientId c, c_distance c, c_address c)) b'))"
    by (simp add: same_places_def)
  then show ?thesis by (simp add: image_mset.compositionality comp_def)
qed

lemma same_places_tracks:
  assumes "same_places b b'" "tracks t (b @ r)"
  shows "tracks t (b' @ r)"
proof -
  have "count_if (\<lambda>c. cip c = ip) b' = count_if (\<lambda>c. cip c = ip) b"
    "count_if (\<lambda>c. subnet_of (cip c) = s) b' = count_if (\<lambda>c. subnet_of (cip c) = s) b" for ip s
    by (rule count_if_same_places [OF assms(1), of "\<lambda>a. toUint32 a = ip", symmetric])
      (rule count_if_same_places [OF assms(1), of "\<lambda>a. subnet_of (toUint32 a) = s", symmetric])
  then show ?thesis using assms(2) by (simp add: tracks_def)
qed

lemma same_places_limits:
  assumes "same_places b b'" "limits (b @ r)"
  shows "limits (b' @ r)"
proof -
  have "count_if (\<lambda>c. cip c = ip) b' = count_if (\<lambda>c. cip c = ip) b"
    "count_if (\<lambda>c. same_subnet ip (cip c)) b' = count_if (\<lambda>c. same_subnet ip (cip c)) b" for ip
    by (rule count_if_same_places [OF assms(1), of "\<lambda>a. toUint32 a = ip", symmetric])
      (rule count_if_same_places [OF assms(1), of "\<lambda>a. same_subnet ip (toUint32 a)", symmetric])
  then show ?thesis using assms(2) by (simp add: limits_def)
qed

lemma same_places_bin_ok:
  assumes "same_places b b'" "bin_ok b" "\<forall>c \<in> set b'. wf_entry c"
  shows "bin_ok b'"
proof -
  note m = same_places_ids [OF assms(1)]
  have "distinct (map c_clientId b')" using assms(2) mset_eq_imp_distinct_iff [OF m] by (simp add: bin_ok_def)
  moreover have "length b' = length b" using arg_cong [OF m, of size] by simp
  moreover have "count_if (\<lambda>c. same_subnet ip (cip c)) b' = count_if (\<lambda>c. same_subnet ip (cip c)) b" for ip
    by (rule count_if_same_places [OF assms(1), of "\<lambda>a. same_subnet ip (toUint32 a)", symmetric])
  ultimately show ?thesis using assms(2,3) by (simp add: bin_ok_def)
qed

lemma same_places_pushToBottom:
  assumes "distinct (map c_clientId b)" "c \<in> set b"
    "c_clientId d = c_clientId c" "c_distance d = c_distance c" "c_address d = c_address c"
  shows "same_places b (pushToBottom d b)"
proof -
  obtain xs ys where "b = xs @ c # ys" "removeId (c_clientId c) b = xs @ ys"
    using removeId_split [OF assms(1,2)] .
  then show ?thesis by (simp add: same_places_def pushToBottom_def assms(3-5))
qed

lemma wf_entry_updateType [simp]: "wf_entry c \<Longrightarrow> wf_entry (updateType now c)"
  by (simp add: wf_entry_def wf_updateType)

lemma set_pushToBottom: "set (pushToBottom c b) = insert c {d \<in> set b. c_clientId d \<noteq> c_clientId c}"
  by (auto simp: pushToBottom_def removeId_def)

lemma setAlive_correct:
  assumes "bin_ok b"
  shows "same_places b (setAlive now k b) \<and> bin_ok (setAlive now k b)"
proof (cases "getContact k b")
  case None
  then show ?thesis using assms by (simp add: setAlive_def)
next
  case (Some c)
  then have c: "c \<in> set b" using getContact_Some by blast
  have sp: "same_places b (pushToBottom (updateType now c) b)"
    using assms c by (intro same_places_pushToBottom [where c = c]) (auto simp: bin_ok_def)
  moreover have "bin_ok (pushToBottom (updateType now c) b)"
    using assms c by (intro same_places_bin_ok [OF sp assms]) (auto simp: set_pushToBottom bin_ok_def)
  ultimately show ?thesis using Some by (simp add: setAlive_def)
qed

section \<open>Replacing the weakest\<close>

lemma pickVictim_None: "pickVictim u nid v b = None \<longleftrightarrow> nid \<in> c_clientId ` set b"
  by (induction b arbitrary: v) (auto split: option.splits)

text \<open>The scan returns an idle contact of least rank, and the oldest such.\<close>

lemma pickVictim_acc:
  "pickVictim u nid (Some w) b = Some r \<Longrightarrow>
     \<exists>v. r = Some v \<and> (v = w \<or> v \<in> set b \<and> \<not> inUse u v) \<and> rank_of v \<le> rank_of w \<and>
       (\<forall>c \<in> set b. \<not> inUse u c \<longrightarrow> rank_of v \<le> rank_of c)"
proof (induction b arbitrary: w)
  case Nil
  then show ?case by simp
next
  case (Cons c cs)
  show ?case
  proof (cases "inUse u c")
    case True
    with Cons show ?thesis by (fastforce split: if_splits)
  next
    case False
    define w' where "w' = (if rank_of c < rank_of w then c else w)"
    have "pickVictim u nid (Some w') cs = Some r"
      using Cons.prems False by (auto simp: w'_def split: if_splits)
    from Cons.IH [OF this] obtain v where v: "r = Some v" "v = w' \<or> v \<in> set cs \<and> \<not> inUse u v"
      "rank_of v \<le> rank_of w'" "\<forall>c \<in> set cs. \<not> inUse u c \<longrightarrow> rank_of v \<le> rank_of c" by blast
    have "rank_of w' \<le> rank_of w" "rank_of w' \<le> rank_of c" by (auto simp: w'_def)
    with v False show ?thesis by (auto simp: w'_def split: if_splits)
  qed
qed

lemma pickVictim_Some:
  "pickVictim u nid None b = Some r \<Longrightarrow>
     (r = None \<and> (\<forall>c \<in> set b. inUse u c)) \<or>
     (\<exists>v. r = Some v \<and> v \<in> set b \<and> \<not> inUse u v \<and> (\<forall>c \<in> set b. \<not> inUse u c \<longrightarrow> rank_of v \<le> rank_of c))"
proof (induction b)
  case Nil
  then show ?case by simp
next
  case (Cons c cs)
  show ?case
  proof (cases "inUse u c")
    case True
    with Cons show ?thesis by (auto split: if_splits)
  next
    case False
    with Cons.prems have "pickVictim u nid (Some c) cs = Some r" by (auto split: if_splits)
    from pickVictim_acc [OF this] False show ?thesis by auto
  qed
qed

lemma count_without:
  assumes "distinct (map c_clientId b)" "v \<in> set b"
  shows "count_if P (b @ r) - (if P v then 1 else 0) = count_if P (removeId (c_clientId v) b @ r)"
  by (simp add: count_if_removeId [OF assms])

lemma replaceAllowed_iff:
  assumes "tracks t (b @ r)" "distinct (map c_clientId b)" "v \<in> set b" "wf_entry c"
    "c_clientId c \<notin> c_clientId ` set b"
  shows "replaceAllowed c v b t \<longleftrightarrow>
    admissible c (removeId (c_clientId v) b) (removeId (c_clientId v) b @ r)"
proof -
  have ip: "count_if (\<lambda>d. cip d = cip c) (removeId (c_clientId v) b @ r) =
      (if cip c = cip v \<and> cnt (contactIPs t) (cip c) > 0
       then cnt (contactIPs t) (cip c) - 1 else cnt (contactIPs t) (cip c))"
    unfolding tracks_ips [OF assms(1)]
      count_without [OF assms(2,3), where P = "\<lambda>d. cip d = cip c", symmetric] by auto
  have sn: "count_if (\<lambda>d. same_subnet (cip c) (cip d)) (removeId (c_clientId v) b @ r) =
      (if same_subnet (cip c) (cip v) \<and> cnt (contactSubnets t) (subnet_of (cip c)) > 0
       then cnt (contactSubnets t) (subnet_of (cip c)) - 1
       else cnt (contactSubnets t) (subnet_of (cip c)))"
    unfolding tracks_subnets [OF assms(1)]
      count_without [OF assms(2,3), where P = "\<lambda>d. same_subnet (cip c) (cip d)", symmetric] by auto
  have "c_clientId c \<notin> c_clientId ` set (removeId (c_clientId v) b)"
    using assms(5) by (auto simp: removeId_set)
  then show ?thesis unfolding replaceAllowed_def admissible_def Let_def ip [symmetric] sn [symmetric]
    using assms(4) by (auto simp: kMaxContactsIP_def not_le)
qed

lemma length_removeId:
  "distinct (map c_clientId b) \<Longrightarrow> c \<in> set b \<Longrightarrow> length b = Suc (length (removeId (c_clientId c) b))"
  by (elim removeId_split [of b c]) auto

lemma replaceWeakest_correct:
  assumes "tracks t (b @ r)" "limits (b @ r)" "bin_ok b" "wf_entry c"
    and "replaceWeakest u c b t = (gone, b', t')"
  shows "tracks t' (b' @ r) \<and> limits (b' @ r) \<and> bin_ok b' \<and>
    (case gone of None \<Rightarrow> b' = b \<and> t' = t
     | Some v \<Rightarrow> v \<in> set b \<and> \<not> inUse u v \<and> b' = removeId (c_clientId v) b @ [c]
         \<and> c_clientId c \<notin> c_clientId ` set b
         \<and> (\<forall>d \<in> set b. \<not> inUse u d \<longrightarrow> rank_of v \<le> rank_of d)
         \<and> (c_type v = 4 \<or> strength v + kReplaceMargin \<le> strength c))"
proof (cases gone)
  case None
  then have "b' = b \<and> t' = t"
    using assms(5) by (auto simp: replaceWeakest_def Let_def removeContact_def split: if_splits option.splits)
  with None assms show ?thesis by simp
next
  case (Some v)
  then have pick: "pickVictim u (c_clientId c) None b = Some (Some v)"
    and margin: "c_type v = 4 \<or> strength v + kReplaceMargin \<le> strength c"
    and allowed: "replaceAllowed c v b t"
    and b': "b' = removeId (c_clientId v) b @ [c]"
    and t': "t' = adjustGlobalTracking (cip c) True (adjustGlobalTracking (cip v) False t)"
    using assms(5)
    by (auto simp: replaceWeakest_def Let_def removeContact_def split: if_splits option.splits)
  have fresh: "c_clientId c \<notin> c_clientId ` set b" using pick pickVictim_None by (metis option.distinct(1))
  from pickVictim_Some [OF pick] have v: "v \<in> set b" "\<not> inUse u v"
    "\<forall>d \<in> set b. \<not> inUse u d \<longrightarrow> rank_of v \<le> rank_of d" by auto
  have dist: "distinct (map c_clientId b)" using assms(3) by (simp add: bin_ok_def)
  let ?b1 = "removeId (c_clientId v) b" and ?t1 = "adjustGlobalTracking (cip v) False t"
  have adm: "admissible c ?b1 (?b1 @ r)"
    using allowed replaceAllowed_iff [OF assms(1) dist v(1) assms(4) fresh] by simp
  have len: "length ?b1 < kK" using length_removeId [OF dist v(1)] assms(3) by (simp add: bin_ok_def)
  have t1: "tracks ?t1 (?b1 @ r)" by (rule tracks_removeContact [OF assms(1) dist v(1)])
  have "addContact c ?b1 ?t1 = (True, b', t')"
    using adm len by (simp add: addContact_eq [OF t1 assms(4)] b' t')
  from addContact_correct [OF t1 limits_removeId [OF assms(2)] bin_ok_removeId [OF assms(3)] assms(4) this]
  show ?thesis using Some v fresh margin b' by simp
qed


section \<open>Changing the address of a contact\<close>

lemma updateId_absent: "k \<notin> c_clientId ` set b \<Longrightarrow> updateId k f b = b"
  by (induction b) (auto simp: updateId_def)

lemma updateId_split:
  assumes "distinct (map c_clientId b)" "b = xs @ c # ys"
  shows "updateId (c_clientId c) f b = xs @ f c # ys"
proof -
  have "c_clientId c \<notin> c_clientId ` set xs" "c_clientId c \<notin> c_clientId ` set ys"
    using assms by auto
  then show ?thesis
    using updateId_absent [of "c_clientId c" xs f] updateId_absent [of "c_clientId c" ys f]
    by (simp add: updateId_def assms(2))
qed

lemma changeContactIPAddress_correct:
  assumes "tracks t (b @ r)" "limits (b @ r)" "bin_ok b" "c \<in> set b"
    and "changeContactIPAddress c newIP b t = (ok, b', t')"
  shows "tracks t' (b' @ r) \<and> limits (b' @ r) \<and> bin_ok b' \<and>
    (if ok then b' = (if cip c = newIP then b else updateId (c_clientId c) (setAddress (fromHostOrder newIP)) b)
     else b' = b \<and> t' = t)"
proof (cases "ok \<and> cip c \<noteq> newIP")
  case False
  then show ?thesis using assms
    by (auto simp: changeContactIPAddress_def split: if_splits)
next
  case True
  let ?d = "setAddress (fromHostOrder newIP) c"
  let ?b1 = "removeId (c_clientId c) b" and ?t1 = "adjustGlobalTracking (cip c) False t"
  have ip0: "cnt (contactIPs t) newIP = 0"
    and glob: "same_subnet newIP (cip c) \<or> v4_lan newIP \<or> cnt (contactSubnets t) (subnet_of newIP) < kMaxContactsSubnet"
    and loc: "same_subnet newIP (cip c) \<or> v4_lan newIP \<or> count_if (\<lambda>d. same_subnet newIP (cip d)) b < 2"
    and b': "b' = updateId (c_clientId c) (setAddress (fromHostOrder newIP)) b"
    and t': "t' = adjustGlobalTracking newIP True ?t1"
    using True assms(5)
    by (auto simp: changeContactIPAddress_def kMaxContactsIP_def split: if_splits)
  have dist: "distinct (map c_clientId b)" and wf: "wf_entry c"
    using assms(3,4) by (auto simp: bin_ok_def)
  obtain xs ys where b: "b = xs @ c # ys" and b1: "?b1 = xs @ ys"
    using removeId_split [OF dist assms(4)] .
  have b'2: "b' = xs @ ?d # ys" unfolding b' by (rule updateId_split [OF dist b])
  have t1: "tracks ?t1 (?b1 @ r)" by (rule tracks_removeContact [OF assms(1) dist assms(4)])
  have cntb: "count_if P (b @ r) = (if P c then 1 else 0) + count_if P (?b1 @ r)" for P
    unfolding b1 by (simp add: b)
  have dip: "cip ?d = newIP" by simp
  have perm: "count_if P (b' @ r) = count_if P (?d # ?b1 @ r)" for P unfolding b'2 b1 by simp
  have "count_if (\<lambda>c. cip c = newIP) (?b1 @ r) = 0"
    using ip0 cntb [of "\<lambda>c. cip c = newIP"] tracks_ips [OF assms(1)] by simp
  moreover have "v4_lan newIP \<or> count_if (\<lambda>c. same_subnet newIP (cip c)) (?b1 @ r) < kMaxContactsSubnet"
  proof (cases "same_subnet newIP (cip c)")
    case True
    have "v4_lan newIP \<or> count_if (\<lambda>c. same_subnet newIP (cip c)) (b @ r) \<le> kMaxContactsSubnet"
      using assms(2) by (auto simp: limits_def)
    then show ?thesis using True cntb [of "\<lambda>c. same_subnet newIP (cip c)"] by auto
  next
    case False
    then show ?thesis
      using glob cntb [of "\<lambda>c. same_subnet newIP (cip c)"] tracks_subnets [OF assms(1)] by auto
  qed
  ultimately have "limits (?d # ?b1 @ r)"
    by (intro limits_Cons [OF limits_removeId [OF assms(2)] _ _ dip])
  then have lim: "limits (b' @ r)" by (rule limits_mset) (rule perm)
  have "tracks t' (?d # ?b1 @ r)" using tracks_increase [OF t1, of ?d] unfolding t' dip .
  then have trk: "tracks t' (b' @ r)" by (rule tracks_mset) (rule perm)
  have "count_if (\<lambda>d. same_subnet x (cip d)) b' \<le> 2" if x: "\<not> v4_lan x" for x
  proof (cases "same_subnet x newIP")
    case True
    then have "\<not> v4_lan newIP" using x same_subnet_lan by blast
    moreover have "count_if (\<lambda>d. same_subnet newIP (cip d)) b \<le> 2"
      using assms(3) \<open>\<not> v4_lan newIP\<close> by (simp add: bin_ok_def)
    ultimately show ?thesis
      using loc True unfolding b'2 b same_subnet_trans [OF True] by auto
  next
    case False
    have "count_if (\<lambda>d. same_subnet x (cip d)) b \<le> 2" using assms(3) x by (simp add: bin_ok_def)
    then show ?thesis using False unfolding b'2 b by simp
  qed
  moreover have "wf_entry ?d" using wf by (simp add: wf_entry_def wf_setAddress)
  ultimately have "bin_ok b'" using assms(3) unfolding b'2 b bin_ok_def by auto
  with lim trk b' True show ?thesis by simp
qed

section \<open>The closest contacts\<close>

definition eligible :: "nat \<Rightarrow> contact \<Rightarrow> bool" where
  "eligible maxType c \<longleftrightarrow> c_type c \<le> maxType \<and> c_ipVerified c"

definition entry_of :: "uint128 \<Rightarrow> contact \<Rightarrow> uint128 \<times> contact" where
  "entry_of target c = (xorWith (c_clientId c) target, c)"

text \<open>The specification: all eligible contacts in the order of their distance to the target.\<close>

definition by_distance :: "nat \<Rightarrow> uint128 \<Rightarrow> contact list \<Rightarrow> contact_map" where
  "by_distance maxType target cs = sort_key fst (map (entry_of target) (filter (eligible maxType) cs))"

lemma map_put_insort: "k \<notin> fst ` set m \<Longrightarrow> map_put k c m = insort_key fst (k, c) m"
  by (induction m rule: map_put.induct [of _ k c]) auto

lemma insort_key_fst_unique:
  assumes "sorted (map fst xs)" "sorted (map fst ys)" "distinct (map fst xs)" "set xs = set ys" "distinct (map fst ys)"
  shows "xs = (ys :: (uint128 \<times> 'a) list)"
proof (rule map_sorted_distinct_set_unique [where f = fst])
  show "inj_on fst (set xs \<union> set ys)" using assms(3,4) by (simp add: distinct_map)
qed (use assms in auto)

lemma entry_of_simps [simp]:
  "fst (entry_of target c) = xorWith (c_clientId c) target" "snd (entry_of target c) = c"
  "fst \<circ> entry_of target = (\<lambda>c. xorWith (c_clientId c) target)"
  by (auto simp: entry_of_def)

lemma entry_keys:
  "fst ` set (map (entry_of target) cs) = (\<lambda>c. xorWith (c_clientId c) target) ` set cs"
  by (simp add: image_image)

lemma distinct_entries:
  "distinct (map c_clientId cs) \<Longrightarrow> distinct (map fst (map (entry_of target) (filter P cs)))"
  by (induction cs) auto

lemma distinct_fst_sort: "distinct (map fst (sort_key f xs)) \<longleftrightarrow> distinct (map fst xs)"
  by (rule mset_eq_imp_distinct_iff) simp

lemma collect_Cons:
  "collect maxType target s (c # cs) (m, u) = collect maxType target s cs
     (if eligible maxType c
      then (map_put (fst (entry_of target c)) c m, if s then incUse (c_clientId c) u else u)
      else (m, u))"
  by (simp add: eligible_def)

declare collect.simps(2) [simp del]

lemma collect_sorted:
  assumes "sorted (map fst m)" "distinct (map fst (map (entry_of target) (filter (eligible maxType) b) @ m))"
  shows "fst (collect maxType target s b (m, u)) =
    sort_key fst (map (entry_of target) (filter (eligible maxType) b) @ m)"
  using assms
proof (induction b arbitrary: m u)
  case Nil
  then show ?case by (simp add: sort_key_id_if_sorted)
next
  case (Cons c b)
  show ?case
  proof (cases "eligible maxType c")
    case True
    let ?k = "xorWith (c_clientId c) target"
    have fresh: "?k \<notin> fst ` set m" using Cons.prems(2) True by auto
    let ?m = "map_put ?k c m"
    have m: "?m = insort_key fst (?k, c) m" by (rule map_put_insort [OF fresh])
    have srt: "sorted (map fst ?m)" unfolding m by (simp add: sorted_insort_key Cons.prems(1))
    have set_m: "set ?m = insert (?k, c) (set m)" unfolding m by (simp add: set_insort_key)
    have dm: "distinct (map fst ?m)"
      unfolding m using Cons.prems(2) fresh
      by (simp add: distinct_map distinct_insort set_insort_key inj_on_def) (metis image_eqI fst_conv)
    let ?es = "map (entry_of target) (filter (eligible maxType) b)"
    have d2: "distinct (map fst (?es @ ?m))"
      using Cons.prems(2) True dm by (auto simp: set_m)
    have "fst (collect maxType target s (c # b) (m, u)) = sort_key fst (?es @ ?m)"
      using True Cons.IH [OF srt d2] by (simp add: collect_Cons)
    also have "\<dots> = sort_key fst (entry_of target c # ?es @ m)"
    proof (rule insort_key_fst_unique)
      show "distinct (map fst (sort_key fst (?es @ ?m)))" using d2 unfolding distinct_fst_sort .
      show "distinct (map fst (sort_key fst (entry_of target c # ?es @ m)))"
        unfolding distinct_fst_sort using Cons.prems(2) True by simp
      show "set (sort_key fst (?es @ ?m)) = set (sort_key fst (entry_of target c # ?es @ m))"
        unfolding set_sort by (auto simp: set_m entry_of_def)
    qed (rule sorted_sort_key)+
    finally show ?thesis using True by simp
  next
    case False
    with Cons show ?thesis by (simp add: collect_Cons)
  qed
qed

lemma trim_take: "fst (trim n s (m, u)) = take n m"
proof (induction n s "(m, u)" arbitrary: m u rule: trim.induct)
  case (1 n s m u)
  show ?case
  proof (cases "length m > n")
    case True
    then show ?thesis using 1 [OF True] by (simp add: trim.simps [of n s m u] take_butlast)
  next
    case False
    then show ?thesis by (simp add: trim.simps [of n s m u])
  qed
qed


lemma take_sort_key_le: "n = 0 \<or> b = [] \<Longrightarrow> sorted (map fst m) \<Longrightarrow> length m \<le> n \<Longrightarrow>
    m = take n (sort_key fst (map (entry_of target) (filter P b) @ m))"
  by (auto simp: sort_key_id_if_sorted)

lemma bin_getClosestTo_eq:
  assumes "sorted (map fst m)" "length m \<le> n"
    "distinct (map fst (map (entry_of target) (filter (eligible maxType) b) @ m))"
  shows "fst (bin_getClosestTo maxType target n False s b (m, u)) =
    take n (sort_key fst (map (entry_of target) (filter (eligible maxType) b) @ m))"
proof (cases "b = [] \<or> n = 0")
  case True
  then show ?thesis using take_sort_key_le [of n b m target "eligible maxType"] assms
    by (auto simp: bin_getClosestTo_def)
next
  case False
  obtain m' u' where c: "collect maxType target s b (m, u) = (m', u')" by fastforce
  then show ?thesis
    using collect_sorted [OF assms(1,3), of s u] trim_take [of n s m' u'] False
    by (simp add: bin_getClosestTo_def)
qed

section \<open>Use counts follow the result\<close>

definition holds :: "uint128 \<Rightarrow> contact_map \<Rightarrow> nat" where
  "holds k m = count_if (\<lambda>e. c_clientId (snd e) = k) m"

lemma holds_map_put: "q \<notin> fst ` set m \<Longrightarrow>
    holds k (map_put q c m) = (if c_clientId c = k then 1 else 0) + holds k m"
  by (induction m rule: map_put.induct [of _ q c]) (auto simp: holds_def)

lemma set_map_put: "q \<notin> fst ` set m \<Longrightarrow> set (map_put q c m) = insert (q, c) (set m)"
  by (simp add: map_put_insort set_insort_key)

lemma collect_uses:
  assumes "distinct (map fst (map (entry_of target) (filter (eligible maxType) b) @ m))"
    and "collect maxType target True b (m, u) = (m', u')"
  shows "u' k + holds k m = u k + holds k m'"
  using assms
proof (induction b arbitrary: m u)
  case Nil
  then show ?case by simp
next
  case (Cons c b)
  show ?case
  proof (cases "eligible maxType c")
    case True
    let ?q = "xorWith (c_clientId c) target"
    have fresh: "?q \<notin> fst ` set m" using Cons.prems(1) True by auto
    have ins: "map_put ?q c m = insort_key fst (?q, c) m" by (rule map_put_insort [OF fresh])
    have "distinct (map fst (map_put ?q c m))"
      unfolding ins using Cons.prems(1) fresh
      by (simp add: distinct_map distinct_insort set_insort_key inj_on_def) (metis image_eqI fst_conv)
    then have d: "distinct (map fst (map (entry_of target) (filter (eligible maxType) b) @ map_put ?q c m))"
      using Cons.prems(1) True by (auto simp: set_map_put [OF fresh])
    have "collect maxType target True b (map_put ?q c m, incUse (c_clientId c) u) = (m', u')"
      using Cons.prems(2) True by (simp add: collect_Cons)
    from Cons.IH [OF d this] show ?thesis
      by (auto simp: holds_map_put [OF fresh] incUse_def split: if_splits)
  next
    case False
    with Cons show ?thesis by (simp add: collect_Cons)
  qed
qed

lemma trim_uses:
  assumes "trim n True (m, u) = (m', u')" "\<And>k. holds k m \<le> u k"
  shows "u' k + holds k m = u k + holds k m' \<and> (\<forall>k. holds k m' \<le> u' k)"
  using assms
proof (induction n True "(m, u)" arbitrary: m u rule: trim.induct)
  case (1 n m u)
  show ?case
  proof (cases "length m > n")
    case True
    let ?c = "c_clientId (snd (last m))"
    have m: "m = butlast m @ [last m]" using True by (cases m) auto
    have h: "holds j m = holds j (butlast m) + (if ?c = j then 1 else 0)" for j
      unfolding holds_def by (subst (1) m) simp
    have le: "holds j (butlast m) \<le> decUse ?c u j" for j
      using "1.prems"(2) [of j] "1.prems"(2) [of ?c] h [of j] h [of ?c] by (auto simp: decUse_def)
    have "trim n True (butlast m, decUse ?c u) = (m', u')"
      using "1.prems"(1) True by (simp add: trim.simps [of n True m u])
    with "1.hyps" [OF True] le have
      ih: "u' k + holds k (butlast m) = decUse ?c u k + holds k m'" "\<forall>k. holds k m' \<le> u' k" by simp_all
    then show ?thesis using h [of k] "1.prems"(2) [of ?c] h [of ?c]
      by (auto simp: decUse_def split: if_splits)
  next
    case False
    with 1 show ?thesis by (simp add: trim.simps [of n True m u])
  qed
qed

section \<open>Properties\<close>

text \<open>A bucket takes a contact exactly when it has room, does not know the identifier, and
  the address limits of the bucket and of the whole table admit it; a refusal changes nothing.
  The tracking maps and the limits stay correct.\<close>

theorem bin_add_exact:
  assumes "tracks t (b @ r)" "limits (b @ r)" "bin_ok b" "wf_entry c"
    and "addContact c b t = (ok, b', t')"
  shows "ok = (admissible c b (b @ r) \<and> length b < kK) \<and>
    (if ok then b' = b @ [c] else b' = b \<and> t' = t) \<and>
    tracks t' (b' @ r) \<and> limits (b' @ r) \<and> bin_ok b'"
  using addContact_correct [OF assms] addContact_eq [OF assms(1,4)] assms(5) by (auto split: if_splits)

definition sample_contact :: "u32 \<Rightarrow> u32 \<Rightarrow> contact" where
  "sample_contact k ip = newContact 1000 (setValue32 k) ip 4672 4662 9 \<lparr>key_value = 5, key_ip = 7\<rparr> True (setValue32 0)"

lemma wf_sample: "wf_entry (sample_contact k ip)"
  by (simp add: sample_contact_def wf_entry_def wf_newContact)

text \<open>A full bucket gives a place only at the cost of its weakest contact that no search
  holds, and only to a contact that is stronger by the margin (or when the weakest expired).\<close>

theorem replace_weakest_sound:
  assumes "tracks t (b @ r)" "limits (b @ r)" "bin_ok b" "wf_entry c"
    and "replaceWeakest u c b t = (Some v, b', t')"
  shows "v \<in> set b \<and> \<not> inUse u v \<and> b' = removeId (c_clientId v) b @ [c] \<and>
    (\<forall>d \<in> set b. \<not> inUse u d \<longrightarrow> rank_of v \<le> rank_of d) \<and>
    (c_type v = 4 \<or> strength v + kReplaceMargin \<le> strength c) \<and>
    tracks t' (b' @ r) \<and> limits (b' @ r) \<and> bin_ok b'"
  using replaceWeakest_correct [OF assms] by auto

text \<open>A full bucket: ten contacts of ten networks, the first one expired.\<close>

definition sample_bin :: bin where
  "sample_bin = expire (sample_contact 1 0x01000009) # map (\<lambda>k. sample_contact k (k * 0x01000000 + 9))
     [2, 3, 4, 5, 6, 7, 8, 9, 11]"

lemma sample_simps [simp]:
  "c_clientId (sample_contact k ip) = setValue32 k" "cip (sample_contact k ip) = ip"
  "c_type (sample_contact k ip) = 3" "strength (sample_contact k ip) = 160"
  "c_address (sample_contact k ip) = fromHostOrder ip"
  "c_type (expire c) = 4" "c_clientId (expire c) = c_clientId c" "c_address (expire c) = c_address c"
  by (simp_all add: sample_contact_def newContact_def strength_def key_isEmpty_def expire_def)

lemma setValue32_inject [simp]: "setValue32 a = setValue32 b \<longleftrightarrow> a = b"
  by (simp add: setValue32_def)

definition track_all :: "contact list \<Rightarrow> tracking" where
  "track_all cs = fold (\<lambda>c. adjustGlobalTracking (cip c) True) cs resetGlobalTracking"

lemma tracks_track_all: "tracks (track_all cs) cs"
proof -
  have "tracks t ds \<Longrightarrow> tracks (fold (\<lambda>c. adjustGlobalTracking (cip c) True) cs t) (rev cs @ ds)" for t ds
    by (induction cs arbitrary: t ds) (auto dest: tracks_increase)
  from this [OF tracks_reset] have "tracks (track_all cs) (rev cs)" by (simp add: track_all_def)
  then show ?thesis by (rule tracks_mset) (simp add: count_if_mset)
qed

lemma count_if_distinct: "distinct (map f cs) \<Longrightarrow> count_if (\<lambda>c. f c = x) cs \<le> 1"
proof (induction cs)
  case (Cons c cs)
  then show ?case using count_if_0 [of "\<lambda>c. f c = x" cs] by (auto simp: image_iff)
qed simp

lemma sample_bin_ok: "bin_ok sample_bin" "limits (sample_bin @ [])"
proof -
  have d: "distinct (map (\<lambda>c. subnet_of (cip c)) sample_bin)" "distinct (map cip sample_bin)"
    "distinct (map c_clientId sample_bin)" "length sample_bin = 10" "\<forall>c \<in> set sample_bin. wf_entry c"
    using wf_sample by (simp_all add: sample_bin_def subnet_of_def wf_entry_def wf_expire)
  have s: "count_if (\<lambda>c. same_subnet ip (cip c)) sample_bin \<le> 1" for ip
    using count_if_distinct [OF d(1), of "subnet_of ip"] by (simp add: same_subnet_iff eq_commute)
  show "bin_ok sample_bin" using d s by (simp add: bin_ok_def kK_def le_trans [OF s])
  show "limits (sample_bin @ [])"
    using count_if_distinct [OF d(2)] by (simp add: limits_def kMaxContactsSubnet_def le_trans [OF s])
qed

end
