(* ===== verification/Kad_RoutingZone.thy ===== *)
theory Kad_RoutingZone
  imports Kad_RoutingBin
begin

text \<open>
  The routing table (src/core/kademlia/KadRoutingZone.cpp): a binary tree of zones whose
  leaves hold K-buckets.  A zone splits when its bucket overflows and it lies close enough
  to the own identifier; sibling leaves that have become thin are merged again.  The tree
  is a datatype, the static tracking maps are passed through every operation, and the
  clock, the public address, the preferences and the IP filter are arguments.
\<close>

definition kKK :: u32 where
  "kKK = 5"

definition kKBase :: nat where
  "kKBase = 4"

section \<open>Zones\<close>

record zone_info =
  z_level :: nat
  z_index :: uint128
  z_nextSmall :: int
  z_nextBig :: int

datatype zone = Leaf zone_info bin | Node zone_info zone zone

definition init_info :: "int \<Rightarrow> nat \<Rightarrow> uint128 \<Rightarrow> zone_info" where
  "init_info now level index =
     \<lparr>z_level = level, z_index = index,
      z_nextSmall = now + uint (get32BitChunk index 3), z_nextBig = now + 10\<rparr>"

fun zinfo :: "zone \<Rightarrow> zone_info" where
  "zinfo (Leaf zi b) = zi"
| "zinfo (Node zi z0 z1) = zi"

fun isLeaf :: "zone \<Rightarrow> bool" where
  "isLeaf (Leaf zi b) = True"
| "isLeaf (Node zi z0 z1) = False"

fun contacts :: "zone \<Rightarrow> contact list" where
  "contacts (Leaf zi b) = b"
| "contacts (Node zi z0 z1) = contacts z0 @ contacts z1"

definition genSubZone :: "int \<Rightarrow> zone_info \<Rightarrow> nat \<Rightarrow> zone_info" where
  "genSubZone now zi side =
     (let newIndex = shiftLeft (z_index zi) 1;
          newIndex' = (if side = 1 then add32 newIndex 1 else newIndex)
      in init_info now (z_level zi + 1) newIndex')"

definition canSplit :: "zone_info \<Rightarrow> bin \<Rightarrow> bool" where
  "canSplit zi b =
     (if z_level zi \<ge> 127 then False
      else if compareTo32 (z_index zi) kKK \<ge> 0 \<and> z_level zi \<ge> kKBase then False
      else if getRemaining b > 0 then False
      else True)"

section \<open>Splitting\<close>

fun redistribute :: "nat \<Rightarrow> contact list \<Rightarrow> bin \<Rightarrow> bin \<Rightarrow> tracking \<Rightarrow> bin \<times> bin \<times> tracking" where
  "redistribute level [] b0 b1 t = (b0, b1, t)"
| "redistribute level (c # cs) b0 b1 t =
     (if getBitNumber (c_distance c) level = 0
      then (case addContact c b0 t of (_, b0', t') \<Rightarrow> redistribute level cs b0' b1 t')
      else (case addContact c b1 t of (_, b1', t') \<Rightarrow> redistribute level cs b0 b1' t'))"

definition split_bins :: "nat \<Rightarrow> bin \<Rightarrow> tracking \<Rightarrow> bin \<times> bin \<times> tracking" where
  "split_bins level b t = redistribute level b [] [] (destroyBin b t)"

section \<open>Adding\<close>

record add_result =
  ar_added :: bool
  ar_update :: bool
  ar_verified :: bool
  ar_zone :: zone
  ar_tracking :: tracking

record add_env =
  ae_now :: int
  ae_publicIP :: u32
  ae_uses :: uses

text \<open>The update of a known contact: result flags, bucket and tracking.\<close>

definition updateExisting ::
  "add_env \<Rightarrow> contact \<Rightarrow> contact \<Rightarrow> bool \<Rightarrow> bool \<Rightarrow> bin \<Rightarrow> tracking \<Rightarrow> bool \<times> bool \<times> bin \<times> tracking" where
  "updateExisting env existing contact update ipVerified b t =
     (if \<not> update then (update, ipVerified, b, t)
      else
        let k = c_clientId existing;
            existingKey = getKeyValue (c_udpKey existing) (ae_publicIP env);
            newKey = getKeyValue (c_udpKey contact) (ae_publicIP env) in
        if existingKey \<noteq> 0 \<and> existingKey \<noteq> newKey then (False, ipVerified, b, t)
        else if c_version existing \<ge> 1 \<and> c_version existing < 6 \<and> c_receivedHello existing then
          (if c_address existing = c_address contact \<and> c_tcpPort existing = c_tcpPort contact
              \<and> c_udpPort existing = c_udpPort contact \<and> c_version existing = c_version contact
           then (update, c_ipVerified existing, setAlive (ae_now env) k b, t)
           else (False, ipVerified, b, t))
        else
          case changeContactIPAddress existing (cip contact) b t of
            (ok, b1, t1) \<Rightarrow>
              if ok \<and> c_version contact \<ge> c_version existing then
                let b2 = updateId k (\<lambda>e. e\<lparr>c_udpPort := c_udpPort contact, c_tcpPort := c_tcpPort contact,
                           c_version := c_version contact, c_udpKey := c_udpKey contact\<rparr>) b1;
                    b3 = updateId k (\<lambda>e. if \<not> c_ipVerified e then e\<lparr>c_ipVerified := c_ipVerified contact\<rparr> else e) b2;
                    verified = (case getContact k b3 of None \<Rightarrow> ipVerified | Some e \<Rightarrow> c_ipVerified e);
                    b4 = (if c_receivedHello contact then updateId k (\<lambda>e. e\<lparr>c_receivedHello := True\<rparr>) b3 else b3)
                in (update, verified, setAlive (ae_now env) k b4, t1)
              else (False, ipVerified, b1, t1))"

function leaf_add ::
  "add_env \<Rightarrow> contact \<Rightarrow> bool \<Rightarrow> bool \<Rightarrow> zone_info \<Rightarrow> bin \<Rightarrow> tracking \<Rightarrow> add_result" where
  "leaf_add env contact update ver zi b t =
     (case getContact (c_clientId contact) b of
        Some existing \<Rightarrow>
          (case updateExisting env existing contact update ver b t of
             (update', ver', b', t') \<Rightarrow>
               \<lparr>ar_added = False, ar_update = update', ar_verified = ver', ar_zone = Leaf zi b', ar_tracking = t'\<rparr>)
      | None \<Rightarrow>
          if getRemaining b > 0 then
            (case addContact contact b t of
               (ok, b', t') \<Rightarrow>
                 \<lparr>ar_added = ok, ar_update = False, ar_verified = ver, ar_zone = Leaf zi b', ar_tracking = t'\<rparr>)
          else if canSplit zi b then
            (case split_bins (z_level zi) b t of
               (b0, b1, t') \<Rightarrow>
                 if getBitNumber (c_distance contact) (z_level zi) = 0 then
                   let r = leaf_add env contact update ver (genSubZone (ae_now env) zi 0) b0 t'
                   in r\<lparr>ar_zone := Node zi (ar_zone r) (Leaf (genSubZone (ae_now env) zi 1) b1)\<rparr>
                 else
                   let r = leaf_add env contact update ver (genSubZone (ae_now env) zi 1) b1 t'
                   in r\<lparr>ar_zone := Node zi (Leaf (genSubZone (ae_now env) zi 0) b0) (ar_zone r)\<rparr>)
          else
            (case replaceWeakest (ae_uses env) contact b t of
               (Some gone, b', t') \<Rightarrow>
                 \<lparr>ar_added = True, ar_update = update, ar_verified = ver, ar_zone = Leaf zi b', ar_tracking = t'\<rparr>
             | (None, b', t') \<Rightarrow>
                 \<lparr>ar_added = False, ar_update = False, ar_verified = ver, ar_zone = Leaf zi b', ar_tracking = t'\<rparr>))"
  by pat_completeness auto
termination
  by (relation "measure (\<lambda>(env, c, u, v, zi, b, t). 127 - z_level zi)")
    (auto simp: canSplit_def genSubZone_def init_info_def Let_def split: if_splits)

declare leaf_add.simps [simp del]

fun zone_add ::
  "uint128 \<Rightarrow> add_env \<Rightarrow> contact \<Rightarrow> bool \<Rightarrow> bool \<Rightarrow> zone \<Rightarrow> tracking \<Rightarrow> add_result" where
  "zone_add localId env contact update ver (Leaf zi b) t =
     (if c_clientId contact = localId
      then \<lparr>ar_added = False, ar_update = update, ar_verified = ver, ar_zone = Leaf zi b, ar_tracking = t\<rparr>
      else leaf_add env contact update ver zi b t)"
| "zone_add localId env contact update ver (Node zi z0 z1) t =
     (if c_clientId contact = localId
      then \<lparr>ar_added = False, ar_update = update, ar_verified = ver, ar_zone = Node zi z0 z1, ar_tracking = t\<rparr>
      else if getBitNumber (c_distance contact) (z_level zi) = 0 then
        let r = zone_add localId env contact update ver z0 t
        in r\<lparr>ar_zone := Node zi (ar_zone r) z1\<rparr>
      else
        let r = zone_add localId env contact update ver z1 t
        in r\<lparr>ar_zone := Node zi z0 (ar_zone r)\<rparr>)"

text \<open>The arguments a peer supplies.\<close>

record node_args =
  na_id :: uint128
  na_ip :: u32
  na_udpPort :: u16
  na_tcpPort :: u16
  na_version :: nat
  na_udpKey :: udp_key

definition addUnfiltered ::
  "uint128 \<Rightarrow> add_env \<Rightarrow> node_args \<Rightarrow> bool \<Rightarrow> bool \<Rightarrow> bool \<Rightarrow> zone \<Rightarrow> tracking
     \<Rightarrow> bool \<times> zone \<times> tracking" where
  "addUnfiltered localId env n ipVerified update fromHello z t =
     (if na_version n \<le> 1 then (False, z, t)
      else if na_id n = localId then (False, z, t)
      else
        let c = newContact (ae_now env) (na_id n) (na_ip n) (na_udpPort n) (na_tcpPort n)
                  (na_version n) (na_udpKey n) ipVerified localId;
            c' = (if fromHello then c\<lparr>c_receivedHello := True\<rparr> else c);
            r = zone_add localId env c' update ipVerified z t
        in if ar_added r then (True, ar_zone r, ar_tracking r)
           else (ar_update r, ar_zone r, ar_tracking r))"

definition zone_add_filtered ::
  "uint128 \<Rightarrow> add_env \<Rightarrow> bool \<Rightarrow> bool \<Rightarrow> (u32 \<Rightarrow> bool) \<Rightarrow> node_args \<Rightarrow> bool \<Rightarrow> bool \<Rightarrow> bool
     \<Rightarrow> zone \<Rightarrow> tracking \<Rightarrow> bool \<times> zone \<times> tracking" where
  "zone_add_filtered localId env labMode filterLAN ipFiltered n ipVerified update fromHello z t =
     (if na_id n = localId then (False, z, t)
      else if na_version n \<le> 1 then (False, z, t)
      else if \<not> isRoutable labMode (\<not> filterLAN) (fromHostOrder (na_ip n)) then (False, z, t)
      else if na_udpPort n = 0 then (False, z, t)
      else if ipFiltered (ntohl (na_ip n)) then (False, z, t)
      else if na_udpPort n = 53 \<and> na_version n \<le> 5 then (False, z, t)
      else addUnfiltered localId env n ipVerified update fromHello z t)"

section \<open>Queries\<close>

fun zone_getContact :: "uint128 \<Rightarrow> zone \<Rightarrow> contact option" where
  "zone_getContact k (Leaf zi b) = getContact k b"
| "zone_getContact k (Node zi z0 z1) =
     (case zone_getContact k z0 of Some c \<Rightarrow> Some c | None \<Rightarrow> zone_getContact k z1)"

fun zone_getContactByIP :: "u32 \<Rightarrow> u16 \<Rightarrow> bool \<Rightarrow> zone \<Rightarrow> contact option" where
  "zone_getContactByIP ip port tcp (Leaf zi b) = getContactByIP ip port tcp b"
| "zone_getContactByIP ip port tcp (Node zi z0 z1) =
     (case zone_getContactByIP ip port tcp z0 of
        Some c \<Rightarrow> Some c | None \<Rightarrow> zone_getContactByIP ip port tcp z1)"

fun zone_getNumContacts :: "zone \<Rightarrow> nat" where
  "zone_getNumContacts (Leaf zi b) = length b"
| "zone_getNumContacts (Node zi z0 z1) = zone_getNumContacts z0 + zone_getNumContacts z1"

fun topDepth :: "zone \<Rightarrow> nat" where
  "topDepth (Leaf zi b) = 0"
| "topDepth (Node zi z0 z1) = 1 + max (topDepth z0) (topDepth z1)"

fun getMaxDepth :: "zone \<Rightarrow> nat" where
  "getMaxDepth (Leaf zi b) = z_level zi"
| "getMaxDepth (Node zi z0 z1) = max (getMaxDepth z0) (getMaxDepth z1)"

definition isAcceptableContact :: "contact \<Rightarrow> zone \<Rightarrow> tracking \<Rightarrow> bool" where
  "isAcceptableContact c z t =
     (if c_version c < 2 then False
      else case zone_getContact (c_clientId c) z of
             Some d \<Rightarrow> \<not> c_ipVerified d \<or> (c_address d = c_address c \<and> c_udpPort d = c_udpPort c)
           | None \<Rightarrow> checkGlobalIPLimits (cip c) t)"

text \<open>
  The closer subtree is searched first; the other one only while results are missing.
\<close>

fun zone_getClosestTo ::
  "nat \<Rightarrow> uint128 \<Rightarrow> uint128 \<Rightarrow> nat \<Rightarrow> bool \<Rightarrow> bool \<Rightarrow> zone \<Rightarrow> contact_map \<times> uses \<Rightarrow> contact_map \<times> uses" where
  "zone_getClosestTo maxType target distance n emptyFirst setInUse (Leaf zi b) mu =
     bin_getClosestTo maxType target n emptyFirst setInUse b mu"
| "zone_getClosestTo maxType target distance n emptyFirst setInUse (Node zi z0 z1) mu =
     (if getBitNumber distance (z_level zi) = 0 then
        let mu1 = zone_getClosestTo maxType target distance n emptyFirst setInUse z0 mu
        in if length (fst mu1) < n
           then zone_getClosestTo maxType target distance n False setInUse z1 mu1 else mu1
      else
        let mu1 = zone_getClosestTo maxType target distance n emptyFirst setInUse z1 mu
        in if length (fst mu1) < n
           then zone_getClosestTo maxType target distance n False setInUse z0 mu1 else mu1)"

fun verifyContact :: "uint128 \<Rightarrow> u32 \<Rightarrow> zone \<Rightarrow> bool \<times> zone" where
  "verifyContact k ip (Leaf zi b) =
     (case getContact k b of
        None \<Rightarrow> (False, Leaf zi b)
      | Some c \<Rightarrow> if cip c = ip then (True, Leaf zi (updateId k (\<lambda>c. c\<lparr>c_ipVerified := True\<rparr>) b))
                  else (False, Leaf zi b))"
| "verifyContact k ip (Node zi z0 z1) =
     (case zone_getContact k z0 of
        Some _ \<Rightarrow> (case verifyContact k ip z0 of (ok, z0') \<Rightarrow> (ok, Node zi z0' z1))
      | None \<Rightarrow> (case verifyContact k ip z1 of (ok, z1') \<Rightarrow> (ok, Node zi z0 z1')))"

fun zone_setAllVerified :: "zone \<Rightarrow> zone" where
  "zone_setAllVerified (Leaf zi b) = Leaf zi (setAllContactsVerified b)"
| "zone_setAllVerified (Node zi z0 z1) = Node zi (zone_setAllVerified z0) (zone_setAllVerified z1)"

fun zone_hasOnlyLANNodes :: "zone \<Rightarrow> bool" where
  "zone_hasOnlyLANNodes (Leaf zi b) = hasOnlyLANNodes b"
| "zone_hasOnlyLANNodes (Node zi z0 z1) = (zone_hasOnlyLANNodes z0 \<and> zone_hasOnlyLANNodes z1)"

section \<open>Merging\<close>

fun addAll :: "contact list \<Rightarrow> bin \<Rightarrow> tracking \<Rightarrow> bin \<times> tracking" where
  "addAll [] b t = (b, t)"
| "addAll (c # cs) b t = (case addContact c b t of (_, b', t') \<Rightarrow> addAll cs b' t')"

definition mergeLeaves :: "int \<Rightarrow> zone_info \<Rightarrow> bin \<Rightarrow> bin \<Rightarrow> tracking \<Rightarrow> zone \<times> tracking" where
  "mergeLeaves now zi b0 b1 t =
     (case addAll b0 [] (destroyBin b1 (destroyBin b0 t)) of
        (b, t1) \<Rightarrow> (case addAll b1 b t1 of
          (b', t2) \<Rightarrow> (Leaf (zi\<lparr>z_nextBig := now + 10\<rparr>) b', t2)))"

fun consolidate :: "int \<Rightarrow> zone \<Rightarrow> tracking \<Rightarrow> zone \<times> tracking" where
  "consolidate now (Leaf zi b) t = (Leaf zi b, t)"
| "consolidate now (Node zi z0 z1) t =
     (let (z0', t1) = (if isLeaf z0 then (z0, t) else consolidate now z0 t);
          (z1', t2) = (if isLeaf z1 then (z1, t1) else consolidate now z1 t1)
      in case (z0', z1') of
           (Leaf _ b0, Leaf _ b1) \<Rightarrow>
             if length b0 + length b1 < kK div 2 then mergeLeaves now zi b0 b1 t2
             else (Node zi z0' z1', t2)
         | _ \<Rightarrow> (Node zi z0' z1', t2))"

section \<open>Timers\<close>

definition onBigTimer :: "zone \<Rightarrow> bool" where
  "onBigTimer z =
     (case z of
        Leaf zi b \<Rightarrow> compareTo32 (z_index zi) kKK < 0 \<or> z_level zi < kKBase \<or> getRemaining b \<ge> 8
      | Node _ _ _ \<Rightarrow> False)"

text \<open>
  One pass over a snapshot of the entries: banned contacts and expired ones past their
  grace leave (unless in use), contacts without an expiry are stamped.
\<close>

fun smallTimer_pass ::
  "int \<Rightarrow> bool \<Rightarrow> (u32 \<Rightarrow> bool) \<Rightarrow> uses \<Rightarrow> contact list \<Rightarrow> bin \<Rightarrow> tracking \<Rightarrow> bin \<times> tracking" where
  "smallTimer_pass now offline banned u [] b t = (b, t)"
| "smallTimer_pass now offline banned u (c # cs) b t =
     (if banned (cip c) then
        (if \<not> inUse u c
         then (case removeContact c b t of (b', t') \<Rightarrow> smallTimer_pass now offline banned u cs b' t')
         else smallTimer_pass now offline banned u cs b t)
      else if c_type c = 4 \<and> c_expires c > 0 \<and> c_expires c \<le> now then
        (if \<not> offline \<and> \<not> inUse u c
         then (case removeContact c b t of (b', t') \<Rightarrow> smallTimer_pass now offline banned u cs b' t')
         else smallTimer_pass now offline banned u cs b t)
      else if c_expires c = 0
      then smallTimer_pass now offline banned u cs
             (updateId (c_clientId c) (\<lambda>d. d\<lparr>c_expires := now\<rparr>) b) t
      else smallTimer_pass now offline banned u cs b t)"

text \<open>The second result is the contact that is sent a HELLO, after it has been aged.\<close>

definition onSmallTimer ::
  "int \<Rightarrow> bool \<Rightarrow> (u32 \<Rightarrow> bool) \<Rightarrow> uses \<Rightarrow> bin \<Rightarrow> tracking \<Rightarrow> bin \<times> contact option \<times> tracking" where
  "onSmallTimer now offline banned u b t =
     (case smallTimer_pass now offline banned u b b t of
        (b1, t1) \<Rightarrow>
          (case getOldest b1 of
             None \<Rightarrow> (b1, None, t1)
           | Some oldest \<Rightarrow>
               let due = (c_expires oldest < now \<or> isRecheckDue now oldest) in
               if \<not> due \<or> c_type oldest = 4 then (pushToBottom oldest b1, None, t1)
               else
                 let oldest' = (if offline then markRecheck 0 oldest else checkingType now oldest)
                 in (pushToBottom oldest' b1,
                     if c_version oldest \<ge> 2 then Some oldest' else None, t1)))"

definition zone_voidChecksSince :: "int \<Rightarrow> int \<Rightarrow> bin \<Rightarrow> bin" where
  "zone_voidChecksSince since now b = map (voidChecksSince since now) b"

definition markRecheckAll :: "int \<Rightarrow> bin \<Rightarrow> bin" where
  "markRecheckAll now b = map (markRecheck now) b"

definition makeRandomLookupTarget :: "(nat \<Rightarrow> u32) \<Rightarrow> uint128 \<Rightarrow> nat \<Rightarrow> uint128 \<Rightarrow> uint128" where
  "makeRandomLookupTarget rnd zoneIndex level localKadId =
     (let prefix = shiftLeft zoneIndex (128 - level);
          target = pad_random rnd level prefix
      in xorWith target localKadId)"

end
