(* ===== verification/Kad_ZoneInv.thy ===== *)
theory Kad_ZoneInv
  imports Kad_RoutingZone
begin

text \<open>
  The invariant of the routing table and its preservation.  A contact sits in the leaf
  whose path is the prefix of its distance, each leaf is a well-formed bucket, and the
  global tracking maps count exactly the contacts of the tree, within the limits.
\<close>

section \<open>The table invariant\<close>

definition path_val :: "u32 list \<Rightarrow> int" where
  "path_val p = foldl (\<lambda>v b. 2 * v + uint b) 0 p"

definition placed :: "uint128 \<Rightarrow> u32 list \<Rightarrow> contact \<Rightarrow> bool" where
  "placed localId p c \<longleftrightarrow> c_distance c = xorWith localId (c_clientId c) \<and>
     (\<forall>i < length p. getBitNumber (c_distance c) i = p ! i)"

definition wf_info :: "u32 list \<Rightarrow> zone_info \<Rightarrow> bool" where
  "wf_info p zi \<longleftrightarrow> z_level zi = length p \<and> length p \<le> 127 \<and> set p \<subseteq> {0, 1} \<and>
     uval (z_index zi) = path_val p"

fun wf_zone :: "uint128 \<Rightarrow> u32 list \<Rightarrow> zone \<Rightarrow> bool" where
  "wf_zone localId p (Leaf zi b) \<longleftrightarrow> wf_info p zi \<and> bin_ok b \<and> (\<forall>c \<in> set b. placed localId p c)"
| "wf_zone localId p (Node zi z0 z1) \<longleftrightarrow>
     wf_info p zi \<and> wf_zone localId (p @ [0]) z0 \<and> wf_zone localId (p @ [1]) z1"

definition table_ok :: "uint128 \<Rightarrow> u32 list \<Rightarrow> zone \<Rightarrow> tracking \<Rightarrow> contact list \<Rightarrow> bool" where
  "table_ok localId p z t r \<longleftrightarrow> wf_zone localId p z \<and> tracks t (contacts z @ r) \<and> limits (contacts z @ r)"

lemma path_val_snoc [simp]: "path_val (p @ [b]) = 2 * path_val p + uint b"
  by (simp add: path_val_def)

lemma path_val_Nil [simp]: "path_val [] = 0"
  by (simp add: path_val_def)

lemma path_val_bounds: "set p \<subseteq> {0, 1} \<Longrightarrow> 0 \<le> path_val p \<and> path_val p < 2 ^ length p"
proof (induction p rule: rev_induct)
  case Nil
  then show ?case by simp
next
  case (snoc b p)
  then have "0 \<le> path_val p" "path_val p < 2 ^ length p" "uint b \<le> 1" by auto
  then show ?case by simp
qed

lemma placed_snoc:
  "placed localId (p @ [b]) c \<longleftrightarrow> placed localId p c \<and> getBitNumber (c_distance c) (length p) = b"
  by (auto simp: placed_def nth_append less_Suc_eq)

lemma wf_genSubZone:
  assumes "wf_info p zi" "length p < 127" "side \<le> 1"
  shows "wf_info (p @ [of_nat side]) (genSubZone now zi side)"
proof -
  have b: "0 \<le> path_val p" "path_val p < 2 ^ length p"
    using assms(1) path_val_bounds by (auto simp: wf_info_def)
  have "(2::int) ^ length p \<le> 2 ^ 126" using assms(2) by (intro power_increasing) auto
  then have small: "path_val p * 2 + 1 < 2 ^ 128" using b by simp
  have sh: "uval (shiftLeft (z_index zi) 1) = path_val p * 2"
    using assms(1) small b by (simp add: uval_shiftLeft wf_info_def mod_pos_pos_trivial)
  have "uval (add32 (shiftLeft (z_index zi) 1) 1) = path_val p * 2 + 1"
    using small b by (simp add: uval_add32 sh [unfolded One_nat_def] mod_pos_pos_trivial)
  moreover have "side = 0 \<or> side = 1" using assms(3) by linarith
  ultimately show ?thesis using assms sh [unfolded One_nat_def]
    by (auto simp: genSubZone_def init_info_def wf_info_def Let_def)
qed

lemma getRemaining_pos: "length b \<le> kK \<Longrightarrow> getRemaining b > 0 \<longleftrightarrow> length b < kK"
  by (simp add: getRemaining_def kK_def mod_pos_pos_trivial)

lemma getBitNumber_not0: "getBitNumber x n \<noteq> 0 \<longleftrightarrow> getBitNumber x n = 1"
  using getBitNumber_01 [of x n] by auto

section \<open>Splitting loses nothing\<close>

lemma redistribute_correct:
  assumes "tracks t (b0 @ b1 @ r)" "limits (cs @ b0 @ b1 @ r)" "bin_ok (cs @ b0 @ b1)"
  shows "\<exists>t'. redistribute level cs b0 b1 t =
      (b0 @ filter (\<lambda>c. getBitNumber (c_distance c) level = 0) cs,
       b1 @ filter (\<lambda>c. getBitNumber (c_distance c) level \<noteq> 0) cs, t') \<and>
    tracks t' (cs @ b0 @ b1 @ r)"
  using assms
proof (induction cs arbitrary: b0 b1 t)
  case Nil
  then show ?case by simp
next
  case (Cons c cs)
  have wf: "wf_entry c" using Cons.prems(3) by (simp add: bin_ok_def)
  have ip: "count_if (\<lambda>d. cip d = cip c) (b0 @ b1 @ r) = 0"
    using Cons.prems(2) unfolding limits_def by (auto dest: spec [of _ "cip c"])
  have sn: "v4_lan (cip c) \<or> count_if (\<lambda>d. same_subnet (cip c) (cip d)) (b0 @ b1 @ r) < kMaxContactsSubnet"
    using Cons.prems(2) unfolding limits_def by (auto dest!: spec [of _ "cip c"])
  have loc: "v4_lan (cip c) \<or> count_if (\<lambda>d. same_subnet (cip c) (cip d)) (b0 @ b1) < 2"
    using Cons.prems(3) unfolding bin_ok_def by (auto dest!: spec [of _ "cip c"])
  have fresh: "c_clientId c \<notin> c_clientId ` set (b0 @ b1)" and len: "length b0 < kK" "length b1 < kK"
    using Cons.prems(3) by (auto simp: bin_ok_def)
  have p1: "count_if P (cs @ (b0 @ [c]) @ b1 @ r) = count_if P ((c # cs) @ b0 @ b1 @ r)"
    "count_if P (cs @ b0 @ (b1 @ [c]) @ r) = count_if P ((c # cs) @ b0 @ b1 @ r)"
    "count_if P (b1 @ b0 @ r) = count_if P (b0 @ b1 @ r)"
    "count_if P ((b0 @ [c]) @ b1 @ r) = count_if P (c # b0 @ b1 @ r)"
    "count_if P (b0 @ (b1 @ [c]) @ r) = count_if P (c # b0 @ b1 @ r)" for P by simp_all
  have sp: "same_places ((c # cs) @ b0 @ b1) (cs @ (b0 @ [c]) @ b1)"
    "same_places ((c # cs) @ b0 @ b1) (cs @ b0 @ b1 @ [c])" by (simp_all add: same_places_def)
  have es: "\<forall>d \<in> set ((c # cs) @ b0 @ b1). wf_entry d" using Cons.prems(3) by (simp add: bin_ok_def)
  let ?t = "adjustGlobalTracking (cip c) True t"
  have inc: "tracks ?t (c # b0 @ b1 @ r)" by (rule tracks_increase [OF Cons.prems(1)])
  show ?case
  proof (cases "getBitNumber (c_distance c) level = 0")
    case True
    have "admissible c b0 (b0 @ b1 @ r)" using fresh ip sn loc by (auto simp: admissible_def)
    then have add: "addContact c b0 t = (True, b0 @ [c], ?t)"
      using addContact_eq [OF Cons.prems(1) wf] len by simp
    have "tracks ?t ((b0 @ [c]) @ b1 @ r)" by (rule tracks_mset [OF inc]) (rule p1)
    moreover have "limits (cs @ (b0 @ [c]) @ b1 @ r)" by (rule limits_mset [OF Cons.prems(2)]) (rule p1)
    moreover have "bin_ok (cs @ (b0 @ [c]) @ b1)"
      using es by (intro same_places_bin_ok [OF sp(1) Cons.prems(3)]) auto
    ultimately obtain t' where "redistribute level cs (b0 @ [c]) b1 ?t =
        ((b0 @ [c]) @ filter (\<lambda>c. getBitNumber (c_distance c) level = 0) cs,
         b1 @ filter (\<lambda>c. getBitNumber (c_distance c) level \<noteq> 0) cs, t')"
      "tracks t' (cs @ (b0 @ [c]) @ b1 @ r)" using Cons.IH by blast
    then show ?thesis using True add tracks_mset [of t' _ "(c # cs) @ b0 @ b1 @ r"] p1(1) by simp
  next
    case False
    have t2: "tracks t (b1 @ b0 @ r)" by (rule tracks_mset [OF Cons.prems(1)]) (rule p1)
    have "admissible c b1 (b1 @ b0 @ r)" using fresh ip sn loc by (auto simp: admissible_def)
    then have add: "addContact c b1 t = (True, b1 @ [c], ?t)"
      using addContact_eq [OF t2 wf] len by simp
    have "tracks ?t (b0 @ (b1 @ [c]) @ r)" by (rule tracks_mset [OF inc]) (rule p1)
    moreover have "limits (cs @ b0 @ (b1 @ [c]) @ r)" by (rule limits_mset [OF Cons.prems(2)]) (rule p1)
    moreover have "bin_ok (cs @ b0 @ b1 @ [c])"
      using es by (intro same_places_bin_ok [OF sp(2) Cons.prems(3)]) auto
    ultimately obtain t' where "redistribute level cs b0 (b1 @ [c]) ?t =
        (b0 @ filter (\<lambda>c. getBitNumber (c_distance c) level = 0) cs,
         (b1 @ [c]) @ filter (\<lambda>c. getBitNumber (c_distance c) level \<noteq> 0) cs, t')"
      "tracks t' (cs @ b0 @ (b1 @ [c]) @ r)" using Cons.IH by blast
    then show ?thesis using False add tracks_mset [of t' _ "(c # cs) @ b0 @ b1 @ r"] p1(2) by simp
  qed
qed

lemma split_bins_correct:
  assumes "tracks t (b @ r)" "limits (b @ r)" "bin_ok b"
  shows "\<exists>t'. split_bins level b t =
      (filter (\<lambda>c. getBitNumber (c_distance c) level = 0) b,
       filter (\<lambda>c. getBitNumber (c_distance c) level \<noteq> 0) b, t') \<and> tracks t' (b @ r)"
  using redistribute_correct [of "destroyBin b t" "[]" "[]" r b level] tracks_destroyBin [OF assms(1)]
    assms(2,3) by (auto simp: split_bins_def)

lemma count_if_partition:
  "count_if Q b = count_if Q (filter P b) + count_if Q (filter (\<lambda>x. \<not> P x) b)"
  by (induction b) auto

lemma bin_ok_filter: "bin_ok b \<Longrightarrow> bin_ok (filter P b)"
proof -
  assume ok: "bin_ok b"
  have "length (filter P b) \<le> length b" by simp
  moreover have "distinct (map c_clientId (filter P b))"
    using ok unfolding bin_ok_def by (intro distinct_map_filter) simp
  ultimately show ?thesis
    using ok count_if_filter_le unfolding bin_ok_def
    by (metis (no_types, lifting) filter_is_subset le_trans subsetD)
qed

section \<open>Bucket operations as an interface\<close>

definition idents :: "contact list \<Rightarrow> (uint128 \<times> uint128) set" where
  "idents b = (\<lambda>c. (c_clientId c, c_distance c)) ` set b"

definition wf_bucket :: "bin \<Rightarrow> tracking \<Rightarrow> contact list \<Rightarrow> bool" where
  "wf_bucket b t r \<longleftrightarrow> tracks t (b @ r) \<and> limits (b @ r) \<and> bin_ok b"

lemma table_ok_Leaf:
  "table_ok localId p (Leaf zi b) t r \<longleftrightarrow>
     wf_info p zi \<and> wf_bucket b t r \<and> (\<forall>c \<in> set b. placed localId p c)"
  by (auto simp: table_ok_def wf_bucket_def)

lemma placed_idents: "\<forall>c \<in> set b. placed localId p c \<Longrightarrow> idents b' \<subseteq> idents b \<Longrightarrow> \<forall>c \<in> set b'. placed localId p c"
  unfolding idents_def placed_def by fastforce

lemma idents_same_places: "same_places b b' \<Longrightarrow> idents b' = idents b"
proof -
  assume "same_places b b'"
  then have "set_mset (mset (map (\<lambda>c. (c_clientId c, c_distance c, c_address c)) b))
    = set_mset (mset (map (\<lambda>c. (c_clientId c, c_distance c, c_address c)) b'))"
    by (simp add: same_places_def)
  then have "(\<lambda>(i, d, a). (i, d)) ` (\<lambda>c. (c_clientId c, c_distance c, c_address c)) ` set b
    = (\<lambda>(i, d, a). (i, d)) ` (\<lambda>c. (c_clientId c, c_distance c, c_address c)) ` set b'" by simp
  then show ?thesis by (simp add: idents_def image_image)
qed

lemma same_places_wf_bucket:
  "same_places b b' \<Longrightarrow> wf_bucket b t r \<Longrightarrow> \<forall>c \<in> set b'. wf_entry c \<Longrightarrow> wf_bucket b' t r"
  unfolding wf_bucket_def using same_places_tracks same_places_limits same_places_bin_ok by blast

text \<open>
  An operation on one bucket that keeps the bookkeeping and brings in no new contact; the
  other contacts of the table, \<open>r\<close>, are arbitrary.
\<close>

locale bin_operation =
  fixes op :: "bin \<Rightarrow> tracking \<Rightarrow> bin \<times> tracking"
  assumes keeps: "wf_bucket b t r \<Longrightarrow> op b t = (b', t') \<Longrightarrow> wf_bucket b' t' r \<and> idents b' \<subseteq> idents b"
begin

lemma keeps_table:
  "table_ok localId p (Leaf zi b) t r \<Longrightarrow> op b t = (b', t') \<Longrightarrow> wf_info p zi' \<Longrightarrow>
     table_ok localId p (Leaf zi' b') t' r"
  unfolding table_ok_Leaf using keeps placed_idents by blast

end

lemma bin_operation_comp:
  assumes "bin_operation f" "bin_operation g"
  shows "bin_operation (\<lambda>b t. case f b t of (b', t') \<Rightarrow> g b' t')"
proof
  fix b t r b' t'
  assume b: "wf_bucket b t r" and run: "(case f b t of (b', t') \<Rightarrow> g b' t') = (b', t')"
  obtain b1 t1 where f: "f b t = (b1, t1)" by fastforce
  with run have g: "g b1 t1 = (b', t')" by simp
  from bin_operation.keeps [OF assms(1) b f] bin_operation.keeps [OF assms(2) _ g]
  show "wf_bucket b' t' r \<and> idents b' \<subseteq> idents b" by blast
qed

lemma bin_operation_map:
  assumes "\<And>c. wf_entry c \<Longrightarrow> c_clientId (f c) = c_clientId c \<and> c_distance (f c) = c_distance c
     \<and> c_address (f c) = c_address c \<and> wf_entry (f c)"
  shows "bin_operation (\<lambda>b t. (map f b, t))"
proof
  fix b t r b' t'
  assume b: "wf_bucket b t r" and run: "(map f b, t) = (b', t' :: tracking)"
  have wf: "\<forall>c \<in> set b. wf_entry c" using b by (simp add: wf_bucket_def bin_ok_def)
  have sp: "same_places b b'" using run wf assms by (auto intro: same_places_map)
  have "\<forall>c \<in> set b'. wf_entry c" using run wf assms by auto
  with same_places_wf_bucket [OF sp b] idents_same_places [OF sp] run
  show "wf_bucket b' t' r \<and> idents b' \<subseteq> idents b" by simp
qed

lemma bin_operation_updateId:
  assumes "\<And>c. wf_entry c \<Longrightarrow> c_clientId (f c) = c_clientId c \<and> c_distance (f c) = c_distance c
     \<and> c_address (f c) = c_address c \<and> wf_entry (f c)"
  shows "bin_operation (\<lambda>b t. (updateId k f b, t))"
  unfolding updateId_def using assms by (intro bin_operation_map) auto

interpretation set_alive: bin_operation "\<lambda>b t. (setAlive now k b, t)" for now k
proof
  fix b t r b' t'
  assume b: "wf_bucket b t r" and run: "(setAlive now k b, t) = (b', t' :: tracking)"
  have "bin_ok b" using b by (simp add: wf_bucket_def)
  with setAlive_correct [of b now k] run have sp: "same_places b b'" "bin_ok b'" by auto
  with same_places_wf_bucket [OF sp(1) b] idents_same_places [OF sp(1)] run
  show "wf_bucket b' t' r \<and> idents b' \<subseteq> idents b" by (simp add: bin_ok_def)
qed

definition removeKnown :: "uint128 \<Rightarrow> bin \<Rightarrow> tracking \<Rightarrow> bin \<times> tracking" where
  "removeKnown k b t = (case getContact k b of None \<Rightarrow> (b, t) | Some c \<Rightarrow> removeContact c b t)"

interpretation remove_known: bin_operation "removeKnown k" for k
proof
  fix b t r b' t'
  assume b: "wf_bucket b t r" and run: "removeKnown k b t = (b', t')"
  show "wf_bucket b' t' r \<and> idents b' \<subseteq> idents b"
  proof (cases "getContact k b")
    case None
    then show ?thesis using b run by (simp add: removeKnown_def)
  next
    case (Some c)
    then have c: "c \<in> set b" "c_clientId c = k" using getContact_Some by auto
    then show ?thesis
      using b run Some tracks_removeContact [of t b r c] limits_removeId [of b r k] bin_ok_removeId [of b k]
      by (auto simp: removeKnown_def removeContact_def wf_bucket_def bin_ok_def idents_def removeId_set)
  qed
qed

section \<open>The update of a known contact\<close>

definition changeAddress :: "uint128 \<Rightarrow> u32 \<Rightarrow> bin \<Rightarrow> tracking \<Rightarrow> bin \<times> tracking" where
  "changeAddress k newIP b t =
     (case getContact k b of None \<Rightarrow> (b, t)
      | Some c \<Rightarrow> (case changeContactIPAddress c newIP b t of (_, b', t') \<Rightarrow> (b', t')))"

lemma idents_updateId: "(\<And>c. c_clientId (f c) = c_clientId c \<and> c_distance (f c) = c_distance c) \<Longrightarrow>
    idents (updateId k f b) = idents b"
  unfolding idents_def updateId_def set_map image_image by (rule image_cong) auto

interpretation change_address: bin_operation "changeAddress k newIP" for k newIP
proof
  fix b t r b' t'
  assume b: "wf_bucket b t r" and run: "changeAddress k newIP b t = (b', t')"
  show "wf_bucket b' t' r \<and> idents b' \<subseteq> idents b"
  proof (cases "getContact k b")
    case None
    then show ?thesis using b run by (simp add: changeAddress_def)
  next
    case (Some c)
    then have c: "c \<in> set b" using getContact_Some by auto
    obtain ok where "changeContactIPAddress c newIP b t = (ok, b', t')"
      using run Some by (auto simp: changeAddress_def split: prod.splits)
    from changeContactIPAddress_correct [OF _ _ _ c this, of r] b
    show ?thesis by (auto simp: wf_bucket_def idents_updateId split: if_splits)
  qed
qed


text \<open>The part of \<open>updateExisting\<close> after the address change.\<close>

definition refresh :: "add_env \<Rightarrow> contact \<Rightarrow> uint128 \<Rightarrow> bin \<Rightarrow> tracking \<Rightarrow> bin \<times> tracking" where
  "refresh env contact k b t =
     (let b2 = updateId k (\<lambda>e. e\<lparr>c_udpPort := c_udpPort contact, c_tcpPort := c_tcpPort contact,
                 c_version := c_version contact, c_udpKey := c_udpKey contact\<rparr>) b;
          b3 = updateId k (\<lambda>e. if \<not> c_ipVerified e then e\<lparr>c_ipVerified := c_ipVerified contact\<rparr> else e) b2;
          b4 = (if c_receivedHello contact then updateId k (\<lambda>e. e\<lparr>c_receivedHello := True\<rparr>) b3 else b3)
      in (setAlive (ae_now env) k b4, t))"

lemma wf_entry_fields [simp]:
  "wf_entry (c\<lparr>c_udpPort := up, c_tcpPort := tp, c_version := v, c_udpKey := key\<rparr>) = wf_entry c"
  "wf_entry (c\<lparr>c_ipVerified := iv\<rparr>) = wf_entry c" "wf_entry (c\<lparr>c_receivedHello := h\<rparr>) = wf_entry c"
  "wf_entry (c\<lparr>c_tcpPort := tp\<rparr>) = wf_entry c" "wf_entry (c\<lparr>c_expires := e\<rparr>) = wf_entry c"
  by (simp_all add: wf_entry_def wf_contact_def)

interpretation refresh: bin_operation "refresh env contact k" for env contact k
proof -
  let ?p = "\<lambda>e. e\<lparr>c_udpPort := c_udpPort contact, c_tcpPort := c_tcpPort contact,
                 c_version := c_version contact, c_udpKey := c_udpKey contact\<rparr>"
  let ?v = "\<lambda>e. if \<not> c_ipVerified e then e\<lparr>c_ipVerified := c_ipVerified contact\<rparr> else e"
  let ?h = "\<lambda>e. if c_receivedHello contact then e\<lparr>c_receivedHello := True\<rparr> else e"
  have p: "bin_operation (\<lambda>b t. (updateId k ?p b, t))" by (rule bin_operation_updateId) simp
  have v: "bin_operation (\<lambda>b t. (updateId k ?v b, t))" by (rule bin_operation_updateId) simp
  have h: "bin_operation (\<lambda>b t. (updateId k ?h b, t))" by (rule bin_operation_updateId) simp
  have id: "updateId k (\<lambda>e. e) b = b" for b by (simp add: updateId_def cong: if_cong)
  have "refresh env contact k = (\<lambda>b t. (setAlive (ae_now env) k (updateId k ?h (updateId k ?v (updateId k ?p b))), t))"
    by (intro ext) (simp add: refresh_def Let_def id)
  then show "bin_operation (refresh env contact k)"
    using bin_operation_comp [OF bin_operation_comp [OF bin_operation_comp [OF p v] h] set_alive.bin_operation_axioms]
    by (simp add: case_prod_beta)
qed

lemma updateExisting_steps:
  assumes "getContact k b = Some e" "updateExisting env e c upd ver b t = (upd', ver', b', t')"
  shows "(b', t') = (b, t) \<or> (b', t') = (setAlive (ae_now env) k b, t)
    \<or> (b', t') = changeAddress k (cip c) b t
    \<or> (b', t') = (case changeAddress k (cip c) b t of (b1, t1) \<Rightarrow> refresh env c k b1 t1)"
proof -
  have "c_clientId e = k" using assms(1) getContact_Some by blast
  then show ?thesis using assms
    by (auto simp: updateExisting_def changeAddress_def refresh_def Let_def split: if_splits prod.splits)
qed

lemma updateExisting_correct:
  assumes "wf_bucket b t r" "getContact k b = Some e"
    "updateExisting env e c upd ver b t = (upd', ver', b', t')"
  shows "wf_bucket b' t' r \<and> idents b' \<subseteq> idents b"
proof -
  note comp = bin_operation.keeps [OF bin_operation_comp [OF
      change_address.bin_operation_axioms [of k "cip c"] refresh.bin_operation_axioms [of env c k]] assms(1)]
  from updateExisting_steps [OF assms(2,3)] show ?thesis
    using assms(1) set_alive.keeps [OF assms(1), of "ae_now env" k]
      change_address.keeps [OF assms(1), of k "cip c"] comp
    by (elim disjE) (metis order_refl prod.inject)+
qed

end
