(* ===== verification/Kad_ZoneAdd.thy ===== *)
theory Kad_ZoneAdd
  imports Kad_ZoneInv
begin

text \<open>
  Adding to the routing table (Add, AddUnfiltered and Split of KadRoutingZone.cpp): the
  invariant survives, and the effect on the set of contacts is pinned down.
\<close>

section \<open>Adding a contact\<close>

definition ids :: "contact list \<Rightarrow> uint128 set" where
  "ids b = c_clientId ` set b"

definition others :: "uint128 \<Rightarrow> contact list \<Rightarrow> contact set" where
  "others k b = {c \<in> set b. c_clientId c \<noteq> k}"

text \<open>
  What adding a contact may do to the set of contacts: at most one idle contact leaves,
  every contact with another identifier is kept as it is, and the newcomer is inserted
  exactly when the call reports so.
\<close>

definition add_effect :: "uses \<Rightarrow> contact \<Rightarrow> contact list \<Rightarrow> contact list \<Rightarrow> bool \<Rightarrow> bool" where
  "add_effect u c cs cs' added \<longleftrightarrow>
     (if added then c_clientId c \<notin> ids cs \<and> c \<in> set cs' \<and>
        (\<exists>V. length V \<le> 1 \<and> (\<forall>v \<in> set V. v \<in> set cs \<and> \<not> inUse u v) \<and>
             others (c_clientId c) cs' = set cs - set V)
      else ids cs' = ids cs \<and> others (c_clientId c) cs' = others (c_clientId c) cs)"

lemma ids_iff: "k \<in> ids b \<longleftrightarrow> (\<exists>d \<in> set b. c_clientId d = k)"
  by (auto simp: ids_def)

lemma others_append [simp]: "others k (a @ b) = others k a \<union> others k b"
  by (auto simp: others_def)

lemma ids_append [simp]: "ids (a @ b) = ids a \<union> ids b"
  by (auto simp: ids_def)

lemma others_fresh: "k \<notin> ids b \<Longrightarrow> others k b = set b"
  by (auto simp: others_def ids_def)

lemma others_updateId [simp]: "(\<And>c. c_clientId (f c) = c_clientId c) \<Longrightarrow> others k (updateId k f b) = others k b"
  by (auto simp: others_def updateId_def image_iff)

lemma ids_updateId [simp]: "(\<And>c. c_clientId (f c) = c_clientId c) \<Longrightarrow> ids (updateId k f b) = ids b"
  unfolding ids_def updateId_def set_map image_image by (rule image_cong) auto

lemma others_setAlive [simp]: "others k (setAlive now k b) = others k b"
  by (auto simp: setAlive_def others_def set_pushToBottom dest: getContact_Some split: option.splits)

lemma ids_setAlive [simp]: "ids (setAlive now k b) = ids b"
  by (force simp: setAlive_def ids_def set_pushToBottom dest: getContact_Some split: option.splits)

lemma changeAddress_effect:
  "others k (fst (changeAddress k ip b t)) = others k b \<and> ids (fst (changeAddress k ip b t)) = ids b"
  by (auto simp: changeAddress_def changeContactIPAddress_def dest!: getContact_Some
      split: option.splits if_splits prod.splits)

lemma refresh_effect:
  "others k (fst (refresh env c k b t)) = others k b \<and> ids (fst (refresh env c k b t)) = ids b"
  by (simp add: refresh_def Let_def)

lemma updateExisting_effect:
  assumes "getContact (c_clientId c) b = Some e"
    "updateExisting env e c upd ver b t = (upd', ver', b', t')"
  shows "add_effect u c b b' False"
proof -
  let ?k = "c_clientId c"
  let ?a = "changeAddress ?k (cip c) b t"
  have "b' = b \<or> b' = setAlive (ae_now env) ?k b \<or> b' = fst ?a
      \<or> b' = fst (refresh env c ?k (fst ?a) (snd ?a))"
    using updateExisting_steps [OF assms] by (cases ?a) (metis fst_conv snd_conv split_conv)
  then have "others ?k b' = others ?k b \<and> ids b' = ids b"
    using changeAddress_effect [of ?k "cip c" b t] refresh_effect [of ?k env c "fst ?a" "snd ?a"]
    by (elim disjE) simp_all
  then show ?thesis by (simp add: add_effect_def)
qed

lemma add_effect_context:
  "add_effect u c cs cs' added \<Longrightarrow> c_clientId c \<notin> ids r \<Longrightarrow> set cs \<inter> set r = {} \<Longrightarrow>
     add_effect u c (cs @ r) (cs' @ r) added"
  by (auto simp: add_effect_def others_fresh split: if_splits)

lemma add_effect_set:
  "add_effect u c cs cs' added \<Longrightarrow> set ds = set cs \<Longrightarrow> set ds' = set cs' \<Longrightarrow> add_effect u c ds ds' added"
  unfolding add_effect_def others_def ids_def by (simp split: if_splits)

lemma table_ok_Node:
  "table_ok localId p (Node zi z0 z1) t r \<longleftrightarrow>
     wf_info p zi \<and> table_ok localId (p @ [0]) z0 t (contacts z1 @ r) \<and>
     table_ok localId (p @ [1]) z1 t (contacts z0 @ r)"
proof -
  have perm: "count_if P (contacts z1 @ contacts z0 @ r) = count_if P ((contacts z0 @ contacts z1) @ r)" for P
    by simp
  show ?thesis
    using tracks_mset [of t "(contacts z0 @ contacts z1) @ r" "contacts z1 @ contacts z0 @ r", OF _ perm]
      limits_mset [of "(contacts z0 @ contacts z1) @ r" "contacts z1 @ contacts z0 @ r", OF _ perm]
    by (auto simp: table_ok_def)
qed

lemma table_ok_Node_left:
  "table_ok localId p (Node zi z0 z1) t r \<Longrightarrow> table_ok localId (p @ [0]) z0' t' (contacts z1 @ r) \<Longrightarrow>
     table_ok localId p (Node zi z0' z1) t' r"
  by (simp add: table_ok_def)

lemma table_ok_Node_right:
  assumes "table_ok localId p (Node zi z0 z1) t r" "table_ok localId (p @ [1]) z1' t' (contacts z0 @ r)"
  shows "table_ok localId p (Node zi z0 z1') t' r"
proof -
  have perm: "count_if P ((contacts z0 @ contacts z1') @ r) = count_if P (contacts z1' @ contacts z0 @ r)" for P
    by simp
  show ?thesis
    using assms tracks_mset [of t' "contacts z1' @ contacts z0 @ r" "(contacts z0 @ contacts z1') @ r", OF _ perm]
      limits_mset [of "contacts z1' @ contacts z0 @ r" "(contacts z0 @ contacts z1') @ r", OF _ perm]
    by (auto simp: table_ok_def)
qed

text \<open>Contacts of sibling subtrees differ in a bit of their distance.\<close>

lemma wf_zone_placed: "wf_zone localId p z \<Longrightarrow> c \<in> set (contacts z) \<Longrightarrow> placed localId p c"
proof (induction z arbitrary: p)
  case (Node zi z0 z1)
  then have "placed localId (p @ [0]) c \<or> placed localId (p @ [1]) c" by auto
  then show ?case by (auto simp: placed_snoc)
qed auto

lemma placed_same_id: "placed localId p c \<Longrightarrow> placed localId q d \<Longrightarrow> c_clientId c = c_clientId d \<Longrightarrow>
    c_distance c = c_distance d"
  by (simp add: placed_def)

lemma placed_siblings:
  assumes "placed localId (p @ [x]) c" "placed localId (p @ [y]) d" "x \<noteq> y"
  shows "c_clientId c \<noteq> c_clientId d"
proof
  assume "c_clientId c = c_clientId d"
  then have "c_distance c = c_distance d" using assms(1,2) placed_same_id by blast
  then show False using assms unfolding placed_snoc by simp
qed

lemma sibling_fresh:
  "wf_zone localId (p @ [y]) z \<Longrightarrow> placed localId (p @ [x]) c \<Longrightarrow> x \<noteq> y \<Longrightarrow> c_clientId c \<notin> ids (contacts z)"
  using wf_zone_placed placed_siblings unfolding ids_def by blast

lemma sibling_disjoint:
  "wf_zone localId (p @ [x]) z \<Longrightarrow> wf_zone localId (p @ [y]) z' \<Longrightarrow> x \<noteq> y \<Longrightarrow>
     set (contacts z) \<inter> set (contacts z') = {}"
  using wf_zone_placed placed_siblings by blast

text \<open>The bucket of an overflowing leaf becomes two leaves without any change to the contacts.\<close>

lemma split_leaf_correct:
  assumes "table_ok localId p (Leaf zi b) t r" "canSplit zi b" "split_bins (z_level zi) b t = (b0, b1, t')"
  shows "table_ok localId p (Node zi (Leaf (genSubZone now zi 0) b0) (Leaf (genSubZone now zi 1) b1)) t' r
    \<and> mset (b0 @ b1) = mset b"
proof -
  let ?P = "\<lambda>c. getBitNumber (c_distance c) (z_level zi) = 0"
  have b: "wf_info p zi" "wf_bucket b t r" "\<forall>c \<in> set b. placed localId p c"
    using assms(1) by (simp_all add: table_ok_Leaf)
  have lv: "z_level zi = length p" "length p < 127"
    using b(1) assms(2) by (auto simp: wf_info_def canSplit_def split: if_splits)
  have s: "b0 = filter ?P b" "b1 = filter (\<lambda>c. \<not> ?P c) b" "tracks t' (b @ r)"
    using split_bins_correct [of t b r "z_level zi"] b(2) assms(3) by (auto simp: wf_bucket_def)
  have perm: "count_if P ((b0 @ b1) @ r) = count_if P (b @ r)" for P
    using count_if_partition [of P b ?P] by (simp add: s)
  have "tracks t' ((b0 @ b1) @ r)" by (rule tracks_mset [OF s(3)]) (rule perm)
  moreover have "limits ((b0 @ b1) @ r)"
    using b(2) limits_mset [of "b @ r" "(b0 @ b1) @ r", OF _ perm] by (simp add: wf_bucket_def)
  moreover have "bin_ok b0" "bin_ok b1" using b(2) bin_ok_filter s by (auto simp: wf_bucket_def)
  moreover have "\<forall>c \<in> set b0. placed localId (p @ [0]) c" "\<forall>c \<in> set b1. placed localId (p @ [1]) c"
    using b(3) s lv by (auto simp: placed_snoc getBitNumber_not0)
  moreover have "wf_info (p @ [0]) (genSubZone now zi 0)" "wf_info (p @ [1]) (genSubZone now zi 1)"
    using wf_genSubZone [OF b(1) lv(2), of 0 now] wf_genSubZone [OF b(1) lv(2), of 1 now] by simp_all
  moreover have "mset (b0 @ b1) = mset b" by (simp add: s)
  ultimately show ?thesis using b(1) by (simp add: table_ok_def)
qed


lemma add_effect_swap: "add_effect u c (r @ cs) (r @ cs') added = add_effect u c (cs @ r) (cs' @ r) added"
  using add_effect_set [of u c "r @ cs" "r @ cs'" added "cs @ r" "cs' @ r"]
    add_effect_set [of u c "cs @ r" "cs' @ r" added "r @ cs" "r @ cs'"] by (auto simp: Un_commute)

text \<open>Adding below a node: the sibling is untouched.\<close>

lemma node_left_effect:
  assumes "table_ok localId p (Node zi z0 z1) t r" "placed localId (p @ [0]) c"
    "add_effect u c (contacts z0) (contacts z0') added"
  shows "add_effect u c (contacts (Node zi z0 z1)) (contacts (Node zi z0' z1)) added"
  using add_effect_context [OF assms(3) sibling_fresh [OF _ assms(2), of 1 z1] sibling_disjoint [of localId p 0 z0 1 z1]]
    assms(1) by (simp add: table_ok_def)

lemma node_right_effect:
  assumes "table_ok localId p (Node zi z0 z1) t r" "placed localId (p @ [1]) c"
    "add_effect u c (contacts z1) (contacts z1') added"
  shows "add_effect u c (contacts (Node zi z0 z1)) (contacts (Node zi z0 z1')) added"
  using add_effect_context [OF assms(3) sibling_fresh [OF _ assms(2), of 0 z0] sibling_disjoint [of localId p 1 z1 0 z0]]
    assms(1) add_effect_swap [of u c "contacts z0" "contacts z1" "contacts z1'" added] by (simp add: table_ok_def)

lemma leaf_replace_correct:
  assumes "table_ok localId p (Leaf zi b) t r" "placed localId p c" "wf_entry c"
    "replaceWeakest u c b t = (gone, b', t')"
  shows "table_ok localId p (Leaf zi b') t' r \<and> add_effect u c b b' (gone \<noteq> None)"
proof -
  have b: "wf_info p zi" "tracks t (b @ r)" "limits (b @ r)" "bin_ok b" "\<forall>d \<in> set b. placed localId p d"
    using assms(1) by (auto simp: table_ok_def)
  note ok = replaceWeakest_correct [OF b(2-4) assms(3,4)]
  show ?thesis
  proof (cases gone)
    case None
    then show ?thesis using ok assms(1) by (simp add: add_effect_def)
  next
    case (Some v)
    with ok have v: "v \<in> set b" "\<not> inUse u v" "b' = removeId (c_clientId v) b @ [c]"
      "c_clientId c \<notin> ids b" by (auto simp: ids_def)
    have "set (removeId (c_clientId v) b) = set b - {v}"
      using v(1) b(4) by (auto simp: removeId_set bin_ok_def distinct_map inj_on_def)
    then have "others (c_clientId c) b' = set b - set [v]"
      using v(3,4) by (auto simp: others_def ids_iff)
    moreover have "length [v] \<le> 1" "\<forall>w \<in> set [v]. w \<in> set b \<and> \<not> inUse u w" "c \<in> set b'"
      using v(1-3) by simp_all
    ultimately have "add_effect u c b b' True"
      unfolding add_effect_def using v(4) by (simp only: if_True simp_thms) blast
    moreover have "table_ok localId p (Leaf zi b') t' r"
      using ok b assms(2) v(3) by (auto simp: table_ok_def removeId_set)
    ultimately show ?thesis using Some by simp
  qed
qed

lemma leaf_append_correct:
  assumes "table_ok localId p (Leaf zi b) t r" "placed localId p c" "wf_entry c"
    "addContact c b t = (ok, b', t')"
  shows "table_ok localId p (Leaf zi b') t' r \<and> add_effect u c b b' ok"
proof -
  have b: "wf_info p zi" "tracks t (b @ r)" "limits (b @ r)" "bin_ok b" "\<forall>d \<in> set b. placed localId p d"
    using assms(1) by (auto simp: table_ok_def)
  have "add_effect u c b (b @ [c]) True" if "c_clientId c \<notin> ids b"
    using that unfolding add_effect_def by (auto simp: others_def ids_iff intro!: exI [of _ "[]"])
  then show ?thesis
    using addContact_correct [OF b(2-4) assms(3,4)] b assms(2)
    by (auto simp: table_ok_def add_effect_def admissible_def ids_def split: if_splits)
qed

lemma leaf_add_correct:
  assumes "table_ok localId p (Leaf zi b) t r" "placed localId p c" "wf_entry c"
  shows "table_ok localId p (ar_zone (leaf_add env c upd ver zi b t)) (ar_tracking (leaf_add env c upd ver zi b t)) r
    \<and> add_effect (ae_uses env) c b (contacts (ar_zone (leaf_add env c upd ver zi b t)))
        (ar_added (leaf_add env c upd ver zi b t))"
  using assms
proof (induction "127 - z_level zi" arbitrary: zi b t p r rule: less_induct)
  case less
  have b: "wf_info p zi" "wf_bucket b t r" using less.prems(1) by (simp_all add: table_ok_Leaf)
  consider (known) e where "getContact (c_clientId c) b = Some e"
    | (room) "getContact (c_clientId c) b = None" "getRemaining b > 0"
    | (split) "getContact (c_clientId c) b = None" "\<not> getRemaining b > 0" "canSplit zi b"
    | (full) "getContact (c_clientId c) b = None" "\<not> getRemaining b > 0" "\<not> canSplit zi b"
    by (cases "getContact (c_clientId c) b") auto
  then show ?case
  proof cases
    case known
    obtain upd' ver' b' t' where u: "updateExisting env e c upd ver b t = (upd', ver', b', t')"
      by (metis prod_cases4)
    have "table_ok localId p (Leaf zi b') t' r"
      using updateExisting_correct [OF b(2) known u] less.prems(1) placed_idents
      by (auto simp: table_ok_Leaf)
    with updateExisting_effect [OF known u] known u show ?thesis by (simp add: leaf_add.simps)
  next
    case room
    obtain ok b' t' where a: "addContact c b t = (ok, b', t')" by (metis prod_cases3)
    from leaf_append_correct [OF less.prems a] a room show ?thesis by (simp add: leaf_add.simps)
  next
    case full
    obtain gone b' t' where a: "replaceWeakest (ae_uses env) c b t = (gone, b', t')" by (metis prod_cases3)
    from leaf_replace_correct [OF less.prems a] a full show ?thesis
      by (cases gone) (simp_all add: leaf_add.simps)
  next
    case split
    obtain b0 b1 t' where s: "split_bins (z_level zi) b t = (b0, b1, t')" by (metis prod_cases3)
    let ?g0 = "genSubZone (ae_now env) zi 0" and ?g1 = "genSubZone (ae_now env) zi 1"
    have n: "table_ok localId p (Node zi (Leaf ?g0 b0) (Leaf ?g1 b1)) t' r" and m: "mset (b0 @ b1) = mset b"
      using split_leaf_correct [OF less.prems(1) split(3) s] by auto
    have sb: "set b = set (b0 @ b1)" using mset_eq_setD [OF m] by simp
    have small: "127 - z_level ?g0 < 127 - z_level zi" "127 - z_level ?g1 < 127 - z_level zi"
      using split(3) by (auto simp: canSplit_def genSubZone_def init_info_def Let_def split: if_splits)
    have lv: "z_level zi = length p" using b(1) by (simp add: wf_info_def)
    show ?thesis
    proof (cases "getBitNumber (c_distance c) (z_level zi) = 0")
      case True
      have pl: "placed localId (p @ [0]) c" using less.prems(2) True lv by (simp add: placed_snoc)
      have k: "table_ok localId (p @ [0]) (Leaf ?g0 b0) t' (b1 @ r)" using n by (simp add: table_ok_Node)
      let ?res = "leaf_add env c upd ver ?g0 b0 t'"
      from less.hyps [OF small(1) k pl less.prems(3)]
      have ih: "table_ok localId (p @ [0]) (ar_zone ?res) (ar_tracking ?res) (contacts (Leaf ?g1 b1) @ r)"
        "add_effect (ae_uses env) c (contacts (Leaf ?g0 b0)) (contacts (ar_zone ?res)) (ar_added ?res)" by simp_all
      from add_effect_set [OF node_left_effect [OF n pl ih(2)], of b] table_ok_Node_left [OF n ih(1)]
      show ?thesis using split s True sb by (simp add: leaf_add.simps [of env c upd ver zi] Let_def)
    next
      case False
      have pl: "placed localId (p @ [1]) c"
        using less.prems(2) False lv by (simp add: placed_snoc getBitNumber_not0)
      have k: "table_ok localId (p @ [1]) (Leaf ?g1 b1) t' (b0 @ r)" using n by (simp add: table_ok_Node)
      let ?res = "leaf_add env c upd ver ?g1 b1 t'"
      from less.hyps [OF small(2) k pl less.prems(3)]
      have ih: "table_ok localId (p @ [1]) (ar_zone ?res) (ar_tracking ?res) (contacts (Leaf ?g0 b0) @ r)"
        "add_effect (ae_uses env) c (contacts (Leaf ?g1 b1)) (contacts (ar_zone ?res)) (ar_added ?res)" by simp_all
      from add_effect_set [OF node_right_effect [OF n pl ih(2)], of b] table_ok_Node_right [OF n ih(1)]
      show ?thesis using split s False sb by (simp add: leaf_add.simps [of env c upd ver zi] Let_def)
    qed
  qed
qed

lemma zone_add_correct:
  assumes "table_ok localId p z t r" "placed localId p c" "wf_entry c"
  shows "table_ok localId p (ar_zone (zone_add localId env c upd ver z t)) (ar_tracking (zone_add localId env c upd ver z t)) r
    \<and> add_effect (ae_uses env) c (contacts z) (contacts (ar_zone (zone_add localId env c upd ver z t)))
        (ar_added (zone_add localId env c upd ver z t))"
  using assms
proof (induction z arbitrary: p r t)
  case (Leaf zi b)
  show ?case
  proof (cases "c_clientId c = localId")
    case True
    then show ?thesis using Leaf by (simp add: add_effect_def)
  next
    case False
    then show ?thesis using leaf_add_correct [OF Leaf] by simp
  qed
next
  case (Node zi z0 z1)
  have lv: "z_level zi = length p" using Node.prems(1) by (simp add: table_ok_def wf_info_def)
  have k: "table_ok localId (p @ [0]) z0 t (contacts z1 @ r)" "table_ok localId (p @ [1]) z1 t (contacts z0 @ r)"
    using Node.prems(1) by (simp_all add: table_ok_Node)
  consider "c_clientId c = localId"
    | (left) "c_clientId c \<noteq> localId" "getBitNumber (c_distance c) (z_level zi) = 0"
    | (right) "c_clientId c \<noteq> localId" "getBitNumber (c_distance c) (z_level zi) \<noteq> 0" by blast
  then show ?case
  proof cases
    case 1
    then show ?thesis using Node.prems by (simp add: add_effect_def)
  next
    case left
    then have pl: "placed localId (p @ [0]) c" using Node.prems(2) lv by (simp add: placed_snoc)
    note ih = Node.IH(1) [OF k(1) pl Node.prems(3)]
    from node_left_effect [OF Node.prems(1) pl conjunct2 [OF ih]]
      table_ok_Node_left [OF Node.prems(1) conjunct1 [OF ih]] left
    show ?thesis by (simp add: Let_def)
  next
    case right
    then have pl: "placed localId (p @ [1]) c"
      using Node.prems(2) lv by (simp add: placed_snoc getBitNumber_not0)
    note ih = Node.IH(2) [OF k(2) pl Node.prems(3)]
    from node_right_effect [OF Node.prems(1) pl conjunct2 [OF ih]]
      table_ok_Node_right [OF Node.prems(1) conjunct1 [OF ih]] right
    show ?thesis by (simp add: Let_def)
  qed
qed

section \<open>Identifiers are unique in the tree\<close>

lemma wf_zone_distinct: "wf_zone localId p z \<Longrightarrow> distinct (map c_clientId (contacts z))"
proof (induction z arbitrary: p)
  case (Node zi z0 z1)
  have "c_clientId c \<noteq> c_clientId d" if "c \<in> set (contacts z0)" "d \<in> set (contacts z1)" for c d
    using placed_siblings [of localId p 0 c 1 d] wf_zone_placed that Node.prems by auto
  with Node show ?case by auto
qed (simp add: bin_ok_def)

lemma zone_getContact_None: "zone_getContact k z = None \<longleftrightarrow> k \<notin> ids (contacts z)"
  by (induction z) (auto simp: getContact_None ids_def split: option.splits)

lemma zone_getContact_Some: "zone_getContact k z = Some c \<Longrightarrow> c \<in> set (contacts z) \<and> c_clientId c = k"
  by (induction z) (auto dest: getContact_Some split: option.splits)

lemma zone_getContact_iff:
  assumes "wf_zone localId p z"
  shows "zone_getContact k z = Some c \<longleftrightarrow> c \<in> set (contacts z) \<and> c_clientId c = k"
proof
  assume c: "c \<in> set (contacts z) \<and> c_clientId c = k"
  then obtain d where d: "zone_getContact k z = Some d"
    using zone_getContact_None [of k z] by (cases "zone_getContact k z") (auto simp: ids_def)
  with c zone_getContact_Some [OF d] wf_zone_distinct [OF assms] show "zone_getContact k z = Some c"
    by (auto simp: distinct_map inj_on_def)
qed (rule zone_getContact_Some)

section \<open>A contact that proved itself is not taken over\<close>

lemma updateExisting_mismatch:
  assumes "getKeyValue (c_udpKey e) (ae_publicIP env) \<noteq> 0"
    "getKeyValue (c_udpKey e) (ae_publicIP env) \<noteq> getKeyValue (c_udpKey c) (ae_publicIP env)"
  shows "updateExisting env e c upd ver b t = (False, ver, b, t)"
  using assms by (simp add: updateExisting_def Let_def)

lemma zone_add_mismatch:
  assumes "wf_zone localId p z" "zone_getContact (c_clientId c) z = Some e" "placed localId p c"
    "getKeyValue (c_udpKey e) (ae_publicIP env) \<noteq> 0"
    "getKeyValue (c_udpKey e) (ae_publicIP env) \<noteq> getKeyValue (c_udpKey c) (ae_publicIP env)"
    "c_clientId c \<noteq> localId"
  shows "zone_add localId env c upd ver z t =
    \<lparr>ar_added = False, ar_update = False, ar_verified = ver, ar_zone = z, ar_tracking = t\<rparr>"
  using assms(1-3)
proof (induction z arbitrary: p)
  case (Leaf zi b)
  then show ?case using assms(6) by (simp add: leaf_add.simps updateExisting_mismatch [OF assms(4,5)])
next
  case (Node zi z0 z1)
  have lv: "z_level zi = length p" using Node.prems(1) by (simp add: wf_info_def)
  have e: "e \<in> set (contacts (Node zi z0 z1))" "c_clientId e = c_clientId c"
    using zone_getContact_Some [OF Node.prems(2)] by auto
  show ?case
  proof (cases "getBitNumber (c_distance c) (z_level zi) = 0")
    case True
    have pl: "placed localId (p @ [0]) c" using Node.prems(3) True lv by (simp add: placed_snoc)
    have "e \<notin> set (contacts z1)"
      using sibling_fresh [OF _ pl, of 1 z1] e(2) Node.prems(1) by (auto simp: ids_iff)
    then have "zone_getContact (c_clientId c) z0 = Some e"
      using e Node.prems(1) zone_getContact_iff [of localId "p @ [0]" z0] by auto
    from Node.IH(1) [OF _ this pl] Node.prems(1) True assms(6) show ?thesis by (simp add: Let_def)
  next
    case False
    have pl: "placed localId (p @ [1]) c"
      using Node.prems(3) False lv by (simp add: placed_snoc getBitNumber_not0)
    have "e \<notin> set (contacts z0)"
      using sibling_fresh [OF _ pl, of 0 z0] e(2) Node.prems(1) by (auto simp: ids_iff)
    then have "zone_getContact (c_clientId c) z1 = Some e"
      using e Node.prems(1) zone_getContact_iff [of localId "p @ [1]" z1] by auto
    from Node.IH(2) [OF _ this pl] Node.prems(1) False assms(6) show ?thesis by (simp add: Let_def)
  qed
qed

section \<open>The entry points\<close>

definition offered :: "uint128 \<Rightarrow> add_env \<Rightarrow> node_args \<Rightarrow> bool \<Rightarrow> bool \<Rightarrow> contact" where
  "offered localId env n ipVerified fromHello =
     (newContact (ae_now env) (na_id n) (na_ip n) (na_udpPort n) (na_tcpPort n)
        (na_version n) (na_udpKey n) ipVerified localId)\<lparr>c_receivedHello := fromHello\<rparr>"

lemma addUnfiltered_eq:
  "addUnfiltered localId env n iv upd hello z t =
     (if na_version n \<le> 1 \<or> na_id n = localId then (False, z, t)
      else let r = zone_add localId env (offered localId env n iv hello) upd iv z t
           in (ar_added r \<or> ar_update r, ar_zone r, ar_tracking r))"
proof -
  have "(if hello then c\<lparr>c_receivedHello := True\<rparr> else c) = c\<lparr>c_receivedHello := hello\<rparr>"
    if "c_receivedHello c = False" for c :: contact
    using that by (cases c) simp
  then show ?thesis by (auto simp: addUnfiltered_def offered_def Let_def newContact_def)
qed

lemma offered_simps [simp]:
  "c_clientId (offered localId env n iv hello) = na_id n"
  "c_udpKey (offered localId env n iv hello) = na_udpKey n"
  "placed localId [] (offered localId env n iv hello)"
  by (simp_all add: offered_def placed_def) (simp add: newContact_def)

lemma wf_entry_offered [simp]: "wf_entry (offered localId env n iv hello)"
  by (simp add: offered_def wf_entry_def wf_contact_def newContact_def)

lemma addUnfiltered_correct:
  assumes "table_ok localId [] z t []" "addUnfiltered localId env n iv upd hello z t = (ok, z', t')"
  shows "table_ok localId [] z' t' [] \<and>
    (\<exists>added. add_effect (ae_uses env) (offered localId env n iv hello) (contacts z) (contacts z') added
       \<and> (added \<longrightarrow> ok \<and> na_id n \<noteq> localId))"
proof (cases "na_version n \<le> 1 \<or> na_id n = localId")
  case True
  then have "z' = z" "t' = t" using assms(2) unfolding addUnfiltered_eq by simp_all
  then show ?thesis using assms(1) by (auto simp: add_effect_def intro!: exI [of _ False])
next
  case False
  let ?r = "zone_add localId env (offered localId env n iv hello) upd iv z t"
  have "ok = (ar_added ?r \<or> ar_update ?r)" "z' = ar_zone ?r" "t' = ar_tracking ?r"
    using assms(2) False unfolding addUnfiltered_eq by (simp_all add: Let_def)
  then show ?thesis
    using zone_add_correct [OF assms(1) offered_simps(3) wf_entry_offered, of env env n iv hello upd iv] False
    by (intro conjI exI [of _ "ar_added ?r"]) simp_all
qed

lemma add_effect_keeps:
  "add_effect u c cs cs' added \<Longrightarrow> d \<in> set cs \<Longrightarrow> inUse u d \<Longrightarrow> c_clientId d \<in> ids cs'"
  unfolding add_effect_def
  by (cases added; cases "c_clientId d = c_clientId c") (auto simp: ids_iff others_def set_eq_iff)

lemma add_effect_ids: "add_effect u c cs cs' added \<Longrightarrow> ids cs' \<subseteq> insert (c_clientId c) (ids cs)"
proof
  fix k
  assume e: "add_effect u c cs cs' added" and "k \<in> ids cs'"
  then obtain d where d: "d \<in> set cs'" "c_clientId d = k" by (auto simp: ids_iff)
  show "k \<in> insert (c_clientId c) (ids cs)"
  proof (cases "k = c_clientId c")
    case False
    then have "d \<in> others (c_clientId c) cs'" using d by (simp add: others_def)
    then have "d \<in> set cs" using e by (auto simp: add_effect_def others_def split: if_splits)
    then show ?thesis using d by (auto simp: ids_iff)
  qed simp
qed

section \<open>Properties\<close>

text \<open>A small table of two contacts.\<close>

definition sample_zone :: zone where
  "sample_zone = Leaf (init_info 1000 0 (fill128 False)) [sample_contact 1 0x01020304, sample_contact 2 0x05060708]"

lemma placed_sample: "placed (setValue32 0) [] (sample_contact k ip)"
  by (simp add: placed_def sample_contact_def newContact_def)

lemma table_ok_sample: "table_ok (setValue32 0) [] sample_zone (track_all (contacts sample_zone)) []"
proof -
  have "bin_ok (contacts sample_zone) \<and> limits (contacts sample_zone)"
    using wf_sample by (simp add: sample_zone_def bin_ok_def kK_def limits_def kMaxContactsSubnet_def) 
  moreover have "wf_info [] (zinfo sample_zone)"
    by (simp add: sample_zone_def wf_info_def init_info_def fill128_def uval_setValue32)
  ultimately show ?thesis
    using tracks_track_all placed_sample by (simp add: table_ok_def sample_zone_def)
qed

definition sample_node :: "u32 \<Rightarrow> u32 \<Rightarrow> node_args" where
  "sample_node k ip = \<lparr>na_id = setValue32 k, na_ip = ip, na_udpPort = 4672, na_tcpPort = 4662,
     na_version = 9, na_udpKey = \<lparr>key_value = 6, key_ip = 7\<rparr>\<rparr>"

definition sample_env :: add_env where
  "sample_env = \<lparr>ae_now = 1000, ae_publicIP = 7, ae_uses = (\<lambda>_. 0)\<rparr>"

text \<open>Adding or updating a node leaves every contact with another identifier untouched,
  except that at most one contact may lose its place, and never one that a search holds.\<close>

theorem add_touches_nothing_else:
  assumes "table_ok localId [] z t []"
    and "addUnfiltered localId env n iv upd hello z t = (ok, z', t')"
  shows "\<exists>V. length V \<le> 1 \<and> (\<forall>v \<in> set V. \<not> inUse (ae_uses env) v) \<and>
    {d \<in> set (contacts z'). c_clientId d \<noteq> na_id n} = {d \<in> set (contacts z). c_clientId d \<noteq> na_id n} - set V"
proof -
  from addUnfiltered_correct [OF assms] obtain added where
    e: "add_effect (ae_uses env) (offered localId env n iv hello) (contacts z) (contacts z') added" by blast
  show ?thesis
  proof (cases added)
    case True
    then obtain V where "length V \<le> 1" "\<forall>v \<in> set V. v \<in> set (contacts z) \<and> \<not> inUse (ae_uses env) v"
      "others (na_id n) (contacts z') = set (contacts z) - set V" "na_id n \<notin> ids (contacts z)"
      using e by (auto simp: add_effect_def)
    then show ?thesis by (intro exI [of _ V]) (auto simp: others_def ids_iff)
  next
    case False
    then show ?thesis using e by (intro exI [of _ "[]"]) (simp add: add_effect_def others_def)
  qed
qed

text \<open>C30. A known contact that has a key bound to our public address cannot be rewritten by a
  packet that does not carry the same key: the table stays exactly as it is.\<close>

theorem no_takeover_without_key:
  assumes "table_ok localId [] z t []" "zone_getContact (na_id n) z = Some e"
    and "getKeyValue (c_udpKey e) (ae_publicIP env) \<noteq> 0"
    and "getKeyValue (c_udpKey e) (ae_publicIP env) \<noteq> getKeyValue (na_udpKey n) (ae_publicIP env)"
  shows "addUnfiltered localId env n iv upd hello z t = (False, z, t)"
proof -
  have "wf_zone localId [] z" using assms(1) by (simp add: table_ok_def)
  then show ?thesis
    using zone_add_mismatch [of localId "[]" z "offered localId env n iv hello" e env upd iv t] assms(2-4)
    unfolding addUnfiltered_eq by (simp add: Let_def)
qed

theorem no_takeover_without_key_witness:
  "addUnfiltered (setValue32 0) sample_env (sample_node 1 0x09080706) True True False
     sample_zone (track_all (contacts sample_zone)) = (False, sample_zone, track_all (contacts sample_zone))"
proof -
  have e: "zone_getContact (na_id (sample_node 1 0x09080706)) sample_zone = Some (sample_contact 1 0x01020304)"
    by (simp add: sample_node_def sample_zone_def getContact_def)
  have k: "c_udpKey (sample_contact 1 0x01020304) = \<lparr>key_value = 5, key_ip = 7\<rparr>"
    by (simp add: sample_contact_def newContact_def)
  show ?thesis
    by (rule no_takeover_without_key [OF table_ok_sample e])
      (simp_all add: k sample_env_def getKeyValue_def sample_node_def)
qed

text \<open>C32. Splitting an overflowing leaf loses no contact (the branch that would delete one never
  runs), and both halves hold exactly the contacts on their side.\<close>

theorem split_loses_nothing:
  assumes "table_ok localId p (Leaf zi b) t r" "canSplit zi b" "split_bins (z_level zi) b t = (b0, b1, t')"
  shows "mset (b0 @ b1) = mset b \<and>
    (\<forall>c \<in> set b0. getBitNumber (c_distance c) (z_level zi) = 0) \<and>
    (\<forall>c \<in> set b1. getBitNumber (c_distance c) (z_level zi) = 1) \<and>
    table_ok localId p (Node zi (Leaf (genSubZone now zi 0) b0) (Leaf (genSubZone now zi 1) b1)) t' r"
proof -
  have n: "table_ok localId p (Node zi (Leaf (genSubZone now zi 0) b0) (Leaf (genSubZone now zi 1) b1)) t' r"
    "mset (b0 @ b1) = mset b" using split_leaf_correct [OF assms, of now] by auto
  moreover have "z_level zi = length p" using assms(1) by (simp add: table_ok_def wf_info_def)
  ultimately show ?thesis by (auto simp: table_ok_def placed_snoc)
qed

lemma table_ok_sample_bin:
  "table_ok (setValue32 0) [] (Leaf (init_info 1000 0 (fill128 False)) sample_bin) (track_all sample_bin) []"
proof -
  have "\<forall>c \<in> set sample_bin. placed (setValue32 0) [] c"
    by (simp add: placed_def sample_bin_def expire_def) (simp add: sample_contact_def newContact_def)
  moreover have "wf_info [] (init_info 1000 0 (fill128 False))"
    by (simp add: wf_info_def init_info_def fill128_def uval_setValue32)
  ultimately show ?thesis using sample_bin_ok tracks_track_all by (simp add: table_ok_def)
qed

theorem split_loses_nothing_witness:
  "mset (fst (split_bins 0 sample_bin (track_all sample_bin)) @ fst (snd (split_bins 0 sample_bin (track_all sample_bin))))
     = mset sample_bin"
proof -
  have "canSplit (init_info 1000 0 (fill128 False)) sample_bin"
    by (simp add: canSplit_def init_info_def kKBase_def getRemaining_def sample_bin_def kK_def)
  from split_loses_nothing [OF table_ok_sample_bin this] show ?thesis
    by (metis init_info_def prod.collapse zone_info.select_convs(1))
qed

end
