(* ===== verification/Kad_ZoneMaintain.thy ===== *)
theory Kad_ZoneMaintain
  imports Kad_ZoneAdd
begin

text \<open>
  Maintenance of the routing table (Consolidate, OnSmallTimer, VerifyContact and the
  sweeps of KadRoutingZone.cpp) and the step relation of the whole table.
\<close>

section \<open>Merging\<close>

lemma addAll_correct:
  assumes "wf_bucket b t r" "\<forall>c \<in> set cs. wf_entry c" "addAll cs b t = (b', t')"
  shows "wf_bucket b' t' r \<and> set b' \<subseteq> set b \<union> set cs"
  using assms
proof (induction cs arbitrary: b t)
  case (Cons c cs)
  obtain ok b1 t1 where a: "addContact c b t = (ok, b1, t1)" by (metis prod_cases3)
  have "wf_bucket b1 t1 r" "set b1 \<subseteq> set b \<union> {c}"
    using addContact_correct [OF _ _ _ _ a, of r] Cons.prems(1,2)
    by (auto simp: wf_bucket_def split: if_splits)
  with Cons.IH [of b1 t1] Cons.prems(2,3) a show ?case by auto
qed simp

lemma addAll_lossless:
  assumes "tracks t (b @ r)" "limits (cs @ b @ r)" "bin_ok (cs @ b)"
  shows "\<exists>t'. addAll cs b t = (b @ cs, t')"
  using assms
proof (induction cs arbitrary: b t)
  case (Cons c cs)
  have wf: "wf_entry c" using Cons.prems(3) by (simp add: bin_ok_def)
  have ip: "count_if (\<lambda>d. cip d = cip c) (b @ r) = 0"
    using Cons.prems(2) unfolding limits_def by (auto dest: spec [of _ "cip c"])
  have sn: "v4_lan (cip c) \<or> count_if (\<lambda>d. same_subnet (cip c) (cip d)) (b @ r) < kMaxContactsSubnet"
    using Cons.prems(2) unfolding limits_def by (auto dest!: spec [of _ "cip c"])
  have loc: "v4_lan (cip c) \<or> count_if (\<lambda>d. same_subnet (cip c) (cip d)) b < 2"
    using Cons.prems(3) unfolding bin_ok_def by (auto dest!: spec [of _ "cip c"])
  have adm: "admissible c b (b @ r)" and len: "length b < kK"
    using Cons.prems(3) ip sn loc by (auto simp: bin_ok_def admissible_def)
  let ?t = "adjustGlobalTracking (cip c) True t"
  have add: "addContact c b t = (True, b @ [c], ?t)"
    using addContact_eq [OF Cons.prems(1) wf] adm len by simp
  have p1: "count_if P ((b @ [c]) @ r) = count_if P (c # b @ r)"
    "count_if P (cs @ (b @ [c]) @ r) = count_if P ((c # cs) @ b @ r)" for P by simp_all
  have sp: "same_places ((c # cs) @ b) (cs @ b @ [c])" by (simp add: same_places_def)
  have "tracks ?t ((b @ [c]) @ r)"
    by (rule tracks_mset [OF tracks_increase [OF Cons.prems(1)]]) (rule p1)
  moreover have "limits (cs @ (b @ [c]) @ r)" by (rule limits_mset [OF Cons.prems(2)]) (rule p1)
  moreover have "bin_ok (cs @ b @ [c])"
    using Cons.prems(3) by (intro same_places_bin_ok [OF sp Cons.prems(3)]) (auto simp: bin_ok_def)
  ultimately show ?case using Cons.IH [of ?t "b @ [c]"] add by simp
qed simp

text \<open>No subnet has more than two contacts among the given ones.\<close>

definition spread :: "contact list \<Rightarrow> bool" where
  "spread cs \<longleftrightarrow> (\<forall>ip. \<not> v4_lan ip \<longrightarrow> count_if (\<lambda>c. same_subnet ip (cip c)) cs \<le> 2)"

lemma wf_bucket_Nil: "tracks t r \<Longrightarrow> limits r \<Longrightarrow> wf_bucket [] t r"
  by (simp add: wf_bucket_def bin_ok_def)

lemma addAll_append: "addAll (a @ b) x t = (case addAll a x t of (x', t') \<Rightarrow> addAll b x' t')"
  by (induction a arbitrary: x t) (auto split: prod.splits)

lemma mergeLeaves_eq:
  "mergeLeaves now zi b0 b1 t =
     (case addAll (b0 @ b1) [] (destroyBin b1 (destroyBin b0 t)) of
        (b, t') \<Rightarrow> (Leaf (zi\<lparr>z_nextBig := now + 10\<rparr>) b, t'))"
  by (auto simp: mergeLeaves_def addAll_append split: prod.splits)

lemma kK_bounds: "n < kK div 2 \<Longrightarrow> n \<le> kK"
  by (simp add: kK_def)

lemma mergeLeaves_correct:
  assumes "table_ok localId p (Node zi (Leaf i0 b0) (Leaf i1 b1)) t r" "length b0 + length b1 < kK div 2"
    "mergeLeaves now zi b0 b1 t = (z', t')"
  shows "table_ok localId p z' t' r \<and> isLeaf z' \<and> set (contacts z') \<subseteq> set (b0 @ b1) \<and>
    (spread (b0 @ b1) \<longrightarrow> contacts z' = b0 @ b1)"
proof -
  let ?z = "Node zi (Leaf i0 b0) (Leaf i1 b1)" and ?t = "destroyBin b1 (destroyBin b0 t)"
  have ok: "wf_info p zi" "tracks t ((b0 @ b1) @ r)" "limits ((b0 @ b1) @ r)"
    "bin_ok b0" "bin_ok b1" "wf_zone localId p ?z"
    using assms(1) by (auto simp: table_ok_def)
  have t: "tracks ?t r"
    using tracks_destroyBin [of t b0 "b1 @ r"] tracks_destroyBin [of "destroyBin b0 t" b1 r] ok(2) by simp
  have lr: "limits r" using limits_mono [OF ok(3), of r] by simp
  have wf: "\<forall>c \<in> set (b0 @ b1). wf_entry c" using ok(4,5) by (auto simp: bin_ok_def)
  obtain b where a: "addAll (b0 @ b1) [] ?t = (b, t')" and z': "z' = Leaf (zi\<lparr>z_nextBig := now + 10\<rparr>) b"
    using assms(3) by (auto simp: mergeLeaves_eq split: prod.splits)
  from addAll_correct [OF wf_bucket_Nil [OF t lr] wf a]
  have b: "wf_bucket b t' r" "set b \<subseteq> set (b0 @ b1)" by auto
  have pl: "\<forall>c \<in> set b. placed localId p c"
  proof
    fix c assume "c \<in> set b"
    then have "c \<in> set (contacts ?z)" using b(2) by auto
    then show "placed localId p c" by (rule wf_zone_placed [OF ok(6)])
  qed
  have "contacts z' = b0 @ b1" if "spread (b0 @ b1)"
  proof -
    have "distinct (map c_clientId (contacts ?z))" by (rule wf_zone_distinct [OF ok(6)])
    then have "bin_ok (b0 @ b1)"
      using that wf kK_bounds [OF assms(2)] by (simp add: bin_ok_def spread_def)
    then obtain t2 where "addAll (b0 @ b1) [] ?t = ([] @ b0 @ b1, t2)"
      using addAll_lossless [of ?t "[]" r "b0 @ b1"] t ok(3) by auto
    then show ?thesis using a z' by simp
  qed
  moreover have "table_ok localId p z' t' r"
    using b(1) pl ok(1) by (simp add: z' table_ok_Leaf) (simp add: wf_info_def)
  ultimately show ?thesis using b(2) z' by simp
qed

lemma consolidate_isLeaf_cases:
  "(if isLeaf z then (z, t) else consolidate now z t) = consolidate now z t"
  by (cases z) auto

lemma consolidate_Node:
  "consolidate now (Node zi z0 z1) t =
     (case consolidate now z0 t of (z0', t1) \<Rightarrow> case consolidate now z1 t1 of (z1', t2) \<Rightarrow>
        case (z0', z1') of
           (Leaf _ b0, Leaf _ b1) \<Rightarrow>
             if length b0 + length b1 < kK div 2 then mergeLeaves now zi b0 b1 t2
             else (Node zi z0' z1', t2)
         | _ \<Rightarrow> (Node zi z0' z1', t2))"
  by (simp only: consolidate.simps consolidate_isLeaf_cases Let_def)

lemma spread_mono: "spread cs \<Longrightarrow> (\<And>P. count_if P ds \<le> count_if P cs) \<Longrightarrow> spread ds"
  unfolding spread_def using le_trans by blast

lemma consolidate_correct:
  assumes "table_ok localId p z t r" "consolidate now z t = (z', t')"
  shows "table_ok localId p z' t' r \<and> set (contacts z') \<subseteq> set (contacts z) \<and>
    (spread (contacts z) \<longrightarrow> contacts z' = contacts z)"
  using assms
proof (induction z arbitrary: p t r z' t')
  case (Leaf zi b)
  then show ?case by simp
next
  case (Node zi z0 z1)
  obtain z0' t1 where c0: "consolidate now z0 t = (z0', t1)" by fastforce
  obtain z1' t2 where c1: "consolidate now z1 t1 = (z1', t2)" by fastforce
  have k0: "table_ok localId (p @ [0]) z0 t (contacts z1 @ r)" using Node.prems(1) by (simp add: table_ok_Node)
  note ih0 = Node.IH(1) [OF k0 c0]
  have n0: "table_ok localId p (Node zi z0' z1) t1 r"
    using table_ok_Node_left [OF Node.prems(1)] ih0 by blast
  then have k1: "table_ok localId (p @ [1]) z1 t1 (contacts z0' @ r)" by (simp add: table_ok_Node)
  note ih1 = Node.IH(2) [OF k1 c1]
  have n1: "table_ok localId p (Node zi z0' z1') t2 r" using table_ok_Node_right [OF n0] ih1 by blast
  have sp: "spread (contacts z0) \<and> spread (contacts z1)" if "spread (contacts z0 @ contacts z1)"
    using that spread_mono [OF that, of "contacts z0"] spread_mono [OF that, of "contacts z1"] by simp
  have keep: "contacts (Node zi z0' z1') = contacts (Node zi z0 z1)" if "spread (contacts (Node zi z0 z1))"
    using that sp ih0 ih1 by simp
  show ?case
  proof (cases "z' = Node zi z0' z1' \<and> t' = t2")
    case True
    then show ?thesis using n1 ih0 ih1 keep by auto
  next
    case False
    then obtain i0 b0 i1 b1 where l: "z0' = Leaf i0 b0" "z1' = Leaf i1 b1"
      and len: "length b0 + length b1 < kK div 2" and m: "mergeLeaves now zi b0 b1 t2 = (z', t')"
      using Node.prems(2) c0 c1 unfolding consolidate_Node
      by (auto split: zone.splits if_splits)
    from mergeLeaves_correct [OF n1 [unfolded l] len m] ih0 ih1 keep l show ?thesis by auto
  qed
qed

section \<open>The small timer\<close>

lemma smallTimer_pass_correct:
  assumes "wf_bucket b t r" "distinct (map c_clientId cs)" "set cs \<subseteq> set b"
    "smallTimer_pass now offline banned u cs b t = (b', t')"
  shows "wf_bucket b' t' r \<and> idents b' \<subseteq> idents b"
  using assms
proof (induction cs arbitrary: b t)
  case (Cons c cs)
  have c: "c \<in> set b" "bin_ok b" using Cons.prems by (auto simp: wf_bucket_def)
  then have gc: "getContact (c_clientId c) b = Some c" by (simp add: bin_ok_def getContact_distinct)
  have rest: "set cs \<subseteq> set b" "\<forall>d \<in> set cs. c_clientId d \<noteq> c_clientId c" "distinct (map c_clientId cs)"
    using Cons.prems(2,3) by (auto simp: image_iff)
  let ?b1 = "removeId (c_clientId c) b" and ?t1 = "adjustGlobalTracking (cip c) False t"
  let ?b2 = "updateId (c_clientId c) (\<lambda>d. d\<lparr>c_expires := now\<rparr>) b"
  have rm: "wf_bucket ?b1 ?t1 r" "idents ?b1 \<subseteq> idents b" "set cs \<subseteq> set ?b1"
    using remove_known.keeps [OF Cons.prems(1), of "c_clientId c"] gc rest
    by (auto simp: removeKnown_def removeContact_def removeId_set)
  have up: "bin_operation (\<lambda>b t. (updateId (c_clientId c) (\<lambda>d. d\<lparr>c_expires := now\<rparr>) b, t))"
    by (rule bin_operation_updateId) simp
  have st: "wf_bucket ?b2 t r" "idents ?b2 \<subseteq> idents b" "set cs \<subseteq> set ?b2"
    using bin_operation.keeps [OF up Cons.prems(1)] rest by (auto simp: updateId_def image_iff)
  show ?case
    using Cons.IH [OF rm(1) rest(3) rm(3)] Cons.IH [OF st(1) rest(3) st(3)] Cons.IH [OF Cons.prems(1) rest(3,1)]
      rm(2) st(2) Cons.prems(4)
    by (auto simp: removeContact_def split: if_splits)
qed simp

lemma onSmallTimer_correct:
  assumes "wf_bucket b t r" "onSmallTimer now offline banned u b t = (b', hello, t')"
  shows "wf_bucket b' t' r \<and> idents b' \<subseteq> idents b"
proof -
  obtain b1 t1 where p: "smallTimer_pass now offline banned u b b t = (b1, t1)" by fastforce
  have "distinct (map c_clientId b)" using assms(1) by (simp add: wf_bucket_def bin_ok_def)
  from smallTimer_pass_correct [OF assms(1) this _ p]
  have w: "wf_bucket b1 t1 r" "idents b1 \<subseteq> idents b" by auto
  have push: "wf_bucket (pushToBottom d b1) t1 r \<and> idents (pushToBottom d b1) = idents b1"
    if "c \<in> set b1" "c_clientId d = c_clientId c" "c_distance d = c_distance c" "c_address d = c_address c"
      "wf_entry d" for c d
  proof -
    have ok: "bin_ok b1" using w(1) by (simp add: wf_bucket_def)
    then have sp: "same_places b1 (pushToBottom d b1)"
      using that by (intro same_places_pushToBottom [where c = c]) (auto simp: bin_ok_def)
    have "\<forall>x \<in> set (pushToBottom d b1). wf_entry x" using that ok by (auto simp: set_pushToBottom bin_ok_def)
    from same_places_wf_bucket [OF sp w(1) this] idents_same_places [OF sp] show ?thesis by simp
  qed
  show ?thesis
  proof (cases "getOldest b1")
    case None
    then show ?thesis using assms(2) p w by (simp add: onSmallTimer_def)
  next
    case (Some c)
    then have c: "c \<in> set b1" by (auto simp: getOldest_def split: list.splits)
    then have wf: "wf_entry c" using w(1) by (auto simp: wf_bucket_def bin_ok_def)
    then have "wf_entry (markRecheck 0 c)" "wf_entry (checkingType now c)"
      by (simp_all add: wf_entry_def wf_markRecheck wf_checkingType)
    then show ?thesis using assms(2) p w Some c wf push [of c]
      by (auto simp: onSmallTimer_def Let_def split: if_splits)
  qed
qed

interpretation small_timer: bin_operation
  "\<lambda>b t. case onSmallTimer now offline banned u b t of (b', _, t') \<Rightarrow> (b', t')" for now offline banned u
  by unfold_locales (auto dest: onSmallTimer_correct split: prod.splits)

section \<open>Verification and the sweeps over a bucket\<close>

lemma wf_entry_sweep [simp]:
  "wf_entry c \<Longrightarrow> wf_entry (voidChecksSince since now c)" "wf_entry c \<Longrightarrow> wf_entry (markRecheck at c)"
  by (simp_all add: wf_entry_def wf_voidChecksSince wf_markRecheck)

interpretation void_checks: bin_operation "\<lambda>b t. (zone_voidChecksSince since now b, t)" for since now
  unfolding zone_voidChecksSince_def by (rule bin_operation_map) simp

interpretation mark_recheck: bin_operation "\<lambda>b t. (markRecheckAll now b, t)" for now
  unfolding markRecheckAll_def by (rule bin_operation_map) simp

interpretation set_verified: bin_operation "\<lambda>b t. (setAllContactsVerified b, t)"
  unfolding setAllContactsVerified_def by (rule bin_operation_map) simp

interpretation set_tcp_port: bin_operation "\<lambda>b t. (setTCPPort now ip up tp b, t)" for now ip up tp
proof
  fix b t r b' t'
  assume b: "wf_bucket b t r" and run: "(setTCPPort now ip up tp b, t) = (b', t' :: tracking)"
  show "wf_bucket b' t' r \<and> idents b' \<subseteq> idents b"
  proof (cases "find (\<lambda>c. ip = cip c \<and> up = c_udpPort c) b")
    case None
    then show ?thesis using b run by (simp add: setTCPPort_def)
  next
    case (Some c)
    then have c: "c \<in> set b" by (auto simp: find_Some_iff)
    let ?d = "updateType now (c\<lparr>c_tcpPort := tp\<rparr>)"
    have ok: "bin_ok b" using b by (simp add: wf_bucket_def)
    have sp: "same_places b (pushToBottom ?d b)"
      using ok c by (intro same_places_pushToBottom [where c = c]) (auto simp: bin_ok_def)
    have "\<forall>x \<in> set (pushToBottom ?d b). wf_entry x"
      using ok c by (auto simp: set_pushToBottom bin_ok_def)
    from same_places_wf_bucket [OF sp b this] idents_same_places [OF sp]
    show ?thesis using run Some by (simp add: setTCPPort_def)
  qed
qed

lemma idents_append: "idents (a @ b) = idents a \<union> idents b"
  by (auto simp: idents_def)

lemma verify_op: "bin_operation (\<lambda>b t. (updateId k (\<lambda>c. c\<lparr>c_ipVerified := True\<rparr>) b, t))"
  by (rule bin_operation_updateId) simp

lemma verifyContact_correct:
  "table_ok localId p z t r \<Longrightarrow> table_ok localId p (snd (verifyContact k ip z)) t r
     \<and> idents (contacts (snd (verifyContact k ip z))) \<subseteq> idents (contacts z)"
proof (induction z arbitrary: p r)
  case (Leaf zi b)
  show ?case
  proof (cases "\<exists>c. getContact k b = Some c \<and> cip c = ip")
    case True
    let ?b = "updateId k (\<lambda>c. c\<lparr>c_ipVerified := True\<rparr>) b"
    have "verifyContact k ip (Leaf zi b) = (True, Leaf zi ?b)" using True by auto
    moreover have "table_ok localId p (Leaf zi ?b) t r"
      by (rule bin_operation.keeps_table [OF verify_op Leaf refl]) (use Leaf in \<open>simp add: table_ok_Leaf\<close>)
    moreover have "idents ?b = idents b" by (rule idents_updateId) simp
    ultimately show ?thesis by simp
  next
    case False
    then show ?thesis using Leaf by (auto split: option.splits)
  qed
next
  case (Node zi z0 z1)
  have k: "table_ok localId (p @ [0]) z0 t (contacts z1 @ r)" "table_ok localId (p @ [1]) z1 t (contacts z0 @ r)"
    using Node.prems by (simp_all add: table_ok_Node)
  show ?case
    using Node.IH(1) [OF k(1)] Node.IH(2) [OF k(2)] table_ok_Node_left [OF Node.prems]
      table_ok_Node_right [OF Node.prems]
    by (auto simp: idents_append split: option.splits prod.splits)
qed

section \<open>The table as a state machine\<close>

text \<open>The event loop runs the timers of one leaf at a time; a path selects the leaf.\<close>

fun on_leaf :: "bool list \<Rightarrow> (bin \<Rightarrow> tracking \<Rightarrow> bin \<times> tracking) \<Rightarrow> zone \<Rightarrow> tracking \<Rightarrow> zone \<times> tracking" where
  "on_leaf path op (Leaf zi b) t = (case op b t of (b', t') \<Rightarrow> (Leaf zi b', t'))"
| "on_leaf [] op (Node zi z0 z1) t = (Node zi z0 z1, t)"
| "on_leaf (False # path) op (Node zi z0 z1) t =
     (case on_leaf path op z0 t of (z0', t') \<Rightarrow> (Node zi z0' z1, t'))"
| "on_leaf (True # path) op (Node zi z0 z1) t =
     (case on_leaf path op z1 t of (z1', t') \<Rightarrow> (Node zi z0 z1', t'))"

lemma ids_idents: "ids b = fst ` idents b"
  by (simp add: ids_def idents_def image_image)

context bin_operation begin

lemma keeps_on_leaf:
  "table_ok localId p z t r \<Longrightarrow> on_leaf path op z t = (z', t') \<Longrightarrow>
     table_ok localId p z' t' r \<and> idents (contacts z') \<subseteq> idents (contacts z)"
proof (induction z arbitrary: path p r t z' t')
  case (Leaf zi b)
  obtain b' where op: "op b t = (b', t')" and z': "z' = Leaf zi b'"
    using Leaf.prems(2) by (auto split: prod.splits)
  have "wf_info p zi" "wf_bucket b t r" using Leaf.prems(1) by (simp_all add: table_ok_Leaf)
  with keeps_table [OF Leaf.prems(1) op] keeps [OF _ op] show ?case by (simp add: z')
next
  case (Node zi z0 z1)
  have k: "table_ok localId (p @ [0]) z0 t (contacts z1 @ r)" "table_ok localId (p @ [1]) z1 t (contacts z0 @ r)"
    using Node.prems(1) by (simp_all add: table_ok_Node)
  show ?case
  proof (cases path)
    case Nil
    then show ?thesis using Node.prems by simp
  next
    case (Cons d ds)
    obtain z0' t0 z1' t1 where run: "on_leaf ds op z0 t = (z0', t0)" "on_leaf ds op z1 t = (z1', t1)"
      by fastforce
    note ih0 = Node.IH(1) [OF k(1) run(1)] and ih1 = Node.IH(2) [OF k(2) run(2)]
    show ?thesis
    proof (cases d)
      case True
      then have "z' = Node zi z0 z1'" "t' = t1" using Node.prems(2) Cons run by simp_all
      then show ?thesis using ih1 table_ok_Node_right [OF Node.prems(1)] by (auto simp: idents_append)
    next
      case False
      then have "z' = Node zi z0' z1" "t' = t0" using Node.prems(2) Cons run by simp_all
      then show ?thesis using ih0 table_ok_Node_left [OF Node.prems(1)] by (auto simp: idents_append)
    qed
  qed
qed

end

text \<open>
  The steps of the table: what a peer triggers (adding, proving an address), the timers
  of a leaf, the sweeps after an outage and the periodic merge.
\<close>

inductive table_step :: "uint128 \<Rightarrow> zone \<times> tracking \<Rightarrow> zone \<times> tracking \<Rightarrow> bool" for localId where
  add: "addUnfiltered localId env n iv upd hello z t = (ok, z', t') \<Longrightarrow> table_step localId (z, t) (z', t')"
| verify: "verifyContact k ip z = (ok, z') \<Longrightarrow> table_step localId (z, t) (z', t)"
| small_timer: "on_leaf path (\<lambda>b t. case onSmallTimer now offline banned u b t of (b', _, t') \<Rightarrow> (b', t')) z t = (z', t')
    \<Longrightarrow> table_step localId (z, t) (z', t')"
| void_checks: "on_leaf path (\<lambda>b t. (zone_voidChecksSince since now b, t)) z t = (z', t') \<Longrightarrow> table_step localId (z, t) (z', t')"
| recheck: "on_leaf path (\<lambda>b t. (markRecheckAll now b, t)) z t = (z', t') \<Longrightarrow> table_step localId (z, t) (z', t')"
| tcp_port: "on_leaf path (\<lambda>b t. (setTCPPort now ip up tp b, t)) z t = (z', t') \<Longrightarrow> table_step localId (z, t) (z', t')"
| merge: "consolidate now z t = (z', t') \<Longrightarrow> table_step localId (z, t) (z', t')"

inductive_cases table_stepE: "table_step localId (z, t) (z', t')"

inductive table_reachable :: "uint128 \<Rightarrow> int \<Rightarrow> zone \<times> tracking \<Rightarrow> bool" for localId start where
  init: "table_reachable localId start (Leaf (init_info start 0 (fill128 False)) [], resetGlobalTracking)"
| step: "table_reachable localId start s \<Longrightarrow> table_step localId s s' \<Longrightarrow> table_reachable localId start s'"

lemma table_step_ok:
  assumes "table_step localId (z, t) (z', t')" "table_ok localId [] z t []" "localId \<notin> ids (contacts z)"
  shows "table_ok localId [] z' t' [] \<and> localId \<notin> ids (contacts z')"
proof -
  have sub: "localId \<notin> ids (contacts z')" if "idents (contacts z') \<subseteq> idents (contacts z)"
    using that assms(3) by (auto simp: ids_idents)
  show ?thesis using assms(1)
  proof cases
    case (add env n iv upd hello ok)
    from addUnfiltered_correct [OF assms(2) this] obtain added where
      e: "table_ok localId [] z' t' []"
        "add_effect (ae_uses env) (offered localId env n iv hello) (contacts z) (contacts z') added"
        "added \<longrightarrow> na_id n \<noteq> localId" by blast
    show ?thesis using e add_effect_ids [OF e(2)] assms(3)
      by (cases added) (auto simp: add_effect_def [of _ _ _ _ False])
  next
    case (verify k ip ok)
    then show ?thesis using verifyContact_correct [OF assms(2), of k ip] sub by simp
  next
    case (small_timer path now offline banned u)
    then show ?thesis using small_timer.keeps_on_leaf [OF assms(2)] sub by blast
  next
    case (void_checks path since now)
    then show ?thesis using void_checks.keeps_on_leaf [OF assms(2)] sub by blast
  next
    case (recheck path now)
    then show ?thesis using mark_recheck.keeps_on_leaf [OF assms(2)] sub by blast
  next
    case (tcp_port path now ip up tp)
    then show ?thesis using set_tcp_port.keeps_on_leaf [OF assms(2)] sub by blast
  next
    case (merge now)
    from consolidate_correct [OF assms(2) this] sub show ?thesis by (auto simp: idents_def)
  qed
qed

lemma table_ok_init: "table_ok localId [] (Leaf (init_info start 0 (fill128 False)) []) resetGlobalTracking []"
  using tracks_reset
  by (simp add: table_ok_def wf_info_def init_info_def limits_def bin_ok_def fill128_def setValue32_def uval.simps concat_bit_def)

lemma table_reachable_ok:
  "table_reachable localId start s \<Longrightarrow>
     table_ok localId [] (fst s) (snd s) [] \<and> localId \<notin> ids (contacts (fst s))"
proof (induction rule: table_reachable.induct)
  case init
  show ?case using table_ok_init by (simp add: ids_def)
next
  case (step s s')
  then show ?case using table_step_ok by (cases s; cases s') auto
qed

section \<open>Properties\<close>

text \<open>C9. In every state the routing table can reach, the tracking maps count exactly its
  contacts, no address is in it twice, no public subnet exceeds its limit, no identifier occurs
  twice, the own identifier never does, and each contact lies in the leaf of its distance.\<close>

theorem table_invariant:
  assumes "table_reachable localId start (z, t)"
  shows "tracks t (contacts z) \<and> limits (contacts z) \<and> distinct (map c_clientId (contacts z)) \<and>
    localId \<notin> c_clientId ` set (contacts z) \<and> wf_zone localId [] z"
proof -
  have "wf_zone localId [] z" "tracks t (contacts z)" "limits (contacts z)" "localId \<notin> ids (contacts z)"
    using table_reachable_ok [OF assms] by (simp_all add: table_ok_def)
  then show ?thesis using wf_zone_distinct by (simp add: ids_def)
qed

lemma sample_reachable:
  "\<exists>z t. table_reachable (setValue32 0) 1000 (z, t) \<and> length (contacts z) = 1"
proof -
  let ?z = "Leaf (init_info 1000 0 (fill128 False)) []" and ?n = "sample_node 1 0x01020304"
  let ?c = "offered (setValue32 0) sample_env ?n True False"
  have "cip ?c = 0x01020304" by (simp add: offered_def sample_node_def)
  then have "admissible ?c [] ([] @ [])" by (simp add: admissible_def kMaxContactsSubnet_def)
  then have a: "addContact ?c [] resetGlobalTracking
      = (True, [?c], adjustGlobalTracking (cip ?c) True resetGlobalTracking)"
    using addContact_eq [of resetGlobalTracking "[]" "[]" ?c] tracks_reset by (simp add: kK_def)
  have "na_version ?n = 9 \<and> na_id ?n \<noteq> setValue32 0" by (simp add: sample_node_def)
  then obtain t' where run: "addUnfiltered (setValue32 0) sample_env ?n True True False ?z resetGlobalTracking
      = (True, Leaf (init_info 1000 0 (fill128 False)) [?c], t')"
    using a unfolding addUnfiltered_eq
    by (simp add: leaf_add.simps getContact_def getRemaining_def kK_def Let_def)
  have "table_reachable (setValue32 0) 1000 (Leaf (init_info 1000 0 (fill128 False)) [?c], t')"
    by (rule table_reachable.step [OF table_reachable.init table_step.add [OF run]])
  then show ?thesis by (intro exI conjI) (assumption, simp)
qed

theorem table_invariant_witness:
  "\<exists>z t. length (contacts z) = 1 \<and> tracks t (contacts z) \<and> wf_zone (setValue32 0) [] z"
  using sample_reachable table_invariant by blast

text \<open>Merging thin siblings keeps the table well-formed and brings in nothing; it keeps every
  contact unless one public subnet has more than two.\<close>

theorem merge_correct:
  assumes "table_ok localId [] z t []" "consolidate now z t = (z', t')"
  shows "table_ok localId [] z' t' [] \<and> set (contacts z') \<subseteq> set (contacts z) \<and>
    (spread (contacts z) \<longrightarrow> contacts z' = contacts z)"
  by (rule consolidate_correct [OF assms])

definition far_contact :: contact where
  "far_contact = newContact 1000 (U128 0x80000000 0 0 0) 0x01020306 4672 4662 9 \<lparr>key_value = 5, key_ip = 7\<rparr> True (setValue32 0)"

text \<open>Three contacts of one subnet in two sibling leaves, the third one held by a search.\<close>

definition thin_table :: zone where
  "thin_table = (let i = init_info 1000 0 (fill128 False) in
     Node i (Leaf (genSubZone 1000 i 0) [sample_contact 1 0x01020304, sample_contact 2 0x01020305])
            (Leaf (genSubZone 1000 i 1) [far_contact]))"

lemma far_simps [simp]: "cip far_contact = 0x01020306" "c_address far_contact = IPv4 0x01020306"
  "c_clientId far_contact = U128 0x80000000 0 0 0" "wf_entry far_contact"
  by (simp_all add: far_contact_def newContact_def wf_entry_def wf_contact_def fromHostOrder_def)

lemma thin_lists: "contacts thin_table = [sample_contact 1 0x01020304, sample_contact 2 0x01020305, far_contact]"
  by (simp add: thin_table_def Let_def)

lemma first_bits: "getBitNumber (setValue32 1) 0 = 0" "getBitNumber (setValue32 2) 0 = 0"
  "getBitNumber (U128 0x80000000 0 0 0) 0 = 1"
  by code_simp+

lemma table_ok_thin: "table_ok (setValue32 0) [] thin_table (track_all (contacts thin_table)) []"
proof -
  let ?i = "init_info 1000 0 (fill128 False)"
  have i: "wf_info [] ?i" by (simp add: wf_info_def init_info_def fill128_def uval_setValue32)
  have "placed (setValue32 0) [0] (sample_contact 1 ip)" "placed (setValue32 0) [0] (sample_contact 2 ip)"
    "placed (setValue32 0) [1] far_contact" for ip
    using first_bits by (simp_all add: placed_def sample_contact_def far_contact_def newContact_def)
  then have "wf_zone (setValue32 0) [] thin_table"
    using i wf_genSubZone [OF i, of 0 1000] wf_genSubZone [OF i, of 1 1000] wf_sample
    by (simp add: thin_table_def Let_def bin_ok_def kK_def)
  moreover have "limits (contacts thin_table)"
    by (simp add: thin_lists limits_def kMaxContactsSubnet_def)
  ultimately show ?thesis using tracks_track_all by (simp add: table_ok_def)
qed

lemma thin_merge: "far_contact \<notin> set (contacts (fst (consolidate 5 thin_table (track_all (contacts thin_table)))))"
proof -
  let ?i = "init_info 1000 0 (fill128 False)" and ?a = "sample_contact 1 0x01020304" and ?b = "sample_contact 2 0x01020305"
  let ?t = "destroyBin [far_contact] (destroyBin [?a, ?b] (track_all (contacts thin_table)))"
  have run: "consolidate 5 thin_table (track_all (contacts thin_table)) = mergeLeaves 5 ?i [?a, ?b] [far_contact] (track_all (contacts thin_table))"
    by (simp add: thin_table_def Let_def kK_def)
  have "\<exists>t'. addAll [?a, ?b] [] ?t = ([?a, ?b], t')"
  proof -
    have t: "tracks (track_all (contacts thin_table)) ([?a, ?b] @ [far_contact] @ [])"
      using tracks_track_all [of "contacts thin_table"] by (simp add: thin_lists)
    have "tracks ?t []" by (rule tracks_destroyBin) (use tracks_destroyBin [OF t] in simp)
    moreover have "limits ([?a, ?b] @ [] @ [])" "bin_ok ([?a, ?b] @ [])"
      using wf_sample by (simp_all add: limits_def kMaxContactsSubnet_def bin_ok_def kK_def)
    ultimately show ?thesis using addAll_lossless [of ?t "[]" "[]" "[?a, ?b]"] by simp
  qed
  then obtain t' where a: "addAll [?a, ?b] [] ?t = ([?a, ?b], t')" by blast
  have "\<not> v4_lan 0x01020306" by code_simp
  then have "fst (snd (addContact far_contact [?a, ?b] t')) = [?a, ?b]"
    by (simp add: addContact_def same_subnet_def setValue32_def)
  then have "fst (addAll [far_contact] [?a, ?b] t') = [?a, ?b]"
    by (cases "addContact far_contact [?a, ?b] t'") simp
  then have "contacts (fst (mergeLeaves 5 ?i [?a, ?b] [far_contact] (track_all (contacts thin_table)))) = [?a, ?b]"
    using a by (simp add: mergeLeaves_def split: prod.splits)
  then show ?thesis unfolding run by (simp add: far_contact_def sample_contact_def newContact_def setValue32_def)
qed


text \<open>The merge can delete a contact that a search still holds: re-insertion into the merged
  bucket is subject to the limit of two per subnet, and a contact that fails it is deleted
  whether or not it is in use.\<close>

theorem merge_can_drop_held_contact:
  "\<exists>z t u c. table_ok (setValue32 0) [] z t [] \<and> c \<in> set (contacts z) \<and> inUse u c \<and>
     c \<notin> set (contacts (fst (consolidate 5 z t)))"
proof -
  have "inUse (\<lambda>_. 1) far_contact" by (simp add: inUse_def)
  then show ?thesis using table_ok_thin thin_merge thin_lists by (metis list.set_intros)
qed

end
