(* ===== verification/Kad_ZoneSearch.thy ===== *)
theory Kad_ZoneSearch
  imports Kad_ZoneMaintain
begin

text \<open>
  The nearest-contact search of the routing table (GetClosestTo) against its specification,
  the contacts sorted by distance, and the targets of the zone refresh (RandomLookup).
\<close>

section \<open>The distance\<close>

text \<open>What the search relies on of the identifiers: exclusive or is a group of exponent two.\<close>

locale xor_distance =
  fixes xor :: "'a \<Rightarrow> 'a \<Rightarrow> 'a" and zero :: 'a
  assumes assoc: "xor (xor a b) c = xor a (xor b c)"
    and commute: "xor a b = xor b a"
    and self: "xor a a = zero"
    and neutral: "xor zero a = a"
begin

lemma cancel: "xor (xor a b) b = a"
  by (simp add: assoc self commute [of a zero] neutral)

lemma zero_iff: "xor a b = zero \<longleftrightarrow> a = b"
  using cancel [of a b] neutral self by metis

lemma inject: "xor a b = xor a c \<longleftrightarrow> b = c"
  using cancel [of b a] cancel [of c a] by (simp add: commute) metis

lemma unidirectional: "\<exists>!x. xor x target = d"
  by (rule ex1I [of _ "xor d target"]) (auto simp: cancel)

lemma via: "xor (xor local k) (xor local target) = xor k target"
  using cancel [of "xor k target" local] by (metis assoc commute)

end

interpretation kad: xor_distance xorWith "setValue32 0"
proof
  show "xorWith (setValue32 0) a = a" for a by (simp add: uval_xorWith uval_setValue32 flip: uval_inject)
qed (rule xorWith_assoc xorWith_commute xorWith_self)+

lemma less_first_bit:
  assumes "\<And>i. i < n \<Longrightarrow> getBitNumber a i = getBitNumber b i" "n < 128"
    "getBitNumber a n = 0" "getBitNumber b n = 1"
  shows "a < b"
proof -
  define k where "k = 127 - n"
  have k: "k < 128" "n = 127 - k" using assms(2) by (auto simp: k_def)
  have a0: "\<not> bit (uval a) k" "bit (uval b) k"
    using assms(2-4) k by (auto simp: getBitNumber_uval split: if_splits)
  have same: "bit (uval a) m = bit (uval b) m" if "k < m" for m
  proof (cases "m < 128")
    case True
    then have "127 - m < n" using that k assms(2) by linarith
    from assms(1) [OF this] True show ?thesis by (simp add: getBitNumber_uval split: if_splits)
  next
    case False
    then have "take_bit 128 (uval a) = uval a" "take_bit 128 (uval b) = uval b"
      using uval_bounds [of a] uval_bounds [of b] by (simp_all add: take_bit_int_eq_self_iff)
    then show ?thesis using False by (metis bit_take_bit_iff)
  qed
  have "drop_bit (Suc k) (uval a) = drop_bit (Suc k) (uval b)"
    by (rule bit_eqI) (simp add: bit_drop_bit_eq same)
  moreover have "drop_bit k x = 2 * drop_bit (Suc k) x + of_bool (bit x k)" for x :: int
  proof -
    have half: "drop_bit (Suc k) x = drop_bit k x div 2"
      using zdiv_zmult2_eq [of 2 x "2 ^ k"] by (simp add: drop_bit_eq_div mult.commute)
    have "y = 2 * (y div 2) + of_bool (odd y)" for y :: int by (simp add: odd_two_times_div_two_succ)
    then show ?thesis by (simp only: half bit_iff_odd_drop_bit)
  qed
  ultimately have "drop_bit k (uval a) < drop_bit k (uval b)" using a0 by simp
  then have "\<not> uval b \<le> uval a"
    using zdiv_mono1 [of "uval b" "uval a" "2 ^ k"] by (auto simp: drop_bit_eq_div)
  then show ?thesis by (simp add: less_uval)
qed

lemma placed_key_bit:
  assumes "placed localId p c" "i < length p"
  shows "getBitNumber (xorWith (c_clientId c) target) i
    = (if p ! i = getBitNumber (xorWith localId target) i then 0 else 1)"
proof -
  have "xorWith (c_clientId c) target = xorWith (c_distance c) (xorWith localId target)"
    using assms(1) kad.via by (simp add: placed_def)
  moreover have "getBitNumber (c_distance c) i = p ! i" using assms unfolding placed_def by blast
  ultimately show ?thesis by (simp only: getBitNumber_xorWith [of "c_distance c" "xorWith localId target" i])
qed

lemma near_before_far:
  assumes "placed localId (p @ [x]) c" "placed localId (p @ [y]) d" "length p < 128"
    "x = getBitNumber (xorWith localId target) (length p)" "y \<noteq> x"
  shows "xorWith (c_clientId c) target < xorWith (c_clientId d) target"
proof (rule less_first_bit [OF _ assms(3)])
  fix i assume "i < length p"
  then show "getBitNumber (xorWith (c_clientId c) target) i = getBitNumber (xorWith (c_clientId d) target) i"
    using assms(1,2) placed_key_bit [of localId p c i target] placed_key_bit [of localId p d i target]
    by (simp add: placed_snoc)
qed (use assms placed_key_bit [of localId "p @ [x]" c "length p" target]
      placed_key_bit [of localId "p @ [y]" d "length p" target] in simp_all)

section \<open>The closest contacts of the tree\<close>

definition keys :: "uint128 \<Rightarrow> contact list \<Rightarrow> uint128 set" where
  "keys target cs = (\<lambda>c. xorWith (c_clientId c) target) ` set cs"

definition below :: "contact_map \<Rightarrow> uint128 \<Rightarrow> contact list \<Rightarrow> bool" where
  "below m target cs \<longleftrightarrow> (\<forall>e \<in> set m. \<forall>c \<in> set cs. fst e < xorWith (c_clientId c) target)"

lemma by_distance_facts:
  "sorted (map fst (by_distance maxType target cs))"
  "set (by_distance maxType target cs) = entry_of target ` {c \<in> set cs. eligible maxType c}"
  "distinct (map c_clientId cs) \<Longrightarrow> distinct (map fst (by_distance maxType target cs))"
  using distinct_entries [of cs target "eligible maxType"]
  by (auto simp: by_distance_def distinct_fst_sort simp del: map_map)

lemma sorted_keys_append:
  "sorted (map fst m) \<Longrightarrow> sorted (map fst m') \<Longrightarrow> \<forall>e \<in> set m. \<forall>e' \<in> set m'. fst e < (fst e' :: uint128) \<Longrightarrow>
     sorted (map fst (m @ m'))"
  by (auto simp: sorted_append less_imp_le)

lemma distinct_keys_append:
  "distinct (map fst m) \<Longrightarrow> distinct (map fst m') \<Longrightarrow> \<forall>e \<in> set m. \<forall>e' \<in> set m'. fst e < (fst e' :: uint128) \<Longrightarrow>
     distinct (map fst (m @ m'))"
  by auto fastforce

lemma below_by_distance:
  "below m target cs \<Longrightarrow> \<forall>e \<in> set m. \<forall>e' \<in> set (by_distance maxType target cs). fst e < fst e'"
  by (auto simp: below_def by_distance_facts(2))

lemma by_distance_append:
  assumes "distinct (map c_clientId (cs @ ds))"
    "\<forall>c \<in> set cs. \<forall>d \<in> set ds. xorWith (c_clientId c) target < xorWith (c_clientId d) target"
  shows "by_distance maxType target (cs @ ds) = by_distance maxType target cs @ by_distance maxType target ds"
    "by_distance maxType target (ds @ cs) = by_distance maxType target cs @ by_distance maxType target ds"
proof -
  let ?bd = "by_distance maxType target"
  have lt: "\<forall>e \<in> set (?bd cs). \<forall>e' \<in> set (?bd ds). fst e < fst e'"
    using assms(2) by (auto simp: by_distance_facts(2))
  have d: "distinct (map c_clientId cs)" "distinct (map c_clientId ds)" "distinct (map c_clientId (ds @ cs))"
    using assms(1) by auto
  note r = sorted_keys_append [OF by_distance_facts(1) by_distance_facts(1) lt]
    distinct_keys_append [OF by_distance_facts(3) [OF d(1)] by_distance_facts(3) [OF d(2)] lt]
  show "?bd (cs @ ds) = ?bd cs @ ?bd ds"
    by (rule insort_key_fst_unique [OF by_distance_facts(1) r(1) by_distance_facts(3) [OF assms(1)] _ r(2)])
      (auto simp: by_distance_facts(2))
  show "?bd (ds @ cs) = ?bd cs @ ?bd ds"
    by (rule insort_key_fst_unique [OF by_distance_facts(1) r(1) by_distance_facts(3) [OF d(3)] _ r(2)])
      (auto simp: by_distance_facts(2))
qed

lemma leaf_closest:
  assumes "distinct (map c_clientId b)" "sorted (map fst m)" "distinct (map fst m)" "below m target b" "length m \<le> n"
  shows "fst (bin_getClosestTo maxType target n False s b (m, u)) = take n (m @ by_distance maxType target b)"
proof -
  let ?es = "map (entry_of target) (filter (eligible maxType) b)"
  have lt: "\<forall>e \<in> set m. \<forall>e' \<in> set (by_distance maxType target b). fst e < fst e'"
    using below_by_distance [OF assms(4)] .
  have d: "distinct (map fst (m @ by_distance maxType target b))"
    by (rule distinct_keys_append [OF assms(3) by_distance_facts(3) [OF assms(1)] lt])
  have d': "distinct (map fst (?es @ m))"
  proof -
    have "mset (map fst (m @ by_distance maxType target b)) = mset (map fst (?es @ m))"
      by (simp add: by_distance_def image_mset.compositionality comp_def)
    then show ?thesis using mset_eq_imp_distinct_iff d by blast
  qed
  have "sort_key fst (?es @ m) = m @ by_distance maxType target b"
  proof (rule insort_key_fst_unique [OF sorted_sort_key])
    show "sorted (map fst (m @ by_distance maxType target b))"
      by (rule sorted_keys_append [OF assms(2) by_distance_facts(1) lt])
    show "distinct (map fst (sort_key fst (?es @ m)))" using d' unfolding distinct_fst_sort .
  qed (use d in \<open>auto simp: by_distance_facts(2)\<close>)
  then show ?thesis using bin_getClosestTo_eq [OF assms(2,5) d', of s u] by simp
qed


lemma below_append: "below (m @ m') target cs \<longleftrightarrow> below m target cs \<and> below m' target cs"
  by (auto simp: below_def)

lemma below_near:
  "\<forall>c \<in> set cs. \<forall>d \<in> set ds. xorWith (c_clientId c) target < xorWith (c_clientId d) target \<Longrightarrow>
     below (by_distance maxType target cs) target ds"
  by (auto simp: below_def by_distance_facts(2))

lemma closest_two_steps:
  assumes "m1 = take n (m @ x)" "length m1 < n \<Longrightarrow> r = take n ((m @ x) @ y)" "\<not> length m1 < n \<Longrightarrow> r = m1"
  shows "r = take n (m @ x @ y)"
proof (cases "length m1 < n")
  case False
  then have "n \<le> length (m @ x)" using assms(1) by (simp add: min_def split: if_splits)
  then show ?thesis using assms False by simp
qed (use assms(2) in simp)

lemma siblings_ordered:
  assumes "wf_zone localId p (Node zi z0 z1)" "x = getBitNumber (xorWith localId target) (length p)"
    "near = (if x = 0 then z0 else z1)" "far = (if x = 0 then z1 else z0)"
  shows "\<forall>c \<in> set (contacts near). \<forall>d \<in> set (contacts far).
    xorWith (c_clientId c) target < xorWith (c_clientId d) target"
proof -
  have len: "length p < 128" using assms(1) by (simp add: wf_info_def)
  have x: "x = 0 \<or> x = 1" using assms(2) getBitNumber_01 by metis
  have "wf_zone localId (p @ [x]) near" "wf_zone localId (p @ [1 - x]) far" "1 - x \<noteq> x"
    using assms x by auto
  then show ?thesis using near_before_far [OF _ _ len assms(2)] wf_zone_placed by blast
qed

lemma zone_closest_append:
  assumes "wf_zone localId p z" "sorted (map fst m)" "distinct (map fst m)" "below m target (contacts z)" "length m \<le> n"
  shows "fst (zone_getClosestTo maxType target (xorWith localId target) n False s z (m, u)) =
    take n (m @ by_distance maxType target (contacts z))"
  using assms
proof (induction z arbitrary: p m u)
  case (Leaf zi b)
  then show ?case using leaf_closest [of b m target n maxType s u] by (simp add: bin_ok_def)
next
  case (Node zi z0 z1)
  let ?x = "getBitNumber (xorWith localId target) (length p)" and ?bd = "by_distance maxType target"
  let ?search = "zone_getClosestTo maxType target (xorWith localId target) n False s"
  have lv: "z_level zi = length p" using Node.prems(1) by (simp add: wf_info_def)
  have dist: "distinct (map c_clientId (contacts z0 @ contacts z1))"
    using wf_zone_distinct [OF Node.prems(1)] by simp
  have step: "fst (if length (fst (?search near (m, u))) < n
       then ?search far (?search near (m, u)) else ?search near (m, u))
     = take n (m @ ?bd (contacts near) @ ?bd (contacts far))"
    if ihn: "\<And>m u. sorted (map fst m) \<Longrightarrow> distinct (map fst m) \<Longrightarrow> below m target (contacts near) \<Longrightarrow>
        length m \<le> n \<Longrightarrow> fst (?search near (m, u)) = take n (m @ ?bd (contacts near))"
      and ihf: "\<And>m u. sorted (map fst m) \<Longrightarrow> distinct (map fst m) \<Longrightarrow> below m target (contacts far) \<Longrightarrow>
        length m \<le> n \<Longrightarrow> fst (?search far (m, u)) = take n (m @ ?bd (contacts far))"
      and bn: "below m target (contacts near)" "below m target (contacts far)"
      and d: "distinct (map c_clientId (contacts near))"
      and ord: "\<forall>c \<in> set (contacts near). \<forall>d \<in> set (contacts far).
        xorWith (c_clientId c) target < xorWith (c_clientId d) target" for near far
  proof -
    obtain m1 u1 where m1: "?search near (m, u) = (m1, u1)" by fastforce
    have e1: "m1 = take n (m @ ?bd (contacts near))"
      using ihn [OF Node.prems(2,3) bn(1) Node.prems(5), of u] by (simp add: m1)
    have lt: "\<forall>e \<in> set m. \<forall>e' \<in> set (?bd (contacts near)). fst e < fst e'"
      by (rule below_by_distance [OF bn(1)])
    note s1 = sorted_keys_append [OF Node.prems(2) by_distance_facts(1) lt]
      and d1 = distinct_keys_append [OF Node.prems(3) by_distance_facts(3) [OF d] lt]
    have b1: "below (m @ ?bd (contacts near)) target (contacts far)"
      using bn(2) below_near [OF ord] by (simp add: below_append)
    have far: "fst (?search far (m1, u1)) = take n ((m @ ?bd (contacts near)) @ ?bd (contacts far))"
      if "length m1 < n"
    proof -
      have "m1 = m @ ?bd (contacts near)" using e1 that by simp
      then show ?thesis using ihf [OF s1 d1 b1, of u1] that by simp
    qed
    show ?thesis by (rule closest_two_steps [OF e1]) (use far m1 in simp_all)
  qed
  have wf: "wf_zone localId (p @ [0]) z0" "wf_zone localId (p @ [1]) z1" using Node.prems(1) by simp_all
  have bl: "below m target (contacts z0)" "below m target (contacts z1)"
    using Node.prems(4) by (auto simp: below_def)
  note ord = siblings_ordered [OF Node.prems(1), of ?x target]
  show ?case
  proof (cases "?x = 0")
    case True
    have o: "\<forall>c \<in> set (contacts z0). \<forall>d \<in> set (contacts z1).
        xorWith (c_clientId c) target < xorWith (c_clientId d) target" by (rule ord [OF refl]) (simp_all only: True if_True simp_thms)
    have d0: "distinct (map c_clientId (contacts z0))" using dist by simp
    have "fst (if length (fst (?search z0 (m, u))) < n
       then ?search z1 (?search z0 (m, u)) else ?search z0 (m, u))
     = take n (m @ ?bd (contacts z0) @ ?bd (contacts z1))"
      by (rule step [OF _ _ bl d0 o]) (rule Node.IH(1) [OF wf(1)] Node.IH(2) [OF wf(2)]; assumption)+
    then show ?thesis
      unfolding zone_getClosestTo.simps Let_def lv contacts.simps by_distance_append(1) [OF dist o]
      by (simp only: True if_True simp_thms)
  next
    case False
    have o: "\<forall>c \<in> set (contacts z1). \<forall>d \<in> set (contacts z0).
        xorWith (c_clientId c) target < xorWith (c_clientId d) target" by (rule ord [OF refl]) (simp_all only: False if_False simp_thms)
    have dist': "distinct (map c_clientId (contacts z1 @ contacts z0))" using dist by auto
    have d1: "distinct (map c_clientId (contacts z1))" using dist by simp
    have "fst (if length (fst (?search z1 (m, u))) < n
       then ?search z0 (?search z1 (m, u)) else ?search z1 (m, u))
     = take n (m @ ?bd (contacts z1) @ ?bd (contacts z0))"
      by (rule step [OF _ _ bl(2,1) d1 o]) (rule Node.IH(2) [OF wf(2)] Node.IH(1) [OF wf(1)]; assumption)+
    then show ?thesis
      unfolding zone_getClosestTo.simps Let_def lv contacts.simps by_distance_append(2) [OF dist' o]
      by (simp only: False if_False simp_thms)
  qed
qed


lemma closest_emptyFirst:
  "zone_getClosestTo maxType target d n True s z (m, u) = zone_getClosestTo maxType target d n False s z ([], u)"
  by (induction z arbitrary: m u) (simp_all add: bin_getClosestTo_def)

lemma zone_closest:
  assumes "wf_zone localId p z"
  shows "fst (zone_getClosestTo maxType target (xorWith localId target) n True s z (m, u)) =
    take n (by_distance maxType target (contacts z))"
  unfolding closest_emptyFirst using zone_closest_append [OF assms, of "[]"] by (simp add: below_def)

section \<open>Pinned contacts are exactly those returned\<close>

definition pinned :: "contact_map \<Rightarrow> uses \<Rightarrow> contact_map \<Rightarrow> uses \<Rightarrow> bool" where
  "pinned m u m' u' \<longleftrightarrow> (\<forall>k. u' k + holds k m = u k + holds k m') \<and> (\<forall>k. holds k m' \<le> u' k)"

lemma pinned_trans: "pinned m u m1 u1 \<Longrightarrow> pinned m1 u1 m2 u2 \<Longrightarrow> pinned m u m2 u2"
proof -
  assume a: "pinned m u m1 u1" and b: "pinned m1 u1 m2 u2"
  have "u2 k + holds k m = u k + holds k m2" for k
  proof -
    have "u1 k + holds k m = u k + holds k m1" "u2 k + holds k m1 = u1 k + holds k m2"
      using a b by (simp_all add: pinned_def)
    then show ?thesis by linarith
  qed
  then show ?thesis using b by (simp add: pinned_def)
qed

lemma leaf_pinned:
  assumes "distinct (map fst (map (entry_of target) (filter (eligible maxType) b) @ m))" "\<And>k. holds k m \<le> u k"
    "bin_getClosestTo maxType target n False True b (m, u) = (m', u')"
  shows "pinned m u m' u'"
proof (cases "b = [] \<or> n = 0")
  case True
  then show ?thesis using assms by (auto simp: bin_getClosestTo_def pinned_def)
next
  case False
  obtain m1 u1 where c: "collect maxType target True b (m, u) = (m1, u1)" by fastforce
  have t: "trim n True (m1, u1) = (m', u')" using assms(3) False c by (simp add: bin_getClosestTo_def)
  have u1: "u1 k + holds k m = u k + holds k m1" for k by (rule collect_uses [OF assms(1) c])
  have "holds k m1 \<le> u1 k" for k using u1 [of k] assms(2) [of k] by linarith
  note tu = trim_uses [OF t this]
  have "u' k + holds k m = u k + holds k m'" for k using tu [of k] u1 [of k] by linarith
  then show ?thesis using tu by (simp add: pinned_def)
qed

lemma zone_pinned:
  assumes "wf_zone localId p z" "sorted (map fst m)" "distinct (map fst m)" "below m target (contacts z)" "length m \<le> n"
    "\<And>k. holds k m \<le> u k"
    "zone_getClosestTo maxType target (xorWith localId target) n False True z (m, u) = (m', u')"
  shows "pinned m u m' u'"
  using assms
proof (induction z arbitrary: p m u m' u')
  case (Leaf zi b)
  have "distinct (map c_clientId b)" using Leaf.prems(1) by (simp add: bin_ok_def)
  then have "distinct (map fst (map (entry_of target) (filter (eligible maxType) b)))"
    by (rule distinct_entries)
  then have "distinct (map fst (map (entry_of target) (filter (eligible maxType) b) @ m))"
    using Leaf.prems(3,4) by (auto simp: below_def) (metis fst_conv less_irrefl)
  from leaf_pinned [OF this Leaf.prems(6)] Leaf.prems(7) show ?case by simp
next
  case (Node zi z0 z1)
  let ?x = "getBitNumber (xorWith localId target) (length p)" and ?bd = "by_distance maxType target"
  let ?search = "zone_getClosestTo maxType target (xorWith localId target) n False True"
  have lv: "z_level zi = length p" using Node.prems(1) by (simp add: wf_info_def)
  have wf: "wf_zone localId (p @ [0]) z0" "wf_zone localId (p @ [1]) z1" using Node.prems(1) by simp_all
  obtain near far x y where nf: "near = (if ?x = 0 then z0 else z1)" "far = (if ?x = 0 then z1 else z0)"
    and wn: "wf_zone localId (p @ [x]) near" "wf_zone localId (p @ [y]) far"
    and ihn: "\<And>m u m' u'. sorted (map fst m) \<Longrightarrow> distinct (map fst m) \<Longrightarrow> below m target (contacts near) \<Longrightarrow>
        length m \<le> n \<Longrightarrow> (\<And>k. holds k m \<le> u k) \<Longrightarrow> ?search near (m, u) = (m', u') \<Longrightarrow> pinned m u m' u'"
    and ihf: "\<And>m u m' u'. sorted (map fst m) \<Longrightarrow> distinct (map fst m) \<Longrightarrow> below m target (contacts far) \<Longrightarrow>
        length m \<le> n \<Longrightarrow> (\<And>k. holds k m \<le> u k) \<Longrightarrow> ?search far (m, u) = (m', u') \<Longrightarrow> pinned m u m' u'"
  proof (cases "?x = 0")
    case True
    show thesis
      by (rule that [of z0 z1 0 1, OF _ _ wf Node.IH(1) [OF wf(1)] Node.IH(2) [OF wf(2)]])
        (simp_all only: True if_True simp_thms)
  next
    case False
    show thesis
      by (rule that [of z1 z0 1 0, OF _ _ wf(2,1) Node.IH(2) [OF wf(2)] Node.IH(1) [OF wf(1)]])
        (simp_all only: False if_False simp_thms)
  qed
  have run: "(if length (fst (?search near (m, u))) < n then ?search far (?search near (m, u))
      else ?search near (m, u)) = (m', u')"
    using Node.prems(7) unfolding zone_getClosestTo.simps Let_def lv nf by (simp split: if_splits)
  have bl: "below m target (contacts near)" "below m target (contacts far)"
    using Node.prems(4) by (auto simp: below_def nf)
  obtain m1 u1 where m1: "?search near (m, u) = (m1, u1)" by fastforce
  note p1 = ihn [OF Node.prems(2,3) bl(1) Node.prems(5,6) m1]
  show ?case
  proof (cases "length m1 < n")
    case False
    then show ?thesis using run m1 p1 by simp
  next
    case True
    have "m1 = take n (m @ ?bd (contacts near))"
      using zone_closest_append [OF wn(1) Node.prems(2,3) bl(1) Node.prems(5), of maxType True u] m1 by simp
    then have e1: "m1 = m @ ?bd (contacts near)" using True by simp
    have lt: "\<forall>e \<in> set m. \<forall>e' \<in> set (?bd (contacts near)). fst e < fst e'"
      by (rule below_by_distance [OF bl(1)])
    have ord: "\<forall>c \<in> set (contacts near). \<forall>d \<in> set (contacts far).
        xorWith (c_clientId c) target < xorWith (c_clientId d) target"
      by (rule siblings_ordered [OF Node.prems(1) refl nf])
    have s1: "sorted (map fst m1)" unfolding e1
      by (rule sorted_keys_append [OF Node.prems(2) by_distance_facts(1) lt])
    have d1: "distinct (map fst m1)" unfolding e1
      by (rule distinct_keys_append [OF Node.prems(3) by_distance_facts(3) [OF wf_zone_distinct [OF wn(1)]] lt])
    have b1: "below m1 target (contacts far)" unfolding e1 below_append using bl(2) below_near [OF ord] by simp
    have h1: "holds k m1 \<le> u1 k" for k using p1 by (simp add: pinned_def)
    have "?search far (m1, u1) = (m', u')" using run m1 True by simp
    from pinned_trans [OF p1 ihf [OF s1 d1 b1 less_imp_le [OF True] h1 this]] show ?thesis .
  qed
qed

lemma zone_closest_pins:
  assumes "wf_zone localId p z"
    "zone_getClosestTo maxType target (xorWith localId target) n True True z (m, u) = (m', u')"
  shows "u' k = u k + holds k m'"
  using zone_pinned [OF assms(1) _ _ _ _ _ assms(2) [unfolded closest_emptyFirst]]
  by (simp add: below_def holds_def pinned_def)

section \<open>Random lookups stay in their zone\<close>

lemma path_val_bit: "set p \<subseteq> {0, 1} \<Longrightarrow> i < length p \<Longrightarrow> bit (path_val p) (length p - Suc i) \<longleftrightarrow> p ! i = 1"
proof (induction p arbitrary: i rule: rev_induct)
  case (snoc b p)
  have b: "b = 0 \<or> b = 1" using snoc.prems(1) by auto
  show ?case
  proof (cases "i = length p")
    case True
    then show ?thesis using b by (auto simp: bit_0)
  next
    case False
    then have i: "i < length p" using snoc.prems(2) by simp
    have "path_val (p @ [b]) div 2 = path_val p" using b by auto
    then have "bit (path_val (p @ [b])) (Suc (length p - Suc i)) = bit (path_val p) (length p - Suc i)"
      by (simp only: bit_Suc)
    moreover have "length (p @ [b]) - Suc i = Suc (length p - Suc i)" using i by simp
    ultimately show ?thesis using snoc i by (simp only: nth_append) simp
  qed
qed simp

lemma random_target_in_zone:
  assumes "wf_info p zi" "i < length p"
  shows "getBitNumber (xorWith localId (makeRandomLookupTarget rnd (z_index zi) (z_level zi) localId)) i = p ! i"
proof -
  let ?z = "z_index zi" and ?n = "length p"
  have n: "?n \<le> 127" "z_level zi = ?n" "set p \<subseteq> {0, 1}" "uval ?z = path_val p"
    using assms(1) by (auto simp: wf_info_def)
  let ?t = "pad_random rnd ?n (shiftLeft ?z (128 - ?n))"
  have "xorWith localId (makeRandomLookupTarget rnd ?z ?n localId) = ?t"
    unfolding makeRandomLookupTarget_def Let_def using kad.cancel by (metis xorWith_commute)
  moreover have "getBitNumber ?t i = getBitNumber ?z (i + (128 - ?n))"
  proof -
    have "i < 128" "i + (128 - ?n) < 128" using assms(2) n(1) by linarith+
    then show ?thesis using assms(2)
      by (simp only: getBitNumber_pad_random getBitNumber_shiftLeft if_True simp_thms)
  qed
  moreover have "127 - (i + (128 - ?n)) = ?n - Suc i" using assms(2) n(1) by linarith
  moreover have "i + (128 - ?n) < 128" using assms(2) n(1) by linarith
  ultimately have "getBitNumber (xorWith localId (makeRandomLookupTarget rnd ?z ?n localId)) i
      = (if bit (path_val p) (?n - Suc i) then 1 else 0)"
    by (simp only: getBitNumber_uval n(4) simp_thms)
  moreover have "p ! i \<in> {0, 1}" using n(3) nth_mem [OF assms(2)] by blast
  ultimately show ?thesis using path_val_bit [OF n(3) assms(2)] n(2) by auto
qed

section \<open>Properties\<close>

text \<open>C3. The search over the tree returns exactly the first \<open>n\<close> of all eligible contacts of the
  whole table in the order of their distance to the target, although it visits one subtree
  first and the other only while results are missing.\<close>

theorem closest_is_closest:
  assumes "table_reachable localId start (z, t)"
  shows "fst (zone_getClosestTo maxType target (xorWith localId target) n True s z (m, u)) =
    take n (sort_key fst (map (\<lambda>c. (xorWith (c_clientId c) target, c))
      (filter (\<lambda>c. c_type c \<le> maxType \<and> c_ipVerified c) (contacts z))))"
proof -
  have "wf_zone localId [] z" using table_reachable_ok [OF assms] by (simp add: table_ok_def)
  then show ?thesis using zone_closest unfolding by_distance_def eligible_def entry_of_def by blast
qed

theorem closest_is_closest_witness:
  "\<exists>z. length (contacts z) = 1 \<and>
     fst (zone_getClosestTo 3 (setValue32 7) (xorWith (setValue32 0) (setValue32 7)) 10 True True z ([], \<lambda>_. 0)) =
     take 10 (sort_key fst (map (\<lambda>c. (xorWith (c_clientId c) (setValue32 7), c))
       (filter (\<lambda>c. c_type c \<le> 3 \<and> c_ipVerified c) (contacts z))))"
  using sample_reachable closest_is_closest by blast

text \<open>A search pins exactly the contacts it gets: each use count grows by the number of
  entries of the contact in the result, and those trimmed again are released.\<close>

theorem search_pins_its_result:
  assumes "table_reachable localId start (z, t)"
    and "zone_getClosestTo maxType target (xorWith localId target) n True True z (m, u) = (m', u')"
  shows "u' k = u k + length (filter (\<lambda>e. c_clientId (snd e) = k) m')"
proof -
  have "wf_zone localId [] z" using table_reachable_ok [OF assms(1)] by (simp add: table_ok_def)
  then show ?thesis using zone_closest_pins assms(2) unfolding holds_def count_if_def by blast
qed

text \<open>The target of a zone refresh lies in the zone: it agrees with the path of the zone in
  every bit of the distance that the path fixes, whatever the random bits are.\<close>

theorem refresh_target_in_zone:
  assumes "wf_info p zi" "i < length p"
  shows "getBitNumber (xorWith localId (makeRandomLookupTarget rnd (z_index zi) (z_level zi) localId)) i = p ! i"
  by (rule random_target_in_zone [OF assms])

end
