(* ===== verification/Kad_SafeKad.thy ===== *)
theory Kad_SafeKad
  imports Kad_UInt128 "HOL-Library.AList" "HOL-Library.Product_Lexorder" "HOL-Library.Monad_Syntax"
begin

text \<open>
  The reputation store of Kademlia nodes (src/core/kademlia/KadSafeKad.cpp): three maps of
  records, each with a second map ordered by the time of the last reference.  A heap record
  is identified with the key it is stored under, which it carries and never changes; the age
  map holds (last reference, key) in order.  Following an age entry whose record is gone is
  None: a read through a freed pointer.  Each call reads the clock once here; the setting and
  the LAN mode that disable the store are the argument dis.
\<close>

section \<open>Records with an age index\<close>

record ('k, 'v) aged =
  entries :: "('k \<times> 'v) list"
  ages :: "(int \<times> 'k) list"

definition lookup :: "'k \<Rightarrow> ('k, 'v) aged \<Rightarrow> 'v option" where
  "lookup k a = map_of (entries a) k"

definition size_of :: "('k, 'v) aged \<Rightarrow> nat" where
  "size_of a = length (entries a)"

definition empty_aged :: "('k, 'v) aged" where
  "empty_aged = \<lparr>entries = [], ages = []\<rparr>"

definition erase_age :: "int \<Rightarrow> 'k \<Rightarrow> ('k, 'v) aged \<Rightarrow> ('k, 'v) aged" where
  "erase_age t k a = a\<lparr>ages := remove1 (t, k) (ages a)\<rparr>"

definition erase_entry :: "'k \<Rightarrow> ('k, 'v) aged \<Rightarrow> ('k, 'v) aged" where
  "erase_entry k a = a\<lparr>entries := AList.delete k (entries a)\<rparr>"

text \<open>Both assignments that end every update: nodes[key] = record, age[*record] = record.\<close>

definition put :: "('v \<Rightarrow> int) \<Rightarrow> 'k::linorder \<Rightarrow> 'v \<Rightarrow> ('k, 'v) aged \<Rightarrow> ('k, 'v) aged" where
  "put ref k v a =
     \<lparr>entries = AList.update k v (entries a),
      ages = (if (ref v, k) \<in> set (ages a) then ages a else insort (ref v, k) (ages a))\<rparr>"

text \<open>The eviction loop of cleanup, from the oldest entry until one is young enough.\<close>

fun evict_loop :: "('v \<Rightarrow> int) \<Rightarrow> int \<Rightarrow> int \<Rightarrow> (int \<times> 'k) list \<Rightarrow> ('k, 'v) aged \<Rightarrow> ('k, 'v) aged option" where
  "evict_loop ref now maxAge [] a = Some a"
| "evict_loop ref now maxAge ((t, k) # it) a =
     (case lookup k a of
        None \<Rightarrow> None
      | Some v \<Rightarrow>
          if now - ref v > maxAge then evict_loop ref now maxAge it (erase_age (ref v) k (erase_entry k a))
          else Some a)"

definition evict :: "('v \<Rightarrow> int) \<Rightarrow> int \<Rightarrow> int \<Rightarrow> ('k, 'v) aged \<Rightarrow> ('k, 'v) aged option" where
  "evict ref now maxAge a = evict_loop ref now maxAge (ages a) a"

section \<open>The store\<close>

definition kMaxTrackedNodes :: nat where "kMaxTrackedNodes = 10000"
definition kMaxProblematicNodes :: nat where "kMaxProblematicNodes = 10000"
definition kMaxBannedIPs :: nat where "kMaxBannedIPs = 1000"
definition kMinIDChangeInterval :: int where "kMinIDChangeInterval = 3600"
definition kMaxBanTime :: int where "kMaxBanTime = 24 * 3600"
definition kMaxProblematicTime :: int where "kMaxProblematicTime = 5 * 60"

type_synonym node_address = "u32 \<times> u16"

record tracked =
  lastID :: uint128
  lastIDChange :: int
  t_ref :: int
  idVerified :: bool

record banned =
  b_time :: int
  b_ref :: int

record problematic =
  failed :: int
  p_ref :: int

record safekad =
  sk_tracked :: "(node_address, tracked) aged"
  sk_banned :: "(u32, banned) aged"
  sk_problem :: "(node_address, problematic) aged"
  lastCleanup :: int

definition new_safekad :: "int \<Rightarrow> safekad" where
  "new_safekad now = \<lparr>sk_tracked = empty_aged, sk_banned = empty_aged, sk_problem = empty_aged, lastCleanup = now\<rparr>"

definition cleanup :: "int \<Rightarrow> int \<Rightarrow> int \<Rightarrow> int \<Rightarrow> safekad \<Rightarrow> safekad option" where
  "cleanup now nodeMaxAge banMaxAge problemMaxAge s =
     do { t \<leftarrow> evict t_ref now nodeMaxAge (sk_tracked s);
          b \<leftarrow> evict b_ref now banMaxAge (sk_banned s);
          p \<leftarrow> evict p_ref now problemMaxAge (sk_problem s);
          Some \<lparr>sk_tracked = t, sk_banned = b, sk_problem = p, lastCleanup = now\<rparr> }"

abbreviation default_cleanup :: "int \<Rightarrow> safekad \<Rightarrow> safekad option" where
  "default_cleanup now s \<equiv> cleanup now 3600 3600 300 s"

definition isBanned :: "bool \<Rightarrow> int \<Rightarrow> u32 \<Rightarrow> safekad \<Rightarrow> bool \<times> safekad" where
  "isBanned dis now ip s =
     (if dis then (False, s)
      else case lookup ip (sk_banned s) of
        None \<Rightarrow> (False, s)
      | Some b \<Rightarrow>
          let a = erase_age (b_ref b) ip (sk_banned s); b' = b\<lparr>b_ref := now\<rparr>
          in if now - b_time b > kMaxBanTime then (False, s\<lparr>sk_banned := erase_entry ip a\<rparr>)
             else (True, s\<lparr>sk_banned := put b_ref ip b' a\<rparr>))"

definition isProblematic :: "bool \<Rightarrow> int \<Rightarrow> u32 \<Rightarrow> u16 \<Rightarrow> safekad \<Rightarrow> bool \<times> safekad" where
  "isProblematic dis now ip port s =
     (if dis then (False, s)
      else case lookup (ip, port) (sk_problem s) of
        None \<Rightarrow> isBanned dis now ip s
      | Some p \<Rightarrow>
          let a = erase_age (p_ref p) (ip, port) (sk_problem s); p' = p\<lparr>p_ref := now\<rparr>
          in if now - failed p > kMaxProblematicTime
             then isBanned dis now ip (s\<lparr>sk_problem := erase_entry (ip, port) a\<rparr>)
             else (True, s\<lparr>sk_problem := put p_ref (ip, port) p' a\<rparr>))"

text \<open>The last lines of banIP: the record b, new or found, is dated and stored.\<close>

definition write_ban :: "int \<Rightarrow> u32 \<Rightarrow> banned \<Rightarrow> safekad \<Rightarrow> safekad" where
  "write_ban now ip b s =
     s\<lparr>sk_banned := put b_ref ip (b\<lparr>b_time := now, b_ref := now\<rparr>) (erase_age (b_ref b) ip (sk_banned s))\<rparr>"

definition evict_oldest_ban :: "safekad \<Rightarrow> safekad option" where
  "evict_oldest_ban s =
     (case ages (sk_banned s) of
        [] \<Rightarrow> Some s
      | (t, k) # rest \<Rightarrow>
          (case lookup k (sk_banned s) of
             None \<Rightarrow> None
           | Some b \<Rightarrow> Some (s\<lparr>sk_banned := (erase_entry k (sk_banned s))\<lparr>ages := rest\<rparr>\<rparr>)))"

definition banIP :: "bool \<Rightarrow> int \<Rightarrow> u32 \<Rightarrow> safekad \<Rightarrow> safekad option" where
  "banIP dis now ip s =
     (if dis then Some s
      else case lookup ip (sk_banned s) of
        Some b \<Rightarrow> Some (write_ban now ip b s)
      | None \<Rightarrow>
          if size_of (sk_banned s) \<ge> kMaxBannedIPs then
            do { s1 \<leftarrow> default_cleanup now s;
                 s2 \<leftarrow> (if size_of (sk_banned s1) \<ge> kMaxBannedIPs then evict_oldest_ban s1 else Some s1);
                 Some (if size_of (sk_banned s2) \<ge> kMaxBannedIPs then s2
                       else write_ban now ip \<lparr>b_time = 0, b_ref = 0\<rparr> s2) }
          else Some (write_ban now ip \<lparr>b_time = 0, b_ref = 0\<rparr> s))"

text \<open>trackNode from the erasure of the old age on: t is the record found or just made.\<close>

definition update_tracked :: "bool \<Rightarrow> int \<Rightarrow> u32 \<Rightarrow> u16 \<Rightarrow> uint128 \<Rightarrow> bool \<Rightarrow> tracked \<Rightarrow> safekad \<Rightarrow> safekad option" where
  "update_tracked dis now ip port i verified t s =
     (let a = erase_age (t_ref t) (ip, port) (sk_tracked s);
          flip = i \<noteq> lastID t \<and> \<not> (idVerified t \<and> \<not> verified)
      in if flip \<and> now - lastIDChange t < kMinIDChangeInterval \<and> verified
         then banIP dis now ip (s\<lparr>sk_tracked := erase_entry (ip, port) a\<rparr>)
         else let t1 = (if flip then t\<lparr>lastID := i, lastIDChange := now\<rparr> else t);
                  t2 = t1\<lparr>t_ref := now, idVerified := (idVerified t1 \<or> verified)\<rparr>
              in Some (s\<lparr>sk_tracked := put t_ref (ip, port) t2 a\<rparr>))"

definition trackNode :: "bool \<Rightarrow> int \<Rightarrow> u32 \<Rightarrow> u16 \<Rightarrow> uint128 \<Rightarrow> bool \<Rightarrow> safekad \<Rightarrow> safekad option" where
  "trackNode dis now ip port i verified s0 =
     (if dis then Some s0
      else case isBanned dis now ip s0 of (bad, s) \<Rightarrow>
        if bad then Some s
        else case lookup (ip, port) (sk_tracked s) of
          Some t \<Rightarrow> update_tracked dis now ip port i verified t s
        | None \<Rightarrow>
            do { s1 \<leftarrow> (if size_of (sk_tracked s) \<ge> kMaxTrackedNodes then default_cleanup now s else Some s);
                 if size_of (sk_tracked s1) \<ge> kMaxTrackedNodes then Some s1
                 else update_tracked dis now ip port i verified
                        \<lparr>lastID = i, lastIDChange = now, t_ref = 0, idVerified = verified\<rparr> s1 })"

definition trackProblematicNode :: "bool \<Rightarrow> int \<Rightarrow> u32 \<Rightarrow> u16 \<Rightarrow> safekad \<Rightarrow> safekad option" where
  "trackProblematicNode dis now ip port s0 =
     (if dis then Some s0
      else case isBanned dis now ip s0 of (bad, s) \<Rightarrow>
        if bad then Some s
        else let write = (\<lambda>p s. s\<lparr>sk_problem := put p_ref (ip, port) (p\<lparr>p_ref := now\<rparr>)
                                    (erase_age (p_ref p) (ip, port) (sk_problem s))\<rparr>)
        in case lookup (ip, port) (sk_problem s) of
          Some p \<Rightarrow> Some (write p s)
        | None \<Rightarrow>
            do { s1 \<leftarrow> (if size_of (sk_problem s) \<ge> kMaxProblematicNodes then default_cleanup now s else Some s);
                 Some (if size_of (sk_problem s1) \<ge> kMaxProblematicNodes then s1
                       else write \<lparr>failed = now, p_ref = 0\<rparr> s1) })"

text \<open>isBadNode after its periodic cleanup.\<close>

definition check_node :: "bool \<Rightarrow> int \<Rightarrow> u32 \<Rightarrow> u16 \<Rightarrow> uint128 \<Rightarrow> u8 \<Rightarrow> bool \<Rightarrow> bool \<Rightarrow> safekad \<Rightarrow> (bool \<times> safekad) option" where
  "check_node dis now ip port i kadVersion verified onePerIP s1 =
     (let found = lookup (ip, port) (sk_tracked s1); (bad, s) = isBanned dis now ip s1
      in if bad then
           Some (True, case found of None \<Rightarrow> s
                 | Some t \<Rightarrow> s\<lparr>sk_tracked := erase_age (t_ref t) (ip, port) (erase_entry (ip, port) (sk_tracked s))\<rparr>)
         else case found of
           Some t \<Rightarrow>
             let s2 = s\<lparr>sk_tracked := put t_ref (ip, port) (t\<lparr>t_ref := now\<rparr>)
                                        (erase_age (t_ref t) (ip, port) (sk_tracked s))\<rparr>
             in if lastID t \<noteq> i then
                  if (idVerified t \<or> kadVersion < 8) \<and> \<not> verified then Some (True, s2)
                  else do { s3 \<leftarrow> trackNode dis now ip port i verified s2; Some (isBanned dis now ip s3) }
                else Some (False, s2)
         | None \<Rightarrow>
             if onePerIP \<and> list_ex (\<lambda>(k, t). fst k = ip) (entries (sk_tracked s)) then Some (True, s)
             else do { s2 \<leftarrow> trackNode dis now ip port i verified s; Some (False, s2) })"

definition isBadNode :: "bool \<Rightarrow> int \<Rightarrow> u32 \<Rightarrow> u16 \<Rightarrow> uint128 \<Rightarrow> u8 \<Rightarrow> bool \<Rightarrow> bool \<Rightarrow> safekad \<Rightarrow> (bool \<times> safekad) option" where
  "isBadNode dis now ip port i kadVersion verified onePerIP s =
     (if dis then Some (False, s)
      else do {
        s1 \<leftarrow> (if now - lastCleanup s > 600 then default_cleanup now s else Some s);
        check_node dis now ip port i kadVersion verified onePerIP s1 })"

definition shutdownCleanup :: "int \<Rightarrow> safekad \<Rightarrow> safekad" where
  "shutdownCleanup now s = new_safekad now"


section \<open>The age index mirrors the records\<close>

definition aged_ok :: "('v \<Rightarrow> int) \<Rightarrow> ('k::linorder, 'v) aged \<Rightarrow> bool" where
  "aged_ok ref a \<longleftrightarrow> distinct (map fst (entries a)) \<and> distinct (ages a) \<and> sorted (ages a) \<and>
     set (ages a) = (\<lambda>(k, v). (ref v, k)) ` set (entries a)"

lemma aged_ok_empty [simp]: "aged_ok ref empty_aged" "lookup k empty_aged = None" "size_of empty_aged = 0"
  by (simp_all add: aged_ok_def empty_aged_def lookup_def size_of_def)

lemma lookup_iff: "aged_ok ref a \<Longrightarrow> lookup k a = Some v \<longleftrightarrow> (k, v) \<in> set (entries a)"
  by (simp add: lookup_def aged_ok_def)

lemma age_iff: "aged_ok ref a \<Longrightarrow> (t, k) \<in> set (ages a) \<longleftrightarrow> (\<exists>v. lookup k a = Some v \<and> ref v = t)"
  by (auto simp: lookup_iff aged_ok_def)

lemma delete_filter: "AList.delete k xs = filter (\<lambda>(k', v). k' \<noteq> k) xs"
  by (auto simp: AList.delete_eq case_prod_unfold intro!: filter_cong)

lemma lookup_erase [simp]:
  "lookup k' (erase_entry k a) = (if k' = k then None else lookup k' a)"
  "lookup k' (erase_age t k a) = lookup k' a"
  "lookup k' (a\<lparr>ages := l\<rparr>) = lookup k' a"
  "lookup k' (put ref k v a) = (if k' = k then Some v else lookup k' a)"
  by (auto simp: lookup_def erase_entry_def erase_age_def put_def AList.delete_conv' AList.update_conv')

lemma size_erase [simp]:
  "size_of (erase_age t k a) = size_of a" "size_of (a\<lparr>ages := l\<rparr>) = size_of a"
  by (simp_all add: size_of_def erase_age_def)

lemma size_erase_le: "size_of (erase_entry k a) \<le> size_of a"
  by (simp add: size_of_def erase_entry_def delete_filter)

lemma length_update: "length (AList.update k v xs) = (if k \<in> fst ` set xs then length xs else Suc (length xs))"
  by (induction xs) auto

lemma size_put: "size_of (put ref k v a) = (if lookup k a = None then Suc (size_of a) else size_of a)"
  by (auto simp: size_of_def put_def length_update lookup_def map_of_eq_None_iff)

lemma size_erase_found: "aged_ok ref a \<Longrightarrow> lookup k a \<noteq> None \<Longrightarrow> size_of (erase_entry k a) < size_of a"
  unfolding size_of_def erase_entry_def delete_filter
  by (auto simp: lookup_iff intro: length_filter_less)

text \<open>The record's own age comes out of the index: every other entry stays exactly indexed.\<close>

definition old_ref :: "('v \<Rightarrow> int) \<Rightarrow> 'k \<Rightarrow> ('k, 'v) aged \<Rightarrow> int \<Rightarrow> bool" where
  "old_ref ref k a r \<longleftrightarrow> (\<forall>v. lookup k a = Some v \<longrightarrow> ref v = r)"

lemma ages_unindexed:
  assumes "aged_ok ref a" "old_ref ref k a r"
  shows "set (remove1 (r, k) (ages a)) = (\<lambda>(k, v). (ref v, k)) ` {(k', v) \<in> set (entries a). k' \<noteq> k}"
proof -
  have same: "k' = k \<Longrightarrow> (k', v) \<in> set (entries a) \<Longrightarrow> ref v = r" for k' v
    using assms by (simp add: old_ref_def lookup_iff)
  have "set (remove1 (r, k) (ages a)) = set (ages a) - {(r, k)}"
    using assms(1) by (simp add: aged_ok_def set_remove1_eq)
  also have "\<dots> = {(t, k'). \<exists>v. (k', v) \<in> set (entries a) \<and> ref v = t} - {(r, k)}"
    using assms(1) by (auto simp: aged_ok_def)
  also have "\<dots> = {(t, k'). \<exists>v. (k', v) \<in> set (entries a) \<and> ref v = t \<and> k' \<noteq> k}"
    using same by blast
  also have "\<dots> = (\<lambda>(k, v). (ref v, k)) ` {(k', v) \<in> set (entries a). k' \<noteq> k}"
    by force
  finally show ?thesis .
qed

lemma erase_ok:
  assumes "aged_ok ref a" "old_ref ref k a r"
  shows "aged_ok ref (erase_entry k (erase_age r k a))"
  using assms ages_unindexed [OF assms]
  by (auto simp: aged_ok_def erase_entry_def erase_age_def delete_filter sorted_remove1 distinct_map_filter
      case_prod_unfold intro!: image_cong)

lemma set_update:
  "distinct (map fst xs) \<Longrightarrow> set (AList.update k v xs) = insert (k, v) {(k', v') \<in> set xs. k' \<noteq> k}"
  by (induction xs) (force split: if_splits)+

lemma put_ok:
  assumes "aged_ok ref a" "old_ref ref k a r"
  shows "aged_ok ref (put ref k v (erase_age r k a))"
  using assms(1) ages_unindexed [OF assms]
  by (auto simp: aged_ok_def put_def erase_age_def distinct_update set_update sorted_remove1 sorted_insort
      distinct_insort set_insort_key)

section \<open>Eviction is a filter\<close>

lemma filter_delete_id:
  "distinct (map fst xs) \<Longrightarrow> (k, v) \<in> set xs \<Longrightarrow> \<not> P (k, v) \<Longrightarrow> filter P (AList.delete k xs) = filter P xs"
  unfolding delete_filter by (force intro!: filter_cong simp: distinct_map inj_on_def)

lemma evict_loop_exact:
  assumes "aged_ok ref a" "ages a = l"
  shows "\<exists>a'. evict_loop ref now m l a = Some a' \<and> aged_ok ref a' \<and>
    entries a' = filter (\<lambda>(k, v). now - ref v \<le> m) (entries a)"
  using assms
proof (induction l arbitrary: a)
  case Nil
  then show ?case by (auto simp: aged_ok_def)
next
  case (Cons p l)
  obtain t k where p: "p = (t, k)" by fastforce
  obtain v where v: "lookup k a = Some v" "ref v = t" using age_iff [OF Cons.prems(1), of t k] Cons.prems(2) p by auto
  show ?case
  proof (cases "now - t > m")
    case True
    let ?a = "erase_age (ref v) k (erase_entry k a)"
    have a: "?a = erase_entry k (erase_age t k a)" by (simp add: erase_age_def erase_entry_def v(2))
    have "aged_ok ref ?a" unfolding a by (rule erase_ok [OF Cons.prems(1)]) (simp add: old_ref_def v)
    moreover have "ages ?a = l" by (simp add: erase_age_def erase_entry_def Cons.prems(2) p v(2))
    moreover have "filter (\<lambda>(k, v). now - ref v \<le> m) (entries ?a) = filter (\<lambda>(k, v). now - ref v \<le> m) (entries a)"
      unfolding a using Cons.prems(1) v True
      by (simp add: erase_entry_def erase_age_def)
         (rule filter_delete_id [of _ k v], auto simp: aged_ok_def lookup_def dest: map_of_SomeD)
    ultimately show ?thesis using Cons.IH [of ?a] v True p by simp
  next
    case False
    have "\<forall>(k', v') \<in> set (entries a). t \<le> ref v'"
    proof safe
      fix k' v' assume "(k', v') \<in> set (entries a)"
      then have "(ref v', k') \<in> set (ages a)" using Cons.prems(1) by (force simp: aged_ok_def)
      then have "(t, k) \<le> (ref v', k')" using Cons.prems p by (auto simp: aged_ok_def)
      then show "t \<le> ref v'" by (auto simp: less_eq_prod_def)
    qed
    then have "filter (\<lambda>(k, v). now - ref v \<le> m) (entries a) = entries a"
      using False by (force simp: filter_id_conv)
    then show ?thesis using Cons.prems(1) v False p by simp
  qed
qed

lemma evict_exact:
  assumes "aged_ok ref a"
  obtains a' where "evict ref now m a = Some a'" "aged_ok ref a'"
    "entries a' = filter (\<lambda>(k, v). now - ref v \<le> m) (entries a)"
  using evict_loop_exact [OF assms refl, of now m] by (auto simp: evict_def)

lemma lookup_filter:
  assumes "aged_ok ref a" "entries a' = filter P (entries a)"
  shows "lookup k a' = (case lookup k a of Some v \<Rightarrow> if P (k, v) then Some v else None | None \<Rightarrow> None)"
proof -
  have d: "distinct (map fst (entries a'))" using assms by (simp add: aged_ok_def distinct_map_filter)
  have iff: "lookup k a' = Some v \<longleftrightarrow> lookup k a = Some v \<and> P (k, v)" for v
    using d assms(2) by (auto simp: lookup_iff [OF assms(1)]) (simp_all add: lookup_def)
  show ?thesis
  proof (cases "lookup k a'")
    case None
    then show ?thesis using iff by (auto split: option.splits)
  next
    case (Some v)
    then show ?thesis using iff [of v] by simp
  qed
qed

section \<open>Renewing a record\<close>

text \<open>What every update does to a record it found: out of the index, dated, back in.\<close>

locale aged_record =
  fixes ref :: "'v \<Rightarrow> int" and renew :: "int \<Rightarrow> 'v \<Rightarrow> 'v"
  assumes ref_renew [simp]: "ref (renew t v) = t"
begin

lemma renewed_ok:
  "aged_ok ref a \<Longrightarrow> lookup k a = Some v \<Longrightarrow> aged_ok ref (put ref k (renew now w) (erase_age (ref v) k a))"
  by (rule put_ok) (auto simp: old_ref_def)

lemma new_ok:
  "aged_ok ref a \<Longrightarrow> lookup k a = None \<Longrightarrow> aged_ok ref (put ref k (renew now w) (erase_age r k a))"
  by (rule put_ok) (auto simp: old_ref_def)

lemma renewed_size: "lookup k a = Some v \<Longrightarrow> size_of (put ref k w (erase_age r k a)) = size_of a"
  by (simp add: size_put)

text \<open>A record just dated outlives any eviction at that moment.\<close>

lemma renewed_survives:
  assumes "aged_ok ref (put ref k (renew now w) a)" "0 \<le> m"
  obtains a' where "evict ref now m (put ref k (renew now w) a) = Some a'" "lookup k a' = Some (renew now w)"
proof -
  obtain a' where "evict ref now m (put ref k (renew now w) a) = Some a'" "aged_ok ref a'"
    "entries a' = filter (\<lambda>(k, v). now - ref v \<le> m) (entries (put ref k (renew now w) a))"
    by (rule evict_exact [OF assms(1)])
  with lookup_filter [OF assms(1), of a' "\<lambda>(k, v). now - ref v \<le> m" k] assms(2) that show ?thesis by simp
qed

end

interpretation tracked_rec: aged_record t_ref "\<lambda>t v. v\<lparr>t_ref := t\<rparr>"
  by unfold_locales simp

interpretation banned_rec: aged_record b_ref "\<lambda>t v. v\<lparr>b_ref := t\<rparr>"
  by unfold_locales simp

interpretation problem_rec: aged_record p_ref "\<lambda>t v. v\<lparr>p_ref := t\<rparr>"
  by unfold_locales simp

section \<open>The invariant of the store\<close>

definition sk_ok :: "safekad \<Rightarrow> bool" where
  "sk_ok s \<longleftrightarrow>
     aged_ok t_ref (sk_tracked s) \<and> aged_ok b_ref (sk_banned s) \<and> aged_ok p_ref (sk_problem s) \<and>
     size_of (sk_tracked s) \<le> kMaxTrackedNodes \<and> size_of (sk_banned s) \<le> kMaxBannedIPs \<and>
     size_of (sk_problem s) \<le> kMaxProblematicNodes"

definition ban_active :: "int \<Rightarrow> u32 \<Rightarrow> safekad \<Rightarrow> bool" where
  "ban_active now ip s \<longleftrightarrow>
     (case lookup ip (sk_banned s) of Some b \<Rightarrow> now - b_time b \<le> kMaxBanTime | None \<Rightarrow> False)"

text \<open>Bans of the later state were there before, with the same date, except those in A.\<close>

definition no_new_bans :: "u32 set \<Rightarrow> safekad \<Rightarrow> safekad \<Rightarrow> bool" where
  "no_new_bans A s s' \<longleftrightarrow>
     (\<forall>ip b'. ip \<notin> A \<longrightarrow> lookup ip (sk_banned s') = Some b' \<longrightarrow>
        (\<exists>b. lookup ip (sk_banned s) = Some b \<and> b_time b = b_time b'))"

lemma no_new_bans_same: "sk_banned s' = sk_banned s \<Longrightarrow> no_new_bans A s s'"
  by (simp add: no_new_bans_def)

lemma no_new_bans_refl [simp]: "no_new_bans A s s"
  by (simp add: no_new_bans_def)

lemma no_new_bans_trans: "no_new_bans A s s' \<Longrightarrow> no_new_bans A s' s'' \<Longrightarrow> no_new_bans A s s''"
  unfolding no_new_bans_def by metis

lemma no_new_bans_mono: "no_new_bans {} s s' \<Longrightarrow> no_new_bans A s s'"
  by (simp add: no_new_bans_def)

lemma no_new_bans_none:
  assumes "no_new_bans {} s s'" "lookup ip (sk_banned s) = None"
  shows "lookup ip (sk_banned s') = None"
proof (rule ccontr)
  assume "lookup ip (sk_banned s') \<noteq> None"
  then obtain b' where "lookup ip (sk_banned s') = Some b'" by blast
  with assms show False unfolding no_new_bans_def by fastforce
qed

lemma size_filter: "entries a' = filter P (entries a) \<Longrightarrow> size_of a' \<le> size_of a"
  by (simp add: size_of_def)

lemma cleanup_exact:
  assumes "sk_ok s"
  obtains s' where "cleanup now n b p s = Some s'" "sk_ok s'" "lastCleanup s' = now"
    "entries (sk_tracked s') = filter (\<lambda>(k, v). now - t_ref v \<le> n) (entries (sk_tracked s))"
    "entries (sk_banned s') = filter (\<lambda>(k, v). now - b_ref v \<le> b) (entries (sk_banned s))"
    "entries (sk_problem s') = filter (\<lambda>(k, v). now - p_ref v \<le> p) (entries (sk_problem s))"
    "no_new_bans {} s s'"
proof -
  have a: "aged_ok t_ref (sk_tracked s)" "aged_ok b_ref (sk_banned s)" "aged_ok p_ref (sk_problem s)"
    using assms by (simp_all add: sk_ok_def)
  obtain t' where t: "evict t_ref now n (sk_tracked s) = Some t'" "aged_ok t_ref t'"
    "entries t' = filter (\<lambda>(k, v). now - t_ref v \<le> n) (entries (sk_tracked s))" by (rule evict_exact [OF a(1)])
  obtain b' where b: "evict b_ref now b (sk_banned s) = Some b'" "aged_ok b_ref b'"
    "entries b' = filter (\<lambda>(k, v). now - b_ref v \<le> b) (entries (sk_banned s))" by (rule evict_exact [OF a(2)])
  obtain p' where p: "evict p_ref now p (sk_problem s) = Some p'" "aged_ok p_ref p'"
    "entries p' = filter (\<lambda>(k, v). now - p_ref v \<le> p) (entries (sk_problem s))" by (rule evict_exact [OF a(3)])
  let ?s = "\<lparr>sk_tracked = t', sk_banned = b', sk_problem = p', lastCleanup = now\<rparr>"
  have "no_new_bans {} s ?s"
    using lookup_filter [OF a(2) b(3)] by (auto simp: no_new_bans_def split: option.splits if_splits)
  moreover have "sk_ok ?s"
    using assms t(2) b(2) p(2) size_filter [OF t(3)] size_filter [OF b(3)] size_filter [OF p(3)] by (simp add: sk_ok_def)
  ultimately show ?thesis using that [of ?s] t b p by (simp add: cleanup_def)
qed

lemma isBanned_frame [simp]:
  "sk_tracked (snd (isBanned dis now ip s)) = sk_tracked s"
  "sk_problem (snd (isBanned dis now ip s)) = sk_problem s"
  "lastCleanup (snd (isBanned dis now ip s)) = lastCleanup s"
  by (auto simp: isBanned_def Let_def split: option.splits)

lemma isBanned_iff: "fst (isBanned dis now ip s) \<longleftrightarrow> \<not> dis \<and> ban_active now ip s"
  by (auto simp: isBanned_def ban_active_def Let_def split: option.splits)

lemma isBanned_ok: "sk_ok s \<Longrightarrow> sk_ok (snd (isBanned dis now ip s))"
  using order.trans [OF size_erase_le [of ip "sk_banned s"]]
  by (auto simp: sk_ok_def isBanned_def Let_def banned_rec.renewed_ok banned_rec.renewed_size
      erase_ok old_ref_def size_erase_le split: option.splits)
    (metis size_erase(1) size_erase_le order.trans)

lemma isBanned_bans: "no_new_bans {} s (snd (isBanned dis now ip s))"
  by (auto simp: no_new_bans_def isBanned_def Let_def split: option.splits if_splits)

lemma isBanned_active: "ban_active now ip s \<Longrightarrow> ban_active now ip (snd (isBanned dis now ip s))"
  by (auto simp: ban_active_def isBanned_def Let_def split: option.splits)

section \<open>Every call is safe\<close>

lemma write_ban_effect:
  assumes "sk_ok s" "lookup ip (sk_banned s) = Some b \<or> lookup ip (sk_banned s) = None \<and> size_of (sk_banned s) < kMaxBannedIPs"
  shows "sk_ok (write_ban now ip b s) \<and> ban_active now ip (write_ban now ip b s) \<and>
    no_new_bans {ip} s (write_ban now ip b s)"
proof -
  have "old_ref b_ref ip (sk_banned s) (b_ref b)" using assms(2) by (auto simp: old_ref_def)
  then show ?thesis using assms
    by (auto simp: sk_ok_def write_ban_def put_ok size_put ban_active_def no_new_bans_def kMaxBanTime_def)
qed

lemma evict_oldest_ban_effect:
  assumes "sk_ok s" "size_of (sk_banned s) \<ge> kMaxBannedIPs"
  obtains s' where "evict_oldest_ban s = Some s'" "sk_ok s'" "size_of (sk_banned s') < kMaxBannedIPs" "no_new_bans {} s s'"
proof -
  let ?a = "sk_banned s"
  have ok: "aged_ok b_ref ?a" using assms(1) by (simp add: sk_ok_def)
  have "entries ?a \<noteq> []" using assms(2) by (auto simp: size_of_def kMaxBannedIPs_def)
  then obtain t k rest where ages: "ages ?a = (t, k) # rest" using ok by (cases "ages ?a") (auto simp: aged_ok_def)
  then obtain b where b: "lookup k ?a = Some b" "b_ref b = t" using age_iff [OF ok, of t k] by auto
  have same: "(erase_entry k ?a)\<lparr>ages := rest\<rparr> = erase_entry k (erase_age t k ?a)"
    by (simp add: erase_entry_def erase_age_def ages)
  let ?s = "s\<lparr>sk_banned := erase_entry k (erase_age t k ?a)\<rparr>"
  have "aged_ok b_ref (erase_entry k (erase_age t k ?a))" by (rule erase_ok [OF ok]) (simp add: old_ref_def b)
  moreover have "size_of (erase_entry k (erase_age t k ?a)) < size_of ?a"
    using size_erase_found [OF ok, of k] b by (simp add: erase_age_def erase_entry_def size_of_def)
  ultimately have "sk_ok ?s \<and> size_of (sk_banned ?s) < kMaxBannedIPs \<and> no_new_bans {} s ?s"
    using assms by (auto simp: sk_ok_def no_new_bans_def)
  moreover have "evict_oldest_ban s = Some ?s" by (simp add: evict_oldest_ban_def ages b same)
  ultimately show ?thesis using that by blast
qed

lemma banIP_effect:
  assumes "sk_ok s"
  obtains s' where "banIP dis now ip s = Some s'" "sk_ok s'" "\<not> dis \<longrightarrow> ban_active now ip s'"
    "no_new_bans {ip} s s'"
proof (cases "dis \<or> lookup ip (sk_banned s) \<noteq> None \<or> size_of (sk_banned s) < kMaxBannedIPs")
  case True
  let ?b = "case lookup ip (sk_banned s) of Some b \<Rightarrow> b | None \<Rightarrow> \<lparr>b_time = 0, b_ref = 0\<rparr>"
  let ?s = "if dis then s else write_ban now ip ?b s"
  have "banIP dis now ip s = Some ?s" using True by (auto simp: banIP_def split: option.splits)
  moreover have "\<not> dis \<Longrightarrow> sk_ok (write_ban now ip ?b s) \<and> ban_active now ip (write_ban now ip ?b s) \<and>
      no_new_bans {ip} s (write_ban now ip ?b s)"
    by (rule write_ban_effect [OF assms]) (use True in \<open>auto split: option.splits\<close>)
  ultimately show ?thesis using that [of ?s] assms by (cases dis) simp_all
next
  case False
  obtain s1 where s1: "default_cleanup now s = Some s1" "sk_ok s1" "no_new_bans {} s s1"
    by (rule cleanup_exact [OF assms, of now 3600 3600 300])
  have none1: "lookup ip (sk_banned s1) = None"
    using False by (intro no_new_bans_none [OF s1(3)]) simp
  obtain s2 where s2: "(if size_of (sk_banned s1) \<ge> kMaxBannedIPs then evict_oldest_ban s1 else Some s1) = Some s2"
    "sk_ok s2" "size_of (sk_banned s2) < kMaxBannedIPs" "no_new_bans {} s1 s2"
  proof (cases "size_of (sk_banned s1) \<ge> kMaxBannedIPs")
    case True
    then show ?thesis using evict_oldest_ban_effect [OF s1(2) True] that by auto
  qed (use that s1(2) in auto)
  have none2: "lookup ip (sk_banned s2) = None"
    by (rule no_new_bans_none [OF s2(4) none1])
  let ?b = "\<lparr>b_time = 0, b_ref = 0\<rparr>"
  have "banIP dis now ip s = Some (write_ban now ip ?b s2)"
    using False s1(1) s2(1,3) by (simp add: banIP_def)
  moreover have "sk_ok (write_ban now ip ?b s2) \<and> ban_active now ip (write_ban now ip ?b s2) \<and>
      no_new_bans {ip} s2 (write_ban now ip ?b s2)"
    by (rule write_ban_effect) (use s2 none2 in auto)
  moreover have "no_new_bans {ip} s s2"
    using no_new_bans_trans [OF s1(3) s2(4)] by (rule no_new_bans_mono)
  ultimately show ?thesis using that no_new_bans_trans by blast
qed

lemma update_tracked_effect:
  assumes "sk_ok s"
    "lookup (ip, port) (sk_tracked s) = Some t \<or>
     lookup (ip, port) (sk_tracked s) = None \<and> size_of (sk_tracked s) < kMaxTrackedNodes"
  obtains s' where "update_tracked dis now ip port i verified t s = Some s'" "sk_ok s'"
    "no_new_bans {ip} s s'" "\<not> verified \<longrightarrow> no_new_bans {} s s'"
proof -
  let ?flip = "i \<noteq> lastID t \<and> \<not> (idVerified t \<and> \<not> verified)"
  let ?a = "erase_age (t_ref t) (ip, port) (sk_tracked s)"
  have ref: "old_ref t_ref (ip, port) (sk_tracked s) (t_ref t)" using assms(2) by (auto simp: old_ref_def)
  show ?thesis
  proof (cases "?flip \<and> now - lastIDChange t < kMinIDChangeInterval \<and> verified")
    case True
    let ?s = "s\<lparr>sk_tracked := erase_entry (ip, port) ?a\<rparr>"
    have "sk_ok ?s"
      using assms(1) ref size_erase_le [of "(ip, port)" ?a] by (simp add: sk_ok_def erase_ok)
    then obtain s' where s': "banIP dis now ip ?s = Some s'" "sk_ok s'" "no_new_bans {ip} ?s s'"
      by (rule banIP_effect [where dis = dis and now = now and ip = ip])
    have "update_tracked dis now ip port i verified t s = Some s'"
      using True s'(1) by (simp add: update_tracked_def Let_def)
    moreover have "no_new_bans {ip} s ?s" by (rule no_new_bans_same) simp
    then have "no_new_bans {ip} s s'" using s'(3) by (rule no_new_bans_trans)
    ultimately show ?thesis using that s'(2) True by simp
  next
    case False
    then obtain t2 where u: "update_tracked dis now ip port i verified t s = Some (s\<lparr>sk_tracked := put t_ref (ip, port) t2 ?a\<rparr>)"
      by (auto simp: update_tracked_def Let_def)
    have "sk_ok (s\<lparr>sk_tracked := put t_ref (ip, port) t2 ?a\<rparr>)"
      using assms ref by (auto simp: sk_ok_def put_ok size_put)
    then show ?thesis using that u no_new_bans_same [of "s\<lparr>sk_tracked := put t_ref (ip, port) t2 ?a\<rparr>" s] by simp
  qed
qed

lemma trackNode_effect:
  assumes "sk_ok s"
  obtains s' where "trackNode dis now ip port i verified s = Some s'" "sk_ok s'"
    "no_new_bans {ip} s s'" "\<not> verified \<longrightarrow> no_new_bans {} s s'"
proof -
  let ?s = "snd (isBanned dis now ip s)"
  note b = isBanned_ok [OF assms, of dis now ip] isBanned_bans [of s dis now ip]
  obtain s1 where s1: "(if size_of (sk_tracked ?s) \<ge> kMaxTrackedNodes then default_cleanup now ?s else Some ?s) = Some s1"
    "sk_ok s1" "no_new_bans {} ?s s1" "lookup (ip, port) (sk_tracked ?s) = None \<Longrightarrow> lookup (ip, port) (sk_tracked s1) = None"
  proof (cases "size_of (sk_tracked ?s) \<ge> kMaxTrackedNodes")
    case True
    obtain s1 where c: "default_cleanup now ?s = Some s1" "sk_ok s1" "no_new_bans {} ?s s1"
      "entries (sk_tracked s1) = filter (\<lambda>(k, v). now - t_ref v \<le> 3600) (entries (sk_tracked ?s))"
      by (rule cleanup_exact [OF b(1), of now 3600 3600 300])
    have "aged_ok t_ref (sk_tracked ?s)" using b(1) by (simp only: sk_ok_def)
    from lookup_filter [OF this c(4), of "(ip, port)"]
    show ?thesis using that [of s1] True c by simp
  qed (use that b in auto)
  have to_s: "no_new_bans A ?s s' \<Longrightarrow> no_new_bans A s s'" for A s'
    using no_new_bans_trans b(2) no_new_bans_mono by blast
  have to_s1: "no_new_bans A s1 s' \<Longrightarrow> no_new_bans A s s'" for A s'
    using no_new_bans_trans s1(3) no_new_bans_mono to_s by blast
  consider "dis" | "\<not> dis" "fst (isBanned dis now ip s)"
    | t where "\<not> dis" "\<not> fst (isBanned dis now ip s)" "lookup (ip, port) (sk_tracked ?s) = Some t"
    | "\<not> dis" "\<not> fst (isBanned dis now ip s)" "lookup (ip, port) (sk_tracked ?s) = None" "size_of (sk_tracked s1) \<ge> kMaxTrackedNodes"
    | "\<not> dis" "\<not> fst (isBanned dis now ip s)" "lookup (ip, port) (sk_tracked ?s) = None" "size_of (sk_tracked s1) < kMaxTrackedNodes"
    by fastforce
  then show ?thesis
  proof cases
    case 1
    then show ?thesis using that assms by (simp add: trackNode_def)
  next
    case 2
    then show ?thesis using that [of ?s] b to_s by (simp add: trackNode_def case_prod_beta)
  next
    case (3 t)
    have t: "lookup (ip, port) (sk_tracked ?s) = Some t \<or>
        lookup (ip, port) (sk_tracked ?s) = None \<and> size_of (sk_tracked ?s) < kMaxTrackedNodes" using 3 by blast
    obtain s' where u: "update_tracked dis now ip port i verified t ?s = Some s'" "sk_ok s'"
      "no_new_bans {ip} ?s s'" "\<not> verified \<longrightarrow> no_new_bans {} ?s s'"
      by (rule update_tracked_effect [OF b(1) t])
    show ?thesis
      by (rule that [OF _ u(2) to_s [OF u(3)]]) (use 3 u(1,4) to_s in \<open>simp_all add: trackNode_def case_prod_beta\<close>)
  next
    case 4
    then have "trackNode dis now ip port i verified s = Some s1"
      using s1(1) by (simp add: trackNode_def case_prod_beta cong: if_cong)
    from that [OF this s1(2)] to_s1 show ?thesis by simp
  next
    case 5
    let ?t = "\<lparr>lastID = i, lastIDChange = now, t_ref = 0, idVerified = verified\<rparr>"
    have t: "lookup (ip, port) (sk_tracked s1) = Some ?t \<or>
        lookup (ip, port) (sk_tracked s1) = None \<and> size_of (sk_tracked s1) < kMaxTrackedNodes" using 5 s1(4) by blast
    obtain s' where u: "update_tracked dis now ip port i verified ?t s1 = Some s'" "sk_ok s'"
      "no_new_bans {ip} s1 s'" "\<not> verified \<longrightarrow> no_new_bans {} s1 s'"
      by (rule update_tracked_effect [OF s1(2) t])
    have "trackNode dis now ip port i verified s = Some s'"
      using 5 u(1) s1(1) by (simp add: trackNode_def case_prod_beta cong: if_cong)
    from that [OF this u(2) to_s1 [OF u(3)]] show ?thesis using u(4) to_s1 by blast
  qed
qed

lemma isProblematic_effect:
  assumes "sk_ok s"
  shows "sk_ok (snd (isProblematic dis now ip port s)) \<and> no_new_bans {} s (snd (isProblematic dis now ip port s))"
proof (cases "lookup (ip, port) (sk_problem s)")
  case None
  then show ?thesis using isBanned_ok [OF assms] isBanned_bans by (simp add: isProblematic_def assms)
next
  case (Some p)
  let ?a = "erase_age (p_ref p) (ip, port) (sk_problem s)"
  let ?s = "s\<lparr>sk_problem := erase_entry (ip, port) ?a\<rparr>"
  have "sk_ok ?s"
    using assms Some size_erase_le [of "(ip, port)" ?a] by (simp add: sk_ok_def erase_ok old_ref_def)
  moreover have "sk_ok (s\<lparr>sk_problem := put p_ref (ip, port) (p\<lparr>p_ref := now\<rparr>) ?a\<rparr>)"
    using assms Some by (simp add: sk_ok_def problem_rec.renewed_ok problem_rec.renewed_size)
  moreover have "no_new_bans {} s ?s" by (rule no_new_bans_same) simp
  ultimately show ?thesis
    using assms Some isBanned_ok [of ?s] no_new_bans_trans [OF _ isBanned_bans, of s ?s]
    by (simp add: isProblematic_def Let_def no_new_bans_same)
qed

lemma trackProblematicNode_effect:
  assumes "sk_ok s"
  obtains s' where "trackProblematicNode dis now ip port s = Some s'" "sk_ok s'" "no_new_bans {} s s'"
proof (cases "dis \<or> fst (isBanned dis now ip s)")
  case True
  then show ?thesis
    using that [of s] that [of "snd (isBanned dis now ip s)"] assms isBanned_ok [OF assms] isBanned_bans
    by (cases dis) (auto simp: trackProblematicNode_def case_prod_beta)
next
  case False
  let ?s = "snd (isBanned dis now ip s)" and ?k = "(ip, port)"
  let ?w = "\<lambda>p s. s\<lparr>sk_problem := put p_ref ?k (p\<lparr>p_ref := now\<rparr>) (erase_age (p_ref p) ?k (sk_problem s))\<rparr>"
  have ok: "sk_ok ?s" "no_new_bans {} s ?s" using isBanned_ok [OF assms] isBanned_bans by auto
  have w: "sk_ok (?w p t)" "no_new_bans {} t (?w p t)"
    if "sk_ok t" "lookup ?k (sk_problem t) = Some p \<or> lookup ?k (sk_problem t) = None \<and> size_of (sk_problem t) < kMaxProblematicNodes"
    for p t using that by (auto simp: sk_ok_def put_ok size_put old_ref_def no_new_bans_same)
  show ?thesis
  proof (cases "lookup ?k (sk_problem ?s)")
    case (Some p)
    have "trackProblematicNode dis now ip port s = Some (?w p ?s)"
      using False Some by (cases dis) (simp_all add: trackProblematicNode_def case_prod_beta Let_def)
    then show ?thesis using that w [OF ok(1), of p] Some no_new_bans_trans [OF ok(2)] by blast
  next
    case None
    let ?new = "\<lparr>failed = now, p_ref = 0\<rparr>"
    obtain s1 where s1: "(if size_of (sk_problem ?s) \<ge> kMaxProblematicNodes then default_cleanup now ?s else Some ?s) = Some s1"
      "sk_ok s1" "no_new_bans {} ?s s1" "lookup ?k (sk_problem s1) = None"
    proof (cases "size_of (sk_problem ?s) \<ge> kMaxProblematicNodes")
      case True
      obtain s1 where c: "default_cleanup now ?s = Some s1" "sk_ok s1" "no_new_bans {} ?s s1"
        "entries (sk_problem s1) = filter (\<lambda>(k, v). now - p_ref v \<le> 300) (entries (sk_problem ?s))"
        by (rule cleanup_exact [OF ok(1), of now 3600 3600 300])
      have "aged_ok p_ref (sk_problem ?s)" using ok(1) by (simp only: sk_ok_def)
      from lookup_filter [OF this c(4), of ?k] show ?thesis using that [of s1] True c None by simp
    qed (use that ok None in auto)
    have to: "no_new_bans {} s1 s' \<Longrightarrow> no_new_bans {} s s'" for s'
      using no_new_bans_trans s1(3) ok(2) by blast
    have run: "trackProblematicNode dis now ip port s =
        Some (if size_of (sk_problem s1) \<ge> kMaxProblematicNodes then s1 else ?w ?new s1)"
      using False None s1(1) by (cases dis) (simp_all add: trackProblematicNode_def case_prod_beta Let_def cong: if_cong)
    show ?thesis
      using that [OF run] w [OF s1(2), of ?new] s1(2,4) to by (simp split: if_splits)
  qed
qed

lemma check_node_effect:
  assumes "sk_ok s1"
  obtains r s' where "check_node dis now ip port i v verified one s1 = Some (r, s')" "sk_ok s'"
    "no_new_bans {ip} s1 s'" "\<not> verified \<longrightarrow> no_new_bans {} s1 s'"
proof -
  let ?s = "snd (isBanned dis now ip s1)" and ?k = "(ip, port)"
  have s: "sk_ok ?s" "no_new_bans {} s1 ?s" using isBanned_ok [OF assms] isBanned_bans by auto
  have to: "no_new_bans A s1 s'" if "no_new_bans A ?s s'" for A s'
    using no_new_bans_trans [OF no_new_bans_mono [OF s(2)] that] .
  let ?bad = "fst (isBanned dis now ip s1)"
  show ?thesis
  proof (cases "lookup ?k (sk_tracked s1)")
    case None
    show ?thesis
    proof (cases "?bad \<or> one \<and> list_ex (\<lambda>(k, t). fst k = ip) (entries (sk_tracked s1))")
      case True
      then have "check_node dis now ip port i v verified one s1 = Some (True, ?s)"
        using None by (auto simp: check_node_def Let_def case_prod_beta)
      from that [OF this s(1)] s(2) show ?thesis by (simp add: no_new_bans_mono)
    next
      case False
      obtain s2 where t: "trackNode dis now ip port i verified ?s = Some s2" "sk_ok s2"
        "no_new_bans {ip} ?s s2" "\<not> verified \<longrightarrow> no_new_bans {} ?s s2" by (rule trackNode_effect [OF s(1)])
      then have "check_node dis now ip port i v verified one s1 = Some (False, s2)"
        using None False by (auto simp: check_node_def Let_def case_prod_beta)
      from that [OF this t(2)] t(3,4) to show ?thesis by blast
    qed
  next
    case (Some t)
    let ?a = "erase_age (t_ref t) ?k (sk_tracked s1)"
    let ?s2 = "?s\<lparr>sk_tracked := put t_ref ?k (t\<lparr>t_ref := now\<rparr>) ?a\<rparr>"
    have s2: "sk_ok ?s2" "\<And>A. no_new_bans A ?s ?s2"
      using s(1) Some tracked_rec.renewed_ok [of "sk_tracked s1" ?k t] tracked_rec.renewed_size [of ?k "sk_tracked s1" t]
      by (auto simp: sk_ok_def no_new_bans_same)
    consider "?bad" | "\<not> ?bad" "lastID t = i" | "\<not> ?bad" "lastID t \<noteq> i" "(idVerified t \<or> v < 8) \<and> \<not> verified"
      | "\<not> ?bad" "lastID t \<noteq> i" "\<not> ((idVerified t \<or> v < 8) \<and> \<not> verified)" by blast
    then show ?thesis
    proof cases
      case 1
      let ?s1 = "?s\<lparr>sk_tracked := erase_entry ?k ?a\<rparr>"
      have "erase_age (t_ref t) ?k (erase_entry ?k (sk_tracked s1)) = erase_entry ?k ?a"
        by (simp add: erase_age_def erase_entry_def)
      then have run: "check_node dis now ip port i v verified one s1 = Some (True, ?s1)"
        using 1 Some by (auto simp: check_node_def Let_def case_prod_beta)
      have "sk_ok ?s1"
        using s(1) Some size_erase_le [of ?k ?a] by (auto simp: sk_ok_def intro!: erase_ok simp: old_ref_def)
      from that [OF run this] to [OF no_new_bans_same [of ?s1 ?s]] show ?thesis by simp
    next
      case 2
      then have "check_node dis now ip port i v verified one s1 = Some (False, ?s2)"
        using Some by (auto simp: check_node_def Let_def case_prod_beta)
      from that [OF this s2(1)] to [OF s2(2)] show ?thesis by blast
    next
      case 3
      then have "check_node dis now ip port i v verified one s1 = Some (True, ?s2)"
        using Some by (auto simp: check_node_def Let_def case_prod_beta)
      from that [OF this s2(1)] to [OF s2(2)] show ?thesis by blast
    next
      case 4
      obtain s3 where t: "trackNode dis now ip port i verified ?s2 = Some s3" "sk_ok s3"
        "no_new_bans {ip} ?s2 s3" "\<not> verified \<longrightarrow> no_new_bans {} ?s2 s3" by (rule trackNode_effect [OF s2(1)])
      have run: "check_node dis now ip port i v verified one s1 =
          Some (fst (isBanned dis now ip s3), snd (isBanned dis now ip s3))"
        using Some 4 t(1) by (auto simp: check_node_def Let_def case_prod_beta)
      have up: "no_new_bans A ?s2 s3 \<Longrightarrow> no_new_bans A s1 (snd (isBanned dis now ip s3))" for A
        using to [OF no_new_bans_trans [OF s2(2) no_new_bans_trans [OF _ no_new_bans_mono [OF isBanned_bans]]]] .
      from that [OF run isBanned_ok [OF t(2)] up [OF t(3)]] t(4) up show ?thesis by blast
    qed
  qed
qed

lemma isBadNode_effect:
  assumes "sk_ok s"
  obtains r s' where "isBadNode dis now ip port i v verified one s = Some (r, s')" "sk_ok s'"
    "no_new_bans {ip} s s'" "\<not> verified \<longrightarrow> no_new_bans {} s s'"
proof (cases dis)
  case True
  then have "isBadNode dis now ip port i v verified one s = Some (False, s)" by (simp add: isBadNode_def)
  from that [OF this assms] show ?thesis by simp
next
  case False
  obtain s1 where s1: "(if now - lastCleanup s > 600 then default_cleanup now s else Some s) = Some s1"
    "sk_ok s1" "no_new_bans {} s s1"
  proof (cases "now - lastCleanup s > 600")
    case True
    show ?thesis by (rule cleanup_exact [OF assms, of now 3600 3600 300]) (use True that in simp)
  qed (use that assms in auto)
  obtain r s' where c: "check_node dis now ip port i v verified one s1 = Some (r, s')" "sk_ok s'"
    "no_new_bans {ip} s1 s'" "\<not> verified \<longrightarrow> no_new_bans {} s1 s'" by (rule check_node_effect [OF s1(2)])
  have "isBadNode dis now ip port i v verified one s = Some (r, s')"
    using False s1(1) c(1) by (simp add: isBadNode_def cong: if_cong)
  from that [OF this c(2)] show ?thesis
    using no_new_bans_trans [OF no_new_bans_mono [OF s1(3)] c(3)] no_new_bans_trans [OF s1(3)] c(4) by blast
qed

section \<open>Who is tracked\<close>

definition tracked_keys :: "safekad \<Rightarrow> node_address set" where
  "tracked_keys s = {k. lookup k (sk_tracked s) \<noteq> None}"

lemma tracked_keys_entries: "k \<in> tracked_keys s \<longleftrightarrow> k \<in> fst ` set (entries (sk_tracked s))"
  by (simp add: tracked_keys_def lookup_def map_of_eq_None_iff)

lemma tracked_keys_isBanned [simp]: "tracked_keys (snd (isBanned dis now ip s)) = tracked_keys s"
  by (simp add: tracked_keys_def)

lemma tracked_keys_cleanup:
  assumes "sk_ok s" "cleanup now n b p s = Some s'"
  shows "tracked_keys s' \<subseteq> tracked_keys s"
proof -
  obtain s1 where "cleanup now n b p s = Some s1"
    "entries (sk_tracked s1) = filter (\<lambda>(k, v). now - t_ref v \<le> n) (entries (sk_tracked s))"
    by (rule cleanup_exact [OF assms(1), of now n b p])
  then show ?thesis using assms(2) by (force simp: tracked_keys_entries)
qed

lemma tracked_keys_banIP:
  assumes "sk_ok s" "banIP dis now ip s = Some s'"
  shows "tracked_keys s' \<subseteq> tracked_keys s"
proof (cases "dis \<or> lookup ip (sk_banned s) \<noteq> None \<or> size_of (sk_banned s) < kMaxBannedIPs")
  case True
  then have "sk_tracked s' = sk_tracked s"
    using assms(2) by (auto simp: banIP_def write_ban_def split: option.splits if_splits)
  then show ?thesis by (simp add: tracked_keys_def)
next
  case False
  obtain s1 where s1: "default_cleanup now s = Some s1" by (rule cleanup_exact [OF assms(1), of now 3600 3600 300])
  have same: "evict_oldest_ban s1 = Some s2 \<Longrightarrow> sk_tracked s2 = sk_tracked s1" for s2
    by (auto simp: evict_oldest_ban_def split: list.splits option.splits)
  let ?e = "if size_of (sk_banned s1) \<ge> kMaxBannedIPs then evict_oldest_ban s1 else Some s1"
  have run: "banIP dis now ip s = ?e \<bind> (\<lambda>s2. Some (if size_of (sk_banned s2) \<ge> kMaxBannedIPs then s2
      else write_ban now ip \<lparr>b_time = 0, b_ref = 0\<rparr> s2))"
    using False s1 by (simp add: banIP_def)
  obtain s2 where s2: "?e = Some s2" "sk_tracked s' = sk_tracked s2"
  proof (cases ?e)
    case (Some s2)
    have "banIP dis now ip s = Some (if size_of (sk_banned s2) \<ge> kMaxBannedIPs then s2
        else write_ban now ip \<lparr>b_time = 0, b_ref = 0\<rparr> s2)" unfolding run Some by simp
    then have "sk_tracked s' = sk_tracked s2" using assms(2) by (auto simp: write_ban_def)
    then show ?thesis using that Some by blast
  next
    case None
    have "banIP dis now ip s = None" unfolding run None by simp
    then show ?thesis using assms(2) by simp
  qed
  have "sk_tracked s2 = sk_tracked s1"
    using s2(1) same by (cases "size_of (sk_banned s1) \<ge> kMaxBannedIPs") simp_all
  with s2(2) have "sk_tracked s' = sk_tracked s1" by simp
  then show ?thesis using tracked_keys_cleanup [OF assms(1) s1] by (simp add: tracked_keys_def)
qed

lemma tracked_keys_update:
  assumes "sk_ok s" "update_tracked dis now ip port i verified t s = Some s'"
    "t_ref t = r" "old_ref t_ref (ip, port) (sk_tracked s) r"
  shows "tracked_keys s' \<subseteq> insert (ip, port) (tracked_keys s)"
proof -
  let ?s = "s\<lparr>sk_tracked := erase_entry (ip, port) (erase_age (t_ref t) (ip, port) (sk_tracked s))\<rparr>"
  have "sk_ok ?s"
    using assms size_erase_le [of "(ip, port)" "erase_age (t_ref t) (ip, port) (sk_tracked s)"]
    by (simp add: sk_ok_def erase_ok)
  then have "banIP dis now ip ?s = Some s' \<Longrightarrow> tracked_keys s' \<subseteq> tracked_keys ?s" by (rule tracked_keys_banIP)
  moreover have "tracked_keys ?s \<subseteq> tracked_keys s" by (auto simp: tracked_keys_def)
  ultimately show ?thesis
    using assms(2) by (auto simp: update_tracked_def Let_def tracked_keys_def split: if_splits)
qed

lemma tracked_keys_trackNode:
  assumes "sk_ok s" "trackNode dis now ip port i verified s = Some s'"
  shows "tracked_keys s' \<subseteq> insert (ip, port) (tracked_keys s)"
proof -
  let ?s = "snd (isBanned dis now ip s)" and ?k = "(ip, port)"
  have ok: "sk_ok ?s" by (rule isBanned_ok [OF assms(1)])
  show ?thesis
  proof (cases "dis \<or> fst (isBanned dis now ip s)")
    case True
    then have "s' = s \<or> s' = ?s" using assms(2) by (cases dis) (auto simp: trackNode_def case_prod_beta)
    then show ?thesis by auto
  next
    case False
    show ?thesis
    proof (cases "lookup ?k (sk_tracked s)")
      case (Some t)
      then have "update_tracked dis now ip port i verified t ?s = Some s'"
        using assms(2) False by (cases dis) (simp_all add: trackNode_def case_prod_beta)
      from tracked_keys_update [OF ok this refl] Some show ?thesis by (simp add: old_ref_def)
    next
      case None
      let ?t = "\<lparr>lastID = i, lastIDChange = now, t_ref = 0, idVerified = verified\<rparr>"
      obtain s1 where s1: "(if size_of (sk_tracked ?s) \<ge> kMaxTrackedNodes then default_cleanup now ?s else Some ?s) = Some s1"
        "s' = s1 \<or> update_tracked dis now ip port i verified ?t s1 = Some s'"
        using assms(2) False None
        by (cases dis) (auto simp: trackNode_def case_prod_beta bind_eq_Some_conv split: if_splits)
      have k1: "tracked_keys s1 \<subseteq> tracked_keys s \<and> sk_ok s1"
      proof (cases "size_of (sk_tracked ?s) \<ge> kMaxTrackedNodes")
        case True
        then have c: "default_cleanup now ?s = Some s1" using s1(1) by simp
        obtain s1' where "default_cleanup now ?s = Some s1'" "sk_ok s1'"
          by (rule cleanup_exact [OF ok, of now 3600 3600 300])
        then show ?thesis using tracked_keys_cleanup [OF ok c] c by simp
      qed (use s1(1) ok in auto)
      have "lookup ?k (sk_tracked s1) = None" using k1 None by (auto simp: tracked_keys_def)
      then have "update_tracked dis now ip port i verified ?t s1 = Some s' \<Longrightarrow> tracked_keys s' \<subseteq> insert ?k (tracked_keys s1)"
        using tracked_keys_update [OF conjunct2 [OF k1] _ refl] by (simp add: old_ref_def)
      then show ?thesis using s1(2) k1 by blast
    qed
  qed
qed

lemma check_node_tracked:
  assumes "sk_ok s1" "check_node dis now ip port i v verified one s1 = Some (r, s')"
  shows "tracked_keys s' \<subseteq> tracked_keys s1 \<or>
    (one \<longrightarrow> (\<forall>k \<in> tracked_keys s1. fst k \<noteq> ip)) \<and> tracked_keys s' \<subseteq> insert (ip, port) (tracked_keys s1)"
proof -
  let ?s = "snd (isBanned dis now ip s1)" and ?k = "(ip, port)" and ?bad = "fst (isBanned dis now ip s1)"
  have ok: "sk_ok ?s" by (rule isBanned_ok [OF assms(1)])
  show ?thesis
  proof (cases "lookup ?k (sk_tracked s1)")
    case None
    let ?known = "one \<and> list_ex (\<lambda>(k, t). fst k = ip) (entries (sk_tracked s1))"
    show ?thesis
    proof (cases "?bad \<or> ?known")
      case True
      then have "s' = ?s" using assms(2) None by (cases "?bad") (auto simp: check_node_def Let_def case_prod_beta)
      then show ?thesis by simp
    next
      case False
      have "trackNode dis now ip port i verified ?s = Some s'"
        using assms(2) None False
        by (auto simp: check_node_def Let_def case_prod_beta bind_eq_Some_conv split: if_splits)
      then have "tracked_keys s' \<subseteq> insert ?k (tracked_keys s1)" using tracked_keys_trackNode [OF ok] by simp
      moreover have "one \<longrightarrow> (\<forall>k \<in> tracked_keys s1. fst k \<noteq> ip)"
        using False by (force simp: tracked_keys_entries list_ex_iff)
      ultimately show ?thesis by blast
    qed
  next
    case (Some t)
    let ?a = "erase_age (t_ref t) ?k (sk_tracked s1)"
    let ?s2 = "?s\<lparr>sk_tracked := put t_ref ?k (t\<lparr>t_ref := now\<rparr>) ?a\<rparr>"
    have s2: "sk_ok ?s2"
      using ok Some tracked_rec.renewed_ok [of "sk_tracked s1" ?k t] tracked_rec.renewed_size [of ?k "sk_tracked s1" t]
      by (auto simp: sk_ok_def)
    have k2: "tracked_keys ?s2 = tracked_keys s1" using Some by (auto simp: tracked_keys_def split: if_splits)
    have k: "?k \<in> tracked_keys s1" using Some by (simp add: tracked_keys_def)
    have "s' = ?s\<lparr>sk_tracked := erase_age (t_ref t) ?k (erase_entry ?k (sk_tracked s1))\<rparr> \<or> s' = ?s2 \<or>
        (\<exists>s3. trackNode dis now ip port i verified ?s2 = Some s3 \<and> s' = snd (isBanned dis now ip s3))"
      using assms(2) Some
      by (cases "?bad") (auto simp: check_node_def Let_def case_prod_beta bind_eq_Some_conv prod_eq_iff split: if_splits)
    moreover have "tracked_keys (?s\<lparr>sk_tracked := erase_age (t_ref t) ?k (erase_entry ?k (sk_tracked s1))\<rparr>) \<subseteq> tracked_keys s1"
      by (auto simp: tracked_keys_def split: if_splits)
    moreover have "tracked_keys s' \<subseteq> tracked_keys s1"
      if t: "trackNode dis now ip port i verified ?s2 = Some s3" "s' = snd (isBanned dis now ip s3)" for s3
      using tracked_keys_trackNode [OF s2 t(1)] k unfolding t(2) k2 by (simp add: insert_absorb)
    ultimately have "tracked_keys s' \<subseteq> tracked_keys s1" using k2 by blast
    then show ?thesis by blast
  qed
qed

section \<open>Properties\<close>

datatype sk_call =
    Call_track u32 u16 uint128 bool
  | Call_trackProblematic u32 u16
  | Call_banIP u32
  | Call_isBadNode u32 u16 uint128 u8 bool bool
  | Call_isBanned u32
  | Call_isProblematic u32 u16
  | Call_shutdown

fun sk_call_step :: "bool \<Rightarrow> int \<Rightarrow> sk_call \<Rightarrow> safekad \<Rightarrow> safekad option" where
  "sk_call_step dis now (Call_track ip port i verified) s = trackNode dis now ip port i verified s"
| "sk_call_step dis now (Call_trackProblematic ip port) s = trackProblematicNode dis now ip port s"
| "sk_call_step dis now (Call_banIP ip) s = banIP dis now ip s"
| "sk_call_step dis now (Call_isBadNode ip port i v verified one) s =
     map_option snd (isBadNode dis now ip port i v verified one s)"
| "sk_call_step dis now (Call_isBanned ip) s = Some (snd (isBanned dis now ip s))"
| "sk_call_step dis now (Call_isProblematic ip port) s = Some (snd (isProblematic dis now ip port s))"
| "sk_call_step dis now Call_shutdown s = Some (shutdownCleanup now s)"

fun sk_run :: "(bool \<times> int \<times> sk_call) list \<Rightarrow> safekad \<Rightarrow> safekad option" where
  "sk_run [] s = Some s"
| "sk_run ((dis, now, c) # cs) s = sk_call_step dis now c s \<bind> sk_run cs"

lemma new_safekad_ok [simp]: "sk_ok (new_safekad now)"
  by (simp add: sk_ok_def new_safekad_def)

lemma sk_call_step_ok:
  assumes "sk_ok s"
  obtains s' where "sk_call_step dis now c s = Some s'" "sk_ok s'"
proof (cases c)
  case (Call_track ip port i verified)
  show ?thesis by (rule trackNode_effect [OF assms]) (use Call_track that in simp)
next
  case (Call_trackProblematic ip port)
  show ?thesis by (rule trackProblematicNode_effect [OF assms]) (use Call_trackProblematic that in simp)
next
  case (Call_banIP ip)
  show ?thesis by (rule banIP_effect [OF assms]) (use Call_banIP that in simp)
next
  case (Call_isBadNode ip port i v verified one)
  obtain r s' where "isBadNode dis now ip port i v verified one s = Some (r, s')" "sk_ok s'"
    by (rule isBadNode_effect [OF assms])
  then show ?thesis using that Call_isBadNode by simp
next
  case (Call_isBanned ip)
  then show ?thesis using that isBanned_ok [OF assms] by simp
next
  case (Call_isProblematic ip port)
  then show ?thesis using that isProblematic_effect [OF assms] by simp
next
  case Call_shutdown
  then show ?thesis using that by (simp add: shutdownCleanup_def)
qed

lemma sk_run_ok: "sk_ok s \<Longrightarrow> \<exists>s'. sk_run cs s = Some s' \<and> sk_ok s'"
proof (induction cs arbitrary: s)
  case (Cons d cs)
  obtain dis now c where d: "d = (dis, now, c)" by (cases d)
  obtain s1 where "sk_call_step dis now c s = Some s1" "sk_ok s1" by (rule sk_call_step_ok [OF Cons.prems])
  then show ?case using Cons.IH by (simp add: d)
qed simp

text \<open>C28. No sequence of calls, in any order and at any times, follows an age entry to a record
  that is gone; afterwards every age index lists exactly the records of its map in order, and
  the maps are within their limits.\<close>

theorem safekad_never_dangles: "\<exists>s. sk_run cs (new_safekad t0) = Some s \<and> sk_ok s"
  by (rule sk_run_ok) simp

text \<open>A ban always takes effect, also when the table of bans is full: the address is
  banned right after banIP, and no other address is.\<close>

theorem ban_takes_effect:
  assumes "sk_ok s"
  shows "\<exists>s'. banIP False now ip s = Some s' \<and> fst (isBanned False now ip s') \<and>
    (\<forall>ip'. ip' \<noteq> ip \<and> fst (isBanned False now ip' s') \<longrightarrow> fst (isBanned False now ip' s))"
proof -
  obtain s' where s': "banIP False now ip s = Some s'" "\<not> False \<longrightarrow> ban_active now ip s'" "no_new_bans {ip} s s'"
    by (rule banIP_effect [OF assms])
  have "ban_active now ip' s" if t: "ip' \<noteq> ip" "ban_active now ip' s'" for ip'
  proof -
    obtain b' where b': "lookup ip' (sk_banned s') = Some b'" "now - b_time b' \<le> kMaxBanTime"
      using t(2) by (auto simp: ban_active_def split: option.splits)
    then show ?thesis using s'(3) t(1) unfolding no_new_bans_def ban_active_def by fastforce
  qed
  then show ?thesis using s' by (auto simp: isBanned_iff)
qed

text \<open>Judging a node can only ban the address the packet came from, and a packet that is not
  verified bans nobody: every ban in force afterwards was in force before, with its date.\<close>

theorem unverified_bans_nobody:
  assumes "sk_ok s"
  shows "\<exists>r s'. isBadNode dis now ip port i v verified one s = Some (r, s') \<and>
    (\<forall>ip' b'. lookup ip' (sk_banned s') = Some b' \<and> (ip' \<noteq> ip \<or> \<not> verified) \<longrightarrow>
       (\<exists>b. lookup ip' (sk_banned s) = Some b \<and> b_time b = b_time b'))"
proof -
  obtain r s' where "isBadNode dis now ip port i v verified one s = Some (r, s')"
    "no_new_bans {ip} s s'" "\<not> verified \<longrightarrow> no_new_bans {} s s'"
    by (rule isBadNode_effect [OF assms])
  then show ?thesis unfolding no_new_bans_def by blast
qed

text \<open>The rule of one node per address: isBadNode, called with onePerIP, never lets a second
  port of an address into the table.\<close>

theorem one_node_per_address:
  assumes "sk_ok s" "isBadNode dis now ip port i v verified True s = Some (r, s')"
    "\<forall>j \<in> tracked_keys s. \<forall>k \<in> tracked_keys s. fst j = fst k \<longrightarrow> j = k"
  shows "\<forall>j \<in> tracked_keys s'. \<forall>k \<in> tracked_keys s'. fst j = fst k \<longrightarrow> j = k"
proof -
  have step: ?thesis
    if c: "check_node dis now ip port i v verified True s1 = Some (r, s')" "sk_ok s1" "tracked_keys s1 \<subseteq> tracked_keys s"
    for s1
  proof (intro ballI impI)
    fix j k assume jk: "j \<in> tracked_keys s'" "k \<in> tracked_keys s'" "fst j = fst k"
    from check_node_tracked [OF c(2,1)] show "j = k"
    proof
      assume "tracked_keys s' \<subseteq> tracked_keys s1"
      then show ?thesis using jk c(3) assms(3) by (meson subsetD)
    next
      assume new: "(True \<longrightarrow> (\<forall>k \<in> tracked_keys s1. fst k \<noteq> ip)) \<and> tracked_keys s' \<subseteq> insert (ip, port) (tracked_keys s1)"
      then have "j = (ip, port) \<or> j \<in> tracked_keys s1" "k = (ip, port) \<or> k \<in> tracked_keys s1" using jk by auto
      moreover have no: "\<forall>k \<in> tracked_keys s1. fst k \<noteq> ip" using new by simp
      ultimately consider "j = (ip, port)" "k = (ip, port)" | "j \<in> tracked_keys s" "k \<in> tracked_keys s"
        using jk(3) c(3) by (metis fst_conv subsetD)
      then show ?thesis using jk(3) assms(3) by cases auto
    qed
  qed
  consider "dis" | "\<not> dis" "now - lastCleanup s > 600" | "\<not> dis" "now - lastCleanup s \<le> 600" by linarith
  then show ?thesis
  proof cases
    case 1
    then show ?thesis using assms(2,3) by (simp add: isBadNode_def)
  next
    case 2
    obtain s1 where s1: "default_cleanup now s = Some s1" "sk_ok s1"
      by (rule cleanup_exact [OF assms(1), of now 3600 3600 300])
    have "check_node dis now ip port i v verified True s1 = Some (r, s')"
      using 2 assms(2) s1(1) by (simp add: isBadNode_def)
    from step [OF this s1(2) tracked_keys_cleanup [OF assms(1) s1(1)]] show ?thesis .
  next
    case 3
    then have "check_node dis now ip port i v verified True s = Some (r, s')"
      using assms(2) by (simp add: isBadNode_def)
    from step [OF this assms(1) subset_refl] show ?thesis .
  qed
qed

text \<open>Once an identifier of an address was verified, an unverified packet with another one
  is refused and never replaces it, as long as the record is not an hour old.\<close>

theorem verified_id_is_kept:
  assumes "sk_ok s" "lookup (ip, port) (sk_tracked s) = Some t" "idVerified t" "lastID t \<noteq> i"
    "now - t_ref t \<le> 3600"
  shows "\<exists>s'. isBadNode False now ip port i v False one s = Some (True, s') \<and>
    (case lookup (ip, port) (sk_tracked s') of
       Some t' \<Rightarrow> lastID t' = lastID t \<and> idVerified t' | None \<Rightarrow> fst (isBanned False now ip s'))"
proof -
  obtain s1 where s1: "(if now - lastCleanup s > 600 then default_cleanup now s else Some s) = Some s1"
    "sk_ok s1" "lookup (ip, port) (sk_tracked s1) = Some t"
  proof (cases "now - lastCleanup s > 600")
    case True
    obtain s1 where c: "default_cleanup now s = Some s1" "sk_ok s1"
      "entries (sk_tracked s1) = filter (\<lambda>(k, v). now - t_ref v \<le> 3600) (entries (sk_tracked s))"
      by (rule cleanup_exact [OF assms(1), of now 3600 3600 300])
    have "aged_ok t_ref (sk_tracked s)" using assms(1) by (simp add: sk_ok_def)
    from lookup_filter [OF this c(3), of "(ip, port)"] show ?thesis using that [of s1] True c assms(2,5) by simp
  qed (use that assms in auto)
  let ?s = "snd (isBanned False now ip s1)"
  have run: "isBadNode False now ip port i v False one s = check_node False now ip port i v False one s1"
    using s1(1) by (simp add: isBadNode_def cong: if_cong)
  show ?thesis
  proof (cases "fst (isBanned False now ip s1)")
    case True
    let ?s1 = "?s\<lparr>sk_tracked := erase_age (t_ref t) (ip, port) (erase_entry (ip, port) (sk_tracked s1))\<rparr>"
    have "check_node False now ip port i v False one s1 = Some (True, ?s1)"
      using True s1(3) by (simp add: check_node_def Let_def case_prod_beta)
    moreover have "ban_active now ip ?s1"
      using True isBanned_active [of now ip s1 False] by (simp add: isBanned_iff ban_active_def)
    ultimately show ?thesis unfolding run by (auto simp: isBanned_iff)
  next
    case False
    then show ?thesis unfolding run using s1(3) assms(3,4) by (simp add: check_node_def Let_def case_prod_beta)
  qed
qed

text \<open>A packet that is not verified can still get the address of its alleged sender banned:
  it leaves an unverified record with its identifier, and the first verified packet of the real
  node within the hour then counts as a rapid change of identity.\<close>

theorem forged_record_bans_owner:
  assumes "forged \<noteq> real" "0 \<le> t1 - t0" "t1 - t0 < 3600"
  shows "\<exists>s1 s2. isBadNode False t0 ip port forged 8 False True (new_safekad t0) = Some (False, s1) \<and>
    isBadNode False t1 ip port real 8 True True s1 = Some (True, s2) \<and> fst (isBanned False t1 ip s2)"
proof -
  let ?t = "\<lparr>lastID = forged, lastIDChange = t0, t_ref = t0, idVerified = False\<rparr>"
  let ?s1 = "(new_safekad t0)\<lparr>sk_tracked := \<lparr>entries = [((ip, port), ?t)], ages = [(t0, (ip, port))]\<rparr>\<rparr>"
  have first: "isBadNode False t0 ip port forged 8 False True (new_safekad t0) = Some (False, ?s1)"
    by (simp add: isBadNode_def check_node_def isBanned_def trackNode_def update_tracked_def new_safekad_def
        lookup_def empty_aged_def size_of_def kMaxTrackedNodes_def put_def erase_age_def)
  let ?b = "\<lparr>b_time = t1, b_ref = t1\<rparr>"
  let ?s2 = "\<lparr>sk_tracked = empty_aged, sk_banned = \<lparr>entries = [(ip, ?b)], ages = [(t1, ip)]\<rparr>,
     sk_problem = empty_aged, lastCleanup = (if t1 - t0 > 600 then t1 else t0)\<rparr>"
  have "isBadNode False t1 ip port real 8 True True ?s1 = Some (True, ?s2)"
    using assms
    by (simp add: isBadNode_def check_node_def isBanned_def trackNode_def update_tracked_def new_safekad_def
        lookup_def empty_aged_def size_of_def kMaxTrackedNodes_def put_def erase_age_def cleanup_def evict_def
        erase_entry_def banIP_def write_ban_def kMaxBannedIPs_def kMinIDChangeInterval_def kMaxBanTime_def AList.delete_eq)
  then show ?thesis using first by (auto simp: isBanned_def lookup_def kMaxBanTime_def)
qed

end
