(* ===== verification/Kad_PacketTracking.thy ===== *)
theory Kad_PacketTracking
  imports Kad_UInt128
begin

text \<open>
  Flood protection and request tracking of the Kademlia UDP listener
  (src/core/kademlia/KadPacketTracking.cpp): token buckets per address and request opcode,
  the list of requests we sent, and the pending challenges.  Ticks are 64-bit milliseconds
  whose difference wraps; token counts are the 64-bit signed values, far from their limits.
  The limit of served buddies (a preference) and the exemption of LAN addresses are arguments.
\<close>

definition kTrackTimeout :: u64 where "kTrackTimeout = 180000"
definition kChallengeTimeout :: u64 where "kChallengeTimeout = 180000"
definition kTokenBucketMax :: int where "kTokenBucketMax = 60000"
definition kMassiveFloodTokens :: int where "kMassiveFloodTokens = -180000"
definition kInCleanupInterval :: u64 where "kInCleanupInterval = 720000"

definition KADEMLIA2_BOOTSTRAP_REQ :: u8 where "KADEMLIA2_BOOTSTRAP_REQ = 0x01"
definition KADEMLIA2_HELLO_REQ :: u8 where "KADEMLIA2_HELLO_REQ = 0x11"
definition KADEMLIA2_HELLO_RES :: u8 where "KADEMLIA2_HELLO_RES = 0x19"
definition KADEMLIA2_REQ :: u8 where "KADEMLIA2_REQ = 0x21"
definition KADEMLIA2_SEARCH_KEY_REQ :: u8 where "KADEMLIA2_SEARCH_KEY_REQ = 0x33"
definition KADEMLIA2_SEARCH_SOURCE_REQ :: u8 where "KADEMLIA2_SEARCH_SOURCE_REQ = 0x34"
definition KADEMLIA2_SEARCH_NOTES_REQ :: u8 where "KADEMLIA2_SEARCH_NOTES_REQ = 0x35"
definition KADEMLIA2_PUBLISH_KEY_REQ :: u8 where "KADEMLIA2_PUBLISH_KEY_REQ = 0x43"
definition KADEMLIA2_PUBLISH_SOURCE_REQ :: u8 where "KADEMLIA2_PUBLISH_SOURCE_REQ = 0x44"
definition KADEMLIA2_PUBLISH_NOTES_REQ :: u8 where "KADEMLIA2_PUBLISH_NOTES_REQ = 0x45"
definition KADEMLIA_FIREWALLED_REQ :: u8 where "KADEMLIA_FIREWALLED_REQ = 0x50"
definition KADEMLIA_FINDBUDDY_REQ :: u8 where "KADEMLIA_FINDBUDDY_REQ = 0x51"
definition KADEMLIA_CALLBACK_REQ :: u8 where "KADEMLIA_CALLBACK_REQ = 0x52"
definition KADEMLIA_FIREWALLED2_REQ :: u8 where "KADEMLIA_FIREWALLED2_REQ = 0x53"
definition KADEMLIA2_PING :: u8 where "KADEMLIA2_PING = 0x60"

lemmas opcode_defs = KADEMLIA2_BOOTSTRAP_REQ_def KADEMLIA2_HELLO_REQ_def KADEMLIA2_HELLO_RES_def
  KADEMLIA2_REQ_def KADEMLIA2_SEARCH_KEY_REQ_def KADEMLIA2_SEARCH_SOURCE_REQ_def
  KADEMLIA2_SEARCH_NOTES_REQ_def KADEMLIA2_PUBLISH_KEY_REQ_def KADEMLIA2_PUBLISH_SOURCE_REQ_def
  KADEMLIA2_PUBLISH_NOTES_REQ_def KADEMLIA_FIREWALLED_REQ_def KADEMLIA_FINDBUDDY_REQ_def
  KADEMLIA_CALLBACK_REQ_def KADEMLIA_FIREWALLED2_REQ_def KADEMLIA2_PING_def

record tracked_packet =
  tp_time :: u64
  tp_ip :: u32
  tp_opcode :: u8

record tracked_challenge =
  tc_time :: u64
  tc_ip :: u32
  tc_contact :: uint128
  tc_challenge :: uint128
  tc_opcode :: u8

record request_bucket =
  rq_latest :: u64
  rq_tokens :: int
  rq_opcode :: u8
  rq_logged :: bool

record tracked_in =
  ti_lastExpire :: u64
  ti_ip :: u32
  ti_requests :: "request_bucket list"

record packet_tracking =
  pt_out :: "tracked_packet list"
  pt_challenges :: "tracked_challenge list"
  pt_in :: "u32 \<rightharpoonup> tracked_in"
  pt_lastCleanup :: u64

definition new_tracking :: packet_tracking where
  "new_tracking = \<lparr>pt_out = [], pt_challenges = [], pt_in = Map.empty, pt_lastCleanup = 0\<rparr>"

section \<open>Timed queues\<close>

definition pop_expired :: "('a \<Rightarrow> u64) \<Rightarrow> u64 \<Rightarrow> u64 \<Rightarrow> 'a list \<Rightarrow> 'a list" where
  "pop_expired time_of timeout now q = dropWhile (\<lambda>x. now - time_of x > timeout) q"

text \<open>The scan that takes out the first match.\<close>

fun take_first :: "('a \<Rightarrow> bool) \<Rightarrow> 'a list \<Rightarrow> 'a option \<times> 'a list" where
  "take_first P [] = (None, [])"
| "take_first P (x # xs) =
     (if P x then (Some x, xs) else case take_first P xs of (r, ys) \<Rightarrow> (r, x # ys))"

definition addTrackedOutPacket :: "u64 \<Rightarrow> u32 \<Rightarrow> u8 \<Rightarrow> packet_tracking \<Rightarrow> packet_tracking" where
  "addTrackedOutPacket now ip opcode pt =
     pt\<lparr>pt_out := pt_out pt @ [\<lparr>tp_time = now, tp_ip = ip, tp_opcode = opcode\<rparr>]\<rparr>"

definition isOnOutTrackList :: "u64 \<Rightarrow> u32 \<Rightarrow> u8 \<Rightarrow> bool \<Rightarrow> packet_tracking \<Rightarrow> bool \<times> packet_tracking" where
  "isOnOutTrackList now ip opcode dontRemove pt =
     (let q = pop_expired tp_time kTrackTimeout now (pt_out pt)
      in case take_first (\<lambda>t. tp_ip t = ip \<and> tp_opcode t = opcode) q of
           (None, _) \<Rightarrow> (False, pt\<lparr>pt_out := q\<rparr>)
         | (Some _, rest) \<Rightarrow> (True, pt\<lparr>pt_out := (if dontRemove then q else rest)\<rparr>))"

definition addLegacyChallenge :: "u64 \<Rightarrow> uint128 \<Rightarrow> uint128 \<Rightarrow> u32 \<Rightarrow> u8 \<Rightarrow> packet_tracking \<Rightarrow> packet_tracking" where
  "addLegacyChallenge now contactID challengeID ip opcode pt =
     pt\<lparr>pt_challenges := pt_challenges pt @
       [\<lparr>tc_time = now, tc_ip = ip, tc_contact = contactID, tc_challenge = challengeID, tc_opcode = opcode\<rparr>]\<rparr>"

text \<open>The contact of the matching challenge, which is taken out; a stored zero matches all.\<close>

definition isLegacyChallenge :: "u64 \<Rightarrow> uint128 \<Rightarrow> u32 \<Rightarrow> u8 \<Rightarrow> packet_tracking \<Rightarrow> uint128 option \<times> packet_tracking" where
  "isLegacyChallenge now challengeID ip opcode pt =
     (let q = pop_expired tc_time kChallengeTimeout now (pt_challenges pt)
      in case take_first (\<lambda>t. tc_ip t = ip \<and> tc_opcode t = opcode \<and>
                (tc_challenge t = setValue32 0 \<or> tc_challenge t = challengeID)) q of
           (None, _) \<Rightarrow> (None, pt\<lparr>pt_challenges := q\<rparr>)
         | (Some t, rest) \<Rightarrow> (Some (tc_contact t), pt\<lparr>pt_challenges := rest\<rparr>))"

definition hasActiveLegacyChallenge :: "u64 \<Rightarrow> u32 \<Rightarrow> packet_tracking \<Rightarrow> bool" where
  "hasActiveLegacyChallenge now ip pt =
     list_ex (\<lambda>t. tc_ip t = ip \<and> now - tc_time t \<le> kChallengeTimeout) (pt_challenges pt)"

definition isTrackedOutListRequestPacket :: "u8 \<Rightarrow> bool" where
  "isTrackedOutListRequestPacket opcode \<longleftrightarrow> opcode \<in>
     {KADEMLIA2_BOOTSTRAP_REQ, KADEMLIA2_HELLO_REQ, KADEMLIA2_HELLO_RES, KADEMLIA2_REQ,
      KADEMLIA2_SEARCH_NOTES_REQ, KADEMLIA2_PUBLISH_KEY_REQ, KADEMLIA2_PUBLISH_SOURCE_REQ,
      KADEMLIA2_PUBLISH_NOTES_REQ, KADEMLIA_FINDBUDDY_REQ, KADEMLIA_CALLBACK_REQ, KADEMLIA2_PING}"

section \<open>Token buckets\<close>

text \<open>The switch: the opcode whose bucket is charged, and the cost; None for a response.\<close>

definition token_cost :: "int \<Rightarrow> u8 \<Rightarrow> (u8 \<times> int) option" where
  "token_cost servedBuddyLimit opcode =
     (if opcode = KADEMLIA2_BOOTSTRAP_REQ then Some (opcode, kTokenBucketMax div 2)
      else if opcode = KADEMLIA2_HELLO_REQ then Some (opcode, kTokenBucketMax div 3)
      else if opcode = KADEMLIA2_REQ then Some (opcode, kTokenBucketMax div 10)
      else if opcode \<in> {KADEMLIA2_SEARCH_NOTES_REQ, KADEMLIA2_SEARCH_KEY_REQ, KADEMLIA2_SEARCH_SOURCE_REQ}
           then Some (opcode, kTokenBucketMax div 3)
      else if opcode = KADEMLIA2_PUBLISH_KEY_REQ then Some (opcode, kTokenBucketMax div 4)
      else if opcode = KADEMLIA2_PUBLISH_SOURCE_REQ then Some (opcode, kTokenBucketMax div 3)
      else if opcode = KADEMLIA2_PUBLISH_NOTES_REQ then Some (opcode, kTokenBucketMax div 2)
      else if opcode = KADEMLIA_FIREWALLED2_REQ then Some (KADEMLIA_FIREWALLED_REQ, kTokenBucketMax div 2)
      else if opcode \<in> {KADEMLIA_FIREWALLED_REQ, KADEMLIA_FINDBUDDY_REQ} then Some (opcode, kTokenBucketMax div 2)
      else if opcode = KADEMLIA_CALLBACK_REQ then Some (opcode, kTokenBucketMax div max 1 servedBuddyLimit)
      else if opcode = KADEMLIA2_PING then Some (opcode, kTokenBucketMax div 2)
      else None)"

definition inTrackListCleanup :: "u64 \<Rightarrow> packet_tracking \<Rightarrow> packet_tracking" where
  "inTrackListCleanup now pt = pt\<lparr>pt_lastCleanup := now,
     pt_in := (\<lambda>ip. case pt_in pt ip of None \<Rightarrow> None
                    | Some t \<Rightarrow> if now \<ge> ti_lastExpire t then None else Some t)\<rparr>"

definition find_bucket :: "u8 \<Rightarrow> request_bucket list \<Rightarrow> request_bucket option" where
  "find_bucket opcode rs = find (\<lambda>r. rq_opcode r = opcode) rs"

fun set_bucket :: "request_bucket \<Rightarrow> request_bucket list \<Rightarrow> request_bucket list" where
  "set_bucket r [] = []"
| "set_bucket r (x # xs) = (if rq_opcode x = rq_opcode r then r # xs else x # set_bucket r xs)"

text \<open>Refilled by the elapsed time, capped, and charged.\<close>

definition refill :: "u64 \<Rightarrow> int \<Rightarrow> request_bucket \<Rightarrow> request_bucket" where
  "refill now token r =
     (let t = rq_tokens r + sint (now - rq_latest r)
      in r\<lparr>rq_tokens := (if t > kTokenBucketMax then kTokenBucketMax else t) - token, rq_latest := now\<rparr>)"

text \<open>The verdict, the address to ban, and the new state.\<close>

definition inTrackListIsAllowedPacket ::
  "int \<Rightarrow> (u32 \<Rightarrow> bool) \<Rightarrow> u64 \<Rightarrow> u32 \<Rightarrow> u8 \<Rightarrow> packet_tracking \<Rightarrow> nat \<times> u32 option \<times> packet_tracking" where
  "inTrackListIsAllowedPacket servedBuddyLimit lan now ip op pt0 =
     (case token_cost servedBuddyLimit op of
        None \<Rightarrow> (0, None, pt0)
      | Some (opcode, token) \<Rightarrow>
          let pt = (if now \<ge> pt_lastCleanup pt0 + kInCleanupInterval then inTrackListCleanup now pt0 else pt0);
              tracked = (case pt_in pt ip of Some t \<Rightarrow> t
                         | None \<Rightarrow> \<lparr>ti_lastExpire = 0, ti_ip = ip, ti_requests = []\<rparr>)
          in case find_bucket opcode (ti_requests tracked) of
               None \<Rightarrow>
                 (0, None, pt\<lparr>pt_in := (pt_in pt)(ip \<mapsto> tracked\<lparr>ti_requests := ti_requests tracked @
                    [\<lparr>rq_latest = now, rq_tokens = kTokenBucketMax - token, rq_opcode = opcode, rq_logged = False\<rparr>]\<rparr>)\<rparr>)
             | Some r \<Rightarrow>
                 let r' = refill now token r;
                     expire = max (ti_lastExpire tracked) (now + word_of_int (\<bar>rq_tokens r'\<bar> + token));
                     store = (\<lambda>q. pt\<lparr>pt_in := (pt_in pt)(ip \<mapsto>
                        tracked\<lparr>ti_lastExpire := expire, ti_requests := set_bucket q (ti_requests tracked)\<rparr>)\<rparr>)
                 in if lan ip then (0, None, store r')
                    else if rq_tokens r' < 0 then
                      (if rq_tokens r' < kMassiveFloodTokens then (2, Some ip, store r')
                       else (1, None, store (r'\<lparr>rq_logged := True\<rparr>)))
                    else (0, None, store (r'\<lparr>rq_logged := False\<rparr>)))"

section \<open>The level of a bucket\<close>

lemma sint_elapsed:
  fixes a b :: u64
  assumes "unat b \<le> unat a" "unat a < 2 ^ 63"
  shows "sint (a - b) = int (unat a) - int (unat b)"
proof -
  have le: "b \<le> a" using assms(1) by (simp add: word_le_nat_alt)
  have "int (unat (a - b)) = int (unat a) - int (unat b)"
    unfolding unat_sub [OF le] using assms(1) by (rule of_nat_diff)
  then have u: "uint (a - b) = int (unat a) - int (unat b)" by (simp only: uint_nat)
  have small: "0 \<le> uint (a - b)" "uint (a - b) < 2 ^ 63"
  proof -
    have "int (unat b) \<le> int (unat a)" "0 \<le> int (unat b)" using assms(1) by (simp_all only: of_nat_le_iff of_nat_0_le_iff)
    moreover have "int (unat a) < 2 ^ 63"
      using assms(2) by (metis of_nat_less_iff of_nat_numeral of_nat_power)
    ultimately show "0 \<le> uint (a - b)" "uint (a - b) < 2 ^ 63" unfolding u by linarith+
  qed
  have "sint (a - b) = signed_take_bit 63 (uint (a - b))" by (simp add: sint_uint)
  also have "\<dots> = uint (a - b)" by (rule signed_take_bit_int_eq_self) (use small in linarith)+
  finally show ?thesis using u by simp
qed

definition bucket :: "u32 \<Rightarrow> u8 \<Rightarrow> packet_tracking \<Rightarrow> request_bucket option" where
  "bucket ip b pt = (case pt_in pt ip of None \<Rightarrow> None | Some t \<Rightarrow> find_bucket b (ti_requests t))"

text \<open>What the bucket would hold at tick T; an absent one is full.\<close>

definition level :: "u32 \<Rightarrow> u8 \<Rightarrow> nat \<Rightarrow> packet_tracking \<Rightarrow> int" where
  "level ip b T pt =
     (case bucket ip b pt of None \<Rightarrow> kTokenBucketMax
      | Some r \<Rightarrow> min kTokenBucketMax (rq_tokens r + (int T - int (unat (rq_latest r)))))"

definition dated :: "nat \<Rightarrow> packet_tracking \<Rightarrow> bool" where
  "dated T pt \<longleftrightarrow> unat (pt_lastCleanup pt) \<le> T \<and>
     (\<forall>ip b r. bucket ip b pt = Some r \<longrightarrow> unat (rq_latest r) \<le> T)"

lemma find_bucket_set:
  "find_bucket b (set_bucket r rs) = (if rq_opcode r = b \<and> find_bucket b rs \<noteq> None then Some r else find_bucket b rs)"
  by (induction rs) (auto simp: find_bucket_def)

lemma find_bucket_snoc:
  "find_bucket b (rs @ [r]) = (case find_bucket b rs of Some x \<Rightarrow> Some x | None \<Rightarrow> if rq_opcode r = b then Some r else None)"
  by (induction rs) (auto simp: find_bucket_def)

lemma find_bucket_opcode: "find_bucket b rs = Some r \<Longrightarrow> rq_opcode r = b"
  by (auto simp: find_bucket_def find_Some_iff)

lemma level_le: "level ip b T pt \<le> kTokenBucketMax"
  by (auto simp: level_def split: option.splits)

lemma level_mono: "T \<le> T' \<Longrightarrow> level ip b T pt \<le> level ip b T' pt \<and> level ip b T' pt \<le> level ip b T pt + (int T' - int T)"
  by (auto simp: level_def split: option.splits)

lemma dated_mono: "dated T pt \<Longrightarrow> T \<le> T' \<Longrightarrow> dated T' pt"
  unfolding dated_def by (meson order.trans)

lemma bucket_cleanup: "bucket ip b (inTrackListCleanup now pt) = Some r \<Longrightarrow> bucket ip b pt = Some r"
  by (auto simp: bucket_def inTrackListCleanup_def split: option.splits if_splits)

lemma level_cleanup: "level ip b T pt \<le> level ip b T (inTrackListCleanup now pt)"
proof (cases "bucket ip b (inTrackListCleanup now pt)")
  case None
  then show ?thesis using level_le by (simp add: level_def)
next
  case (Some r)
  then show ?thesis using bucket_cleanup [OF Some] by (simp add: level_def)
qed

lemma lastCleanup_cleanup [simp]: "pt_lastCleanup (inTrackListCleanup now pt) = now"
  by (simp add: inTrackListCleanup_def)

lemma dated_cleanup: "dated T pt \<Longrightarrow> unat now \<le> T \<Longrightarrow> dated T (inTrackListCleanup now pt)"
  unfolding dated_def by (intro conjI allI impI) (simp, blast dest: bucket_cleanup)

lemma token_cost_range: "token_cost l op = Some (b, c) \<Longrightarrow> 0 \<le> c \<and> c \<le> kTokenBucketMax"
proof -
  have "60000 div max 1 l \<le> 60000 div 1" by (rule zdiv_mono2) auto
  then have "0 \<le> 60000 div max 1 l \<and> 60000 div max 1 l \<le> 60000"
    by (simp add: pos_imp_zdiv_nonneg_iff)
  then show "token_cost l op = Some (b, c) \<Longrightarrow> 0 \<le> c \<and> c \<le> kTokenBucketMax"
    by (auto simp: token_cost_def kTokenBucketMax_def split: if_splits)
qed

lemma token_cost_bucket:
  assumes "token_cost l op = Some (b, c)"
  shows "token_cost l b = Some (b, c)"
proof (cases "op = KADEMLIA_FIREWALLED2_REQ")
  case True
  then show ?thesis using assms by (simp add: token_cost_def opcode_defs)
next
  case False
  then have "b = op" using assms by (simp add: token_cost_def split: if_splits)
  then show ?thesis using assms by simp
qed

text \<open>The state the packet is charged in: after the periodic cleanup.\<close>

definition tidy :: "u64 \<Rightarrow> packet_tracking \<Rightarrow> packet_tracking" where
  "tidy now pt = (if now \<ge> pt_lastCleanup pt + kInCleanupInterval then inTrackListCleanup now pt else pt)"

lemma bucket_store:
  "bucket ip' b' (pt\<lparr>pt_in := (pt_in pt)(ip \<mapsto> t)\<rparr>) =
     (if ip' = ip then find_bucket b' (ti_requests t) else bucket ip' b' pt)"
  by (simp add: bucket_def)

text \<open>One charged packet, on the state after the cleanup.\<close>

lemma allowed_step:
  assumes "token_cost l op = Some (b, c)" "dated T pt" "T \<le> unat now" "unat now < 2 ^ 63"
    "inTrackListIsAllowedPacket l lan now ip op pt = (v, ban, pt')"
  shows "dated (unat now) pt'" "pt_lastCleanup pt' = pt_lastCleanup (tidy now pt)"
    "level ip b (unat now) pt' = level ip b (unat now) (tidy now pt) - c"
    "(ip', b') \<noteq> (ip, b) \<Longrightarrow> level ip' b' T' pt' = level ip' b' T' (tidy now pt)"
    "\<not> lan ip \<Longrightarrow> v = 0 \<longleftrightarrow> 0 \<le> level ip b (unat now) pt'"
    "\<not> lan ip \<Longrightarrow> v = 2 \<longleftrightarrow> level ip b (unat now) pt' < kMassiveFloodTokens"
    "ban = (if v = 2 then Some ip else None)"
proof -
  let ?pt = "tidy now pt"
  have d: "dated (unat now) ?pt"
    using dated_mono [OF assms(2,3)] dated_cleanup by (simp add: tidy_def)
  note c = token_cost_range [OF assms(1)]
  define tracked where "tracked = (case pt_in ?pt ip of Some t \<Rightarrow> t
                         | None \<Rightarrow> \<lparr>ti_lastExpire = 0, ti_ip = ip, ti_requests = []\<rparr>)"
  have fb: "find_bucket b' (ti_requests tracked) = bucket ip b' ?pt" for b'
    by (simp add: tracked_def bucket_def find_bucket_def split: option.splits)
  have all: "dated (unat now) pt' \<and> pt_lastCleanup pt' = pt_lastCleanup ?pt \<and>
    level ip b (unat now) pt' = level ip b (unat now) ?pt - c \<and>
    ((ip', b') \<noteq> (ip, b) \<longrightarrow> level ip' b' T' pt' = level ip' b' T' ?pt) \<and>
    (\<not> lan ip \<longrightarrow> (v = 0 \<longleftrightarrow> 0 \<le> level ip b (unat now) pt') \<and>
       (v = 2 \<longleftrightarrow> level ip b (unat now) pt' < kMassiveFloodTokens)) \<and>
    ban = (if v = 2 then Some ip else None)"
  proof (cases "bucket ip b ?pt")
    case None
    let ?r = "\<lparr>rq_latest = now, rq_tokens = kTokenBucketMax - c, rq_opcode = b, rq_logged = False\<rparr>"
    let ?t = "tracked\<lparr>ti_requests := ti_requests tracked @ [?r]\<rparr>"
    have run: "v = 0" "ban = None" "pt' = ?pt\<lparr>pt_in := (pt_in ?pt)(ip \<mapsto> ?t)\<rparr>"
      using assms(1,5) None fb [of b]
      by (auto simp: inTrackListIsAllowedPacket_def tidy_def Let_def tracked_def)
    have bk: "bucket ip' b' pt' = (if ip' = ip \<and> b' = b then Some ?r else bucket ip' b' ?pt)" for ip' b'
      using None fb [of b'] by (auto simp: run(3) bucket_store find_bucket_snoc split: option.splits)
    have lev: "level ip b (unat now) pt' = kTokenBucketMax - c" using c by (simp add: level_def bk)
    have "level ip b (unat now) ?pt = kTokenBucketMax" using None by (simp add: level_def)
    moreover have "dated (unat now) pt'" using d by (auto simp: dated_def bk split: if_splits) (simp add: run)
    moreover have "(ip', b') \<noteq> (ip, b) \<Longrightarrow> level ip' b' T' pt' = level ip' b' T' ?pt" by (auto simp: level_def bk)
    moreover have "pt_lastCleanup pt' = pt_lastCleanup ?pt" by (simp add: run)
    ultimately show ?thesis using lev c by (auto simp: run(1,2) kMassiveFloodTokens_def)
  next
    case (Some r)
    let ?r = "refill now c r"
    have o: "rq_opcode r = b" "unat (rq_latest r) \<le> unat now"
      using Some d find_bucket_opcode fb [of b] by (auto simp: dated_def)
    obtain q e where q: "rq_latest q = now" "rq_tokens q = rq_tokens ?r" "rq_opcode q = b"
      "pt' = ?pt\<lparr>pt_in := (pt_in ?pt)(ip \<mapsto> tracked\<lparr>ti_lastExpire := e, ti_requests := set_bucket q (ti_requests tracked)\<rparr>)\<rparr>"
      "\<not> lan ip \<longrightarrow> (v = 0 \<longleftrightarrow> 0 \<le> rq_tokens ?r) \<and> (v = 2 \<longleftrightarrow> rq_tokens ?r < kMassiveFloodTokens)"
      "ban = (if v = 2 then Some ip else None)"
    proof -
      define e where "e = max (ti_lastExpire tracked) (now + word_of_int (\<bar>rq_tokens ?r\<bar> + c))"
      define store where "store = (\<lambda>q. ?pt\<lparr>pt_in := (pt_in ?pt)(ip \<mapsto>
        tracked\<lparr>ti_lastExpire := e, ti_requests := set_bucket q (ti_requests tracked)\<rparr>)\<rparr>)"
      have run: "(v, ban, pt') = (if lan ip then (0, None, store ?r)
          else if rq_tokens ?r < 0 then
            (if rq_tokens ?r < kMassiveFloodTokens then (2, Some ip, store ?r)
             else (1, None, store (?r\<lparr>rq_logged := True\<rparr>)))
          else (0, None, store (?r\<lparr>rq_logged := False\<rparr>)))"
        unfolding assms(5) [symmetric] inTrackListIsAllowedPacket_def assms(1)
        using Some fb [of b]
        by (simp add: Let_def store_def e_def flip: tidy_def tracked_def)
      have r: "rq_latest ?r = now" "rq_opcode ?r = b" using o by (simp_all add: refill_def Let_def)
      consider "lan ip" | "\<not> lan ip" "rq_tokens ?r < kMassiveFloodTokens"
        | "\<not> lan ip" "kMassiveFloodTokens \<le> rq_tokens ?r" "rq_tokens ?r < 0" | "\<not> lan ip" "0 \<le> rq_tokens ?r"
        by linarith
      then show thesis
      proof cases
        case 1
        then show thesis using run r by (intro that [of ?r e]) (simp_all add: store_def)
      next
        case 2
        then have "rq_tokens ?r < 0" by (simp add: kMassiveFloodTokens_def)
        then show thesis using run r 2 by (intro that [of ?r e]) (simp_all add: store_def)
      next
        case 3
        then show thesis using run r by (intro that [of "?r\<lparr>rq_logged := True\<rparr>" e]) (simp_all add: store_def)
      next
        case 4
        then have "\<not> rq_tokens ?r < kMassiveFloodTokens" by (simp add: kMassiveFloodTokens_def)
        then show thesis using run r 4 by (intro that [of "?r\<lparr>rq_logged := False\<rparr>" e]) (simp_all add: store_def)
      qed
    qed
    have bk: "bucket ip' b' pt' = (if ip' = ip \<and> b' = b then Some q else bucket ip' b' ?pt)" for ip' b'
      using Some fb [of b'] by (auto simp: q bucket_store find_bucket_set)
    have tok: "rq_tokens ?r = level ip b (unat now) ?pt - c"
      using Some o(2) sint_elapsed [OF o(2) assms(4)] by (auto simp: refill_def level_def Let_def)
    have lev: "level ip b (unat now) pt' = rq_tokens ?r"
      using tok level_le [of ip b "unat now" ?pt] c by (simp add: level_def [of ip b _ pt'] bk q(1-3))
    have "dated (unat now) pt'" using d by (auto simp: dated_def bk q(1) split: if_splits) (simp add: q)
    moreover have "(ip', b') \<noteq> (ip, b) \<Longrightarrow> level ip' b' T' pt' = level ip' b' T' ?pt" by (auto simp: level_def bk)
    ultimately show ?thesis using q(5,6) lev tok by (simp add: q(4))
  qed
  then show "dated (unat now) pt'" "pt_lastCleanup pt' = pt_lastCleanup ?pt"
    "level ip b (unat now) pt' = level ip b (unat now) ?pt - c"
    "(ip', b') \<noteq> (ip, b) \<Longrightarrow> level ip' b' T' pt' = level ip' b' T' ?pt"
    "\<not> lan ip \<Longrightarrow> v = 0 \<longleftrightarrow> 0 \<le> level ip b (unat now) pt'"
    "\<not> lan ip \<Longrightarrow> v = 2 \<longleftrightarrow> level ip b (unat now) pt' < kMassiveFloodTokens"
    "ban = (if v = 2 then Some ip else None)" by blast+
qed

section \<open>Sequences of packets\<close>

record in_call =
  ic_now :: u64
  ic_ip :: u32
  ic_op :: u8

fun run_in :: "int \<Rightarrow> (u32 \<Rightarrow> bool) \<Rightarrow> in_call list \<Rightarrow> packet_tracking \<Rightarrow> nat list \<times> packet_tracking" where
  "run_in l lan [] pt = ([], pt)"
| "run_in l lan (c # cs) pt =
     (case inTrackListIsAllowedPacket l lan (ic_now c) (ic_ip c) (ic_op c) pt of
        (v, _, pt1) \<Rightarrow> (case run_in l lan cs pt1 of (vs, pt2) \<Rightarrow> (v # vs, pt2)))"

text \<open>Whether a packet is charged to the bucket b of an address.\<close>

definition charges :: "int \<Rightarrow> u32 \<Rightarrow> u8 \<Rightarrow> in_call \<Rightarrow> bool" where
  "charges l ip b c \<longleftrightarrow> ic_ip c = ip \<and> map_option fst (token_cost l (ic_op c)) = Some b"

definition let_through :: "int \<Rightarrow> u32 \<Rightarrow> u8 \<Rightarrow> in_call list \<Rightarrow> nat list \<Rightarrow> nat" where
  "let_through l ip b cs vs = count_if (\<lambda>(c, v). charges l ip b c \<and> v = 0) (zip cs vs)"

text \<open>The ticks never run backwards and stay below the sign bit.\<close>

definition ticking :: "nat \<Rightarrow> in_call list \<Rightarrow> bool" where
  "ticking T cs \<longleftrightarrow> sorted (T # map (\<lambda>c. unat (ic_now c)) cs) \<and> (\<forall>c \<in> set cs. unat (ic_now c) < 2 ^ 63)"

lemma ticking_Cons:
  "ticking T (c # cs) \<longleftrightarrow> T \<le> unat (ic_now c) \<and> unat (ic_now c) < 2 ^ 63 \<and> ticking (unat (ic_now c)) cs"
  by (auto simp: ticking_def)

lemma uncharged_step:
  assumes "token_cost l op = None"
  shows "inTrackListIsAllowedPacket l lan now ip op pt = (0, None, pt)"
  using assms by (simp add: inTrackListIsAllowedPacket_def)

lemma level_tidy: "level ip b T pt \<le> level ip b T (tidy now pt)"
  using level_cleanup by (simp add: tidy_def)

lemma charges_cost: "charges l ip b c \<Longrightarrow> token_cost l b = Some (b, k) \<Longrightarrow> token_cost l (ic_op c) = Some (b, k)"
proof -
  assume a: "charges l ip b c" "token_cost l b = Some (b, k)"
  then obtain k' where "token_cost l (ic_op c) = Some (b, k')" by (auto simp: charges_def)
  with token_cost_bucket [OF this] a(2) show ?thesis by simp
qed

text \<open>Any packet, seen from one bucket: its level rises with time, by a cleanup, and falls by
  the cost if the packet is charged to it.\<close>

lemma packet_step:
  assumes "dated T pt" "T \<le> unat (ic_now c)" "unat (ic_now c) < 2 ^ 63"
    "inTrackListIsAllowedPacket l lan (ic_now c) (ic_ip c) (ic_op c) pt = (v, ban, pt')"
    "token_cost l b = Some (b, k)" "\<not> lan ip"
  shows "dated (unat (ic_now c)) pt'"
    "charges l ip b c \<Longrightarrow> level ip b (unat (ic_now c)) pt' = level ip b (unat (ic_now c)) (tidy (ic_now c) pt) - k \<and>
       pt_lastCleanup pt' = pt_lastCleanup (tidy (ic_now c) pt) \<and>
       (v = 0 \<longleftrightarrow> 0 \<le> level ip b (unat (ic_now c)) pt') \<and> (v = 2 \<longleftrightarrow> level ip b (unat (ic_now c)) pt' < kMassiveFloodTokens)"
    "\<not> charges l ip b c \<Longrightarrow>
       level ip b (unat (ic_now c)) pt' = level ip b (unat (ic_now c)) pt \<and> pt_lastCleanup pt' = pt_lastCleanup pt \<or>
       level ip b (unat (ic_now c)) pt' = level ip b (unat (ic_now c)) (tidy (ic_now c) pt) \<and>
       pt_lastCleanup pt' = pt_lastCleanup (tidy (ic_now c) pt)"
proof -
  show "dated (unat (ic_now c)) pt'"
    using allowed_step(1) [OF _ assms(1-4)] uncharged_step [of l "ic_op c"] dated_mono [OF assms(1,2)] assms(4)
    by (cases "token_cost l (ic_op c)") auto
  show "level ip b (unat (ic_now c)) pt' = level ip b (unat (ic_now c)) (tidy (ic_now c) pt) - k \<and>
       pt_lastCleanup pt' = pt_lastCleanup (tidy (ic_now c) pt) \<and>
       (v = 0 \<longleftrightarrow> 0 \<le> level ip b (unat (ic_now c)) pt') \<and> (v = 2 \<longleftrightarrow> level ip b (unat (ic_now c)) pt' < kMassiveFloodTokens)"
    if c: "charges l ip b c"
  proof -
    have ip: "ic_ip c = ip" using c by (simp add: charges_def)
    note st = allowed_step [OF charges_cost [OF c assms(5)] assms(1-3) assms(4)]
    show ?thesis using st(2,3,5,6) assms(6) by (simp add: ip)
  qed
  show "level ip b (unat (ic_now c)) pt' = level ip b (unat (ic_now c)) pt \<and> pt_lastCleanup pt' = pt_lastCleanup pt \<or>
       level ip b (unat (ic_now c)) pt' = level ip b (unat (ic_now c)) (tidy (ic_now c) pt) \<and>
       pt_lastCleanup pt' = pt_lastCleanup (tidy (ic_now c) pt)"
    if n: "\<not> charges l ip b c"
  proof (cases "token_cost l (ic_op c)")
    case None
    then show ?thesis using uncharged_step [OF None] assms(4) by simp
  next
    case (Some bk)
    obtain b' k' where bk: "bk = (b', k')" by fastforce
    have "(ip, b) \<noteq> (ic_ip c, b')" using n Some bk by (auto simp: charges_def)
    then show ?thesis using allowed_step(2,4) [OF Some [unfolded bk] assms(1-4)] by blast
  qed
qed

text \<open>A bucket only goes down by what was charged to it.\<close>

lemma level_lower:
  assumes "dated T pt" "ticking T cs" "token_cost l b = Some (b, k)" "\<not> lan ip" "run_in l lan cs pt = (vs, pt')"
    "\<forall>c \<in> set cs. unat (ic_now c) \<le> E" "T \<le> E"
  shows "dated E pt' \<and> level ip b T pt - k * int (count_if (charges l ip b) cs) \<le> level ip b E pt'"
  using assms(1,2,5-7)
proof (induction cs arbitrary: T pt vs)
  case Nil
  then show ?case using level_mono [of T E ip b pt'] dated_mono by auto
next
  case (Cons c cs)
  let ?t = "unat (ic_now c)"
  obtain v ban pt1 vs1 where s: "inTrackListIsAllowedPacket l lan (ic_now c) (ic_ip c) (ic_op c) pt = (v, ban, pt1)"
    "run_in l lan cs pt1 = (vs1, pt')"
    using Cons.prems(3) by (auto split: prod.splits)
  have t: "T \<le> ?t" "?t < 2 ^ 63" "ticking ?t cs" "?t \<le> E" using Cons.prems by (auto simp: ticking_Cons)
  note p = packet_step [OF Cons.prems(1) t(1,2) s(1) assms(3,4)]
  have ih: "dated E pt' \<and> level ip b ?t pt1 - k * int (count_if (charges l ip b) cs) \<le> level ip b E pt'"
    by (rule Cons.IH [OF p(1) t(3) s(2) _ t(4)]) (use Cons.prems in auto)
  have m: "level ip b T pt \<le> level ip b ?t pt" using level_mono [OF t(1)] by blast
  have "level ip b T pt - (if charges l ip b c then k else 0) \<le> level ip b ?t pt1"
    using p(2,3) m level_tidy [of ip b ?t pt "ic_now c"] by (cases "charges l ip b c") auto
  then show ?case using ih by (auto simp: algebra_simps split: if_splits)
qed

definition credit_of :: "u32 \<Rightarrow> u8 \<Rightarrow> nat \<Rightarrow> packet_tracking \<Rightarrow> int" where
  "credit_of ip b T pt = max 0 (level ip b T pt)"

text \<open>In less than twelve minutes there is at most one cleanup, which can refill the bucket.\<close>

lemma window_bound:
  assumes "dated T pt" "ticking T cs" "token_cost l b = Some (b, k)" "\<not> lan ip" "run_in l lan cs pt = (vs, pt')"
    "\<forall>c \<in> set cs. unat (ic_now c) \<le> E" "T \<le> E" "E < T + 720000"
  shows "k * int (let_through l ip b cs vs) \<le> credit_of ip b T pt + (int E - int T) +
    (if E \<ge> unat (pt_lastCleanup pt) + 720000 then kTokenBucketMax else 0)"
  using assms(1,2,5-8)
proof (induction cs arbitrary: T pt vs)
  case Nil
  then show ?case by (simp add: let_through_def credit_of_def kTokenBucketMax_def)
next
  case (Cons c cs)
  let ?t = "unat (ic_now c)" and ?pt = "tidy (ic_now c) pt"
  obtain v ban pt1 vs1 where s: "inTrackListIsAllowedPacket l lan (ic_now c) (ic_ip c) (ic_op c) pt = (v, ban, pt1)"
    "run_in l lan cs pt1 = (vs1, pt')" "vs = v # vs1"
    using Cons.prems(3) by (auto split: prod.splits)
  have t: "T \<le> ?t" "?t < 2 ^ 63" "ticking ?t cs" "?t \<le> E" using Cons.prems by (auto simp: ticking_Cons)
  note p = packet_step [OF Cons.prems(1) t(1,2) s(1) assms(3,4)]
  note k = token_cost_range [OF assms(3)]
  let ?n = "let_through l ip b cs vs1" and ?one = "if charges l ip b c \<and> v = 0 then 1 else 0 :: int"
  let ?late = "\<lambda>pt. if E \<ge> unat (pt_lastCleanup pt) + 720000 then kTokenBucketMax else 0"
  have ih: "k * int ?n \<le> credit_of ip b ?t pt1 + (int E - int ?t) + ?late pt1"
    by (rule Cons.IH [OF p(1) t(3) s(2) _ t(4)]) (use Cons.prems t(1) in auto)
  have grow: "credit_of ip b ?t pt \<le> credit_of ip b T pt + (int ?t - int T)"
    using level_mono [OF t(1), of ip b pt] t(1) by (auto simp: credit_of_def)
  have tidied: "credit_of ip b ?t ?pt + ?late ?pt \<le> credit_of ip b T pt + (int ?t - int T) + ?late pt"
  proof (cases "ic_now c \<ge> pt_lastCleanup pt + kInCleanupInterval")
    case True
    have "unat (pt_lastCleanup pt) \<le> T" using Cons.prems(1) by (simp add: dated_def)
    then have "unat (pt_lastCleanup pt + kInCleanupInterval) = unat (pt_lastCleanup pt) + 720000"
      using t(1,2) by (subst unat_add_lem [THEN iffD1]) (simp_all add: kInCleanupInterval_def)
    then have "?t \<ge> unat (pt_lastCleanup pt) + 720000" using True by (simp add: word_le_nat_alt)
    then have late: "?late pt = kTokenBucketMax" using t(4) by simp
    have "?pt = inTrackListCleanup (ic_now c) pt" using True by (simp add: tidy_def)
    then have none: "?late ?pt = 0" using Cons.prems(6) t(1) by simp
    have full: "credit_of ip b ?t ?pt \<le> kTokenBucketMax"
      using level_le [of ip b ?t ?pt] by (simp add: credit_of_def kTokenBucketMax_def)
    have "0 \<le> credit_of ip b T pt" "int T \<le> int ?t"
      using t(1) by (simp add: credit_of_def) (use t(1) in \<open>simp only: of_nat_le_iff\<close>)
    then show ?thesis unfolding late none using full by linarith
  next
    case False
    then show ?thesis using grow by (simp add: tidy_def)
  qed
  have pay: "k * ?one + credit_of ip b ?t pt1 + ?late pt1 \<le> credit_of ip b T pt + (int ?t - int T) + ?late pt"
  proof (cases "charges l ip b c")
    case True
    have lc: "?late pt1 = ?late ?pt" using p(2) [OF True] by simp
    have "k * ?one + credit_of ip b ?t pt1 \<le> credit_of ip b ?t ?pt"
      using p(2) [OF True] k True by (auto simp: credit_of_def)
    then show ?thesis using tidied lc by linarith
  next
    case False
    then show ?thesis using p(3) [OF False] grow tidied by (auto simp: credit_of_def)
  qed
  have "int (let_through l ip b (c # cs) vs) = int ?n + ?one"
    by (simp add: let_through_def s(3))
  then have "k * int (let_through l ip b (c # cs) vs) = k * int ?n + k * ?one" by (simp add: algebra_simps)
  then show ?case using ih pay by linarith
qed

section \<open>Timed queues are sorted and fresh\<close>

definition queue_ok :: "('a \<Rightarrow> u64) \<Rightarrow> nat \<Rightarrow> 'a list \<Rightarrow> bool" where
  "queue_ok time_of T q \<longleftrightarrow> sorted (map (unat \<circ> time_of) q) \<and> (\<forall>x \<in> set q. unat (time_of x) \<le> T)"

lemma take_first_None: "take_first P q = (None, r) \<Longrightarrow> r = q \<and> (\<forall>x \<in> set q. \<not> P x)"
  by (induction q arbitrary: r) (auto split: prod.splits if_splits)

lemma take_first_SomeD:
  "take_first P q = (Some x, r) \<Longrightarrow> P x \<and> x \<in> set q \<and> mset q = add_mset x (mset r)"
  by (induction q arbitrary: r) (auto split: prod.splits if_splits)

lemma take_first_subseq: "take_first P q = (y, r) \<Longrightarrow> sorted (map f q) \<Longrightarrow> sorted (map f r) \<and> set r \<subseteq> set q"
proof (induction q arbitrary: r)
  case (Cons a q)
  then show ?case by (fastforce split: prod.splits if_splits)
qed simp

text \<open>A queue whose entries carry the tick they were appended at.\<close>

locale timed_queue =
  fixes time_of :: "'a \<Rightarrow> u64" and entry :: "u64 \<Rightarrow> 'p \<Rightarrow> 'a"
  assumes time_entry [simp]: "time_of (entry now p) = now"
begin

lemma push_ok:
  "queue_ok time_of T q \<Longrightarrow> T \<le> unat now \<Longrightarrow> queue_ok time_of (unat now) (q @ [entry now p])"
  by (force simp: queue_ok_def sorted_append)

lemma pop_ok: "queue_ok time_of T q \<Longrightarrow> queue_ok time_of T (pop_expired time_of timeout now q)"
proof -
  assume a: "queue_ok time_of T q"
  let ?P = "\<lambda>x. now - time_of x > timeout"
  have "sorted (map (unat \<circ> time_of) (takeWhile ?P q @ dropWhile ?P q))" using a by (simp add: queue_ok_def)
  then have "sorted (map (unat \<circ> time_of) (dropWhile ?P q))" unfolding map_append sorted_append by blast
  then show "queue_ok time_of T (pop_expired time_of timeout now q)"
    using a by (auto simp: queue_ok_def pop_expired_def dest: set_dropWhileD)
qed

lemma take_ok: "queue_ok time_of T q \<Longrightarrow> take_first P q = (y, r) \<Longrightarrow> queue_ok time_of T r"
  using take_first_subseq unfolding queue_ok_def by blast

lemma pop_fresh:
  assumes "queue_ok time_of (unat now) q" "x \<in> set (pop_expired time_of timeout now q)"
  shows "unat now - unat (time_of x) \<le> unat timeout"
  using assms
proof (induction q)
  case (Cons a q)
  have age: "unat (now - time_of y) = unat now - unat (time_of y)" if "y \<in> set (a # q)" for y
    by (rule unat_sub) (use that Cons.prems(1) in \<open>auto simp: queue_ok_def word_le_nat_alt\<close>)
  show ?case
  proof (cases "now - time_of a > timeout")
    case True
    then show ?thesis using Cons by (auto simp: queue_ok_def pop_expired_def)
  next
    case False
    then have "unat now - unat (time_of a) \<le> unat timeout" using age [of a] by (simp add: word_less_nat_alt)
    moreover have "unat (time_of a) \<le> unat (time_of x)"
      using Cons.prems False by (auto simp: queue_ok_def pop_expired_def)
    ultimately show ?thesis by simp
  qed
qed (simp add: pop_expired_def)

end

interpretation outq: timed_queue tp_time "\<lambda>now (ip, opcode). \<lparr>tp_time = now, tp_ip = ip, tp_opcode = opcode\<rparr>"
  by unfold_locales (simp split: prod.splits)

interpretation challengeq: timed_queue tc_time "\<lambda>now (contactID, challengeID, ip, opcode).
    \<lparr>tc_time = now, tc_ip = ip, tc_contact = contactID, tc_challenge = challengeID, tc_opcode = opcode\<rparr>"
  by unfold_locales (simp split: prod.splits)

lemma set_pop_expired: "set (pop_expired f t now q) \<subseteq> set q"
  by (auto simp: pop_expired_def dest: set_dropWhileD)

datatype pt_op =
    Op_out u32 u8
  | Op_onOut u32 u8 bool
  | Op_in u32 u8
  | Op_challenge uint128 uint128 u32 u8
  | Op_isChallenge uint128 u32 u8

fun pt_step :: "int \<Rightarrow> (u32 \<Rightarrow> bool) \<Rightarrow> u64 \<Rightarrow> pt_op \<Rightarrow> packet_tracking \<Rightarrow> packet_tracking" where
  "pt_step l lan now (Op_out ip op) pt = addTrackedOutPacket now ip op pt"
| "pt_step l lan now (Op_onOut ip op dontRemove) pt = snd (isOnOutTrackList now ip op dontRemove pt)"
| "pt_step l lan now (Op_in ip op) pt = snd (snd (inTrackListIsAllowedPacket l lan now ip op pt))"
| "pt_step l lan now (Op_challenge c ch ip op) pt = addLegacyChallenge now c ch ip op pt"
| "pt_step l lan now (Op_isChallenge ch ip op) pt = snd (isLegacyChallenge now ch ip op pt)"

fun pt_run :: "int \<Rightarrow> (u32 \<Rightarrow> bool) \<Rightarrow> (u64 \<times> pt_op) list \<Rightarrow> packet_tracking \<Rightarrow> packet_tracking" where
  "pt_run l lan [] pt = pt"
| "pt_run l lan ((now, x) # h) pt = pt_run l lan h (pt_step l lan now x pt)"

lemma in_frame [simp]:
  "pt_out (snd (snd (inTrackListIsAllowedPacket l lan now ip op pt))) = pt_out pt"
  "pt_challenges (snd (snd (inTrackListIsAllowedPacket l lan now ip op pt))) = pt_challenges pt"
  by (auto simp: inTrackListIsAllowedPacket_def inTrackListCleanup_def Let_def split: option.splits)

text \<open>Every entry of the queues was put in by an earlier call.\<close>

definition recorded :: "(u64 \<times> pt_op) list \<Rightarrow> nat \<Rightarrow> packet_tracking \<Rightarrow> bool" where
  "recorded h T pt \<longleftrightarrow> queue_ok tp_time T (pt_out pt) \<and> queue_ok tc_time T (pt_challenges pt) \<and>
     (\<forall>t \<in> set (pt_out pt). (tp_time t, Op_out (tp_ip t) (tp_opcode t)) \<in> set h) \<and>
     (\<forall>t \<in> set (pt_challenges pt). (tc_time t, Op_challenge (tc_contact t) (tc_challenge t) (tc_ip t) (tc_opcode t)) \<in> set h)"

lemma queue_ok_mono: "queue_ok f T q \<Longrightarrow> T \<le> T' \<Longrightarrow> queue_ok f T' q"
  by (auto simp: queue_ok_def)

lemma onOut_effect:
  assumes "isOnOutTrackList now ip op d pt = (r, pt')" "queue_ok tp_time T (pt_out pt)"
  shows "queue_ok tp_time T (pt_out pt') \<and> set (pt_out pt') \<subseteq> set (pt_out pt) \<and> pt_challenges pt' = pt_challenges pt"
proof -
  let ?q = "pop_expired tp_time kTrackTimeout now (pt_out pt)"
  have q: "queue_ok tp_time T ?q" by (rule outq.pop_ok [OF assms(2)])
  obtain y rest where t: "take_first (\<lambda>t. tp_ip t = ip \<and> tp_opcode t = op) ?q = (y, rest)" by fastforce
  have "queue_ok tp_time T rest" "set rest \<subseteq> set ?q"
    using outq.take_ok [OF q t] take_first_subseq [OF t, of "unat \<circ> tp_time"] q by (auto simp: queue_ok_def)
  then show ?thesis using assms(1) q t set_pop_expired [of tp_time kTrackTimeout now "pt_out pt"]
    by (auto simp: isOnOutTrackList_def Let_def split: option.splits if_splits)
qed

lemma isChallenge_effect:
  assumes "isLegacyChallenge now ch ip op pt = (r, pt')" "queue_ok tc_time T (pt_challenges pt)"
  shows "queue_ok tc_time T (pt_challenges pt') \<and> set (pt_challenges pt') \<subseteq> set (pt_challenges pt) \<and> pt_out pt' = pt_out pt"
proof -
  let ?q = "pop_expired tc_time kChallengeTimeout now (pt_challenges pt)"
  let ?P = "\<lambda>t. tc_ip t = ip \<and> tc_opcode t = op \<and> (tc_challenge t = setValue32 0 \<or> tc_challenge t = ch)"
  have q: "queue_ok tc_time T ?q" by (rule challengeq.pop_ok [OF assms(2)])
  obtain y rest where t: "take_first ?P ?q = (y, rest)" by fastforce
  have "queue_ok tc_time T rest" "set rest \<subseteq> set ?q"
    using challengeq.take_ok [OF q t] take_first_subseq [OF t, of "unat \<circ> tc_time"] q by (auto simp: queue_ok_def)
  then show ?thesis using assms(1) q t set_pop_expired [of tc_time kChallengeTimeout now "pt_challenges pt"]
    by (auto simp: isLegacyChallenge_def Let_def split: option.splits)
qed

lemma recorded_less:
  assumes "recorded h T pt" "queue_ok tp_time T' (pt_out pt')" "queue_ok tc_time T' (pt_challenges pt')"
    "set (pt_out pt') \<subseteq> set (pt_out pt)" "set (pt_challenges pt') \<subseteq> set (pt_challenges pt)"
  shows "recorded (h @ [e]) T' pt'"
  using assms unfolding recorded_def by (simp add: subset_iff)

lemma recorded_step:
  assumes "recorded h T pt" "T \<le> unat now"
  shows "recorded (h @ [(now, x)]) (unat now) (pt_step l lan now x pt)"
proof -
  have q: "queue_ok tp_time (unat now) (pt_out pt)" "queue_ok tc_time (unat now) (pt_challenges pt)"
    using assms queue_ok_mono by (auto simp: recorded_def)
  show ?thesis
  proof (cases x)
    case (Op_out ip op)
    then show ?thesis using assms q outq.push_ok [of T "pt_out pt" now "(ip, op)"]
      by (auto simp: recorded_def addTrackedOutPacket_def)
  next
    case (Op_onOut ip op d)
    then show ?thesis using q onOut_effect [OF prod.collapse [symmetric] q(1), of now ip op d]
      by (intro recorded_less [OF assms(1)]) auto
  next
    case (Op_in ip op)
    then show ?thesis using q by (intro recorded_less [OF assms(1)]) simp_all
  next
    case (Op_challenge c ch ip op)
    then show ?thesis using assms q challengeq.push_ok [of T "pt_challenges pt" now "(c, ch, ip, op)"]
      by (auto simp: recorded_def addLegacyChallenge_def)
  next
    case (Op_isChallenge ch ip op)
    then show ?thesis using q isChallenge_effect [OF prod.collapse [symmetric] q(2), of now ch ip op]
      by (intro recorded_less [OF assms(1)]) auto
  qed
qed

lemma recorded_later: "recorded h T pt \<Longrightarrow> T \<le> E \<Longrightarrow> recorded h E pt"
  unfolding recorded_def by (blast intro: queue_ok_mono)

lemma recorded_run:
  "recorded h0 T pt \<Longrightarrow> sorted (T # map (unat \<circ> fst) h) \<Longrightarrow> \<forall>(t, x) \<in> set h. unat t \<le> E \<Longrightarrow> T \<le> E \<Longrightarrow>
    recorded (h0 @ h) E (pt_run l lan h pt)"
proof (induction h arbitrary: h0 T pt)
  case Nil
  then show ?case using recorded_later by simp
next
  case (Cons e h)
  obtain now x where e: "e = (now, x)" by fastforce
  have "recorded (h0 @ [e]) (unat now) (pt_step l lan now x pt)"
    unfolding e by (rule recorded_step [OF Cons.prems(1)]) (use Cons.prems(2) e in simp)
  moreover have "sorted (unat now # map (unat \<circ> fst) h)" "\<forall>(t, x) \<in> set h. unat t \<le> E" "unat now \<le> E"
    using Cons.prems(2,3) e by (auto simp: comp_def)
  ultimately have "recorded ((h0 @ [e]) @ h) E (pt_run l lan h (pt_step l lan now x pt))" by (rule Cons.IH)
  then show ?case by (simp add: e)
qed

section \<open>Properties\<close>

lemma dated_new [simp]: "dated T new_tracking"
  by (simp add: dated_def new_tracking_def bucket_def)

lemma level_new [simp]: "level ip b T new_tracking = kTokenBucketMax"
  by (simp add: level_def new_tracking_def bucket_def)

lemmas eval_run = inTrackListIsAllowedPacket_def token_cost_def opcode_defs kTokenBucketMax_def
  kInCleanupInterval_def inTrackListCleanup_def new_tracking_def find_bucket_def refill_def kMassiveFloodTokens_def Let_def

text \<open>C31. The flood limit holds in every window shorter than twelve minutes: whatever was sent
  before, the packets of one kind let through from one address cost at most two full buckets
  plus the length of the window.\<close>

theorem flood_rate_bound:
  assumes "ticking 0 (past @ recent)" "token_cost l b = Some (b, k)" "\<not> lan ip"
    "\<forall>c \<in> set past. unat (ic_now c) \<le> T" "\<forall>c \<in> set recent. T \<le> unat (ic_now c) \<and> unat (ic_now c) \<le> E"
    "T \<le> E" "E < T + 720000"
    "run_in l lan past new_tracking = (vs, pt)" "run_in l lan recent pt = (ws, pt')"
  shows "k * int (let_through l ip b recent ws) \<le> 2 * kTokenBucketMax + (int E - int T)"
proof -
  have tick: "ticking 0 past" "ticking T recent"
    using assms(1,5) by (auto simp: ticking_def sorted_append)
  have d: "dated T pt"
    using level_lower [OF dated_new [of 0] tick(1) assms(2,3,8,4)] by simp
  have "k * int (let_through l ip b recent ws) \<le> credit_of ip b T pt + (int E - int T) +
      (if E \<ge> unat (pt_lastCleanup pt) + 720000 then kTokenBucketMax else 0)"
    by (rule window_bound [OF d tick(2) assms(2,3,9) _ assms(6,7)]) (use assms(5) in auto)
  moreover have "credit_of ip b T pt \<le> kTokenBucketMax"
    using level_le by (simp add: credit_of_def kTokenBucketMax_def)
  ultimately show ?thesis by (simp add: kTokenBucketMax_def split: if_splits)
qed

theorem flood_rate_bound_witness:
  "30000 * int (let_through 8 7 KADEMLIA2_PING [\<lparr>ic_now = 5, ic_ip = 7, ic_op = KADEMLIA2_PING\<rparr>]
     (fst (run_in 8 (\<lambda>_. False) [\<lparr>ic_now = 5, ic_ip = 7, ic_op = KADEMLIA2_PING\<rparr>] new_tracking)))
   \<le> 2 * kTokenBucketMax + (int 60 - int 0)"
  by (rule flood_rate_bound [where past = "[]" and lan = "\<lambda>_. False" and l = 8, OF _ _ _ _ _ _ _ _ prod.collapse [symmetric]])
    (simp_all add: ticking_def token_cost_def opcode_defs kTokenBucketMax_def)

text \<open>An address is banned only after a massive flood: the packets of that kind it sent, this
  one included, cost more than four minutes of allowance.\<close>

theorem ban_needs_flood:
  assumes "ticking 0 (past @ [c])" "run_in l lan past new_tracking = (vs, pt)"
    "inTrackListIsAllowedPacket l lan (ic_now c) (ic_ip c) (ic_op c) pt = (v, Some banned, pt')"
  shows "banned = ic_ip c \<and> (\<exists>b k. token_cost l (ic_op c) = Some (b, k) \<and>
    240000 < k * int (count_if (charges l (ic_ip c) b) (past @ [c])))"
proof -
  let ?t = "unat (ic_now c)"
  have tick: "ticking 0 past" "\<forall>c' \<in> set past. unat (ic_now c') \<le> ?t" "?t < 2 ^ 63"
    using assms(1) by (auto simp: ticking_def sorted_append)
  obtain b k where bk: "token_cost l (ic_op c) = Some (b, k)"
    using assms(3) by (cases "token_cost l (ic_op c)") (auto simp: inTrackListIsAllowedPacket_def)
  have lan: "\<not> lan (ic_ip c)"
    using assms(3) by (auto simp: inTrackListIsAllowedPacket_def Let_def bk split: option.splits if_splits)
  have low: "dated ?t pt \<and> level (ic_ip c) b 0 new_tracking - k * int (count_if (charges l (ic_ip c) b) past)
      \<le> level (ic_ip c) b ?t pt"
    by (rule level_lower [OF dated_new tick(1) token_cost_bucket [OF bk] lan assms(2) tick(2)]) simp
  note st = allowed_step [OF bk _ order.refl tick(3) assms(3)]
  have two: "v = 2" "banned = ic_ip c" using st(7) low by (auto split: if_splits)
  then have "level (ic_ip c) b ?t pt' < kMassiveFloodTokens" using st(6) low lan by blast
  moreover have "level (ic_ip c) b ?t pt' = level (ic_ip c) b ?t (tidy (ic_now c) pt) - k" using st(3) low by blast
  moreover have "charges l (ic_ip c) b c" by (simp add: charges_def bk)
  ultimately have "240000 < k * int (count_if (charges l (ic_ip c) b) (past @ [c]))"
    using low level_tidy [of "ic_ip c" b ?t pt "ic_now c"]
    by (simp add: kMassiveFloodTokens_def kTokenBucketMax_def algebra_simps)
  then show ?thesis using two bk by blast
qed

text \<open>C36. An answer is accepted only against a request or a challenge of ours that is at most
  three minutes old: one for the same address and opcode, and for a challenge the same value
  or the wildcard zero; the contact returned is the one recorded with it.\<close>

theorem answers_match_requests:
  assumes "sorted (map (unat \<circ> fst) h)" "\<forall>(t, x) \<in> set h. unat t \<le> unat now"
  shows "(fst (isOnOutTrackList now ip op d (pt_run l lan h new_tracking)) \<longrightarrow>
      (\<exists>t. (t, Op_out ip op) \<in> set h \<and> unat now - unat t \<le> 180000)) \<and>
    (\<forall>contact. fst (isLegacyChallenge now ch ip op (pt_run l lan h new_tracking)) = Some contact \<longrightarrow>
      (\<exists>t c. (t, Op_challenge contact c ip op) \<in> set h \<and> (c = setValue32 0 \<or> c = ch) \<and> unat now - unat t \<le> 180000))"
proof -
  let ?pt = "pt_run l lan h new_tracking"
  have r: "recorded h (unat now) ?pt"
    using recorded_run [of "[]" 0 new_tracking h "unat now" l lan] assms
    by (auto simp: recorded_def queue_ok_def new_tracking_def)
  then have q: "queue_ok tp_time (unat now) (pt_out ?pt)" "queue_ok tc_time (unat now) (pt_challenges ?pt)"
    by (auto simp: recorded_def)
  show ?thesis
  proof (intro conjI impI allI)
    let ?q = "pop_expired tp_time kTrackTimeout now (pt_out ?pt)"
    assume "fst (isOnOutTrackList now ip op d ?pt)"
    then obtain t rest where t: "take_first (\<lambda>t. tp_ip t = ip \<and> tp_opcode t = op) ?q = (Some t, rest)"
      by (auto simp: isOnOutTrackList_def Let_def split: prod.splits option.splits)
    note f = take_first_SomeD [OF t]
    have "t \<in> set (pt_out ?pt)" using f set_pop_expired [of tp_time kTrackTimeout now "pt_out ?pt"] by blast
    then have "(tp_time t, Op_out ip op) \<in> set h" using r f by (auto simp: recorded_def)
    moreover have "unat now - unat (tp_time t) \<le> 180000"
      using outq.pop_fresh [OF q(1), of t kTrackTimeout] f by (simp add: kTrackTimeout_def)
    ultimately show "\<exists>t. (t, Op_out ip op) \<in> set h \<and> unat now - unat t \<le> 180000" by blast
  next
    fix contact
    let ?q = "pop_expired tc_time kChallengeTimeout now (pt_challenges ?pt)"
    assume "fst (isLegacyChallenge now ch ip op ?pt) = Some contact"
    then obtain t rest where t: "take_first (\<lambda>t. tc_ip t = ip \<and> tc_opcode t = op \<and>
        (tc_challenge t = setValue32 0 \<or> tc_challenge t = ch)) ?q = (Some t, rest)" "tc_contact t = contact"
      by (auto simp: isLegacyChallenge_def Let_def split: prod.splits option.splits)
    note f = take_first_SomeD [OF t(1)]
    have "t \<in> set (pt_challenges ?pt)" using f set_pop_expired [of tc_time kChallengeTimeout now "pt_challenges ?pt"] by blast
    then have "(tc_time t, Op_challenge contact (tc_challenge t) ip op) \<in> set h" using r f t(2) by (auto simp: recorded_def)
    moreover have "unat now - unat (tc_time t) \<le> 180000"
      using challengeq.pop_fresh [OF q(2), of t kChallengeTimeout] f by (simp add: kChallengeTimeout_def)
    ultimately show "\<exists>t c. (t, Op_challenge contact c ip op) \<in> set h \<and> (c = setValue32 0 \<or> c = ch) \<and>
        unat now - unat t \<le> 180000" using f by blast
  qed
qed

theorem answers_match_requests_witness:
  "\<exists>t. (t, Op_out 7 KADEMLIA2_REQ) \<in> set [(5, Op_out 7 KADEMLIA2_REQ)] \<and> unat (9 :: u64) - unat t \<le> 180000"
proof -
  have "fst (isOnOutTrackList 9 7 KADEMLIA2_REQ False (pt_run 8 (\<lambda>_. False) [(5, Op_out 7 KADEMLIA2_REQ)] new_tracking))"
    by (simp add: isOnOutTrackList_def pop_expired_def addTrackedOutPacket_def new_tracking_def kTrackTimeout_def Let_def)
  with answers_match_requests [of "[(5, Op_out 7 KADEMLIA2_REQ)]" 9 7 KADEMLIA2_REQ False 8 "\<lambda>_. False" "setValue32 0"]
  show ?thesis by simp
qed

text \<open>The answers accepted from an address for an opcode along a run.\<close>

fun answers :: "int \<Rightarrow> (u32 \<Rightarrow> bool) \<Rightarrow> u32 \<Rightarrow> u8 \<Rightarrow> (u64 \<times> pt_op) list \<Rightarrow> packet_tracking \<Rightarrow> nat" where
  "answers l lan ip op [] pt = 0"
| "answers l lan ip op ((now, x) # h) pt =
     (case x of Op_isChallenge ch ip' op' \<Rightarrow>
        (if ip' = ip \<and> op' = op \<and> fst (isLegacyChallenge now ch ip op pt) \<noteq> None then 1 else 0) | _ \<Rightarrow> 0)
     + answers l lan ip op h (pt_step l lan now x pt)"

definition pending :: "u32 \<Rightarrow> u8 \<Rightarrow> packet_tracking \<Rightarrow> nat" where
  "pending ip op pt = count_if (\<lambda>t. tc_ip t = ip \<and> tc_opcode t = op) (pt_challenges pt)"

definition sent_challenges :: "u32 \<Rightarrow> u8 \<Rightarrow> (u64 \<times> pt_op) list \<Rightarrow> nat" where
  "sent_challenges ip op h = count_if (\<lambda>(t, x). \<exists>c ch. x = Op_challenge c ch ip op) h"

lemma count_if_dropWhile: "count_if P (dropWhile Q q) \<le> count_if P q"
  by (induction q) auto

lemma count_if_add_mset: "mset q = add_mset x (mset r) \<Longrightarrow> count_if P q = (if P x then 1 else 0) + count_if P r"
proof -
  assume "mset q = add_mset x (mset r)"
  then have "size (filter_mset P (mset q)) = size (filter_mset P (add_mset x (mset r)))" by simp
  then show ?thesis by (simp add: count_if_def flip: mset_filter split: if_splits)
qed

lemma answer_spends:
  "(if fst (isLegacyChallenge now ch ip op pt) \<noteq> None then 1 else 0) + pending ip op (snd (isLegacyChallenge now ch ip op pt))
     \<le> pending ip op pt"
proof -
  let ?P = "\<lambda>t. tc_ip t = ip \<and> tc_opcode t = op \<and> (tc_challenge t = setValue32 0 \<or> tc_challenge t = ch)"
  let ?q = "pop_expired tc_time kChallengeTimeout now (pt_challenges pt)"
  have le: "count_if (\<lambda>t. tc_ip t = ip \<and> tc_opcode t = op) ?q \<le> pending ip op pt"
    unfolding pending_def pop_expired_def by (rule count_if_dropWhile)
  obtain y rest where t: "take_first ?P ?q = (y, rest)" by fastforce
  show ?thesis
  proof (cases y)
    case None
    then show ?thesis using t le by (simp add: isLegacyChallenge_def Let_def pending_def)
  next
    case (Some x)
    note f = take_first_SomeD [OF t [unfolded Some]]
    then have "count_if (\<lambda>t. tc_ip t = ip \<and> tc_opcode t = op) ?q = 1 + count_if (\<lambda>t. tc_ip t = ip \<and> tc_opcode t = op) rest"
      using count_if_add_mset [of ?q x rest] by auto
    then show ?thesis using t le Some by (simp add: isLegacyChallenge_def Let_def pending_def)
  qed
qed

lemma other_answer_spends:
  "pending ip op (snd (isLegacyChallenge now ch ip' op' pt)) \<le> pending ip op pt"
proof -
  let ?P = "\<lambda>t. tc_ip t = ip' \<and> tc_opcode t = op' \<and> (tc_challenge t = setValue32 0 \<or> tc_challenge t = ch)"
  let ?q = "pop_expired tc_time kChallengeTimeout now (pt_challenges pt)"
  have le: "count_if (\<lambda>t. tc_ip t = ip \<and> tc_opcode t = op) ?q \<le> pending ip op pt"
    unfolding pending_def pop_expired_def by (rule count_if_dropWhile)
  obtain y rest where t: "take_first ?P ?q = (y, rest)" by fastforce
  show ?thesis
  proof (cases y)
    case (Some x)
    note f = take_first_SomeD [OF t [unfolded Some]]
    show ?thesis using t le Some count_if_add_mset [of ?q x rest "\<lambda>t. tc_ip t = ip \<and> tc_opcode t = op"] f
      by (auto simp: isLegacyChallenge_def Let_def pending_def split: if_splits)
  qed (use t le in \<open>simp add: isLegacyChallenge_def Let_def pending_def\<close>)
qed

lemma answers_bound: "answers l lan ip op h pt \<le> pending ip op pt + sent_challenges ip op h"
proof (induction h arbitrary: pt)
  case (Cons e h)
  obtain now x where e: "e = (now, x)" by fastforce
  have ih: "answers l lan ip op h (pt_step l lan now x pt) \<le> pending ip op (pt_step l lan now x pt) + sent_challenges ip op h"
    by (rule Cons.IH)
  show ?case
  proof (cases x)
    case (Op_onOut ip' op' d)
    have "pt_challenges (snd (isOnOutTrackList now ip' op' d pt)) = pt_challenges pt"
      by (auto simp: isOnOutTrackList_def Let_def split: prod.splits option.splits)
    then show ?thesis using ih Op_onOut by (simp add: e sent_challenges_def pending_def)
  next
    case (Op_challenge c ch ip' op')
    then show ?thesis using ih by (auto simp: e sent_challenges_def pending_def addLegacyChallenge_def)
  next
    case (Op_isChallenge ch ip' op')
    then show ?thesis
      using ih answer_spends [of now ch ip op pt] other_answer_spends [of ip op now ch ip' op' pt]
      by (auto simp: e sent_challenges_def)
  qed (use ih in \<open>auto simp: e sent_challenges_def pending_def addTrackedOutPacket_def\<close>)
qed (simp add: sent_challenges_def)

text \<open>A challenge is spent by the answer to it: in every run the answers accepted from an
  address for an opcode are at most the challenges sent to it.\<close>

theorem challenge_single_use: "answers l lan ip op h new_tracking \<le> sent_challenges ip op h"
  using answers_bound [of l lan ip op h new_tracking] by (simp add: pending_def new_tracking_def)

text \<open>The periodic cleanup can hand a full bucket to an address that has used up its own: the
  entry of one that is down to nothing is already dropped when it holds the cost of a packet.\<close>

theorem cleanup_refills_early:
  "let r = run_in 8 (\<lambda>_. False) (map (\<lambda>t. \<lparr>ic_now = t, ic_ip = 7, ic_op = KADEMLIA2_REQ\<rparr>)
        [665000, 668000, 671000, 674000, 677000, 680000, 683000, 686000, 689000, 692000,
          695000, 698000, 701000, 704000, 707000, 710000, 713000, 716000, 719000]) new_tracking
   in list_all (\<lambda>v. v = 0) (fst r) \<and> level 7 KADEMLIA2_REQ 725000 (snd r) = 6000 \<and>
      level 7 KADEMLIA2_REQ 725000 (inTrackListCleanup 725000 (snd r)) = kTokenBucketMax"
  by (simp add: eval_run level_def bucket_def)

end
