(* ===== verification/Block_Runs.thy ===== *)
theory Block_Runs
  imports Prelude
begin

text \<open>
  Block bitmaps as run lengths (src/core/utils/BlockRuns.cpp): the varint writer and
  reader on 64-bit words, the run-length codec and the flat byte ranges.  The loops over
  an index are recursions on the part of the bitmap or of the bytes still to be read.
\<close>

definition kMaxBlockRunBits :: nat where
  "kMaxBlockRunBits = 2 ^ 24"

section \<open>The codec\<close>

function putVarint :: "u64 \<Rightarrow> u8 list" where
  "putVarint v =
     (if v \<ge> 0x80 then (ucast v OR 0x80) # putVarint (drop_bit 7 v)
      else [ucast v])"
  by pat_completeness auto
termination
  by (relation "measure unat") (auto simp: word_le_nat_alt drop_bit_eq_div unat_div)

declare putVarint.simps [simp del]

function encode_runs :: "bool \<Rightarrow> bool list \<Rightarrow> u8 list" where
  "encode_runs val bits =
     (if bits = [] then []
      else let run = length (takeWhile (\<lambda>b. b = val) bits)
           in putVarint (of_nat run) @ encode_runs (\<not> val) (drop run bits))"
  by pat_completeness auto
termination
proof (relation "measure (\<lambda>(val, bits). 2 * length bits + (if bits \<noteq> [] \<and> hd bits \<noteq> val then 1 else 0))")
  fix val :: bool and bits run
  assume "bits \<noteq> []" "run = length (takeWhile (\<lambda>b. b = val) bits)"
  then show "((\<not> val, drop run bits), val, bits) \<in>
      measure (\<lambda>(val, bits). 2 * length bits + (if bits \<noteq> [] \<and> hd bits \<noteq> val then 1 else 0))"
    by (cases bits) (auto simp: length_takeWhile_le less_Suc_eq_le)
qed simp

declare encode_runs.simps [simp del]

definition encodeBlockRuns :: "bool list \<Rightarrow> u8 list" where
  "encodeBlockRuns bits = encode_runs True bits"

fun getVarint :: "u64 \<Rightarrow> nat \<Rightarrow> u8 list \<Rightarrow> (u64 \<times> u8 list) option" where
  "getVarint run shift [] = None"
| "getVarint run shift (b # bs) =
     (if shift > 35 then None
      else let run' = run OR push_bit shift (ucast (b AND 0x7F))
           in if b AND 0x80 = 0 then Some (run', bs) else getVarint run' (shift + 7) bs)"

lemma getVarint_shorter: "getVarint run shift bs = Some (run', bs') \<Longrightarrow> length bs' < length bs"
  by (induction run shift bs rule: getVarint.induct) (auto simp: Let_def split: if_splits)

function decode_runs :: "nat \<Rightarrow> bool \<Rightarrow> bool list \<Rightarrow> u8 list \<Rightarrow> bool list option" where
  "decode_runs want val bits bs =
     (if bs = [] then (if length bits \<noteq> want then None else Some bits)
      else case getVarint 0 0 bs of
             None \<Rightarrow> None
           | Some (run, bs') \<Rightarrow>
               if unat run > want - length bits then None
               else decode_runs want (\<not> val) (bits @ replicate (unat run) val) bs')"
  by pat_completeness auto
termination by (relation "measure (\<lambda>(c, v, bits, bs). length bs)") (auto dest: getVarint_shorter)

declare decode_runs.simps [simp del]

definition decodeBlockRuns :: "u8 list \<Rightarrow> nat \<Rightarrow> bool list option" where
  "decodeBlockRuns runs want =
     (if want > kMaxBlockRunBits then None else decode_runs want True [] runs)"

text \<open>The arithmetic of the ranges is that of signed 64-bit offsets that do not overflow.\<close>

function ranges :: "nat \<Rightarrow> bool list \<Rightarrow> bool \<Rightarrow> int \<Rightarrow> int \<Rightarrow> int list" where
  "ranges i bits val blockSize fileSize =
     (case bits of
        [] \<Rightarrow> []
      | b # rest \<Rightarrow>
          if b \<noteq> val then ranges (i + 1) rest val blockSize fileSize
          else
            let run = length (takeWhile (\<lambda>b. b = val) bits);
                start = int i * blockSize
            in if start \<ge> fileSize then []
               else [start, min fileSize (int (i + run) * blockSize) - 1]
                    @ ranges (i + run) (drop run bits) val blockSize fileSize)"
  by pat_completeness auto
termination
  by (relation "measure (\<lambda>(i, bits, _). length bits)") auto

declare ranges.simps [simp del]

definition blockRanges :: "bool list \<Rightarrow> bool \<Rightarrow> int \<Rightarrow> int \<Rightarrow> int list" where
  "blockRanges bits val blockSize fileSize =
     (if blockSize \<le> 0 \<or> fileSize \<le> 0 then [] else ranges 0 bits val blockSize fileSize)"

section \<open>Round trip\<close>

lemma low_bits: "ucast ((ucast v OR 0x80 :: u8) AND 0x7F) = (v AND 0x7F :: u64)"
  "ucast ((ucast v :: u8) AND 0x7F) = (v AND 0x7F :: u64)"
  by (rule bit_word_eqI, auto simp: bit_simps numeral_eq_Suc less_Suc_eq)+

lemma high_bit: "(ucast v OR 0x80 :: u8) AND 0x80 \<noteq> 0"
proof -
  have "bit ((ucast v OR 0x80 :: u8) AND 0x80) 7" by (simp add: bit_simps)
  then show ?thesis by (metis bit_0_eq bot_apply bot_bool_def)
qed

lemma small_drop: "(v :: u64) < 0x80 \<Longrightarrow> drop_bit 7 v = 0"
  by (simp add: word_less_nat_alt word_eq_iff_unsigned drop_bit_eq_div unat_div flip: unat_eq_zero)

lemma no_high_bit: "v < 0x80 \<Longrightarrow> (ucast (v :: u64) :: u8) AND 0x80 = 0"
proof -
  assume "v < 0x80"
  then have "\<not> bit v 7" using small_drop [of v] by (simp add: bit_iff_odd_drop_bit)
  moreover have b: "bit (0x80 :: u8) n \<longleftrightarrow> n = 7" for n
    using bit_exp_iff [where 'a = u8, of 7 n] by auto
  ultimately have "bit ((ucast v :: u8) AND 0x80) n = bit (0 :: u8) n" for n
    unfolding bit_and_iff b bit_ucast_iff by auto
  then show ?thesis by (intro bit_word_eqI)
qed

lemma push_bit_split:
  "push_bit s (v AND 0x7F) OR push_bit (s + 7) (drop_bit 7 v) = push_bit s (v :: u64)"
proof -
  have "(0x7F :: u64) = mask 7" by (simp add: mask_eq_exp_minus_1)
  then have "v AND 0x7F = take_bit 7 v" by (simp only: take_bit_eq_mask)
  moreover have "bit (push_bit s (take_bit 7 v) OR push_bit (s + 7) (drop_bit 7 v)) n = bit (push_bit s v) n" for n
  proof (cases "n - s < 7")
    case False
    then have "7 + (n - (s + 7)) = n - s" "s + 7 \<le> n" by simp_all
    then show ?thesis by (auto simp: bit_or_iff bit_push_bit_iff bit_take_bit_iff bit_drop_bit_eq)
  qed (auto simp: bit_or_iff bit_push_bit_iff bit_take_bit_iff bit_drop_bit_eq)
  ultimately show ?thesis by (metis bit_word_eqI)
qed

lemma getVarint_putVarint:
  "unat v < 2 ^ (42 - 7 * j) \<Longrightarrow> j \<le> 5 \<Longrightarrow>
     getVarint run (7 * j) (putVarint v @ bs) = Some (run OR push_bit (7 * j) v, bs)"
proof (induction v arbitrary: run j rule: putVarint.induct)
  case (1 v)
  show ?case
  proof (cases "v \<ge> 0x80")
    case True
    have big: "2 ^ 7 \<le> unat v" using True by (simp add: word_le_nat_alt)
    have j: "j < 5"
    proof (rule ccontr)
      assume "\<not> j < 5"
      then have "j = 5" using "1.prems"(2) by simp
      then show False using "1.prems"(1) big by simp
    qed
    have "unat (drop_bit 7 v) = unat v div 2 ^ 7" by (simp add: drop_bit_eq_div unat_div)
    moreover have "(2::nat) ^ (42 - 7 * j) = 2 ^ (42 - 7 * (j + 1)) * 2 ^ 7"
  proof -
    have "42 - 7 * j = (42 - 7 * (j + 1)) + 7" using j by simp
    then show ?thesis by (metis power_add)
  qed
    ultimately have small: "unat (drop_bit 7 v) < 2 ^ (42 - 7 * (j + 1))"
      using "1.prems"(1) by (simp only: less_mult_imp_div_less)
    have "getVarint run (7 * j) (putVarint v @ bs) =
        getVarint (run OR push_bit (7 * j) (v AND 0x7F)) (7 * (j + 1)) (putVarint (drop_bit 7 v) @ bs)"
      using True j high_bit [of v] by (simp add: putVarint.simps [of v] low_bits(1) Let_def add.commute)
    also have "\<dots> = Some ((run OR push_bit (7 * j) (v AND 0x7F)) OR push_bit (7 * (j + 1)) (drop_bit 7 v), bs)"
      using j by (intro "1.IH" [OF True small]) simp
    also have "\<dots> = Some (run OR push_bit (7 * j) v, bs)"
      using push_bit_split [of "7 * j" v] by (simp add: or.assoc add.commute)
    finally show ?thesis .
  next
    case False
    then have v: "v < 0x80" by simp
    have "v AND 0x7F = v" using push_bit_split [of 0 v] small_drop [OF v] by simp
    then show ?thesis
      using False "1.prems"(2) no_high_bit [OF v] by (simp add: putVarint.simps [of v] low_bits(2) Let_def)
  qed
qed

lemma takeWhile_run: "takeWhile (\<lambda>b. b = x) bs = replicate (length (takeWhile (\<lambda>b. b = x) bs)) x"
  by (induction bs) auto

lemma run_append: "replicate (length (takeWhile (\<lambda>b. b = x) bs)) x @ drop (length (takeWhile (\<lambda>b. b = x) bs)) bs = bs"
  by (metis takeWhile_run takeWhile_dropWhile_id dropWhile_eq_drop)

lemma putVarint_not_Nil [simp]: "putVarint v \<noteq> []"
  by (simp add: putVarint.simps [of v])

lemma decode_encode_runs:
  "length pre + length bits \<le> kMaxBlockRunBits \<Longrightarrow>
     decode_runs (length pre + length bits) val pre (encode_runs val bits) = Some (pre @ bits)"
proof (induction val bits arbitrary: pre rule: encode_runs.induct)
  case (1 val bits)
  show ?case
  proof (cases "bits = []")
    case True
    then show ?thesis by (simp add: encode_runs.simps [of val] decode_runs.simps [of _ _ _ "[]"])
  next
    case False
    define run where "run = length (takeWhile (\<lambda>b. b = val) bits)"
    have run: "run \<le> length bits" by (simp add: run_def length_takeWhile_le)
    then have small: "run < 2 ^ 42" using "1.prems" by (simp add: kMaxBlockRunBits_def)
    have un: "unat (of_nat run :: u64) = run" using small by (simp add: unat_of_nat take_bit_nat_eq_self)
    have bits: "replicate run val @ drop run bits = bits" by (simp add: run_def run_append)
    let ?rest = "encode_runs (\<not> val) (drop run bits)"
    have enc: "encode_runs val bits = putVarint (of_nat run) @ ?rest"
      using False by (simp add: encode_runs.simps [of val] run_def Let_def)
    have get: "getVarint 0 0 (putVarint (of_nat run) @ ?rest) = Some (of_nat run, ?rest)"
      using getVarint_putVarint [of "of_nat run" 0 0 ?rest] small un by simp
    have len: "length (pre @ replicate run val) + length (drop run bits) = length pre + length bits"
      using run by simp
    have "decode_runs (length pre + length bits) val pre (encode_runs val bits) =
        decode_runs (length pre + length bits) (\<not> val) (pre @ replicate run val) ?rest"
      using run get un by (subst decode_runs.simps) (simp add: enc)
    also have "\<dots> = Some ((pre @ replicate run val) @ drop run bits)"
      using "1.IH" [OF False run_def, of "pre @ replicate run val"] "1.prems" unfolding len by blast
    finally show ?thesis using bits by simp
  qed
qed

lemma decode_runs_length:
  "decode_runs want val pre bs = Some bits \<Longrightarrow> length bits = want \<and> (\<exists>post. bits = pre @ post)"
proof (induction want val pre bs rule: decode_runs.induct)
  case (1 want val pre bs)
  then show ?case
    by (fastforce simp: decode_runs.simps [of want val pre bs] split: if_splits option.splits prod.splits)
qed

section \<open>Ranges\<close>

fun covers :: "int list \<Rightarrow> int \<Rightarrow> bool" where
  "covers (a # b # rest) x \<longleftrightarrow> a \<le> x \<and> x \<le> b \<or> covers rest x"
| "covers _ x \<longleftrightarrow> False"

text \<open>Flat inclusive ranges in ascending order with a gap between any two, inside the file.\<close>

fun ranges_ok :: "int \<Rightarrow> int \<Rightarrow> int list \<Rightarrow> bool" where
  "ranges_ok lo fileSize [] \<longleftrightarrow> True"
| "ranges_ok lo fileSize [a] \<longleftrightarrow> False"
| "ranges_ok lo fileSize (a # b # rest) \<longleftrightarrow> lo \<le> a \<and> a \<le> b \<and> b < fileSize \<and> ranges_ok (b + 2) fileSize rest"


lemma ranges_ok_mono: "lo' \<le> lo \<Longrightarrow> ranges_ok lo fileSize rs \<Longrightarrow> ranges_ok lo' fileSize rs"
  by (cases "(lo, fileSize, rs)" rule: ranges_ok.cases) auto

lemma div_block: "0 < B \<Longrightarrow> a * B \<le> x \<longleftrightarrow> a \<le> x div (B :: int)"
proof
  assume B: "0 < B"
  show "a \<le> x div B" if "a * B \<le> x" using zdiv_mono1 [OF that B] B by simp
  show "a * B \<le> x" if "a \<le> x div B"
    using mult_right_mono [OF that, of B] B pos_mod_sign [OF B, of x] div_mult_mod_eq [of x B] by linarith
qed

lemma ranges_skip: "bits = b # rest \<Longrightarrow> b \<noteq> val \<Longrightarrow> ranges i bits val B F = ranges (i + 1) rest val B F"
  by (subst ranges.simps) simp

lemma ranges_run:
  assumes "bits = b # rest" "b = val" "run = length (takeWhile (\<lambda>b. b = val) bits)"
  shows "ranges i bits val B F =
    (if int i * B \<ge> F then []
     else int i * B # (min F (int (i + run) * B) - 1) # ranges (i + run) (drop run bits) val B F)"
  using assms by (subst ranges.simps) (simp add: Let_def)

lemma ranges_ranges_ok:
  "0 < B \<Longrightarrow> lo \<le> int i * B \<or> (bits = [] \<or> hd bits \<noteq> val) \<and> lo \<le> int (i + 1) * B \<Longrightarrow>
     ranges_ok lo F (ranges i bits val B F)"
proof (induction i bits val B F arbitrary: lo rule: ranges.induct)
  case (1 i bits val B F)
  show ?case
  proof (cases bits)
    case Nil
    then show ?thesis by (simp add: ranges.simps [of i])
  next
    case (Cons b rest)
    have step: "int i * B \<le> int (i + 1) * B" using "1.prems"(1) by (simp add: algebra_simps)
    show ?thesis
    proof (cases "b = val")
      case False
      then have "lo \<le> int (i + 1) * B" using "1.prems"(2) step by linarith
      then have "ranges_ok lo F (ranges (i + 1) rest val B F)"
        by (intro "1.IH"(1) [OF Cons False "1.prems"(1)]) simp
      then show ?thesis unfolding ranges_skip [OF Cons False] .
    next
      case True
      define run where "run = length (takeWhile (\<lambda>b. b = val) bits)"
      let ?start = "int i * B" and ?stop = "min F (int (i + run) * B) - 1"
      have run: "run > 0" using True Cons by (simp add: run_def)
      have lo: "lo \<le> ?start" using "1.prems"(2) True Cons by simp
      have ne: "drop run bits = [] \<or> hd (drop run bits) \<noteq> val"
        using hd_dropWhile [of "\<lambda>b. b = val" bits] by (auto simp: run_def dropWhile_eq_drop)
      show ?thesis
      proof (cases "?start \<ge> F")
        case True
        then show ?thesis unfolding ranges_run [OF Cons \<open>b = val\<close> run_def] by simp
      next
        case False
        have "int (i + run) * B \<ge> ?start + B"
          using mult_right_mono [of "int (i + 1)" "int (i + run)" B] run "1.prems"(1)
          by (simp add: algebra_simps)
        then have "?start < int (i + run) * B" using "1.prems"(1) by linarith
        then have "?start < min F (int (i + run) * B)" using False by (simp only: min_less_iff_conj not_le)
        moreover have "min F (int (i + run) * B) \<le> F" by simp
        ultimately have r1: "?start \<le> ?stop" "?stop < F" by linarith+
        have "?stop + 2 \<le> int (i + run + 1) * B"
        proof -
          have "?stop + 1 \<le> int (i + run) * B" by simp
          moreover have "int (i + run + 1) * B = int (i + run) * B + B" by (simp add: algebra_simps)
          ultimately show ?thesis using "1.prems"(1) by linarith
        qed
        then have "ranges_ok (?stop + 2) F (ranges (i + run) (drop run bits) val B F)"
          using "1.IH"(2) [OF Cons _ run_def refl False "1.prems"(1), of "?stop + 2"] ne True by blast
        then show ?thesis
          unfolding ranges_run [OF Cons True run_def] using False lo r1 by simp
      qed
    qed
  qed
qed

lemma ranges_covers:
  "0 < B \<Longrightarrow> covers (ranges i bits val B F) x \<longleftrightarrow>
     x < F \<and> int i \<le> x div B \<and> x div B < int (i + length bits) \<and> bits ! nat (x div B - int i) = val"
proof (induction i bits val B F rule: ranges.induct)
  case (1 i bits val B F)
  show ?case
  proof (cases bits)
    case Nil
    then show ?thesis by (simp add: ranges.simps [of i])
  next
    case (Cons b rest)
    show ?thesis
    proof (cases "b = val")
      case False
      have nat: "nat (x div B - int i) = (if x div B = int i then 0 else Suc (nat (x div B - int (i + 1))))"
        if "int i \<le> x div B" using that by (simp add: Suc_nat_eq_nat_zadd1)
      have "covers (ranges (i + 1) rest val B F) x \<longleftrightarrow>
        x < F \<and> int (i + 1) \<le> x div B \<and> x div B < int (i + 1 + length rest) \<and> rest ! nat (x div B - int (i + 1)) = val"
        by (rule "1.IH"(1) [OF Cons False "1.prems"])
      then show ?thesis using False nat
        unfolding ranges_skip [OF Cons False] by (cases "x div B = int i") (auto simp: Cons)
    next
      case True
      define run where "run = length (takeWhile (\<lambda>b. b = val) bits)"
      let ?k = "x div B - int i"
      have bits: "bits = replicate run val @ drop run bits" by (simp add: run_def run_append)
      have len: "run \<le> length bits" by (simp add: run_def length_takeWhile_le)
      have s: "int i * B \<le> x \<longleftrightarrow> int i \<le> x div B" by (rule div_block [OF "1.prems"])
      have e: "int (i + run) * B \<le> x \<longleftrightarrow> int (i + run) \<le> x div B" by (rule div_block [OF "1.prems"])
      show ?thesis
      proof (cases "int i * B \<ge> F")
        case True
        then show ?thesis unfolding ranges_run [OF Cons \<open>b = val\<close> run_def] using s by auto
      next
        case False
        have ih: "covers (ranges (i + run) (drop run bits) val B F) x \<longleftrightarrow>
            x < F \<and> int (i + run) \<le> x div B \<and> x div B < int (i + run + length (drop run bits)) \<and>
            drop run bits ! nat (x div B - int (i + run)) = val"
          using "1.IH"(2) [OF Cons _ run_def refl False "1.prems"] True by blast
        have at: "bits ! nat ?k = val" if "int i \<le> x div B" "x div B < int (i + run)"
        proof -
          have "nat ?k < run" using that by linarith
          then show ?thesis by (subst bits) (simp add: nth_append)
        qed
        have off: "drop run bits ! nat (x div B - int (i + run)) = bits ! nat ?k"
          if "int (i + run) \<le> x div B"
        proof -
          have "nat ?k = run + nat (x div B - int (i + run))" using that by linarith
          then show ?thesis using len by simp
        qed
        have "covers (ranges i bits val B F) x \<longleftrightarrow>
            int i * B \<le> x \<and> x \<le> min F (int (i + run) * B) - 1 \<or> covers (ranges (i + run) (drop run bits) val B F) x"
          unfolding ranges_run [OF Cons True run_def] using False by simp
        also have "\<dots> \<longleftrightarrow> x < F \<and> int i \<le> x div B \<and> (x div B < int (i + run) \<or>
            int (i + run) \<le> x div B \<and> x div B < int (i + length bits) \<and> bits ! nat ?k = val)"
          unfolding ih using s e off len by auto
        also have "\<dots> \<longleftrightarrow> x < F \<and> int i \<le> x div B \<and> x div B < int (i + length bits) \<and> bits ! nat ?k = val"
          using at len by (cases "x div B < int (i + run)") auto
        finally show ?thesis .
      qed
    qed
  qed
qed

section \<open>Properties\<close>

text \<open>Decoding an encoded block bitmap gives it back, for every bitmap of up to 16 Mi blocks.\<close>

theorem block_runs_roundtrip:
  "length bits \<le> kMaxBlockRunBits \<Longrightarrow> decodeBlockRuns (encodeBlockRuns bits) (length bits) = Some bits"
  using decode_encode_runs [of "[]" bits True] by (simp add: decodeBlockRuns_def encodeBlockRuns_def)

text \<open>Whatever bytes arrive, a bitmap that decodes has exactly the announced number of blocks,
  which is never above the limit.\<close>

theorem block_runs_bounded:
  "decodeBlockRuns bytes n = Some bits \<Longrightarrow> length bits = n \<and> n \<le> kMaxBlockRunBits"
  using decode_runs_length [of n True "[]" bytes bits] by (simp add: decodeBlockRuns_def split: if_splits)

text \<open>The byte ranges of the blocks with a given bit cover exactly those bytes of the file, in
  order, without overlap and without touching each other.\<close>

theorem block_ranges_exact:
  assumes "0 < blockSize" "0 < fileSize" "0 \<le> x"
  shows "ranges_ok 0 fileSize (blockRanges bits val blockSize fileSize) \<and>
    (covers (blockRanges bits val blockSize fileSize) x \<longleftrightarrow>
      x < fileSize \<and> x div blockSize < int (length bits) \<and> bits ! nat (x div blockSize) = val)"
  using ranges_ranges_ok [OF assms(1), of 0 0 bits val fileSize]
    ranges_covers [OF assms(1), of 0 bits val fileSize x] assms
  by (simp add: blockRanges_def pos_imp_zdiv_nonneg_iff)

end
