(* ===== verification/Buddy_Relay.thy ===== *)
theory Buddy_Relay
  imports Net_Address
begin

text \<open>
  The requester's mirror of the limits of a Kad buddy relay
  (src/core/client/BuddyRelayBudget.cpp): a sliding window per served buddy and a token
  bucket per relay address.  Ticks are 64-bit milliseconds whose difference wraps.
\<close>

definition kMaxBuddyRelaysPerMin :: nat where
  "kMaxBuddyRelaysPerMin = 60"

definition kDefaultMaxServedBuddies :: int where
  "kDefaultMaxServedBuddies = 8"

definition kWindow :: u64 where
  "kWindow = 60000"

definition kBucketMax :: int where
  "kBucketMax = 60000"

definition kCallbackCost :: int where
  "kCallbackCost = kBucketMax div kDefaultMaxServedBuddies"

datatype relay_request = KadCallback | ReaskCallback

record caller_bucket =
  cb_tokens :: int
  cb_latest :: u64

type_synonym buddy_id = "u8 list"

record relay_budget =
  rb_buckets :: "address \<rightharpoonup> caller_bucket"
  rb_sends :: "buddy_id \<rightharpoonup> u64 list"
  rb_lastPrune :: u64

definition empty_budget :: relay_budget where
  "empty_budget = \<lparr>rb_buckets = Map.empty, rb_sends = Map.empty, rb_lastPrune = 0\<rparr>"

definition prune :: "u64 \<Rightarrow> relay_budget \<Rightarrow> relay_budget" where
  "prune now rb = rb\<lparr>rb_lastPrune := now,
     rb_buckets := (\<lambda>a. case rb_buckets rb a of None \<Rightarrow> None
                        | Some b \<Rightarrow> if now - cb_latest b \<ge> kWindow then None else Some b),
     rb_sends := (\<lambda>i. case rb_sends rb i of None \<Rightarrow> None
                      | Some d \<Rightarrow> if d = [] \<or> now - last d \<ge> kWindow then None else Some d)\<rparr>"

definition pop_old :: "u64 \<Rightarrow> u64 list \<Rightarrow> u64 list" where
  "pop_old now d = dropWhile (\<lambda>t. now - t \<ge> kWindow) d"

text \<open>The token bucket of one relay: refilled by real time, capped, charged if it holds enough.\<close>

definition charge_bucket :: "address \<Rightarrow> u64 \<Rightarrow> relay_budget \<Rightarrow> bool \<times> relay_budget" where
  "charge_bucket key now rb =
     (let b = (case rb_buckets rb key of
                 None \<Rightarrow> \<lparr>cb_tokens = kBucketMax, cb_latest = now\<rparr>
               | Some b \<Rightarrow> \<lparr>cb_tokens = min kBucketMax (cb_tokens b + sint (now - cb_latest b)), cb_latest = now\<rparr>)
      in if cb_tokens b < kCallbackCost
         then (False, rb\<lparr>rb_buckets := (rb_buckets rb)(key \<mapsto> b)\<rparr>)
         else (True, rb\<lparr>rb_buckets := (rb_buckets rb)(key \<mapsto> b\<lparr>cb_tokens := cb_tokens b - kCallbackCost\<rparr>)\<rparr>))"

definition tryCharge ::
  "address \<Rightarrow> buddy_id option \<Rightarrow> relay_request \<Rightarrow> u64 \<Rightarrow> relay_budget \<Rightarrow> bool \<times> relay_budget" where
  "tryCharge relay buddyID kind now rb =
     (case buddyID of
        None \<Rightarrow> (False, rb)
      | Some i \<Rightarrow>
          let rb1 = (if now - rb_lastPrune rb \<ge> kWindow then prune now rb else rb);
              d = pop_old now (case rb_sends rb1 i of None \<Rightarrow> [] | Some d \<Rightarrow> d);
              rb2 = rb1\<lparr>rb_sends := (rb_sends rb1)(i \<mapsto> d)\<rparr>
          in if length d \<ge> kMaxBuddyRelaysPerMin then (False, rb2)
             else case (if kind = KadCallback then charge_bucket (peerKey relay) now rb2 else (True, rb2)) of
                    (ok, rb3) \<Rightarrow>
                      if \<not> ok then (False, rb3)
                      else (True, rb3\<lparr>rb_sends := (rb_sends rb3)(i \<mapsto> d @ [now])\<rparr>))"

definition clear_budget :: "relay_budget \<Rightarrow> relay_budget" where
  "clear_budget rb = rb\<lparr>rb_buckets := Map.empty, rb_sends := Map.empty, rb_lastPrune := 0\<rparr>"

section \<open>The window\<close>

record relay_call =
  rc_relay :: address
  rc_buddy :: buddy_id
  rc_kind :: relay_request
  rc_now :: u64

text \<open>A run of calls, with the log of what was charged.\<close>

fun run_calls :: "relay_call list \<Rightarrow> relay_budget \<Rightarrow> (buddy_id \<times> u64) list \<times> relay_budget" where
  "run_calls [] rb = ([], rb)"
| "run_calls (c # cs) rb =
     (case tryCharge (rc_relay c) (Some (rc_buddy c)) (rc_kind c) (rc_now c) rb of
        (ok, rb') \<Rightarrow> case run_calls cs rb' of
          (log, rb'') \<Rightarrow> (if ok then (rc_buddy c, rc_now c) # log else log, rb''))"

definition deque :: "relay_budget \<Rightarrow> buddy_id \<Rightarrow> u64 list" where
  "deque rb i = (case rb_sends rb i of None \<Rightarrow> [] | Some d \<Rightarrow> d)"

definition times :: "buddy_id \<Rightarrow> (buddy_id \<times> u64) list \<Rightarrow> nat list" where
  "times i log = map (unat \<circ> snd) (filter (\<lambda>e. fst e = i) log)"

definition in_window :: "nat \<Rightarrow> nat list \<Rightarrow> nat" where
  "in_window T ts = count_if (\<lambda>t. T \<le> t \<and> t < T + 60000) ts"

text \<open>What was charged to a buddy and is no longer in its deque is a full window old.\<close>

definition window_ok :: "nat \<Rightarrow> (buddy_id \<times> u64) list \<Rightarrow> relay_budget \<Rightarrow> bool" where
  "window_ok now log rb \<longleftrightarrow> (\<forall>i. \<exists>pre.
     times i log = pre @ map unat (deque rb i) \<and> sorted (times i log) \<and> (\<forall>t \<in> set pre. t + 60000 \<le> now) \<and>
     (\<forall>t \<in> set (times i log). t \<le> now) \<and> (\<forall>T. in_window T (times i log) \<le> kMaxBuddyRelaysPerMin))"

lemma old_iff: "unat t \<le> unat now \<Longrightarrow> now - t \<ge> kWindow \<longleftrightarrow> unat t + 60000 \<le> unat now"
proof -
  assume t: "unat t \<le> unat now"
  have "unat kWindow = 60000" by (simp add: kWindow_def)
  moreover have "unat (now - t) = unat now - unat t" using t by (simp add: unat_sub word_le_nat_alt)
  ultimately show ?thesis using t by (simp only: word_le_nat_alt) linarith
qed

lemma window_ok_parts:
  assumes "window_ok now log rb"
  shows "\<exists>pre. times i log = pre @ map unat (deque rb i) \<and> (\<forall>t \<in> set pre. t + 60000 \<le> now)"
    "sorted (times i log)" "t \<in> set (times i log) \<Longrightarrow> t \<le> now"
    "in_window T (times i log) \<le> kMaxBuddyRelaysPerMin" "u \<in> set (deque rb i) \<Longrightarrow> unat u \<le> now"
proof -
  obtain pre where p: "times i log = pre @ map unat (deque rb i)" "sorted (times i log)"
    "\<forall>t \<in> set pre. t + 60000 \<le> now" "\<forall>t \<in> set (times i log). t \<le> now"
    "\<forall>T. in_window T (times i log) \<le> kMaxBuddyRelaysPerMin"
    using assms unfolding window_ok_def by blast
  then show "\<exists>pre. times i log = pre @ map unat (deque rb i) \<and> (\<forall>t \<in> set pre. t + 60000 \<le> now)"
    "sorted (times i log)" "t \<in> set (times i log) \<Longrightarrow> t \<le> now"
    "in_window T (times i log) \<le> kMaxBuddyRelaysPerMin" by blast+
  show "u \<in> set (deque rb i) \<Longrightarrow> unat u \<le> now" using p(1,4) by auto
qed

lemma window_ok_shrink:
  assumes "window_ok now log rb" "now \<le> now'"
    and "\<And>i. \<exists>pre. deque rb i = pre @ deque rb' i \<and> (\<forall>t \<in> set pre. unat t + 60000 \<le> now')"
  shows "window_ok now' log rb'"
  unfolding window_ok_def
proof
  fix i
  note w = window_ok_parts [OF assms(1)]
  obtain p where p: "times i log = p @ map unat (deque rb i)" "\<forall>t \<in> set p. t + 60000 \<le> now" using w(1) by blast
  obtain q where q: "deque rb i = q @ deque rb' i" "\<forall>t \<in> set q. unat t + 60000 \<le> now'" using assms(3) by blast
  have "times i log = (p @ map unat q) @ map unat (deque rb' i)" by (simp add: p(1) q(1))
  moreover have "\<forall>t \<in> set (p @ map unat q). t + 60000 \<le> now'" using p(2) q(2) assms(2) by fastforce
  moreover have "\<forall>t \<in> set (times i log). t \<le> now'" using w(3) assms(2) le_trans by blast
  ultimately show "\<exists>pre. times i log = pre @ map unat (deque rb' i) \<and> sorted (times i log) \<and>
     (\<forall>t \<in> set pre. t + 60000 \<le> now') \<and> (\<forall>t \<in> set (times i log). t \<le> now') \<and>
     (\<forall>T. in_window T (times i log) \<le> kMaxBuddyRelaysPerMin)"
    using w(2,4) by blast
qed

lemma deque_sorted: "window_ok now log rb \<Longrightarrow> sorted (map unat (deque rb i))"
  using window_ok_parts(1,2) [of now log rb i] by (metis sorted_append)

lemma window_ok_prune:
  assumes "window_ok (unat now) log rb"
  shows "window_ok (unat now) log (prune now rb)"
proof (rule window_ok_shrink [OF assms order_refl])
  fix i
  show "\<exists>pre. deque rb i = pre @ deque (prune now rb) i \<and> (\<forall>t \<in> set pre. unat t + 60000 \<le> unat now)"
  proof (cases "deque rb i \<noteq> [] \<and> now - last (deque rb i) \<ge> kWindow")
    case False
    then have "deque (prune now rb) i = deque rb i"
      by (auto simp: deque_def prune_def split: option.splits)
    then show ?thesis by simp
  next
    case True
    let ?d = "deque rb i"
    have e: "deque (prune now rb) i = []" using True by (auto simp: deque_def prune_def split: option.splits)
    have l: "last ?d \<in> set ?d" using True by simp
    have "unat (last ?d) + 60000 \<le> unat now"
      using True old_iff [OF window_ok_parts(5) [OF assms l]] by simp
    moreover have "unat t \<le> unat (last ?d)" if "t \<in> set ?d" for t
    proof -
      have "?d = butlast ?d @ [last ?d]" using True by simp
      then have "sorted (map unat (butlast ?d @ [last ?d]))" using deque_sorted [OF assms, of i] by simp
      then have "\<forall>t \<in> set (butlast ?d). unat t \<le> unat (last ?d)" by (simp add: sorted_append)
      moreover have "t \<in> set (butlast ?d @ [last ?d])" using that True by simp
      ultimately show ?thesis by auto
    qed
    ultimately show ?thesis using e by (intro exI [of _ ?d]) fastforce
  qed
qed

lemma window_ok_set:
  assumes "window_ok (unat now) log rb"
  shows "window_ok (unat now) log (rb\<lparr>rb_sends := (rb_sends rb)(i \<mapsto> pop_old now (deque rb i))\<rparr>)"
proof (rule window_ok_shrink [OF assms order_refl])
  fix j
  let ?rb = "rb\<lparr>rb_sends := (rb_sends rb)(i \<mapsto> pop_old now (deque rb i))\<rparr>"
  show "\<exists>pre. deque rb j = pre @ deque ?rb j \<and> (\<forall>t \<in> set pre. unat t + 60000 \<le> unat now)"
  proof (cases "j = i")
    case False
    then show ?thesis by (simp add: deque_def)
  next
    case True
    let ?pre = "takeWhile (\<lambda>t. now - t \<ge> kWindow) (deque rb i)"
    have "unat t + 60000 \<le> unat now" if "t \<in> set ?pre" for t
      using set_takeWhileD [OF that] old_iff window_ok_parts(5) [OF assms] by blast
    moreover have "deque ?rb i = dropWhile (\<lambda>t. now - t \<ge> kWindow) (deque rb i)"
      by (simp add: deque_def pop_old_def)
    then have "deque rb i = ?pre @ deque ?rb i" by (simp only: takeWhile_dropWhile_id)
    ultimately show ?thesis using True by blast
  qed
qed

lemma window_ok_buckets [simp]:
  "window_ok now log (rb\<lparr>rb_buckets := m\<rparr>) = window_ok now log rb"
  by (simp add: window_ok_def deque_def)

lemma charge_bucket_sends: "charge_bucket k now rb = (ok, rb') \<Longrightarrow> \<exists>m. rb' = rb\<lparr>rb_buckets := m\<rparr>"
  by (auto simp: charge_bucket_def Let_def split: if_splits)

lemma window_ok_charge:
  assumes "window_ok (unat now) log rb" "length (deque rb i) < kMaxBuddyRelaysPerMin"
  shows "window_ok (unat now) (log @ [(i, now)]) (rb\<lparr>rb_sends := (rb_sends rb)(i \<mapsto> deque rb i @ [now])\<rparr>)"
  unfolding window_ok_def
proof
  fix j
  let ?rb = "rb\<lparr>rb_sends := (rb_sends rb)(i \<mapsto> deque rb i @ [now])\<rparr>" and ?log = "log @ [(i, now)]"
  note w = window_ok_parts [OF assms(1)]
  obtain pre where p: "times j log = pre @ map unat (deque rb j)" "\<forall>t \<in> set pre. t + 60000 \<le> unat now"
    using w(1) by blast
  show "\<exists>pre. times j ?log = pre @ map unat (deque ?rb j) \<and> sorted (times j ?log) \<and>
     (\<forall>t \<in> set pre. t + 60000 \<le> unat now) \<and> (\<forall>t \<in> set (times j ?log). t \<le> unat now) \<and>
     (\<forall>T. in_window T (times j ?log) \<le> kMaxBuddyRelaysPerMin)"
  proof (cases "j = i")
    case False
    then have t: "times j ?log = times j log" "deque ?rb j = deque rb j" by (simp_all add: times_def deque_def)
    show ?thesis unfolding t using p w(2) [of j] w(3,4) by blast
  next
    case True
    have t: "times j ?log = times j log @ [unat now]" using True by (simp add: times_def)
    have "in_window T (times j log @ [unat now]) \<le> kMaxBuddyRelaysPerMin" for T
    proof (cases "T \<le> unat now \<and> unat now < T + 60000")
      case False
      then show ?thesis using w(4) [of T j] by (auto simp: in_window_def)
    next
      case True
      have "in_window T pre = 0" using p(2) True by (fastforce simp: in_window_def count_if_0)
      moreover have "in_window T (map unat (deque rb j)) \<le> length (deque rb j)"
        using length_filter_le [of "\<lambda>t. T \<le> t \<and> t < T + 60000" "map unat (deque rb j)"]
        by (simp add: in_window_def count_if_def)
      moreover have "in_window T (times j log @ [unat now]) = in_window T pre + in_window T (map unat (deque rb j)) + 1"
        using True unfolding p(1) by (simp add: in_window_def)
      ultimately show ?thesis using assms(2) \<open>j = i\<close> by simp
    qed
    moreover have "sorted (times j log @ [unat now])" using w(2,3) by (simp add: sorted_append)
    ultimately show ?thesis using p w(3,5) True unfolding t
      by (intro exI [of _ pre]) (auto simp: deque_def [of ?rb])
  qed
qed

lemma tryCharge_window:
  assumes "window_ok (unat now) log rb" "tryCharge relay (Some i) kind now rb = (ok, rb')"
  shows "window_ok (unat now) (if ok then log @ [(i, now)] else log) rb'"
proof -
  let ?rb1 = "if now - rb_lastPrune rb \<ge> kWindow then prune now rb else rb"
  let ?d = "pop_old now (deque ?rb1 i)"
  let ?rb2 = "?rb1\<lparr>rb_sends := (rb_sends ?rb1)(i \<mapsto> ?d)\<rparr>"
  have w1: "window_ok (unat now) log ?rb1" using assms(1) window_ok_prune by simp
  have w2: "window_ok (unat now) log ?rb2" by (rule window_ok_set [OF w1])
  have d2: "deque ?rb2 i = ?d" by (simp add: deque_def [of ?rb2])
  have run: "tryCharge relay (Some i) kind now rb =
      (if length ?d \<ge> kMaxBuddyRelaysPerMin then (False, ?rb2)
       else case (if kind = KadCallback then charge_bucket (peerKey relay) now ?rb2 else (True, ?rb2)) of
              (ok, rb3) \<Rightarrow>
                if \<not> ok then (False, rb3)
                else (True, rb3\<lparr>rb_sends := (rb_sends rb3)(i \<mapsto> ?d @ [now])\<rparr>))"
    unfolding tryCharge_def option.simps Let_def deque_def [symmetric] by (rule refl)
  show ?thesis
  proof (cases "length ?d \<ge> kMaxBuddyRelaysPerMin")
    case True
    then show ?thesis using assms(2) w2 unfolding run by simp
  next
    case False
    obtain c rb3 where b: "(if kind = KadCallback then charge_bucket (peerKey relay) now ?rb2 else (True, ?rb2)) = (c, rb3)"
      by fastforce
    then obtain m where m: "rb3 = ?rb2\<lparr>rb_buckets := m\<rparr>"
      using charge_bucket_sends [of "peerKey relay" now ?rb2 c rb3]
      by (cases "kind = KadCallback") (auto intro: that [of "rb_buckets ?rb2"])
    have w3: "window_ok (unat now) log rb3" using w2 unfolding m by simp
    have d3: "deque rb3 i = ?d" using d2 unfolding m by (simp add: deque_def)
    have out: "(if \<not> c then (False, rb3) else (True, rb3\<lparr>rb_sends := (rb_sends rb3)(i \<mapsto> ?d @ [now])\<rparr>)) = (ok, rb')"
      using assms(2) False b unfolding run by simp
    show ?thesis using out w3 window_ok_charge [OF w3, of i] False unfolding d3 by (cases c) auto
  qed
qed

lemma window_ok_later:
  "window_ok now log rb \<Longrightarrow> now \<le> now' \<Longrightarrow> window_ok now' log rb"
  by (rule window_ok_shrink) auto

lemma run_calls_window:
  "window_ok now log rb \<Longrightarrow> sorted (now # map (\<lambda>c. unat (rc_now c)) cs) \<Longrightarrow> run_calls cs rb = (log', rb') \<Longrightarrow>
     \<exists>now'. window_ok now' (log @ log') rb'"
proof (induction cs arbitrary: now log rb log' rb')
  case Nil
  then show ?case by auto
next
  case (Cons c cs)
  obtain ok rb1 where t: "tryCharge (rc_relay c) (Some (rc_buddy c)) (rc_kind c) (rc_now c) rb = (ok, rb1)" by fastforce
  obtain log1 rb2 where r: "run_calls cs rb1 = (log1, rb2)" by fastforce
  have "now \<le> unat (rc_now c)" "sorted (unat (rc_now c) # map (\<lambda>c. unat (rc_now c)) cs)"
    using Cons.prems(2) by (auto simp: comp_def)
  with Cons.IH [OF tryCharge_window [OF window_ok_later [OF Cons.prems(1)] t] _ r] Cons.prems(3) t r
  show ?case by (auto simp: comp_def split: if_splits)
qed

lemma window_ok_empty: "window_ok 0 [] empty_budget"
  by (simp add: window_ok_def times_def deque_def empty_budget_def in_window_def)

section \<open>Properties\<close>

text \<open>However requests are interleaved over relays and buddies, no buddy is sent more than 60
  in any window of one minute, as long as the tick count does not run backwards.\<close>

theorem buddy_window_bound:
  assumes "sorted (map (unat \<circ> rc_now) cs)" "run_calls cs empty_budget = (log, rb)"
  shows "count_if (\<lambda>e. fst e = i \<and> T \<le> unat (snd e) \<and> unat (snd e) < T + 60000) log \<le> 60"
proof -
  have "sorted (0 # map (\<lambda>c. unat (rc_now c)) cs)" using assms(1) by (simp add: comp_def)
  from run_calls_window [OF window_ok_empty this assms(2)] obtain now where "window_ok now log rb" by auto
  from window_ok_parts(4) [OF this, of T i] show ?thesis
    by (simp add: in_window_def times_def count_if_def filter_map comp_def conj_commute kMaxBuddyRelaysPerMin_def)
qed

end
