(* ===== verification/Fruitless_Ledger.thy ===== *)
theory Fruitless_Ledger
  imports Prelude "HOL-Library.AList"
begin

text \<open>
  The record of download sessions that gave nothing
  (src/core/client/FruitlessSessionLedger.cpp).  The hash map is an association list whose
  order stands for the unspecified iteration order; ticks are 64-bit milliseconds.
\<close>

type_synonym user_hash = "u8 list"

datatype verdict = Noted | Paused | Quarantined

definition kWindowMs :: u64 where "kWindowMs = 300000"
definition kPauseMs :: u64 where "kPauseMs = 180000"
definition kPausesToQuarantine :: nat where "kPausesToQuarantine = 2"
definition kEventsToQuarantine :: nat where "kEventsToQuarantine = 10"
definition kQuarantineMs :: u64 where "kQuarantineMs = 14400000"
definition kEntryTtlMs :: u64 where "kEntryTtlMs = 14400000"
definition kMaxEntries :: nat where "kMaxEntries = 4096"

record fs_entry =
  fe_lastUsed :: u64
  fe_lastFruitless :: u64
  fe_windowStart :: u64
  fe_windowEvents :: nat
  fe_pauses :: nat
  fe_heldUntil :: u64
  fe_quarantined :: bool

definition fresh_entry :: fs_entry where
  "fresh_entry = \<lparr>fe_lastUsed = 0, fe_lastFruitless = 0, fe_windowStart = 0, fe_windowEvents = 0,
     fe_pauses = 0, fe_heldUntil = 0, fe_quarantined = False\<rparr>"

type_synonym ledger = "(user_hash \<times> fs_entry) list"

section \<open>One entry\<close>

text \<open>\<open>entry()\<close> once the record exists: a served quarantine is over.\<close>

definition use_entry :: "u64 \<Rightarrow> fs_entry \<Rightarrow> fs_entry" where
  "use_entry now e =
     (if fe_quarantined e \<and> fe_heldUntil e \<le> now then fresh_entry else e)\<lparr>fe_lastUsed := now\<rparr>"

definition countEvent :: "u64 \<Rightarrow> fs_entry \<Rightarrow> bool \<times> fs_entry" where
  "countEvent now e =
     (let e1 = (if fe_windowStart e = 0 \<or> now - fe_windowStart e \<ge> kWindowMs
                then e\<lparr>fe_windowStart := now, fe_windowEvents := 0\<rparr> else e);
          e2 = e1\<lparr>fe_windowEvents := fe_windowEvents e1 + 1\<rparr>
      in (fe_windowEvents e2 \<ge> kEventsToQuarantine \<and> \<not> fe_quarantined e2, e2))"

definition quarantine :: "u64 \<Rightarrow> fs_entry \<Rightarrow> verdict \<times> fs_entry" where
  "quarantine now e =
     (Quarantined, e\<lparr>fe_quarantined := True, fe_heldUntil := now + kQuarantineMs, fe_lastFruitless := 0\<rparr>)"

definition fruitless_step :: "u64 \<Rightarrow> fs_entry \<Rightarrow> verdict \<times> fs_entry" where
  "fruitless_step now e0 =
     (case countEvent now e0 of (full, e) \<Rightarrow>
        if full then quarantine now e
        else if fe_heldUntil e > now then (if fe_quarantined e then Quarantined else Paused, e)
        else if fe_lastFruitless e \<noteq> 0 \<and> now - fe_lastFruitless e \<le> kWindowMs then
          let e1 = e\<lparr>fe_lastFruitless := 0, fe_pauses := fe_pauses e + 1\<rparr> in
          if fe_pauses e1 \<ge> kPausesToQuarantine then quarantine now e1
          else (Paused, e1\<lparr>fe_heldUntil := now + kPauseMs\<rparr>)
        else (Noted, e\<lparr>fe_lastFruitless := now\<rparr>))"

definition declined_step :: "u64 \<Rightarrow> fs_entry \<Rightarrow> verdict \<times> fs_entry" where
  "declined_step now e0 =
     (case countEvent now e0 of (full, e) \<Rightarrow>
        if full then quarantine now e
        else if fe_heldUntil e > now then (if fe_quarantined e then Quarantined else Paused, e)
        else (Noted, e))"

section \<open>The ledger\<close>

text \<open>The first entry of least \<open>lastUsed\<close>.\<close>

fun oldest :: "ledger \<Rightarrow> user_hash option" where
  "oldest [] = None"
| "oldest [(k, e)] = Some k"
| "oldest ((k, e) # (k', e') # L) =
     (if fe_lastUsed e' < fe_lastUsed e then oldest ((k', e') # L) else oldest ((k, e) # L))"

definition stale :: "u64 \<Rightarrow> fs_entry \<Rightarrow> bool" where
  "stale now e \<longleftrightarrow> now - fe_lastUsed e \<ge> kEntryTtlMs \<and> fe_heldUntil e \<le> now"

definition makeRoom :: "u64 \<Rightarrow> ledger \<Rightarrow> ledger" where
  "makeRoom now L =
     (if length L < kMaxEntries then L
      else
        let L1 = filter (\<lambda>(k, e). \<not> stale now e) L in
        if length L1 < kMaxEntries then L1
        else case oldest L1 of None \<Rightarrow> L1 | Some k \<Rightarrow> filter (\<lambda>(k', e). k' \<noteq> k) L1)"

definition with_entry :: "(fs_entry \<Rightarrow> verdict \<times> fs_entry) \<Rightarrow> user_hash \<Rightarrow> u64 \<Rightarrow> ledger \<Rightarrow> verdict \<times> ledger" where
  "with_entry step h now L =
     (case map_of L h of
        None \<Rightarrow> (case step (use_entry now fresh_entry) of (v, e) \<Rightarrow> (v, makeRoom now L @ [(h, e)]))
      | Some e0 \<Rightarrow> (case step (use_entry now e0) of (v, e) \<Rightarrow> (v, AList.update h e L)))"

definition noteFruitlessSession :: "user_hash \<Rightarrow> u64 \<Rightarrow> ledger \<Rightarrow> verdict \<times> ledger" where
  "noteFruitlessSession h now L = with_entry (fruitless_step now) h now L"

definition noteDeclinedAccept :: "user_hash \<Rightarrow> u64 \<Rightarrow> ledger \<Rightarrow> verdict \<times> ledger" where
  "noteDeclinedAccept h now L = with_entry (declined_step now) h now L"

definition productive :: "fs_entry \<Rightarrow> fs_entry" where
  "productive e =
     (let e1 = e\<lparr>fe_lastFruitless := 0, fe_windowStart := 0, fe_windowEvents := 0\<rparr>
      in if \<not> fe_quarantined e1 then e1\<lparr>fe_pauses := 0\<rparr> else e1)"

definition noteProductiveSession :: "user_hash \<Rightarrow> ledger \<Rightarrow> ledger" where
  "noteProductiveSession h L =
     (case map_of L h of None \<Rightarrow> L | Some e \<Rightarrow> AList.update h (productive e) L)"

definition heldBackFor :: "user_hash \<Rightarrow> u64 \<Rightarrow> ledger \<Rightarrow> u64" where
  "heldBackFor h now L =
     (case map_of L h of None \<Rightarrow> 0
      | Some e \<Rightarrow> if fe_heldUntil e > now then fe_heldUntil e - now else 0)"

definition isQuarantined :: "user_hash \<Rightarrow> u64 \<Rightarrow> ledger \<Rightarrow> bool" where
  "isQuarantined h now L =
     (case map_of L h of None \<Rightarrow> False
      | Some e \<Rightarrow> fe_quarantined e \<and> fe_heldUntil e > now)"

section \<open>The contract of an entry step\<close>

definition entry_ok :: "fs_entry \<Rightarrow> bool" where
  "entry_ok e \<longleftrightarrow> (\<not> fe_quarantined e \<longrightarrow> fe_windowEvents e < kEventsToQuarantine \<and> fe_pauses e < kPausesToQuarantine)"

definition ledger_ok :: "ledger \<Rightarrow> bool" where
  "ledger_ok L \<longleftrightarrow> distinct (map fst L) \<and> length L \<le> kMaxEntries \<and> (\<forall>(k, e) \<in> set L. entry_ok e)"

lemma map_fst_filter: "distinct (map fst L) \<Longrightarrow> distinct (map fst (filter P L))"
  by (rule distinct_map_filter)

lemma oldest_in: "oldest L = Some k \<Longrightarrow> k \<in> fst ` set L"
  by (induction L rule: oldest.induct) (auto split: if_splits)

lemma oldest_None: "oldest L = None \<longleftrightarrow> L = []"
  by (induction L rule: oldest.induct) auto

lemma makeRoom_subset: "set (makeRoom now L) \<subseteq> set L"
  by (auto simp: makeRoom_def Let_def split: option.splits if_splits)

lemma makeRoom_length: "length (makeRoom now L) < kMaxEntries \<or> length L > kMaxEntries"
proof (rule ccontr)
  let ?P = "\<lambda>(k, e). \<not> stale now e"
  let ?L = "filter ?P L"
  assume c: "\<not> ?thesis"
  have small: "makeRoom now L = L" if "length L < kMaxEntries" using that by (simp add: makeRoom_def)
  then have big1: "\<not> length L < kMaxEntries" using c by auto
  have "makeRoom now L = ?L" if "length ?L < kMaxEntries" using that big1 by (simp add: makeRoom_def)
  then have big: "\<not> length L < kMaxEntries" "\<not> length ?L < kMaxEntries" using c big1 by auto
  have le: "length ?L \<le> length L" by simp
  have "?L \<noteq> []" using big(2) by (auto simp: kMaxEntries_def)
  then obtain k where k: "oldest ?L = Some k" using oldest_None by fastforce
  then obtain b where "(k, b) \<in> set ?L" using oldest_in by force
  then have "length (filter (\<lambda>(k', e). k' \<noteq> k) ?L) < length ?L"
    by (rule length_filter_less) simp
  moreover have "makeRoom now L = filter (\<lambda>(k', e). k' \<noteq> k) ?L"
    using big k by (simp only: makeRoom_def if_False Let_def option.case)
  ultimately have "length (makeRoom now L) < length L" using le by (metis less_le_trans)
  then show False using c by simp
qed

lemma makeRoom_distinct: "distinct (map fst L) \<Longrightarrow> distinct (map fst (makeRoom now L))"
  by (auto simp: makeRoom_def Let_def map_fst_filter split: option.splits)

lemma fresh_entry_ok: "entry_ok fresh_entry"
  by (simp add: entry_ok_def fresh_entry_def kEventsToQuarantine_def kPausesToQuarantine_def)

lemma use_entry_ok: "entry_ok e \<Longrightarrow> entry_ok (use_entry now e)"
  using fresh_entry_ok by (simp add: use_entry_def entry_ok_def)

lemma ledger_ok_update:
  assumes "ledger_ok L" "entry_ok e" "map_of L h = Some e0"
  shows "ledger_ok (AList.update h e L)"
proof -
  have h: "h \<in> fst ` set L" using map_of_SomeD [OF assms(3)] by force
  have "length (AList.update h e L) = length L" using h by (induction L) auto
  moreover have "distinct (map fst (AList.update h e L))"
    using assms(1) AList.distinct_update by (auto simp: ledger_ok_def)
  moreover have "x \<in> set (AList.update h e L) \<Longrightarrow> x = (h, e) \<or> x \<in> set L" for x
    by (induction L) (auto split: if_splits)
  ultimately show ?thesis using assms(1,2) by (fastforce simp: ledger_ok_def)
qed

text \<open>
  What the ledger needs of a step: it keeps the invariant of the entry, it does not shorten
  a running quarantine, and the verdict tells what is on record.
\<close>

locale entry_step =
  fixes step :: "u64 \<Rightarrow> fs_entry \<Rightarrow> verdict \<times> fs_entry"
  assumes ok: "entry_ok e \<Longrightarrow> step now e = (v, e') \<Longrightarrow> entry_ok e'"
    and holds: "fe_quarantined e \<Longrightarrow> now < fe_heldUntil e \<Longrightarrow> step now e = (v, e') \<Longrightarrow>
       v = Quarantined \<and> fe_quarantined e' \<and> fe_heldUntil e' = fe_heldUntil e"
    and counts: "\<not> fe_quarantined e \<Longrightarrow> step now e = (v, e') \<Longrightarrow>
       fe_quarantined e' \<and> fe_heldUntil e' = now + kQuarantineMs \<or>
       \<not> fe_quarantined e' \<and> fe_windowStart e' = fe_windowStart (snd (countEvent now e)) \<and>
       fe_windowEvents e' = fe_windowEvents (snd (countEvent now e))"
begin

lemma ledger:
  assumes "ledger_ok L" "with_entry (step now) h now L = (v, L')"
  shows "ledger_ok L'"
proof (cases "map_of L h")
  case None
  obtain v' e where s: "step now (use_entry now fresh_entry) = (v', e)" by fastforce
  have L': "L' = makeRoom now L @ [(h, e)]" using assms(2) None s by (simp add: with_entry_def)
  have "entry_ok e" by (rule ok [OF use_entry_ok [OF fresh_entry_ok] s])
  moreover have "h \<notin> fst ` set (makeRoom now L)" using None makeRoom_subset by (auto simp: map_of_eq_None_iff)
  moreover have "length (makeRoom now L) < kMaxEntries" using makeRoom_length [of now L] assms(1) by (auto simp: ledger_ok_def)
  moreover have "distinct (map fst (makeRoom now L))" using assms(1) makeRoom_distinct by (simp add: ledger_ok_def)
  ultimately show ?thesis using assms(1) makeRoom_subset [of now L] by (auto simp: ledger_ok_def L')
next
  case (Some e0)
  obtain v' e where s: "step now (use_entry now e0) = (v', e)" by fastforce
  have L': "L' = AList.update h e L" using assms(2) Some s by (simp add: with_entry_def)
  have "entry_ok e0" using assms(1) map_of_SomeD [OF Some] by (auto simp: ledger_ok_def)
  from ledger_ok_update [OF assms(1) ok [OF use_entry_ok [OF this] s] Some] show ?thesis by (simp add: L')
qed

lemma keeps_quarantine:
  assumes "isQuarantined h now L" "t \<le> now" "with_entry (step t) k t L = (v, L')" "length L < kMaxEntries"
  shows "isQuarantined h now L'"
proof -
  obtain e0 where e0: "map_of L h = Some e0" "fe_quarantined e0" "now < fe_heldUntil e0"
    using assms(1) by (auto simp: isQuarantined_def split: option.splits)
  show ?thesis
  proof (cases "k = h")
    case False
    then have "map_of L' h = map_of L h"
      using assms(3,4) by (auto simp: with_entry_def makeRoom_def AList.update_conv map_add_def split: option.splits prod.splits)
    then show ?thesis using assms(1) by (simp add: isQuarantined_def)
  next
    case True
    have t: "t < fe_heldUntil e0" using assms(2) e0(3) by simp
    then have u: "fe_quarantined (use_entry t e0)" "fe_heldUntil (use_entry t e0) = fe_heldUntil e0"
      using e0(2) by (auto simp: use_entry_def)
    obtain v' e where s: "step t (use_entry t e0) = (v', e)" by fastforce
    have "fe_quarantined e \<and> fe_heldUntil e = fe_heldUntil e0" using holds [OF u(1) _ s] t u(2) by simp
    moreover have "map_of L' h = Some e" using assms(3) True e0(1) s by (auto simp: with_entry_def AList.update_conv)
    ultimately show ?thesis using e0(3) by (simp add: isQuarantined_def)
  qed
qed

lemma window:
  assumes "fe_quarantined e \<and> unat t1 + 14400000 \<le> unat (fe_heldUntil e) \<or>
      \<not> fe_quarantined e \<and> fe_windowStart e = t1 \<and> fe_windowEvents e = n"
    and "t1 \<noteq> 0" "t1 \<le> now" "unat now < unat t1 + 300000" "unat now + 14400000 < 2 ^ 64"
    and "step now (use_entry now e) = (v, e')"
  shows "fe_quarantined e' \<and> unat t1 + 14400000 \<le> unat (fe_heldUntil e') \<or>
      \<not> fe_quarantined e' \<and> fe_windowStart e' = t1 \<and> fe_windowEvents e' = n + 1"
proof (cases "fe_quarantined e")
  case True
  then have h: "unat now < unat (fe_heldUntil e)" using assms(1,4) by simp
  then have u: "fe_quarantined (use_entry now e)" "fe_heldUntil (use_entry now e) = fe_heldUntil e"
    using True by (auto simp: use_entry_def word_le_nat_alt)
  from holds [OF u(1) _ assms(6)] h u(2) True assms(1) show ?thesis by (simp add: word_less_nat_alt)
next
  case False
  have "unat (now - t1) = unat now - unat t1" using assms(3) by (simp add: unat_sub)
  then have "\<not> now - t1 \<ge> kWindowMs" using assms(3,4) by (simp add: kWindowMs_def word_le_nat_alt)
  then have c: "fe_windowStart (snd (countEvent now (use_entry now e))) = t1"
    "fe_windowEvents (snd (countEvent now (use_entry now e))) = n + 1"
    using False assms(1,2) by (simp_all add: countEvent_def use_entry_def Let_def)
  have "unat (now + kQuarantineMs) = unat now + 14400000"
    using assms(5) by (simp add: kQuarantineMs_def unat_plus_if' )
  moreover have "\<not> fe_quarantined (use_entry now e)" using False by (simp add: use_entry_def)
  ultimately show ?thesis using counts [OF _ assms(6)] c assms(3) by (auto simp: word_le_nat_alt)
qed

end


lemma countEvent_ok: "entry_ok e \<Longrightarrow> countEvent now e = (False, e') \<Longrightarrow> entry_ok e'"
  by (auto simp: countEvent_def entry_ok_def Let_def not_le split: if_splits)

lemma countEvent_keeps:
  "countEvent now e = (f, e') \<Longrightarrow> fe_quarantined e' = fe_quarantined e \<and> fe_heldUntil e' = fe_heldUntil e
     \<and> (fe_quarantined e \<longrightarrow> \<not> f)"
  by (auto simp: countEvent_def Let_def split: if_splits)

interpretation fruitless: entry_step fruitless_step
proof
  show "entry_ok e'" if "entry_ok e" "fruitless_step now e = (v, e')" for e now v e'
    using that countEvent_ok [of e now]
    by (auto simp: fruitless_step_def quarantine_def Let_def not_le entry_ok_def split: prod.splits if_splits bool.splits)
  show "v = Quarantined \<and> fe_quarantined e' \<and> fe_heldUntil e' = fe_heldUntil e"
    if "fe_quarantined e" "now < fe_heldUntil e" "fruitless_step now e = (v, e')" for e now v e'
    using that countEvent_keeps [of now e] by (fastforce simp: fruitless_step_def split: prod.splits if_splits)
  show "fe_quarantined e' \<and> fe_heldUntil e' = now + kQuarantineMs \<or>
       \<not> fe_quarantined e' \<and> fe_windowStart e' = fe_windowStart (snd (countEvent now e)) \<and>
       fe_windowEvents e' = fe_windowEvents (snd (countEvent now e))"
    if "\<not> fe_quarantined e" "fruitless_step now e = (v, e')" for e now v e'
    using that countEvent_keeps [of now e]
    by (auto simp: fruitless_step_def quarantine_def Let_def split: prod.splits if_splits)
qed

interpretation declined: entry_step declined_step
proof
  show "entry_ok e'" if "entry_ok e" "declined_step now e = (v, e')" for e now v e'
    using that countEvent_ok [of e now]
    by (auto simp: declined_step_def quarantine_def entry_ok_def split: prod.splits if_splits bool.splits)
  show "v = Quarantined \<and> fe_quarantined e' \<and> fe_heldUntil e' = fe_heldUntil e"
    if "fe_quarantined e" "now < fe_heldUntil e" "declined_step now e = (v, e')" for e now v e'
    using that countEvent_keeps [of now e] by (fastforce simp: declined_step_def split: prod.splits if_splits)
  show "fe_quarantined e' \<and> fe_heldUntil e' = now + kQuarantineMs \<or>
       \<not> fe_quarantined e' \<and> fe_windowStart e' = fe_windowStart (snd (countEvent now e)) \<and>
       fe_windowEvents e' = fe_windowEvents (snd (countEvent now e))"
    if "\<not> fe_quarantined e" "declined_step now e = (v, e')" for e now v e'
    using that countEvent_keeps [of now e]
    by (auto simp: declined_step_def quarantine_def split: prod.splits if_splits)
qed


section \<open>Properties\<close>

datatype ledger_call = Fruitless user_hash u64 | Declined user_hash u64 | Productive user_hash

fun do_call :: "ledger_call \<Rightarrow> ledger \<Rightarrow> ledger" where
  "do_call (Fruitless h t) L = snd (noteFruitlessSession h t L)"
| "do_call (Declined h t) L = snd (noteDeclinedAccept h t L)"
| "do_call (Productive h) L = noteProductiveSession h L"

fun call_time :: "ledger_call \<Rightarrow> u64" where
  "call_time (Fruitless h t) = t"
| "call_time (Declined h t) = t"
| "call_time (Productive h) = 0"

lemma productive_ok: "entry_ok e \<Longrightarrow> entry_ok (productive e)"
  by (simp add: entry_ok_def productive_def Let_def kEventsToQuarantine_def kPausesToQuarantine_def)

lemma do_call_ok:
  assumes "ledger_ok L"
  shows "ledger_ok (do_call c L)"
proof (cases c)
  case (Fruitless h t)
  then show ?thesis using fruitless.ledger [OF assms, of t h]
    by (cases "with_entry (fruitless_step t) h t L") (simp add: noteFruitlessSession_def)
next
  case (Declined h t)
  then show ?thesis using declined.ledger [OF assms, of t h]
    by (cases "with_entry (declined_step t) h t L") (simp add: noteDeclinedAccept_def)
next
  case (Productive h)
  show ?thesis
  proof (cases "map_of L h")
    case None
    then show ?thesis using assms Productive by (simp add: noteProductiveSession_def)
  next
    case (Some e)
    then have "entry_ok e" using assms map_of_SomeD [OF Some] by (auto simp: ledger_ok_def)
    then show ?thesis
      using ledger_ok_update [OF assms productive_ok Some] Some Productive by (simp add: noteProductiveSession_def)
  qed
qed

lemma do_calls_ok: "ledger_ok L \<Longrightarrow> ledger_ok (fold do_call cs L)"
  using do_call_ok by (induction cs arbitrary: L) auto

text \<open>After any sequence of calls the ledger has one entry per peer, never more than its cap,
  and a peer that is not quarantined is below both thresholds of the quarantine.\<close>

theorem ledger_invariant:
  "distinct (map fst (fold do_call cs [])) \<and> length (fold do_call cs []) \<le> kMaxEntries \<and>
   list_all (\<lambda>(k, e). fe_quarantined e \<or>
     fe_windowEvents e < kEventsToQuarantine \<and> fe_pauses e < kPausesToQuarantine) (fold do_call cs [])"
  using do_calls_ok [of "[]" cs] by (auto simp: ledger_ok_def entry_ok_def list_all_iff)

text \<open>A quarantine cannot be shortened: whatever is noted about the peer or about others before
  it ends, a productive session included, the peer stays quarantined (while the table has room).\<close>

theorem quarantine_persists:
  assumes "isQuarantined h now L" "length L < kMaxEntries" "call_time c \<le> now"
  shows "isQuarantined h now (do_call c L)"
proof (cases c)
  case (Fruitless k t)
  then show ?thesis using fruitless.keeps_quarantine [OF assms(1), of t k] assms(2,3)
    by (cases "with_entry (fruitless_step t) k t L") (simp add: noteFruitlessSession_def)
next
  case (Declined k t)
  then show ?thesis using declined.keeps_quarantine [OF assms(1), of t k] assms(2,3)
    by (cases "with_entry (declined_step t) k t L") (simp add: noteDeclinedAccept_def)
next
  case (Productive k)
  then show ?thesis using assms(1)
    by (cases "k = h") (auto simp: isQuarantined_def noteProductiveSession_def AList.update_conv productive_def Let_def
        split: option.splits)
qed

fun peer_events :: "(bool \<times> u64) list \<Rightarrow> fs_entry \<Rightarrow> fs_entry" where
  "peer_events [] e = e"
| "peer_events ((b, t) # evs) e =
     peer_events evs (snd ((if b then fruitless_step else declined_step) t (use_entry t e)))"

lemma peer_events_window:
  assumes "fe_quarantined e \<and> unat t1 + 14400000 \<le> unat (fe_heldUntil e) \<or>
      \<not> fe_quarantined e \<and> fe_windowStart e = t1 \<and> fe_windowEvents e = n"
    and "t1 \<noteq> 0" "\<forall>(b, t) \<in> set evs. t1 \<le> t \<and> unat t < unat t1 + 300000 \<and> unat t + 14400000 < 2 ^ 64"
  shows "fe_quarantined (peer_events evs e) \<and> unat t1 + 14400000 \<le> unat (fe_heldUntil (peer_events evs e)) \<or>
      \<not> fe_quarantined (peer_events evs e) \<and> fe_windowStart (peer_events evs e) = t1 \<and>
      fe_windowEvents (peer_events evs e) = n + length evs"
  using assms
proof (induction evs arbitrary: e n)
  case (Cons ev evs)
  obtain b t where ev: "ev = (b, t)" by fastforce
  obtain v e' where s: "(if b then fruitless_step else declined_step) t (use_entry t e) = (v, e')" by fastforce
  have t: "t1 \<le> t" "unat t < unat t1 + 300000" "unat t + 14400000 < 2 ^ 64" using Cons.prems(3) ev by auto
  have "fe_quarantined e' \<and> unat t1 + 14400000 \<le> unat (fe_heldUntil e') \<or>
      \<not> fe_quarantined e' \<and> fe_windowStart e' = t1 \<and> fe_windowEvents e' = n + 1"
    using s fruitless.window [OF Cons.prems(1,2) t] declined.window [OF Cons.prems(1,2) t] by (cases b) auto
  from Cons.IH [OF this Cons.prems(2)] Cons.prems(3) show ?case using s ev by auto
qed simp

lemma peer_events_ok: "entry_ok e \<Longrightarrow> entry_ok (peer_events evs e)"
proof (induction evs arbitrary: e)
  case (Cons ev evs)
  obtain b t where ev: "ev = (b, t)" by fastforce
  obtain v e' where s: "(if b then fruitless_step else declined_step) t (use_entry t e) = (v, e')" by fastforce
  have "entry_ok e'"
    using s fruitless.ok [OF use_entry_ok [OF Cons.prems]] declined.ok [OF use_entry_ok [OF Cons.prems]]
    by (cases b) auto
  from Cons.IH [OF this] show ?case using s ev by simp
qed simp


text \<open>Ten events of a peer within five minutes, in any mix of fruitless sessions and declined
  accepts, put it into quarantine for four hours from the first of them at least.\<close>

theorem ten_events_quarantine:
  assumes "entry_ok e" "\<not> fe_quarantined e" "fe_windowStart e = 0"
    and "length evs = 10" "snd (hd evs) = t1" "t1 \<noteq> 0"
    and "\<forall>(b, t) \<in> set evs. t1 \<le> t \<and> unat t < unat t1 + 300000 \<and> unat t + 14400000 < 2 ^ 64"
  shows "fe_quarantined (peer_events evs e) \<and> unat t1 + 14400000 \<le> unat (fe_heldUntil (peer_events evs e))"
proof -
  obtain b rest where evs: "evs = (b, t1) # rest" and len: "length rest = 9"
  proof -
    obtain ev rest where e: "evs = ev # rest" using assms(4) by (cases evs) simp_all
    obtain b t where ev: "ev = (b, t)" by fastforce
    have "length rest = 9" using arg_cong [OF e, of length] assms(4) by simp
    then show ?thesis using that [of b rest] e ev assms(5) by simp
  qed
  let ?step = "if b then fruitless_step else declined_step"
  obtain v e' where s: "?step t1 (use_entry t1 e) = (v, e')" by fastforce
  have u: "\<not> fe_quarantined (use_entry t1 e)" using assms(2) by (simp add: use_entry_def)
  have c: "fe_windowStart (snd (countEvent t1 (use_entry t1 e))) = t1"
    "fe_windowEvents (snd (countEvent t1 (use_entry t1 e))) = 1"
    using assms(2,3) by (simp_all add: countEvent_def use_entry_def Let_def)
  have t: "unat (t1 + kQuarantineMs) = unat t1 + 14400000"
  proof -
    have "unat t1 + 14400000 < 2 ^ 64" using assms(7) unfolding evs by simp
    then show ?thesis by (simp add: kQuarantineMs_def unat_plus_if')
  qed
  have "fe_quarantined e' \<and> fe_heldUntil e' = t1 + kQuarantineMs \<or>
      \<not> fe_quarantined e' \<and> fe_windowStart e' = t1 \<and> fe_windowEvents e' = 1"
    using s fruitless.counts [OF u, of t1 v e'] declined.counts [OF u, of t1 v e'] c by (cases b) auto
  then have "fe_quarantined e' \<and> unat t1 + 14400000 \<le> unat (fe_heldUntil e') \<or>
      \<not> fe_quarantined e' \<and> fe_windowStart e' = t1 \<and> fe_windowEvents e' = 1" using t by auto
  from peer_events_window [OF this assms(6), of rest] assms(7) evs
  have "fe_quarantined (peer_events rest e') \<and> unat t1 + 14400000 \<le> unat (fe_heldUntil (peer_events rest e')) \<or>
      \<not> fe_quarantined (peer_events rest e') \<and> fe_windowEvents (peer_events rest e') = 10"
    using len by auto
  moreover have run: "peer_events evs e = peer_events rest e'" using s evs by simp
  moreover have "entry_ok (peer_events rest e')" using peer_events_ok [OF assms(1), of evs] run by simp
  ultimately show ?thesis by (auto simp: entry_ok_def kEventsToQuarantine_def)
qed

end
