(* ===== verification/Repeat_Chunk.thy ===== *)
theory Repeat_Chunk
  imports Prelude
begin

text \<open>
  Counting full deliveries of a part (src/core/client/RepeatChunkGuard.cpp): merged byte
  ranges per part in progress, and a least-recently-used list of peer and file pairs whose
  index mirrors its keys.  Offsets are natural numbers: the source's 64-bit sums stay far
  below the wrap for real file sizes; the part number is cut to 32 bits as there.
\<close>

definition kMaxGuardEntries :: nat where "kMaxGuardEntries = 500"
definition kMaxPartialParts :: nat where "kMaxPartialParts = 16"

type_synonym range = "nat \<times> nat"

record partial_part =
  pp_part :: nat
  pp_covered :: "range list"

record guard_entry =
  ge_key :: "u8 list"
  ge_delivered :: "nat list"
  ge_partial :: "partial_part list"

type_synonym guard = "guard_entry list"

section \<open>Ranges\<close>

text \<open>The scan that erases every range touching the growing one.\<close>

fun absorb :: "range \<Rightarrow> range list \<Rightarrow> range \<times> range list" where
  "absorb m [] = (m, [])"
| "absorb (s, e) ((a, b) # rs) =
     (if b < s \<or> a > e then (case absorb (s, e) rs of (m, kept) \<Rightarrow> (m, (a, b) # kept))
      else absorb (min s a, max e b) rs)"

fun insert_range :: "range \<Rightarrow> range list \<Rightarrow> range list" where
  "insert_range m [] = [m]"
| "insert_range m (r # rs) = (if fst m < fst r then m # r # rs else r # insert_range m rs)"

definition cover :: "range \<Rightarrow> range list \<Rightarrow> range list" where
  "cover m rs = (case absorb m rs of (m', kept) \<Rightarrow> insert_range m' kept)"

section \<open>Entries\<close>

fun find_part :: "nat \<Rightarrow> partial_part list \<Rightarrow> partial_part option" where
  "find_part p [] = None"
| "find_part p (q # qs) = (if pp_part q = p then Some q else find_part p qs)"

fun erase_part :: "nat \<Rightarrow> partial_part list \<Rightarrow> partial_part list" where
  "erase_part p [] = []"
| "erase_part p (q # qs) = (if pp_part q = p then qs else q # erase_part p qs)"

fun set_covered :: "nat \<Rightarrow> range list \<Rightarrow> partial_part list \<Rightarrow> partial_part list" where
  "set_covered p rs [] = []"
| "set_covered p rs (q # qs) = (if pp_part q = p then q\<lparr>pp_covered := rs\<rparr> # qs else q # set_covered p rs qs)"

definition bump :: "nat \<Rightarrow> nat list \<Rightarrow> nat list" where
  "bump part d =
     (let d' = (if length d \<le> part then d @ replicate (part + 1 - length d) 0 else d)
      in if d' ! part < 255 then d'[part := d' ! part + 1] else d')"

definition addPiece :: "nat \<Rightarrow> nat \<Rightarrow> nat \<Rightarrow> nat \<Rightarrow> guard_entry \<Rightarrow> guard_entry" where
  "addPiece part partLen start stop e =
     (let ps = (case find_part part (ge_partial e) of
                  Some _ \<Rightarrow> ge_partial e
                | None \<Rightarrow> (if length (ge_partial e) \<ge> kMaxPartialParts then tl (ge_partial e) else ge_partial e)
                          @ [\<lparr>pp_part = part, pp_covered = []\<rparr>]);
          old = (case find_part part ps of Some q \<Rightarrow> pp_covered q | None \<Rightarrow> []);
          rs = cover (start, stop) old
      in if length rs = 1 \<and> fst (hd rs) = 0 \<and> snd (hd rs) \<ge> partLen
         then e\<lparr>ge_delivered := bump part (ge_delivered e), ge_partial := erase_part part ps\<rparr>
         else e\<lparr>ge_partial := set_covered part rs ps\<rparr>)"

section \<open>The guard\<close>

definition makeKey :: "u8 list \<Rightarrow> u8 list \<Rightarrow> u8 list" where
  "makeKey userHash fileHash = take 16 userHash @ take 16 fileHash"

definition touch :: "u8 list \<Rightarrow> guard \<Rightarrow> guard" where
  "touch key g =
     (case find (\<lambda>e. ge_key e = key) g of
        Some e \<Rightarrow> e # filter (\<lambda>e. ge_key e \<noteq> key) g
      | None \<Rightarrow>
          \<lparr>ge_key = key, ge_delivered = [], ge_partial = []\<rparr> #
          (if length g \<ge> kMaxGuardEntries then butlast g else g))"

function add_pieces :: "nat \<Rightarrow> nat \<Rightarrow> nat \<Rightarrow> guard_entry \<Rightarrow> guard_entry" where
  "add_pieces fileSize start stop e =
     (if start < stop then
        let part = start div PARTSIZE; partStart = part * PARTSIZE;
            partEnd = min (partStart + PARTSIZE) fileSize; pieceEnd = min stop partEnd
        in if pieceEnd \<le> start then e
           else add_pieces fileSize pieceEnd stop
             (addPiece (part mod 2 ^ 32) (partEnd - partStart) (start - partStart) (pieceEnd - partStart) e)
      else e)"
  by pat_completeness auto
termination by (relation "measure (\<lambda>(f, start, stop, e). stop - start)") auto

declare add_pieces.simps [simp del]

definition noteSent :: "u8 list option \<Rightarrow> u8 list option \<Rightarrow> nat \<Rightarrow> nat \<Rightarrow> nat \<Rightarrow> guard \<Rightarrow> guard" where
  "noteSent userHash fileHash fileSize start stop g =
     (case (userHash, fileHash) of
        (Some u, Some f) \<Rightarrow>
          if start \<ge> stop \<or> stop > fileSize then g
          else (case touch (makeKey u f) g of
                  e # rest \<Rightarrow> add_pieces fileSize start stop e # rest
                | [] \<Rightarrow> [])
      | _ \<Rightarrow> g)"

definition deliveries :: "u8 list option \<Rightarrow> u8 list option \<Rightarrow> nat \<Rightarrow> guard \<Rightarrow> nat" where
  "deliveries userHash fileHash offset g =
     (case (userHash, fileHash) of
        (Some u, Some f) \<Rightarrow>
          (case find (\<lambda>e. ge_key e = makeKey u f) g of
             None \<Rightarrow> 0
           | Some e \<Rightarrow>
               let part = offset div PARTSIZE
               in if part < length (ge_delivered e) then ge_delivered e ! part else 0)
      | _ \<Rightarrow> 0)"

section \<open>Merged ranges cover what was put in\<close>

definition inside :: "range list \<Rightarrow> nat \<Rightarrow> bool" where
  "inside rs x \<longleftrightarrow> (\<exists>(a, b) \<in> set rs. a \<le> x \<and> x < b)"

text \<open>Sorted, not empty, with a gap between any two.\<close>

fun merged :: "range list \<Rightarrow> bool" where
  "merged [] = True"
| "merged [(a, b)] = (a < b)"
| "merged ((a, b) # (c, d) # rs) = (a < b \<and> b < c \<and> merged ((c, d) # rs))"

lemma inside_simps [simp]: "inside [] x = False" "inside ((a, b) # rs) x = (a \<le> x \<and> x < b \<or> inside rs x)"
  by (auto simp: inside_def)

lemma inside_insert_range [simp]: "inside (insert_range m rs) x = inside (m # rs) x"
  by (induction m rs rule: insert_range.induct) (auto simp: inside_def)

lemma merged_tl: "merged (r # rs) \<Longrightarrow> merged rs"
  by (cases rs; cases r) auto

lemma merged_Cons: "merged ((a, b) # rs) \<longleftrightarrow> a < b \<and> (\<forall>(c, d) \<in> set rs. b < c) \<and> merged rs"
proof (induction rs arbitrary: a b)
  case (Cons r rs)
  obtain c d where r: "r = (c, d)" by fastforce
  show ?case using Cons.IH [of c d] by (auto simp: r)
qed simp

lemma absorb_apart: "\<forall>(a, b) \<in> set rs. e < a \<Longrightarrow> absorb (s, e) rs = ((s, e), rs)"
  by (induction "(s, e)" rs rule: absorb.induct) auto

text \<open>What the scan returns: the union with what touched, the rest apart from it.\<close>

lemma absorb_correct:
  assumes "absorb (s, e) rs = ((s', e'), kept)" "s < e" "merged rs"
  shows "s' \<le> s \<and> e \<le> e' \<and> merged kept \<and> set kept \<subseteq> set rs \<and>
    (\<forall>(a, b) \<in> set kept. b < s' \<or> e' < a) \<and>
    (\<forall>x. inside ((s', e') # kept) x = inside ((s, e) # rs) x) \<and>
    (s' = s \<or> s' \<in> fst ` set rs)"
  using assms
proof (induction "(s, e)" rs arbitrary: s e kept rule: absorb.induct)
  case (2 s e a b rs)
  have m: "a < b" "merged rs" "\<forall>(c, d) \<in> set rs. b < c" using "2.prems"(3) by (auto simp: merged_Cons)
  consider (left) "b < s" | (right) "e < a" | (touch) "s \<le> b" "a \<le> e" by linarith
  then show ?case
  proof cases
    case right
    have "\<forall>(c, d) \<in> set ((a, b) # rs). e < c" using m right by fastforce
    then have "s' = s" "e' = e" "kept = (a, b) # rs" using "2.prems"(1) absorb_apart by auto
    then show ?thesis using \<open>\<forall>(c, d) \<in> set ((a, b) # rs). e < c\<close> "2.prems"(3) by fastforce
  next
    case left
    obtain kept' where k: "absorb (s, e) rs = ((s', e'), kept')" "kept = (a, b) # kept'"
      using "2.prems"(1) left by (auto split: prod.splits)
    note ih = "2.hyps"(1) [OF _ k(1) "2.prems"(2) m(2)]
    have "b < s'" using ih left m(3) by auto
    then show ?thesis using ih k m left by (auto simp: merged_Cons)
  next
    case touch
    have run: "absorb (min s a, max e b) rs = ((s', e'), kept)" using "2.prems"(1) touch by simp
    have ne: "min s a < max e b" using "2.prems"(2) by auto
    have ih: "s' \<le> min s a \<and> max e b \<le> e' \<and> merged kept \<and> set kept \<subseteq> set rs \<and>
      (\<forall>(a, b) \<in> set kept. b < s' \<or> e' < a) \<and>
      (\<forall>x. inside ((s', e') # kept) x = inside ((min s a, max e b) # rs) x) \<and>
      (s' = min s a \<or> s' \<in> fst ` set rs)"
      by (rule "2.hyps"(2) [OF _ run ne m(2)]) (use touch in simp)
    have "inside ((min s a, max e b) # rs) x = inside ((s, e) # (a, b) # rs) x" for x
      using touch "2.prems"(2) m(1) by auto
    then show ?thesis using ih by (auto simp: min_def split: if_splits)
  qed
qed simp

lemma merged_insert:
  "merged rs \<Longrightarrow> s < e \<Longrightarrow> \<forall>(a, b) \<in> set rs. b < s \<or> e < a \<Longrightarrow> merged (insert_range (s, e) rs)"
proof (induction "(s, e)" rs rule: insert_range.induct)
  case (2 r rs)
  obtain a b where r: "r = (a, b)" by fastforce
  have m: "a < b" "merged rs" "\<forall>(c, d) \<in> set rs. b < c" using "2.prems"(1) by (auto simp: r merged_Cons)
  show ?case
  proof (cases "s < a")
    case True
    then have "e < a" using "2.prems"(3) m(1) r by fastforce
    then show ?thesis using "2.prems"(1,2) True r m by (fastforce simp: merged_Cons)
  next
    case False
    then have "b < s" using "2.prems"(2,3) r by fastforce
    have "merged (insert_range (s, e) rs)" using "2.hyps" [OF _ m(2) "2.prems"(2)] "2.prems"(3) False r by simp
    moreover have "set (insert_range (s, e) rs) = insert (s, e) (set rs)" for rs :: "range list"
      by (induction rs) auto
    ultimately show ?thesis using False r m \<open>b < s\<close> by (auto simp: merged_Cons)
  qed
qed simp

lemma cover_correct:
  assumes "merged rs" "s < e"
  shows "merged (cover (s, e) rs)" "inside (cover (s, e) rs) x = (s \<le> x \<and> x < e \<or> inside rs x)"
proof -
  obtain s' e' kept where a: "absorb (s, e) rs = ((s', e'), kept)" by (metis prod.collapse)
  note c = absorb_correct [OF a assms(2,1)]
  show "merged (cover (s, e) rs)" using c assms(2) merged_insert [of kept s' e'] a by (auto simp: cover_def)
  show "inside (cover (s, e) rs) x = (s \<le> x \<and> x < e \<or> inside rs x)"
    using c a by (auto simp: cover_def)
qed

lemma merged_full:
  assumes "merged rs" "\<forall>x. inside rs x \<longrightarrow> x < n" "0 < n"
  shows "length rs = 1 \<and> fst (hd rs) = 0 \<and> n \<le> snd (hd rs) \<longleftrightarrow> (\<forall>x < n. inside rs x)"
proof (cases rs)
  case Nil
  then show ?thesis using assms(3) by auto
next
  case (Cons r rest)
  obtain a b where r: "r = (a, b)" by fastforce
  have m: "a < b" "\<forall>(c, d) \<in> set rest. b < c \<and> c < d"
  proof -
    have "merged ys \<Longrightarrow> (c, d) \<in> set ys \<Longrightarrow> c < d" for ys c d
      by (induction ys rule: merged.induct) auto
    then show "a < b" "\<forall>(c, d) \<in> set rest. b < c \<and> c < d"
      using assms(1) unfolding Cons r merged_Cons by auto
  qed
  have out: "\<not> inside rest x" if "x \<le> b" for x using m(2) that by (fastforce simp: inside_def)
  show ?thesis
  proof
    assume "length rs = 1 \<and> fst (hd rs) = 0 \<and> n \<le> snd (hd rs)"
    then show "\<forall>x < n. inside rs x" by (simp add: Cons r)
  next
    assume all: "\<forall>x < n. inside rs x"
    have "inside rs 0" using all assms(3) by blast
    then have a0: "a = 0" using out [of 0] by (simp add: Cons r)
    have "n \<le> b"
    proof (rule ccontr)
      assume "\<not> n \<le> b"
      then have "inside rs b" using all by simp
      then show False using out [of b] by (simp add: Cons r)
    qed
    moreover have "rest = []"
    proof (cases rest)
      case (Cons q qs)
      obtain c d where q: "q = (c, d)" by fastforce
      have cd: "b < c" "c < d" using m(2) Cons q by auto
      moreover have "c \<le> d - 1 \<and> d - 1 < d" using cd(2) by linarith
      ultimately have "inside rs (d - 1)" using \<open>rs = r # rest\<close> Cons q r by simp
      then have "d - 1 < n" using assms(2) by blast
      then show ?thesis using cd \<open>n \<le> b\<close> by simp
    qed simp
    ultimately show "length rs = 1 \<and> fst (hd rs) = 0 \<and> n \<le> snd (hd rs)" by (simp add: Cons r a0)
  qed
qed

section \<open>One piece\<close>

definition covered_of :: "nat \<Rightarrow> guard_entry \<Rightarrow> range list" where
  "covered_of p e = (case find_part p (ge_partial e) of Some q \<Rightarrow> pp_covered q | None \<Rightarrow> [])"

definition count_of :: "nat \<Rightarrow> guard_entry \<Rightarrow> nat" where
  "count_of p e = (if p < length (ge_delivered e) then ge_delivered e ! p else 0)"

definition entry_wf :: "(nat \<Rightarrow> nat) \<Rightarrow> guard_entry \<Rightarrow> bool" where
  "entry_wf len e \<longleftrightarrow> distinct (map pp_part (ge_partial e)) \<and> length (ge_partial e) \<le> kMaxPartialParts \<and>
     list_all (\<lambda>c. c \<le> 255) (ge_delivered e) \<and>
     (\<forall>q \<in> set (ge_partial e). merged (pp_covered q) \<and> (\<forall>x. inside (pp_covered q) x \<longrightarrow> x < len (pp_part q)))"

lemma find_part_None: "find_part p qs = None \<longleftrightarrow> p \<notin> pp_part ` set qs"
  by (induction qs) auto

lemma find_part_Some: "find_part p qs = Some q \<Longrightarrow> q \<in> set qs \<and> pp_part q = p"
  by (induction qs) (auto split: if_splits)

lemma find_part_append: "find_part p (qs @ rs) = (case find_part p qs of Some q \<Rightarrow> Some q | None \<Rightarrow> find_part p rs)"
  by (induction qs) auto

lemma find_set_covered: "find_part r (set_covered p rs qs) =
    (if r = p then map_option (\<lambda>q. q\<lparr>pp_covered := rs\<rparr>) (find_part p qs) else find_part r qs)"
  by (induction qs) auto

lemma find_erase_part: "distinct (map pp_part qs) \<Longrightarrow>
    find_part r (erase_part p qs) = (if r = p then None else find_part r qs)"
  by (induction qs) (auto simp: find_part_None)

lemma set_covered_facts: "map pp_part (set_covered p rs qs) = map pp_part qs"
  "q \<in> set (set_covered p rs qs) \<Longrightarrow> q \<in> set qs \<or> pp_part q = p \<and> pp_covered q = rs"
  by (induction qs) (auto split: if_splits)

lemma erase_part_facts: "set (erase_part p qs) \<subseteq> set qs" "length (erase_part p qs) \<le> length qs"
  "distinct (map pp_part qs) \<Longrightarrow> distinct (map pp_part (erase_part p qs))"
  by (induction qs) (auto dest: subsetD)

lemma bump_count: "count_of r (e\<lparr>ge_delivered := bump p (ge_delivered e), ge_partial := ps\<rparr>) =
    (if r = p \<and> count_of p e < 255 then count_of p e + 1 else count_of r e)"
  by (auto simp: count_of_def bump_def Let_def nth_append nth_list_update)

lemma bump_le: "list_all (\<lambda>c. c \<le> 255) d \<Longrightarrow> list_all (\<lambda>c. c \<le> (255 :: nat)) (bump p d)"
  by (auto simp: bump_def Let_def list_all_length nth_append nth_list_update)

text \<open>The parts in progress once the one at hand is among them.\<close>

definition opened :: "nat \<Rightarrow> guard_entry \<Rightarrow> partial_part list" where
  "opened p e = (case find_part p (ge_partial e) of
     Some _ \<Rightarrow> ge_partial e
   | None \<Rightarrow> (if length (ge_partial e) \<ge> kMaxPartialParts then tl (ge_partial e) else ge_partial e)
             @ [\<lparr>pp_part = p, pp_covered = []\<rparr>])"

lemma opened_wf:
  assumes "entry_wf len e"
  shows "distinct (map pp_part (opened p e))" "length (opened p e) \<le> kMaxPartialParts"
    "q \<in> set (opened p e) \<Longrightarrow> merged (pp_covered q) \<and> (\<forall>x. inside (pp_covered q) x \<longrightarrow> x < len (pp_part q))"
    "\<exists>q. find_part p (opened p e) = Some q \<and> pp_covered q = covered_of p e"
    "r \<noteq> p \<Longrightarrow> find_part r (opened p e) = find_part r (ge_partial e) \<or> find_part r (opened p e) = None"
proof -
  let ?ps = "if length (ge_partial e) \<ge> kMaxPartialParts then tl (ge_partial e) else ge_partial e"
  have ps: "set ?ps \<subseteq> set (ge_partial e)" "distinct (map pp_part ?ps)" "length ?ps < kMaxPartialParts \<or> length (ge_partial e) > kMaxPartialParts"
    using assms by (cases "ge_partial e"; auto simp: entry_wf_def kMaxPartialParts_def)+
  have tl: "find_part r ?ps = find_part r (ge_partial e) \<or> find_part r ?ps = None" for r
  proof (cases "length (ge_partial e) \<ge> kMaxPartialParts")
    case True
    show ?thesis
    proof (cases "ge_partial e")
      case (Cons q qs)
      then have "distinct (map pp_part (q # qs))" using assms by (simp add: entry_wf_def)
      then show ?thesis using True Cons by (auto simp: find_part_None)
    qed simp
  qed simp
  show "distinct (map pp_part (opened p e))"
    using ps assms by (auto simp: opened_def entry_wf_def find_part_None split: option.splits)
  show "length (opened p e) \<le> kMaxPartialParts"
    using ps(3) assms by (auto simp: opened_def entry_wf_def split: option.splits)
  show "q \<in> set (opened p e) \<Longrightarrow> merged (pp_covered q) \<and> (\<forall>x. inside (pp_covered q) x \<longrightarrow> x < len (pp_part q))"
    using ps(1) assms by (auto simp: opened_def entry_wf_def split: option.splits if_splits)
  show "\<exists>q. find_part p (opened p e) = Some q \<and> pp_covered q = covered_of p e"
  proof (cases "find_part p (ge_partial e)")
    case None
    then have "p \<notin> pp_part ` set ?ps" using ps(1) by (auto simp: find_part_None)
    then have "find_part p ?ps = None" by (simp only: find_part_None simp_thms)
    then show ?thesis using None by (simp add: opened_def find_part_append covered_of_def del: tl_append)
  qed (simp add: opened_def covered_of_def)
  show "r \<noteq> p \<Longrightarrow> find_part r (opened p e) = find_part r (ge_partial e) \<or> find_part r (opened p e) = None"
    using tl [of r] by (auto simp: opened_def find_part_append split: option.splits)
qed


lemma addPiece_opened:
  "addPiece p n s t e =
     (let rs = cover (s, t) (covered_of p e) in
      if length rs = 1 \<and> fst (hd rs) = 0 \<and> n \<le> snd (hd rs)
      then e\<lparr>ge_delivered := bump p (ge_delivered e), ge_partial := erase_part p (opened p e)\<rparr>
      else e\<lparr>ge_partial := set_covered p rs (opened p e)\<rparr>)"
proof -
  have "covered_of p e = (case find_part p (opened p e) of Some q \<Rightarrow> pp_covered q | None \<Rightarrow> [])"
  proof (cases "find_part p (ge_partial e)")
    case None
    let ?ps = "if length (ge_partial e) \<ge> kMaxPartialParts then tl (ge_partial e) else ge_partial e"
    have "set ?ps \<subseteq> set (ge_partial e)" by (cases "ge_partial e") auto
    then have "find_part p ?ps = None" using None unfolding find_part_None by blast
    then show ?thesis using None by (simp add: opened_def find_part_append covered_of_def)
  qed (simp add: opened_def covered_of_def)
  then show ?thesis unfolding addPiece_def Let_def opened_def by simp
qed

lemma addPiece_effect:
  assumes "entry_wf len e" "s < t" "t \<le> len p"
  defines "e' \<equiv> addPiece p (len p) s t e"
    and "full \<equiv> (\<forall>x < len p. s \<le> x \<and> x < t \<or> inside (covered_of p e) x)"
  shows "entry_wf len e'" "ge_key e' = ge_key e"
    "count_of p e' = count_of p e + (if full \<and> count_of p e < 255 then 1 else 0)"
    "inside (covered_of p e') x \<longleftrightarrow> \<not> full \<and> (s \<le> x \<and> x < t \<or> inside (covered_of p e) x)"
    "r \<noteq> p \<Longrightarrow> count_of r e' = count_of r e"
    "r \<noteq> p \<Longrightarrow> inside (covered_of r e') x \<Longrightarrow> inside (covered_of r e) x"
proof -
  let ?rs = "cover (s, t) (covered_of p e)" and ?ps = "opened p e"
  note ow = opened_wf [OF assms(1)]
  obtain q where q: "find_part p ?ps = Some q" "pp_covered q = covered_of p e" using ow(4) by blast
  have old: "merged (covered_of p e)" "inside (covered_of p e) x \<Longrightarrow> x < len p" for x
    using ow(3) find_part_Some [OF q(1)] unfolding q(2) [symmetric] by blast+
  note c = cover_correct [OF old(1) assms(2)]
  have new: "merged ?rs" "inside ?rs x = (s \<le> x \<and> x < t \<or> inside (covered_of p e) x)" for x
    using c by blast+
  have bound: "\<forall>x. inside ?rs x \<longrightarrow> x < len p" using new(2) old(2) assms(3) by auto
  have n0: "0 < len p" using assms(2,3) by simp
  have f: "length ?rs = 1 \<and> fst (hd ?rs) = 0 \<and> len p \<le> snd (hd ?rs) \<longleftrightarrow> full"
    unfolding merged_full [OF new(1) bound n0] full_def new(2) ..
  have e': "e' = (if full then e\<lparr>ge_delivered := bump p (ge_delivered e), ge_partial := erase_part p ?ps\<rparr>
      else e\<lparr>ge_partial := set_covered p ?rs ?ps\<rparr>)"
    unfolding e'_def addPiece_opened Let_def f ..
  have rest: "covered_of r e' = covered_of r e \<or> covered_of r e' = []" if "r \<noteq> p" for r
    using ow(5) [OF that] that find_erase_part [OF ow(1)] unfolding e' covered_of_def
    by (auto simp: find_set_covered)
  show "entry_wf len e'"
  proof (cases full)
    case True
    have "distinct (map pp_part (erase_part p ?ps))" "length (erase_part p ?ps) \<le> kMaxPartialParts"
      using erase_part_facts(3) [OF ow(1)] le_trans [OF erase_part_facts(2) ow(2)] by blast+
    then show ?thesis using True ow(3) erase_part_facts(1) [of p ?ps] assms(1) bump_le unfolding e'
      by (auto simp: entry_wf_def dest: subsetD)
  next
    case False
    have "length (set_covered p ?rs ?ps) = length ?ps"
      using arg_cong [OF set_covered_facts(1) [of p ?rs ?ps], of length] by simp
    moreover have "merged (pp_covered y) \<and> (\<forall>x. inside (pp_covered y) x \<longrightarrow> x < len (pp_part y))"
      if "y \<in> set (set_covered p ?rs ?ps)" for y
      using set_covered_facts(2) [OF that] ow(3) [of y] new(1) bound by auto
    ultimately show ?thesis using False ow(1,2) assms(1) unfolding e'
      by (simp add: entry_wf_def set_covered_facts(1))
  qed
  show "ge_key e' = ge_key e" unfolding e' by simp
  show "count_of p e' = count_of p e + (if full \<and> count_of p e < 255 then 1 else 0)"
    unfolding e' by (auto simp: bump_count) (auto simp: count_of_def)
  show "inside (covered_of p e') x \<longleftrightarrow> \<not> full \<and> (s \<le> x \<and> x < t \<or> inside (covered_of p e) x)"
    unfolding e' using new(2) find_erase_part [OF ow(1)] q(1)
    by (auto simp: covered_of_def find_set_covered)
  show "r \<noteq> p \<Longrightarrow> count_of r e' = count_of r e" unfolding e' by (auto simp: bump_count) (auto simp: count_of_def)
  show "r \<noteq> p \<Longrightarrow> inside (covered_of r e') x \<Longrightarrow> inside (covered_of r e) x" using rest [of r] by auto
qed

section \<open>Deliveries never exceed what was sent\<close>

definition credit :: "(nat \<Rightarrow> nat) \<Rightarrow> nat \<Rightarrow> guard_entry \<Rightarrow> nat" where
  "credit len p e = count_of p e * len p + card {x. inside (covered_of p e) x}"

lemma covered_finite:
  assumes "entry_wf len e"
  shows "{x. inside (covered_of p e) x} \<subseteq> {..<len p}" "finite {x. inside (covered_of p e) x}"
proof -
  show s: "{x. inside (covered_of p e) x} \<subseteq> {..<len p}"
  proof (cases "find_part p (ge_partial e)")
    case (Some q)
    then show ?thesis using assms find_part_Some [OF Some] by (auto simp: covered_of_def entry_wf_def)
  qed (simp add: covered_of_def)
  then show "finite {x. inside (covered_of p e) x}" using finite_subset by blast
qed

lemma addPiece_credit:
  assumes "entry_wf len e" "s < t" "t \<le> len p"
  shows "credit len r (addPiece p (len p) s t e) \<le> credit len r e + (if r = p then t - s else 0)"
proof -
  let ?e = "addPiece p (len p) s t e" and ?C = "{x. inside (covered_of p e) x}"
  define full where "full \<longleftrightarrow> (\<forall>x < len p. s \<le> x \<and> x < t \<or> inside (covered_of p e) x)"
  note ef = addPiece_effect [OF assms, folded full_def]
  show ?thesis
  proof (cases "r = p")
    case False
    have "card {x. inside (covered_of r ?e) x} \<le> card {x. inside (covered_of r e) x}"
      using ef(6) [OF False] covered_finite(2) [OF assms(1)] by (intro card_mono) auto
    then show ?thesis using False ef(5) by (simp add: credit_def)
  next
    case True
    have un: "card ({s..<t} \<union> ?C) \<le> (t - s) + card ?C" using card_Un_le [of "{s..<t}" ?C] by simp
    show ?thesis
    proof (cases full)
      case True
      have "{..<len p} \<subseteq> {s..<t} \<union> ?C" using True unfolding full_def by auto
      moreover have "finite ({s..<t} \<union> ?C)" using covered_finite(2) [OF assms(1)] by blast
      ultimately have "len p \<le> card ({s..<t} \<union> ?C)" using card_mono card_lessThan by metis
      moreover have "{x. inside (covered_of p ?e) x} = {}" using ef(4) True by simp
      moreover have "count_of p ?e * len p \<le> count_of p e * len p + len p"
        using mult_right_mono [of "count_of p ?e" "count_of p e + 1" "len p"] ef(3) by (simp split: if_splits)
      ultimately show ?thesis using un \<open>r = p\<close> by (simp add: credit_def)
    next
      case False
      have "{x. inside (covered_of p ?e) x} = {s..<t} \<union> ?C"
        by (rule set_eqI) (simp only: mem_Collect_eq Un_iff atLeastLessThan_iff ef(4) False simp_thms)
      moreover have "count_of p ?e = count_of p e" using ef(3) False by simp
      ultimately show ?thesis using un \<open>r = p\<close> by (simp only: credit_def if_True simp_thms)
    qed
  qed
qed


definition part_len :: "nat \<Rightarrow> nat \<Rightarrow> nat" where
  "part_len fileSize p = min (p * PARTSIZE + PARTSIZE) fileSize - p * PARTSIZE"

text \<open>How many bytes of part \<open>p\<close> the block from \<open>start\<close> to \<open>stop\<close> holds.\<close>

definition sent_in :: "nat \<Rightarrow> nat \<Rightarrow> nat \<Rightarrow> nat" where
  "sent_in p start stop = min stop (p * PARTSIZE + PARTSIZE) - max start (p * PARTSIZE)"

lemma sent_in_step:
  assumes "p * PARTSIZE \<le> start" "start < m" "m \<le> stop" "m \<le> p * PARTSIZE + PARTSIZE"
  shows "(if r = p then m - start else 0) + sent_in r m stop \<le> sent_in r start stop"
proof -
  consider "r = p" | "r < p" | "p < r" by linarith
  then show ?thesis
  proof cases
    case 2
    then have "(r + 1) * PARTSIZE \<le> p * PARTSIZE" by (intro mult_le_mono1) simp
    then have "r * PARTSIZE + PARTSIZE \<le> m" using assms by simp
    then show ?thesis using 2 by (simp add: sent_in_def)
  next
    case 3
    then have "(p + 1) * PARTSIZE \<le> r * PARTSIZE" by (intro mult_le_mono1) simp
    then have "max m (r * PARTSIZE) = max start (r * PARTSIZE)" using assms by simp
    then show ?thesis using 3 by (simp add: sent_in_def)
  next
    case 1
    then show ?thesis using assms by (auto simp: sent_in_def)
  qed
qed

lemma add_pieces_credit:
  assumes "entry_wf (part_len F) e" "stop \<le> F" "F \<le> 2 ^ 32 * PARTSIZE"
  shows "entry_wf (part_len F) (add_pieces F start stop e) \<and> ge_key (add_pieces F start stop e) = ge_key e \<and>
    credit (part_len F) r (add_pieces F start stop e) \<le> credit (part_len F) r e + sent_in r start stop"
  using assms
proof (induction F start stop e rule: add_pieces.induct)
  case (1 F start stop e)
  show ?case
  proof (cases "start < stop")
    case False
    then show ?thesis using "1.prems" by (simp add: add_pieces.simps [of F start])
  next
    case True
    define p where "p = start div PARTSIZE"
    define m where "m = min stop (min (p * PARTSIZE + PARTSIZE) F)"
    have p: "p * PARTSIZE \<le> start" "start < p * PARTSIZE + PARTSIZE"
      using div_mult_mod_eq [of start PARTSIZE] mod_less_divisor [OF PARTSIZE_pos, of start]
      unfolding p_def by linarith+
    have m: "start < m" "m \<le> stop" "m \<le> p * PARTSIZE + PARTSIZE" "m \<le> F"
      using True p(2) "1.prems"(2) by (auto simp: m_def)
    have "p * PARTSIZE < 2 ^ 32 * PARTSIZE" using p(1) m "1.prems"(3) by linarith
    then have small: "p mod 2 ^ 32 = p" by simp
    let ?e = "addPiece p (part_len F p) (start - p * PARTSIZE) (m - p * PARTSIZE) e"
    have piece: "start - p * PARTSIZE < m - p * PARTSIZE" "m - p * PARTSIZE \<le> part_len F p"
      using p m by (auto simp: part_len_def)
    have run: "add_pieces F start stop e = add_pieces F m stop ?e"
      using True m(1) small
      by (subst add_pieces.simps) (simp add: Let_def p_def [symmetric] m_def [symmetric] part_len_def)
    have len: "min (p * PARTSIZE + PARTSIZE) F - p * PARTSIZE = part_len F p" by (simp add: part_len_def)
    have ih: "entry_wf (part_len F) (add_pieces F m stop ?e) \<and> ge_key (add_pieces F m stop ?e) = ge_key ?e \<and>
      credit (part_len F) r (add_pieces F m stop ?e) \<le> credit (part_len F) r ?e + sent_in r m stop"
      using "1.IH" [OF True p_def refl refl m_def [folded len]] m(1) addPiece_effect(1) [OF "1.prems"(1) piece]
        "1.prems"(2,3) small by (simp add: len)
    have "credit (part_len F) r ?e \<le> credit (part_len F) r e + (if r = p then m - start else 0)"
      using addPiece_credit [OF "1.prems"(1) piece, of r] p m by (simp split: if_splits)
    then show ?thesis unfolding run using ih sent_in_step [OF p(1) m(1-3), of r] addPiece_effect(2) [OF "1.prems"(1) piece]
      by simp
  qed
qed

section \<open>The guard as a whole\<close>

definition guard_wf :: "(u8 list \<Rightarrow> nat) \<Rightarrow> guard \<Rightarrow> bool" where
  "guard_wf F g \<longleftrightarrow> distinct (map ge_key g) \<and> length g \<le> kMaxGuardEntries \<and>
     (\<forall>e \<in> set g. entry_wf (part_len (F (ge_key e))) e)"

definition guard_credit :: "(u8 list \<Rightarrow> nat) \<Rightarrow> u8 list \<Rightarrow> nat \<Rightarrow> guard \<Rightarrow> nat" where
  "guard_credit F k r g =
     (case find (\<lambda>e. ge_key e = k) g of None \<Rightarrow> 0 | Some e \<Rightarrow> credit (part_len (F k)) r e)"

lemma fresh_wf: "entry_wf len \<lparr>ge_key = k, ge_delivered = [], ge_partial = []\<rparr>"
  "credit len r \<lparr>ge_key = k, ge_delivered = [], ge_partial = []\<rparr> = 0"
  by (simp_all add: entry_wf_def credit_def count_of_def covered_of_def)

lemma find_butlast: "find P (butlast g) = find P g \<or> find P (butlast g) = None"
  by (induction g) auto

lemma find_filter_other: "k' \<noteq> k \<Longrightarrow> find (\<lambda>e. ge_key e = k') (filter (\<lambda>e. ge_key e \<noteq> k) g) = find (\<lambda>e. ge_key e = k') g"
  by (induction g) auto

lemma touch_correct:
  assumes "guard_wf F g"
  shows "\<exists>e rest. touch k g = e # rest \<and> ge_key e = k \<and> guard_wf F (e # rest) \<and>
    credit (part_len (F k)) r e = guard_credit F k r g \<and>
    (\<forall>k'. k' \<noteq> k \<longrightarrow> guard_credit F k' r rest \<le> guard_credit F k' r g)"
proof (cases "find (\<lambda>e. ge_key e = k) g")
  case (Some e)
  then have e: "e \<in> set g" "ge_key e = k" by (auto simp: find_Some_iff)
  let ?rest = "filter (\<lambda>e. ge_key e \<noteq> k) g"
  have "length ?rest < length g" by (rule length_filter_less [OF e(1)]) (simp add: e(2))
  then have "guard_wf F (e # ?rest)" using assms e by (auto simp: guard_wf_def distinct_map_filter)
  then show ?thesis using Some e(2) by (auto simp: touch_def guard_credit_def find_filter_other)
next
  case None
  let ?e = "\<lparr>ge_key = k, ge_delivered = [], ge_partial = []\<rparr>"
  let ?rest = "if length g \<ge> kMaxGuardEntries then butlast g else g"
  have sub: "set ?rest \<subseteq> set g" by (auto dest: in_set_butlastD)
  have "distinct (map ge_key ?rest)" using assms by (simp add: guard_wf_def map_butlast distinct_butlast)
  moreover have "length ?rest < kMaxGuardEntries" using assms by (auto simp: guard_wf_def kMaxGuardEntries_def)
  moreover have "k \<notin> ge_key ` set g" using None by (auto simp: find_None_iff)
  ultimately have "guard_wf F (?e # ?rest)" using assms sub fresh_wf(1) by (auto simp: guard_wf_def)
  moreover have "guard_credit F k' r ?rest \<le> guard_credit F k' r g" for k'
    using find_butlast [of "\<lambda>e. ge_key e = k'" g] by (auto simp: guard_credit_def)
  ultimately show ?thesis using None fresh_wf(2) by (simp add: touch_def guard_credit_def)
qed

lemma noteSent_credit:
  assumes "guard_wf F g" "F (makeKey u f) \<le> 2 ^ 32 * PARTSIZE"
  shows "guard_wf F (noteSent (Some u) (Some f) (F (makeKey u f)) start stop g) \<and>
    guard_credit F k r (noteSent (Some u) (Some f) (F (makeKey u f)) start stop g)
      \<le> guard_credit F k r g + (if k = makeKey u f then sent_in r start stop else 0)"
proof (cases "start \<ge> stop \<or> stop > F (makeKey u f)")
  case True
  then show ?thesis using assms(1) by (auto simp: noteSent_def)
next
  case False
  let ?k = "makeKey u f"
  obtain e rest where t: "touch ?k g = e # rest" "ge_key e = ?k" "guard_wf F (e # rest)"
    "credit (part_len (F ?k)) r e = guard_credit F ?k r g"
    "\<forall>k'. k' \<noteq> ?k \<longrightarrow> guard_credit F k' r rest \<le> guard_credit F k' r g"
    using touch_correct [OF assms(1)] by blast
  have wf: "entry_wf (part_len (F ?k)) e" using t(2,3) by (simp add: guard_wf_def)
  have run: "noteSent (Some u) (Some f) (F ?k) start stop g = add_pieces (F ?k) start stop e # rest"
    using False t(1) by (simp add: noteSent_def)
  note ap = add_pieces_credit [OF wf _ assms(2), of stop start r]
  show ?thesis unfolding run using ap False t by (auto simp: guard_wf_def guard_credit_def)
qed


section \<open>Properties\<close>

record sent_call =
  sc_user :: "u8 list"
  sc_file :: "u8 list"
  sc_start :: nat
  sc_stop :: nat

fun run_sent :: "(u8 list \<Rightarrow> nat) \<Rightarrow> sent_call list \<Rightarrow> guard \<Rightarrow> guard" where
  "run_sent F [] g = g"
| "run_sent F (c # cs) g =
     run_sent F cs (noteSent (Some (sc_user c)) (Some (sc_file c)) (F (makeKey (sc_user c) (sc_file c)))
       (sc_start c) (sc_stop c) g)"

definition sent_total :: "u8 list \<Rightarrow> nat \<Rightarrow> sent_call list \<Rightarrow> nat" where
  "sent_total k p cs =
     (\<Sum>c \<leftarrow> cs. if makeKey (sc_user c) (sc_file c) = k then sent_in p (sc_start c) (sc_stop c) else 0)"

lemma run_sent_credit:
  assumes "guard_wf F g" "\<forall>k. F k \<le> 2 ^ 32 * PARTSIZE"
  shows "guard_wf F (run_sent F cs g) \<and> guard_credit F k r (run_sent F cs g) \<le> guard_credit F k r g + sent_total k r cs"
  using assms(1)
proof (induction cs arbitrary: g)
  case (Cons c cs)
  let ?k = "makeKey (sc_user c) (sc_file c)"
  let ?g = "noteSent (Some (sc_user c)) (Some (sc_file c)) (F ?k) (sc_start c) (sc_stop c) g"
  have "F ?k \<le> 2 ^ 32 * PARTSIZE" using assms(2) by blast
  note n = noteSent_credit [OF Cons.prems this, of "sc_start c" "sc_stop c" k r]
  from Cons.IH [OF conjunct1 [OF n]] n show ?case
    by (auto simp: sent_total_def)
qed (simp add: sent_total_def)

text \<open>C35. A part is never counted as delivered more often than its bytes went out: after any
  sequence of sent blocks the count times the length of the part is at most the number of bytes
  of the part that were sent to that peer.\<close>

theorem deliveries_covered_by_bytes:
  assumes "\<forall>k. F k \<le> 2 ^ 32 * PARTSIZE"
  shows "deliveries (Some u) (Some f) offset (run_sent F cs []) * part_len (F (makeKey u f)) (offset div PARTSIZE)
    \<le> sent_total (makeKey u f) (offset div PARTSIZE) cs"
proof -
  let ?k = "makeKey u f" and ?p = "offset div PARTSIZE" and ?g = "run_sent F cs []"
  have "guard_credit F ?k ?p ?g \<le> sent_total ?k ?p cs"
    using run_sent_credit [of F "[]" cs ?k ?p] assms by (simp add: guard_wf_def guard_credit_def)
  moreover have "deliveries (Some u) (Some f) offset ?g * part_len (F ?k) ?p \<le> guard_credit F ?k ?p ?g"
    by (auto simp: deliveries_def guard_credit_def credit_def count_of_def Let_def split: option.splits)
  ultimately show ?thesis by linarith
qed

theorem deliveries_covered_by_bytes_witness:
  "deliveries (Some [1]) (Some [2]) 0 (run_sent (\<lambda>_. 100) [\<lparr>sc_user = [1], sc_file = [2], sc_start = 0, sc_stop = 60\<rparr>] [])
     * part_len 100 (0 div PARTSIZE) \<le> sent_total (makeKey [1] [2]) (0 div PARTSIZE)
         [\<lparr>sc_user = [1], sc_file = [2], sc_start = 0, sc_stop = 60\<rparr>]"
  by (rule deliveries_covered_by_bytes) (simp add: PARTSIZE_def)

text \<open>The count of a part goes up exactly when the piece completes it: when every byte of the
  part is in the piece or among the ranges recorded so far; then those are forgotten, otherwise
  the piece is added to them.  The counter saturates at 255.\<close>

theorem piece_counts_when_complete:
  assumes "entry_wf len e" "s < t" "t \<le> len p"
  shows "count_of p (addPiece p (len p) s t e) = count_of p e +
      (if (\<forall>x < len p. s \<le> x \<and> x < t \<or> inside (covered_of p e) x) \<and> count_of p e < 255 then 1 else 0) \<and>
    (inside (covered_of p (addPiece p (len p) s t e)) x \<longleftrightarrow>
      \<not> (\<forall>x < len p. s \<le> x \<and> x < t \<or> inside (covered_of p e) x) \<and> (s \<le> x \<and> x < t \<or> inside (covered_of p e) x))"
  by (intro conjI addPiece_effect [OF assms])

text \<open>The guard remembers at most 500 pairs, each once, and at most 16 parts in progress of
  each, whatever is sent.\<close>

theorem guard_bounded:
  assumes "\<forall>k. F k \<le> 2 ^ 32 * PARTSIZE"
  shows "length (run_sent F cs []) \<le> kMaxGuardEntries \<and> distinct (map ge_key (run_sent F cs [])) \<and>
    list_all (\<lambda>e. length (ge_partial e) \<le> kMaxPartialParts \<and> list_all (\<lambda>c. c \<le> 255) (ge_delivered e)) (run_sent F cs [])"
  using run_sent_credit [of F "[]" cs] assms by (auto simp: guard_wf_def entry_wf_def list_all_iff)

end
