(* ===== verification/Yenc_Crc.thy ===== *)
theory Yenc_Crc
  imports Prelude
begin

text \<open>
  The checksum of yEnc (yencCrc32 and its table in src/usenet/decode/YencDecoder.cpp, as built without
  the rapidyenc library), and CRC-32 as the bitwise division by the generator polynomial of IEEE 802.3,
  defined apart from the code, which the table computes.
\<close>

abbreviation ascii :: "string \<Rightarrow> u8 list" where
  "ascii s \<equiv> map of_char s"

section \<open>The checksum\<close>

definition crc_shift :: "u32 \<Rightarrow> u32" where
  "crc_shift c = (if c AND 1 \<noteq> 0 then 0xEDB88320 XOR drop_bit 1 c else drop_bit 1 c)"

definition crcTable :: "u32 list" where
  "crcTable = map (\<lambda>i. (crc_shift ^^ 8) (of_nat i)) [0..<256]"

definition crc_byte :: "u32 \<Rightarrow> u8 \<Rightarrow> u32" where
  "crc_byte c ch = crcTable ! unat ((c XOR ucast ch) AND 0xFF) XOR drop_bit 8 c"

definition yencCrc32 :: "u32 \<Rightarrow> u8 list \<Rightarrow> u32" where
  "yencCrc32 crc data = foldl crc_byte (crc XOR 0xFFFFFFFF) data XOR 0xFFFFFFFF"

section \<open>The table computes the bitwise checksum\<close>

lemma crc_shift_xor: "crc_shift (a XOR b) = crc_shift a XOR crc_shift b"
proof -
  have odd: "c AND 1 \<noteq> 0 \<longleftrightarrow> odd c" for c :: u32 by (simp add: and_one_eq odd_iff_mod_2_eq_one)
  show ?thesis
    unfolding crc_shift_def odd drop_bit_xor even_xor_iff
    by (cases "even a"; cases "even b") (simp_all add: xor.assoc xor.left_commute)
qed

lemma crc_shifts_xor: "(crc_shift ^^ n) (a XOR b) = (crc_shift ^^ n) a XOR (crc_shift ^^ n) b"
  by (induction n arbitrary: a b) (simp_all add: funpow_swap1 crc_shift_xor)

lemma crc_shifts_high: "take_bit n c = 0 \<Longrightarrow> (crc_shift ^^ n) c = drop_bit n c"
proof (induction n arbitrary: c)
  case (Suc n)
  have "\<not> bit (take_bit (Suc n) c) 0" unfolding Suc.prems by simp
  then have low: "\<not> bit c 0" unfolding bit_take_bit_iff by simp
  have high: "take_bit n (drop_bit 1 c) = 0" using Suc.prems by (simp add: take_bit_drop_bit)
  have "crc_shift c = drop_bit 1 c"
    using low by (simp add: crc_shift_def and_one_eq bit_0 mod_2_eq_odd)
  then show ?case using Suc.IH [OF high] by (simp add: funpow_swap1 drop_bit_drop_bit)
qed simp

text \<open>Without the table: the byte goes into the register, which is shifted eight times.\<close>

definition crc_bitwise :: "u32 \<Rightarrow> u8 \<Rightarrow> u32" where
  "crc_bitwise c ch = (crc_shift ^^ 8) (c XOR ucast ch)"

lemma crc_byte_bitwise: "crc_byte c ch = crc_bitwise c ch"
proof -
  let ?x = "c XOR ucast ch"
  have parts: "?x = (?x AND 0xFF) XOR (?x AND NOT 0xFF)"
    by (rule bit_word_eqI) (auto simp: bit_simps)
  have "unat (?x AND 0xFF) < 256"
  proof -
    have "?x AND 0xFF \<le> 0xFF" by (rule word_and_le1)
    then show ?thesis by (simp add: word_le_nat_alt)
  qed
  then have low: "crcTable ! unat (?x AND 0xFF) = (crc_shift ^^ 8) (?x AND 0xFF)"
    by (simp add: crcTable_def)
  have mask: "(0xFF :: u32) = mask 8" by (simp add: mask_eq_exp_minus_1)
  have "take_bit 8 (?x AND NOT 0xFF) = 0"
    unfolding mask by (rule bit_word_eqI) (auto simp: bit_simps)
  then have "(crc_shift ^^ 8) (?x AND NOT 0xFF) = drop_bit 8 (?x AND NOT 0xFF)"
    by (rule crc_shifts_high)
  also have "\<dots> = drop_bit 8 c"
    unfolding mask by (rule bit_word_eqI) (auto simp: bit_simps dest: bit_imp_le_length)
  finally have "(crc_shift ^^ 8) ((?x AND 0xFF) XOR (?x AND NOT 0xFF)) = (crc_shift ^^ 8) (?x AND 0xFF) XOR drop_bit 8 c"
    by (simp only: crc_shifts_xor)
  then show ?thesis unfolding crc_byte_def crc_bitwise_def low parts [symmetric] by (rule sym)
qed

lemma crc_byte_code [code]: "crc_byte c ch = crc_bitwise c ch"
  by (rule crc_byte_bitwise)

lemma yencCrc32_append: "yencCrc32 (yencCrc32 c xs) ys = yencCrc32 c (xs @ ys)"
  by (simp add: yencCrc32_def xor.assoc)

lemma yencCrc32_Nil [simp]: "yencCrc32 c [] = c"
  by (simp add: yencCrc32_def xor.assoc)

section \<open>The checksum is CRC-32\<close>

text \<open>The reference is written apart from the code, after IEEE 802.3: the generator polynomial by its
  exponents (below x to the 32), a register that takes the message bit by bit, every byte from
  its lowest bit, shifts towards its highest bit and is reduced by the generator; the register
  is read bit-reversed and complemented, before and after.\<close>

definition ieee_exponents :: "nat list" where
  "ieee_exponents = [26, 23, 22, 16, 12, 11, 10, 8, 7, 5, 4, 2, 1, 0]"

definition ieee_generator :: u32 where
  "ieee_generator = (\<Sum>e\<leftarrow>ieee_exponents. 2 ^ e)"

definition poly_step :: "u32 \<Rightarrow> bool \<Rightarrow> u32" where
  "poly_step r b = push_bit 1 r XOR (if bit r 31 \<noteq> b then ieee_generator else 0)"

definition wire_bits :: "u8 list \<Rightarrow> bool list" where
  "wire_bits xs = concat (map (\<lambda>x. map (bit x) [0..<8]) xs)"

definition crc32_ieee :: "u32 \<Rightarrow> u8 list \<Rightarrow> u32" where
  "crc32_ieee c xs = NOT (word_reverse (foldl poly_step (word_reverse (NOT c)) (wire_bits xs)))"

text \<open>The register of the code is that register reversed.\<close>

definition reflected_step :: "u32 \<Rightarrow> bool \<Rightarrow> u32" where
  "reflected_step r b = crc_shift (r XOR of_bool b)"

lemma generator_reflected: "word_reverse (0xEDB88320 :: u32) = ieee_generator"
  by code_simp

lemma crc_shift_bit: "crc_shift c = drop_bit 1 c XOR (if bit c 0 then 0xEDB88320 else 0)"
  by (simp add: crc_shift_def and_one_eq bit_0 mod_2_eq_odd xor.commute)

lemma reverse_shift: "word_reverse (drop_bit 1 (r :: u32)) = push_bit 1 (word_reverse r)"
proof (rule bit_word_eqI)
  fix n
  assume n: "n < LENGTH(32)"
  have "bit (word_reverse (drop_bit 1 r)) n \<longleftrightarrow> bit r (1 + (32 - Suc n))"
    using n by (simp only: bit_word_reverse_iff bit_drop_bit_eq o_def) simp
  moreover have "bit (push_bit 1 (word_reverse r)) n \<longleftrightarrow> 1 \<le> n \<and> bit r (32 - Suc (n - 1))"
    using n by (simp only: bit_word_reverse_iff bit_push_bit_iff) auto
  moreover have "\<not> bit r 32" by (auto dest: bit_imp_le_length)
  moreover have "n \<ge> 1 \<Longrightarrow> 1 + (32 - Suc n) = 32 - Suc (n - 1)" using n by simp
  ultimately show "bit (word_reverse (drop_bit 1 r)) n = bit (push_bit 1 (word_reverse r)) n"
    by (cases "n = 0") simp_all
qed

lemma reverse_xor: "word_reverse (a XOR b) = word_reverse a XOR word_reverse (b :: u32)"
  by (rule bit_word_eqI) (auto simp: bit_simps)

lemma reverse_zero: "word_reverse (0 :: u32) = 0"
  by (rule bit_word_eqI) (simp add: bit_simps)

lemma reflected_step_reverse: "word_reverse (reflected_step r b) = poly_step (word_reverse r) b"
proof -
  have d: "drop_bit 1 (r XOR of_bool b) = drop_bit 1 r"
    by (rule bit_word_eqI) (auto simp: bit_simps)
  have b: "bit (r XOR of_bool b) 0 \<longleftrightarrow> bit (word_reverse r) 31 \<noteq> b"
    by (auto simp: bit_simps)
  show ?thesis
    unfolding reflected_step_def crc_shift_bit d b poly_step_def reverse_xor reverse_shift
    by (simp add: generator_reflected reverse_zero)
qed

lemma foldl_reverse: "word_reverse (foldl reflected_step r bs) = foldl poly_step (word_reverse r) bs"
  by (induction bs arbitrary: r) (simp_all add: reflected_step_reverse)

text \<open>Bits fed one at a time, and the bits of a word exclusive-ored in at once.\<close>

lemma reflected_bits:
  "foldl reflected_step r (map (bit w) [0..<k]) XOR drop_bit k w = (crc_shift ^^ k) (r XOR w)"
proof (induction k)
  case (Suc k)
  let ?r = "foldl reflected_step r (map (bit w) [0..<k])"
  have split: "drop_bit k w = of_bool (bit w k) XOR (drop_bit k w AND NOT 1)"
    by (rule bit_word_eqI) (auto simp: bit_simps)
  have even: "crc_shift (drop_bit k w AND NOT 1) = drop_bit (Suc k) w"
  proof -
    have "drop_bit 1 (drop_bit k w AND NOT 1) = drop_bit (Suc k) w"
      by (rule bit_word_eqI)
        (simp only: bit_drop_bit_eq bit_and_iff bit_not_iff bit_1_iff o_def, auto dest: bit_imp_le_length)
    moreover have "\<not> bit (drop_bit k w AND NOT 1) 0" by (simp only: bit_and_iff bit_not_iff bit_1_iff) simp
    ultimately show ?thesis unfolding crc_shift_bit by simp
  qed
  have "(crc_shift ^^ Suc k) (r XOR w) = crc_shift (?r XOR drop_bit k w)"
    by (simp add: Suc.IH)
  also have "\<dots> = crc_shift ((?r XOR of_bool (bit w k)) XOR (drop_bit k w AND NOT 1))"
    by (subst split) (simp only: xor.assoc)
  also have "\<dots> = reflected_step ?r (bit w k) XOR drop_bit (Suc k) w"
    by (simp only: crc_shift_xor even reflected_step_def)
  finally show ?case by simp
qed simp

lemma crc_byte_bits: "crc_byte c ch = foldl reflected_step c (map (bit ch) [0..<8])"
proof -
  have same: "map (bit ch) [0..<8] = map (bit (ucast ch :: u32)) [0..<8]"
    by (rule map_cong) (auto simp: bit_simps)
  have "drop_bit 8 (ucast ch :: u32) = 0"
    by (rule bit_word_eqI) (auto simp: bit_simps dest: bit_imp_le_length)
  then show ?thesis
    unfolding same crc_byte_bitwise crc_bitwise_def reflected_bits [of c "ucast ch" 8, symmetric] by simp
qed

lemma ones_bit: "n < 32 \<Longrightarrow> bit (0xFFFFFFFF :: u32) n"
proof -
  have "(0xFFFFFFFF :: u32) = mask 32" by (simp add: mask_eq_exp_minus_1)
  then show "n < 32 \<Longrightarrow> bit (0xFFFFFFFF :: u32) n" by (simp only: bit_mask_iff) simp
qed

lemma yencCrc32_ieee: "yencCrc32 c xs = crc32_ieee c xs"
proof -
  have "foldl crc_byte r xs = foldl reflected_step r (wire_bits xs)" for r
    by (induction xs arbitrary: r) (simp_all add: wire_bits_def crc_byte_bits foldl_append del: upt_conv_Cons)
  moreover have "x XOR 0xFFFFFFFF = NOT x" for x :: u32
  proof (rule bit_word_eqI)
    fix n
    assume "n < LENGTH(32)"
    with ones_bit [of n] show "bit (x XOR 0xFFFFFFFF) n = bit (NOT x) n"
      by (simp only: bit_xor_iff bit_not_iff) simp
  qed
  ultimately show ?thesis
    by (simp add: yencCrc32_def crc32_ieee_def foldl_reverse [symmetric])
qed

lemma eight_times: "(f ^^ 8) x = f (f (f (f (f (f (f (f x)))))))"
  by (simp add: eval_nat_numeral)

lemma crc_check_value: "yencCrc32 0 (ascii ''123456789'') = 0xCBF43926"
  by (simp add: yencCrc32_def crc_byte_bitwise crc_bitwise_def eight_times crc_shift_def)

text \<open>C38. The table-driven checksum is CRC-32: for every start and every data it is the value of the
  bitwise division by the generator of IEEE 802.3, defined apart from the code; folding it over
  pieces of the data gives the checksum of the whole; and the checksum of the digits 1 to 9 is
  the published check value.\<close>

theorem checksum_is_crc32:
  "yencCrc32 c xs = crc32_ieee c xs \<and>
   yencCrc32 (yencCrc32 c xs) ys = yencCrc32 c (xs @ ys) \<and>
   yencCrc32 0 (ascii ''123456789'') = 0xCBF43926"
  using yencCrc32_ieee yencCrc32_append crc_check_value by blast

end
