(* ===== verification/Yenc.thy ===== *)
theory Yenc
  imports Yenc_Crc
begin

text \<open>
  The streaming yEnc decoder (src/usenet/decode/YencDecoder.cpp), as built without the
  rapidyenc library: the header fields, the state of an article, and the
  two ways of feeding it, by lines and by raw bytes split anywhere.  A byte array is a list
  of bytes.  The number readers of QByteArray are the argument qt, their result None where
  the conversion reports failure; the file name is kept as the bytes of the header.
\<close>

section \<open>Header fields\<close>

definition startsWith :: "u8 list \<Rightarrow> u8 list \<Rightarrow> bool" where
  "startsWith line p \<longleftrightarrow> take (length p) line = p"

text \<open>The first occurrence at or after a position.\<close>

fun index_in :: "u8 list \<Rightarrow> u8 list \<Rightarrow> nat option" where
  "index_in p [] = (if p = [] then Some 0 else None)"
| "index_in p (x # xs) = (if startsWith (x # xs) p then Some 0 else map_option Suc (index_in p xs))"

definition indexOf :: "u8 list \<Rightarrow> u8 list \<Rightarrow> nat \<Rightarrow> nat option" where
  "indexOf line p i = (if i > length line then None else map_option (\<lambda>k. i + k) (index_in p (drop i line)))"

lemma indexOf_bounds: "indexOf line p i = Some at \<Longrightarrow> i \<le> at \<and> at \<le> length line"
proof -
  have "index_in p xs = Some k \<Longrightarrow> k \<le> length xs" for xs k
    by (induction xs arbitrary: k) (auto split: if_splits)
  then show "indexOf line p i = Some at \<Longrightarrow> i \<le> at \<and> at \<le> length line"
    by (fastforce simp: indexOf_def split: if_splits)
qed

text \<open>The occurrence of a key that starts a word.\<close>

function word_index :: "u8 list \<Rightarrow> u8 list \<Rightarrow> nat \<Rightarrow> nat option" where
  "word_index line p i =
     (case indexOf line p i of
        None \<Rightarrow> None
      | Some at \<Rightarrow> if at > 0 \<and> line ! (at - 1) \<noteq> 32 then word_index line p (at + 1) else Some at)"
  by pat_completeness auto
termination
  by (relation "measure (\<lambda>(line, p, i). Suc (length line) - i)") (auto dest: indexOf_bounds)

declare word_index.simps [simp del]

definition headerValue :: "u8 list \<Rightarrow> u8 list \<Rightarrow> u8 list" where
  "headerValue line key =
     (case word_index line key 0 of
        None \<Rightarrow> []
      | Some at \<Rightarrow>
          let from_pos = at + length key;
              to_pos = (case indexOf line [32] from_pos of None \<Rightarrow> length line | Some k \<Rightarrow> k)
          in take (to_pos - from_pos) (drop from_pos line))"

record qt_numbers =
  toLongLong :: "u8 list \<Rightarrow> int option"
  toUIntHex :: "u8 list \<Rightarrow> u32 option"

definition headerNumber :: "qt_numbers \<Rightarrow> u8 list \<Rightarrow> u8 list \<Rightarrow> int \<Rightarrow> int" where
  "headerNumber qt line key fallback =
     (let v = headerValue line key
      in if v = [] then fallback else case toLongLong qt v of Some n \<Rightarrow> n | None \<Rightarrow> fallback)"

fun decimal :: "int \<Rightarrow> u8 list \<Rightarrow> int option" where
  "decimal n [] = Some n"
| "decimal n (c # cs) = (if c < 48 \<or> c > 57 then None else decimal (n * 10 + (uint c - 48)) cs)"

definition headerDecimal :: "u8 list \<Rightarrow> u8 list \<Rightarrow> int" where
  "headerDecimal line key =
     (let v = headerValue line key
      in if v = [] \<or> length v > 18 then -1 else case decimal 0 v of Some n \<Rightarrow> n | None \<Rightarrow> -1)"

section \<open>The state of an article\<close>

datatype yenc_status = Incomplete | Ok | NoBinaryData | CrcMismatch | SizeMismatch | Malformed

record yenc =
  y_sink :: "u8 list"
  y_status :: yenc_status
  y_sawBegin :: bool
  y_sawPart :: bool
  y_partValid :: bool
  y_escape :: bool
  y_fileName :: "u8 list"
  y_beginLine :: "u8 list"
  y_fileSize :: int
  y_offset :: int
  y_endOffset :: int
  y_part :: "32 word"
  y_total :: "32 word"
  y_decodedBytes :: nat
  y_expectedSize :: int
  y_crc :: u32
  y_expectedCrc :: u32
  y_haveExpectedCrc :: bool
  y_sawEnd :: bool
  y_lineBuf :: "u8 list"

text \<open>The sink keeps what it received; everything else starts over.\<close>

definition reset :: "u8 list \<Rightarrow> yenc" where
  "reset sunk = \<lparr>y_sink = sunk, y_status = NoBinaryData, y_sawBegin = False, y_sawPart = False,
     y_partValid = True, y_escape = False, y_fileName = [], y_beginLine = [], y_fileSize = 0,
     y_offset = 0, y_endOffset = 0, y_part = 0, y_total = 0, y_decodedBytes = 0,
     y_expectedSize = -1, y_crc = 0, y_expectedCrc = 0, y_haveExpectedCrc = False,
     y_sawEnd = False, y_lineBuf = []\<rparr>"

definition parsePart :: "u8 list \<Rightarrow> yenc \<Rightarrow> yenc" where
  "parsePart line s =
     (let begin_pos = headerDecimal line (ascii ''begin=''); end_pos = headerDecimal line (ascii ''end='')
      in s\<lparr>y_sawPart := True,
           y_partValid := (begin_pos \<ge> 1 \<and> end_pos \<ge> begin_pos),
           y_offset := (if begin_pos > 0 then begin_pos - 1 else 0),
           y_endOffset := (if end_pos > 0 then end_pos else 0)\<rparr>)"

definition parseBegin :: "qt_numbers \<Rightarrow> u8 list \<Rightarrow> yenc \<Rightarrow> yenc" where
  "parseBegin qt line s0 =
     (let s = s0\<lparr>y_sawBegin := True, y_status := Incomplete, y_beginLine := line,
                 y_part := word_of_int (headerNumber qt line (ascii ''part='') 0),
                 y_total := word_of_int (headerNumber qt line (ascii ''total='') 0),
                 y_fileSize := headerNumber qt line (ascii ''size='') 0\<rparr>
      in case indexOf line (ascii ''name='') 0 of
           None \<Rightarrow> s
         | Some nameAt \<Rightarrow>
             let rest = drop (nameAt + 5) line
             in case indexOf rest (ascii ''=ypart '') 0 of
                  Some glued \<Rightarrow> parsePart (drop glued rest) (s\<lparr>y_fileName := take glued rest\<rparr>)
                | None \<Rightarrow> s\<lparr>y_fileName := rest\<rparr>)"

text \<open>The checksum field that counts for the article, and the verdict at its end.\<close>

definition crc_text :: "u8 list \<Rightarrow> bool \<Rightarrow> u8 list" where
  "crc_text line sawPart =
     (let t = headerValue line (if sawPart then ascii ''pcrc32='' else ascii ''crc32='')
      in if t = [] \<and> \<not> sawPart then headerValue line (ascii ''pcrc32='') else t)"

definition end_status :: "yenc \<Rightarrow> yenc_status" where
  "end_status s =
     (if \<not> y_sawBegin s then NoBinaryData
      else if y_expectedSize s < 0 \<or> y_expectedSize s \<noteq> int (y_decodedBytes s) then SizeMismatch
      else if y_sawPart s \<and> (\<not> y_partValid s \<or> y_endOffset s - y_offset s \<noteq> int (y_decodedBytes s)) then SizeMismatch
      else if y_haveExpectedCrc s \<and> y_expectedCrc s \<noteq> y_crc s then CrcMismatch
      else Ok)"

definition parseEnd :: "qt_numbers \<Rightarrow> u8 list \<Rightarrow> yenc \<Rightarrow> yenc" where
  "parseEnd qt line s0 =
     (let s1 = s0\<lparr>y_sawEnd := True, y_expectedSize := headerNumber qt line (ascii ''size='') (-1)\<rparr>;
          t = crc_text line (y_sawPart s1);
          s = (if t \<noteq> [] then
                 s1\<lparr>y_expectedCrc := (case toUIntHex qt t of Some c \<Rightarrow> c | None \<Rightarrow> 0),
                    y_haveExpectedCrc := (toUIntHex qt t \<noteq> None)\<rparr>
               else s1)
      in s\<lparr>y_status := end_status s\<rparr>)"

text \<open>The loop of decodeInto: the bytes produced, and the escape left open at the end.\<close>

fun decode_bytes :: "bool \<Rightarrow> u8 list \<Rightarrow> u8 list \<times> bool" where
  "decode_bytes esc [] = ([], esc)"
| "decode_bytes True (ch # cs) = (case decode_bytes False cs of (out, e) \<Rightarrow> ((ch - 64 - 42) # out, e))"
| "decode_bytes False (ch # cs) =
     (if ch = 61 then
        (case cs of
           [] \<Rightarrow> ([], True)
         | ch' # cs' \<Rightarrow> (case decode_bytes False cs' of (out, e) \<Rightarrow> ((ch' - 64 - 42) # out, e)))
      else case decode_bytes False cs of (out, e) \<Rightarrow> ((ch - 42) # out, e))"

definition decodeInto :: "u8 list \<Rightarrow> yenc \<Rightarrow> yenc" where
  "decodeInto line s =
     (case decode_bytes (y_escape s) line of (out, e) \<Rightarrow>
        let s' = s\<lparr>y_escape := e\<rparr>
        in if out = [] then s'
           else s'\<lparr>y_crc := yencCrc32 (y_crc s) out, y_decodedBytes := y_decodedBytes s + length out,
                   y_sink := y_sink s @ out\<rparr>)"

definition feedLine :: "qt_numbers \<Rightarrow> u8 list \<Rightarrow> yenc \<Rightarrow> yenc" where
  "feedLine qt line s =
     (if startsWith line (ascii ''=ybegin '') then parseBegin qt line s
      else if startsWith line (ascii ''=ypart '') then parsePart line s
      else if startsWith line (ascii ''=yend'') then parseEnd qt line s
      else if \<not> y_sawBegin s then s
      else decodeInto line s)"

section \<open>Raw bytes\<close>

text \<open>Payload and PayloadNext only choose between the line mode and the block mode; without
  rapidyenc both are Consumed.\<close>

datatype raw_line = Consumed | Ended

definition chop_eol :: "u8 list \<Rightarrow> u8 list" where
  "chop_eol line = rev (dropWhile (\<lambda>c. c = 10 \<or> c = 13) (rev line))"

definition handleRawLine :: "qt_numbers \<Rightarrow> u8 list \<Rightarrow> yenc \<Rightarrow> raw_line \<times> yenc" where
  "handleRawLine qt lineWithEol s =
     (let line0 = chop_eol lineWithEol
      in if line0 = [46] then (Ended, s)
         else let line = (if startsWith line0 [46] then drop 1 line0 else line0)
         in if startsWith line (ascii ''=ybegin '') then (Consumed, parseBegin qt line s)
            else if startsWith line (ascii ''=ypart '') then (Consumed, parsePart line s)
            else if startsWith line (ascii ''=yend'') then (Consumed, parseEnd qt line s)
            else if \<not> y_sawBegin s \<or> y_sawEnd s then (Consumed, s)
            else (Consumed, decodeInto line s))"

text \<open>The state, the bytes consumed, and whether the end of the article was among them.\<close>

function feedRaw :: "qt_numbers \<Rightarrow> u8 list \<Rightarrow> yenc \<Rightarrow> yenc \<times> nat \<times> bool" where
  "feedRaw qt wire s =
     (if wire = [] then (s, 0, False)
      else let l = takeWhile (\<lambda>c. c \<noteq> 10) wire; rest = dropWhile (\<lambda>c. c \<noteq> 10) wire
      in case rest of
           [] \<Rightarrow> (s\<lparr>y_lineBuf := y_lineBuf s @ wire\<rparr>, length wire, False)
         | nl # after \<Rightarrow>
             (case handleRawLine qt (y_lineBuf s @ l @ [nl]) s of
                (Ended, s') \<Rightarrow> (s'\<lparr>y_lineBuf := []\<rparr>, length l + 1, True)
              | (Consumed, s') \<Rightarrow>
                  (case feedRaw qt after (s'\<lparr>y_lineBuf := []\<rparr>) of
                     (s'', n, e) \<Rightarrow> (s'', length l + 1 + n, e))))"
  by pat_completeness auto
termination
proof (relation "measure (\<lambda>(qt, wire, s). length wire)", goal_cases)
  case (2 qt wire s l rest nl after)
  then have "nl # after = dropWhile (\<lambda>c. c \<noteq> 10) wire" by simp
  then have "length (nl # after) \<le> length wire" by (metis length_dropWhile_le)
  then show ?case by simp
qed simp

declare feedRaw.simps [simp del]

section \<open>Decoding inverts encoding\<close>

definition yenc_code :: "u8 \<Rightarrow> u8 list" where
  "yenc_code b = (if b + 42 \<in> {0, 10, 13, 61} then [61, b + 42 + 64] else [b + 42])"

definition yenc_encode :: "u8 list \<Rightarrow> u8 list" where
  "yenc_encode xs = concat (map yenc_code xs)"

lemma decode_append:
  "decode_bytes e (xs @ ys) =
     (case decode_bytes e xs of (o1, e1) \<Rightarrow> (case decode_bytes e1 ys of (o2, e2) \<Rightarrow> (o1 @ o2, e2)))"
  by (induction e xs rule: decode_bytes.induct) (auto split: prod.splits list.splits)

lemma decode_encode: "decode_bytes False (yenc_encode xs) = (xs, False)"
proof (induction xs)
  case (Cons x xs)
  have "decode_bytes False (yenc_code x @ yenc_encode xs) = (x # xs, False)"
    using Cons.IH by (auto simp: yenc_code_def)
  then show ?case by (simp add: yenc_encode_def)
qed (simp add: yenc_encode_def)

section \<open>Lines on the wire\<close>

text \<open>What a server sends for a line: a leading dot doubled, then the line end.\<close>

definition wire_line :: "u8 list \<Rightarrow> u8 list" where
  "wire_line l = (if startsWith l [46] then 46 # l else l) @ [13, 10]"

definition no_eol :: "u8 list \<Rightarrow> bool" where
  "no_eol l \<longleftrightarrow> 10 \<notin> set l \<and> 13 \<notin> set l"

text \<open>One line of the body, without its wire form.\<close>

definition body_line :: "qt_numbers \<Rightarrow> u8 list \<Rightarrow> yenc \<Rightarrow> yenc" where
  "body_line qt line s =
     (if startsWith line (ascii ''=ybegin '') then parseBegin qt line s
      else if startsWith line (ascii ''=ypart '') then parsePart line s
      else if startsWith line (ascii ''=yend'') then parseEnd qt line s
      else if \<not> y_sawBegin s \<or> y_sawEnd s then s
      else decodeInto line s)"

lemma chop_eol_line: "no_eol l \<Longrightarrow> chop_eol (l @ [13, 10]) = l"
  by (cases l rule: rev_cases) (auto simp: chop_eol_def no_eol_def)

lemma startsWith_single: "startsWith l [x] \<longleftrightarrow> (\<exists>r. l = x # r)"
  by (cases l) (auto simp: startsWith_def)

lemma handle_wire_line:
  assumes "no_eol l"
  shows "handleRawLine qt (wire_line l) s = (Consumed, body_line qt l s)"
proof -
  let ?w = "if startsWith l [46] then 46 # l else l"
  have "chop_eol (wire_line l) = ?w"
    using chop_eol_line [of ?w] assms by (simp add: wire_line_def no_eol_def)
  moreover have "?w \<noteq> [46]" "(if startsWith ?w [46] then drop 1 ?w else ?w) = l"
    by (auto simp: startsWith_single startsWith_def)
  ultimately show ?thesis by (simp add: handleRawLine_def body_line_def Let_def)
qed

lemma lineBuf_frame [simp]:
  "y_lineBuf (parsePart l s) = y_lineBuf s" "y_lineBuf (parseBegin qt l s) = y_lineBuf s"
  "y_lineBuf (parseEnd qt l s) = y_lineBuf s" "y_lineBuf (decodeInto l s) = y_lineBuf s"
  by (auto simp: parsePart_def parseBegin_def parseEnd_def decodeInto_def Let_def split: option.splits prod.splits)

lemma lineBuf_body_line [simp]: "y_lineBuf (body_line qt l s) = y_lineBuf s"
  by (simp add: body_line_def)

lemma startsWith_take: "startsWith l p \<Longrightarrow> k \<le> length p \<Longrightarrow> take k l = take k p"
  unfolding startsWith_def by (metis min.absorb1 take_take)

lemma lineBuf_id: "y_lineBuf s = [] \<Longrightarrow> s\<lparr>y_lineBuf := []\<rparr> = s"
  by simp

lemma feedRaw_Nil [simp]: "feedRaw qt [] s = (s, 0, False)"
  by (subst feedRaw.simps) simp

lemma feedRaw_partial: "10 \<notin> set w \<Longrightarrow> w \<noteq> [] \<Longrightarrow> feedRaw qt w s = (s\<lparr>y_lineBuf := y_lineBuf s @ w\<rparr>, length w, False)"
proof -
  assume w: "10 \<notin> set w" "w \<noteq> []"
  have d: "dropWhile (\<lambda>c. c \<noteq> 10) w = []" using w(1) by (auto simp: dropWhile_eq_Nil_conv)
  show ?thesis using w(2) by (subst feedRaw.simps) (simp only: Let_def d list.case if_False)
qed

lemma feedRaw_line:
  assumes "10 \<notin> set l"
  shows "feedRaw qt (l @ 10 # rest) s =
    (case handleRawLine qt (y_lineBuf s @ l @ [10]) s of
       (Ended, s') \<Rightarrow> (s'\<lparr>y_lineBuf := []\<rparr>, length l + 1, True)
     | (Consumed, s') \<Rightarrow> (case feedRaw qt rest (s'\<lparr>y_lineBuf := []\<rparr>) of (s'', n, e) \<Rightarrow> (s'', length l + 1 + n, e)))"
proof -
  have "takeWhile (\<lambda>c. c \<noteq> 10) (l @ 10 # rest) = l" "dropWhile (\<lambda>c. c \<noteq> 10) (l @ 10 # rest) = 10 # rest"
    using assms by (auto simp: takeWhile_append dropWhile_append)
  then show ?thesis by (subst feedRaw.simps) (simp add: Let_def)
qed

lemma feedRaw_body:
  assumes "\<forall>l \<in> set ls. no_eol l" "y_lineBuf s = []"
  shows "feedRaw qt (concat (map wire_line ls) @ [46, 13, 10]) s =
    (foldl (\<lambda>s l. body_line qt l s) s ls, length (concat (map wire_line ls) @ [46, 13, 10]), True)"
  using assms
proof (induction ls arbitrary: s)
  case Nil
  have "feedRaw qt ([46, 13] @ 10 # []) s = (s\<lparr>y_lineBuf := []\<rparr>, 3, True)"
    using Nil.prems(2) by (subst feedRaw_line) (simp_all add: handleRawLine_def chop_eol_def)
  moreover have "s\<lparr>y_lineBuf := []\<rparr> = s" using Nil.prems(2) by simp
  ultimately show ?case by simp
next
  case (Cons l ls)
  obtain w where w: "wire_line l = w @ [10]" "10 \<notin> set w"
    using Cons.prems(1) by (auto simp: wire_line_def no_eol_def)
  let ?rest = "concat (map wire_line ls) @ [46, 13, 10]"
  have h: "handleRawLine qt (w @ [10]) s = (Consumed, body_line qt l s)"
    unfolding w(1) [symmetric] by (rule handle_wire_line) (use Cons.prems(1) in simp)
  have id: "body_line qt l s\<lparr>y_lineBuf := []\<rparr> = body_line qt l s"
    by (rule lineBuf_id) (use Cons.prems(2) in simp)
  have "feedRaw qt (w @ 10 # ?rest) s = (foldl (\<lambda>s l. body_line qt l s) (body_line qt l s) ls, length w + 1 + length ?rest, True)"
    using Cons.IH [of "body_line qt l s"] Cons.prems
    by (subst feedRaw_line [OF w(2)]) (simp add: h id)
  then show ?case by (simp add: w(1))
qed

section \<open>Payload lines\<close>

text \<open>No code of the encoder starts a control line.\<close>

lemma escaped_code: "c \<in> {0, 10, 13, 61} \<Longrightarrow> c + 64 \<noteq> (121 :: u8) \<and> c + 64 \<noteq> (61 :: u8)"
  by auto

lemma successively_code: "successively (\<lambda>a b. \<not> (a = 61 \<and> b = 121)) (yenc_code x)"
proof (cases "x + 42 \<in> {0, 10, 13, 61}")
  case True
  then have "x + 42 + 64 \<noteq> 121" using escaped_code by blast
  then show ?thesis unfolding yenc_code_def if_P [OF True] successively.simps by blast
next
  case False
  show ?thesis unfolding yenc_code_def if_not_P [OF False] by simp
qed

lemma last_code: "yenc_code x \<noteq> [] \<and> last (yenc_code x) \<noteq> 61"
proof (cases "x + 42 \<in> {0, 10, 13, 61}")
  case True
  then have "x + 42 + 64 \<noteq> 61" using escaped_code by blast
  then show ?thesis unfolding yenc_code_def if_P [OF True] by (simp only: last.simps list.simps if_False if_True simp_thms)
next
  case False
  then have "x + 42 \<noteq> 61" by blast
  then show ?thesis unfolding yenc_code_def if_not_P [OF False] by (simp only: last.simps list.simps if_True simp_thms)
qed

lemma encode_no_control: "successively (\<lambda>a b. \<not> (a = 61 \<and> b = 121)) (yenc_encode xs)"
proof (induction xs)
  case (Cons x xs)
  then show ?case using successively_code last_code by (simp add: yenc_encode_def successively_append_iff)
qed (simp add: yenc_encode_def)

lemma payload_not_control:
  assumes "concat ls = yenc_encode xs" "l \<in> set ls"
  shows "\<not> startsWith l (ascii (CHR ''='' # CHR ''y'' # t))"
proof
  assume "startsWith l (ascii (CHR ''='' # CHR ''y'' # t))"
  then obtain r where r: "l = 61 # 121 # r"
    by (cases l; cases "tl l") (auto simp: startsWith_def)
  obtain us vs where "ls = us @ l # vs" using assms(2) by (auto simp: in_set_conv_decomp)
  then have "yenc_encode xs = concat us @ 61 # 121 # (r @ concat vs)" using assms(1) r by simp
  with encode_no_control [of xs] show False by (simp add: successively_append_iff)
qed

lemma decodeInto_twice: "decodeInto ys (decodeInto xs s) = decodeInto (xs @ ys) s"
  by (auto simp: decodeInto_def decode_append yencCrc32_append Let_def split: prod.splits)

lemma decodeInto_Nil [simp]: "decodeInto [] s = s"
  by (simp add: decodeInto_def Let_def)

lemma decodeInto_frame [simp]:
  "y_sawBegin (decodeInto l s) = y_sawBegin s" "y_sawEnd (decodeInto l s) = y_sawEnd s"
  by (auto simp: decodeInto_def Let_def split: prod.splits)

lemma payload_lines:
  assumes "\<forall>l \<in> set ls. \<not> startsWith l (ascii ''=ybegin '') \<and> \<not> startsWith l (ascii ''=ypart '') \<and> \<not> startsWith l (ascii ''=yend'')"
    "y_sawBegin s" "\<not> y_sawEnd s"
  shows "foldl (\<lambda>s l. body_line qt l s) s ls = decodeInto (concat ls) s"
  using assms
proof (induction ls arbitrary: s)
  case (Cons l ls)
  then have "body_line qt l s = decodeInto l s" by (simp add: body_line_def)
  then show ?case using Cons by (simp add: decodeInto_twice)
qed simp

lemma decodeInto_encode:
  "\<not> y_escape s \<Longrightarrow> decodeInto (yenc_encode xs) s =
     s\<lparr>y_crc := yencCrc32 (y_crc s) xs, y_decodedBytes := y_decodedBytes s + length xs, y_sink := y_sink s @ xs\<rparr>"
  by (cases "xs = []") (simp_all add: decodeInto_def decode_encode Let_def)

section \<open>Chunks\<close>

text \<open>Chunks as they come from the socket, fed until the article ends.\<close>

fun feedChunks :: "qt_numbers \<Rightarrow> u8 list list \<Rightarrow> yenc \<Rightarrow> yenc \<times> nat \<times> bool" where
  "feedChunks qt [] s = (s, 0, False)"
| "feedChunks qt (c # cs) s =
     (case feedRaw qt c s of (s1, n1, e) \<Rightarrow>
        if e then (s1, n1, True)
        else (case feedChunks qt cs s1 of (s2, n2, e2) \<Rightarrow> (s2, n1 + n2, e2)))"

lemma handle_lineBuf:
  "handleRawLine qt line (s\<lparr>y_lineBuf := b\<rparr>) = (case handleRawLine qt line s of (r, s') \<Rightarrow> (r, s'\<lparr>y_lineBuf := b\<rparr>))"
proof -
  have part: "parsePart l (s\<lparr>y_lineBuf := b\<rparr>) = (parsePart l s)\<lparr>y_lineBuf := b\<rparr>" for l s
    by (simp add: parsePart_def Let_def)
  have begin_line: "parseBegin qt l (s\<lparr>y_lineBuf := b\<rparr>) = (parseBegin qt l s)\<lparr>y_lineBuf := b\<rparr>" for l
    by (simp add: parseBegin_def parsePart_def Let_def split: option.split)
  have end_line: "parseEnd qt l (s\<lparr>y_lineBuf := b\<rparr>) = (parseEnd qt l s)\<lparr>y_lineBuf := b\<rparr>" for l
    by (simp add: parseEnd_def Let_def end_status_def)
  have data: "decodeInto l (s\<lparr>y_lineBuf := b\<rparr>) = (decodeInto l s)\<lparr>y_lineBuf := b\<rparr>" for l
    by (simp add: decodeInto_def Let_def split: prod.split)
  show ?thesis by (simp add: handleRawLine_def Let_def part begin_line end_line data)
qed

lemma feedRaw_append:
  "feedRaw qt (xs @ ys) s =
     (case feedRaw qt xs s of (s1, n1, e) \<Rightarrow>
        if e then (s1, n1, True) else (case feedRaw qt ys s1 of (s2, n2, e2) \<Rightarrow> (s2, n1 + n2, e2)))"
proof (induction xs arbitrary: s rule: length_induct)
  case (1 xs)
  show ?case
  proof (cases "10 \<in> set xs")
    case True
    then obtain l r where xs: "xs = l @ 10 # r" "10 \<notin> set l" by (meson split_list_first)
    then have ih: "feedRaw qt (r @ ys) s' =
       (case feedRaw qt r s' of (s1, n1, e) \<Rightarrow>
          if e then (s1, n1, True) else (case feedRaw qt ys s1 of (s2, n2, e2) \<Rightarrow> (s2, n1 + n2, e2)))" for s'
      using "1.IH" [rule_format, of r] by simp
    have split: "xs @ ys = l @ 10 # (r @ ys)" by (simp add: xs)
    show ?thesis
      unfolding split unfolding xs(1)
      by (simp add: feedRaw_line [OF xs(2)] ih split: prod.splits raw_line.splits)
  next
    case False
    show ?thesis
    proof (cases "xs = []")
      case False
      note partial = feedRaw_partial [OF \<open>10 \<notin> set xs\<close> False]
      show ?thesis
      proof (cases "10 \<in> set ys")
        case True
        then obtain l r where ys: "ys = l @ 10 # r" "10 \<notin> set l" by (meson split_list_first)
        then have "10 \<notin> set (xs @ l)" using \<open>10 \<notin> set xs\<close> by simp
        from feedRaw_line [OF this, of qt r s]
        have "feedRaw qt (xs @ ys) s =
          (case handleRawLine qt (y_lineBuf s @ xs @ l @ [10]) s of
             (Ended, s') \<Rightarrow> (s'\<lparr>y_lineBuf := []\<rparr>, length (xs @ l) + 1, True)
           | (Consumed, s') \<Rightarrow> (case feedRaw qt r (s'\<lparr>y_lineBuf := []\<rparr>) of (s'', n, e) \<Rightarrow> (s'', length (xs @ l) + 1 + n, e)))"
          by (simp add: ys)
        then show ?thesis
          unfolding ys(1) by (simp add: partial feedRaw_line [OF ys(2)] handle_lineBuf split: prod.splits raw_line.splits)
      next
        case no: False
        then show ?thesis
        proof (cases "ys = []")
          case False
          then show ?thesis
            using no \<open>10 \<notin> set xs\<close> \<open>xs \<noteq> []\<close> by (simp add: partial feedRaw_partial)
        qed (simp add: partial)
      qed
    qed simp
  qed
qed

text \<open>How the socket cuts the article does not matter: fed in chunks it gives the state, the
  number of bytes consumed and the end of the whole fed at once.\<close>

theorem chunks_irrelevant: "feedChunks qt cs s = feedRaw qt (concat cs) s"
  by (induction cs arbitrary: s) (auto simp: feedRaw_append split: prod.splits)

text \<open>A part header after the trailer still moves the article: the verdict stays Ok while the
  offset is changed and the part is no longer valid.\<close>

theorem late_part_header_moves_article:
  "let qt = \<lparr>toLongLong = decimal 0, toUIntHex = (\<lambda>_. None)\<rparr>;
       article = [ascii ''=ybegin size=9 name=a'', ascii ''=ypart begin=1 end=1'', [60], ascii ''=yend size=1''];
       s = fst (feedRaw qt (concat (map wire_line article)) (reset []));
       s' = fst (feedRaw qt (wire_line (ascii ''=ypart begin=900 end=5'')) s)
   in y_status s = Ok \<and> y_partValid s \<and> y_offset s = 0 \<and>
      y_status s' = Ok \<and> \<not> y_partValid s' \<and> y_offset s' = 899"
  by code_simp

end
