(* ===== verification/Yenc_Article.thy ===== *)
theory Yenc_Article
  imports Yenc "HOL-Library.Sublist"
begin

text \<open>
  Whole articles: the header lines of a poster and how the decoder reads them, the article that comes
  out as it was posted, and what the verdict Ok rests on when the bytes come from anywhere.
\<close>

section \<open>Headers\<close>


































section \<open>Articles\<close>



section \<open>The verdict\<close>

text \<open>What the decoder knows of the bytes it handed out.\<close>

definition yenc_ok :: "yenc \<Rightarrow> bool" where
  "yenc_ok s \<longleftrightarrow> y_decodedBytes s = length (y_sink s) \<and> y_crc s = yencCrc32 0 (y_sink s) \<and>
     (y_status s = Ok \<longrightarrow> y_sawEnd s \<and> y_expectedSize s = int (length (y_sink s)) \<and>
        (y_haveExpectedCrc s \<longrightarrow> y_expectedCrc s = yencCrc32 0 (y_sink s)))"







text \<open>A trailer vouches for the bytes when it has their number, and their checksum if it has one that
  can be read.  The checksum field that counts is pcrc32 for a part, else crc32, else pcrc32.\<close>

definition vouches :: "qt_numbers \<Rightarrow> u8 list \<Rightarrow> u8 list \<Rightarrow> bool" where
  "vouches qt trailer xs \<longleftrightarrow> startsWith trailer (ascii ''=yend'') \<and>
     headerNumber qt trailer (ascii ''size='') (-1) = int (length xs) \<and>
     (\<exists>sawPart. \<forall>c. crc_text trailer sawPart \<noteq> [] \<and> toUIntHex qt (crc_text trailer sawPart) = Some c \<longrightarrow> c = yencCrc32 0 xs)"

text \<open>The verdict Ok rests on a trailer among the texts T.\<close>

definition vouched :: "qt_numbers \<Rightarrow> u8 list set \<Rightarrow> yenc \<Rightarrow> bool" where
  "vouched qt T s \<longleftrightarrow> yenc_ok s \<and> (y_status s = Ok \<longrightarrow> (\<exists>trailer \<in> T. vouches qt trailer (y_sink s)))"







lemma vouched_lineBuf [simp]: "vouched qt T (s\<lparr>y_lineBuf := b\<rparr>) = vouched qt T s"
  by (simp add: vouched_def yenc_ok_def)






end
