(* ===== verification/Safe_File.thy ===== *)
theory Safe_File
  imports Prelude
begin

text \<open>
  The typed readers and writers of FileDataIO (src/core/utils/SafeFile.cpp) over a memory
  file used in one direction.  A file being read is the list of its bytes from the position
  on: a read returns the value and the rest, or None where SafeMemFile::read throws.  A write
  at the end is the bytes appended.  Numbers have the byte order of the machine, little endian.
\<close>

type_synonym in_bytes = "u8 list"
type_synonym out_bytes = "u8 list"

definition read_bytes :: "nat \<Rightarrow> in_bytes \<Rightarrow> (u8 list \<times> in_bytes) option" where
  "read_bytes k f = (if length f < k then None else Some (take k f, drop k f))"

definition le_bytes :: "nat \<Rightarrow> 'a::len word \<Rightarrow> u8 list" where
  "le_bytes k w = map (byte_of w) [0..<k]"

fun le_word :: "u8 list \<Rightarrow> 'a::len word" where
  "le_word [] = 0"
| "le_word (b # bs) = ucast b OR push_bit 8 (le_word bs)"

definition read_le :: "nat \<Rightarrow> in_bytes \<Rightarrow> ('a::len word \<times> in_bytes) option" where
  "read_le k f = (case read_bytes k f of None \<Rightarrow> None | Some (bs, f') \<Rightarrow> Some (le_word bs, f'))"

definition readUInt8 :: "in_bytes \<Rightarrow> (u8 \<times> in_bytes) option" where "readUInt8 = read_le 1"
definition readUInt16 :: "in_bytes \<Rightarrow> (u16 \<times> in_bytes) option" where "readUInt16 = read_le 2"
definition readUInt32 :: "in_bytes \<Rightarrow> (u32 \<times> in_bytes) option" where "readUInt32 = read_le 4"
definition readUInt64 :: "in_bytes \<Rightarrow> (u64 \<times> in_bytes) option" where "readUInt64 = read_le 8"
definition readHash16 :: "in_bytes \<Rightarrow> (u8 list \<times> in_bytes) option" where "readHash16 = read_bytes 16"

definition writeUInt8 :: "u8 \<Rightarrow> out_bytes" where "writeUInt8 = le_bytes 1"
definition writeUInt16 :: "u16 \<Rightarrow> out_bytes" where "writeUInt16 = le_bytes 2"
definition writeUInt32 :: "u32 \<Rightarrow> out_bytes" where "writeUInt32 = le_bytes 4"
definition writeUInt64 :: "u64 \<Rightarrow> out_bytes" where "writeUInt64 = le_bytes 8"

lemma length_le_bytes [simp]: "length (le_bytes k w) = k"
  by (simp add: le_bytes_def)

lemma length_writes [simp]:
  "length (writeUInt8 a) = 1" "length (writeUInt16 b) = 2" "length (writeUInt32 c) = 4" "length (writeUInt64 d) = 8"
  by (simp_all add: writeUInt8_def writeUInt16_def writeUInt32_def writeUInt64_def)

lemma bit_le_word:
  "bit (le_word bs :: 'a::len word) n \<longleftrightarrow> n < LENGTH('a) \<and> n div 8 < length bs \<and> bit (bs ! (n div 8)) (n mod 8)"
proof (induction bs arbitrary: n)
  case (Cons b bs)
  show ?case
  proof (cases "n < 8")
    case True
    then show ?thesis by (auto simp: bit_or_iff bit_push_bit_iff bit_ucast_iff)
  next
    case False
    then have "n div 8 = Suc ((n - 8) div 8)" "n mod 8 = (n - 8) mod 8"
      by (simp_all add: le_div_geq le_mod_geq)
    moreover have "\<not> bit b n" using False bit_imp_le_length [of b n] by auto
    ultimately show ?thesis
      using False Cons.IH [of "n - 8"] by (auto simp: bit_or_iff bit_push_bit_iff bit_ucast_iff)
  qed
qed simp

lemma le_word_bytes:
  assumes "LENGTH('a::len) \<le> 8 * k"
  shows "le_word (le_bytes k (w :: 'a word)) = w"
proof (rule bit_word_eqI)
  fix n assume n: "n < LENGTH('a)"
  then have "n div 8 < k" using assms by (simp add: less_mult_imp_div_less)
  then show "bit (le_word (le_bytes k w) :: 'a word) n = bit w n"
    using n by (simp add: bit_le_word le_bytes_def bit_byte_of)
qed

lemma read_bytes_append [simp]: "length bs = k \<Longrightarrow> read_bytes k (bs @ f) = Some (bs, f)"
  by (simp add: read_bytes_def)

lemma read_le_write:
  "LENGTH('a::len) \<le> 8 * k \<Longrightarrow> read_le k (le_bytes k (w :: 'a word) @ f) = Some (w, f)"
  by (simp add: read_le_def le_word_bytes)

lemma read_write [simp]:
  "readUInt8 (writeUInt8 a @ f) = Some (a, f)" "readUInt16 (writeUInt16 b @ f) = Some (b, f)"
  "readUInt32 (writeUInt32 c @ f) = Some (c, f)" "readUInt64 (writeUInt64 d @ f) = Some (d, f)"
  by (simp_all add: readUInt8_def writeUInt8_def readUInt16_def writeUInt16_def readUInt32_def
      writeUInt32_def readUInt64_def writeUInt64_def read_le_write)

lemma readUInt16_Some: "2 \<le> length f \<Longrightarrow> \<exists>w. readUInt16 f = Some (w, drop 2 f)"
  by (simp add: readUInt16_def read_le_def read_bytes_def)

lemma readUInt32_Some: "4 \<le> length f \<Longrightarrow> \<exists>w. readUInt32 f = Some (w, drop 4 f)"
  by (simp add: readUInt32_def read_le_def read_bytes_def)

end
