(* ===== verification/Aich_Tree.thy ===== *)
theory Aich_Tree
  imports Safe_File
begin

text \<open>
  The hash tree of the advanced corruption handling (src/core/crypto/AICHHashTree.cpp).  A
  missing child is Null.  The hash algorithm is the argument sha, applied to the bytes added
  since its reset.  Sizes and positions are natural numbers; the sum of two, which the source
  takes on 64 bits, is written with its wrap-around.  Operations that create or change nodes
  return the tree; a node they return is its path, True to the left.
\<close>

definition EMBLOCKSIZE :: nat where "EMBLOCKSIZE = 184320"
definition kAICHHashSize :: nat where "kAICHHashSize = 20"

type_synonym aich_hash = "u8 list"

datatype aich_tree = Null
  | Node (m_dataSize: nat) (m_isLeftBranch: bool) (m_baseSize: bool) (m_hashValid: bool)
      (m_hash: aich_hash) (m_left: aich_tree) (m_right: aich_tree)

definition add64 :: "nat \<Rightarrow> nat \<Rightarrow> nat" where
  "add64 a b = (a + b) mod 2 ^ 64"

definition setBaseSize :: "nat \<Rightarrow> bool" where
  "setBaseSize sz = (sz \<ge> PARTSIZE)"

definition newTree :: "nat \<Rightarrow> bool \<Rightarrow> nat \<Rightarrow> aich_tree" where
  "newTree dataSize isLeftBranch sz =
     Node dataSize isLeftBranch (setBaseSize sz) False (replicate kAICHHashSize 0) Null Null"

definition getBaseSize :: "bool \<Rightarrow> nat" where
  "getBaseSize b = (if b then PARTSIZE else EMBLOCKSIZE)"

definition nBlocks :: "nat \<Rightarrow> nat \<Rightarrow> nat" where
  "nBlocks dataSize base = dataSize div base + (if dataSize mod base \<noteq> 0 then 1 else 0)"

text \<open>The size of the left branch.\<close>

definition nLeft :: "nat \<Rightarrow> bool \<Rightarrow> nat \<Rightarrow> nat" where
  "nLeft dataSize isLeftBranch base = (nBlocks dataSize base + of_bool isLeftBranch) div 2 * base"

definition make_child :: "aich_tree \<Rightarrow> nat \<Rightarrow> bool \<Rightarrow> aich_tree" where
  "make_child t sz isLeft =
     (if t = Null then newTree sz isLeft (if sz \<le> PARTSIZE then EMBLOCKSIZE else PARTSIZE) else t)"

definition valid :: "aich_tree \<Rightarrow> bool" where
  "valid t \<longleftrightarrow> t \<noteq> Null \<and> m_hashValid t"

section \<open>Finding a node\<close>

text \<open>The tree, with the nodes created on the way, the node found, and the level reached.\<close>

function findHash :: "nat \<Rightarrow> aich_tree \<Rightarrow> nat \<Rightarrow> nat \<Rightarrow> aich_tree \<times> bool list option \<times> nat" where
  "findHash level0 Null startPos sz = (Null, None, level0)"
| "findHash level0 (Node n b bs v h l r) startPos sz =
     (let level = level0 + 1; left_size = nLeft n b (getBaseSize bs); right_size = n - left_size
      in if level > 22 \<or> add64 startPos sz > n \<or> sz > n then (Node n b bs v h l r, None, level)
         else if startPos = 0 \<and> sz = n then (Node n b bs v h l r, Some [], level)
         else if n \<le> getBaseSize bs then (Node n b bs v h l r, None, level)
         else if startPos < left_size then
           (if add64 startPos sz > left_size then (Node n b bs v h l r, None, level)
            else case findHash level (make_child l left_size True) startPos sz of
              (l', p, lv) \<Rightarrow> (Node n b bs v h l' r, map_option (Cons True) p, lv))
         else if add64 (startPos - left_size) sz > right_size then (Node n b bs v h l r, None, level)
         else case findHash level (make_child r right_size False) (startPos - left_size) sz of
           (r', p, lv) \<Rightarrow> (Node n b bs v h l r', map_option (Cons False) p, lv))"
  by pat_completeness auto
termination
  by (relation "measure (\<lambda>(level, t, s, z). 23 - level)") auto

declare findHash.simps [simp del]

fun findExistingHash :: "nat \<Rightarrow> aich_tree \<Rightarrow> nat \<Rightarrow> nat \<Rightarrow> aich_tree option" where
  "findExistingHash level0 Null startPos sz = None"
| "findExistingHash level0 (Node n b bs v h l r) startPos sz =
     (let level = level0 + 1; left_size = nLeft n b (getBaseSize bs); right_size = n - left_size
      in if level > 22 \<or> add64 startPos sz > n \<or> sz > n then None
         else if startPos = 0 \<and> sz = n then (if v then Some (Node n b bs v h l r) else None)
         else if n \<le> getBaseSize bs then None
         else if startPos < left_size then
           (if add64 startPos sz > left_size then None
            else if \<not> valid l then None
            else findExistingHash level l startPos sz)
         else if add64 (startPos - left_size) sz > right_size then None
         else if \<not> valid r then None
         else findExistingHash level r (startPos - left_size) sz)"

fun at_path :: "bool list \<Rightarrow> aich_tree \<Rightarrow> aich_tree" where
  "at_path p Null = Null"
| "at_path [] t = t"
| "at_path (d # p) (Node n b bs v h l r) = at_path p (if d then l else r)"

fun put_hash :: "bool list \<Rightarrow> aich_hash \<Rightarrow> aich_tree \<Rightarrow> aich_tree" where
  "put_hash p x Null = Null"
| "put_hash [] x (Node n b bs v h l r) = Node n b bs True x l r"
| "put_hash (d # p) x (Node n b bs v h l r) =
     (if d then Node n b bs v h (put_hash p x l) r else Node n b bs v h l (put_hash p x r))"

text \<open>data: the bytes the algorithm has been given.\<close>

definition setBlockHash :: "(u8 list \<Rightarrow> aich_hash) \<Rightarrow> nat \<Rightarrow> nat \<Rightarrow> u8 list \<Rightarrow> aich_tree \<Rightarrow> aich_tree" where
  "setBlockHash sha sz startPos data t =
     (case findHash 0 t startPos sz of
        (t', None, _) \<Rightarrow> t'
      | (t', Some p, _) \<Rightarrow>
          if getBaseSize (m_baseSize (at_path p t')) \<noteq> EMBLOCKSIZE \<or> m_dataSize (at_path p t') \<noteq> sz then t'
          else put_hash p (sha data) t')"

section \<open>Calculating and verifying\<close>

fun reCalculateHash :: "(u8 list \<Rightarrow> aich_hash) \<Rightarrow> bool \<Rightarrow> aich_tree \<Rightarrow> bool \<times> aich_tree" where
  "reCalculateHash sha dontReplace Null = (True, Null)"
| "reCalculateHash sha dontReplace (Node n b bs v h l r) =
     (if (l \<noteq> Null) \<noteq> (r \<noteq> Null) then (False, Node n b bs v h l r)
      else if l \<noteq> Null \<and> r \<noteq> Null then
        (case reCalculateHash sha dontReplace l of
           (False, l') \<Rightarrow> (False, Node n b bs v h l' r)
         | (True, l') \<Rightarrow>
             (case reCalculateHash sha dontReplace r of
                (False, r') \<Rightarrow> (False, Node n b bs v h l' r')
              | (True, r') \<Rightarrow>
                  if dontReplace \<and> v then (True, Node n b bs v h l' r')
                  else if m_hashValid r' \<and> m_hashValid l' then
                    (True, Node n b bs True (sha (m_hash l' @ m_hash r')) l' r')
                  else (v, Node n b bs v h l' r')))
      else (True, Node n b bs v h l r))"

lemma reCalculate_size [simp]: "size (snd (reCalculateHash sha d t)) = size t"
  by (induction sha d t rule: reCalculateHash.induct) (auto split: prod.splits bool.splits)

text \<open>The missing hash of a child is calculated without overwriting.\<close>

definition fill_child :: "(u8 list \<Rightarrow> aich_hash) \<Rightarrow> aich_tree \<Rightarrow> aich_tree" where
  "fill_child sha t = (if t \<noteq> Null \<and> \<not> m_hashValid t then snd (reCalculateHash sha True t) else t)"

lemma fill_child_size [simp]: "size (fill_child sha t) = size t"
  by (simp add: fill_child_def)

function verifyHashTree :: "(u8 list \<Rightarrow> aich_hash) \<Rightarrow> bool \<Rightarrow> aich_tree \<Rightarrow> bool \<times> aich_tree" where
  "verifyHashTree sha deleteBadTrees Null = (False, Null)"
| "verifyHashTree sha deleteBadTrees (Node n b bs v h l0 r0) =
     (if \<not> v then
        (False, if deleteBadTrees then Node n b bs v h Null Null else Node n b bs v h l0 r0)
      else let l = fill_child sha l0; r = fill_child sha r0
      in if valid r \<noteq> valid l then
           (False, if deleteBadTrees then Node n b bs v h Null Null else Node n b bs v h l r)
         else if valid r \<and> valid l then
           (if h \<noteq> sha (m_hash l @ m_hash r) then
              (False, if deleteBadTrees then Node n b bs v h Null Null else Node n b bs v h l r)
            else case verifyHashTree sha deleteBadTrees l of
                (False, l') \<Rightarrow> (False, Node n b bs v h l' r)
              | (True, l') \<Rightarrow>
                  (case verifyHashTree sha deleteBadTrees r of (ok, r') \<Rightarrow> (ok, Node n b bs v h l' r')))
         else
           (True, if deleteBadTrees then
                    Node n b bs v h (if l \<noteq> Null \<and> \<not> m_hashValid l then Null else l)
                      (if r \<noteq> Null \<and> \<not> m_hashValid r then Null else r)
                  else Node n b bs v h l r))"
  by pat_completeness auto
termination
  by (relation "measure (\<lambda>(sha, d, t). size t)") auto

declare verifyHashTree.simps [simp del]

section \<open>Recovery data\<close>

definition write_hash :: "aich_hash \<Rightarrow> out_bytes" where
  "write_hash h = h"

definition write_ident :: "bool \<Rightarrow> u32 \<Rightarrow> out_bytes" where
  "write_ident use32Bit hashIdent =
     (if use32Bit then writeUInt32 hashIdent else writeUInt16 (ucast hashIdent))"

definition next_ident :: "u32 \<Rightarrow> bool \<Rightarrow> u32" where
  "next_ident hashIdent isLeftBranch = push_bit 1 hashIdent OR of_bool isLeftBranch"

definition writeHash :: "aich_tree \<Rightarrow> u32 \<Rightarrow> bool \<Rightarrow> out_bytes" where
  "writeHash t hashIdent use32Bit =
     write_ident use32Bit (next_ident hashIdent (m_isLeftBranch t)) @ write_hash (m_hash t)"

fun writeLowestLevelHashes :: "aich_tree \<Rightarrow> u32 \<Rightarrow> bool \<Rightarrow> bool \<Rightarrow> bool \<times> out_bytes" where
  "writeLowestLevelHashes Null hashIdent0 noIdent use32Bit = (False, [])"
| "writeLowestLevelHashes (Node n b bs v h l r) hashIdent0 noIdent use32Bit =
     (let hashIdent = next_ident hashIdent0 b
      in if l = Null \<and> r = Null then
           (if n \<le> getBaseSize bs \<and> v then
              (True, (if noIdent then [] else write_ident use32Bit hashIdent) @ write_hash h)
            else (False, []))
         else if l = Null \<or> r = Null then (False, [])
         else case writeLowestLevelHashes l hashIdent noIdent use32Bit of
             (False, out) \<Rightarrow> (False, out)
           | (True, out) \<Rightarrow>
               (case writeLowestLevelHashes r hashIdent noIdent use32Bit of (ok, out') \<Rightarrow> (ok, out @ out')))"

fun createPartRecoveryData :: "aich_tree \<Rightarrow> nat \<Rightarrow> nat \<Rightarrow> u32 \<Rightarrow> bool \<Rightarrow> bool \<times> out_bytes" where
  "createPartRecoveryData Null startPos sz hashIdent0 use32Bit = (False, [])"
| "createPartRecoveryData (Node n b bs v h l r) startPos sz hashIdent0 use32Bit =
     (let hashIdent = next_ident hashIdent0 b; left_size = nLeft n b (getBaseSize bs); right_size = n - left_size
      in if add64 startPos sz > n \<or> sz > n then (False, [])
         else if startPos = 0 \<and> sz = n then
           writeLowestLevelHashes (Node n b bs v h l r) hashIdent0 False use32Bit
         else if n \<le> getBaseSize bs then (False, [])
         else if l = Null \<or> r = Null then (False, [])
         else if startPos < left_size then
           (if add64 startPos sz > left_size \<or> \<not> m_hashValid r then (False, [])
            else case createPartRecoveryData l startPos sz hashIdent use32Bit of
              (ok, out) \<Rightarrow> (ok, writeHash r hashIdent use32Bit @ out))
         else if add64 (startPos - left_size) sz > right_size \<or> \<not> m_hashValid l then (False, [])
         else case createPartRecoveryData r (startPos - left_size) sz hashIdent use32Bit of
           (ok, out) \<Rightarrow> (ok, writeHash l hashIdent use32Bit @ out))"

text \<open>Reading: the value returned, or Raised where the file throws.\<close>

datatype 'a io = Raised | Returned 'a

lemma nBlocks_bounds:
  assumes "0 < base" "0 < n"
  shows "(nBlocks n base - 1) * base < n \<and> n \<le> nBlocks n base * base \<and> 0 < nBlocks n base"
proof (cases "n mod base = 0")
  case True
  then have "n = nBlocks n base * base" using div_mult_mod_eq [of n base] by (simp add: nBlocks_def)
  moreover have "0 < nBlocks n base" using calculation assms(2) by (cases "nBlocks n base") auto
  ultimately show ?thesis using assms(1) by (cases "nBlocks n base") auto
next
  case False
  then have k: "nBlocks n base = Suc (n div base)" by (simp add: nBlocks_def)
  have "n mod base < base" using assms(1) by simp
  moreover have "n = n div base * base + n mod base" by simp
  ultimately show ?thesis using False unfolding k by (simp only: diff_Suc_1 mult_Suc) linarith
qed

lemma nLeft_bounds:
  assumes "base < n" "0 < base"
  shows "0 < nLeft n b base \<and> nLeft n b base < n"
proof -
  let ?k = "nBlocks n base"
  have k: "(?k - 1) * base < n" "n \<le> ?k * base" using nBlocks_bounds [of base n] assms by auto
  have "2 \<le> ?k"
  proof (rule ccontr)
    assume "\<not> 2 \<le> ?k"
    then have "?k * base \<le> 1 * base" by (intro mult_le_mono1) simp
    then show False using k(2) assms(1) by linarith
  qed
  then have "(?k + of_bool b) div 2 \<le> ?k - 1" "0 < (?k + of_bool b) div 2"
    by (cases b; simp add: div_greater_zero_iff)+
  then have "nLeft n b base \<le> (?k - 1) * base" "0 < nLeft n b base"
    using assms(2) unfolding nLeft_def by (intro mult_le_mono1, simp_all only: nat_0_less_mult_iff)
  then show ?thesis using k(1) by linarith
qed

lemma getBaseSize_pos [simp]: "0 < getBaseSize b"
  by (simp add: getBaseSize_def EMBLOCKSIZE_def)

function loadLowestLevelHashes :: "aich_tree \<Rightarrow> in_bytes \<Rightarrow> bool io \<times> aich_tree \<times> in_bytes" where
  "loadLowestLevelHashes Null f = (Returned False, Null, f)"
| "loadLowestLevelHashes (Node n b bs v h l r) f =
     (if n \<le> getBaseSize bs then
        (case read_bytes kAICHHashSize f of
           None \<Rightarrow> (Raised, Node n b bs v h l r, f)
         | Some (x, f') \<Rightarrow> (Returned True, Node n b bs True x l r, f'))
      else let left_size = nLeft n b (getBaseSize bs); right_size = n - left_size;
               l1 = make_child l left_size True; r1 = make_child r right_size False
      in case loadLowestLevelHashes l1 f of
           (Returned True, l2, f') \<Rightarrow>
             (case loadLowestLevelHashes r1 f' of (res, r2, f'') \<Rightarrow> (res, Node n b bs v h l2 r2, f''))
         | (res, l2, f') \<Rightarrow> (res, Node n b bs v h l2 r1, f'))"
  by pat_completeness auto
termination
proof (relation "measures [\<lambda>(t, f). size t, \<lambda>(t, f). m_dataSize t]", goal_cases)
  case (2 n b bs v h l r f ls rs l1 r1)
  then show ?case using nLeft_bounds [of "getBaseSize bs" n b]
    by (cases l) (auto simp: make_child_def newTree_def)
next
  case (3 n b bs v h l r f ls rs l1 r1)
  then show ?case using nLeft_bounds [of "getBaseSize bs" n b]
    by (cases r) (auto simp: make_child_def newTree_def)
qed simp

declare loadLowestLevelHashes.simps [simp del]

text \<open>The identifier's leading 1 is looked for; what follows is the path.\<close>

fun top_bit :: "nat \<Rightarrow> u32 \<Rightarrow> (nat \<times> u32) option" where
  "top_bit level hashIdent =
     (if hashIdent AND 0x80000000 = 0 then
        (case level of 0 \<Rightarrow> None | Suc level' \<Rightarrow> top_bit level' (push_bit 1 hashIdent))
      else Some (level, hashIdent))"

declare top_bit.simps [simp del]

fun setHash_at :: "aich_tree \<Rightarrow> in_bytes \<Rightarrow> u32 \<Rightarrow> nat \<Rightarrow> bool \<Rightarrow> bool io \<times> aich_tree \<times> in_bytes" where
  "setHash_at Null f hashIdent level allowOverwrite = (Returned False, Null, f)"
| "setHash_at (Node n b bs v h l r) f hashIdent 0 allowOverwrite =
     (case read_bytes kAICHHashSize f of
        None \<Rightarrow> (Raised, Node n b bs v h l r, f)
      | Some (x, f') \<Rightarrow>
          if v \<and> \<not> allowOverwrite then (Returned True, Node n b bs v h l r, f')
          else (Returned True, Node n b bs True x l r, f'))"
| "setHash_at (Node n b bs v h l r) f hashIdent0 (Suc level) allowOverwrite =
     (if n \<le> getBaseSize bs then (Returned False, Node n b bs v h l r, f)
      else let hashIdent = push_bit 1 hashIdent0; left_size = nLeft n b (getBaseSize bs); right_size = n - left_size
      in if hashIdent AND 0x80000000 > 0 then
           (case setHash_at (make_child l left_size True) f hashIdent level True of
              (res, l', f') \<Rightarrow> (res, Node n b bs v h l' r, f'))
         else
           (case setHash_at (make_child r right_size False) f hashIdent level True of
              (res, r', f') \<Rightarrow> (res, Node n b bs v h l r', f')))"

definition setHash :: "aich_tree \<Rightarrow> in_bytes \<Rightarrow> u32 \<Rightarrow> bool \<Rightarrow> bool io \<times> aich_tree \<times> in_bytes" where
  "setHash t f hashIdent allowOverwrite =
     (case top_bit 31 hashIdent of
        None \<Rightarrow> (Returned False, t, f)
      | Some (level, ident) \<Rightarrow> setHash_at t f ident level allowOverwrite)"

fun reduceToBaseSize :: "nat \<Rightarrow> aich_tree \<Rightarrow> bool \<times> aich_tree" where
  "reduceToBaseSize sz Null = (False, Null)"
| "reduceToBaseSize sz (Node n b bs v h l r) =
     (case (if l = Null then (False, Null)
            else if getBaseSize (m_baseSize l) < sz then (True, Null)
            else reduceToBaseSize sz l) of
        (dl, l') \<Rightarrow>
          (case (if r = Null then (False, Null)
                 else if getBaseSize (m_baseSize r) < sz then (True, Null)
                 else reduceToBaseSize sz r) of
             (dr, r') \<Rightarrow> (dl \<or> dr, Node n b bs v h l' r')))"

end
