(* ===== verification/Aich_Verify.thy ===== *)
theory Aich_Verify
  imports Aich_Tree
begin

text \<open>
  What the hash tree promises: the shape every operation keeps, the calculation of the root
  from the leaves, its file form, and what a successful verification commits to.
\<close>

lemma if_intro: "(c \<Longrightarrow> P a) \<Longrightarrow> (\<not> c \<Longrightarrow> P b) \<Longrightarrow> P (if c then a else b)"
  by simp

section \<open>Shape\<close>

text \<open>The sizes, sides and base sizes of a tree for n bytes; nothing below a block.\<close>

fun shaped :: "nat \<Rightarrow> bool \<Rightarrow> aich_tree \<Rightarrow> bool" where
  "shaped n b Null \<longleftrightarrow> True"
| "shaped n b (Node m c bs v h l r) \<longleftrightarrow>
     m = n \<and> c = b \<and> bs = (n > PARTSIZE) \<and> length h = kAICHHashSize \<and>
     (n \<le> getBaseSize (n > PARTSIZE) \<longrightarrow> l = Null \<and> r = Null) \<and>
     shaped (nLeft n b (getBaseSize (n > PARTSIZE))) True l \<and>
     shaped (n - nLeft n b (getBaseSize (n > PARTSIZE))) False r"

abbreviation left_of :: "nat \<Rightarrow> bool \<Rightarrow> nat" where
  "left_of n b \<equiv> nLeft n b (getBaseSize (n > PARTSIZE))"

abbreviation right_of :: "nat \<Rightarrow> bool \<Rightarrow> nat" where
  "right_of n b \<equiv> n - left_of n b"

lemma shaped_sel: "shaped n b t \<Longrightarrow> t \<noteq> Null \<Longrightarrow>
  m_dataSize t = n \<and> m_isLeftBranch t = b \<and> m_baseSize t = (n > PARTSIZE) \<and> length (m_hash t) = kAICHHashSize"
  by (cases t) auto

lemma EMBLOCKSIZE_less [simp]: "EMBLOCKSIZE < PARTSIZE" "0 < EMBLOCKSIZE" "EMBLOCKSIZE \<le> PARTSIZE"
  by (simp_all add: EMBLOCKSIZE_def PARTSIZE_def)

lemma shaped_newTree:
  "shaped n b (newTree n b (if n \<le> PARTSIZE then EMBLOCKSIZE else PARTSIZE))"
  using EMBLOCKSIZE_less(1) by (simp add: newTree_def setBaseSize_def del: EMBLOCKSIZE_less)

lemma make_child_shaped: "shaped n b t \<Longrightarrow> shaped n b (make_child t n b)"
  unfolding make_child_def by (cases "t = Null") (simp_all add: shaped_newTree)

lemma make_child_Null [simp]: "make_child t n b \<noteq> Null"
  by (simp add: make_child_def newTree_def)

lemma findHash_shaped: "shaped n b t \<Longrightarrow> shaped n b (fst (findHash lv t pos sz))"
proof (induction lv t pos sz arbitrary: n b rule: findHash.induct)
  case (2 lv m c bs v h l r pos sz)
  let ?L = "nLeft m c (getBaseSize bs)"
  have l: "shaped ?L True (fst (findHash (lv + 1) (make_child l ?L True) pos sz))"
    if "\<not> (lv + 1 > 22 \<or> add64 pos sz > m \<or> sz > m)" "\<not> (pos = 0 \<and> sz = m)" "\<not> m \<le> getBaseSize bs"
      "pos < ?L" "\<not> add64 pos sz > ?L"
    by (rule "2.IH"(1) [OF refl refl refl that], rule make_child_shaped) (use that "2.prems" in auto)
  have r: "shaped (m - ?L) False (fst (findHash (lv + 1) (make_child r (m - ?L) False) (pos - ?L) sz))"
    if "\<not> (lv + 1 > 22 \<or> add64 pos sz > m \<or> sz > m)" "\<not> (pos = 0 \<and> sz = m)" "\<not> m \<le> getBaseSize bs"
      "\<not> pos < ?L" "\<not> add64 (pos - ?L) sz > m - ?L"
    by (rule "2.IH"(2) [OF refl refl refl that], rule make_child_shaped) (use that "2.prems" in auto)
  define P where "P x = shaped n b (fst x)" for x :: "aich_tree \<times> bool list option \<times> nat"
  have here: "P (Node m c bs v h l r, x)" for x using "2.prems" by (simp add: P_def)
  have node: "P (Node m c bs v h l' r, x)" if "\<not> m \<le> getBaseSize bs" "shaped ?L True l'" for l' x
    using "2.prems" that by (auto simp: P_def)
  have node': "P (Node m c bs v h l r', x)" if "\<not> m \<le> getBaseSize bs" "shaped (m - ?L) False r'" for r' x
    using "2.prems" that by (auto simp: P_def)
  have "P (findHash lv (Node m c bs v h l r) pos sz)"
    unfolding findHash.simps Let_def
    apply (intro if_intro [where P = P] here)
    subgoal premises p using node [OF p(3) l [OF p]]
      by (cases "findHash (lv + 1) (make_child l ?L True) pos sz") simp
    subgoal premises p using node' [OF p(3) r [OF p]]
      by (cases "findHash (lv + 1) (make_child r (m - ?L) False) (pos - ?L) sz") simp
    done
  then show ?case by (simp add: P_def)
qed (simp add: findHash.simps)

lemma put_hash_shaped: "shaped n b t \<Longrightarrow> length x = kAICHHashSize \<Longrightarrow> shaped n b (put_hash p x t)"
  by (induction p x t arbitrary: n b rule: put_hash.induct) auto

lemma setBlockHash_shaped:
  "shaped n b t \<Longrightarrow> \<forall>d. length (sha d) = kAICHHashSize \<Longrightarrow> shaped n b (setBlockHash sha sz pos data t)"
  using findHash_shaped [of n b t 0 pos sz]
  by (auto simp: setBlockHash_def put_hash_shaped split: prod.splits option.splits)

lemma reCalculate_Null [simp]: "snd (reCalculateHash sha d t) = Null \<longleftrightarrow> t = Null"
  by (cases t) (auto split: prod.splits bool.splits)

lemma reCalculate_shaped:
  "shaped n b t \<Longrightarrow> \<forall>x. length (sha x) = kAICHHashSize \<Longrightarrow> shaped n b (snd (reCalculateHash sha d t))"
proof (induction t arbitrary: n b)
  case (Node m c bs v h l r)
  obtain okl l' okr r' where rec: "reCalculateHash sha d l = (okl, l')" "reCalculateHash sha d r = (okr, r')"
    by fastforce
  have "shaped x y l \<Longrightarrow> shaped x y l'" "shaped x y r \<Longrightarrow> shaped x y r'" for x y
    using Node.IH Node.prems(2) rec by (metis snd_conv)+
  then show ?case using Node.prems by (auto simp: rec split: bool.splits)
qed simp

lemma fill_child_shaped:
  "shaped n b t \<Longrightarrow> \<forall>x. length (sha x) = kAICHHashSize \<Longrightarrow> shaped n b (fill_child sha t)"
  by (simp add: fill_child_def reCalculate_shaped)

lemma verify_shaped:
  "shaped n b t \<Longrightarrow> \<forall>x. length (sha x) = kAICHHashSize \<Longrightarrow> shaped n b (snd (verifyHashTree sha d t))"
proof (induction sha d t arbitrary: n b rule: verifyHashTree.induct)
  case (2 sha d m c bs v h l0 r0)
  let ?l = "fill_child sha l0" and ?r = "fill_child sha r0"
  have fill: "shaped x y ?l" if "shaped x y l0" for x y using fill_child_shaped that "2.prems"(2) .
  have fill': "shaped x y ?r" if "shaped x y r0" for x y using fill_child_shaped that "2.prems"(2) .
  have l: "shaped x y (snd (verifyHashTree sha d ?l))"
    if "shaped x y l0" "\<not> \<not> v" "\<not> (valid ?r \<noteq> valid ?l)" "valid ?r \<and> valid ?l"
      "\<not> h \<noteq> sha (m_hash ?l @ m_hash ?r)" for x y
    by (rule "2.IH"(1) [OF that(2) refl refl that(3-5) fill [OF that(1)] "2.prems"(2)])
  have r: "shaped x y (snd (verifyHashTree sha d ?r))"
    if "shaped x y r0" "\<not> \<not> v" "\<not> (valid ?r \<noteq> valid ?l)" "valid ?r \<and> valid ?l"
      "\<not> h \<noteq> sha (m_hash ?l @ m_hash ?r)" "(True, l') = verifyHashTree sha d ?l" for x y l'
    by (rule "2.IH"(2) [OF that(2) refl refl that(3-6) refl fill' [OF that(1)] "2.prems"(2)])
  define P where "P x = shaped n b (snd x)" for x :: "bool \<times> aich_tree"
  have node: "P (ok, Node m c bs v h l' r')"
    if "\<And>x y. shaped x y l0 \<Longrightarrow> shaped x y l'" "\<And>x y. shaped x y r0 \<Longrightarrow> shaped x y r'"
      "l0 = Null \<longrightarrow> l' = Null" "r0 = Null \<longrightarrow> r' = Null" for ok l' r'
    using "2.prems"(1) that by (auto simp: P_def)
  have null: "fill_child sha Null = Null" by (simp add: fill_child_def)
  have no: "P (ok, if d then Node m c bs v h Null Null else Node m c bs v h ?l ?r)" for ok
    using node [of Null Null] node [of ?l ?r] fill fill' null by simp
  have "P (verifyHashTree sha d (Node m c bs v h l0 r0))"
    unfolding verifyHashTree.simps Let_def
    apply (intro if_intro [where P = P] no)
    subgoal using node [of Null Null] node [of l0 r0] by simp
    subgoal premises p
    proof -
      obtain ok l' where vl: "verifyHashTree sha d ?l = (ok, l')" by fastforce
      obtain ok2 r' where vr: "verifyHashTree sha d ?r = (ok2, r')" by fastforce
      have nn: "l0 \<noteq> Null" "r0 \<noteq> Null" using p(3) null by (auto simp: valid_def)
      have l': "shaped x y l0 \<Longrightarrow> shaped x y l'" for x y using l [OF _ p] vl by (metis snd_conv)
      have r': "ok \<Longrightarrow> shaped x y r0 \<Longrightarrow> shaped x y r'" for x y using r [OF _ p, of x y l'] vl vr by simp
      show ?thesis
        using node [of l' ?r False] node [of l' r' ok2] l' r' fill' nn by (simp add: vl vr split: bool.split)
    qed
    subgoal using node [of "if ?l \<noteq> Null \<and> \<not> m_hashValid ?l then Null else ?l"
        "if ?r \<noteq> Null \<and> \<not> m_hashValid ?r then Null else ?r"] node [of ?l ?r] fill fill' null by auto
    done
  then show ?case by (simp add: P_def)
qed (simp add: verifyHashTree.simps)

lemma load_shaped: "shaped n b t \<Longrightarrow> shaped n b (fst (snd (loadLowestLevelHashes t f)))"
proof (induction t f arbitrary: n b rule: loadLowestLevelHashes.induct)
  case (2 m c bs v h l r f)
  let ?L = "nLeft m c (getBaseSize bs)"
  let ?l = "make_child l ?L True" and ?r = "make_child r (m - ?L) False"
  obtain ol l1 f1 where ll: "loadLowestLevelHashes ?l f = (ol, l1, f1)" by (cases "loadLowestLevelHashes ?l f")
  obtain ors r1 f2 where lr: "loadLowestLevelHashes ?r f1 = (ors, r1, f2)" by (cases "loadLowestLevelHashes ?r f1")
  show ?case
  proof (cases "m \<le> getBaseSize bs")
    case True
    then show ?thesis using "2.prems" unfolding loadLowestLevelHashes.simps Let_def
      by (auto simp: read_bytes_def)
  next
    case False
    have l: "shaped ?L True l1"
      using "2.IH"(1) [OF False refl refl refl refl, of ?L True] make_child_shaped [of ?L True l] "2.prems" ll by simp
    have r': "shaped (m - ?L) False ?r"
      by (rule make_child_shaped) (use "2.prems" in auto)
    have r: "ol = Returned True \<Longrightarrow> shaped (m - ?L) False r1"
      using "2.IH"(2) [OF False refl refl refl refl ll [symmetric] _ _ refl r'] lr by auto
    have "shaped n b (Node m c bs v h l1 r2)" if "shaped (m - ?L) False r2" for r2
      using "2.prems" False l that by auto
    then show ?thesis using r r' False unfolding loadLowestLevelHashes.simps Let_def
      by (auto simp: ll lr split: io.splits bool.splits)
  qed
qed (simp add: loadLowestLevelHashes.simps)

lemma setHash_at_shaped: "shaped n b t \<Longrightarrow> shaped n b (fst (snd (setHash_at t f i k a)))"
proof (induction t f i k a arbitrary: n b rule: setHash_at.induct)
  case (3 m c bs v h l r f i k a)
  then show ?case using make_child_shaped by (auto simp: Let_def split: prod.splits)
qed (auto simp: read_bytes_def)

lemma setHash_shaped: "shaped n b t \<Longrightarrow> shaped n b (fst (snd (setHash t f i a)))"
  by (auto simp: setHash_def setHash_at_shaped split: option.splits)

lemma reduce_shaped: "shaped n b t \<Longrightarrow> shaped n b (snd (reduceToBaseSize sz t))"
proof (induction t arbitrary: n b)
  case (Node m c bs v h l r)
  have "shaped x y l \<Longrightarrow> shaped x y (snd (reduceToBaseSize sz l))" "shaped x y r \<Longrightarrow> shaped x y (snd (reduceToBaseSize sz r))" for x y
    using Node.IH by blast+
  then show ?case using Node.prems by (auto split: prod.splits)
qed simp

text \<open>C39. Every operation keeps the shape of a tree: the sizes of the branches, the sides, the
  base sizes and the length of the hashes, and nothing below a block.\<close>

theorem operations_keep_shape:
  assumes "shaped n b t" "\<forall>x. length (sha x) = kAICHHashSize"
  shows "shaped n b (fst (findHash lv t pos sz)) \<and> shaped n b (setBlockHash sha sz pos data t) \<and>
    shaped n b (snd (reCalculateHash sha d t)) \<and> shaped n b (snd (verifyHashTree sha d t)) \<and>
    shaped n b (fst (snd (loadLowestLevelHashes t f))) \<and> shaped n b (fst (snd (setHash t f i a))) \<and>
    shaped n b (snd (reduceToBaseSize base t))"
  using assms
  by (simp add: findHash_shaped setBlockHash_shaped reCalculate_shaped verify_shaped load_shaped
      setHash_shaped reduce_shaped)

theorem operations_keep_shape_witness:
  "shaped 184321 True (snd (verifyHashTree (\<lambda>_. replicate 20 7) True (newTree 184321 True EMBLOCKSIZE)))"
proof -
  have "shaped 184321 True (newTree 184321 True EMBLOCKSIZE)"
    using shaped_newTree [of 184321 True] by (simp add: PARTSIZE_def)
  moreover have "\<forall>x :: u8 list. length ((\<lambda>_. replicate 20 (7 :: u8)) x) = kAICHHashSize"
    by (simp add: kAICHHashSize_def)
  ultimately show ?thesis
    by (rule operations_keep_shape [THEN conjunct2, THEN conjunct2, THEN conjunct2, THEN conjunct1])
qed

section \<open>What a verified tree commits to\<close>

text \<open>The nodes reached over valid hashes are hashed by their parents.\<close>

fun sound :: "(u8 list \<Rightarrow> aich_hash) \<Rightarrow> aich_tree \<Rightarrow> bool" where
  "sound sha Null \<longleftrightarrow> False"
| "sound sha (Node n b bs v h l r) \<longleftrightarrow>
     v \<and> valid l = valid r \<and> (valid l \<longrightarrow> h = sha (m_hash l @ m_hash r) \<and> sound sha l \<and> sound sha r)"

text \<open>What was hashed on the way to them.\<close>

fun hashed_pairs :: "aich_tree \<Rightarrow> u8 list set" where
  "hashed_pairs Null = {}"
| "hashed_pairs (Node n b bs v h l r) =
     (if valid l \<and> valid r then insert (m_hash l @ m_hash r) (hashed_pairs l \<union> hashed_pairs r) else {})"

lemma verify_form:
  "\<exists>ok l' r'. verifyHashTree sha d (Node n b bs v h l r) = (ok, Node n b bs v h l' r') \<and> (ok \<longrightarrow> v)"
proof -
  define P where "P x = (\<exists>ok l' r'. x = (ok, Node n b bs v h l' r') \<and> (ok \<longrightarrow> v))" for x
  have P: "P (False, Node n b bs v h l' r')" "v \<Longrightarrow> P (ok, Node n b bs v h l' r')" for ok l' r'
    unfolding P_def by blast+
  have no: "P (False, if d then Node n b bs v h Null Null else Node n b bs v h l' r')" for l' r'
    using P(1) by simp
  have "P (verifyHashTree sha d (Node n b bs v h l r))"
    unfolding verifyHashTree.simps Let_def
    apply (intro if_intro [where P = P] no)
    subgoal premises p
      using P p(1) by (cases "verifyHashTree sha d (fill_child sha l)"; cases "verifyHashTree sha d (fill_child sha r)")
        (simp split: bool.split)
    subgoal premises p using P(2) p(1) by simp
    done
  then show ?thesis by (simp add: P_def)
qed

lemma verify_hash: "m_hash (snd (verifyHashTree sha d t)) = m_hash t"
proof (cases t)
  case (Node n b bs v h l r)
  then show ?thesis using verify_form [of sha d n b bs v h l r] by auto
qed (simp add: verifyHashTree.simps)

lemma verify_valid: "verifyHashTree sha d t = (True, t') \<Longrightarrow> valid t \<and> valid t'"
proof (cases t)
  case (Node n b bs v h l r)
  then show "verifyHashTree sha d t = (True, t') \<Longrightarrow> valid t \<and> valid t'"
    using verify_form [of sha d n b bs v h l r] by (auto simp: valid_def)
qed (simp add: verifyHashTree.simps)

lemma verify_sound: "verifyHashTree sha d t = (True, t') \<Longrightarrow> sound sha t'"
proof (induction sha d t arbitrary: t' rule: verifyHashTree.induct)
  case (2 sha d m c bs v h l0 r0)
  let ?l = "fill_child sha l0" and ?r = "fill_child sha r0"
  have v: "v" using verify_valid [OF "2.prems"] by (simp add: valid_def)
  have same: "valid ?r = valid ?l"
    using "2.prems" v unfolding verifyHashTree.simps Let_def by (auto split: if_splits)
  show ?case
  proof (cases "valid ?r \<and> valid ?l")
    case True
    then have h: "h = sha (m_hash ?l @ m_hash ?r)"
      using "2.prems" v same unfolding verifyHashTree.simps Let_def by (auto split: if_splits)
    obtain ok l' where vl: "verifyHashTree sha d ?l = (ok, l')" by fastforce
    obtain ok2 r' where vr: "verifyHashTree sha d ?r = (ok2, r')" by fastforce
    have t': "ok" "ok2" "t' = Node m c bs v h l' r'"
      using "2.prems" v True h unfolding verifyHashTree.simps Let_def
      by (simp_all add: vl vr split: bool.splits)
    have hs: "m_hash l' = m_hash ?l" "m_hash r' = m_hash ?r"
      using verify_hash [of sha d ?l] verify_hash [of sha d ?r] by (simp_all add: vl vr)
    have "sound sha l'"
      using "2.IH"(1) [of ?l ?r l'] v True h vl t'(1) by simp
    moreover have "sound sha r'"
      using "2.IH"(2) [of ?l ?r True l' r'] v True h vl vr t'(1,2) by simp
    moreover have "valid l'" "valid r'" using verify_valid vl vr t'(1,2) by auto
    ultimately show ?thesis using h v t'(3) hs by simp
  next
    case False
    then have "t' = (if d then Node m c bs v h (if ?l \<noteq> Null \<and> \<not> m_hashValid ?l then Null else ?l)
                      (if ?r \<noteq> Null \<and> \<not> m_hashValid ?r then Null else ?r)
                  else Node m c bs v h ?l ?r)"
      using "2.prems" v same unfolding verifyHashTree.simps Let_def by (auto split: if_splits)
    then show ?thesis using False v same by (auto simp: valid_def)
  qed
qed (simp add: verifyHashTree.simps)

lemma findExisting_shaped:
  "findExistingHash lv t pos sz = Some x \<Longrightarrow> m_dataSize x = sz \<and> x \<noteq> Null"
  by (induction lv t pos sz rule: findExistingHash.induct) (auto simp: Let_def split: if_splits)

lemma committed:
  assumes "sound sha t1" "sound sha t2" "shaped n b t1" "shaped n b t2" "m_hash t1 = m_hash t2"
    "inj_on sha (hashed_pairs t1 \<union> hashed_pairs t2)"
    "findExistingHash lv t1 pos sz = Some x1" "findExistingHash lv t2 pos sz = Some x2"
  shows "m_hash x1 = m_hash x2"
  using assms
proof (induction t1 arbitrary: t2 n b lv pos)
  case (Node m c bs v h l r)
  obtain l2 r2 v2 where t2: "t2 = Node m c bs v2 h l2 r2"
    using Node.prems(2-5) by (cases t2) auto
  have mc: "m = n" "c = b" "bs = (n > PARTSIZE)" using Node.prems(3) by auto
  let ?L = "nLeft m c (getBaseSize bs)"
  note eq1 = Node.prems(7) [unfolded findExistingHash.simps Let_def]
  note eq2 = Node.prems(8) [unfolded t2 findExistingHash.simps Let_def]
  have guard: "\<not> (lv + 1 > 22 \<or> add64 pos sz > m \<or> sz > m)" using eq1 by (auto split: if_splits)
  show ?case
  proof (cases "pos = 0 \<and> sz = m")
    case True
    then show ?thesis using eq1 eq2 guard by (auto split: if_splits)
  next
    case False
    then have deep: "\<not> m \<le> getBaseSize bs" using eq1 guard by (auto split: if_splits)
    have both: "valid l" "valid l2" "valid r" "valid r2"
      using eq1 eq2 guard False deep Node.prems(1,2) by (auto simp: t2 split: if_splits)
    have h: "h = sha (m_hash l @ m_hash r)" "h = sha (m_hash l2 @ m_hash r2)"
      "sound sha l" "sound sha r" "sound sha l2" "sound sha r2"
      using both Node.prems(1,2) by (auto simp: t2)
    have pairs: "hashed_pairs (Node m c bs v h l r) = insert (m_hash l @ m_hash r) (hashed_pairs l \<union> hashed_pairs r)"
      "hashed_pairs t2 = insert (m_hash l2 @ m_hash r2) (hashed_pairs l2 \<union> hashed_pairs r2)"
      using both by (simp_all add: t2)
    have "m_hash l @ m_hash r = m_hash l2 @ m_hash r2"
      by (rule inj_onD [OF Node.prems(6)]) (use h(1,2) pairs in auto)
    moreover have sh: "shaped ?L True l" "shaped ?L True l2" "shaped (m - ?L) False r" "shaped (m - ?L) False r2"
      using Node.prems(3,4) by (auto simp: t2)
    ultimately have hs: "m_hash l = m_hash l2" "m_hash r = m_hash r2"
      using shaped_sel [OF sh(1)] shaped_sel [OF sh(2)] both by (auto simp: valid_def)
    have inj: "inj_on sha (hashed_pairs l \<union> hashed_pairs l2)" "inj_on sha (hashed_pairs r \<union> hashed_pairs r2)"
      by (rule inj_on_subset [OF Node.prems(6)], use pairs in auto)+
    show ?thesis
    proof (cases "pos < ?L")
      case True
      then have "findExistingHash (lv + 1) l pos sz = Some x1" "findExistingHash (lv + 1) l2 pos sz = Some x2"
        using eq1 eq2 guard False deep by (auto split: if_splits)
      then show ?thesis by (rule Node.IH(1) [OF h(3,5) sh(1,2) hs(1) inj(1)])
    next
      case f: False
      then have "findExistingHash (lv + 1) r (pos - ?L) sz = Some x1" "findExistingHash (lv + 1) r2 (pos - ?L) sz = Some x2"
        using eq1 eq2 guard False deep by (auto split: if_splits)
      then show ?thesis by (rule Node.IH(2) [OF h(4,6) sh(3,4) hs(2) inj(2)])
    qed
  qed
qed simp

text \<open>C29. A verified tree has no hash but those its root commits to: where two trees for the same
  file verify under the same root, a block hash found in both is the same, unless two different
  pairs hashed in them collide.\<close>

theorem verified_hashes_committed:
  assumes "shaped n True t1" "shaped n True t2" "m_hash t1 = m_hash t2"
    "verifyHashTree sha d1 t1 = (True, t1')" "verifyHashTree sha d2 t2 = (True, t2')"
    "\<forall>x. length (sha x) = kAICHHashSize" "inj_on sha (hashed_pairs t1' \<union> hashed_pairs t2')"
    "findExistingHash 0 t1' pos sz = Some x1" "findExistingHash 0 t2' pos sz = Some x2"
  shows "m_hash x1 = m_hash x2"
proof (rule committed [OF _ _ _ _ _ assms(7-9)])
  show "sound sha t1'" "sound sha t2'" using verify_sound assms(4,5) by blast+
  show "shaped n True t1'" "shaped n True t2'"
    using verify_shaped [OF assms(1,6), of d1] verify_shaped [OF assms(2,6), of d2] assms(4,5) by simp_all
  show "m_hash t1' = m_hash t2'"
    using verify_hash [of sha d1 t1] verify_hash [of sha d2 t2] assms(3-5) by simp
qed

text \<open>The witness: a file of four blocks, of which one tree holds the hashes below its left half and another all of them.
  The hash of the right half is committed to in both, though the node found has no children in one.\<close>

definition block_leaf :: "bool \<Rightarrow> u8 \<Rightarrow> aich_tree" where
  "block_leaf isLeft x = Node 184320 isLeft False True (replicate 20 x) Null Null"

definition half_of_four :: "bool \<Rightarrow> u8 \<Rightarrow> aich_tree \<Rightarrow> aich_tree \<Rightarrow> aich_tree" where
  "half_of_four isLeft x l r = Node 368640 isLeft False True (replicate 20 x) l r"

definition four_blocks :: "aich_tree \<Rightarrow> aich_tree" where
  "four_blocks right = Node 737280 True False True (replicate 20 7)
     (half_of_four True 5 (block_leaf True 1) (block_leaf False 2)) right"

definition left_half_known :: aich_tree where
  "left_half_known = four_blocks (half_of_four False 6 Null Null)"

definition all_known :: aich_tree where
  "all_known = four_blocks (half_of_four False 6 (block_leaf True 3) (block_leaf False 4))"

definition sample_sha :: "u8 list \<Rightarrow> aich_hash" where
  "sample_sha x = replicate 20 (if x = replicate 20 1 @ replicate 20 2 then 5
     else if x = replicate 20 3 @ replicate 20 4 then 6 else 7)"

lemmas four_defs = four_blocks_def half_of_four_def block_leaf_def left_half_known_def all_known_def

lemma four_sizes:
  "nLeft 737280 True EMBLOCKSIZE = 368640" "nLeft 368640 True EMBLOCKSIZE = 184320" "nLeft 368640 False EMBLOCKSIZE = 184320"
  by (simp_all add: nLeft_def nBlocks_def EMBLOCKSIZE_def)

lemma four_shaped: "shaped 737280 True left_half_known" "shaped 737280 True all_known"
  using four_sizes by (simp_all add: four_defs getBaseSize_def PARTSIZE_def kAICHHashSize_def) (simp_all add: EMBLOCKSIZE_def)

lemma replicate_inject: "replicate 20 (x :: u8) @ xs = replicate 20 y @ ys \<longleftrightarrow> x = y \<and> xs = ys"
  by auto

lemma four_verified: 
  "verifyHashTree sample_sha True left_half_known = (True, left_half_known)"
  "verifyHashTree sample_sha True all_known = (True, all_known)"
  by (simp_all add: four_defs verifyHashTree.simps fill_child_def valid_def sample_sha_def replicate_inject)

lemma four_found:
  "findExistingHash 0 left_half_known 368640 368640 = Some (half_of_four False 6 Null Null)"
  "findExistingHash 0 all_known 368640 368640 = Some (half_of_four False 6 (block_leaf True 3) (block_leaf False 4))"
  by (simp_all add: four_defs getBaseSize_def add64_def valid_def four_sizes) (simp_all add: EMBLOCKSIZE_def)

theorem verified_hashes_committed_witness:
  "left_half_known \<noteq> all_known \<and>
   verifyHashTree sample_sha True left_half_known = (True, left_half_known) \<and>
   verifyHashTree sample_sha True all_known = (True, all_known) \<and>
   (\<exists>x1 x2. findExistingHash 0 left_half_known 368640 368640 = Some x1 \<and>
      findExistingHash 0 all_known 368640 368640 = Some x2 \<and> x1 \<noteq> x2 \<and> m_hash x1 = m_hash x2)"
proof -
  have inj: "inj_on sample_sha (hashed_pairs left_half_known \<union> hashed_pairs all_known)"
    by (simp add: four_defs valid_def sample_sha_def replicate_inject inj_on_def)
  have len: "\<forall>y. length (sample_sha y) = kAICHHashSize" by (simp add: sample_sha_def kAICHHashSize_def)
  have root: "m_hash left_half_known = m_hash all_known" by (simp add: four_defs)
  note same = verified_hashes_committed [OF four_shaped root four_verified len inj]
  have "left_half_known \<noteq> all_known" by (simp add: four_defs)
  moreover have "half_of_four False 6 Null Null \<noteq> half_of_four False 6 (block_leaf True 3) (block_leaf False 4)"
    by (simp add: four_defs)
  ultimately show ?thesis using same [OF four_found] four_found four_verified by blast
qed

section \<open>Complete trees\<close>

text \<open>Every block has its hash; in a complete tree every inner hash is calculated from them.\<close>

fun leaves_valid :: "aich_tree \<Rightarrow> bool" where
  "leaves_valid Null \<longleftrightarrow> False"
| "leaves_valid (Node n b bs v h l r) \<longleftrightarrow>
     (if n \<le> getBaseSize bs then v \<and> l = Null \<and> r = Null else leaves_valid l \<and> leaves_valid r)"

fun complete :: "(u8 list \<Rightarrow> aich_hash) \<Rightarrow> aich_tree \<Rightarrow> bool" where
  "complete sha Null \<longleftrightarrow> False"
| "complete sha (Node n b bs v h l r) \<longleftrightarrow>
     v \<and> (if n \<le> getBaseSize bs then l = Null \<and> r = Null
          else h = sha (m_hash l @ m_hash r) \<and> complete sha l \<and> complete sha r)"

lemma complete_valid: "complete sha t \<Longrightarrow> valid t \<and> t \<noteq> Null \<and> m_hashValid t"
  by (cases t) (auto simp: valid_def)

lemma leaves_valid_Null: "leaves_valid t \<Longrightarrow> t \<noteq> Null"
  by (cases t) auto

lemma recalculate_leaves:
  "leaves_valid t \<Longrightarrow> fst (reCalculateHash sha False t) \<and> complete sha (snd (reCalculateHash sha False t))"
proof (induction t)
  case (Node n b bs v h l r)
  show ?case
  proof (cases "n \<le> getBaseSize bs")
    case False
    then have lr: "leaves_valid l" "leaves_valid r" using Node.prems by auto
    obtain l' r' where rec: "reCalculateHash sha False l = (True, l')" "reCalculateHash sha False r = (True, r')"
      using Node.IH lr by (metis prod.collapse)
    moreover have "complete sha l'" "complete sha r'" using Node.IH lr rec by auto
    ultimately show ?thesis
      using complete_valid leaves_valid_Null [OF lr(1)] leaves_valid_Null [OF lr(2)] False by simp
  qed (use Node.prems in auto)
qed simp

lemma complete_fill: "complete sha t \<Longrightarrow> fill_child sha t = t"
  using complete_valid by (auto simp: fill_child_def)

lemma verify_complete: "complete sha t \<Longrightarrow> verifyHashTree sha d t = (True, t)"
proof (induction t)
  case (Node n b bs v h l r)
  show ?case
  proof (cases "n \<le> getBaseSize bs")
    case True
    then show ?thesis using Node.prems by (simp add: verifyHashTree.simps fill_child_def valid_def)
  next
    case False
    then have lr: "complete sha l" "complete sha r" using Node.prems by auto
    then show ?thesis
      using Node.IH False Node.prems complete_fill complete_valid by (simp add: verifyHashTree.simps)
  qed
qed simp

text \<open>When every block has its hash, the calculation succeeds, gives every node a hash made from
  its children, and the tree it makes verifies as it is.\<close>

theorem recalculated_tree_verifies:
  assumes "leaves_valid t"
  shows "\<exists>t'. reCalculateHash sha False t = (True, t') \<and> complete sha t' \<and> verifyHashTree sha d t' = (True, t')"
  using recalculate_leaves [OF assms, of sha] verify_complete by (metis prod.collapse)

section \<open>The file form\<close>

fun leaf_bytes :: "aich_tree \<Rightarrow> out_bytes" where
  "leaf_bytes Null = []"
| "leaf_bytes (Node n b bs v h l r) = (if l = Null \<and> r = Null then h else leaf_bytes l @ leaf_bytes r)"

lemma write_lowest: "complete sha t \<Longrightarrow> writeLowestLevelHashes t i True u = (True, leaf_bytes t)"
proof (induction t arbitrary: i)
  case (Node n b bs v h l r)
  show ?case
  proof (cases "n \<le> getBaseSize bs")
    case False
    then have lr: "complete sha l" "complete sha r" using Node.prems by auto
    then show ?thesis using Node.IH False complete_valid by (simp add: Let_def)
  qed (use Node.prems in \<open>simp add: Let_def write_hash_def\<close>)
qed simp

lemma shaped_complete_sel:
  assumes "complete sha T" "shaped n b T"
  obtains h l r where "T = Node n b (n > PARTSIZE) True h l r" "length h = kAICHHashSize"
    "n \<le> getBaseSize (n > PARTSIZE) \<Longrightarrow> l = Null \<and> r = Null"
    "\<not> n \<le> getBaseSize (n > PARTSIZE) \<Longrightarrow>
       complete sha l \<and> complete sha r \<and> shaped (left_of n b) True l \<and> shaped (right_of n b) False r \<and>
       h = sha (m_hash l @ m_hash r)"
  using assms by (cases T) auto

lemma load_lowest:
  assumes "complete sha T" "shaped n b T" "shaped n b t" "t \<noteq> Null"
  shows "\<exists>t'. loadLowestLevelHashes t (leaf_bytes T @ f) = (Returned True, t', f) \<and>
    t' \<noteq> Null \<and> reCalculateHash sha False t' = (True, T)"
  using assms
proof (induction T arbitrary: n b t f)
  case (Node m c bs v h l r)
  have T: "m = n" "c = b" "bs = (n > PARTSIZE)" "v" "length h = kAICHHashSize" using Node.prems(1,2) by auto
  obtain v2 h2 l2 r2 where t: "t = Node n b bs v2 h2 l2 r2" using Node.prems(3,4) T by (cases t) auto
  show ?case
  proof (cases "n \<le> getBaseSize bs")
    case True
    then have "l = Null" "r = Null" "l2 = Null" "r2 = Null"
      using Node.prems(1-3) T t by auto
    then show ?thesis using True T t by (simp add: loadLowestLevelHashes.simps)
  next
    case False
    let ?L = "nLeft n b (getBaseSize bs)"
    have lr: "complete sha l" "complete sha r" "h = sha (m_hash l @ m_hash r)" using Node.prems(1) False T by auto
    have sh: "shaped ?L True l" "shaped (n - ?L) False r" "shaped ?L True l2" "shaped (n - ?L) False r2"
      using Node.prems(2,3) False T t by auto
    obtain tl where tl: "loadLowestLevelHashes (make_child l2 ?L True) (leaf_bytes l @ (leaf_bytes r @ f)) =
        (Returned True, tl, leaf_bytes r @ f)" "tl \<noteq> Null" "reCalculateHash sha False tl = (True, l)"
      using Node.IH(1) [OF lr(1) sh(1) make_child_shaped [OF sh(3)] make_child_Null] by blast
    obtain tr where tr: "loadLowestLevelHashes (make_child r2 (n - ?L) False) (leaf_bytes r @ f) = (Returned True, tr, f)"
      "tr \<noteq> Null" "reCalculateHash sha False tr = (True, r)"
      using Node.IH(2) [OF lr(2) sh(2) make_child_shaped [OF sh(4)] make_child_Null] by blast
    have "leaf_bytes (Node m c bs v h l r) = leaf_bytes l @ leaf_bytes r"
      using lr complete_valid by simp
    then show ?thesis
      using False T t tl tr lr complete_valid [OF lr(1)] complete_valid [OF lr(2)]
      by (simp add: loadLowestLevelHashes.simps Let_def)
  qed
qed simp

text \<open>What is written of a complete tree, the hashes of the blocks in order, is read back into
  an empty tree for the same file, and the tree calculated from them is the one written.\<close>

theorem lowest_level_roundtrip:
  assumes "complete sha T" "shaped n True T"
  shows "\<exists>out t. writeLowestLevelHashes T 0 True use32Bit = (True, out) \<and>
    loadLowestLevelHashes (newTree n True (if n \<le> PARTSIZE then EMBLOCKSIZE else PARTSIZE)) (out @ f) = (Returned True, t, f) \<and>
    reCalculateHash sha False t = (True, T)"
proof -
  obtain t where "loadLowestLevelHashes (newTree n True (if n \<le> PARTSIZE then EMBLOCKSIZE else PARTSIZE)) (leaf_bytes T @ f) =
      (Returned True, t, f)" "reCalculateHash sha False t = (True, T)"
    using load_lowest [OF assms shaped_newTree] by (auto simp: newTree_def)
  then show ?thesis using write_lowest [OF assms(1)] by blast
qed

end
