(* ===== verification/Aich_Set.thy ===== *)
theory Aich_Set
  imports Aich_Verify Net_Address
begin

text \<open>
  The recovery hash set of a file (src/core/crypto/AICHHashSet.cpp): the hash tree with its
  trust status and the votes for root hashes, the recovery packet of a part and its reading.
  Assertions and log messages are left out; known2_64.met is in the theory on the store.
\<close>

definition OLD_MAX_EMULE_FILE_SIZE :: nat where "OLD_MAX_EMULE_FILE_SIZE = 4290048000"
definition MAX_EMULE_FILE_SIZE :: nat where "MAX_EMULE_FILE_SIZE = 0x4000000000"
definition kMinUniqueIPsToTrust :: nat where "kMinUniqueIPsToTrust = 10"
definition kMinPercentageToTrust :: nat where "kMinPercentageToTrust = 92"

datatype aich_status = Error | Empty | Untrusted | Trusted | Verified | HashSetComplete

record untrusted_hash =
  uh_hash :: aich_hash
  uh_signingIPs :: "u64 list"

record aich_set =
  m_hashTree :: aich_tree
  m_status :: aich_status
  m_untrustedHashes :: "untrusted_hash list"

fun set_root :: "aich_hash \<Rightarrow> aich_tree \<Rightarrow> aich_tree" where
  "set_root x Null = Null"
| "set_root x (Node n b bs v h l r) = Node n b bs True x l r"

fun drop_children :: "aich_tree \<Rightarrow> aich_tree" where
  "drop_children Null = Null"
| "drop_children (Node n b bs v h l r) = Node n b bs v h Null Null"

definition setStatus :: "aich_status \<Rightarrow> aich_set \<Rightarrow> aich_set" where
  "setStatus st s = s\<lparr>m_status := st\<rparr>"

definition hasValidMasterHash :: "aich_set \<Rightarrow> bool" where
  "hasValidMasterHash s = m_hashValid (m_hashTree s)"

definition getMasterHash :: "aich_set \<Rightarrow> aich_hash" where
  "getMasterHash s = m_hash (m_hashTree s)"

definition setMasterHash :: "aich_hash \<Rightarrow> aich_status \<Rightarrow> aich_set \<Rightarrow> aich_set" where
  "setMasterHash x st s = setStatus st (s\<lparr>m_hashTree := set_root x (m_hashTree s)\<rparr>)"

definition freeHashSet :: "aich_set \<Rightarrow> aich_set" where
  "freeHashSet s = s\<lparr>m_hashTree := drop_children (m_hashTree s)\<rparr>"

fun set_size :: "nat \<Rightarrow> nat \<Rightarrow> aich_tree \<Rightarrow> aich_tree" where
  "set_size n base Null = Null"
| "set_size n base (Node m b bs v h l r) = Node n b (setBaseSize base) v h l r"

definition setFileSize :: "nat \<Rightarrow> aich_set \<Rightarrow> aich_set" where
  "setFileSize n s =
     s\<lparr>m_hashTree := set_size n (if n \<le> PARTSIZE then EMBLOCKSIZE else PARTSIZE) (m_hashTree s)\<rparr>"

definition newHashSet :: "nat \<Rightarrow> aich_set" where
  "newHashSet fileSize =
     (let s = \<lparr>m_hashTree = newTree 0 True PARTSIZE, m_status = Empty, m_untrustedHashes = []\<rparr>
      in if fileSize \<noteq> 0 then setFileSize fileSize s else s)"

section \<open>Votes\<close>

definition addSigningIP :: "u64 \<Rightarrow> bool \<Rightarrow> untrusted_hash \<Rightarrow> bool \<times> untrusted_hash" where
  "addSigningIP voter testOnly uh =
     (if voter \<in> set (uh_signingIPs uh) then (False, uh)
      else (True, if testOnly then uh else uh\<lparr>uh_signingIPs := uh_signingIPs uh @ [voter]\<rparr>))"

definition voterKey :: "address \<Rightarrow> u64" where
  "voterKey from_addr =
     (case from_addr of
        IPv6 bytes \<Rightarrow> fold (\<lambda>b prefix. push_bit 8 prefix OR ucast b) (take 6 bytes) 0 OR push_bit 63 1
      | _ \<Rightarrow> ucast (toNetworkUint32 from_addr AND 0x00F0FFFF))"

fun sign_first :: "aich_hash \<Rightarrow> u64 \<Rightarrow> untrusted_hash list \<Rightarrow> bool \<times> untrusted_hash list" where
  "sign_first x voter [] = (False, [])"
| "sign_first x voter (uh # us) =
     (if uh_hash uh = x then (True, snd (addSigningIP voter False uh) # us)
      else case sign_first x voter us of (found, us') \<Rightarrow> (found, uh # us'))"

text \<open>The first root with the most votes, its index and votes, and the sum of all.\<close>

fun most_trusted :: "nat \<Rightarrow> untrusted_hash list \<Rightarrow> nat \<times> nat \<Rightarrow> nat \<times> nat" where
  "most_trusted i [] best = best"
| "most_trusted i (uh # us) (idx, votes) =
     (if length (uh_signingIPs uh) > votes then most_trusted (i + 1) us (i, length (uh_signingIPs uh))
      else most_trusted (i + 1) us (idx, votes))"

definition total_votes :: "untrusted_hash list \<Rightarrow> nat" where
  "total_votes us = sum_list (map (\<lambda>uh. length (uh_signingIPs uh)) us)"

definition adopt :: "aich_hash \<Rightarrow> aich_status \<Rightarrow> aich_set \<Rightarrow> aich_set" where
  "adopt x st s0 =
     (let s = setStatus st s0
      in if \<not> hasValidMasterHash s \<or> getMasterHash s \<noteq> x then freeHashSet (setMasterHash x st s) else s)"

definition new_vote :: "aich_hash \<Rightarrow> u64 \<Rightarrow> untrusted_hash" where
  "new_vote x voter = snd (addSigningIP voter False \<lparr>uh_hash = x, uh_signingIPs = []\<rparr>)"

definition vote :: "aich_hash \<Rightarrow> u64 \<Rightarrow> aich_set \<Rightarrow> aich_set" where
  "vote x voter s =
     (if m_status s \<notin> {Empty, Untrusted, Trusted} then s
         else if \<exists>uh \<in> set (m_untrustedHashes s). uh_hash uh \<noteq> x \<and> \<not> fst (addSigningIP voter True uh) then s
         else case sign_first x voter (m_untrustedHashes s) of
           (found, us) \<Rightarrow>
             let us' = (if found then us else us @ [new_vote x voter]); s' = s\<lparr>m_untrustedHashes := us'\<rparr>
             in if m_status s = Trusted \<and> hasValidMasterHash s then s'
                else case most_trusted 0 us' (0, 0) of
                  (idx, votes) \<Rightarrow>
                    if votes = 0 \<or> total_votes us' = 0 then s'
                    else if votes \<ge> kMinUniqueIPsToTrust \<and> 100 * votes div total_votes us' \<ge> kMinPercentageToTrust
                    then adopt (uh_hash (us' ! idx)) Trusted s'
                    else adopt (uh_hash (us' ! idx)) Untrusted s')"

definition untrustedHashReceived :: "aich_hash \<Rightarrow> address \<Rightarrow> aich_set \<Rightarrow> aich_set" where
  "untrustedHashReceived x from_addr s = vote x (voterKey from_addr) s"

text \<open>The votes of a set: one entry per root, one vote per voter.\<close>

definition votes_ok :: "untrusted_hash list \<Rightarrow> bool" where
  "votes_ok us \<longleftrightarrow> distinct (map uh_hash us) \<and> distinct (concat (map uh_signingIPs us))"

lemma sign_first_spec:
  assumes "sign_first x voter us = (found, us')"
  shows "(found \<longleftrightarrow> x \<in> uh_hash ` set us) \<and> map uh_hash us' = map uh_hash us \<and>
    set (concat (map uh_signingIPs us')) \<subseteq> insert voter (set (concat (map uh_signingIPs us)))"
  using assms
  by (induction us arbitrary: found us') (auto simp: addSigningIP_def split: if_splits prod.splits)

lemma sign_first_distinct:
  assumes "sign_first x voter us = (found, us')" "votes_ok us"
    "\<forall>uh \<in> set us. uh_hash uh \<noteq> x \<longrightarrow> voter \<notin> set (uh_signingIPs uh)"
  shows "distinct (concat (map uh_signingIPs us'))"
  using assms
proof (induction us arbitrary: found us')
  case (Cons uh us)
  show ?case
  proof (cases "uh_hash uh = x")
    case True
    then have "uh_hash u \<noteq> x" if "u \<in> set us" for u
      using Cons.prems(2) that by (auto simp: votes_ok_def) (metis image_eqI)
    then have "voter \<notin> set (concat (map uh_signingIPs us))" using Cons.prems(3) by auto
    then show ?thesis using True Cons.prems(1,2) by (auto simp: addSigningIP_def votes_ok_def)
  next
    case False
    obtain f us2 where rec: "sign_first x voter us = (f, us2)" by fastforce
    have us': "us' = uh # us2" using Cons.prems(1) False by (simp add: rec)
    have "distinct (concat (map uh_signingIPs us2))"
      using Cons.IH [OF rec] Cons.prems(2,3) by (auto simp: votes_ok_def)
    moreover have "voter \<notin> set (uh_signingIPs uh)" using Cons.prems(3) False by simp
    ultimately show ?thesis
      using sign_first_spec [OF rec] Cons.prems(2) by (auto simp: us' votes_ok_def)
  qed
qed simp

lemma most_trusted_spec:
  assumes "most_trusted i us (idx, v) = (idx', v')"
  shows "(idx' = idx \<and> v' = v \<or> i \<le> idx' \<and> idx' < i + length us \<and> v' = length (uh_signingIPs (us ! (idx' - i)))) \<and>
    v \<le> v' \<and> (\<forall>uh \<in> set us. length (uh_signingIPs uh) \<le> v')"
  using assms
proof (induction us arbitrary: i idx v)
  case (Cons uh us)
  show ?case
  proof (cases "length (uh_signingIPs uh) > v")
    case True
    then have "most_trusted (i + 1) us (i, length (uh_signingIPs uh)) = (idx', v')" using Cons.prems by simp
    from Cons.IH [OF this] show ?thesis using True by (fastforce simp: nth_Cons' Suc_diff_le)
  next
    case False
    then have "most_trusted (i + 1) us (idx, v) = (idx', v')" using Cons.prems by simp
    from Cons.IH [OF this] show ?thesis using False by (fastforce simp: nth_Cons' Suc_diff_le)
  qed
qed simp

lemma root_frame [simp]: "m_hash (set_root x t) = (if t = Null then m_hash Null else x)"
  "m_hash (drop_children t) = m_hash t" "(set_root x t = Null) = (t = Null)" "(drop_children t = Null) = (t = Null)"
  by (cases t; simp)+

lemma adopt_spec:
  "m_hashTree s \<noteq> Null \<Longrightarrow> m_hashTree (adopt x st s) \<noteq> Null \<and> m_status (adopt x st s) = st \<and>
    getMasterHash (adopt x st s) = x \<and> m_untrustedHashes (adopt x st s) = m_untrustedHashes s"
  by (auto simp: adopt_def Let_def setStatus_def freeHashSet_def setMasterHash_def getMasterHash_def hasValidMasterHash_def)

text \<open>Where the votes came from, and what made the root trusted.\<close>

definition votes_from :: "(aich_hash \<times> address) list \<Rightarrow> untrusted_hash list \<Rightarrow> bool" where
  "votes_from vs us \<longleftrightarrow> votes_ok us \<and>
     (\<forall>uh \<in> set us. \<forall>w \<in> set (uh_signingIPs uh). \<exists>a. voterKey a = w \<and> (uh_hash uh, a) \<in> set vs)"

definition trusted_ok :: "(aich_hash \<times> address) list \<Rightarrow> aich_set \<Rightarrow> bool" where
  "trusted_ok vs s \<longleftrightarrow> votes_from vs (m_untrustedHashes s) \<and> m_hashTree s \<noteq> Null \<and>
     (m_status s = Trusted \<longrightarrow>
        (\<exists>uh \<in> set (m_untrustedHashes s). uh_hash uh = getMasterHash s \<and>
           kMinUniqueIPsToTrust \<le> length (uh_signingIPs uh)))"

lemma addSigningIP_mono:
  "uh_hash (snd (addSigningIP w b uh)) = uh_hash uh \<and> length (uh_signingIPs uh) \<le> length (uh_signingIPs (snd (addSigningIP w b uh)))"
  by (simp add: addSigningIP_def)

lemma sign_first_from:
  assumes "sign_first x (voterKey a) us = (found, us')"
    "\<forall>uh \<in> set us. \<forall>w \<in> set (uh_signingIPs uh). \<exists>a. voterKey a = w \<and> (uh_hash uh, a) \<in> set vs"
  shows "\<forall>uh \<in> set us'. \<forall>w \<in> set (uh_signingIPs uh). \<exists>a'. voterKey a' = w \<and> (uh_hash uh, a') \<in> set ((x, a) # vs)"
  using assms
proof (induction us arbitrary: found us')
  case (Cons u us)
  obtain f us2 where rec: "sign_first x (voterKey a) us = (f, us2)" by fastforce
  have u: "\<forall>w \<in> set (uh_signingIPs u). \<exists>a'. voterKey a' = w \<and> (uh_hash u, a') \<in> set ((x, a) # vs)"
    using Cons.prems(2) by fastforce
  have us: "\<forall>uh \<in> set us. \<forall>w \<in> set (uh_signingIPs uh). \<exists>a'. voterKey a' = w \<and> (uh_hash uh, a') \<in> set ((x, a) # vs)"
    using Cons.prems(2) by fastforce
  show ?case
  proof (cases "uh_hash u = x")
    case True
    have "\<forall>w \<in> set (uh_signingIPs (snd (addSigningIP (voterKey a) False u))).
        \<exists>a'. voterKey a' = w \<and> (uh_hash u, a') \<in> set ((x, a) # vs)"
      using u True by (auto simp: addSigningIP_def)
    moreover have "us' = snd (addSigningIP (voterKey a) False u) # us" using True Cons.prems(1) by simp
    ultimately show ?thesis using us addSigningIP_mono by simp
  next
    case False
    then have "us' = u # us2" using Cons.prems(1) by (simp add: rec)
    then show ?thesis using u Cons.IH [OF rec] Cons.prems(2) by simp
  qed
qed simp

lemma sign_first_mono:
  assumes "sign_first x voter us = (found, us')" "uh \<in> set us"
  shows "\<exists>uh' \<in> set us'. uh_hash uh' = uh_hash uh \<and> length (uh_signingIPs uh) \<le> length (uh_signingIPs uh')"
  using assms
proof (induction us arbitrary: found us')
  case (Cons u us)
  obtain f us2 where rec: "sign_first x voter us = (f, us2)" by fastforce
  show ?case
  proof (cases "uh_hash u = x")
    case True
    then have us': "us' = snd (addSigningIP voter False u) # us" using Cons.prems(1) by simp
    show ?thesis
    proof (cases "uh = u")
      case True
      then show ?thesis using addSigningIP_mono [of voter False u] by (simp add: us')
    next
      case False
      then show ?thesis using Cons.prems(2) by (auto simp: us')
    qed
  next
    case False
    then have us': "us' = u # us2" using Cons.prems(1) by (simp add: rec)
    show ?thesis
    proof (cases "uh \<in> set us")
      case True
      then show ?thesis using Cons.IH [OF rec] by (auto simp: us')
    qed (use Cons.prems(2) in \<open>auto simp: us'\<close>)
  qed
qed simp

lemma vote_counted:
  assumes "votes_from vs us" "\<forall>uh \<in> set us. uh_hash uh \<noteq> x \<longrightarrow> voterKey a \<notin> set (uh_signingIPs uh)"
    "sign_first x (voterKey a) us = (found, us1)"
    "us' = (if found then us1 else us1 @ [new_vote x (voterKey a)])"
  shows "votes_from ((x, a) # vs) us' \<and>
    (\<forall>uh \<in> set us. \<exists>uh' \<in> set us'. uh_hash uh' = uh_hash uh \<and> length (uh_signingIPs uh) \<le> length (uh_signingIPs uh'))"
proof -
  have ok: "votes_ok us" using assms(1) by (simp add: votes_from_def)
  note spec = sign_first_spec [OF assms(3)]
  note dist = sign_first_distinct [OF assms(3) ok assms(2)]
  have from': "\<forall>uh \<in> set us1. \<forall>w \<in> set (uh_signingIPs uh). \<exists>a'. voterKey a' = w \<and> (uh_hash uh, a') \<in> set ((x, a) # vs)"
    by (rule sign_first_from [OF assms(3)]) (use assms(1) in \<open>simp add: votes_from_def\<close>)
  have new: "new_vote x (voterKey a) = \<lparr>uh_hash = x, uh_signingIPs = [voterKey a]\<rparr>"
    by (simp add: new_vote_def addSigningIP_def)
  have "votes_ok us'"
  proof (cases found)
    case True
    then show ?thesis using spec dist ok by (simp add: assms(4) votes_ok_def)
  next
    case False
    then have x: "x \<notin> uh_hash ` set us" using spec by simp
    have "us1 = us" using assms(3) False
      by (induction us arbitrary: us1 found) (auto split: if_splits prod.splits)
    moreover have "voterKey a \<notin> set (concat (map uh_signingIPs us))" using assms(2) x by auto
    ultimately show ?thesis using False x ok by (auto simp: assms(4) new votes_ok_def)
  qed
  moreover have "\<forall>uh \<in> set us'. \<forall>w \<in> set (uh_signingIPs uh). \<exists>a'. voterKey a' = w \<and> (uh_hash uh, a') \<in> set ((x, a) # vs)"
    using from' by (auto simp: assms(4) new)
  moreover have "\<forall>uh \<in> set us. \<exists>uh' \<in> set us'. uh_hash uh' = uh_hash uh \<and> length (uh_signingIPs uh) \<le> length (uh_signingIPs uh')"
    using sign_first_mono [OF assms(3)] by (auto simp: assms(4))
  ultimately show ?thesis by (simp add: votes_from_def)
qed

lemma votes_from_mono: "votes_from vs us \<Longrightarrow> votes_from (v # vs) us"
  by (fastforce simp: votes_from_def)

lemma received_trusted_ok:
  assumes "trusted_ok vs s"
  shows "trusted_ok ((x, a) # vs) (untrustedHashReceived x a s)"
proof -
  let ?us = "m_untrustedHashes s"
  have same: "trusted_ok ((x, a) # vs) s" using assms votes_from_mono by (auto simp: trusted_ok_def)
  show ?thesis
  proof (cases "m_status s \<notin> {Empty, Untrusted, Trusted} \<or>
      (\<exists>uh \<in> set ?us. uh_hash uh \<noteq> x \<and> \<not> fst (addSigningIP (voterKey a) True uh))")
    case True
    then show ?thesis using same by (auto simp: untrustedHashReceived_def vote_def Let_def)
  next
    case False
    then have once: "\<forall>uh \<in> set ?us. uh_hash uh \<noteq> x \<longrightarrow> voterKey a \<notin> set (uh_signingIPs uh)"
      by (auto simp: addSigningIP_def split: if_splits)
    obtain found us1 where sf: "sign_first x (voterKey a) ?us = (found, us1)" by fastforce
    define us' where "us' = (if found then us1 else us1 @ [new_vote x (voterKey a)])"
    define s' where "s' = s\<lparr>m_untrustedHashes := us'\<rparr>"
    obtain idx votes where mt: "most_trusted 0 us' (0, 0) = (idx, votes)" by fastforce
    have counted: "votes_from ((x, a) # vs) us'"
      "\<And>uh. uh \<in> set ?us \<Longrightarrow> \<exists>uh' \<in> set us'. uh_hash uh' = uh_hash uh \<and> length (uh_signingIPs uh) \<le> length (uh_signingIPs uh')"
      using vote_counted [OF _ once sf us'_def, of vs] assms by (auto simp: trusted_ok_def)
    have keep: "trusted_ok ((x, a) # vs) s'"
      using assms counted by (fastforce simp: trusted_ok_def s'_def getMasterHash_def)
    have c1: "(m_status s \<notin> {Empty, Untrusted, Trusted}) = False"
      and c2: "(\<exists>uh \<in> set ?us. uh_hash uh \<noteq> x \<and> \<not> fst (addSigningIP (voterKey a) True uh)) = False"
      using False by simp_all
    have result: "untrustedHashReceived x a s =
       (if m_status s = Trusted \<and> hasValidMasterHash s then s'
        else if votes = 0 \<or> total_votes us' = 0 then s'
        else if votes \<ge> kMinUniqueIPsToTrust \<and> 100 * votes div total_votes us' \<ge> kMinPercentageToTrust
        then adopt (uh_hash (us' ! idx)) Trusted s' else adopt (uh_hash (us' ! idx)) Untrusted s')"
      unfolding untrustedHashReceived_def vote_def Let_def c1 c2 if_False sf prod.case us'_def [symmetric] s'_def [symmetric] mt ..
    have idx: "us' ! idx \<in> set us'" "votes = length (uh_signingIPs (us' ! idx))" if "votes \<noteq> 0"
      using most_trusted_spec [OF mt] that by auto
    have s': "m_hashTree s' \<noteq> Null" "m_untrustedHashes s' = us'" using assms by (simp_all add: s'_def trusted_ok_def)
    have adopted: "trusted_ok ((x, a) # vs) (adopt (uh_hash (us' ! idx)) st s')"
      if "votes \<noteq> 0" "st = Trusted \<longrightarrow> kMinUniqueIPsToTrust \<le> votes" for st
      using adopt_spec [OF s'(1), of "uh_hash (us' ! idx)" st] counted(1) idx that s'(2)
      by (auto simp: trusted_ok_def)
    show ?thesis unfolding result using keep adopted by auto
  qed
qed

fun received_all :: "(aich_hash \<times> address) list \<Rightarrow> aich_set \<Rightarrow> aich_set" where
  "received_all [] s = s"
| "received_all ((x, a) # vs) s = received_all vs (untrustedHashReceived x a s)"

lemma received_all_ok: "trusted_ok us s \<Longrightarrow> trusted_ok (rev vs @ us) (received_all vs s)"
proof (induction vs arbitrary: us s)
  case (Cons v vs)
  then show ?case using received_trusted_ok by (cases v) fastforce
qed simp

text \<open>C33. However the votes for root hashes arrive, the root becomes trusted only when at least ten
  different networks named it, each network counted for one root.\<close>

theorem trust_needs_ten_networks:
  assumes "m_status (received_all votes (newHashSet n)) = Trusted"
  shows "\<exists>voters. distinct voters \<and> 10 \<le> length voters \<and>
    (\<forall>w \<in> set voters. \<exists>a. voterKey a = w \<and> (getMasterHash (received_all votes (newHashSet n)), a) \<in> set votes)"
proof -
  have "trusted_ok [] (newHashSet n)"
    by (auto simp: trusted_ok_def votes_from_def votes_ok_def newHashSet_def setFileSize_def newTree_def Let_def)
  then have "trusted_ok (rev votes @ []) (received_all votes (newHashSet n))" by (rule received_all_ok)
  then obtain uh where uh: "uh \<in> set (m_untrustedHashes (received_all votes (newHashSet n)))"
    "uh_hash uh = getMasterHash (received_all votes (newHashSet n))" "10 \<le> length (uh_signingIPs uh)"
    "votes_from (rev votes) (m_untrustedHashes (received_all votes (newHashSet n)))"
    using assms by (auto simp: trusted_ok_def kMinUniqueIPsToTrust_def)
  then have "distinct (uh_signingIPs uh)"
    by (auto simp: votes_from_def votes_ok_def distinct_concat_iff)
  then show ?thesis using uh by (fastforce simp: votes_from_def)
qed

theorem trust_needs_ten_networks_witness:
  "let votes = map (\<lambda>ip. ([1], IPv4 ip)) [0x01000000, 0x02000000, 0x03000000, 0x04000000, 0x05000000,
         0x06000000, 0x07000000, 0x08000000, 0x09000000, 0x0A000000];
       s = received_all votes (newHashSet 9)
   in m_status s = Trusted \<and>
     (\<exists>voters. distinct voters \<and> 10 \<le> length voters \<and>
       (\<forall>w \<in> set voters. \<exists>a. voterKey a = w \<and> (getMasterHash s, a) \<in> set votes))"
  unfolding Let_def
proof (rule conjI)
  let ?votes = "map (\<lambda>ip. ([1 :: u8], IPv4 ip)) [0x01000000, 0x02000000, 0x03000000, 0x04000000, 0x05000000,
         0x06000000, 0x07000000, 0x08000000, 0x09000000, 0x0A000000]"
  have keys: "voterKey (IPv4 0x01000000) = 1" "voterKey (IPv4 0x02000000) = 2" "voterKey (IPv4 0x03000000) = 3"
    "voterKey (IPv4 0x04000000) = 4" "voterKey (IPv4 0x05000000) = 5" "voterKey (IPv4 0x06000000) = 6"
    "voterKey (IPv4 0x07000000) = 7" "voterKey (IPv4 0x08000000) = 8" "voterKey (IPv4 0x09000000) = 9"
    "voterKey (IPv4 0x0A000000) = 10"
    by (simp_all add: voterKey_def ntohl_def byte_of_def)
  have new: "newHashSet 9 = \<lparr>m_hashTree = Node 9 True False False (replicate kAICHHashSize 0) Null Null,
      m_status = Empty, m_untrustedHashes = []\<rparr>"
    by (simp add: newHashSet_def setFileSize_def newTree_def setBaseSize_def PARTSIZE_def EMBLOCKSIZE_def)
  have "m_status (fold (vote [1]) [1, 2, 3, 4, 5, 6, 7, 8, 9, 10] (newHashSet 9)) = Trusted"
    unfolding new by code_simp
  then show "m_status (received_all ?votes (newHashSet 9)) = Trusted"
    by (simp add: untrustedHashReceived_def keys)
  then show "\<exists>voters. distinct voters \<and> 10 \<le> length voters \<and>
       (\<forall>w \<in> set voters. \<exists>a. voterKey a = w \<and> (getMasterHash (received_all ?votes (newHashSet 9)), a) \<in> set ?votes)"
    by (rule trust_needs_ten_networks)
qed

end
