(* ===== verification/Aich_Store.thy ===== *)
theory Aich_Store
  imports Aich_Set
begin

text \<open>
  Keeping hash sets in known2_64.met (src/core/crypto/AICHHashSet.cpp): saving, loading by the
  index of positions or by a scan of the records, and the compaction.  The file is its bytes,
  None where it cannot be opened; writing to it does not fail.  The index and the set of
  hashes saved in this session are the static members of the class.
\<close>

definition kKnown2MetVersion :: u8 where "kKnown2MetVersion = 2"

record known2 =
  k2_file :: "u8 list option"
  s_storedHashes :: "aich_hash \<Rightarrow> nat option"
  s_savedThisSession :: "aich_hash set"

definition addStoredAICHHash :: "aich_hash \<Rightarrow> nat \<Rightarrow> known2 \<Rightarrow> nat \<times> known2" where
  "addStoredAICHHash x filePos k =
     (case s_storedHashes k x of
        Some oldPos \<Rightarrow>
          if filePos \<le> oldPos then (0, k)
          else (oldPos, k\<lparr>s_storedHashes := (s_storedHashes k)(x \<mapsto> filePos)\<rparr>)
      | None \<Rightarrow> (0, k\<lparr>s_storedHashes := (s_storedHashes k)(x \<mapsto> filePos)\<rparr>))"

text \<open>How many block hashes a set for a file has.\<close>

definition hash_count :: "nat \<Rightarrow> u32" where
  "hash_count dataSize =
     of_nat (nBlocks PARTSIZE EMBLOCKSIZE * (dataSize div PARTSIZE)) +
     (if dataSize mod PARTSIZE \<noteq> 0 then of_nat (nBlocks (dataSize mod PARTSIZE) EMBLOCKSIZE) else 0)"

definition saveHashSet :: "aich_set \<Rightarrow> known2 \<Rightarrow> bool \<times> aich_set \<times> known2" where
  "saveHashSet s k =
     (let t = m_hashTree s; x = getMasterHash s
      in if m_status s \<noteq> HashSetComplete \<or> \<not> hasValidMasterHash s \<or> m_dataSize t = 0 then (False, s, k)
         else case k2_file k of
           None \<Rightarrow> (False, s, k)
         | Some old \<Rightarrow>
             let file = (if old = [] then [kKnown2MetVersion] else old); k1 = k\<lparr>k2_file := Some file\<rparr>
             in if hd file \<noteq> kKnown2MetVersion then (False, s, k1)
                else if s_storedHashes k x \<noteq> None then
                  (True, s, k1\<lparr>s_savedThisSession := insert x (s_savedThisSession k)\<rparr>)
                else case writeLowestLevelHashes t 0 True True of
                    (False, _) \<Rightarrow> (False, freeHashSet s, k1)
                  | (True, out) \<Rightarrow>
                      let k2 = k1\<lparr>k2_file := Some (file @ write_hash x @ writeUInt32 (hash_count (m_dataSize t)) @ out)\<rparr>;
                          k3 = snd (addStoredAICHHash x (length file) k2)
                      in (True, freeHashSet s, k3\<lparr>s_savedThisSession := insert x (s_savedThisSession k)\<rparr>))"

definition set_tree :: "aich_tree \<Rightarrow> aich_set \<Rightarrow> aich_set" where
  "set_tree t s = s\<lparr>m_hashTree := t\<rparr>"

text \<open>The record of the right hash was found; f is what follows its hash.\<close>

definition load_record :: "(u8 list \<Rightarrow> aich_hash) \<Rightarrow> in_bytes \<Rightarrow> aich_set \<Rightarrow> bool \<times> aich_set" where
  "load_record sha f s =
     (case readUInt32 f of
        None \<Rightarrow> (False, s)
      | Some (hashCount, f') \<Rightarrow>
          if hashCount \<noteq> hash_count (m_dataSize (m_hashTree s)) then (False, s)
          else case loadLowestLevelHashes (m_hashTree s) f' of
              (Returned True, t, _) \<Rightarrow>
                (case reCalculateHash sha False t of
                   (True, t') \<Rightarrow> (m_hash t' = getMasterHash s, set_tree t' s)
                 | (False, t') \<Rightarrow> (False, set_tree t' s))
            | (_, t, _) \<Rightarrow> (False, set_tree t s))"

text \<open>The scan of the records from a position on.\<close>

function scan_records :: "(u8 list \<Rightarrow> aich_hash) \<Rightarrow> u8 list \<Rightarrow> nat \<Rightarrow> aich_set \<Rightarrow> bool \<times> aich_set" where
  "scan_records sha file pos s =
     (if pos \<ge> length file then (False, s)
      else case read_bytes kAICHHashSize (drop pos file) of
          None \<Rightarrow> (False, s)
        | Some (currentHash, f) \<Rightarrow>
            if getMasterHash s = currentHash then load_record sha f s
            else case readUInt32 f of
                None \<Rightarrow> (False, s)
              | Some (hashCount, f') \<Rightarrow>
                  let payload = unat hashCount * kAICHHashSize
                  in if payload > length f' then (False, s)
                     else scan_records sha file (pos + kAICHHashSize + 4 + payload) s)"
  by pat_completeness auto
termination
  by (relation "measure (\<lambda>(sha, file, pos, s). length file - pos)") (auto simp: kAICHHashSize_def)

declare scan_records.simps [simp del]

definition loadHashSet :: "(u8 list \<Rightarrow> aich_hash) \<Rightarrow> known2 \<Rightarrow> aich_set \<Rightarrow> bool \<times> aich_set" where
  "loadHashSet sha k s =
     (if m_status s \<noteq> HashSetComplete then (False, s)
      else if \<not> hasValidMasterHash s \<or> m_dataSize (m_hashTree s) = 0 then (False, s)
      else case k2_file k of
        None \<Rightarrow> (False, s)
      | Some file \<Rightarrow>
          if file = [] \<or> hd file \<noteq> kKnown2MetVersion then (False, s)
          else case s_storedHashes k (getMasterHash s) of
              None \<Rightarrow> scan_records sha file 1 s
            | Some expectedPos \<Rightarrow>
                if expectedPos \<ge> length file \<or> length file \<le> 1 then scan_records sha file 1 s
                else case read_bytes kAICHHashSize (drop expectedPos file) of
                    None \<Rightarrow> (False, s)
                  | Some (currentHash, f) \<Rightarrow>
                      if getMasterHash s = currentHash then load_record sha f s
                      else scan_records sha file 1 s)"

section \<open>Compaction\<close>

record k2_record =
  rec_hash :: aich_hash
  rec_pos :: nat
  rec_length :: nat

text \<open>The records of the file, None for a torn one.\<close>

function read_records :: "u8 list \<Rightarrow> nat \<Rightarrow> k2_record list option" where
  "read_records file pos =
     (if pos \<ge> length file then Some []
      else case read_bytes kAICHHashSize (drop pos file) of
          None \<Rightarrow> None
        | Some (x, f) \<Rightarrow>
            (case readUInt32 f of
               None \<Rightarrow> None
             | Some (n, f') \<Rightarrow>
                 let payload = unat n * kAICHHashSize; len = kAICHHashSize + 4 + payload
                 in if payload > length f' then None
                    else map_option (\<lambda>rs. \<lparr>rec_hash = x, rec_pos = pos, rec_length = len\<rparr> # rs)
                           (read_records file (pos + len))))"
  by pat_completeness auto
termination
  by (relation "measure (\<lambda>(file, pos). length file - pos)") (auto simp: kAICHHashSize_def)

declare read_records.simps [simp del]

definition newest_pos :: "k2_record list \<Rightarrow> aich_hash \<Rightarrow> nat option" where
  "newest_pos rs = foldl (\<lambda>m r. m(rec_hash r \<mapsto> rec_pos r)) Map.empty rs"

definition rec_keep :: "(aich_hash \<Rightarrow> bool) \<Rightarrow> known2 \<Rightarrow> k2_record list \<Rightarrow> k2_record \<Rightarrow> bool" where
  "rec_keep keep k rs r \<longleftrightarrow>
     rec_hash r \<noteq> replicate kAICHHashSize 0 \<and> newest_pos rs (rec_hash r) = Some (rec_pos r) \<and>
     (rec_hash r \<in> s_savedThisSession k \<or> keep (rec_hash r))"

fun copy_records :: "u8 list \<Rightarrow> k2_record list \<Rightarrow> u8 list \<Rightarrow> (aich_hash \<Rightarrow> nat option) \<Rightarrow> u8 list \<times> (aich_hash \<Rightarrow> nat option)" where
  "copy_records file [] out index = (out, index)"
| "copy_records file (r # rs) out index =
     copy_records file rs (out @ take (rec_length r) (drop (rec_pos r) file)) (index(rec_hash r \<mapsto> length out))"

text \<open>The result, the number of sets and bytes dropped, and the store.\<close>

definition compactKnown2 :: "(aich_hash \<Rightarrow> bool) \<Rightarrow> known2 \<Rightarrow> bool \<times> nat \<times> nat \<times> known2" where
  "compactKnown2 keep k =
     (case k2_file k of
        None \<Rightarrow> (False, 0, 0, k)
      | Some file \<Rightarrow>
          if file = [] \<or> hd file \<noteq> kKnown2MetVersion then (False, 0, 0, k)
          else case read_records file 1 of
              None \<Rightarrow> (False, 0, 0, k)
            | Some rs \<Rightarrow>
                let kept = filter (rec_keep keep k rs) rs; dropped = filter (\<lambda>r. \<not> rec_keep keep k rs r) rs
                in if dropped = [] then (True, 0, 0, k)
                   else case copy_records file kept [kKnown2MetVersion] Map.empty of
                     (out, index) \<Rightarrow>
                       (True, length dropped, sum_list (map rec_length dropped),
                        k\<lparr>k2_file := Some out, s_storedHashes := index\<rparr>))"

lemma saved_set_load:
  assumes "shaped n True T" "complete sha T" "m_hashTree s = T" "m_status s = HashSetComplete" "0 < n"
    "k2_file k = Some old_file" "old_file = [] \<or> hd old_file = kKnown2MetVersion" "s_storedHashes k (m_hash T) = None"
    "shaped n True t0" "t0 \<noteq> Null" "m_hashValid t0" "m_hash t0 = m_hash T" "m_hashTree s0 = t0" "m_status s0 = HashSetComplete"
  shows "\<exists>s' k'. saveHashSet s k = (True, s', k') \<and> loadHashSet sha k' s0 = (True, set_tree T s0)"
proof -
  have T: "T \<noteq> Null" "m_hashValid T" "m_dataSize T = n" "length (m_hash T) = kAICHHashSize"
    using complete_valid [OF assms(2)] shaped_sel [OF assms(1)] by auto
  have t0: "m_dataSize t0 = n" using shaped_sel [OF assms(9,10)] by simp
  define old_file' where "old_file' = (if old_file = [] then [kKnown2MetVersion] else old_file)"
  have old_file': "old_file' \<noteq> []" "hd old_file' = kKnown2MetVersion" using assms(7) by (auto simp: old_file'_def)
  define tail where "tail = m_hash T @ writeUInt32 (hash_count n) @ leaf_bytes T"
  define k' where "k' = k\<lparr>k2_file := Some (old_file' @ tail), s_storedHashes := (s_storedHashes k)(m_hash T \<mapsto> length old_file'),
    s_savedThisSession := insert (m_hash T) (s_savedThisSession k)\<rparr>"
  have save: "saveHashSet s k = (True, freeHashSet s, k')"
    using assms(3-6,8) T old_file' write_lowest [OF assms(2)]
    by (simp add: saveHashSet_def getMasterHash_def hasValidMasterHash_def old_file'_def [symmetric] addStoredAICHHash_def
        write_hash_def tail_def k'_def Let_def)
  obtain t' where t': "loadLowestLevelHashes t0 (leaf_bytes T @ []) = (Returned True, t', [])"
    "reCalculateHash sha False t' = (True, T)"
    using load_lowest [OF assms(2,1,9,10)] by blast
  have rec: "load_record sha (writeUInt32 (hash_count n) @ leaf_bytes T) s0 = (True, set_tree T s0)"
    using t' assms(12,13) t0 by (simp add: load_record_def getMasterHash_def)
  have read: "read_bytes kAICHHashSize (drop (length old_file') (old_file' @ tail)) =
      Some (m_hash T, writeUInt32 (hash_count n) @ leaf_bytes T)"
    using T(4) by (simp add: tail_def)
  have len: "length old_file' < length (old_file' @ tail)" "1 < length (old_file' @ tail)"
    using old_file' T(4) by (auto simp: tail_def kAICHHashSize_def Suc_lessI)
  have "loadHashSet sha k' s0 = (True, set_tree T s0)"
    using assms(5,11-14) t0 read rec len old_file'
    by (simp add: loadHashSet_def hasValidMasterHash_def getMasterHash_def k'_def)
  then show ?thesis using save by blast
qed

text \<open>A hash set that was saved is loaded again: whatever the file held, a set of the same file
  that knows only the root gets the whole tree back.\<close>

theorem saved_set_is_loaded:
  assumes "shaped n True T" "complete sha T" "m_hashTree s = T" "m_status s = HashSetComplete" "0 < n"
    "k2_file k = Some old_file" "old_file = [] \<or> hd old_file = kKnown2MetVersion" "s_storedHashes k (m_hash T) = None"
    "shaped n True t0" "t0 \<noteq> Null" "m_hashValid t0" "m_hash t0 = m_hash T" "m_hashTree s0 = t0" "m_status s0 = HashSetComplete"
  shows "\<exists>s' k'. saveHashSet s k = (True, s', k') \<and> loadHashSet sha k' s0 = (True, set_tree T s0)"
  by (rule saved_set_load [OF assms])

section \<open>What compaction keeps\<close>

lemma read_records_sorted:
  "read_records fs pos = Some rs \<Longrightarrow>
    (\<forall>r \<in> set rs. pos \<le> rec_pos r \<and> rec_pos r + rec_length r \<le> length fs) \<and> distinct (map rec_pos rs)"
proof (induction "length fs - pos" arbitrary: pos rs rule: less_induct)
  case less
  show ?case
  proof (cases "pos \<ge> length fs")
    case True
    then show ?thesis using less.prems by (subst (asm) read_records.simps) auto
  next
    case False
    then obtain x f n f' where rd: "read_bytes kAICHHashSize (drop pos fs) = Some (x, f)" "readUInt32 f = Some (n, f')"
      and fits: "\<not> unat n * kAICHHashSize > length f'"
      using less.prems by (subst (asm) read_records.simps) (auto simp: Let_def split: option.splits if_splits)
    define len where "len = kAICHHashSize + 4 + unat n * kAICHHashSize"
    have "f' = drop (kAICHHashSize + 4) (drop pos fs)" "kAICHHashSize + 4 \<le> length (drop pos fs)"
      using rd by (auto simp: read_bytes_def readUInt32_def read_le_def ac_simps split: if_splits)
    then have bound: "pos + len \<le> length fs" using fits by (auto simp: len_def)
    obtain rs' where rs: "rs = \<lparr>rec_hash = x, rec_pos = pos, rec_length = len\<rparr> # rs'"
      and rec: "read_records fs (pos + len) = Some rs'"
      using less.prems False fits rd
      by (subst (asm) read_records.simps) (auto simp: Let_def len_def [symmetric])
    have "0 < len" by (simp add: len_def)
    then have "length fs - (pos + len) < length fs - pos" using False by linarith
    from less.hyps [OF this rec] show ?thesis using rs bound \<open>0 < len\<close> by fastforce
  qed
qed

lemma newest_pos_last: "newest_pos (rs @ [r]) = (newest_pos rs)(rec_hash r \<mapsto> rec_pos r)"
  by (simp add: newest_pos_def)

lemma copy_records_spec:
  assumes "copy_records fs rs out index = (out', index')" "distinct (map rec_hash rs)"
    "\<forall>r \<in> set rs. rec_pos r + rec_length r \<le> length fs"
  shows "(\<exists>more. out' = out @ more) \<and> (\<forall>x. x \<notin> rec_hash ` set rs \<longrightarrow> index' x = index x) \<and>
    (\<forall>r \<in> set rs. \<exists>p. index' (rec_hash r) = Some p \<and>
       take (rec_length r) (drop p out') = take (rec_length r) (drop (rec_pos r) fs))"
  using assms
proof (induction rs arbitrary: out index)
  case (Cons r rs)
  let ?b = "take (rec_length r) (drop (rec_pos r) fs)"
  have rec: "copy_records fs rs (out @ ?b) (index(rec_hash r \<mapsto> length out)) = (out', index')"
    using Cons.prems(1) by simp
  note ih = Cons.IH [OF rec] 
  have "rec_pos r + rec_length r \<le> length fs" using Cons.prems(3) by simp
  then have len: "length ?b = rec_length r" by simp
  obtain more where more: "out' = (out @ ?b) @ more" using ih Cons.prems by auto
  then have "take (rec_length r) (drop (length out) out') = ?b" using len by simp
  moreover have "index' (rec_hash r) = Some (length out)" using ih Cons.prems(2,3) by auto
  ultimately show ?case using ih Cons.prems(2,3) more by auto
qed simp

text \<open>After a compaction the index leads to the very bytes of every set that was kept.\<close>

lemma compaction_keeps_sets:
  assumes "k2_file k = Some fs" "read_records fs 1 = Some rs" "compactKnown2 keep k = (True, d, b, k')" "0 < d"
    "r \<in> set rs" "rec_keep keep k rs r"
  shows "\<exists>p out. k2_file k' = Some out \<and> s_storedHashes k' (rec_hash r) = Some p \<and>
    take (rec_length r) (drop p out) = take (rec_length r) (drop (rec_pos r) fs)"
proof -
  let ?kept = "filter (rec_keep keep k rs) rs"
  note recs = read_records_sorted [OF assms(2)]
  have "inj_on rec_hash (set ?kept)"
  proof (rule inj_onI)
    fix r1 r2 assume r: "r1 \<in> set ?kept" "r2 \<in> set ?kept" "rec_hash r1 = rec_hash r2"
    then have "rec_pos r1 = rec_pos r2" by (auto simp: rec_keep_def)
    then show "r1 = r2" using recs r by (auto simp: distinct_map inj_on_def)
  qed
  moreover have "distinct ?kept" using recs by (simp add: distinct_map)
  ultimately have dist: "distinct (map rec_hash ?kept)" by (simp add: distinct_map)
  obtain out index where copy: "copy_records fs ?kept [kKnown2MetVersion] Map.empty = (out, index)" by fastforce
  have k': "k' = k\<lparr>k2_file := Some out, s_storedHashes := index\<rparr>"
    using assms(1-4) copy by (auto simp: compactKnown2_def Let_def split: if_splits)
  have "\<exists>p. index (rec_hash r) = Some p \<and>
      take (rec_length r) (drop p out) = take (rec_length r) (drop (rec_pos r) fs)"
    using copy_records_spec [OF copy dist] recs assms(5,6) by auto
  then show ?thesis using k' by auto
qed

end
