(* ===== verification/Aich_Recovery.thy ===== *)
theory Aich_Recovery
  imports Aich_Store
begin

text \<open>
  Recovery packets (src/core/crypto/AICHHashSet.cpp): the hashes that let another client check
  the blocks of one part against the root, written by createRecoveryData, read by
  readRecoveryData.
\<close>

definition sub64 :: "nat \<Rightarrow> nat \<Rightarrow> nat" where
  "sub64 a b = (a + 2 ^ 64 - b) mod 2 ^ 64"

definition part_size :: "nat \<Rightarrow> nat \<Rightarrow> nat" where
  "part_size fileSize partStartPos = min PARTSIZE (sub64 fileSize partStartPos)"

definition block_starts :: "nat \<Rightarrow> nat list" where
  "block_starts partSize = map (\<lambda>k. k * EMBLOCKSIZE) [0..<nBlocks partSize EMBLOCKSIZE]"

definition block_known :: "aich_tree \<Rightarrow> nat \<Rightarrow> nat \<Rightarrow> nat \<Rightarrow> bool" where
  "block_known t partStartPos partSize pos =
     (case findExistingHash 0 t (add64 partStartPos pos) (min EMBLOCKSIZE (partSize - pos)) of
        None \<Rightarrow> False | Some node \<Rightarrow> m_hashValid node)"

definition isPartDataAvailable :: "nat \<Rightarrow> nat \<Rightarrow> aich_set \<Rightarrow> bool" where
  "isPartDataAvailable partStartPos fileSize s =
     (m_status s \<in> {Verified, Trusted, HashSetComplete} \<and>
      list_all (block_known (m_hashTree s) partStartPos (part_size fileSize partStartPos))
        (block_starts (part_size fileSize partStartPos)))"

definition isLargeFile :: "aich_set \<Rightarrow> bool" where
  "isLargeFile s = (m_dataSize (m_hashTree s) > OLD_MAX_EMULE_FILE_SIZE)"

definition part_count :: "nat \<Rightarrow> nat" where
  "part_count fileSize = ((fileSize + PARTSIZE - 1) mod 2 ^ 64) div PARTSIZE mod 2 ^ 32"

text \<open>The hashes of all parts; the second value is what the result vector holds.\<close>

fun collect_parts :: "aich_tree \<Rightarrow> nat list \<Rightarrow> aich_hash list \<Rightarrow> bool \<times> aich_hash list" where
  "collect_parts t [] result = (True, result)"
| "collect_parts t (part # ps) result =
     (case findExistingHash 0 t (part * PARTSIZE) (part_size (m_dataSize t) (part * PARTSIZE)) of
        None \<Rightarrow> (False, [])
      | Some node \<Rightarrow> if m_hashValid node then collect_parts t ps (result @ [m_hash node]) else (False, []))"

definition getPartHashes :: "aich_set \<Rightarrow> bool \<times> aich_hash list" where
  "getPartHashes s =
     (if m_status s \<noteq> HashSetComplete then (False, [])
      else let n = part_count (m_dataSize (m_hashTree s))
      in if n \<le> 1 then (True, []) else collect_parts (m_hashTree s) [0..<n] [])"

definition findPartHash :: "u16 \<Rightarrow> aich_set \<Rightarrow> aich_set \<times> bool list option" where
  "findPartHash part s =
     (let fileSize = m_dataSize (m_hashTree s); partStartPos = unat part * PARTSIZE
      in if fileSize \<le> PARTSIZE then (s, Some [])
         else case findHash 0 (m_hashTree s) partStartPos (part_size fileSize partStartPos) of
           (t, p, _) \<Rightarrow> (set_tree t s, p))"

definition hashes_expected :: "nat \<Rightarrow> nat \<Rightarrow> u16" where
  "hashes_expected level partSize = of_nat ((level - 1) + nBlocks partSize EMBLOCKSIZE)"

definition createRecoveryData :: "(u8 list \<Rightarrow> aich_hash) \<Rightarrow> known2 \<Rightarrow> nat \<Rightarrow> bool \<Rightarrow> aich_set \<Rightarrow> bool \<times> out_bytes \<times> aich_set" where
  "createRecoveryData sha k partStartPos dbgDontLoad s0 =
     (if m_status s0 \<noteq> HashSetComplete then (False, [], s0)
      else if m_dataSize (m_hashTree s0) \<le> EMBLOCKSIZE then (False, [], s0)
      else case (if dbgDontLoad then (True, s0) else loadHashSet sha k s0) of
          (False, s) \<Rightarrow> (False, [], setStatus Error s)
        | (True, s) \<Rightarrow>
            let partSize = part_size (m_dataSize (m_hashTree s)) partStartPos
            in case findHash 0 (m_hashTree s) partStartPos partSize of
              (t, _, level) \<Rightarrow>
                let hashesToWrite = hashes_expected level partSize; use32Bit = isLargeFile s
                in case createPartRecoveryData t partStartPos partSize 0 use32Bit of
                  (ok, body) \<Rightarrow>
                    let result = (ok \<and> length body = unat hashesToWrite * (kAICHHashSize + (if use32Bit then 4 else 2)));
                        s1 = (if result then set_tree t s else setStatus Error (set_tree t s))
                    in (result,
                        (if use32Bit then writeUInt16 0 else []) @ writeUInt16 hashesToWrite @ body @
                          (if use32Bit then [] else writeUInt16 0),
                        if dbgDontLoad then s1 else freeHashSet s1))"

definition read_ident :: "bool \<Rightarrow> in_bytes \<Rightarrow> (u32 \<times> in_bytes) option" where
  "read_ident use32Bit f =
     (if use32Bit then readUInt32 f else map_option (\<lambda>(i, f'). (ucast i, f')) (readUInt16 f))"

fun read_hashes :: "bool \<Rightarrow> nat \<Rightarrow> aich_tree \<Rightarrow> in_bytes \<Rightarrow> bool io \<times> aich_tree \<times> in_bytes" where
  "read_hashes use32Bit 0 t f = (Returned True, t, f)"
| "read_hashes use32Bit (Suc i) t f =
     (case read_ident use32Bit f of
        None \<Rightarrow> (Raised, t, f)
      | Some (hashIdent, f1) \<Rightarrow>
          if hashIdent = 1 \<or> use32Bit \<and> hashIdent > 0x400000 then (Returned False, t, f1)
          else case setHash t f1 hashIdent False of
              (Returned True, t', f2) \<Rightarrow> read_hashes use32Bit i t' f2
            | (res, t', f2) \<Rightarrow> (res, t', f2))"

definition finish_recovery :: "(u8 list \<Rightarrow> aich_hash) \<Rightarrow> nat \<Rightarrow> nat \<Rightarrow> u16 \<Rightarrow> aich_tree \<Rightarrow> in_bytes \<Rightarrow> bool io \<times> aich_tree \<times> in_bytes" where
  "finish_recovery sha partStartPos partSize hashesAvailable t f =
     (if hashesAvailable = 0 then (Returned False, t, f)
      else case verifyHashTree sha True t of
          (True, t') \<Rightarrow> (Returned (list_all (block_known t' partStartPos partSize) (block_starts partSize)), t', f)
        | (False, t') \<Rightarrow> (Returned False, t', f))"

definition hashes_read :: "(u8 list \<Rightarrow> aich_hash) \<Rightarrow> bool io \<times> aich_tree \<times> in_bytes
    \<Rightarrow> (aich_tree \<Rightarrow> in_bytes \<Rightarrow> bool io \<times> aich_tree \<times> in_bytes) \<Rightarrow> bool io \<times> aich_tree \<times> in_bytes" where
  "hashes_read sha r k =
     (case r of
        (Returned True, t, f) \<Rightarrow> k t f
      | (Returned False, t, f) \<Rightarrow> (Returned False, snd (verifyHashTree sha True t), f)
      | (Raised, t, f) \<Rightarrow> (Raised, t, f))"

definition read_packet :: "(u8 list \<Rightarrow> aich_hash) \<Rightarrow> nat \<Rightarrow> nat \<Rightarrow> u16 \<Rightarrow> aich_tree \<Rightarrow> in_bytes \<Rightarrow> bool io \<times> aich_tree \<times> in_bytes" where
  "read_packet sha partStartPos partSize hashesToRead t f =
     (case readUInt16 f of
        None \<Rightarrow> (Raised, t, f)
      | Some (hashesAvailable, f1) \<Rightarrow>
          if length f1 < unat hashesToRead * (kAICHHashSize + 2) \<or> hashesToRead \<noteq> hashesAvailable \<and> hashesAvailable \<noteq> 0
          then (Returned False, t, f1)
          else hashes_read sha (read_hashes False (unat hashesAvailable) t f1) (\<lambda>t f2.
            if hashesAvailable = 0 \<and> length f2 \<ge> 2 then
              (case readUInt16 f2 of
                 None \<Rightarrow> (Raised, t, f2)
               | Some (hashesAvailable, f3) \<Rightarrow>
                   if length f3 < unat hashesToRead * (kAICHHashSize + 4) \<or> hashesToRead \<noteq> hashesAvailable \<and> hashesAvailable \<noteq> 0
                   then (Returned False, t, f3)
                   else hashes_read sha (read_hashes True (unat hashesToRead) t f3)
                     (finish_recovery sha partStartPos partSize hashesAvailable))
            else finish_recovery sha partStartPos partSize hashesAvailable t (if length f2 \<ge> 2 then drop 2 f2 else f2)))"

definition readRecoveryData :: "(u8 list \<Rightarrow> aich_hash) \<Rightarrow> nat \<Rightarrow> in_bytes \<Rightarrow> aich_set \<Rightarrow> bool io \<times> aich_set \<times> in_bytes" where
  "readRecoveryData sha partStartPos f s =
     (if m_status s \<notin> {Verified, Trusted} then (Returned False, s, f)
      else let partSize = part_size (m_dataSize (m_hashTree s)) partStartPos
      in case findHash 0 (m_hashTree s) partStartPos partSize of
        (t, _, level) \<Rightarrow>
          (case read_packet sha partStartPos partSize (hashes_expected level partSize) t f of
             (res, t', f') \<Rightarrow> (res, set_tree t' s, f')))"

section \<open>Identifiers are paths\<close>

definition ident_of :: "bool list \<Rightarrow> u32" where
  "ident_of p = foldl next_ident 1 p"

lemma bit_push1: "bit (push_bit 1 (i :: u32)) k \<longleftrightarrow> 0 < k \<and> k < 32 \<and> bit i (k - 1)"
  unfolding bit_push_bit_iff using bit_imp_le_length [of i "k - 1"] by auto

lemma bit_times2 [simp]: "bit ((i :: u32) * 2) k \<longleftrightarrow> 0 < k \<and> k < 32 \<and> bit i (k - 1)"
  using bit_push1 [of i k] by simp

lemma bit_next_ident: "bit (next_ident i d) k \<longleftrightarrow> k < 32 \<and> (if k = 0 then d else bit i (k - 1))"
  unfolding next_ident_def bit_or_iff bit_push1 by (cases k) (auto simp: bit_of_bool_iff)

lemma bit_foldl_ident:
  "bit (foldl next_ident i p) k \<longleftrightarrow> k < 32 \<and> (if k < length p then p ! (length p - 1 - k) else bit i (k - length p))"
proof (induction p arbitrary: k rule: rev_induct)
  case Nil
  then show ?case using bit_imp_le_length [of i k] by auto
next
  case (snoc d p)
  show ?case
  proof (cases k)
    case 0
    then show ?thesis by (simp add: bit_next_ident)
  next
    case (Suc j)
    have "(p @ [d]) ! (length p - Suc j) = p ! (length p - Suc j)" if "j < length p"
    proof -
      have "length p - Suc j < length p" using that by simp
      then show ?thesis by (simp only: nth_append if_True)
    qed
    then show ?thesis using snoc.IH [of j] Suc by (auto simp: bit_next_ident)
  qed
qed

lemma bit_ident_of:
  "bit (ident_of p) k \<longleftrightarrow> k < 32 \<and> (if k < length p then p ! (length p - 1 - k) else k = length p)"
  unfolding ident_of_def bit_foldl_ident by (auto simp: bit_1_iff)

lemma and_top: "(i :: u32) AND 0x80000000 = 0 \<longleftrightarrow> \<not> bit i 31"
proof -
  have m: "(0x80000000 :: u32) = push_bit 31 1" by simp
  have b: "bit (i AND push_bit 31 1) k \<longleftrightarrow> k = 31 \<and> bit i 31" for k
    using bit_imp_le_length [of i k] unfolding bit_and_iff bit_push_bit_iff bit_1_iff by auto
  have "i AND push_bit 31 1 = 0 \<longleftrightarrow> (\<forall>k. \<not> bit (i AND push_bit 31 1) k)"
    by (metis bit_0_eq bot_apply bot_bool_def bit_eqI)
  then show ?thesis unfolding m b by simp
qed

lemma top_bit_leading:
  assumes "bit i m" "\<forall>k > m. \<not> bit i k" "m \<le> 31" "31 - m \<le> level"
  shows "top_bit level i = Some (level - (31 - m), push_bit (31 - m) i)"
  using assms
proof (induction "31 - m" arbitrary: i m level)
  case 0
  then have "m = 31" by simp
  then show ?case using 0 by (subst top_bit.simps) (simp add: and_top)
next
  case (Suc d)
  then have m: "m < 31" "\<not> bit i 31" by auto
  obtain lv where lv: "level = Suc lv" using Suc m by (cases level) auto
  have b: "bit (push_bit 1 i) (Suc m)" "\<forall>k > Suc m. \<not> bit (push_bit 1 i) k"
    unfolding bit_push1 using Suc.prems m by auto
  have "top_bit lv (push_bit 1 i) = Some (lv - (31 - Suc m), push_bit (31 - Suc m) (push_bit 1 i))"
    by (rule Suc.hyps(1)) (use Suc.hyps(2) Suc.prems m b lv in auto)
  moreover have "31 - m = Suc (31 - Suc m)" using m by simp
  ultimately show ?case using m lv by (subst top_bit.simps) (simp add: and_top)
qed

fun graft :: "bool list \<Rightarrow> aich_hash \<Rightarrow> aich_tree \<Rightarrow> aich_tree" where
  "graft p x Null = Null"
| "graft [] x (Node n b bs v h l r) = Node n b bs True x l r"
| "graft (d # p) x (Node n b bs v h l r) =
     (let left_size = nLeft n b (getBaseSize bs)
      in if d then Node n b bs v h (graft p x (make_child l left_size True)) r
         else Node n b bs v h l (graft p x (make_child r (n - left_size) False)))"

lemma graft_Null [simp]: "graft p x t = Null \<longleftrightarrow> t = Null"
  by (cases "(p, x, t)" rule: graft.cases) (simp_all add: Let_def)

lemma graft_shaped:
  "shaped n b t \<Longrightarrow> length x = kAICHHashSize \<Longrightarrow> complete sha T \<Longrightarrow> shaped n b T \<Longrightarrow> at_path p T \<noteq> Null \<Longrightarrow>
    shaped n b (graft p x t)"
proof (induction p x t arbitrary: n b T rule: graft.induct)
  case (3 d p x m c bs v h l r)
  obtain h2 l2 r2 where T: "T = Node n b (n > PARTSIZE) True h2 l2 r2"
    using shaped_complete_sel [OF "3.prems"(3,4)] by metis
  have eq: "m = n" "c = b" "bs = (n > PARTSIZE)" using "3.prems"(1) by auto
  have deep: "\<not> n \<le> getBaseSize (n > PARTSIZE)" using "3.prems"(3,5) by (cases d) (auto simp: T)
  then have T': "complete sha l2" "complete sha r2" "shaped (left_of n b) True l2" "shaped (right_of n b) False r2"
    using "3.prems"(3,4) by (auto simp: T)
  have sh: "shaped (left_of n b) True (make_child l (left_of n b) True)"
    "shaped (right_of n b) False (make_child r (right_of n b) False)"
    by (rule make_child_shaped, use "3.prems"(1) in auto)+
  show ?case
  proof (cases d)
    case True
    then have "shaped (left_of n b) True (graft p x (make_child l (left_of n b) True))"
      using "3.IH"(1) [OF refl True, of "left_of n b" True l2] eq sh(1) T' "3.prems"(2,5) T by simp
    then show ?thesis using True "3.prems"(1) deep eq by (simp add: Let_def)
  next
    case False
    then have "shaped (right_of n b) False (graft p x (make_child r (right_of n b) False))"
      using "3.IH"(2) [OF refl False, of "right_of n b" False r2] eq sh(2) T' "3.prems"(2,5) T by simp
    then show ?thesis using False "3.prems"(1) deep eq by (simp add: Let_def)
  qed
qed auto

lemma setHash_at_graft:
  assumes "shaped n b t" "t \<noteq> Null" "complete sha T" "shaped n b T" "at_path p T \<noteq> Null"
    "length x = kAICHHashSize" "length p \<le> 31" "\<forall>j < length p. bit i (30 - j) = p ! j" "a \<or> p \<noteq> []"
  shows "setHash_at t (x @ f) i (length p) a = (Returned True, graft p x t, f)"
  using assms
proof (induction p arbitrary: n b t T i a)
  case Nil
  then show ?case by (cases t) auto
next
  case (Cons d p)
  obtain v h l r where t: "t = Node n b (n > PARTSIZE) v h l r" using Cons.prems(1,2) by (cases t) auto
  obtain h2 l2 r2 where T: "T = Node n b (n > PARTSIZE) True h2 l2 r2"
    using shaped_complete_sel [OF Cons.prems(3,4)] by metis
  have deep: "\<not> n \<le> getBaseSize (n > PARTSIZE)" using Cons.prems(3,5) by (cases d) (auto simp: T)
  then have T': "complete sha l2" "complete sha r2" "shaped (left_of n b) True l2" "shaped (right_of n b) False r2"
    using Cons.prems(3,4) by (auto simp: T)
  have sh: "shaped (left_of n b) True (make_child l (left_of n b) True)"
    "shaped (right_of n b) False (make_child r (right_of n b) False)"
    by (rule make_child_shaped, use Cons.prems(1) t in auto)+
  have top: "(push_bit 1 i AND 0x80000000 > 0) = d"
  proof -
    have "bit i 30 = d" using Cons.prems(8) by force
    then show ?thesis using and_top [of "push_bit 1 i"] unfolding bit_push1 word_greater_zero_iff by simp
  qed
  have bits: "\<forall>j < length p. bit (push_bit 1 i) (30 - j) = p ! j"
  proof (intro allI impI)
    fix j assume j: "j < length p"
    then have "30 - j - 1 = 30 - Suc j" "0 < 30 - j" using Cons.prems(7) by auto
    then show "bit (push_bit 1 i) (30 - j) = p ! j"
      unfolding bit_push1 using Cons.prems(8) j by auto
  qed
  show ?case
  proof (cases d)
    case True
    have "setHash_at (make_child l (left_of n b) True) (x @ f) (push_bit 1 i) (length p) True =
        (Returned True, graft p x (make_child l (left_of n b) True), f)"
      by (rule Cons.IH [OF sh(1) make_child_Null T'(1,3)]) (use Cons.prems True T bits in auto)
    then show ?thesis using True top deep t by (simp add: Let_def)
  next
    case False
    have "setHash_at (make_child r (right_of n b) False) (x @ f) (push_bit 1 i) (length p) True =
        (Returned True, graft p x (make_child r (right_of n b) False), f)"
      by (rule Cons.IH [OF sh(2) make_child_Null T'(2,4)]) (use Cons.prems False T bits in auto)
    then show ?thesis using False top deep t by (simp add: Let_def)
  qed
qed

lemma setHash_graft:
  assumes "shaped n b t" "t \<noteq> Null" "complete sha T" "shaped n b T" "at_path p T \<noteq> Null"
    "length x = kAICHHashSize" "length p \<le> 31" "p \<noteq> []"
  shows "setHash t (x @ f) (ident_of p) a = (Returned True, graft p x t, f)"
proof -
  have "top_bit 31 (ident_of p) = Some (31 - (31 - length p), push_bit (31 - length p) (ident_of p))"
    by (rule top_bit_leading) (use assms(7) in \<open>auto simp: bit_ident_of\<close>)
  moreover have "31 - (31 - length p) = length p" using assms(7) by simp
  moreover have "\<forall>j < length p. bit (push_bit (31 - length p) (ident_of p)) (30 - j) = p ! j"
  proof (intro allI impI)
    fix j assume j: "j < length p"
    then have "30 - j - (31 - length p) = length p - 1 - j" "31 - length p \<le> 30 - j" using assms(7) by auto
    then show "bit (push_bit (31 - length p) (ident_of p)) (30 - j) = p ! j"
      using j by (auto simp: bit_push_bit_iff bit_ident_of)
  qed
  ultimately show ?thesis
    using setHash_at_graft [OF assms(1-7)] assms(8) by (simp add: setHash_def)
qed

end
