(* ===== verification/Aich_Routes.thy ===== *)
theory Aich_Routes
  imports Aich_Recovery
begin

text \<open>
  Where the parts and blocks of a file are in its hash tree: the route to a node depends on the
  sizes only, and the limits on the depth are enough for the largest file.
\<close>

section \<open>Halving\<close>

lemma nBlocks_mult: "0 < base \<Longrightarrow> nBlocks (k * base) base = k"
  by (simp add: nBlocks_def)

lemma nBlocks_diff:
  assumes "0 < base" "k * base \<le> n"
  shows "nBlocks (n - k * base) base = nBlocks n base - k"
proof -
  obtain m where n: "n = k * base + m" using assms(2) le_Suc_ex by blast
  then show ?thesis using assms(1) by (simp add: nBlocks_def)
qed

lemma nBlocks_left: "0 < base \<Longrightarrow> nBlocks (nLeft n b base) base = (nBlocks n base + of_bool b) div 2"
  unfolding nLeft_def by (rule nBlocks_mult)

lemma nBlocks_right:
  "0 < base \<Longrightarrow> base < n \<Longrightarrow> nBlocks (n - nLeft n b base) base = nBlocks n base - (nBlocks n base + of_bool b) div 2"
  using nLeft_bounds [of base n b] unfolding nLeft_def by (intro nBlocks_diff) auto

lemma nBlocks_le1: "0 < base \<Longrightarrow> 0 < n \<Longrightarrow> n \<le> base \<Longrightarrow> nBlocks n base = 1"
proof -
  assume a: "0 < base" "0 < n" "n \<le> base"
  then show ?thesis using nBlocks_bounds [of base n] by (cases "n = base") (auto simp: nBlocks_def)
qed

lemma nBlocks_gt1: "0 < base \<Longrightarrow> base < n \<Longrightarrow> 2 \<le> nBlocks n base"
proof (rule ccontr)
  assume a: "0 < base" "base < n" "\<not> 2 \<le> nBlocks n base"
  then have "nBlocks n base * base \<le> 1 * base" by (intro mult_le_mono1) simp
  then show False using nBlocks_bounds [of base n] a by linarith
qed

section \<open>Routes\<close>

function route :: "nat \<Rightarrow> bool \<Rightarrow> nat \<Rightarrow> nat \<Rightarrow> bool list option" where
  "route n b pos sz =
     (if pos + sz > n then None
      else if pos = 0 \<and> sz = n then Some []
      else if n \<le> getBaseSize (n > PARTSIZE) then None
      else if pos < left_of n b then
        (if pos + sz > left_of n b then None else map_option (Cons True) (route (left_of n b) True pos sz))
      else map_option (Cons False) (route (right_of n b) False (pos - left_of n b) sz))"
  by pat_completeness auto
termination
proof (relation "measure (\<lambda>(n, b, p, s). n)", goal_cases)
  case (2 n b pos sz)
  then show ?case using nLeft_bounds [of "getBaseSize (n > PARTSIZE)" n b] by simp
next
  case (3 n b pos sz)
  then show ?case using nLeft_bounds [of "getBaseSize (n > PARTSIZE)" n b] by simp
qed simp

declare route.simps [simp del]

lemma route_inside: "route n b pos sz = Some p \<Longrightarrow> pos + sz \<le> n"
  by (subst (asm) route.simps) (simp split: if_splits)

lemma route_cases:
  assumes "route n b pos sz = Some p"
  obtains "p = []" "pos = 0" "sz = n"
  | q where "p = True # q" "\<not> n \<le> getBaseSize (n > PARTSIZE)" "\<not> (pos = 0 \<and> sz = n)" "pos < left_of n b"
      "pos + sz \<le> left_of n b" "pos + sz \<le> n" "route (left_of n b) True pos sz = Some q"
  | q where "p = False # q" "\<not> n \<le> getBaseSize (n > PARTSIZE)" "\<not> (pos = 0 \<and> sz = n)" "\<not> pos < left_of n b"
      "pos - left_of n b + sz \<le> right_of n b" "pos + sz \<le> n"
      "route (right_of n b) False (pos - left_of n b) sz = Some q"
proof (cases "pos = 0 \<and> sz = n")
  case True
  then show ?thesis using assms that(1) by (subst (asm) route.simps) simp
next
  case False
  note r = assms [unfolded route.simps [of n b]]
  have n: "pos + sz \<le> n" "\<not> n \<le> getBaseSize (n > PARTSIZE)" using r False by (auto split: if_splits)
  show ?thesis
  proof (cases "pos < left_of n b")
    case True
    then show ?thesis using r False n that(2) by (auto split: if_splits)
  next
    case f: False
    then obtain q where "p = False # q" "route (right_of n b) False (pos - left_of n b) sz = Some q"
      using r False n by auto
    then show ?thesis using that(3) False f n route_inside by blast
  qed
qed

lemma add64_small: "a + b < 2 ^ 64 \<Longrightarrow> add64 a b = a + b"
  by (simp add: add64_def)

text \<open>The route is the way findHash takes, through nodes it makes where they are missing.\<close>

lemma findHash_route:
  assumes "route n b pos sz = Some p" "shaped n b t" "t \<noteq> Null" "n < 2 ^ 64" "lv + 1 + length p \<le> 22"
  shows "\<exists>t'. findHash lv t pos sz = (t', Some p, lv + 1 + length p) \<and> t' \<noteq> Null \<and>
    at_path p t' \<noteq> Null \<and> m_dataSize (at_path p t') = sz \<and> m_baseSize (at_path p t') = (sz > PARTSIZE)"
  using assms
proof (induction p arbitrary: n b pos t lv)
  case Nil
  have z: "pos = 0" "sz = n" using Nil.prems(1) by (cases rule: route_cases; simp)+
  obtain v h l r where "t = Node n b (n > PARTSIZE) v h l r" using Nil.prems(2,3) by (cases t) auto
  then show ?case using z Nil.prems(4,5) by (simp add: findHash.simps Let_def add64_small)
next
  case (Cons d p)
  obtain v h l r where t: "t = Node n b (n > PARTSIZE) v h l r" using Cons.prems(2,3) by (cases t) auto
  have sh: "shaped (left_of n b) True (make_child l (left_of n b) True)"
    "shaped (right_of n b) False (make_child r (right_of n b) False)"
    by (rule make_child_shaped, use Cons.prems(2) t in auto)+
  have lv: "lv + 1 + 1 + length p \<le> 22" "\<not> lv + 1 > 22" using Cons.prems(5) by simp_all
  show ?case
    using Cons.prems(1)
  proof (cases rule: route_cases)
    case (2 q)
    then have q: "q = p" "d" by simp_all
    have small: "left_of n b < 2 ^ 64" "pos + sz < 2 ^ 64" using 2(2,6) Cons.prems(4) nLeft_bounds [of "getBaseSize (n > PARTSIZE)" n b] by auto
    obtain t' where t': "findHash (lv + 1) (make_child l (left_of n b) True) pos sz = (t', Some p, lv + 1 + 1 + length p)"
      "t' \<noteq> Null" "at_path p t' \<noteq> Null" "m_dataSize (at_path p t') = sz" "m_baseSize (at_path p t') = (sz > PARTSIZE)"
      using Cons.IH [OF _ sh(1) make_child_Null _ lv(1), of pos] 2(7) q small nLeft_bounds [of "getBaseSize (n > PARTSIZE)" n b] 2(2) by auto
    have "findHash lv t pos sz = (Node n b (n > PARTSIZE) v h t' r, Some (d # p), lv + 1 + length (d # p))"
      unfolding t findHash.simps Let_def using t'(1) 2 lv(2) q small(2) by (simp add: add64_small)
    then show ?thesis using t' q by simp
  next
    case (3 q)
    then have q: "q = p" "\<not> d" by simp_all
    have small: "right_of n b < 2 ^ 64" "pos + sz < 2 ^ 64" "pos - left_of n b + sz < 2 ^ 64"
      using 3(5,6) Cons.prems(4) by auto
    obtain t' where t': "findHash (lv + 1) (make_child r (right_of n b) False) (pos - left_of n b) sz = (t', Some p, lv + 1 + 1 + length p)"
      "t' \<noteq> Null" "at_path p t' \<noteq> Null" "m_dataSize (at_path p t') = sz" "m_baseSize (at_path p t') = (sz > PARTSIZE)"
      using Cons.IH [OF _ sh(2) make_child_Null _ lv(1), of "pos - left_of n b"] 3(7) q small by auto
    have "findHash lv t pos sz = (Node n b (n > PARTSIZE) v h l t', Some (d # p), lv + 1 + length (d # p))"
      unfolding t findHash.simps Let_def using t'(1) 3 lv(2) q small(2,3) by (simp add: add64_small)
    then show ?thesis using t' q by simp
  qed simp
qed

lemma findExisting_route:
  assumes "route n b pos sz = Some p" "shaped n b t" "valid t" "n < 2 ^ 64" "lv + 1 + length p \<le> 22"
    "\<forall>k \<le> length p. valid (at_path (take k p) t)"
  shows "findExistingHash lv t pos sz = Some (at_path p t)"
  using assms
proof (induction p arbitrary: n b pos t lv)
  case Nil
  have z: "pos = 0" "sz = n" using Nil.prems(1) by (cases rule: route_cases; simp)+
  obtain v h l r where "t = Node n b (n > PARTSIZE) v h l r" "v" using Nil.prems(2,3) by (cases t) (auto simp: valid_def)
  then show ?case using z Nil.prems(4,5) by (simp add: Let_def add64_small)
next
  case (Cons d p)
  obtain v h l r where t: "t = Node n b (n > PARTSIZE) v h l r" using Cons.prems(2,3) by (cases t) (auto simp: valid_def)
  have sh: "shaped (left_of n b) True l" "shaped (right_of n b) False r" using Cons.prems(2) t by auto
  have lv: "lv + 1 + 1 + length p \<le> 22" "\<not> lv + 1 > 22" using Cons.prems(5) by simp_all
  have along: "\<forall>k \<le> length p. valid (at_path (take k p) (if d then l else r))"
  proof (intro allI impI)
    fix k assume "k \<le> length p"
    then have "valid (at_path (take (Suc k) (d # p)) t)" using Cons.prems(6) by (metis Suc_le_mono length_Cons)
    then show "valid (at_path (take k p) (if d then l else r))" by (simp add: t)
  qed
  have "at_path [] x = x" for x by (cases x) simp_all
  then have child: "valid (if d then l else r)" using along by (metis le0 take0)
  show ?case
    using Cons.prems(1)
  proof (cases rule: route_cases)
    case (2 q)
    have small: "left_of n b < 2 ^ 64" "pos + sz < 2 ^ 64"
      using 2(2,6) Cons.prems(4) nLeft_bounds [of "getBaseSize (n > PARTSIZE)" n b] by auto
    have "findExistingHash (lv + 1) l pos sz = Some (at_path p l)"
      by (rule Cons.IH [OF _ sh(1)]) (use 2 small lv along child in auto)
    then show ?thesis using 2 lv small child by (auto simp: t Let_def add64_small)
  next
    case (3 q)
    have small: "right_of n b < 2 ^ 64" "pos + sz < 2 ^ 64" "pos - left_of n b + sz < 2 ^ 64"
      using 3(5,6) Cons.prems(4) by auto
    have "findExistingHash (lv + 1) r (pos - left_of n b) sz = Some (at_path p r)"
      by (rule Cons.IH [OF _ sh(2)]) (use 3 small lv along child in auto)
    then show ?thesis using 3 lv small child by (auto simp: t Let_def add64_small)
  qed simp
qed

text \<open>A unit, a part of a file or a block of a part, is as deep as the logarithm of their number.\<close>

lemma route_unit:
  assumes "n \<le> g \<or> g = getBaseSize (n > PARTSIZE)" "0 < n" "0 < g" "nBlocks n g \<le> 2 ^ k" "q < nBlocks n g"
  shows "\<exists>p. route n b (q * g) (min g (n - q * g)) = Some p \<and> length p \<le> k"
  using assms
proof (induction k arbitrary: n b q)
  case 0
  then have "nBlocks n g = 1" using nBlocks_bounds [of g n] by simp
  then have "q = 0" "n \<le> g" using 0 nBlocks_bounds [of g n] by auto
  then show ?case by (subst route.simps) simp
next
  case (Suc k)
  show ?case
  proof (cases "n \<le> g")
    case True
    then have "q = 0" using Suc.prems nBlocks_le1 [of g n] by simp
    then show ?thesis using True by (subst route.simps) simp
  next
    case False
    then have g: "g = getBaseSize (n > PARTSIZE)" "g < n" using Suc.prems(1) by auto
    let ?L = "nLeft n b g" and ?m = "(nBlocks n g + of_bool b) div 2"
    have L: "0 < ?L" "?L < n" "?L = ?m * g" using nLeft_bounds [of g n b] g Suc.prems(3) by (auto simp: nLeft_def)
    have nb: "nBlocks ?L g = ?m" "nBlocks (n - ?L) g = nBlocks n g - ?m"
      using nBlocks_left [of g n b] nBlocks_right [of g n b] g Suc.prems(3) by auto
    have half: "?m \<le> 2 ^ k" "nBlocks n g - ?m \<le> 2 ^ k" using Suc.prems(4) by (cases b; simp)+
    have unit: "m \<le> g \<or> g = getBaseSize (m > PARTSIZE)" if "m < n" for m
      using g that by (auto simp: getBaseSize_def split: if_splits)
    have qn: "q * g < n"
    proof -
      have "q * g \<le> (nBlocks n g - 1) * g" using Suc.prems(5) by (intro mult_le_mono1) simp
      then show ?thesis using nBlocks_bounds [of g n] Suc.prems(2,3) by linarith
    qed
    show ?thesis
    proof (cases "q < ?m")
      case True
      then have "(q + 1) * g \<le> ?m * g" by (intro mult_le_mono1) simp
      then have in_left: "q * g < ?L" "q * g + g \<le> ?L" using L(3) Suc.prems(3) unfolding L(3) by (simp_all only: add_mult_distrib mult_1 add.commute)
      then have sz: "min g (?L - q * g) = g" "min g (n - q * g) = g" using L(2) by simp_all
      obtain p where "route ?L True (q * g) (min g (?L - q * g)) = Some p" "length p \<le> k"
        using Suc.IH [of ?L q True] unit [OF L(2)] L(1) Suc.prems(3) nb half(1) True by auto
      then show ?thesis using in_left sz g L(2) by (subst route.simps) auto
    next
      case False
      then have "?m * g \<le> q * g" by (intro mult_le_mono1) simp
      then have ge: "\<not> q * g < ?L" using L(3) by linarith
      have pos: "q * g - ?L = (q - ?m) * g" using L(3) by (simp add: diff_mult_distrib)
      have rest: "n - ?L - (q - ?m) * g = n - q * g" using pos ge by linarith
      obtain p where p: "route (n - ?L) False ((q - ?m) * g) (min g (n - ?L - (q - ?m) * g)) = Some p" "length p \<le> k"
      proof -
        have "0 < n - ?L" "n - ?L < n" using L(1,2) by linarith+
        moreover have "q - ?m < nBlocks (n - ?L) g" using nb(2) Suc.prems(5) False by linarith
        moreover have "nBlocks (n - ?L) g \<le> 2 ^ k" using nb(2) half(2) by linarith
        ultimately show thesis using Suc.IH [of "n - ?L" "q - ?m" False] unit Suc.prems(3) that by blast
      qed
      have "\<not> (q * g = 0 \<and> min g (n - q * g) = n)" using g(2) by auto
      moreover have "q * g + min g (n - q * g) \<le> n" using qn by simp
      ultimately show ?thesis using p ge g pos rest by (subst route.simps) auto
    qed
  qed
qed

definition side :: "bool \<Rightarrow> bool list \<Rightarrow> bool" where
  "side b p = (if p = [] then b else last p)"

lemma route_append:
  assumes "route n b pos sz = Some p" "route sz (side b p) o2 sz2 = Some p2" "0 < sz2"
  shows "route n b (pos + o2) sz2 = Some (p @ p2)"
  using assms
proof (induction p arbitrary: n b pos)
  case Nil
  have "pos = 0" "sz = n" using Nil.prems(1) by (cases rule: route_cases; simp)+
  then show ?case using Nil.prems(2) by (simp add: side_def)
next
  case (Cons d p)
  have inside: "o2 + sz2 \<le> sz" using route_inside Cons.prems(2) by blast
  have sd: "side b (d # p) = side d p" by (simp add: side_def)
  show ?case
    using Cons.prems(1)
  proof (cases rule: route_cases)
    case (2 q)
    then have q: "q = p" "d" by simp_all
    have r: "route (left_of n b) True (pos + o2) sz2 = Some (p @ p2)"
      by (rule Cons.IH [OF _ _ Cons.prems(3)]) (use 2(7) q Cons.prems(2) sd in simp_all)
    have "pos + o2 + sz2 \<le> left_of n b" "left_of n b < n"
      using 2(5) inside nLeft_bounds [of "getBaseSize (n > PARTSIZE)" n b] 2(2) by auto
    then have c: "\<not> pos + o2 + sz2 > n" "\<not> (pos + o2 = 0 \<and> sz2 = n)" "pos + o2 < left_of n b"
      "\<not> pos + o2 + sz2 > left_of n b" using Cons.prems(3) by linarith+
    show ?thesis unfolding route.simps [of n b] using r c 2(2) q(2) by simp
  next
    case (3 q)
    then have q: "q = p" "\<not> d" by simp_all
    have "route (right_of n b) False (pos - left_of n b + o2) sz2 = Some (p @ p2)"
      by (rule Cons.IH [OF _ _ Cons.prems(3)]) (use 3(7) q Cons.prems(2) sd in simp_all)
    moreover have "pos + o2 - left_of n b = pos - left_of n b + o2" using 3(4) by simp
    ultimately have r: "route (right_of n b) False (pos + o2 - left_of n b) sz2 = Some (p @ p2)" by simp
    have "0 < left_of n b" using nLeft_bounds [of "getBaseSize (n > PARTSIZE)" n b] 3(2) by simp
    then have c: "\<not> pos + o2 + sz2 > n" "\<not> (pos + o2 = 0 \<and> sz2 = n)" "\<not> pos + o2 < left_of n b"
      using 3(4,6) inside by linarith+
    show ?thesis unfolding route.simps [of n b] using r c 3(2) q(2) by simp
  qed simp
qed

section \<open>The limits\<close>

lemma part_size_eq: "start \<le> n \<Longrightarrow> n < 2 ^ 64 \<Longrightarrow> part_size n start = min PARTSIZE (n - start)"
proof -
  assume a: "start \<le> n" "n < 2 ^ 64"
  then have "n + 2 ^ 64 - start = 2 ^ 64 + (n - start)" by linarith
  then have "sub64 n start = n - start" unfolding sub64_def using a(2) by (simp only: mod_add_self1) (simp add: less_imp_diff_less)
  then show ?thesis by (simp only: part_size_def)
qed

lemma nBlocks_le: "0 < base \<Longrightarrow> n \<le> k * base \<Longrightarrow> nBlocks n base \<le> k"
proof (rule ccontr)
  assume a: "0 < base" "n \<le> k * base" "\<not> nBlocks n base \<le> k"
  then have "0 < n" by (cases n) (auto simp: nBlocks_def)
  have "k * base \<le> (nBlocks n base - 1) * base" using a(3) by (intro mult_le_mono1) simp
  then show False using nBlocks_bounds [OF a(1) \<open>0 < n\<close>] a(2) by linarith
qed

lemma nBlocks_less: "0 < base \<Longrightarrow> k * base < n \<Longrightarrow> k < nBlocks n base"
proof (rule ccontr)
  assume a: "0 < base" "k * base < n" "\<not> k < nBlocks n base"
  then have "nBlocks n base * base \<le> k * base" by (intro mult_le_mono1) simp
  then show False using nBlocks_bounds [of base n] a(1,2) by linarith
qed

definition depth_limit :: "nat \<Rightarrow> nat \<Rightarrow> bool" where
  "depth_limit n k \<longleftrightarrow> n \<le> 2 ^ k * PARTSIZE"

lemma route_part:
  assumes "depth_limit n k" "part * PARTSIZE < n" "n < 2 ^ 64"
  shows "\<exists>p. route n b (part * PARTSIZE) (part_size n (part * PARTSIZE)) = Some p \<and> length p \<le> k"
proof -
  have "nBlocks n PARTSIZE \<le> 2 ^ k" using assms(1) by (intro nBlocks_le) (simp_all add: depth_limit_def)
  moreover have "part < nBlocks n PARTSIZE" using assms(2) by (intro nBlocks_less) simp_all
  moreover have "n \<le> PARTSIZE \<or> PARTSIZE = getBaseSize (n > PARTSIZE)" by (auto simp: getBaseSize_def)
  moreover have "0 < n" using assms(2) by simp
  ultimately show ?thesis using route_unit [of n PARTSIZE k part b] assms part_size_eq [of "part * PARTSIZE" n] by simp
qed

lemma route_block:
  assumes "ps \<le> PARTSIZE" "block * EMBLOCKSIZE < ps"
  shows "\<exists>p. route ps b (block * EMBLOCKSIZE) (min EMBLOCKSIZE (ps - block * EMBLOCKSIZE)) = Some p \<and> length p \<le> 6"
proof (rule route_unit)
  have "ps \<le> 2 ^ 6 * EMBLOCKSIZE" using assms(1) by (simp add: PARTSIZE_def EMBLOCKSIZE_def)
  then show "nBlocks ps EMBLOCKSIZE \<le> 2 ^ 6" by (intro nBlocks_le) simp_all
  show "block < nBlocks ps EMBLOCKSIZE" using assms(2) by (intro nBlocks_less) simp_all
  show "ps \<le> EMBLOCKSIZE \<or> EMBLOCKSIZE = getBaseSize (ps > PARTSIZE)" using assms(1) by (simp add: getBaseSize_def)
qed (use assms in auto)

lemma route_part_block:
  assumes "depth_limit n k" "part * PARTSIZE < n" "n < 2 ^ 64" "block * EMBLOCKSIZE < part_size n (part * PARTSIZE)"
  shows "\<exists>p. route n b (part * PARTSIZE + block * EMBLOCKSIZE)
      (min EMBLOCKSIZE (part_size n (part * PARTSIZE) - block * EMBLOCKSIZE)) = Some p \<and> length p \<le> k + 6"
proof -
  let ?ps = "part_size n (part * PARTSIZE)"
  obtain p1 where p1: "route n b (part * PARTSIZE) ?ps = Some p1" "length p1 \<le> k"
    using route_part [OF assms(1-3)] by blast
  have "?ps \<le> PARTSIZE" by (simp add: part_size_def)
  then obtain p2 where p2: "route ?ps (side b p1) (block * EMBLOCKSIZE) (min EMBLOCKSIZE (?ps - block * EMBLOCKSIZE)) = Some p2"
    "length p2 \<le> 6"
    using route_block [OF _ assms(4)] by blast
  have "route n b (part * PARTSIZE + block * EMBLOCKSIZE) (min EMBLOCKSIZE (?ps - block * EMBLOCKSIZE)) = Some (p1 @ p2)"
    by (rule route_append [OF p1(1) p2(1)]) (use assms(4) in simp)
  then show ?thesis using p1(2) p2(2) by auto
qed

lemma depth_max: "n \<le> MAX_EMULE_FILE_SIZE \<Longrightarrow> depth_limit n 15"
  by (simp add: depth_limit_def MAX_EMULE_FILE_SIZE_def PARTSIZE_def)

lemma depth_old_max: "n \<le> OLD_MAX_EMULE_FILE_SIZE \<Longrightarrow> depth_limit n 9"
  by (simp add: depth_limit_def OLD_MAX_EMULE_FILE_SIZE_def PARTSIZE_def)

text \<open>The limit of 22 levels is never in the way: in a file of up to 256 GB the node of every
  block of every part is found or made, with the size of the block.\<close>

theorem blocks_are_found:
  assumes "shaped n True t" "t \<noteq> Null" "n \<le> MAX_EMULE_FILE_SIZE" "part * PARTSIZE < n"
    "block * EMBLOCKSIZE < part_size n (part * PARTSIZE)"
    "sz = min EMBLOCKSIZE (part_size n (part * PARTSIZE) - block * EMBLOCKSIZE)"
  shows "\<exists>t' p level. findHash 0 t (part * PARTSIZE + block * EMBLOCKSIZE) sz = (t', Some p, level) \<and> level \<le> 22 \<and>
    m_dataSize (at_path p t') = sz \<and> getBaseSize (m_baseSize (at_path p t')) = EMBLOCKSIZE"
proof -
  have n: "n < 2 ^ 64" using assms(3) by (simp add: MAX_EMULE_FILE_SIZE_def)
  obtain p where p: "route n True (part * PARTSIZE + block * EMBLOCKSIZE) sz = Some p" "length p \<le> 15 + 6"
    using route_part_block [OF depth_max [OF assms(3)] assms(4) n assms(5)] assms(6) by blast
  have "sz \<le> PARTSIZE" using assms(6) EMBLOCKSIZE_less(3) by linarith
  moreover obtain t' where "findHash 0 t (part * PARTSIZE + block * EMBLOCKSIZE) sz = (t', Some p, 0 + 1 + length p)"
    "m_dataSize (at_path p t') = sz" "m_baseSize (at_path p t') = (sz > PARTSIZE)"
    using findHash_route [OF p(1) assms(1,2) n, of 0] p(2) by auto
  ultimately show ?thesis using p(2) by (intro exI conjI) (auto simp: getBaseSize_def)
qed

end
