(* ===== verification/Aich_Roundtrip.thy ===== *)
theory Aich_Roundtrip
  imports Aich_Routes
begin

text \<open>
  A recovery packet does what it is for: made by a client that has the complete tree, it lets a
  client that knows the root check every block of the part, whatever parts it recovered before.
\<close>

section \<open>The hashes of a packet\<close>

abbreviation under :: "bool \<Rightarrow> (bool list \<times> aich_hash) list \<Rightarrow> (bool list \<times> aich_hash) list" where
  "under d es \<equiv> map (\<lambda>(p, x). (d # p, x)) es"

fun low_entries :: "aich_tree \<Rightarrow> (bool list \<times> aich_hash) list" where
  "low_entries Null = []"
| "low_entries (Node n b bs v h l r) =
     (if l = Null \<and> r = Null then [([], h)] else under True (low_entries l) @ under False (low_entries r))"

text \<open>Along the way to the part the siblings, then the blocks.\<close>

fun part_entries :: "aich_tree \<Rightarrow> bool list \<Rightarrow> (bool list \<times> aich_hash) list" where
  "part_entries Null p = []"
| "part_entries (Node n b bs v h l r) [] = low_entries (Node n b bs v h l r)"
| "part_entries (Node n b bs v h l r) (d # p) =
     (if d then ([False], m_hash r) # under True (part_entries l p)
      else ([True], m_hash l) # under False (part_entries r p))"

definition enc :: "bool \<Rightarrow> u32 \<Rightarrow> bool list \<times> aich_hash \<Rightarrow> out_bytes" where
  "enc use32Bit i e = write_ident use32Bit (foldl next_ident i (fst e)) @ snd e"

lemma enc_under: "enc u i \<circ> (\<lambda>(p, x). (d # p, x)) = enc u (next_ident i d)"
  by (auto simp: enc_def)

lemma enc_single: "enc u i ([d], x) = write_ident u (next_ident i d) @ x"
  by (simp add: enc_def)

lemma write_low:
  "complete sha T \<Longrightarrow> shaped n b T \<Longrightarrow>
    writeLowestLevelHashes T i False u = (True, concat (map (enc u (next_ident i b)) (low_entries T)))"
proof (induction T arbitrary: n b i)
  case (Node m c bs v h l r)
  have eq: "m = n" "c = b" "bs = (n > PARTSIZE)" using Node.prems(2) by auto
  show ?case
  proof (cases "m \<le> getBaseSize bs")
    case True
    then show ?thesis using Node.prems eq by (auto simp: Let_def enc_def write_hash_def)
  next
    case False
    then have lr: "complete sha l" "complete sha r" "shaped (left_of n b) True l" "shaped (right_of n b) False r"
      using Node.prems eq by auto
    have nn: "l \<noteq> Null" "r \<noteq> Null" using complete_valid lr by auto
    note wl = Node.IH(1) [OF lr(1,3)] and wr = Node.IH(2) [OF lr(2,4)]
    show ?thesis using nn eq by (simp add: Let_def wl wr enc_under)
  qed
qed simp

lemma create_route:
  assumes "complete sha T" "shaped n b T" "route n b pos sz = Some p" "n < 2 ^ 64"
  shows "createPartRecoveryData T pos sz i u = (True, concat (map (enc u (next_ident i b)) (part_entries T p)))"
  using assms
proof (induction T arbitrary: n b pos p i)
  case (Node m c bs v h l r)
  have eq: "m = n" "c = b" "bs = (n > PARTSIZE)" using Node.prems(2) by auto
  show ?case
    using Node.prems(3)
  proof (cases rule: route_cases)
    case 1
    then show ?thesis using write_low [OF Node.prems(1,2), of i u] eq Node.prems(4)
      by (simp add: Let_def add64_small del: low_entries.simps writeLowestLevelHashes.simps)
  next
    case (2 q)
    then have lr: "complete sha l" "complete sha r" "shaped (left_of n b) True l" "shaped (right_of n b) False r"
      using Node.prems(1,2) eq by auto
    have nn: "l \<noteq> Null" "r \<noteq> Null" "m_hashValid r" "m_isLeftBranch r = False"
      using complete_valid lr shaped_sel [OF lr(4)] by auto
    have small: "left_of n b < 2 ^ 64" "pos + sz < 2 ^ 64"
      using 2(2,6) Node.prems(4) nLeft_bounds [of "getBaseSize (n > PARTSIZE)" n b] by auto
    note w = Node.IH(1) [OF lr(1,3) 2(7) small(1), of "next_ident i b"]
    have c: "(pos = 0 \<and> sz = n) = False" using 2(3) by simp
    show ?thesis
      unfolding createPartRecoveryData.simps Let_def eq c
      using 2(1,2,4-6) nn small(2) w
      by (simp add: add64_small enc_under enc_single writeHash_def write_hash_def)
  next
    case (3 q)
    then have lr: "complete sha l" "complete sha r" "shaped (left_of n b) True l" "shaped (right_of n b) False r"
      using Node.prems(1,2) eq by auto
    have nn: "l \<noteq> Null" "r \<noteq> Null" "m_hashValid l" "m_isLeftBranch l = True"
      using complete_valid lr shaped_sel [OF lr(3)] by auto
    have small: "right_of n b < 2 ^ 64" "pos + sz < 2 ^ 64" "pos - left_of n b + sz < 2 ^ 64"
      using 3(5,6) Node.prems(4) by auto
    note w = Node.IH(2) [OF lr(2,4) 3(7) small(1), of "next_ident i b"]
    have c: "(pos = 0 \<and> sz = n) = False" using 3(3) by simp
    show ?thesis
      unfolding createPartRecoveryData.simps Let_def eq c
      using 3(1,2,4-6) nn small(2,3) w
      by (simp add: add64_small enc_under enc_single writeHash_def write_hash_def)
  qed
qed simp

text \<open>How many there are, how deep, and what they say.\<close>

lemma low_entries_length:
  "complete sha T \<Longrightarrow> shaped n b T \<Longrightarrow> 0 < n \<Longrightarrow> n \<le> PARTSIZE \<Longrightarrow> length (low_entries T) = nBlocks n EMBLOCKSIZE"
proof (induction T arbitrary: n b)
  case (Node m c bs v h l r)
  have eq: "m = n" "c = b" "bs = (n > PARTSIZE)" "getBaseSize bs = EMBLOCKSIZE"
    using Node.prems(2,4) by (auto simp: getBaseSize_def)
  show ?case
  proof (cases "n \<le> EMBLOCKSIZE")
    case True
    then show ?thesis using Node.prems eq nBlocks_le1 [of EMBLOCKSIZE n] by simp
  next
    case False
    let ?L = "nLeft n b EMBLOCKSIZE"
    have lr: "complete sha l" "complete sha r" "shaped ?L True l" "shaped (n - ?L) False r"
      using Node.prems False eq by (auto simp: getBaseSize_def)
    have L: "0 < ?L" "?L < n" using nLeft_bounds [of EMBLOCKSIZE n b] False by auto
    have "length (low_entries l) = nBlocks ?L EMBLOCKSIZE" "length (low_entries r) = nBlocks (n - ?L) EMBLOCKSIZE"
      using Node.IH(1) [OF lr(1,3)] Node.IH(2) [OF lr(2,4)] L Node.prems(4) by auto
    moreover have "l \<noteq> Null" using complete_valid lr by auto
    ultimately show ?thesis
      using nBlocks_left [of EMBLOCKSIZE n b] nBlocks_right [of EMBLOCKSIZE n b] False by (cases b; simp)
  qed
qed simp

lemma at_path_Nil [simp]: "at_path [] t = t"
  by (cases t) simp_all

lemma part_entries_length:
  "complete sha T \<Longrightarrow> shaped n b T \<Longrightarrow> route n b pos sz = Some p \<Longrightarrow> 0 < sz \<Longrightarrow> sz \<le> PARTSIZE \<Longrightarrow>
    length (part_entries T p) = length p + nBlocks sz EMBLOCKSIZE"
proof (induction p arbitrary: T n b pos)
  case Nil
  have "sz = n" using Nil.prems(3) by (cases rule: route_cases; simp)
  then show ?case using low_entries_length [OF Nil.prems(1,2)] Nil.prems by (cases T) auto
next
  case (Cons d p)
  obtain h l r where T: "T = Node n b (n > PARTSIZE) True h l r"
    "\<not> n \<le> getBaseSize (n > PARTSIZE) \<Longrightarrow>
       complete sha l \<and> complete sha r \<and> shaped (left_of n b) True l \<and> shaped (right_of n b) False r"
    using shaped_complete_sel [OF Cons.prems(1,2)] by metis
  show ?case
    using Cons.prems(3)
  proof (cases rule: route_cases)
    case (2 q)
    then show ?thesis using Cons.IH [of l "left_of n b" True pos] T Cons.prems(4,5) by simp
  next
    case (3 q)
    then show ?thesis using Cons.IH [of r "right_of n b" False "pos - left_of n b"] T Cons.prems(4,5) by simp
  qed simp
qed

definition entries_of :: "aich_tree \<Rightarrow> nat \<Rightarrow> (bool list \<times> aich_hash) list \<Rightarrow> bool" where
  "entries_of T k es \<longleftrightarrow>
     (\<forall>(p, x) \<in> set es. at_path p T \<noteq> Null \<and> x = m_hash (at_path p T) \<and> length p \<le> k)"

lemma entries_under:
  "entries_of (if d then l else r) k es \<Longrightarrow> entries_of (Node n b bs v h l r) (Suc k) (under d es)"
  by (fastforce simp: entries_of_def)

lemma entries_append: "entries_of T k (xs @ ys) \<longleftrightarrow> entries_of T k xs \<and> entries_of T k ys"
  by (auto simp: entries_of_def)

lemma low_entries_of:
  "complete sha T \<Longrightarrow> shaped n b T \<Longrightarrow> 0 < n \<Longrightarrow> n \<le> PARTSIZE \<Longrightarrow> nBlocks n EMBLOCKSIZE \<le> 2 ^ k \<Longrightarrow>
    entries_of T k (low_entries T)"
proof (induction T arbitrary: n b k)
  case (Node m c bs v h l r)
  have eq: "m = n" "c = b" "bs = (n > PARTSIZE)" "getBaseSize bs = EMBLOCKSIZE"
    using Node.prems(2,4) by (auto simp: getBaseSize_def)
  show ?case
  proof (cases "n \<le> EMBLOCKSIZE")
    case True
    then show ?thesis using Node.prems eq by (simp add: entries_of_def)
  next
    case False
    let ?L = "nLeft n b EMBLOCKSIZE"
    have lr: "complete sha l" "complete sha r" "shaped ?L True l" "shaped (n - ?L) False r"
      using Node.prems False eq by (auto simp: getBaseSize_def)
    have L: "0 < ?L" "?L < n" using nLeft_bounds [of EMBLOCKSIZE n b] False by auto
    obtain j where k: "k = Suc j" using Node.prems(5) nBlocks_gt1 [of EMBLOCKSIZE n] False by (cases k) auto
    have half: "nBlocks ?L EMBLOCKSIZE \<le> 2 ^ j" "nBlocks (n - ?L) EMBLOCKSIZE \<le> 2 ^ j"
      using nBlocks_left [of EMBLOCKSIZE n b] nBlocks_right [of EMBLOCKSIZE n b] False Node.prems(5) k by (cases b; simp)+
    have "entries_of l j (low_entries l)" by (rule Node.IH(1) [OF lr(1,3) _ _ half(1)]) (use L Node.prems(4) in auto)
    moreover have "entries_of r j (low_entries r)" by (rule Node.IH(2) [OF lr(2,4) _ _ half(2)]) (use L Node.prems(4) in auto)
    ultimately have "entries_of (Node m c bs v h l r) k (under True (low_entries l) @ under False (low_entries r))"
      using entries_under [of True l r j] entries_under [of False l r j] by (simp add: entries_append k)
    moreover have "l \<noteq> Null" using complete_valid lr by auto
    ultimately show ?thesis by simp
  qed
qed simp

lemma part_entries_of:
  "complete sha T \<Longrightarrow> shaped n b T \<Longrightarrow> route n b pos sz = Some p \<Longrightarrow> 0 < sz \<Longrightarrow> sz \<le> PARTSIZE \<Longrightarrow>
    entries_of T (length p + 6) (part_entries T p)"
proof (induction p arbitrary: T n b pos)
  case Nil
  have n: "sz = n" using Nil.prems(3) by (cases rule: route_cases; simp)
  have "nBlocks n EMBLOCKSIZE \<le> 2 ^ 6"
    using Nil.prems(5) n by (intro nBlocks_le) (simp_all add: PARTSIZE_def EMBLOCKSIZE_def)
  then show ?case using low_entries_of [OF Nil.prems(1,2), of 6] Nil.prems n by (cases T) auto
next
  case (Cons d p)
  obtain h l r where T: "T = Node n b (n > PARTSIZE) True h l r"
    "\<not> n \<le> getBaseSize (n > PARTSIZE) \<Longrightarrow>
       complete sha l \<and> complete sha r \<and> shaped (left_of n b) True l \<and> shaped (right_of n b) False r"
    using shaped_complete_sel [OF Cons.prems(1,2)] by metis
  show ?case
    using Cons.prems(3)
  proof (cases rule: route_cases)
    case (2 q)
    then have "entries_of l (length p + 6) (part_entries l p)"
      using Cons.IH [of l "left_of n b" True pos] T Cons.prems(4,5) by simp
    then have "entries_of T (Suc (length p + 6)) (under True (part_entries l p))"
      using entries_under [of True l r "length p + 6"] T(1) by simp
    then show ?thesis using T 2 complete_valid [of sha r] by (simp add: entries_of_def)
  next
    case (3 q)
    then have "entries_of r (length p + 6) (part_entries r p)"
      using Cons.IH [of r "right_of n b" False "pos - left_of n b"] T Cons.prems(4,5) by simp
    then have "entries_of T (Suc (length p + 6)) (under False (part_entries r p))"
      using entries_under [of False l r "length p + 6"] T(1) by simp
    then show ?thesis using T 3 complete_valid [of sha l] by (simp add: entries_of_def)
  qed simp
qed

section \<open>Reading the hashes in\<close>

lemma read_ident_write:
  assumes "u \<or> length p \<le> 15" "length p \<le> 31"
  shows "read_ident u (write_ident u (ident_of p) @ f) = Some (ident_of p, f)"
proof (cases u)
  case False
  then have "length p \<le> 15" using assms(1) by simp
  then have "ucast (ucast (ident_of p) :: u16) = ident_of p"
    by (intro bit_word_eqI) (auto simp: bit_ucast_iff bit_ident_of)
  then show ?thesis using False by (simp add: read_ident_def write_ident_def)
qed (simp add: read_ident_def write_ident_def)

lemma ident_not_root: "p \<noteq> [] \<Longrightarrow> length p \<le> 31 \<Longrightarrow> ident_of p \<noteq> 1"
proof
  assume p: "p \<noteq> []" "length p \<le> 31" and "ident_of p = 1"
  then have "bit (1 :: u32) (length p)" using bit_ident_of [of p "length p"] by simp
  then show False using p(1) by (simp add: bit_1_iff)
qed

lemma ident_limit: "length p \<le> 21 \<Longrightarrow> \<not> ident_of p > 0x400000"
proof -
  assume p: "length p \<le> 21"
  have "take_bit 22 (ident_of p) = ident_of p"
    using p by (intro bit_word_eqI) (auto simp: bit_take_bit_iff bit_ident_of)
  then have "unat (ident_of p) < 2 ^ 22" by (metis take_bit_nat_less_exp unsigned_take_bit_eq)
  then show ?thesis by (simp add: word_less_nat_alt)
qed

lemma read_entries:
  assumes "entries_of T k es" "\<forall>(p, x) \<in> set es. p \<noteq> []" "k \<le> 21" "u \<or> k \<le> 15"
    "complete sha T" "shaped n b T" "shaped n b t" "t \<noteq> Null"
  shows "read_hashes u (length es) t (concat (map (enc u 1) es) @ f) =
    (Returned True, fold (\<lambda>(p, x). graft p x) es t, f)"
  using assms
proof (induction es arbitrary: t)
  case (Cons e es)
  obtain p x where e: "e = (p, x)" by fastforce
  have p: "at_path p T \<noteq> Null" "x = m_hash (at_path p T)" "length p \<le> k" "p \<noteq> []"
    using Cons.prems(1,2) by (auto simp: e entries_of_def)
  have x: "length x = kAICHHashSize"
  proof -
    have "\<And>n b. complete sha T \<Longrightarrow> shaped n b T \<Longrightarrow> at_path p T \<noteq> Null \<Longrightarrow> length (m_hash (at_path p T)) = kAICHHashSize"
    proof (induction p T rule: at_path.induct)
      case (3 d p m c bs v h l r)
      then show ?case by (cases d) (auto split: if_splits)
    qed auto
    then show ?thesis using Cons.prems(5,6) p by blast
  qed
  have limit: "\<not> (ident_of p = 1 \<or> u \<and> ident_of p > 0x400000)"
    using ident_not_root [OF p(4)] ident_limit [of p] p(3) Cons.prems(3) by simp
  have rd: "read_ident u (write_ident u (ident_of p) @ g) = Some (ident_of p, g)" for g
    by (rule read_ident_write) (use p(3) Cons.prems(3,4) in auto)
  have enc: "enc u 1 (p, x) = write_ident u (ident_of p) @ x" by (simp add: enc_def ident_of_def)
  have set: "setHash t (x @ g) (ident_of p) False = (Returned True, graft p x t, g)" for g
    by (rule setHash_graft [OF Cons.prems(7,8,5,6) p(1) x _ p(4)]) (use p(3) Cons.prems(3) in simp)
  have "shaped n b (graft p x t)" by (rule graft_shaped [OF Cons.prems(7) x Cons.prems(5,6) p(1)])
  then have "read_hashes u (length es) (graft p x t) (concat (map (enc u 1) es) @ f) =
      (Returned True, fold (\<lambda>(p, x). graft p x) es (graft p x t), f)"
    by (intro Cons.IH) (use Cons.prems in \<open>auto simp: entries_of_def\<close>)
  then show ?case
    using limit by (simp add: e enc rd set)
qed simp

section \<open>Partial trees\<close>

text \<open>A tree that knows some hashes of T; one where every node with nothing below has its hash; one
  where every node has.\<close>

fun agrees :: "aich_tree \<Rightarrow> aich_tree \<Rightarrow> bool" where
  "agrees T Null \<longleftrightarrow> True"
| "agrees T (Node n b bs v h l r) \<longleftrightarrow>
     T \<noteq> Null \<and> (v \<longrightarrow> h = m_hash T) \<and> agrees (m_left T) l \<and> agrees (m_right T) r"

fun closed :: "aich_tree \<Rightarrow> bool" where
  "closed Null \<longleftrightarrow> False"
| "closed (Node n b bs v h l r) \<longleftrightarrow> (if l = Null \<and> r = Null then v else closed l \<and> closed r)"

fun all_valid :: "aich_tree \<Rightarrow> bool" where
  "all_valid Null \<longleftrightarrow> False"
| "all_valid (Node n b bs v h l r) \<longleftrightarrow> v \<and> (l = Null \<and> r = Null \<or> all_valid l \<and> all_valid r)"

definition same_nodes :: "aich_tree \<Rightarrow> aich_tree \<Rightarrow> bool" where
  "same_nodes s t \<longleftrightarrow> (\<forall>p. at_path p s = Null \<longleftrightarrow> at_path p t = Null)"

lemma same_nodes_Node:
  "same_nodes l l' \<Longrightarrow> same_nodes r r' \<Longrightarrow> same_nodes (Node n b bs v h l r) (Node n b bs v' h' l' r')"
  unfolding same_nodes_def
proof
  fix p assume "\<forall>p. (at_path p l = Null) = (at_path p l' = Null)" "\<forall>p. (at_path p r = Null) = (at_path p r' = Null)"
  then show "(at_path p (Node n b bs v h l r) = Null) = (at_path p (Node n b bs v' h' l' r') = Null)"
    by (cases p) auto
qed

lemma closed_Null: "closed t \<Longrightarrow> t \<noteq> Null" by auto
lemma all_valid_Null: "all_valid t \<Longrightarrow> t \<noteq> Null \<and> valid t \<and> m_hashValid t" by (cases t) (auto simp: valid_def)

lemma agrees_hash: "agrees T t \<Longrightarrow> valid t \<Longrightarrow> m_hash t = m_hash T"
  by (cases t) (auto simp: valid_def)

lemma agrees_complete_node:
  assumes "complete sha T" "agrees T (Node n b bs v h l r)" "l \<noteq> Null \<or> r \<noteq> Null"
  obtains m c ds hT lT rT where "T = Node m c ds True hT lT rT" "hT = sha (m_hash lT @ m_hash rT)"
    "complete sha lT" "complete sha rT" "agrees lT l" "agrees rT r"
proof -
  obtain m c ds vT hT lT rT where T: "T = Node m c ds vT hT lT rT" using assms(2) by (cases T) auto
  have "lT \<noteq> Null \<or> rT \<noteq> Null" using assms(2,3) T by (cases l; cases r) auto
  then have "\<not> m \<le> getBaseSize ds" using assms(1) T by auto
  then show ?thesis using that assms(1,2) T by auto
qed

lemma recalculate_closed:
  "closed t \<Longrightarrow> agrees T t \<Longrightarrow> complete sha T \<Longrightarrow>
    \<exists>t'. reCalculateHash sha True t = (True, t') \<and> all_valid t' \<and> agrees T t' \<and> same_nodes t t'"
proof (induction t arbitrary: T)
  case (Node n b bs v h l r)
  show ?case
  proof (cases "l = Null \<and> r = Null")
    case True
    then show ?thesis using Node.prems by (auto simp: same_nodes_def)
  next
    case False
    then have cl: "closed l" "closed r" using Node.prems(1) by (simp_all split: if_splits)
    then have nn: "l \<noteq> Null" "r \<noteq> Null" by auto
    obtain m c ds hT lT rT where T: "T = Node m c ds True hT lT rT" "hT = sha (m_hash lT @ m_hash rT)"
      "complete sha lT" "complete sha rT" "agrees lT l" "agrees rT r"
      using agrees_complete_node [OF Node.prems(3,2)] nn by blast
    obtain l' where l': "reCalculateHash sha True l = (True, l')" "all_valid l'" "agrees lT l'" "same_nodes l l'"
      using Node.IH(1) [OF cl(1) T(5,3)] by blast
    obtain r' where r': "reCalculateHash sha True r = (True, r')" "all_valid r'" "agrees rT r'" "same_nodes r r'"
      using Node.IH(2) [OF cl(2) T(6,4)] by blast
    have hs: "m_hash l' = m_hash lT" "m_hash r' = m_hash rT"
      using agrees_hash l' r' all_valid_Null by blast+
    show ?thesis
      using nn l' r' hs T Node.prems(2) all_valid_Null [OF l'(2)] all_valid_Null [OF r'(2)]
      by (cases v) (auto intro: same_nodes_Node)
  qed
qed simp

lemma verify_all_valid: "all_valid t \<Longrightarrow> agrees T t \<Longrightarrow> complete sha T \<Longrightarrow> verifyHashTree sha d t = (True, t)"
proof (induction t arbitrary: T)
  case (Node n b bs v h l r)
  show ?case
  proof (cases "l = Null \<and> r = Null")
    case True
    then show ?thesis using Node.prems(1) by (simp add: verifyHashTree.simps fill_child_def valid_def)
  next
    case False
    then have av: "all_valid l" "all_valid r" "v" using Node.prems(1) by auto
    note nn = all_valid_Null [OF av(1)] all_valid_Null [OF av(2)]
    obtain m c ds hT lT rT where T: "T = Node m c ds True hT lT rT" "hT = sha (m_hash lT @ m_hash rT)"
      "complete sha lT" "complete sha rT" "agrees lT l" "agrees rT r"
      using agrees_complete_node [OF Node.prems(3,2)] nn by blast
    have hs: "m_hash l = m_hash lT" "m_hash r = m_hash rT" using agrees_hash T nn by auto
    show ?thesis
      using Node.IH(1) [OF av(1) T(5,3)] Node.IH(2) [OF av(2) T(6,4)] nn hs T Node.prems(2) av(3)
      by (simp add: verifyHashTree.simps fill_child_def)
  qed
qed simp

lemma verify_closed:
  "closed t \<Longrightarrow> valid t \<Longrightarrow> agrees T t \<Longrightarrow> complete sha T \<Longrightarrow>
    \<exists>t'. verifyHashTree sha d t = (True, t') \<and> all_valid t' \<and> agrees T t' \<and> same_nodes t t'"
proof (induction t arbitrary: T)
  case (Node n b bs v h l r)
  have v: v using Node.prems(2) by (simp add: valid_def)
  show ?case
  proof (cases "l = Null \<and> r = Null")
    case True
    then show ?thesis using Node.prems v
      by (auto simp: verifyHashTree.simps fill_child_def valid_def same_nodes_def)
  next
    case False
    then have cl: "closed l" "closed r" using Node.prems(1) by (simp_all split: if_splits)
    then have nn: "l \<noteq> Null" "r \<noteq> Null" by auto
    obtain m c ds hT lT rT where T: "T = Node m c ds True hT lT rT" "hT = sha (m_hash lT @ m_hash rT)"
      "complete sha lT" "complete sha rT" "agrees lT l" "agrees rT r"
      using agrees_complete_node [OF Node.prems(4,3)] nn by blast
    have child: "\<exists>c'. verifyHashTree sha d (fill_child sha c) = (True, c') \<and> valid (fill_child sha c) \<and>
        m_hash (fill_child sha c) = m_hash cT \<and> all_valid c' \<and> agrees cT c' \<and> same_nodes c c'"
      if c: "closed c" "agrees cT c" "complete sha cT"
        and IH: "valid c \<Longrightarrow> \<exists>t'. verifyHashTree sha d c = (True, t') \<and> all_valid t' \<and> agrees cT t' \<and> same_nodes c t'" for c cT
    proof (cases "valid c")
      case True
      then have "fill_child sha c = c" by (auto simp: fill_child_def valid_def)
      then show ?thesis using IH [OF True] agrees_hash [OF c(2) True] True by auto
    next
      case False
      obtain c' where c': "reCalculateHash sha True c = (True, c')" "all_valid c'" "agrees cT c'" "same_nodes c c'"
        using recalculate_closed [OF c] by blast
      have "fill_child sha c = c'" using False c'(1) closed_Null [OF c(1)] by (auto simp: fill_child_def valid_def)
      then show ?thesis
        using c' verify_all_valid [OF c'(2,3) c(3)] all_valid_Null [OF c'(2)] agrees_hash [OF c'(3)] by auto
    qed
    obtain l' where l': "verifyHashTree sha d (fill_child sha l) = (True, l')" "valid (fill_child sha l)"
      "m_hash (fill_child sha l) = m_hash lT" "all_valid l'" "agrees lT l'" "same_nodes l l'"
      using child [OF cl(1) T(5,3)] Node.IH(1) [OF cl(1) _ T(5,3)] by blast
    obtain r' where r': "verifyHashTree sha d (fill_child sha r) = (True, r')" "valid (fill_child sha r)"
      "m_hash (fill_child sha r) = m_hash rT" "all_valid r'" "agrees rT r'" "same_nodes r r'"
      using child [OF cl(2) T(6,4)] Node.IH(2) [OF cl(2) _ T(6,4)] by blast
    have h: "h = hT" using Node.prems(3) v T(1) by simp
    have "verifyHashTree sha d (Node n b bs v h l r) = (True, Node n b bs v h l' r')"
      using v l'(1-3) r'(1-3) h T(2) by (simp add: verifyHashTree.simps)
    then show ?thesis using v l' r' h T(1) same_nodes_Node by auto
  qed
qed simp

section \<open>Grafting\<close>

abbreviation graft_all :: "(bool list \<times> aich_hash) list \<Rightarrow> aich_tree \<Rightarrow> aich_tree" where
  "graft_all es t \<equiv> fold (\<lambda>(p, x). graft p x) es t"

lemma make_child_id: "t \<noteq> Null \<Longrightarrow> make_child t n b = t"
  by (simp add: make_child_def)

lemma graft_all_left:
  "es \<noteq> [] \<Longrightarrow> graft_all (under True es) (Node n b bs v h l r) =
    Node n b bs v h (graft_all es (make_child l (nLeft n b (getBaseSize bs)) True)) r"
proof (induction es arbitrary: l)
  case (Cons e es)
  then show ?case by (cases "es = []") (auto simp: Let_def make_child_id split: prod.split)
qed simp

lemma graft_all_right:
  "es \<noteq> [] \<Longrightarrow> graft_all (under False es) (Node n b bs v h l r) =
    Node n b bs v h l (graft_all es (make_child r (n - nLeft n b (getBaseSize bs)) False))"
proof (induction es arbitrary: r)
  case (Cons e es)
  then show ?case by (cases "es = []") (auto simp: Let_def make_child_id split: prod.split)
qed simp

lemma make_child_agrees: "T \<noteq> Null \<Longrightarrow> agrees T t \<Longrightarrow> agrees T (make_child t n b)"
  by (simp add: make_child_def newTree_def)

lemma graft_agrees:
  "agrees T t \<Longrightarrow> at_path p T \<noteq> Null \<Longrightarrow> x = m_hash (at_path p T) \<Longrightarrow> agrees T (graft p x t)"
proof (induction p x t arbitrary: T rule: graft.induct)
  case (3 d p x n b bs v h l r)
  obtain m c ds w k lT rT where T: "T = Node m c ds w k lT rT" using "3.prems"(1) by (cases T) auto
  have nn: "(if d then lT else rT) \<noteq> Null" using "3.prems"(2) T by auto
  show ?case
  proof (cases d)
    case True
    have "agrees lT (graft p x (make_child l (nLeft n b (getBaseSize bs)) True))"
      by (rule "3.IH"(1) [OF refl True]) (use "3.prems" T True nn in \<open>auto intro: make_child_agrees\<close>)
    then show ?thesis using "3.prems"(1) T True by (simp add: Let_def)
  next
    case False
    have "agrees rT (graft p x (make_child r (n - nLeft n b (getBaseSize bs)) False))"
      by (rule "3.IH"(2) [OF refl False]) (use "3.prems" T False nn in \<open>auto intro: make_child_agrees\<close>)
    then show ?thesis using "3.prems"(1) T False by (simp add: Let_def)
  qed
qed auto

lemma graft_there: "t \<noteq> Null \<Longrightarrow> at_path p (graft p x t) \<noteq> Null"
  by (induction p x t rule: graft.induct) (auto simp: Let_def)

lemma graft_keeps: "at_path q t \<noteq> Null \<Longrightarrow> at_path q (graft p x t) \<noteq> Null"
proof (induction p x t arbitrary: q rule: graft.induct)
  case (3 d p x n b bs v h l r)
  show ?case
  proof (cases q)
    case (Cons e q')
    have id: "at_path q' c \<noteq> Null \<Longrightarrow> make_child c a f = c" for c a f by (cases "c = Null") (auto simp: make_child_def)
    show ?thesis
      using "3.IH"(1) [OF refl, of q'] "3.IH"(2) [OF refl, of q'] "3.prems" id [of l] id [of r] Cons
      by (cases d; cases e) (auto simp: Let_def)
  qed (simp add: Let_def)
next
  case (2 x n b bs v h l r)
  then show ?case by (cases q) auto
qed simp

lemma graft_root: "p \<noteq> [] \<Longrightarrow> m_hashValid (graft p x t) = m_hashValid t"
  by (cases "(p, x, t)" rule: graft.cases) (simp_all add: Let_def)

lemma hash_at_path:
  "complete sha T \<Longrightarrow> shaped n b T \<Longrightarrow> at_path p T \<noteq> Null \<Longrightarrow> length (m_hash (at_path p T)) = kAICHHashSize"
proof (induction p T arbitrary: n b rule: at_path.induct)
  case (3 d p m c bs v h l r)
  then show ?case by (cases d) (auto split: if_splits)
qed auto

lemma graft_all_keeps:
  assumes "entries_of T k es" "\<forall>(p, x) \<in> set es. p \<noteq> []" "complete sha T" "shaped n b T" "shaped n b t" "t \<noteq> Null" "agrees T t"
  shows "shaped n b (graft_all es t) \<and> graft_all es t \<noteq> Null \<and> agrees T (graft_all es t) \<and>
    m_hashValid (graft_all es t) = m_hashValid t \<and>
    (\<forall>q. at_path q t \<noteq> Null \<longrightarrow> at_path q (graft_all es t) \<noteq> Null) \<and>
    (\<forall>(p, x) \<in> set es. at_path p (graft_all es t) \<noteq> Null)"
  using assms
proof (induction es arbitrary: t)
  case (Cons e es)
  obtain p x where e: "e = (p, x)" by fastforce
  have p: "at_path p T \<noteq> Null" "x = m_hash (at_path p T)" "p \<noteq> []" using Cons.prems(1,2) by (auto simp: e entries_of_def)
  have x: "length x = kAICHHashSize" using hash_at_path [OF Cons.prems(3,4) p(1)] p(2) by simp
  have "entries_of T k es" "\<forall>(p, x) \<in> set es. p \<noteq> []" using Cons.prems(1,2) by (auto simp: entries_of_def)
  note ih = Cons.IH [OF this Cons.prems(3,4) graft_shaped [OF Cons.prems(5) x Cons.prems(3,4) p(1)] _ graft_agrees [OF Cons.prems(7) p(1,2)]]
  have "at_path p (graft_all es (graft p x t)) \<noteq> Null" using ih graft_there Cons.prems(6) by auto
  then show ?case using ih graft_keeps [of _ t p x] graft_root [OF p(3)] Cons.prems(6) by (simp add: e)
qed simp

section \<open>The part is closed\<close>

lemma low_entries_nonempty: "complete sha T \<Longrightarrow> low_entries T \<noteq> []"
  by (induction T) (auto split: if_splits)

lemma part_entries_nonempty:
  "complete sha T \<Longrightarrow> shaped n b T \<Longrightarrow> route n b pos sz = Some p \<Longrightarrow> part_entries T p \<noteq> []"
proof (cases p)
  case Nil
  then show "complete sha T \<Longrightarrow> ?thesis" using low_entries_nonempty [of sha T] by (cases T) (auto simp del: low_entries.simps)
next
  case (Cons d q)
  then show "complete sha T \<Longrightarrow> ?thesis" by (cases T) auto
qed

lemma low_closed:
  "complete sha T \<Longrightarrow> shaped n b T \<Longrightarrow> shaped n b t \<Longrightarrow> t \<noteq> Null \<Longrightarrow> closed (graft_all (low_entries T) t)"
proof (induction T arbitrary: n b t)
  case (Node m c bs v h l r)
  have eq: "m = n" "c = b" "bs = (n > PARTSIZE)" using Node.prems(2) by auto
  obtain v2 h2 l2 r2 where t: "t = Node n b (n > PARTSIZE) v2 h2 l2 r2" using Node.prems(3,4) by (cases t) auto
  show ?case
  proof (cases "n \<le> getBaseSize (n > PARTSIZE)")
    case True
    then show ?thesis using Node.prems(1,3) eq t by auto
  next
    case False
    have lr: "complete sha l" "complete sha r" "shaped (left_of n b) True l" "shaped (right_of n b) False r"
      using Node.prems(1,2) eq False by auto
    have sh: "shaped (left_of n b) True (make_child l2 (left_of n b) True)"
      "shaped (right_of n b) False (make_child r2 (right_of n b) False)"
      by (rule make_child_shaped, use Node.prems(3) t in auto)+
    have "l \<noteq> Null" using complete_valid lr by auto
    then show ?thesis
      using Node.IH(1) [OF lr(1,3) sh(1) make_child_Null] Node.IH(2) [OF lr(2,4) sh(2) make_child_Null]
        low_entries_nonempty [OF lr(1)] low_entries_nonempty [OF lr(2)] closed_Null
      by (auto simp: t graft_all_left graft_all_right)
  qed
qed simp

text \<open>Off the way to a part, nothing is half there.\<close>

fun half_closed :: "aich_tree \<Rightarrow> bool" where
  "half_closed Null \<longleftrightarrow> True"
| "half_closed (Node n b bs v h l r) \<longleftrightarrow> l = Null \<and> r = Null \<or> closed l \<and> closed r"

fun clear_way :: "bool list \<Rightarrow> aich_tree \<Rightarrow> bool" where
  "clear_way p Null \<longleftrightarrow> True"
| "clear_way [] (Node n b bs v h l r) \<longleftrightarrow> True"
| "clear_way (d # p) (Node n b bs v h l r) \<longleftrightarrow>
     half_closed (if d then r else l) \<and> clear_way p (if d then l else r)"

lemma closed_half: "closed t \<Longrightarrow> half_closed t"
  by (cases t) (auto split: if_splits)

lemma half_clear: "half_closed t \<Longrightarrow> clear_way p t"
proof (induction p t rule: clear_way.induct)
  case (3 d p n b bs v h l r)
  then show ?case using closed_half by (cases d) auto
qed auto

lemma make_child_clear: "clear_way p t \<Longrightarrow> clear_way p (make_child t n b)"
  using half_clear [of "newTree n b _" p] by (simp add: make_child_def newTree_def)

lemma findHash_clear:
  "route n b pos sz = Some p \<Longrightarrow> shaped n b t \<Longrightarrow> n < 2 ^ 64 \<Longrightarrow> clear_way p t \<Longrightarrow>
    clear_way p (fst (findHash lv t pos sz))"
proof (induction p arbitrary: n b pos t lv)
  case (Cons d p)
  show ?case
  proof (cases t)
    case (Node m c bs v h l r)
    have t: "t = Node n b (n > PARTSIZE) v h l r" using Cons.prems(2) Node by auto
    have sh: "shaped (left_of n b) True (make_child l (left_of n b) True)"
      "shaped (right_of n b) False (make_child r (right_of n b) False)"
      by (rule make_child_shaped, use Cons.prems(2) t in auto)+
    show ?thesis
      using Cons.prems(1)
    proof (cases rule: route_cases)
      case (2 q)
      then have q: "q = p" "d" by simp_all
      obtain t' x y where f: "findHash (lv + 1) (make_child l (left_of n b) True) pos sz = (t', x, y)" by (cases "findHash (lv + 1) (make_child l (left_of n b) True) pos sz")
      have small: "left_of n b < 2 ^ 64" "pos + sz < 2 ^ 64"
        using 2(2,6) Cons.prems(3) nLeft_bounds [of "getBaseSize (n > PARTSIZE)" n b] by auto
      have "clear_way p t'"
        using Cons.IH [OF _ sh(1) small(1), of pos "lv + 1"] 2(7) q f make_child_clear [of p l] Cons.prems(4) t by simp
      then have "clear_way (d # p) (Node n b (n > PARTSIZE) v h t' r)" using Cons.prems(4) t q by simp
      then show ?thesis using 2(2-6) f small(2) Cons.prems(4) q(2)
        unfolding t findHash.simps Let_def by (auto simp: add64_small)
    next
      case (3 q)
      then have q: "q = p" "\<not> d" by simp_all
      obtain t' x y where f: "findHash (lv + 1) (make_child r (right_of n b) False) (pos - left_of n b) sz = (t', x, y)"
        by (cases "findHash (lv + 1) (make_child r (right_of n b) False) (pos - left_of n b) sz")
      have small: "right_of n b < 2 ^ 64" "pos + sz < 2 ^ 64" "pos - left_of n b + sz < 2 ^ 64"
        using 3(5,6) Cons.prems(3) by auto
      have "clear_way p t'"
        using Cons.IH [OF _ sh(2) small(1), of "pos - left_of n b" "lv + 1"] 3(7) q f make_child_clear [of p r] Cons.prems(4) t by simp
      then have "clear_way (d # p) (Node n b (n > PARTSIZE) v h l t')" using Cons.prems(4) t q by simp
      then show ?thesis using 3(2-6) f small(2,3) Cons.prems(4) q(2)
        unfolding t findHash.simps Let_def by (auto simp: add64_small)
    qed simp
  qed (simp add: findHash.simps)
next
  case Nil
  show ?case by (cases "fst (findHash lv t pos sz)") simp_all
qed

lemma findHash_keeps:
  "agrees T t \<Longrightarrow> complete sha T \<Longrightarrow> shaped n b T \<Longrightarrow> shaped n b t \<Longrightarrow>
    agrees T (fst (findHash lv t pos sz)) \<and>
    m_hashValid (fst (findHash lv t pos sz)) = m_hashValid t \<and> (fst (findHash lv t pos sz) = Null) = (t = Null)"
proof (induction lv t pos sz arbitrary: n b T rule: findHash.induct)
  case (2 lv m c bs v h l r pos sz)
  let ?L = "nLeft m c (getBaseSize bs)"
  obtain k lT rT where T: "T = Node n b (n > PARTSIZE) True k lT rT" "\<not> n \<le> getBaseSize (n > PARTSIZE) \<Longrightarrow>
       complete sha lT \<and> complete sha rT \<and> shaped (left_of n b) True lT \<and> shaped (right_of n b) False rT"
    using shaped_complete_sel [OF "2.prems"(2,3)] by metis
  have eq: "m = n" "c = b" "bs = (n > PARTSIZE)" using "2.prems"(4) by auto
  define P where "P x = (agrees T (fst x) \<and> m_hashValid (fst x) = v \<and> fst x \<noteq> Null)" for x :: "aich_tree \<times> bool list option \<times> nat"
  have here: "P (Node m c bs v h l r, x)" for x using "2.prems"(1) by (simp add: P_def)
  have node: "P (Node m c bs v h l' r, x)" if "agrees lT l'" for l' x using "2.prems"(1) T that by (simp add: P_def)
  have node': "P (Node m c bs v h l r', x)" if "agrees rT r'" for r' x using "2.prems"(1) T that by (simp add: P_def)
  have "P (findHash lv (Node m c bs v h l r) pos sz)"
    unfolding findHash.simps Let_def
    apply (intro if_intro [where P = P] here)
    subgoal premises p
    proof -
      have T': "complete sha lT" "shaped ?L True lT" "lT \<noteq> Null" using T p(3) eq complete_valid by auto
      have "agrees lT (fst (findHash (lv + 1) (make_child l ?L True) pos sz))"
        using "2.IH"(1) [OF refl refl refl p, of lT ?L True] make_child_agrees [OF T'(3)] make_child_shaped [of ?L True l]
          T T' "2.prems"(1,4) by auto
      then show ?thesis using node by (cases "findHash (lv + 1) (make_child l ?L True) pos sz") simp
    qed
    subgoal premises p
    proof -
      have T': "complete sha rT" "shaped (m - ?L) False rT" "rT \<noteq> Null" using T p(3) eq complete_valid by auto
      have "agrees rT (fst (findHash (lv + 1) (make_child r (m - ?L) False) (pos - ?L) sz))"
        using "2.IH"(2) [OF refl refl refl p, of rT "m - ?L" False] make_child_agrees [OF T'(3)] make_child_shaped [of "m - ?L" False r]
          T T' "2.prems"(1,4) by auto
      then show ?thesis using node' by (cases "findHash (lv + 1) (make_child r (m - ?L) False) (pos - ?L) sz") simp
    qed
    done
  then show ?case by (simp add: P_def)
qed (simp add: findHash.simps)

lemma part_closed:
  "complete sha T \<Longrightarrow> shaped n b T \<Longrightarrow> shaped n b t \<Longrightarrow> t \<noteq> Null \<Longrightarrow> route n b pos sz = Some p \<Longrightarrow> clear_way p t \<Longrightarrow>
    closed (graft_all (part_entries T p) t)"
proof (induction p arbitrary: T n b t pos)
  case Nil
  then show ?case using low_closed [OF Nil.prems(1-4)] by (cases T) auto
next
  case (Cons d p)
  obtain k lT rT where T: "T = Node n b (n > PARTSIZE) True k lT rT" "\<not> n \<le> getBaseSize (n > PARTSIZE) \<Longrightarrow>
       complete sha lT \<and> complete sha rT \<and> shaped (left_of n b) True lT \<and> shaped (right_of n b) False rT"
    using shaped_complete_sel [OF Cons.prems(1,2)] by metis
  obtain v h l r where t: "t = Node n b (n > PARTSIZE) v h l r" using Cons.prems(3,4) by (cases t) auto
  have sh: "shaped (left_of n b) True (make_child l (left_of n b) True)"
    "shaped (right_of n b) False (make_child r (right_of n b) False)"
    by (rule make_child_shaped, use Cons.prems(3) t in auto)+
  have sib: "closed (graft [] x c)" if "half_closed c" "c \<noteq> Null" for x c
    using that by (cases c) auto
  have half_new: "half_closed c \<Longrightarrow> half_closed (make_child c a e)" for c a e
    by (simp add: make_child_def newTree_def)
  show ?case
    using Cons.prems(5)
  proof (cases rule: route_cases)
    case (2 q)
    then have q: "q = p" "d" by simp_all
    have T': "complete sha lT" "shaped (left_of n b) True lT" using T 2(2) by auto
    have "closed (graft_all (part_entries lT p) (make_child l (left_of n b) True))"
      by (rule Cons.IH [OF T' sh(1) make_child_Null 2(7) [unfolded q(1)]])
        (use Cons.prems(6) t q in \<open>simp add: make_child_clear\<close>)
    moreover have "closed (graft [] (m_hash rT) (make_child r (right_of n b) False))"
      by (rule sib) (use Cons.prems(6) t q half_new in auto)
    ultimately show ?thesis
      using part_entries_nonempty [OF T' 2(7)] q closed_Null
      by (auto simp: T t graft_all_left Let_def)
  next
    case (3 q)
    then have q: "q = p" "\<not> d" by simp_all
    have T': "complete sha rT" "shaped (right_of n b) False rT" using T 3(2) by auto
    have "closed (graft_all (part_entries rT p) (make_child r (right_of n b) False))"
      by (rule Cons.IH [OF T' sh(2) make_child_Null 3(7) [unfolded q(1)]])
        (use Cons.prems(6) t q in \<open>simp add: make_child_clear\<close>)
    moreover have "closed (graft [] (m_hash lT) (make_child l (left_of n b) True))"
      by (rule sib) (use Cons.prems(6) t q half_new in auto)
    ultimately show ?thesis
      using part_entries_nonempty [OF T' 3(7)] q closed_Null
      by (auto simp: T t graft_all_right Let_def)
  qed simp
qed

section \<open>The packet of a part\<close>

lemma findHash_complete:
  assumes "complete sha T" "shaped n b T" "route n b pos sz = Some p" "n < 2 ^ 64" "lv + 1 + length p \<le> 22"
  shows "findHash lv T pos sz = (T, Some p, lv + 1 + length p)"
  using assms
proof (induction p arbitrary: T n b pos lv)
  case Nil
  have "pos = 0" "sz = n" using Nil.prems(3) by (cases rule: route_cases; simp)+
  then show ?case using Nil.prems by (cases T) (auto simp: findHash.simps Let_def add64_small)
next
  case (Cons d p)
  obtain h l r where T: "T = Node n b (n > PARTSIZE) True h l r"
    "\<not> n \<le> getBaseSize (n > PARTSIZE) \<Longrightarrow>
       complete sha l \<and> complete sha r \<and> shaped (left_of n b) True l \<and> shaped (right_of n b) False r"
    using shaped_complete_sel [OF Cons.prems(1,2)] by metis
  have lv: "lv + 1 + 1 + length p \<le> 22" "\<not> lv + 1 > 22" using Cons.prems(5) by simp_all
  show ?case
    using Cons.prems(3)
  proof (cases rule: route_cases)
    case (2 q)
    then have q: "q = p" "d" by simp_all
    have T': "complete sha l" "shaped (left_of n b) True l" "l \<noteq> Null" using T(2) [OF 2(2)] complete_valid by auto
    have small: "left_of n b < 2 ^ 64" "pos + sz < 2 ^ 64"
      using 2(2,6) Cons.prems(4) nLeft_bounds [of "getBaseSize (n > PARTSIZE)" n b] by auto
    have "findHash (lv + 1) l pos sz = (l, Some p, lv + 1 + 1 + length p)"
      by (rule Cons.IH [OF T'(1,2) 2(7) [unfolded q] small(1) lv(1)])
    then show ?thesis using 2(2-6) lv(2) q small(2) T'(3)
      unfolding T(1) findHash.simps Let_def by (auto simp: add64_small make_child_id)
  next
    case (3 q)
    then have q: "q = p" "\<not> d" by simp_all
    have T': "complete sha r" "shaped (right_of n b) False r" "r \<noteq> Null" using T(2) [OF 3(2)] complete_valid by auto
    have small: "right_of n b < 2 ^ 64" "pos + sz < 2 ^ 64" "pos - left_of n b + sz < 2 ^ 64"
      using 3(5,6) Cons.prems(4) by auto
    have "findHash (lv + 1) r (pos - left_of n b) sz = (r, Some p, lv + 1 + 1 + length p)"
      by (rule Cons.IH [OF T'(1,2) 3(7) [unfolded q] small(1) lv(1)])
    then show ?thesis using 3(2-6) lv(2) q small(2,3) T'(3)
      unfolding T(1) findHash.simps Let_def by (auto simp: add64_small make_child_id)
  qed simp
qed

lemma length_enc:
  "entries_of T k es \<Longrightarrow> complete sha T \<Longrightarrow> shaped n b T \<Longrightarrow>
    length (concat (map (enc u i) es)) = length es * (kAICHHashSize + (if u then 4 else 2))"
proof (induction es)
  case (Cons e es)
  have "length (snd e) = kAICHHashSize"
    using Cons.prems hash_at_path [OF Cons.prems(2,3), of "fst e"] by (auto simp: entries_of_def)
  moreover have "entries_of T k es" using Cons.prems(1) by (simp add: entries_of_def)
  ultimately show ?case using Cons by (simp add: enc_def write_ident_def)
qed simp

lemma low_member:
  "complete sha T \<Longrightarrow> shaped n b T \<Longrightarrow> route n b pos sz = Some p \<Longrightarrow> n \<le> PARTSIZE \<Longrightarrow> sz \<le> EMBLOCKSIZE \<Longrightarrow>
    p \<in> fst ` set (low_entries T)"
proof (induction p arbitrary: T n b pos)
  case Nil
  have "sz = n" using Nil.prems(3) by (cases rule: route_cases; simp)
  then have "n \<le> getBaseSize (n > PARTSIZE)" using Nil.prems(4,5) by (simp add: getBaseSize_def)
  then show ?case using Nil.prems(1,2) by (cases T) auto
next
  case (Cons d p)
  obtain h l r where T: "T = Node n b (n > PARTSIZE) True h l r"
    "\<not> n \<le> getBaseSize (n > PARTSIZE) \<Longrightarrow>
       complete sha l \<and> complete sha r \<and> shaped (left_of n b) True l \<and> shaped (right_of n b) False r"
    using shaped_complete_sel [OF Cons.prems(1,2)] by metis
  have two: "low_entries T = under True (low_entries l) @ under False (low_entries r)" if "\<not> n \<le> getBaseSize (n > PARTSIZE)"
    using T that complete_valid by auto
  have le: "left_of n b \<le> PARTSIZE" if "\<not> n \<le> getBaseSize (n > PARTSIZE)"
    using nLeft_bounds [of "getBaseSize (n > PARTSIZE)" n b] that Cons.prems(4) by simp
  have img: "p \<in> fst ` set es \<Longrightarrow> e # p \<in> fst ` set (under e es)" for e es by force
  show ?case
    using Cons.prems(3)
  proof (cases rule: route_cases)
    case (2 q)
    then have "p \<in> fst ` set (low_entries l)" using Cons.IH [of l "left_of n b" True pos] T(2) le Cons.prems(5) by simp
    then show ?thesis using img [of "low_entries l" True] two 2 by auto
  next
    case (3 q)
    then have "p \<in> fst ` set (low_entries r)"
      using Cons.IH [of r "right_of n b" False "pos - left_of n b"] T(2) Cons.prems(4,5) by simp
    then show ?thesis using img [of "low_entries r" False] two 3 by auto
  qed simp
qed

lemma part_member:
  "complete sha T \<Longrightarrow> shaped n b T \<Longrightarrow> route n b pos sz = Some p \<Longrightarrow> sz \<le> PARTSIZE \<Longrightarrow>
    route sz (side b p) o2 sz2 = Some p2 \<Longrightarrow> sz2 \<le> EMBLOCKSIZE \<Longrightarrow> p @ p2 \<in> fst ` set (part_entries T p)"
proof (induction p arbitrary: T n b pos)
  case Nil
  have "sz = n" using Nil.prems(3) by (cases rule: route_cases; simp)
  then have "p2 \<in> fst ` set (low_entries T)"
    using low_member [OF Nil.prems(1,2)] Nil.prems(4-6) by (simp add: side_def)
  moreover have "part_entries T [] = low_entries T" by (cases T) simp_all
  ultimately show ?case by simp
next
  case (Cons d p)
  obtain h l r where T: "T = Node n b (n > PARTSIZE) True h l r"
    "\<not> n \<le> getBaseSize (n > PARTSIZE) \<Longrightarrow>
       complete sha l \<and> complete sha r \<and> shaped (left_of n b) True l \<and> shaped (right_of n b) False r"
    using shaped_complete_sel [OF Cons.prems(1,2)] by metis
  have sd: "side b (d # p) = side d p" by (simp add: side_def)
  have img: "p @ p2 \<in> fst ` set es \<Longrightarrow> e # p @ p2 \<in> fst ` set (under e es)" for e es by force
  show ?case
    using Cons.prems(3)
  proof (cases rule: route_cases)
    case (2 q)
    then have "p @ p2 \<in> fst ` set (part_entries l p)"
      using Cons.IH [of l "left_of n b" True pos] T(2) Cons.prems(4-6) sd by simp
    then show ?thesis using img [of "part_entries l p" True] T(1) 2 by auto
  next
    case (3 q)
    then have "p @ p2 \<in> fst ` set (part_entries r p)"
      using Cons.IH [of r "right_of n b" False "pos - left_of n b"] T(2) Cons.prems(4-6) sd by simp
    then show ?thesis using img [of "part_entries r p" False] T(1) 3 by auto
  qed simp
qed

lemma all_valid_at: "all_valid t \<Longrightarrow> at_path p t \<noteq> Null \<Longrightarrow> valid (at_path (take k p) t)"
proof (induction p t arbitrary: k rule: at_path.induct)
  case (3 d p n b bs v h l r)
  then show ?case by (cases k; cases d) (auto simp: valid_def)
next
  case (2 n b bs v h l r)
  then show ?case by (simp add: valid_def)
qed simp

lemma complete_all_valid: "complete sha t \<Longrightarrow> all_valid t"
  by (induction t) (auto split: if_splits)

lemma all_valid_closed: "all_valid t \<Longrightarrow> closed t"
  by (induction t) auto

lemma agrees_at: "agrees T t \<Longrightarrow> at_path p t \<noteq> Null \<Longrightarrow> agrees (at_path p T) (at_path p t)"
proof (induction p t arbitrary: T rule: at_path.induct)
  case (3 d p n b bs v h l r)
  then show ?case by (cases T; cases d) auto
qed simp_all

text \<open>A client on the way to recover a file whose complete tree is T.\<close>

definition recovering :: "aich_tree \<Rightarrow> nat \<Rightarrow> aich_set \<Rightarrow> bool" where
  "recovering T n c \<longleftrightarrow> m_status c \<in> {Verified, Trusted} \<and> shaped n True (m_hashTree c) \<and>
     closed (m_hashTree c) \<and> m_hashValid (m_hashTree c) \<and> agrees T (m_hashTree c)"

definition block_hash :: "aich_tree \<Rightarrow> nat \<Rightarrow> nat \<Rightarrow> aich_hash option" where
  "block_hash t pos sz = map_option m_hash (findExistingHash 0 t pos sz)"

lemma route_Nil: "route n b pos sz = Some [] \<Longrightarrow> sz = n"
  by (erule route_cases) simp_all

lemma packet_read:
  assumes "complete sha T" "shaped n True T" "EMBLOCKSIZE < n" "n \<le> MAX_EMULE_FILE_SIZE" "part * PARTSIZE < n"
    "recovering T n c" "\<forall>x. length (sha x) = kAICHHashSize"
    "ps = part_size n (part * PARTSIZE)" "route n True (part * PARTSIZE) ps = Some p"
    "H = hashes_expected (Suc (length p)) ps" "u = (n > OLD_MAX_EMULE_FILE_SIZE)"
  shows "unat H = length (part_entries T p) \<and> length p \<le> 15 \<and>
    length (concat (map (enc u 1) (part_entries T p))) = unat H * (kAICHHashSize + (if u then 4 else 2)) \<and>
    (\<exists>c'. readRecoveryData sha (part * PARTSIZE)
        ((if u then writeUInt16 0 else []) @ writeUInt16 H @ concat (map (enc u 1) (part_entries T p)) @ (if u then [] else writeUInt16 0)) c =
        (Returned True, c', []) \<and> recovering T n c' \<and>
      (\<forall>block. block * EMBLOCKSIZE < ps \<longrightarrow>
        block_hash (m_hashTree c') (part * PARTSIZE + block * EMBLOCKSIZE) (min EMBLOCKSIZE (ps - block * EMBLOCKSIZE)) =
        block_hash T (part * PARTSIZE + block * EMBLOCKSIZE) (min EMBLOCKSIZE (ps - block * EMBLOCKSIZE)) \<and>
        block_hash T (part * PARTSIZE + block * EMBLOCKSIZE) (min EMBLOCKSIZE (ps - block * EMBLOCKSIZE)) \<noteq> None))"
proof -
  let ?start = "part * PARTSIZE" and ?es = "part_entries T p" and ?t = "m_hashTree c"
  have n64: "n < 2 ^ 64" using assms(4) by (simp add: MAX_EMULE_FILE_SIZE_def)
  define k where "k = (if u then 15 else 9 :: nat)"
  have dk: "depth_limit n k" using depth_max [OF assms(4)] depth_old_max [of n] by (auto simp: k_def assms(11))
  have ps: "0 < ps" "ps \<le> PARTSIZE" using part_size_eq [of ?start n] assms(5,8) n64 by auto
  have lp: "length p \<le> k" "k \<le> 15" using route_part [OF dk assms(5) n64, of True] assms(8,9) by (auto simp: k_def)
  have es: "entries_of T (length p + 6) ?es" "length ?es = length p + nBlocks ps EMBLOCKSIZE"
    by (rule part_entries_of [OF assms(1,2,9) ps], rule part_entries_length [OF assms(1,2,9) ps])
  have es_k: "entries_of T (k + 6) ?es" using es(1) lp(1) by (fastforce simp: entries_of_def)
  have nb: "nBlocks ps EMBLOCKSIZE \<le> 53" using ps(2) by (intro nBlocks_le) (simp_all add: PARTSIZE_def EMBLOCKSIZE_def)
  have nb0: "0 < nBlocks ps EMBLOCKSIZE" using nBlocks_bounds [of EMBLOCKSIZE ps] ps(1) by simp
  have H: "unat H = length ?es"
  proof -
    have "length p + nBlocks ps EMBLOCKSIZE < 2 ^ 16" using lp nb by simp
    moreover have "unat (of_nat m :: u16) = m" if "m < 2 ^ 16" for m
      using that by (simp add: unat_of_nat take_bit_nat_eq_self)
    moreover have "H = of_nat (length p + nBlocks ps EMBLOCKSIZE)"
      unfolding assms(10) hashes_expected_def diff_Suc_1 ..
    ultimately show ?thesis unfolding es(2) by blast
  qed
  have nonroot: "\<forall>(q, x) \<in> set ?es. q \<noteq> []"
  proof (cases p)
    case Nil
    have "ps = n" using route_Nil assms(9) Nil by blast
    then have "\<not> n \<le> getBaseSize (n > PARTSIZE)" using assms(3) ps(2) by (simp add: getBaseSize_def)
    then show ?thesis using assms(1,2) Nil complete_valid by (cases T) auto
  next
    case (Cons d q)
    then show ?thesis using assms(1) by (cases T) auto
  qed
  have len: "length (concat (map (enc u 1) ?es)) = unat H * (kAICHHashSize + (if u then 4 else 2))"
    using length_enc [OF es(1) assms(1,2)] H by simp
  have c: "m_status c \<in> {Verified, Trusted}" "shaped n True ?t" "closed ?t" "m_hashValid ?t" "agrees T ?t" "?t \<noteq> Null"
    using assms(6) by (auto simp: recovering_def)
  have lv: "0 + 1 + length p \<le> 22" using lp by simp
  obtain t0 where t0: "findHash 0 ?t ?start ps = (t0, Some p, Suc (length p))"
    using findHash_route [OF assms(9) c(2,6) n64 lv] by auto
  have t0': "shaped n True t0" "t0 \<noteq> Null" "agrees T t0" "m_hashValid t0" "clear_way p t0"
    using findHash_shaped [OF c(2), of 0 ?start ps] findHash_keeps [OF c(5) assms(1,2) c(2), of 0 ?start ps] c(4,6)
      findHash_clear [OF assms(9) c(2) n64 half_clear [OF closed_half [OF c(3)]], of 0] by (simp_all add: t0)
  define t1 where "t1 = graft_all ?es t0"
  have read: "read_hashes u (length ?es) t0 (concat (map (enc u 1) ?es) @ f) = (Returned True, t1, f)" for f
    unfolding t1_def
    by (rule read_entries [OF es_k nonroot _ _ assms(1,2) t0'(1,2)]) (auto simp: k_def)
  have t1: "shaped n True t1" "t1 \<noteq> Null" "agrees T t1" "m_hashValid t1" "\<forall>(q, x) \<in> set ?es. at_path q t1 \<noteq> Null"
    using graft_all_keeps [OF es(1) nonroot assms(1,2) t0'(1-3)] t0'(4) unfolding t1_def by auto
  have "closed t1" unfolding t1_def by (rule part_closed [OF assms(1,2) t0'(1,2) assms(9) t0'(5)])
  then obtain t2 where t2: "verifyHashTree sha True t1 = (True, t2)" "all_valid t2" "agrees T t2" "same_nodes t1 t2"
    using verify_closed [of t1 T sha True] t1 assms(1) by (auto simp: valid_def)
  have sh2: "shaped n True t2" using verify_shaped [OF t1(1) assms(7), of True] by (simp add: t2(1))
  have block: "findExistingHash 0 t2 (?start + b * EMBLOCKSIZE) (min EMBLOCKSIZE (ps - b * EMBLOCKSIZE)) = Some (at_path q t2)"
    "findExistingHash 0 T (?start + b * EMBLOCKSIZE) (min EMBLOCKSIZE (ps - b * EMBLOCKSIZE)) = Some (at_path q T)"
    "at_path q t2 \<noteq> Null" "valid (at_path q t2)"
    if b: "b * EMBLOCKSIZE < ps" and q: "q = p @ p2"
      "route ps (side True p) (b * EMBLOCKSIZE) (min EMBLOCKSIZE (ps - b * EMBLOCKSIZE)) = Some p2" "length p2 \<le> 6" for b q p2
  proof -
    let ?sz = "min EMBLOCKSIZE (ps - b * EMBLOCKSIZE)"
    have r: "route n True (?start + b * EMBLOCKSIZE) ?sz = Some q"
      using route_append [OF assms(9) q(2)] b q(1) by simp
    have "q \<in> fst ` set ?es" using part_member [OF assms(1,2,9) ps(2) q(2)] q(1) by simp
    then have there: "at_path q t1 \<noteq> Null" "at_path q T \<noteq> Null"
      using t1(5) es(1) by (auto simp: entries_of_def)
    then show there2: "at_path q t2 \<noteq> Null" using t2(4) by (simp add: same_nodes_def)
    have lvq: "0 + 1 + length q \<le> 22" using q(1,3) lp by simp
    show "findExistingHash 0 t2 (?start + b * EMBLOCKSIZE) ?sz = Some (at_path q t2)"
      using findExisting_route [OF r sh2 _ n64 lvq] all_valid_at [OF t2(2) there2] all_valid_Null [OF t2(2)] by blast
    show "findExistingHash 0 T (?start + b * EMBLOCKSIZE) ?sz = Some (at_path q T)"
      using findExisting_route [OF r assms(2) _ n64 lvq] all_valid_at [OF complete_all_valid [OF assms(1)] there(2)]
        complete_valid [OF assms(1)] by blast
    show "valid (at_path q t2)" using all_valid_at [OF t2(2) there2, of "length q"] by simp
  qed
  have route2: "\<exists>p2. route ps (side True p) (b * EMBLOCKSIZE) (min EMBLOCKSIZE (ps - b * EMBLOCKSIZE)) = Some p2 \<and> length p2 \<le> 6"
    if "b * EMBLOCKSIZE < ps" for b
    by (rule route_block [OF ps(2) that])
  have known: "list_all (block_known t2 ?start ps) (block_starts ps)"
    unfolding list_all_iff block_starts_def
  proof (clarsimp)
    fix b assume "b < nBlocks ps EMBLOCKSIZE"
    then have "b * EMBLOCKSIZE \<le> (nBlocks ps EMBLOCKSIZE - 1) * EMBLOCKSIZE" by (intro mult_le_mono1) simp
    then have b: "b * EMBLOCKSIZE < ps" using nBlocks_bounds [OF EMBLOCKSIZE_less(2) ps(1)] by linarith
    have "?start + b * EMBLOCKSIZE < 2 ^ 64"
      using b part_size_eq [of ?start n] assms(5,8) n64 by auto
    then have a: "add64 ?start (b * EMBLOCKSIZE) = ?start + b * EMBLOCKSIZE" by (rule add64_small)
    obtain p2 where p2: "route ps (side True p) (b * EMBLOCKSIZE) (min EMBLOCKSIZE (ps - b * EMBLOCKSIZE)) = Some p2" "length p2 \<le> 6"
      using route2 [OF b] by blast
    show "block_known t2 ?start ps (b * EMBLOCKSIZE)"
      using block(1,4) [OF b refl p2] by (simp add: block_known_def a valid_def)
  qed
  define c' where "c' = set_tree t2 c"
  have H0: "H \<noteq> 0" using H es(2) nb0 by auto
  have fin: "finish_recovery sha ?start ps H t1 f = (Returned True, t2, f)" for f
    using H0 t2(1) known by (simp add: finish_recovery_def)
  have packet: "read_packet sha ?start ps H t0 ((if u then writeUInt16 0 else []) @ writeUInt16 H @ concat (map (enc u 1) ?es) @ (if u then [] else writeUInt16 0))
      = (Returned True, t2, [])"
  proof (cases u)
    case True
    have rd: "read_hashes True (unat H) t0 (concat (map (enc True 1) ?es)) = (Returned True, t1, [])"
      using read [of "[]"] True H by simp
    have l: "length (concat (map (enc True 1) ?es)) = unat H * (kAICHHashSize + 4)" using len True by simp
    show ?thesis using True rd fin l
      by (simp add: read_packet_def hashes_read_def del: length_concat) (simp add: kAICHHashSize_def)
  next
    case False
    have rd: "read_hashes False (unat H) t0 (concat (map (enc False 1) ?es) @ writeUInt16 0) = (Returned True, t1, writeUInt16 0)"
      using read [of "writeUInt16 0"] False H by simp
    have l: "length (concat (map (enc False 1) ?es)) = unat H * (kAICHHashSize + 2)" using len False by simp
    show ?thesis using False rd fin l H0
      by (simp add: read_packet_def hashes_read_def del: length_concat)
  qed
  have dn: "m_dataSize ?t = n" using shaped_sel [OF c(2,6)] by simp
  have readR: "readRecoveryData sha ?start
      ((if u then writeUInt16 0 else []) @ writeUInt16 H @ concat (map (enc u 1) ?es) @ (if u then [] else writeUInt16 0)) c =
      (Returned True, c', [])"
    using c(1) t0 packet unfolding readRecoveryData_def Let_def dn assms(8) [symmetric]
    by (simp add: c'_def assms(10) [symmetric])
  have rec: "recovering T n c'"
    using c(1) sh2 t2(2,3) all_valid_closed [OF t2(2)] all_valid_Null [OF t2(2)]
    by (simp add: recovering_def c'_def set_tree_def)
  have hashes: "block_hash (m_hashTree c') (?start + b * EMBLOCKSIZE) (min EMBLOCKSIZE (ps - b * EMBLOCKSIZE)) =
      block_hash T (?start + b * EMBLOCKSIZE) (min EMBLOCKSIZE (ps - b * EMBLOCKSIZE)) \<and>
      block_hash T (?start + b * EMBLOCKSIZE) (min EMBLOCKSIZE (ps - b * EMBLOCKSIZE)) \<noteq> None"
    if b: "b * EMBLOCKSIZE < ps" for b
  proof -
    obtain p2 where p2: "route ps (side True p) (b * EMBLOCKSIZE) (min EMBLOCKSIZE (ps - b * EMBLOCKSIZE)) = Some p2" "length p2 \<le> 6"
      using route2 [OF b] by blast
    note bl = block [OF b refl p2]
    have "m_hash (at_path (p @ p2) t2) = m_hash (at_path (p @ p2) T)"
      by (rule agrees_hash [OF agrees_at [OF t2(3) bl(3)] bl(4)])
    then show ?thesis using bl(1,2) by (simp add: block_hash_def c'_def set_tree_def)
  qed
  show ?thesis using H lp len readR rec hashes by auto
qed

text \<open>C8. Recovery works: for every part of a file of up to 256 GB, the packet made from the complete
  tree that was loaded is made, and a client that knows the root, and perhaps other parts,
  accepts all of it, verifies it, and then has exactly the hash of every block of the part.\<close>

theorem recovery_roundtrip:
  assumes "complete sha T" "shaped n True T" "EMBLOCKSIZE < n" "n \<le> MAX_EMULE_FILE_SIZE" "part * PARTSIZE < n"
    "\<forall>x. length (sha x) = kAICHHashSize" "m_status s = HashSetComplete" "m_dataSize (m_hashTree s) = n"
    "loadHashSet sha k s = (True, set_tree T s)" "recovering T n c"
  shows "\<exists>packet s' c'. createRecoveryData sha k (part * PARTSIZE) False s = (True, packet, s') \<and>
    readRecoveryData sha (part * PARTSIZE) packet c = (Returned True, c', []) \<and> recovering T n c' \<and>
    (\<forall>block. block * EMBLOCKSIZE < part_size n (part * PARTSIZE) \<longrightarrow>
      (let pos = part * PARTSIZE + block * EMBLOCKSIZE;
           sz = min EMBLOCKSIZE (part_size n (part * PARTSIZE) - block * EMBLOCKSIZE)
       in block_hash (m_hashTree c') pos sz = block_hash T pos sz \<and> block_hash T pos sz \<noteq> None))"
proof -
  let ?start = "part * PARTSIZE" and ?ps = "part_size n (part * PARTSIZE)"
  have n64: "n < 2 ^ 64" using assms(4) by (simp add: MAX_EMULE_FILE_SIZE_def)
  obtain p where p: "route n True ?start ?ps = Some p" "length p \<le> 15"
    using route_part [OF depth_max [OF assms(4)] assms(5) n64] by blast
  define u where "u = (n > OLD_MAX_EMULE_FILE_SIZE)"
  define H where "H = hashes_expected (Suc (length p)) ?ps"
  let ?body = "concat (map (enc u 1) (part_entries T p))"
  define packet where "packet = (if u then writeUInt16 0 else []) @ writeUInt16 H @ ?body @ (if u then [] else writeUInt16 0)"
  note pr = packet_read [OF assms(1-5,10,6) refl p(1) H_def u_def]
  have f: "findHash 0 T ?start ?ps = (T, Some p, Suc (length p))"
    using findHash_complete [OF assms(1,2) p(1) n64, of 0] p(2) by simp
  have dT: "m_dataSize T = n" using shaped_sel [OF assms(2)] complete_valid [OF assms(1)] by simp
  have one: "next_ident 0 True = 1" by (simp add: next_ident_def)
  have cr: "createPartRecoveryData T ?start ?ps 0 u = (True, ?body)"
    using create_route [OF assms(1,2) p(1) n64, of 0 u] by (simp only: one)
  have u: "isLargeFile (set_tree T s) = u" by (simp add: isLargeFile_def set_tree_def dT u_def)
  have "createRecoveryData sha k ?start False s = (True, packet, freeHashSet (set_tree T (set_tree T s)))"
  proof -
    have tree: "m_hashTree (set_tree T s) = T" by (simp add: set_tree_def)
    have len: "length ?body = unat H * (kAICHHashSize + (if u then 4 else 2))" using pr by blast
    have st: "\<not> m_status s \<noteq> HashSetComplete" "\<not> n \<le> EMBLOCKSIZE" using assms(3,7) by simp_all
    show ?thesis
      unfolding createRecoveryData_def Let_def assms(8,9) if_not_P [OF st(1)] if_not_P [OF st(2)] if_False prod.case
      unfolding bool.case tree dT f prod.case u cr H_def [symmetric] len by (simp add: packet_def)
  qed
  moreover obtain c' where "readRecoveryData sha ?start packet c = (Returned True, c', [])" "recovering T n c'"
    "\<forall>block. block * EMBLOCKSIZE < ?ps \<longrightarrow>
        block_hash (m_hashTree c') (?start + block * EMBLOCKSIZE) (min EMBLOCKSIZE (?ps - block * EMBLOCKSIZE)) =
        block_hash T (?start + block * EMBLOCKSIZE) (min EMBLOCKSIZE (?ps - block * EMBLOCKSIZE)) \<and>
        block_hash T (?start + block * EMBLOCKSIZE) (min EMBLOCKSIZE (?ps - block * EMBLOCKSIZE)) \<noteq> None"
    using pr unfolding packet_def by blast
  ultimately show ?thesis unfolding Let_def by blast
qed

theorem recovery_roundtrip_witness:
  "let T = Node 184321 True False True (replicate 20 7)
         (Node 184320 True False True (replicate 20 1) Null Null) (Node 1 False False True (replicate 20 2) Null Null);
       s = \<lparr>m_hashTree = T, m_status = HashSetComplete, m_untrustedHashes = []\<rparr>;
       s' = \<lparr>m_hashTree = drop_children T, m_status = HashSetComplete, m_untrustedHashes = []\<rparr>;
       c = \<lparr>m_hashTree = drop_children T, m_status = Trusted, m_untrustedHashes = []\<rparr>;
       k = snd (snd (saveHashSet s \<lparr>k2_file = Some [], s_storedHashes = Map.empty, s_savedThisSession = {}\<rparr>));
       sha = (\<lambda>_. replicate 20 7)
   in \<exists>packet s'' c'. createRecoveryData sha k (0 * PARTSIZE) False s' = (True, packet, s'') \<and>
    readRecoveryData sha (0 * PARTSIZE) packet c = (Returned True, c', []) \<and> recovering T 184321 c'"
proof -
  define T where "T = Node 184321 True False True (replicate 20 7)
         (Node 184320 True False True (replicate 20 1) Null Null) (Node 1 False False True (replicate 20 (2 :: u8)) Null Null)"
  define s where "s = \<lparr>m_hashTree = T, m_status = HashSetComplete, m_untrustedHashes = []\<rparr>"
  define s' where "s' = \<lparr>m_hashTree = drop_children T, m_status = HashSetComplete, m_untrustedHashes = []\<rparr>"
  define c where "c = \<lparr>m_hashTree = drop_children T, m_status = Trusted, m_untrustedHashes = []\<rparr>"
  define k0 where "k0 = \<lparr>k2_file = Some [], s_storedHashes = Map.empty, s_savedThisSession = {}\<rparr>"
  define sha :: "u8 list \<Rightarrow> aich_hash" where "sha = (\<lambda>_. replicate 20 7)"
  have n: "nLeft 184321 True EMBLOCKSIZE = 184320" by (simp add: nLeft_def nBlocks_def EMBLOCKSIZE_def)
  have sh: "shaped 184321 True T"
    using n by (simp add: T_def getBaseSize_def PARTSIZE_def kAICHHashSize_def) (simp add: EMBLOCKSIZE_def)
  have sh0: "shaped 184321 True (drop_children T)"
    using sh by (simp add: T_def)
  have comp: "complete sha T" by (simp add: T_def sha_def getBaseSize_def EMBLOCKSIZE_def)
  have len: "\<forall>x. length (sha x) = kAICHHashSize" by (simp add: sha_def kAICHHashSize_def)
  obtain s2 k where save: "saveHashSet s k0 = (True, s2, k)" and load: "loadHashSet sha k s' = (True, set_tree T s')"
    using saved_set_load [OF sh comp, of s k0 "[]" "drop_children T" s'] sh0
    by (auto simp: s_def s'_def k0_def T_def)
  have rec: "recovering T 184321 c"
    using sh0 by (simp add: recovering_def c_def) (simp add: T_def)
  have "\<exists>packet s'' c'. createRecoveryData sha k (0 * PARTSIZE) False s' = (True, packet, s'') \<and>
    readRecoveryData sha (0 * PARTSIZE) packet c = (Returned True, c', []) \<and> recovering T 184321 c' \<and>
    (\<forall>block. block * EMBLOCKSIZE < part_size 184321 (0 * PARTSIZE) \<longrightarrow>
      (let pos = 0 * PARTSIZE + block * EMBLOCKSIZE;
           sz = min EMBLOCKSIZE (part_size 184321 (0 * PARTSIZE) - block * EMBLOCKSIZE)
       in block_hash (m_hashTree c') pos sz = block_hash T pos sz \<and> block_hash T pos sz \<noteq> None))"
    by (rule recovery_roundtrip [OF comp sh _ _ _ len _ _ load rec])
      (simp_all add: s'_def T_def EMBLOCKSIZE_def MAX_EMULE_FILE_SIZE_def)
  then show ?thesis
    unfolding Let_def T_def [symmetric] s_def [symmetric] s'_def [symmetric] c_def [symmetric] k0_def [symmetric]
      sha_def [symmetric] save snd_conv by blast
qed

section \<open>Counts of zero plant hashes\<close>

text \<open>A packet that announces no hashes but carries them is refused, yet its hashes stay in the
  tree unverified, and the part then counts as available with the hashes the packet chose.\<close>

theorem refused_packet_plants_hashes:
  "let s = \<lparr>m_hashTree = Node 184321 True False True (replicate 20 7) Null Null, m_status = Trusted, m_untrustedHashes = []\<rparr>;
       forged = replicate 20 66;
       packet = writeUInt16 0 @ writeUInt16 0 @ enc True 1 ([True], forged) @ enc True 1 ([False], forged);
       sha = (\<lambda>_. replicate 20 9)
   in \<exists>s'. readRecoveryData sha 0 packet s = (Returned False, s', []) \<and>
      \<not> isPartDataAvailable 0 184321 s \<and> isPartDataAvailable 0 184321 s' \<and>
      \<not> fst (verifyHashTree sha False (m_hashTree s')) \<and>
      block_hash (m_hashTree s') 0 184320 = Some forged"
proof -
  define h f :: aich_hash where "h = replicate 20 7" and "f = replicate 20 66"
  define t where "t = Node 184321 True False True h Null Null"
  define T where "T = Node 184321 True False True h (Node 184320 True False True f Null Null) (Node 1 False False True f Null Null)"
  define s where "s = \<lparr>m_hashTree = t, m_status = Trusted, m_untrustedHashes = []\<rparr>"
  define es where "es = [([True], f), ([False], f)]"
  have n: "nLeft 184321 True EMBLOCKSIZE = 184320" by (simp add: nLeft_def nBlocks_def EMBLOCKSIZE_def)
  have hash: "length h = 20" "length f = 20" by (simp_all add: h_def f_def)
  have sh: "shaped 184321 True T" "shaped 184321 True t"
    using n hash by (simp_all add: T_def t_def getBaseSize_def PARTSIZE_def kAICHHashSize_def) (simp_all add: EMBLOCKSIZE_def)
  have comp: "complete (\<lambda>_. h) T" by (simp add: T_def getBaseSize_def EMBLOCKSIZE_def)
  have "read_hashes True (length es) t (concat (map (enc True 1) es) @ []) = (Returned True, graft_all es t, [])"
    by (rule read_entries [OF _ _ _ _ comp sh(1,2), of 21]) (simp_all add: es_def entries_of_def T_def t_def)
  moreover have "graft_all es t = T"
    using n by (simp add: es_def t_def T_def getBaseSize_def make_child_def newTree_def)
      (simp add: setBaseSize_def EMBLOCKSIZE_def PARTSIZE_def)
  moreover have "length es = 2" "concat (map (enc True 1) es) @ [] = enc True 1 ([True], f) @ enc True 1 ([False], f)"
    by (simp_all add: es_def)
  ultimately have rd: "read_hashes True 2 t (enc True 1 ([True], f) @ enc True 1 ([False], f)) = (Returned True, T, [])"
    by (simp only:)
  have len: "length (enc True 1 ([d], f)) = 24" for d using hash by (simp add: enc_def write_ident_def)
  have ps: "part_size 184321 0 = 184321" by (simp add: part_size_def sub64_def PARTSIZE_def)
  have fh: "findHash 0 t 0 184321 = (t, Some [], 1)" by (simp add: t_def findHash.simps add64_def)
  have H: "hashes_expected 1 184321 = 2" by (simp add: hashes_expected_def nBlocks_def EMBLOCKSIZE_def)
  have packet: "read_packet sha 0 184321 2 t (writeUInt16 0 @ writeUInt16 0 @ enc True 1 ([True], f) @ enc True 1 ([False], f)) =
      (Returned False, T, [])" for sha
    using rd len by (simp add: read_packet_def hashes_read_def finish_recovery_def kAICHHashSize_def)
  have read: "readRecoveryData sha 0 (writeUInt16 0 @ writeUInt16 0 @ enc True 1 ([True], f) @ enc True 1 ([False], f)) s =
      (Returned False, set_tree T s, [])" for sha
    using fh H packet by (simp add: readRecoveryData_def s_def ps) (simp add: t_def ps [simplified t_def] del: One_nat_def)
  have blocks: "block_starts 184321 = [0, 184320]" by (simp add: block_starts_def nBlocks_def EMBLOCKSIZE_def upt_rec)
  have fe: "findExistingHash 0 T 0 184320 = Some (Node 184320 True False True f Null Null)"
    "findExistingHash 0 T 184320 1 = Some (Node 1 False False True f Null Null)"
    "findExistingHash 0 t 0 184320 = None"
    using n by (simp_all add: T_def t_def getBaseSize_def add64_def valid_def) (simp_all add: EMBLOCKSIZE_def)
  have avail: "isPartDataAvailable 0 184321 (set_tree T s)" "\<not> isPartDataAvailable 0 184321 s"
    using fe by (simp_all add: isPartDataAvailable_def ps blocks block_known_def add64_def set_tree_def s_def EMBLOCKSIZE_def)
  have bad: "\<not> fst (verifyHashTree (\<lambda>_. replicate 20 9) False T)"
    by (simp add: T_def verifyHashTree.simps fill_child_def valid_def h_def)
  show ?thesis
    unfolding Let_def h_def [symmetric] f_def [symmetric] t_def [symmetric] s_def [symmetric]
    using read [of "\<lambda>_. replicate 20 9"] avail bad fe by (auto simp: block_hash_def set_tree_def)
qed

end
