(* ===== verification/Ip_Filter.thy ===== *)
theory Ip_Filter
  imports Net_Address "HOL-Library.Product_Lexorder" "HOL-Library.List_Lexorder"
begin

text \<open>
  The IP filter (src/core/ipfilter/IPFilter.cpp): the tables of blocked ranges, their
  normalisation by a boundary sweep shared by both address families, the lookup, and the
  changes.  The overloaded key helpers are a record of operations.  std::sort leaves entries
  equal in start, end and level in any order; here they keep theirs.  The pointers to the last
  hit are the indices of the entries they point to.  Reading and writing list files is left out.
\<close>

definition kDefaultFilterLevel :: u32 where "kDefaultFilterLevel = 100"

record 'k range_entry =
  re_start :: 'k
  re_end :: 'k
  re_level :: u32
  re_hits :: u32
  re_desc :: string

record 'k key_ops =
  keyNext :: "'k \<Rightarrow> 'k"
  keyPrev :: "'k \<Rightarrow> 'k"
  keyIsMax :: "'k \<Rightarrow> bool"

definition v4_ops :: "u32 key_ops" where
  "v4_ops = \<lparr>keyNext = (\<lambda>k. k + 1), keyPrev = (\<lambda>k. k - 1), keyIsMax = (\<lambda>k. k = 0xFFFFFFFF)\<rparr>"

text \<open>Keys of 16 bytes, counted from the last byte.\<close>

fun next_bytes :: "u8 list \<Rightarrow> u8 list" where
  "next_bytes [] = []"
| "next_bytes (b # bs) = (if b + 1 \<noteq> 0 then (b + 1) # bs else (b + 1) # next_bytes bs)"

fun prev_bytes :: "u8 list \<Rightarrow> u8 list" where
  "prev_bytes [] = []"
| "prev_bytes (b # bs) = (if b \<noteq> 0 then (b - 1) # bs else (b - 1) # prev_bytes bs)"

definition v6_ops :: "u8 list key_ops" where
  "v6_ops = \<lparr>keyNext = (\<lambda>k. rev (next_bytes (rev k))), keyPrev = (\<lambda>k. rev (prev_bytes (rev k))),
     keyIsMax = list_all (\<lambda>b. b = 0xFF)\<rparr>"

section \<open>The sweep\<close>

definition cut_points :: "'k::linorder key_ops \<Rightarrow> 'k range_entry list \<Rightarrow> 'k list" where
  "cut_points ops es =
     remdups_adj (sort (concat (map (\<lambda>e. re_start e # (if keyIsMax ops (re_end e) then [] else [keyNext ops (re_end e)])) es)))"

text \<open>The queue of covering ranges, the strictest first.\<close>

function push_starts :: "'k::linorder range_entry list \<Rightarrow> 'k \<Rightarrow> nat list \<Rightarrow> nat \<Rightarrow> nat list \<times> nat" where
  "push_starts es start_key active next =
     (if next < length es \<and> re_start (es ! next) = start_key
      then push_starts es start_key (insort_key (\<lambda>i. (re_level (es ! i), i)) next active) (next + 1)
      else (active, next))"
  by pat_completeness auto
termination
  by (relation "measure (\<lambda>(es, k, a, n). length es - n)") auto

declare push_starts.simps [simp del]

fun sweep :: "'k::linorder key_ops \<Rightarrow> 'k range_entry list \<Rightarrow> 'k list \<Rightarrow> nat list \<Rightarrow> nat \<Rightarrow> 'k range_entry list \<Rightarrow> 'k range_entry list" where
  "sweep ops es [] active next merged = merged"
| "sweep ops es (c # cs) active next merged =
     (case push_starts es c active next of (active1, next1) \<Rightarrow>
        let active2 = dropWhile (\<lambda>i. re_end (es ! i) < c) active1
        in if active2 = [] then sweep ops es cs active2 next1 merged
           else let top = es ! hd active2;
                    to_key = (case cs of [] \<Rightarrow> re_end top | c' # _ \<Rightarrow> keyPrev ops c')
           in if merged \<noteq> [] \<and> re_level (last merged) = re_level top \<and> \<not> keyIsMax ops (re_end (last merged))
                 \<and> keyNext ops (re_end (last merged)) = c
              then sweep ops es cs active2 next1 (butlast merged @ [(last merged)\<lparr>re_end := to_key\<rparr>])
              else sweep ops es cs active2 next1
                (merged @ [\<lparr>re_start = c, re_end = to_key, re_level = re_level top,
                   re_hits = (if re_start top = c \<and> re_end top = to_key then re_hits top else 0),
                   re_desc = re_desc top\<rparr>]))"

definition sortAndMergeRanges :: "'k::linorder key_ops \<Rightarrow> 'k range_entry list \<Rightarrow> bool \<Rightarrow> 'k range_entry list \<times> bool" where
  "sortAndMergeRanges ops es0 modified =
     (if length es0 < 2 then (es0, modified)
      else let es = sort_key (\<lambda>e. (re_start e, re_end e, re_level e)) (filter (\<lambda>e. \<not> re_end e < re_start e) es0);
               merged = sweep ops es (cut_points ops es) [] 0 [];
               same = (map (\<lambda>e. (re_start e, re_end e, re_level e)) merged = map (\<lambda>e. (re_start e, re_end e, re_level e)) es)
           in (merged, modified \<or> \<not> same))"

section \<open>The filter\<close>

record ip_filter =
  f_entries :: "u32 range_entry list"
  f_entries6 :: "u8 list range_entry list"
  f_lastHit :: "nat option"
  f_lastHit6 :: "nat option"
  f_lastHitAddress :: address
  f_modified :: bool

definition empty_filter :: ip_filter where
  "empty_filter = \<lparr>f_entries = [], f_entries6 = [], f_lastHit = None, f_lastHit6 = None,
     f_lastHitAddress = NoAddress, f_modified = False\<rparr>"

definition sortAndMerge :: "ip_filter \<Rightarrow> ip_filter" where
  "sortAndMerge f =
     (case sortAndMergeRanges v4_ops (f_entries f) (f_modified f) of (es, m) \<Rightarrow>
      case sortAndMergeRanges v6_ops (f_entries6 f) m of (es6, m6) \<Rightarrow>
        f\<lparr>f_entries := es, f_entries6 := es6, f_modified := m6, f_lastHit := None, f_lastHit6 := None\<rparr>)"

text \<open>The entry before the first one that starts after the key.\<close>

definition candidate :: "'k::linorder range_entry list \<Rightarrow> 'k \<Rightarrow> nat option" where
  "candidate es key =
     (case length (takeWhile (\<lambda>e. \<not> key < re_start e) es) of 0 \<Rightarrow> None | Suc i \<Rightarrow> Some i)"

definition hit :: "'k::linorder range_entry list \<Rightarrow> 'k \<Rightarrow> u32 \<Rightarrow> nat option" where
  "hit es key filterLevel =
     (case candidate es key of
        None \<Rightarrow> None
      | Some i \<Rightarrow> if key \<ge> re_start (es ! i) \<and> key \<le> re_end (es ! i) \<and> re_level (es ! i) < filterLevel
                 then Some i else None)"

definition count_hit :: "nat \<Rightarrow> 'k range_entry list \<Rightarrow> 'k range_entry list" where
  "count_hit i es = es[i := (es ! i)\<lparr>re_hits := re_hits (es ! i) + 1\<rparr>]"

definition isFiltered32 :: "u32 \<Rightarrow> u32 \<Rightarrow> ip_filter \<Rightarrow> bool \<times> ip_filter" where
  "isFiltered32 ip filterLevel f =
     (if f_entries f = [] \<or> ip = 0 then (False, f)
      else case hit (f_entries f) (ntohl ip) filterLevel of
          None \<Rightarrow> (False, f)
        | Some i \<Rightarrow> (True, f\<lparr>f_entries := count_hit i (f_entries f), f_lastHit := Some i, f_lastHit6 := None,
                        f_lastHitAddress := fromNetworkOrder ip\<rparr>))"

definition isFilteredV6 :: "address \<Rightarrow> u8 list \<Rightarrow> u32 \<Rightarrow> ip_filter \<Rightarrow> bool \<times> ip_filter" where
  "isFilteredV6 addr key filterLevel f =
     (if f_entries6 f = [] then (False, f)
      else case hit (f_entries6 f) key filterLevel of
          None \<Rightarrow> (False, f)
        | Some i \<Rightarrow> (True, f\<lparr>f_entries6 := count_hit i (f_entries6 f), f_lastHit6 := Some i, f_lastHit := None,
                        f_lastHitAddress := addr\<rparr>))"

definition isFiltered :: "address \<Rightarrow> u32 \<Rightarrow> ip_filter \<Rightarrow> bool \<times> ip_filter" where
  "isFiltered addr filterLevel f =
     (case addr of
        IPv4 _ \<Rightarrow> isFiltered32 (toNetworkUint32 addr) filterLevel f
      | IPv6 bytes \<Rightarrow> isFilteredV6 addr bytes filterLevel f
      | NoAddress \<Rightarrow> (False, f))"

definition addIPRange :: "u32 \<Rightarrow> u32 \<Rightarrow> u32 \<Rightarrow> string \<Rightarrow> ip_filter \<Rightarrow> ip_filter" where
  "addIPRange start stop level desc f =
     f\<lparr>f_entries := f_entries f @ [\<lparr>re_start = start, re_end = stop, re_level = level, re_hits = 0, re_desc = desc\<rparr>],
       f_modified := True\<rparr>"

definition addIPRange6 :: "u8 list \<Rightarrow> u8 list \<Rightarrow> u32 \<Rightarrow> string \<Rightarrow> ip_filter \<Rightarrow> ip_filter" where
  "addIPRange6 start stop level desc f =
     (if stop < start then f
      else f\<lparr>f_entries6 := f_entries6 f @ [\<lparr>re_start = start, re_end = stop, re_level = level, re_hits = 0, re_desc = desc\<rparr>],
             f_modified := True\<rparr>)"

definition removeFilter :: "int \<Rightarrow> ip_filter \<Rightarrow> bool \<times> ip_filter" where
  "removeFilter index f =
     (if index < 0 \<or> index \<ge> int (length (f_entries f)) then (False, f)
      else let i = nat index
           in (True, f\<lparr>f_entries := take i (f_entries f) @ drop (i + 1) (f_entries f), f_modified := True,
                f_lastHit := (if f_lastHit f = Some i then None else f_lastHit f)\<rparr>))"

definition removeAllFilters :: "ip_filter \<Rightarrow> ip_filter" where
  "removeAllFilters f = f\<lparr>f_entries := [], f_entries6 := [], f_lastHit := None, f_lastHit6 := None, f_modified := False\<rparr>"

definition removeRanges :: "u32 list \<Rightarrow> u8 list list \<Rightarrow> ip_filter \<Rightarrow> int \<times> ip_filter" where
  "removeRanges starts4 starts6 f =
     (let es = filter (\<lambda>e. re_start e \<notin> set starts4) (f_entries f);
          es6 = filter (\<lambda>e. re_start e \<notin> set starts6) (f_entries6 f);
          removed = int (length (f_entries f) + length (f_entries6 f)) - int (length es + length es6);
          f' = f\<lparr>f_entries := es, f_entries6 := es6\<rparr>
      in (removed, if removed > 0 then f'\<lparr>f_lastHit := None, f_lastHit6 := None, f_modified := True\<rparr> else f'))"

text \<open>None where the pointer leads past the entries.\<close>

definition lastHitDescription :: "ip_filter \<Rightarrow> string option" where
  "lastHitDescription f =
     (case f_lastHit f of
        Some i \<Rightarrow> if i < length (f_entries f) then Some (re_desc (f_entries f ! i)) else None
      | None \<Rightarrow>
          (case f_lastHit6 f of
             Some i \<Rightarrow> if i < length (f_entries6 f) then Some (re_desc (f_entries6 f ! i)) else None
           | None \<Rightarrow> Some ''Not available''))"

section \<open>Prefixes\<close>

definition prefixFloor :: "u8 list \<Rightarrow> nat \<Rightarrow> u8 list" where
  "prefixFloor addr prefixLen =
     foldl (\<lambda>a b. a[b div 8 := a ! (b div 8) AND NOT (drop_bit (b mod 8) 0x80)]) addr [prefixLen..<128]"

definition prefixCeiling :: "u8 list \<Rightarrow> nat \<Rightarrow> u8 list" where
  "prefixCeiling addr prefixLen =
     foldl (\<lambda>a b. a[b div 8 := a ! (b div 8) OR drop_bit (b mod 8) 0x80]) addr [prefixLen..<128]"


section \<open>What the sweep computes\<close>

definition covers :: "'k::linorder range_entry \<Rightarrow> 'k \<Rightarrow> bool" where
  "covers e k = (re_start e \<le> k \<and> k \<le> re_end e)"

definition blocked :: "'k::linorder range_entry list \<Rightarrow> 'k \<Rightarrow> u32 \<Rightarrow> bool" where
  "blocked es k level = (\<exists>e\<in>set es. covers e k \<and> re_level e < level)"

definition segments :: "'k::linorder range_entry list \<Rightarrow> bool" where
  "segments es = (sorted_wrt (\<lambda>a b. re_end a < re_start b) es \<and> (\<forall>e\<in>set es. re_start e \<le> re_end e))"

text \<open>The queue of covering ranges: indices below the next one, strictest first, none missing that still covers the key.\<close>

definition queue_ok :: "'k::linorder range_entry list \<Rightarrow> nat list \<Rightarrow> nat \<Rightarrow> bool" where
  "queue_ok es active next = (next \<le> length es \<and> sorted (map (\<lambda>i. (re_level (es ! i), i)) active) \<and> set active \<subseteq> {..<next})"

lemma push_starts_adds:
  "push_starts es c active next = (a, n) \<Longrightarrow> queue_ok es active next \<Longrightarrow>
   queue_ok es a n \<and> next \<le> n \<and> set a = set active \<union> {next..<n} \<and>
   (\<forall>i\<in>{next..<n}. re_start (es ! i) = c) \<and> (n < length es \<longrightarrow> re_start (es ! n) \<noteq> c)"
proof (induction es c active "next" arbitrary: a n rule: push_starts.induct)
  case (1 es c active "next")
  show ?case
  proof (cases "next < length es \<and> re_start (es ! next) = c")
    case True
    let ?a = "insort_key (\<lambda>i. (re_level (es ! i), i)) next active"
    have "push_starts es c ?a (next + 1) = (a, n)" using 1(2) True by (simp add: push_starts.simps[of es c active "next"])
    moreover have "queue_ok es ?a (next + 1)"
      using 1(3) True by (auto simp: queue_ok_def sorted_insort_key set_insort_key)
    ultimately have *: "queue_ok es a n \<and> next + 1 \<le> n \<and> set a = set ?a \<union> {next + 1..<n} \<and>
       (\<forall>i\<in>{next + 1..<n}. re_start (es ! i) = c) \<and> (n < length es \<longrightarrow> re_start (es ! n) \<noteq> c)"
      using 1(1) True by blast
    have "{next..<n} = insert next {next + 1..<n}" using * by auto
    then show ?thesis using * True by (auto simp: set_insort_key)
  next
    case False
    then show ?thesis using 1(2,3) by (auto simp: push_starts.simps[of es c active "next"])
  qed
qed

lemma dropWhile_first:
  "dropWhile P xs \<noteq> [] \<Longrightarrow> \<not> P (hd (dropWhile P xs))"
  by (rule hd_dropWhile)

lemma dropWhile_keeps: "x \<in> set xs \<Longrightarrow> \<not> P x \<Longrightarrow> x \<in> set (dropWhile P xs)"
  by (induction xs) auto

lemma queue_drop: "queue_ok es active next \<Longrightarrow> queue_ok es (dropWhile P active) next"
  by (auto simp: queue_ok_def dropWhile_eq_drop drop_map[symmetric] sorted_wrt_drop dest: in_set_dropD)

lemma queue_head:
  assumes "queue_ok es active next" "i \<in> set active"
  shows "re_level (es ! hd active) \<le> re_level (es ! i)"
  using assms by (cases active) (auto simp: queue_ok_def)

end
