(* ===== verification/Ip_Sweep.thy ===== *)
theory Ip_Sweep
  imports Ip_Filter
begin

text \<open>
  The boundary sweep of the IP filter is right for every key space whose keys are the numbers
  from 0 to a largest one: IPv4 keys and the 16-byte IPv6 keys.
\<close>

lemma strict_remdups_adj: "sorted xs \<Longrightarrow> sorted_wrt (<) (remdups_adj xs)"
  by (induction xs rule: remdups_adj.induct) (auto simp: order_less_le)

locale range_key =
  fixes ops :: "'k::linorder key_ops" and ok :: "'k \<Rightarrow> bool" and val :: "'k \<Rightarrow> nat" and last_val :: nat
  assumes less_val: "ok a \<Longrightarrow> ok b \<Longrightarrow> a < b \<longleftrightarrow> val a < val b"
    and val_le: "ok a \<Longrightarrow> val a \<le> last_val"
    and max_iff: "ok a \<Longrightarrow> keyIsMax ops a \<longleftrightarrow> val a = last_val"
    and next_ok: "ok a \<Longrightarrow> val a < last_val \<Longrightarrow> ok (keyNext ops a) \<and> val (keyNext ops a) = val a + 1"
    and prev_ok: "ok a \<Longrightarrow> 0 < val a \<Longrightarrow> ok (keyPrev ops a) \<and> val (keyPrev ops a) = val a - 1"
begin

lemma le_val: "ok a \<Longrightarrow> ok b \<Longrightarrow> a \<le> b \<longleftrightarrow> val a \<le> val b"
  by (simp add: less_val linorder_not_less[symmetric])

lemma eq_val: "ok a \<Longrightarrow> ok b \<Longrightarrow> a = b \<longleftrightarrow> val a = val b"
  by (cases a b rule: linorder_cases) (auto dest: less_val)

abbreviation "fits e \<equiv> ok (re_start e) \<and> ok (re_end e) \<and> val (re_start e) \<le> val (re_end e)"
abbreviation "S e \<equiv> val (re_start e)"
abbreviation "E e \<equiv> val (re_end e)"
abbreviation "lowest cs \<equiv> (case cs of [] \<Rightarrow> last_val + 1 | c # _ \<Rightarrow> val c)"

text \<open>The cuts from here on are the range boundaries that lie at or after the first of them.\<close>

definition cuts_ok :: "'k range_entry list \<Rightarrow> 'k list \<Rightarrow> bool" where
  "cuts_ok es cs = ((\<forall>c\<in>set cs. ok c) \<and> sorted_wrt (<) (map val cs) \<and>
     (\<forall>e\<in>set es. (lowest cs \<le> S e \<longrightarrow> S e \<in> val ` set cs) \<and>
        (lowest cs \<le> E e + 1 \<longrightarrow> E e < last_val \<longrightarrow> E e + 1 \<in> val ` set cs)))"

definition done_ok :: "'k range_entry list \<Rightarrow> 'k range_entry list \<Rightarrow> nat \<Rightarrow> bool" where
  "done_ok es ms lo = ((\<forall>m\<in>set ms. fits m \<and> E m < lo) \<and> sorted_wrt (\<lambda>a b. E a < S b) ms \<and>
     (\<forall>v<lo. \<forall>l. (\<exists>m\<in>set ms. S m \<le> v \<and> v \<le> E m \<and> re_level m < l) \<longleftrightarrow>
                 (\<exists>e\<in>set es. S e \<le> v \<and> v \<le> E e \<and> re_level e < l)))"

definition sweep_ok :: "'k range_entry list \<Rightarrow> 'k list \<Rightarrow> nat list \<Rightarrow> nat \<Rightarrow> 'k range_entry list \<Rightarrow> bool" where
  "sweep_ok es cs active next ms = (cuts_ok es cs \<and> queue_ok es active next \<and>
     (\<forall>i<length es. i < next \<longleftrightarrow> S (es ! i) < lowest cs) \<and>
     (\<forall>i<next. lowest cs \<le> E (es ! i) \<longrightarrow> i \<in> set active) \<and> done_ok es ms (lowest cs))"

lemma lowest_tail:
  assumes "cuts_ok es (c # cs)"
  shows "val c < lowest cs" "lowest cs \<le> last_val + 1" "cuts_ok es cs"
proof -
  show *: "val c < lowest cs"
    using assms val_le[of c] by (auto simp: cuts_ok_def split: list.splits)
  show "lowest cs \<le> last_val + 1"
    using assms by (auto simp: cuts_ok_def le_Suc_eq dest!: val_le split: list.splits)
  show "cuts_ok es cs"
    using assms * by (auto simp: cuts_ok_def)
qed

lemma no_boundary_between:
  assumes "cuts_ok es (c # cs)" "x \<in> val ` set (c # cs)" "val c < x"
  shows "lowest cs \<le> x"
  using assms by (cases cs) (auto simp: cuts_ok_def)

lemma constant_between:
  assumes "cuts_ok es (c # cs)" "e \<in> set es" "fits e" "val c \<le> v" "v < lowest cs"
  shows "S e \<le> v \<longleftrightarrow> S e \<le> val c" "v \<le> E e \<longleftrightarrow> val c \<le> E e"
proof -
  note low = lowest_tail[OF assms(1)]
  have s: "val c \<le> S e \<Longrightarrow> S e \<in> val ` set (c # cs)"
    and t: "val c \<le> E e + 1 \<Longrightarrow> E e < last_val \<Longrightarrow> E e + 1 \<in> val ` set (c # cs)"
    using assms(1,2) by (simp_all add: cuts_ok_def)
  show "S e \<le> v \<longleftrightarrow> S e \<le> val c"
    using no_boundary_between[OF assms(1) s] assms(4,5) by linarith
  show "v \<le> E e \<longleftrightarrow> val c \<le> E e"
    using no_boundary_between[OF assms(1) t] assms(4,5) low by linarith
qed

lemma done_append:
  assumes "done_ok es ms lo" "lo \<le> hi"
    and "fits m" "E m < hi" "lo \<le> S m"
    and "\<And>v l. lo \<le> v \<Longrightarrow> v < hi \<Longrightarrow> (S m \<le> v \<and> v \<le> E m \<and> re_level m < l) \<longleftrightarrow>
                 (\<exists>e\<in>set es. S e \<le> v \<and> v \<le> E e \<and> re_level e < l)"
  shows "done_ok es (ms @ [m]) hi"
proof -
  have low: "\<And>m'. m' \<in> set ms \<Longrightarrow> E m' < lo" using assms(1) by (simp add: done_ok_def)
  have 1: "\<forall>x\<in>set (ms @ [m]). fits x \<and> E x < hi"
    using assms(1-4) by (auto simp: done_ok_def dest: low)
  have 2: "sorted_wrt (\<lambda>a b. E a < S b) (ms @ [m])"
    using assms(1,5) by (auto simp: done_ok_def sorted_wrt_append dest!: low)
  have 3: "(\<exists>x\<in>set (ms @ [m]). S x \<le> v \<and> v \<le> E x \<and> re_level x < l) \<longleftrightarrow>
           (\<exists>e\<in>set es. S e \<le> v \<and> v \<le> E e \<and> re_level e < l)" if v: "v < hi" for v l
  proof (cases "v < lo")
    case True
    then show ?thesis using assms(1,5) by (auto simp: done_ok_def)
  next
    case False
    then show ?thesis using assms(6)[of v l] v by (auto dest!: low)
  qed
  show ?thesis using 1 2 3 unfolding done_ok_def by blast
qed

text \<open>Lengthening the last segment is the same as adding one of its level right behind it.\<close>

lemma done_extend:
  assumes "done_ok es (ms @ [p, m]) hi" "E p + 1 = S m" "re_level p = re_level m"
  shows "done_ok es (ms @ [p\<lparr>re_end := re_end m\<rparr>]) hi"
proof -
  let ?q = "p\<lparr>re_end := re_end m\<rparr>"
  have f: "fits p" "fits m" "E m < hi" and so: "sorted_wrt (\<lambda>a b. E a < S b) (ms @ [p, m])"
    and sp: "\<forall>v<hi. \<forall>l. (\<exists>m\<in>set (ms @ [p, m]). S m \<le> v \<and> v \<le> E m \<and> re_level m < l) \<longleftrightarrow>
                 (\<exists>e\<in>set es. S e \<le> v \<and> v \<le> E e \<and> re_level e < l)"
    and al: "\<forall>m\<in>set ms. fits m \<and> E m < hi"
    using assms(1) by (auto simp: done_ok_def)
  have q: "(S ?q \<le> v \<and> v \<le> E ?q) \<longleftrightarrow> (S p \<le> v \<and> v \<le> E p) \<or> (S m \<le> v \<and> v \<le> E m)" for v
    using f assms(2) by auto
  have "(\<exists>x\<in>set (ms @ [?q]). S x \<le> v \<and> v \<le> E x \<and> re_level x < l) \<longleftrightarrow>
        (\<exists>x\<in>set (ms @ [p, m]). S x \<le> v \<and> v \<le> E x \<and> re_level x < l)" for v l
    using q[of v] assms(3) by auto
  moreover have "sorted_wrt (\<lambda>a b. E a < S b) (ms @ [?q])" using so by (auto simp: sorted_wrt_append)
  moreover have "\<forall>x\<in>set (ms @ [?q]). fits x \<and> E x < hi" using al f assms(2) by auto
  ultimately show ?thesis using sp unfolding done_ok_def by simp
qed

abbreviation "at e v \<equiv> S e \<le> v \<and> v \<le> E e"

text \<open>After the starts at a cut are pushed and the ended ranges on top dropped, the queue holds every
  range that covers the cut.\<close>

lemma queue_at_cut:
  assumes ok: "sweep_ok es (c # cs) active next ms" and fit: "\<forall>e\<in>set es. fits e" and srt: "sorted (map re_start es)"
    and push: "push_starts es c active next = (a1, n1)"
  defines "a2 \<equiv> dropWhile (\<lambda>i. re_end (es ! i) < c) a1"
  shows "queue_ok es a2 n1" "\<And>i. i < length es \<Longrightarrow> i < n1 \<longleftrightarrow> S (es ! i) \<le> val c"
    "\<And>i. i < n1 \<Longrightarrow> val c \<le> E (es ! i) \<Longrightarrow> i \<in> set a2"
    "a2 \<noteq> [] \<Longrightarrow> hd a2 < length es \<and> at (es ! hd a2) (val c)"
proof -
  have okc: "ok c" and q: "queue_ok es active next"
    and nx: "\<And>i. i < length es \<Longrightarrow> i < next \<longleftrightarrow> S (es ! i) < val c"
    and act: "\<And>i. i < next \<Longrightarrow> val c \<le> E (es ! i) \<Longrightarrow> i \<in> set active"
    using ok by (auto simp: sweep_ok_def cuts_ok_def)
  have p: "queue_ok es a1 n1" "next \<le> n1" "set a1 = set active \<union> {next..<n1}"
    "\<And>i. next \<le> i \<Longrightarrow> i < n1 \<Longrightarrow> re_start (es ! i) = c" "n1 < length es \<Longrightarrow> re_start (es ! n1) \<noteq> c"
    using push_starts_adds[OF push q] by auto
  have n1: "n1 \<le> length es" using p(1) by (simp add: queue_ok_def)
  have mono: "i \<le> j \<Longrightarrow> j < length es \<Longrightarrow> S (es ! i) \<le> S (es ! j)" for i j
    using sorted_nth_mono[OF srt, of i j] fit by (simp add: le_val)
  show q2: "queue_ok es a2 n1" unfolding a2_def by (rule queue_drop[OF p(1)])
  show started: "i < n1 \<longleftrightarrow> S (es ! i) \<le> val c" if i: "i < length es" for i
  proof
    assume "i < n1"
    then show "S (es ! i) \<le> val c" using nx[OF i] p(4)[of i] by (cases "i < next") auto
  next
    assume le: "S (es ! i) \<le> val c"
    show "i < n1"
    proof (rule ccontr)
      assume "\<not> i < n1"
      then have n: "n1 < length es" "n1 \<le> i" using i by auto
      then have "S (es ! n1) \<noteq> val c" using p(5) okc fit by (simp add: eq_val)
      moreover have "val c \<le> S (es ! n1)" using nx[OF n(1)] p(2) by auto
      ultimately show False using mono[OF n(2) i] le by linarith
    qed
  qed
  have ended: "i < length es \<Longrightarrow> re_end (es ! i) < c \<longleftrightarrow> E (es ! i) < val c" for i
    using fit okc by (simp add: less_val)
  show "i \<in> set a2" if i: "i < n1" "val c \<le> E (es ! i)" for i
  proof -
    have "i \<in> set a1" using p(3) act[OF _ i(2)] i(1) by (cases "i < next") auto
    then show ?thesis unfolding a2_def using ended[of i] i n1 by (intro dropWhile_keeps) auto
  qed
  show "hd a2 < length es \<and> at (es ! hd a2) (val c)" if ne: "a2 \<noteq> []"
  proof -
    have h: "hd a2 < n1" using q2 ne by (cases a2) (auto simp: queue_ok_def)
    then have l: "hd a2 < length es" using n1 by linarith
    moreover have "S (es ! hd a2) \<le> val c" using started[OF l] h by simp
    moreover have "val c \<le> E (es ! hd a2)"
      using dropWhile_first[of "\<lambda>i. re_end (es ! i) < c" a1] ne ended[OF l] unfolding a2_def by simp
    ultimately show ?thesis by simp
  qed
qed

text \<open>A piece between two cuts gets the level of the strictest range that covers it.\<close>

definition piece_ok :: "'k range_entry list \<Rightarrow> 'k \<Rightarrow> 'k list \<Rightarrow> 'k range_entry \<Rightarrow> bool" where
  "piece_ok es c cs m = (re_start m = c \<and> ok (re_end m) \<and> E m + 1 = lowest cs \<and>
     (\<exists>e\<in>set es. at e (val c) \<and> re_level e = re_level m) \<and> (\<forall>e\<in>set es. at e (val c) \<longrightarrow> re_level m \<le> re_level e))"

lemma done_piece:
  assumes "done_ok es ms (val c)" "cuts_ok es (c # cs)" "\<forall>e\<in>set es. fits e" "piece_ok es c cs m"
  shows "done_ok es (ms @ [m]) (lowest cs)"
proof (rule done_append[OF assms(1)])
  note low = lowest_tail[OF assms(2)]
  show "val c \<le> lowest cs" using low by simp
  have "ok c" using assms(2) by (simp add: cuts_ok_def)
  then show "fits m" "E m < lowest cs" "val c \<le> S m" using assms(4) low by (auto simp: piece_ok_def)
  fix v l assume v: "val c \<le> v" "v < lowest cs"
  have "at e v \<longleftrightarrow> at e (val c)" if "e \<in> set es" for e
    using constant_between[OF assms(2) that _ v] assms(3) that by simp
  then have "(\<exists>e\<in>set es. at e v \<and> re_level e < l) \<longleftrightarrow> (\<exists>e\<in>set es. at e (val c) \<and> re_level e < l)" by blast
  also have "\<dots> \<longleftrightarrow> re_level m < l"
  proof -
    obtain e where "e \<in> set es" "at e (val c)" "re_level e = re_level m" using assms(4) unfolding piece_ok_def by blast
    moreover have "\<And>e. e \<in> set es \<Longrightarrow> at e (val c) \<Longrightarrow> re_level m \<le> re_level e" using assms(4) unfolding piece_ok_def by blast
    ultimately show ?thesis by (auto intro: le_less_trans)
  qed
  also have "\<dots> \<longleftrightarrow> S m \<le> v \<and> v \<le> E m \<and> re_level m < l" using assms(4) v by (auto simp: piece_ok_def)
  finally show "(S m \<le> v \<and> v \<le> E m \<and> re_level m < l) \<longleftrightarrow> (\<exists>e\<in>set es. S e \<le> v \<and> v \<le> E e \<and> re_level e < l)"
    by (simp add: conj_assoc)
qed

lemma done_gap:
  assumes "done_ok es ms (val c)" "cuts_ok es (c # cs)" "\<forall>e\<in>set es. fits e" "\<forall>e\<in>set es. \<not> at e (val c)"
  shows "done_ok es ms (lowest cs)"
proof -
  note low = lowest_tail[OF assms(2)]
  have low': "\<And>m'. m' \<in> set ms \<Longrightarrow> E m' < val c" using assms(1) by (simp add: done_ok_def)
  have "(\<exists>m\<in>set ms. S m \<le> v \<and> v \<le> E m \<and> re_level m < l) \<longleftrightarrow> (\<exists>e\<in>set es. S e \<le> v \<and> v \<le> E e \<and> re_level e < l)"
    if v: "v < lowest cs" for v l
  proof (cases "v < val c")
    case True
    then show ?thesis using assms(1) by (auto simp: done_ok_def)
  next
    case False
    then have "\<forall>e\<in>set es. \<not> at e v" using constant_between[OF assms(2) _ _ _ v] assms(3,4) by auto
    then show ?thesis using False low' by (meson linorder_not_less order_le_less_trans)
  qed
  then show ?thesis using assms(1) low(1) unfolding done_ok_def by (auto dest: less_trans)
qed

text \<open>The queue's first range gives the piece its level, and the next cut its end.\<close>

lemma top_piece:
  assumes "cuts_ok es (c # cs)" "\<forall>e\<in>set es. fits e" "queue_ok es a2 n1"
    and started: "\<And>i. i < length es \<Longrightarrow> i < n1 \<longleftrightarrow> S (es ! i) \<le> val c"
    and queued: "\<And>i. i < n1 \<Longrightarrow> val c \<le> E (es ! i) \<Longrightarrow> i \<in> set a2"
    and top: "i0 = hd a2" "i0 < length es" "at (es ! i0) (val c)"
    and m: "re_start m = c" "re_end m = (case cs of [] \<Rightarrow> re_end (es ! i0) | c' # _ \<Rightarrow> keyPrev ops c')"
      "re_level m = re_level (es ! i0)"
  shows "piece_ok es c cs m"
proof -
  note low = lowest_tail[OF assms(1)]
  have te: "es ! i0 \<in> set es" using top(2) by simp
  have e: "ok (re_end m) \<and> E m + 1 = lowest cs"
  proof (cases cs)
    case Nil
    then have "\<not> E (es ! i0) < last_val"
      using assms(1) te top(3) by (auto simp: cuts_ok_def)
    then have "E (es ! i0) = last_val" using assms(2) te val_le[of "re_end (es ! i0)"] by auto
    then show ?thesis using m(2) Nil assms(2) te by simp
  next
    case (Cons c' cs')
    then have "ok c'" "0 < val c'" using assms(1) low(1) by (auto simp: cuts_ok_def)
    then show ?thesis using m(2) Cons prev_ok[of c'] by simp
  qed
  have "re_level m \<le> re_level x" if x: "x \<in> set es" "at x (val c)" for x
  proof -
    obtain i where i: "i < length es" "x = es ! i" using x(1) by (auto simp: in_set_conv_nth)
    then have "i \<in> set a2" using started[OF i(1)] queued x(2) by blast
    then show ?thesis using queue_head[OF assms(3)] i(2) m(3) top(1) by simp
  qed
  then show ?thesis using e m te top(3) unfolding piece_ok_def by metis
qed

lemma step_ok:
  assumes ok: "sweep_ok es (c # cs) active next ms" and fit: "\<forall>e\<in>set es. fits e" and srt: "sorted (map re_start es)"
    and push: "push_starts es c active next = (a1, n1)"
    and d: "done_ok es ms' (lowest cs)"
  shows "sweep_ok es cs (dropWhile (\<lambda>i. re_end (es ! i) < c) a1) n1 ms'"
proof -
  note q = queue_at_cut[OF ok fit srt push]
  have cu: "cuts_ok es (c # cs)" using ok by (simp add: sweep_ok_def)
  note low = lowest_tail[OF cu]
  have okc: "ok c" using cu by (simp add: cuts_ok_def)
  have "S (es ! i) \<le> val c \<longleftrightarrow> S (es ! i) < lowest cs" if i: "i < length es" for i
  proof -
    have e: "es ! i \<in> set es" using i by simp
    have "S (es ! i) \<in> val ` set (c # cs)" if "val c < S (es ! i)"
      using cu e that unfolding cuts_ok_def by (metis list.case(2) less_imp_le)
    then show ?thesis using no_boundary_between[OF cu, of "S (es ! i)"] low(1) by linarith
  qed
  then show ?thesis using q(1-3) low d unfolding sweep_ok_def by simp
qed

lemma sweep_cut:
  assumes "push_starts es c active next = (a1, n1)" "a2 = dropWhile (\<lambda>i. re_end (es ! i) < c) a1"
    and "m = \<lparr>re_start = c, re_end = (case cs of [] \<Rightarrow> re_end (es ! hd a2) | c' # _ \<Rightarrow> keyPrev ops c'),
           re_level = re_level (es ! hd a2),
           re_hits = (if re_start (es ! hd a2) = c \<and> re_end (es ! hd a2) = (case cs of [] \<Rightarrow> re_end (es ! hd a2) | c' # _ \<Rightarrow> keyPrev ops c')
                      then re_hits (es ! hd a2) else 0),
           re_desc = re_desc (es ! hd a2)\<rparr>"
  shows "sweep ops es (c # cs) active next ms = sweep ops es cs a2 n1
      (if a2 = [] then ms
       else if ms \<noteq> [] \<and> re_level (last ms) = re_level m \<and> \<not> keyIsMax ops (re_end (last ms)) \<and> keyNext ops (re_end (last ms)) = c
            then butlast ms @ [(last ms)\<lparr>re_end := re_end m\<rparr>] else ms @ [m])"
  unfolding sweep.simps(2) assms(1) prod.case assms(2)[symmetric] Let_def assms(3) by simp

theorem sweep_correct:
  "sweep_ok es cs active next ms \<Longrightarrow> \<forall>e\<in>set es. fits e \<Longrightarrow> sorted (map re_start es) \<Longrightarrow>
   done_ok es (sweep ops es cs active next ms) (last_val + 1)"
proof (induction cs arbitrary: active "next" ms)
  case Nil
  then show ?case by (simp add: sweep_ok_def)
next
  case (Cons c cs)
  note fit = Cons.prems(2) and srt = Cons.prems(3)
  obtain a1 n1 where push: "push_starts es c active next = (a1, n1)" by fastforce
  define a2 where "a2 = dropWhile (\<lambda>i. re_end (es ! i) < c) a1"
  obtain m where m: "m = \<lparr>re_start = c, re_end = (case cs of [] \<Rightarrow> re_end (es ! hd a2) | c' # _ \<Rightarrow> keyPrev ops c'),
           re_level = re_level (es ! hd a2),
           re_hits = (if re_start (es ! hd a2) = c \<and> re_end (es ! hd a2) = (case cs of [] \<Rightarrow> re_end (es ! hd a2) | c' # _ \<Rightarrow> keyPrev ops c')
                      then re_hits (es ! hd a2) else 0),
           re_desc = re_desc (es ! hd a2)\<rparr>" by simp
  note q = queue_at_cut[OF Cons.prems(1) fit srt push, folded a2_def]
  have cu: "cuts_ok es (c # cs)" and d: "done_ok es ms (val c)" using Cons.prems(1) by (auto simp: sweep_ok_def)
  have okc: "ok c" using cu by (simp add: cuts_ok_def)
  let ?ms = "if a2 = [] then ms
       else if ms \<noteq> [] \<and> re_level (last ms) = re_level m \<and> \<not> keyIsMax ops (re_end (last ms)) \<and> keyNext ops (re_end (last ms)) = c
            then butlast ms @ [(last ms)\<lparr>re_end := re_end m\<rparr>] else ms @ [m]"
  have "done_ok es ?ms (lowest cs)"
  proof (cases "a2 = []")
    case True
    have "\<not> at e (val c)" if e: "e \<in> set es" for e
    proof -
      obtain i where i: "i < length es" "e = es ! i" using e by (auto simp: in_set_conv_nth)
      then show ?thesis using q(2)[OF i(1)] q(3)[of i] True by auto
    qed
    then show ?thesis using True done_gap[OF d cu fit] by simp
  next
    case False
    have "piece_ok es c cs m"
      by (rule top_piece[OF cu fit q(1-3) refl]) (use q(4)[OF False] m in simp_all)
    then have dm: "done_ok es (ms @ [m]) (lowest cs)" and sm: "S m = val c" 
      using done_piece[OF d cu fit] by (auto simp: piece_ok_def)
    show ?thesis
    proof (cases "ms \<noteq> [] \<and> re_level (last ms) = re_level m \<and> \<not> keyIsMax ops (re_end (last ms)) \<and> keyNext ops (re_end (last ms)) = c")
      case True
      then have "ok (re_end (last ms))" using d by (auto simp: done_ok_def)
      then have "E (last ms) + 1 = S m"
        using True sm next_ok[of "re_end (last ms)"] max_iff[of "re_end (last ms)"] val_le[of "re_end (last ms)"] by auto
      moreover have "done_ok es (butlast ms @ [last ms, m]) (lowest cs)"
        using dm True by (metis append_Cons append_Nil append_assoc append_butlast_last_id)
      ultimately have "done_ok es (butlast ms @ [(last ms)\<lparr>re_end := re_end m\<rparr>]) (lowest cs)"
        using True by (intro done_extend) auto
      then show ?thesis using True False by simp
    next
      case no: False
      then show ?thesis using dm by (simp only: no False if_False)
    qed
  qed
  then have "sweep_ok es cs a2 n1 ?ms" using step_ok[OF Cons.prems(1) fit srt push, of ?ms] unfolding a2_def by blast
  then show ?case using Cons.IH[OF _ fit srt] sweep_cut[OF push a2_def m, of ms] by simp
qed

lemma cuts_hold:
  assumes "\<forall>e\<in>set es. fits e"
  shows "set (cut_points ops es) = (\<Union>e\<in>set es. insert (re_start e) (if keyIsMax ops (re_end e) then {} else {keyNext ops (re_end e)}))"
    and "sorted_wrt (<) (cut_points ops es)"
    and "\<forall>c\<in>set (cut_points ops es). ok c"
proof -
  show s: "set (cut_points ops es) = (\<Union>e\<in>set es. insert (re_start e) (if keyIsMax ops (re_end e) then {} else {keyNext ops (re_end e)}))"
    by (auto simp: cut_points_def split: if_splits)
  show "sorted_wrt (<) (cut_points ops es)"
    unfolding cut_points_def by (rule strict_remdups_adj) simp
  have "ok (keyNext ops (re_end e))" if "e \<in> set es" "\<not> keyIsMax ops (re_end e)" for e
    using assms that next_ok[of "re_end e"] max_iff[of "re_end e"] val_le[of "re_end e"] by force
  then show "\<forall>c\<in>set (cut_points ops es). ok c" unfolding s using assms by auto
qed

lemma sweep_starts:
  assumes fit: "\<forall>e\<in>set es. fits e"
  shows "sweep_ok es (cut_points ops es) [] 0 []"
proof -
  let ?cs = "cut_points ops es"
  note c = cuts_hold[OF fit]
  have inS: "S e \<in> val ` set ?cs" if "e \<in> set es" for e using that by (auto simp: c(1))
  have inE: "E e + 1 \<in> val ` set ?cs" if e: "e \<in> set es" "E e < last_val" for e
  proof -
    have "keyNext ops (re_end e) \<in> set ?cs" using e fit max_iff[of "re_end e"] unfolding c(1) by auto
    moreover have "val (keyNext ops (re_end e)) = E e + 1" using next_ok[of "re_end e"] e fit by simp
    ultimately show ?thesis by (metis imageI)
  qed
  have sv: "sorted_wrt (<) (map val ?cs)"
    unfolding sorted_wrt_map by (rule sorted_wrt_mono_rel[OF _ c(2)]) (use c(3) less_val in auto)
  have cu: "cuts_ok es ?cs" using inS inE sv c(3) by (simp add: cuts_ok_def)
  have low: "lowest ?cs \<le> S e" if e: "e \<in> set es" for e
    using inS[OF e] sv by (cases ?cs) auto
  have "\<not> at e v" if "e \<in> set es" "v < lowest ?cs" for e v using low[OF that(1)] that(2) by linarith
  then have "done_ok es [] (lowest ?cs)" unfolding done_ok_def by auto
  moreover have "\<forall>i<length es. i < 0 \<longleftrightarrow> S (es ! i) < lowest ?cs" using low by (auto simp: linorder_not_less)
  ultimately show ?thesis using cu by (simp add: sweep_ok_def queue_ok_def)
qed

abbreviation "keys_ok e \<equiv> ok (re_start e) \<and> ok (re_end e)"

lemma sweep_result:
  assumes "\<forall>e\<in>set es. fits e" "sorted (map re_start es)"
  shows "\<forall>m\<in>set (sweep ops es (cut_points ops es) [] 0 []). keys_ok m"
    "segments (sweep ops es (cut_points ops es) [] 0 [])"
    "ok k \<Longrightarrow> blocked (sweep ops es (cut_points ops es) [] 0 []) k l \<longleftrightarrow> blocked es k l"
proof -
  let ?ms = "sweep ops es (cut_points ops es) [] 0 []"
  have d: "done_ok es ?ms (last_val + 1)" by (rule sweep_correct[OF sweep_starts[OF assms(1)] assms])
  show f: "\<forall>m\<in>set ?ms. keys_ok m" using d by (simp add: done_ok_def)
  have "sorted_wrt (\<lambda>a b. re_end a < re_start b) ?ms"
    by (rule sorted_wrt_mono_rel[where P = "\<lambda>a b. E a < S b"]) (use d f less_val in \<open>auto simp: done_ok_def\<close>)
  then show "segments ?ms" using d by (auto simp: segments_def done_ok_def le_val)
  assume k: "ok k"
  have "covers e k \<longleftrightarrow> at e (val k)" if "keys_ok e" for e using that k by (simp add: covers_def le_val)
  then show "blocked ?ms k l \<longleftrightarrow> blocked es k l"
    using d f assms(1) val_le[OF k] unfolding blocked_def done_ok_def by (simp add: less_Suc_eq_le conj_assoc)
qed

text \<open>The normalised table: ordered segments that do not overlap and block exactly what was entered.\<close>

theorem merged_table:
  assumes ok: "\<forall>e\<in>set es. keys_ok e" and k: "ok k" and r: "sortAndMergeRanges ops es modified = (ms, m)"
  shows "(2 \<le> length es \<longrightarrow> segments ms) \<and> (blocked ms k l \<longleftrightarrow> blocked es k l)"
proof (cases "length es < 2")
  case True
  then show ?thesis using r by (simp add: sortAndMergeRanges_def)
next
  case False
  let ?es = "sort_key (\<lambda>e. (re_start e, re_end e, re_level e)) (filter (\<lambda>e. \<not> re_end e < re_start e) es)"
  have "sorted (map (\<lambda>e. (re_start e, re_end e, re_level e)) ?es)" by (rule sorted_sort_key)
  then have s: "sorted (map re_start ?es)"
    unfolding sorted_map by (rule sorted_wrt_mono_rel[rotated]) (auto simp: less_eq_prod_def)
  have f: "\<forall>e\<in>set ?es. fits e" using ok by (auto simp: linorder_not_less le_val)
  have "ms = sweep ops ?es (cut_points ops ?es) [] 0 []"
    using r False by (simp add: sortAndMergeRanges_def Let_def)
  moreover have "blocked ?es k l \<longleftrightarrow> blocked es k l" by (fastforce simp: blocked_def covers_def)
  ultimately show ?thesis using sweep_result[OF f s] k by simp
qed

end

end
