(* ===== verification/Ip_Blocks.thy ===== *)
theory Ip_Blocks
  imports Ip_Sweep
begin

text \<open>
  The keys of both families meet the contract of the sweep, so the filter blocks exactly the
  addresses that a search through all entered ranges would block.
\<close>

section \<open>Keys as numbers\<close>

fun bytes_val :: "u8 list \<Rightarrow> nat" where
  "bytes_val [] = 0"
| "bytes_val (b # bs) = unat b + 256 * bytes_val bs"

lemma u8_le: "unat (b::u8) \<le> 255"
  using unsigned_less[of b, where 'a = nat] by simp

lemma unat_all_ones: "unat (- 1 :: u8) = 255"
  by (simp add: unsigned_minus_1_eq_mask mask_eq_exp_minus_1)

lemma bytes_val_append [simp]: "bytes_val (xs @ [b]) = bytes_val xs + 256 ^ length xs * unat b"
  by (induction xs) (simp_all add: algebra_simps)

lemma bytes_val_less: "bytes_val bs < 256 ^ length bs"
proof (induction bs)
  case (Cons b bs)
  then have "bytes_val bs + 1 \<le> 256 ^ length bs" by simp
  then show ?case using u8_le[of b] by simp
qed simp

lemma inc_unat: "(b::u8) + 1 \<noteq> 0 \<Longrightarrow> unat (b + 1) = unat b + 1"
  using unatSuc[of b] by (simp add: add.commute)

lemma dec_unat: "(b::u8) \<noteq> 0 \<Longrightarrow> unat (b - 1) = unat b - 1"
  by (metis unat_minus_one)

lemma length_next_bytes [simp]: "length (next_bytes bs) = length bs"
  by (induction bs) auto

lemma length_prev_bytes [simp]: "length (prev_bytes bs) = length bs"
  by (induction bs) auto

lemma all_ones_val: "list_all (\<lambda>b. b = 0xFF) bs \<longleftrightarrow> bytes_val bs + 1 = 256 ^ length bs"
proof (induction bs)
  case (Cons b bs)
  have "bytes_val (b # bs) + 1 = 256 ^ length (b # bs) \<longleftrightarrow> unat b = 255 \<and> bytes_val bs + 1 = 256 ^ length bs"
    using u8_le[of b] bytes_val_less[of bs] by simp linarith
  moreover have "b = 0xFF \<longleftrightarrow> unat b = 255" using word_unat_eq_iff[of b "0xFF"] by simp
  ultimately show ?case using Cons by simp
qed simp

lemma next_bytes_val: "bytes_val bs + 1 < 256 ^ length bs \<Longrightarrow> bytes_val (next_bytes bs) = bytes_val bs + 1"
proof (induction bs)
  case (Cons b bs)
  show ?case
  proof (cases "b + 1 = 0")
    case True
    then have "b = - 1" by (simp add: eq_neg_iff_add_eq_0)
    then have b: "unat b = 255" by (simp add: unat_all_ones)
    then have "bytes_val bs + 1 < 256 ^ length bs" using Cons.prems by simp
    then show ?thesis using Cons.IH True b by simp
  next
    case False
    then show ?thesis using inc_unat[of b] by simp
  qed
qed simp

lemma prev_bytes_val: "0 < bytes_val bs \<Longrightarrow> bytes_val (prev_bytes bs) = bytes_val bs - 1"
proof (induction bs)
  case (Cons b bs)
  show ?case
  proof (cases "b = 0")
    case True
    have "unat (b - 1) = 255" using True by (simp add: unat_all_ones)
    then show ?thesis using Cons True by simp
  next
    case False
    then have "0 < unat b" by (simp add: unat_gt_0)
    then show ?thesis using dec_unat[OF False] False by simp
  qed
qed simp

lemma bytes_less: "length a = length b \<Longrightarrow> a < b \<longleftrightarrow> bytes_val (rev a) < bytes_val (rev b)"
proof (induction a b rule: list_induct2)
  case (Cons x xs y ys)
  let ?P = "256 ^ length xs :: nat"
  have r: "bytes_val (rev xs) < ?P" "bytes_val (rev ys) < ?P"
    using bytes_val_less[of "rev xs"] bytes_val_less[of "rev ys"] Cons(1) by simp_all
  have step: "u + 1 \<le> v \<Longrightarrow> ?P * u + ?P \<le> ?P * v" for u v
    using mult_le_mono2[of "u + 1" v ?P] by simp
  show ?case
  proof (cases "unat x" "unat y" rule: linorder_cases)
    case less
    then show ?thesis using r step[of "unat x" "unat y"] Cons(1) by (auto simp: word_less_nat_alt)
  next
    case equal
    then have "x = y" by (simp add: word_unat_eq_iff)
    then show ?thesis using Cons by simp
  next
    case greater
    then show ?thesis using r step[of "unat y" "unat x"] Cons(1) by (auto simp: word_less_nat_alt)
  qed
qed simp

interpretation v4: range_key v4_ops "\<lambda>_. True" unat "2 ^ 32 - 1"
proof unfold_locales
  fix a :: u32
  show "unat a \<le> 2 ^ 32 - 1" using unsigned_less[of a, where 'a = nat] by simp
  show "keyIsMax v4_ops a \<longleftrightarrow> unat a = 2 ^ 32 - 1"
    using word_unat_eq_iff[of a "0xFFFFFFFF"] by (simp add: v4_ops_def)
  show "unat a < 2 ^ 32 - 1 \<Longrightarrow> True \<and> unat (keyNext v4_ops a) = unat a + 1"
    by (simp add: v4_ops_def unat_plus_if')
  show "0 < unat a \<Longrightarrow> True \<and> unat (keyPrev v4_ops a) = unat a - 1"
    using unat_minus_one[of a] by (cases "a = 0") (simp_all add: v4_ops_def)
qed (simp_all add: word_less_nat_alt)

interpretation v6: range_key v6_ops "\<lambda>k. length k = 16" "\<lambda>k. bytes_val (rev k)" "2 ^ 128 - 1"
proof unfold_locales
  fix a :: "u8 list"
  assume a: "length a = 16"
  have p: "(256::nat) ^ 16 = 2 ^ 128" by simp
  have b: "bytes_val (rev a) < 2 ^ 128" using bytes_val_less[of "rev a"] a by simp
  then show "bytes_val (rev a) \<le> 2 ^ 128 - 1" by simp
  show "keyIsMax v6_ops a \<longleftrightarrow> bytes_val (rev a) = 2 ^ 128 - 1"
    using all_ones_val[of "rev a"] a by (auto simp: v6_ops_def list_all_iff)
  show "bytes_val (rev a) < 2 ^ 128 - 1 \<Longrightarrow> length (keyNext v6_ops a) = 16 \<and> bytes_val (rev (keyNext v6_ops a)) = bytes_val (rev a) + 1"
    using next_bytes_val[of "rev a"] a by (simp add: v6_ops_def)
  show "0 < bytes_val (rev a) \<Longrightarrow> length (keyPrev v6_ops a) = 16 \<and> bytes_val (rev (keyPrev v6_ops a)) = bytes_val (rev a) - 1"
    using prev_bytes_val[of "rev a"] a by (simp add: v6_ops_def)
qed (simp add: bytes_less)


section \<open>The lookup\<close>

lemma segments_apart:
  "segments es \<Longrightarrow> i < j \<Longrightarrow> j < length es \<Longrightarrow> re_end (es ! i) < re_start (es ! j)"
  by (simp add: segments_def sorted_wrt_iff_nth_less)

lemma segment_ordered: "segments es \<Longrightarrow> i < length es \<Longrightarrow> re_start (es ! i) \<le> re_end (es ! i)"
  by (simp add: segments_def)

lemma candidate_cases:
  assumes "segments es"
  shows "case candidate es key of
      None \<Rightarrow> \<forall>e\<in>set es. key < re_start e
    | Some i \<Rightarrow> i < length es \<and> re_start (es ! i) \<le> key \<and> (\<forall>j. i < j \<longrightarrow> j < length es \<longrightarrow> key < re_start (es ! j))"
proof -
  let ?p = "\<lambda>e. \<not> key < re_start e"
  let ?n = "length (takeWhile ?p es)"
  have after: "key < re_start (es ! j)" if j: "?n \<le> j" "j < length es" for j
  proof -
    have "key < re_start (es ! ?n)" using nth_length_takeWhile[of ?p es] j by force
    moreover have "re_start (es ! ?n) \<le> re_start (es ! j)"
      using j segments_apart[OF assms, of ?n j] segment_ordered[OF assms, of ?n] by (cases "?n = j") force+
    ultimately show ?thesis by simp
  qed
  show ?thesis
  proof (cases ?n)
    case 0
    then have "\<forall>j<length es. key < re_start (es ! j)" using after by simp
    then show ?thesis using 0 by (auto simp: candidate_def in_set_conv_nth simp del: length_0_conv)
  next
    case (Suc i)
    have i: "i < length es" using length_takeWhile_le[of ?p es] Suc by linarith
    have "?p (takeWhile ?p es ! i)" using set_takeWhileD[of "takeWhile ?p es ! i" ?p es] nth_mem[of i "takeWhile ?p es"] Suc by simp
    then have "re_start (es ! i) \<le> key" using takeWhile_nth[of i ?p es] Suc by (simp add: linorder_not_less)
    then show ?thesis using Suc i after by (simp add: candidate_def)
  qed
qed

text \<open>Looking at one entry is enough: the table blocks a key as soon as any entry does.\<close>

lemma hit_iff_blocked:
  assumes "segments es \<or> length es < 2"
  shows "(hit es key level \<noteq> None \<longleftrightarrow> blocked es key level) \<and>
    (\<forall>i. hit es key level = Some i \<longrightarrow> i < length es \<and> covers (es ! i) key \<and> re_level (es ! i) < level)"
proof -
  have one: ?thesis if "es = [] \<or> (\<exists>e. es = [e])"
    using that by (auto simp: hit_def candidate_def blocked_def covers_def split: if_splits)
  have many: ?thesis if sg: "segments es"
  proof (cases "candidate es key")
    case None
    then show ?thesis using candidate_cases[OF sg, of key] by (auto simp: hit_def blocked_def covers_def)
  next
    case (Some c)
    have c: "c < length es" "re_start (es ! c) \<le> key" "\<And>j. c < j \<Longrightarrow> j < length es \<Longrightarrow> key < re_start (es ! j)"
      using candidate_cases[OF sg, of key] Some by simp_all
    have "j = c" if "j < length es" "covers (es ! j) key" for j
      using segments_apart[OF sg, of j c] c(1,2) c(3)[of j] that by (cases j c rule: linorder_cases) (auto simp: covers_def)
    then have "blocked es key level \<longleftrightarrow> covers (es ! c) key \<and> re_level (es ! c) < level"
      using c(1) unfolding blocked_def by (metis in_set_conv_nth)
    then show ?thesis using Some c by (auto simp: hit_def covers_def split: if_splits)
  qed
  have "segments es \<or> es = [] \<or> (\<exists>e. es = [e])"
    using assms by (cases es rule: remdups_adj.cases) auto
  then show ?thesis using one many by blast
qed


section \<open>The filter as a whole\<close>

definition v6_keys :: "ip_filter \<Rightarrow> bool" where
  "v6_keys f = (\<forall>e\<in>set (f_entries6 f). length (re_start e) = 16 \<and> length (re_end e) = 16)"

text \<open>What the filter is for: an address is blocked when an entered range with a level below the threshold
  holds it.  The address 0 never is.\<close>

definition listed :: "ip_filter \<Rightarrow> address \<Rightarrow> u32 \<Rightarrow> bool" where
  "listed f addr level =
     (case addr of
        NoAddress \<Rightarrow> False
      | IPv4 ip \<Rightarrow> ip \<noteq> 0 \<and> blocked (f_entries f) ip level
      | IPv6 bytes \<Rightarrow> blocked (f_entries6 f) bytes level)"

definition table_ok :: "'k::linorder range_entry list \<Rightarrow> bool" where
  "table_ok es = (length es < 2 \<or> segments es)"

definition filter_ok :: "ip_filter \<Rightarrow> bool" where
  "filter_ok f = (table_ok (f_entries f) \<and> table_ok (f_entries6 f))"

lemma lookup_is_listed:
  assumes "filter_ok f"
  shows "fst (isFiltered addr level f) \<longleftrightarrow> listed f addr level"
proof -
  have 4: "hit (f_entries f) k level \<noteq> None \<longleftrightarrow> blocked (f_entries f) k level" for k
    using hit_iff_blocked[of "f_entries f"] assms by (auto simp: filter_ok_def table_ok_def)
  have 6: "hit (f_entries6 f) k level \<noteq> None \<longleftrightarrow> blocked (f_entries6 f) k level" for k
    using hit_iff_blocked[of "f_entries6 f"] assms by (auto simp: filter_ok_def table_ok_def)
  have e: "blocked [] k level = False" for k :: "'x::linorder" by (simp add: blocked_def)
  show ?thesis
  proof (cases addr)
    case (IPv4 ip)
    then show ?thesis using 4[of ip]
      by (auto simp: isFiltered_def isFiltered32_def listed_def blocked_def split: option.splits)
  next
    case (IPv6 bytes)
    then show ?thesis using 6[of bytes]
      by (auto simp: isFiltered_def isFilteredV6_def listed_def blocked_def split: option.splits)
  qed (simp add: isFiltered_def listed_def)
qed

lemma sorted_filter:
  assumes "v6_keys f"
  shows "filter_ok (sortAndMerge f)"
    and "(\<forall>bytes. addr = IPv6 bytes \<longrightarrow> length bytes = 16) \<Longrightarrow> listed (sortAndMerge f) addr level \<longleftrightarrow> listed f addr level"
proof -
  obtain es m where 4: "sortAndMergeRanges v4_ops (f_entries f) (f_modified f) = (es, m)" by fastforce
  obtain es6 m6 where 6: "sortAndMergeRanges v6_ops (f_entries6 f) m = (es6, m6)" by fastforce
  have f: "f_entries (sortAndMerge f) = es" "f_entries6 (sortAndMerge f) = es6"
    by (simp_all add: sortAndMerge_def 4 6)
  have k6: "\<forall>e\<in>set (f_entries6 f). length (re_start e) = 16 \<and> length (re_end e) = 16"
    using assms by (simp add: v6_keys_def)
  have r4: "(2 \<le> length (f_entries f) \<longrightarrow> segments es) \<and> (blocked es k l \<longleftrightarrow> blocked (f_entries f) k l)" for k l
    by (rule v4.merged_table[OF _ _ 4]) simp_all
  have r6: "length k = 16 \<Longrightarrow> (2 \<le> length (f_entries6 f) \<longrightarrow> segments es6) \<and> (blocked es6 k l \<longleftrightarrow> blocked (f_entries6 f) k l)" for k l
    by (rule v6.merged_table[OF k6 _ 6])
  have "table_ok es" using r4 4 by (auto simp: table_ok_def sortAndMergeRanges_def split: if_splits)
  moreover have "table_ok es6" using r6[of "replicate 16 0"] 6 by (auto simp: table_ok_def sortAndMergeRanges_def split: if_splits)
  ultimately show "filter_ok (sortAndMerge f)" by (simp add: filter_ok_def f)
  assume "\<forall>bytes. addr = IPv6 bytes \<longrightarrow> length bytes = 16"
  then show "listed (sortAndMerge f) addr level \<longleftrightarrow> listed f addr level"
    using r4 r6 by (simp add: listed_def f split: address.splits)
qed

lemma table_ok_filter: "table_ok es \<Longrightarrow> table_ok (filter P es)"
  using le_trans[OF length_filter_le] unfolding table_ok_def segments_def
  by (meson le_less_trans length_filter_le sorted_wrt_filter filter_is_subset subsetD)

lemma table_ok_remove:
  assumes "table_ok es"
  shows "table_ok (take i es @ drop (i + 1) es)"
proof (cases "i < length es")
  case True
  then have es: "es = take i es @ es ! i # drop (i + 1) es" using id_take_nth_drop by simp
  have "segments (a @ x # b) \<Longrightarrow> segments (a @ b)" for a b and x :: "'a range_entry"
    by (auto simp: segments_def sorted_wrt_append)
  then have "segments es \<Longrightarrow> segments (take i es @ drop (i + 1) es)" using es by metis
  then show ?thesis using assms by (auto simp: table_ok_def)
qed (use assms in simp)

text \<open>Counting a hit changes neither the ranges nor the levels.\<close>

definition ranges :: "'k range_entry list \<Rightarrow> ('k \<times> 'k) list" where
  "ranges es = map (\<lambda>e. (re_start e, re_end e)) es"

lemma segments_ranges:
  "segments es \<longleftrightarrow> sorted_wrt (\<lambda>a b. snd a < fst b) (ranges es) \<and> (\<forall>p\<in>set (ranges es). fst p \<le> snd p)"
  by (simp add: segments_def ranges_def sorted_wrt_map)

lemma ranges_count: "ranges (count_hit i es) = ranges es"
  by (cases "i < length es") (simp_all add: ranges_def count_hit_def map_update list_update_same_conv list_update_beyond)

lemma table_ok_count: "table_ok (count_hit i es) \<longleftrightarrow> table_ok es"
proof -
  have "length (count_hit i es) = length es" by (simp add: count_hit_def)
  then show ?thesis unfolding table_ok_def segments_ranges ranges_count by simp
qed

text \<open>Looking up and removing keep the tables ready for the lookup; adding does not, and sorting restores it.\<close>

lemma lookup_keeps_order: "filter_ok f \<Longrightarrow> filter_ok (snd (isFiltered addr level f))"
  by (auto simp: isFiltered_def isFiltered32_def isFilteredV6_def filter_ok_def table_ok_count split: address.splits option.splits)

lemma removal_keeps_order:
  assumes "filter_ok f"
  shows "filter_ok (snd (removeFilter i f))" "filter_ok (snd (removeRanges s4 s6 f))" "filter_ok (removeAllFilters f)"
proof -
  show "filter_ok (snd (removeFilter i f))"
    using assms table_ok_remove[of "f_entries f" "nat i"] by (simp add: removeFilter_def Let_def filter_ok_def)
  show "filter_ok (snd (removeRanges s4 s6 f))"
    using assms by (simp add: removeRanges_def Let_def filter_ok_def table_ok_filter)
  show "filter_ok (removeAllFilters f)" by (simp add: removeAllFilters_def filter_ok_def table_ok_def)
qed

text \<open>C34. After the tables are normalised, an address is filtered exactly when some range that was entered,
  of whatever order and overlap, holds it with a level below the threshold: the single entry the binary
  search inspects gives the answer of a search through all of them.\<close>

theorem filter_blocks_exactly:
  assumes "v6_keys f" and "\<forall>bytes. addr = IPv6 bytes \<longrightarrow> length bytes = 16"
  shows "fst (isFiltered addr level (sortAndMerge f)) \<longleftrightarrow> listed f addr level"
  using lookup_is_listed sorted_filter[OF assms(1)] assms(2) by metis

theorem filter_blocks_exactly_witness:
  "let f = addIPRange 30 60 50 ''c'' (addIPRange 10 100 200 ''b'' (addIPRange 20 40 100 ''a'' empty_filter))
   in fst (isFiltered (IPv4 55) 100 (sortAndMerge f)) \<and> \<not> fst (isFiltered (IPv4 25) 100 (sortAndMerge f))"
proof -
  let ?f = "addIPRange 30 60 50 ''c'' (addIPRange 10 100 200 ''b'' (addIPRange 20 40 100 ''a'' empty_filter))"
  have v: "v6_keys ?f" by (simp add: v6_keys_def addIPRange_def empty_filter_def)
  have "listed ?f (IPv4 55) 100" "\<not> listed ?f (IPv4 25) 100"
    by (simp_all add: listed_def blocked_def covers_def addIPRange_def empty_filter_def)
  then show ?thesis
    using filter_blocks_exactly[OF v, of "IPv4 55" 100] filter_blocks_exactly[OF v, of "IPv4 25" 100] by simp
qed

text \<open>Removing an entry before the one that was last hit leaves the pointer to the last hit in place, but
  the entries behind the removed one have moved: the report names the next range, or reads past the table.\<close>

theorem removal_shifts_last_hit:
  assumes "f_lastHit f = Some i" "i < length (f_entries f)" "j < i"
  shows "f_lastHit (snd (removeFilter (int j) f)) = Some i \<and>
    lastHitDescription (snd (removeFilter (int j) f)) =
      (if i + 1 < length (f_entries f) then Some (re_desc (f_entries f ! (i + 1))) else None)"
  using assms by (auto simp: removeFilter_def Let_def lastHitDescription_def nth_append)

end
