(* ===== verification/Part_Gaps.thy ===== *)
theory Part_Gaps
  imports Prelude "HOL-Library.Product_Lexorder"
begin

text \<open>
  The missing bytes of a download (src/core/files/PartFile.cpp): the ordered list of gaps, its
  changes, the questions asked of it, and the list kept in the .part.met file.  Offsets are 64-bit
  words, as in the code; the share of the file in percent, a float shown to the user, is left out.
\<close>

definition PART64 :: u64 where "PART64 = 9728000"
definition EMBLOCK64 :: u64 where "EMBLOCK64 = 184320"

record gap =
  g_start :: u64
  g_end :: u64

abbreviation Gap :: "u64 \<Rightarrow> u64 \<Rightarrow> gap" where
  "Gap s e \<equiv> \<lparr>g_start = s, g_end = e\<rparr>"

section \<open>Operations\<close>

fun merge_gap :: "u64 \<Rightarrow> u64 \<Rightarrow> gap list \<Rightarrow> gap list" where
  "merge_gap s e [] = [Gap s e]"
| "merge_gap s e (g # gs) =
     (if g_start g > e + 1 then Gap s e # g # gs
      else if g_end g + 1 \<ge> s then merge_gap (min s (g_start g)) (max e (g_end g)) gs
      else g # merge_gap s e gs)"

definition addGap :: "u64 \<Rightarrow> u64 \<Rightarrow> u64 \<Rightarrow> gap list \<Rightarrow> gap list" where
  "addGap fs s e gs =
     (if s > e then gs
      else if fs = 0 then gs
      else merge_gap s (if e \<ge> fs then fs - 1 else e) gs)"

fun fill_loop :: "u64 \<Rightarrow> u64 \<Rightarrow> gap list \<Rightarrow> gap list" where
  "fill_loop s e [] = []"
| "fill_loop s e (g # gs) =
     (if g_start g > e then g # gs
      else if g_end g < s then g # fill_loop s e gs
      else if s \<le> g_start g \<and> e \<ge> g_end g then fill_loop s e gs
      else if s \<le> g_start g then g\<lparr>g_start := e + 1\<rparr> # fill_loop s e gs
      else if e \<ge> g_end g then g\<lparr>g_end := s - 1\<rparr> # fill_loop s e gs
      else g\<lparr>g_end := s - 1\<rparr> # Gap (e + 1) (g_end g) # gs)"

definition fillGap :: "u64 \<Rightarrow> u64 \<Rightarrow> gap list \<Rightarrow> gap list" where
  "fillGap s e gs = (if s > e then gs else fill_loop s e gs)"

fun range_complete :: "u64 \<Rightarrow> u64 \<Rightarrow> gap list \<Rightarrow> bool" where
  "range_complete s e [] = True"
| "range_complete s e (g # gs) =
     (if g_start g > e then True else if g_end g \<ge> s then False else range_complete s e gs)"

definition data_part_count :: "u64 \<Rightarrow> u16" where
  "data_part_count fs = (if fs = 0 then 0 else ucast ((fs + PART64 - 1) div PART64))"

definition ed2k_part_count :: "u64 \<Rightarrow> u16" where
  "ed2k_part_count fs = (if fs = 0 then 0 else ucast (fs div PART64 + 1))"

definition part_end :: "u64 \<Rightarrow> u64 \<Rightarrow> u64" where
  "part_end fs partStart = (let partEnd = partStart + PART64 - 1 in if partEnd \<ge> fs then fs - 1 else partEnd)"

definition part_complete :: "u64 \<Rightarrow> u32 \<Rightarrow> gap list \<Rightarrow> bool" where
  "part_complete fs part gs =
     (if part \<ge> ucast (data_part_count fs) then False
      else range_complete (ucast part * PART64) (part_end fs (ucast part * PART64)) gs)"

fun isPureGap :: "u64 \<Rightarrow> u64 \<Rightarrow> gap list \<Rightarrow> bool" where
  "isPureGap s e [] = False"
| "isPureGap s e (g # gs) =
     (if g_start g \<le> s \<and> g_end g \<ge> e then True else if g_start g > s then False else isPureGap s e gs)"

fun gap_size_from :: "u64 \<Rightarrow> u64 \<Rightarrow> u64 \<Rightarrow> gap list \<Rightarrow> u64" where
  "gap_size_from acc s e [] = acc"
| "gap_size_from acc s e (g # gs) =
     (if g_start g > e then acc
      else if g_end g < s then gap_size_from acc s e gs
      else gap_size_from (acc + (min (g_end g) e - max (g_start g) s + 1)) s e gs)"

definition totalGapSizeInRange :: "u64 \<Rightarrow> u64 \<Rightarrow> gap list \<Rightarrow> u64" where
  "totalGapSizeInRange s e gs = gap_size_from 0 s e gs"

definition totalGapSizeInPart :: "u64 \<Rightarrow> u32 \<Rightarrow> gap list \<Rightarrow> u64" where
  "totalGapSizeInPart fs part gs =
     totalGapSizeInRange (ucast part * PART64) (part_end fs (ucast part * PART64)) gs"

definition totalGapSize :: "gap list \<Rightarrow> u64" where
  "totalGapSize gs = foldl (\<lambda>acc g. acc + (g_end g - g_start g + 1)) 0 gs"

definition completed_size :: "u64 \<Rightarrow> gap list \<Rightarrow> u64" where
  "completed_size fs gs =
     (if fs = 0 then 0 else if fs > totalGapSize gs then fs - totalGapSize gs else 0)"

fun filled_from :: "u64 \<Rightarrow> u64 \<Rightarrow> gap list \<Rightarrow> gap list" where
  "filled_from fs pos [] = (if pos < fs then [Gap pos (fs - 1)] else [])"
| "filled_from fs pos (g # gs) =
     (if g_start g > pos then [Gap pos (g_start g - 1)] else []) @ filled_from fs (g_end g + 1) gs"

definition getFilledArray :: "u64 \<Rightarrow> gap list \<Rightarrow> gap list" where
  "getFilledArray fs gs = (if fs = 0 then [] else filled_from fs 0 gs)"

text \<open>The bitmap sent to peers; the parts behind the data parts are empty and always there.\<close>

definition part_bits :: "u64 \<Rightarrow> gap list \<Rightarrow> bool list" where
  "part_bits fs gs =
     map (\<lambda>i. i \<ge> unat (data_part_count fs) \<or> part_complete fs (of_nat i) gs) [0..<unat (ed2k_part_count fs)]"

definition set_bits_of :: "bool list \<Rightarrow> u8 list" where
  "set_bits_of bs =
     foldl (\<lambda>bitmap i. if bs ! i then bitmap[i div 8 := bitmap ! (i div 8) OR push_bit (i mod 8) 1] else bitmap)
       (replicate ((length bs + 7) div 8) 0) [0..<length bs]"

definition writePartStatus :: "u64 \<Rightarrow> gap list \<Rightarrow> u8 list" where
  "writePartStatus fs gs =
     (let pc = ed2k_part_count fs; count = [byte_of pc 0, byte_of pc 1]
      in if pc = 0 then count else count @ set_bits_of (part_bits fs gs))"

section \<open>The gaps in the .part.met file\<close>

text \<open>A gap is written with its first byte and the one behind its last, in 32 bits where the file is not a large one.\<close>

definition OLD_MAX_SIZE64 :: u64 where "OLD_MAX_SIZE64 = 4290048000"

definition write_gap :: "u64 \<Rightarrow> u64 \<Rightarrow> u64 \<Rightarrow> u64 \<times> u64" where
  "write_gap fs s e =
     (if fs > OLD_MAX_SIZE64 then (s, e + 1) else (ucast (ucast s :: u32), ucast (ucast (e + 1) :: u32)))"

fun merge_pending :: "u64 \<Rightarrow> u64 \<Rightarrow> u64 \<Rightarrow> (u64 \<times> u64) list \<Rightarrow> (u64 \<times> u64) list" where
  "merge_pending fs s e [] = [write_gap fs s e]"
| "merge_pending fs s e ((s', e') # ps) =
     (if s' = e + 1 then merge_pending fs s e' ps else write_gap fs s e # merge_pending fs s' e' ps)"

definition pending_gaps :: "u64 \<Rightarrow> (u64 \<times> u64) list \<Rightarrow> (u64 \<times> u64) list" where
  "pending_gaps fs ps = (case ps of [] \<Rightarrow> [] | (s, e) # ps' \<Rightarrow> merge_pending fs s e ps')"

definition saved_gaps :: "u64 \<Rightarrow> gap list \<Rightarrow> (u64 \<times> u64) list \<Rightarrow> (u64 \<times> u64) list \<Rightarrow> (u64 \<times> u64) list" where
  "saved_gaps fs gs buffered flushing =
     map (\<lambda>g. write_gap fs (g_start g) (g_end g)) gs @ pending_gaps fs buffered @ pending_gaps fs flushing"

definition read_gap_pairs :: "(u64 \<times> u64) list \<Rightarrow> (u64 \<times> u64) list" where
  "read_gap_pairs named = map (\<lambda>(s, e). (s, e - 1)) (filter (\<lambda>(s, e). s \<noteq> - 1 \<and> e \<noteq> - 1 \<and> 0 < e) named)"

fun load_loop :: "u64 \<Rightarrow> gap list \<Rightarrow> (u64 \<times> u64) list \<Rightarrow> gap list" where
  "load_loop fs gs [] = gs"
| "load_loop fs gs ((s, e0) # ps) =
     (if fs = 0 \<or> s \<ge> fs then load_loop fs gs ps
      else let e = (if e0 \<ge> fs then fs - 1 else e0)
           in if s > e then load_loop fs gs ps
              else if gs \<noteq> [] \<and> s \<le> g_end (last gs) + 1
              then load_loop fs (butlast gs @ [(last gs)\<lparr>g_end := max (g_end (last gs)) e\<rparr>]) ps
              else load_loop fs (gs @ [Gap s e]) ps)"

definition load_gaps :: "u64 \<Rightarrow> (u64 \<times> u64) list \<Rightarrow> gap list" where
  "load_gaps fs pairs = load_loop fs [] (sort pairs)"

section \<open>What the list means\<close>

definition missing :: "gap list \<Rightarrow> u64 \<Rightarrow> bool" where
  "missing gs x = (\<exists>g\<in>set gs. g_start g \<le> x \<and> x \<le> g_end g)"

text \<open>Ordered, inside the file, and never adjacent: every run of missing bytes is one gap.\<close>

definition gaps_ok :: "u64 \<Rightarrow> gap list \<Rightarrow> bool" where
  "gaps_ok fs gs = ((\<forall>g\<in>set gs. g_start g \<le> g_end g \<and> g_end g < fs) \<and>
     sorted_wrt (\<lambda>a b. g_end a + 1 < g_start b) gs)"

lemma unat_inc: "(a::'a::len word) < b \<Longrightarrow> unat (a + 1) = unat a + 1"
proof -
  assume "a < b"
  then have "unat a < unat b" by (simp only: word_less_nat_alt)
  with unsigned_less[of b, where 'a = nat] have "unat a + unat (1::'a word) < 2 ^ LENGTH('a)"
    unfolding unsigned_1 by linarith
  then show ?thesis using unat_add_lem[of a 1] by simp
qed

lemma unat_dec: "(a::'a::len word) < b \<Longrightarrow> unat (b - 1) = unat b - 1"
  by (metis not_less_zero unat_minus_one word_less_nat_alt unat_0)

lemma word_inc_le: "(a::'a::len word) < b \<Longrightarrow> a + 1 \<le> x \<longleftrightarrow> a < x"
  using unat_inc[of a b] by (simp add: word_less_nat_alt word_le_nat_alt less_eq_Suc_le)

lemma word_le_dec: "(a::'a::len word) < b \<Longrightarrow> x \<le> b - 1 \<longleftrightarrow> x < b"
  using unat_dec[of a b] by (auto simp: word_less_nat_alt word_le_nat_alt)

lemma missing_Nil [simp]: "\<not> missing [] x"
  by (simp add: missing_def)

lemma missing_Cons [simp]: "missing (g # gs) x \<longleftrightarrow> (g_start g \<le> x \<and> x \<le> g_end g) \<or> missing gs x"
  by (auto simp: missing_def)

lemma missing_append [simp]: "missing (gs @ hs) x \<longleftrightarrow> missing gs x \<or> missing hs x"
  by (auto simp: missing_def)

lemma gaps_ok_Nil [simp]: "gaps_ok fs []"
  by (simp add: gaps_ok_def)

lemma gaps_ok_Cons:
  "gaps_ok fs (g # gs) \<longleftrightarrow> g_start g \<le> g_end g \<and> g_end g < fs \<and> (\<forall>b\<in>set gs. g_end g + 1 < g_start b) \<and> gaps_ok fs gs"
  by (auto simp: gaps_ok_def)

text \<open>The gaps behind the first begin behind its end.\<close>

lemma after_first:
  assumes "gaps_ok fs (g # gs)"
  shows "b \<in> set gs \<Longrightarrow> unat (g_end g) + 1 < unat (g_start b)"
    and "missing gs x \<Longrightarrow> unat (g_end g) + 1 < unat x"
proof -
  show *: "unat (g_end g) + 1 < unat (g_start b)" if "b \<in> set gs" for b
    using assms that unat_inc[of "g_end g" fs] by (auto simp: gaps_ok_Cons word_less_nat_alt)
  show "unat (g_end g) + 1 < unat x" if "missing gs x"
    using that * by (fastforce simp: missing_def word_le_nat_alt)
qed

lemmas word_order = word_less_nat_alt word_le_nat_alt

text \<open>A list that only shrinks gaps keeps the order before it.\<close>

definition within :: "gap list \<Rightarrow> gap list \<Rightarrow> bool" where
  "within hs gs = (\<forall>h\<in>set hs. \<exists>g\<in>set gs. g_start g \<le> g_start h \<and> g_end h \<le> g_end g)"

lemma within_Cons: "within hs gs \<Longrightarrow> within hs (g # gs)"
  by (auto simp: within_def)

lemma gaps_ok_within:
  assumes "gaps_ok fs (g # gs)" "gaps_ok fs hs" "within hs gs"
    and "g_start g \<le> g_start g'" "g_end g' \<le> g_end g" "g_start g' \<le> g_end g'"
  shows "gaps_ok fs (g' # hs) \<and> within (g' # hs) (g # gs)"
proof -
  have e: "g_end g' < fs" using assms(1,5) by (auto simp: gaps_ok_Cons intro: le_less_trans)
  have "g_end g' + 1 < g_start h" if h: "h \<in> set hs" for h
  proof -
    obtain b where "b \<in> set gs" "g_start b \<le> g_start h" using assms(3) h by (auto simp: within_def)
    then show ?thesis using after_first(1)[OF assms(1)] assms(5) unat_inc[OF e] unfolding word_order by fastforce
  qed
  then show ?thesis using assms(2-6) e by (auto simp: gaps_ok_Cons within_def)
qed

lemma fill_loop_correct:
  "gaps_ok fs gs \<Longrightarrow> s \<le> e \<Longrightarrow> gaps_ok fs (fill_loop s e gs) \<and> within (fill_loop s e gs) gs \<and>
   (missing (fill_loop s e gs) x \<longleftrightarrow> missing gs x \<and> \<not> (s \<le> x \<and> x \<le> e))"
proof (induction s e gs rule: fill_loop.induct)
  case (1 s e)
  then show ?case by (simp add: within_def)
next
  case (2 s e g gs)
  note ok = "2.prems"(1) and se = "2.prems"(2)
  have ok': "gaps_ok fs gs" and g: "g_start g \<le> g_end g" "g_end g < fs" using ok by (simp_all add: gaps_ok_Cons)
  have w: "within gs gs" by (auto simp: within_def)
  note aft = after_first(2)[OF ok, of x]
  consider (before) "g_start g > e" | (behind) "\<not> g_start g > e" "g_end g < s"
    | (all) "\<not> g_start g > e" "\<not> g_end g < s" "s \<le> g_start g \<and> e \<ge> g_end g"
    | (head) "\<not> g_start g > e" "\<not> g_end g < s" "\<not> (s \<le> g_start g \<and> e \<ge> g_end g)" "s \<le> g_start g"
    | (tail) "\<not> g_start g > e" "\<not> g_end g < s" "\<not> (s \<le> g_start g \<and> e \<ge> g_end g)" "\<not> s \<le> g_start g" "e \<ge> g_end g"
    | (split) "\<not> g_start g > e" "\<not> g_end g < s" "\<not> (s \<le> g_start g \<and> e \<ge> g_end g)" "\<not> s \<le> g_start g" "\<not> e \<ge> g_end g"
    by blast
  then show ?case
  proof cases
    case before
    then show ?thesis using ok g aft by (auto simp: word_order within_def)
  next
    case behind
    have IH: "gaps_ok fs (fill_loop s e gs)" "within (fill_loop s e gs) gs"
      "missing (fill_loop s e gs) x \<longleftrightarrow> missing gs x \<and> \<not> (s \<le> x \<and> x \<le> e)"
      using "2.IH"(1)[OF behind ok' se] by blast+
    show ?thesis using gaps_ok_within[OF ok IH(1,2), of g] IH(3) g behind by auto
  next
    case all
    then show ?thesis using "2.IH"(2)[OF all ok' se] by (auto intro: within_Cons)
  next
    case head
    have e: "e < g_end g" using head by auto
    let ?g = "g\<lparr>g_start := e + 1\<rparr>"
    note IH = "2.IH"(3)[OF head ok' se]
    have "g_start g \<le> g_start ?g" "g_start ?g \<le> g_end ?g"
      using head unat_inc[OF e] e by (auto simp: word_order)
    moreover have "e + 1 \<le> x \<longleftrightarrow> e < x" by (rule word_inc_le[OF e])
    ultimately show ?thesis using gaps_ok_within[OF ok, of _ ?g] IH head by auto
  next
    case tail
    then have s: "g_start g < s" by simp
    let ?g = "g\<lparr>g_end := s - 1\<rparr>"
    note IH = "2.IH"(4)[OF tail ok' se]
    have "g_end ?g \<le> g_end g" "g_start ?g \<le> g_end ?g"
      using tail unat_dec[OF s] s by (auto simp: word_order)
    moreover have "x \<le> s - 1 \<longleftrightarrow> x < s" by (rule word_le_dec[OF s])
    ultimately show ?thesis using gaps_ok_within[OF ok, of _ ?g] IH tail by auto
  next
    case split
    then have s: "g_start g < s" and e: "e < g_end g" by simp_all
    let ?h = "Gap (e + 1) (g_end g)" and ?g = "g\<lparr>g_end := s - 1\<rparr>"
    have x: "x \<le> s - 1 \<longleftrightarrow> x < s" "e + 1 \<le> x \<longleftrightarrow> e < x" by (rule word_le_dec[OF s], rule word_inc_le[OF e])
    have u: "unat (e + 1) = unat e + 1" "unat (s - 1) = unat s - 1" by (rule unat_inc[OF e], rule unat_dec[OF s])
    have h: "gaps_ok fs (?h # gs) \<and> within (?h # gs) (g # gs)"
      by (rule gaps_ok_within[OF ok ok' w]) (use split e u in \<open>auto simp: word_order\<close>)
    have 1: "unat (s - 1 + 1) = unat s" by simp
    have "s - 1 + 1 < g_start b" if "b \<in> set (?h # gs)" for b
      using that after_first(1)[OF ok, of b] se split s e u by (auto simp: word_order)
    then have "gaps_ok fs (?g # ?h # gs)" using h s g u split unfolding gaps_ok_Cons[of fs ?g] by (auto simp: word_order)
    moreover have "within (?g # ?h # gs) (g # gs)" using h s e u split by (auto simp: within_def word_order)
    ultimately show ?thesis using split x g aft s e by (auto simp: word_order)
  qed
qed

lemma merge_gap_correct:
  "gaps_ok fs gs \<Longrightarrow> s \<le> e \<Longrightarrow> e < fs \<Longrightarrow> gaps_ok fs (merge_gap s e gs) \<and>
   (\<forall>h\<in>set (merge_gap s e gs). g_start h = s \<or> g_start h \<in> g_start ` set gs) \<and>
   (missing (merge_gap s e gs) x \<longleftrightarrow> missing gs x \<or> (s \<le> x \<and> x \<le> e))"
proof (induction s e gs rule: merge_gap.induct)
  case (1 s e)
  then show ?case by (simp add: gaps_ok_Cons)
next
  case (2 s e g gs)
  note ok = "2.prems"(1) and se = "2.prems"(2) and ef = "2.prems"(3)
  have ok': "gaps_ok fs gs" and g: "g_start g \<le> g_end g" "g_end g < fs" using ok by (simp_all add: gaps_ok_Cons)
  note e1 = unat_inc[OF ef] and g1 = unat_inc[OF g(2)]
  consider (before) "g_start g > e + 1" | (joins) "\<not> g_start g > e + 1" "g_end g + 1 \<ge> s"
    | (behind) "\<not> g_start g > e + 1" "\<not> g_end g + 1 \<ge> s" by blast
  then show ?case
  proof cases
    case before
    have "e + 1 < g_start b" if "b \<in> set gs" for b
      using before after_first(1)[OF ok that] g unfolding word_order by linarith
    then have "gaps_ok fs (Gap s e # g # gs)" using before ok se ef by (simp add: gaps_ok_Cons)
    then show ?thesis using before by auto
  next
    case joins
    let ?s = "min s (g_start g)" and ?e = "max e (g_end g)"
    have se': "?s \<le> ?e" "?e < fs" using se ef g by (auto simp: min_def max_def)
    have "?s \<le> x \<and> x \<le> ?e \<longleftrightarrow> (s \<le> x \<and> x \<le> e) \<or> (g_start g \<le> x \<and> x \<le> g_end g)"
      using joins se g(1) e1 g1 unfolding min_def max_def word_order by (auto split: if_splits)
    then show ?thesis using "2.IH"(1)[OF joins ok' se'] joins by (auto simp: min_def)
  next
    case behind
    have IH: "gaps_ok fs (merge_gap s e gs)" "\<forall>h\<in>set (merge_gap s e gs). g_start h = s \<or> g_start h \<in> g_start ` set gs"
      "missing (merge_gap s e gs) x \<longleftrightarrow> missing gs x \<or> (s \<le> x \<and> x \<le> e)"
      using "2.IH"(2)[OF behind ok' se ef] by blast+
    have "g_end g + 1 < g_start h" if "h \<in> set (merge_gap s e gs)" for h
      using IH(2) that behind ok by (auto simp: gaps_ok_Cons)
    then show ?thesis using IH behind g by (auto simp: gaps_ok_Cons)
  qed
qed

theorem fillGap_correct:
  assumes "gaps_ok fs gs"
  shows "gaps_ok fs (fillGap s e gs)"
    and "missing (fillGap s e gs) x \<longleftrightarrow> missing gs x \<and> \<not> (s \<le> x \<and> x \<le> e)"
  using fill_loop_correct[OF assms, of s e x] assms by (auto simp: fillGap_def)

lemma clamp_end: "(fs::u64) \<noteq> 0 \<Longrightarrow> (if e \<ge> fs then fs - 1 else e) < fs \<and> (x \<le> (if e \<ge> fs then fs - 1 else e) \<longleftrightarrow> x \<le> e \<and> x < fs)"
  using word_le_dec[of 0 fs x] word_le_dec[of 0 fs "fs - 1"] by (auto simp: word_neq_0_conv)

theorem addGap_correct:
  assumes "gaps_ok fs gs" "s < fs"
  shows "gaps_ok fs (addGap fs s e gs)"
    and "missing (addGap fs s e gs) x \<longleftrightarrow> missing gs x \<or> (s \<le> x \<and> x \<le> e \<and> x < fs)"
proof -
  let ?e = "if e \<ge> fs then fs - 1 else e"
  have fs: "fs \<noteq> 0" using assms(2) by auto
  note c = clamp_end[OF fs, of e]
  have "gaps_ok fs (addGap fs s e gs) \<and> (missing (addGap fs s e gs) x \<longleftrightarrow> missing gs x \<or> (s \<le> x \<and> x \<le> e \<and> x < fs))"
  proof (cases "s > e")
    case True
    then show ?thesis using assms(1) by (auto simp: addGap_def)
  next
    case False
    have "s \<le> ?e" using c[of s] False assms(2) by simp
    then show ?thesis
      using merge_gap_correct[OF assms(1), of s ?e x] c[of x] False fs by (simp add: addGap_def)
  qed
  then show "gaps_ok fs (addGap fs s e gs)"
    and "missing (addGap fs s e gs) x \<longleftrightarrow> missing gs x \<or> (s \<le> x \<and> x \<le> e \<and> x < fs)" by blast+
qed

theorem range_complete_iff:
  "gaps_ok fs gs \<Longrightarrow> s \<le> e \<Longrightarrow> range_complete s e gs \<longleftrightarrow> (\<forall>x. s \<le> x \<and> x \<le> e \<longrightarrow> \<not> missing gs x)"
proof (induction s e gs rule: range_complete.induct)
  case (2 s e g gs)
  note aft = after_first(2)[OF "2.prems"(1)]
  have ok': "gaps_ok fs gs" and g: "g_start g \<le> g_end g" using "2.prems"(1) by (simp_all add: gaps_ok_Cons)
  consider (before) "g_start g > e" | (hit) "\<not> g_start g > e" "g_end g \<ge> s" | (behind) "\<not> g_start g > e" "\<not> g_end g \<ge> s"
    by blast
  then show ?case
  proof cases
    case before
    have "\<not> missing (g # gs) x" if "x \<le> e" for x using before that aft[of x] g by (auto simp: word_order)
    then show ?thesis using before by auto
  next
    case hit
    have "s \<le> max s (g_start g) \<and> max s (g_start g) \<le> e \<and> missing (g # gs) (max s (g_start g))"
      using hit "2.prems"(2) g by (auto simp: max_def)
    then have "\<not> (\<forall>x. s \<le> x \<and> x \<le> e \<longrightarrow> \<not> missing (g # gs) x)" by blast
    then show ?thesis using hit by simp
  next
    case behind
    then show ?thesis using "2.IH"[OF behind ok' "2.prems"(2)] by auto
  qed
qed simp

theorem pure_gap_iff:
  "gaps_ok fs gs \<Longrightarrow> s \<le> e \<Longrightarrow> isPureGap s e gs \<longleftrightarrow> (\<forall>x. s \<le> x \<and> x \<le> e \<longrightarrow> missing gs x)"
proof (induction s e gs rule: isPureGap.induct)
  case (2 s e g gs)
  note aft = after_first(2)[OF "2.prems"(1)]
  have ok': "gaps_ok fs gs" and g: "g_start g \<le> g_end g" "g_end g < fs" using "2.prems"(1) by (simp_all add: gaps_ok_Cons)
  consider (hit) "g_start g \<le> s \<and> g_end g \<ge> e" | (before) "\<not> (g_start g \<le> s \<and> g_end g \<ge> e)" "g_start g > s"
    | (behind) "\<not> (g_start g \<le> s \<and> g_end g \<ge> e)" "\<not> g_start g > s" by blast
  then show ?case
  proof cases
    case hit
    then show ?thesis by auto
  next
    case before
    then have "\<not> missing (g # gs) s" using aft[of s] g by (auto simp: word_order)
    then show ?thesis using before "2.prems"(2) by auto
  next
    case behind
    show ?thesis
    proof (cases "g_end g < s")
      case True
      have "missing (g # gs) x \<longleftrightarrow> missing gs x" if "s \<le> x" for x using True that by auto
      then show ?thesis using "2.IH"[OF behind ok' "2.prems"(2)] behind by auto
    next
      case False
      let ?x = "g_end g + 1"
      have u: "unat ?x = unat (g_end g) + 1" by (rule unat_inc[OF g(2)])
      have "\<not> missing (g # gs) ?x" "s \<le> ?x" "?x \<le> e"
        using False behind u aft[of ?x] by (auto simp: word_order)
      moreover have "\<not> missing gs s" using aft[of s] False by (auto simp: word_order)
      ultimately show ?thesis using "2.IH"[OF behind ok' "2.prems"(2)] behind "2.prems"(2) by auto
    qed
  qed
qed auto

section \<open>Sizes\<close>

lemma card_word_range: "(s::'a::len word) \<le> e \<Longrightarrow> card {x. s \<le> x \<and> x \<le> e} = unat e - unat s + 1"
proof -
  assume se: "s \<le> e"
  have "unat ` {x. s \<le> x \<and> x \<le> e} = {unat s..unat e}"
  proof (intro set_eqI iffI)
    fix n assume n: "n \<in> {unat s..unat e}"
    then have "n < 2 ^ LENGTH('a)" using unsigned_less[of e, where 'a = nat] by (auto intro: le_less_trans)
    then have "unat (of_nat n :: 'a word) = n" by (simp add: unsigned_of_nat take_bit_nat_eq_self)
    then show "n \<in> unat ` {x. s \<le> x \<and> x \<le> e}" using n by (auto simp: word_le_nat_alt intro!: image_eqI[of n unat "of_nat n"])
  qed (auto simp: word_le_nat_alt)
  moreover have "inj_on unat {x. s \<le> x \<and> x \<le> e}" by (rule inj_onI) (simp add: word_unat_eq_iff)
  ultimately show ?thesis using se card_image[of unat "{x. s \<le> x \<and> x \<le> e}"] by (simp add: word_le_nat_alt Suc_diff_le)
qed

lemma of_nat_range: "(s::'a::len word) \<le> e \<Longrightarrow> of_nat (card {x. s \<le> x \<and> x \<le> e}) = e - s + 1"
  using word_le_nat_alt[of s e] by (simp add: card_word_range of_nat_diff)

lemma gap_size_from_correct:
  "gaps_ok fs gs \<Longrightarrow> s \<le> e \<Longrightarrow> gap_size_from acc s e gs = acc + of_nat (card {x. s \<le> x \<and> x \<le> e \<and> missing gs x})"
proof (induction acc s e gs rule: gap_size_from.induct)
  case (2 acc s e g gs)
  note aft = after_first(2)[OF "2.prems"(1)]
  have ok': "gaps_ok fs gs" and g: "g_start g \<le> g_end g" using "2.prems"(1) by (simp_all add: gaps_ok_Cons)
  consider (before) "g_start g > e" | (behind) "\<not> g_start g > e" "g_end g < s"
    | (hit) "\<not> g_start g > e" "\<not> g_end g < s" by blast
  then show ?case
  proof cases
    case before
    have "{x. s \<le> x \<and> x \<le> e \<and> missing (g # gs) x} = {}" using before aft g by (fastforce simp: word_order)
    then have "card {x. s \<le> x \<and> x \<le> e \<and> missing (g # gs) x} = 0" by (simp only: card.empty)
    then show ?thesis using before by (simp only: gap_size_from.simps if_True) simp
  next
    case behind
    have "{x. s \<le> x \<and> x \<le> e \<and> missing (g # gs) x} = {x. s \<le> x \<and> x \<le> e \<and> missing gs x}" using behind by auto
    then show ?thesis using "2.IH"(1)[OF behind ok' "2.prems"(2)] behind by simp
  next
    case hit
    let ?a = "max (g_start g) s" and ?b = "min (g_end g) e"
    have "{x. s \<le> x \<and> x \<le> e \<and> missing (g # gs) x} = {x. ?a \<le> x \<and> x \<le> ?b} \<union> {x. s \<le> x \<and> x \<le> e \<and> missing gs x}"
      by auto
    moreover have "{x. ?a \<le> x \<and> x \<le> ?b} \<inter> {x. s \<le> x \<and> x \<le> e \<and> missing gs x} = {}"
      using aft by (fastforce simp: word_order min_def)
    ultimately have c: "card {x. s \<le> x \<and> x \<le> e \<and> missing (g # gs) x} =
        card {x. ?a \<le> x \<and> x \<le> ?b} + card {x. s \<le> x \<and> x \<le> e \<and> missing gs x}"
      by (simp add: card_Un_disjoint del: missing_Cons)
    have r: "of_nat (card {x. ?a \<le> x \<and> x \<le> ?b}) = ?b - ?a + 1"
      by (rule of_nat_range) (use hit g "2.prems"(2) in auto)
    have "gap_size_from acc s e (g # gs) = acc + (?b - ?a + 1) + of_nat (card {x. s \<le> x \<and> x \<le> e \<and> missing gs x})"
      using "2.IH"(2)[OF hit ok' "2.prems"(2)] hit by simp
    then show ?thesis unfolding c of_nat_add r by (simp only: add.assoc)
  qed
qed simp

lemma card_below: "card {x::u64. x < fs} = unat fs"
proof (cases "fs = 0")
  case False
  then have "{x. x < fs} = {x. 0 \<le> x \<and> x \<le> fs - 1}" using word_le_dec[of 0 fs] by (simp add: word_neq_0_conv)
  then show ?thesis using card_word_range[of 0 "fs - 1"] False unat_dec[of 0 fs]
    by (simp add: word_neq_0_conv word_less_nat_alt)
qed simp

lemma missing_below: "gaps_ok fs gs \<Longrightarrow> missing gs x \<Longrightarrow> x < fs"
  by (auto simp: gaps_ok_def missing_def intro: le_less_trans)

lemma card_missing_le: "gaps_ok fs gs \<Longrightarrow> card {x. P x \<and> missing gs x} \<le> unat fs"
  unfolding card_below[symmetric] by (rule card_mono) (auto dest: missing_below)

lemma unat_of_nat_small: "n \<le> unat (w::'a::len word) \<Longrightarrow> unat (of_nat n :: 'a word) = n"
  using unsigned_less[of w, where 'a = nat] by (auto simp add: unsigned_of_nat intro!: take_bit_nat_eq_self simp del: unsigned_less)

text \<open>The sizes are the numbers of missing bytes; no sum wraps.\<close>

theorem gap_size_in_range:
  assumes "gaps_ok fs gs" "s \<le> e"
  shows "unat (totalGapSizeInRange s e gs) = card {x. s \<le> x \<and> x \<le> e \<and> missing gs x}"
  using gap_size_from_correct[OF assms, of 0] card_missing_le[OF assms(1), of "\<lambda>x. s \<le> x \<and> x \<le> e"]
  by (simp add: totalGapSizeInRange_def conj_assoc unat_of_nat_small)

lemma total_is_range: "gaps_ok fs gs \<Longrightarrow> totalGapSize gs = totalGapSizeInRange 0 (- 1) gs"
proof -
  have "gaps_ok fs gs \<Longrightarrow> foldl (\<lambda>acc g. acc + (g_end g - g_start g + 1)) acc gs = gap_size_from acc 0 (- 1) gs" for acc
    by (induction gs arbitrary: acc) (auto simp: gaps_ok_Cons)
  then show "gaps_ok fs gs \<Longrightarrow> ?thesis" by (simp add: totalGapSize_def totalGapSizeInRange_def)
qed

theorem gap_size_total:
  assumes "gaps_ok fs gs"
  shows "unat (totalGapSize gs) = card {x. missing gs x}"
  using gap_size_in_range[OF assms, of 0 "- 1"] total_is_range[OF assms] by simp

theorem completed_size_correct:
  assumes "gaps_ok fs gs"
  shows "unat (completed_size fs gs) = card {x. x < fs \<and> \<not> missing gs x}"
proof -
  have "{x. x < fs \<and> \<not> missing gs x} = {x. x < fs} - {x. missing gs x}" by auto
  moreover have "{x. missing gs x} \<subseteq> {x. x < fs}" using missing_below[OF assms] by auto
  ultimately have "card {x. x < fs \<and> \<not> missing gs x} = unat fs - unat (totalGapSize gs)"
    by (simp add: card_Diff_subset gap_size_total[OF assms] card_below)
  then show ?thesis
    by (auto simp: completed_size_def word_less_nat_alt unat_sub_if')
qed

section \<open>The filled ranges\<close>

lemma filled_from_correct:
  "gaps_ok fs gs \<Longrightarrow> \<forall>g\<in>set gs. pos \<le> g_start g \<Longrightarrow> pos \<le> fs \<Longrightarrow>
   missing (filled_from fs pos gs) x \<longleftrightarrow> pos \<le> x \<and> x < fs \<and> \<not> missing gs x"
proof (induction fs pos gs rule: filled_from.induct)
  case (1 fs pos)
  then show ?case using word_le_dec[of pos fs x] by auto
next
  case (2 fs pos g gs)
  note aft = after_first[OF "2.prems"(1)]
  have g: "gaps_ok fs gs" "g_start g \<le> g_end g" "g_end g < fs" using "2.prems"(1) by (simp_all add: gaps_ok_Cons)
  note u = unat_inc[OF g(3)] and inc = word_inc_le[OF g(3)]
  have "missing (filled_from fs (g_end g + 1) gs) x \<longleftrightarrow> g_end g + 1 \<le> x \<and> x < fs \<and> \<not> missing gs x"
    by (rule "2.IH"[OF g(1)]) (use aft(1) u g(3) in \<open>fastforce simp: word_order\<close>)+
  moreover have "missing (if g_start g > pos then [Gap pos (g_start g - 1)] else []) x \<longleftrightarrow> pos \<le> x \<and> x < g_start g"
    using word_le_dec[of pos "g_start g" x] "2.prems"(2) by auto
  ultimately have *: "missing (filled_from fs pos (g # gs)) x \<longleftrightarrow> (pos \<le> x \<and> x < g_start g) \<or> (g_end g < x \<and> x < fs \<and> \<not> missing gs x)"
    by (auto simp: inc)
  show ?case
  proof (cases "missing gs x")
    case True
    then have "g_end g < x" "\<not> x < g_start g" using aft(2)[OF True] g(2) by (auto simp: word_order)
    then show ?thesis using * True by simp
  next
    case False
    then show ?thesis using * "2.prems"(2) g by auto
  qed
qed

theorem filled_is_complement:
  "gaps_ok fs gs \<Longrightarrow> missing (getFilledArray fs gs) x \<longleftrightarrow> x < fs \<and> \<not> missing gs x"
  using filled_from_correct[of fs gs 0 x] by (simp add: getFilledArray_def)

section \<open>Loading the gaps again\<close>

lemma gaps_ok_snoc:
  "gaps_ok fs (gs @ [g]) \<longleftrightarrow> gaps_ok fs gs \<and> g_start g \<le> g_end g \<and> g_end g < fs \<and> (\<forall>a\<in>set gs. g_end a + 1 < g_start g)"
  by (auto simp: gaps_ok_def sorted_wrt_append)

definition spans :: "(u64 \<times> u64) list \<Rightarrow> u64 \<Rightarrow> bool" where
  "spans ps x = (\<exists>(s, e)\<in>set ps. s \<le> x \<and> x \<le> e)"

lemma spans_Cons [simp]: "spans ((s, e) # ps) x \<longleftrightarrow> (s \<le> x \<and> x \<le> e) \<or> spans ps x"
  by (auto simp: spans_def)

lemma spans_Nil [simp]: "\<not> spans [] x"
  by (simp add: spans_def)

lemma spans_append [simp]: "spans (ps @ qs) x \<longleftrightarrow> spans ps x \<or> spans qs x"
  by (auto simp: spans_def)

text \<open>The pairs come sorted, so each one starts at or after the last gap.\<close>

lemma load_loop_correct:
  "gaps_ok fs gs \<Longrightarrow> sorted (map fst ps) \<Longrightarrow> (gs \<noteq> [] \<longrightarrow> (\<forall>p\<in>set ps. g_start (last gs) \<le> fst p)) \<Longrightarrow>
   gaps_ok fs (load_loop fs gs ps) \<and> (missing (load_loop fs gs ps) x \<longleftrightarrow> missing gs x \<or> (x < fs \<and> spans ps x))"
proof (induction fs gs ps rule: load_loop.induct)
  case (2 fs gs s e0 ps)
  note ok = "2.prems"(1) and lst = "2.prems"(3)
  have srt: "sorted (map fst ps)" and first: "\<forall>p\<in>set ps. s \<le> fst p" using "2.prems"(2) by auto
  let ?e = "if e0 \<ge> fs then fs - 1 else e0"
  have out: "\<not> (s \<le> x \<and> x \<le> e0) \<or> \<not> x < fs" if "fs = 0 \<or> s \<ge> fs" using that by auto
  consider (out) "fs = 0 \<or> s \<ge> fs" | (empty) "\<not> (fs = 0 \<or> s \<ge> fs)" "s > ?e"
    | (joins) "\<not> (fs = 0 \<or> s \<ge> fs)" "\<not> s > ?e" "gs \<noteq> [] \<and> s \<le> g_end (last gs) + 1"
    | (new) "\<not> (fs = 0 \<or> s \<ge> fs)" "\<not> s > ?e" "\<not> (gs \<noteq> [] \<and> s \<le> g_end (last gs) + 1)" by blast
  then show ?case
  proof cases
    case out
    then show ?thesis using "2.IH"(1)[OF out ok srt] lst by auto
  next
    case empty
    have c: "?e < fs \<and> (x \<le> ?e \<longleftrightarrow> x \<le> e0 \<and> x < fs)" using clamp_end empty by blast
    have "load_loop fs gs ((s, e0) # ps) = load_loop fs gs ps" using empty by (simp add: Let_def)
    then show ?thesis using "2.IH"(2)[OF empty(1) refl empty(2) ok srt] lst c empty by auto
  next
    case joins
    have c: "?e < fs \<and> (x \<le> ?e \<longleftrightarrow> x \<le> e0 \<and> x < fs)" using clamp_end joins by blast
    obtain hs g where gs: "gs = hs @ [g]" using joins(3) by (metis append_butlast_last_id)
    let ?g = "g\<lparr>g_end := max (g_end g) ?e\<rparr>"
    have g: "g_start g \<le> g_end g" "g_end g < fs" "g_start g \<le> s" using ok lst unfolding gs by (auto simp: gaps_ok_snoc)
    have st: "load_loop fs gs ((s, e0) # ps) = load_loop fs (hs @ [?g]) ps" using joins gs by (simp add: Let_def)
    have u: "unat (g_end g + 1) = unat (g_end g) + 1" by (rule unat_inc[OF g(2)])
    have ok': "gaps_ok fs (hs @ [?g])" using ok c g unfolding gs gaps_ok_snoc by (auto simp: max_def)
    have "g_start ?g \<le> x \<and> x \<le> g_end ?g \<longleftrightarrow> (g_start g \<le> x \<and> x \<le> g_end g) \<or> (s \<le> x \<and> x \<le> ?e)"
      using joins(2,3) g u unfolding gs by (auto simp: word_order max_def split: if_splits)
    then have "missing (hs @ [?g]) x \<longleftrightarrow> missing gs x \<or> (x < fs \<and> s \<le> x \<and> x \<le> e0)" using c unfolding gs by auto
    moreover have q: "hs @ [?g] \<noteq> [] \<longrightarrow> (\<forall>p\<in>set ps. g_start (last (hs @ [?g])) \<le> fst p)"
      using first g(3) by (auto intro: order_trans)
    have "gaps_ok fs (load_loop fs (hs @ [?g]) ps) \<and>
        (missing (load_loop fs (hs @ [?g]) ps) x \<longleftrightarrow> missing (hs @ [?g]) x \<or> (x < fs \<and> spans ps x))"
      using "2.IH"(3)[OF joins(1) refl joins(2,3)] ok' srt q unfolding gs butlast_snoc last_snoc by blast
    ultimately show ?thesis unfolding st by auto
  next
    case new
    have c: "?e < fs \<and> (x \<le> ?e \<longleftrightarrow> x \<le> e0 \<and> x < fs)" using clamp_end new by blast
    have st: "load_loop fs gs ((s, e0) # ps) = load_loop fs (gs @ [Gap s ?e]) ps"
      unfolding load_loop.simps Let_def using new by (simp only: if_False)
    have "g_end a + 1 < s" if a: "a \<in> set gs" for a
    proof -
      obtain hs g where gs: "gs = hs @ [g]" using a by (metis append_butlast_last_id empty_iff list.set(1))
      have g: "g_end g + 1 < s" "gaps_ok fs (hs @ [g])" using new(3) ok unfolding gs by auto
      then have "unat (g_end g + 1) = unat (g_end g) + 1" using unat_inc[of "g_end g" fs] by (auto simp: gaps_ok_snoc)
      then show ?thesis using a g unfolding gs by (auto simp: gaps_ok_snoc word_order)
    qed
    then have ok': "gaps_ok fs (gs @ [Gap s ?e])" using ok new c by (simp add: gaps_ok_snoc)
    have "missing (gs @ [Gap s ?e]) x \<longleftrightarrow> missing gs x \<or> (x < fs \<and> s \<le> x \<and> x \<le> e0)" using c by auto
    moreover have "gaps_ok fs (load_loop fs (gs @ [Gap s ?e]) ps) \<and>
        (missing (load_loop fs (gs @ [Gap s ?e]) ps) x \<longleftrightarrow> missing (gs @ [Gap s ?e]) x \<or> (x < fs \<and> spans ps x))"
      using "2.IH"(4)[OF new(1) refl new(2,3) ok' srt] first by auto
    ultimately show ?thesis unfolding st by auto
  qed
qed simp

text \<open>Whatever a file says, the loaded list is ordered and free of overlaps.\<close>

theorem load_gaps_correct:
  "gaps_ok fs (load_gaps fs ps) \<and> (missing (load_gaps fs ps) x \<longleftrightarrow> x < fs \<and> spans ps x)"
proof -
  have "sorted (map fst (sort ps))"
    unfolding sorted_map by (rule sorted_wrt_mono_rel[OF _ sorted_sort]) (auto simp: less_eq_prod_def)
  moreover have "spans (sort ps) x \<longleftrightarrow> spans ps x" by (simp add: spans_def)
  ultimately show ?thesis using load_loop_correct[of fs "[]" "sort ps" x] by (simp add: load_gaps_def)
qed

definition ranges_in :: "u64 \<Rightarrow> (u64 \<times> u64) list \<Rightarrow> bool" where
  "ranges_in fs ps = (\<forall>(s, e)\<in>set ps. s \<le> e \<and> e < fs)"

lemma ucast_down_up: "(w::u64) \<le> OLD_MAX_SIZE64 \<Longrightarrow> ucast (ucast w :: u32) = w"
proof -
  assume "w \<le> OLD_MAX_SIZE64"
  then have "unat w < 2 ^ 32" by (simp add: OLD_MAX_SIZE64_def word_le_nat_alt)
  then show ?thesis by (simp add: word_unat_eq_iff unsigned_ucast_eq unsigned_take_bit_eq take_bit_nat_eq_self)
qed

lemma read_write_gap:
  assumes "s \<le> e" "e < fs" "fs < - 1"
  shows "read_gap_pairs (write_gap fs s e # ws) = (s, e) # read_gap_pairs ws"
proof -
  have u: "unat (e + 1) = unat e + 1" by (rule unat_inc[OF assms(2)])
  have le: "e + 1 \<le> fs" "s \<le> fs" using assms u by (auto simp: word_order)
  have w: "write_gap fs s e = (s, e + 1)"
    using ucast_down_up[of s] ucast_down_up[of "e + 1"] le by (auto simp: write_gap_def)
  have "e + 1 < - 1" by (rule le_less_trans[OF le(1) assms(3)])
  then have "e + 1 \<noteq> - 1" by (rule less_imp_neq)
  moreover have "s \<noteq> - 1" using le(2) assms(3) by auto
  moreover have "0 < e + 1" using u by (simp add: word_less_nat_alt)
  ultimately show ?thesis unfolding w by (simp add: read_gap_pairs_def)
qed

lemma read_append [simp]: "read_gap_pairs (ws @ vs) = read_gap_pairs ws @ read_gap_pairs vs"
  by (simp add: read_gap_pairs_def)

lemma read_Nil [simp]: "read_gap_pairs [] = []"
  by (simp add: read_gap_pairs_def)

lemma pending_read:
  "s \<le> e \<Longrightarrow> e < fs \<Longrightarrow> ranges_in fs ps \<Longrightarrow> fs < - 1 \<Longrightarrow>
   spans (read_gap_pairs (merge_pending fs s e ps)) x \<longleftrightarrow> (s \<le> x \<and> x \<le> e) \<or> spans ps x"
proof (induction fs s e ps rule: merge_pending.induct)
  case (1 fs s e)
  then show ?case by (simp add: read_write_gap)
next
  case (2 fs s e s' e' ps)
  have ps: "s' \<le> e'" "e' < fs" "ranges_in fs ps" using "2.prems"(3) by (auto simp: ranges_in_def)
  show ?case
  proof (cases "s' = e + 1")
    case True
    have u: "unat s' = unat e + 1" using unat_inc[OF "2.prems"(2)] True by simp
    then have "s \<le> e'" using "2.prems"(1) ps(1) by (simp add: word_order)
    moreover have "s \<le> x \<and> x \<le> e' \<longleftrightarrow> (s \<le> x \<and> x \<le> e) \<or> (s' \<le> x \<and> x \<le> e')"
      using u "2.prems"(1) ps(1) unfolding word_order by linarith
    ultimately show ?thesis using "2.IH"(1)[OF True] ps "2.prems"(4) True by auto
  next
    case False
    then show ?thesis using "2.IH"(2)[OF False ps "2.prems"(4)] "2.prems" by (simp add: read_write_gap)
  qed
qed

lemma pending_gaps_read:
  "ranges_in fs ps \<Longrightarrow> fs < - 1 \<Longrightarrow> spans (read_gap_pairs (pending_gaps fs ps)) x \<longleftrightarrow> spans ps x"
  by (auto simp: pending_gaps_def ranges_in_def pending_read split: list.splits)

lemma reload_missing:
  assumes "gaps_ok fs gs" "ranges_in fs buffered" "ranges_in fs flushing" "fs < - 1"
  shows "missing (load_gaps fs (read_gap_pairs (saved_gaps fs gs buffered flushing))) x \<longleftrightarrow>
    missing gs x \<or> spans buffered x \<or> spans flushing x"
proof -
  have "\<forall>g\<in>set gs. g_start g \<le> g_end g \<and> g_end g < fs \<Longrightarrow>
      spans (read_gap_pairs (map (\<lambda>g. write_gap fs (g_start g) (g_end g)) gs)) x \<longleftrightarrow> missing gs x"
    by (induction gs) (simp_all add: read_write_gap assms(4))
  moreover have "spans ps x \<Longrightarrow> x < fs" if "ranges_in fs ps" for ps
    using that by (auto simp: spans_def ranges_in_def intro: le_less_trans)
  ultimately show ?thesis
    using assms missing_below[OF assms(1), of x] pending_gaps_read[OF assms(2,4), of x] pending_gaps_read[OF assms(3,4), of x]
    by (auto simp: load_gaps_correct[THEN conjunct2] saved_gaps_def gaps_ok_def)
qed

text \<open>C26. What a reload of the saved .part.met asks for again is what was missing together with every range that
  was still in memory, on its way to the disk or not: a crash loses no byte and trusts none that was not written.\<close>

theorem reload_requests_unwritten:
  assumes "gaps_ok fs gs" "ranges_in fs buffered" "ranges_in fs flushing" "fs < - 1"
  shows "missing (load_gaps fs (read_gap_pairs (saved_gaps fs gs buffered flushing))) x \<longleftrightarrow>
    missing gs x \<or> spans buffered x \<or> spans flushing x"
  by (rule reload_missing[OF assms])

theorem reload_requests_unwritten_witness:
  "missing (load_gaps 1000 (read_gap_pairs (saved_gaps 1000 [Gap 100 199] [(0, 9)] [(500, 599)]))) 5 \<and>
   \<not> missing (load_gaps 1000 (read_gap_pairs (saved_gaps 1000 [Gap 100 199] [(0, 9)] [(500, 599)]))) 10"
  using reload_requests_unwritten[of 1000 "[Gap 100 199]" "[(0, 9)]" "[(500, 599)]" 5]
    reload_requests_unwritten[of 1000 "[Gap 100 199]" "[(0, 9)]" "[(500, 599)]" 10]
  by (simp add: gaps_ok_def ranges_in_def spans_def missing_def)

end
