(* ===== verification/Part_Blocks.thy ===== *)
theory Part_Blocks
  imports Part_Gaps "HOL-Library.Monad_Syntax"
begin

text \<open>
  Which blocks a source is asked for (src/core/files/PartFile.cpp): the next missing block of a
  part, the free part of it, the ranking of the parts, and the requests made.  A source is what
  the choice reads of the client.  The two random choices, the shuffle before the sort and the
  number drawn for a common part, are parameters; a loop that never ended would give None.
\<close>

record request =
  rb_start :: u64
  rb_end :: u64
  rb_holder :: "nat option"
  rb_requested :: bool
  rb_tick :: u64

record buffered =
  bd_start :: u64
  bd_end :: u64
  bd_data :: "u8 list"

record source =
  s_id :: nat
  s_completeSource :: bool
  s_partStatus :: "u8 list"
  s_partCount :: u16
  s_downDatarate :: u32
  s_sessionDown :: u64
  s_lastPartAsked :: u16
  s_isEMule :: bool
  s_clientVersion :: u32

record part_file =
  pf_fileSize :: u64
  pf_gapList :: "gap list"
  pf_requestedBlocks :: "request list"
  pf_bufferedData :: "buffered list"
  pf_flushingData :: "buffered list"
  pf_datarate :: u32
  pf_srcPartFrequency :: "u16 list"
  pf_sourceCount :: nat
  pf_a4afCount :: nat
  pf_downloadingSources :: "source list"

definition makeClientVersion :: "u32 \<Rightarrow> u32 \<Rightarrow> u32 \<Rightarrow> u32" where
  "makeClientVersion major minor update = ((major * 100 + minor) * 10 + update) * 100"

definition isPartAvailable :: "u32 \<Rightarrow> source \<Rightarrow> bool" where
  "isPartAvailable part s =
     (if s_completeSource s \<and> s_partStatus s = [] then part < ucast (s_partCount s)
      else if unat part \<ge> length (s_partStatus s) then False
      else s_partStatus s ! unat part \<noteq> 0)"

section \<open>Free blocks\<close>

fun first_block :: "u64 \<Rightarrow> u64 \<Rightarrow> u64 \<Rightarrow> gap list \<Rightarrow> (u64 \<times> u64) option" where
  "first_block partStart eff partEnd [] = None"
| "first_block partStart eff partEnd (g # gs) =
     (if g_start g > partEnd then None
      else if g_end g < eff then first_block partStart eff partEnd gs
      else let blockStart = max (g_start g) eff;
               blockEnd = min (g_end g) partEnd;
               blockLimit = partStart + ((blockStart - partStart) div EMBLOCK64 + 1) * EMBLOCK64 - 1
           in Some (blockStart, min blockEnd blockLimit))"

definition getNextEmptyBlockInPart :: "u32 \<Rightarrow> u64 \<Rightarrow> part_file \<Rightarrow> (u64 \<times> u64) option" where
  "getNextEmptyBlockInPart part searchFrom f =
     (let partStart = ucast part * PART64;
          partEnd = part_end (pf_fileSize f) partStart;
          eff = max partStart searchFrom
      in if eff > partEnd then None else first_block partStart eff partEnd (pf_gapList f))"

definition isAlreadyRequested :: "u64 \<Rightarrow> u64 \<Rightarrow> part_file \<Rightarrow> bool" where
  "isAlreadyRequested s e f = (\<exists>b\<in>set (pf_requestedBlocks f). rb_start b \<le> e \<and> rb_end b \<ge> s)"

definition shrink :: "u64 \<Rightarrow> u64 \<Rightarrow> u64 \<Rightarrow> u64 \<Rightarrow> (u64 \<times> u64) option" where
  "shrink takenStart takenEnd s e =
     (if takenStart > e \<or> takenEnd < s then Some (s, e)
      else if takenStart > s then (let e' = takenStart - 1 in if s \<le> e' then Some (s, e') else None)
      else if takenEnd < e then (let s' = takenEnd + 1 in if s' \<le> e then Some (s', e) else None)
      else None)"

fun shrink_all :: "(u64 \<times> u64) list \<Rightarrow> u64 \<Rightarrow> u64 \<Rightarrow> (u64 \<times> u64) option" where
  "shrink_all [] s e = Some (s, e)"
| "shrink_all ((ts, te) # ts') s e =
     (case shrink ts te s e of None \<Rightarrow> None | Some (s', e') \<Rightarrow> shrink_all ts' s' e')"

definition taken_ranges :: "part_file \<Rightarrow> (u64 \<times> u64) list" where
  "taken_ranges f =
     map (\<lambda>b. (rb_start b, rb_end b)) (pf_requestedBlocks f) @
     map (\<lambda>b. (bd_start b, bd_end b)) (pf_bufferedData f) @
     map (\<lambda>b. (bd_start b, bd_end b)) (pf_flushingData f)"

definition shrinkToAvoidAlreadyRequested :: "u64 \<Rightarrow> u64 \<Rightarrow> part_file \<Rightarrow> (u64 \<times> u64) option" where
  "shrinkToAvoidAlreadyRequested s e f = shrink_all (taken_ranges f) s e"

datatype end_phase = Normal | Late | Endgame

definition endPhase :: "part_file \<Rightarrow> end_phase" where
  "endPhase f =
     (let fs = pf_fileSize f; left = totalGapSize (pf_gapList f)
      in if fs = 0 \<or> left = 0 then Normal
         else if left \<le> 3 * EMBLOCK64 \<or> left \<le> fs div 1000 \<or> left \<le> ucast (pf_datarate f) * 30 then Endgame
         else if left \<le> fs div 10 then Late else Normal)"

definition kStalledBlockMs :: u64 where "kStalledBlockMs = 15000"
definition kSlowSourceFactor :: u64 where "kSlowSourceFactor = 5"
definition kSlowReservationSecs :: u64 where "kSlowReservationSecs = 10"
definition kMinSlowReservation :: u64 where "kMinSlowReservation = 16 * 1024"

text \<open>The one request that overlaps the range, unless two do or the sender holds it.\<close>

fun only_holder :: "nat \<Rightarrow> u64 \<Rightarrow> u64 \<Rightarrow> request option \<Rightarrow> request list \<Rightarrow> request option option" where
  "only_holder sender s e held [] = Some held"
| "only_holder sender s e held (b # bs) =
     (if rb_start b > e \<or> rb_end b < s then only_holder sender s e held bs
      else if held \<noteq> None \<or> rb_holder b = Some sender then None
      else only_holder sender s e (Some b) bs)"

text \<open>\<open>clients\<close> finds the holder of a request.\<close>

definition maySecondSourceTake :: "(nat \<Rightarrow> source) \<Rightarrow> u64 \<Rightarrow> source \<Rightarrow> u64 \<Rightarrow> u64 \<Rightarrow> end_phase \<Rightarrow> part_file \<Rightarrow> bool" where
  "maySecondSourceTake clients now sender s e phase f =
     (case only_holder (s_id sender) s e None (pf_requestedBlocks f) of
        None \<Rightarrow> False
      | Some None \<Rightarrow> False
      | Some (Some held) \<Rightarrow>
          (case rb_holder held of
             None \<Rightarrow> False
           | Some h \<Rightarrow>
               if \<not> rb_requested held \<and> s_sessionDown (clients h) = 0 then True
               else if now - rb_tick held \<ge> kStalledBlockMs then True
               else phase = Endgame \<and> s_downDatarate sender > 0 \<and>
                    ucast (s_downDatarate sender) \<ge> ucast (s_downDatarate (clients h)) * kSlowSourceFactor))"

text \<open>The block found and where the search goes on.\<close>

partial_function (option) nextFreeBlock ::
  "(nat \<Rightarrow> source) \<Rightarrow> u64 \<Rightarrow> source \<Rightarrow> end_phase \<Rightarrow> part_file \<Rightarrow> u32 \<Rightarrow> u64 \<Rightarrow> (u64 \<times> u64) option option" where
  "nextFreeBlock clients now sender phase f part searchFrom =
     (case getNextEmptyBlockInPart part searchFrom f of
        None \<Rightarrow> Some None
      | Some (s, e) \<Rightarrow>
          (case shrinkToAvoidAlreadyRequested s e f of
             Some (s', e') \<Rightarrow> Some (Some (s', e'))
           | None \<Rightarrow>
               if phase \<noteq> Normal \<and> maySecondSourceTake clients now sender s e phase f then Some (Some (s, e))
               else nextFreeBlock clients now sender phase f part (e + 1)))"

definition slowReservation :: "source \<Rightarrow> end_phase \<Rightarrow> part_file \<Rightarrow> u32 \<Rightarrow> u64" where
  "slowReservation sender phase f part =
     (if phase = Normal then 0
      else let fastest = foldl (\<lambda>m other. if s_id other \<noteq> s_id sender \<and> (s_completeSource other \<or> isPartAvailable part other)
                                    then max m (s_downDatarate other) else m) 0 (pf_downloadingSources f);
               mine = ucast (s_downDatarate sender) :: u64
           in if fastest = 0 \<or> mine * kSlowSourceFactor > ucast fastest then 0
              else if mine = 0 then EMBLOCK64
              else max (mine * kSlowReservationSecs) kMinSlowReservation)"

definition new_request :: "nat \<Rightarrow> u64 \<Rightarrow> u64 \<Rightarrow> u64 \<Rightarrow> request" where
  "new_request holder now s e = \<lparr>rb_start = s, rb_end = e, rb_holder = Some holder, rb_requested = False, rb_tick = now\<rparr>"

text \<open>The state of an allocation: the file, the blocks found, and how many are wanted.\<close>

record alloc =
  al_file :: part_file
  al_found :: "request list"
  al_count :: int

partial_function (option) allocate_loop ::
  "(nat \<Rightarrow> source) \<Rightarrow> u64 \<Rightarrow> source \<Rightarrow> end_phase \<Rightarrow> u32 \<Rightarrow> u64 \<Rightarrow> u64 \<Rightarrow> alloc \<Rightarrow> alloc option" where
  "allocate_loop clients now sender phase part limit searchFrom a =
     (if int (length (al_found a)) \<ge> al_count a then Some a
      else do {
        r \<leftarrow> nextFreeBlock clients now sender phase (al_file a) part searchFrom;
        (case r of
           None \<Rightarrow> Some a
         | Some (s, e0) \<Rightarrow>
             let e = (if limit > 0 \<and> e0 - s + 1 > limit then s + limit - 1 else e0);
                 b = new_request (s_id sender) now s e;
                 a' = a\<lparr>al_file := (al_file a)\<lparr>pf_requestedBlocks := pf_requestedBlocks (al_file a) @ [b]\<rparr>,
                        al_found := al_found a @ [b]\<rparr>
             in if limit > 0 then Some (a'\<lparr>al_count := int (length (al_found a'))\<rparr>)
                else allocate_loop clients now sender phase part limit (e0 + 1) a')
      })"

definition allocateFromPart ::
  "(nat \<Rightarrow> source) \<Rightarrow> u64 \<Rightarrow> source \<Rightarrow> end_phase \<Rightarrow> u32 \<Rightarrow> alloc \<Rightarrow> alloc option" where
  "allocateFromPart clients now sender phase part a =
     allocate_loop clients now sender phase part (slowReservation sender phase (al_file a) part) 0 a"

section \<open>Ranking the parts\<close>

definition senderHasPart :: "source \<Rightarrow> u32 \<Rightarrow> bool" where
  "senderHasPart sender p =
     (s_completeSource sender \<or> (unat p < length (s_partStatus sender) \<and> s_partStatus sender ! unat p \<noteq> 0))"

text \<open>\<open>wanted\<close>: the preferences and the file type ask for the preview parts first.\<close>

definition isPreviewPart :: "bool \<Rightarrow> part_file \<Rightarrow> u32 \<Rightarrow> bool" where
  "isPreviewPart wanted f p =
     (let fs = pf_fileSize f; pc = ucast (data_part_count fs) :: u32;
          partEnd = min (ucast p * PART64 + PART64) fs - 1
      in wanted \<and> fs > 2 * PART64 \<and>
         (p = 0 \<or> p = pc - 1 \<or> (p = pc - 2 \<and> fs - partEnd < PART64 div 3)))"

record candidate_part =
  cp_part :: u32
  cp_rank :: u32
  cp_preview :: bool

definition veryRareBound :: "part_file \<Rightarrow> u16" where
  "veryRareBound f = of_nat (max ((pf_sourceCount f + 9) div 10) 3)"

definition rareBound :: "part_file \<Rightarrow> u16" where
  "rareBound f = 2 * veryRareBound f"

definition almostRareBound :: "part_file \<Rightarrow> u16" where
  "almostRareBound f = 4 * veryRareBound f"

text \<open>The bytes of the part that are there or requested, and whether any are requested.\<close>

definition part_progress :: "part_file \<Rightarrow> u32 \<Rightarrow> u64 \<times> bool" where
  "part_progress f p =
     (let fs = pf_fileSize f; partStart = ucast p * PART64; partEnd = min (partStart + PART64) fs - 1;
          have_size = (partEnd - partStart + 1) - totalGapSizeInPart fs p (pf_gapList f);
          step = (\<lambda>(sz, req) b. if rb_start b > partEnd \<or> rb_end b < partStart then (sz, req)
                    else (sz + (min (rb_end b) partEnd - max (rb_start b) partStart + 1), True));
          (sz, req) = foldl step (have_size, False) (pf_requestedBlocks f)
      in (min sz PART64, req))"

definition transfer_scores :: "part_file \<Rightarrow> u32 \<Rightarrow> u64 \<Rightarrow> u16 \<times> u16" where
  "transfer_scores f p partSize =
     (let n = of_nat (length (pf_downloadingSources f)) :: u16;
          step = (\<lambda>(c, total) s. if isPartAvailable p s then (c - 1, total + ucast (s_downDatarate s + 500)) else (c, total));
          (c, total) = foldl step (n, 1) (pf_downloadingSources f)
      in if n > 1 then (c, ucast (min ((PART64 - partSize) div (total * 5)) 2000)) else (n, 2000))"

definition flag :: "bool \<Rightarrow> u32" where
  "flag b = (if b then 1 else 0)"

text \<open>\<open>draw lo hi\<close> is the number drawn for a part whose frequency is between the rare bounds.\<close>

definition part_rank :: "(u32 \<Rightarrow> u32 \<Rightarrow> u32) \<Rightarrow> bool \<Rightarrow> source \<Rightarrow> part_file \<Rightarrow> u32 \<Rightarrow> u32" where
  "part_rank draw critPreview sender f p =
     (let freq16 = (if unat p < length (pf_srcPartFrequency f) then pf_srcPartFrequency f ! unat p else 0);
          freq = ucast freq16 :: u32;
          (partSize, critRequested) = part_progress f p;
          critCompletion = ucast (ucast (min ((partSize * 100 + PART64 - 1) div PART64) 100) :: u16) :: u32;
          sameChunk = (p = ucast (s_lastPartAsked sender));
          (clientsScore, bandwidthScore) = transfer_scores f p partSize;
          clients32 = ucast clientsScore; bandwidth32 = ucast bandwidthScore;
          a4afHeavy = (pf_sourceCount f \<le> pf_a4afCount f);
          rare32 = ucast (rareBound f) :: u32; almost32 = ucast (almostRareBound f) :: u32
      in if critPreview then
           (if critRequested \<and> \<not> sameChunk then 20000 else 10000) + (100 - critCompletion)
         else if partSize > 0 \<and> a4afHeavy then
           freq + 200 + flag (\<not> critRequested) + (100 - critCompletion) + flag (\<not> sameChunk) + bandwidth32
         else if freq16 \<le> veryRareBound f then
           75 * freq + flag (\<not> critRequested) + (if critRequested then 3000 else 3001) + (100 - critCompletion)
             + flag (\<not> sameChunk) + clients32
         else if freq16 \<le> rareBound f then
           25 * freq + (if critRequested then 10101 else 10102) + (100 - critCompletion) + flag (\<not> sameChunk) + clients32
         else if freq16 \<le> almostRareBound f then
           freq + (if critRequested then 20101 else 20201 + almost32 - rare32) + (if partSize > 0 then 0 else 500)
             + 5 * (100 - critCompletion) + (if sameChunk then 0 else draw 1 (1 + almost32 - rare32)) + bandwidth32
         else
           (if critRequested then 30000 else 30001) + (100 - critCompletion) + flag (\<not> sameChunk) + bandwidth32)"

text \<open>The parts the sender has with a block to give, in the order of the part numbers.\<close>

fun part_candidates ::
  "(nat \<Rightarrow> source) \<Rightarrow> u64 \<Rightarrow> (u32 \<Rightarrow> u32 \<Rightarrow> u32 \<Rightarrow> u32) \<Rightarrow> bool \<Rightarrow> source \<Rightarrow> end_phase \<Rightarrow> part_file \<Rightarrow> u32 \<Rightarrow> u32 list
   \<Rightarrow> candidate_part list option" where
  "part_candidates clients now draw wanted sender phase f lastPart [] = Some []"
| "part_candidates clients now draw wanted sender phase f lastPart (p # ps) =
     (if p = lastPart \<or> \<not> senderHasPart sender p
      then part_candidates clients now draw wanted sender phase f lastPart ps
      else do {
        r \<leftarrow> nextFreeBlock clients now sender phase f p 0;
        cs \<leftarrow> part_candidates clients now draw wanted sender phase f lastPart ps;
        Some (if r = None then cs
              else \<lparr>cp_part = p, cp_rank = part_rank (draw p) (isPreviewPart wanted f p) sender f p,
                     cp_preview = isPreviewPart wanted f p\<rparr> # cs)
      })"

text \<open>Whether a preview part is still open on this source.\<close>

fun preview_open ::
  "(nat \<Rightarrow> source) \<Rightarrow> u64 \<Rightarrow> bool \<Rightarrow> source \<Rightarrow> end_phase \<Rightarrow> part_file \<Rightarrow> u32 list \<Rightarrow> bool option" where
  "preview_open clients now wanted sender phase f [] = Some False"
| "preview_open clients now wanted sender phase f (p # ps) =
     (if isPreviewPart wanted f p \<and> senderHasPart sender p
      then do {
        r \<leftarrow> nextFreeBlock clients now sender phase f p 0;
        if r \<noteq> None then Some True else preview_open clients now wanted sender phase f ps
      }
      else preview_open clients now wanted sender phase f ps)"

fun allocate_candidates ::
  "(nat \<Rightarrow> source) \<Rightarrow> u64 \<Rightarrow> end_phase \<Rightarrow> candidate_part list \<Rightarrow> source \<Rightarrow> alloc \<Rightarrow> (source \<times> alloc) option" where
  "allocate_candidates clients now phase [] sender a = Some (sender, a)"
| "allocate_candidates clients now phase (c # cs) sender a =
     (if int (length (al_found a)) \<ge> al_count a then Some (sender, a)
      else do {
        a' \<leftarrow> allocateFromPart clients now sender phase (cp_part c) a;
        allocate_candidates clients now phase cs
          (if length (al_found a') > length (al_found a) then sender\<lparr>s_lastPartAsked := ucast (cp_part c)\<rparr> else sender) a'
      })"

definition order_candidates :: "(candidate_part list \<Rightarrow> candidate_part list) \<Rightarrow> candidate_part list \<Rightarrow> candidate_part list" where
  "order_candidates shuffle cs = sort_key (\<lambda>c. (\<not> cp_preview c, cp_rank c)) (shuffle cs)"

definition part_numbers :: "part_file \<Rightarrow> u32 list" where
  "part_numbers f = map of_nat [0..<unat (data_part_count (pf_fileSize f))]"

text \<open>The outcome: whether a block was found, the file, the sender, and the blocks.\<close>

definition getNextRequestedBlock ::
  "(nat \<Rightarrow> source) \<Rightarrow> u64 \<Rightarrow> (u32 \<Rightarrow> u32 \<Rightarrow> u32 \<Rightarrow> u32) \<Rightarrow> (candidate_part list \<Rightarrow> candidate_part list) \<Rightarrow> bool
   \<Rightarrow> source \<Rightarrow> int \<Rightarrow> part_file \<Rightarrow> (bool \<times> part_file \<times> source \<times> request list) option" where
  "getNextRequestedBlock clients now draw shuffle wanted sender count0 f =
     (if count0 \<le> 0 then Some (False, f, sender, [])
      else if s_partStatus sender = [] \<and> \<not> s_completeSource sender then Some (False, f, sender, [])
      else
        let pc = ucast (data_part_count (pf_fileSize f)) :: u32; phase = endPhase f;
            last0 = (if s_lastPartAsked sender \<noteq> - 1 \<and> (\<not> s_isEMule sender \<or> s_clientVersion sender < makeClientVersion 0 43 1)
                     then - 1 else s_lastPartAsked sender) :: u16;
            a0 = \<lparr>al_file = f, al_found = [], al_count = count0\<rparr>
        in do {
          opened \<leftarrow> (if ucast last0 < pc \<and> \<not> isPreviewPart wanted f (ucast last0)
                    then preview_open clients now wanted sender phase f (part_numbers f) else Some False);
          let lastPart = (if opened then - 1 else last0);
          a1 \<leftarrow> (if ucast lastPart < pc \<and> senderHasPart sender (ucast lastPart)
                then allocateFromPart clients now sender phase (ucast lastPart) a0 else Some a0);
          if ucast lastPart < pc \<and> senderHasPart sender (ucast lastPart) \<and> int (length (al_found a1)) \<ge> al_count a1
          then Some (True, al_file a1, sender, al_found a1)
          else do {
            let sender1 = (if lastPart \<noteq> - 1 then sender\<lparr>s_lastPartAsked := - 1\<rparr> else sender);
            cs \<leftarrow> part_candidates clients now draw wanted sender1 phase (al_file a1) (ucast lastPart) (part_numbers f);
            sa \<leftarrow> allocate_candidates clients now phase (order_candidates shuffle cs) sender1 a1;
            Some (al_found (snd sa) \<noteq> [], al_file (snd sa), fst sa, al_found (snd sa))
          }
        })"

end
