(* ===== verification/Part_Buffer.thy ===== *)
theory Part_Buffer
  imports Part_Blocks
begin

text \<open>
  The write buffer of a download (src/core/files/PartFile.cpp, PartFileWriteThread.cpp): data is
  buffered, written by the disk worker or at once, and a part is checked when all of it is on the
  disk.  The data file is a function from offsets to bytes; what the operating system does with a
  write, whether a part can be read back, and the comparison with its hash are arguments.  The
  ghost field \<open>d_known\<close> records which bytes were received or checked; no decision reads it.  Left
  out: sharing, blame, statistics, requests to other clients, the pause on preview and saving.
\<close>

datatype file_status = Ready | Empty | WaitingForHash | Hashing | Error | Insufficient | Unknown | Paused | Completing | Complete

datatype part_verdict = Bad | Ok | Unread

type_synonym chunk = "u64 \<times> u8 list"

text \<open>The result of a write, back from the worker: written, full disk, and the data when it was not written.\<close>

record write_result =
  wr_token :: nat
  wr_written :: bool
  wr_diskFull :: bool
  wr_chunks :: "chunk list"

record download =
  d_file :: part_file
  d_status :: file_status
  d_paused :: bool
  d_insufficient :: bool
  d_stopped :: bool
  d_destroying :: bool
  d_sizeContradicted :: bool
  d_writeError :: bool
  d_statusBefore :: file_status
  d_completionError :: bool
  d_completing :: bool
  d_totalBufferData :: u64
  d_flushingBytes :: u64
  d_flushToken :: nat
  d_changedParts :: "bool list"
  d_corruptedParts :: "u16 list"
  d_transferred :: u64
  d_compressionGain :: u64
  d_corruptionLoss :: u64
  d_ichPartsSaved :: u32
  d_disk :: "u64 \<Rightarrow> u8"
  d_job :: "(nat \<times> chunk list) option"
  d_result :: "write_result option"
  d_serial :: nat
  d_known :: "u64 \<Rightarrow> u8 \<Rightarrow> bool"

text \<open>What the rest of the program and the system answer at a step: whether the disk worker runs, the free-space
  reserve grants the write, the preferences, and which parts can be read back
  (a part without any hash to compare it with is not read, and counts as readable and good).\<close>

record surroundings =
  e_worker :: bool
  e_reserve :: bool
  e_checkDiskspace :: bool
  e_useICH :: bool
  e_fileBufferSize :: u32
  e_readable :: "u32 \<Rightarrow> bool"

text \<open>A write succeeds, or stops after some chunks and some bytes of the next, on a full disk or not.\<close>

datatype write_outcome = Wrote | Stopped nat nat bool

section \<open>The data file\<close>

definition put_chunk :: "chunk \<Rightarrow> (u64 \<Rightarrow> u8) \<Rightarrow> u64 \<Rightarrow> u8" where
  "put_chunk c disk x =
     (if fst c \<le> x \<and> unat (x - fst c) < length (snd c) then snd c ! unat (x - fst c) else disk x)"

definition put_chunks :: "chunk list \<Rightarrow> (u64 \<Rightarrow> u8) \<Rightarrow> u64 \<Rightarrow> u8" where
  "put_chunks cs disk = foldl (\<lambda>d c. put_chunk c d) disk cs"

fun execute_writes :: "write_outcome \<Rightarrow> chunk list \<Rightarrow> (u64 \<Rightarrow> u8) \<Rightarrow> (u64 \<Rightarrow> u8)" where
  "execute_writes Wrote cs disk = put_chunks cs disk"
| "execute_writes (Stopped n k full) cs disk =
     put_chunks (take n cs @ map (\<lambda>(s, data). (s, take k data)) (take 1 (drop n cs))) disk"

section \<open>Status\<close>

abbreviation fsize :: "download \<Rightarrow> u64" where "fsize d \<equiv> pf_fileSize (d_file d)"
abbreviation gaps :: "download \<Rightarrow> gap list" where "gaps d \<equiv> pf_gapList (d_file d)"

definition set_gaps :: "gap list \<Rightarrow> download \<Rightarrow> download" where
  "set_gaps gs d = d\<lparr>d_file := (d_file d)\<lparr>pf_gapList := gs\<rparr>\<rparr>"

definition status_of :: "download \<Rightarrow> file_status" where
  "status_of d =
     (if (\<not> d_paused d \<and> \<not> d_insufficient d) \<or> d_status d = Error \<or> d_status d = Completing \<or> d_status d = Complete
      then d_status d else if d_paused d then Paused else Insufficient)"

definition pauseFile :: "bool \<Rightarrow> download \<Rightarrow> download" where
  "pauseFile insufficient d =
     d\<lparr>d_paused := (if insufficient then d_paused d else True), d_insufficient := insufficient,
       d_file := (d_file d)\<lparr>pf_datarate := 0\<rparr>\<rparr>"

definition handleWriteFailure :: "surroundings \<Rightarrow> bool \<Rightarrow> download \<Rightarrow> download" where
  "handleWriteFailure env diskFull d =
     (if d_destroying d then d
      else if diskFull then
        (if \<not> d_insufficient d \<and> \<not> d_paused d then pauseFile (e_checkDiskspace env) d else d)
      else if d_writeError d then d
      else pauseFile False (d\<lparr>d_writeError := True, d_statusBefore := d_status d, d_status := Error\<rparr>))"

section \<open>Checking parts\<close>

definition data_parts :: "download \<Rightarrow> nat" where
  "data_parts d = unat (data_part_count (fsize d))"

definition resize_flags :: "nat \<Rightarrow> bool list \<Rightarrow> bool list" where
  "resize_flags n bs = (if length bs < n then bs @ replicate (n - length bs) False else bs)"

definition markChangedParts :: "u64 \<Rightarrow> u64 \<Rightarrow> download \<Rightarrow> download" where
  "markChangedParts s e d =
     (if data_parts d = 0 then d
      else let flags = resize_flags (data_parts d) (d_changedParts d);
               lastp = min (unat (e div PART64)) (data_parts d - 1)
           in d\<lparr>d_changedParts := foldl (\<lambda>bs p. bs[p := True]) flags [unat (s div PART64)..<lastp + 1]\<rparr>)"

definition overlaps :: "u64 \<Rightarrow> u64 \<Rightarrow> buffered \<Rightarrow> bool" where
  "overlaps s e bd = (bd_start bd \<le> e \<and> bd_end bd \<ge> s)"

definition isCompleteBDSafe :: "u64 \<Rightarrow> u64 \<Rightarrow> download \<Rightarrow> bool" where
  "isCompleteBDSafe s e0 d =
     (if fsize d = 0 then False
      else let e = min e0 (fsize d - 1)
           in if s > e \<or> \<not> range_complete s e (gaps d) then False
              else \<not> list_ex (overlaps s e) (pf_bufferedData (d_file d)) \<and>
                   \<not> list_ex (overlaps s e) (pf_flushingData (d_file d)))"

definition isCorruptedPart :: "u32 \<Rightarrow> download \<Rightarrow> bool" where
  "isCorruptedPart p d = (ucast p \<in> set (d_corruptedParts d))"

definition dropCorruptedPart :: "u32 \<Rightarrow> download \<Rightarrow> download" where
  "dropCorruptedPart p d = d\<lparr>d_corruptedParts := remove1 (ucast p) (d_corruptedParts d)\<rparr>"

fun remove_request :: "u64 \<Rightarrow> u64 \<Rightarrow> request list \<Rightarrow> request list" where
  "remove_request s e [] = []"
| "remove_request s e (b # bs) = (if rb_start b = s \<and> rb_end b = e then bs else b # remove_request s e bs)"

definition removeBlockFromList :: "u64 \<Rightarrow> u64 \<Rightarrow> download \<Rightarrow> download" where
  "removeBlockFromList s e d =
     d\<lparr>d_file := (d_file d)\<lparr>pf_requestedBlocks := remove_request s e (pf_requestedBlocks (d_file d))\<rparr>\<rparr>"

text \<open>\<open>good disk p\<close>: the bytes of the part have the hashes of the file, as far as it has any.\<close>

definition hashSinglePart :: "surroundings \<Rightarrow> ((u64 \<Rightarrow> u8) \<Rightarrow> u32 \<Rightarrow> bool) \<Rightarrow> u32 \<Rightarrow> download \<Rightarrow> part_verdict" where
  "hashSinglePart env good p d =
     (if \<not> e_readable env p then Unread else if good (d_disk d) p then Ok else Bad)"

definition last_byte :: "u32 \<Rightarrow> download \<Rightarrow> u64" where
  "last_byte p d = min (ucast p * PART64 + PART64 - 1) (fsize d - 1)"

definition part_fails :: "u32 \<Rightarrow> download \<Rightarrow> download" where
  "part_fails p d =
     (let ps = ucast p * PART64; pe = last_byte p d;
          d1 = set_gaps (addGap (fsize d) ps pe (gaps d)) d
      in d1\<lparr>d_corruptedParts := (if ucast p \<in> set (d_corruptedParts d1) then d_corruptedParts d1 else d_corruptedParts d1 @ [ucast p]),
            d_corruptionLoss := d_corruptionLoss d1 + (pe - ps + 1)\<rparr>)"

text \<open>The bytes behind the gaps of a corrupted part turn out to be right after all.\<close>

definition part_saved :: "u32 \<Rightarrow> download \<Rightarrow> download" where
  "part_saved p d =
     (let ps = ucast p * PART64; pe = last_byte p d;
          recovered = totalGapSizeInPart (fsize d) p (gaps d);
          d1 = dropCorruptedPart p (removeBlockFromList ps pe (set_gaps (fillGap ps pe (gaps d)) d))
      in d1\<lparr>d_corruptionLoss := (if d_corruptionLoss d1 \<ge> recovered then d_corruptionLoss d1 - recovered else 0),
            d_ichPartsSaved := d_ichPartsSaved d1 + 1,
            d_known := (\<lambda>x b. d_known d x b \<or> (ps \<le> x \<and> x \<le> pe \<and> b = d_disk d x))\<rparr>)"

definition verify_part :: "surroundings \<Rightarrow> ((u64 \<Rightarrow> u8) \<Rightarrow> u32 \<Rightarrow> bool) \<Rightarrow> bool \<Rightarrow> u32 \<Rightarrow> download \<Rightarrow> download" where
  "verify_part env good forceICH p d =
     (if unat p \<ge> length (d_changedParts d) \<or> \<not> d_changedParts d ! unat p then d
      else let d1 = d\<lparr>d_changedParts := (d_changedParts d)[unat p := False]\<rparr>
           in if part_complete (fsize d) p (gaps d) then
                (if \<not> isCompleteBDSafe (ucast p * PART64) (last_byte p d) d then d
                 else case hashSinglePart env good p d of
                        Unread \<Rightarrow> d
                      | Ok \<Rightarrow> dropCorruptedPart p d1
                      | Bad \<Rightarrow> part_fails p d1)
              else if isCorruptedPart p d \<and> (e_useICH env \<or> forceICH) then
                (if hashSinglePart env good p d \<noteq> Ok then d1 else part_saved p d1)
              else d1)"

definition verifyChangedParts :: "surroundings \<Rightarrow> ((u64 \<Rightarrow> u8) \<Rightarrow> u32 \<Rightarrow> bool) \<Rightarrow> bool \<Rightarrow> download \<Rightarrow> download" where
  "verifyChangedParts env good forceICH d =
     foldl (\<lambda>d p. verify_part env good forceICH p d) d (part_numbers (d_file d))"

text \<open>The flush inside finds nothing to write: the buffer is empty and no write is out at every call.\<close>

definition completeFile :: "download \<Rightarrow> download" where
  "completeFile d =
     (if d_completing d then d else d\<lparr>d_completing := True, d_status := Completing, d_changedParts := []\<rparr>)"

definition completeIfVerified :: "download \<Rightarrow> download" where
  "completeIfVerified d =
     (if gaps d \<noteq> [] \<or> d_destroying d \<or> d_sizeContradicted d then d
      else if True \<in> set (d_changedParts d) then d\<lparr>d_completionError := True, d_status := Error\<rparr>
      else completeFile d)"

section \<open>Writing\<close>

definition chunks_of :: "buffered list \<Rightarrow> chunk list" where
  "chunks_of bds = map (\<lambda>bd. (bd_start bd, bd_data bd)) bds"

definition mark_written :: "buffered list \<Rightarrow> download \<Rightarrow> download" where
  "mark_written bds d = foldl (\<lambda>d bd. markChangedParts (bd_start bd) (bd_end bd) d) d bds"

text \<open>Handing the buffer to the disk worker.  The data moves into the job; the ranges stay.\<close>

definition async_enqueue :: "surroundings \<Rightarrow> download \<Rightarrow> download" where
  "async_enqueue env d =
     (let bds = pf_bufferedData (d_file d)
      in if bds = [] \<or> d_flushToken d \<noteq> 0 then d
         else if \<not> e_reserve env then
           (if \<not> d_insufficient d \<and> \<not> d_paused d \<and> \<not> d_stopped d then pauseFile True d else d)
         else let token = d_serial d + 1
              in d\<lparr>d_file := (d_file d)\<lparr>pf_bufferedData := [],
                     pf_flushingData := pf_flushingData (d_file d) @ map (\<lambda>bd. bd\<lparr>bd_data := []\<rparr>) bds\<rparr>,
                   d_flushingBytes := d_totalBufferData d, d_totalBufferData := 0,
                   d_flushToken := token, d_serial := token, d_job := Some (token, chunks_of bds)\<rparr>)"

text \<open>The part of a synchronous flush behind the wait for the worker.\<close>

definition write_buffer :: "surroundings \<Rightarrow> ((u64 \<Rightarrow> u8) \<Rightarrow> u32 \<Rightarrow> bool) \<Rightarrow> write_outcome option \<Rightarrow> bool \<Rightarrow> download \<Rightarrow> download" where
  "write_buffer env good outcome forceICH d =
     (let bds = pf_bufferedData (d_file d)
      in if bds = [] then d
         else if \<not> d_destroying d \<and> \<not> e_reserve env then
           (if \<not> d_insufficient d \<and> \<not> d_paused d \<and> \<not> d_stopped d then pauseFile True d else d)
         else case outcome of
            None \<Rightarrow> handleWriteFailure env False d
          | Some out \<Rightarrow>
              let d1 = d\<lparr>d_disk := execute_writes out (chunks_of bds) (d_disk d)\<rparr>
              in case out of
                   Stopped n k full \<Rightarrow> handleWriteFailure env full d1
                 | Wrote \<Rightarrow>
                     let d2 = mark_written bds d1;
                         d3 = d2\<lparr>d_file := (d_file d2)\<lparr>pf_bufferedData := []\<rparr>, d_totalBufferData := 0\<rparr>;
                         d4 = verifyChangedParts env good forceICH d3
                     in if gaps d4 = [] \<and> \<not> d_destroying d4 then completeIfVerified d4 else d4)"

fun give_back :: "buffered list \<Rightarrow> chunk list \<Rightarrow> buffered list" where
  "give_back (bd # bds) (c # cs) = bd\<lparr>bd_data := snd c\<rparr> # give_back bds cs"
| "give_back bds cs = bds"

fun merge_by_end :: "buffered list \<Rightarrow> buffered list \<Rightarrow> buffered list" where
  "merge_by_end [] ys = ys"
| "merge_by_end xs [] = xs"
| "merge_by_end (x # xs) (y # ys) =
     (if bd_end y < bd_end x then y # merge_by_end (x # xs) ys else x # merge_by_end xs (y # ys))"

definition applyFlushResult ::
  "surroundings \<Rightarrow> ((u64 \<Rightarrow> u8) \<Rightarrow> u32 \<Rightarrow> bool) \<Rightarrow> write_outcome option \<Rightarrow> write_result \<Rightarrow> bool \<Rightarrow> download \<Rightarrow> download" where
  "applyFlushResult env good outcome r forceICH d =
     (if wr_token r \<noteq> d_flushToken d \<or> d_flushToken d = 0 then d
      else let d0 = d\<lparr>d_flushToken := 0\<rparr>; fl = pf_flushingData (d_file d0)
           in if \<not> wr_written r then
                handleWriteFailure env (wr_diskFull r)
                  (d0\<lparr>d_file := (d_file d0)\<lparr>pf_bufferedData := merge_by_end (pf_bufferedData (d_file d0)) (give_back fl (wr_chunks r)),
                                       pf_flushingData := []\<rparr>,
                      d_totalBufferData := d_totalBufferData d0 + d_flushingBytes d0, d_flushingBytes := 0\<rparr>)
              else
                let d1 = mark_written fl d0;
                    d2 = d1\<lparr>d_file := (d_file d1)\<lparr>pf_flushingData := []\<rparr>, d_flushingBytes := 0\<rparr>;
                    d3 = verifyChangedParts env good forceICH d2
                in if gaps d3 = [] \<and> \<not> d_destroying d3 then
                     (if pf_bufferedData (d_file d3) = [] then completeIfVerified d3
                      else if status_of d3 = Ready \<or> status_of d3 = Empty then
                        (if e_worker env then async_enqueue env d3 else write_buffer env good outcome False d3)
                      else d3)
                   else d3)"

text \<open>The worker executes the job and leaves a result; no outcome where the data file cannot be opened.\<close>

definition worker_runs :: "write_outcome option \<Rightarrow> download \<Rightarrow> download" where
  "worker_runs outcome d =
     (case d_job d of
        None \<Rightarrow> d
      | Some (token, cs) \<Rightarrow>
          let d1 = d\<lparr>d_job := None\<rparr>
          in (case outcome of
               None \<Rightarrow> d1\<lparr>d_result := Some \<lparr>wr_token = token, wr_written = False, wr_diskFull = False, wr_chunks = cs\<rparr>\<rparr>
             | Some Wrote \<Rightarrow>
                 d1\<lparr>d_result := Some \<lparr>wr_token = token, wr_written = True, wr_diskFull = False, wr_chunks = []\<rparr>,
                    d_disk := execute_writes Wrote cs (d_disk d)\<rparr>
             | Some (Stopped n k full) \<Rightarrow>
                 d1\<lparr>d_result := Some \<lparr>wr_token = token, wr_written = False, wr_diskFull = full, wr_chunks = cs\<rparr>,
                    d_disk := execute_writes (Stopped n k full) cs (d_disk d)\<rparr>))"

text \<open>The result is taken, by the queued signal or by a flush that waits for it.\<close>

definition onJobDone ::
  "surroundings \<Rightarrow> ((u64 \<Rightarrow> u8) \<Rightarrow> u32 \<Rightarrow> bool) \<Rightarrow> write_outcome option \<Rightarrow> bool \<Rightarrow> download \<Rightarrow> download" where
  "onJobDone env good outcome forceICH d =
     (case d_result d of
        None \<Rightarrow> d
      | Some r \<Rightarrow> applyFlushResult env good outcome r forceICH (d\<lparr>d_result := None\<rparr>))"

definition lose_job :: "download \<Rightarrow> download" where
  "lose_job d =
     (let d1 = d\<lparr>d_flushToken := 0, d_job := None, d_result := None\<rparr>;
          gs = foldl (\<lambda>gs bd. addGap (fsize d) (bd_start bd) (bd_end bd) gs) (gaps d) (pf_flushingData (d_file d))
      in d1\<lparr>d_file := (d_file d1)\<lparr>pf_gapList := gs, pf_flushingData := []\<rparr>, d_flushingBytes := 0\<rparr>)"

definition finishPendingFlush ::
  "surroundings \<Rightarrow> ((u64 \<Rightarrow> u8) \<Rightarrow> u32 \<Rightarrow> bool) \<Rightarrow> write_outcome option \<Rightarrow> write_outcome option \<Rightarrow> bool \<Rightarrow> download \<Rightarrow> download" where
  "finishPendingFlush env good jobOutcome outcome forceICH d =
     (if d_flushToken d = 0 then d
      else if e_worker env \<and> (d_job d \<noteq> None \<or> d_result d \<noteq> None)
      then onJobDone env good outcome forceICH (worker_runs jobOutcome d)
      else lose_job d)"

definition flushBuffer ::
  "surroundings \<Rightarrow> ((u64 \<Rightarrow> u8) \<Rightarrow> u32 \<Rightarrow> bool) \<Rightarrow> write_outcome option \<Rightarrow> write_outcome option \<Rightarrow> bool \<Rightarrow> download \<Rightarrow> download" where
  "flushBuffer env good jobOutcome outcome forceICH d =
     write_buffer env good outcome forceICH (finishPendingFlush env good jobOutcome outcome forceICH d)"

definition flushBufferAsync ::
  "surroundings \<Rightarrow> ((u64 \<Rightarrow> u8) \<Rightarrow> u32 \<Rightarrow> bool) \<Rightarrow> write_outcome option \<Rightarrow> write_outcome option \<Rightarrow> download \<Rightarrow> download" where
  "flushBufferAsync env good jobOutcome outcome d =
     (if \<not> e_worker env \<or> d_destroying d then flushBuffer env good jobOutcome outcome False d
      else async_enqueue env d)"

fun insert_by_end :: "buffered \<Rightarrow> buffered list \<Rightarrow> buffered list" where
  "insert_by_end bd [] = [bd]"
| "insert_by_end bd (b # bs) = (if bd_end b < bd_end bd then b # insert_by_end bd bs else bd # b # bs)"

text \<open>\<open>data\<close> has the bytes from \<open>s\<close> to \<open>e\<close>; the result counts the bytes taken.\<close>

definition writeToBuffer ::
  "surroundings \<Rightarrow> ((u64 \<Rightarrow> u8) \<Rightarrow> u32 \<Rightarrow> bool) \<Rightarrow> write_outcome option \<Rightarrow> write_outcome option
   \<Rightarrow> u64 \<Rightarrow> u8 list \<Rightarrow> u64 \<Rightarrow> u64 \<Rightarrow> download \<Rightarrow> u32 \<times> download" where
  "writeToBuffer env good jobOutcome outcome transize data s e d =
     (if s > e \<or> e \<ge> fsize d then (0, d)
      else
        let d1 = d\<lparr>d_transferred := d_transferred d + transize\<rparr>
        in if d_status d1 = Hashing \<or> d_status d1 = WaitingForHash then (0, d1)
        else
          let lenData = e - s + 1;
              d2 = (if lenData > transize then d1\<lparr>d_compressionGain := d_compressionGain d1 + (lenData - transize)\<rparr> else d1);
              startPart = ucast (s div PART64) :: u32; endPart = ucast (e div PART64) :: u32
          in if range_complete s e (gaps d2) then (0, d2)
             else if part_complete (fsize d2) startPart (gaps d2) \<or>
                     (endPart \<noteq> startPart \<and> part_complete (fsize d2) endPart (gaps d2)) then (0, d2)
             else
               let bd = \<lparr>bd_start = s, bd_end = e, bd_data = data\<rparr>;
                   d3 = d2\<lparr>d_file := (d_file d2)\<lparr>pf_bufferedData := insert_by_end bd (pf_bufferedData (d_file d2)),
                                           pf_gapList := fillGap s e (gaps d2)\<rparr>,
                          d_totalBufferData := d_totalBufferData d2 + lenData,
                          d_known := (\<lambda>x b. d_known d2 x b \<or> (s \<le> x \<and> x \<le> e \<and> b = data ! unat (x - s)))\<rparr>;
                   d4 = (if status_of d3 \<noteq> Ready \<and> status_of d3 \<noteq> Empty then flushBuffer env good jobOutcome outcome False d3
                         else if gaps d3 = [] \<or> d_totalBufferData d3 > ucast (e_fileBufferSize env) * 2
                         then flushBufferAsync env good jobOutcome outcome d3 else d3)
               in (ucast lenData, d4))"

definition resume_write_error :: "download \<Rightarrow> download" where
  "resume_write_error d =
     (if d_writeError d then d\<lparr>d_writeError := False, d_status := d_statusBefore d\<rparr> else d)"

definition resumeFile :: "surroundings \<Rightarrow> ((u64 \<Rightarrow> u8) \<Rightarrow> u32 \<Rightarrow> bool) \<Rightarrow> download \<Rightarrow> download" where
  "resumeFile env good d =
     (if \<not> d_paused d \<and> \<not> d_stopped d \<and> \<not> d_insufficient d \<and> \<not> d_completionError d then d
      else let d1 = resume_write_error (d\<lparr>d_paused := False, d_stopped := False, d_insufficient := False\<rparr>)
           in if d_completionError d1 \<and> gaps d1 = []
              then completeIfVerified (verifyChangedParts env good False (d1\<lparr>d_completionError := False, d_status := Ready\<rparr>))
              else d1)"

text \<open>The ranges and the gaps that the next start reads from the saved .part.met.\<close>

definition buffered_ranges :: "buffered list \<Rightarrow> (u64 \<times> u64) list" where
  "buffered_ranges bds = map (\<lambda>bd. (bd_start bd, bd_end bd)) bds"

definition reloaded_gaps :: "download \<Rightarrow> gap list" where
  "reloaded_gaps d =
     load_gaps (fsize d) (read_gap_pairs (saved_gaps (fsize d) (gaps d)
       (buffered_ranges (pf_bufferedData (d_file d))) (buffered_ranges (pf_flushingData (d_file d)))))"

end
