(* ===== verification/Part_Alloc.thy ===== *)
theory Part_Alloc
  imports Part_Blocks
begin

text \<open>
  What is asked of a source is still missing, and no byte is asked of more than two sources; the
  loops of the choice end.
\<close>

section \<open>The next missing block\<close>

lemma unat_PART64: "unat PART64 = 9728000" "unat EMBLOCK64 = 184320"
  by (simp_all add: PART64_def EMBLOCK64_def)

lemma unat_ucast64: "unat (ucast (p::u32) :: u64) = unat p"
proof -
  have "unat p < 2 ^ 32" using unsigned_less[of p, where 'a = nat] by simp
  then have "unat p < 2 ^ 64" by (rule less_le_trans) simp
  then show ?thesis by (simp add: unsigned_ucast_eq take_bit_nat_eq_self)
qed

lemma unat_add_small: "unat (a::'a::len word) + unat b < 2 ^ LENGTH('a) \<Longrightarrow> unat (a + b) = unat a + unat b"
  by (simp only: unat_add_lem)

lemma unat_mult_small: "unat (a::'a::len word) * unat b < 2 ^ LENGTH('a) \<Longrightarrow> unat (a * b) = unat a * unat b"
  by (simp only: unat_mult_lem)

lemma unat_part_start: "unat (ucast (p::u32) * PART64) = unat p * 9728000"
proof -
  have "unat p < 2 ^ 32" using unsigned_less[of p, where 'a = nat] by simp
  then have "unat (ucast p :: u64) * unat PART64 < 2 ^ LENGTH(64)"
    by (simp add: unat_PART64 unat_ucast64)
  then have "unat (ucast p * PART64) = unat (ucast p :: u64) * unat PART64" unfolding unat_mult_lem .
  then show ?thesis by (simp add: unat_PART64 unat_ucast64)
qed

lemma unat_part_start_less: "unat (ucast (p::u32) * PART64) < 2 ^ 56"
  using unsigned_less[of p, where 'a = nat] unfolding unat_part_start by simp

lemma part_end_bounds:
  fixes p :: u32
  assumes "fs \<noteq> 0"
  shows "part_end fs (ucast p * PART64) < fs" "unat (part_end fs (ucast p * PART64)) < unat (ucast p * PART64) + 9728000"
proof -
  let ?s = "ucast p * PART64"
  have u: "unat (?s + PART64 - 1) = unat ?s + 9727999"
  proof -
    have "unat ?s + unat (PART64 - 1) < 2 ^ LENGTH(64)" using unat_part_start_less[of p] by (simp add: PART64_def)
    then have "unat (?s + (PART64 - 1)) = unat ?s + unat (PART64 - 1)" by (rule unat_add_small)
    moreover have "unat (PART64 - 1) = 9727999" by (simp add: PART64_def)
    ultimately show ?thesis by (simp only: add_diff_eq)
  qed
  have f: "unat (fs - 1) = unat fs - 1" using unat_dec[of 0 fs] assms by (simp add: word_neq_0_conv)
  have "0 < unat fs" using assms by (simp add: unat_gt_0)
  then show "part_end fs ?s < fs" "unat (part_end fs ?s) < unat ?s + 9728000"
    using u f by (auto simp: part_end_def Let_def word_order)
qed

text \<open>The end of the AICH block that holds an offset of the part.\<close>

lemma block_limit:
  assumes "unat ps < 2 ^ 56" "ps \<le> x" "unat x < unat ps + 9728000"
  shows "unat (ps + ((x - ps) div EMBLOCK64 + 1) * EMBLOCK64 - 1) = unat ps + ((unat x - unat ps) div 184320 + 1) * 184320 - 1"
proof -
  let ?d = "x - ps"
  have d: "unat ?d = unat x - unat ps" using assms(2) by (simp add: unat_sub)
  then have dl: "unat ?d < 9728000" using assms(2,3) by (simp add: word_le_nat_alt)
  have q: "unat (?d div EMBLOCK64) = unat ?d div 184320" by (simp add: unat_div unat_PART64)
  have ql: "unat ?d div 184320 \<le> 52" using dl by simp
  then have q1: "unat (?d div EMBLOCK64 + 1) = unat ?d div 184320 + 1"
    using unat_add_lem[of "?d div EMBLOCK64" 1] q by simp
  have "unat (?d div EMBLOCK64 + 1) * unat EMBLOCK64 < 2 ^ LENGTH(64)" using q1 ql by (simp add: unat_PART64)
  then have "unat ((?d div EMBLOCK64 + 1) * EMBLOCK64) = unat (?d div EMBLOCK64 + 1) * unat EMBLOCK64"
    unfolding unat_mult_lem .
  then have m: "unat ((?d div EMBLOCK64 + 1) * EMBLOCK64) = (unat ?d div 184320 + 1) * 184320"
    by (simp only: q1 unat_PART64)
  have "unat ps + unat ((?d div EMBLOCK64 + 1) * EMBLOCK64) < 2 ^ LENGTH(64)" using assms(1) ql m by simp
  then have a: "unat (ps + (?d div EMBLOCK64 + 1) * EMBLOCK64) = unat ps + (unat ?d div 184320 + 1) * 184320"
    using unat_add_small[of ps "(?d div EMBLOCK64 + 1) * EMBLOCK64"] m by simp
  then have "0 < ps + (?d div EMBLOCK64 + 1) * EMBLOCK64" by (simp add: word_less_nat_alt)
  from unat_dec[OF this] show ?thesis using a d by simp
qed

definition same_block :: "u64 \<Rightarrow> u64 \<Rightarrow> u64 \<Rightarrow> bool" where
  "same_block ps s e = ((unat s - unat ps) div 184320 = (unat e - unat ps) div 184320)"

lemma same_div:
  assumes "ps \<le> s" "s \<le> e" "e \<le> ps + ((s - ps) div n + 1) * n - 1" "0 < (n::nat)"
  shows "(s - ps) div n = (e - ps) div n"
proof -
  define q where "q = (s - ps) div n"
  have "q * n \<le> s - ps" by (simp add: q_def)
  then have "n * q \<le> e - ps" using assms(1,2) by (simp add: mult.commute)
  moreover have "e - ps < n * Suc q" using assms(3,4) by (simp add: q_def[symmetric] algebra_simps)
  ultimately show ?thesis unfolding q_def[symmetric] by (rule div_nat_eqI[symmetric])
qed

lemma case_SomeI: "x = Some (s, e) \<Longrightarrow> P s e \<Longrightarrow> case x of None \<Rightarrow> Q | Some (s, e) \<Rightarrow> P s e"
  by simp

lemma first_block_correct:
  assumes "unat ps < 2 ^ 56" "ps \<le> eff" "eff \<le> pe" "unat pe < unat ps + 9728000"
  shows "gaps_ok fs gs \<Longrightarrow>
    (case first_block ps eff pe gs of
       None \<Rightarrow> \<forall>x. eff \<le> x \<and> x \<le> pe \<longrightarrow> \<not> missing gs x
     | Some (s, e) \<Rightarrow> eff \<le> s \<and> s \<le> e \<and> e \<le> pe \<and> same_block ps s e \<and>
         (\<forall>x. s \<le> x \<and> x \<le> e \<longrightarrow> missing gs x) \<and> (\<forall>x. eff \<le> x \<and> x < s \<longrightarrow> \<not> missing gs x))"
proof (induction gs)
  case Nil
  then show ?case by simp
next
  case (Cons g gs)
  have ok': "gaps_ok fs gs" and g: "g_start g \<le> g_end g" using Cons.prems by (simp_all add: gaps_ok_Cons)
  note aft = after_first(2)[OF Cons.prems]
  consider (before) "g_start g > pe" | (behind) "\<not> g_start g > pe" "g_end g < eff" | (hit) "\<not> g_start g > pe" "\<not> g_end g < eff"
    by blast
  then show ?case
  proof cases
    case before
    have "\<not> missing (g # gs) x" if "x \<le> pe" for x using before that aft[of x] g by (auto simp: word_order)
    then show ?thesis using before by auto
  next
    case behind
    have "missing (g # gs) x \<longleftrightarrow> missing gs x" if "eff \<le> x" for x using behind that by auto
    then show ?thesis using Cons.IH[OF ok'] behind assms(2,3)
      by (auto split: option.splits prod.splits)
  next
    case hit
    let ?s = "max (g_start g) eff" and ?b = "min (g_end g) pe"
    let ?l = "ps + ((?s - ps) div EMBLOCK64 + 1) * EMBLOCK64 - 1"
    let ?e = "min ?b ?l"
    have s: "ps \<le> ?s" "?s \<le> ?b" "?s \<le> pe" using hit assms(2,3) g by (auto simp: max_def)
    then have "unat ?s < unat ps + 9728000" using assms(4) unfolding word_order by linarith
    note l = block_limit[OF assms(1) s(1) this]
    let ?d = "unat ?s - unat ps"
    have dm: "?d = ?d div 184320 * 184320 + ?d mod 184320" "?d mod 184320 < 184320" by simp_all
    have us: "unat ps \<le> unat ?s" using s(1) by (simp only: word_le_nat_alt)
    define q r where "q = ?d div 184320" and "r = ?d mod 184320"
    have qr: "?d = q * 184320 + r" "r < 184320" using dm by (simp_all add: q_def r_def)
    have "unat ?s = unat ps + (q * 184320 + r)" using qr(1) us by linarith
    then have "unat ?s \<le> unat ps + (q + 1) * 184320 - 1" using qr(2) by simp
    then have sl: "?s \<le> ?l" unfolding word_le_nat_alt l q_def .
    have e: "?s \<le> ?e" "?e \<le> ?b" using s(2) sl by (simp only: min.bounded_iff, simp only: min.cobounded1)
    have b: "?b \<le> g_end g" "?b \<le> pe" "g_start g \<le> ?s" "eff \<le> ?s" by simp_all
    have "unat ?e \<le> unat ?l" unfolding word_le_nat_alt[symmetric] by (rule min.cobounded2)
    then have "unat ?e \<le> unat ps + (?d div 184320 + 1) * 184320 - 1" by (simp only: l)
    moreover have "unat ?s \<le> unat ?e" using e(1) by (simp only: word_le_nat_alt)
    ultimately have same: "?d div 184320 = (unat ?e - unat ps) div 184320" by (intro same_div us) simp_all
    have f: "first_block ps eff pe (g # gs) = Some (?s, ?e)" using hit by (simp add: Let_def)
    show ?thesis
    proof (rule case_SomeI[OF f], intro conjI allI impI)
      show "eff \<le> ?s" by (rule b(4))
      show "?s \<le> ?e" by (rule e(1))
      show "?e \<le> pe" by (rule order_trans[OF e(2) b(2)])
      show "same_block ps ?s ?e" unfolding same_block_def by (rule same)
    next
      fix x assume "?s \<le> x \<and> x \<le> ?e"
      then have x: "?s \<le> x" "x \<le> ?e" by blast+
      show "missing (g # gs) x"
        using order_trans[OF b(3) x(1)] order_trans[OF x(2) order_trans[OF e(2) b(1)]] by simp
    next
      fix x assume "eff \<le> x \<and> x < ?s"
      then show "\<not> missing (g # gs) x"
        using aft[of x] g by (auto simp: word_order max_def split: if_splits)
    qed
  qed
qed

lemma next_block_correct:
  fixes p :: u32
  assumes "gaps_ok (pf_fileSize f) (pf_gapList f)" "pf_fileSize f \<noteq> 0"
  defines "ps \<equiv> ucast p * PART64" and "pe \<equiv> part_end (pf_fileSize f) (ucast p * PART64)"
  shows "case getNextEmptyBlockInPart p frm f of
       None \<Rightarrow> \<forall>x. ps \<le> x \<and> frm \<le> x \<and> x \<le> pe \<longrightarrow> \<not> missing (pf_gapList f) x
     | Some (s, e) \<Rightarrow> ps \<le> s \<and> frm \<le> s \<and> s \<le> e \<and> e \<le> pe \<and> same_block ps s e \<and>
         (\<forall>x. s \<le> x \<and> x \<le> e \<longrightarrow> missing (pf_gapList f) x) \<and>
         (\<forall>x. ps \<le> x \<and> frm \<le> x \<and> x < s \<longrightarrow> \<not> missing (pf_gapList f) x)"
proof (cases "max ps frm > pe")
  case True
  then show ?thesis by (auto simp: getNextEmptyBlockInPart_def Let_def ps_def pe_def max_def split: if_splits)
next
  case False
  then have le: "max (ucast p * PART64) frm \<le> pe" by (simp only: ps_def linorder_not_less)
  have "case first_block ps (max ps frm) pe (pf_gapList f) of
       None \<Rightarrow> \<forall>x. max ps frm \<le> x \<and> x \<le> pe \<longrightarrow> \<not> missing (pf_gapList f) x
     | Some (s, e) \<Rightarrow> max ps frm \<le> s \<and> s \<le> e \<and> e \<le> pe \<and> same_block ps s e \<and>
         (\<forall>x. s \<le> x \<and> x \<le> e \<longrightarrow> missing (pf_gapList f) x) \<and> (\<forall>x. max ps frm \<le> x \<and> x < s \<longrightarrow> \<not> missing (pf_gapList f) x)"
    unfolding ps_def
    by (rule first_block_correct[OF unat_part_start_less max.cobounded1 le _ assms(1)])
      (simp only: pe_def part_end_bounds(2)[OF assms(2)])
  moreover have "getNextEmptyBlockInPart p frm f = first_block ps (max ps frm) pe (pf_gapList f)"
    using False by (simp add: getNextEmptyBlockInPart_def Let_def ps_def pe_def)
  ultimately show ?thesis by (auto split: option.splits)
qed

section \<open>Keeping clear of what is taken\<close>

lemma shrink_correct:
  "shrink ts te s e = Some (s', e') \<Longrightarrow> s \<le> e \<Longrightarrow> s \<le> s' \<and> s' \<le> e' \<and> e' \<le> e \<and> (te < s' \<or> e' < ts)"
proof -
  assume sh: "shrink ts te s e = Some (s', e')" and se: "s \<le> e"
  consider (apart) "ts > e \<or> te < s" | (tail) "\<not> (ts > e \<or> te < s)" "ts > s"
    | (head) "\<not> (ts > e \<or> te < s)" "\<not> ts > s" "te < e" | (all) "\<not> (ts > e \<or> te < s)" "\<not> ts > s" "\<not> te < e" by blast
  then show ?thesis
  proof cases
    case apart
    then show ?thesis using sh se by (auto simp: shrink_def)
  next
    case tail
    then have "s' = s" "e' = ts - 1" "s \<le> ts - 1" using sh by (auto simp: shrink_def Let_def split: if_splits)
    then show ?thesis using unat_dec[OF tail(2)] tail by (auto simp: word_order)
  next
    case head
    then have "s' = te + 1" "e' = e" "te + 1 \<le> e" using sh by (auto simp: shrink_def Let_def split: if_splits)
    then show ?thesis using unat_inc[OF head(3)] head by (auto simp: word_order)
  next
    case all
    then show ?thesis using sh by (simp add: shrink_def)
  qed
qed

lemma shrink_all_correct:
  "shrink_all ts s e = Some (s', e') \<Longrightarrow> s \<le> e \<Longrightarrow>
   s \<le> s' \<and> s' \<le> e' \<and> e' \<le> e \<and> (\<forall>(a, b)\<in>set ts. b < s' \<or> e' < a)"
proof (induction ts s e rule: shrink_all.induct)
  case (2 ts te ts' s e)
  obtain s1 e1 where 1: "shrink ts te s e = Some (s1, e1)" "shrink_all ts' s1 e1 = Some (s', e')"
    using "2.prems"(1) by (auto split: option.splits)
  have a: "s \<le> s1" "s1 \<le> e1" "e1 \<le> e" "te < s1 \<or> e1 < ts" using shrink_correct[OF 1(1) "2.prems"(2)] by blast+
  have "s1 \<le> s'" "s' \<le> e'" "e' \<le> e1" "\<forall>(a, b)\<in>set ts'. b < s' \<or> e' < a" using "2.IH"[OF 1(1) refl 1(2) a(2)] by blast+
  then show ?case using a by (auto intro: order_trans less_le_trans le_less_trans)
qed auto

section \<open>A second source\<close>

definition covering :: "request list \<Rightarrow> u64 \<Rightarrow> request list" where
  "covering bs x = filter (\<lambda>b. rb_start b \<le> x \<and> x \<le> rb_end b) bs"

text \<open>No byte is asked of more than two sources, nor twice of one.\<close>

definition two_sources :: "request list \<Rightarrow> bool" where
  "two_sources bs = (\<forall>x. length (covering bs x) \<le> 2 \<and> distinct (map rb_holder (covering bs x)))"

definition askable :: "request list \<Rightarrow> nat \<Rightarrow> u64 \<Rightarrow> u64 \<Rightarrow> bool" where
  "askable bs sender s e =
     (\<forall>x. s \<le> x \<and> x \<le> e \<longrightarrow> length (covering bs x) \<le> 1 \<and> (\<forall>b\<in>set (covering bs x). rb_holder b \<noteq> Some sender))"

lemma askable_free: "\<forall>b\<in>set bs. rb_end b < s \<or> e < rb_start b \<Longrightarrow> askable bs sender s e"
proof -
  assume free: "\<forall>b\<in>set bs. rb_end b < s \<or> e < rb_start b"
  have "covering bs x = []" if "s \<le> x" "x \<le> e" for x
    using free that by (force simp: covering_def filter_empty_conv)
  then show ?thesis by (simp add: askable_def)
qed

lemma only_holder_correct:
  "only_holder sender s e held bs = Some h \<Longrightarrow>
   length (filter (\<lambda>b. \<not> (rb_start b > e \<or> rb_end b < s)) bs) + (if held = None then 0 else 1) \<le> 1 \<and>
   (\<forall>b\<in>set bs. \<not> (rb_start b > e \<or> rb_end b < s) \<longrightarrow> rb_holder b \<noteq> Some sender)"
proof (induction sender s e held bs rule: only_holder.induct)
  case (2 sender s e held b bs)
  then show ?case by (cases "rb_start b > e \<or> rb_end b < s") (auto split: if_splits)
qed (auto split: if_splits)

lemma askable_second:
  assumes "maySecondSourceTake clients now sender s e phase f"
  shows "askable (pf_requestedBlocks f) (s_id sender) s e"
proof -
  let ?bs = "pf_requestedBlocks f" and ?ov = "\<lambda>b. \<not> (rb_start b > e \<or> rb_end b < s)"
  obtain h where "only_holder (s_id sender) s e None ?bs = Some h"
    using assms by (auto simp: maySecondSourceTake_def split: option.splits)
  then have o: "length (filter ?ov ?bs) \<le> 1" "\<forall>b\<in>set ?bs. ?ov b \<longrightarrow> rb_holder b \<noteq> Some (s_id sender)"
    using only_holder_correct[of "s_id sender" s e None ?bs h] by simp_all
  have "length (covering ?bs x) \<le> 1 \<and> (\<forall>b\<in>set (covering ?bs x). rb_holder b \<noteq> Some (s_id sender))"
    if x: "s \<le> x" "x \<le> e" for x
  proof -
    have ov: "?ov b" if "rb_start b \<le> x \<and> x \<le> rb_end b" for b
      using that x by (auto simp: linorder_not_less)
    have "covering ?bs x = filter (\<lambda>b. rb_start b \<le> x \<and> x \<le> rb_end b) (filter ?ov ?bs)"
      unfolding covering_def filter_filter by (rule filter_cong) (use ov in auto)
    then have "length (covering ?bs x) \<le> length (filter ?ov ?bs)" by (simp only: length_filter_le)
    then show ?thesis using o ov by (auto simp: covering_def)
  qed
  then show ?thesis unfolding askable_def by blast
qed

lemma two_sources_ask:
  assumes "two_sources bs" "askable bs sender s e" "e' \<le> e"
  shows "two_sources (bs @ [new_request sender now s e'])"
proof -
  have "length (covering (bs @ [new_request sender now s e']) x) \<le> 2 \<and>
    distinct (map rb_holder (covering (bs @ [new_request sender now s e']) x))" for x
  proof (cases "s \<le> x \<and> x \<le> e'")
    case True
    then have "length (covering bs x) \<le> 1" "\<forall>b\<in>set (covering bs x). rb_holder b \<noteq> Some sender"
      using assms(2,3) by (auto simp: askable_def intro: order_trans)
    moreover have "covering (bs @ [new_request sender now s e']) x = covering bs x @ [new_request sender now s e']"
      using True by (simp add: covering_def new_request_def)
    moreover have "distinct (map rb_holder (covering bs x))" using assms(1) by (simp add: two_sources_def)
    ultimately show ?thesis by (auto simp: new_request_def)
  next
    case False
    then have "covering (bs @ [new_request sender now s e']) x = covering bs x"
      by (auto simp: covering_def new_request_def)
    then show ?thesis using assms(1) by (simp add: two_sources_def)
  qed
  then show ?thesis by (simp add: two_sources_def)
qed

section \<open>The next free block: the search ends\<close>

text \<open>Missing bytes of the part, all in one AICH block.\<close>

definition block_ok :: "part_file \<Rightarrow> u32 \<Rightarrow> u64 \<Rightarrow> u64 \<Rightarrow> bool" where
  "block_ok f p s e =
     (ucast p * PART64 \<le> s \<and> s \<le> e \<and> e \<le> part_end (pf_fileSize f) (ucast p * PART64) \<and> e < pf_fileSize f \<and>
      same_block (ucast p * PART64) s e \<and> (\<forall>x. s \<le> x \<and> x \<le> e \<longrightarrow> missing (pf_gapList f) x))"

lemma same_block_sub:
  assumes "same_block ps s e" "s \<le> s'" "s' \<le> e'" "e' \<le> e"
  shows "same_block ps s' e'"
proof -
  have "unat s \<le> unat s'" "unat s' \<le> unat e'" "unat e' \<le> unat e" using assms(2-4) by (simp_all only: word_le_nat_alt)
  then have "(unat s - unat ps) div 184320 \<le> (unat s' - unat ps) div 184320"
    "(unat s' - unat ps) div 184320 \<le> (unat e' - unat ps) div 184320"
    "(unat e' - unat ps) div 184320 \<le> (unat e - unat ps) div 184320"
    by (simp_all add: div_le_mono diff_le_mono)
  then show ?thesis using assms(1) unfolding same_block_def by linarith
qed

lemma block_ok_sub: "block_ok f p s e \<Longrightarrow> s \<le> s' \<Longrightarrow> s' \<le> e' \<Longrightarrow> e' \<le> e \<Longrightarrow> block_ok f p s' e'"
  using same_block_sub[of "ucast p * PART64" s e s' e'] unfolding block_ok_def
  by (meson le_less_trans order_trans)

lemma next_block_ok:
  assumes "gaps_ok (pf_fileSize f) (pf_gapList f)" "pf_fileSize f \<noteq> 0"
    and "getNextEmptyBlockInPart p frm f = Some (s, e)"
  shows "block_ok f p s e \<and> frm \<le> s"
  using next_block_correct[OF assms(1,2), of p frm] assms(3) part_end_bounds(1)[OF assms(2), of p]
  by (auto simp: block_ok_def intro: le_less_trans)

theorem nextFreeBlock_ends:
  assumes "gaps_ok (pf_fileSize f) (pf_gapList f)" "pf_fileSize f \<noteq> 0"
  shows "\<exists>r. nextFreeBlock clients now sender phase f p frm = Some r \<and>
    (\<forall>s e. r = Some (s, e) \<longrightarrow> block_ok f p s e \<and> frm \<le> s \<and> askable (pf_requestedBlocks f) (s_id sender) s e)"
proof (induction "unat (pf_fileSize f) - unat frm" arbitrary: frm rule: less_induct)
  case less
  show ?case
  proof (cases "getNextEmptyBlockInPart p frm f")
    case None
    then show ?thesis by (subst nextFreeBlock.simps) simp
  next
    case (Some b)
    obtain s e where b: "b = (s, e)" by (cases b)
    note ok = next_block_ok[OF assms Some[unfolded b]]
    then have se: "s \<le> e" "e < pf_fileSize f" by (auto simp: block_ok_def)
    show ?thesis
    proof (cases "shrinkToAvoidAlreadyRequested s e f")
      case None
      show ?thesis
      proof (cases "phase \<noteq> Normal \<and> maySecondSourceTake clients now sender s e phase f")
        case True
        then show ?thesis using Some b None ok askable_second by (subst nextFreeBlock.simps) auto
      next
        case False
        have u: "unat (e + 1) = unat e + 1" by (rule unat_inc[OF se(2)])
        have le: "frm \<le> e + 1" "unat (pf_fileSize f) - unat (e + 1) < unat (pf_fileSize f) - unat frm"
          using u ok se by (auto simp: word_order)
        from less[OF le(2)] show ?thesis
          using Some b None False le(1) by (subst nextFreeBlock.simps) (auto intro: order_trans)
      qed
    next
      case (Some b')
      obtain s' e' where b': "b' = (s', e')" by (cases b')
      have sh: "s \<le> s'" "s' \<le> e'" "e' \<le> e" "\<forall>(a, c)\<in>set (taken_ranges f). c < s' \<or> e' < a"
        using shrink_all_correct[of "taken_ranges f" s e s' e'] Some b' se(1)
        by (auto simp: shrinkToAvoidAlreadyRequested_def)
      have "askable (pf_requestedBlocks f) (s_id sender) s' e'"
        by (rule askable_free) (use sh(4) in \<open>auto simp: taken_ranges_def\<close>)
      moreover have "nextFreeBlock clients now sender phase f p frm = Some (Some (s', e'))"
        using \<open>getNextEmptyBlockInPart p frm f = Some b\<close> b Some b' by (subst nextFreeBlock.simps) simp
      ultimately show ?thesis using block_ok_sub[of f p s e s' e'] ok sh(1-3) by (auto intro: order_trans)
    qed
  qed
qed

section \<open>Allocation\<close>

text \<open>An allocation only adds requests of the sender, each for missing bytes of one of the given parts.\<close>

definition grows :: "source \<Rightarrow> u32 set \<Rightarrow> alloc \<Rightarrow> alloc \<Rightarrow> bool" where
  "grows sender ps a a' =
     (\<exists>bs. al_file a' = (al_file a)\<lparr>pf_requestedBlocks := pf_requestedBlocks (al_file a) @ bs\<rparr> \<and>
        al_found a' = al_found a @ bs \<and>
        (\<forall>b\<in>set bs. rb_holder b = Some (s_id sender) \<and> (\<exists>p\<in>ps. block_ok (al_file a) p (rb_start b) (rb_end b))) \<and>
        (two_sources (pf_requestedBlocks (al_file a)) \<longrightarrow> two_sources (pf_requestedBlocks (al_file a'))) \<and>
        (int (length (al_found a)) \<le> al_count a \<longrightarrow> int (length (al_found a')) \<le> al_count a') \<and>
        al_count a' \<le> al_count a \<and> (0 < al_count a \<longrightarrow> 0 < al_count a'))"

lemma block_ok_requests [simp]: "block_ok (f\<lparr>pf_requestedBlocks := bs\<rparr>) p s e = block_ok f p s e"
  by (simp add: block_ok_def)

lemma grows_refl: "grows sender ps a a"
  unfolding grows_def by (rule exI[of _ "[]"]) simp

lemma grows_trans: "grows sender ps a a' \<Longrightarrow> grows sender ps a' a'' \<Longrightarrow> grows sender ps a a''"
  unfolding grows_def
proof (elim exE, intro exI, intro conjI)
  fix bs bs'
  assume 1: "al_file a' = al_file a\<lparr>pf_requestedBlocks := pf_requestedBlocks (al_file a) @ bs\<rparr> \<and>
        al_found a' = al_found a @ bs \<and>
        (\<forall>b\<in>set bs. rb_holder b = Some (s_id sender) \<and> (\<exists>p\<in>ps. block_ok (al_file a) p (rb_start b) (rb_end b))) \<and>
        (two_sources (pf_requestedBlocks (al_file a)) \<longrightarrow> two_sources (pf_requestedBlocks (al_file a'))) \<and>
        (int (length (al_found a)) \<le> al_count a \<longrightarrow> int (length (al_found a')) \<le> al_count a') \<and> al_count a' \<le> al_count a \<and>
        (0 < al_count a \<longrightarrow> 0 < al_count a')"
    and 2: "al_file a'' = al_file a'\<lparr>pf_requestedBlocks := pf_requestedBlocks (al_file a') @ bs'\<rparr> \<and>
        al_found a'' = al_found a' @ bs' \<and>
        (\<forall>b\<in>set bs'. rb_holder b = Some (s_id sender) \<and> (\<exists>p\<in>ps. block_ok (al_file a') p (rb_start b) (rb_end b))) \<and>
        (two_sources (pf_requestedBlocks (al_file a')) \<longrightarrow> two_sources (pf_requestedBlocks (al_file a''))) \<and>
        (int (length (al_found a')) \<le> al_count a' \<longrightarrow> int (length (al_found a'')) \<le> al_count a'') \<and> al_count a'' \<le> al_count a' \<and>
        (0 < al_count a' \<longrightarrow> 0 < al_count a'')"
  show "al_file a'' = al_file a\<lparr>pf_requestedBlocks := pf_requestedBlocks (al_file a) @ bs @ bs'\<rparr>" using 1 2 by simp
  show "al_found a'' = al_found a @ bs @ bs'" using 1 2 by simp
  show "\<forall>b\<in>set (bs @ bs'). rb_holder b = Some (s_id sender) \<and> (\<exists>p\<in>ps. block_ok (al_file a) p (rb_start b) (rb_end b))"
    using 1 2 by auto
qed (blast | linarith)+

lemma grows_mono: "grows sender ps a a' \<Longrightarrow> ps \<subseteq> qs \<Longrightarrow> grows sender qs a a'"
  unfolding grows_def by blast

abbreviation "file_ok f \<equiv> gaps_ok (pf_fileSize f) (pf_gapList f) \<and> pf_fileSize f \<noteq> 0"

lemma grows_file_ok: "grows sender ps a a' \<Longrightarrow> file_ok (al_file a) \<Longrightarrow> file_ok (al_file a')"
  by (auto simp: grows_def)

lemma reserved_end:
  assumes "(s::u64) \<le> e0"
  shows "s \<le> (if limit > 0 \<and> e0 - s + 1 > limit then s + limit - 1 else e0) \<and>
    (if limit > 0 \<and> e0 - s + 1 > limit then s + limit - 1 else e0) \<le> e0"
proof (cases "limit > 0 \<and> e0 - s + 1 > limit")
  case True
  let ?d = "e0 - s"
  have l: "unat (limit - 1) = unat limit - 1" "0 < unat limit" using unat_dec[of 0 limit] True by (simp, simp add: word_less_nat_alt)
  have "unat (?d + 1) \<le> unat ?d + 1" by (simp add: unat_plus_if') linarith
  moreover have "unat limit < unat (?d + 1)" using True by (simp only: word_less_nat_alt)
  moreover have "unat ?d = unat e0 - unat s" using assms by (simp add: unat_sub)
  moreover have "unat s \<le> unat e0" using assms by (simp only: word_le_nat_alt)
  ultimately have le: "unat s + unat (limit - 1) \<le> unat e0" using l by linarith
  then have "unat s + unat (limit - 1) < 2 ^ LENGTH(64)"
    by (rule le_less_trans) (rule unsigned_less)
  then have "unat (s + (limit - 1)) = unat s + unat (limit - 1)" by (rule unat_add_small)
  then have "s \<le> s + (limit - 1) \<and> s + (limit - 1) \<le> e0" using le unfolding word_le_nat_alt by linarith
  then show ?thesis using True by (simp only: if_True add_diff_eq simp_thms)
qed (use assms in auto)

text \<open>One more block.\<close>

lemma grows_one:
  assumes "block_ok (al_file a) p s e0" "askable (pf_requestedBlocks (al_file a)) (s_id sender) s e0" "s \<le> e" "e \<le> e0" "p \<in> ps"
    and "int (length (al_found a)) < al_count a" "b = new_request (s_id sender) now s e"
    and "n \<le> al_count a" "int (length (al_found a)) < n"
  shows "grows sender ps a (a\<lparr>al_file := (al_file a)\<lparr>pf_requestedBlocks := pf_requestedBlocks (al_file a) @ [b]\<rparr>,
      al_found := al_found a @ [b], al_count := n\<rparr>)"
proof -
  have b: "rb_start b = s" "rb_end b = e" "rb_holder b = Some (s_id sender)" by (simp_all add: assms(7) new_request_def)
  have "block_ok (al_file a) p s e" by (rule block_ok_sub[OF assms(1) order_refl assms(3,4)])
  moreover have "two_sources (pf_requestedBlocks (al_file a)) \<longrightarrow> two_sources (pf_requestedBlocks (al_file a) @ [b])"
    unfolding assms(7) using two_sources_ask[OF _ assms(2,4)] by blast
  ultimately show ?thesis unfolding grows_def using b assms(5,8,9) by (intro exI[of _ "[b]"]) auto
qed

lemma allocate_loop_ends:
  "file_ok (al_file a) \<Longrightarrow> \<exists>a'. allocate_loop clients now sender phase p limit frm a = Some a' \<and> grows sender {p} a a'"
proof (induction "nat (al_count a - int (length (al_found a)))" arbitrary: frm a rule: less_induct)
  case less
  show ?case
  proof (cases "int (length (al_found a)) \<ge> al_count a")
    case True
    then show ?thesis by (subst allocate_loop.simps) (simp add: grows_refl)
  next
    case False
    obtain r where r: "nextFreeBlock clients now sender phase (al_file a) p frm = Some r"
      "\<And>s e. r = Some (s, e) \<Longrightarrow> block_ok (al_file a) p s e \<and> askable (pf_requestedBlocks (al_file a)) (s_id sender) s e"
      using nextFreeBlock_ends less.prems by blast
    show ?thesis
    proof (cases r)
      case None
      then show ?thesis using False r(1) by (subst allocate_loop.simps) (simp add: grows_refl)
    next
      case (Some q)
      obtain s e0 where q: "q = (s, e0)" by (cases q)
      have ok: "block_ok (al_file a) p s e0" and ask: "askable (pf_requestedBlocks (al_file a)) (s_id sender) s e0"
        using r(2) Some q by blast+
      then have se: "s \<le> e0" by (simp add: block_ok_def)
      define e where "e = (if limit > 0 \<and> e0 - s + 1 > limit then s + limit - 1 else e0)"
      have e: "s \<le> e" "e \<le> e0"
        using reserved_end[OF se, of limit] se by (simp_all add: e_def)
      define b where "b = new_request (s_id sender) now s e"
      define a1 where "a1 = a\<lparr>al_file := (al_file a)\<lparr>pf_requestedBlocks := pf_requestedBlocks (al_file a) @ [b]\<rparr>,
        al_found := al_found a @ [b]\<rparr>"
      have g: "grows sender {p} a (a1\<lparr>al_count := n\<rparr>)" if "n \<le> al_count a" "int (length (al_found a)) < n" for n
        using grows_one[OF ok ask e singletonI _ b_def that] False unfolding a1_def by simp
      have step: "allocate_loop clients now sender phase p limit frm a =
          (if limit > 0 then Some (a1\<lparr>al_count := int (length (al_found a1))\<rparr>)
           else allocate_loop clients now sender phase p limit (e0 + 1) a1)"
        using False r(1) Some q
        by (subst allocate_loop.simps) (simp add: Let_def e_def b_def a1_def)
      show ?thesis
      proof (cases "limit > 0")
        case True
        then show ?thesis using step g[of "int (length (al_found a1))"] False by (simp add: a1_def)
      next
        case no: False
        have g1: "grows sender {p} a a1" using g[of "al_count a"] False unfolding a1_def by simp
        have "nat (al_count a1 - int (length (al_found a1))) < nat (al_count a - int (length (al_found a)))"
          using False by (simp add: a1_def)
        from less.hyps[OF this grows_file_ok[OF g1 less.prems]]
        show ?thesis using step no grows_trans[OF g1] by auto
      qed
    qed
  qed
qed

text \<open>The parts of the file that the sender has.\<close>

definition parts_of :: "source \<Rightarrow> part_file \<Rightarrow> u32 set" where
  "parts_of sender f = {p \<in> set (part_numbers f). senderHasPart sender p}"

lemma part_numbers_iff: "p \<in> set (part_numbers f) \<longleftrightarrow> p < ucast (data_part_count (pf_fileSize f))"
proof -
  let ?c = "data_part_count (pf_fileSize f)"
  have u: "unat (ucast ?c :: u32) = unat ?c"
  proof -
    have "unat ?c < 2 ^ 16" using unsigned_less[of ?c, where 'a = nat] by simp
    then have "unat ?c < 2 ^ 32" by (rule less_le_trans) simp
    then show ?thesis by (simp add: unsigned_ucast_eq take_bit_nat_eq_self)
  qed
  have of: "unat (of_nat n :: u32) = n" if "n < unat ?c" for n
    using that unat_of_nat_small[of n "ucast ?c :: u32"] u by simp
  show ?thesis
  proof
    assume "p \<in> set (part_numbers f)"
    then show "p < ucast ?c" using of u by (auto simp: part_numbers_def word_less_nat_alt)
  next
    assume "p < ucast ?c"
    then have "unat p < unat ?c" using u by (simp add: word_less_nat_alt)
    then show "p \<in> set (part_numbers f)" by (auto simp: part_numbers_def intro!: image_eqI[of p of_nat "unat p"])
  qed
qed

lemma part_numbers_requests [simp]: "part_numbers (f\<lparr>pf_requestedBlocks := bs\<rparr>) = part_numbers f"
  by (simp add: part_numbers_def)

lemma grows_allocate:
  "file_ok (al_file a) \<Longrightarrow> p \<in> ps \<Longrightarrow> \<exists>a'. allocateFromPart clients now sender phase p a = Some a' \<and> grows sender ps a a'"
  unfolding allocateFromPart_def using allocate_loop_ends grows_mono by (metis empty_subsetI insert_subset)

lemma preview_open_ends:
  "file_ok f \<Longrightarrow> \<exists>b. preview_open clients now wanted sender phase f ps = Some b"
proof (induction ps)
  case (Cons p ps)
  obtain r where "nextFreeBlock clients now sender phase f p 0 = Some r" using nextFreeBlock_ends Cons.prems by blast
  then show ?case using Cons by auto
qed auto

lemma part_candidates_end:
  "file_ok f \<Longrightarrow> \<exists>cs. part_candidates clients now draw wanted sender phase f lp ps = Some cs \<and>
     (\<forall>c\<in>set cs. cp_part c \<in> set ps \<and> senderHasPart sender (cp_part c))"
proof (induction ps)
  case (Cons p ps)
  obtain r where "nextFreeBlock clients now sender phase f p 0 = Some r" using nextFreeBlock_ends Cons.prems by blast
  then show ?case using Cons by auto
qed simp

lemma grows_sender: "s_id sender = s_id sender' \<Longrightarrow> grows sender ps a a' \<longleftrightarrow> grows sender' ps a a'"
  by (simp add: grows_def)

lemma allocate_candidates_end:
  "file_ok (al_file a) \<Longrightarrow> \<forall>c\<in>set cs. cp_part c \<in> ps \<Longrightarrow>
   \<exists>s' a'. allocate_candidates clients now phase cs sender a = Some (s', a') \<and> grows sender ps a a'"
proof (induction cs arbitrary: sender a)
  case Nil
  then show ?case by (simp add: grows_refl)
next
  case (Cons c cs)
  show ?case
  proof (cases "int (length (al_found a)) \<ge> al_count a")
    case True
    then show ?thesis by (simp add: grows_refl)
  next
    case False
    obtain a1 where a1: "allocateFromPart clients now sender phase (cp_part c) a = Some a1" "grows sender ps a a1"
      using grows_allocate[OF Cons.prems(1), of "cp_part c" ps] Cons.prems(2) by fastforce
    let ?s = "if length (al_found a1) > length (al_found a) then sender\<lparr>s_lastPartAsked := ucast (cp_part c)\<rparr> else sender"
    obtain s' a' where r: "allocate_candidates clients now phase cs ?s a1 = Some (s', a')" "grows ?s ps a1 a'"
      using Cons.IH[OF grows_file_ok[OF a1(2) Cons.prems(1)]] Cons.prems(2) by fastforce
    then have "grows sender ps a1 a'" using grows_sender[of ?s sender] by simp
    then show ?thesis using False a1 r(1) grows_trans by auto
  qed
qed

text \<open>The result of a choice of blocks.\<close>

definition choice_ok :: "source \<Rightarrow> int \<Rightarrow> part_file \<Rightarrow> bool \<times> part_file \<times> source \<times> request list \<Rightarrow> bool" where
  "choice_ok sender n f r =
     (case r of (found, f', sender', bs) \<Rightarrow>
        (found \<longleftrightarrow> bs \<noteq> []) \<and> int (length bs) \<le> max n 0 \<and>
        f' = f\<lparr>pf_requestedBlocks := pf_requestedBlocks f @ bs\<rparr> \<and>
        (\<forall>b\<in>set bs. rb_holder b = Some (s_id sender) \<and>
           (\<exists>p. p < ucast (data_part_count (pf_fileSize f)) \<and> senderHasPart sender p \<and> block_ok f p (rb_start b) (rb_end b))) \<and>
        (two_sources (pf_requestedBlocks f) \<longrightarrow> two_sources (pf_requestedBlocks f')))"

lemma choice_of_growth:
  assumes g: "grows sender (parts_of sender f) \<lparr>al_file = f, al_found = [], al_count = n\<rparr> a"
    and "0 \<le> n" "found \<longleftrightarrow> al_found a \<noteq> []"
  shows "choice_ok sender n f (found, al_file a, sender', al_found a)"
proof -
  obtain bs where a: "al_file a = f\<lparr>pf_requestedBlocks := pf_requestedBlocks f @ bs\<rparr>" "al_found a = bs"
    and b: "\<And>b. b \<in> set bs \<Longrightarrow> rb_holder b = Some (s_id sender) \<and> (\<exists>p\<in>parts_of sender f. block_ok f p (rb_start b) (rb_end b))"
    and t: "two_sources (pf_requestedBlocks f) \<longrightarrow> two_sources (pf_requestedBlocks (al_file a))"
    and n: "int (length bs) \<le> al_count a" "al_count a \<le> n"
    using g assms(2) unfolding grows_def by auto
  have "\<exists>p. p < ucast (data_part_count (pf_fileSize f)) \<and> senderHasPart sender p \<and> block_ok f p (rb_start b) (rb_end b)"
    if "b \<in> set bs" for b
    using b[OF that] unfolding parts_of_def part_numbers_iff[symmetric] by blast
  then show ?thesis using a b t n assms(2,3) unfolding choice_ok_def by simp
qed

lemma choice_total:
  assumes "gaps_ok (pf_fileSize f) (pf_gapList f)" and "\<And>cs. mset (shuffle cs) = mset cs"
  shows "\<exists>r. getNextRequestedBlock clients now draw shuffle wanted sender n f = Some r \<and> choice_ok sender n f r"
proof -
  have same_set: "set (shuffle cs) = set cs" for cs by (rule mset_eq_setD[OF assms(2)])
  have none: "choice_ok sender n f (False, f, sender', [])" for sender' by (simp add: choice_ok_def)
  consider (no) "n \<le> 0 \<or> (s_partStatus sender = [] \<and> \<not> s_completeSource sender)"
    | (empty) "\<not> (n \<le> 0 \<or> (s_partStatus sender = [] \<and> \<not> s_completeSource sender))" "pf_fileSize f = 0"
    | (go) "\<not> (n \<le> 0 \<or> (s_partStatus sender = [] \<and> \<not> s_completeSource sender))" "pf_fileSize f \<noteq> 0" by blast
  then show ?thesis
  proof cases
    case no
    then show ?thesis using none by (auto simp: getNextRequestedBlock_def)
  next
    case empty
    have "shuffle [] = []" using same_set[of "[]"] by simp
    then have "\<exists>s'. getNextRequestedBlock clients now draw shuffle wanted sender n f = Some (False, f, s', [])"
      using empty by (simp add: getNextRequestedBlock_def Let_def data_part_count_def part_numbers_def order_candidates_def)
    then show ?thesis using none by blast
  next
    case go
    let ?ps = "parts_of sender f" and ?a0 = "\<lparr>al_file = f, al_found = [], al_count = n\<rparr>"
    let ?phase = "endPhase f" and ?pc = "ucast (data_part_count (pf_fileSize f)) :: u32"
    define last0 where "last0 = (if s_lastPartAsked sender \<noteq> - 1 \<and> (\<not> s_isEMule sender \<or> s_clientVersion sender < makeClientVersion 0 43 1)
                     then - 1 else s_lastPartAsked sender)"
    have f: "file_ok f" and f0: "file_ok (al_file ?a0)" using assms(1) go by simp_all
    obtain opened where opened: "(if ucast last0 < ?pc \<and> \<not> isPreviewPart wanted f (ucast last0)
                    then preview_open clients now wanted sender ?phase f (part_numbers f) else Some False) = Some opened"
      using preview_open_ends[OF f] by (metis (no_types, opaque_lifting))
    define lp where "lp = (if opened then - 1 else last0)"
    let ?c = "ucast lp < ?pc \<and> senderHasPart sender (ucast lp)"
    obtain a1 where a1: "(if ?c then allocateFromPart clients now sender ?phase (ucast lp) ?a0 else Some ?a0) = Some a1"
      and g1: "grows sender ?ps ?a0 a1"
    proof (cases ?c)
      case True
      then have "ucast lp \<in> ?ps" by (simp add: parts_of_def part_numbers_iff)
      then show thesis using grows_allocate[OF f0] True that by force
    qed (use grows_refl that in auto)
    let ?s1 = "if lp \<noteq> - 1 then sender\<lparr>s_lastPartAsked := - 1\<rparr> else sender"
    have step: "getNextRequestedBlock clients now draw shuffle wanted sender n f =
       (if ?c \<and> int (length (al_found a1)) \<ge> al_count a1 then Some (True, al_file a1, sender, al_found a1)
        else do {
          cs \<leftarrow> part_candidates clients now draw wanted ?s1 ?phase (al_file a1) (ucast lp) (part_numbers f);
          sa \<leftarrow> allocate_candidates clients now ?phase (order_candidates shuffle cs) ?s1 a1;
          Some (al_found (snd sa) \<noteq> [], al_file (snd sa), fst sa, al_found (snd sa))
        })"
      unfolding getNextRequestedBlock_def Let_def last0_def[symmetric] opened bind.simps lp_def[symmetric] a1
      using go by (simp only: if_False de_Morgan_disj conj_assoc)
    have cnt: "0 < al_count a1" using g1 go by (auto simp: grows_def)
    show ?thesis
    proof (cases "?c \<and> int (length (al_found a1)) \<ge> al_count a1")
      case True
      then have "al_found a1 \<noteq> []" using cnt by auto
      then have "choice_ok sender n f (True, al_file a1, sender, al_found a1)"
        using choice_of_growth[OF g1] go by simp
      then show ?thesis using step True by auto
    next
      case False
      have f1: "file_ok (al_file a1)" by (rule grows_file_ok[OF g1 f0])
      obtain cs where cs: "part_candidates clients now draw wanted ?s1 ?phase (al_file a1) (ucast lp) (part_numbers f) = Some cs"
        "\<forall>c\<in>set cs. cp_part c \<in> set (part_numbers f) \<and> senderHasPart ?s1 (cp_part c)"
        using part_candidates_end[OF f1] by blast
      have "\<forall>c\<in>set (order_candidates shuffle cs). cp_part c \<in> ?ps"
        using cs(2) same_set by (auto simp: order_candidates_def parts_of_def senderHasPart_def split: if_splits)
      then obtain s' a' where a': "allocate_candidates clients now ?phase (order_candidates shuffle cs) ?s1 a1 = Some (s', a')"
        "grows ?s1 ?ps a1 a'" using allocate_candidates_end[OF f1] by blast
      have "grows sender ?ps a1 a'" using a'(2) grows_sender[of ?s1 sender] by simp
      then have "choice_ok sender n f (al_found a' \<noteq> [], al_file a', s', al_found a')"
        using choice_of_growth[OF grows_trans[OF g1]] go by simp
      then show ?thesis unfolding step using False cs(1) a'(1) by (simp only: if_False bind.simps snd_conv fst_conv) blast
    qed
  qed
qed

text \<open>C25. The choice of blocks for a source always returns: the search through the gaps, the loop over the blocks
  of a part and the loop over the parts all end, whatever is requested, buffered or drawn.\<close>

theorem block_choice_returns:
  assumes "gaps_ok (pf_fileSize f) (pf_gapList f)" and "\<And>cs. mset (shuffle cs) = mset cs"
  shows "getNextRequestedBlock clients now draw shuffle wanted sender n f \<noteq> None"
  using choice_total[OF assms, of clients now draw wanted sender n] by auto

definition sample_file :: part_file where
  "sample_file = \<lparr>pf_fileSize = 20000000, pf_gapList = [Gap 100 500000], pf_requestedBlocks =
     [\<lparr>rb_start = 100, rb_end = 184319, rb_holder = Some 7, rb_requested = True, rb_tick = 0\<rparr>],
     pf_bufferedData = [], pf_flushingData = [], pf_datarate = 0, pf_srcPartFrequency = [1, 1, 1], pf_sourceCount = 2,
     pf_a4afCount = 0, pf_downloadingSources = []\<rparr>"

definition sample_source :: source where
  "sample_source = \<lparr>s_id = 3, s_completeSource = True, s_partStatus = [], s_partCount = 3, s_downDatarate = 0,
     s_sessionDown = 0, s_lastPartAsked = - 1, s_isEMule = True, s_clientVersion = 0\<rparr>"

lemma sample_ok: "gaps_ok (pf_fileSize sample_file) (pf_gapList sample_file)"
  by (simp add: sample_file_def gaps_ok_def)

theorem block_choice_returns_witness:
  "getNextRequestedBlock (\<lambda>_. sample_source) 0 (\<lambda>_ a _. a) rev False sample_source 2 sample_file \<noteq> None"
  by (rule block_choice_returns[OF sample_ok]) simp

text \<open>C10. A choice of blocks asks for at most as many as wanted; each is a range of missing bytes inside one AICH
  block of a part the source has; nothing else of the file changes, and if no byte was asked of more than two
  sources before, none is after.\<close>

theorem chosen_blocks_are_needed:
  assumes "gaps_ok (pf_fileSize f) (pf_gapList f)" and "\<And>cs. mset (shuffle cs) = mset cs"
    and "getNextRequestedBlock clients now draw shuffle wanted sender n f = Some (found, f', sender', bs)"
  shows "(found \<longleftrightarrow> bs \<noteq> []) \<and> int (length bs) \<le> max n 0 \<and>
    f' = f\<lparr>pf_requestedBlocks := pf_requestedBlocks f @ bs\<rparr> \<and>
    (\<forall>b\<in>set bs. rb_holder b = Some (s_id sender) \<and>
       (\<exists>p. p < ucast (data_part_count (pf_fileSize f)) \<and> senderHasPart sender p \<and> block_ok f p (rb_start b) (rb_end b))) \<and>
    (two_sources (pf_requestedBlocks f) \<longrightarrow> two_sources (pf_requestedBlocks f'))"
  using choice_total[OF assms(1,2), of clients now draw wanted sender n] assms(3) by (auto simp: choice_ok_def)

lemmas [code] = nextFreeBlock.simps allocate_loop.simps

lemma sample_choice:
  "getNextRequestedBlock (\<lambda>_. sample_source) 0 (\<lambda>_ a _. a) rev False sample_source 1 sample_file =
     Some (True, sample_file\<lparr>pf_requestedBlocks := pf_requestedBlocks sample_file @ [new_request 3 0 184320 368639]\<rparr>,
       sample_source\<lparr>s_lastPartAsked := 0\<rparr>, [new_request 3 0 184320 368639])"
  by code_simp

theorem chosen_blocks_are_needed_witness:
  "\<exists>p. p < 3 \<and> senderHasPart sample_source p \<and> block_ok sample_file p 184320 368639"
  using chosen_blocks_are_needed[OF sample_ok _ sample_choice]
  by (simp add: new_request_def sample_file_def data_part_count_def ed2k_part_count_def PART64_def)

end
