(* ===== verification/Part_Safe.thy ===== *)
theory Part_Safe
  imports Part_Buffer Part_Alloc
begin

text \<open>
  What the write buffer promises (Part_Buffer), whatever the disk does: a byte that is not missing
  was received or checked, and is in the data file or still held; a download completes only when
  each of its parts has the right hash.  Both are invariants of the steps of a download.
\<close>

section \<open>Writing keeps what is known\<close>

definition known_chunk :: "(u64 \<Rightarrow> u8 \<Rightarrow> bool) \<Rightarrow> chunk \<Rightarrow> bool" where
  "known_chunk K c = (\<forall>i<length (snd c). K (fst c + of_nat i) (snd c ! i))"

definition carries :: "(u64 \<Rightarrow> u8 \<Rightarrow> bool) \<Rightarrow> chunk \<Rightarrow> buffered \<Rightarrow> bool" where
  "carries K c bd = (fst c = bd_start bd \<and> length (snd c) = unat (bd_end bd - bd_start bd) + 1 \<and> known_chunk K c)"

lemma known_at:
  assumes "known_chunk K c" "unat (x - fst c) < length (snd c)"
  shows "K x (snd c ! unat (x - fst c))"
proof -
  have "K (fst c + of_nat (unat (x - fst c))) (snd c ! unat (x - fst c))"
    using assms by (simp only: known_chunk_def)
  then show ?thesis by simp
qed

lemma put_chunk_keeps: "known_chunk K c \<Longrightarrow> K x (disk x) \<Longrightarrow> K x (put_chunk c disk x)"
  by (simp add: put_chunk_def known_at)

lemma put_chunks_keeps: "\<forall>c\<in>set cs. known_chunk K c \<Longrightarrow> K x (disk x) \<Longrightarrow> K x (put_chunks cs disk x)"
  unfolding put_chunks_def by (induction cs arbitrary: disk) (simp_all add: put_chunk_keeps)

lemma put_chunks_Cons: "put_chunks (c # cs) disk = put_chunks cs (put_chunk c disk)"
  by (simp add: put_chunks_def)

lemma put_chunk_covers:
  assumes "carries K c bd" "bd_start bd \<le> x" "x \<le> bd_end bd"
  shows "K x (put_chunk c disk x)"
proof -
  have "bd_start bd \<le> bd_end bd" using assms(2,3) by (rule order_trans)
  then have "unat (x - bd_start bd) < unat (bd_end bd - bd_start bd) + 1"
    using assms(2,3) by (simp add: unat_sub word_le_nat_alt)
  then show ?thesis using assms known_at[of K c x] by (simp add: put_chunk_def carries_def)
qed

lemma carried_known: "list_all2 (carries K) cs bds \<Longrightarrow> \<forall>c\<in>set cs. known_chunk K c"
  by (induction rule: list_all2_induct) (simp_all add: carries_def)

lemma put_chunks_covers:
  "list_all2 (carries K) cs bds \<Longrightarrow> bd \<in> set bds \<Longrightarrow> bd_start bd \<le> x \<Longrightarrow> x \<le> bd_end bd \<Longrightarrow> K x (put_chunks cs disk x)"
proof (induction cs bds arbitrary: disk rule: list_all2_induct)
  case (Cons c cs b bds)
  have known: "\<forall>c\<in>set cs. known_chunk K c" by (rule carried_known[OF Cons.hyps(2)])
  show ?case
  proof (cases "bd \<in> set bds")
    case True
    then show ?thesis using Cons.IH[OF True Cons.prems(2,3)] by (simp add: put_chunks_Cons)
  next
    case False
    then have "bd = b" using Cons.prems(1) by simp
    then show ?thesis
      using put_chunk_covers[OF Cons.hyps(1)] Cons.prems(2,3) put_chunks_keeps[of cs K x, OF known] by (simp add: put_chunks_Cons)
  qed
qed simp

lemma known_take: "known_chunk K (s, bytes) \<Longrightarrow> known_chunk K (s, take k bytes)"
  by (simp add: known_chunk_def)

lemma execute_keeps:
  assumes "\<forall>c\<in>set cs. known_chunk K c" "K x (disk x)"
  shows "K x (execute_writes out cs disk x)"
proof (cases out)
  case Wrote
  then show ?thesis using put_chunks_keeps[of cs K x disk] assms by simp
next
  case (Stopped n k full)
  have "\<forall>c\<in>set (take n cs @ map (\<lambda>(s, bytes). (s, take k bytes)) (take 1 (drop n cs))). known_chunk K c"
  proof
    fix c assume c: "c \<in> set (take n cs @ map (\<lambda>(s, bytes). (s, take k bytes)) (take 1 (drop n cs)))"
    have sub: "set (take n cs) \<subseteq> set cs" "set (take 1 (drop n cs)) \<subseteq> set cs"
      using set_take_subset set_drop_subset by fast+
    show "known_chunk K c" using c sub assms(1) by (auto intro!: known_take)
  qed
  then show ?thesis unfolding Stopped execute_writes.simps by (rule put_chunks_keeps) (rule assms(2))
qed

lemma known_mono: "(\<And>x b. K x b \<Longrightarrow> K' x b) \<Longrightarrow> carries K c bd \<Longrightarrow> carries K' c bd"
  by (auto simp: carries_def known_chunk_def)

lemma known_mono_all: "(\<And>x b. K x b \<Longrightarrow> K' x b) \<Longrightarrow> list_all2 (carries K) cs bds \<Longrightarrow> list_all2 (carries K') cs bds"
  by (rule list_all2_mono) (blast intro: known_mono)+

section \<open>No byte is trusted that was not received or checked\<close>

definition in_ranges :: "buffered list \<Rightarrow> u64 \<Rightarrow> bool" where
  "in_ranges bds x = (\<exists>bd\<in>set bds. bd_start bd \<le> x \<and> x \<le> bd_end bd)"

lemma in_ranges_Nil [simp]: "\<not> in_ranges [] x"
  by (simp add: in_ranges_def)

lemma in_ranges_Cons [simp]: "in_ranges (bd # bds) x \<longleftrightarrow> (bd_start bd \<le> x \<and> x \<le> bd_end bd) \<or> in_ranges bds x"
  by (auto simp: in_ranges_def)

lemma in_ranges_append [simp]: "in_ranges (bds @ bds') x \<longleftrightarrow> in_ranges bds x \<or> in_ranges bds' x"
  by (auto simp: in_ranges_def)

definition range_ok :: "u64 \<Rightarrow> buffered \<Rightarrow> bool" where
  "range_ok fs bd = (bd_start bd \<le> bd_end bd \<and> bd_end bd < fs)"

abbreviation "buffered_of d \<equiv> pf_bufferedData (d_file d)"
abbreviation "flushing_of d \<equiv> pf_flushingData (d_file d)"

text \<open>The buffer, what is with the worker, and the answer of the worker agree with each other.\<close>

definition held_ok :: "download \<Rightarrow> bool" where
  "held_ok d =
     ((\<forall>bd\<in>set (buffered_of d). range_ok (fsize d) bd \<and> carries (d_known d) (bd_start bd, bd_data bd) bd) \<and>
      (\<forall>bd\<in>set (flushing_of d). range_ok (fsize d) bd) \<and>
      (d_flushToken d = 0 \<longrightarrow> flushing_of d = [] \<and> d_job d = None \<and> d_result d = None) \<and>
      (d_job d = None \<or> d_result d = None) \<and>
      (\<forall>t cs. d_job d = Some (t, cs) \<longrightarrow> t = d_flushToken d \<and> list_all2 (carries (d_known d)) cs (flushing_of d)) \<and>
      (\<forall>r. d_result d = Some r \<longrightarrow> wr_token r = d_flushToken d \<and>
         (if wr_written r then (\<forall>x. in_ranges (flushing_of d) x \<longrightarrow> d_known d x (d_disk d x))
          else list_all2 (carries (d_known d)) (wr_chunks r) (flushing_of d))))"

definition trusted :: "download \<Rightarrow> bool" where
  "trusted d =
     (fsize d \<noteq> 0 \<and> gaps_ok (fsize d) (gaps d) \<and> held_ok d \<and>
      (\<forall>x<fsize d. \<not> missing (gaps d) x \<longrightarrow>
         in_ranges (buffered_of d) x \<or> in_ranges (flushing_of d) x \<or> d_known d x (d_disk d x)))"


text \<open>What the two invariants read of a download beside its flags; most operations leave it alone.\<close>

definition core :: "download \<Rightarrow> u64 \<times> gap list \<times> buffered list \<times> buffered list \<times> nat \<times> (nat \<times> chunk list) option \<times>
    write_result option \<times> (u64 \<Rightarrow> u8 \<Rightarrow> bool) \<times> (u64 \<Rightarrow> u8)" where
  "core d = (fsize d, gaps d, buffered_of d, flushing_of d, d_flushToken d, d_job d, d_result d, d_known d, d_disk d)"

lemma trusted_core: "core d = core d' \<Longrightarrow> trusted d = trusted d'"
  by (simp add: core_def trusted_def held_ok_def)

lemma core_fsize: "core d = core d' \<Longrightarrow> fsize d = fsize d'"
  by (simp add: core_def)

lemma core_pause [simp]: "core (pauseFile b d) = core d"
  by (simp add: core_def pauseFile_def)

lemma core_failure [simp]: "core (handleWriteFailure env full d) = core d"
proof -
  have "core (pauseFile False (d\<lparr>d_writeError := True, d_statusBefore := d_status d, d_status := Error\<rparr>)) = core d"
    unfolding core_pause by (simp add: core_def)
  then show ?thesis by (simp add: handleWriteFailure_def)
qed

lemma core_mark [simp]: "core (markChangedParts s e d) = core d"
  by (simp add: core_def markChangedParts_def Let_def)

lemma core_mark_written [simp]: "core (mark_written bds d) = core d"
  unfolding mark_written_def by (induction bds arbitrary: d) simp_all

lemma core_drop [simp]: "core (dropCorruptedPart p d) = core d"
  by (simp add: core_def dropCorruptedPart_def)

lemma core_remove [simp]: "core (removeBlockFromList s e d) = core d"
  by (simp add: core_def removeBlockFromList_def)

lemma core_complete [simp]: "core (completeIfVerified d) = core d"
  by (simp add: core_def completeIfVerified_def completeFile_def)

lemma core_resume [simp]: "core (resume_write_error d) = core d"
  by (simp add: core_def resume_write_error_def)

lemma trusted_unchanged [simp]:
  "trusted (pauseFile b d) = trusted d" "trusted (handleWriteFailure env full d) = trusted d"
  "trusted (markChangedParts s e d) = trusted d" "trusted (mark_written bds d) = trusted d"
  "trusted (dropCorruptedPart p d) = trusted d" "trusted (removeBlockFromList s e d) = trusted d"
  "trusted (completeIfVerified d) = trusted d" "trusted (resume_write_error d) = trusted d"
  by (rule trusted_core, simp)+

lemma trusted_flags [simp]:
  "trusted (d\<lparr>d_changedParts := flags\<rparr>) = trusted d" "trusted (d\<lparr>d_corruptedParts := ps\<rparr>) = trusted d"
  "trusted (d\<lparr>d_corruptionLoss := n\<rparr>) = trusted d" "trusted (d\<lparr>d_ichPartsSaved := k\<rparr>) = trusted d"
  "trusted (d\<lparr>d_transferred := n\<rparr>) = trusted d" "trusted (d\<lparr>d_compressionGain := n\<rparr>) = trusted d"
  "trusted (d\<lparr>d_totalBufferData := n\<rparr>) = trusted d" "trusted (d\<lparr>d_flushingBytes := n\<rparr>) = trusted d"
  "trusted (d\<lparr>d_destroying := b\<rparr>) = trusted d"
  "trusted (d\<lparr>d_file := (d_file d)\<lparr>pf_requestedBlocks := rs\<rparr>\<rparr>) = trusted d"
  by (rule trusted_core, simp add: core_def)+

lemma fsize_unchanged [simp]:
  "fsize (pauseFile b d) = fsize d" "fsize (handleWriteFailure env full d) = fsize d"
  "fsize (markChangedParts s e d) = fsize d" "fsize (mark_written bds d) = fsize d"
  "fsize (dropCorruptedPart p d) = fsize d" "fsize (removeBlockFromList s e d) = fsize d"
  "fsize (completeIfVerified d) = fsize d" "fsize (resume_write_error d) = fsize d"
  by (rule core_fsize, simp)+

lemma part_start_less:
  fixes p :: u32
  assumes "p < ucast (data_part_count fs)"
  shows "ucast p * PART64 < fs"
proof -
  let ?n = "(fs + PART64 - 1) div PART64"
  have fs: "fs \<noteq> 0" using assms by (auto simp: data_part_count_def)
  have "unat p < unat (ucast (data_part_count fs) :: u32)" using assms by (simp only: word_less_nat_alt)
  also have "\<dots> \<le> unat (data_part_count fs)"
    unfolding unsigned_ucast_eq by (simp add: unsigned_take_bit_eq take_bit_nat_less_eq_self)
  also have "\<dots> \<le> unat ?n" using fs by (simp add: data_part_count_def unsigned_ucast_eq unsigned_take_bit_eq take_bit_nat_less_eq_self)
  finally have lt: "unat p < unat (fs + PART64 - 1) div 9728000" by (simp add: unat_div PART64_def)
  have "unat (9727999 :: u64) = 9727999" by simp
  moreover have "unat (fs + 9727999) \<le> unat fs + unat (9727999 :: u64)" by (simp only: unat_word_ariths(1) mod_less_eq_dividend)
  moreover have "fs + PART64 - 1 = fs + 9727999" by (simp add: PART64_def)
  ultimately have "unat (fs + PART64 - 1) \<le> unat fs + 9727999" by (simp only:)
  then have "unat p * 9728000 < unat fs" using lt by linarith
  then show ?thesis by (simp add: word_less_nat_alt unat_part_start)
qed

lemma trusted_set_gaps:
  assumes "trusted d" "gaps_ok (fsize d) gs" "\<And>x. missing (gaps d) x \<Longrightarrow> missing gs x"
  shows "trusted (set_gaps gs d)"
  using assms by (auto simp: trusted_def held_ok_def set_gaps_def)

lemma trusted_part_fails:
  assumes "trusted d" "p < ucast (data_part_count (fsize d))"
  shows "trusted (part_fails p d)"
proof -
  note ok = addGap_correct[of "fsize d" "gaps d" "ucast p * PART64" "last_byte p d", OF _ part_start_less[OF assms(2)]]
  have "trusted (set_gaps (addGap (fsize d) (ucast p * PART64) (last_byte p d) (gaps d)) d)"
    using assms(1) ok by (intro trusted_set_gaps) (auto simp: trusted_def)
  then show ?thesis by (simp add: part_fails_def Let_def)
qed

lemma held_ok_known:
  "held_ok d \<Longrightarrow> (\<And>x b. d_known d x b \<Longrightarrow> K x b) \<Longrightarrow> held_ok (d\<lparr>d_known := K\<rparr>)"
  unfolding held_ok_def using known_mono[of "d_known d" K] known_mono_all[of "d_known d" K]
  by (auto split: if_splits)

lemma held_ok_set_gaps [simp]: "held_ok (set_gaps gs d) = held_ok d"
  by (simp add: held_ok_def set_gaps_def cong: if_cong)

lemma trusted_part_saved:
  assumes "trusted d"
  shows "trusted (part_saved p d)"
proof -
  let ?s = "ucast p * PART64" and ?e = "last_byte p d"
  let ?K = "\<lambda>x b. d_known d x b \<or> (?s \<le> x \<and> x \<le> ?e \<and> b = d_disk d x)"
  let ?d = "set_gaps (fillGap ?s ?e (gaps d)) (d\<lparr>d_known := ?K\<rparr>)"
  have ok: "gaps_ok (fsize d) (gaps d)" and held: "held_ok d" using assms by (simp_all add: trusted_def)
  have "held_ok (d\<lparr>d_known := ?K\<rparr>)" by (rule held_ok_known[OF held]) simp
  then have "held_ok ?d" by (simp only: held_ok_set_gaps)
  then have "trusted ?d"
    using assms fillGap_correct[OF ok] by (auto simp: trusted_def set_gaps_def)
  moreover have "core (part_saved p d) = core ?d"
    by (simp add: core_def part_saved_def Let_def set_gaps_def dropCorruptedPart_def removeBlockFromList_def)
  ultimately show ?thesis using trusted_core by blast
qed

lemma part_complete_part: "part_complete fs p gs \<Longrightarrow> p < ucast (data_part_count fs)"
  by (simp add: part_complete_def split: if_splits)

lemma trusted_verify_part:
  assumes "trusted d"
  shows "trusted (verify_part env good ich p d)"
  using assms part_complete_part[of "fsize d" p "gaps d"]
  by (auto simp: verify_part_def Let_def split: part_verdict.splits intro!: trusted_part_fails trusted_part_saved)

lemma trusted_verify: "trusted d \<Longrightarrow> trusted (verifyChangedParts env good ich d)"
proof -
  have "trusted d \<Longrightarrow> trusted (foldl (\<lambda>d p. verify_part env good ich p d) d ps)" for ps
    by (induction ps arbitrary: d) (simp_all add: trusted_verify_part)
  then show "trusted d \<Longrightarrow> ?thesis" by (simp add: verifyChangedParts_def)
qed

section \<open>Each operation keeps the trust\<close>

lemma buffered_chunks: "held_ok d \<Longrightarrow> list_all2 (carries (d_known d)) (chunks_of (buffered_of d)) (buffered_of d)"
  by (auto simp: held_ok_def chunks_of_def list_all2_conv_all_nth)

lemma trusted_writes:
  assumes "trusted d" "\<forall>c\<in>set cs. known_chunk (d_known d) c"
  shows "trusted (d\<lparr>d_disk := execute_writes out cs (d_disk d)\<rparr>)"
  using assms execute_keeps[OF assms(2), where disk = "d_disk d" and out = out]
  unfolding trusted_def held_ok_def by (simp cong: if_cong) blast

lemma trusted_drop_buffer:
  assumes "trusted d" "\<And>x. in_ranges (buffered_of d) x \<Longrightarrow> d_known d x (d_disk d x)"
  shows "trusted (d\<lparr>d_file := (d_file d)\<lparr>pf_bufferedData := []\<rparr>\<rparr>)"
  using assms unfolding trusted_def held_ok_def by (auto cong: if_cong)

lemma trusted_write_all:
  assumes t: "trusted d"
  defines "d1 \<equiv> d\<lparr>d_disk := execute_writes Wrote (chunks_of (buffered_of d)) (d_disk d)\<rparr>"
  defines "d2 \<equiv> mark_written (buffered_of d) d1"
  shows "trusted (d2\<lparr>d_file := (d_file d2)\<lparr>pf_bufferedData := []\<rparr>, d_totalBufferData := 0\<rparr>)"
proof -
  have held: "held_ok d" using t by (simp add: trusted_def)
  note carried = buffered_chunks[OF held]
  have "d_known d x (put_chunks (chunks_of (buffered_of d)) (d_disk d) x)" if "in_ranges (buffered_of d) x" for x
    using that put_chunks_covers[OF carried] by (auto simp: in_ranges_def)
  then have "trusted (d1\<lparr>d_file := (d_file d1)\<lparr>pf_bufferedData := []\<rparr>\<rparr>)"
    using trusted_drop_buffer[OF trusted_writes[OF t carried_known[OF carried], of Wrote]] by (simp add: d1_def)
  moreover have "core d2 = core d1" by (simp add: d2_def)
  then have "core (d2\<lparr>d_file := (d_file d2)\<lparr>pf_bufferedData := []\<rparr>, d_totalBufferData := 0\<rparr>) =
      core (d1\<lparr>d_file := (d_file d1)\<lparr>pf_bufferedData := []\<rparr>\<rparr>)" by (simp add: core_def)
  ultimately show ?thesis using trusted_core by blast
qed

lemma trusted_write_buffer:
  assumes t: "trusted d"
  shows "trusted (write_buffer env good outcome ich d)"
proof -
  have held: "held_ok d" using t by (simp add: trusted_def)
  note written = trusted_writes[OF t carried_known[OF buffered_chunks[OF held]]]
  show ?thesis
    using t written trusted_verify[OF trusted_write_all[OF t], of env good ich]
    by (auto simp: write_buffer_def Let_def simp del: execute_writes.simps split: option.splits write_outcome.splits)
qed

lemma trusted_async_enqueue:
  assumes t: "trusted d"
  shows "trusted (async_enqueue env d)"
proof (cases "buffered_of d = [] \<or> d_flushToken d \<noteq> 0 \<or> \<not> e_reserve env")
  case True
  then show ?thesis using t by (auto simp: async_enqueue_def Let_def)
next
  case False
  have held: "held_ok d" using t by (simp add: trusted_def)
  have empty: "flushing_of d = []" "d_job d = None" "d_result d = None" using held False by (simp_all add: held_ok_def)
  let ?moved = "map (\<lambda>bd. bd\<lparr>bd_data := []\<rparr>) (buffered_of d)"
  have carried: "list_all2 (carries (d_known d)) (chunks_of (buffered_of d)) ?moved"
    using buffered_chunks[OF held] by (simp add: list_all2_conv_all_nth carries_def)
  have moved: "in_ranges ?moved = in_ranges (buffered_of d)" by (auto simp: in_ranges_def fun_eq_iff)
  show ?thesis
    using t held False empty carried moved
    by (auto simp: async_enqueue_def trusted_def held_ok_def Let_def range_ok_def)
qed

lemma trusted_worker:
  assumes t: "trusted d"
  shows "trusted (worker_runs outcome d)"
proof (cases "d_job d")
  case None
  then show ?thesis using t by (simp add: worker_runs_def)
next
  case (Some job)
  obtain tok cs where job: "d_job d = Some (tok, cs)" using Some by (cases job) auto
  have tok: "tok = d_flushToken d" "tok \<noteq> 0" and carried: "list_all2 (carries (d_known d)) cs (flushing_of d)"
    using t job unfolding trusted_def held_ok_def by auto
  have covers: "in_ranges (flushing_of d) x \<Longrightarrow> d_known d x (execute_writes Wrote cs (d_disk d) x)" for x
    using put_chunks_covers[OF carried] by (auto simp: in_ranges_def)
  have keeps: "d_known d x (d_disk d x) \<Longrightarrow> d_known d x (execute_writes out cs (d_disk d) x)" for x out
    by (rule execute_keeps[OF carried_known[OF carried]])
  show ?thesis
  proof (cases outcome)
    case None
    then show ?thesis using t carried tok by (auto simp: worker_runs_def job trusted_def held_ok_def)
  next
    case (Some out)
    show ?thesis
    proof (cases out)
      case Wrote
      then show ?thesis
        using t tok covers keeps[of _ Wrote] unfolding \<open>outcome = Some out\<close> worker_runs_def job trusted_def held_ok_def
        by (auto simp: Let_def simp del: execute_writes.simps)
    next
      case (Stopped n k full)
      then show ?thesis
        using t tok carried keeps[of _ "Stopped n k full"] unfolding \<open>outcome = Some out\<close> worker_runs_def job trusted_def held_ok_def
        by (auto simp: Let_def simp del: execute_writes.simps)
    qed
  qed
qed

lemma in_ranges_merge [simp]: "in_ranges (merge_by_end bds bds') x \<longleftrightarrow> in_ranges bds x \<or> in_ranges bds' x"
  by (induction bds bds' rule: merge_by_end.induct) auto

lemma set_merge [simp]: "set (merge_by_end bds bds') = set bds \<union> set bds'"
  by (induction bds bds' rule: merge_by_end.induct) auto

lemma given_back:
  assumes "list_all2 (carries K) cs bds"
  shows "in_ranges (give_back bds cs) x \<longleftrightarrow> in_ranges bds x"
    and "(\<forall>bd\<in>set bds. range_ok fs bd) \<longleftrightarrow> (\<forall>bd\<in>set (give_back bds cs). range_ok fs bd)"
    and "\<forall>bd\<in>set (give_back bds cs). carries K (bd_start bd, bd_data bd) bd"
  using assms by (induction rule: list_all2_induct) (auto simp: range_ok_def carries_def known_chunk_def)

definition no_job :: "download \<Rightarrow> bool" where
  "no_job d = (d_job d = None \<and> d_result d = None)"

lemma trusted_no_flush:
  "trusted d \<Longrightarrow> no_job d \<Longrightarrow> flushing_of d = [] \<Longrightarrow> trusted (d\<lparr>d_flushToken := 0\<rparr>)"
  by (auto simp: trusted_def held_ok_def no_job_def)

lemma trusted_mark_flushed:
  assumes "trusted d" "no_job d" "\<forall>x. in_ranges (flushing_of d) x \<longrightarrow> d_known d x (d_disk d x)"
  shows "trusted (d\<lparr>d_flushToken := 0, d_file := (d_file d)\<lparr>pf_flushingData := []\<rparr>\<rparr>)"
  using assms by (auto simp: trusted_def held_ok_def no_job_def)

lemma trusted_give_back:
  assumes "trusted d" "no_job d" "list_all2 (carries (d_known d)) cs (flushing_of d)"
  shows "trusted (d\<lparr>d_flushToken := 0,
    d_file := (d_file d)\<lparr>pf_bufferedData := merge_by_end (buffered_of d) (give_back (flushing_of d) cs), pf_flushingData := []\<rparr>\<rparr>)"
  using assms given_back[OF assms(3)] by (auto simp: trusted_def held_ok_def no_job_def)

lemma trusted_apply:
  assumes t: "trusted d" and r: "d_result d = Some r" and j: "d_job d = None"
  shows "trusted (applyFlushResult env good outcome r ich (d\<lparr>d_result := None\<rparr>))"
proof -
  let ?d = "d\<lparr>d_result := None\<rparr>"
  have t': "trusted ?d" using t unfolding trusted_def held_ok_def by (auto split: if_splits)
  have n: "no_job ?d" using j by (simp add: no_job_def)
  have held: "if wr_written r then (\<forall>x. in_ranges (flushing_of ?d) x \<longrightarrow> d_known ?d x (d_disk ?d x))
      else list_all2 (carries (d_known ?d)) (wr_chunks r) (flushing_of ?d)"
    using t r by (simp add: trusted_def held_ok_def split: if_splits)
  show ?thesis
  proof (cases "wr_written r")
    case False
    then have "list_all2 (carries (d_known ?d)) (wr_chunks r) (flushing_of ?d)" using held by simp
    from trusted_give_back[OF t' n this] t' show ?thesis
      using False by (simp add: applyFlushResult_def Let_def)
  next
    case True
    then have "\<forall>x. in_ranges (flushing_of ?d) x \<longrightarrow> d_known ?d x (d_disk ?d x)" using held by simp
    note clear = trusted_mark_flushed[OF t' n this]
    let ?d1 = "mark_written (flushing_of ?d) (?d\<lparr>d_flushToken := 0\<rparr>)"
    let ?d2 = "?d1\<lparr>d_file := (d_file ?d1)\<lparr>pf_flushingData := []\<rparr>, d_flushingBytes := 0\<rparr>"
    have "core ?d1 = core (?d\<lparr>d_flushToken := 0\<rparr>)" by simp
    then have "core ?d2 = core (?d\<lparr>d_flushToken := 0, d_file := (d_file ?d)\<lparr>pf_flushingData := []\<rparr>\<rparr>)" by (simp add: core_def)
    then have d2: "trusted ?d2" using clear trusted_core by blast
    show ?thesis
      using t' True trusted_verify[OF d2, of env good ich] trusted_async_enqueue[OF trusted_verify[OF d2, of env good ich], of env]
        trusted_write_buffer[OF trusted_verify[OF d2, of env good ich], of env good outcome False]
      by (simp add: applyFlushResult_def Let_def)
  qed
qed

lemma trusted_job_done:
  assumes "trusted d"
  shows "trusted (onJobDone env good outcome ich d)"
proof (cases "d_result d")
  case None
  then show ?thesis using assms by (simp add: onJobDone_def)
next
  case (Some r)
  moreover from this have "d_job d = None" using assms by (auto simp: trusted_def held_ok_def)
  ultimately show ?thesis using trusted_apply[OF assms] by (simp add: onJobDone_def)
qed

lemma lose_gaps:
  "gaps_ok fs gs \<Longrightarrow> \<forall>bd\<in>set bds. range_ok fs bd \<Longrightarrow>
   gaps_ok fs (foldl (\<lambda>gs bd. addGap fs (bd_start bd) (bd_end bd) gs) gs bds) \<and>
   (missing (foldl (\<lambda>gs bd. addGap fs (bd_start bd) (bd_end bd) gs) gs bds) x \<longleftrightarrow> missing gs x \<or> in_ranges bds x)"
proof (induction bds arbitrary: gs)
  case (Cons bd bds)
  have bd: "bd_start bd \<le> bd_end bd" "bd_end bd < fs" using Cons.prems(2) by (simp_all add: range_ok_def)
  then have "bd_start bd < fs" by (rule le_less_trans)
  from addGap_correct[OF Cons.prems(1) this, of "bd_end bd"] show ?case
    using Cons.IH[of "addGap fs (bd_start bd) (bd_end bd) gs"] Cons.prems(2) bd(2)
    by (auto intro: le_less_trans)
qed simp

lemma trusted_lose:
  assumes "trusted d"
  shows "trusted (lose_job d)"
proof -
  have ok: "gaps_ok (fsize d) (gaps d)" "\<forall>bd\<in>set (flushing_of d). range_ok (fsize d) bd"
    using assms by (simp_all add: trusted_def held_ok_def)
  show ?thesis using assms lose_gaps[OF ok] by (auto simp: lose_job_def trusted_def held_ok_def Let_def)
qed

lemma trusted_finish: "trusted d \<Longrightarrow> trusted (finishPendingFlush env good jo out ich d)"
  by (simp add: finishPendingFlush_def trusted_job_done trusted_worker trusted_lose)

lemma trusted_flush: "trusted d \<Longrightarrow> trusted (flushBuffer env good jo out ich d)"
  by (simp add: flushBuffer_def trusted_finish trusted_write_buffer)

lemma trusted_flush_async: "trusted d \<Longrightarrow> trusted (flushBufferAsync env good jo out d)"
  by (simp add: flushBufferAsync_def trusted_flush trusted_async_enqueue)

lemma in_ranges_insert [simp]:
  "in_ranges (insert_by_end bd bds) x \<longleftrightarrow> (bd_start bd \<le> x \<and> x \<le> bd_end bd) \<or> in_ranges bds x"
  by (induction bd bds rule: insert_by_end.induct) auto

lemma set_insert [simp]: "set (insert_by_end bd bds) = insert bd (set bds)"
  by (induction bd bds rule: insert_by_end.induct) auto

text \<open>The step that takes new bytes into the buffer.\<close>

definition take_bytes :: "u64 \<Rightarrow> u64 \<Rightarrow> u8 list \<Rightarrow> download \<Rightarrow> download" where
  "take_bytes s e bytes d =
     d\<lparr>d_file := (d_file d)\<lparr>pf_bufferedData := insert_by_end \<lparr>bd_start = s, bd_end = e, bd_data = bytes\<rparr> (buffered_of d),
                          pf_gapList := fillGap s e (gaps d)\<rparr>,
       d_known := (\<lambda>x b. d_known d x b \<or> (s \<le> x \<and> x \<le> e \<and> b = bytes ! unat (x - s)))\<rparr>"

lemma new_bytes_known:
  assumes "s \<le> e" "length bytes = unat (e - s) + 1"
  shows "known_chunk (\<lambda>x b. K x b \<or> (s \<le> x \<and> x \<le> e \<and> b = bytes ! unat (x - s))) (s, bytes)"
proof -
  have "s \<le> s + of_nat i \<and> s + of_nat i \<le> e \<and> unat (s + of_nat i - s) = i" if "i < length bytes" for i
  proof -
    have le: "i \<le> unat (e - s)" using that assms(2) by simp
    then have i: "unat (of_nat i :: u64) = i" by (rule unat_of_nat_small)
    have es: "unat (e - s) = unat e - unat s" "unat s \<le> unat e" using assms(1) by (simp_all add: unat_sub word_le_nat_alt)
    have "unat s + i < 2 ^ 64" using le es unsigned_less[of e, where 'a = nat] by simp
    then have "unat (s + of_nat i) = unat s + i" using i by (subst unat_add_small) simp_all
    then show ?thesis using i le es by (simp add: word_le_nat_alt)
  qed
  then show ?thesis by (simp add: known_chunk_def)
qed

lemma trusted_take_bytes:
  assumes t: "trusted d" and se: "s \<le> e" "e < fsize d" and len: "length bytes = unat (e - s) + 1"
  shows "trusted (take_bytes s e bytes d)"
proof -
  let ?K = "\<lambda>x b. d_known d x b \<or> (s \<le> x \<and> x \<le> e \<and> b = bytes ! unat (x - s))"
  have ok: "gaps_ok (fsize d) (gaps d)" and held: "held_ok d" using t by (simp_all add: trusted_def)
  have h: "held_ok (d\<lparr>d_known := ?K\<rparr>)" by (rule held_ok_known[OF held]) simp
  have new: "carries ?K (s, bytes) \<lparr>bd_start = s, bd_end = e, bd_data = bytes\<rparr>"
    using new_bytes_known[OF se(1) len, of "d_known d"] len by (simp add: carries_def)
  have "held_ok (take_bytes s e bytes d)"
    using h new se by (simp add: held_ok_def take_bytes_def range_ok_def cong: if_cong)
  then show ?thesis
    using t fillGap_correct[OF ok, of s e] by (auto simp: trusted_def take_bytes_def)
qed

text \<open>A write is refused, or its bytes are taken and one of the three flushes follows.\<close>

lemma write_cases:
  obtains (refused) d3 where "snd (writeToBuffer env good jo out transize bytes s e d) = d3" "core d3 = core d"
      "d_changedParts d3 = d_changedParts d" "d_completing d3 = d_completing d" "d_completionError d3 = d_completionError d"
  | (taken) d3 where "s \<le> e" "e < fsize d" "\<not> range_complete s e (gaps d)" "core d3 = core (take_bytes s e bytes d)"
      "d_changedParts d3 = d_changedParts d" "d_completing d3 = d_completing d" "d_completionError d3 = d_completionError d"
      "snd (writeToBuffer env good jo out transize bytes s e d) \<in>
         {flushBuffer env good jo out False d3, flushBufferAsync env good jo out d3, d3}"
proof -
  let ?d1 = "d\<lparr>d_transferred := d_transferred d + transize\<rparr>"
  let ?d2 = "(if e - s + 1 > transize then ?d1\<lparr>d_compressionGain := d_compressionGain ?d1 + (e - s + 1 - transize)\<rparr> else ?d1)"
  let ?d3 = "?d2\<lparr>d_file := (d_file ?d2)\<lparr>pf_bufferedData := insert_by_end \<lparr>bd_start = s, bd_end = e, bd_data = bytes\<rparr> (buffered_of ?d2),
       pf_gapList := fillGap s e (gaps ?d2)\<rparr>, d_totalBufferData := d_totalBufferData ?d2 + (e - s + 1),
     d_known := (\<lambda>x b. d_known ?d2 x b \<or> (s \<le> x \<and> x \<le> e \<and> b = bytes ! unat (x - s)))\<rparr>"
  let ?w = "snd (writeToBuffer env good jo out transize bytes s e d)"
  have same: "core ?d1 = core d" "core ?d2 = core d" "core ?d3 = core (take_bytes s e bytes d)"
    by (simp_all add: core_def take_bytes_def)
  have flags: "d_changedParts ?d2 = d_changedParts d" "d_completing ?d2 = d_completing d" "d_completionError ?d2 = d_completionError d"
    "d_changedParts ?d3 = d_changedParts d" "d_completing ?d3 = d_completing d" "d_completionError ?d3 = d_completionError d"
    by simp_all
  consider (no) "?w \<in> {d, ?d1, ?d2}"
    | (yes) "\<not> (s > e \<or> e \<ge> fsize d)" "\<not> range_complete s e (gaps ?d2)"
      "?w \<in> {flushBuffer env good jo out False ?d3, flushBufferAsync env good jo out ?d3, ?d3}"
    unfolding writeToBuffer_def Let_def by (smt (verit) insertCI snd_conv)
  then show thesis
  proof cases
    case no
    then show thesis using refused same flags by (elim insertE emptyE) simp_all
  next
    case yes
    have "gaps ?d2 = gaps d" by simp
    moreover have "s \<le> e" "e < fsize d" using yes(1) by (simp_all add: not_less not_le)
    ultimately show thesis using taken[OF _ _ _ same(3) flags(4,5,6) yes(3)] yes(2) by simp
  qed
qed

lemma trusted_write:
  assumes "trusted d" "length bytes = unat (e - s) + 1"
  shows "trusted (snd (writeToBuffer env good jo out transize bytes s e d))"
proof (cases rule: write_cases[of env good jo out transize bytes s e d])
  case (refused d3)
  then show ?thesis using assms(1) trusted_core by blast
next
  case (taken d3)
  have "trusted d3"
    using trusted_take_bytes[OF assms(1) taken(1,2) assms(2)] trusted_core[OF taken(4)] by simp
  then show ?thesis using taken(8) trusted_flush trusted_flush_async by auto
qed

section \<open>The steps of a download\<close>

text \<open>What can happen to a download, in any order: a block arrives, the worker runs a job or reports it, a flush, a
  pause, a resume, new requests, the end of the program.  Everything the surroundings decide is free at every step.\<close>

inductive download_step :: "((u64 \<Rightarrow> u8) \<Rightarrow> u32 \<Rightarrow> bool) \<Rightarrow> download \<Rightarrow> download \<Rightarrow> bool" for good where
  arrives: "length bytes = unat (e - s) + 1 \<Longrightarrow> download_step good d (snd (writeToBuffer env good jo out transize bytes s e d))"
| works: "download_step good d (worker_runs out d)"
| reports: "download_step good d (onJobDone env good out ich d)"
| flushes: "download_step good d (flushBuffer env good jo out ich d)"
| flushes_async: "download_step good d (flushBufferAsync env good jo out d)"
| pauses: "download_step good d (pauseFile insufficient d)"
| resumes: "download_step good d (resumeFile env good d)"
| asks: "download_step good d (d\<lparr>d_file := (d_file d)\<lparr>pf_requestedBlocks := rs\<rparr>\<rparr>)"
| closes: "download_step good d (d\<lparr>d_destroying := True\<rparr>)"

text \<open>A download as it is started or loaded: nothing is held, what is not missing is known, and the parts that are
  there have been checked.\<close>

definition loaded :: "((u64 \<Rightarrow> u8) \<Rightarrow> u32 \<Rightarrow> bool) \<Rightarrow> download \<Rightarrow> bool" where
  "loaded good d =
     (fsize d \<noteq> 0 \<and> gaps_ok (fsize d) (gaps d) \<and> buffered_of d = [] \<and> flushing_of d = [] \<and> d_flushToken d = 0 \<and>
      d_job d = None \<and> d_result d = None \<and> \<not> d_completing d \<and> \<not> d_completionError d \<and>
      (\<forall>x<fsize d. \<not> missing (gaps d) x \<longrightarrow> d_known d x (d_disk d x)) \<and>
      (\<forall>p. part_complete (fsize d) p (gaps d) \<longrightarrow> good (d_disk d) p))"

inductive reached :: "((u64 \<Rightarrow> u8) \<Rightarrow> u32 \<Rightarrow> bool) \<Rightarrow> download \<Rightarrow> bool" for good where
  start: "loaded good d \<Longrightarrow> reached good d"
| more: "reached good d \<Longrightarrow> download_step good d d' \<Longrightarrow> reached good d'"

lemma trusted_loaded: "loaded good d \<Longrightarrow> trusted d"
  by (auto simp: loaded_def trusted_def held_ok_def)

lemma trusted_resume: "trusted d \<Longrightarrow> trusted (resumeFile env good d)"
proof -
  assume t: "trusted d"
  let ?d1 = "resume_write_error (d\<lparr>d_paused := False, d_stopped := False, d_insufficient := False\<rparr>)"
  have "core ?d1 = core d" "core (?d1\<lparr>d_completionError := False, d_status := Ready\<rparr>) = core d"
    by (simp_all add: core_def resume_write_error_def)
  then have "trusted ?d1" "trusted (?d1\<lparr>d_completionError := False, d_status := Ready\<rparr>)" using t trusted_core by blast+
  then show ?thesis using t trusted_verify by (simp add: resumeFile_def Let_def)
qed

lemma trusted_step: "download_step good d d' \<Longrightarrow> trusted d \<Longrightarrow> trusted d'"
  by (induction rule: download_step.induct)
    (simp_all add: trusted_write trusted_worker trusted_job_done trusted_flush trusted_flush_async trusted_resume)

lemma trusted_reached: "reached good d \<Longrightarrow> trusted d"
  by (induction rule: reached.induct) (auto intro: trusted_loaded trusted_step)

text \<open>C5. Whatever the disk, the worker and the peers do, and wherever the program is cut off: a byte that the gaps saved
  in the .part.met call present was received from a peer or checked, and the data file holds it.\<close>

theorem saved_gaps_trust_the_disk:
  assumes "reached good d" "fsize d < - 1" "x < fsize d" "\<not> missing (reloaded_gaps d) x"
  shows "d_known d x (d_disk d x)"
proof -
  have t: "trusted d" by (rule trusted_reached[OF assms(1)])
  have spans: "spans (buffered_ranges bds) y = in_ranges bds y" for bds y
    by (auto simp: spans_def buffered_ranges_def in_ranges_def)
  have ranges: "ranges_in (fsize d) (buffered_ranges bds)" if "\<forall>bd\<in>set bds. range_ok (fsize d) bd" for bds
    using that by (auto simp: ranges_in_def buffered_ranges_def range_ok_def)
  have "\<not> missing (gaps d) x" "\<not> in_ranges (buffered_of d) x" "\<not> in_ranges (flushing_of d) x"
    using assms(4) reload_missing[of "fsize d" "gaps d", OF _ ranges ranges assms(2)] t
    by (auto simp: reloaded_gaps_def spans trusted_def held_ok_def)
  then show ?thesis using t assms(3) by (auto simp: trusted_def)
qed

definition sample_surroundings :: surroundings where
  "sample_surroundings = \<lparr>e_worker = True, e_reserve = True, e_checkDiskspace = True, e_useICH = True, e_fileBufferSize = 1000,
     e_readable = (\<lambda>_. True)\<rparr>"

definition sample_download :: download where
  "sample_download = \<lparr>d_file = \<lparr>pf_fileSize = 4, pf_gapList = [Gap 0 3], pf_requestedBlocks = [], pf_bufferedData = [],
       pf_flushingData = [], pf_datarate = 0, pf_srcPartFrequency = [1], pf_sourceCount = 1, pf_a4afCount = 0,
       pf_downloadingSources = []\<rparr>,
     d_status = Ready, d_paused = False, d_insufficient = False, d_stopped = False, d_destroying = False,
     d_sizeContradicted = False, d_writeError = False, d_statusBefore = Ready, d_completionError = False, d_completing = False,
     d_totalBufferData = 0, d_flushingBytes = 0, d_flushToken = 0, d_changedParts = [], d_corruptedParts = [], d_transferred = 0,
     d_compressionGain = 0, d_corruptionLoss = 0, d_ichPartsSaved = 0, d_disk = (\<lambda>_. 0), d_job = None, d_result = None,
     d_serial = 0, d_known = (\<lambda>_ _. False)\<rparr>"

definition sample_good :: "(u64 \<Rightarrow> u8) \<Rightarrow> u32 \<Rightarrow> bool" where
  "sample_good disk p = (p = 0 \<longrightarrow> map disk [0, 1, 2, 3] = [5, 6, 7, 8])"

lemma sample_loaded: "loaded sample_good sample_download"
proof -
  have "\<not> part_complete 4 p [Gap 0 3]" for p
  proof
    assume c: "part_complete 4 p [Gap 0 3]"
    from part_complete_part[OF this] have "p = 0" by (simp add: data_part_count_def PART64_def word_less_nat_alt unat_eq_zero)
    then show False using c by (simp add: part_complete_def part_end_def PART64_def data_part_count_def)
  qed
  moreover have "missing [Gap 0 3] x" if "x < (4::u64)" for x
    using that word_le_dec[of x 4 x] by simp
  ultimately show ?thesis by (simp add: loaded_def sample_download_def gaps_ok_def)
qed

definition sample_written :: download where
  "sample_written = flushBuffer sample_surroundings sample_good None (Some Wrote) False
     (snd (writeToBuffer sample_surroundings sample_good None None 2 [5, 6] 0 1 sample_download))"

lemma sample_written_reached: "reached sample_good sample_written"
  unfolding sample_written_def
  by (rule reached.more[OF reached.more[OF reached.start[OF sample_loaded] download_step.arrives] download_step.flushes]) simp

theorem saved_gaps_trust_the_disk_witness:
  "d_disk sample_written 1 = 6 \<and> d_known sample_written 1 (d_disk sample_written 1)"
proof -
  have "fsize sample_written = 4" "\<not> missing (reloaded_gaps sample_written) 1" "d_disk sample_written 1 = 6" by code_simp+
  then show ?thesis using saved_gaps_trust_the_disk[OF sample_written_reached, of 1] by simp
qed

end
