(* ===== verification/Part_Check.thy ===== *)
theory Part_Check
  imports Part_Safe
begin

text \<open>
  A download completes only with checked parts: the second invariant of the steps of Part_Safe.  A
  part whose bytes are all on the disk is either marked to be checked or has the right hash, and a
  download that completes has nothing held and nothing marked.
\<close>

abbreviation part_of :: "u64 \<Rightarrow> nat" where
  "part_of x \<equiv> unat x div 9728000"

definition settled :: "download \<Rightarrow> nat \<Rightarrow> bool" where
  "settled d p = (\<forall>x<fsize d. part_of x = p \<longrightarrow>
     \<not> missing (gaps d) x \<and> \<not> in_ranges (buffered_of d) x \<and> \<not> in_ranges (flushing_of d) x)"

definition flagged :: "download \<Rightarrow> nat \<Rightarrow> bool" where
  "flagged d p = (p < length (d_changedParts d) \<and> d_changedParts d ! p)"

definition checked :: "((u64 \<Rightarrow> u8) \<Rightarrow> u32 \<Rightarrow> bool) \<Rightarrow> download \<Rightarrow> bool" where
  "checked good d = (\<forall>p<data_parts d. settled d p \<longrightarrow> flagged d p \<or> good (d_disk d) (of_nat p))"

text \<open>The verdict on a part reads the bytes of that part only.\<close>

definition reads_part :: "u64 \<Rightarrow> ((u64 \<Rightarrow> u8) \<Rightarrow> u32 \<Rightarrow> bool) \<Rightarrow> bool" where
  "reads_part fs good =
     (\<forall>disk disk' p. (\<forall>x<fs. part_of x = unat p \<longrightarrow> disk x = disk' x) \<longrightarrow> good disk p = good disk' p)"

section \<open>The bytes of a part\<close>

lemma div_range: "(n::nat) div 9728000 = p \<longleftrightarrow> p * 9728000 \<le> n \<and> n < p * 9728000 + 9728000"
  by (auto simp: div_nat_eqI)

lemma part_last:
  assumes "fs \<noteq> 0"
  shows "part_end fs (ucast p * PART64) = min (ucast (p::u32) * PART64 + PART64 - 1) (fs - 1)"
  using assms word_le_dec[of 0 fs "ucast p * PART64 + PART64 - 1"]
  by (auto simp: part_end_def Let_def min_def word_neq_0_conv not_le)

lemma part_bytes:
  fixes p :: u32
  assumes "fs \<noteq> 0"
  shows "ucast p * PART64 \<le> x \<and> x \<le> part_end fs (ucast p * PART64) \<longleftrightarrow> x < fs \<and> part_of x = unat p"
proof -
  have e: "unat (ucast p * PART64 + PART64 - 1) = unat p * 9728000 + 9727999"
  proof -
    have "unat (ucast p * PART64) + unat PART64 < 2 ^ LENGTH(64)" using unat_part_start_less[of p] by (simp add: unat_PART64)
    then have "unat (ucast p * PART64 + PART64) = unat p * 9728000 + 9728000"
      by (simp add: unat_add_small unat_part_start unat_PART64)
    moreover from this have "0 < ucast p * PART64 + PART64" by (simp add: word_less_nat_alt)
    ultimately show ?thesis using unat_dec by fastforce
  qed
  have "x \<le> part_end fs (ucast p * PART64) \<longleftrightarrow> x < fs \<and> unat x \<le> unat p * 9728000 + 9727999"
    using assms word_le_dec[of 0 fs x] unfolding part_last[OF assms] min.bounded_iff
    by (auto simp: word_le_nat_alt e word_neq_0_conv)
  then show ?thesis by (auto simp: div_range word_le_nat_alt unat_part_start)
qed

lemma part_complete_bytes:
  assumes "fs \<noteq> 0" "gaps_ok fs gs"
  shows "part_complete fs p gs \<longleftrightarrow> p < ucast (data_part_count fs) \<and> (\<forall>x<fs. part_of x = unat p \<longrightarrow> \<not> missing gs x)"
proof (cases "p < ucast (data_part_count fs)")
  case True
  let ?s = "ucast p * PART64"
  have "?s < fs" "part_of ?s = unat p" using part_start_less[OF True] by (simp_all add: unat_part_start)
  then have "?s \<le> part_end fs ?s" using part_bytes[OF assms(1), of p ?s] by simp
  from range_complete_iff[OF assms(2) this] show ?thesis
    using True part_bytes[OF assms(1), of p] by (auto simp: part_complete_def)
qed (auto simp: part_complete_def not_less)

lemma last_byte_end: "fsize d \<noteq> 0 \<Longrightarrow> last_byte p d = part_end (fsize d) (ucast p * PART64)"
  by (simp add: last_byte_def part_last)

text \<open>Data with the worker or in the buffer keeps a part from being judged.\<close>

lemma bd_safe_settled:
  assumes "trusted d" "p < ucast (data_part_count (fsize d))"
  shows "isCompleteBDSafe (ucast p * PART64) (last_byte p d) d \<longleftrightarrow> settled d (unat p)"
proof -
  let ?s = "ucast p * PART64" and ?e = "part_end (fsize d) (ucast p * PART64)"
  have fs: "fsize d \<noteq> 0" and ok: "gaps_ok (fsize d) (gaps d)" using assms(1) by (simp_all add: trusted_def)
  have s: "?s < fsize d" "part_of ?s = unat p" using part_start_less[OF assms(2)] by (simp_all add: unat_part_start)
  note bytes = part_bytes[OF fs, of p]
  have se: "?s \<le> ?e" "?e < fsize d" using bytes[of ?s] s part_end_bounds(1)[OF fs] by simp_all
  then have "min ?e (fsize d - 1) = ?e" using word_le_dec[of ?e "fsize d" ?e] by (simp add: min_def)
  moreover have "overlaps ?s ?e bd \<longleftrightarrow> (\<exists>x<fsize d. part_of x = unat p \<and> bd_start bd \<le> x \<and> x \<le> bd_end bd)"
    if "range_ok (fsize d) bd" for bd
  proof
    assume "overlaps ?s ?e bd"
    then have "?s \<le> max ?s (bd_start bd) \<and> max ?s (bd_start bd) \<le> ?e" "bd_start bd \<le> max ?s (bd_start bd)" "max ?s (bd_start bd) \<le> bd_end bd"
      using that se by (auto simp: overlaps_def range_ok_def)
    then show "\<exists>x<fsize d. part_of x = unat p \<and> bd_start bd \<le> x \<and> x \<le> bd_end bd" using bytes by blast
  next
    assume "\<exists>x<fsize d. part_of x = unat p \<and> bd_start bd \<le> x \<and> x \<le> bd_end bd"
    then obtain x where "?s \<le> x" "x \<le> ?e" "bd_start bd \<le> x" "x \<le> bd_end bd" using bytes by blast
    then show "overlaps ?s ?e bd" unfolding overlaps_def by (auto intro: order_trans)
  qed
  then have "list_ex (overlaps ?s ?e) bds \<longleftrightarrow> (\<exists>x<fsize d. part_of x = unat p \<and> in_ranges bds x)"
    if "\<forall>bd\<in>set bds. range_ok (fsize d) bd" for bds
    using that by (auto simp: list_ex_iff in_ranges_def)
  then have "list_ex (overlaps ?s ?e) (buffered_of d) \<longleftrightarrow> (\<exists>x<fsize d. part_of x = unat p \<and> in_ranges (buffered_of d) x)"
    "list_ex (overlaps ?s ?e) (flushing_of d) \<longleftrightarrow> (\<exists>x<fsize d. part_of x = unat p \<and> in_ranges (flushing_of d) x)"
    using assms(1) by (simp_all add: trusted_def held_ok_def)
  moreover have "range_complete ?s ?e (gaps d) \<longleftrightarrow> (\<forall>x<fsize d. part_of x = unat p \<longrightarrow> \<not> missing (gaps d) x)"
    unfolding range_complete_iff[OF ok se(1)] using bytes by blast
  ultimately show ?thesis
    using fs se(1) unfolding isCompleteBDSafe_def Let_def last_byte_end[OF fs] settled_def by auto
qed

section \<open>Verification keeps the parts checked\<close>

lemma same_core:
  assumes "core d = core d'"
  shows "fsize d = fsize d'" "gaps d = gaps d'" "buffered_of d = buffered_of d'" "flushing_of d = flushing_of d'"
    "d_disk d = d_disk d'" "d_flushToken d = d_flushToken d'" "d_job d = d_job d'" "d_result d = d_result d'"
    "settled d p = settled d' p" "data_parts d = data_parts d'"
  using assms by (simp_all add: core_def settled_def data_parts_def)

lemma checked_core: "core d = core d' \<Longrightarrow> d_changedParts d = d_changedParts d' \<Longrightarrow> checked good d = checked good d'"
  using same_core[of d d'] by (simp add: checked_def flagged_def)

lemma parts_data: "p \<in> set (part_numbers (d_file d)) \<longleftrightarrow> unat p < data_parts d"
proof -
  have "unat (ucast (data_part_count (fsize d)) :: u32) = data_parts d"
    using unsigned_less[of "data_part_count (fsize d)", where 'a = nat]
    by (simp add: data_parts_def unsigned_ucast_eq unsigned_take_bit_eq take_bit_nat_eq_self)
  then show ?thesis by (simp add: part_numbers_iff word_less_nat_alt)
qed

lemma part_has_byte:
  fixes p :: u32
  assumes "unat p < data_parts d"
  shows "ucast p * PART64 < fsize d" "part_of (ucast p * PART64) = unat p"
  using part_start_less[of p "fsize d"] assms parts_data[of p d] by (simp_all add: part_numbers_iff unat_part_start)

lemma fsize_verify_part [simp]: "fsize (verify_part env good ich p d) = fsize d"
  by (simp add: verify_part_def part_fails_def part_saved_def set_gaps_def dropCorruptedPart_def removeBlockFromList_def Let_def
      split: part_verdict.splits)

lemma data_parts_fsize: "fsize d = fsize d' \<Longrightarrow> data_parts d = data_parts d'"
  by (simp add: data_parts_def)

text \<open>Judging one part leaves the others as they are.\<close>

lemma checked_one:
  assumes c: "checked good d" and fs: "fsize d' = fsize d" and disk: "d_disk d' = d_disk d"
    and other: "\<And>q. q \<noteq> unat p \<Longrightarrow> settled d' q \<Longrightarrow> settled d q" "\<And>q. q \<noteq> unat p \<Longrightarrow> flagged d' q = flagged d q"
    and own: "settled d' (unat p) \<Longrightarrow> flagged d' (unat p) \<or> good (d_disk d) p"
  shows "checked good d'"
  unfolding checked_def disk
proof (intro allI impI)
  fix q assume q: "q < data_parts d'" "settled d' q"
  have dp: "data_parts d' = data_parts d" by (rule data_parts_fsize[OF fs])
  show "flagged d' q \<or> good (d_disk d) (of_nat q)"
  proof (cases "q = unat p")
    case True
    then show ?thesis using own q(2) by simp
  next
    case False
    then show ?thesis using c other[OF False] q dp by (simp add: checked_def)
  qed
qed

lemma part_fails_fields [simp]:
  "d_disk (part_fails p d) = d_disk d" "d_changedParts (part_fails p d) = d_changedParts d" "fsize (part_fails p d) = fsize d"
  "buffered_of (part_fails p d) = buffered_of d" "flushing_of (part_fails p d) = flushing_of d"
  "gaps (part_fails p d) = addGap (fsize d) (ucast p * PART64) (last_byte p d) (gaps d)"
  by (simp_all add: part_fails_def set_gaps_def Let_def)

lemma part_saved_fields [simp]:
  "d_disk (part_saved p d) = d_disk d" "d_changedParts (part_saved p d) = d_changedParts d" "fsize (part_saved p d) = fsize d"
  "buffered_of (part_saved p d) = buffered_of d" "flushing_of (part_saved p d) = flushing_of d"
  "gaps (part_saved p d) = fillGap (ucast p * PART64) (last_byte p d) (gaps d)"
  by (simp_all add: part_saved_def set_gaps_def Let_def dropCorruptedPart_def removeBlockFromList_def)

lemma last_byte_flags [simp]: "last_byte p (d\<lparr>d_changedParts := bs\<rparr>) = last_byte p d"
  by (simp add: last_byte_def)

lemma settled_flags [simp]: "settled (d\<lparr>d_changedParts := bs\<rparr>) q = settled d q"
  by (simp add: settled_def)

lemma flagged_other: "q \<noteq> n \<Longrightarrow> flagged (d\<lparr>d_changedParts := (d_changedParts d)[n := False]\<rparr>) q = flagged d q"
  by (simp add: flagged_def)

lemma checked_verify_part:
  assumes t: "trusted d" and c: "checked good d" and p: "unat p < data_parts d"
  shows "checked good (verify_part env good ich p d)"
proof (cases "flagged d (unat p)")
  case False
  then show ?thesis using c by (auto simp: verify_part_def flagged_def)
next
  case True
  let ?d1 = "d\<lparr>d_changedParts := (d_changedParts d)[unat p := False]\<rparr>"
  have fs: "fsize d \<noteq> 0" and ok: "gaps_ok (fsize d) (gaps d)" using t by (simp_all add: trusted_def)
  have pc: "p < ucast (data_part_count (fsize d))" using p parts_data by (simp add: part_numbers_iff)
  note byte = part_has_byte[OF p]
  note range = part_bytes[OF fs, of p, folded last_byte_end[OF fs, of p]]
  note added = addGap_correct[OF ok byte(1), of "last_byte p d"]
  note filled = fillGap_correct[OF ok, of "ucast p * PART64" "last_byte p d"]
  have fails: "checked good (part_fails p ?d1)"
  proof (rule checked_one[OF c, where p = p])
    show "settled (part_fails p ?d1) q \<Longrightarrow> settled d q" for q
      using added(2) by (auto simp: settled_def)
    have "missing (gaps (part_fails p ?d1)) (ucast p * PART64)"
      using added(2) byte range[of "ucast p * PART64"] by simp
    then show "settled (part_fails p ?d1) (unat p) \<Longrightarrow> flagged (part_fails p ?d1) (unat p) \<or> good (d_disk d) p"
      using byte by (auto simp: settled_def)
  qed (simp_all add: flagged_def)
  have saved: "checked good (part_saved p ?d1)" if "good (d_disk d) p"
  proof (rule checked_one[OF c, where p = p])
    show "settled (part_saved p ?d1) q \<Longrightarrow> settled d q" if "q \<noteq> unat p" for q
      using that filled(2) range by (auto simp: settled_def)
  qed (simp_all add: flagged_def that)
  have judged: "checked good d'" if "core d' = core d" "d_changedParts d' = d_changedParts ?d1" "settled d (unat p) \<longrightarrow> good (d_disk d) p" for d'
    using that same_core[OF that(1)]
    by (intro checked_one[OF c, where p = p]) (simp_all add: flagged_def)
  have d1: "checked good ?d1" if "\<not> settled d (unat p)"
    using that by (intro judged) (simp_all add: core_def)
  have dropped: "checked good (dropCorruptedPart p ?d1)" if "good (d_disk d) p"
    using that by (intro judged) (simp_all add: core_def dropCorruptedPart_def)
  have incomplete: "\<not> part_complete (fsize d) p (gaps d) \<Longrightarrow> \<not> settled d (unat p)"
    using part_complete_bytes[OF fs ok, of p] pc by (auto simp: settled_def)
  show ?thesis
    using c fails saved dropped d1 incomplete
    by (auto simp: verify_part_def Let_def hashSinglePart_def split: part_verdict.splits if_splits)
qed

lemma checked_verify: "trusted d \<Longrightarrow> checked good d \<Longrightarrow> checked good (verifyChangedParts env good ich d)"
proof -
  have "trusted d \<Longrightarrow> checked good d \<Longrightarrow> \<forall>p\<in>set ps. unat p < data_parts d \<Longrightarrow>
      checked good (foldl (\<lambda>d p. verify_part env good ich p d) d ps)" for ps
  proof (induction ps arbitrary: d)
    case (Cons p ps)
    have "data_parts (verify_part env good ich p d) = data_parts d" by (rule data_parts_fsize) simp
    then show ?case using Cons.prems by (simp add: Cons.IH trusted_verify_part checked_verify_part)
  qed simp
  then show "trusted d \<Longrightarrow> checked good d \<Longrightarrow> ?thesis" using parts_data by (simp add: verifyChangedParts_def)
qed

section \<open>Writing keeps the parts checked\<close>

definition touches :: "chunk \<Rightarrow> u64 \<Rightarrow> bool" where
  "touches c x = (fst c \<le> x \<and> unat (x - fst c) < length (snd c))"

lemma put_chunks_outside: "\<forall>c\<in>set cs. \<not> touches c x \<Longrightarrow> put_chunks cs disk x = disk x"
  by (induction cs arbitrary: disk) (auto simp: put_chunks_def touches_def put_chunk_def)

lemma execute_outside:
  assumes "\<forall>c\<in>set cs. \<not> touches c x"
  shows "execute_writes out cs disk x = disk x"
proof (cases out)
  case Wrote
  then show ?thesis using put_chunks_outside[OF assms] by simp
next
  case (Stopped n k full)
  have "set (take n cs) \<subseteq> set cs" "set (take 1 (drop n cs)) \<subseteq> set cs" using set_take_subset set_drop_subset by fast+
  then have "\<forall>c\<in>set (take n cs @ map (\<lambda>(s, bytes). (s, take k bytes)) (take 1 (drop n cs))). \<not> touches c x"
    using assms by (fastforce simp: touches_def)
  then show ?thesis unfolding Stopped execute_writes.simps by (rule put_chunks_outside)
qed

lemma touches_range: "carries K c bd \<Longrightarrow> bd_start bd \<le> bd_end bd \<Longrightarrow> touches c x \<Longrightarrow> bd_start bd \<le> x \<and> x \<le> bd_end bd"
  by (auto simp: touches_def carries_def unat_sub word_le_nat_alt)

lemma touched_ranges:
  "list_all2 (carries K) cs bds \<Longrightarrow> \<forall>bd\<in>set bds. range_ok fs bd \<Longrightarrow> \<not> in_ranges bds x \<Longrightarrow> \<forall>c\<in>set cs. \<not> touches c x"
proof (induction rule: list_all2_induct)
  case (Cons c cs bd bds)
  have "bd_start bd \<le> bd_end bd" "\<not> (bd_start bd \<le> x \<and> x \<le> bd_end bd)" "\<not> in_ranges bds x"
    "\<forall>bd\<in>set bds. range_ok fs bd" using Cons.prems by (simp_all add: range_ok_def)
  then show ?case using touches_range[OF Cons.hyps(1), of x] Cons.IH by (simp only: set_simps ball_simps) blast
qed simp

lemma checked_writes:
  assumes "checked good d" "reads_part (fsize d) good"
    and "list_all2 (carries K) cs bds" "\<forall>bd\<in>set bds. range_ok (fsize d) bd"
    and "\<And>x. in_ranges bds x \<Longrightarrow> in_ranges (buffered_of d) x \<or> in_ranges (flushing_of d) x"
  shows "checked good (d\<lparr>d_disk := execute_writes out cs (d_disk d)\<rparr>)"
proof -
  let ?d = "d\<lparr>d_disk := execute_writes out cs (d_disk d)\<rparr>"
  have "good (d_disk d) (of_nat p) = good (d_disk ?d) (of_nat p)" if p: "p < data_parts d" "settled d p" for p
  proof -
    have "p < 2 ^ 16" using p(1) unsigned_less[of "data_part_count (fsize d)", where 'a = nat] by (simp add: data_parts_def)
    then have "unat (of_nat p :: u32) = p" by (simp add: unsigned_of_nat take_bit_nat_eq_self)
    moreover have "d_disk d x = d_disk ?d x" if "x < fsize d" "part_of x = p" for x
    proof -
      have "\<not> in_ranges bds x" using p(2) that assms(5)[of x] unfolding settled_def by blast
      from execute_outside[OF touched_ranges[OF assms(3,4) this]] show ?thesis by simp
    qed
    ultimately have "\<forall>x<fsize d. part_of x = unat (of_nat p :: u32) \<longrightarrow> d_disk d x = d_disk ?d x" by simp
    then show ?thesis using assms(2) unfolding reads_part_def by blast
  qed
  then show ?thesis using assms(1) by (auto simp: checked_def settled_def flagged_def data_parts_def)
qed

lemma flags_length: "length (foldl (\<lambda>bs p. bs[p := True]) flags ps) = length flags"
  by (induction ps arbitrary: flags) simp_all

lemma flags_nth:
  "q < length flags \<Longrightarrow> foldl (\<lambda>bs p. bs[p := True]) flags ps ! q \<longleftrightarrow> q \<in> set ps \<or> flags ! q"
proof (induction ps arbitrary: flags)
  case (Cons p ps)
  then show ?case using Cons.IH[of "flags[p := True]"] by (cases "p = q") (auto simp: nth_list_update)
qed simp

lemmas flags_set = flags_length flags_nth

lemma marked:
  assumes "p < data_parts d"
  shows "flagged d p \<Longrightarrow> flagged (markChangedParts s e d) p"
    and "part_of s \<le> p \<Longrightarrow> p \<le> part_of e \<Longrightarrow> flagged (markChangedParts s e d) p"
proof -
  let ?flags = "resize_flags (data_parts d) (d_changedParts d)"
  have len: "data_parts d \<le> length ?flags" by (simp add: resize_flags_def)
  have u: "unat (s div PART64) = part_of s" "unat (e div PART64) = part_of e" by (simp_all add: unat_div unat_PART64)
  have "flagged d p \<Longrightarrow> ?flags ! p" by (simp add: flagged_def resize_flags_def nth_append)
  then show "flagged d p \<Longrightarrow> flagged (markChangedParts s e d) p"
    using assms len by (simp add: flagged_def markChangedParts_def Let_def flags_set)
  show "part_of s \<le> p \<Longrightarrow> p \<le> part_of e \<Longrightarrow> flagged (markChangedParts s e d) p"
    using assms len by (auto simp: flagged_def markChangedParts_def Let_def flags_set u)
qed

lemma part_of_mono: "(x::u64) \<le> y \<Longrightarrow> part_of x \<le> part_of y"
  by (simp add: word_le_nat_alt div_le_mono)

lemma marked_written:
  "p < data_parts d \<Longrightarrow> flagged d p \<or> (\<exists>x. in_ranges bds x \<and> part_of x = p) \<Longrightarrow> flagged (mark_written bds d) p"
proof (induction bds arbitrary: d)
  case (Cons bd bds)
  let ?d = "markChangedParts (bd_start bd) (bd_end bd) d"
  have "data_parts ?d = data_parts d" by (rule data_parts_fsize) simp
  moreover have "flagged ?d p \<or> (\<exists>x. in_ranges bds x \<and> part_of x = p)"
    using Cons.prems marked[OF Cons.prems(1)] part_of_mono by fastforce
  ultimately show ?case using Cons.IH[of ?d] Cons.prems(1) by (simp add: mark_written_def)
qed (simp add: mark_written_def)

text \<open>A part that nothing is held of any more is marked.\<close>

lemma checked_released:
  assumes "checked good d" "fsize d' = fsize d" "d_disk d' = d_disk d"
    and "\<And>p. p < data_parts d \<Longrightarrow> settled d' p \<Longrightarrow> settled d p \<or> flagged d' p"
    and "\<And>p. p < data_parts d \<Longrightarrow> flagged d p \<Longrightarrow> flagged d' p"
  shows "checked good d'"
  using assms data_parts_fsize[OF assms(2)] unfolding checked_def by metis

section \<open>Each operation keeps the download sound\<close>

definition finished :: "download \<Rightarrow> bool" where
  "finished d = (d_completing d \<or> d_completionError d)"

definition sound_download :: "((u64 \<Rightarrow> u8) \<Rightarrow> u32 \<Rightarrow> bool) \<Rightarrow> download \<Rightarrow> bool" where
  "sound_download good d = (trusted d \<and> reads_part (fsize d) good \<and> checked good d \<and>
     (finished d \<longrightarrow> gaps d = [] \<and> buffered_of d = [] \<and> d_flushToken d = 0) \<and>
     (d_completing d \<longrightarrow> d_changedParts d = [] \<and> \<not> d_completionError d))"

definition view :: "download \<Rightarrow> (u64 \<times> gap list \<times> buffered list \<times> buffered list \<times> nat \<times> (nat \<times> chunk list) option \<times>
    write_result option \<times> (u64 \<Rightarrow> u8 \<Rightarrow> bool) \<times> (u64 \<Rightarrow> u8)) \<times> bool list \<times> bool \<times> bool" where
  "view d = (core d, d_changedParts d, d_completing d, d_completionError d)"

lemma sound_view: "view d = view d' \<Longrightarrow> sound_download good d = sound_download good d'"
  using same_core[of d d'] trusted_core[of d d'] checked_core[of d d' good] by (auto simp: view_def sound_download_def finished_def)

lemma view_pause [simp]: "view (pauseFile b d) = view d"
  by (simp add: view_def) (simp add: pauseFile_def)

lemma view_failure [simp]: "view (handleWriteFailure env full d) = view d"
  by (simp add: view_def) (simp add: handleWriteFailure_def pauseFile_def)

lemma view_resume [simp]: "view (resume_write_error d) = view d"
  by (simp add: view_def) (simp add: resume_write_error_def)

lemma sound_unchanged [simp]:
  "sound_download good (pauseFile b d) = sound_download good d" "sound_download good (handleWriteFailure env full d) = sound_download good d"
  "sound_download good (resume_write_error d) = sound_download good d"
  by (rule sound_view, simp)+

lemma sound_fields [simp]:
  "sound_download good (d\<lparr>d_destroying := b\<rparr>) = sound_download good d"
  "sound_download good (d\<lparr>d_file := (d_file d)\<lparr>pf_requestedBlocks := rs\<rparr>\<rparr>) = sound_download good d"
  "sound_download good (d\<lparr>d_totalBufferData := n\<rparr>) = sound_download good d" "sound_download good (d\<lparr>d_flushingBytes := n\<rparr>) = sound_download good d"
  by (rule sound_view, simp add: view_def core_def)+

text \<open>Verification reads and changes nothing of what is held.\<close>

definition holding :: "download \<Rightarrow> u64 \<times> buffered list \<times> buffered list \<times> nat \<times> bool \<times> bool \<times> bool" where
  "holding d = (fsize d, buffered_of d, flushing_of d, d_flushToken d, d_completing d, d_destroying d, d_completionError d)"

lemma holding_verify_part [simp]: "holding (verify_part env good ich p d) = holding d"
  by (simp add: holding_def verify_part_def part_fails_def part_saved_def set_gaps_def dropCorruptedPart_def
      removeBlockFromList_def Let_def split: part_verdict.splits)

lemma holding_verify [simp]: "holding (verifyChangedParts env good ich d) = holding d"
proof -
  have "holding (foldl (\<lambda>d p. verify_part env good ich p d) d ps) = holding d" for ps
    by (induction ps arbitrary: d) simp_all
  then show ?thesis by (simp add: verifyChangedParts_def)
qed

lemma sound_verify:
  assumes "sound_download good d" "\<not> finished d"
  shows "sound_download good (verifyChangedParts env good ich d)" "\<not> finished (verifyChangedParts env good ich d)"
  using assms holding_verify[of env good ich d]
  by (simp_all add: holding_def sound_download_def finished_def trusted_verify checked_verify)

lemma completing_mark_written [simp]:
  "d_completing (mark_written bds d) = d_completing d" "d_completionError (mark_written bds d) = d_completionError d"
  unfolding mark_written_def by (induction bds arbitrary: d) (simp_all add: markChangedParts_def Let_def)

text \<open>Nothing is marked when the download completes, so every part that is there is good.\<close>

lemma sound_complete:
  assumes "sound_download good d" "buffered_of d = []" "d_flushToken d = 0" "\<not> d_completionError d"
  shows "sound_download good (completeIfVerified d)"
proof -
  consider (no) "gaps d \<noteq> [] \<or> d_destroying d \<or> d_sizeContradicted d \<or> d_completing d"
    | (unread) "gaps d = []" "\<not> d_destroying d" "\<not> d_sizeContradicted d" "\<not> d_completing d" "True \<in> set (d_changedParts d)"
    | (yes) "gaps d = []" "\<not> d_destroying d" "\<not> d_sizeContradicted d" "\<not> d_completing d" "True \<notin> set (d_changedParts d)"
    by blast
  then show ?thesis
  proof cases
    case no
    moreover have "d_completing d \<Longrightarrow> d_changedParts d = []" using assms(1) by (simp add: sound_download_def)
    ultimately have "completeIfVerified d = d" by (auto simp: completeIfVerified_def completeFile_def)
    then show ?thesis using assms(1) by simp
  next
    case unread
    have "checked good (d\<lparr>d_completionError := True, d_status := Error\<rparr>)"
      using assms(1) by (simp add: sound_download_def checked_def settled_def data_parts_def flagged_def)
    moreover have "completeIfVerified d = d\<lparr>d_completionError := True, d_status := Error\<rparr>"
      using unread by (simp add: completeIfVerified_def)
    ultimately show ?thesis using assms unread trusted_unchanged(7)[of d] by (simp add: sound_download_def finished_def)
  next
    case yes
    then have "\<not> flagged d p" for p by (force simp: flagged_def in_set_conv_nth)
    then have "checked good (d\<lparr>d_completing := True, d_status := Completing, d_changedParts := []\<rparr>)"
      using assms(1) by (auto simp: sound_download_def checked_def settled_def data_parts_def flagged_def)
    moreover have "completeIfVerified d = d\<lparr>d_completing := True, d_status := Completing, d_changedParts := []\<rparr>"
      using yes by (simp add: completeIfVerified_def completeFile_def)
    ultimately show ?thesis using assms yes trusted_unchanged(7)[of d] by (simp add: sound_download_def finished_def)
  qed
qed

lemma unfinished: "\<not> finished d \<Longrightarrow> \<not> d_completing d \<and> \<not> d_completionError d"
  by (simp add: finished_def)

lemma held_nothing: "sound_download good d \<Longrightarrow> d_flushToken d = 0 \<Longrightarrow> flushing_of d = [] \<and> d_job d = None \<and> d_result d = None"
  by (simp add: sound_download_def trusted_def held_ok_def)

lemma sound_write_buffer:
  assumes s: "sound_download good d" and tok: "d_flushToken d = 0 \<or> buffered_of d = []"
  shows "sound_download good (write_buffer env good outcome ich d)"
proof (cases "buffered_of d = []")
  case True
  then show ?thesis using s by (simp add: write_buffer_def)
next
  case False
  let ?cs = "chunks_of (buffered_of d)"
  have t: "trusted d" and c: "checked good d" and r: "reads_part (fsize d) good" and nc: "\<not> finished d"
    using s False by (auto simp: sound_download_def finished_def)
  have held: "held_ok d" using t by (simp add: trusted_def)
  note carried = buffered_chunks[OF held]
  have ranges: "\<forall>bd\<in>set (buffered_of d). range_ok (fsize d) bd" using held by (simp add: held_ok_def)
  have c1: "checked good (d\<lparr>d_disk := execute_writes out ?cs (d_disk d)\<rparr>)" for out
    by (rule checked_writes[OF c r carried ranges]) simp
  have stopped: "sound_download good (d\<lparr>d_disk := execute_writes out ?cs (d_disk d)\<rparr>)" for out
    using trusted_writes[OF t carried_known[OF carried]] c1 r nc by (simp add: sound_download_def finished_def)
  let ?d1 = "d\<lparr>d_disk := execute_writes Wrote ?cs (d_disk d)\<rparr>"
  let ?d2 = "mark_written (buffered_of d) ?d1"
  let ?d3 = "?d2\<lparr>d_file := (d_file ?d2)\<lparr>pf_bufferedData := []\<rparr>, d_totalBufferData := 0\<rparr>"
  have core2: "core ?d2 = core ?d1" by simp
  have d3: "sound_download good ?d3"
    unfolding sound_download_def
  proof (intro conjI)
    show "trusted ?d3" using trusted_write_all[OF t] .
    show "reads_part (fsize ?d3) good" using r by simp
    show "checked good ?d3"
    proof (rule checked_released[OF c1[of Wrote]])
      show "d_disk ?d3 = d_disk ?d1" using same_core(5)[OF core2] by simp
      fix p assume p: "p < data_parts ?d1"
      show "flagged ?d1 p \<Longrightarrow> flagged ?d3 p" using marked_written[OF p, of "buffered_of d"] by (simp add: flagged_def)
      assume st: "settled ?d3 p"
      show "settled ?d1 p \<or> flagged ?d3 p"
      proof (cases "\<exists>x. in_ranges (buffered_of d) x \<and> part_of x = p")
        case True
        then show ?thesis using marked_written[OF p, of "buffered_of d"] by (simp add: flagged_def)
      next
        case False
        then show ?thesis using st same_core[OF core2] by (auto simp: settled_def)
      qed
    qed simp
    show "finished ?d3 \<longrightarrow> gaps ?d3 = [] \<and> buffered_of ?d3 = [] \<and> d_flushToken ?d3 = 0"
      "d_completing ?d3 \<longrightarrow> d_changedParts ?d3 = [] \<and> \<not> d_completionError ?d3"
      using nc by (simp_all add: finished_def)
  qed
  have nc3: "\<not> finished ?d3" using nc by (simp add: finished_def)
  let ?d4 = "verifyChangedParts env good ich ?d3"
  have d4: "sound_download good ?d4" by (rule sound_verify(1)[OF d3 nc3])
  have "holding ?d4 = holding ?d3" by simp
  then have "buffered_of ?d4 = []" "d_flushToken ?d4 = 0" "\<not> d_completionError ?d4"
    using tok False nc same_core(6)[OF core2] by (simp_all add: holding_def finished_def)
  then have "sound_download good (completeIfVerified ?d4)" by (rule sound_complete[OF d4])
  then show ?thesis
    using s stopped d4 by (auto simp: write_buffer_def Let_def simp del: execute_writes.simps split: option.splits write_outcome.splits)
qed

lemma checked_same:
  assumes "checked good d" "fsize d' = fsize d" "d_disk d' = d_disk d" "d_changedParts d' = d_changedParts d"
    and "\<And>p. settled d' p \<Longrightarrow> settled d p"
  shows "checked good d'"
  by (rule checked_released[OF assms(1-3)]) (use assms(4,5) in \<open>simp_all add: flagged_def\<close>)

lemma async_enqueue_cases:
  obtains "view (async_enqueue env d) = view d"
  | "buffered_of d \<noteq> []" "d_flushToken d = 0" "fsize (async_enqueue env d) = fsize d" "d_disk (async_enqueue env d) = d_disk d"
    "d_changedParts (async_enqueue env d) = d_changedParts d" "finished (async_enqueue env d) = finished d"
    "gaps (async_enqueue env d) = gaps d" "buffered_of (async_enqueue env d) = []"
    "flushing_of (async_enqueue env d) = flushing_of d @ map (\<lambda>bd. bd\<lparr>bd_data := []\<rparr>) (buffered_of d)"
proof (cases "buffered_of d = [] \<or> d_flushToken d \<noteq> 0 \<or> \<not> e_reserve env")
  case True
  have "view (async_enqueue env d) = view d" using True by (auto simp: async_enqueue_def Let_def)
  then show thesis by (rule that(1))
next
  case False
  then show thesis by (intro that(2)) (simp_all add: async_enqueue_def finished_def Let_def)
qed

lemma sound_async_enqueue:
  assumes s: "sound_download good d"
  shows "sound_download good (async_enqueue env d)"
proof (cases rule: async_enqueue_cases[of env d])
  case 1
  then show ?thesis using s sound_view by blast
next
  case 2
  have moved: "in_ranges (map (\<lambda>bd. bd\<lparr>bd_data := []\<rparr>) (buffered_of d)) = in_ranges (buffered_of d)"
    by (auto simp: in_ranges_def fun_eq_iff)
  have "trusted (async_enqueue env d)" using s by (simp add: sound_download_def trusted_async_enqueue)
  moreover have "checked good (async_enqueue env d)"
  proof (rule checked_same[OF _ 2(3,4,5)])
    show "checked good d" using s by (simp add: sound_download_def)
    show "settled (async_enqueue env d) p \<Longrightarrow> settled d p" for p unfolding settled_def 2 by (simp add: moved)
  qed
  moreover have "\<not> finished d" using s 2(1) by (auto simp: sound_download_def finished_def)
  ultimately show ?thesis using s 2 unfinished[of "async_enqueue env d"] by (simp add: sound_download_def)
qed

lemma sound_worker:
  assumes s: "sound_download good d"
  shows "sound_download good (worker_runs outcome d)"
proof (cases "d_job d")
  case None
  then show ?thesis using s by (simp add: worker_runs_def)
next
  case (Some job)
  obtain tok cs where job: "d_job d = Some (tok, cs)" using Some by (cases job) auto
  have t: "trusted d" and c: "checked good d" and r: "reads_part (fsize d) good" using s by (simp_all add: sound_download_def)
  have held: "held_ok d" using t by (simp add: trusted_def)
  have tok: "d_flushToken d \<noteq> 0" and carried: "list_all2 (carries (d_known d)) cs (flushing_of d)"
    and ranges: "\<forall>bd\<in>set (flushing_of d). range_ok (fsize d) bd"
    using held job unfolding held_ok_def by auto
  have nc: "\<not> finished d" using s tok by (auto simp: sound_download_def finished_def)
  have c1: "checked good (d\<lparr>d_disk := execute_writes out cs (d_disk d)\<rparr>)" for out
    by (rule checked_writes[OF c r carried ranges]) simp
  let ?w = "worker_runs outcome d"
  have same: "fsize ?w = fsize d" "gaps ?w = gaps d" "buffered_of ?w = buffered_of d" "flushing_of ?w = flushing_of d"
    "d_changedParts ?w = d_changedParts d" "finished ?w = finished d"
    by (simp_all add: worker_runs_def job finished_def Let_def split: option.splits write_outcome.splits)
  have "checked good ?w"
  proof (cases outcome)
    case None
    have "d_disk ?w = d_disk d" by (simp add: worker_runs_def job Let_def None)
    then show ?thesis by (rule checked_same[OF c same(1) _ same(5)]) (simp add: settled_def same)
  next
    case (Some out)
    let ?d1 = "d\<lparr>d_disk := execute_writes out cs (d_disk d)\<rparr>"
    have "d_disk ?w = d_disk ?d1"
      by (simp add: worker_runs_def job Let_def Some split: write_outcome.splits)
    then show ?thesis by (intro checked_same[OF c1[of out]]) (simp_all add: settled_def same)
  qed
  then show ?thesis using trusted_worker[OF t] r nc same unfinished[of ?w] by (simp add: sound_download_def)
qed

text \<open>After a result is taken, no write is out, or all of the buffer went with the next one.\<close>

definition drained :: "download \<Rightarrow> bool" where
  "drained d = (d_flushToken d = 0 \<or> buffered_of d = [])"

lemma drained_view: "view d = view d' \<Longrightarrow> drained d = drained d'"
  by (simp add: drained_def view_def core_def)

lemma drained_async: "d_flushToken d = 0 \<Longrightarrow> drained (async_enqueue env d)"
proof (cases rule: async_enqueue_cases[of env d])
  case 1
  then show "d_flushToken d = 0 \<Longrightarrow> ?thesis" using drained_view[OF 1] by (simp add: drained_def)
next
  case 2
  show ?thesis unfolding drained_def by (simp add: 2(8))
qed

lemma token_unchanged [simp]:
  "d_flushToken (handleWriteFailure env full d) = d_flushToken d" "d_flushToken (completeIfVerified d) = d_flushToken d"
  "d_flushToken (pauseFile b d) = d_flushToken d" "d_flushToken (mark_written bds d) = d_flushToken d"
  "d_flushToken (verifyChangedParts env good ich d) = d_flushToken d"
  using same_core(6)[OF core_failure[of env full d]] same_core(6)[OF core_complete[of d]] same_core(6)[OF core_pause[of b d]]
    same_core(6)[OF core_mark_written[of bds d]] holding_verify[of env good ich d] unfolding holding_def by simp_all

lemma token_write_buffer [simp]: "d_flushToken (write_buffer env good outcome ich d) = d_flushToken d"
  by (auto simp: write_buffer_def Let_def split: option.splits write_outcome.splits)

lemma sound_apply:
  assumes s: "sound_download good d" and res: "d_result d = Some r"
  shows "sound_download good (applyFlushResult env good outcome r ich (d\<lparr>d_result := None\<rparr>)) \<and>
    drained (applyFlushResult env good outcome r ich (d\<lparr>d_result := None\<rparr>))"
proof -
  have t: "trusted d" and c: "checked good d" and rp: "reads_part (fsize d) good" using s by (simp_all add: sound_download_def)
  have held: "held_ok d" using t by (simp add: trusted_def)
  then have job: "d_job d = None" and tok: "wr_token r = d_flushToken d" "d_flushToken d \<noteq> 0"
    using res unfolding held_ok_def by auto
  have ranges: "\<forall>bd\<in>set (flushing_of d). range_ok (fsize d) bd" using held by (simp add: held_ok_def)
  have nc: "\<not> finished d" using s tok by (auto simp: sound_download_def finished_def)
  let ?d = "d\<lparr>d_result := None\<rparr>"
  note ta = trusted_apply[OF t res job, of env good outcome ich]
  show ?thesis
  proof (cases "wr_written r")
    case False
    have returned: "list_all2 (carries (d_known d)) (wr_chunks r) (flushing_of d)"
      using held res False by (simp add: held_ok_def)
    let ?b = "?d\<lparr>d_flushToken := 0, d_file := (d_file ?d)\<lparr>pf_bufferedData := merge_by_end (buffered_of ?d) (give_back (flushing_of ?d) (wr_chunks r)),
        pf_flushingData := []\<rparr>, d_totalBufferData := d_totalBufferData ?d + d_flushingBytes ?d, d_flushingBytes := 0\<rparr>"
    have eq: "applyFlushResult env good outcome r ich ?d = handleWriteFailure env (wr_diskFull r) ?b"
      using tok False by (simp add: applyFlushResult_def Let_def)
    have "checked good ?b" by (rule checked_same[OF c]) (simp_all add: settled_def given_back(1)[OF returned])
    moreover have "trusted ?b" using ta unfolding eq by simp
    ultimately have "sound_download good ?b" using rp nc by (simp add: sound_download_def finished_def)
    then show ?thesis unfolding eq by (simp add: drained_def)
  next
    case True
    let ?d1 = "mark_written (flushing_of ?d) (?d\<lparr>d_flushToken := 0\<rparr>)"
    let ?d2 = "?d1\<lparr>d_file := (d_file ?d1)\<lparr>pf_flushingData := []\<rparr>, d_flushingBytes := 0\<rparr>"
    let ?d3 = "verifyChangedParts env good ich ?d2"
    have core1: "core ?d1 = core (?d\<lparr>d_flushToken := 0\<rparr>)" by simp
    have "checked good ?d2"
    proof (rule checked_released[OF c])
      show "d_disk ?d2 = d_disk d" using same_core(5)[OF core1] by simp
      fix p assume p: "p < data_parts d"
      have p': "p < data_parts (?d\<lparr>d_flushToken := 0\<rparr>)" using p by (simp add: data_parts_def)
      show "flagged d p \<Longrightarrow> flagged ?d2 p" using marked_written[OF p', of "flushing_of d"] by (simp add: flagged_def)
      assume st: "settled ?d2 p"
      show "settled d p \<or> flagged ?d2 p"
      proof (cases "\<exists>x. in_ranges (flushing_of d) x \<and> part_of x = p")
        case True
        then show ?thesis using marked_written[OF p', of "flushing_of d"] by (simp add: flagged_def)
      next
        case False
        then show ?thesis using st same_core[OF core1] by (auto simp: settled_def)
      qed
    qed simp
    moreover have "trusted ?d2"
    proof -
      have t': "trusted ?d" using t unfolding trusted_def held_ok_def by (auto split: if_splits)
      have "\<forall>x. in_ranges (flushing_of ?d) x \<longrightarrow> d_known ?d x (d_disk ?d x)"
        using held res True by (simp add: held_ok_def)
      from trusted_mark_flushed[OF t' _ this] have "trusted (?d\<lparr>d_flushToken := 0, d_file := (d_file ?d)\<lparr>pf_flushingData := []\<rparr>\<rparr>)"
        using job by (simp add: no_job_def)
      moreover have "core ?d2 = core (?d\<lparr>d_flushToken := 0, d_file := (d_file ?d)\<lparr>pf_flushingData := []\<rparr>\<rparr>)"
        using core1 by (simp add: core_def)
      ultimately show ?thesis using trusted_core by blast
    qed
    ultimately have d2: "sound_download good ?d2" using rp nc by (simp add: sound_download_def finished_def)
    have nc2: "\<not> finished ?d2" using nc by (simp add: finished_def)
    have d3: "sound_download good ?d3" by (rule sound_verify(1)[OF d2 nc2])
    have tok3: "d_flushToken ?d3 = 0" using same_core(6)[OF core1] by simp
    have "\<not> finished ?d3" by (rule sound_verify(2)[OF d2 nc2])
    then have "buffered_of ?d3 = [] \<Longrightarrow> sound_download good (completeIfVerified ?d3)" using sound_complete[OF d3] tok3 by (simp add: finished_def)
    then show ?thesis
      using tok True d3 tok3 sound_async_enqueue[OF d3] drained_async[OF tok3] sound_write_buffer[OF d3]
      by (simp add: applyFlushResult_def Let_def drained_def)
  qed
qed

lemma sound_lose:
  assumes s: "sound_download good d"
  shows "sound_download good (lose_job d) \<and> drained (lose_job d)"
proof -
  have t: "trusted d" and c: "checked good d" using s by (simp_all add: sound_download_def)
  have ok: "gaps_ok (fsize d) (gaps d)" "\<forall>bd\<in>set (flushing_of d). range_ok (fsize d) bd"
    using t by (simp_all add: trusted_def held_ok_def)
  have "checked good (lose_job d)"
    by (rule checked_same[OF c]) (simp_all add: lose_job_def Let_def settled_def lose_gaps[OF ok])
  moreover have "finished d \<Longrightarrow> flushing_of d = []" using s held_nothing[OF s] by (simp add: sound_download_def)
  ultimately show ?thesis
    using s trusted_lose[OF t] by (simp add: sound_download_def finished_def lose_job_def Let_def drained_def)
qed

lemma sound_job_done: "sound_download good d \<Longrightarrow> sound_download good (onJobDone env good out ich d)"
  using sound_apply[of good d] by (auto simp: onJobDone_def split: option.splits)

lemma drained_job_done:
  "sound_download good d \<Longrightarrow> d_result d \<noteq> None \<Longrightarrow> drained (onJobDone env good out ich d)"
  using sound_apply[of good d] by (auto simp: onJobDone_def split: option.splits)

lemma worker_reports: "d_job d \<noteq> None \<or> d_result d \<noteq> None \<Longrightarrow> d_result (worker_runs out d) \<noteq> None"
  by (auto simp: worker_runs_def Let_def split: option.splits write_outcome.splits)

lemma sound_finish:
  assumes s: "sound_download good d"
  shows "sound_download good (finishPendingFlush env good jo out ich d)" "drained (finishPendingFlush env good jo out ich d)"
proof -
  show "sound_download good (finishPendingFlush env good jo out ich d)"
    using s sound_job_done[OF sound_worker[OF s]] sound_lose[OF s] by (simp add: finishPendingFlush_def)
  show "drained (finishPendingFlush env good jo out ich d)"
    using drained_job_done[OF sound_worker[OF s] worker_reports] sound_lose[OF s]
    by (simp add: finishPendingFlush_def) (simp add: drained_def)
qed

lemma sound_flush: "sound_download good d \<Longrightarrow> sound_download good (flushBuffer env good jo out ich d)"
  unfolding flushBuffer_def by (rule sound_write_buffer) (use sound_finish in \<open>auto simp: drained_def\<close>)

lemma sound_flush_async: "sound_download good d \<Longrightarrow> sound_download good (flushBufferAsync env good jo out d)"
  by (simp add: flushBufferAsync_def sound_flush sound_async_enqueue)

lemma sound_take_bytes:
  assumes s: "sound_download good d" and se: "s \<le> e" "e < fsize d" and len: "length bytes = unat (e - s) + 1"
    and open_range: "\<not> range_complete s e (gaps d)"
  shows "sound_download good (take_bytes s e bytes d)"
proof -
  have ok: "gaps_ok (fsize d) (gaps d)" and c: "checked good d" using s by (simp_all add: sound_download_def trusted_def)
  have "\<not> finished d" using s open_range by (auto simp: sound_download_def finished_def)
  moreover have "checked good (take_bytes s e bytes d)"
    by (rule checked_same[OF c]) (auto simp: take_bytes_def settled_def fillGap_correct(2)[OF ok])
  ultimately show ?thesis
    using s trusted_take_bytes[OF _ se len] by (simp add: sound_download_def finished_def take_bytes_def)
qed

lemma sound_write:
  assumes s: "sound_download good d" and len: "length bytes = unat (e - s) + 1"
  shows "sound_download good (snd (writeToBuffer env good jo out transize bytes s e d))"
proof (cases rule: write_cases[of env good jo out transize bytes s e d])
  case (refused d3)
  then have "view d3 = view d" by (simp add: view_def)
  then show ?thesis using refused(1) s sound_view by blast
next
  case (taken d3)
  have "view d3 = view (take_bytes s e bytes d)" using taken by (simp add: view_def take_bytes_def)
  then have "sound_download good d3" using sound_take_bytes[OF s taken(1,2) len taken(3)] sound_view by blast
  then show ?thesis using taken(8) sound_flush sound_flush_async by auto
qed

lemma sound_resume:
  assumes s: "sound_download good d"
  shows "sound_download good (resumeFile env good d)"
proof -
  let ?d1 = "resume_write_error (d\<lparr>d_paused := False, d_stopped := False, d_insufficient := False\<rparr>)"
  let ?d2 = "?d1\<lparr>d_completionError := False, d_status := Ready\<rparr>"
  let ?d3 = "verifyChangedParts env good False ?d2"
  have v1: "view ?d1 = view d" by (simp only: view_resume) (simp add: view_def core_def)
  then have s1: "sound_download good ?d1" using s sound_view by blast
  moreover have "sound_download good (completeIfVerified ?d3)" if e: "d_completionError ?d1"
  proof -
    have fin: "finished ?d1" using e by (simp add: finished_def)
    have held: "buffered_of ?d1 = []" "d_flushToken ?d1 = 0" using s1 fin by (simp_all add: sound_download_def)
    have nc: "\<not> finished ?d2" using s1 e by (auto simp: sound_download_def finished_def)
    have same: "core ?d2 = core ?d1" by (simp add: core_def)
    have "checked good ?d2" by (subst checked_core[OF same]) (use s1 in \<open>simp_all add: sound_download_def\<close>)
    moreover have "trusted ?d2" using s1 trusted_core[OF same] by (simp add: sound_download_def)
    moreover have "reads_part (fsize ?d2) good" using s1 by (simp add: sound_download_def)
    ultimately have "sound_download good ?d2" using nc unfinished[OF nc] by (simp add: sound_download_def)
    note d3 = sound_verify[OF this nc, of env False]
    have "holding ?d3 = holding ?d2" by simp
    then have "buffered_of ?d3 = []" "d_flushToken ?d3 = 0" using held by (simp_all add: holding_def)
    then show ?thesis using d3 sound_complete[OF d3(1)] by (simp add: finished_def)
  qed
  ultimately show ?thesis using s by (simp add: resumeFile_def Let_def)
qed

lemma sound_step: "download_step good d d' \<Longrightarrow> sound_download good d \<Longrightarrow> sound_download good d'"
  by (induction rule: download_step.induct)
    (simp_all add: sound_write sound_worker sound_job_done sound_flush sound_flush_async sound_resume)

section \<open>The size never changes\<close>

lemma fsize_verify [simp]: "fsize (verifyChangedParts env good ich d) = fsize d"
  using holding_verify[of env good ich d] by (simp add: holding_def)

lemma fsize_write_buffer [simp]: "fsize (write_buffer env good out ich d) = fsize d"
  by (auto simp: write_buffer_def Let_def split: option.splits write_outcome.splits)

lemma fsize_async [simp]: "fsize (async_enqueue env d) = fsize d"
  by (auto simp: async_enqueue_def Let_def)

lemma fsize_worker [simp]: "fsize (worker_runs out d) = fsize d"
  by (auto simp: worker_runs_def Let_def split: option.splits write_outcome.splits)

lemma fsize_job_done [simp]: "fsize (onJobDone env good out ich d) = fsize d"
  by (auto simp: onJobDone_def applyFlushResult_def Let_def split: option.splits)

lemma fsize_flush [simp]: "fsize (flushBuffer env good jo out ich d) = fsize d"
  by (auto simp: flushBuffer_def finishPendingFlush_def lose_job_def Let_def)

lemma fsize_flush_async [simp]: "fsize (flushBufferAsync env good jo out d) = fsize d"
  by (simp add: flushBufferAsync_def)

lemma fsize_write: "fsize (snd (writeToBuffer env good jo out transize bytes s e d)) = fsize d"
proof (cases rule: write_cases[of env good jo out transize bytes s e d])
  case (refused d3)
  then show ?thesis using core_fsize by blast
next
  case (taken d3)
  have "fsize d3 = fsize d" using core_fsize[OF taken(4)] by (simp add: take_bytes_def)
  then show ?thesis using taken(8) by auto
qed

lemma fsize_resume [simp]: "fsize (resumeFile env good d) = fsize d"
  by (auto simp: resumeFile_def resume_write_error_def Let_def)

lemma fsize_step: "download_step good d d' \<Longrightarrow> fsize d' = fsize d"
  by (induction rule: download_step.induct) (simp_all add: fsize_write)

lemma sound_loaded: "loaded good d \<Longrightarrow> reads_part (fsize d) good \<Longrightarrow> sound_download good d"
proof -
  assume l: "loaded good d" and r: "reads_part (fsize d) good"
  have fs: "fsize d \<noteq> 0" "gaps_ok (fsize d) (gaps d)" using l by (simp_all add: loaded_def)
  have "good (d_disk d) (of_nat p)" if p: "p < data_parts d" "settled d p" for p
  proof -
    have "p < 2 ^ 16" using p(1) unsigned_less[of "data_part_count (fsize d)", where 'a = nat] by (simp add: data_parts_def)
    then have "unat (of_nat p :: u32) = p" by (simp add: unsigned_of_nat take_bit_nat_eq_self)
    then have "part_complete (fsize d) (of_nat p) (gaps d)"
      using part_complete_bytes[OF fs, of "of_nat p"] p parts_data[of "of_nat p" d] by (simp add: settled_def part_numbers_iff)
    then show ?thesis using l by (simp add: loaded_def)
  qed
  then show ?thesis using l r trusted_loaded[OF l] by (simp add: sound_download_def finished_def checked_def loaded_def)
qed

lemma sound_reached: "reached good d \<Longrightarrow> reads_part (fsize d) good \<Longrightarrow> sound_download good d"
proof (induction rule: reached.induct)
  case (start d)
  then show ?case by (rule sound_loaded)
next
  case (more d d')
  then show ?case using sound_step fsize_step by metis
qed

text \<open>C1. A download goes on to complete, in whatever order writes, failures, verdicts and flushes come, only with no
  byte missing, nothing held back, and every part of the data file matching its hash.\<close>

theorem completes_only_verified:
  assumes "reached good d" "reads_part (fsize d) good" "d_completing d"
  shows "gaps d = [] \<and> buffered_of d = [] \<and> flushing_of d = [] \<and> (\<forall>p<data_parts d. good (d_disk d) (of_nat p))"
proof -
  have s: "sound_download good d" by (rule sound_reached[OF assms(1,2)])
  have g: "gaps d = []" "buffered_of d = []" "d_flushToken d = 0" "d_changedParts d = []" using s assms(3) by (simp_all add: sound_download_def finished_def)
  moreover have "flushing_of d = []" using held_nothing[OF s g(3)] by simp
  moreover have "\<not> flagged d p" for p using g(4) by (simp add: flagged_def)
  ultimately show ?thesis using s by (simp add: sound_download_def checked_def settled_def)
qed

definition sample_done :: download where
  "sample_done = onJobDone sample_surroundings sample_good None False (worker_runs (Some Wrote)
     (snd (writeToBuffer sample_surroundings sample_good None None 4 [5, 6, 7, 8] 0 3 sample_download)))"

lemma sample_done_reached: "reached sample_good sample_done"
  unfolding sample_done_def
  by (rule reached.more[OF reached.more[OF reached.more[OF reached.start[OF sample_loaded] download_step.arrives]
        download_step.works] download_step.reports]) simp

theorem completes_only_verified_witness:
  "d_completing sample_done \<and> gaps sample_done = [] \<and> sample_good (d_disk sample_done) 0"
proof -
  have run: "fsize sample_done = 4" "d_completing sample_done" "data_parts sample_done = 1" by code_simp+
  have "reads_part 4 sample_good"
    unfolding reads_part_def
  proof (intro allI impI)
    fix disk disk' :: "u64 \<Rightarrow> u8" and p :: u32
    assume same: "\<forall>x<4. part_of x = unat p \<longrightarrow> disk x = disk' x"
    show "sample_good disk p = sample_good disk' p"
      using same[rule_format, of 0] same[rule_format, of 1] same[rule_format, of 2] same[rule_format, of 3]
      by (auto simp: sample_good_def)
  qed
  then show ?thesis using completes_only_verified[OF sample_done_reached] run by simp
qed

end
