(* ===== verification/Corruption_Box.thy ===== *)
theory Corruption_Box
  imports Net_Address Part_Alloc "HOL-Library.Monad_Syntax"
begin

text \<open>
  Who sent the bytes of a part, and who is blamed when some turn out wrong
  (src/core/client/CorruptionBlackBox.cpp; the two callers in src/core/files/PartFile.cpp).  The
  records of a part are a vector; the loops that mark a range visit the pieces they append, and
  for a range given the wrong way round that never ends, which is the value None here.
\<close>

datatype record_status = Unjudged | Verified | Corrupted

record block_record =
  br_start :: u64
  br_end :: u64
  br_sender :: address
  br_status :: record_status

abbreviation Record :: "u64 \<Rightarrow> u64 \<Rightarrow> address \<Rightarrow> record_status \<Rightarrow> block_record" where
  "Record s e a st \<equiv> \<lparr>br_start = s, br_end = e, br_sender = a, br_status = st\<rparr>"

type_synonym black_box = "block_record list list"

record evaluation =
  ev_addr :: address
  ev_corruptBytes :: u64
  ev_verifiedBytes :: u64
  ev_corruptPercent :: int
  ev_shouldBan :: bool

section \<open>Taking data\<close>

definition canMerge :: "block_record \<Rightarrow> u64 \<Rightarrow> u64 \<Rightarrow> address \<Rightarrow> record_status \<Rightarrow> bool" where
  "canMerge r s e a st = (br_sender r = a \<and> br_status r = st \<and> (s = br_end r + 1 \<or> e + 1 = br_start r))"

definition merge_record :: "block_record \<Rightarrow> u64 \<Rightarrow> u64 \<Rightarrow> address \<Rightarrow> record_status \<Rightarrow> block_record" where
  "merge_record r s e a st =
     (if br_sender r \<noteq> a \<or> br_status r \<noteq> st then r
      else if s = br_end r + 1 then r\<lparr>br_end := e\<rparr>
      else if e + 1 = br_start r then r\<lparr>br_start := s\<rparr>
      else r)"

text \<open>\<open>boxInit\<close> resizes; a part that is there keeps its records.\<close>

definition boxInit :: "u64 \<Rightarrow> black_box \<Rightarrow> black_box" where
  "boxInit fs box =
     (let n = unat ((fs + PART64 - 1) div PART64)
      in take n box @ replicate (n - length box) [])"

definition boxFree :: "black_box \<Rightarrow> black_box" where
  "boxFree box = []"

text \<open>The loop over the records of a part.  \<open>pre\<close> is what it has passed; it ends with the records, the place to
  merge into, and the range and sender that remain to be entered.\<close>

fun overlay :: "u64 \<Rightarrow> u64 \<Rightarrow> address \<Rightarrow> block_record list \<Rightarrow> nat option \<Rightarrow> block_record list
    \<Rightarrow> block_record list \<times> nat option \<times> u64 \<times> u64 \<times> address" where
  "overlay s e a pre pm [] = (pre, pm, s, e, a)"
| "overlay s e a pre pm (r # rs) =
     (if canMerge r s e a Unjudged then overlay s e a (pre @ [r]) (Some (length pre)) rs
      else if br_status r \<noteq> Unjudged then overlay s e a (pre @ [r]) pm rs
      else if br_start r \<ge> s \<and> br_end r \<le> e then overlay s e a pre pm rs
      else if br_start r < s \<and> br_end r > e then
        (if a \<noteq> br_sender r
         then (pre @ [r\<lparr>br_start := s, br_end := e, br_sender := a\<rparr>] @ rs @ [Record (br_start r) (s - 1) (br_sender r) Unjudged],
               pm, e + 1, br_end r, br_sender r)
         else overlay s e a (pre @ [r]) pm rs)
      else if br_start r \<ge> s \<and> br_start r \<le> e then overlay s e a (pre @ [r\<lparr>br_start := e + 1\<rparr>]) pm rs
      else if br_end r \<ge> s \<and> br_end r \<le> e then overlay s e a (pre @ [r\<lparr>br_end := s - 1\<rparr>]) pm rs
      else overlay s e a (pre @ [r]) pm rs)"

definition enter_record :: "block_record list \<times> nat option \<times> u64 \<times> u64 \<times> address \<Rightarrow> block_record list" where
  "enter_record x = (case x of (rs, pm, s, e, a) \<Rightarrow>
     (case pm of
        Some i \<Rightarrow> rs[i := merge_record (rs ! i) s e a Unjudged]
      | None \<Rightarrow> rs @ [Record s e a Unjudged]))"

lemma base_unat: "unat (s div PART64 * PART64) = unat (s::u64) div 9728000 * 9728000"
proof -
  have "unat (s div PART64) * unat PART64 = unat s div 9728000 * 9728000" by (simp add: unat_div PART64_def)
  moreover have "unat s div 9728000 * 9728000 \<le> unat s" by simp
  ultimately show ?thesis using unsigned_less[of s, where 'a = nat] by (subst unat_mult_lem[THEN iffD1]) auto
qed

lemma base_bounds: "unat (s div PART64 * PART64) \<le> unat (s::u64)" "unat s < unat (s div PART64 * PART64) + 9728000"
  unfolding base_unat by (auto intro: dividend_less_div_times)

text \<open>A range that leaves its part begins again behind the base of the part.\<close>

lemma next_base:
  assumes "\<not> s > (e::u64)" "e - s div PART64 * PART64 \<ge> PART64"
  shows "unat (s div PART64 * PART64 + PART64) = unat (s div PART64 * PART64) + 9728000"
    and "unat (s div PART64 * PART64) + 9728000 \<le> unat e"
proof -
  let ?b = "s div PART64 * PART64"
  have "unat ?b \<le> unat e" using assms(1) base_bounds[of s] by (simp add: word_le_nat_alt not_less)
  then have "unat (e - ?b) = unat e - unat ?b" by (simp add: unat_sub word_le_nat_alt)
  then show le: "unat ?b + 9728000 \<le> unat e" using assms(2) \<open>unat ?b \<le> unat e\<close> by (simp add: word_le_nat_alt PART64_def)
  show "unat (?b + PART64) = unat ?b + 9728000"
    using le unsigned_less[of e, where 'a = nat] by (subst unat_add_lem[THEN iffD1]) (auto simp: PART64_def)
qed

lemma next_part_range:
  assumes "\<not> ((e::u64) - s \<ge> PART64 \<or> s > e)" "e - s div PART64 * PART64 \<ge> PART64"
  shows "unat (e - (s div PART64 * PART64 + PART64)) < unat (e - s)"
proof -
  have n: "\<not> s > e" using assms(1) by simp
  note b = next_base[OF n assms(2)] base_bounds[of s]
  have "unat (e - (s div PART64 * PART64 + PART64)) = unat e - (unat (s div PART64 * PART64) + 9728000)"
    using b(1,2) by (simp add: unat_sub word_le_nat_alt)
  moreover have "unat (e - s) = unat e - unat s" using n by (simp add: unat_sub not_less)
  ultimately show ?thesis using b by linarith
qed

function transferredData :: "u64 \<Rightarrow> u64 \<Rightarrow> address \<Rightarrow> black_box \<Rightarrow> black_box" where
  "transferredData s e a box =
     (if e - s \<ge> PART64 \<or> s > e then box
      else let n = unat (s div PART64); base = s div PART64 * PART64; relStart = s - base; relEnd0 = e - base;
               box1 = (if relEnd0 \<ge> PART64 then transferredData (base + PART64) e a box else box);
               relEnd = (if relEnd0 \<ge> PART64 then PART64 - 1 else relEnd0)
           in if n \<ge> length box1 then box1
              else box1[n := enter_record (overlay relStart relEnd a [] None (box1 ! n))])"
  by pat_completeness auto
termination
  by (relation "measure (\<lambda>(s, e, a, box). unat (e - s))") (simp_all add: next_part_range)

declare transferredData.simps [simp del]

section \<open>Marking ranges\<close>

text \<open>What becomes of a record that meets the range, and the pieces it leaves.\<close>

definition cut_record :: "u64 \<Rightarrow> u64 \<Rightarrow> block_record \<Rightarrow> (block_record \<times> block_record list) option" where
  "cut_record s e r =
     (if br_start r \<ge> s \<and> br_end r \<le> e then Some (r, [])
      else if br_start r < s \<and> br_end r > e then
        Some (r\<lparr>br_start := s, br_end := e\<rparr>, [r\<lparr>br_start := e + 1\<rparr>, r\<lparr>br_end := s - 1\<rparr>])
      else if br_start r \<ge> s \<and> br_start r \<le> e then Some (r\<lparr>br_end := e\<rparr>, [r\<lparr>br_start := e + 1\<rparr>])
      else if br_end r \<ge> s \<and> br_end r \<le> e then Some (r\<lparr>br_start := s\<rparr>, [r\<lparr>br_end := s - 1\<rparr>])
      else None)"

partial_function (option) mark_loop :: "record_status set \<Rightarrow> record_status \<Rightarrow> u64 \<Rightarrow> u64 \<Rightarrow> block_record list \<Rightarrow> block_record list
    \<Rightarrow> block_record list option" where
  "mark_loop old st s e pre todo =
     (case todo of
        [] \<Rightarrow> Some pre
      | r # rs \<Rightarrow>
          if br_status r \<notin> old then mark_loop old st s e (pre @ [r]) rs
          else (case cut_record s e r of
             None \<Rightarrow> mark_loop old st s e (pre @ [r]) rs
           | Some (r', pieces) \<Rightarrow> mark_loop old st s e (pre @ [r'\<lparr>br_status := st\<rparr>]) (rs @ pieces)))"

definition mark_part :: "record_status set \<Rightarrow> record_status \<Rightarrow> u64 \<Rightarrow> u64 \<Rightarrow> black_box \<Rightarrow> black_box option" where
  "mark_part old st s e box =
     (let n = unat (s div PART64); base = s div PART64 * PART64; relStart = s - base; relEnd = e - base
      in if relEnd \<ge> PART64 \<or> n \<ge> length box then Some box
         else do { rs \<leftarrow> mark_loop old st relStart relEnd [] (box ! n); Some (box[n := rs]) })"

definition verifiedData :: "u64 \<Rightarrow> u64 \<Rightarrow> black_box \<Rightarrow> black_box option" where
  "verifiedData s e box = (if e \<ge> s + PART64 then Some box else mark_part {Unjudged, Verified} Verified s e box)"

definition corruptedData :: "u64 \<Rightarrow> u64 \<Rightarrow> black_box \<Rightarrow> black_box option" where
  "corruptedData s e box = (if e - s \<ge> EMBLOCK64 then Some box else mark_part {Unjudged} Corrupted s e box)"

section \<open>Judging\<close>

definition senders_in_order :: "block_record list \<Rightarrow> address list" where
  "senders_in_order rs = foldl (\<lambda>as r. if br_sender r \<in> set as then as else as @ [br_sender r]) [] rs"

definition byte_count :: "block_record \<Rightarrow> u64" where
  "byte_count r = br_end r - br_start r + 1"

definition corrupt_bytes :: "address \<Rightarrow> black_box \<Rightarrow> u64" where
  "corrupt_bytes a box = foldl (\<lambda>n r. if br_sender r = a \<and> br_status r = Corrupted then n + max (byte_count r) EMBLOCK64 else n) 0 (concat box)"

definition verified_bytes :: "address \<Rightarrow> black_box \<Rightarrow> u64" where
  "verified_bytes a box = foldl (\<lambda>n r. if br_sender r = a \<and> br_status r = Verified then n + byte_count r else n) 0 (concat box)"

definition kBanThreshold :: int where "kBanThreshold = 32"

definition evaluate_sender :: "black_box \<Rightarrow> address \<Rightarrow> evaluation" where
  "evaluate_sender box a =
     (let c = corrupt_bytes a box; v = verified_bytes a box; total_bytes = v + c;
          percent = (if total_bytes > 0 then uint (c * 100 div total_bytes) else 0)
      in \<lparr>ev_addr = a, ev_corruptBytes = c, ev_verifiedBytes = v, ev_corruptPercent = percent,
          ev_shouldBan = (percent > kBanThreshold)\<rparr>)"

definition evaluateData :: "u16 \<Rightarrow> black_box \<Rightarrow> evaluation list" where
  "evaluateData part box =
     (if unat part \<ge> length box then []
      else map (evaluate_sender box) (senders_in_order (filter (\<lambda>r. br_status r = Corrupted) (box ! unat part))))"

definition senderCount :: "u16 \<Rightarrow> black_box \<Rightarrow> nat" where
  "senderCount part box = (if unat part \<ge> length box then 0 else length (senders_in_order (box ! unat part)))"

fun reach_of :: "u64 \<Rightarrow> (u64 \<times> u64) list \<Rightarrow> u64 option" where
  "reach_of reach [] = Some reach"
| "reach_of reach ((s, e) # ps) = (if s > reach + 1 then None else reach_of (max reach e) ps)"

definition soleSenderOfWholePart :: "u16 \<Rightarrow> u64 \<Rightarrow> black_box \<Rightarrow> address" where
  "soleSenderOfWholePart part partLength box =
     (if unat part \<ge> length box \<or> partLength = 0 then NoAddress
      else case box ! unat part of
        [] \<Rightarrow> NoAddress
      | r # rs \<Rightarrow>
          if br_sender r = NoAddress then NoAddress
          else if \<not> list_all (\<lambda>r'. br_sender r' = br_sender r) (r # rs) then NoAddress
          else (case sort (map (\<lambda>r'. (br_start r', br_end r')) (r # rs)) of
                  [] \<Rightarrow> NoAddress
                | (s, e) # ps \<Rightarrow>
                    if s \<noteq> 0 then NoAddress
                    else (case reach_of e ps of
                            None \<Rightarrow> NoAddress
                          | Some reach \<Rightarrow> if reach + 1 \<ge> partLength then br_sender r else NoAddress)))"

section \<open>The callers\<close>

text \<open>Condemning a whole part, one block at a time.\<close>

partial_function (option) condemn_loop :: "u64 \<Rightarrow> u64 \<Rightarrow> black_box \<Rightarrow> black_box option" where
  "condemn_loop pos partEnd box =
     (if pos \<le> partEnd then do {
        box' \<leftarrow> corruptedData pos (min (pos + EMBLOCK64 - 1) partEnd) box;
        condemn_loop (pos + EMBLOCK64) partEnd box'
      } else Some box)"

definition markPartCorrupted :: "u64 \<Rightarrow> u32 \<Rightarrow> black_box \<Rightarrow> black_box option" where
  "markPartCorrupted fs part box =
     (let ps = ucast part * PART64 in condemn_loop ps (min (ps + PART64 - 1) (fs - 1)) box)"

text \<open>The addresses that are banned now; \<open>banned\<close> are those that are already.\<close>

definition punishCorruptionSenders :: "(address \<Rightarrow> bool) \<Rightarrow> u16 \<Rightarrow> black_box \<Rightarrow> address list" where
  "punishCorruptionSenders banned part box =
     map ev_addr (filter (\<lambda>ev. ev_shouldBan ev \<and> ev_addr ev \<noteq> NoAddress \<and> \<not> banned (ev_addr ev)) (evaluateData part box))"

end
