(* ===== verification/Corruption_Blame.thy ===== *)
theory Corruption_Blame
  imports Corruption_Box
begin

text \<open>
  What the records of Corruption_Box guarantee: whoever is judged has sent a byte of the part that
  lies in a condemned range, and the sole sender of a part has sent all of it.  The last theorem
  shows a sequence of transfers for which the blame falls on a sender whose byte was overwritten.
\<close>

section \<open>Records that tell the truth\<close>

definition true_record :: "(address \<Rightarrow> u64 \<Rightarrow> bool) \<Rightarrow> (u64 \<Rightarrow> bool) \<Rightarrow> block_record \<Rightarrow> bool" where
  "true_record S C r = (br_start r \<le> br_end r \<and> br_end r < PART64 \<and>
     (\<forall>x. br_start r \<le> x \<and> x \<le> br_end r \<longrightarrow> S (br_sender r) x \<and> (br_status r = Corrupted \<longrightarrow> C x)))"

lemma true_sub:
  "true_record S C r \<Longrightarrow> br_start r \<le> s \<Longrightarrow> s \<le> e \<Longrightarrow> e \<le> br_end r \<Longrightarrow> true_record S C (r\<lparr>br_start := s, br_end := e\<rparr>)"
  unfolding true_record_def by auto (meson order_trans le_less_trans)+

lemma true_start: "true_record S C r \<Longrightarrow> br_start r \<le> s \<Longrightarrow> s \<le> br_end r \<Longrightarrow> true_record S C (r\<lparr>br_start := s\<rparr>)"
  using true_sub[of S C r s "br_end r"] by simp

lemma true_end: "true_record S C r \<Longrightarrow> e \<le> br_end r \<Longrightarrow> br_start r \<le> e \<Longrightarrow> true_record S C (r\<lparr>br_end := e\<rparr>)"
  using true_sub[of S C r "br_start r" e] by simp

lemma true_new:
  "s \<le> e \<Longrightarrow> e < PART64 \<Longrightarrow> (\<And>x. s \<le> x \<Longrightarrow> x \<le> e \<Longrightarrow> S a x) \<Longrightarrow> true_record S C (Record s e a Unjudged)"
  by (simp add: true_record_def)

lemma word_gap:
  "(a::u64) < b \<Longrightarrow> a + 1 \<le> b" "(a::u64) < b \<Longrightarrow> a \<le> b - 1" "(a::u64) < b \<Longrightarrow> a < a + 1" "(a::u64) < b \<Longrightarrow> b - 1 < b"
  using unat_inc[of a b] unat_dec[of a b] by (simp_all add: word_order)

lemma true_merge:
  assumes r: "true_record S C r" and se: "s \<le> e" "e < PART64" and new: "\<And>x. s \<le> x \<Longrightarrow> x \<le> e \<Longrightarrow> S a x"
  shows "true_record S C (merge_record r s e a Unjudged)"
proof (cases "br_sender r = a \<and> br_status r = Unjudged")
  case False
  then show ?thesis using r by (auto simp: merge_record_def)
next
  case same: True
  have wf: "br_start r \<le> br_end r" "br_end r < PART64" using r by (simp_all add: true_record_def)
  have old: "S a x" if "br_start r \<le> x" "x \<le> br_end r" for x using r that same by (auto simp: true_record_def)
  consider (after) "s = br_end r + 1" | (before) "s \<noteq> br_end r + 1" "e + 1 = br_start r"
    | (none) "s \<noteq> br_end r + 1" "e + 1 \<noteq> br_start r" by blast
  then show ?thesis
  proof cases
    case after
    have lt: "br_end r < s" using after word_gap(3)[OF wf(2)] by simp
    have "S a x" if "br_start r \<le> x" "x \<le> e" for x
      using that old new word_inc_le[OF wf(2), of x] unfolding after by (cases "x \<le> br_end r") (auto simp: not_le)
    moreover have "br_start r \<le> e" using wf(1) lt se(1) by (meson le_less_trans less_imp_le less_le_trans)
    ultimately show ?thesis using after same se by (simp add: true_record_def merge_record_def)
  next
    case before
    have lt: "e < br_start r" using before word_gap(3)[OF se(2)] by simp
    have "S a x" if "s \<le> x" "x \<le> br_end r" for x
      using that old new word_inc_le[OF se(2), of x] before(2) by (cases "x \<le> e") (auto simp: not_le)
    moreover have "s \<le> br_end r" using wf(1) lt se(1) by (meson le_less_trans less_imp_le less_le_trans)
    ultimately show ?thesis using before same wf by (simp add: true_record_def merge_record_def)
  next
    case none
    then show ?thesis using r by (simp add: merge_record_def)
  qed
qed

lemma overlay_true:
  "\<forall>r\<in>set pre. true_record S C r \<Longrightarrow> \<forall>r\<in>set todo. true_record S C r \<Longrightarrow> s \<le> e \<Longrightarrow> e < PART64 \<Longrightarrow>
   (\<And>x. s \<le> x \<Longrightarrow> x \<le> e \<Longrightarrow> S a x) \<Longrightarrow> (\<forall>i. pm = Some i \<longrightarrow> i < length pre) \<Longrightarrow>
   case overlay s e a pre pm todo of (rs, pm', s', e', a') \<Rightarrow>
     (\<forall>r\<in>set rs. true_record S C r) \<and> s' \<le> e' \<and> e' < PART64 \<and> (\<forall>x. s' \<le> x \<and> x \<le> e' \<longrightarrow> S a' x) \<and>
     (\<forall>i. pm' = Some i \<longrightarrow> i < length rs)"
proof (induction s e a pre pm todo rule: overlay.induct)
  case (1 s e a pre pm)
  then show ?case by simp
next
  case (2 s e a pre pm r rs)
  note pre = "2.prems"(1) and se = "2.prems"(3,4) and new = "2.prems"(5) and pm = "2.prems"(6)
  have r: "true_record S C r" and rs: "\<forall>r\<in>set rs. true_record S C r" using "2.prems"(2) by simp_all
  have wf: "br_start r \<le> br_end r" "br_end r < PART64" using r by (simp_all add: true_record_def)
  have pm': "\<forall>i. pm = Some i \<longrightarrow> i < length (pre @ [x])" for x using pm by (auto intro: less_SucI)
  consider (merge) "canMerge r s e a Unjudged"
    | (judged) "\<not> canMerge r s e a Unjudged" "br_status r \<noteq> Unjudged"
    | (inside) "\<not> canMerge r s e a Unjudged" "br_status r = Unjudged" "br_start r \<ge> s \<and> br_end r \<le> e"
    | (split) "\<not> canMerge r s e a Unjudged" "br_status r = Unjudged" "\<not> (br_start r \<ge> s \<and> br_end r \<le> e)"
        "br_start r < s \<and> br_end r > e" "a \<noteq> br_sender r"
    | (own) "\<not> canMerge r s e a Unjudged" "br_status r = Unjudged" "\<not> (br_start r \<ge> s \<and> br_end r \<le> e)"
        "br_start r < s \<and> br_end r > e" "a = br_sender r"
    | (right) "\<not> canMerge r s e a Unjudged" "br_status r = Unjudged" "\<not> (br_start r \<ge> s \<and> br_end r \<le> e)"
        "\<not> (br_start r < s \<and> br_end r > e)" "br_start r \<ge> s \<and> br_start r \<le> e"
    | (left) "\<not> canMerge r s e a Unjudged" "br_status r = Unjudged" "\<not> (br_start r \<ge> s \<and> br_end r \<le> e)"
        "\<not> (br_start r < s \<and> br_end r > e)" "\<not> (br_start r \<ge> s \<and> br_start r \<le> e)" "br_end r \<ge> s \<and> br_end r \<le> e"
    | (apart) "\<not> canMerge r s e a Unjudged" "br_status r = Unjudged" "\<not> (br_start r \<ge> s \<and> br_end r \<le> e)"
        "\<not> (br_start r < s \<and> br_end r > e)" "\<not> (br_start r \<ge> s \<and> br_start r \<le> e)" "\<not> (br_end r \<ge> s \<and> br_end r \<le> e)"
    by blast
  then show ?case
  proof cases
    case merge
    then show ?thesis using "2.IH"(1)[OF merge _ rs se new] pre r by simp
  next
    case judged
    then show ?thesis using "2.IH"(2)[OF judged _ rs se new pm'] pre r by simp
  next
    case inside
    then show ?thesis using "2.IH"(3)[OF inside(1) _ inside(3) pre rs se new pm] by simp
  next
    case split
    have "true_record S C (r\<lparr>br_start := s, br_end := e, br_sender := a\<rparr>)" using se new split(2) by (simp add: true_record_def)
    moreover have "true_record S C (Record (br_start r) (s - 1) (br_sender r) Unjudged)"
      using true_end[OF r, of "s - 1"] split(2,4) word_gap(2,4)[of "br_start r" s] se(1)
      by (cases r) (auto simp: intro: order_trans less_imp_le)
    moreover have "\<forall>x. e + 1 \<le> x \<and> x \<le> br_end r \<longrightarrow> S (br_sender r) x"
      using r split(4) word_inc_le[of e "br_end r"] se(1) by (auto simp: true_record_def intro: order_trans less_imp_le)
    moreover have "e + 1 \<le> br_end r" using word_gap(1) split(4) by blast
    ultimately show ?thesis using split pre rs wf pm by (auto simp: )
  next
    case own
    moreover from this have "\<not> s \<le> br_start r" by (simp add: not_le)
    ultimately show ?thesis using "2.IH"(4)[OF own(1) _ own(3,4) _ _ rs se new pm'] pre r by simp
  next
    case right
    have "e < br_end r" "\<not> br_start r < s" using right(3,5) by (simp_all add: not_le not_less)
    moreover from this have "true_record S C (r\<lparr>br_start := e + 1\<rparr>)"
      using true_start[OF r, of "e + 1"] word_gap(1,3)[of e "br_end r"] right(5) by (auto intro: order_trans less_imp_le)
    ultimately show ?thesis using "2.IH"(5)[OF right(1) _ right(3,4,5) _ rs se new pm'] pre right by simp
  next
    case left
    have "br_start r < s" using left(3,6) by (auto simp: not_le)
    then have "true_record S C (r\<lparr>br_end := s - 1\<rparr>)"
      using true_end[OF r, of "s - 1"] word_gap(2,4)[of "br_start r" s] left(6) by (auto intro: order_trans less_imp_le)
    then show ?thesis using "2.IH"(6)[OF left(1) _ left(3,4,5,6) _ rs se new pm'] pre left by simp
  next
    case apart
    have eq: "overlay s e a pre pm (r # rs) = overlay s e a (pre @ [r]) pm rs"
      by (simp only: overlay.simps apart if_False if_cancel)
    show ?thesis unfolding eq using "2.IH"(7)[OF apart(1) _ apart(3,4,5,6) _ rs se new pm'] pre r apart(2) by simp
  qed
qed

lemma enter_true:
  assumes "case x of (rs, pm, s, e, a) \<Rightarrow> (\<forall>r\<in>set rs. true_record S C r) \<and> s \<le> e \<and> e < PART64 \<and>
      (\<forall>x. s \<le> x \<and> x \<le> e \<longrightarrow> S a x) \<and> (\<forall>i. pm = Some i \<longrightarrow> i < length rs)"
  shows "\<forall>r\<in>set (enter_record x). true_record S C r"
proof -
  obtain rs pm s e a where x: "x = (rs, pm, s, e, a)" by (cases x) auto
  have rs: "\<forall>r\<in>set rs. true_record S C r" and se: "s \<le> e" "e < PART64" and new: "\<And>x. s \<le> x \<Longrightarrow> x \<le> e \<Longrightarrow> S a x"
    and pm: "\<And>i. pm = Some i \<Longrightarrow> i < length rs" using assms x by auto
  show ?thesis
  proof (cases pm)
    case None
    have "true_record S C (Record s e a Unjudged)" using se new by (rule true_new)
    then show ?thesis using rs None by (simp add: enter_record_def x)
  next
    case (Some i)
    then have "true_record S C (rs ! i)" using rs pm by simp
    from this se new have "true_record S C (merge_record (rs ! i) s e a Unjudged)" by (rule true_merge)
    then show ?thesis
      using rs Some set_update_subset_insert[of rs i] by (auto simp: enter_record_def x)
  qed
qed

definition true_box :: "(nat \<Rightarrow> address \<Rightarrow> u64 \<Rightarrow> bool) \<Rightarrow> (nat \<Rightarrow> u64 \<Rightarrow> bool) \<Rightarrow> black_box \<Rightarrow> bool" where
  "true_box S C box = (\<forall>p<length box. \<forall>r\<in>set (box ! p). true_record (S p) (C p) r)"

lemma true_box_update:
  "true_box S C box \<Longrightarrow> \<forall>r\<in>set rs. true_record (S n) (C n) r \<Longrightarrow> true_box S C (box[n := rs])"
  unfolding true_box_def
proof (intro allI impI)
  fix p assume "\<forall>p<length box. \<forall>r\<in>set (box ! p). true_record (S p) (C p) r" "\<forall>r\<in>set rs. true_record (S n) (C n) r"
    "p < length (box[n := rs])"
  then show "\<forall>r\<in>set (box[n := rs] ! p). true_record (S p) (C p) r" by (cases "p = n") simp_all
qed

text \<open>An offset inside the part against the offset in the file.\<close>

abbreviation part_base :: "nat \<Rightarrow> u64" where
  "part_base p \<equiv> of_nat p * PART64"

lemma base_le: "s div PART64 * PART64 \<le> (s::u64)"
  by (simp add: word_div_mult_le)

lemma base_of: "part_base (unat (s div PART64)) = s div PART64 * PART64"
  by simp

lemma in_file:
  assumes "(b::u64) \<le> s" "b \<le> e" "s - b \<le> x" "x \<le> e - b"
  shows "s \<le> b + x \<and> b + x \<le> e"
proof -
  have d: "unat (s - b) = unat s - unat b" "unat (e - b) = unat e - unat b" using assms(1,2) by (simp_all add: unat_sub)
  then have x: "unat s - unat b \<le> unat x" "unat x \<le> unat e - unat b" using assms(3,4) by (simp_all add: word_le_nat_alt)
  have "unat b \<le> unat e" "unat b \<le> unat s" using assms by (simp_all add: word_le_nat_alt)
  then have "unat b + unat x < 2 ^ LENGTH(64)" using x unsigned_less[of e, where 'a = nat] by simp
  then have "unat (b + x) = unat b + unat x" by (simp only: unat_add_lem)
  then have "unat s \<le> unat (b + x)" "unat (b + x) \<le> unat e" using x \<open>unat b \<le> unat e\<close> \<open>unat b \<le> unat s\<close> by linarith+
  then show ?thesis by (simp add: word_le_nat_alt)
qed

lemma PART64_pos: "0 < PART64"
  by (simp add: PART64_def)

lemma transferred_true:
  "true_box S C box \<Longrightarrow> (\<And>p x. s \<le> part_base p + x \<Longrightarrow> part_base p + x \<le> e \<Longrightarrow> S p a x) \<Longrightarrow>
   true_box S C (transferredData s e a box) \<and> length (transferredData s e a box) = length box"
proof (induction s e a box rule: transferredData.induct)
  case (1 s e a box)
  note new = "1.prems"(2)
  show ?case
  proof (cases "e - s \<ge> PART64 \<or> s > e")
    case True
    then show ?thesis using "1.prems"(1) by (subst (1 2) transferredData.simps) simp
  next
    case False
    let ?n = "unat (s div PART64)" and ?b = "s div PART64 * PART64"
    let ?rest = "transferredData (?b + PART64) e a box"
    let ?box = "if e - ?b \<ge> PART64 then ?rest else box"
    let ?last = "if e - ?b \<ge> PART64 then PART64 - 1 else e - ?b"
    have bs: "?b \<le> s" "s \<le> e" "?b \<le> e" using False base_le[of s] by (auto simp: not_less intro: order_trans)
    have n: "\<not> s > e" using False by simp
    have box: "true_box S C ?box \<and> length ?box = length box"
    proof (cases "e - ?b \<ge> PART64")
      case True
      have "s \<le> ?b + PART64" using next_base(1)[OF n True] base_bounds(2)[of s] by (simp add: word_le_nat_alt)
      then have "true_box S C ?rest \<and> length ?rest = length box"
        using "1.IH"[OF False refl refl refl refl True "1.prems"(1)] new by (meson order_trans)
      then show ?thesis using True by simp
    qed (use "1.prems"(1) in simp)
    have start: "s - ?b \<le> ?last" "?last < PART64" "?last \<le> e - ?b"
    proof -
      have d: "unat (s - ?b) = unat s - unat ?b" "unat (e - ?b) = unat e - unat ?b" using bs by (simp_all add: unat_sub)
      then have "s - ?b < PART64" "s - ?b \<le> e - ?b"
        using base_bounds[of s] bs by (simp_all add: word_less_nat_alt word_le_nat_alt unat_PART64 diff_le_mono)
      moreover have "PART64 - 1 < PART64" by (simp add: PART64_def)
      ultimately show "s - ?b \<le> ?last" "?last < PART64" "?last \<le> e - ?b"
        using word_le_dec[of 0 PART64 "s - ?b"] by (auto simp: not_le PART64_pos intro: order_trans less_imp_le)
    qed
    have new_here: "S ?n a x" if "s - ?b \<le> x" "x \<le> ?last" for x
      using new[of ?n x] in_file[OF bs(1,3) that(1) order_trans[OF that(2) start(3)]] unfolding base_of by blast
    show ?thesis
    proof (cases "?n \<ge> length ?box")
      case True
      then show ?thesis using box False by (subst (1 2) transferredData.simps) (simp add: Let_def)
    next
      case inside: False
      have "\<forall>r\<in>set (?box ! ?n). true_record (S ?n) (C ?n) r" using box inside by (simp add: true_box_def not_le)
      then have "\<forall>r\<in>set (enter_record (overlay (s - ?b) ?last a [] None (?box ! ?n))). true_record (S ?n) (C ?n) r"
        using start(1,2) new_here by (intro enter_true overlay_true) simp_all
      then have "true_box S C (?box[?n := enter_record (overlay (s - ?b) ?last a [] None (?box ! ?n))])"
        using box by (intro true_box_update) simp_all
      then show ?thesis using box False inside by (subst (1 2) transferredData.simps) (simp add: Let_def)
    qed
  qed
qed

section \<open>Marking ends, and marks only the range\<close>

lemma mark_loop_simps [simp]:
  "mark_loop old st s e pre [] = Some pre"
  "mark_loop old st s e pre (r # rs) =
     (if br_status r \<notin> old then mark_loop old st s e (pre @ [r]) rs
      else (case cut_record s e r of
         None \<Rightarrow> mark_loop old st s e (pre @ [r]) rs
       | Some (r', pieces) \<Rightarrow> mark_loop old st s e (pre @ [r'\<lparr>br_status := st\<rparr>]) (rs @ pieces)))"
  by (simp_all add: mark_loop.simps[of _ _ _ _ _ "[]"] mark_loop.simps[of _ _ _ _ _ "_ # _"])

lemma cut_true:
  assumes r: "true_record S C r" and se: "s \<le> e" and cut: "cut_record s e r = Some (r', pieces)"
  shows "true_record S C r' \<and> s \<le> br_start r' \<and> br_end r' \<le> e \<and> length pieces \<le> 2 \<and>
    (\<forall>q\<in>set pieces. true_record S C q \<and> cut_record s e q = None)"
proof -
  have wf: "br_start r \<le> br_end r" using r by (simp add: true_record_def)
  have behind: "true_record S C (r\<lparr>br_start := e + 1\<rparr>) \<and> cut_record s e (r\<lparr>br_start := e + 1\<rparr>) = None"
    if "e < br_end r" "br_start r \<le> e"
  proof
    have w: "e < e + 1" "e + 1 \<le> br_end r" using word_gap(1,3) that(1) by blast+
    then have "br_start r \<le> e + 1" using that(2) by (meson le_less_trans less_imp_le)
    then show "true_record S C (r\<lparr>br_start := e + 1\<rparr>)" using true_start[OF r] w(2) by blast
    show "cut_record s e (r\<lparr>br_start := e + 1\<rparr>) = None"
      using w se that by (auto simp: cut_record_def not_le dest: le_less_trans less_le_trans)
  qed
  have front: "true_record S C (r\<lparr>br_end := s - 1\<rparr>) \<and> cut_record s e (r\<lparr>br_end := s - 1\<rparr>) = None"
    if "br_start r < s" "s \<le> br_end r"
  proof
    have w: "s - 1 < s" "br_start r \<le> s - 1" using word_gap(2,4) that(1) by blast+
    then have "s - 1 \<le> br_end r" using that(2) by (meson less_imp_le order_trans)
    then show "true_record S C (r\<lparr>br_end := s - 1\<rparr>)" using true_end[OF r] w(2) by blast
    show "cut_record s e (r\<lparr>br_end := s - 1\<rparr>) = None"
      using w se that by (auto simp: cut_record_def not_le dest: le_less_trans less_le_trans)
  qed
  consider (inside) "br_start r \<ge> s \<and> br_end r \<le> e"
    | (both) "\<not> (br_start r \<ge> s \<and> br_end r \<le> e)" "br_start r < s \<and> br_end r > e"
    | (tail) "\<not> (br_start r \<ge> s \<and> br_end r \<le> e)" "\<not> (br_start r < s \<and> br_end r > e)" "br_start r \<ge> s \<and> br_start r \<le> e"
    | (head) "\<not> (br_start r \<ge> s \<and> br_end r \<le> e)" "\<not> (br_start r < s \<and> br_end r > e)" "\<not> (br_start r \<ge> s \<and> br_start r \<le> e)"
        "br_end r \<ge> s \<and> br_end r \<le> e"
    using cut unfolding cut_record_def by (metis option.distinct(1))
  then show ?thesis
  proof cases
    case inside
    then have "r' = r" "pieces = []" using cut by (simp_all add: cut_record_def)
    then show ?thesis using inside r by simp
  next
    case both
    then have eq: "r' = r\<lparr>br_start := s, br_end := e\<rparr>" "pieces = [r\<lparr>br_start := e + 1\<rparr>, r\<lparr>br_end := s - 1\<rparr>]"
      using cut by (simp_all only: cut_record_def if_False if_True simp_thms option.inject prod.inject)
    have "br_start r \<le> e" "s \<le> br_end r" using both(2) se by (meson less_imp_le order_trans)+
    moreover have "br_start r \<le> s" "e \<le> br_end r" using both(2) by (simp_all add: less_imp_le)
    ultimately show ?thesis using both(2) behind front true_sub[OF r, of s e] se by (simp add: eq)
  next
    case tail
    then have eq: "r' = r\<lparr>br_end := e\<rparr>" "pieces = [r\<lparr>br_start := e + 1\<rparr>]"
      using cut by (simp_all only: cut_record_def if_False if_True simp_thms option.inject prod.inject)
    have "e < br_end r" using tail(1,3) by (simp add: not_le)
    then show ?thesis using behind tail(3) true_end[OF r, of e] by (simp add: eq)
  next
    case head
    then have eq: "r' = r\<lparr>br_start := s\<rparr>" "pieces = [r\<lparr>br_end := s - 1\<rparr>]"
      using cut by (simp_all only: cut_record_def if_False if_True simp_thms option.inject prod.inject)
    have "br_start r < s" using head(1,4) by (auto simp: not_le)
    then show ?thesis using front head(4) true_start[OF r, of s] by (simp add: eq)
  qed
qed

definition work_left :: "u64 \<Rightarrow> u64 \<Rightarrow> block_record list \<Rightarrow> nat" where
  "work_left s e rs = sum_list (map (\<lambda>r. if cut_record s e r = None then 1 else 4) rs)"

lemma mark_loop_true:
  assumes "s \<le> e" "st = Corrupted \<Longrightarrow> (\<And>x. s \<le> x \<Longrightarrow> x \<le> e \<Longrightarrow> C x)"
  shows "\<forall>r\<in>set pre. true_record S C r \<Longrightarrow> \<forall>r\<in>set todo. true_record S C r \<Longrightarrow>
    \<exists>rs. mark_loop old st s e pre todo = Some rs \<and> (\<forall>r\<in>set rs. true_record S C r)"
proof (induction "work_left s e todo" arbitrary: pre todo rule: less_induct)
  case less
  show ?case
  proof (cases todo)
    case Nil
    then show ?thesis using less.prems by simp
  next
    case (Cons r rs)
    have r: "true_record S C r" and rs: "\<forall>r\<in>set rs. true_record S C r" using less.prems(2) Cons by simp_all
    show ?thesis
    proof (cases "br_status r \<in> old \<and> cut_record s e r \<noteq> None")
      case False
      have "work_left s e rs < work_left s e todo" by (simp add: Cons work_left_def)
      then show ?thesis using less.hyps[of rs "pre @ [r]"] less.prems(1) r rs False Cons by (auto split: option.splits)
    next
      case True
      then obtain r' pieces where cut: "cut_record s e r = Some (r', pieces)" by auto
      note c = cut_true[OF r assms(1) cut]
      have "sum_list (map (\<lambda>r. if cut_record s e r = None then 1 else 4) pieces) = length pieces"
        using c by (induction pieces) auto
      then have "work_left s e (rs @ pieces) < work_left s e todo" using c by (simp add: Cons work_left_def cut)
      moreover have "true_record S C (r'\<lparr>br_status := st\<rparr>)"
        using c assms(2) by (auto simp: true_record_def intro: order_trans)
      ultimately show ?thesis using less.hyps[of "rs @ pieces" "pre @ [r'\<lparr>br_status := st\<rparr>]"] less.prems(1) rs c cut True Cons by auto
    qed
  qed
qed

section \<open>Histories\<close>

datatype box_event = Sent u64 u64 address | Confirmed u64 u64 | Condemned u64 u64

fun box_step :: "box_event \<Rightarrow> black_box \<Rightarrow> black_box option" where
  "box_step (Sent s e a) box = Some (transferredData s e a box)"
| "box_step (Confirmed s e) box = verifiedData s e box"
| "box_step (Condemned s e) box = corruptedData s e box"

fun box_history :: "box_event list \<Rightarrow> black_box \<Rightarrow> black_box option" where
  "box_history [] box = Some box"
| "box_history (ev # evs) box = (case box_step ev box of None \<Rightarrow> None | Some box' \<Rightarrow> box_history evs box')"

definition sent_in :: "box_event set \<Rightarrow> nat \<Rightarrow> address \<Rightarrow> u64 \<Rightarrow> bool" where
  "sent_in E p a x = (\<exists>s e. Sent s e a \<in> E \<and> s \<le> part_base p + x \<and> part_base p + x \<le> e)"

definition condemned_in :: "box_event set \<Rightarrow> nat \<Rightarrow> u64 \<Rightarrow> bool" where
  "condemned_in E p x = (\<exists>s e. Condemned s e \<in> E \<and> s \<le> part_base p + x \<and> part_base p + x \<le> e)"

lemma mark_part_true:
  assumes box: "true_box S C box" and se: "s \<le> e" "st = Corrupted \<Longrightarrow> (\<And>p x. s \<le> part_base p + x \<Longrightarrow> part_base p + x \<le> e \<Longrightarrow> C p x)"
  shows "\<exists>box'. mark_part old st s e box = Some box' \<and> true_box S C box' \<and> length box' = length box"
proof -
  let ?n = "unat (s div PART64)" and ?b = "s div PART64 * PART64"
  show ?thesis
  proof (cases "e - ?b \<ge> PART64 \<or> ?n \<ge> length box")
    case True
    then show ?thesis using box by (simp add: mark_part_def Let_def)
  next
    case False
    have bs: "?b \<le> s" "?b \<le> e" using base_le[of s] se(1) by (auto intro: order_trans)
    have rel: "s - ?b \<le> e - ?b"
    proof -
      have "unat (s - ?b) = unat s - unat ?b" "unat (e - ?b) = unat e - unat ?b" using bs by (simp_all add: unat_sub)
      then show ?thesis using se(1) by (simp add: word_le_nat_alt diff_le_mono)
    qed
    have here: "C ?n x" if "st = Corrupted" "s - ?b \<le> x" "x \<le> e - ?b" for x
      using se(2)[OF that(1), of ?n x] in_file[OF bs that(2,3)] unfolding base_of by blast
    have "\<forall>r\<in>set (box ! ?n). true_record (S ?n) (C ?n) r" using box False by (simp add: true_box_def not_le)
    then obtain rs where "mark_loop old st (s - ?b) (e - ?b) [] (box ! ?n) = Some rs" "\<forall>r\<in>set rs. true_record (S ?n) (C ?n) r"
      using mark_loop_true[where pre = "[]" and S = "S ?n" and todo = "box ! ?n" and C = "C ?n" and st = st and old = old, OF rel here]
      by auto
    then show ?thesis using False true_box_update[OF box] by (simp add: mark_part_def Let_def)
  qed
qed

lemma box_step_true:
  assumes box: "true_box (sent_in E) (condemned_in E) box" and ev: "ev \<in> E" "\<And>s e. ev = Confirmed s e \<or> ev = Condemned s e \<Longrightarrow> s \<le> e"
  shows "\<exists>box'. box_step ev box = Some box' \<and> true_box (sent_in E) (condemned_in E) box' \<and> length box' = length box"
proof (cases ev)
  case (Sent s e a)
  have "true_box (sent_in E) (condemned_in E) (transferredData s e a box) \<and> length (transferredData s e a box) = length box"
    by (rule transferred_true[OF box]) (use Sent ev(1) in \<open>auto simp: sent_in_def\<close>)
  then show ?thesis using Sent by simp
next
  case (Confirmed s e)
  then show ?thesis using box mark_part_true[OF box, of s e Verified] ev(2) by (auto simp: verifiedData_def)
next
  case (Condemned s e)
  have "condemned_in E p x" if "s \<le> part_base p + x" "part_base p + x \<le> e" for p x
    using that Condemned ev(1) by (auto simp: condemned_in_def)
  then show ?thesis using Condemned box mark_part_true[OF box, of s e Corrupted] ev(2) by (auto simp: corruptedData_def)
qed

lemma box_history_true:
  "true_box (sent_in E) (condemned_in E) box \<Longrightarrow> set evs \<subseteq> E \<Longrightarrow> (\<And>s e. Confirmed s e \<in> set evs \<or> Condemned s e \<in> set evs \<Longrightarrow> s \<le> e) \<Longrightarrow>
   \<exists>box'. box_history evs box = Some box' \<and> true_box (sent_in E) (condemned_in E) box' \<and> length box' = length box"
proof (induction evs arbitrary: box)
  case (Cons ev evs)
  obtain box' where b: "box_step ev box = Some box'" "true_box (sent_in E) (condemned_in E) box'" "length box' = length box"
    using box_step_true[OF Cons.prems(1), of ev] Cons.prems(2,3) by auto
  have "\<exists>box''. box_history evs box' = Some box'' \<and> true_box (sent_in E) (condemned_in E) box'' \<and> length box'' = length box'"
    by (rule Cons.IH[OF b(2)]) (use Cons.prems(2,3) in auto)
  then show ?case using b by simp
qed simp

lemma history_true:
  assumes "\<And>s e. Confirmed s e \<in> set evs \<or> Condemned s e \<in> set evs \<Longrightarrow> s \<le> e" "box_history evs (boxInit fs []) = Some box"
  shows "true_box (sent_in (set evs)) (condemned_in (set evs)) box"
proof -
  have "true_box (sent_in (set evs)) (condemned_in (set evs)) (boxInit fs [])" by (simp add: boxInit_def true_box_def Let_def)
  from box_history_true[OF this order_refl assms(1)] assms(2) show ?thesis by auto
qed

lemma senders_set: "set (senders_in_order rs) = br_sender ` set rs"
proof -
  have "set (foldl (\<lambda>as r. if br_sender r \<in> set as then as else as @ [br_sender r]) as rs) = set as \<union> br_sender ` set rs" for as
    by (induction rs arbitrary: as) auto
  then show ?thesis by (simp add: senders_in_order_def)
qed

section \<open>Properties\<close>

text \<open>C24. Blame stays with the part and with what was sent: after any history of transfers, confirmed
  and condemned ranges, the ranges of a verdict given the right way round (its first byte not behind
  its last; a range given the wrong way round can keep the marking loop running for ever), every
  marking has ended, and whoever evaluateData lists for a part has sent a byte of this very part, at
  an offset x below the part size, that lies in a condemned range.  A sender is never listed for the
  bytes of another part, nor for a block it sent nothing of.\<close>

theorem blamed_sent_condemned_byte:
  assumes "\<And>s e. Confirmed s e \<in> set evs \<or> Condemned s e \<in> set evs \<Longrightarrow> s \<le> e"
  shows "\<exists>box. box_history evs (boxInit fs []) = Some box \<and>
    (\<forall>ev\<in>set (evaluateData part box). \<exists>x. x < PART64 \<and>
       sent_in (set evs) (unat part) (ev_addr ev) x \<and> condemned_in (set evs) (unat part) x)"
proof -
  have "true_box (sent_in (set evs)) (condemned_in (set evs)) (boxInit fs [])" by (simp add: boxInit_def true_box_def Let_def)
  from box_history_true[OF this order_refl assms] obtain box
    where b: "box_history evs (boxInit fs []) = Some box" "true_box (sent_in (set evs)) (condemned_in (set evs)) box" by auto
  have "\<exists>x. x < PART64 \<and> sent_in (set evs) (unat part) (ev_addr ev) x \<and> condemned_in (set evs) (unat part) x"
    if ev: "ev \<in> set (evaluateData part box)" for ev
  proof -
    have p: "unat part < length box" using ev by (auto simp: evaluateData_def not_le split: if_splits)
    then obtain r where r: "r \<in> set (box ! unat part)" "br_status r = Corrupted" "br_sender r = ev_addr ev"
      using ev by (auto simp: evaluateData_def senders_set evaluate_sender_def Let_def split: if_splits)
    then have t: "true_record (sent_in (set evs) (unat part)) (condemned_in (set evs) (unat part)) r"
      using b(2) p by (auto simp: true_box_def)
    then have "br_start r < PART64" by (auto simp: true_record_def)
    then show ?thesis using r t by (auto simp: true_record_def)
  qed
  then show ?thesis using b(1) by blast
qed

lemma reach_covers:
  "reach_of reach ps = Some R \<Longrightarrow> x \<le> R \<Longrightarrow> x \<le> reach \<or> (\<exists>(s, e)\<in>set ps. s \<le> x \<and> x \<le> e)"
proof (induction reach ps rule: reach_of.induct)
  case (2 reach s e ps)
  have s: "\<not> s > reach + 1" using "2.prems"(1) by (auto split: if_splits)
  have "x \<le> max reach e \<or> (\<exists>(s, e)\<in>set ps. s \<le> x \<and> x \<le> e)"
    using "2.IH"[OF s] "2.prems" s by (simp split: if_splits)
  moreover have "s \<le> x" if "\<not> x \<le> reach"
    using that s word_gap(1)[of reach x] by (meson not_le order_trans not_less)
  ultimately show ?case by (auto simp: max_def split: if_splits)
qed simp

text \<open>The sole sender of a part sent every byte of it.\<close>

theorem sole_sender_sent_all:
  assumes "\<And>s e. Confirmed s e \<in> set evs \<or> Condemned s e \<in> set evs \<Longrightarrow> s \<le> e" "box_history evs (boxInit fs []) = Some box"
    and "soleSenderOfWholePart part len box = a" "a \<noteq> NoAddress" "x < len"
  shows "sent_in (set evs) (unat part) a x"
proof -
  have p: "unat part < length box" using assms(3,4) by (auto simp: soleSenderOfWholePart_def not_le split: if_splits)
  let ?rs = "box ! unat part"
  let ?ranges = "map (\<lambda>r. (br_start r, br_end r)) ?rs"
  have "?rs \<noteq> []"
  proof
    assume "?rs = []"
    then have "soleSenderOfWholePart part len box = NoAddress" by (simp add: soleSenderOfWholePart_def)
    then show False using assms(3,4) by simp
  qed
  then obtain r rs where rs: "?rs = r # rs" by (cases ?rs) auto
  have same: "list_all (\<lambda>r'. br_sender r' = br_sender r) (r # rs)"
  proof (rule ccontr)
    assume "\<not> list_all (\<lambda>r'. br_sender r' = br_sender r) (r # rs)"
    then have "soleSenderOfWholePart part len box = NoAddress" using rs by (simp only: soleSenderOfWholePart_def) simp
    then show False using assms(3,4) by simp
  qed
  obtain s e ps where srt: "sort ?ranges = (s, e) # ps"
    using rs by (cases "sort ?ranges") (auto dest: arg_cong[where f = length])
  have out: "(if s \<noteq> 0 then NoAddress else case reach_of e ps of None \<Rightarrow> NoAddress
      | Some reach \<Rightarrow> if reach + 1 \<ge> len then br_sender r else NoAddress) = a" "br_sender r \<noteq> NoAddress"
    using assms(3,4) p rs same srt by (auto simp: soleSenderOfWholePart_def split: if_splits)
  then obtain R where R: "s = 0" "reach_of e ps = Some R" "R + 1 \<ge> len" "br_sender r = a"
    using assms(4) by (auto split: if_splits option.splits)
  have "x \<le> R" using R(3) assms(5) word_gap(1)[of R x] by (meson le_less_trans less_le_trans not_le order_less_irrefl)
  then have "\<exists>(s, e)\<in>set ((s, e) # ps). s \<le> x \<and> x \<le> e" using reach_covers[OF R(2), of x] R(1) by auto
  then have "\<exists>q\<in>set ?rs. br_start q \<le> x \<and> x \<le> br_end q" unfolding srt[symmetric] by auto
  then obtain q where q: "q \<in> set ?rs" "br_start q \<le> x" "x \<le> br_end q" by blast
  have "br_sender q = a" using q(1) rs same R(4) by (auto simp: list_all_iff)
  moreover have "true_record (sent_in (set evs) (unat part)) (condemned_in (set evs) (unat part)) q"
    using history_true[OF assms(1,2)] p q(1) by (auto simp: true_box_def)
  ultimately show ?thesis using q by (auto simp: true_record_def)
qed

text \<open>The sequence of the finding: a sender repeats bytes inside its own record, another overwrites some of them.\<close>

definition repeated_and_overwritten :: "address \<Rightarrow> address \<Rightarrow> box_event list" where
  "repeated_and_overwritten a b = [Sent 0 99 a, Sent 10 19 a, Sent 5 14 b, Condemned 5 14]"

lemma repeated_records:
  assumes "a \<noteq> b"
  shows "box_history (repeated_and_overwritten a b) (boxInit 1000 []) = Some
    [[Record 5 14 b Corrupted, Record 10 14 a Corrupted, Record 0 4 a Unjudged, Record 15 99 a Unjudged, Record 15 19 a Unjudged]]"
proof -
  have "boxInit 1000 [] = [[]]" by (simp add: boxInit_def PART64_def Let_def)
  moreover have "transferredData 0 99 a [[]] = [[Record 0 99 a Unjudged]]"
    by (subst transferredData.simps) (simp add: PART64_def enter_record_def Let_def)
  moreover have "transferredData 10 19 a [[Record 0 99 a Unjudged]] = [[Record 0 99 a Unjudged, Record 10 19 a Unjudged]]"
    by (subst transferredData.simps) (simp add: PART64_def enter_record_def canMerge_def Let_def)
  moreover have "transferredData 5 14 b [[Record 0 99 a Unjudged, Record 10 19 a Unjudged]] =
      [[Record 5 14 b Unjudged, Record 10 19 a Unjudged, Record 0 4 a Unjudged, Record 15 99 a Unjudged]]"
    using assms by (subst transferredData.simps) (simp add: PART64_def enter_record_def canMerge_def Let_def)
  moreover have "corruptedData 5 14 [[Record 5 14 b Unjudged, Record 10 19 a Unjudged, Record 0 4 a Unjudged, Record 15 99 a Unjudged]] =
      Some [[Record 5 14 b Corrupted, Record 10 14 a Corrupted, Record 0 4 a Unjudged, Record 15 99 a Unjudged, Record 15 19 a Unjudged]]"
    by (simp add: corruptedData_def mark_part_def PART64_def EMBLOCK64_def cut_record_def Let_def)
  ultimately show ?thesis by (simp add: repeated_and_overwritten_def)
qed

text \<open>A sender that repeats bytes inside its own earlier range is entered a second time; when another peer then
  overwrites those bytes and they turn out wrong, the first sender is still charged with a whole block and its share of
  corrupt bytes is 100 percent.\<close>

theorem overwritten_sender_blamed:
  assumes "a \<noteq> b"
  shows "\<exists>box. box_history (repeated_and_overwritten a b) (boxInit 1000 []) = Some box \<and>
    (\<exists>ev. ev \<in> set (evaluateData 0 box) \<and> ev_addr ev = a \<and> ev_shouldBan ev)"
proof -
  let ?box = "[[Record 5 14 b Corrupted, Record 10 14 a Corrupted, Record 0 4 a Unjudged, Record 15 99 a Unjudged,
    Record 15 19 a Unjudged]]"
  have "evaluate_sender ?box a \<in> set (evaluateData 0 ?box)" by (simp add: evaluateData_def senders_set)
  moreover have "ev_shouldBan (evaluate_sender ?box a)" "ev_addr (evaluate_sender ?box a) = a"
    using assms by (simp_all add: evaluate_sender_def corrupt_bytes_def verified_bytes_def byte_count_def EMBLOCK64_def kBanThreshold_def Let_def)
  ultimately show ?thesis using repeated_records[OF assms] by blast
qed

theorem blamed_sent_condemned_byte_witness:
  "\<exists>box. box_history (repeated_and_overwritten (IPv4 1) (IPv4 2)) (boxInit 1000 []) = Some box \<and> evaluateData 0 box \<noteq> [] \<and>
    (\<forall>ev\<in>set (evaluateData 0 box). \<exists>x. x < PART64 \<and>
       sent_in (set (repeated_and_overwritten (IPv4 1) (IPv4 2))) 0 (ev_addr ev) x \<and>
       condemned_in (set (repeated_and_overwritten (IPv4 1) (IPv4 2))) 0 x)"
proof -
  have "\<exists>box. box_history (repeated_and_overwritten (IPv4 1) (IPv4 2)) (boxInit 1000 []) = Some box \<and>
    (\<forall>ev\<in>set (evaluateData 0 box). \<exists>x. x < PART64 \<and>
       sent_in (set (repeated_and_overwritten (IPv4 1) (IPv4 2))) (unat (0::u16)) (ev_addr ev) x \<and>
       condemned_in (set (repeated_and_overwritten (IPv4 1) (IPv4 2))) (unat (0::u16)) x)"
    by (rule blamed_sent_condemned_byte) (auto simp: repeated_and_overwritten_def)
  then show ?thesis
    using repeated_records[of "IPv4 1" "IPv4 2"] by (auto simp: evaluateData_def senders_in_order_def)
qed

end
