(* ===== verification/Packet_Frames.thy ===== *)
theory Packet_Frames
  imports Safe_File Part_Gaps
begin

text \<open>
  ED2K packets on a TCP connection: the packet and its header (src/core/net/Packet.cpp) and the
  loop that cuts packets out of a stream (EMSocket::readIncoming in src/core/net/EMSocket.cpp).
  What one read gave, after decryption, is a chunk; the handler of a packet is an argument and may
  go on, stop or throw.  zlib is a parameter of packing.  Left out: rate limits and sending.
\<close>

section \<open>Packets\<close>

definition OP_EDONKEYPROT :: u8 where "OP_EDONKEYPROT = 0xE3"
definition OP_PACKEDPROT :: u8 where "OP_PACKEDPROT = 0xD4"
definition OP_EMULEPROT :: u8 where "OP_EMULEPROT = 0xC5"
definition OP_KADEMLIAHEADER :: u8 where "OP_KADEMLIAHEADER = 0xE4"
definition OP_KADEMLIAPACKEDPROT :: u8 where "OP_KADEMLIAPACKEDPROT = 0xE5"

record packet =
  pk_prot :: u8
  pk_opcode :: u8
  pk_size :: u32
  pk_data :: "u8 list"

definition kPacketHeaderSize :: nat where "kPacketHeaderSize = 6"

definition getHeader :: "packet \<Rightarrow> u8 list" where
  "getHeader p = pk_prot p # le_bytes 4 (pk_size p + 1) @ [pk_opcode p]"

definition getUDPHeader :: "packet \<Rightarrow> u8 list" where
  "getUDPHeader p = [pk_prot p, pk_opcode p]"

definition getPacket :: "packet \<Rightarrow> u8 list" where
  "getPacket p = getHeader p @ pk_data p"

text \<open>The packet of a received header has no data yet.\<close>

definition packet_of_header :: "u8 list \<Rightarrow> packet" where
  "packet_of_header h = \<lparr>pk_prot = h ! 0, pk_opcode = h ! 5, pk_size = le_word (take 4 (drop 1 h)) - 1, pk_data = []\<rparr>"

text \<open>\<open>compress2\<close> gives the packed bytes, if they fit in the room, and \<open>uncompress\<close> the unpacked ones.\<close>

datatype zlib_result = Z_OK "u8 list" | Z_BUF_ERROR | Z_FAILED

definition packPacket :: "(nat \<Rightarrow> u8 list \<Rightarrow> zlib_result) \<Rightarrow> packet \<Rightarrow> packet" where
  "packPacket compress2 p =
     (case compress2 (unat (pk_size p + 300)) (pk_data p) of
        Z_OK out \<Rightarrow>
          (if length out < unat (pk_size p)
           then p\<lparr>pk_prot := (if pk_prot p = OP_KADEMLIAHEADER then OP_KADEMLIAPACKEDPROT else OP_PACKEDPROT),
                  pk_data := out, pk_size := of_nat (length out)\<rparr>
           else p)
      | _ \<Rightarrow> p)"

text \<open>The room grows until the data fits or the cap is reached.\<close>

partial_function (option) unpack_loop :: "(nat \<Rightarrow> u8 list \<Rightarrow> zlib_result) \<Rightarrow> u32 \<Rightarrow> u8 list \<Rightarrow> u32 \<Rightarrow> zlib_result option" where
  "unpack_loop uncompress cap bytes room =
     (let r = uncompress (unat room) bytes
      in if r \<noteq> Z_BUF_ERROR \<or> room \<ge> cap then Some r
         else unpack_loop uncompress cap bytes (of_nat (min (unat room * 2) (unat cap))))"

definition unPackPacket :: "(nat \<Rightarrow> u8 list \<Rightarrow> zlib_result) \<Rightarrow> u32 \<Rightarrow> packet \<Rightarrow> (bool \<times> packet) option" where
  "unPackPacket uncompress cap p =
     (let room0 = pk_size p * 10 + 300; room = (if room0 > cap then cap else room0)
      in case unpack_loop uncompress cap (pk_data p) room of
           None \<Rightarrow> None
         | Some (Z_OK out) \<Rightarrow>
             Some (True, p\<lparr>pk_size := of_nat (length out), pk_data := out,
               pk_prot := (if pk_prot p = OP_KADEMLIAPACKEDPROT then OP_KADEMLIAHEADER else OP_EMULEPROT)\<rparr>)
         | Some _ \<Rightarrow> Some (False, p))"

section \<open>The receiving loop\<close>

datatype handled = Go | Stop | Throw
datatype outcome = Continue | Stopped_early | Wrong_header | Too_big

definition kMaxReadBuffer :: u32 where "kMaxReadBuffer = 2000000"

text \<open>What a connection keeps between two reads: a part of a header, or a packet that is not complete.\<close>

record framing =
  fr_header :: "u8 list"
  fr_packet :: "packet option"

definition initial_framing :: framing where
  "initial_framing = \<lparr>fr_header = [], fr_packet = None\<rparr>"

text \<open>How many bytes of the buffer go to the packet.\<close>

definition to_copy :: "packet \<Rightarrow> u8 list \<Rightarrow> nat" where
  "to_copy p buf = min (unat (pk_size p - of_nat (length (pk_data p)))) (length buf)"

definition fill_packet :: "packet \<Rightarrow> u8 list \<Rightarrow> packet" where
  "fill_packet p buf = p\<lparr>pk_data := pk_data p @ take (to_copy p buf) buf\<rparr>"

definition packet_complete :: "packet \<Rightarrow> bool" where
  "packet_complete p = (pk_size p = of_nat (length (pk_data p)))"

lemma fill_progress: "\<not> packet_complete (fill_packet p buf) \<Longrightarrow> buf \<noteq> [] \<Longrightarrow> 0 < to_copy p buf"
proof (rule ccontr)
  assume n: "\<not> packet_complete (fill_packet p buf)" "buf \<noteq> []" "\<not> 0 < to_copy p buf"
  then have "unat (pk_size p - of_nat (length (pk_data p))) = 0" by (simp add: to_copy_def min_def split: if_splits)
  then have "pk_size p = of_nat (length (pk_data p))" by (simp add: unat_eq_zero)
  then show False using n(1,3) by (simp add: packet_complete_def fill_packet_def)
qed

text \<open>The packets handed to the handler, how the loop ended, the packet that is not complete, and the bytes left over.\<close>

function parse_loop :: "(packet \<Rightarrow> handled) \<Rightarrow> packet option \<Rightarrow> u8 list
    \<Rightarrow> packet list \<times> outcome \<times> packet option \<times> u8 list" where
  "parse_loop handler pending buf =
     (if \<not> (kPacketHeaderSize \<le> length buf \<or> (pending \<noteq> None \<and> buf \<noteq> [])) then ([], Continue, pending, buf)
      else if pending = None \<and> buf ! 0 \<notin> {OP_EDONKEYPROT, OP_PACKEDPROT, OP_EMULEPROT} then ([], Wrong_header, None, [])
      else if pending = None \<and> pk_size (packet_of_header buf) > kMaxReadBuffer then ([], Too_big, None, [])
      else
        let p0 = (case pending of None \<Rightarrow> packet_of_header buf | Some p \<Rightarrow> p);
            buf0 = (if pending = None then drop kPacketHeaderSize buf else buf);
            p = fill_packet p0 buf0;
            rest = drop (to_copy p0 buf0) buf0
        in if packet_complete p then
             (case handler p of
                Go \<Rightarrow> (let (ps, r) = parse_loop handler None rest in (p # ps, r))
              | Stop \<Rightarrow> ([p], Stopped_early, None, [])
              | Throw \<Rightarrow> ([p], Wrong_header, None, []))
           else parse_loop handler (Some p) rest)"
  by pat_completeness auto

lemma parse_smaller:
  assumes "kPacketHeaderSize \<le> length buf \<or> (pending \<noteq> None \<and> buf \<noteq> [])"
    and p0: "p0 = (case pending of None \<Rightarrow> packet_of_header buf | Some p \<Rightarrow> p)"
    and buf0: "buf0 = (if pending = None then drop kPacketHeaderSize buf else buf)"
  shows "2 * length (drop (to_copy p0 buf0) buf0) < 2 * length buf + (if pending = None then 0 else 1)"
    and "\<not> packet_complete (fill_packet p0 buf0) \<Longrightarrow>
      2 * length (drop (to_copy p0 buf0) buf0) + 1 < 2 * length buf + (if pending = None then 0 else 1)"
proof -
  have "pending = None \<Longrightarrow> length buf0 + 6 = length buf" using assms(1) by (auto simp: buf0 kPacketHeaderSize_def)
  then show "2 * length (drop (to_copy p0 buf0) buf0) < 2 * length buf + (if pending = None then 0 else 1)"
    by (auto simp: buf0)
  assume n: "\<not> packet_complete (fill_packet p0 buf0)"
  show "2 * length (drop (to_copy p0 buf0) buf0) + 1 < 2 * length buf + (if pending = None then 0 else 1)"
  proof (cases "pending = None")
    case True
    then show ?thesis using \<open>pending = None \<Longrightarrow> length buf0 + 6 = length buf\<close> by simp
  next
    case False
    then have "buf \<noteq> []" "buf0 = buf" using assms(1) by (auto simp: buf0 kPacketHeaderSize_def)
    then show ?thesis using fill_progress[OF n] False by (cases buf) auto
  qed
qed

termination parse_loop
proof (relation "measure (\<lambda>(handler, pending, buf). 2 * length buf + (if pending = None then 0 else 1))", goal_cases)
  case (2 handler pending buf p0 buf0 p rest)
  then show ?case using parse_smaller(1)[of buf pending p0 buf0] by auto
next
  case (3 handler pending buf p0 buf0 p rest)
  then show ?case using parse_smaller(2)[of buf pending p0 buf0] by auto
qed simp

declare parse_loop.simps [simp del]

text \<open>One read.\<close>

definition readIncoming :: "(packet \<Rightarrow> handled) \<Rightarrow> framing \<Rightarrow> u8 list \<Rightarrow> packet list \<times> outcome \<times> framing" where
  "readIncoming handler fr chunk =
     (if chunk = [] then ([], Continue, fr)
      else case parse_loop handler (fr_packet fr) (fr_header fr @ chunk) of
             (ps, out, pending, rest) \<Rightarrow> (ps, out, \<lparr>fr_header = rest, fr_packet = pending\<rparr>))"

text \<open>The reads of a connection, until one does not run to its end.\<close>

fun read_all :: "(packet \<Rightarrow> handled) \<Rightarrow> framing \<Rightarrow> u8 list list \<Rightarrow> packet list \<times> outcome \<times> framing" where
  "read_all handler fr [] = ([], Continue, fr)"
| "read_all handler fr (c # cs) =
     (case readIncoming handler fr c of
        (ps, Continue, fr') \<Rightarrow> (let (qs, r) = read_all handler fr' cs in (ps @ qs, r))
      | r \<Rightarrow> r)"

end
