(* ===== verification/Packet_Stream.thy ===== *)
theory Packet_Stream
  imports Packet_Frames
begin

text \<open>
  What the receiving loop of Packet_Frames promises: the packets do not depend on how the stream
  is cut into reads, packets that are written one behind the other come out as they were, no
  stream makes a packet outgrow its buffer, and packing is undone by unpacking.
\<close>

section \<open>Cutting the stream\<close>

text \<open>The part of the loop behind the header.\<close>

definition packet_step :: "(packet \<Rightarrow> handled) \<Rightarrow> packet \<Rightarrow> u8 list \<Rightarrow> packet list \<times> outcome \<times> packet option \<times> u8 list" where
  "packet_step handler p0 buf =
     (let p = fill_packet p0 buf; rest = drop (to_copy p0 buf) buf
      in if packet_complete p then
           (case handler p of
              Go \<Rightarrow> (let (ps, r) = parse_loop handler None rest in (p # ps, r))
            | Stop \<Rightarrow> ([p], Stopped_early, None, [])
            | Throw \<Rightarrow> ([p], Wrong_header, None, []))
         else parse_loop handler (Some p) rest)"

lemma parse_pending: "buf \<noteq> [] \<Longrightarrow> parse_loop handler (Some p) buf = packet_step handler p buf"
  by (subst parse_loop.simps) (simp add: packet_step_def Let_def)

lemma parse_header:
  "6 \<le> length buf \<Longrightarrow> buf ! 0 \<in> {OP_EDONKEYPROT, OP_PACKEDPROT, OP_EMULEPROT} \<Longrightarrow> pk_size (packet_of_header buf) \<le> kMaxReadBuffer \<Longrightarrow>
   parse_loop handler None buf = packet_step handler (packet_of_header buf) (drop 6 buf)"
  by (subst parse_loop.simps) (auto simp: packet_step_def kPacketHeaderSize_def Let_def simp del: drop_drop)

lemma parse_wait [simp]:
  "length buf < 6 \<Longrightarrow> parse_loop handler None buf = ([], Continue, None, buf)"
  "parse_loop handler (Some p) [] = ([], Continue, Some p, [])"
  by (simp_all add: parse_loop.simps[of handler None buf] parse_loop.simps[of handler "Some p" "[]"] kPacketHeaderSize_def)

lemma parse_refused:
  "6 \<le> length buf \<Longrightarrow> buf ! 0 \<notin> {OP_EDONKEYPROT, OP_PACKEDPROT, OP_EMULEPROT} \<Longrightarrow> parse_loop handler None buf = ([], Wrong_header, None, [])"
  "6 \<le> length buf \<Longrightarrow> buf ! 0 \<in> {OP_EDONKEYPROT, OP_PACKEDPROT, OP_EMULEPROT} \<Longrightarrow> pk_size (packet_of_header buf) > kMaxReadBuffer \<Longrightarrow>
   parse_loop handler None buf = ([], Too_big, None, [])"
  by (subst parse_loop.simps, auto simp: kPacketHeaderSize_def)+

text \<open>The ways through the loop: nothing to do, a refused header, or a packet that takes bytes.\<close>

definition takes_bytes :: "packet option \<Rightarrow> u8 list \<Rightarrow> packet \<Rightarrow> u8 list \<Rightarrow> bool" where
  "takes_bytes pending buf p b \<longleftrightarrow>
     (pending = Some p \<and> buf \<noteq> [] \<and> b = buf) \<or>
     (pending = None \<and> 6 \<le> length buf \<and> buf ! 0 \<in> {OP_EDONKEYPROT, OP_PACKEDPROT, OP_EMULEPROT} \<and>
      p = packet_of_header buf \<and> pk_size p \<le> kMaxReadBuffer \<and> b = drop 6 buf)"

lemma parse_takes: "takes_bytes pending buf p b \<Longrightarrow> parse_loop handler pending buf = packet_step handler p b"
  by (auto simp: takes_bytes_def parse_pending parse_header)

lemma takes_smaller:
  assumes "takes_bytes pending buf p b"
  shows "2 * length (drop (to_copy p b) b) < 2 * length buf + (if pending = None then 0 else 1)"
    and "\<not> packet_complete (fill_packet p b) \<Longrightarrow>
      2 * length (drop (to_copy p b) b) + 1 < 2 * length buf + (if pending = None then 0 else 1)"
proof -
  have a: "kPacketHeaderSize \<le> length buf \<or> (pending \<noteq> None \<and> buf \<noteq> [])"
    "p = (case pending of None \<Rightarrow> packet_of_header buf | Some p \<Rightarrow> p)" "b = (if pending = None then drop kPacketHeaderSize buf else buf)"
    using assms by (auto simp: takes_bytes_def kPacketHeaderSize_def)
  note parse_smaller[OF a]
  then show "2 * length (drop (to_copy p b) b) < 2 * length buf + (if pending = None then 0 else 1)"
    "\<not> packet_complete (fill_packet p b) \<Longrightarrow>
      2 * length (drop (to_copy p b) b) + 1 < 2 * length buf + (if pending = None then 0 else 1)" by auto
qed

lemma parse_cases_induct [case_names wait refuse stop go more]:
  assumes wait: "\<And>pending buf. length buf < 6 \<Longrightarrow> pending \<noteq> None \<longrightarrow> buf = [] \<Longrightarrow> P pending buf ([], Continue, pending, buf)"
    and refuse: "\<And>buf out. out \<noteq> Continue \<Longrightarrow> P None buf ([], out, None, [])"
    and stop: "\<And>pending buf p b out. takes_bytes pending buf p b \<Longrightarrow> packet_complete (fill_packet p b) \<Longrightarrow> out \<noteq> Continue \<Longrightarrow>
      P pending buf ([fill_packet p b], out, None, [])"
    and go: "\<And>pending buf p b ps r. takes_bytes pending buf p b \<Longrightarrow> packet_complete (fill_packet p b) \<Longrightarrow>
      P None (drop (to_copy p b) b) (ps, r) \<Longrightarrow> P pending buf (fill_packet p b # ps, r)"
    and more: "\<And>pending buf p b r. takes_bytes pending buf p b \<Longrightarrow> \<not> packet_complete (fill_packet p b) \<Longrightarrow>
      P (Some (fill_packet p b)) (drop (to_copy p b) b) r \<Longrightarrow> P pending buf r"
  shows "P pending buf (parse_loop handler pending buf)"
proof (induction "2 * length buf + (if pending = None then 0 else 1)" arbitrary: pending buf rule: less_induct)
  case less
  consider (waits) "length buf < 6" "pending \<noteq> None \<longrightarrow> buf = []"
    | (refused) "pending = None" "6 \<le> length buf" "\<nexists>p b. takes_bytes pending buf p b"
    | (taken) p b where "takes_bytes pending buf p b"
    by (cases pending) (fastforce simp: takes_bytes_def not_le)+
  then show ?case
  proof cases
    case waits
    then show ?thesis using wait[of buf pending] by (cases pending) auto
  next
    case refused
    then have "buf ! 0 \<notin> {OP_EDONKEYPROT, OP_PACKEDPROT, OP_EMULEPROT} \<or> pk_size (packet_of_header buf) > kMaxReadBuffer"
      by (auto simp: takes_bytes_def not_le)
    then show ?thesis using parse_refused[OF refused(2), of handler] refuse refused(1) by (cases "buf ! 0 \<in> {OP_EDONKEYPROT, OP_PACKEDPROT, OP_EMULEPROT}") auto
  next
    case taken
    note t = takes_smaller[OF taken] and s = parse_takes[OF taken, of handler]
    show ?thesis
    proof (cases "packet_complete (fill_packet p b)")
      case False
      then have "parse_loop handler pending buf = parse_loop handler (Some (fill_packet p b)) (drop (to_copy p b) b)"
        using s by (simp add: packet_step_def)
      moreover have "P (Some (fill_packet p b)) (drop (to_copy p b) b) (parse_loop handler (Some (fill_packet p b)) (drop (to_copy p b) b))"
        by (rule less) (use t(2)[OF False] in simp)
      ultimately show ?thesis using more[OF taken False] by simp
    next
      case c: True
      obtain ps r where q: "parse_loop handler None (drop (to_copy p b) b) = (ps, r)" by (cases "parse_loop handler None (drop (to_copy p b) b)")
      have "P None (drop (to_copy p b) b) (parse_loop handler None (drop (to_copy p b) b))"
        by (rule less) (use t(1) in simp)
      then show ?thesis
        using go[OF taken c] stop[OF taken c] s c q by (cases "handler (fill_packet p b)") (simp_all add: packet_step_def)
    qed
  qed
qed

definition continue_with :: "packet list \<times> outcome \<times> packet option \<times> u8 list
    \<Rightarrow> (packet option \<Rightarrow> u8 list \<Rightarrow> packet list \<times> outcome \<times> packet option \<times> u8 list) \<Rightarrow> packet list \<times> outcome \<times> packet option \<times> u8 list" where
  "continue_with r f = (case r of
     (ps, Continue, pending, rest) \<Rightarrow> (let (qs, r') = f pending rest in (ps @ qs, r'))
   | _ \<Rightarrow> r)"

lemma continue_simps [simp]:
  "continue_with ([], Continue, pending, rest) f = f pending rest"
  "out \<noteq> Continue \<Longrightarrow> continue_with (ps, out, x) f = (ps, out, x)"
  by (cases "f pending rest", simp add: continue_with_def) (cases out, auto simp: continue_with_def split: prod.splits)

lemma continue_Cons [simp]:
  "continue_with (case x of (ps, r) \<Rightarrow> (p # ps, r)) f = (case continue_with x f of (ps, r) \<Rightarrow> (p # ps, r))"
  by (cases x) (auto simp: continue_with_def Let_def split: prod.splits outcome.splits)

lemma remaining_after:
  assumes "length buf < unat (pk_size p - of_nat (length (pk_data p)))"
  shows "unat (pk_size p - of_nat (length (pk_data p) + length buf)) = unat (pk_size p - of_nat (length (pk_data p))) - length buf"
proof -
  let ?r = "pk_size p - of_nat (length (pk_data p))"
  have b: "unat (of_nat (length buf) :: u32) = length buf" by (rule unat_of_nat_small[of _ ?r]) (use assms in simp)
  have "pk_size p - of_nat (length (pk_data p) + length buf) = ?r - of_nat (length buf)" by (simp only: of_nat_add diff_diff_add)
  moreover have "unat (?r - of_nat (length buf)) = unat ?r - length buf"
    using assms b by (simp add: unat_sub word_le_nat_alt)
  ultimately show ?thesis by (simp only:)
qed

text \<open>A packet that is not filled by the first piece is filled by the two together.\<close>

lemma step_split:
  assumes "length a < unat (pk_size p - of_nat (length (pk_data p)))"
  shows "packet_step handler p (a @ b) = packet_step handler (fill_packet p a) b"
    and "packet_step handler p a = ([], Continue, Some (fill_packet p a), [])"
proof -
  have a: "to_copy p a = length a" "fill_packet p a = p\<lparr>pk_data := pk_data p @ a\<rparr>"
    using assms by (simp_all add: to_copy_def fill_packet_def)
  have r: "unat (pk_size p - of_nat (length (pk_data p @ a))) = unat (pk_size p - of_nat (length (pk_data p))) - length a"
    using remaining_after[OF assms] by simp
  have "to_copy (fill_packet p a) b = min (unat (pk_size p - of_nat (length (pk_data p))) - length a) (length b)"
    using r by (simp add: to_copy_def a(2))
  then have "to_copy p (a @ b) = length a + to_copy (fill_packet p a) b"
    using assms by (simp add: to_copy_def)
  then show "packet_step handler p (a @ b) = packet_step handler (fill_packet p a) b"
    by (simp add: packet_step_def fill_packet_def[of p "a @ b"] fill_packet_def[of "p\<lparr>pk_data := pk_data p @ a\<rparr>"] a(2))
  have "\<not> packet_complete (fill_packet p a)"
  proof
    assume "packet_complete (fill_packet p a)"
    then have "unat (pk_size p - of_nat (length (pk_data p @ a))) = 0" by (simp add: packet_complete_def a(2))
    then show False using r assms by simp
  qed
  then show "packet_step handler p a = ([], Continue, Some (fill_packet p a), [])"
    by (simp add: packet_step_def a(1))
qed

lemma step_filled:
  assumes "unat (pk_size p - of_nat (length (pk_data p))) \<le> length a"
  shows "to_copy p (a @ b) = to_copy p a" "fill_packet p (a @ b) = fill_packet p a" "packet_complete (fill_packet p a)"
    "drop (to_copy p a) (a @ b) = drop (to_copy p a) a @ b"
proof -
  show c: "to_copy p (a @ b) = to_copy p a" using assms by (simp add: to_copy_def)
  have t: "to_copy p a = unat (pk_size p - of_nat (length (pk_data p)))" using assms by (simp add: to_copy_def)
  then show "fill_packet p (a @ b) = fill_packet p a" "drop (to_copy p a) (a @ b) = drop (to_copy p a) a @ b"
    using assms c by (simp_all add: fill_packet_def)
  have "length (take (to_copy p a) a) = unat (pk_size p - of_nat (length (pk_data p)))" using assms t by simp
  then show "packet_complete (fill_packet p a)" by (simp add: packet_complete_def fill_packet_def)
qed

lemma step_append:
  assumes IH: "\<And>b. packet_complete (fill_packet p a) \<Longrightarrow> handler (fill_packet p a) = Go \<Longrightarrow>
      parse_loop handler None (drop (to_copy p a) a @ b) =
      continue_with (parse_loop handler None (drop (to_copy p a) a)) (\<lambda>pending rest. parse_loop handler pending (rest @ b))"
  shows "packet_step handler p (a @ b) =
    continue_with (packet_step handler p a) (\<lambda>pending rest. parse_loop handler pending (rest @ b))"
proof (cases "length a < unat (pk_size p - of_nat (length (pk_data p)))")
  case True
  then show ?thesis by (cases "b = []") (simp_all add: step_split parse_pending)
next
  case False
  then have f: "unat (pk_size p - of_nat (length (pk_data p))) \<le> length a" by simp
  have c: "continue_with (packet_step handler p a) g = (case handler (fill_packet p a) of
      Go \<Rightarrow> (let (ps, r) = continue_with (parse_loop handler None (drop (to_copy p a) a)) g in (fill_packet p a # ps, r))
    | Stop \<Rightarrow> ([fill_packet p a], Stopped_early, None, [])
    | Throw \<Rightarrow> ([fill_packet p a], Wrong_header, None, []))" for g
    using step_filled(3)[OF f] by (cases "handler (fill_packet p a)") (simp_all add: packet_step_def)
  show ?thesis unfolding c
    by (cases "handler (fill_packet p a)")
      (simp_all only: packet_step_def Let_def step_filled[OF f] IH if_True handled.case)
qed

lemma parse_append:
  "parse_loop handler pending (a @ b) =
   continue_with (parse_loop handler pending a) (\<lambda>pending rest. parse_loop handler pending (rest @ b))"
proof (induction handler pending a arbitrary: b rule: parse_loop.induct)
  case (1 handler pending a)
  let ?go = "kPacketHeaderSize \<le> length a \<or> (pending \<noteq> None \<and> a \<noteq> [])"
  show ?case
  proof (cases ?go)
    case False
    then show ?thesis by (cases pending) (simp_all add: kPacketHeaderSize_def not_le)
  next
    case go: True
    show ?thesis
    proof (cases pending)
      case (Some p)
      then have a: "a \<noteq> []" using go by (auto simp: kPacketHeaderSize_def)
      have "packet_step handler p (a @ b) =
          continue_with (packet_step handler p a) (\<lambda>pending rest. parse_loop handler pending (rest @ b))"
        by (rule step_append, rule "1.IH"(1)) (use go Some in simp_all)
      then show ?thesis using Some a by (simp add: parse_pending)
    next
      case None
      then have l: "6 \<le> length a" using go by (simp add: kPacketHeaderSize_def)
      have same: "(a @ b) ! 0 = a ! 0" "packet_of_header (a @ b) = packet_of_header a" "drop 6 (a @ b) = drop 6 a @ b"
        using l by (auto simp: packet_of_header_def nth_append)
      consider (prot) "a ! 0 \<notin> {OP_EDONKEYPROT, OP_PACKEDPROT, OP_EMULEPROT}"
        | (big) "a ! 0 \<in> {OP_EDONKEYPROT, OP_PACKEDPROT, OP_EMULEPROT}" "pk_size (packet_of_header a) > kMaxReadBuffer"
        | (ok) "a ! 0 \<in> {OP_EDONKEYPROT, OP_PACKEDPROT, OP_EMULEPROT}" "pk_size (packet_of_header a) \<le> kMaxReadBuffer"
        by (meson not_le)
      then show ?thesis
      proof cases
        case prot
        have "parse_loop handler None a = ([], Wrong_header, None, [])" by (rule parse_refused(1)[OF l prot])
        moreover have "parse_loop handler None (a @ b) = ([], Wrong_header, None, [])"
          by (rule parse_refused(1)) (use l prot same in simp_all)
        ultimately show ?thesis using None by simp
      next
        case big
        have "parse_loop handler None a = ([], Too_big, None, [])" by (rule parse_refused(2)[OF l big])
        moreover have "parse_loop handler None (a @ b) = ([], Too_big, None, [])"
          by (rule parse_refused(2)) (use l big same in simp_all)
        ultimately show ?thesis using None by simp
      next
        case ok
        have "packet_step handler (packet_of_header a) (drop 6 a @ b) =
            continue_with (packet_step handler (packet_of_header a) (drop 6 a)) (\<lambda>pending rest. parse_loop handler pending (rest @ b))"
          by (rule step_append, rule "1.IH"(1)) (use go None ok in \<open>auto simp: kPacketHeaderSize_def\<close>)
        moreover have "parse_loop handler None (a @ b) = packet_step handler (packet_of_header a) (drop 6 a @ b)"
          using parse_header[of "a @ b" handler] l ok same by simp
        ultimately show ?thesis using None parse_header[OF l ok, of handler] by simp
      qed
    qed
  qed
qed

text \<open>What is left over never holds a whole header, and nothing is left over beside a pending packet.\<close>

lemma parse_leaves:
  "parse_loop handler pending buf = (ps, out, pending', rest) \<Longrightarrow>
   length rest < 6 \<and> (pending' \<noteq> None \<longrightarrow> rest = []) \<and> (out \<noteq> Continue \<longrightarrow> pending' = None \<and> rest = [])"
proof -
  have "case r of (ps, out, pending', rest) \<Rightarrow>
      length rest < 6 \<and> (pending' \<noteq> None \<longrightarrow> rest = []) \<and> (out \<noteq> Continue \<longrightarrow> pending' = None \<and> rest = [])"
    if "r = parse_loop handler pending buf" for r
    unfolding that by (induction rule: parse_cases_induct) auto
  then show "parse_loop handler pending buf = (ps, out, pending', rest) \<Longrightarrow>
      length rest < 6 \<and> (pending' \<noteq> None \<longrightarrow> rest = []) \<and> (out \<noteq> Continue \<longrightarrow> pending' = None \<and> rest = [])"
    by fastforce
qed

lemma parse_again:
  assumes "parse_loop handler pending buf = (ps, Continue, pending', rest)"
  shows "parse_loop handler pending' rest = ([], Continue, pending', rest)"
  using parse_leaves[OF assms] by (cases pending') auto

lemma read_split:
  "readIncoming handler fr (a @ b) =
   (case readIncoming handler fr a of
      (ps, Continue, fr') \<Rightarrow> (let (qs, r) = readIncoming handler fr' b in (ps @ qs, r))
    | r \<Rightarrow> r)"
proof (cases "a = [] \<or> b = []")
  case True
  then show ?thesis by (auto simp: readIncoming_def split: prod.splits outcome.splits)
next
  case False
  obtain ps out pending' rest where r: "parse_loop handler (fr_packet fr) (fr_header fr @ a) = (ps, out, pending', rest)"
    by (rule prod_cases4)
  have "parse_loop handler (fr_packet fr) (fr_header fr @ a @ b) =
      continue_with (ps, out, pending', rest) (\<lambda>pending rest. parse_loop handler pending (rest @ b))"
    using parse_append[of handler "fr_packet fr" "fr_header fr @ a" b] r by simp
  then show ?thesis using False r
    by (cases out) (auto simp: readIncoming_def continue_with_def split: prod.splits)
qed

text \<open>C12. How a stream is cut into reads does not matter: the reads of a connection, one after the other,
  give the same packets, the same end and the same state between reads as one read of all the bytes
  together, for every handler, also when a header or a packet lies across several reads.\<close>

theorem reads_cut_anywhere:
  "read_all handler fr chunks = readIncoming handler fr (concat chunks)"
  by (induction chunks arbitrary: fr) (auto simp: read_split readIncoming_def[of _ _ "[]"] split: prod.splits outcome.splits)

section \<open>What is sent arrives\<close>

text \<open>A packet the receiving side lets through, with the data its header announces.\<close>

definition well_formed_packet :: "packet \<Rightarrow> bool" where
  "well_formed_packet p \<longleftrightarrow> pk_prot p \<in> {OP_EDONKEYPROT, OP_PACKEDPROT, OP_EMULEPROT} \<and>
     pk_size p \<le> kMaxReadBuffer \<and> length (pk_data p) = unat (pk_size p)"

lemma header_bytes:
  "length (getHeader p) = 6" "getHeader p ! 0 = pk_prot p"
  "packet_of_header (getHeader p @ rest) = p\<lparr>pk_data := []\<rparr>"
proof -
  show l: "length (getHeader p) = 6" "getHeader p ! 0 = pk_prot p" by (simp_all add: getHeader_def le_bytes_def)
  have n: "(getHeader p @ rest) ! 5 = pk_opcode p" "take 4 (drop 1 (getHeader p @ rest)) = le_bytes 4 (pk_size p + 1)"
    by (simp_all add: getHeader_def le_bytes_def numeral_eq_Suc)
  have w: "le_word (le_bytes 4 (pk_size p + 1)) = pk_size p + 1" by (rule le_word_bytes) simp
  show "packet_of_header (getHeader p @ rest) = p\<lparr>pk_data := []\<rparr>"
    using n l by (simp add: packet_of_header_def nth_append w)
qed

lemma parse_packet:
  assumes "well_formed_packet p" and "handler p = Go"
  shows "parse_loop handler None (getPacket p @ rest) = (let (ps, r) = parse_loop handler None rest in (p # ps, r))"
proof -
  have s: "pk_prot p \<in> {OP_EDONKEYPROT, OP_PACKEDPROT, OP_EMULEPROT}" "pk_size p \<le> kMaxReadBuffer" "length (pk_data p) = unat (pk_size p)"
    using assms(1) by (auto simp: well_formed_packet_def)
  let ?h = "p\<lparr>pk_data := []\<rparr>"
  have h: "packet_of_header (getPacket p @ rest) = ?h" "(getPacket p @ rest) ! 0 = pk_prot p" "drop 6 (getPacket p @ rest) = pk_data p @ rest"
    using header_bytes(1)[of p] header_bytes(2)[of p] header_bytes(3)[of p] by (simp_all add: getPacket_def nth_append)
  have "parse_loop handler None (getPacket p @ rest) = packet_step handler ?h (pk_data p @ rest)"
    using parse_header[of "getPacket p @ rest" handler] s h header_bytes(1)[of p] by (simp add: getPacket_def)
  moreover have "to_copy ?h (pk_data p @ rest) = length (pk_data p)" using s by (simp add: to_copy_def)
  moreover have "fill_packet ?h (pk_data p @ rest) = p" using calculation(2) by (simp add: fill_packet_def)
  moreover have "packet_complete p" using s(3) by (simp add: packet_complete_def)
  ultimately show ?thesis using assms(2) by (simp add: packet_step_def)
qed

text \<open>C6. Packets written one behind the other arrive: however their bytes are cut into reads, a fresh
  connection hands over those packets in their order, with their data, and is left as it began, with no
  part of a header or of a packet kept.\<close>

theorem sent_packets_arrive:
  assumes "\<forall>p \<in> set ps. well_formed_packet p \<and> handler p = Go"
    and "concat chunks = concat (map getPacket ps)"
  shows "read_all handler initial_framing chunks = (ps, Continue, initial_framing)"
proof -
  have p: "parse_loop handler None (concat (map getPacket ps)) = (ps, Continue, None, [])"
    using assms(1) by (induction ps) (simp_all add: parse_packet)
  have "readIncoming handler initial_framing xs = (ps, Continue, initial_framing)"
    if "parse_loop handler None xs = (ps, Continue, None, [])" for xs
    using that by (cases "xs = []") (auto simp: readIncoming_def initial_framing_def)
  then have "readIncoming handler initial_framing (concat chunks) = (ps, Continue, initial_framing)"
    unfolding assms(2) using p by blast
  moreover have "read_all handler fr chunks = readIncoming handler fr (concat chunks)" for fr
    by (induction chunks arbitrary: fr) (auto simp: read_split readIncoming_def[of _ _ "[]"] split: prod.splits outcome.splits)
  ultimately show ?thesis by simp
qed

definition sample_packets :: "packet list" where
  "sample_packets = [\<lparr>pk_prot = 0xE3, pk_opcode = 0x46, pk_size = 3, pk_data = [7, 8, 9]\<rparr>,
     \<lparr>pk_prot = 0xC5, pk_opcode = 0x40, pk_size = 0, pk_data = []\<rparr>]"

lemma sent_packets_arrive_witness:
  "read_all (\<lambda>p. Go) initial_framing [[0xE3, 4, 0], [0, 0, 0x46, 7], [], [8, 9, 0xC5, 1, 0, 0, 0, 0x40]] =
     (sample_packets, Continue, initial_framing)"
proof (rule sent_packets_arrive)
  show "\<forall>p \<in> set sample_packets. well_formed_packet p \<and> Go = Go"
    by (simp add: sample_packets_def well_formed_packet_def kMaxReadBuffer_def OP_EDONKEYPROT_def OP_PACKEDPROT_def OP_EMULEPROT_def)
  show "concat [[0xE3, 4, 0], [0, 0, 0x46, 7], [], [8, 9, 0xC5, 1, 0, 0, 0, 0x40]] = concat (map getPacket sample_packets)"
    by code_simp
qed

section \<open>Bounds\<close>

text \<open>A connection between two reads: less than a header, and a packet that still fits its buffer.\<close>

definition bounded_packet :: "packet \<Rightarrow> bool" where
  "bounded_packet p \<longleftrightarrow> pk_size p \<le> kMaxReadBuffer \<and> length (pk_data p) \<le> unat (pk_size p)"

definition sound_framing :: "framing \<Rightarrow> bool" where
  "sound_framing fr \<longleftrightarrow> length (fr_header fr) < kPacketHeaderSize \<and>
     (case fr_packet fr of None \<Rightarrow> True | Some p \<Rightarrow> bounded_packet p \<and> fr_header fr = [])"

lemma fill_bounded:
  assumes "bounded_packet p"
  shows "bounded_packet (fill_packet p b)"
    and "packet_complete (fill_packet p b) \<Longrightarrow> length (pk_data (fill_packet p b)) = unat (pk_size (fill_packet p b))"
proof -
  have l: "length (pk_data p) \<le> unat (pk_size p)" using assms by (simp add: bounded_packet_def)
  have n: "unat (of_nat (length (pk_data p)) :: u32) = length (pk_data p)" by (rule unat_of_nat_small[OF l])
  have "unat (pk_size p - of_nat (length (pk_data p))) = unat (pk_size p) - length (pk_data p)"
    using l n by (simp add: unat_sub word_le_nat_alt)
  then have b: "length (pk_data (fill_packet p b)) \<le> unat (pk_size p)" using l by (simp add: fill_packet_def to_copy_def)
  then show "bounded_packet (fill_packet p b)" using assms by (simp add: bounded_packet_def fill_packet_def)
  assume "packet_complete (fill_packet p b)"
  then show "length (pk_data (fill_packet p b)) = unat (pk_size (fill_packet p b))"
    using unat_of_nat_small[OF b] by (simp add: packet_complete_def fill_packet_def)
qed

lemma takes_bounded:
  "takes_bytes pending buf p b \<Longrightarrow> pending = None \<or> bounded_packet (the pending) \<Longrightarrow> bounded_packet p"
  by (auto simp: takes_bytes_def bounded_packet_def packet_of_header_def)

lemma parse_bounded:
  assumes "pending = None \<or> bounded_packet (the pending)" and "parse_loop handler pending buf = (ps, out, pending', rest)"
  shows "(\<forall>p \<in> set ps. bounded_packet p \<and> length (pk_data p) = unat (pk_size p)) \<and> (pending' = None \<or> bounded_packet (the pending'))"
proof -
  have "(pending = None \<or> bounded_packet (the pending)) \<longrightarrow> (case r of (ps, out, pending', rest) \<Rightarrow>
      (\<forall>p \<in> set ps. bounded_packet p \<and> length (pk_data p) = unat (pk_size p)) \<and> (pending' = None \<or> bounded_packet (the pending')))"
    if "r = parse_loop handler pending buf" for r
    unfolding that
  proof (induction rule: parse_cases_induct)
    case (stop pending buf p b out)
    then show ?case using fill_bounded[OF takes_bounded[OF stop(1)], of b] by auto
  next
    case (go pending buf p b ps r)
    then show ?case using fill_bounded[OF takes_bounded[OF go(1)], of b] by auto
  next
    case (more pending buf p b r)
    then show ?case using fill_bounded[OF takes_bounded[OF more(1)], of b] by auto
  qed auto
  from this[OF refl] show ?thesis using assms by simp
qed

lemma read_bounded:
  assumes "sound_framing fr" and "readIncoming handler fr chunk = (ps, out, fr')"
  shows "sound_framing fr' \<and> (\<forall>p \<in> set ps. bounded_packet p \<and> length (pk_data p) = unat (pk_size p))"
proof (cases "chunk = []")
  case True
  then show ?thesis using assms by (auto simp: readIncoming_def)
next
  case False
  then obtain pending rest where r: "parse_loop handler (fr_packet fr) (fr_header fr @ chunk) = (ps, out, pending, rest)"
    and fr': "fr' = \<lparr>fr_header = rest, fr_packet = pending\<rparr>"
    using assms(2) by (auto simp: readIncoming_def split: prod.splits)
  have "fr_packet fr = None \<or> bounded_packet (the (fr_packet fr))" using assms(1) by (auto simp: sound_framing_def split: option.splits)
  from parse_bounded[OF this r] parse_leaves[OF r] show ?thesis
    by (auto simp: fr' sound_framing_def kPacketHeaderSize_def split: option.splits)
qed

text \<open>C19. No stream makes a packet outgrow its buffer: whatever bytes a peer sends and however they are
  cut, every packet handed over is complete with exactly the announced number of bytes and at most
  two million, and between reads a connection keeps less than a header, or an incomplete packet
  within its announced size.\<close>

theorem packets_stay_in_buffer:
  assumes "sound_framing fr" and "read_all handler fr chunks = (ps, out, fr')"
  shows "sound_framing fr' \<and>
    (\<forall>p \<in> set ps. unat (pk_size p) \<le> 2000000 \<and> length (pk_data p) = unat (pk_size p))"
proof -
  have "sound_framing fr' \<and> (\<forall>p \<in> set ps. bounded_packet p \<and> length (pk_data p) = unat (pk_size p))"
    using assms
  proof (induction chunks arbitrary: fr ps)
    case (Cons c cs)
    obtain qs o1 fr1 where c: "readIncoming handler fr c = (qs, o1, fr1)" by (rule prod_cases3)
    show ?case
    proof (cases "o1 = Continue")
      case True
      then obtain qs' r where "read_all handler fr1 cs = (qs', out, fr')" "ps = qs @ qs'"
        using Cons.prems(2) c by (auto split: prod.splits)
      then show ?thesis using Cons.IH[of fr1 qs'] read_bounded[OF Cons.prems(1) c] by auto
    next
      case False
      then show ?thesis using Cons.prems(2) c read_bounded[OF Cons.prems(1) c] by (cases o1) auto
    qed
  qed simp
  then show ?thesis by (auto simp: bounded_packet_def kMaxReadBuffer_def word_le_nat_alt)
qed

lemma packets_stay_in_buffer_witness:
  "sound_framing initial_framing \<and>
   sound_framing (snd (snd (read_all (\<lambda>p. Go) initial_framing [[0xE3, 4, 0, 0, 0, 0x46, 7], [8]])))"
proof -
  have r: "read_all (\<lambda>p. Go) initial_framing [[0xE3, 4, 0, 0, 0, 0x46, 7], [8]] =
      ([], Continue, \<lparr>fr_header = [], fr_packet = Some \<lparr>pk_prot = 0xE3, pk_opcode = 0x46, pk_size = 3, pk_data = [7, 8]\<rparr>\<rparr>)"
    by code_simp
  have i: "sound_framing initial_framing" by code_simp
  from packets_stay_in_buffer[OF i r] show ?thesis unfolding r snd_conv using i by blast
qed

section \<open>Packing\<close>

lemma unpack_loop_returns:
  assumes "0 < room" "room \<le> cap"
  shows "\<exists>r. unpack_loop uncompress cap bytes room = Some r"
    and "(\<And>n. uncompress n bytes = (if length x \<le> n then Z_OK x else Z_BUF_ERROR)) \<Longrightarrow>
      unpack_loop uncompress cap bytes room = Some (if length x \<le> unat cap then Z_OK x else Z_BUF_ERROR)"
proof -
  let ?next = "of_nat (min (unat room * 2) (unat cap)) :: u32"
  have step: "0 < (of_nat (min (unat r * 2) (unat cap)) :: u32)" "of_nat (min (unat r * 2) (unat cap)) \<le> cap"
    "unat cap - unat (of_nat (min (unat r * 2) (unat cap)) :: u32) < unat cap - unat r"
    if "0 < r" "r < cap" for r :: u32
  proof -
    have u: "unat (of_nat (min (unat r * 2) (unat cap)) :: u32) = min (unat r * 2) (unat cap)"
      by (rule unat_of_nat_small[of _ cap]) simp
    show "0 < (of_nat (min (unat r * 2) (unat cap)) :: u32)" "of_nat (min (unat r * 2) (unat cap)) \<le> cap"
      "unat cap - unat (of_nat (min (unat r * 2) (unat cap)) :: u32) < unat cap - unat r"
      using that unfolding word_less_nat_alt word_le_nat_alt u by auto
  qed
  show "\<exists>r. unpack_loop uncompress cap bytes room = Some r"
    using assms
  proof (induction "unat cap - unat room" arbitrary: room rule: less_induct)
    case less
    show ?case
    proof (cases "cap \<le> room")
      case True
      then show ?thesis by (simp add: unpack_loop.simps[of _ _ _ room] Let_def)
    next
      case False
      then show ?thesis
        using less(1)[OF step(3) step(1) step(2)] less.prems by (simp add: unpack_loop.simps[of _ _ _ room] Let_def not_le)
    qed
  qed
  assume z: "\<And>n. uncompress n bytes = (if length x \<le> n then Z_OK x else Z_BUF_ERROR)"
  show "unpack_loop uncompress cap bytes room = Some (if length x \<le> unat cap then Z_OK x else Z_BUF_ERROR)"
    using assms
  proof (induction "unat cap - unat room" arbitrary: room rule: less_induct)
    case less
    show ?case
    proof (cases "length x \<le> unat room \<or> cap \<le> room")
      case True
      then show ?thesis using less.prems z by (auto simp: unpack_loop.simps[of _ _ _ room] Let_def word_le_nat_alt)
    next
      case False
      then have b: "room < cap" by (simp add: not_le)
      have "unpack_loop uncompress cap bytes (of_nat (min (unat room * 2) (unat cap))) = Some (if length x \<le> unat cap then Z_OK x else Z_BUF_ERROR)"
        by (rule less(1)[OF step(3) step(1) step(2)]) (use less.prems b in auto)
      then show ?thesis using False b z by (simp add: unpack_loop.simps[of _ _ _ room] Let_def)
    qed
  qed
qed

lemma first_room:
  assumes "pk_size p \<le> kMaxReadBuffer" and "0 < cap"
  shows "0 < (if pk_size p * 10 + 300 > cap then cap else pk_size p * 10 + 300)"
    and "(if pk_size p * 10 + 300 > cap then cap else pk_size p * 10 + 300) \<le> cap"
proof -
  have s: "unat (pk_size p) \<le> 2000000" using assms(1) by (simp add: kMaxReadBuffer_def word_le_nat_alt)
  have "unat (pk_size p * 10 + 300) = unat (pk_size p) * 10 + 300"
    using s by (simp add: unat_word_ariths(1) unat_word_ariths(2))
  then have "0 < pk_size p * 10 + 300" by (simp add: word_less_nat_alt)
  then show "0 < (if pk_size p * 10 + 300 > cap then cap else pk_size p * 10 + 300)"
    "(if pk_size p * 10 + 300 > cap then cap else pk_size p * 10 + 300) \<le> cap" using assms(2) by auto
qed

text \<open>Unpacking returns: for every packet the receiving loop lets through, every cap and whatever
  \<open>uncompress\<close> answers, the search for a room that is large enough ends.\<close>

theorem unpacking_returns:
  assumes "pk_size p \<le> kMaxReadBuffer"
  shows "\<exists>r. unPackPacket uncompress cap p = Some r"
proof -
  have "\<exists>r. unpack_loop uncompress cap (pk_data p) (if pk_size p * 10 + 300 > cap then cap else pk_size p * 10 + 300) = Some r"
  proof (cases "cap = 0")
    case True
    then show ?thesis by (simp add: unpack_loop.simps Let_def)
  next
    case False
    then show ?thesis by (intro unpack_loop_returns(1) first_room assms) (simp_all add: word_gt_0)
  qed
  then show ?thesis by (auto simp: unPackPacket_def Let_def split: zlib_result.splits)
qed

text \<open>Unpacking undoes packing, up to the cap of the reader: a packed packet is smaller than the
  packet was, and it is unpacked to the same opcode, size and data if the cap admits the size, while it
  is refused unchanged if not.  An ED2K packet comes back under the eMule protocol byte.\<close>

theorem packed_packet_unpacks:
  assumes "pk_size p \<le> kMaxReadBuffer" and "length (pk_data p) = unat (pk_size p)" and "0 < cap"
    and "pk_prot p \<in> {OP_EDONKEYPROT, OP_EMULEPROT, OP_KADEMLIAHEADER}"
    and "compress2 (unat (pk_size p + 300)) (pk_data p) = Z_OK out" and "length out < unat (pk_size p)"
    and "\<forall>n. uncompress n out = (if length (pk_data p) \<le> n then Z_OK (pk_data p) else Z_BUF_ERROR)"
  shows "pk_size (packPacket compress2 p) < pk_size p \<and>
    unPackPacket uncompress cap (packPacket compress2 p) =
      Some (if pk_size p \<le> cap
            then (True, p\<lparr>pk_prot := if pk_prot p = OP_KADEMLIAHEADER then OP_KADEMLIAHEADER else OP_EMULEPROT\<rparr>)
            else (False, packPacket compress2 p))"
proof -
  have u: "unat (of_nat (length out) :: u32) = length out" by (rule unat_of_nat_small[of _ "pk_size p"]) (use assms(6) in simp)
  have q: "packPacket compress2 p = p\<lparr>pk_prot := (if pk_prot p = OP_KADEMLIAHEADER then OP_KADEMLIAPACKEDPROT else OP_PACKEDPROT),
      pk_data := out, pk_size := of_nat (length out)\<rparr>" using assms(5,6) by (simp add: packPacket_def)
  have l: "pk_size (packPacket compress2 p) < pk_size p" using assms(6) u by (simp add: q word_less_nat_alt)
  then have s: "pk_size (packPacket compress2 p) \<le> kMaxReadBuffer" using assms(1) by simp
  have d: "pk_data (packPacket compress2 p) = out" by (simp add: q)
  have z: "unpack_loop uncompress cap out (if pk_size (packPacket compress2 p) * 10 + 300 > cap then cap
      else pk_size (packPacket compress2 p) * 10 + 300) = Some (if length (pk_data p) \<le> unat cap then Z_OK (pk_data p) else Z_BUF_ERROR)"
    by (intro unpack_loop_returns(2) first_room s assms(3)) (simp_all add: assms(7))
  have "unPackPacket uncompress cap (packPacket compress2 p) =
    (case Some (if length (pk_data p) \<le> unat cap then Z_OK (pk_data p) else Z_BUF_ERROR) of
           None \<Rightarrow> None
         | Some (Z_OK out) \<Rightarrow>
             Some (True, (packPacket compress2 p)\<lparr>pk_size := of_nat (length out), pk_data := out,
               pk_prot := (if pk_prot (packPacket compress2 p) = OP_KADEMLIAPACKEDPROT then OP_KADEMLIAHEADER else OP_EMULEPROT)\<rparr>)
         | Some _ \<Rightarrow> Some (False, packPacket compress2 p))"
    unfolding z[symmetric] unPackPacket_def Let_def d by (rule refl)
  then have "unPackPacket uncompress cap (packPacket compress2 p) =
      Some (if pk_size p \<le> cap
            then (True, p\<lparr>pk_prot := if pk_prot p = OP_KADEMLIAHEADER then OP_KADEMLIAHEADER else OP_EMULEPROT\<rparr>)
            else (False, packPacket compress2 p))"
    using assms(2) by (auto simp: q word_le_nat_alt OP_KADEMLIAPACKEDPROT_def OP_PACKEDPROT_def)
  then show ?thesis using l by blast
qed

text \<open>A codec that knows one packet.\<close>

definition sample_compress :: "nat \<Rightarrow> u8 list \<Rightarrow> zlib_result" where
  "sample_compress n d = (if d = replicate 20 7 \<and> 2 \<le> n then Z_OK [20, 7] else Z_BUF_ERROR)"

definition sample_uncompress :: "nat \<Rightarrow> u8 list \<Rightarrow> zlib_result" where
  "sample_uncompress n d =
     (if d \<noteq> [20, 7] then Z_FAILED else if 20 \<le> n then Z_OK (replicate 20 7) else Z_BUF_ERROR)"

end
