(* ===== verification/Search_Expr.thy ===== *)
theory Search_Expr
  imports Safe_File
begin

text \<open>
  Search expressions and their wire form (src/core/search/SearchExpr.cpp): terms and operators in
  prefix notation, written recursively as the payload an ED2K server or a Kad node reads.  The
  tree that a prefix sequence stands for is the reference of the proofs.
\<close>

section \<open>Terms and operators\<close>

datatype search_operator = And | Or | Not

record search_attr =
  sa_num :: u64
  sa_str :: "u8 list"
  sa_tag :: int
  sa_op :: u32

definition FT_FILENAME :: int where "FT_FILENAME = 0x01"
definition FT_FILESIZE :: int where "FT_FILESIZE = 0x02"
definition FT_FILETYPE :: int where "FT_FILETYPE = 0x03"
definition FT_FILEFORMAT :: int where "FT_FILEFORMAT = 0x04"
definition FT_SOURCES :: int where "FT_SOURCES = 0x15"
definition FT_COMPLETE_SOURCES :: int where "FT_COMPLETE_SOURCES = 0x30"
definition FT_MEDIA_ARTIST :: int where "FT_MEDIA_ARTIST = 0xD0"
definition FT_MEDIA_ALBUM :: int where "FT_MEDIA_ALBUM = 0xD1"
definition FT_MEDIA_TITLE :: int where "FT_MEDIA_TITLE = 0xD2"
definition FT_MEDIA_LENGTH :: int where "FT_MEDIA_LENGTH = 0xD3"
definition FT_MEDIA_BITRATE :: int where "FT_MEDIA_BITRATE = 0xD4"
definition FT_MEDIA_CODEC :: int where "FT_MEDIA_CODEC = 0xD5"
definition FT_FILERATING :: int where "FT_FILERATING = 0xF7"

definition ED2K_SEARCH_OP_EQUAL :: u32 where "ED2K_SEARCH_OP_EQUAL = 0"
definition ED2K_SEARCH_OP_GREATER :: u32 where "ED2K_SEARCH_OP_GREATER = 1"
definition ED2K_SEARCH_OP_LESS :: u32 where "ED2K_SEARCH_OP_LESS = 2"
definition ED2K_SEARCH_OP_GREATER_EQUAL :: u32 where "ED2K_SEARCH_OP_GREATER_EQUAL = 3"
definition ED2K_SEARCH_OP_LESS_EQUAL :: u32 where "ED2K_SEARCH_OP_LESS_EQUAL = 4"
definition ED2K_SEARCH_OP_NOTEQUAL :: u32 where "ED2K_SEARCH_OP_NOTEQUAL = 5"

lemmas ft_defs = FT_FILENAME_def FT_FILESIZE_def FT_FILETYPE_def FT_FILEFORMAT_def FT_SOURCES_def
  FT_COMPLETE_SOURCES_def FT_MEDIA_ARTIST_def FT_MEDIA_ALBUM_def FT_MEDIA_TITLE_def FT_MEDIA_LENGTH_def
  FT_MEDIA_BITRATE_def FT_MEDIA_CODEC_def FT_FILERATING_def
lemmas search_op_defs = ED2K_SEARCH_OP_EQUAL_def ED2K_SEARCH_OP_GREATER_def ED2K_SEARCH_OP_LESS_def
  ED2K_SEARCH_OP_GREATER_EQUAL_def ED2K_SEARCH_OP_LESS_EQUAL_def ED2K_SEARCH_OP_NOTEQUAL_def

text \<open>The three constructors of a term.\<close>

definition term_attr :: "u8 list \<Rightarrow> search_attr" where
  "term_attr str = \<lparr>sa_num = 0, sa_str = str, sa_tag = FT_FILENAME, sa_op = ED2K_SEARCH_OP_EQUAL\<rparr>"

definition number_attr :: "int \<Rightarrow> u32 \<Rightarrow> u64 \<Rightarrow> search_attr" where
  "number_attr tag integerOp num = \<lparr>sa_num = num, sa_str = [], sa_tag = tag, sa_op = integerOp\<rparr>"

definition string_attr :: "int \<Rightarrow> u8 list \<Rightarrow> search_attr" where
  "string_attr tag str = \<lparr>sa_num = 0, sa_str = str, sa_tag = tag, sa_op = ED2K_SEARCH_OP_EQUAL\<rparr>"

text \<open>The operator tokens: the byte 173 and the name.\<close>

fun kSearchOpToken :: "search_operator \<Rightarrow> u8 list" where
  "kSearchOpToken And = [173, 65, 78, 68]"
| "kSearchOpToken Or = [173, 79, 82]"
| "kSearchOpToken Not = [173, 78, 79, 84]"

definition operator_attr :: "search_operator \<Rightarrow> search_attr" where
  "operator_attr op = term_attr (kSearchOpToken op)"

definition isOperatorAttr :: "search_attr \<Rightarrow> bool" where
  "isOperatorAttr a \<longleftrightarrow> sa_str a = kSearchOpToken And \<or> sa_str a = kSearchOpToken Or \<or> sa_str a = kSearchOpToken Not"

section \<open>The payload\<close>

definition appendString :: "u8 list \<Rightarrow> u8 list" where
  "appendString s = writeUInt16 (of_nat (length s)) @ s"

definition appendTagName :: "int \<Rightarrow> u8 list" where
  "appendTagName tag = writeUInt16 1 @ [of_int tag]"

definition UINT32_MAX :: u64 where "UINT32_MAX = 0xFFFFFFFF"

text \<open>A term that is not an operator.\<close>

definition leaf_bytes :: "search_attr \<Rightarrow> u8 list" where
  "leaf_bytes a =
     (if sa_str a \<noteq> [] then
        (if sa_tag a = FT_FILENAME then 0x01 # appendString (sa_str a)
         else 0x02 # appendString (sa_str a) @ appendTagName (sa_tag a))
      else (if sa_num a > UINT32_MAX then 0x08 # writeUInt64 (sa_num a) else 0x03 # writeUInt32 (ucast (sa_num a)))
        @ [ucast (sa_op a)] @ appendTagName (sa_tag a))"

text \<open>Which operator a term stands for, and its byte.\<close>

definition operator_of :: "search_attr \<Rightarrow> search_operator option" where
  "operator_of a =
     (if sa_str a = kSearchOpToken And then Some And
      else if sa_str a = kSearchOpToken Or then Some Or
      else if sa_str a = kSearchOpToken Not then Some Not
      else None)"

fun operator_byte :: "search_operator \<Rightarrow> u8" where
  "operator_byte And = 0x00"
| "operator_byte Or = 0x01"
| "operator_byte Not = 0x02"

text \<open>The terms from the index on; the bytes written and the terms left.\<close>

function serializeNode :: "search_attr list \<Rightarrow> u8 list \<times> search_attr list" where
  "serializeNode [] = ([], [])"
| "serializeNode (a # expr) =
     (case operator_of a of
        Some op \<Rightarrow>
          (let (l, rest) = serializeNode expr; (r, rest') = serializeNode rest
           in (0x00 # operator_byte op # l @ r, rest'))
      | None \<Rightarrow> (leaf_bytes a, expr))"
  by pat_completeness auto

lemma serialize_shrinks: "serializeNode_dom expr \<Longrightarrow> length (snd (serializeNode expr)) \<le> length expr"
proof (induction expr rule: serializeNode.pinduct)
  case (2 a expr)
  show ?case
  proof (cases "operator_of a")
    case None
    then show ?thesis using "2.hyps" by (simp add: serializeNode.psimps)
  next
    case (Some op)
    obtain l rest where l: "serializeNode expr = (l, rest)" by (cases "serializeNode expr")
    obtain r rest' where r: "serializeNode rest = (r, rest')" by (cases "serializeNode rest")
    show ?thesis using "2.hyps" "2.IH"(1)[OF Some] "2.IH"(2)[OF Some l[symmetric] refl] l r Some by (simp add: serializeNode.psimps)
  qed
qed (simp add: serializeNode.psimps)

termination serializeNode
proof (relation "measure length", goal_cases)
  case (3 a expr op x l rest)
  then show ?case using serialize_shrinks[of expr] by (metis in_measure le_imp_less_Suc length_Cons snd_conv)
qed simp_all

definition toBytes :: "search_attr list \<Rightarrow> u8 list" where
  "toBytes expr = fst (serializeNode expr)"

section \<open>The tree behind the sequence\<close>

datatype search_tree = Leaf search_attr | Op search_operator search_tree search_tree

fun flatten :: "search_tree \<Rightarrow> search_attr list" where
  "flatten (Leaf a) = [a]"
| "flatten (Op op l r) = operator_attr op # flatten l @ flatten r"

fun leaves :: "search_tree \<Rightarrow> search_attr list" where
  "leaves (Leaf a) = [a]"
| "leaves (Op op l r) = leaves l @ leaves r"

fun height_of :: "search_tree \<Rightarrow> nat" where
  "height_of (Leaf a) = 0"
| "height_of (Op op l r) = Suc (max (height_of l) (height_of r))"

fun operators_in :: "search_tree \<Rightarrow> nat" where
  "operators_in (Leaf a) = 0"
| "operators_in (Op op l r) = Suc (operators_in l + operators_in r)"

text \<open>What the payload of a tree is, node by node.\<close>

fun tree_bytes :: "search_tree \<Rightarrow> u8 list" where
  "tree_bytes (Leaf a) = leaf_bytes a"
| "tree_bytes (Op op l r) = 0x00 # operator_byte op # tree_bytes l @ tree_bytes r"

text \<open>No term reads like an operator.\<close>

definition unambiguous :: "search_tree \<Rightarrow> bool" where
  "unambiguous t \<longleftrightarrow> (\<forall>a \<in> set (leaves t). \<not> isOperatorAttr a)"

lemma operator_of_operator [simp]: "operator_of (operator_attr op) = Some op"
  by (cases op) (simp_all add: operator_of_def operator_attr_def term_attr_def)

lemma operator_of_leaf: "operator_of a = None \<longleftrightarrow> \<not> isOperatorAttr a"
  by (auto simp: operator_of_def isOperatorAttr_def)

lemma is_operator [simp]: "isOperatorAttr (operator_attr op)"
  by (cases op) (simp_all add: isOperatorAttr_def operator_attr_def term_attr_def)

lemma unambiguous_simps [simp]:
  "unambiguous (Leaf a) \<longleftrightarrow> \<not> isOperatorAttr a"
  "unambiguous (Op op l r) \<longleftrightarrow> unambiguous l \<and> unambiguous r"
  by (auto simp: unambiguous_def)

lemma height_le_operators: "height_of t \<le> operators_in t"
  by (induction t) auto

lemma operators_counted:
  "unambiguous t \<Longrightarrow> count_if isOperatorAttr (flatten t) = operators_in t"
  by (induction t) auto

lemma serialize_flatten: "unambiguous t \<Longrightarrow> serializeNode (flatten t @ rest) = (tree_bytes t, rest)"
  by (induction t arbitrary: rest) (simp_all add: operator_of_leaf[THEN iffD2])

lemma toBytes_flatten: "unambiguous t \<Longrightarrow> toBytes (flatten t) = tree_bytes t"
  using serialize_flatten[of t "[]"] by (simp add: toBytes_def)

end
