(* ===== verification/Search_Scan.thy ===== *)
theory Search_Scan
  imports Search_Expr
begin

text \<open>
  The scanner of the search parser (src/core/search/SearchExprParser.cpp).  The text is the list of
  its UTF-8 bytes from the position on; characters are classified as in ASCII.  Floating point
  numbers and the check of an ED2K link are parameters.  Skipping what is not a token repeats the
  scan, and at a byte 0 it repeats without moving: scanToken returns an option.
\<close>

section \<open>Characters\<close>

definition isKeywordChar :: "u8 \<Rightarrow> bool" where
  "isKeywordChar c \<longleftrightarrow> c \<notin> {32, 34, 40, 41, 60, 62, 61, 0}"

definition isalpha :: "u8 \<Rightarrow> bool" where
  "isalpha c \<longleftrightarrow> (65 \<le> c \<and> c \<le> 90) \<or> (97 \<le> c \<and> c \<le> 122)"

definition isdigit :: "u8 \<Rightarrow> bool" where
  "isdigit c \<longleftrightarrow> 48 \<le> c \<and> c \<le> 57"

definition tolower_byte :: "u8 \<Rightarrow> u8" where
  "tolower_byte c = (if 65 \<le> c \<and> c \<le> 90 then c + 32 else c)"

text \<open>The bytes of an ASCII literal.\<close>

definition ascii :: "string \<Rightarrow> u8 list" where
  "ascii s = map of_char s"

definition prefixMatch :: "u8 list \<Rightarrow> string \<Rightarrow> nat \<Rightarrow> bool" where
  "prefixMatch input match minMatch \<longleftrightarrow> minMatch \<le> length input \<and> length input \<le> length match \<and>
     map tolower_byte input = map tolower_byte (take (length input) (ascii match))"

section \<open>Tokens\<close>

datatype token =
    Tok_String "u8 list" | Tok_And | Tok_Or | Tok_Not
  | OpEq | OpLt | OpLe | OpGt | OpGe | OpNe
  | AtSize | AtType | AtExt | AtSources | AtComplete | AtBitrate | AtLength
  | AtCodec | AtRating | AtTitle | AtAlbum | AtArtist
  | ED2KLink "u8 list" | LParen | RParen | Tok_Eof | Tok_Error

datatype search_error =
    Unterminated_string | Unknown_attribute "u8 list" | Invalid_link
  | Missing_right search_operator | Missing_left search_operator | Missing_expression | Missing_closing
  | Parse_failed | Too_complex | Attribute_syntax token

text \<open>\<open>strtod\<close>, the product of a number and a constant, and \<open>static_cast<uint64>(val + 0.5)\<close>;
  the hash of a file link that parses.\<close>

record 'f scan_env =
  strtod :: "u8 list \<Rightarrow> 'f \<times> u8 list"
  times_const :: "'f \<Rightarrow> nat \<Rightarrow> 'f"
  round_u64 :: "'f \<Rightarrow> u64"
  file_link_hash :: "u8 list \<Rightarrow> u8 list option"

type_synonym scanned = "token \<times> search_error list \<times> u8 list"

definition skipSpaces :: "u8 list \<Rightarrow> u8 list" where
  "skipSpaces s = dropWhile (\<lambda>c. c = 32) s"

fun hex_value :: "u8 \<Rightarrow> u8 option" where
  "hex_value c =
     (if 48 \<le> c \<and> c \<le> 57 then Some (c - 48)
      else if 97 \<le> c \<and> c \<le> 102 then Some (c - 97 + 10)
      else if 65 \<le> c \<and> c \<le> 70 then Some (c - 65 + 10)
      else None)"

text \<open>At most three hexadecimal digits: the value, how many, and the rest.\<close>

fun hex_digits :: "nat \<Rightarrow> u8 \<Rightarrow> u8 list \<Rightarrow> u8 \<times> nat \<times> u8 list" where
  "hex_digits 0 val s = (val, 0, s)"
| "hex_digits (Suc k) val [] = (val, 0, [])"
| "hex_digits (Suc k) val (c # cs) =
     (case hex_value c of
        None \<Rightarrow> (val, 0, c # cs)
      | Some d \<Rightarrow> (let (v, n, r) = hex_digits k (val * 16 + d) cs in (v, Suc n, r)))"

lemma hex_digits_shorter: "length (snd (snd (hex_digits k val s))) \<le> length s"
  by (induction k val s rule: hex_digits.induct) (auto split: option.splits prod.splits)

fun escape_char :: "u8 \<Rightarrow> u8" where
  "escape_char c =
     (if c = 116 then 9 else if c = 110 then 10 else if c = 102 then 12 else if c = 114 then 13
      else if c = 118 then 11 else if c = 97 then 7 else if c = 98 then 8 else c)"

text \<open>The text up to the closing quote, or None where it is not terminated; and the bytes left.\<close>

definition put_char :: "u8 \<Rightarrow> u8 list option \<times> u8 list \<Rightarrow> u8 list option \<times> u8 list" where
  "put_char c r = (map_option (\<lambda>s. c # s) (fst r), snd r)"

function quoted_text :: "u8 list \<Rightarrow> u8 list option \<times> u8 list" where
  "quoted_text [] = (None, [])"
| "quoted_text (c # cs) =
     (if c = 34 then (Some [], cs)
      else if c = 10 then (None, c # cs)
      else if c = 92 then
        (case cs of
           [] \<Rightarrow> (None, [])
         | e # es \<Rightarrow>
             if e = 10 then quoted_text es
             else if e = 120 then
               (let (val, n, r) = hex_digits 3 0 es
                in put_char (if n = 0 then 120 else val) (quoted_text r))
             else put_char (escape_char e) (quoted_text es))
      else put_char c (quoted_text cs))"
  by pat_completeness auto
termination
proof (relation "measure length", goal_cases)
  case (3 c cs e es x val y n r)
  then show ?case using hex_digits_shorter[of 3 0 es] by (metis in_measure le_imp_less_Suc le_SucI length_Cons snd_conv)
qed simp_all

definition keyword_token :: "u8 list \<Rightarrow> token" where
  "keyword_token word =
     (if word = ascii ''AND'' then Tok_And else if word = ascii ''OR'' then Tok_Or
      else if word = ascii ''NOT'' then Tok_Not else Tok_String word)"

definition attribute_token :: "u8 list \<Rightarrow> token option" where
  "attribute_token w =
     (if prefixMatch w ''size'' 3 then Some AtSize
      else if prefixMatch w ''type'' 3 then Some AtType
      else if prefixMatch w ''ext'' 3 then Some AtExt
      else if prefixMatch w ''availability'' 3 \<or> prefixMatch w ''sources'' 3 then Some AtSources
      else if prefixMatch w ''complete'' 3 then Some AtComplete
      else if prefixMatch w ''bitrate'' 3 then Some AtBitrate
      else if prefixMatch w ''length'' 3 then Some AtLength
      else if prefixMatch w ''codec'' 3 then Some AtCodec
      else if prefixMatch w ''rating'' 3 then Some AtRating
      else if prefixMatch w ''title'' 3 then Some AtTitle
      else if prefixMatch w ''album'' 3 then Some AtAlbum
      else if prefixMatch w ''artist'' 3 then Some AtArtist
      else None)"

definition scanAttribute :: "u8 list \<Rightarrow> scanned" where
  "scanAttribute s =
     (let w = takeWhile isalpha s; rest = dropWhile isalpha s
      in case (if w = [] then None else attribute_token w) of
           Some t \<Rightarrow> (t, [], rest)
         | None \<Rightarrow> (Tok_Error, [Unknown_attribute w], rest))"

text \<open>A link goes to its terminator, a space or a byte 0.\<close>

fun link_span :: "u8 list \<Rightarrow> u8 list \<times> u8 list" where
  "link_span [] = ([], [])"
| "link_span (c # cs) =
     (if c = 124 \<and> cs \<noteq> [] \<and> hd cs = 47 then ([c, 47], tl cs)
      else if c = 32 \<or> c = 0 then ([], c # cs)
      else (let (l, r) = link_span cs in (c # l, r)))"

definition hex_digit :: "u8 \<Rightarrow> u8" where
  "hex_digit d = (if d < 10 then 48 + d else 97 + (d - 10))"

definition scanED2KLink :: "'f scan_env \<Rightarrow> u8 list \<Rightarrow> scanned" where
  "scanED2KLink env s =
     (let (link, rest) = link_span s
      in case file_link_hash env link of
           None \<Rightarrow> (Tok_Error, [Invalid_link], rest)
         | Some hash \<Rightarrow>
             (ED2KLink (ascii ''ed2k::'' @ concat (map (\<lambda>b. [hex_digit (drop_bit 4 b AND 15), hex_digit (b AND 15)]) hash)), [], rest))"

definition starts_link :: "u8 list \<Rightarrow> bool" where
  "starts_link s \<longleftrightarrow> 14 \<le> length s \<and> take 13 s = ascii ''ed2k://|file|''"

text \<open>A string token keeps its quotes where the parser asks for them.\<close>

definition string_token :: "bool \<Rightarrow> u8 list \<Rightarrow> token" where
  "string_token keep str = Tok_String (if keep then 34 # str @ [34] else str)"

definition operator_chars :: "u8 list \<Rightarrow> (token \<times> u8 list) option" where
  "operator_chars s =
     (case s of
        [] \<Rightarrow> None
      | c # cs \<Rightarrow>
          if c = 40 then Some (LParen, cs)
          else if c = 41 then Some (RParen, cs)
          else if c = 61 then Some (OpEq, cs)
          else if c = 60 then
            (case cs of
               d # ds \<Rightarrow> if d = 61 then Some (OpLe, ds) else if d = 62 then Some (OpNe, ds) else Some (OpLt, cs)
             | [] \<Rightarrow> Some (OpLt, cs))
          else if c = 62 then
            (case cs of d # ds \<Rightarrow> if d = 61 then Some (OpGe, ds) else Some (OpGt, cs) | [] \<Rightarrow> Some (OpGt, cs))
          else if c = 45 then Some (Tok_Not, cs)
          else None)"

partial_function (option) scanToken :: "'f scan_env \<Rightarrow> bool \<Rightarrow> u8 list \<Rightarrow> scanned option" where
  "scanToken env keep text =
     (let s = skipSpaces text
      in if s = [] then Some (Tok_Eof, [], [])
         else if operator_chars s \<noteq> None then (case the (operator_chars s) of (t, rest) \<Rightarrow> Some (t, [], rest))
         else if hd s = 34 then
           (case quoted_text (tl s) of
              (None, rest) \<Rightarrow> Some (Tok_Error, [Unterminated_string], rest)
            | (Some str, rest) \<Rightarrow> if str = [] then scanToken env keep rest else Some (string_token keep str, [], rest))
         else if hd s = 64 then Some (scanAttribute (tl s))
         else if starts_link s then Some (scanED2KLink env s)
         else (let word = takeWhile isKeywordChar s; rest = dropWhile isKeywordChar s
               in if word = [] then scanToken env keep rest else Some (keyword_token word, [], rest)))"

text \<open>A quoted string as the value of an attribute: its quotes are not kept.\<close>

definition scanQuotedString :: "'f scan_env \<Rightarrow> bool \<Rightarrow> bool \<Rightarrow> u8 list \<Rightarrow> scanned option" where
  "scanQuotedString env keep inStringContext s =
     (case quoted_text (tl s) of
        (None, rest) \<Rightarrow> Some (Tok_Error, [Unterminated_string], rest)
      | (Some str, rest) \<Rightarrow>
          if str = [] then scanToken env keep rest
          else Some (string_token (keep \<and> \<not> inStringContext) str, [], rest))"

section \<open>Values\<close>

text \<open>A value that is missing leaves None and the position behind the spaces.\<close>

definition size_suffix :: "'f scan_env \<Rightarrow> 'f \<Rightarrow> u8 list \<Rightarrow> 'f \<times> u8 list" where
  "size_suffix env val s =
     (case s of
        [] \<Rightarrow> (times_const env val (1024 * 1024), [])
      | c # cs \<Rightarrow>
          if c \<in> {66, 98} then (val, cs)
          else if c \<in> {75, 107} then (times_const env val 1024, cs)
          else if c \<in> {77, 109} then (times_const env val (1024 * 1024), cs)
          else if c \<in> {71, 103} then (times_const env val (1024 * 1024 * 1024), cs)
          else (times_const env val (1024 * 1024), c # cs))"

definition plain_suffix :: "'f scan_env \<Rightarrow> 'f \<Rightarrow> u8 list \<Rightarrow> 'f \<times> u8 list" where
  "plain_suffix env val s =
     (case s of
        [] \<Rightarrow> (val, [])
      | c # cs \<Rightarrow>
          if c = 107 then (times_const env val 1000, cs)
          else if c = 109 then (times_const env val 1000000, cs)
          else if c = 103 then (times_const env val 1000000000, cs)
          else (val, c # cs))"

definition length_suffix :: "'f scan_env \<Rightarrow> 'f \<Rightarrow> u8 list \<Rightarrow> 'f \<times> u8 list" where
  "length_suffix env val s =
     (case s of
        [] \<Rightarrow> (val, [])
      | c # cs \<Rightarrow>
          if c = 115 then (val, cs)
          else if c = 109 then (times_const env val 60, cs)
          else if c = 104 then (times_const env val 3600, cs)
          else (val, c # cs))"

definition scan_number :: "'f scan_env \<Rightarrow> ('f scan_env \<Rightarrow> 'f \<Rightarrow> u8 list \<Rightarrow> 'f \<times> u8 list) \<Rightarrow> u8 list \<Rightarrow> u64 option \<times> u8 list" where
  "scan_number env suffix s =
     (if s = [] \<or> \<not> isdigit (hd s) then (None, s)
      else let (val, rest) = strtod env s; (val', rest') = suffix env val rest in (Some (round_u64 env val'), rest'))"

definition scanSizeNumber :: "'f scan_env \<Rightarrow> u8 list \<Rightarrow> u64 option \<times> u8 list" where
  "scanSizeNumber env s = scan_number env size_suffix (skipSpaces s)"

definition scanPlainNumber :: "'f scan_env \<Rightarrow> u8 list \<Rightarrow> u64 option \<times> u8 list" where
  "scanPlainNumber env s = scan_number env plain_suffix (skipSpaces s)"

text \<open>The value of decimal digits as an unsigned int.\<close>

definition digits_u32 :: "u8 list \<Rightarrow> u32" where
  "digits_u32 ds = foldl (\<lambda>v d. v * 10 + ucast (d - 48)) 0 ds"

definition scanLengthNumber :: "'f scan_env \<Rightarrow> u8 list \<Rightarrow> u64 option \<times> u8 list" where
  "scanLengthNumber env text =
     (let s = skipSpaces text;
          d1 = takeWhile isdigit s; r1 = dropWhile isdigit s;
          d2 = takeWhile isdigit (tl r1); r2 = dropWhile isdigit (tl r1);
          d3 = takeWhile isdigit (tl r2); r3 = dropWhile isdigit (tl r2)
      in if d1 \<noteq> [] \<and> r1 \<noteq> [] \<and> hd r1 = 58 \<and> d2 \<noteq> [] then
           (if r2 \<noteq> [] \<and> hd r2 = 58 \<and> d3 \<noteq> []
            then (Some (ucast (digits_u32 d3 + digits_u32 d2 * 60 + digits_u32 d1 * 3600)), r3)
            else (Some (ucast (digits_u32 d2 + digits_u32 d1 * 60)), r2))
         else scan_number env length_suffix s)"

definition type_value :: "u8 list \<Rightarrow> u8 list option" where
  "type_value w =
     (if prefixMatch w ''audio'' 3 then Some (ascii ''Audio'')
      else if prefixMatch w ''video'' 3 then Some (ascii ''Video'')
      else if prefixMatch w ''image'' 3 \<or> prefixMatch w ''img'' 3 then Some (ascii ''Image'')
      else if prefixMatch w ''document'' 3 then Some (ascii ''Doc'')
      else if prefixMatch w ''program'' 3 then Some (ascii ''Pro'')
      else if prefixMatch w ''archive'' 3 then Some (ascii ''Arc'')
      else if prefixMatch w ''iso'' 3 \<or> prefixMatch w ''cd'' 2 then Some (ascii ''Iso'')
      else None)"

definition scanTypeValue :: "u8 list \<Rightarrow> u8 list option \<times> u8 list" where
  "scanTypeValue text =
     (let s = skipSpaces text; w = takeWhile isalpha s
      in (if w = [] then None else type_value w, dropWhile isalpha s))"

text \<open>The value, and the errors the scanner adds.\<close>

fun token_str :: "token \<Rightarrow> u8 list" where
  "token_str (Tok_String s) = s"
| "token_str (ED2KLink s) = s"
| "token_str t = []"

definition scanStringValue :: "'f scan_env \<Rightarrow> bool \<Rightarrow> u8 list \<Rightarrow> (u8 list option \<times> search_error list \<times> u8 list) option" where
  "scanStringValue env keep text =
     (let s = skipSpaces text
      in if s \<noteq> [] \<and> hd s = 34 then
           (case scanQuotedString env keep True s of
              None \<Rightarrow> None
            | Some (t, errs, rest) \<Rightarrow> Some (if t = Tok_Error then None else Some (token_str t), errs, rest))
         else (let w = takeWhile isKeywordChar s
               in Some (if w = [] then None else Some w, [], dropWhile isKeywordChar s)))"

section \<open>The scanner moves on\<close>

text \<open>What strtod owes where the scanner calls it, on a text that starts with a digit: it takes at least
  this digit, and what it leaves is the rest of the text.  Of any other text nothing is asked.\<close>

definition sound_env :: "'f scan_env \<Rightarrow> bool" where
  "sound_env env \<longleftrightarrow> (\<forall>s. s \<noteq> [] \<and> isdigit (hd s) \<longrightarrow> (\<exists>k \<ge> 1. snd (strtod env s) = drop k s))"

lemma skip_parts: "set (skipSpaces s) \<subseteq> set s" "length (skipSpaces s) \<le> length s" "skipSpaces (skipSpaces s) = skipSpaces s"
  by (auto simp: skipSpaces_def length_dropWhile_le dest: set_dropWhileD)

lemma hex_digits_subset: "set (snd (snd (hex_digits k val s))) \<subseteq> set s"
  by (induction k val s rule: hex_digits.induct) (auto split: option.splits prod.splits)

lemma put_char_simps [simp]:
  "put_char c (None, r) = (None, r)" "put_char c (Some s, r) = (Some (c # s), r)" "snd (put_char c x) = snd x"
  by (simp_all add: put_char_def)

lemma quoted_rest:
  "length (snd (quoted_text s)) \<le> length s \<and> set (snd (quoted_text s)) \<subseteq> set s \<and>
   (fst (quoted_text s) \<noteq> None \<longrightarrow> length (snd (quoted_text s)) < length s)"
proof (induction s rule: quoted_text.induct)
  case (2 c cs)
  show ?case
  proof (cases "c = 34 \<or> c = 10 \<or> c \<noteq> 92 \<or> cs = []")
    case True
    then show ?thesis using "2.IH"(4) by (auto simp: put_char_def split: list.splits)
  next
    case False
    then obtain e es where cs: "cs = e # es" "c = 92" by (cases cs) auto
    obtain val n r where h: "hex_digits 3 0 es = (val, n, r)" by (rule prod_cases3)
    have r: "length r \<le> length es" "set r \<subseteq> set es" using hex_digits_shorter[of 3 0 es] hex_digits_subset[of 3 0 es] h by simp_all
    consider "e = 10" | "e \<noteq> 10" "e = 120" | "e \<noteq> 10" "e \<noteq> 120" by blast
    then show ?thesis
    proof cases
      case 1
      then show ?thesis using "2.IH"(1)[of e es] cs by auto
    next
      case 2
      then show ?thesis using "2.IH"(2)[of e es "(val, n, r)" val "(n, r)" n r] cs h r by (auto simp: put_char_def)
    next
      case 3
      then show ?thesis using "2.IH"(3)[of e es] cs by (auto simp: put_char_def)
    qed
  qed
qed simp

text \<open>How a scan leaves the text: an error is reported, the end leaves nothing, every other token took bytes.\<close>

definition scan_moves :: "u8 list \<Rightarrow> scanned \<Rightarrow> bool" where
  "scan_moves s r \<longleftrightarrow> (case r of (t, errs, rest) \<Rightarrow>
     set rest \<subseteq> set s \<and> length rest \<le> length s \<and>
     (if t = Tok_Eof then errs = [] \<and> rest = []
      else if t = Tok_Error then errs \<noteq> []
      else errs = [] \<and> length rest < length s))"

lemma scan_moves_shorter: "scan_moves s' r \<Longrightarrow> set s' \<subseteq> set s \<Longrightarrow> length s' \<le> length s \<Longrightarrow> scan_moves s r"
  by (cases r) (auto simp: scan_moves_def split: if_splits)

lemma span_rest: "set (dropWhile P s) \<subseteq> set s" "length (dropWhile P s) \<le> length s"
  "takeWhile P s \<noteq> [] \<Longrightarrow> length (dropWhile P s) < length s"
proof -
  show "set (dropWhile P s) \<subseteq> set s" by (auto dest: set_dropWhileD)
  show "length (dropWhile P s) \<le> length s" by (rule length_dropWhile_le)
  assume "takeWhile P s \<noteq> []"
  then have "0 < length (takeWhile P s)" by simp
  moreover have "length (takeWhile P s) + length (dropWhile P s) = length s"
    by (metis length_append takeWhile_dropWhile_id)
  ultimately show "length (dropWhile P s) < length s" by linarith
qed

lemma operator_chars_move: "operator_chars s = Some (t, rest) \<Longrightarrow> scan_moves s (t, [], rest)"
  by (auto simp: operator_chars_def scan_moves_def split: list.splits if_splits)

lemma attribute_token_kind: "attribute_token w = Some t \<Longrightarrow> t \<notin> {Tok_Eof, Tok_Error}"
  by (auto simp: attribute_token_def split: if_splits)

lemma scanAttribute_moves: "scan_moves (c # s) (scanAttribute s)"
  using span_rest[of isalpha s] attribute_token_kind[of "takeWhile isalpha s"]
  by (auto simp: scanAttribute_def scan_moves_def Let_def split: option.splits)

lemma link_span_rest: "length (snd (link_span s)) \<le> length s \<and> set (snd (link_span s)) \<subseteq> set s"
proof (induction s)
  case (Cons c cs)
  then show ?case by (cases cs) (auto split: prod.splits)
qed simp

lemma link_span_moves: "s \<noteq> [] \<Longrightarrow> hd s \<notin> {32, 0} \<Longrightarrow> length (snd (link_span s)) < length s"
  using link_span_rest[of "tl s"] by (cases s) (auto split: prod.splits simp: neq_Nil_conv)

lemma scanED2KLink_moves: "s \<noteq> [] \<Longrightarrow> hd s \<notin> {32, 0} \<Longrightarrow> scan_moves s (scanED2KLink env s)"
  using link_span_rest[of s] link_span_moves[of s]
  by (cases "link_span s") (auto simp: scanED2KLink_def scan_moves_def split: option.splits)

lemma scanToken_moves:
  assumes "0 \<notin> set bytes"
  shows "\<exists>r. scanToken env keep bytes = Some r \<and> scan_moves bytes r"
  using assms
proof (induction "length bytes" arbitrary: bytes rule: less_induct)
  case less
  let ?s = "skipSpaces bytes"
  have s: "set ?s \<subseteq> set bytes" "length ?s \<le> length bytes" using skip_parts by auto
  have nul: "0 \<notin> set ?s" using s(1) less.prems by auto
  have hd32: "?s \<noteq> [] \<Longrightarrow> hd ?s \<noteq> 32" unfolding skipSpaces_def using hd_dropWhile[of "\<lambda>c. c = 32" bytes] by auto
  have "\<exists>r. scanToken env keep bytes = Some r \<and> scan_moves ?s r"
  proof -
    consider (eof) "?s = []" | (sign) t rest where "?s \<noteq> []" "operator_chars ?s = Some (t, rest)"
      | (quote) "?s \<noteq> []" "operator_chars ?s = None" "hd ?s = 34"
      | (attr) "?s \<noteq> []" "operator_chars ?s = None" "hd ?s \<noteq> 34" "hd ?s = 64"
      | (link) "?s \<noteq> []" "operator_chars ?s = None" "hd ?s \<noteq> 34" "hd ?s \<noteq> 64" "starts_link ?s"
      | (word) "?s \<noteq> []" "operator_chars ?s = None" "hd ?s \<noteq> 34" "hd ?s \<noteq> 64" "\<not> starts_link ?s"
      by (cases "operator_chars ?s") auto
    then show ?thesis
    proof cases
      case eof
      then show ?thesis by (simp add: scanToken.simps[of env keep bytes] scan_moves_def)
    next
      case sign
      then show ?thesis using operator_chars_move[OF sign(2)] by (simp add: scanToken.simps[of env keep bytes])
    next
      case quote
      have q: "length (snd (quoted_text (tl ?s))) < length ?s" "set (snd (quoted_text (tl ?s))) \<subseteq> set ?s"
        using quoted_rest[of "tl ?s"] quote(1) by (cases ?s; auto)+
      obtain res rest where r: "quoted_text (tl ?s) = (res, rest)" by (cases "quoted_text (tl ?s)")
      show ?thesis
      proof (cases "res = Some []")
        case True
        have "length rest < length bytes" "0 \<notin> set rest" using q r s nul by auto
        from less.hyps[OF this] obtain x where "scanToken env keep rest = Some x" "scan_moves rest x" by blast
        moreover have "scan_moves ?s x" using calculation(2) q r by (intro scan_moves_shorter[OF calculation(2)]) auto
        ultimately show ?thesis using quote r True by (simp add: scanToken.simps[of env keep bytes])
      next
        case False
        then show ?thesis using quote r q
          by (cases res) (auto simp: scanToken.simps[of env keep bytes] scan_moves_def string_token_def)
      qed
    next
      case attr
      have "scan_moves ?s (scanAttribute (tl ?s))" using scanAttribute_moves[of "hd ?s" "tl ?s"] attr(1) by simp
      then show ?thesis using attr by (simp add: scanToken.simps[of env keep bytes])
    next
      case link
      have "hd ?s \<noteq> 0" using nul link(1) by (metis hd_in_set)
      then show ?thesis using link hd32 scanED2KLink_moves[of ?s env] by (simp add: scanToken.simps[of env keep bytes])
    next
      case word
      have h: "isKeywordChar (hd ?s)"
        using word nul hd32[OF word(1)] hd_in_set[OF word(1)]
        by (cases ?s) (auto simp: isKeywordChar_def operator_chars_def split: if_splits list.splits)
      then have w: "takeWhile isKeywordChar ?s \<noteq> []" using word(1) by (cases ?s) auto
      then show ?thesis using word span_rest[of isKeywordChar ?s]
        by (auto simp: scanToken.simps[of env keep bytes] scan_moves_def keyword_token_def Let_def)
    qed
  qed
  then show ?case using scan_moves_shorter s by blast
qed

end
