(* ===== verification/Search_Parse.thy ===== *)
theory Search_Parse
  imports Search_Scan
begin

text \<open>
  The recursive descent parser of search expressions (class Parser and parseSearchExpression in
  src/core/search/SearchExprParser.cpp).  Every function gives the expression and the parser state
  after it; None stands for a call that does not return, and the fuel counts nested calls.
\<close>

section \<open>State\<close>

record parser =
  m_rest :: "u8 list"
  m_errors :: "search_error list"
  m_current :: token

type_synonym parsed = "(search_attr list \<times> parser) option"

definition kMaxSearchOperators :: nat where "kMaxSearchOperators = 10"

definition advance :: "'f scan_env \<Rightarrow> bool \<Rightarrow> parser \<Rightarrow> parser option" where
  "advance env keep p =
     map_option (\<lambda>(t, errs, rest). \<lparr>m_rest = rest, m_errors = m_errors p @ errs, m_current = t\<rparr>) (scanToken env keep (m_rest p))"

definition addError :: "search_error \<Rightarrow> parser \<Rightarrow> parser" where
  "addError e p = p\<lparr>m_errors := m_errors p @ [e]\<rparr>"

definition addAttrError :: "token \<Rightarrow> parser \<Rightarrow> parser" where
  "addAttrError attr p = (if m_errors p = [] then addError (Attribute_syntax attr) p else p)"

fun readComparisonOp :: "token \<Rightarrow> u32 option" where
  "readComparisonOp OpEq = Some ED2K_SEARCH_OP_EQUAL"
| "readComparisonOp OpGt = Some ED2K_SEARCH_OP_GREATER"
| "readComparisonOp OpLt = Some ED2K_SEARCH_OP_LESS"
| "readComparisonOp OpGe = Some ED2K_SEARCH_OP_GREATER_EQUAL"
| "readComparisonOp OpLe = Some ED2K_SEARCH_OP_LESS_EQUAL"
| "readComparisonOp OpNe = Some ED2K_SEARCH_OP_NOTEQUAL"
| "readComparisonOp t = None"

fun canStartPrimary :: "token \<Rightarrow> bool" where
  "canStartPrimary (Tok_String s) = True"
| "canStartPrimary (ED2KLink s) = True"
| "canStartPrimary t = (t \<in> {AtSize, AtType, AtExt, AtSources, AtComplete, AtBitrate, AtLength, AtCodec, AtRating,
     AtTitle, AtAlbum, AtArtist, LParen})"

section \<open>Attributes\<close>

text \<open>The next token is scanned behind the value.\<close>

definition scan_behind :: "'f scan_env \<Rightarrow> bool \<Rightarrow> search_attr \<Rightarrow> parser \<Rightarrow> parsed" where
  "scan_behind env keep a p = map_option (\<lambda>p'. ([a], p')) (advance env keep p)"

definition number_value :: "'f scan_env \<Rightarrow> bool \<Rightarrow> token \<Rightarrow> int \<Rightarrow> (u8 list \<Rightarrow> u64 option \<times> u8 list) \<Rightarrow> parser \<Rightarrow> parsed" where
  "number_value env keep attr tag scan_num p =
     (case advance env keep p of
        None \<Rightarrow> None
      | Some p1 \<Rightarrow>
          (case readComparisonOp (m_current p1) of
             None \<Rightarrow> Some ([], addAttrError attr p1)
           | Some op \<Rightarrow>
               (case scan_num (m_rest p1) of
                  (None, rest) \<Rightarrow> Some ([], addAttrError attr (p1\<lparr>m_rest := rest\<rparr>))
                | (Some num, rest) \<Rightarrow> scan_behind env keep (number_attr tag op num) (p1\<lparr>m_rest := rest\<rparr>))))"

definition parseNumericAttr :: "'f scan_env \<Rightarrow> bool \<Rightarrow> token \<Rightarrow> int \<Rightarrow> bool \<Rightarrow> parser \<Rightarrow> parsed" where
  "parseNumericAttr env keep attr tag isSizeContext =
     number_value env keep attr tag (if isSizeContext then scanSizeNumber env else scanPlainNumber env)"

definition parseLengthAttr :: "'f scan_env \<Rightarrow> bool \<Rightarrow> parser \<Rightarrow> parsed" where
  "parseLengthAttr env keep = number_value env keep AtLength FT_MEDIA_LENGTH (scanLengthNumber env)"

definition parseStringAttr :: "'f scan_env \<Rightarrow> bool \<Rightarrow> token \<Rightarrow> int \<Rightarrow> parser \<Rightarrow> parsed" where
  "parseStringAttr env keep attr tag p =
     (case advance env keep p of
        None \<Rightarrow> None
      | Some p1 \<Rightarrow>
          if m_current p1 \<noteq> OpEq then Some ([], addAttrError attr p1)
          else
            (case scanStringValue env keep (m_rest p1) of
               None \<Rightarrow> None
             | Some (None, errs, rest) \<Rightarrow> Some ([], addAttrError attr (p1\<lparr>m_rest := rest, m_errors := m_errors p1 @ errs\<rparr>))
             | Some (Some strVal, errs, rest) \<Rightarrow>
                 scan_behind env keep (string_attr tag strVal) (p1\<lparr>m_rest := rest, m_errors := m_errors p1 @ errs\<rparr>)))"

definition parseTypeAttr :: "'f scan_env \<Rightarrow> bool \<Rightarrow> parser \<Rightarrow> parsed" where
  "parseTypeAttr env keep p =
     (case advance env keep p of
        None \<Rightarrow> None
      | Some p1 \<Rightarrow>
          if m_current p1 \<noteq> OpEq then Some ([], addAttrError AtType p1)
          else
            (case scanTypeValue (m_rest p1) of
               (None, rest) \<Rightarrow> Some ([], addAttrError AtType (p1\<lparr>m_rest := rest\<rparr>))
             | (Some typeVal, rest) \<Rightarrow> scan_behind env keep (string_attr FT_FILETYPE typeVal) (p1\<lparr>m_rest := rest\<rparr>)))"

definition parseAttributeExpr :: "'f scan_env \<Rightarrow> bool \<Rightarrow> parser \<Rightarrow> parsed" where
  "parseAttributeExpr env keep p =
     (case m_current p of
        Tok_String s \<Rightarrow> scan_behind env keep (term_attr s) p
      | ED2KLink s \<Rightarrow> scan_behind env keep (term_attr s) p
      | AtSize \<Rightarrow> parseNumericAttr env keep AtSize FT_FILESIZE True p
      | AtSources \<Rightarrow> parseNumericAttr env keep AtSources FT_SOURCES False p
      | AtComplete \<Rightarrow> parseNumericAttr env keep AtComplete FT_COMPLETE_SOURCES False p
      | AtRating \<Rightarrow> parseNumericAttr env keep AtRating FT_FILERATING False p
      | AtBitrate \<Rightarrow> parseNumericAttr env keep AtBitrate FT_MEDIA_BITRATE False p
      | AtLength \<Rightarrow> parseLengthAttr env keep p
      | AtType \<Rightarrow> parseTypeAttr env keep p
      | AtExt \<Rightarrow> parseStringAttr env keep AtExt FT_FILEFORMAT p
      | AtCodec \<Rightarrow> parseStringAttr env keep AtCodec FT_MEDIA_CODEC p
      | AtTitle \<Rightarrow> parseStringAttr env keep AtTitle FT_MEDIA_TITLE p
      | AtAlbum \<Rightarrow> parseStringAttr env keep AtAlbum FT_MEDIA_ALBUM p
      | AtArtist \<Rightarrow> parseStringAttr env keep AtArtist FT_MEDIA_ARTIST p
      | Tok_Error \<Rightarrow> Some ([], p)
      | Tok_Not \<Rightarrow> Some ([], addError (Missing_left Not) p)
      | Tok_And \<Rightarrow> Some ([], addError (Missing_left And) p)
      | Tok_Or \<Rightarrow> Some ([], addError (Missing_left Or) p)
      | _ \<Rightarrow> Some ([], addError Parse_failed p))"

section \<open>Operators\<close>

text \<open>Two expressions under an operator.\<close>

definition combined :: "search_operator \<Rightarrow> search_attr list \<Rightarrow> search_attr list \<Rightarrow> search_attr list" where
  "combined op result right = operator_attr op # result @ right"

text \<open>The right side of an operator whose token was read: it must be able to start, and an error ends the loop.\<close>

definition right_side :: "search_operator \<Rightarrow> (parser \<Rightarrow> parsed) \<Rightarrow> (search_attr list \<Rightarrow> parser \<Rightarrow> parsed)
    \<Rightarrow> search_attr list \<Rightarrow> parser \<Rightarrow> parsed" where
  "right_side op operand loop result p =
     (case operand p of
        None \<Rightarrow> None
      | Some (right, p') \<Rightarrow> if m_errors p' \<noteq> [] then Some (result, p') else loop (combined op result right) p')"

definition explicit_side :: "'f scan_env \<Rightarrow> bool \<Rightarrow> search_operator \<Rightarrow> (parser \<Rightarrow> parsed) \<Rightarrow> (search_attr list \<Rightarrow> parser \<Rightarrow> parsed)
    \<Rightarrow> search_attr list \<Rightarrow> parser \<Rightarrow> parsed" where
  "explicit_side env keep op operand loop result p =
     (case advance env keep p of
        None \<Rightarrow> None
      | Some p1 \<Rightarrow>
          if \<not> canStartPrimary (m_current p1) then Some (result, addError (Missing_right op) p1)
          else right_side op operand loop result p1)"

text \<open>The first operand, and the loop behind it where there was no error.\<close>

definition first_then :: "(parser \<Rightarrow> parsed) \<Rightarrow> (search_attr list \<Rightarrow> parser \<Rightarrow> parsed) \<Rightarrow> parser \<Rightarrow> parsed" where
  "first_then operand loop p =
     (case operand p of
        None \<Rightarrow> None
      | Some (result, p') \<Rightarrow> if m_errors p' \<noteq> [] then Some (result, p') else loop result p')"

text \<open>The three loops, over the function that reads an operand.\<close>

primrec not_loop :: "'f scan_env \<Rightarrow> bool \<Rightarrow> (parser \<Rightarrow> parsed) \<Rightarrow> nat \<Rightarrow> search_attr list \<Rightarrow> parser \<Rightarrow> parsed" where
  "not_loop env keep operand 0 = (\<lambda>result p. None)"
| "not_loop env keep operand (Suc n) = (\<lambda>result p.
     if m_current p = Tok_Not then explicit_side env keep Not operand (not_loop env keep operand n) result p
     else Some (result, p))"

primrec or_loop :: "'f scan_env \<Rightarrow> bool \<Rightarrow> (parser \<Rightarrow> parsed) \<Rightarrow> nat \<Rightarrow> search_attr list \<Rightarrow> parser \<Rightarrow> parsed" where
  "or_loop env keep operand 0 = (\<lambda>result p. None)"
| "or_loop env keep operand (Suc n) = (\<lambda>result p.
     if m_current p = Tok_Or then explicit_side env keep Or operand (or_loop env keep operand n) result p
     else Some (result, p))"

primrec and_loop :: "'f scan_env \<Rightarrow> bool \<Rightarrow> (parser \<Rightarrow> parsed) \<Rightarrow> nat \<Rightarrow> search_attr list \<Rightarrow> parser \<Rightarrow> parsed" where
  "and_loop env keep operand 0 = (\<lambda>result p. None)"
| "and_loop env keep operand (Suc n) = (\<lambda>result p.
     if m_current p = Tok_And then explicit_side env keep And operand (and_loop env keep operand n) result p
     else if \<not> canStartPrimary (m_current p) then Some (result, p)
     else right_side And operand (and_loop env keep operand n) result p)"

text \<open>The grammar, over the function that reads a primary.\<close>

definition parseNotExpr :: "'f scan_env \<Rightarrow> bool \<Rightarrow> (parser \<Rightarrow> parsed) \<Rightarrow> nat \<Rightarrow> parser \<Rightarrow> parsed" where
  "parseNotExpr env keep primary fuel = first_then primary (not_loop env keep primary fuel)"

definition parseOrExpr :: "'f scan_env \<Rightarrow> bool \<Rightarrow> (parser \<Rightarrow> parsed) \<Rightarrow> nat \<Rightarrow> parser \<Rightarrow> parsed" where
  "parseOrExpr env keep primary fuel =
     first_then (parseNotExpr env keep primary fuel) (or_loop env keep (parseNotExpr env keep primary fuel) fuel)"

definition parseAndExpr :: "'f scan_env \<Rightarrow> bool \<Rightarrow> (parser \<Rightarrow> parsed) \<Rightarrow> nat \<Rightarrow> parser \<Rightarrow> parsed" where
  "parseAndExpr env keep primary fuel =
     first_then (parseOrExpr env keep primary fuel) (and_loop env keep (parseOrExpr env keep primary fuel) fuel)"

primrec parsePrimary :: "'f scan_env \<Rightarrow> bool \<Rightarrow> nat \<Rightarrow> parser \<Rightarrow> parsed" where
  "parsePrimary env keep 0 = (\<lambda>p. None)"
| "parsePrimary env keep (Suc n) = (\<lambda>p.
     if m_current p = LParen then
        (case advance env keep p of
           None \<Rightarrow> None
         | Some p1 \<Rightarrow>
             if m_current p1 = RParen \<or> m_current p1 = Tok_Eof then Some ([], addError Missing_expression p1)
             else
               (case parseAndExpr env keep (parsePrimary env keep n) n p1 of
                  None \<Rightarrow> None
                | Some (result, p2) \<Rightarrow>
                    if m_errors p2 \<noteq> [] then Some (result, p2)
                    else if m_current p2 \<noteq> RParen then Some (result, addError Missing_closing p2)
                    else map_option (\<lambda>p3. (result, p3)) (advance env keep p2)))
      else parseAttributeExpr env keep p)"

text \<open>The whole text: the expression and the errors.\<close>

definition operator_count :: "search_attr list \<Rightarrow> nat" where
  "operator_count expr = count_if isOperatorAttr expr"

definition parse_first :: "'f scan_env \<Rightarrow> bool \<Rightarrow> nat \<Rightarrow> parser \<Rightarrow> parsed" where
  "parse_first env keep fuel p =
     (case m_current p of
        ED2KLink s \<Rightarrow> scan_behind env keep (term_attr s) p
      | _ \<Rightarrow> parseAndExpr env keep (parsePrimary env keep fuel) fuel p)"

definition finish_parse :: "search_attr list \<Rightarrow> parser \<Rightarrow> search_attr list \<times> search_error list" where
  "finish_parse expr p1 =
     (let p2 = (if m_current p1 \<noteq> Tok_Eof \<and> m_errors p1 = [] then addError Parse_failed p1 else p1);
          p3 = (if m_errors p2 = [] \<and> operator_count expr > kMaxSearchOperators then addError Too_complex p2 else p2)
      in (expr, m_errors p3))"

definition parse_with :: "'f scan_env \<Rightarrow> bool \<Rightarrow> nat \<Rightarrow> u8 list \<Rightarrow> (search_attr list \<times> search_error list) option" where
  "parse_with env keep fuel input =
     (case advance env keep \<lparr>m_rest = input, m_errors = [], m_current = Tok_Eof\<rparr> of
        None \<Rightarrow> None
      | Some p \<Rightarrow>
          if m_current p = Tok_Eof then Some ([], m_errors p)
          else map_option (\<lambda>(expr, p1). finish_parse expr p1) (parse_first env keep fuel p))"

text \<open>Fuel for every nesting a text of this length can have.\<close>

definition parse_fuel :: "u8 list \<Rightarrow> nat" where
  "parse_fuel input = length input + 2"

definition parseSearchExpression :: "'f scan_env \<Rightarrow> bool \<Rightarrow> u8 list \<Rightarrow> (search_attr list \<times> search_error list) option" where
  "parseSearchExpression env keep input = parse_with env keep (parse_fuel input) input"

end
