(* ===== verification/Search_Total.thy ===== *)
theory Search_Total
  imports Search_Parse
begin

text \<open>
  The search parser returns for every text without a byte 0, whatever the fuel beyond the length of
  the text, and what it returns without an error is the prefix form of one tree.
\<close>

section \<open>The parser moves on\<close>

definition remaining :: "parser \<Rightarrow> nat" where
  "remaining p = length (m_rest p) + (if m_current p = Tok_Eof \<or> m_current p = Tok_Error then 0 else 1)"

definition scanned_well :: "parser \<Rightarrow> bool" where
  "scanned_well p \<longleftrightarrow> 0 \<notin> set (m_rest p) \<and> (m_current p = Tok_Error \<longrightarrow> m_errors p \<noteq> [])"

lemma advance_moves:
  assumes "scanned_well p"
  obtains p' where "advance env keep p = Some p'" "scanned_well p'" "remaining p' \<le> length (m_rest p)"
    "length (m_rest p') \<le> length (m_rest p)" "(m_current p' = Tok_Error \<and> m_errors p' \<noteq> []) \<or> m_errors p' = m_errors p"
proof -
  obtain t errs rest where s: "scanToken env keep (m_rest p) = Some (t, errs, rest)" and m: "scan_moves (m_rest p) (t, errs, rest)"
    using scanToken_moves[of "m_rest p" env keep] assms by (auto simp: scanned_well_def)
  show ?thesis
    by (rule that[of "\<lparr>m_rest = rest, m_errors = m_errors p @ errs, m_current = t\<rparr>"])
      (use s m assms in \<open>auto simp: advance_def scan_moves_def scanned_well_def remaining_def split: if_splits\<close>)
qed

text \<open>A call returned; it ended with an error or took at least one token.\<close>

definition moved :: "nat \<Rightarrow> parsed \<Rightarrow> bool" where
  "moved k r \<longleftrightarrow> (\<exists>e p'. r = Some (e, p') \<and> scanned_well p' \<and> (m_errors p' \<noteq> [] \<or> remaining p' < k))"

lemma movedI: "scanned_well p' \<Longrightarrow> m_errors p' \<noteq> [] \<or> remaining p' < k \<Longrightarrow> moved k (Some (e, p'))"
  by (simp add: moved_def)

lemma scan_behind_moved:
  assumes "scanned_well p" "length (m_rest p) < k"
  shows "moved k (scan_behind env keep a p)"
proof -
  obtain p' where "advance env keep p = Some p'" "scanned_well p'" "remaining p' \<le> length (m_rest p)"
    using advance_moves[OF assms(1), of env keep] by metis
  then show ?thesis using assms(2) by (auto simp: scan_behind_def intro!: movedI)
qed

text \<open>A value leaves an end of the text.\<close>

definition leaves_rest :: "(u8 list \<Rightarrow> 'a \<times> u8 list) \<Rightarrow> bool" where
  "leaves_rest f \<longleftrightarrow> (\<forall>s. set (snd (f s)) \<subseteq> set s \<and> length (snd (f s)) \<le> length s)"

lemma suffix_leaves:
  "leaves_rest (size_suffix env v)" "leaves_rest (plain_suffix env v)" "leaves_rest (length_suffix env v)"
  by (auto simp: leaves_rest_def size_suffix_def plain_suffix_def length_suffix_def split: list.splits)

lemma scan_number_leaves:
  assumes "sound_env env" and "\<And>v. leaves_rest (suffix env v)"
  shows "set (snd (scan_number env suffix s)) \<subseteq> set s" "length (snd (scan_number env suffix s)) \<le> length s"
proof -
  obtain v rest where r: "strtod env s = (v, rest)" by (cases "strtod env s")
  obtain v' rest' where r': "suffix env v rest = (v', rest')" by (cases "suffix env v rest")
  have *: "s \<noteq> [] \<Longrightarrow> isdigit (hd s) \<Longrightarrow> set rest \<subseteq> set s \<and> length rest \<le> length s"
    using assms(1) r unfolding sound_env_def by (metis diff_le_self length_drop set_drop_subset snd_conv)
  have "set rest' \<subseteq> set rest" "length rest' \<le> length rest"
    using assms(2)[of v] r' unfolding leaves_rest_def by (metis snd_conv)+
  then show "set (snd (scan_number env suffix s)) \<subseteq> set s" "length (snd (scan_number env suffix s)) \<le> length s"
    using * r r' by (auto simp: scan_number_def split: if_splits)
qed

lemma tl_rest: "set (tl s) \<subseteq> set s" "length (tl s) \<le> length s"
  by (cases s; auto)+

lemma scan_values_leave:
  assumes "sound_env env"
  shows "leaves_rest (scanSizeNumber env)" "leaves_rest (scanPlainNumber env)" "leaves_rest (scanLengthNumber env)"
    "leaves_rest scanTypeValue"
proof -
  have n: "set (snd (scan_number env size_suffix s)) \<subseteq> set s" "length (snd (scan_number env size_suffix s)) \<le> length s"
    "set (snd (scan_number env plain_suffix s)) \<subseteq> set s" "length (snd (scan_number env plain_suffix s)) \<le> length s"
    "set (snd (scan_number env length_suffix s)) \<subseteq> set s" "length (snd (scan_number env length_suffix s)) \<le> length s" for s
    by (intro scan_number_leaves assms suffix_leaves)+
  show "leaves_rest (scanSizeNumber env)" "leaves_rest (scanPlainNumber env)"
    unfolding leaves_rest_def scanSizeNumber_def scanPlainNumber_def using n(1-4) skip_parts by (meson le_trans subset_trans)+
  show "leaves_rest scanTypeValue"
    unfolding leaves_rest_def scanTypeValue_def Let_def snd_conv using skip_parts span_rest(1,2) by (meson le_trans subset_trans)
  have step: "set (dropWhile isdigit (tl r)) \<subseteq> set s \<and> length (dropWhile isdigit (tl r)) \<le> length s"
    if "set r \<subseteq> set s \<and> length r \<le> length s" for r s :: "u8 list"
    using that span_rest(1,2)[of isdigit "tl r"] tl_rest[of r] by (meson le_trans subset_trans)
  show "leaves_rest (scanLengthNumber env)"
    unfolding leaves_rest_def
  proof
    fix s
    let ?s = "skipSpaces s"
    have "set (dropWhile isdigit ?s) \<subseteq> set s \<and> length (dropWhile isdigit ?s) \<le> length s"
      using skip_parts span_rest(1,2) by (meson le_trans subset_trans)
    from step[OF this] step[OF step[OF this]] n(5,6)[of ?s] skip_parts(1,2)[of s]
    show "set (snd (scanLengthNumber env s)) \<subseteq> set s \<and> length (snd (scanLengthNumber env s)) \<le> length s"
      by (simp add: scanLengthNumber_def Let_def) (meson le_trans subset_trans)
  qed
qed

lemma scanStringValue_moves:
  assumes "0 \<notin> set s0"
  obtains v errs rest where "scanStringValue env keep s0 = Some (v, errs, rest)" "set rest \<subseteq> set s0" "length rest \<le> length s0"
proof -
  let ?s = "skipSpaces s0"
  note sk = skip_parts(1,2)[of s0]
  show ?thesis
  proof (cases "?s \<noteq> [] \<and> hd ?s = 34")
    case True
    obtain res rest where q: "quoted_text (tl ?s) = (res, rest)" by (cases "quoted_text (tl ?s)")
    have r: "set rest \<subseteq> set s0" "length rest \<le> length s0"
      using quoted_rest[of "tl ?s"] q tl_rest[of ?s] sk by auto
    show ?thesis
    proof (cases "res = Some []")
      case e: True
      obtain t errs rest' where "scanToken env keep rest = Some (t, errs, rest')" "scan_moves rest (t, errs, rest')"
        using scanToken_moves[of rest env keep] r assms by auto
      then show ?thesis using that[of "if t = Tok_Error then None else Some (token_str t)" errs rest'] True q e r
        by (auto simp: scanStringValue_def scanQuotedString_def scan_moves_def)
    next
      case False
      then show ?thesis using True q r that
        by (cases res) (auto simp: scanStringValue_def scanQuotedString_def string_token_def)
    qed
  next
    case False
    then show ?thesis using that span_rest(1,2)[of isKeywordChar ?s] sk
      by (auto simp: scanStringValue_def Let_def)
  qed
qed

section \<open>Attributes\<close>

lemma attr_error_moved: "scanned_well p \<Longrightarrow> moved k (Some (e, addAttrError a p))"
  by (auto simp: addAttrError_def addError_def scanned_well_def intro!: movedI)

lemma error_moved: "scanned_well p \<Longrightarrow> moved k (Some (e, addError x p))"
  by (auto simp: addError_def scanned_well_def intro!: movedI)

lemma well_rest: "scanned_well p \<Longrightarrow> set rest \<subseteq> set (m_rest p) \<Longrightarrow> scanned_well (p\<lparr>m_rest := rest\<rparr>)"
  "scanned_well p \<Longrightarrow> set rest \<subseteq> set (m_rest p) \<Longrightarrow> scanned_well (p\<lparr>m_rest := rest, m_errors := m_errors p @ errs\<rparr>)"
  by (auto simp: scanned_well_def)

lemma number_value_moved:
  assumes "scanned_well p" "leaves_rest scan_num" "length (m_rest p) < k"
  shows "moved k (number_value env keep attr tag scan_num p)"
proof -
  obtain p1 where p1: "advance env keep p = Some p1" "scanned_well p1" "length (m_rest p1) \<le> length (m_rest p)"
    using advance_moves[OF assms(1), of env keep] by metis
  obtain v rest where v: "scan_num (m_rest p1) = (v, rest)" by (cases "scan_num (m_rest p1)")
  have r: "set rest \<subseteq> set (m_rest p1)" "length rest \<le> length (m_rest p1)"
    using assms(2) v unfolding leaves_rest_def by (metis snd_conv)+
  note w = well_rest(1)[OF p1(2) r(1)]
  have "length (m_rest (p1\<lparr>m_rest := rest\<rparr>)) < k" using r(2) p1(3) assms(3) by simp
  from scan_behind_moved[OF w this] show ?thesis
    using p1 v attr_error_moved[OF p1(2)] attr_error_moved[OF w]
    by (auto simp: number_value_def split: option.splits)
qed

lemma parseStringAttr_moved:
  assumes "scanned_well p" "length (m_rest p) < k"
  shows "moved k (parseStringAttr env keep attr tag p)"
proof -
  obtain p1 where p1: "advance env keep p = Some p1" "scanned_well p1" "length (m_rest p1) \<le> length (m_rest p)"
    using advance_moves[OF assms(1), of env keep] by metis
  have "0 \<notin> set (m_rest p1)" using p1(2) by (simp add: scanned_well_def)
  then obtain v errs rest where v: "scanStringValue env keep (m_rest p1) = Some (v, errs, rest)"
    "set rest \<subseteq> set (m_rest p1)" "length rest \<le> length (m_rest p1)"
    by (rule scanStringValue_moves[of "m_rest p1" env keep]) auto
  note w = well_rest(2)[OF p1(2) v(2), of errs]
  have "length (m_rest (p1\<lparr>m_rest := rest, m_errors := m_errors p1 @ errs\<rparr>)) < k" using v(3) p1(3) assms(2) by simp
  from scan_behind_moved[OF w this] show ?thesis
    using p1 v attr_error_moved[OF p1(2)] attr_error_moved[OF w]
    by (auto simp: parseStringAttr_def split: option.splits)
qed

lemma parseTypeAttr_moved:
  assumes "sound_env env" "scanned_well p" "length (m_rest p) < k"
  shows "moved k (parseTypeAttr env keep p)"
proof -
  obtain p1 where p1: "advance env keep p = Some p1" "scanned_well p1" "length (m_rest p1) \<le> length (m_rest p)"
    using advance_moves[OF assms(2), of env keep] by metis
  obtain v rest where v: "scanTypeValue (m_rest p1) = (v, rest)" by (cases "scanTypeValue (m_rest p1)")
  have r: "set rest \<subseteq> set (m_rest p1)" "length rest \<le> length (m_rest p1)"
    using scan_values_leave(4)[OF assms(1)] v unfolding leaves_rest_def by (metis snd_conv)+
  note w = well_rest(1)[OF p1(2) r(1)]
  have "length (m_rest (p1\<lparr>m_rest := rest\<rparr>)) < k" using r(2) p1(3) assms(3) by simp
  from scan_behind_moved[OF w this] show ?thesis
    using p1 v attr_error_moved[OF p1(2)] attr_error_moved[OF w]
    by (auto simp: parseTypeAttr_def split: option.splits)
qed

lemma parseAttributeExpr_moved:
  assumes "sound_env env" "scanned_well p"
  shows "moved (remaining p) (parseAttributeExpr env keep p)"
proof (cases "m_current p = Tok_Eof \<or> m_current p = Tok_Error")
  case True
  then show ?thesis using assms(2) error_moved[OF assms(2)]
    by (auto simp: parseAttributeExpr_def scanned_well_def intro!: movedI)
next
  case False
  then have l: "length (m_rest p) < remaining p" by (simp add: remaining_def)
  note v = scan_values_leave[OF assms(1)]
  show ?thesis using False
    by (cases "m_current p")
      (simp_all add: parseAttributeExpr_def parseNumericAttr_def parseLengthAttr_def scan_behind_moved[OF assms(2) l]
        number_value_moved[OF assms(2) _ l] v parseStringAttr_moved[OF assms(2) l] parseTypeAttr_moved[OF assms l]
        error_moved[OF assms(2)])
qed

section \<open>Operators and brackets\<close>

text \<open>A function that reads an operand, from every state with less than a given amount left.\<close>

definition reads_operand :: "nat \<Rightarrow> (parser \<Rightarrow> parsed) \<Rightarrow> bool" where
  "reads_operand n f \<longleftrightarrow> (\<forall>p. scanned_well p \<longrightarrow> remaining p < n \<longrightarrow> moved (remaining p) (f p))"

lemma reads_operandD: "reads_operand n f \<Longrightarrow> scanned_well p \<Longrightarrow> remaining p < n \<Longrightarrow> moved (remaining p) (f p)"
  by (simp add: reads_operand_def)

lemma moved_mono: "moved k r \<Longrightarrow> k \<le> k' \<Longrightarrow> moved k' r"
  by (auto simp: moved_def)

text \<open>What a loop owes: it returns for every state without an error.\<close>

definition loops_from :: "nat \<Rightarrow> (search_attr list \<Rightarrow> parser \<Rightarrow> parsed) \<Rightarrow> bool" where
  "loops_from n f \<longleftrightarrow> (\<forall>result p. scanned_well p \<longrightarrow> m_errors p = [] \<longrightarrow> remaining p < n \<longrightarrow> moved (Suc (remaining p)) (f result p))"

lemma right_side_moved:
  assumes "reads_operand N operand" "loops_from n loop" "scanned_well p" "remaining p < N" "remaining p \<le> n"
  shows "moved (Suc (remaining p)) (right_side op operand loop result p)"
proof -
  obtain e p' where o: "operand p = Some (e, p')" "scanned_well p'" "m_errors p' \<noteq> [] \<or> remaining p' < remaining p"
    using reads_operandD[OF assms(1,3,4)] by (auto simp: moved_def)
  show ?thesis
  proof (cases "m_errors p' = []")
    case True
    then have "moved (Suc (remaining p')) (loop (combined op result e) p')"
      using assms(2,5) o unfolding loops_from_def by fastforce
    then have "moved (Suc (remaining p)) (loop (combined op result e) p')" by (rule moved_mono) (use o True in auto)
    then show ?thesis using o True by (simp add: right_side_def)
  qed (use o in \<open>simp add: right_side_def movedI\<close>)
qed

lemma explicit_side_moved:
  assumes "reads_operand N operand" "loops_from n loop" "scanned_well p" "remaining p < N" "remaining p \<le> n"
    and "m_current p \<noteq> Tok_Eof" "m_current p \<noteq> Tok_Error"
  shows "moved (Suc (remaining p)) (explicit_side env keep op operand loop result p)"
proof -
  obtain p1 where p1: "advance env keep p = Some p1" "scanned_well p1" "remaining p1 \<le> length (m_rest p)"
    using advance_moves[OF assms(3), of env keep] by metis
  have l: "remaining p1 < remaining p" using p1(3) assms(6,7) by (simp add: remaining_def)
  have "moved (Suc (remaining p1)) (right_side op operand loop result p1)"
    by (rule right_side_moved[OF assms(1,2) p1(2)]) (use l assms in auto)
  then have "moved (Suc (remaining p)) (right_side op operand loop result p1)" by (rule moved_mono) (use l in simp)
  then show ?thesis using p1 error_moved[OF p1(2)] by (simp add: explicit_side_def)
qed

lemma loops_return:
  assumes "reads_operand N operand" "n \<le> N"
  shows "loops_from n (not_loop env keep operand n)" "loops_from n (or_loop env keep operand n)" "loops_from n (and_loop env keep operand n)"
proof -
  note stop = movedI[OF _ disjI2[OF lessI]]
  show "loops_from n (not_loop env keep operand n)"
    using assms(2)
  proof (induction n)
    case (Suc n)
    then have IH: "loops_from n (not_loop env keep operand n)" by simp
    show ?case unfolding loops_from_def not_loop.simps
      using Suc.prems by (auto intro!: stop explicit_side_moved[OF assms(1) IH])
  qed (simp add: loops_from_def)
  show "loops_from n (or_loop env keep operand n)"
    using assms(2)
  proof (induction n)
    case (Suc n)
    then have IH: "loops_from n (or_loop env keep operand n)" by simp
    show ?case unfolding loops_from_def or_loop.simps
      using Suc.prems by (auto intro!: stop explicit_side_moved[OF assms(1) IH])
  qed (simp add: loops_from_def)
  show "loops_from n (and_loop env keep operand n)"
    using assms(2)
  proof (induction n)
    case (Suc n)
    then have IH: "loops_from n (and_loop env keep operand n)" by simp
    show ?case unfolding loops_from_def and_loop.simps
      using Suc.prems by (auto intro!: stop explicit_side_moved[OF assms(1) IH] right_side_moved[OF assms(1) IH])
  qed (simp add: loops_from_def)
qed

lemma first_then_reads:
  assumes "reads_operand n operand" "loops_from n loop"
  shows "reads_operand n (first_then operand loop)"
  unfolding reads_operand_def
proof (intro allI impI)
  fix p assume p: "scanned_well p" "remaining p < n"
  obtain e p' where o: "operand p = Some (e, p')" "scanned_well p'" "m_errors p' \<noteq> [] \<or> remaining p' < remaining p"
    using reads_operandD[OF assms(1) p] by (auto simp: moved_def)
  show "moved (remaining p) (first_then operand loop p)"
  proof (cases "m_errors p' = []")
    case True
    then have "moved (Suc (remaining p')) (loop e p')" using assms(2) o p unfolding loops_from_def by fastforce
    then have "moved (remaining p) (loop e p')" by (rule moved_mono) (use o True in auto)
    then show ?thesis using o True by (simp add: first_then_def)
  qed (use o in \<open>simp add: first_then_def movedI\<close>)
qed

lemma parseAndExpr_reads:
  assumes "reads_operand n primary"
  shows "reads_operand n (parseAndExpr env keep primary n)"
proof -
  have n: "reads_operand n (parseNotExpr env keep primary n)"
    unfolding parseNotExpr_def by (rule first_then_reads[OF assms loops_return(1)[OF assms order_refl]])
  have o: "reads_operand n (parseOrExpr env keep primary n)"
    unfolding parseOrExpr_def by (rule first_then_reads[OF n loops_return(2)[OF n order_refl]])
  show ?thesis unfolding parseAndExpr_def by (rule first_then_reads[OF o loops_return(3)[OF o order_refl]])
qed

lemma parsePrimary_reads:
  assumes "sound_env env"
  shows "reads_operand n (parsePrimary env keep n)"
proof (induction n)
  case (Suc n)
  show ?case
    unfolding reads_operand_def
  proof (intro allI impI)
    fix p assume p: "scanned_well p" "remaining p < Suc n"
    show "moved (remaining p) (parsePrimary env keep (Suc n) p)"
    proof (cases "m_current p = LParen")
      case False
      then show ?thesis using parseAttributeExpr_moved[OF assms p(1)] by simp
    next
      case True
      obtain p1 where p1: "advance env keep p = Some p1" "scanned_well p1" "remaining p1 \<le> length (m_rest p)"
        using advance_moves[OF p(1), of env keep] by metis
      have l: "remaining p1 < remaining p" using p1(3) True by (simp add: remaining_def)
      have "moved (remaining p1) (parseAndExpr env keep (parsePrimary env keep n) n p1)"
        by (rule reads_operandD[OF parseAndExpr_reads[OF Suc] p1(2)]) (use l p(2) in simp)
      then obtain e p2 where p2: "parseAndExpr env keep (parsePrimary env keep n) n p1 = Some (e, p2)" "scanned_well p2"
        "m_errors p2 \<noteq> [] \<or> remaining p2 < remaining p1" by (auto simp: moved_def)
      obtain p3 where p3: "advance env keep p2 = Some p3" "scanned_well p3" "remaining p3 \<le> length (m_rest p2)"
        using advance_moves[OF p2(2), of env keep] by metis
      have "remaining p3 \<le> remaining p2" using p3(3) by (simp add: remaining_def)
      then show ?thesis using True p1 p2 p3 l error_moved[OF p1(2)] error_moved[OF p2(2)]
        by (auto intro!: movedI)
    qed
  qed
qed (simp add: reads_operand_def)

section \<open>Fuel\<close>

text \<open>More fuel changes no result.\<close>

definition extends_to :: "('a \<Rightarrow> 'b option) \<Rightarrow> ('a \<Rightarrow> 'b option) \<Rightarrow> bool" where
  "extends_to f g \<longleftrightarrow> (\<forall>x y. f x = Some y \<longrightarrow> g x = Some y)"

lemma extends_refl: "extends_to f f"
  by (simp add: extends_to_def)

lemma right_side_extends:
  assumes "extends_to f f'" "\<And>e. extends_to (l e) (l' e)"
  shows "extends_to (right_side op f l e) (right_side op f' l' e)"
  using assms by (auto simp: extends_to_def right_side_def split: option.splits if_splits)

lemma explicit_side_extends:
  assumes "extends_to f f'" "\<And>e. extends_to (l e) (l' e)"
  shows "extends_to (explicit_side env keep op f l e) (explicit_side env keep op f' l' e)"
proof -
  have "extends_to (right_side op f l e) (right_side op f' l' e)" by (rule right_side_extends[OF assms])
  then show ?thesis by (auto simp: extends_to_def explicit_side_def split: option.splits if_splits)
qed

lemma first_then_extends:
  assumes "extends_to f f'" "\<And>e. extends_to (l e) (l' e)"
  shows "extends_to (first_then f l) (first_then f' l')"
  using assms by (auto simp: extends_to_def first_then_def split: option.splits if_splits)

lemma loops_extend:
  assumes "extends_to f f'"
  shows "extends_to (not_loop env keep f n e) (not_loop env keep f' (Suc n) e)"
    and "extends_to (or_loop env keep f n e) (or_loop env keep f' (Suc n) e)"
    and "extends_to (and_loop env keep f n e) (and_loop env keep f' (Suc n) e)"
proof -
  have not: "\<And>e. extends_to (not_loop env keep f n e) (not_loop env keep f' (Suc n) e)"
  proof (induction n)
    case (Suc n)
    have "extends_to (explicit_side env keep Not f (not_loop env keep f n) e)
        (explicit_side env keep Not f' (not_loop env keep f' (Suc n)) e)" by (rule explicit_side_extends[OF assms Suc])
    then show ?case
      unfolding extends_to_def not_loop.simps(2)[of env keep f n] not_loop.simps(2)[of env keep f' "Suc n"] by (auto split: if_splits)
  qed (simp add: extends_to_def)
  have or: "\<And>e. extends_to (or_loop env keep f n e) (or_loop env keep f' (Suc n) e)"
  proof (induction n)
    case (Suc n)
    have "extends_to (explicit_side env keep Or f (or_loop env keep f n) e)
        (explicit_side env keep Or f' (or_loop env keep f' (Suc n)) e)" by (rule explicit_side_extends[OF assms Suc])
    then show ?case
      unfolding extends_to_def or_loop.simps(2)[of env keep f n] or_loop.simps(2)[of env keep f' "Suc n"] by (auto split: if_splits)
  qed (simp add: extends_to_def)
  have "and": "\<And>e. extends_to (and_loop env keep f n e) (and_loop env keep f' (Suc n) e)"
  proof (induction n)
    case (Suc n)
    have "extends_to (explicit_side env keep And f (and_loop env keep f n) e)
        (explicit_side env keep And f' (and_loop env keep f' (Suc n)) e)" by (rule explicit_side_extends[OF assms Suc])
    moreover have "extends_to (right_side And f (and_loop env keep f n) e) (right_side And f' (and_loop env keep f' (Suc n)) e)"
      by (rule right_side_extends[OF assms Suc])
    ultimately show ?case
      unfolding extends_to_def and_loop.simps(2)[of env keep f n] and_loop.simps(2)[of env keep f' "Suc n"] by (auto split: if_splits)
  qed (simp add: extends_to_def)
  show "extends_to (not_loop env keep f n e) (not_loop env keep f' (Suc n) e)"
    "extends_to (or_loop env keep f n e) (or_loop env keep f' (Suc n) e)"
    "extends_to (and_loop env keep f n e) (and_loop env keep f' (Suc n) e)" by (rule not or "and")+
qed

lemma parseAndExpr_extends:
  assumes "extends_to f f'"
  shows "extends_to (parseAndExpr env keep f n) (parseAndExpr env keep f' (Suc n))"
proof -
  have n: "extends_to (parseNotExpr env keep f n) (parseNotExpr env keep f' (Suc n))"
    unfolding parseNotExpr_def by (intro first_then_extends loops_extend assms)
  have o: "extends_to (parseOrExpr env keep f n) (parseOrExpr env keep f' (Suc n))"
    unfolding parseOrExpr_def by (intro first_then_extends loops_extend n)
  show ?thesis unfolding parseAndExpr_def by (intro first_then_extends loops_extend o)
qed

lemma parsePrimary_extends: "extends_to (parsePrimary env keep n) (parsePrimary env keep (Suc n))"
proof (induction n)
  case (Suc n)
  have "extends_to (parseAndExpr env keep (parsePrimary env keep n) n) (parseAndExpr env keep (parsePrimary env keep (Suc n)) (Suc n))"
    by (rule parseAndExpr_extends[OF Suc])
  then show ?case
    unfolding extends_to_def parsePrimary.simps(2)[of env keep n] parsePrimary.simps(2)[of env keep "Suc n"]
    by (auto split: option.splits if_splits)
qed (simp add: extends_to_def)

lemma parse_with_extends:
  assumes "parse_with env keep n input = Some r"
  shows "parse_with env keep (Suc n) input = Some r"
proof -
  have "extends_to (parseAndExpr env keep (parsePrimary env keep n) n) (parseAndExpr env keep (parsePrimary env keep (Suc n)) (Suc n))"
    by (rule parseAndExpr_extends[OF parsePrimary_extends])
  then have f: "extends_to (parse_first env keep n) (parse_first env keep (Suc n))"
    unfolding extends_to_def parse_first_def by (simp split: token.split del: parsePrimary.simps)
  show ?thesis
  proof (cases "advance env keep \<lparr>m_rest = input, m_errors = [], m_current = Tok_Eof\<rparr>")
    case (Some p)
    then show ?thesis using f assms
      by (cases "parse_first env keep n p") (auto simp: parse_with_def extends_to_def)
  qed (use assms in \<open>simp add: parse_with_def\<close>)
qed

lemma parse_with_returns:
  assumes "sound_env env" "0 \<notin> set input" "parse_fuel input \<le> n"
  shows "\<exists>r. parse_with env keep n input = Some r"
proof -
  let ?p0 = "\<lparr>m_rest = input, m_errors = [], m_current = Tok_Eof\<rparr>"
  have "scanned_well ?p0" using assms(2) by (simp add: scanned_well_def)
  then obtain p where p: "advance env keep ?p0 = Some p" "scanned_well p" "remaining p \<le> length input"
    using advance_moves[of ?p0 env keep] by (metis select_convs(1))
  have "moved (remaining p) (parseAndExpr env keep (parsePrimary env keep n) n p)"
    by (rule reads_operandD[OF parseAndExpr_reads[OF parsePrimary_reads[OF assms(1)]] p(2)]) (use p(3) assms(3) in \<open>simp add: parse_fuel_def\<close>)
  then have a: "\<exists>r. parseAndExpr env keep (parsePrimary env keep n) n p = Some r" by (auto simp: moved_def)
  have "moved (Suc (length (m_rest p))) (scan_behind env keep a p)" for a by (rule scan_behind_moved[OF p(2)]) simp
  then have b: "\<exists>r. scan_behind env keep a p = Some r" for a unfolding moved_def by blast
  have "\<exists>r. parse_first env keep n p = Some r"
    unfolding parse_first_def using a b by (auto split: token.split)
  then show ?thesis using p(1) by (auto simp: parse_with_def split: prod.splits)
qed

lemma parse_fuel_enough:
  assumes "sound_env env" "0 \<notin> set input" "parse_fuel input \<le> n"
  shows "parse_with env keep n input = parseSearchExpression env keep input"
proof -
  obtain r where r: "parse_with env keep (parse_fuel input) input = Some r"
    using parse_with_returns[OF assms(1,2) order_refl] by blast
  have "parse_with env keep n input = Some r" using assms(3)
    by (induction n rule: dec_induct) (simp_all add: r parse_with_extends)
  then show ?thesis using r by (simp add: parseSearchExpression_def)
qed

text \<open>C22. The search parser returns for every text without a byte 0: whatever the brackets, operators,
  quotes, attributes and errors in it, the scanner always comes to a next token and the nested calls
  come to an end.  The fuel of the model only has to be the length of the text and two; any more gives
  the same expression and errors.\<close>

theorem search_parser_returns:
  assumes "sound_env env" and "0 \<notin> set input" and "parse_fuel input \<le> n"
  shows "\<exists>expr errors. parseSearchExpression env keep input = Some (expr, errors) \<and> parse_with env keep n input = Some (expr, errors)"
  using parse_with_returns[OF assms] parse_fuel_enough[OF assms] by auto

text \<open>Numbers as naturals in decimal digits.\<close>

definition sample_strtod :: "u8 list \<Rightarrow> nat \<times> u8 list" where
  "sample_strtod s = (foldl (\<lambda>v d. v * 10 + unat (d - 48)) 0 (takeWhile isdigit s),
     dropWhile isdigit s)"

definition sample_scan_env :: "nat scan_env" where
  "sample_scan_env = \<lparr>strtod = sample_strtod, times_const = (*), round_u64 = of_nat, file_link_hash = (\<lambda>l. None)\<rparr>"

lemma sample_env_sound: "sound_env sample_scan_env"
  unfolding sound_env_def
proof (intro allI impI)
  fix s :: "u8 list" assume "s \<noteq> [] \<and> isdigit (hd s)"
  then have "takeWhile isdigit s \<noteq> []" by (cases s) simp_all
  then show "\<exists>k \<ge> 1. snd (strtod sample_scan_env s) = drop k s"
    by (intro exI[of _ "length (takeWhile isdigit s)"])
      (auto simp: sample_scan_env_def sample_strtod_def dropWhile_eq_drop Suc_le_eq)
qed

lemma search_parser_returns_witness:
  "\<exists>expr errors. parseSearchExpression sample_scan_env False (ascii ''a (b OR @size>5)'') = Some (expr, errors) \<and>
     parse_with sample_scan_env False 40 (ascii ''a (b OR @size>5)'') = Some (expr, errors)"
  by (rule search_parser_returns[OF sample_env_sound]) (simp_all add: ascii_def parse_fuel_def)

section \<open>A byte 0\<close>

text \<open>At a byte 0 the scanner asks itself for the next token without moving.\<close>

lemma scanToken_stuck:
  assumes "scanToken env keep s = Some r"
  shows "skipSpaces s = [] \<or> hd (skipSpaces s) \<noteq> 0"
proof (rule ccontr)
  assume "\<not> ?thesis"
  then obtain rest where z: "skipSpaces s = 0 # rest" by (cases "skipSpaces s") auto
  have "skipSpaces s \<noteq> 0 # rest"
  proof (rule scanToken.raw_induct[where P = "\<lambda>env keep s r. skipSpaces s \<noteq> 0 # rest", OF _ assms])
    fix f :: "'a scan_env \<Rightarrow> bool \<Rightarrow> u8 list \<Rightarrow> scanned option" and env keep s y
    assume IH: "\<And>env keep s y. f env keep s = Some y \<Longrightarrow> skipSpaces s \<noteq> 0 # rest"
      and body: "(let s = skipSpaces s
      in if s = [] then Some (Tok_Eof, [], [])
         else if operator_chars s \<noteq> None then (case the (operator_chars s) of (t, rest) \<Rightarrow> Some (t, [], rest))
         else if hd s = 34 then
           (case quoted_text (tl s) of
              (None, rest) \<Rightarrow> Some (Tok_Error, [Unterminated_string], rest)
            | (Some str, rest) \<Rightarrow> if str = [] then f env keep rest else Some (string_token keep str, [], rest))
         else if hd s = 64 then Some (scanAttribute (tl s))
         else if starts_link s then Some (scanED2KLink env s)
         else (let word = takeWhile isKeywordChar s; rest = dropWhile isKeywordChar s
               in if word = [] then f env keep rest else Some (keyword_token word, [], rest))) = Some y"
    show "skipSpaces s \<noteq> 0 # rest"
    proof
      assume z: "skipSpaces s = 0 # rest"
      have "operator_chars (0 # rest) = None" by (simp add: operator_chars_def)
      moreover have "\<not> starts_link (0 # rest)" by (simp add: starts_link_def ascii_def)
      ultimately have "f env keep (0 # rest) = Some y" using body z by (simp add: isKeywordChar_def)
      moreover have "skipSpaces (0 # rest) = 0 # rest" by (simp add: skipSpaces_def)
      ultimately show False using IH by blast
    qed
  qed
  then show False using z by simp
qed

text \<open>C40. A text whose first byte behind the spaces is 0 is never parsed: the scanner skips what is not a
  token by scanning again, and at a byte 0 it has skipped nothing, so the calls nest without end.\<close>

theorem nul_never_returns:
  "parse_with env keep n (replicate k 32 @ 0 # rest) = None"
proof -
  have s: "skipSpaces (replicate k 32 @ 0 # rest) = 0 # rest" by (induction k) (simp_all add: skipSpaces_def)
  have "scanToken env keep (replicate k 32 @ 0 # rest) = None"
    using scanToken_stuck[of env keep "replicate k 32 @ 0 # rest"] s by (cases "scanToken env keep (replicate k 32 @ 0 # rest)") auto
  then show ?thesis by (simp add: parse_with_def advance_def)
qed

end
