(* ===== verification/Search_Trees.thy ===== *)
theory Search_Trees
  imports Search_Total
begin

text \<open>
  A search text that parses without an error stands for one tree of at most ten operators, and the
  two ways in which the sequence of terms can miss what the user wrote.
\<close>

lemma operators_bound: "operators_in t \<le> count_if isOperatorAttr (flatten t)"
  by (induction t) auto

section \<open>Every result is the prefix form of a tree\<close>

definition parsed_leaf :: "search_attr \<Rightarrow> bool" where
  "parsed_leaf a \<longleftrightarrow> sa_op a \<le> 5 \<and> 0 < sa_tag a \<and> sa_tag a < 256"

definition is_prefix_form :: "search_attr list \<Rightarrow> bool" where
  "is_prefix_form expr \<longleftrightarrow> (\<exists>t. expr = flatten t \<and> (\<forall>a \<in> set (leaves t). parsed_leaf a))"

text \<open>An error token never comes without a reported error.\<close>

definition error_seen :: "parser \<Rightarrow> bool" where
  "error_seen p \<longleftrightarrow> (m_current p = Tok_Error \<longrightarrow> m_errors p \<noteq> [])"

lemma scan_error_reported:
  assumes "scanToken env keep s = Some r"
  shows "fst r = Tok_Error \<longrightarrow> fst (snd r) \<noteq> []"
proof (rule scanToken.raw_induct[where P = "\<lambda>env keep s r. fst r = Tok_Error \<longrightarrow> fst (snd r) \<noteq> []", OF _ assms])
  fix f :: "'a scan_env \<Rightarrow> bool \<Rightarrow> u8 list \<Rightarrow> scanned option" and env :: "'a scan_env" and keep s y
  assume IH: "\<And>env keep s y. f env keep s = Some y \<Longrightarrow> fst y = Tok_Error \<longrightarrow> fst (snd y) \<noteq> []"
    and body: "(let s = skipSpaces s
    in if s = [] then Some (Tok_Eof, [], [])
       else if operator_chars s \<noteq> None then (case the (operator_chars s) of (t, rest) \<Rightarrow> Some (t, [], rest))
       else if hd s = 34 then
         (case quoted_text (tl s) of
            (None, rest) \<Rightarrow> Some (Tok_Error, [Unterminated_string], rest)
          | (Some str, rest) \<Rightarrow> if str = [] then f env keep rest else Some (string_token keep str, [], rest))
       else if hd s = 64 then Some (scanAttribute (tl s))
       else if starts_link s then Some (scanED2KLink env s)
       else (let word = takeWhile isKeywordChar s; rest = dropWhile isKeywordChar s
             in if word = [] then f env keep rest else Some (keyword_token word, [], rest))) = Some y"
  have o: "operator_chars (skipSpaces s) = Some (t, rest) \<Longrightarrow> t \<noteq> Tok_Error" for t rest
    by (auto simp: operator_chars_def split: list.splits if_splits)
  have a: "fst (scanAttribute x) = Tok_Error \<longrightarrow> fst (snd (scanAttribute x)) \<noteq> []" for x
    using attribute_token_kind[of "takeWhile isalpha x"] by (auto simp: scanAttribute_def Let_def split: option.splits)
  have l: "fst (scanED2KLink env x) = Tok_Error \<longrightarrow> fst (snd (scanED2KLink env x)) \<noteq> []" for x
    by (cases "link_span x") (auto simp: scanED2KLink_def split: option.splits)
  show "fst y = Tok_Error \<longrightarrow> fst (snd y) \<noteq> []"
    using body IH o a l
    by (auto simp: Let_def keyword_token_def string_token_def split: if_splits option.splits prod.splits)
qed

lemma advance_seen: "advance env keep p = Some p' \<Longrightarrow> error_seen p'"
  using scan_error_reported[of env keep "m_rest p"] by (auto simp: advance_def error_seen_def)

definition gives_trees :: "(parser \<Rightarrow> parsed) \<Rightarrow> bool" where
  "gives_trees f \<longleftrightarrow> (\<forall>p e p'. error_seen p \<longrightarrow> f p = Some (e, p') \<longrightarrow>
     error_seen p' \<and> (m_errors p' = [] \<longrightarrow> is_prefix_form e))"

lemma gives_treesD: "gives_trees f \<Longrightarrow> error_seen p \<Longrightarrow> f p = Some (e, p') \<Longrightarrow> error_seen p' \<and> (m_errors p' = [] \<longrightarrow> is_prefix_form e)"
  unfolding gives_trees_def by blast

definition keeps_trees :: "(search_attr list \<Rightarrow> parser \<Rightarrow> parsed) \<Rightarrow> bool" where
  "keeps_trees l \<longleftrightarrow> (\<forall>e. is_prefix_form e \<longrightarrow> gives_trees (l e))"

lemma leaf_is_tree: "parsed_leaf a \<Longrightarrow> is_prefix_form [a]"
  unfolding is_prefix_form_def by (intro exI[of _ "Leaf a"]) simp

lemma combined_is_tree: "is_prefix_form e \<Longrightarrow> is_prefix_form e' \<Longrightarrow> is_prefix_form (combined op e e')"
  unfolding is_prefix_form_def combined_def
proof clarify
  fix t t' assume "\<forall>a \<in> set (leaves t). parsed_leaf a" "\<forall>a \<in> set (leaves t'). parsed_leaf a"
  then show "\<exists>u. operator_attr op # flatten t @ flatten t' = flatten u \<and> (\<forall>a \<in> set (leaves u). parsed_leaf a)"
    by (intro exI[of _ "Op op t t'"]) auto
qed

lemma error_kept [simp]: "m_errors (addAttrError a p) \<noteq> []" "m_errors (addError x p) \<noteq> []"
  by (simp_all add: addAttrError_def addError_def)

lemma error_seen_add [simp]: "error_seen (addAttrError a p)" "error_seen (addError x p)"
  by (simp_all add: error_seen_def)

lemma scan_behind_tree: "scan_behind env keep a p = Some (e, p') \<Longrightarrow> error_seen p' \<and> (parsed_leaf a \<longrightarrow> is_prefix_form e)"
  by (auto simp: scan_behind_def leaf_is_tree advance_seen)

lemma comparison_code: "readComparisonOp t = Some op \<Longrightarrow> op \<le> 5"
  by (cases t) (auto simp: search_op_defs)

lemma attrs_parsed [simp]:
  "parsed_leaf (term_attr s)" "0 < tag \<Longrightarrow> tag < 256 \<Longrightarrow> parsed_leaf (string_attr tag s)"
  "op \<le> 5 \<Longrightarrow> 0 < tag \<Longrightarrow> tag < 256 \<Longrightarrow> parsed_leaf (number_attr tag op num)"
  by (simp_all add: parsed_leaf_def term_attr_def string_attr_def number_attr_def FT_FILENAME_def search_op_defs)

lemma number_value_tree:
  "0 < tag \<Longrightarrow> tag < 256 \<Longrightarrow> gives_trees (number_value env keep attr tag scan_num)"
  by (auto simp: gives_trees_def number_value_def comparison_code split: option.splits prod.splits dest!: scan_behind_tree)

lemma parseStringAttr_tree: "0 < tag \<Longrightarrow> tag < 256 \<Longrightarrow> gives_trees (parseStringAttr env keep attr tag)"
  by (auto simp: gives_trees_def parseStringAttr_def split: option.splits prod.splits if_splits dest!: scan_behind_tree)

lemma parseTypeAttr_tree: "gives_trees (parseTypeAttr env keep)"
  by (auto simp: gives_trees_def parseTypeAttr_def FT_FILETYPE_def split: option.splits prod.splits if_splits dest!: scan_behind_tree)

lemma parseAttributeExpr_tree: "gives_trees (parseAttributeExpr env keep)"
  unfolding gives_trees_def
proof (intro allI impI)
  fix p e p' assume p: "error_seen p" "parseAttributeExpr env keep p = Some (e, p')"
  let ?ok = "error_seen p' \<and> (m_errors p' = [] \<longrightarrow> is_prefix_form e)"
  have n: ?ok if "number_value env keep attr tag f p = Some (e, p')" "0 < tag" "tag < 256" for attr tag f
    by (rule gives_treesD[OF number_value_tree[OF that(2,3)] p(1) that(1)])
  have s: ?ok if "parseStringAttr env keep attr tag p = Some (e, p')" "0 < tag" "tag < 256" for attr tag
    by (rule gives_treesD[OF parseStringAttr_tree[OF that(2,3)] p(1) that(1)])
  have t: ?ok if "parseTypeAttr env keep p = Some (e, p')"
    by (rule gives_treesD[OF parseTypeAttr_tree p(1) that])
  have b: ?ok if "scan_behind env keep (term_attr w) p = Some (e, p')" for w
    using scan_behind_tree[OF that] by simp
  show ?ok
  proof (cases "m_current p")
    case Tok_Error
    then show ?thesis using p by (simp add: parseAttributeExpr_def error_seen_def)
  qed (use p(2) in \<open>auto simp: parseAttributeExpr_def parseNumericAttr_def parseLengthAttr_def ft_defs dest: n s t b\<close>)
qed

lemma gives_treesI:
  "(\<And>p e p'. error_seen p \<Longrightarrow> f p = Some (e, p') \<Longrightarrow> error_seen p' \<and> (m_errors p' = [] \<longrightarrow> is_prefix_form e)) \<Longrightarrow> gives_trees f"
  unfolding gives_trees_def by blast

lemma keeps_treesD: "keeps_trees l \<Longrightarrow> is_prefix_form e \<Longrightarrow> gives_trees (l e)"
  unfolding keeps_trees_def by blast

lemma right_side_tree:
  assumes "gives_trees f" "keeps_trees l" "is_prefix_form e0"
  shows "gives_trees (right_side op f l e0)"
proof (rule gives_treesI)
  fix p e p' assume p: "error_seen p" "right_side op f l e0 p = Some (e, p')"
  then obtain right p1 where f: "f p = Some (right, p1)" by (auto simp: right_side_def split: option.splits)
  note o = gives_treesD[OF assms(1) p(1) f]
  show "error_seen p' \<and> (m_errors p' = [] \<longrightarrow> is_prefix_form e)"
  proof (cases "m_errors p1 = []")
    case True
    then have "l (combined op e0 right) p1 = Some (e, p')" using p(2) f by (simp add: right_side_def)
    then show ?thesis
      using gives_treesD[OF keeps_treesD[OF assms(2) combined_is_tree[OF assms(3)]]] o True by blast
  next
    case False
    then show ?thesis using p(2) f o by (simp add: right_side_def)
  qed
qed

lemma explicit_side_tree:
  assumes "gives_trees f" "keeps_trees l" "is_prefix_form e0"
  shows "gives_trees (explicit_side env keep op f l e0)"
proof (rule gives_treesI)
  fix p e p' assume p: "error_seen p" "explicit_side env keep op f l e0 p = Some (e, p')"
  then obtain p1 where a: "advance env keep p = Some p1" by (auto simp: explicit_side_def split: option.splits)
  show "error_seen p' \<and> (m_errors p' = [] \<longrightarrow> is_prefix_form e)"
  proof (cases "canStartPrimary (m_current p1)")
    case True
    then have "right_side op f l e0 p1 = Some (e, p')" using p(2) a by (simp add: explicit_side_def)
    then show ?thesis by (rule gives_treesD[OF right_side_tree[OF assms] advance_seen[OF a]])
  next
    case False
    then show ?thesis using p(2) a by (auto simp: explicit_side_def)
  qed
qed

lemma first_then_tree:
  assumes "gives_trees f" "keeps_trees l"
  shows "gives_trees (first_then f l)"
proof (rule gives_treesI)
  fix p e p' assume p: "error_seen p" "first_then f l p = Some (e, p')"
  then obtain e1 p1 where f: "f p = Some (e1, p1)" by (auto simp: first_then_def split: option.splits)
  note o = gives_treesD[OF assms(1) p(1) f]
  show "error_seen p' \<and> (m_errors p' = [] \<longrightarrow> is_prefix_form e)"
  proof (cases "m_errors p1 = []")
    case True
    then have "l e1 p1 = Some (e, p')" using p(2) f by (simp add: first_then_def)
    then show ?thesis using gives_treesD[OF keeps_treesD[OF assms(2)]] o True by blast
  next
    case False
    then show ?thesis using p(2) f o by (simp add: first_then_def)
  qed
qed

lemma choice_tree:
  assumes "gives_trees g" "gives_trees h" "is_prefix_form e"
  shows "gives_trees (\<lambda>p. if c p then g p else if d p then Some (e, p) else h p)"
proof (rule gives_treesI)
  fix p e' p' assume p: "error_seen p" "(if c p then g p else if d p then Some (e, p) else h p) = Some (e', p')"
  consider "c p" | "\<not> c p" "d p" | "\<not> c p" "\<not> d p" by blast
  then show "error_seen p' \<and> (m_errors p' = [] \<longrightarrow> is_prefix_form e')"
    by cases (use p assms(3) gives_treesD[OF assms(1) p(1)] gives_treesD[OF assms(2) p(1)] in auto)
qed

lemma nothing_tree: "gives_trees (\<lambda>p. None)" "keeps_trees (\<lambda>e p. None)"
  by (simp_all add: keeps_trees_def gives_trees_def)

lemma loops_tree:
  assumes "gives_trees f"
  shows "keeps_trees (not_loop env keep f n)" "keeps_trees (or_loop env keep f n)" "keeps_trees (and_loop env keep f n)"
proof -
  note side = explicit_side_tree[OF assms]
  have stop: "gives_trees (\<lambda>p. if c p then g p else Some (e, p))" if "gives_trees g" "is_prefix_form e" for c g e
    using choice_tree[OF that(1) nothing_tree(1) that(2), of c "\<lambda>p. True"] by (simp cong: if_cong)
  show "keeps_trees (not_loop env keep f n)"
    by (induction n) (simp_all add: nothing_tree, auto simp: keeps_trees_def intro!: stop side[unfolded keeps_trees_def])
  show "keeps_trees (or_loop env keep f n)"
    by (induction n) (simp_all add: nothing_tree, auto simp: keeps_trees_def intro!: stop side[unfolded keeps_trees_def])
  show "keeps_trees (and_loop env keep f n)"
    by (induction n) (simp_all add: nothing_tree, auto simp: keeps_trees_def
        intro!: choice_tree side[unfolded keeps_trees_def] right_side_tree[OF assms, unfolded keeps_trees_def])
qed

lemma parseAndExpr_tree: "gives_trees f \<Longrightarrow> gives_trees (parseAndExpr env keep f n)"
  unfolding parseAndExpr_def parseOrExpr_def parseNotExpr_def by (intro first_then_tree loops_tree)

lemma parsePrimary_tree: "gives_trees (parsePrimary env keep n)"
proof (induction n)
  case (Suc n)
  note IH = parseAndExpr_tree[OF Suc, of env keep n]
  show ?case
  proof (rule gives_treesI)
    fix p e p' assume p: "error_seen p" "parsePrimary env keep (Suc n) p = Some (e, p')"
    show "error_seen p' \<and> (m_errors p' = [] \<longrightarrow> is_prefix_form e)"
    proof (cases "m_current p = LParen")
      case False
      then show ?thesis using p(2) gives_treesD[OF parseAttributeExpr_tree p(1)] by simp
    next
      case l: True
      obtain p1 where a: "advance env keep p = Some p1" using p(2) l by (auto split: option.splits)
      show ?thesis
      proof (cases "m_current p1 = RParen \<or> m_current p1 = Tok_Eof")
        case True
        then show ?thesis using p(2) l a by auto
      next
        case False
        then obtain e1 p2 where b: "parseAndExpr env keep (parsePrimary env keep n) n p1 = Some (e1, p2)"
          using p(2) l a by (auto split: option.splits)
        note o = gives_treesD[OF IH advance_seen[OF a] b]
        then show ?thesis using p(2) l a b False advance_seen[of env keep p2] by (auto split: if_splits)
      qed
    qed
  qed
qed (simp add: gives_trees_def)

lemma parsed_prefix:
  assumes "parseSearchExpression env keep input = Some (expr, [])"
  shows "expr = [] \<or> (is_prefix_form expr \<and> operator_count expr \<le> 10)"
proof -
  let ?p0 = "\<lparr>m_rest = input, m_errors = [], m_current = Tok_Eof\<rparr>"
  obtain p where p: "advance env keep ?p0 = Some p"
    using assms by (auto simp: parseSearchExpression_def parse_with_def split: option.splits)
  show ?thesis
  proof (cases "m_current p = Tok_Eof")
    case True
    then show ?thesis using assms p by (simp add: parseSearchExpression_def parse_with_def)
  next
    case False
    then obtain p1 where f: "parse_first env keep (parse_fuel input) p = Some (expr, p1)" and fin: "finish_parse expr p1 = (expr, [])"
      using assms p by (auto simp: parseSearchExpression_def parse_with_def finish_parse_def Let_def)
    have e: "m_errors p1 = []" "operator_count expr \<le> 10"
      using fin by (auto simp: finish_parse_def kMaxSearchOperators_def Let_def split: if_splits)
    have a: "gives_trees (parseAndExpr env keep (parsePrimary env keep (parse_fuel input)) (parse_fuel input))"
      by (rule parseAndExpr_tree[OF parsePrimary_tree])
    have "is_prefix_form expr"
    proof (cases "\<exists>s. m_current p = ED2KLink s")
      case True
      then obtain w where "scan_behind env keep (term_attr w) p = Some (expr, p1)" using f by (auto simp: parse_first_def)
      from scan_behind_tree[OF this] show ?thesis by simp
    next
      case False
      then have "parseAndExpr env keep (parsePrimary env keep (parse_fuel input)) (parse_fuel input) p = Some (expr, p1)"
        using f by (auto simp: parse_first_def split: token.splits)
      from gives_treesD[OF a advance_seen[OF p] this] e(1) show ?thesis by blast
    qed
    then show ?thesis using e(2) by simp
  qed
qed

text \<open>C23. What parses without an error is nothing at all or the prefix form of one tree with at most ten
  operators, whose terms carry a known tag and comparison; its height is then at most ten, and unless a
  term reads like an operator the payload is the tree written node by node.\<close>

theorem parsed_is_one_tree:
  assumes "parseSearchExpression env keep input = Some (expr, [])"
  shows "expr = [] \<or> (\<exists>t. expr = flatten t \<and> (\<forall>a \<in> set (leaves t). parsed_leaf a) \<and> operators_in t \<le> 10 \<and>
    height_of t \<le> 10 \<and> (unambiguous t \<longrightarrow> toBytes expr = tree_bytes t))"
proof -
  consider "expr = []" | t where "expr = flatten t" "\<forall>a \<in> set (leaves t). parsed_leaf a" "operator_count expr \<le> 10"
    using parsed_prefix[OF assms] unfolding is_prefix_form_def by blast
  then show ?thesis
  proof cases
    case 2
    then have "operators_in t \<le> 10" using operators_bound[of t] by (simp add: operator_count_def)
    then show ?thesis using 2 height_le_operators[of t] toBytes_flatten[of t] by auto
  qed simp
qed

lemmas [code] = scanToken.simps

lemma parsed_is_one_tree_witness:
  "parseSearchExpression sample_scan_env False (ascii ''a -b'') =
     Some ([operator_attr Not, term_attr (ascii ''a''), term_attr (ascii ''b'')], []) \<and>
   (\<exists>t. [operator_attr Not, term_attr (ascii ''a''), term_attr (ascii ''b'')] = flatten t \<and> operators_in t \<le> 10)"
proof -
  have r: "parseSearchExpression sample_scan_env False (ascii ''a -b'') =
      Some ([operator_attr Not, term_attr (ascii ''a''), term_attr (ascii ''b'')], [])" by code_simp
  from parsed_is_one_tree[OF r] show ?thesis unfolding r by blast
qed

section \<open>Terms that are not what was written\<close>

text \<open>A quoted term can read like an operator: the escape of the byte 173 in front of AND gives a single
  term that the serializer takes for the operator, and the payload is an operator without operands,
  which no node can decode.\<close>

lemma escaped_term_reads_as_operator:
  "parseSearchExpression env False (34 # 92 # ascii ''x0ADAND'' @ [34]) = Some ([term_attr (kSearchOpToken And)], []) \<and>
   toBytes [term_attr (kSearchOpToken And)] = [0, 0]"
  by code_simp

text \<open>An empty value takes the next term: behind a string attribute with an empty quoted value the
  scanner goes on, so the keyword after it becomes the value and is no longer searched for.\<close>

lemma empty_value_takes_keyword:
  "parseSearchExpression env False (ascii ''@title='' @ [34, 34] @ ascii '' movie'') =
     Some ([string_attr FT_MEDIA_TITLE (ascii ''movie'')], [])"
  by code_simp

end
