(* ===== verification/Search_Kad.thy ===== *)
theory Search_Kad
  imports Search_Trees
begin

text \<open>
  The search terms at the Kad node that answers: decoding the payload (createSearchExpressionTree in
  src/core/kademlia/KadUDPListener.cpp), splitting a string term into words (tokenizeOptQuotedSearchTerm in
  KadMiscUtils.cpp) and matching an entry (Entry and KeyEntry in KadEntry.cpp).  Unicode is a
  parameter: a QString is a list of 16-bit units, with the decoding, the lower case and the two
  comparisons without case of the Qt library.
\<close>

section \<open>Strings\<close>

type_synonym qstring = "u16 list"

record unicode =
  fromUtf8 :: "u8 list \<Rightarrow> qstring"
  toLower :: "qstring \<Rightarrow> qstring"
  containsNoCase :: "qstring \<Rightarrow> qstring \<Rightarrow> bool"
  equalNoCase :: "qstring \<Rightarrow> qstring \<Rightarrow> bool"

text \<open>The characters that divide words: a space, brackets, quotes and punctuation.\<close>

definition kInvKadKeywordChars :: "u16 list" where
  "kInvKadKeywordChars = map of_char ('' ()[]{}<>,._-!?:;'' @ [CHR 0x5C, CHR 0x2F, CHR 0x22])"

function tokenizeOptQuotedSearchTerm :: "qstring \<Rightarrow> qstring list" where
  "tokenizeOptQuotedSearchTerm [] = []"
| "tokenizeOptQuotedSearchTerm (c # cs) =
     (if c = 34 then
        (let quoted = takeWhile (\<lambda>d. d \<noteq> 34) cs; rest = dropWhile (\<lambda>d. d \<noteq> 34) cs
         in if rest = [] then tokenizeOptQuotedSearchTerm cs
            else (if quoted = [] then [] else [quoted]) @ tokenizeOptQuotedSearchTerm (tl rest))
      else
        (let word = takeWhile (\<lambda>d. d \<notin> set kInvKadKeywordChars) (c # cs); rest = dropWhile (\<lambda>d. d \<notin> set kInvKadKeywordChars) (c # cs)
         in if word = [] then tokenizeOptQuotedSearchTerm cs
            else word # (if rest = [] then []
                         else if hd rest = 34 then tokenizeOptQuotedSearchTerm rest
                         else tokenizeOptQuotedSearchTerm (tl rest))))"
  by pat_completeness auto

lemma span_shorter: "length (dropWhile P xs) \<le> length xs" "takeWhile P (x # xs) \<noteq> [] \<Longrightarrow> length (dropWhile P (x # xs)) \<le> length xs"
  using length_dropWhile_le[of P xs] by (auto split: if_splits)

termination tokenizeOptQuotedSearchTerm
proof (relation "measure length", goal_cases)
  case (3 c cs quoted rest)
  then show ?case using span_shorter(1)[of "\<lambda>d. d \<noteq> 34" cs] by simp
next
  case (5 c cs word rest)
  then show ?case using span_shorter(2)[of "\<lambda>d. d \<notin> set kInvKadKeywordChars" c cs] by simp
next
  case (6 c cs word rest)
  then show ?case using span_shorter(2)[of "\<lambda>d. d \<notin> set kInvKadKeywordChars" c cs] by simp
qed simp_all

section \<open>Decoding\<close>

text \<open>A tag name on the wire: one byte is a number.\<close>

datatype tag_name = Tag_id u8 | Tag_named "u8 list"
datatype number_op = OpEqual | OpGreater | OpLess | OpGreaterEqual | OpLessEqual | OpNotEqual

datatype search_term =
    Term_op search_operator search_term search_term
  | Term_string "qstring list"
  | Term_meta tag_name qstring
  | Term_number number_op tag_name u64

definition readStringUTF8 :: "unicode \<Rightarrow> in_bytes \<Rightarrow> (qstring \<times> in_bytes) option" where
  "readStringUTF8 q io =
     (case readUInt16 io of
        None \<Rightarrow> None
      | Some (len, io1) \<Rightarrow>
          if len = 0 then Some ([], io1)
          else (case read_bytes (unat len) io1 of None \<Rightarrow> None | Some (raw, io2) \<Rightarrow> Some (fromUtf8 q raw, io2)))"

text \<open>The name of \<open>makeTermTag\<close>.\<close>

definition read_tag_name :: "in_bytes \<Rightarrow> (tag_name \<times> in_bytes) option" where
  "read_tag_name io =
     (case readUInt16 io of
        None \<Rightarrow> None
      | Some (nameLen, io1) \<Rightarrow>
          (case read_bytes (unat nameLen) io1 of
             None \<Rightarrow> None
           | Some (name, io2) \<Rightarrow> Some (if nameLen = 1 then Tag_id (hd name) else Tag_named name, io2)))"

fun bool_op :: "u8 \<Rightarrow> search_operator option" where
  "bool_op b = (if b = 0x00 then Some And else if b = 0x01 then Some Or else if b = 0x02 then Some Not else None)"

fun mmop_type :: "u8 \<Rightarrow> number_op option" where
  "mmop_type b =
     (if b = 0x00 then Some OpEqual else if b = 0x01 then Some OpGreater else if b = 0x02 then Some OpLess
      else if b = 0x03 then Some OpGreaterEqual else if b = 0x04 then Some OpLessEqual
      else if b = 0x05 then Some OpNotEqual else None)"

text \<open>The decoded terms that are not operators: a refused term is None inside, a read past the end None outside.\<close>

type_synonym decoded = "(search_term option \<times> in_bytes) option"

definition decode_string :: "unicode \<Rightarrow> in_bytes \<Rightarrow> decoded" where
  "decode_string q io =
     map_option (\<lambda>(str, io1). (Some (Term_string (tokenizeOptQuotedSearchTerm (toLower q str))), io1)) (readStringUTF8 q io)"

definition decode_meta :: "unicode \<Rightarrow> in_bytes \<Rightarrow> decoded" where
  "decode_meta q io =
     (case readStringUTF8 q io of
        None \<Rightarrow> None
      | Some (str, io1) \<Rightarrow> map_option (\<lambda>(name, io2). (Some (Term_meta name (toLower q str)), io2)) (read_tag_name io1))"

definition decode_number :: "u64 \<Rightarrow> in_bytes \<Rightarrow> decoded" where
  "decode_number val io =
     (case readUInt8 io of
        None \<Rightarrow> None
      | Some (mmop, io1) \<Rightarrow>
          map_option (\<lambda>(name, io2). (map_option (\<lambda>op. Term_number op name val) (mmop_type mmop), io2)) (read_tag_name io1))"

definition decode_leaf :: "unicode \<Rightarrow> u8 \<Rightarrow> in_bytes \<Rightarrow> decoded" where
  "decode_leaf q op io =
     (if op = 0x01 then decode_string q io
      else if op = 0x02 then decode_meta q io
      else if op = 0x03 then (case readUInt32 io of None \<Rightarrow> None | Some (val, io1) \<Rightarrow> decode_number (ucast val) io1)
      else if op = 0x08 then (case readUInt64 io of None \<Rightarrow> None | Some (val, io1) \<Rightarrow> decode_number val io1)
      else Some (None, io))"

text \<open>At most 24 levels; both operands are read before a missing one refuses the operator.\<close>

function createSearchExpressionTree :: "unicode \<Rightarrow> in_bytes \<Rightarrow> nat \<Rightarrow> decoded" where
  "createSearchExpressionTree q io level =
     (if 24 \<le> level then Some (None, io)
      else case io of
        [] \<Rightarrow> Some (None, [])
      | op # io1 \<Rightarrow>
          if op = 0x00 then
            (case io1 of
               [] \<Rightarrow> Some (None, [])
             | b # io2 \<Rightarrow>
                 (case bool_op b of
                    None \<Rightarrow> Some (None, io2)
                  | Some bop \<Rightarrow>
                      (case createSearchExpressionTree q io2 (level + 1) of
                         None \<Rightarrow> None
                       | Some (left, io3) \<Rightarrow>
                           (case createSearchExpressionTree q io3 (level + 1) of
                              None \<Rightarrow> None
                            | Some (right, io4) \<Rightarrow>
                                Some (if left = None \<or> right = None then None else Some (Term_op bop (the left) (the right)), io4)))))
          else decode_leaf q op io1)"
  by pat_completeness auto
termination by (relation "measure (\<lambda>(q, io, level). 24 - level)") auto

declare createSearchExpressionTree.simps [simp del]

section \<open>Matching\<close>

datatype tag_value = Value_str qstring | Value_int u64 | Value_other

text \<open>A tag has a number or a name; the number 0 with no name has no key.\<close>

record kad_tag =
  kt_nameId :: u8
  kt_name :: "u8 list"
  kt_value :: tag_value

record kad_entry =
  ke_fileNames :: "(qstring \<times> u32) list"
  ke_size :: u64
  ke_tags :: "kad_tag list"

definition name_id :: "tag_name \<Rightarrow> u8" where
  "name_id n = (case n of Tag_id i \<Rightarrow> i | Tag_named s \<Rightarrow> 0)"

definition name_bytes :: "tag_name \<Rightarrow> u8 list" where
  "name_bytes n = (case n of Tag_id i \<Rightarrow> [] | Tag_named s \<Rightarrow> s)"

definition tagLookupKey :: "tag_name \<Rightarrow> u8 list" where
  "tagLookupKey n = (if name_bytes n = [] \<and> name_id n \<noteq> 0 then [name_id n] else name_bytes n)"

definition tagNameMatches :: "kad_tag \<Rightarrow> u8 list \<Rightarrow> bool" where
  "tagNameMatches t tagName =
     (if length tagName = 1 \<and> kt_name t = [] then kt_nameId t = hd tagName else kt_name t = tagName)"

text \<open>The first of the names with the highest popularity.\<close>

fun most_popular :: "(qstring \<times> u32) list \<Rightarrow> (qstring \<times> u32) option \<Rightarrow> (qstring \<times> u32) option" where
  "most_popular [] best = best"
| "most_popular (e # es) best =
     most_popular es (case best of None \<Rightarrow> Some e | Some b \<Rightarrow> if snd e > snd b then Some e else best)"

definition getCommonFileName :: "kad_entry \<Rightarrow> qstring" where
  "getCommonFileName e = (case most_popular (ke_fileNames e) None of None \<Rightarrow> [] | Some (name, p) \<Rightarrow> name)"

definition getCommonFileNameLowerCase :: "unicode \<Rightarrow> kad_entry \<Rightarrow> qstring" where
  "getCommonFileNameLowerCase q e = toLower q (getCommonFileName e)"

definition kTagFilename :: "u8 list" where "kTagFilename = [0x01]"
definition kTagFilesize :: "u8 list" where "kTagFilesize = [0x02]"
definition TAG_FILEFORMAT :: "u8 list" where "TAG_FILEFORMAT = [0x04]"

definition is_str :: "kad_tag \<Rightarrow> bool" where
  "is_str t = (case kt_value t of Value_str v \<Rightarrow> True | _ \<Rightarrow> False)"

definition is_int64 :: "kad_tag \<Rightarrow> bool" where
  "is_int64 t = (case kt_value t of Value_int v \<Rightarrow> True | _ \<Rightarrow> False)"

definition getIntTagValue :: "kad_entry \<Rightarrow> u8 list \<Rightarrow> bool \<Rightarrow> u64 option" where
  "getIntTagValue e tagName includeVirtual =
     (if includeVirtual \<and> tagName = kTagFilesize then Some (ke_size e)
      else case find (\<lambda>t. tagNameMatches t tagName \<and> is_int64 t) (ke_tags e) of
             None \<Rightarrow> None
           | Some t \<Rightarrow> (case kt_value t of Value_int v \<Rightarrow> Some v | _ \<Rightarrow> None))"

definition getStrTagValue :: "kad_entry \<Rightarrow> u8 list \<Rightarrow> qstring" where
  "getStrTagValue e tagName =
     (if tagName = kTagFilename then getCommonFileName e
      else case find (\<lambda>t. tagNameMatches t tagName \<and> is_str t) (ke_tags e) of
             None \<Rightarrow> []
           | Some t \<Rightarrow> (case kt_value t of Value_str v \<Rightarrow> v | _ \<Rightarrow> []))"

fun compare_values :: "number_op \<Rightarrow> u64 \<Rightarrow> u64 \<Rightarrow> bool" where
  "compare_values OpGreaterEqual a b = (a \<ge> b)"
| "compare_values OpLessEqual a b = (a \<le> b)"
| "compare_values OpGreater a b = (a > b)"
| "compare_values OpLess a b = (a < b)"
| "compare_values OpEqual a b = (a = b)"
| "compare_values OpNotEqual a b = (a \<noteq> b)"

text \<open>What follows the last dot of a name.\<close>

definition extension_of :: "qstring \<Rightarrow> qstring option" where
  "extension_of name = (if 46 \<in> set name then Some (rev (takeWhile (\<lambda>c. c \<noteq> 46) (rev name))) else None)"

definition meta_matches :: "unicode \<Rightarrow> kad_entry \<Rightarrow> tag_name \<Rightarrow> qstring \<Rightarrow> bool" where
  "meta_matches q e name str =
     (let key = tagLookupKey name
      in if key = TAG_FILEFORMAT then
           (case extension_of (getCommonFileNameLowerCase q e) of None \<Rightarrow> False | Some ext \<Rightarrow> equalNoCase q ext str)
         else equalNoCase q (getStrTagValue e key) str)"

text \<open>The cache is the lower case of the file name.\<close>

fun searchTermsMatch :: "unicode \<Rightarrow> kad_entry \<Rightarrow> qstring \<Rightarrow> search_term \<Rightarrow> bool" where
  "searchTermsMatch q e cache (Term_op And l r) \<longleftrightarrow> searchTermsMatch q e cache l \<and> searchTermsMatch q e cache r"
| "searchTermsMatch q e cache (Term_op Or l r) \<longleftrightarrow> searchTermsMatch q e cache l \<or> searchTermsMatch q e cache r"
| "searchTermsMatch q e cache (Term_op Not l r) \<longleftrightarrow> searchTermsMatch q e cache l \<and> \<not> searchTermsMatch q e cache r"
| "searchTermsMatch q e cache (Term_string words) \<longleftrightarrow> words \<noteq> [] \<and> (\<forall>w \<in> set words. containsNoCase q cache w)"
| "searchTermsMatch q e cache (Term_meta name str) \<longleftrightarrow> meta_matches q e name str"
| "searchTermsMatch q e cache (Term_number op name val) \<longleftrightarrow>
     (case getIntTagValue e (tagLookupKey name) True of None \<Rightarrow> False | Some v \<Rightarrow> compare_values op v val)"

definition startSearchTermsMatch :: "unicode \<Rightarrow> kad_entry \<Rightarrow> search_term \<Rightarrow> bool" where
  "startSearchTermsMatch q e term = searchTermsMatch q e (getCommonFileNameLowerCase q e) term"

section \<open>What is sent is what is matched\<close>

text \<open>The term a node makes of a leaf and of a tree.\<close>

definition comparison :: "u32 \<Rightarrow> number_op" where
  "comparison op = the (mmop_type (ucast op))"

definition term_of_leaf :: "unicode \<Rightarrow> search_attr \<Rightarrow> search_term" where
  "term_of_leaf q a =
     (if sa_str a = [] then Term_number (comparison (sa_op a)) (Tag_id (of_int (sa_tag a))) (sa_num a)
      else if sa_tag a = FT_FILENAME then Term_string (tokenizeOptQuotedSearchTerm (toLower q (fromUtf8 q (sa_str a))))
      else Term_meta (Tag_id (of_int (sa_tag a))) (toLower q (fromUtf8 q (sa_str a))))"

fun term_of_tree :: "unicode \<Rightarrow> search_tree \<Rightarrow> search_term" where
  "term_of_tree q (Leaf a) = term_of_leaf q a"
| "term_of_tree q (Op op l r) = Term_op op (term_of_tree q l) (term_of_tree q r)"

text \<open>Strings the length prefix can hold.\<close>

definition short_leaf :: "search_attr \<Rightarrow> bool" where
  "short_leaf a \<longleftrightarrow> length (sa_str a) < 65536"

lemma bool_op_byte [simp]: "bool_op (operator_byte op) = Some op"
  by (cases op) simp_all

lemma readUInt8_Cons [simp]: "readUInt8 (b # f) = Some (b, f)"
  using read_write(1)[of b f] by (simp add: writeUInt8_def le_bytes_def byte_of_def)

lemma read_appendString:
  assumes "s \<noteq> []" "length s < 65536"
  shows "readStringUTF8 q (appendString s @ rest) = Some (fromUtf8 q s, rest)"
proof -
  have u: "unat (of_nat (length s) :: u16) = length s" using assms(2) by (simp add: unat_of_nat take_bit_nat_eq_self)
  then have "(of_nat (length s) :: u16) \<noteq> 0" using assms(1) by (metis length_0_conv unsigned_0)
  then show ?thesis using u by (simp add: readStringUTF8_def appendString_def)
qed

lemma read_appendTagName: "read_tag_name (appendTagName tag @ rest) = Some (Tag_id (of_int tag), rest)"
  by (simp add: read_tag_name_def appendTagName_def read_bytes_def)

lemma number_op_small: "(op :: u32) \<le> 5 \<Longrightarrow> mmop_type (ucast op) = Some (comparison op)"
proof -
  assume "op \<le> 5"
  then have "unat op \<le> 5" by (simp add: word_le_nat_alt)
  then have "unat op = 0 \<or> unat op = 1 \<or> unat op = 2 \<or> unat op = 3 \<or> unat op = 4 \<or> unat op = 5" by linarith
  then have "op = 0 \<or> op = 1 \<or> op = 2 \<or> op = 3 \<or> op = 4 \<or> op = 5" by (simp add: word_unat_eq_iff)
  then show ?thesis by (auto simp: comparison_def)
qed

lemma decode_leaf_bytes:
  assumes "parsed_leaf a" "short_leaf a"
  shows "\<exists>op io. leaf_bytes a @ rest = op # io \<and> op \<noteq> 0x00 \<and> decode_leaf q op io = Some (Some (term_of_leaf q a), rest)"
proof (cases "sa_str a = []")
  case True
  have n: "mmop_type (ucast (sa_op a)) = Some (comparison (sa_op a))"
    by (rule number_op_small) (use assms(1) in \<open>simp add: parsed_leaf_def\<close>)
  have d: "decode_number v (ucast (sa_op a) # appendTagName (sa_tag a) @ rest) =
      Some (Some (Term_number (comparison (sa_op a)) (Tag_id (of_int (sa_tag a))) v), rest)" for v
    using n by (simp add: decode_number_def read_appendTagName del: mmop_type.simps)
  have w: "(ucast (ucast (sa_num a) :: u32) :: u64) = sa_num a" if "\<not> sa_num a > UINT32_MAX"
  proof -
    have "unat (sa_num a) < 2 ^ 32" using that by (simp add: UINT32_MAX_def word_less_nat_alt not_less)
    then have "take_bit 32 (sa_num a) = sa_num a"
      by (intro word_unat_eq_iff[THEN iffD2]) (simp add: unsigned_take_bit_eq take_bit_nat_eq_self)
    moreover have "(ucast (ucast (sa_num a) :: u32) :: u64) = take_bit 32 (sa_num a)"
      by (rule bit_word_eqI) (auto simp: bit_ucast_iff bit_take_bit_iff)
    ultimately show ?thesis by simp
  qed
  show ?thesis
  proof (cases "sa_num a > UINT32_MAX")
    case big: True
    then show ?thesis using d True by (simp add: leaf_bytes_def decode_leaf_def term_of_leaf_def)
  next
    case False
    then show ?thesis using d True w by (simp add: leaf_bytes_def decode_leaf_def term_of_leaf_def)
  qed
next
  case False
  have "length (sa_str a) < 65536" using assms(2) by (simp add: short_leaf_def)
  note r = read_appendString[OF False this, of q]
  show ?thesis using False r
    by (simp add: leaf_bytes_def decode_leaf_def term_of_leaf_def decode_string_def decode_meta_def read_appendTagName)
qed

lemma decode_tree:
  assumes "\<forall>a \<in> set (leaves t). parsed_leaf a \<and> short_leaf a" "level + height_of t < 24"
  shows "createSearchExpressionTree q (tree_bytes t @ rest) level = Some (Some (term_of_tree q t), rest)"
  using assms
proof (induction t arbitrary: level rest)
  case (Leaf a)
  obtain op io where b: "leaf_bytes a @ rest = op # io" "op \<noteq> 0" "decode_leaf q op io = Some (Some (term_of_leaf q a), rest)"
    using decode_leaf_bytes[of a rest q] Leaf.prems by auto
  have "tree_bytes (Leaf a) @ rest = op # io" using b(1) by simp
  then show ?case using b(2,3) Leaf.prems by (simp add: createSearchExpressionTree.simps[of q _ level])
next
  case (Op op l r)
  have l: "createSearchExpressionTree q (tree_bytes l @ tree_bytes r @ rest) (level + 1) = Some (Some (term_of_tree q l), tree_bytes r @ rest)"
    by (rule Op.IH(1)) (use Op.prems in auto)
  have r: "createSearchExpressionTree q (tree_bytes r @ rest) (level + 1) = Some (Some (term_of_tree q r), rest)"
    by (rule Op.IH(2)) (use Op.prems in auto)
  show ?case using l r Op.prems by (simp add: createSearchExpressionTree.simps[of q _ level] del: bool_op.simps)
qed

lemma prefix_members:
  assumes "is_prefix_form expr" "a \<in> set expr"
  shows "parsed_leaf a"
proof -
  have "\<forall>a \<in> set (leaves t). parsed_leaf a \<Longrightarrow> \<forall>a \<in> set (flatten t). parsed_leaf a" for t
    by (induction t) (auto simp: operator_attr_def)
  then show ?thesis using assms unfolding is_prefix_form_def by blast
qed

lemma leaves_members: "set (leaves t) \<subseteq> set (flatten t)"
  by (induction t) auto

lemma decode_parsed:
  assumes "\<forall>a \<in> set (flatten t). parsed_leaf a \<and> short_leaf a" "unambiguous t" "height_of t < 24"
  shows "createSearchExpressionTree q (toBytes (flatten t)) 0 = Some (Some (term_of_tree q t), [])"
  using decode_tree[of t 0 q "[]"] assms leaves_members[of t] toBytes_flatten[of t] by auto

text \<open>C7. What the user's text means is what the answering node matches: the payload of an expression that
  parsed without an error is decoded completely, within the 24 levels, to the term of its tree - every
  operator over its two sides, every word, attribute and comparison as it was written - provided no term
  reads like an operator and every string has less than 65,536 bytes.\<close>

theorem payload_is_decoded:
  assumes "parseSearchExpression env keep input = Some (expr, [])" and "expr = flatten t"
    and "unambiguous t" and "\<forall>a \<in> set expr. short_leaf a"
  shows "createSearchExpressionTree q (toBytes expr) 0 = Some (Some (term_of_tree q t), [])"
proof -
  have "flatten t \<noteq> []" by (cases t) auto
  then have p: "is_prefix_form expr" "operator_count expr \<le> 10" using parsed_prefix[OF assms(1)] assms(2) by auto
  have "height_of t \<le> 10"
    using p(2) operators_bound[of t] height_le_operators[of t] assms(2) by (simp add: operator_count_def)
  then show ?thesis using decode_parsed[of t q] prefix_members[OF p(1)] assms by auto
qed

text \<open>ASCII text, compared as it is.\<close>

fun contains_text :: "qstring \<Rightarrow> qstring \<Rightarrow> bool" where
  "contains_text [] n \<longleftrightarrow> n = []"
| "contains_text (c # cs) n \<longleftrightarrow> take (length n) (c # cs) = n \<or> contains_text cs n"

definition sample_unicode :: unicode where
  "sample_unicode = \<lparr>fromUtf8 = map ucast, toLower = (\<lambda>s. s), containsNoCase = contains_text, equalNoCase = (=)\<rparr>"

definition sample_tree :: search_tree where
  "sample_tree = Op Not (Leaf (term_attr (ascii ''a''))) (Leaf (term_attr (ascii ''b'')))"

lemma sample_tree_parsed:
  "parseSearchExpression sample_scan_env False (ascii ''a -b'') = Some (flatten sample_tree, [])"
  "unambiguous sample_tree"
  by code_simp (simp add: sample_tree_def isOperatorAttr_def term_attr_def ascii_def)

lemma payload_is_decoded_witness:
  "createSearchExpressionTree sample_unicode (toBytes (flatten sample_tree)) 0 =
     Some (Some (Term_op Not (Term_string [[97]]) (Term_string [[98]])), [])"
proof -
  have s: "\<forall>a \<in> set (flatten sample_tree). short_leaf a"
    by (simp add: sample_tree_def short_leaf_def term_attr_def operator_attr_def ascii_def)
  have t: "term_of_tree sample_unicode sample_tree = Term_op Not (Term_string [[97]]) (Term_string [[98]])" by code_simp
  show ?thesis using payload_is_decoded[OF sample_tree_parsed(1) refl sample_tree_parsed(2) s, of sample_unicode] t by simp
qed

end
