(* ===== verification/Search_Terms.thy ===== *)
theory Search_Terms
  imports Search_Kad
begin

text \<open>
  From the user's search to the payload (collectFilenameTerms, kadKeywordSource and buildSearchTermsPayload in
  src/core/search/SearchExprParser.cpp): the terms a match must hold, the filters joined to the
  expression, and sizes clamped for targets without 64-bit terms.
\<close>

section \<open>Terms a match must hold\<close>

text \<open>One subtree from the position on: the required and the optional file name terms, and the terms left.\<close>

function collectFilenameTerms :: "search_attr list \<Rightarrow> bool \<Rightarrow> u8 list list \<times> u8 list list \<times> search_attr list" where
  "collectFilenameTerms [] required = ([], [], [])"
| "collectFilenameTerms (a # expr) required =
     (case operator_of a of
        Some op \<Rightarrow>
          (let (req1, opt1, rest) = collectFilenameTerms expr (if op = Or then False else required);
               (req2, opt2, rest') = collectFilenameTerms rest (if op = And then required else False)
           in (req1 @ req2, opt1 @ opt2, rest'))
      | None \<Rightarrow>
          (if sa_tag a = FT_FILENAME then (if required then ([sa_str a], [], expr) else ([], [sa_str a], expr))
           else ([], [], expr)))"
  by pat_completeness auto

lemma collect_shrinks: "collectFilenameTerms_dom (expr, required) \<Longrightarrow> length (snd (snd (collectFilenameTerms expr required))) \<le> length expr"
proof (induction expr required rule: collectFilenameTerms.pinduct)
  case (2 a expr required)
  show ?case
  proof (cases "operator_of a")
    case None
    then show ?thesis using "2.hyps" by (simp add: collectFilenameTerms.psimps)
  next
    case (Some op)
    obtain r1 o1 rest where l: "collectFilenameTerms expr (if op = Or then False else required) = (r1, o1, rest)" by (rule prod_cases3)
    obtain r2 o2 rest' where r: "collectFilenameTerms rest (if op = And then required else False) = (r2, o2, rest')" by (rule prod_cases3)
    show ?thesis
      using "2.hyps" "2.IH"(1)[OF Some] "2.IH"(2)[OF Some l[symmetric] refl refl] l r Some by (simp add: collectFilenameTerms.psimps)
  qed
qed (simp add: collectFilenameTerms.psimps)

termination collectFilenameTerms
proof (relation "measure (\<lambda>(expr, required). length expr)", goal_cases)
  case (3 a expr required op x req1 y opt1 rest)
  then show ?case using collect_shrinks[of expr "if op = Or then False else required"]
    by (metis (no_types, lifting) case_prod_conv in_measure le_imp_less_Suc length_Cons snd_conv)
qed simp_all

text \<open>The terms of a tree that every match must satisfy.\<close>

fun conjuncts :: "search_tree \<Rightarrow> search_attr list" where
  "conjuncts (Leaf a) = [a]"
| "conjuncts (Op And l r) = conjuncts l @ conjuncts r"
| "conjuncts (Op Or l r) = []"
| "conjuncts (Op Not l r) = conjuncts l"

definition file_name_terms :: "search_attr list \<Rightarrow> u8 list list" where
  "file_name_terms as = map sa_str (filter (\<lambda>a. sa_tag a = FT_FILENAME) as)"

lemma collect_flatten:
  assumes "unambiguous t"
  shows "fst (collectFilenameTerms (flatten t @ rest) required) = (if required then file_name_terms (conjuncts t) else [])"
    and "snd (snd (collectFilenameTerms (flatten t @ rest) required)) = rest"
proof -
  have "fst (collectFilenameTerms (flatten t @ rest) required) = (if required then file_name_terms (conjuncts t) else []) \<and>
      snd (snd (collectFilenameTerms (flatten t @ rest) required)) = rest"
    using assms
  proof (induction t arbitrary: rest required)
    case (Leaf a)
    then show ?case by (simp add: operator_of_leaf[THEN iffD2] file_name_terms_def)
  next
    case (Op op l r)
    let ?c1 = "collectFilenameTerms (flatten l @ flatten r @ rest) (if op = Or then False else required)"
    let ?c2 = "collectFilenameTerms (flatten r @ rest) (if op = And then required else False)"
    have u: "unambiguous l" "unambiguous r" using Op.prems by simp_all
    have s: "snd (snd ?c1) = flatten r @ rest" using Op.IH(1)[OF u(1)] by blast
    obtain r1 o1 x where c1: "?c1 = (r1, o1, x)" by (rule prod_cases3)
    obtain r2 o2 y where c2: "?c2 = (r2, o2, y)" by (rule prod_cases3)
    have x: "x = flatten r @ rest" using s c1 by simp
    have r1: "r1 = (if op = Or then [] else if required then file_name_terms (conjuncts l) else [])"
      using Op.IH(1)[OF u(1), of "flatten r @ rest" "if op = Or then False else required"] c1 by (auto split: if_splits)
    have r2: "r2 = (if op = And \<and> required then file_name_terms (conjuncts r) else []) \<and> y = rest"
      using Op.IH(2)[OF u(2), of rest "if op = And then required else False"] c2 by (auto split: if_splits)
    have "collectFilenameTerms (flatten (Op op l r) @ rest) required = (r1 @ r2, o1 @ o2, y)"
      using c1 c2 x by simp
    then show ?case using r1 r2 by (cases op) (auto simp: file_name_terms_def)
  qed
  then show "fst (collectFilenameTerms (flatten t @ rest) required) = (if required then file_name_terms (conjuncts t) else [])"
    "snd (snd (collectFilenameTerms (flatten t @ rest) required)) = rest" by blast+
qed

lemma conjuncts_match:
  "searchTermsMatch q e cache (term_of_tree q t) \<Longrightarrow> a \<in> set (conjuncts t) \<Longrightarrow> searchTermsMatch q e cache (term_of_leaf q a)"
  by (induction t rule: conjuncts.induct) auto

text \<open>The words of the terms every match must hold, joined by spaces.\<close>

definition filenameTerms :: "'f scan_env \<Rightarrow> u8 list \<Rightarrow> (u8 list list \<times> u8 list list) option" where
  "filenameTerms env expression =
     (case parseSearchExpression env False expression of
        None \<Rightarrow> None
      | Some (expr, errors) \<Rightarrow>
          Some (if errors \<noteq> [] then ([], []) else (case collectFilenameTerms expr True of (req, opt, rest) \<Rightarrow> (req, opt))))"

definition join_words :: "qstring list \<Rightarrow> qstring" where
  "join_words ws = (case ws of [] \<Rightarrow> [] | v # vs \<Rightarrow> v @ concat (map (\<lambda>w. 32 # w) vs))"

definition kadKeywordSource :: "'f scan_env \<Rightarrow> unicode \<Rightarrow> u8 list \<Rightarrow> qstring option" where
  "kadKeywordSource env q expression = map_option (\<lambda>(req, opt). join_words (map (fromUtf8 q) req)) (filenameTerms env expression)"

definition kadKeywordOnlyInOr :: "'f scan_env \<Rightarrow> u8 list \<Rightarrow> bool option" where
  "kadKeywordOnlyInOr env expression = map_option (\<lambda>(req, opt). req = [] \<and> opt \<noteq> []) (filenameTerms env expression)"

text \<open>C11. The Kad keyword is safe to look under: the terms it is taken from are terms every match must
  hold.  When the expression is parsed without an error to the sequence of one tree, none of whose terms
  reads like an operator token, then whatever entry satisfies it holds in its file name each word of each
  required term, so no match is lost by asking the node that keeps the keyword.  The words of a term are
  those the matching cuts it into (tokenizeOptQuotedSearchTerm, which keeps a quoted term whole).\<close>

theorem required_words_are_held:
  assumes "parseSearchExpression env False expression = Some (expr, [])" and "expr = flatten t" and "unambiguous t"
    and "filenameTerms env expression = Some (req, opt)" and "w \<in> set req" and "w \<noteq> []"
    and "startSearchTermsMatch q e (term_of_tree q t)"
  shows "\<forall>word \<in> set (tokenizeOptQuotedSearchTerm (toLower q (fromUtf8 q w))).
    containsNoCase q (getCommonFileNameLowerCase q e) word"
proof -
  have "req = fst (collectFilenameTerms (flatten t) True)"
    using assms(1,2,4) by (auto simp: filenameTerms_def split: prod.splits)
  then have "req = file_name_terms (conjuncts t)" using collect_flatten(1)[OF assms(3), of "[]" True] by simp
  then obtain a where a: "a \<in> set (conjuncts t)" "sa_tag a = FT_FILENAME" "sa_str a = w"
    using assms(5) by (auto simp: file_name_terms_def)
  have "searchTermsMatch q e (getCommonFileNameLowerCase q e) (term_of_leaf q a)"
    by (rule conjuncts_match[OF _ a(1)]) (use assms(7) in \<open>simp add: startSearchTermsMatch_def\<close>)
  then show ?thesis using a assms(6) by (simp add: term_of_leaf_def)
qed

definition sample_entry :: kad_entry where
  "sample_entry = \<lparr>ke_fileNames = [([98], 1), ([99, 97], 2)], ke_size = 5000, ke_tags = []\<rparr>"

lemma required_words_are_held_witness:
  "startSearchTermsMatch sample_unicode sample_entry (term_of_tree sample_unicode sample_tree) \<and>
   tokenizeOptQuotedSearchTerm (toLower sample_unicode (fromUtf8 sample_unicode (ascii ''a''))) = [[97]] \<and>
   containsNoCase sample_unicode (getCommonFileNameLowerCase sample_unicode sample_entry) [97]"
proof -
  have f: "filenameTerms sample_scan_env (ascii ''a -b'') = Some ([ascii ''a''], [ascii ''b''])" by code_simp
  have m: "startSearchTermsMatch sample_unicode sample_entry (term_of_tree sample_unicode sample_tree)" by code_simp
  have w: "ascii ''a'' \<in> set [ascii ''a'']" "ascii ''a'' \<noteq> []" by (simp_all add: ascii_def)
  have k: "tokenizeOptQuotedSearchTerm (toLower sample_unicode (fromUtf8 sample_unicode (ascii ''a''))) = [[97]]" by code_simp
  have "[97] \<in> set (tokenizeOptQuotedSearchTerm (toLower sample_unicode (fromUtf8 sample_unicode (ascii ''a''))))"
    using k by simp
  then have "containsNoCase sample_unicode (getCommonFileNameLowerCase sample_unicode sample_entry) [97]"
    using required_words_are_held[OF sample_tree_parsed(1) refl sample_tree_parsed(2) f w m] by blast
  then show ?thesis using m k by blast
qed

end
