(* ===== verification/Search_Payload.thy ===== *)
theory Search_Payload
  imports Search_Terms
begin

text \<open>
  The payload of a search (buildSearchTermsPayload in src/core/search/SearchExprParser.cpp): the parsed
  expression, reduced for Kad where the target already covers the keyword, under the filters, with
  sizes clamped where the target cannot read 64 bits; and what every match of it satisfies.
\<close>

section \<open>Building\<close>

text \<open>The strings are UTF-8; a file type is its name.\<close>

record search_params =
  sp_expression :: "u8 list"
  sp_fileType :: "u8 list"
  sp_extension :: "u8 list"
  sp_codec :: "u8 list"
  sp_title :: "u8 list"
  sp_album :: "u8 list"
  sp_artist :: "u8 list"
  sp_minSize :: u64
  sp_maxSize :: u64
  sp_availability :: u32
  sp_completeSources :: u32
  sp_minBitrate :: u32
  sp_minLength :: u32

definition addAndAttr :: "search_attr list \<Rightarrow> search_attr \<Rightarrow> search_attr list" where
  "addAndAttr expr attr = (if expr \<noteq> [] then [operator_attr And] else []) @ attr # expr"

definition ed2kFileTypeSearchTerm :: "u8 list \<Rightarrow> u8 list" where
  "ed2kFileTypeSearchTerm typeName = (if typeName = ascii ''Arc'' \<or> typeName = ascii ''Iso'' then ascii ''Pro'' else typeName)"

text \<open>The filters that are set, in the order they are added.\<close>

definition active_filters :: "search_params \<Rightarrow> search_attr list" where
  "active_filters p =
     (if sp_extension p \<noteq> [] then [string_attr FT_FILEFORMAT (sp_extension p)] else []) @
     (if sp_availability p > 0 then [number_attr FT_SOURCES ED2K_SEARCH_OP_GREATER_EQUAL (ucast (sp_availability p))] else []) @
     (if sp_maxSize p > 0 then [number_attr FT_FILESIZE ED2K_SEARCH_OP_LESS_EQUAL (sp_maxSize p)] else []) @
     (if sp_minSize p > 0 then [number_attr FT_FILESIZE ED2K_SEARCH_OP_GREATER_EQUAL (sp_minSize p)] else []) @
     (if sp_fileType p \<noteq> [] then [string_attr FT_FILETYPE (ed2kFileTypeSearchTerm (sp_fileType p))] else []) @
     (if sp_completeSources p > 0 then [number_attr FT_COMPLETE_SOURCES ED2K_SEARCH_OP_GREATER_EQUAL (ucast (sp_completeSources p))] else []) @
     (if sp_minBitrate p > 0 then [number_attr FT_MEDIA_BITRATE ED2K_SEARCH_OP_GREATER_EQUAL (ucast (sp_minBitrate p))] else []) @
     (if sp_minLength p > 0 then [number_attr FT_MEDIA_LENGTH ED2K_SEARCH_OP_GREATER_EQUAL (ucast (sp_minLength p))] else []) @
     (if sp_codec p \<noteq> [] then [string_attr FT_MEDIA_CODEC (sp_codec p)] else []) @
     (if sp_title p \<noteq> [] then [string_attr FT_MEDIA_TITLE (sp_title p)] else []) @
     (if sp_album p \<noteq> [] then [string_attr FT_MEDIA_ALBUM (sp_album p)] else []) @
     (if sp_artist p \<noteq> [] then [string_attr FT_MEDIA_ARTIST (sp_artist p)] else [])"

definition filter_chain :: "search_params \<Rightarrow> search_attr list" where
  "filter_chain p = foldl addAndAttr [] (active_filters p)"

text \<open>The terms of a plain AND chain but the keyword, joined by spaces.\<close>

definition join_step :: "u8 list \<Rightarrow> u8 list \<Rightarrow> search_attr \<Rightarrow> u8 list" where
  "join_step keyword joined a =
     (if isOperatorAttr a then joined
      else if map tolower_byte (sa_str a) = map tolower_byte keyword then joined
      else (if joined \<noteq> [] then joined @ [32] else joined) @ sa_str a)"

definition kad_terms :: "u8 list \<Rightarrow> search_attr list \<Rightarrow> search_attr list" where
  "kad_terms keyword expr =
     (let opCount = count_if isOperatorAttr expr;
          opAnd = count_if (\<lambda>a. sa_str a = kSearchOpToken And) expr;
          nonDefaultTags = count_if (\<lambda>a. \<not> isOperatorAttr a \<and> sa_tag a \<noteq> FT_FILENAME) expr
      in if opAnd > 0 \<and> opAnd = opCount \<and> nonDefaultTags = 0 then
           (let joined = foldl (join_step keyword) [] expr in if joined \<noteq> [] then [term_attr joined] else [])
         else if length expr = 1 \<and> sa_tag (expr ! 0) = FT_FILENAME \<and>
             map tolower_byte (sa_str (expr ! 0)) = map tolower_byte keyword then []
         else expr)"

definition under_filters :: "search_attr list \<Rightarrow> search_attr list \<Rightarrow> search_attr list" where
  "under_filters expr filters =
     (if filters = [] then expr else (if expr \<noteq> [] then [operator_attr And] else []) @ expr @ filters)"

definition clamp_num :: "bool \<Rightarrow> search_attr \<Rightarrow> search_attr" where
  "clamp_num supports64Bit a =
     (if sa_num a \<le> UINT32_MAX then a else if \<not> supports64Bit then a\<lparr>sa_num := UINT32_MAX\<rparr> else a)"

definition search_terms :: "search_params \<Rightarrow> u8 list \<Rightarrow> search_attr list \<Rightarrow> search_attr list" where
  "search_terms p kadKeyword expr = under_filters (if kadKeyword \<noteq> [] then kad_terms kadKeyword expr else expr) (filter_chain p)"

definition buildSearchTermsPayload :: "'f scan_env \<Rightarrow> search_params \<Rightarrow> u8 list \<Rightarrow> bool \<Rightarrow> (u8 list \<times> bool) option" where
  "buildSearchTermsPayload env p kadKeyword supports64Bit =
     (case parseSearchExpression env (kadKeyword \<noteq> []) (sp_expression p) of
        None \<Rightarrow> None
      | Some (parsed, errors) \<Rightarrow>
          Some (if errors \<noteq> [] then ([], False)
                else let expr = search_terms p kadKeyword parsed
                     in if expr = [] then ([], False)
                        else (toBytes (map (clamp_num supports64Bit) expr),
                              supports64Bit \<and> (\<exists>a \<in> set expr. sa_num a > UINT32_MAX))))"

section \<open>The tree of a search\<close>











section \<open>Clamping\<close>


lemma clamp_operator [simp]: "clamp_num s (operator_attr op) = operator_attr op"
  by (simp add: clamp_num_def operator_attr_def term_attr_def)

lemma clamp_fields [simp]: "sa_str (clamp_num s a) = sa_str a" "sa_tag (clamp_num s a) = sa_tag a" "sa_op (clamp_num s a) = sa_op a"
  by (simp_all add: clamp_num_def)



section \<open>Every match passes the filters\<close>








definition sample_search :: search_params where
  "sample_search = \<lparr>sp_expression = ascii ''a -b'', sp_fileType = [], sp_extension = [], sp_codec = [], sp_title = [],
     sp_album = [], sp_artist = [], sp_minSize = 0x200000000, sp_maxSize = 0, sp_availability = 3,
     sp_completeSources = 0, sp_minBitrate = 0, sp_minLength = 0\<rparr>"


text \<open>The proviso on operator tokens: a quoted term whose escape spells the token of AND is sent as the
  operator alone, and its payload is not decoded to a term.\<close>

definition operator_search :: search_params where
  "operator_search = sample_search\<lparr>sp_expression := 34 # 92 # ascii ''x0ADAND'' @ [34], sp_minSize := 0, sp_availability := 0\<rparr>"

lemma operator_text_is_not_decoded:
  "buildSearchTermsPayload env operator_search [] False = Some ([0, 0], False) \<and>
   createSearchExpressionTree q [0, 0] 0 = Some (None, [])"
proof
  have p: "parseSearchExpression env ([] \<noteq> ([] :: u8 list)) (sp_expression operator_search) = Some ([term_attr (kSearchOpToken And)], [])"
    using escaped_term_reads_as_operator[of env] by (simp add: operator_search_def)
  have t: "search_terms operator_search [] [term_attr (kSearchOpToken And)] = [term_attr (kSearchOpToken And)]" by code_simp
  have b: "toBytes (map (clamp_num False) [term_attr (kSearchOpToken And)]) = [0, 0]" by code_simp
  show "buildSearchTermsPayload env operator_search [] False = Some ([0, 0], False)"
    unfolding buildSearchTermsPayload_def p Let_def option.case prod.case t b by simp
  show "createSearchExpressionTree q [0, 0] 0 = Some (None, [])" by code_simp
qed

end
