(* ===== verification/Search_Print.thy ===== *)
theory Search_Print
  imports Search_Payload
begin

text \<open>
  The grammar of the search parser against a printer: OR binds tighter than AND and NOT tighter than
  OR, operators of one level associate to the left, and AND may be left out.  A tree printed with the
  brackets this needs and no others is parsed back to that tree.
\<close>

section \<open>Printing\<close>

text \<open>The short form leaves AND out and writes a dash for NOT.\<close>

fun operator_text :: "bool \<Rightarrow> search_operator \<Rightarrow> u8 list" where
  "operator_text brief And = (if brief then [32] else 32 # ascii ''AND'' @ [32])"
| "operator_text brief Or = 32 # ascii ''OR'' @ [32]"
| "operator_text brief Not = (if brief then [32, 45] else 32 # ascii ''NOT'' @ [32])"

fun binding :: "search_operator \<Rightarrow> nat" where
  "binding And = 0"
| "binding Or = 1"
| "binding Not = 2"

fun printed :: "bool \<Rightarrow> nat \<Rightarrow> search_tree \<Rightarrow> u8 list" where
  "printed brief k (Leaf a) = sa_str a"
| "printed brief k (Op op l r) =
     (let s = printed brief (binding op) l @ operator_text brief op @ printed brief (Suc (binding op)) r
      in if binding op < k then 40 # s @ [41] else s)"

text \<open>A word that is read as a term.\<close>

definition plain_word :: "u8 list \<Rightarrow> bool" where
  "plain_word w \<longleftrightarrow> w \<noteq> [] \<and> (\<forall>c \<in> set w. isKeywordChar c) \<and> hd w \<noteq> 45 \<and> hd w \<noteq> 64 \<and> take 4 w \<noteq> ascii ''ed2k'' \<and>
     w \<noteq> ascii ''AND'' \<and> w \<noteq> ascii ''OR'' \<and> w \<noteq> ascii ''NOT'' \<and> \<not> isOperatorAttr (term_attr w)"

definition plain_tree :: "search_tree \<Rightarrow> bool" where
  "plain_tree t \<longleftrightarrow> (\<forall>a \<in> set (leaves t). \<exists>w. a = term_attr w \<and> plain_word w)"

section \<open>Scanning printed text\<close>

lemma ascii_simps: "ascii ''AND'' = [65, 78, 68]" "ascii ''OR'' = [79, 82]" "ascii ''NOT'' = [78, 79, 84]"
  "ascii ''ed2k'' = [101, 100, 50, 107]" "ascii ''ed2k://|file|'' = [101, 100, 50, 107, 58, 47, 47, 124, 102, 105, 108, 101, 124]"
  by (simp_all add: ascii_def)

lemma skip_space [simp]: "skipSpaces (32 # s) = skipSpaces s" "c \<noteq> 32 \<Longrightarrow> skipSpaces (c # s) = c # s"
  by (simp_all add: skipSpaces_def)

lemma scan_space [simp]: "scanToken env keep (32 # s) = scanToken env keep s"
  by (simp add: scanToken.simps[of env keep "32 # s"] scanToken.simps[of env keep s])

lemma scan_signs [simp]:
  "scanToken env keep (40 # s) = Some (LParen, [], s)" "scanToken env keep (41 # s) = Some (RParen, [], s)"
  "scanToken env keep (45 # s) = Some (Tok_Not, [], s)" "scanToken env keep [] = Some (Tok_Eof, [], [])"
  by (simp_all add: scanToken.simps[of env keep "_ # s"] scanToken.simps[of env keep "[]"] operator_chars_def skipSpaces_def)

text \<open>Text a printed piece can be followed by.\<close>

definition ends_word :: "u8 list \<Rightarrow> bool" where
  "ends_word rest \<longleftrightarrow> rest = [] \<or> hd rest = 32 \<or> hd rest = 41"

lemma word_ends:
  assumes "\<forall>c \<in> set w. isKeywordChar c" "ends_word rest"
  shows "takeWhile isKeywordChar (w @ rest) = w" "dropWhile isKeywordChar (w @ rest) = rest"
proof -
  have "rest = [] \<or> \<not> isKeywordChar (hd rest)" using assms(2) by (auto simp: ends_word_def isKeywordChar_def)
  then show "takeWhile isKeywordChar (w @ rest) = w" "dropWhile isKeywordChar (w @ rest) = rest"
    using assms(1) by (cases rest; auto)+
qed

lemma word_no_link:
  assumes "take 4 w \<noteq> ascii ''ed2k''" "ends_word rest"
  shows "\<not> starts_link (w @ rest)"
proof
  assume "starts_link (w @ rest)"
  then have "take 4 (take 13 (w @ rest)) = ascii ''ed2k''" by (simp add: starts_link_def ascii_simps)
  then have "take 4 (w @ rest) = ascii ''ed2k''" by (simp only: take_take min_def) simp
  then have t: "take 4 w @ take (4 - length w) rest = [101, 100, 50, 107]" by (simp add: ascii_simps)
  then have "rest \<noteq> [] \<and> length w < 4" using assms(1) by (cases rest; cases "4 - length w") (auto simp: ascii_simps)
  then have "hd rest \<in> set (take 4 w @ take (4 - length w) rest)" by (cases rest; cases "4 - length w") auto
  then show False using assms(2) \<open>rest \<noteq> [] \<and> length w < 4\<close> unfolding t by (auto simp: ends_word_def)
qed

lemma scan_word:
  assumes "w \<noteq> []" "\<forall>c \<in> set w. isKeywordChar c" "hd w \<noteq> 45" "hd w \<noteq> 64" "take 4 w \<noteq> ascii ''ed2k''" "ends_word rest"
  shows "scanToken env keep (w @ rest) = Some (keyword_token w, [], rest)"
proof -
  obtain c cs where w: "w = c # cs" using assms(1) by (cases w) auto
  have k: "isKeywordChar c" using assms(2) w by simp
  have c: "c \<notin> {32, 34, 40, 41, 60, 62, 61, 0, 45, 64}" using k assms(3,4) w by (auto simp: isKeywordChar_def)
  have s: "skipSpaces (w @ rest) = w @ rest" using c w by simp
  have "operator_chars (w @ rest) = None" using c w by (simp add: operator_chars_def)
  moreover have "hd (w @ rest) = c" "w @ rest \<noteq> []" using w by simp_all
  ultimately show ?thesis using c assms(1) word_ends[OF assms(2,6)] word_no_link[OF assms(5,6)]
    by (simp add: scanToken.simps[of env keep "w @ rest"] s Let_def del: append_is_Nil_conv hd_append2)
qed

lemma scan_plain: "plain_word w \<Longrightarrow> ends_word rest \<Longrightarrow> scanToken env keep (w @ rest) = Some (Tok_String w, [], rest)"
  by (subst scan_word) (auto simp: plain_word_def keyword_token_def)

text \<open>The states of the parser in front of a text.\<close>

definition parser_at :: "'f scan_env \<Rightarrow> bool \<Rightarrow> u8 list \<Rightarrow> parser" where
  "parser_at env keep s = (case scanToken env keep s of
     Some (t, errs, rest) \<Rightarrow> \<lparr>m_rest = rest, m_errors = errs, m_current = t\<rparr>
   | None \<Rightarrow> \<lparr>m_rest = [], m_errors = [], m_current = Tok_Eof\<rparr>)"

definition ready :: "'f scan_env \<Rightarrow> bool \<Rightarrow> u8 list \<Rightarrow> bool" where
  "ready env keep s \<longleftrightarrow> (\<exists>t rest. scanToken env keep s = Some (t, [], rest))"

lemma advance_at:
  assumes "ready env keep (m_rest p)" "m_errors p = []"
  shows "advance env keep p = Some (parser_at env keep (m_rest p))"
  using assms by (auto simp: advance_def ready_def parser_at_def)

lemma at_simps [simp]:
  "parser_at env keep (32 # s) = parser_at env keep s"
  "parser_at env keep (40 # s) = \<lparr>m_rest = s, m_errors = [], m_current = LParen\<rparr>"
  "parser_at env keep (41 # s) = \<lparr>m_rest = s, m_errors = [], m_current = RParen\<rparr>"
  "parser_at env keep (45 # s) = \<lparr>m_rest = s, m_errors = [], m_current = Tok_Not\<rparr>"
  "parser_at env keep [] = \<lparr>m_rest = [], m_errors = [], m_current = Tok_Eof\<rparr>"
  by (simp_all add: parser_at_def)

lemma ready_simps [simp]:
  "ready env keep (32 # s) = ready env keep s" "ready env keep (40 # s)" "ready env keep (41 # s)" "ready env keep (45 # s)" "ready env keep []"
  by (simp_all add: ready_def)

lemma ready_errors: "ready env keep s \<Longrightarrow> m_errors (parser_at env keep s) = []"
  by (auto simp: ready_def parser_at_def)

lemma at_word:
  "plain_word w \<Longrightarrow> ends_word rest \<Longrightarrow> parser_at env keep (w @ rest) = \<lparr>m_rest = rest, m_errors = [], m_current = Tok_String w\<rparr>"
  "plain_word w \<Longrightarrow> ends_word rest \<Longrightarrow> ready env keep (w @ rest)"
  by (simp_all add: parser_at_def ready_def scan_plain)

text \<open>The token of an operator, and what is left behind it.\<close>

fun operator_token :: "search_operator \<Rightarrow> token" where
  "operator_token And = Tok_And"
| "operator_token Or = Tok_Or"
| "operator_token Not = Tok_Not"

lemma scan_operator_words:
  "scanToken env keep (65 # 78 # 68 # 32 # s) = Some (Tok_And, [], 32 # s)"
  "scanToken env keep (79 # 82 # 32 # s) = Some (Tok_Or, [], 32 # s)"
  "scanToken env keep (78 # 79 # 84 # 32 # s) = Some (Tok_Not, [], 32 # s)"
  using scan_word[of "ascii ''AND''" "32 # s" env keep] scan_word[of "ascii ''OR''" "32 # s" env keep] scan_word[of "ascii ''NOT''" "32 # s" env keep]
  by (simp_all add: ascii_simps ends_word_def isKeywordChar_def keyword_token_def)

lemma at_operator:
  assumes "\<not> (brief \<and> op = And)"
  obtains rest where "parser_at env keep (operator_text brief op @ s) = \<lparr>m_rest = rest, m_errors = [], m_current = operator_token op\<rparr>"
    "parser_at env keep rest = parser_at env keep s" "ready env keep rest = ready env keep s" "ready env keep (operator_text brief op @ s)"
  using assms
  by (cases op; cases brief) (auto simp: parser_at_def ready_def ascii_simps scan_operator_words intro!: that)

lemma operator_ends_word [simp]: "ends_word (operator_text brief op @ s)"
  by (cases op) (simp_all add: ends_word_def)

lemma printed_start:
  assumes "plain_tree t" "ends_word rest"
  shows "ready env keep (printed brief k t @ rest) \<and> canStartPrimary (m_current (parser_at env keep (printed brief k t @ rest))) \<and>
    (\<forall>s. m_current (parser_at env keep (printed brief k t @ rest)) \<noteq> ED2KLink s)"
  using assms
proof (induction t arbitrary: k rest)
  case (Leaf a)
  then obtain w where "a = term_attr w" "plain_word w" by (auto simp: plain_tree_def)
  then show ?case using at_word[of w rest env keep] Leaf.prems by (simp add: term_attr_def)
next
  case (Op op l r)
  have "plain_tree l" using Op.prems by (simp add: plain_tree_def)
  then show ?case
    using Op.IH(1)[of "operator_text brief op @ printed brief (Suc (binding op)) r @ rest" "binding op"]
      Op.IH(1)[of "operator_text brief op @ printed brief (Suc (binding op)) r @ 41 # rest" "binding op"]
    by (simp add: Let_def)
qed

section \<open>Parsing printed text\<close>

text \<open>With enough fuel a level of the grammar has read a tree and stands in its loop, behind the tree.\<close>

definition reads_primary :: "'f scan_env \<Rightarrow> bool \<Rightarrow> u8 list \<Rightarrow> search_attr list \<Rightarrow> u8 list \<Rightarrow> bool" where
  "reads_primary env keep s e rest \<longleftrightarrow> (\<exists>n0. \<forall>n \<ge> n0. parsePrimary env keep n (parser_at env keep s) = Some (e, parser_at env keep rest))"

definition reads_level :: "(nat \<Rightarrow> parser \<Rightarrow> parsed) \<Rightarrow> (nat \<Rightarrow> nat \<Rightarrow> search_attr list \<Rightarrow> parser \<Rightarrow> parsed)
    \<Rightarrow> 'f scan_env \<Rightarrow> bool \<Rightarrow> u8 list \<Rightarrow> search_attr list \<Rightarrow> u8 list \<Rightarrow> bool" where
  "reads_level level loop env keep s e rest \<longleftrightarrow>
     (\<exists>c n0. \<forall>n \<ge> n0. c < n \<and> level n (parser_at env keep s) = loop n (n - c) e (parser_at env keep rest))"

abbreviation not_level :: "'f scan_env \<Rightarrow> bool \<Rightarrow> nat \<Rightarrow> parser \<Rightarrow> parsed" where
  "not_level env keep n \<equiv> parseNotExpr env keep (parsePrimary env keep n) n"

abbreviation or_level :: "'f scan_env \<Rightarrow> bool \<Rightarrow> nat \<Rightarrow> parser \<Rightarrow> parsed" where
  "or_level env keep n \<equiv> parseOrExpr env keep (parsePrimary env keep n) n"

abbreviation and_level :: "'f scan_env \<Rightarrow> bool \<Rightarrow> nat \<Rightarrow> parser \<Rightarrow> parsed" where
  "and_level env keep n \<equiv> parseAndExpr env keep (parsePrimary env keep n) n"

abbreviation reads_not :: "'f scan_env \<Rightarrow> bool \<Rightarrow> u8 list \<Rightarrow> search_attr list \<Rightarrow> u8 list \<Rightarrow> bool" where
  "reads_not env keep \<equiv> reads_level (not_level env keep) (\<lambda>n. not_loop env keep (parsePrimary env keep n)) env keep"

abbreviation reads_or :: "'f scan_env \<Rightarrow> bool \<Rightarrow> u8 list \<Rightarrow> search_attr list \<Rightarrow> u8 list \<Rightarrow> bool" where
  "reads_or env keep \<equiv> reads_level (or_level env keep) (\<lambda>n. or_loop env keep (not_level env keep n)) env keep"

abbreviation reads_and :: "'f scan_env \<Rightarrow> bool \<Rightarrow> u8 list \<Rightarrow> search_attr list \<Rightarrow> u8 list \<Rightarrow> bool" where
  "reads_and env keep \<equiv> reads_level (and_level env keep) (\<lambda>n. and_loop env keep (or_level env keep n)) env keep"

text \<open>A level that has read what its operand gives.\<close>

lemma level_starts:
  assumes "\<exists>n0. \<forall>n \<ge> n0. operand n (parser_at env keep s) = Some (e, parser_at env keep rest)" "ready env keep rest"
    and "\<And>n. level n = first_then (operand n) (loop n n)"
  shows "reads_level level loop env keep s e rest"
proof -
  obtain n0 where n: "\<forall>n \<ge> n0. operand n (parser_at env keep s) = Some (e, parser_at env keep rest)" using assms(1) by blast
  have "level n (parser_at env keep s) = loop n (n - 0) e (parser_at env keep rest)" if "Suc n0 \<le> n" for n
    using n that ready_errors[OF assms(2)] by (simp add: assms(3) first_then_def)
  then show ?thesis unfolding reads_level_def by (intro exI[of _ 0] exI[of _ "Suc n0"]) auto
qed

lemma level_stops:
  assumes "reads_level level loop env keep s e rest"
    and "\<And>n m. loop n (Suc m) e (parser_at env keep rest) = Some (e, parser_at env keep rest)"
  shows "\<exists>n0. \<forall>n \<ge> n0. level n (parser_at env keep s) = Some (e, parser_at env keep rest)"
proof -
  obtain c n0 where n: "\<forall>n \<ge> n0. c < n \<and> level n (parser_at env keep s) = loop n (n - c) e (parser_at env keep rest)"
    using assms(1) unfolding reads_level_def by blast
  have "level n (parser_at env keep s) = Some (e, parser_at env keep rest)" if "n0 \<le> n" for n
    using n that assms(2)[of n "n - c - 1"] by (metis Suc_diff_1 zero_less_diff)
  then show ?thesis by blast
qed

lemma level_continues:
  assumes "reads_level level loop env keep s e mid"
    and "\<exists>n0. \<forall>n \<ge> n0. operand n (parser_at env keep s') = Some (e', parser_at env keep rest)" "ready env keep rest"
    and "\<And>n m. loop n (Suc m) e (parser_at env keep mid) = right_side op (operand n) (loop n m) e (parser_at env keep s')"
  shows "reads_level level loop env keep s (combined op e e') rest"
proof -
  obtain c n0 where n: "\<forall>n \<ge> n0. c < n \<and> level n (parser_at env keep s) = loop n (n - c) e (parser_at env keep mid)"
    using assms(1) unfolding reads_level_def by blast
  obtain n1 where r: "\<forall>n \<ge> n1. operand n (parser_at env keep s') = Some (e', parser_at env keep rest)" using assms(2) by blast
  have "Suc c < n \<and> level n (parser_at env keep s) = loop n (n - Suc c) (combined op e e') (parser_at env keep rest)"
    if "n0 + n1 + c + 2 \<le> n" for n
  proof -
    have "n - c = Suc (n - Suc c)" using that by simp
    then have "level n (parser_at env keep s) = right_side op (operand n) (loop n (n - Suc c)) e (parser_at env keep s')"
      using n that assms(4)[of n "n - Suc c"] by simp
    then show ?thesis using r that ready_errors[OF assms(3)] by (simp add: right_side_def)
  qed
  then show ?thesis unfolding reads_level_def by (intro exI[of _ "Suc c"] exI[of _ "n0 + n1 + c + 2"]) auto
qed

text \<open>An operator that is written out starts its right side behind its token.\<close>

lemma explicit_at:
  assumes "\<not> (brief \<and> op = And)" "ready env keep s" "canStartPrimary (m_current (parser_at env keep s))"
  shows "m_current (parser_at env keep (operator_text brief op @ s)) = operator_token op"
    and "explicit_side env keep op operand loop e (parser_at env keep (operator_text brief op @ s)) =
      right_side op operand loop e (parser_at env keep s)"
proof -
  obtain rest where r: "parser_at env keep (operator_text brief op @ s) = \<lparr>m_rest = rest, m_errors = [], m_current = operator_token op\<rparr>"
    "parser_at env keep rest = parser_at env keep s" "ready env keep rest = ready env keep s"
    using at_operator[OF assms(1)] by metis
  then show "m_current (parser_at env keep (operator_text brief op @ s)) = operator_token op" by simp
  have "advance env keep (parser_at env keep (operator_text brief op @ s)) = Some (parser_at env keep s)"
    using advance_at[of env keep "parser_at env keep (operator_text brief op @ s)"] r assms(2) by simp
  then show "explicit_side env keep op operand loop e (parser_at env keep (operator_text brief op @ s)) =
      right_side op operand loop e (parser_at env keep s)"
    using assms(3) by (simp add: explicit_side_def)
qed

text \<open>What may follow: nothing that continues the level.\<close>

definition follows :: "'f scan_env \<Rightarrow> bool \<Rightarrow> nat \<Rightarrow> u8 list \<Rightarrow> bool" where
  "follows env keep k rest \<longleftrightarrow> ends_word rest \<and> ready env keep rest \<and>
     (k < 2 \<longrightarrow> m_current (parser_at env keep rest) \<noteq> Tok_Not) \<and> (k < 1 \<longrightarrow> m_current (parser_at env keep rest) \<noteq> Tok_Or)"

lemma follows_mono: "follows env keep k rest \<Longrightarrow> k \<le> k' \<Longrightarrow> follows env keep k' rest"
  by (auto simp: follows_def)

lemma follows_operator:
  assumes "plain_tree r" "ends_word rest"
  shows "follows env keep (binding op) (operator_text brief op @ printed brief k r @ rest)"
proof (cases "brief \<and> op = And")
  case True
  have "canStartPrimary (m_current (parser_at env keep (printed brief k r @ rest)))" "ready env keep (printed brief k r @ rest)"
    using printed_start[OF assms, of env keep brief k] by blast+
  then show ?thesis using True by (auto simp: follows_def ends_word_def)
next
  case False
  obtain rest' where "parser_at env keep (operator_text brief op @ printed brief k r @ rest) = \<lparr>m_rest = rest', m_errors = [], m_current = operator_token op\<rparr>"
    "ready env keep (operator_text brief op @ printed brief k r @ rest)"
    using at_operator[OF False, of env keep "printed brief k r @ rest"] by metis
  then show ?thesis by (cases op) (simp_all add: follows_def del: operator_text.simps)
qed

text \<open>The reading of one tree, by the level it is printed for.\<close>

definition reads_tree :: "'f scan_env \<Rightarrow> bool \<Rightarrow> bool \<Rightarrow> search_tree \<Rightarrow> bool" where
  "reads_tree env keep brief t \<longleftrightarrow>
     (\<forall>rest. follows env keep 3 rest \<longrightarrow> reads_primary env keep (printed brief 3 t @ rest) (flatten t) rest) \<and>
     (\<forall>rest. follows env keep 2 rest \<longrightarrow> reads_not env keep (printed brief 2 t @ rest) (flatten t) rest) \<and>
     (\<forall>rest. follows env keep 1 rest \<longrightarrow> reads_or env keep (printed brief 1 t @ rest) (flatten t) rest) \<and>
     (\<forall>rest. follows env keep 0 rest \<longrightarrow> reads_and env keep (printed brief 0 t @ rest) (flatten t) rest)"

lemma follows_ready: "follows env keep k rest \<Longrightarrow> ready env keep rest"
  by (simp add: follows_def)

lemma not_of_primary: "reads_primary env keep s e rest \<Longrightarrow> ready env keep rest \<Longrightarrow> reads_not env keep s e rest"
  unfolding reads_primary_def by (rule level_starts) (auto simp: parseNotExpr_def)

lemma not_stops:
  assumes "reads_not env keep s e rest" "follows env keep 1 rest"
  shows "\<exists>n0. \<forall>n \<ge> n0. not_level env keep n (parser_at env keep s) = Some (e, parser_at env keep rest)"
  by (rule level_stops[OF assms(1)]) (use assms(2) in \<open>simp add: follows_def\<close>)

lemma or_stops:
  assumes "reads_or env keep s e rest" "follows env keep 0 rest"
  shows "\<exists>n0. \<forall>n \<ge> n0. or_level env keep n (parser_at env keep s) = Some (e, parser_at env keep rest)"
  by (rule level_stops[OF assms(1)]) (use assms(2) in \<open>simp add: follows_def\<close>)

lemma or_of_not: "reads_not env keep s e rest \<Longrightarrow> follows env keep 1 rest \<Longrightarrow> reads_or env keep s e rest"
  by (rule level_starts[where operand = "not_level env keep"]) (auto intro!: not_stops simp: parseOrExpr_def follows_ready)

lemma and_of_or: "reads_or env keep s e rest \<Longrightarrow> follows env keep 0 rest \<Longrightarrow> reads_and env keep s e rest"
  by (rule level_starts[where operand = "or_level env keep"]) (auto intro!: or_stops simp: parseAndExpr_def follows_ready)

text \<open>Brackets: the tree inside is read to the closing bracket.\<close>

lemma primary_of_brackets:
  assumes "reads_and env keep (s @ 41 # rest) e (41 # rest)" "ready env keep rest" "ready env keep (s @ 41 # rest)"
    and "canStartPrimary (m_current (parser_at env keep (s @ 41 # rest)))"
  shows "reads_primary env keep (40 # s @ 41 # rest) e rest"
proof -
  have "\<exists>n0. \<forall>n \<ge> n0. and_level env keep n (parser_at env keep (s @ 41 # rest)) = Some (e, parser_at env keep (41 # rest))"
    by (rule level_stops[OF assms(1)]) simp
  then obtain n0 where n: "\<forall>n \<ge> n0. and_level env keep n (parser_at env keep (s @ 41 # rest)) = Some (e, parser_at env keep (41 # rest))"
    by blast
  have a: "advance env keep \<lparr>m_rest = s @ 41 # rest, m_errors = [], m_current = LParen\<rparr> = Some (parser_at env keep (s @ 41 # rest))"
    using advance_at[of env keep "\<lparr>m_rest = s @ 41 # rest, m_errors = [], m_current = LParen\<rparr>"] assms(3) by simp
  have b: "advance env keep \<lparr>m_rest = rest, m_errors = [], m_current = RParen\<rparr> = Some (parser_at env keep rest)"
    using advance_at[of env keep "\<lparr>m_rest = rest, m_errors = [], m_current = RParen\<rparr>"] assms(2) by simp
  have c: "m_current (parser_at env keep (s @ 41 # rest)) \<noteq> RParen" "m_current (parser_at env keep (s @ 41 # rest)) \<noteq> Tok_Eof"
    using assms(4) by auto
  have "parsePrimary env keep (Suc n) (parser_at env keep (40 # s @ 41 # rest)) = Some (e, parser_at env keep rest)" if "n0 \<le> n" for n
    using n that a b c by simp
  then show ?thesis unfolding reads_primary_def by (metis Suc_le_D Suc_le_mono)
qed

lemma primary_of_word:
  assumes "plain_word w" "follows env keep 3 rest"
  shows "reads_primary env keep (w @ rest) [term_attr w] rest"
proof -
  have e: "ends_word rest" "ready env keep rest" using assms(2) by (simp_all add: follows_def)
  have "advance env keep \<lparr>m_rest = rest, m_errors = [], m_current = Tok_String w\<rparr> = Some (parser_at env keep rest)"
    using advance_at[of env keep "\<lparr>m_rest = rest, m_errors = [], m_current = Tok_String w\<rparr>"] e(2) by simp
  then have "parsePrimary env keep (Suc n) (parser_at env keep (w @ rest)) = Some ([term_attr w], parser_at env keep rest)" for n
    using at_word(1)[OF assms(1) e(1), of env keep] by (simp add: parseAttributeExpr_def scan_behind_def)
  then show ?thesis unfolding reads_primary_def by (metis Suc_le_D)
qed

text \<open>The levels of a tree follow from the level of its own operator.\<close>

lemma follows_bracket [simp]: "follows env keep k (41 # rest)"
  by (simp add: follows_def ends_word_def)

lemma plain_sides: "plain_tree (Op op l r) \<longleftrightarrow> plain_tree l \<and> plain_tree r"
  by (auto simp: plain_tree_def)

lemma reads_operator:
  assumes "reads_tree env keep brief l" "reads_tree env keep brief r" "plain_tree l" "plain_tree r"
  shows "(op = Not \<longrightarrow> (\<forall>rest. follows env keep 2 rest \<longrightarrow> reads_not env keep (printed brief 2 (Op op l r) @ rest) (flatten (Op op l r)) rest)) \<and>
    (op = Or \<longrightarrow> (\<forall>rest. follows env keep 1 rest \<longrightarrow> reads_or env keep (printed brief 1 (Op op l r) @ rest) (flatten (Op op l r)) rest)) \<and>
    (op = And \<longrightarrow> (\<forall>rest. follows env keep 0 rest \<longrightarrow> reads_and env keep (printed brief 0 (Op op l r) @ rest) (flatten (Op op l r)) rest))"
proof (intro conjI impI allI)
  fix rest assume op: "op = Not" and f: "follows env keep 2 rest"
  have e: "ends_word rest" "ready env keep rest" using f by (simp_all add: follows_def)
  let ?mid = "operator_text brief op @ printed brief 3 r @ rest"
  have s: "ready env keep (printed brief 3 r @ rest)" "canStartPrimary (m_current (parser_at env keep (printed brief 3 r @ rest)))"
    using printed_start[OF assms(4) e(1)] by blast+
  have "follows env keep 2 ?mid" using follows_operator[OF assms(4) e(1), of env keep op brief 3] op by simp
  then have l: "reads_not env keep (printed brief 2 l @ ?mid) (flatten l) ?mid" using assms(1) unfolding reads_tree_def by blast
  have r: "\<exists>n0. \<forall>n \<ge> n0. parsePrimary env keep n (parser_at env keep (printed brief 3 r @ rest)) = Some (flatten r, parser_at env keep rest)"
    using assms(2) follows_mono[OF f, of 3] unfolding reads_tree_def reads_primary_def by simp
  have "reads_not env keep (printed brief 2 l @ ?mid) (combined op (flatten l) (flatten r)) rest"
    by (rule level_continues[where operand = "parsePrimary env keep" and s' = "printed brief 3 r @ rest", OF l], rule r, rule e(2))
      (use explicit_at[OF _ s, of brief op] op in \<open>simp del: operator_text.simps\<close>)
  then show "reads_not env keep (printed brief 2 (Op op l r) @ rest) (flatten (Op op l r)) rest"
    using op by (simp add: combined_def Let_def eval_nat_numeral del: operator_text.simps)
next
  fix rest assume op: "op = Or" and f: "follows env keep 1 rest"
  have e: "ends_word rest" "ready env keep rest" using f by (simp_all add: follows_def)
  let ?mid = "operator_text brief op @ printed brief 2 r @ rest"
  have s: "ready env keep (printed brief 2 r @ rest)" "canStartPrimary (m_current (parser_at env keep (printed brief 2 r @ rest)))"
    using printed_start[OF assms(4) e(1)] by blast+
  have "follows env keep 1 ?mid" using follows_operator[OF assms(4) e(1), of env keep op brief 2] op by simp
  then have l: "reads_or env keep (printed brief 1 l @ ?mid) (flatten l) ?mid" using assms(1) unfolding reads_tree_def by blast
  have "reads_not env keep (printed brief 2 r @ rest) (flatten r) rest"
    using assms(2) follows_mono[OF f, of 2] unfolding reads_tree_def by simp
  note r = not_stops[OF this f]
  have "reads_or env keep (printed brief 1 l @ ?mid) (combined op (flatten l) (flatten r)) rest"
    by (rule level_continues[where operand = "not_level env keep" and s' = "printed brief 2 r @ rest", OF l], rule r, rule e(2))
      (use explicit_at[OF _ s, of brief op] op in \<open>simp del: operator_text.simps\<close>)
  then show "reads_or env keep (printed brief 1 (Op op l r) @ rest) (flatten (Op op l r)) rest"
    using op by (simp add: combined_def Let_def eval_nat_numeral del: operator_text.simps)
next
  fix rest assume op: "op = And" and f: "follows env keep 0 rest"
  have e: "ends_word rest" "ready env keep rest" using f by (simp_all add: follows_def)
  let ?mid = "operator_text brief op @ printed brief 1 r @ rest"
  have s: "ready env keep (printed brief 1 r @ rest)" "canStartPrimary (m_current (parser_at env keep (printed brief 1 r @ rest)))"
    using printed_start[OF assms(4) e(1)] by blast+
  have "follows env keep 0 ?mid" using follows_operator[OF assms(4) e(1), of env keep op brief 1] op by simp
  then have l: "reads_and env keep (printed brief 0 l @ ?mid) (flatten l) ?mid" using assms(1) unfolding reads_tree_def by blast
  have "reads_or env keep (printed brief 1 r @ rest) (flatten r) rest"
    using assms(2) follows_mono[OF f, of 1] unfolding reads_tree_def by simp
  note r = or_stops[OF this f]
  have "reads_and env keep (printed brief 0 l @ ?mid) (combined op (flatten l) (flatten r)) rest"
  proof (rule level_continues[where operand = "or_level env keep" and s' = "printed brief 1 r @ rest", OF l], rule r, rule e(2))
    fix n m
    show "and_loop env keep (or_level env keep n) (Suc m) (flatten l) (parser_at env keep ?mid) =
        right_side op (or_level env keep n) (and_loop env keep (or_level env keep n) m) (flatten l) (parser_at env keep (printed brief 1 r @ rest))"
    proof (cases brief)
      case True
      have "m_current (parser_at env keep (printed brief 1 r @ rest)) \<noteq> Tok_And" using s(2) by auto
      then show ?thesis using True op s(2) by simp
    next
      case False
      then show ?thesis using explicit_at[OF _ s, of brief op] op by (simp del: operator_text.simps)
    qed
  qed
  then show "reads_and env keep (printed brief 0 (Op op l r) @ rest) (flatten (Op op l r)) rest"
    using op by (simp add: combined_def Let_def del: operator_text.simps)
qed

lemma printed_levels:
  "binding op < k \<Longrightarrow> printed brief k (Op op l r) @ rest = 40 # printed brief 0 (Op op l r) @ 41 # rest"
  "k \<le> binding op \<Longrightarrow> printed brief k (Op op l r) = printed brief 0 (Op op l r)"
  by (simp_all add: Let_def del: operator_text.simps)

lemma plain_read:
  assumes "plain_tree t"
  shows "reads_tree env keep brief t"
  using assms
proof (induction t)
  case (Leaf a)
  then obtain w where w: "a = term_attr w" "plain_word w" by (auto simp: plain_tree_def)
  have p: "reads_primary env keep (w @ rest) [a] rest" if "follows env keep 3 rest" for rest
    using primary_of_word[OF w(2) that] w(1) by simp
  have n: "reads_not env keep (w @ rest) [a] rest" if "follows env keep 2 rest" for rest
    using not_of_primary[OF p[OF follows_mono[OF that]] follows_ready[OF that]] by simp
  have o: "reads_or env keep (w @ rest) [a] rest" if "follows env keep 1 rest" for rest
    using or_of_not[OF n[OF follows_mono[OF that]] that] by simp
  have "reads_and env keep (w @ rest) [a] rest" if "follows env keep 0 rest" for rest
    using and_of_or[OF o[OF follows_mono[OF that]] that] by simp
  then show ?case unfolding reads_tree_def using p n o w(1) by (simp add: term_attr_def)
next
  case (Op op l r)
  let ?t = "Op op l r"
  have p: "plain_tree l" "plain_tree r" using Op.prems by (simp_all add: plain_sides)
  note own = reads_operator[OF Op.IH(1)[OF p(1)] Op.IH(2)[OF p(2)] p, of op]
  have up_or: "reads_or env keep (printed brief 1 ?t @ rest) (flatten ?t) rest"
    if "\<forall>rest. follows env keep 2 rest \<longrightarrow> reads_not env keep (printed brief 2 ?t @ rest) (flatten ?t) rest"
      "printed brief 1 ?t = printed brief 2 ?t" "follows env keep 1 rest" for rest
    using or_of_not[OF that(1)[rule_format, OF follows_mono[OF that(3)]] that(3)] that(2) by simp
  have up_and: "reads_and env keep (printed brief 0 ?t @ rest) (flatten ?t) rest"
    if "\<forall>rest. follows env keep 1 rest \<longrightarrow> reads_or env keep (printed brief 1 ?t @ rest) (flatten ?t) rest"
      "printed brief 0 ?t = printed brief 1 ?t" "follows env keep 0 rest" for rest
    using and_of_or[OF that(1)[rule_format, OF follows_mono[OF that(3)]] that(3)] that(2) by simp
  have bracket: "reads_primary env keep (40 # printed brief 0 ?t @ 41 # rest) (flatten ?t) rest"
    if "\<forall>rest. follows env keep 0 rest \<longrightarrow> reads_and env keep (printed brief 0 ?t @ rest) (flatten ?t) rest" "follows env keep 3 rest" for rest
    by (rule primary_of_brackets)
      (use that printed_start[OF Op.prems, of "41 # rest" env keep brief 0] follows_ready in \<open>auto simp: ends_word_def simp del: printed.simps\<close>)
  have base: "(\<forall>rest. follows env keep 0 rest \<longrightarrow> reads_and env keep (printed brief 0 ?t @ rest) (flatten ?t) rest) \<and>
      (op \<noteq> And \<longrightarrow> (\<forall>rest. follows env keep 1 rest \<longrightarrow> reads_or env keep (printed brief 1 ?t @ rest) (flatten ?t) rest))"
  proof (cases op)
    case And
    then show ?thesis using own by blast
  next
    case Or
    then have o: "\<forall>rest. follows env keep 1 rest \<longrightarrow> reads_or env keep (printed brief 1 ?t @ rest) (flatten ?t) rest" using own by blast
    have "printed brief 0 ?t = printed brief 1 ?t" using printed_levels(2)[of 1 op] Or by simp
    then show ?thesis using up_and[OF o] o by blast
  next
    case Not
    then have n: "\<forall>rest. follows env keep 2 rest \<longrightarrow> reads_not env keep (printed brief 2 ?t @ rest) (flatten ?t) rest" using own by blast
    have e: "printed brief 1 ?t = printed brief 2 ?t" "printed brief 0 ?t = printed brief 1 ?t"
      using printed_levels(2)[of 1 op brief l r] printed_levels(2)[of 2 op brief l r] Not by simp_all
    have o: "\<forall>rest. follows env keep 1 rest \<longrightarrow> reads_or env keep (printed brief 1 ?t @ rest) (flatten ?t) rest"
      using up_or[OF n e(1)] by blast
    then show ?thesis using up_and[OF o e(2)] by blast
  qed
  have c3: "reads_primary env keep (printed brief 3 ?t @ rest) (flatten ?t) rest" if "follows env keep 3 rest" for rest
  proof -
    have "binding op < 3" by (cases op) simp_all
    then show ?thesis using bracket[OF conjunct1[OF base] that] by (simp only: printed_levels(1))
  qed
  have c2: "reads_not env keep (printed brief 2 ?t @ rest) (flatten ?t) rest" if f: "follows env keep 2 rest" for rest
  proof (cases "op = Not")
    case True
    then show ?thesis using own f by blast
  next
    case False
    then have "printed brief 2 ?t @ rest = printed brief 3 ?t @ rest" by (cases op) (simp_all only: printed_levels(1) binding.simps, simp_all)
    then show ?thesis using not_of_primary[OF c3[OF follows_mono[OF f]] follows_ready[OF f]] by simp
  qed
  have c1: "reads_or env keep (printed brief 1 ?t @ rest) (flatten ?t) rest" if f: "follows env keep 1 rest" for rest
  proof (cases "op = And")
    case True
    then have "printed brief 1 ?t @ rest = printed brief 2 ?t @ rest" by (simp only: printed_levels(1) binding.simps zero_less_numeral zero_less_one)
    then show ?thesis using or_of_not[OF c2[OF follows_mono[OF f]] f] by simp
  next
    case False
    then show ?thesis using base f by blast
  qed
  show ?case unfolding reads_tree_def using c3 c2 c1 base by blast
qed

lemma printed_no_nul: "plain_tree t \<Longrightarrow> 0 \<notin> set (printed brief k t)"
proof (induction t arbitrary: k)
  case (Leaf a)
  then obtain w where "a = term_attr w" "plain_word w" by (auto simp: plain_tree_def)
  then show ?case by (auto simp: plain_word_def term_attr_def isKeywordChar_def)
next
  case (Op op l r)
  have "0 \<notin> set (operator_text brief op)" by (cases op) (auto simp: ascii_simps)
  then show ?case using Op by (simp add: plain_sides Let_def del: operator_text.simps)
qed

lemma plain_unambiguous: "plain_tree t \<Longrightarrow> unambiguous t"
  by (auto simp: plain_tree_def unambiguous_def plain_word_def)

text \<open>C4. The parser has the documented grammar: OR binds tighter than AND, NOT tighter than OR, operators
  of one level associate to the left.  A tree of plain words printed with only the brackets this
  grammar needs - with the operators written out, or with AND left out and a dash for NOT - is parsed
  back to exactly that tree.\<close>

theorem printed_tree_is_parsed:
  assumes "sound_env env" and "plain_tree t" and "operators_in t \<le> 10"
  shows "parseSearchExpression env keep (printed brief 0 t) = Some (flatten t, [])"
proof -
  let ?s = "printed brief 0 t"
  have start: "ready env keep ?s" "canStartPrimary (m_current (parser_at env keep ?s))" "\<forall>w. m_current (parser_at env keep ?s) \<noteq> ED2KLink w"
    using printed_start[OF assms(2), of "[]" env keep brief 0] by (simp_all add: ends_word_def)
  have "follows env keep 0 []" by (simp add: follows_def ends_word_def)
  then have "reads_and env keep (?s @ []) (flatten t) []" using plain_read[OF assms(2), of env keep brief] unfolding reads_tree_def by blast
  then have "reads_and env keep ?s (flatten t) []" by simp
  from level_stops[OF this] obtain n0 where n0: "\<forall>n \<ge> n0. and_level env keep n (parser_at env keep ?s) = Some (flatten t, parser_at env keep [])"
    by auto
  have fin: "finish_parse (flatten t) (parser_at env keep []) = (flatten t, [])"
    using operators_counted[OF plain_unambiguous[OF assms(2)]] assms(3)
    by (simp add: finish_parse_def operator_count_def kMaxSearchOperators_def)
  let ?n = "n0 + parse_fuel ?s"
  have a: "advance env keep \<lparr>m_rest = ?s, m_errors = [], m_current = Tok_Eof\<rparr> = Some (parser_at env keep ?s)"
    using advance_at[of env keep "\<lparr>m_rest = ?s, m_errors = [], m_current = Tok_Eof\<rparr>"] start(1) by simp
  have "parse_first env keep ?n (parser_at env keep ?s) = and_level env keep ?n (parser_at env keep ?s)"
    using start(3) by (simp add: parse_first_def split: token.split del: parsePrimary.simps)
  also have "\<dots> = Some (flatten t, parser_at env keep [])" using n0 le_add1 by blast
  finally have "parse_with env keep ?n ?s = Some (flatten t, [])"
    using a fin start(2) by (auto simp: parse_with_def)
  then show ?thesis using parse_fuel_enough[OF assms(1) printed_no_nul[OF assms(2)], of brief 0 ?n keep] by simp
qed

definition sample_print_tree :: search_tree where
  "sample_print_tree = Op And (Op Not (Leaf (term_attr (ascii ''a''))) (Op Or (Leaf (term_attr (ascii ''b''))) (Leaf (term_attr (ascii ''c''))))) (Leaf (term_attr (ascii ''d'')))"

lemma printed_tree_is_parsed_witness:
  "printed True 0 sample_print_tree = ascii ''a -(b OR c) d'' \<and>
   parseSearchExpression sample_scan_env False (printed True 0 sample_print_tree) = Some (flatten sample_print_tree, [])"
proof
  show "printed True 0 sample_print_tree = ascii ''a -(b OR c) d''"
    by (simp add: sample_print_tree_def ascii_def term_attr_def)
  have w: "plain_word [97]" "plain_word [98]" "plain_word [99]" "plain_word [100]"
    by (simp_all add: plain_word_def isKeywordChar_def ascii_def isOperatorAttr_def term_attr_def)
  have "plain_tree sample_print_tree" using w by (auto simp: plain_tree_def sample_print_tree_def ascii_def)
  then show "parseSearchExpression sample_scan_env False (printed True 0 sample_print_tree) = Some (flatten sample_print_tree, [])"
    by (rule printed_tree_is_parsed[OF sample_env_sound]) (simp add: sample_print_tree_def)
qed

end
