(* ===== verification/Tags.thy ===== *)
theory Tags
  imports Safe_File "HOL-Library.Monad_Syntax"
begin

text \<open>
  Tags, the named values of ED2K packets and files (src/core/protocol/Tag.cpp), with the strings of
  FileDataIO (src/core/utils/SafeFile.cpp).  A QString is a list of 16-bit units and its codecs are
  a parameter; a float is its four bytes.  Reading is from a memory file opened for reading, where
  a seek past the end throws; None is an exception.
\<close>

section \<open>Strings\<close>

type_synonym qtext = "u16 list"

text \<open>The codecs of Qt; the strict decoder is the stateless QStringDecoder, None where it reports an error.\<close>

record text_codec =
  c_toUtf8 :: "qtext \<Rightarrow> u8 list"
  c_fromUtf8 :: "u8 list \<Rightarrow> qtext"
  c_strict :: "u8 list \<Rightarrow> qtext option"
  c_toLatin1 :: "qtext \<Rightarrow> u8 list"

datatype utf8_mode = Mode_None | OptBOM | Raw

definition utf8_bom :: "u8 list" where
  "utf8_bom = [0xEF, 0xBB, 0xBF]"

definition encode_text :: "text_codec \<Rightarrow> utf8_mode \<Rightarrow> qtext \<Rightarrow> u8 list" where
  "encode_text c mode str =
     (case mode of
        Raw \<Rightarrow> c_toUtf8 c str
      | OptBOM \<Rightarrow> if \<exists>ch \<in> set str. ch > 0x7F then utf8_bom @ c_toUtf8 c str else c_toLatin1 c str
      | Mode_None \<Rightarrow> c_toLatin1 c str)"

definition fromLatin1 :: "u8 list \<Rightarrow> qtext" where
  "fromLatin1 raw = map ucast raw"

definition decode_text :: "text_codec \<Rightarrow> bool \<Rightarrow> u8 list \<Rightarrow> qtext" where
  "decode_text c optUTF8 raw =
     (if length raw \<ge> 3 \<and> take 3 raw = utf8_bom then c_fromUtf8 c (drop 3 raw)
      else if optUTF8 then (case c_strict c raw of Some str \<Rightarrow> str | None \<Rightarrow> fromLatin1 raw)
      else fromLatin1 raw)"

definition readString_of :: "text_codec \<Rightarrow> bool \<Rightarrow> nat \<Rightarrow> in_bytes \<Rightarrow> (qtext \<times> in_bytes) option" where
  "readString_of c optUTF8 rawSize f =
     (if rawSize = 0 then Some ([], f)
      else do { (raw, f1) \<leftarrow> read_bytes rawSize f; Some (decode_text c optUTF8 raw, f1) })"

definition readString :: "text_codec \<Rightarrow> bool \<Rightarrow> in_bytes \<Rightarrow> (qtext \<times> in_bytes) option" where
  "readString c optUTF8 f = do { (rawSize, f1) \<leftarrow> readUInt16 f; readString_of c optUTF8 (unat rawSize) f1 }"

definition writeString :: "text_codec \<Rightarrow> utf8_mode \<Rightarrow> qtext \<Rightarrow> out_bytes option" where
  "writeString c mode str =
     (let raw = encode_text c mode str
      in if length raw > 0xFFFF then None else Some (writeUInt16 (of_nat (length raw)) @ raw))"

section \<open>The tag\<close>

definition TAGTYPE_NONE :: u8 where "TAGTYPE_NONE = 0x00"
definition TAGTYPE_HASH :: u8 where "TAGTYPE_HASH = 0x01"
definition TAGTYPE_STRING :: u8 where "TAGTYPE_STRING = 0x02"
definition TAGTYPE_UINT32 :: u8 where "TAGTYPE_UINT32 = 0x03"
definition TAGTYPE_FLOAT32 :: u8 where "TAGTYPE_FLOAT32 = 0x04"
definition TAGTYPE_BOOL :: u8 where "TAGTYPE_BOOL = 0x05"
definition TAGTYPE_BOOLARRAY :: u8 where "TAGTYPE_BOOLARRAY = 0x06"
definition TAGTYPE_BLOB :: u8 where "TAGTYPE_BLOB = 0x07"
definition TAGTYPE_UINT16 :: u8 where "TAGTYPE_UINT16 = 0x08"
definition TAGTYPE_UINT8 :: u8 where "TAGTYPE_UINT8 = 0x09"
definition TAGTYPE_BSOB :: u8 where "TAGTYPE_BSOB = 0x0A"
definition TAGTYPE_UINT64 :: u8 where "TAGTYPE_UINT64 = 0x0B"
definition TAGTYPE_STR1 :: u8 where "TAGTYPE_STR1 = 0x11"
definition TAGTYPE_STR22 :: u8 where "TAGTYPE_STR22 = 0x26"

lemmas tagtype_defs = TAGTYPE_NONE_def TAGTYPE_HASH_def TAGTYPE_STRING_def TAGTYPE_UINT32_def TAGTYPE_FLOAT32_def
  TAGTYPE_BOOL_def TAGTYPE_BOOLARRAY_def TAGTYPE_BLOB_def TAGTYPE_UINT16_def TAGTYPE_UINT8_def TAGTYPE_BSOB_def
  TAGTYPE_UINT64_def TAGTYPE_STR1_def TAGTYPE_STR22_def

text \<open>The variant of a tag's value.\<close>

datatype tag_data = No_data | Int_data u64 | Str_data qtext | Float_data "u8 list" | Hash_data "u8 list" | Blob_data "u8 list"

record tag =
  t_data :: tag_data
  t_name :: "u8 list"
  t_type :: u8
  t_nameId :: u8

text \<open>A tag is given its numeric name or its string name; the other stays empty.\<close>

datatype tag_label = By_id u8 | By_name "u8 list"

definition labelled :: "tag_label \<Rightarrow> u8 \<Rightarrow> tag_data \<Rightarrow> tag" where
  "labelled l ty v =
     (case l of By_id i \<Rightarrow> \<lparr>t_data = v, t_name = [], t_type = ty, t_nameId = i\<rparr>
      | By_name n \<Rightarrow> \<lparr>t_data = v, t_name = n, t_type = ty, t_nameId = 0\<rparr>)"

definition tag_uint32 :: "tag_label \<Rightarrow> u32 \<Rightarrow> tag" where
  "tag_uint32 l v = labelled l TAGTYPE_UINT32 (Int_data (ucast v))"
definition tag_uint64 :: "tag_label \<Rightarrow> u64 \<Rightarrow> tag" where
  "tag_uint64 l v = labelled l TAGTYPE_UINT64 (Int_data v)"
definition tag_string :: "tag_label \<Rightarrow> qtext \<Rightarrow> tag" where
  "tag_string l v = labelled l TAGTYPE_STRING (Str_data v)"
definition tag_float :: "tag_label \<Rightarrow> u8 list \<Rightarrow> tag" where
  "tag_float l v = labelled l TAGTYPE_FLOAT32 (Float_data v)"
definition tag_hash :: "tag_label \<Rightarrow> u8 list \<Rightarrow> tag" where
  "tag_hash l hash16 = labelled l TAGTYPE_HASH (Hash_data (take 16 hash16))"
definition tag_blob :: "tag_label \<Rightarrow> u8 list \<Rightarrow> tag" where
  "tag_blob l v = labelled l TAGTYPE_BLOB (Blob_data v)"
definition makeBsob :: "tag_label \<Rightarrow> u8 list \<Rightarrow> tag" where
  "makeBsob l v = (tag_blob l v)\<lparr>t_type := TAGTYPE_BSOB\<rparr>"

lemmas tag_constructors = tag_uint32_def tag_uint64_def tag_string_def tag_float_def tag_hash_def tag_blob_def

text \<open>The value accessors throw when the variant holds something else.\<close>

definition int64Value :: "tag \<Rightarrow> u64 option" where
  "int64Value t = (case t_data t of Int_data v \<Rightarrow> Some v | _ \<Rightarrow> None)"
definition intValue :: "tag \<Rightarrow> u32 option" where
  "intValue t = map_option ucast (int64Value t)"
definition strValue :: "tag \<Rightarrow> qtext option" where
  "strValue t = (case t_data t of Str_data v \<Rightarrow> Some v | _ \<Rightarrow> None)"
definition floatValue :: "tag \<Rightarrow> u8 list option" where
  "floatValue t = (case t_data t of Float_data v \<Rightarrow> Some v | _ \<Rightarrow> None)"
definition hashValue :: "tag \<Rightarrow> u8 list option" where
  "hashValue t = (case t_data t of Hash_data v \<Rightarrow> Some v | _ \<Rightarrow> None)"
definition blobValue :: "tag \<Rightarrow> u8 list option" where
  "blobValue t = (case t_data t of Blob_data v \<Rightarrow> Some v | _ \<Rightarrow> None)"

lemmas tag_accessors = int64Value_def intValue_def strValue_def floatValue_def hashValue_def blobValue_def

definition isInt64 :: "bool \<Rightarrow> tag \<Rightarrow> bool" where
  "isInt64 orInt32 t \<longleftrightarrow> t_type t = TAGTYPE_UINT64 \<or> (orInt32 \<and> t_type t = TAGTYPE_UINT32)"

definition setInt :: "u32 \<Rightarrow> tag \<Rightarrow> tag" where
  "setInt v t = t\<lparr>t_data := Int_data (ucast v), t_type := TAGTYPE_UINT32\<rparr>"
definition setInt64 :: "u64 \<Rightarrow> tag \<Rightarrow> tag" where
  "setInt64 v t = t\<lparr>t_data := Int_data v, t_type := TAGTYPE_UINT64\<rparr>"
definition setStr :: "qtext \<Rightarrow> tag \<Rightarrow> tag" where
  "setStr v t = t\<lparr>t_data := Str_data v, t_type := TAGTYPE_STRING\<rparr>"

section \<open>Reading\<close>

text \<open>The type without its high bit, the string name and the number.\<close>

definition read_label :: "in_bytes \<Rightarrow> ((u8 \<times> u8 list \<times> u8) \<times> in_bytes) option" where
  "read_label f = do {
     (ty, f1) \<leftarrow> readUInt8 f;
     if ty AND 0x80 \<noteq> 0 then do { (i, f2) \<leftarrow> readUInt8 f1; Some ((ty AND 0x7F, [], i), f2) }
     else do {
       (nameLen, f2) \<leftarrow> readUInt16 f1;
       if nameLen = 1 then do { (i, f3) \<leftarrow> readUInt8 f2; Some ((ty, [], i), f3) }
       else if nameLen > 0 then do { (n, f3) \<leftarrow> read_bytes (unat nameLen) f2; Some ((ty, n, 0), f3) }
       else Some ((ty, [], 0), f2) } }"

definition seek_on :: "nat \<Rightarrow> in_bytes \<Rightarrow> in_bytes option" where
  "seek_on k f = (if length f < k then None else Some (drop k f))"

text \<open>The value and the type it is kept under.\<close>

definition read_data :: "text_codec \<Rightarrow> bool \<Rightarrow> u8 \<Rightarrow> in_bytes \<Rightarrow> ((tag_data \<times> u8) \<times> in_bytes) option" where
  "read_data c optUTF8 ty f =
     (if ty = TAGTYPE_STRING then do { (s, f1) \<leftarrow> readString c optUTF8 f; Some ((Str_data s, ty), f1) }
      else if ty = TAGTYPE_UINT32 then do { (v, f1) \<leftarrow> readUInt32 f; Some ((Int_data (ucast v), ty), f1) }
      else if ty = TAGTYPE_UINT64 then do { (v, f1) \<leftarrow> readUInt64 f; Some ((Int_data v, ty), f1) }
      else if ty = TAGTYPE_UINT16 then do { (v, f1) \<leftarrow> readUInt16 f; Some ((Int_data (ucast v), TAGTYPE_UINT32), f1) }
      else if ty = TAGTYPE_UINT8 then do { (v, f1) \<leftarrow> readUInt8 f; Some ((Int_data (ucast v), TAGTYPE_UINT32), f1) }
      else if ty = TAGTYPE_FLOAT32 then do { (v, f1) \<leftarrow> read_bytes 4 f; Some ((Float_data v, ty), f1) }
      else if ty = TAGTYPE_HASH then do { (v, f1) \<leftarrow> read_bytes 16 f; Some ((Hash_data v, ty), f1) }
      else if ty = TAGTYPE_BLOB then do {
        (blobLen, f1) \<leftarrow> readUInt32 f;
        if unat blobLen > length f1 then None
        else do { (v, f2) \<leftarrow> read_bytes (unat blobLen) f1; Some ((Blob_data v, ty), f2) } }
      else if ty = TAGTYPE_BSOB then do {
        (bsobLen, f1) \<leftarrow> readUInt8 f;
        (v, f2) \<leftarrow> read_bytes (unat bsobLen) f1;
        Some ((Blob_data v, TAGTYPE_BLOB), f2) }
      else if ty = TAGTYPE_BOOL then do { f1 \<leftarrow> seek_on 1 f; Some ((No_data, TAGTYPE_NONE), f1) }
      else if ty = TAGTYPE_BOOLARRAY then do {
        (bits, f1) \<leftarrow> readUInt16 f;
        f2 \<leftarrow> seek_on (unat bits div 8 + 1) f1;
        Some ((No_data, TAGTYPE_NONE), f2) }
      else if TAGTYPE_STR1 \<le> ty \<and> ty \<le> TAGTYPE_STR22 then do {
        (s, f1) \<leftarrow> readString_of c optUTF8 (unat (ty - TAGTYPE_STR1) + 1) f;
        Some ((Str_data s, TAGTYPE_STRING), f1) }
      else Some ((No_data, TAGTYPE_NONE), f))"

definition readTag :: "text_codec \<Rightarrow> bool \<Rightarrow> in_bytes \<Rightarrow> (tag \<times> in_bytes) option" where
  "readTag c optUTF8 f = do {
     ((ty, n, i), f1) \<leftarrow> read_label f;
     ((v, ty1), f2) \<leftarrow> read_data c optUTF8 ty f1;
     Some (\<lparr>t_data = v, t_name = n, t_type = ty1, t_nameId = i\<rparr>, f2) }"

definition kMaxWireTags :: u32 where "kMaxWireTags = 256"
definition kMaxFileTags :: u32 where "kMaxFileTags = 0xFFFFFFFF"

definition checkTagCount :: "in_bytes \<Rightarrow> u32 \<Rightarrow> u32 \<Rightarrow> bool" where
  "checkTagCount f n maxTags \<longleftrightarrow> \<not> (n > maxTags \<or> unat n > length f)"

definition readTagCount :: "in_bytes \<Rightarrow> u32 \<Rightarrow> (u32 \<times> in_bytes) option" where
  "readTagCount f maxTags = do {
     (n, f1) \<leftarrow> readUInt32 f;
     if checkTagCount f1 n maxTags then Some (n, f1) else None }"

text \<open>The loop of every reader of a tag list: the count, then so many tags.\<close>

fun read_tags :: "text_codec \<Rightarrow> bool \<Rightarrow> nat \<Rightarrow> in_bytes \<Rightarrow> (tag list \<times> in_bytes) option" where
  "read_tags c optUTF8 0 f = Some ([], f)"
| "read_tags c optUTF8 (Suc k) f = do {
     (t, f1) \<leftarrow> readTag c optUTF8 f;
     (ts, f2) \<leftarrow> read_tags c optUTF8 k f1;
     Some (t # ts, f2) }"

definition readTagList :: "text_codec \<Rightarrow> bool \<Rightarrow> u32 \<Rightarrow> in_bytes \<Rightarrow> (tag list \<times> in_bytes) option" where
  "readTagList c optUTF8 maxTags f = do {
     (n, f1) \<leftarrow> readTagCount f maxTags;
     read_tags c optUTF8 (unat n) f1 }"

section \<open>Writing\<close>

definition write_old_name :: "tag \<Rightarrow> out_bytes" where
  "write_old_name t =
     (if t_nameId t \<noteq> 0 \<and> t_name t = [] then writeUInt16 1 @ writeUInt8 (t_nameId t)
      else writeUInt16 (of_nat (length (t_name t))) @ t_name t)"

text \<open>The result and the bytes written; None where it throws.\<close>

definition writeTagToFile :: "text_codec \<Rightarrow> utf8_mode \<Rightarrow> tag \<Rightarrow> (bool \<times> out_bytes) option" where
  "writeTagToFile c encode t =
     (let head = writeUInt8 (t_type t) @ write_old_name t in
      if t_type t = TAGTYPE_STRING then do { s \<leftarrow> strValue t; b \<leftarrow> writeString c encode s; Some (True, head @ b) }
      else if t_type t = TAGTYPE_UINT32 then do { v \<leftarrow> intValue t; Some (True, head @ writeUInt32 v) }
      else if t_type t = TAGTYPE_UINT64 then do { v \<leftarrow> int64Value t; Some (True, head @ writeUInt64 v) }
      else if t_type t = TAGTYPE_FLOAT32 then do { v \<leftarrow> floatValue t; Some (True, head @ v) }
      else if t_type t = TAGTYPE_HASH then do { v \<leftarrow> hashValue t; Some (True, head @ v) }
      else if t_type t = TAGTYPE_BLOB then do {
        v \<leftarrow> blobValue t; Some (True, head @ writeUInt32 (of_nat (length v)) @ v) }
      else Some (False, head))"

definition writeNameAndType :: "tag \<Rightarrow> u8 \<Rightarrow> out_bytes" where
  "writeNameAndType t wireType =
     (if t_nameId t \<noteq> 0 \<and> t_name t = [] then writeUInt8 (wireType OR 0x80) @ writeUInt8 (t_nameId t)
      else writeUInt8 wireType @ writeUInt16 (of_nat (length (t_name t))) @ t_name t)"

definition write_new_string :: "tag \<Rightarrow> u8 list \<Rightarrow> out_bytes" where
  "write_new_string t raw =
     (if 1 \<le> length raw \<and> length raw \<le> 16 then writeNameAndType t (TAGTYPE_STR1 + of_nat (length raw) - 1) @ raw
      else writeNameAndType t TAGTYPE_STRING @ writeUInt16 (of_nat (length raw)) @ raw)"

definition write_new_int :: "tag \<Rightarrow> u64 \<Rightarrow> out_bytes" where
  "write_new_int t v =
     (if v \<le> 0xFF then writeNameAndType t TAGTYPE_UINT8 @ writeUInt8 (ucast v)
      else if v \<le> 0xFFFF then writeNameAndType t TAGTYPE_UINT16 @ writeUInt16 (ucast v)
      else if v \<le> 0xFFFFFFFF then writeNameAndType t TAGTYPE_UINT32 @ writeUInt32 (ucast v)
      else writeNameAndType t TAGTYPE_UINT64 @ writeUInt64 v)"

definition writeNewEd2kTag :: "text_codec \<Rightarrow> utf8_mode \<Rightarrow> tag \<Rightarrow> (bool \<times> out_bytes) option" where
  "writeNewEd2kTag c encode t =
     (if t_type t = TAGTYPE_STRING then do { s \<leftarrow> strValue t; Some (True, write_new_string t (encode_text c encode s)) }
      else if t_type t = TAGTYPE_UINT32 then do { v \<leftarrow> intValue t; Some (True, write_new_int t (ucast v)) }
      else if t_type t = TAGTYPE_UINT64 then do { v \<leftarrow> int64Value t; Some (True, write_new_int t v) }
      else if t_type t = TAGTYPE_FLOAT32 then do { v \<leftarrow> floatValue t; Some (True, writeNameAndType t TAGTYPE_FLOAT32 @ v) }
      else if t_type t = TAGTYPE_HASH then do { v \<leftarrow> hashValue t; Some (True, writeNameAndType t TAGTYPE_HASH @ v) }
      else if t_type t = TAGTYPE_BLOB then do {
        v \<leftarrow> blobValue t;
        Some (True, writeNameAndType t TAGTYPE_BLOB @ writeUInt32 (of_nat (length v)) @ v) }
      else Some (False, []))"


section \<open>What is written is read\<close>

text \<open>What the library promises of well-formed text, the first argument: UTF-8 is read back by both decoders,
  ASCII is itself in every encoding, Latin-1 characters are one byte.\<close>

definition codec_ok :: "(qtext \<Rightarrow> bool) \<Rightarrow> text_codec \<Rightarrow> bool" where
  "codec_ok proper c \<longleftrightarrow>
     (\<forall>s. proper s \<longrightarrow> c_fromUtf8 c (c_toUtf8 c s) = s \<and> c_strict c (c_toUtf8 c s) = Some s) \<and>
     (\<forall>s. (\<forall>ch \<in> set s. ch \<le> 0x7F) \<longrightarrow> c_strict c (map ucast s) = Some s) \<and>
     (\<forall>s. (\<forall>ch \<in> set s. ch \<le> 0xFF) \<longrightarrow> c_toLatin1 c s = map ucast s)"

text \<open>The text a mode can carry: all well-formed text with a byte order mark; with raw UTF-8 if the reader
  tries UTF-8 and the text has no mark of its own; Latin-1 if the reader does not try UTF-8, or ASCII.\<close>

definition carried :: "(qtext \<Rightarrow> bool) \<Rightarrow> text_codec \<Rightarrow> utf8_mode \<Rightarrow> bool \<Rightarrow> qtext \<Rightarrow> bool" where
  "carried proper c mode optUTF8 s \<longleftrightarrow>
     (case mode of
        OptBOM \<Rightarrow> proper s
      | Raw \<Rightarrow> optUTF8 \<and> proper s \<and> take 3 (c_toUtf8 c s) \<noteq> utf8_bom
      | Mode_None \<Rightarrow> (\<forall>ch \<in> set s. ch \<le> 0x7F) \<or>
          \<not> optUTF8 \<and> (\<forall>ch \<in> set s. ch \<le> 0xFF) \<and> take 3 s \<noteq> [0xEF, 0xBB, 0xBF])"

lemma ucast_ucast_small: "(ch :: u16) \<le> 0xFF \<Longrightarrow> ucast (ucast ch :: u8) = ch"
  by (simp add: word_le_nat_alt word_unat_eq_iff unsigned_ucast_eq take_bit_eq_mod unat_mod)

lemma latin1_back: "\<forall>ch \<in> set (s :: qtext). ch \<le> 0xFF \<Longrightarrow> fromLatin1 (map ucast s) = s"
  by (simp add: fromLatin1_def map_idI ucast_ucast_small)

lemma latin1_bom:
  assumes "\<forall>ch \<in> set (s :: qtext). ch \<le> 0xFF" "take 3 (map ucast s) = utf8_bom"
  shows "take 3 s = [0xEF, 0xBB, 0xBF]"
proof -
  have "take 3 s = fromLatin1 (map ucast (take 3 s))" using latin1_back[of "take 3 s"] assms(1) in_set_takeD[of _ 3 s] by fastforce
  also have "... = fromLatin1 utf8_bom" using assms(2) by (simp only: take_map)
  finally show ?thesis by (simp add: fromLatin1_def utf8_bom_def)
qed

lemma ascii_latin: "(ch :: u16) \<le> 0x7F \<Longrightarrow> ch \<le> 0xFF"
  by (erule order_trans) simp

lemma decode_latin1:
  assumes "codec_ok proper c" "\<forall>ch \<in> set s. ch \<le> 0xFF" "take 3 s \<noteq> [0xEF, 0xBB, 0xBF]"
    "\<not> optUTF8 \<or> (\<forall>ch \<in> set s. ch \<le> 0x7F)"
  shows "decode_text c optUTF8 (map ucast s) = s"
  using assms latin1_bom[OF assms(2)] latin1_back[OF assms(2)] by (auto simp: decode_text_def codec_ok_def)

lemma no_ascii_bom: "\<forall>ch \<in> set s. ch \<le> (0x7F :: u16) \<Longrightarrow> take 3 s \<noteq> [0xEF, 0xBB, 0xBF]"
  by (cases s) auto

lemma decode_encoded:
  assumes c: "codec_ok proper c" "carried proper c mode optUTF8 s"
  shows "decode_text c optUTF8 (encode_text c mode s) = s"
proof -
  have ascii: "c_toLatin1 c s = map ucast s \<and> decode_text c optUTF8 (map ucast s) = s" if "\<forall>ch \<in> set s. ch \<le> 0x7F"
  proof -
    have "\<forall>ch \<in> set s. ch \<le> 0xFF" using that ascii_latin by blast
    then show ?thesis using c(1) that decode_latin1[OF c(1) _ no_ascii_bom[OF that]] by (auto simp: codec_ok_def)
  qed
  show ?thesis
  proof (cases mode)
    case Mode_None
    then show ?thesis using c ascii decode_latin1[OF c(1), of s optUTF8]
      by (auto simp: carried_def encode_text_def codec_ok_def)
  next
    case OptBOM
    then have "proper s" using c(2) by (simp add: carried_def)
    then show ?thesis using OptBOM c(1) ascii
      by (auto simp: encode_text_def decode_text_def codec_ok_def utf8_bom_def not_less)
  next
    case Raw
    then show ?thesis using c by (auto simp: carried_def encode_text_def decode_text_def codec_ok_def)
  qed
qed

text \<open>The value a tag of this type must hold, and a label that is told apart.\<close>

definition label_ok :: "tag \<Rightarrow> bool" where
  "label_ok t \<longleftrightarrow> (t_nameId t \<noteq> 0 \<and> t_name t = []) \<or>
     (t_nameId t = 0 \<and> length (t_name t) < 65536 \<and> length (t_name t) \<noteq> 1)"

definition string_ok :: "(qtext \<Rightarrow> bool) \<Rightarrow> text_codec \<Rightarrow> utf8_mode \<Rightarrow> bool \<Rightarrow> qtext \<Rightarrow> bool" where
  "string_ok proper c mode optUTF8 s \<longleftrightarrow> carried proper c mode optUTF8 s \<and> length (encode_text c mode s) < 65536"

definition data_ok :: "(qtext \<Rightarrow> bool) \<Rightarrow> tag \<Rightarrow> bool" where
  "data_ok sok t =
     (case t_data t of
        Str_data s \<Rightarrow> t_type t = TAGTYPE_STRING \<and> sok s
      | Int_data v \<Rightarrow> t_type t = TAGTYPE_UINT64 \<or> t_type t = TAGTYPE_UINT32 \<and> v \<le> 0xFFFFFFFF
      | Float_data v \<Rightarrow> t_type t = TAGTYPE_FLOAT32 \<and> length v = 4
      | Hash_data v \<Rightarrow> t_type t = TAGTYPE_HASH \<and> length v = 16
      | Blob_data v \<Rightarrow> t_type t = TAGTYPE_BLOB \<and> length v < 2 ^ 32
      | No_data \<Rightarrow> False)"

text \<open>The short form forgets that a small number was kept in 64 bits.\<close>

definition short_tag :: "tag \<Rightarrow> tag" where
  "short_tag t =
     (case t_data t of
        Int_data v \<Rightarrow> t\<lparr>t_type := if v \<le> 0xFFFFFFFF then TAGTYPE_UINT32 else TAGTYPE_UINT64\<rparr>
      | _ \<Rightarrow> t)"

text \<open>A wire type below the bit that marks the short label.\<close>

definition plain_type :: "u8 \<Rightarrow> bool" where
  "plain_type ty \<longleftrightarrow> ty AND 0x80 = 0 \<and> (ty OR 0x80) AND 0x80 \<noteq> 0 \<and> (ty OR 0x80) AND 0x7F = ty"

lemma plain_types [simp]:
  "plain_type TAGTYPE_STRING" "plain_type TAGTYPE_UINT32" "plain_type TAGTYPE_UINT64" "plain_type TAGTYPE_UINT16"
  "plain_type TAGTYPE_UINT8" "plain_type TAGTYPE_FLOAT32" "plain_type TAGTYPE_HASH" "plain_type TAGTYPE_BLOB"
  by (simp_all add: plain_type_def tagtype_defs)

lemma read_label_old:
  assumes "label_ok t" "plain_type ty"
  shows "read_label (writeUInt8 ty @ write_old_name t @ f) = Some ((ty, t_name t, t_nameId t), f)"
proof -
  have "of_nat (length (t_name t)) = (0 :: u16) \<longleftrightarrow> t_name t = []" if "length (t_name t) < 65536"
    using that by (simp add: word_unat_eq_iff unat_of_nat)
  moreover have "of_nat (length (t_name t)) = (1 :: u16) \<longleftrightarrow> length (t_name t) = 1" if "length (t_name t) < 65536"
    using that by (simp add: word_unat_eq_iff unat_of_nat)
  ultimately show ?thesis using assms
    by (auto simp: read_label_def write_old_name_def label_ok_def plain_type_def word_gt_0 unat_of_nat)
qed

lemma read_label_new:
  assumes "label_ok t" "plain_type ty"
  shows "read_label (writeNameAndType t ty @ f) = Some ((ty, t_name t, t_nameId t), f)"
proof (cases "t_nameId t \<noteq> 0 \<and> t_name t = []")
  case True
  then show ?thesis using assms(2) by (simp add: read_label_def writeNameAndType_def plain_type_def)
next
  case False
  then have "writeNameAndType t ty = writeUInt8 ty @ write_old_name t"
    by (auto simp: writeNameAndType_def write_old_name_def)
  then show ?thesis using read_label_old[OF assms] by simp
qed


text \<open>Strings of either form.\<close>

lemma read_string_of_written:
  assumes "codec_ok proper c" "carried proper c mode optUTF8 s" "k = length (encode_text c mode s)"
  shows "readString_of c optUTF8 k (encode_text c mode s @ f) = Some (s, f)"
proof (cases "encode_text c mode s = []")
  case True
  then have "decode_text c optUTF8 [] = s" using decode_encoded[OF assms(1,2)] by simp
  moreover have "c_strict c [] = Some []" using assms(1) by (auto simp: codec_ok_def dest!: spec[of _ "[]"])
  ultimately show ?thesis using True assms(3) by (auto simp: readString_of_def decode_text_def fromLatin1_def)
next
  case False
  then show ?thesis using decode_encoded[OF assms(1,2)] assms(3) by (simp add: readString_of_def)
qed

lemma read_string_written:
  assumes "codec_ok proper c" "string_ok proper c mode optUTF8 s"
  shows "readString c optUTF8 (writeUInt16 (of_nat (length (encode_text c mode s))) @ encode_text c mode s @ f) = Some (s, f)"
  using assms read_string_of_written[OF assms(1) _ refl, of mode optUTF8 s f]
  by (simp add: readString_def string_ok_def unat_of_nat)

lemma written_string:
  assumes "string_ok proper c mode optUTF8 s"
  shows "writeString c mode s = Some (writeUInt16 (of_nat (length (encode_text c mode s))) @ encode_text c mode s)"
  using assms by (simp add: writeString_def string_ok_def Let_def)

lemma read_data_simps:
  "read_data c u TAGTYPE_UINT32 (writeUInt32 v32 @ f) = Some ((Int_data (ucast v32), TAGTYPE_UINT32), f)"
  "read_data c u TAGTYPE_UINT64 (writeUInt64 v64 @ f) = Some ((Int_data v64, TAGTYPE_UINT64), f)"
  "read_data c u TAGTYPE_UINT16 (writeUInt16 v16 @ f) = Some ((Int_data (ucast v16), TAGTYPE_UINT32), f)"
  "read_data c u TAGTYPE_UINT8 (writeUInt8 v8 @ f) = Some ((Int_data (ucast v8), TAGTYPE_UINT32), f)"
  "length b = 4 \<Longrightarrow> read_data c u TAGTYPE_FLOAT32 (b @ f) = Some ((Float_data b, TAGTYPE_FLOAT32), f)"
  "length b = 16 \<Longrightarrow> read_data c u TAGTYPE_HASH (b @ f) = Some ((Hash_data b, TAGTYPE_HASH), f)"
  "length b < 2 ^ 32 \<Longrightarrow> read_data c u TAGTYPE_BLOB (writeUInt32 (of_nat (length b)) @ b @ f) = Some ((Blob_data b, TAGTYPE_BLOB), f)"
  "readString c u g = Some (s, f) \<Longrightarrow> read_data c u TAGTYPE_STRING g = Some ((Str_data s, TAGTYPE_STRING), f)"
  by (simp_all add: read_data_def tagtype_defs unat_of_nat)

lemma short_string_type:
  assumes "1 \<le> k" "k \<le> 16"
  shows "plain_type (TAGTYPE_STR1 + of_nat k - 1)"
    "readString_of c u k g = Some (s, f) \<Longrightarrow> read_data c u (TAGTYPE_STR1 + of_nat k - 1) g = Some ((Str_data s, TAGTYPE_STRING), f)"
proof -
  have k: "k = 1 \<or> k = 2 \<or> k = 3 \<or> k = 4 \<or> k = 5 \<or> k = 6 \<or> k = 7 \<or> k = 8 \<or> k = 9 \<or> k = 10 \<or> k = 11 \<or> k = 12 \<or>
    k = 13 \<or> k = 14 \<or> k = 15 \<or> k = 16" using assms by presburger
  then show "plain_type (TAGTYPE_STR1 + of_nat k - 1)" by (elim disjE) (simp_all add: plain_type_def tagtype_defs)
  show "read_data c u (TAGTYPE_STR1 + of_nat k - 1) g = Some ((Str_data s, TAGTYPE_STRING), f)" if "readString_of c u k g = Some (s, f)"
    using k that by (elim disjE) (simp_all add: read_data_def tagtype_defs numeral_2_eq_2[symmetric])
qed

lemma read_tag_old:
  assumes "label_ok t" "plain_type ty" "read_data c u ty g = Some ((v, ty1), f)"
  shows "readTag c u (writeUInt8 ty @ write_old_name t @ g) = Some (t\<lparr>t_data := v, t_type := ty1\<rparr>, f)"
  using assms(3) by (simp add: readTag_def read_label_old[OF assms(1,2)])

lemma read_tag_new:
  assumes "label_ok t" "plain_type ty" "read_data c u ty g = Some ((v, ty1), f)"
  shows "readTag c u (writeNameAndType t ty @ g) = Some (t\<lparr>t_data := v, t_type := ty1\<rparr>, f)"
  using assms(3) by (simp add: readTag_def read_label_new[OF assms(1,2)])

lemma tag_self [simp]: "t_data t = v \<Longrightarrow> t_type t = ty \<Longrightarrow> t\<lparr>t_data := v, t_type := ty\<rparr> = t"
  by (cases t) simp

lemma old_tag_roundtrip:
  assumes "codec_ok proper c" "label_ok t" "data_ok (string_ok proper c mode optUTF8) t"
  shows "\<exists>b. writeTagToFile c mode t = Some (True, b) \<and> b \<noteq> [] \<and> readTag c optUTF8 (b @ f) = Some (t, f)"
proof (cases "t_data t")
  case (Str_data s)
  then have s: "t_type t = TAGTYPE_STRING" "string_ok proper c mode optUTF8 s" using assms(3) by (simp_all add: data_ok_def)
  show ?thesis using Str_data s read_tag_old[OF assms(2) plain_types(1) read_data_simps(8)[OF read_string_written[OF assms(1) s(2)]]]
    by (simp add: writeTagToFile_def strValue_def written_string[OF s(2)] writeUInt8_def le_bytes_def)
next
  case (Int_data v)
  show ?thesis
  proof (cases "t_type t = TAGTYPE_UINT64")
    case True
    then show ?thesis using Int_data read_tag_old[OF assms(2) plain_types(3) read_data_simps(2)]
      by (simp add: writeTagToFile_def tag_accessors tagtype_defs writeUInt8_def le_bytes_def)
  next
    case False
    then have v: "t_type t = TAGTYPE_UINT32" "v \<le> 0xFFFFFFFF" using Int_data assms(3) by (simp_all add: data_ok_def)
    have "ucast (ucast v :: u32) = v" using v(2)
      by (simp add: word_le_nat_alt word_unat_eq_iff unsigned_ucast_eq take_bit_eq_mod unat_mod)
    then show ?thesis using Int_data v read_tag_old[OF assms(2) plain_types(2) read_data_simps(1)]
      by (simp add: writeTagToFile_def tag_accessors tagtype_defs writeUInt8_def le_bytes_def)
  qed
next
  case (Float_data v)
  then have v: "t_type t = TAGTYPE_FLOAT32" "length v = 4" using assms(3) by (simp_all add: data_ok_def)
  show ?thesis using Float_data v read_tag_old[OF assms(2) plain_types(6) read_data_simps(5)[OF v(2)]]
    by (simp add: writeTagToFile_def tag_accessors tagtype_defs writeUInt8_def le_bytes_def)
next
  case (Hash_data v)
  then have v: "t_type t = TAGTYPE_HASH" "length v = 16" using assms(3) by (simp_all add: data_ok_def)
  show ?thesis using Hash_data v read_tag_old[OF assms(2) plain_types(7) read_data_simps(6)[OF v(2)]]
    by (simp add: writeTagToFile_def tag_accessors tagtype_defs writeUInt8_def le_bytes_def)
next
  case (Blob_data v)
  then have v: "t_type t = TAGTYPE_BLOB" "length v < 2 ^ 32" using assms(3) by (simp_all add: data_ok_def)
  show ?thesis using Blob_data v read_tag_old[OF assms(2) plain_types(8) read_data_simps(7)[OF v(2)]]
    by (simp add: writeTagToFile_def tag_accessors tagtype_defs writeUInt8_def le_bytes_def)
next
  case No_data
  then show ?thesis using assms(3) by (simp add: data_ok_def)
qed


lemma new_string:
  assumes "codec_ok proper c" "string_ok proper c mode optUTF8 s" "label_ok t" "t_type t = TAGTYPE_STRING" "t_data t = Str_data s"
  shows "readTag c optUTF8 (write_new_string t (encode_text c mode s) @ f) = Some (t, f)"
proof (cases "1 \<le> length (encode_text c mode s) \<and> length (encode_text c mode s) \<le> 16")
  case True
  have r: "readString_of c optUTF8 (length (encode_text c mode s)) (encode_text c mode s @ f) = Some (s, f)"
    using assms(1,2) by (simp add: read_string_of_written string_ok_def)
  show ?thesis
    using read_tag_new[OF assms(3) short_string_type(1) short_string_type(2)[OF _ _ r]] True assms(4,5)
    by (simp add: write_new_string_def)
next
  case False
  then show ?thesis
    using read_tag_new[OF assms(3) plain_types(1) read_data_simps(8)[OF read_string_written[OF assms(1,2)]]] assms(4,5)
    by (auto simp: write_new_string_def)
qed

lemma ucast_small:
  "(v :: u64) \<le> 0xFF \<Longrightarrow> ucast (ucast v :: u8) = v" "(v :: u64) \<le> 0xFFFF \<Longrightarrow> ucast (ucast v :: u16) = v"
  "(v :: u64) \<le> 0xFFFFFFFF \<Longrightarrow> ucast (ucast v :: u32) = v"
  by (simp_all add: word_le_nat_alt word_unat_eq_iff unsigned_ucast_eq take_bit_eq_mod unat_mod)

lemma new_int:
  assumes "label_ok t"
  shows "readTag c u (write_new_int t v @ f) =
    Some (t\<lparr>t_data := Int_data v, t_type := if v \<le> 0xFFFFFFFF then TAGTYPE_UINT32 else TAGTYPE_UINT64\<rparr>, f)"
proof -
  have "v \<le> 0xFFFF \<Longrightarrow> v \<le> 0xFFFFFFFF" "v \<le> 0xFF \<Longrightarrow> v \<le> 0xFFFFFFFF" by (erule order_trans, simp)+
  then show ?thesis
    using read_tag_new[OF assms plain_types(2) read_data_simps(1), of c u "ucast v"] read_tag_new[OF assms plain_types(3) read_data_simps(2), of c u v]
      read_tag_new[OF assms plain_types(4) read_data_simps(3), of c u "ucast v"] read_tag_new[OF assms plain_types(5) read_data_simps(4), of c u "ucast v"]
    by (simp add: write_new_int_def ucast_small)
qed

lemma new_tag_roundtrip:
  assumes "codec_ok proper c" "label_ok t" "data_ok (string_ok proper c mode optUTF8) t"
  shows "\<exists>b. writeNewEd2kTag c mode t = Some (True, b) \<and> readTag c optUTF8 (b @ f) = Some (short_tag t, f)"
proof (cases "t_data t")
  case (Str_data s)
  then show ?thesis using assms(3) new_string[OF assms(1) _ assms(2)]
    by (simp add: data_ok_def writeNewEd2kTag_def strValue_def short_tag_def)
next
  case (Int_data v)
  have u: "t_type t = TAGTYPE_UINT32 \<Longrightarrow> ucast (ucast v :: u32) = v"
    using Int_data assms(3) by (simp add: data_ok_def tagtype_defs ucast_small)
  have "t\<lparr>t_data := Int_data v, t_type := ty\<rparr> = t\<lparr>t_type := ty\<rparr>" for ty using Int_data by (cases t) simp
  then show ?thesis using Int_data u assms(3) new_int[OF assms(2), of c optUTF8 v f]
    by (auto simp: data_ok_def writeNewEd2kTag_def int64Value_def intValue_def short_tag_def tagtype_defs)
next
  case (Float_data v)
  then have v: "t_type t = TAGTYPE_FLOAT32" "length v = 4" using assms(3) by (simp_all add: data_ok_def)
  show ?thesis using Float_data v read_tag_new[OF assms(2) plain_types(6) read_data_simps(5)[OF v(2)]]
    by (simp add: writeNewEd2kTag_def tag_accessors short_tag_def tagtype_defs)
next
  case (Hash_data v)
  then have v: "t_type t = TAGTYPE_HASH" "length v = 16" using assms(3) by (simp_all add: data_ok_def)
  show ?thesis using Hash_data v read_tag_new[OF assms(2) plain_types(7) read_data_simps(6)[OF v(2)]]
    by (simp add: writeNewEd2kTag_def tag_accessors short_tag_def tagtype_defs)
next
  case (Blob_data v)
  then have v: "t_type t = TAGTYPE_BLOB" "length v < 2 ^ 32" using assms(3) by (simp_all add: data_ok_def)
  show ?thesis using Blob_data v read_tag_new[OF assms(2) plain_types(8) read_data_simps(7)[OF v(2)]]
    by (simp add: writeNewEd2kTag_def tag_accessors short_tag_def tagtype_defs)
next
  case No_data
  then show ?thesis using assms(3) by (simp add: data_ok_def)
qed

section \<open>Lists of tags\<close>

text \<open>The writers of a list put the count before the tags, each in the form they choose.\<close>

fun write_tags :: "text_codec \<Rightarrow> utf8_mode \<Rightarrow> (bool \<times> tag) list \<Rightarrow> out_bytes option" where
  "write_tags c mode [] = Some []"
| "write_tags c mode ((short, t) # ts) = do {
     (written, b) \<leftarrow> (if short then writeNewEd2kTag c mode t else writeTagToFile c mode t);
     bs \<leftarrow> write_tags c mode ts;
     Some (b @ bs) }"

definition tag_list_bytes :: "text_codec \<Rightarrow> utf8_mode \<Rightarrow> (bool \<times> tag) list \<Rightarrow> out_bytes option" where
  "tag_list_bytes c mode ts = map_option (\<lambda>b. writeUInt32 (of_nat (length ts)) @ b) (write_tags c mode ts)"

lemma written_byte: "writeUInt8 b = [b]"
  by (simp add: writeUInt8_def le_bytes_def byte_of_def)

lemma written_tag_grows:
  assumes "(if short then writeNewEd2kTag c mode t else writeTagToFile c mode t) = Some (True, b)"
  shows "b \<noteq> []"
proof -
  have "writeNameAndType t ty \<noteq> []" for ty by (simp add: writeNameAndType_def written_byte)
  then show ?thesis using assms
    by (auto simp: writeNewEd2kTag_def writeTagToFile_def write_new_string_def write_new_int_def written_byte Let_def
        split: if_splits Option.bind_splits)
qed

lemma tags_written:
  assumes "codec_ok proper c" "\<forall>(short, t) \<in> set ts. label_ok t \<and> data_ok (string_ok proper c mode optUTF8) t"
  shows "\<exists>b. write_tags c mode ts = Some b \<and> length ts \<le> length b \<and>
    read_tags c optUTF8 (length ts) (b @ f) = Some (map (\<lambda>(short, t). if short then short_tag t else t) ts, f)"
  using assms(2)
proof (induction ts)
  case Nil
  then show ?case by simp
next
  case (Cons x ts)
  obtain short t where x: "x = (short, t)" by (cases x)
  have t: "label_ok t" "data_ok (string_ok proper c mode optUTF8) t" using Cons.prems x by auto
  obtain bs where bs: "write_tags c mode ts = Some bs" "length ts \<le> length bs"
    "read_tags c optUTF8 (length ts) (bs @ f) = Some (map (\<lambda>(short, t). if short then short_tag t else t) ts, f)"
    using Cons by auto
  obtain b where b: "(if short then writeNewEd2kTag c mode t else writeTagToFile c mode t) = Some (True, b)"
    "readTag c optUTF8 (b @ bs @ f) = Some (if short then short_tag t else t, bs @ f)"
    using old_tag_roundtrip[OF assms(1) t, of "bs @ f"] new_tag_roundtrip[OF assms(1) t, of "bs @ f"] by (cases short) auto
  have "0 < length b" using written_tag_grows[OF b(1)] by simp
  then have "Suc (length ts) \<le> length b + length bs" using bs(2) by linarith
  then show ?case using x b bs by simp
qed

lemma tag_list_back:
  assumes "codec_ok proper c" "\<forall>(short, t) \<in> set ts. label_ok t \<and> data_ok (string_ok proper c mode optUTF8) t"
    "length ts \<le> unat maxTags"
  shows "\<exists>b. tag_list_bytes c mode ts = Some b \<and>
    readTagList c optUTF8 maxTags (b @ rest) = Some (map (\<lambda>(short, t). if short then short_tag t else t) ts, rest)"
proof -
  obtain b where b: "write_tags c mode ts = Some b" "length ts \<le> length b"
    "read_tags c optUTF8 (length ts) (b @ rest) = Some (map (\<lambda>(short, t). if short then short_tag t else t) ts, rest)"
    using tags_written[OF assms(1,2)] by blast
  have n: "unat (of_nat (length ts) :: u32) = length ts"
    using assms(3) unsigned_less[of maxTags, where 'a = nat] by (simp add: unat_of_nat)
  then have "checkTagCount (b @ rest) (of_nat (length ts)) maxTags" using assms(3) b(2)
    by (simp add: checkTagCount_def not_less word_le_nat_alt)
  then show ?thesis using b n by (simp add: tag_list_bytes_def readTagList_def readTagCount_def)
qed

text \<open>C17. A list of tags that a program writes is read back tag by tag, in the long or the short form chosen for
  each, with the same names and values and up to the last byte; the count passes the check of the reader.  A
  small number kept in 64 bits comes back as one of 32 bits from the short form.\<close>

theorem tag_list_roundtrip:
  assumes "codec_ok proper c" "\<forall>(short, t) \<in> set ts. label_ok t \<and> data_ok (string_ok proper c mode optUTF8) t"
    "length ts \<le> unat maxTags"
  shows "\<exists>b. tag_list_bytes c mode ts = Some b \<and>
    readTagList c optUTF8 maxTags (b @ rest) = Some (map (\<lambda>(short, t). if short then short_tag t else t) ts, rest)"
  by (rule tag_list_back [OF assms])

definition sample_codec :: text_codec where
  "sample_codec = \<lparr>c_toUtf8 = map ucast, c_fromUtf8 = map ucast, c_strict = (\<lambda>b. Some (map ucast b)), c_toLatin1 = map ucast\<rparr>"

lemma sample_codec_ok: "codec_ok (\<lambda>s. \<forall>ch \<in> set s. ch \<le> 0x7F) sample_codec"
proof -
  have "map ucast (map ucast s :: u8 list) = s" if "\<forall>ch \<in> set s. ch \<le> (0x7F :: u16)" for s
    using that latin1_back[of s] ascii_latin unfolding fromLatin1_def by blast
  then show ?thesis by (simp add: codec_ok_def sample_codec_def)
qed

definition sample_tags :: "(bool \<times> tag) list" where
  "sample_tags = [(True, tag_string (By_id 1) [97, 98]), (False, tag_uint64 (By_name [1, 2]) 7), (True, tag_uint64 (By_id 2) 300)]"

lemma tag_list_roundtrip_witness:
  "\<exists>b. tag_list_bytes sample_codec Raw sample_tags = Some b \<and>
     readTagList sample_codec True kMaxWireTags (b @ [5]) =
       Some ([tag_string (By_id 1) [97, 98], tag_uint64 (By_name [1, 2]) 7, tag_uint32 (By_id 2) 300], [5])"
proof -
  have ok: "\<forall>(short, t) \<in> set sample_tags. label_ok t \<and>
      data_ok (string_ok (\<lambda>s. \<forall>ch \<in> set s. ch \<le> 0x7F) sample_codec Raw True) t"
    by (simp add: sample_tags_def label_ok_def data_ok_def string_ok_def carried_def sample_codec_def utf8_bom_def
        encode_text_def tag_constructors labelled_def tagtype_defs)
  have n: "length sample_tags \<le> unat kMaxWireTags" by (simp add: sample_tags_def kMaxWireTags_def)
  have m: "map (\<lambda>(short, t). if short then short_tag t else t) sample_tags =
      [tag_string (By_id 1) [97, 98], tag_uint64 (By_name [1, 2]) 7, tag_uint32 (By_id 2) 300]"
    by (simp add: sample_tags_def short_tag_def tag_constructors labelled_def tagtype_defs)
  show ?thesis using tag_list_roundtrip[OF sample_codec_ok ok n, of "[5]"] unfolding m .
qed

text \<open>The long form refuses a string whose length does not fit 16 bits.  The short form writes the length without
  its upper bits and then all the bytes: what is behind them is read as the next tag.\<close>

lemma long_string_spills:
  assumes "label_ok t" "t_type t = TAGTYPE_STRING" "t_data t = Str_data s" "length (encode_text c mode s) = 65536"
  shows "writeTagToFile c mode t = None"
    "\<exists>b. writeNewEd2kTag c mode t = Some (True, b) \<and>
      readTag c optUTF8 (b @ f) = Some (t\<lparr>t_data := Str_data []\<rparr>, encode_text c mode s @ f)"
proof -
  show "writeTagToFile c mode t = None" using assms(2-4) by (simp add: writeTagToFile_def strValue_def writeString_def)
  have r: "readString c optUTF8 (writeUInt16 0 @ encode_text c mode s @ f) = Some ([], encode_text c mode s @ f)"
    by (simp add: readString_def readString_of_def)
  have z: "(65536 :: u16) = 0" by code_simp
  have "t\<lparr>t_data := Str_data [], t_type := TAGTYPE_STRING\<rparr> = t\<lparr>t_data := Str_data []\<rparr>" using assms(2) by (cases t) simp
  then show "\<exists>b. writeNewEd2kTag c mode t = Some (True, b) \<and>
      readTag c optUTF8 (b @ f) = Some (t\<lparr>t_data := Str_data []\<rparr>, encode_text c mode s @ f)"
    using read_tag_new[OF assms(1) plain_types(1) read_data_simps(8)[OF r]] assms(2-4)
    by (simp add: writeNewEd2kTag_def strValue_def write_new_string_def z)
qed

text \<open>An object of Kad binary data has a type of its own that neither writer knows: the long form leaves a tag
  without its value behind, the short form nothing, and both report failure.\<close>

lemma bsob_not_written:
  "writeTagToFile c mode (makeBsob (By_id i) v) = Some (False, [TAGTYPE_BSOB] @ write_old_name (makeBsob (By_id i) v))"
  "writeNewEd2kTag c mode (makeBsob (By_id i) v) = Some (False, [])"
  by (simp_all add: writeTagToFile_def writeNewEd2kTag_def makeBsob_def tag_constructors labelled_def tagtype_defs written_byte)

end
