(* ===== verification/Kad_Tags.thy ===== *)
theory Kad_Tags
  imports Tags
begin

text \<open>
  Tags on the Kademlia wire (src/core/kademlia/KadIO.cpp): always with a length before the name, with
  no short strings, no blobs but small binary objects, strings in UTF-8 and one byte for the number of
  tags of a list.
\<close>

definition readBsob :: "in_bytes \<Rightarrow> (u8 list \<times> in_bytes) option" where
  "readBsob f = do { (k, f1) \<leftarrow> readUInt8 f; read_bytes (unat k) f1 }"

definition writeBsob :: "u8 list \<Rightarrow> out_bytes" where
  "writeBsob v = (let k = of_nat (length v) :: u8 in writeUInt8 k @ take (unat k) v)"

definition readKadString :: "text_codec \<Rightarrow> in_bytes \<Rightarrow> (qtext \<times> in_bytes) option" where
  "readKadString c f = do {
     (k, f1) \<leftarrow> readUInt16 f;
     if k = 0 then Some ([], f1) else do { (raw, f2) \<leftarrow> read_bytes (unat k) f1; Some (c_fromUtf8 c raw, f2) } }"

definition writeKadString :: "text_codec \<Rightarrow> qtext \<Rightarrow> out_bytes" where
  "writeKadString c str = (let raw = c_toUtf8 c str in writeUInt16 (of_nat (length raw)) @ raw)"

definition kad_label :: "u8 list \<Rightarrow> tag_label" where
  "kad_label n = (if length n = 1 then By_id (hd n) else By_name n)"

definition read_kad_data :: "text_codec \<Rightarrow> u8 \<Rightarrow> tag_label \<Rightarrow> in_bytes \<Rightarrow> (tag \<times> in_bytes) option" where
  "read_kad_data c ty l f =
     (if ty = TAGTYPE_STRING then do { (v, f1) \<leftarrow> readKadString c f; Some (tag_string l v, f1) }
      else if ty = TAGTYPE_UINT64 then do { (v, f1) \<leftarrow> readUInt64 f; Some (tag_uint64 l v, f1) }
      else if ty = TAGTYPE_UINT32 then do { (v, f1) \<leftarrow> readUInt32 f; Some (tag_uint32 l v, f1) }
      else if ty = TAGTYPE_UINT16 then do { (v, f1) \<leftarrow> readUInt16 f; Some (tag_uint32 l (ucast v), f1) }
      else if ty = TAGTYPE_UINT8 then do { (v, f1) \<leftarrow> readUInt8 f; Some (tag_uint32 l (ucast v), f1) }
      else if ty = TAGTYPE_FLOAT32 then do { (v, f1) \<leftarrow> read_bytes 4 f; Some (tag_float l v, f1) }
      else if ty = TAGTYPE_HASH then do { (v, f1) \<leftarrow> read_bytes 16 f; Some (tag_hash l v, f1) }
      else if ty = TAGTYPE_BSOB then do { (v, f1) \<leftarrow> readBsob f; Some (makeBsob l v, f1) }
      else None)"

definition readKadTag :: "text_codec \<Rightarrow> in_bytes \<Rightarrow> (tag \<times> in_bytes) option" where
  "readKadTag c f = do {
     (ty, f1) \<leftarrow> readUInt8 f;
     (nameLen, f2) \<leftarrow> readUInt16 f1;
     (n, f3) \<leftarrow> read_bytes (unat nameLen) f2;
     read_kad_data c ty (kad_label n) f3 }"

definition kad_name :: "tag \<Rightarrow> u8 list" where
  "kad_name t = (if t_name t = [] \<and> t_nameId t > 0 then [t_nameId t] else t_name t)"

definition kad_head :: "tag \<Rightarrow> u8 \<Rightarrow> out_bytes" where
  "kad_head t ty = writeUInt8 ty @ writeUInt16 (of_nat (length (kad_name t))) @ kad_name t"

definition writeKadTagBsob :: "tag \<Rightarrow> u8 list \<Rightarrow> out_bytes" where
  "writeKadTagBsob t v = kad_head t TAGTYPE_BSOB @ writeBsob v"

text \<open>The bytes, or None where a value accessor throws.\<close>

definition writeKadTag :: "text_codec \<Rightarrow> tag \<Rightarrow> out_bytes option" where
  "writeKadTag c t =
     (if t_type t = TAGTYPE_STRING then do { v \<leftarrow> strValue t; Some (kad_head t TAGTYPE_STRING @ writeKadString c v) }
      else if isInt64 True t then do {
        v \<leftarrow> int64Value t;
        Some (if v \<le> 0xFF then kad_head t TAGTYPE_UINT8 @ writeUInt8 (ucast v)
              else if v \<le> 0xFFFF then kad_head t TAGTYPE_UINT16 @ writeUInt16 (ucast v)
              else if v \<le> 0xFFFFFFFF then kad_head t TAGTYPE_UINT32 @ writeUInt32 (ucast v)
              else kad_head t TAGTYPE_UINT64 @ writeUInt64 v) }
      else if t_type t = TAGTYPE_FLOAT32 then do { v \<leftarrow> floatValue t; Some (kad_head t TAGTYPE_FLOAT32 @ v) }
      else if t_type t = TAGTYPE_HASH then do { v \<leftarrow> hashValue t; Some (kad_head t TAGTYPE_HASH @ v) }
      else if t_type t = TAGTYPE_BSOB then do { v \<leftarrow> blobValue t; Some (writeKadTagBsob t v) }
      else Some (kad_head t TAGTYPE_UINT32 @ writeUInt32 0))"

fun read_kad_tags :: "text_codec \<Rightarrow> nat \<Rightarrow> in_bytes \<Rightarrow> (tag list \<times> in_bytes) option" where
  "read_kad_tags c 0 f = Some ([], f)"
| "read_kad_tags c (Suc k) f = do {
     (t, f1) \<leftarrow> readKadTag c f;
     (ts, f2) \<leftarrow> read_kad_tags c k f1;
     Some (t # ts, f2) }"

definition readKadTagList :: "text_codec \<Rightarrow> in_bytes \<Rightarrow> (tag list \<times> in_bytes) option" where
  "readKadTagList c f = do { (k, f1) \<leftarrow> readUInt8 f; read_kad_tags c (unat k) f1 }"

fun write_kad_tags :: "text_codec \<Rightarrow> tag list \<Rightarrow> out_bytes option" where
  "write_kad_tags c [] = Some []"
| "write_kad_tags c (t # ts) = do { b \<leftarrow> writeKadTag c t; bs \<leftarrow> write_kad_tags c ts; Some (b @ bs) }"

definition writeKadTagList :: "text_codec \<Rightarrow> tag list \<Rightarrow> out_bytes option" where
  "writeKadTagList c ts = map_option (\<lambda>b. writeUInt8 (of_nat (length ts)) @ b) (write_kad_tags c ts)"

section \<open>What a node reads it can serve\<close>

text \<open>Text that is kept when it is encoded again: the decoder had nothing to repair and the length fits.\<close>

definition servable :: "(qtext \<Rightarrow> bool) \<Rightarrow> text_codec \<Rightarrow> tag \<Rightarrow> bool" where
  "servable proper c t \<longleftrightarrow>
     (case t_data t of Str_data s \<Rightarrow> proper s \<and> length (c_toUtf8 c s) < 65536 | _ \<Rightarrow> True)"

text \<open>The shape of every tag that was read.\<close>

fun kad_data_ok :: "u8 \<Rightarrow> tag_data \<Rightarrow> bool" where
  "kad_data_ok ty (Str_data s) \<longleftrightarrow> ty = TAGTYPE_STRING"
| "kad_data_ok ty (Int_data v) \<longleftrightarrow> ty = TAGTYPE_UINT64 \<or> ty = TAGTYPE_UINT32 \<and> v \<le> 0xFFFFFFFF"
| "kad_data_ok ty (Float_data b) \<longleftrightarrow> ty = TAGTYPE_FLOAT32 \<and> length b = 4"
| "kad_data_ok ty (Hash_data b) \<longleftrightarrow> ty = TAGTYPE_HASH \<and> length b = 16"
| "kad_data_ok ty (Blob_data b) \<longleftrightarrow> ty = TAGTYPE_BSOB \<and> length b < 256"
| "kad_data_ok ty No_data \<longleftrightarrow> False"

definition kad_tag_ok :: "tag \<Rightarrow> bool" where
  "kad_tag_ok t \<longleftrightarrow> length (t_name t) < 65536 \<and> (t_name t = [] \<or> t_nameId t = 0 \<and> length (t_name t) \<noteq> 1) \<and>
     kad_data_ok (t_type t) (t_data t)"

lemma labelled_simps [simp]:
  "t_data (labelled l ty v) = v" "t_type (labelled l ty v) = ty"
  "t_name (labelled (By_id i) ty v) = []" "t_nameId (labelled (By_id i) ty v) = i"
  "t_name (labelled (By_name n) ty v) = n" "t_nameId (labelled (By_name n) ty v) = 0"
  by (simp_all add: labelled_def split: tag_label.split)

lemma makeBsob_labelled: "makeBsob l v = labelled l TAGTYPE_BSOB (Blob_data v)"
  by (simp add: makeBsob_def tag_blob_def labelled_def split: tag_label.split)

lemma read_bytes_length: "read_bytes k f = Some (v, f1) \<Longrightarrow> length v = k"
  by (auto simp: read_bytes_def split: if_splits)

lemma ucast_le_32:
  "(ucast (v32 :: u32) :: u64) \<le> 0xFFFFFFFF" "(ucast (ucast (v16 :: u16) :: u32) :: u64) \<le> 0xFFFFFFFF"
  "(ucast (ucast (v8 :: u8) :: u32) :: u64) \<le> 0xFFFFFFFF"
proof -
  have *: "(ucast (w :: u32) :: u64) \<le> 0xFFFFFFFF" for w
    using unsigned_less[of w, where 'a = nat] by (simp add: word_le_nat_alt unsigned_ucast_eq take_bit_eq_mod)
  show "(ucast v32 :: u64) \<le> 0xFFFFFFFF" "(ucast (ucast v16 :: u32) :: u64) \<le> 0xFFFFFFFF" "(ucast (ucast v8 :: u32) :: u64) \<le> 0xFFFFFFFF"
    by (rule *)+
qed

lemma bsob_length: "readBsob f = Some (v, g) \<Longrightarrow> length v < 256"
proof -
  assume "readBsob f = Some (v, g)"
  then obtain k :: u8 where "length v = unat k" by (auto simp: readBsob_def dest!: read_bytes_length split: Option.bind_splits)
  then show ?thesis using unsigned_less[of k, where 'a = nat] by simp
qed

lemma read_kad_data_ok:
  "read_kad_data c ty l f = Some (t, f1) \<Longrightarrow> \<exists>ty' v. t = labelled l ty' v \<and> kad_data_ok ty' v"
  unfolding read_kad_data_def tag_constructors makeBsob_labelled
  by (auto simp: ucast_le_32 dest: read_bytes_length bsob_length split: if_splits Option.bind_splits)
    (rule exI, rule exI, rule conjI, rule refl, simp add: ucast_le_32 read_bytes_length bsob_length)+

lemma read_kad_tag_ok:
  assumes "readKadTag c f = Some (t, f1)"
  shows "kad_tag_ok t"
proof -
  obtain nameLen :: u16 and n ty g g1 where n: "read_bytes (unat nameLen) g = Some (n, g1)" "read_kad_data c ty (kad_label n) g1 = Some (t, f1)"
    using assms by (auto simp: readKadTag_def split: Option.bind_splits)
  obtain ty' v where v: "t = labelled (kad_label n) ty' v" "kad_data_ok ty' v" using read_kad_data_ok[OF n(2)] by blast
  have "length n < 65536" using read_bytes_length[OF n(1)] unsigned_less[of nameLen, where 'a = nat] by simp
  then show ?thesis using v by (auto simp: kad_tag_ok_def kad_label_def)
qed


lemma read_kad_head:
  assumes "kad_tag_ok t"
  shows "readKadTag c (kad_head t ty @ g) = read_kad_data c ty (kad_label (kad_name t)) g"
    "labelled (kad_label (kad_name t)) ty' v = t\<lparr>t_data := v, t_type := ty'\<rparr>"
proof -
  have "length (kad_name t) < 65536" using assms by (simp add: kad_tag_ok_def kad_name_def)
  then show "readKadTag c (kad_head t ty @ g) = read_kad_data c ty (kad_label (kad_name t)) g"
    by (simp add: readKadTag_def kad_head_def unat_of_nat)
  show "labelled (kad_label (kad_name t)) ty' v = t\<lparr>t_data := v, t_type := ty'\<rparr>"
    using assms by (cases t) (auto simp: kad_tag_ok_def kad_label_def kad_name_def labelled_def word_gt_0)
qed

lemma read_kad_string:
  assumes "codec_ok proper c" "proper s" "length (c_toUtf8 c s) < 65536"
  shows "readKadString c (writeKadString c s @ g) = Some (s, g)"
proof -
  have s: "c_fromUtf8 c (c_toUtf8 c s) = s" "c_strict c (c_toUtf8 c s) = Some s" "c_strict c [] = Some []"
    using assms(1,2) by (auto simp: codec_ok_def dest!: spec[of _ "[]"])
  have "of_nat (length (c_toUtf8 c s)) = (0 :: u16) \<longleftrightarrow> c_toUtf8 c s = []"
    using assms(3) by (simp add: word_unat_eq_iff unat_of_nat)
  then show ?thesis using s assms(3) by (auto simp: readKadString_def writeKadString_def unat_of_nat Let_def)
qed

lemma read_kad_bsob: "length v < 256 \<Longrightarrow> readBsob (writeBsob v @ g) = Some (v, g)"
  by (simp add: readBsob_def writeBsob_def unat_of_nat Let_def)

lemma ucast_up:
  "(ucast (ucast (v16 :: u16) :: u32) :: u64) = ucast v16" "(ucast (ucast (v8 :: u8) :: u32) :: u64) = ucast v8"
  by (rule bit_word_eqI, auto simp: bit_ucast_iff dest: bit_imp_le_length)+

lemma read_kad_data_simps:
  "read_kad_data c TAGTYPE_UINT32 l (writeUInt32 v32 @ g) = Some (labelled l TAGTYPE_UINT32 (Int_data (ucast v32)), g)"
  "read_kad_data c TAGTYPE_UINT64 l (writeUInt64 v64 @ g) = Some (labelled l TAGTYPE_UINT64 (Int_data v64), g)"
  "read_kad_data c TAGTYPE_UINT16 l (writeUInt16 v16 @ g) = Some (labelled l TAGTYPE_UINT32 (Int_data (ucast v16)), g)"
  "read_kad_data c TAGTYPE_UINT8 l (writeUInt8 v8 @ g) = Some (labelled l TAGTYPE_UINT32 (Int_data (ucast v8)), g)"
  "length b = 4 \<Longrightarrow> read_kad_data c TAGTYPE_FLOAT32 l (b @ g) = Some (labelled l TAGTYPE_FLOAT32 (Float_data b), g)"
  "length b = 16 \<Longrightarrow> read_kad_data c TAGTYPE_HASH l (b @ g) = Some (labelled l TAGTYPE_HASH (Hash_data b), g)"
  "length b < 256 \<Longrightarrow> read_kad_data c TAGTYPE_BSOB l (writeBsob b @ g) = Some (labelled l TAGTYPE_BSOB (Blob_data b), g)"
  "readKadString c h = Some (s, g) \<Longrightarrow> read_kad_data c TAGTYPE_STRING l h = Some (labelled l TAGTYPE_STRING (Str_data s), g)"
  by (simp_all add: read_kad_data_def tag_constructors makeBsob_labelled tagtype_defs read_kad_bsob ucast_up)

lemma kad_tag_roundtrip:
  assumes "codec_ok proper c" "kad_tag_ok t" "servable proper c t"
  shows "\<exists>b. writeKadTag c t = Some b \<and> readKadTag c (b @ g) = Some (short_tag t, g)"
proof -
  have self: "t\<lparr>t_data := v, t_type := ty\<rparr> = t\<lparr>t_type := ty\<rparr>" if "t_data t = v" for v ty
    using that by (cases t) simp
  have same: "t\<lparr>t_type := ty\<rparr> = t" if "t_type t = ty" for ty using that by (cases t) simp
  note head = read_kad_head[OF assms(2)]
  show ?thesis
  proof (cases "t_data t")
    case (Str_data s)
    then show ?thesis using assms head read_kad_string[OF assms(1), of s g] self[OF Str_data] same
      by (simp add: kad_tag_ok_def servable_def writeKadTag_def strValue_def short_tag_def read_kad_data_simps)
  next
    case (Int_data v)
    have le: "v \<le> 0xFFFF \<Longrightarrow> v \<le> 0xFFFFFFFF" "v \<le> 0xFF \<Longrightarrow> v \<le> 0xFFFFFFFF" by (erule order_trans, simp)+
    have ty: "t_type t = TAGTYPE_UINT64 \<or> t_type t = TAGTYPE_UINT32" using assms(2) Int_data by (auto simp: kad_tag_ok_def)
    then have "isInt64 True t" "t_type t \<noteq> TAGTYPE_STRING" by (auto simp: isInt64_def tagtype_defs)
    then show ?thesis using head self[OF Int_data] Int_data le
      by (simp add: writeKadTag_def int64Value_def short_tag_def read_kad_data_simps ucast_small)
  next
    case (Float_data v)
    then have "t_type t = TAGTYPE_FLOAT32" "length v = 4" using assms(2) by (simp_all add: kad_tag_ok_def)
    then show ?thesis using Float_data head self[OF Float_data] same
      by (simp add: writeKadTag_def tag_accessors isInt64_def short_tag_def read_kad_data_simps tagtype_defs read_kad_data_simps[unfolded tagtype_defs])
  next
    case (Hash_data v)
    then have "t_type t = TAGTYPE_HASH" "length v = 16" using assms(2) by (simp_all add: kad_tag_ok_def)
    then show ?thesis using Hash_data head self[OF Hash_data] same
      by (simp add: writeKadTag_def tag_accessors isInt64_def short_tag_def read_kad_data_simps tagtype_defs read_kad_data_simps[unfolded tagtype_defs])
  next
    case (Blob_data v)
    then have "t_type t = TAGTYPE_BSOB" "length v < 256" using assms(2) by (simp_all add: kad_tag_ok_def)
    then show ?thesis using Blob_data head self[OF Blob_data] same
      by (simp add: writeKadTag_def writeKadTagBsob_def tag_accessors isInt64_def short_tag_def tagtype_defs read_kad_data_simps[unfolded tagtype_defs])
  next
    case No_data
    then show ?thesis using assms(2) by (simp add: kad_tag_ok_def)
  qed
qed

lemma read_kad_tags_ok:
  "read_kad_tags c k f = Some (ts, rest) \<Longrightarrow> length ts = k \<and> (\<forall>t \<in> set ts. kad_tag_ok t)"
  by (induction c k f arbitrary: ts rest rule: read_kad_tags.induct) (auto simp: read_kad_tag_ok split: Option.bind_splits)

lemma kad_tags_roundtrip:
  assumes "codec_ok proper c" "\<forall>t \<in> set ts. kad_tag_ok t \<and> servable proper c t"
  shows "\<exists>b. write_kad_tags c ts = Some b \<and> read_kad_tags c (length ts) (b @ g) = Some (map short_tag ts, g)"
  using assms(2)
proof (induction ts)
  case (Cons t ts)
  obtain bs where "write_kad_tags c ts = Some bs" "read_kad_tags c (length ts) (bs @ g) = Some (map short_tag ts, g)"
    using Cons by auto
  moreover obtain b where "writeKadTag c t = Some b" "readKadTag c (b @ bs @ g) = Some (short_tag t, bs @ g)"
    using kad_tag_roundtrip[OF assms(1), of t "bs @ g"] Cons.prems by auto
  ultimately show ?case by simp
qed simp

text \<open>C20. What a Kad node takes off the wire it can put on the wire again: whatever bytes a tag list was read from,
  the list is written without an exception and a reader gets the same names and values - a number in 64 bits
  that needs 32 comes back as one of 32 bits - provided the text was well-formed and still fits its length.\<close>

theorem read_kad_tags_are_servable:
  assumes "codec_ok proper c" "readKadTagList c f = Some (ts, f1)" "\<forall>t \<in> set ts. servable proper c t"
  shows "\<exists>b. writeKadTagList c ts = Some b \<and> readKadTagList c (b @ rest) = Some (map short_tag ts, rest)"
proof -
  obtain k :: u8 and g where k: "read_kad_tags c (unat k) g = Some (ts, f1)"
    using assms(2) by (auto simp: readKadTagList_def split: Option.bind_splits)
  have ts: "length ts = unat k" "\<forall>t \<in> set ts. kad_tag_ok t" using read_kad_tags_ok[OF k] by auto
  obtain b where "write_kad_tags c ts = Some b" "read_kad_tags c (length ts) (b @ rest) = Some (map short_tag ts, rest)"
    using kad_tags_roundtrip[OF assms(1), of ts rest] ts assms(3) by blast
  then show ?thesis using ts(1) by (simp add: writeKadTagList_def readKadTagList_def)
qed

lemma read_kad_tags_are_servable_witness:
  "\<exists>b. writeKadTagList sample_codec [tag_string (By_id 1) [97], tag_uint64 (By_name [7, 7]) 9, makeBsob (By_id 3) [5]] = Some b \<and>
     readKadTagList sample_codec (b @ [4]) = Some ([tag_string (By_id 1) [97], tag_uint32 (By_name [7, 7]) 9, makeBsob (By_id 3) [5]], [4])"
proof -
  have r: "readKadTagList sample_codec [3,  2, 1, 0, 1, 1, 0, 97,  11, 2, 0, 7, 7, 9, 0, 0, 0, 0, 0, 0, 0,  10, 1, 0, 3, 1, 5,  8] =
      Some ([tag_string (By_id 1) [97], tag_uint64 (By_name [7, 7]) 9, makeBsob (By_id 3) [5]], [8])"
    by code_simp
  have s: "\<forall>t \<in> set [tag_string (By_id 1) [97], tag_uint64 (By_name [7, 7]) 9, makeBsob (By_id 3) [5]].
      servable (\<lambda>s. \<forall>ch \<in> set s. ch \<le> 0x7F) sample_codec t"
    by (simp add: servable_def tag_constructors makeBsob_labelled sample_codec_def)
  have m: "map short_tag [tag_string (By_id 1) [97], tag_uint64 (By_name [7, 7]) 9, makeBsob (By_id 3) [5]] =
      [tag_string (By_id 1) [97], tag_uint32 (By_name [7, 7]) 9, makeBsob (By_id 3) [5]]"
    by (simp add: short_tag_def tag_constructors makeBsob_labelled labelled_def)
  show ?thesis using read_kad_tags_are_servable[OF sample_codec_ok r s, of "[4]"] unfolding m .
qed

text \<open>A string that no longer fits is written with the upper bits of its length lost: the reader takes the rest of
  its bytes for the next tag.  A blob, which the other form of tags knows, is replaced by the number 0.\<close>

lemma kad_string_spills:
  assumes "length (c_toUtf8 c s) = 65536"
  shows "readKadString c (writeKadString c s @ f) = Some ([], c_toUtf8 c s @ f)"
proof -
  have "(65536 :: u16) = 0" by code_simp
  then show ?thesis using assms by (simp add: readKadString_def writeKadString_def)
qed

lemma kad_blob_lost:
  "writeKadTag c (tag_blob l v) = writeKadTag c (tag_blob l [])"
  by (simp add: writeKadTag_def tag_blob_def isInt64_def tagtype_defs kad_head_def kad_name_def labelled_def split: tag_label.split)

end
