(* ===== verification/Server_List.thy ===== *)
theory Server_List
  imports Net_Address Tags
begin

text \<open>
  The list of ED2K servers (src/core/server/ServerList.cpp, Server.h): adding with its checks for
  duplicates, removing, the merge of two rows of one server, the order, and the three cursors that
  connecting, searching and pinging move over the list.  A pointer to a server is its serverId, which
  no two servers share.  Preferences, the IP filter and texts of addresses are an argument; a text
  has no capitals to tell apart once it is folded.
\<close>

text \<open>A priority is a 32-bit number that a file may set to anything.\<close>

datatype server_priority = PrNormal | PrHigh | PrLow | PrOther u32

text \<open>What the list itself does not look at: texts, sums, and the key of the server.\<close>

record server_facts =
  sf_name :: qtext
  sf_description :: qtext
  sf_version :: qtext
  sf_files :: u32
  sf_users :: u32
  sf_maxUsers :: u32
  sf_softFiles :: u32
  sf_hardFiles :: u32
  sf_lowIDUsers :: u32
  sf_ping :: u32
  sf_lastPingedTime :: u32
  sf_serverKeyUDP :: u32
  sf_serverKeyUDPIP :: u32
  sf_auxPortsList :: qtext
  sf_metaApiUrl :: qtext
  sf_metaApiPin :: qtext
  sf_metaNetworks :: u32

definition no_facts :: server_facts where
  "no_facts = \<lparr>sf_name = [], sf_description = [], sf_version = [], sf_files = 0, sf_users = 0, sf_maxUsers = 0,
     sf_softFiles = 0, sf_hardFiles = 0, sf_lowIDUsers = 0, sf_ping = 0, sf_lastPingedTime = 0, sf_serverKeyUDP = 0,
     sf_serverKeyUDPIP = 0, sf_auxPortsList = [], sf_metaApiUrl = [], sf_metaApiPin = [], sf_metaNetworks = 0\<rparr>"

record server =
  sv_id :: u32
  sv_address :: address
  sv_addressV6 :: address
  sv_port :: u16
  sv_dynIP :: qtext
  sv_preference :: server_priority
  sv_static :: bool
  sv_failedCount :: u32
  sv_disabled :: bool
  sv_tcpFlags :: u32
  sv_udpFlags :: u32
  sv_obfuscationPortTCP :: u16
  sv_obfuscationPortUDP :: u16
  sv_triedCrypt :: bool
  sv_hash :: "u8 list option"
  sv_facts :: server_facts

record server_list =
  sl_servers :: "server list"
  sl_serverPos :: nat
  sl_searchPos :: nat
  sl_statPos :: nat
  sl_deleted :: u32

record server_env =
  se_text :: "address \<Rightarrow> qtext"
  se_fold :: "qtext \<Rightarrow> qtext"
  se_routable :: "address \<Rightarrow> bool"
  se_filtered :: "address \<Rightarrow> bool"

section \<open>One server\<close>

definition hasDynIP :: "server \<Rightarrow> bool" where "hasDynIP s \<longleftrightarrow> sv_dynIP s \<noteq> []"
definition hasBothFamilies :: "server \<Rightarrow> bool" where "hasBothFamilies s \<longleftrightarrow> sv_addressV6 s \<noteq> NoAddress"

definition is_v4 :: "address \<Rightarrow> bool" where "is_v4 a \<longleftrightarrow> (case a of IPv4 _ \<Rightarrow> True | _ \<Rightarrow> False)"

definition ipv4Address :: "server \<Rightarrow> address" where
  "ipv4Address s = (if is_v4 (sv_address s) then sv_address s else NoAddress)"
definition ipv6Address :: "server \<Rightarrow> address" where
  "ipv6Address s = (if is_v6 (sv_address s) then sv_address s else sv_addressV6 s)"

definition hasAddress :: "server \<Rightarrow> address \<Rightarrow> bool" where
  "hasAddress s a \<longleftrightarrow> a \<noteq> NoAddress \<and> (a = sv_address s \<or> a = sv_addressV6 s)"

definition addAddress :: "address \<Rightarrow> server \<Rightarrow> bool \<times> server" where
  "addAddress a s =
     (if a = NoAddress \<or> hasDynIP s then (False, s)
      else (True,
        if is_v4 a then
          (if is_v6 (sv_address s) \<and> sv_addressV6 s = NoAddress then s\<lparr>sv_addressV6 := sv_address s\<rparr> else s)\<lparr>sv_address := a\<rparr>
        else if is_v4 (sv_address s) then s\<lparr>sv_addressV6 := a\<rparr>
        else s\<lparr>sv_address := a\<rparr>))"

definition otherFamilyAddress :: "server \<Rightarrow> address \<Rightarrow> address" where
  "otherFamilyAddress s current =
     (if sv_addressV6 s = NoAddress \<or> current = NoAddress then NoAddress
      else if is_v6 current then ipv4Address s else sv_addressV6 s)"

definition addressText :: "server_env \<Rightarrow> server \<Rightarrow> qtext" where
  "addressText env s = (if sv_dynIP s = [] then se_text env (sv_address s) else sv_dynIP s)"

definition supportsObfuscationTCP :: "server \<Rightarrow> bool" where
  "supportsObfuscationTCP s \<longleftrightarrow> sv_obfuscationPortTCP s \<noteq> 0 \<and>
     (sv_udpFlags s AND 0x200 \<noteq> 0 \<or> sv_tcpFlags s AND 0x400 \<noteq> 0)"

definition isDeadFor :: "u32 \<Rightarrow> server \<Rightarrow> bool" where
  "isDeadFor deadServerRetries s \<longleftrightarrow>
     sv_disabled s \<or> (deadServerRetries > 0 \<and> sv_failedCount s \<ge> deadServerRetries)"

definition resetFailedCount :: "server \<Rightarrow> server" where
  "resetFailedCount s = s\<lparr>sv_failedCount := 0, sv_disabled := False\<rparr>"

definition noteFailure :: "u32 \<Rightarrow> server \<Rightarrow> bool \<times> server" where
  "noteFailure deadServerRetries s =
     (let s1 = s\<lparr>sv_failedCount := sv_failedCount s + 1\<rparr> in
      if sv_disabled s1 \<or> sv_static s1 \<or> deadServerRetries = 0 \<or> sv_failedCount s1 < deadServerRetries then (False, s1)
      else (True, s1\<lparr>sv_disabled := True\<rparr>))"

definition isGoodServerIP :: "server_env \<Rightarrow> server \<Rightarrow> bool" where
  "isGoodServerIP env s \<longleftrightarrow> sv_port s \<noteq> 0 \<and> (hasDynIP s \<or> se_routable env (sv_address s))"

definition isFilteredServerIP :: "server_env \<Rightarrow> address \<Rightarrow> bool" where
  "isFilteredServerIP env a \<longleftrightarrow> a \<noteq> NoAddress \<and> se_filtered env a"

text \<open>The address to dial, and an address a host name resolved to that is not to be dialled.\<close>

definition dialAddress :: "bool \<Rightarrow> server \<Rightarrow> address" where
  "dialAddress preferIPv6 s = (if preferIPv6 \<and> sv_addressV6 s \<noteq> NoAddress then sv_addressV6 s else sv_address s)"

definition isRejectedResolvedIP :: "server_env \<Rightarrow> server option \<Rightarrow> address \<Rightarrow> bool" where
  "isRejectedResolvedIP env connected ip \<longleftrightarrow>
     (\<not> se_routable env ip \<and> (case connected of None \<Rightarrow> True | Some s \<Rightarrow> \<not> hasAddress s ip)) \<or> isFilteredServerIP env ip"

section \<open>Looking up\<close>

definition findByIPTcp :: "address \<Rightarrow> u16 \<Rightarrow> server_list \<Rightarrow> server option" where
  "findByIPTcp a port sl = find (\<lambda>s. hasAddress s a \<and> sv_port s = port) (sl_servers sl)"

definition findById :: "u32 \<Rightarrow> server_list \<Rightarrow> server option" where
  "findById i sl = (if i = 0 then None else find (\<lambda>s. sv_id s = i) (sl_servers sl))"

definition findByIPUdp :: "address \<Rightarrow> u16 \<Rightarrow> bool \<Rightarrow> server_list \<Rightarrow> server option" where
  "findByIPUdp a udpPort obfuscationPorts sl =
     (if a = NoAddress then None
      else find (\<lambda>s. hasAddress s a \<and>
             (unat udpPort = unat (sv_port s) + 4 \<or>
              obfuscationPorts \<and> (udpPort = sv_obfuscationPortUDP s \<or> unat udpPort = unat (sv_port s) + 12))) (sl_servers sl))"

definition findByAddress :: "server_env \<Rightarrow> qtext \<Rightarrow> u16 \<Rightarrow> server_list \<Rightarrow> server option" where
  "findByAddress env text1 port sl =
     find (\<lambda>s. (port = sv_port s \<or> port = 0) \<and> se_fold env (addressText env s) = se_fold env text1) (sl_servers sl)"

definition isDuplicate :: "server_env \<Rightarrow> server \<Rightarrow> server_list \<Rightarrow> bool" where
  "isDuplicate env s sl \<longleftrightarrow>
     findByAddress env (addressText env s) (sv_port s) sl \<noteq> None \<or>
     (\<not> hasDynIP s \<and> sv_address s \<noteq> NoAddress \<and> findByIPTcp (sv_address s) (sv_port s) sl \<noteq> None) \<or>
     (\<not> hasDynIP s \<and> hasBothFamilies s \<and> findByIPTcp (ipv6Address s) (sv_port s) sl \<noteq> None)"

definition update_row :: "u32 \<Rightarrow> (server \<Rightarrow> server) \<Rightarrow> server_list \<Rightarrow> server_list" where
  "update_row i f sl = sl\<lparr>sl_servers := map (\<lambda>s. if sv_id s = i then f s else s) (sl_servers sl)\<rparr>"

section \<open>Adding and removing\<close>

text \<open>The server in the list, or None where it was refused.\<close>

definition addServer :: "server_env \<Rightarrow> bool \<Rightarrow> server \<Rightarrow> server_list \<Rightarrow> server option \<times> server_list" where
  "addServer env manual s sl =
     (if \<not> hasDynIP s \<and> \<not> isGoodServerIP env s then (None, sl)
      else if \<not> hasDynIP s \<and> isFilteredServerIP env (sv_address s) then (None, sl)
      else if isDuplicate env s sl then
        (None,
         if manual then
           (case findByAddress env (addressText env s) (sv_port s) sl of
              Some existing \<Rightarrow> update_row (sv_id existing) resetFailedCount sl
            | None \<Rightarrow>
                (case findByIPTcp (sv_address s) (sv_port s) sl of
                   Some existing \<Rightarrow> update_row (sv_id existing) resetFailedCount sl
                 | None \<Rightarrow> sl))
         else sl)
      else (Some s, sl\<lparr>sl_servers := sl_servers sl @ [s]\<rparr>))"

definition adjust_position :: "nat \<Rightarrow> nat \<Rightarrow> nat \<Rightarrow> nat" where
  "adjust_position remaining removedIndex pos =
     (if pos > removedIndex \<and> pos > 0 then pos - 1
      else if pos = removedIndex then (if remaining = 0 then 0 else pos mod remaining)
      else pos)"

definition adjustPositionsAfterRemoval :: "nat \<Rightarrow> server_list \<Rightarrow> server_list" where
  "adjustPositionsAfterRemoval removedIndex sl =
     (let remaining = length (sl_servers sl) - 1 in
      sl\<lparr>sl_serverPos := (if sl_serverPos sl > removedIndex then sl_serverPos sl - 1 else sl_serverPos sl),
         sl_searchPos := adjust_position remaining removedIndex (sl_searchPos sl),
         sl_statPos := adjust_position remaining removedIndex (sl_statPos sl)\<rparr>)"

definition erase_at :: "nat \<Rightarrow> 'a list \<Rightarrow> 'a list" where
  "erase_at i xs = take i xs @ drop (Suc i) xs"

definition remove_at :: "nat \<Rightarrow> server_list \<Rightarrow> server_list" where
  "remove_at i sl = (adjustPositionsAfterRemoval i sl)\<lparr>sl_servers := erase_at i (sl_servers sl)\<rparr>"

fun index_of :: "u32 \<Rightarrow> server list \<Rightarrow> nat option" where
  "index_of i [] = None"
| "index_of i (s # ss) = (if sv_id s = i then Some 0 else map_option Suc (index_of i ss))"

definition removeServer :: "u32 \<Rightarrow> server_list \<Rightarrow> bool \<times> server_list" where
  "removeServer i sl =
     (case index_of i (sl_servers sl) of
        Some k \<Rightarrow> (True, (remove_at k sl)\<lparr>sl_deleted := sl_deleted sl + 1\<rparr>)
      | None \<Rightarrow> (False, sl))"

text \<open>The loops that remove from the last row to the first; the number counts the rows still to visit.\<close>

fun remove_back :: "(server \<Rightarrow> bool) \<Rightarrow> nat \<Rightarrow> server_list \<Rightarrow> server_list" where
  "remove_back P 0 sl = sl"
| "remove_back P (Suc i) sl = remove_back P i (if P (sl_servers sl ! i) then remove_at i sl else sl)"

definition remove_rows :: "(server \<Rightarrow> bool) \<Rightarrow> server_list \<Rightarrow> server_list" where
  "remove_rows P sl = remove_back P (length (sl_servers sl)) sl"

definition removeFilteredServers :: "server_env \<Rightarrow> bool \<Rightarrow> server_list \<Rightarrow> server_list" where
  "removeFilteredServers env filtering sl =
     (if \<not> filtering then sl else remove_rows (\<lambda>s. isFilteredServerIP env (sv_address s)) sl)"

definition removeAllServers :: "server_list \<Rightarrow> server_list" where
  "removeAllServers sl =
     \<lparr>sl_servers = [], sl_serverPos = 0, sl_searchPos = 0, sl_statPos = 0,
      sl_deleted = sl_deleted sl + of_nat (length (sl_servers sl))\<rparr>"

definition removeDuplicatesByAddress :: "server_env \<Rightarrow> server \<Rightarrow> server_list \<Rightarrow> server_list" where
  "removeDuplicatesByAddress env except sl =
     remove_rows (\<lambda>s. sv_id s \<noteq> sv_id except \<and> sv_port s = sv_port except \<and>
       se_fold env (addressText env s) = se_fold env (addressText env except)) sl"

definition removeDuplicatesByIP :: "server \<Rightarrow> server_list \<Rightarrow> server_list" where
  "removeDuplicatesByIP except sl =
     (if sv_address except = NoAddress then sl
      else remove_rows (\<lambda>s. sv_id s \<noteq> sv_id except \<and> sv_port s = sv_port except \<and>
        (hasAddress s (sv_address except) \<or> hasAddress s (ipv6Address except))) sl)"

definition applyResolvedIP :: "server_env \<Rightarrow> qtext \<Rightarrow> u16 \<Rightarrow> address \<Rightarrow> server_list \<Rightarrow> server_list" where
  "applyResolvedIP env dn port ip sl =
     (case findByAddress env dn port sl of
        None \<Rightarrow> sl
      | Some entry \<Rightarrow>
          removeDuplicatesByIP (entry\<lparr>sv_address := ip\<rparr>) (update_row (sv_id entry) (\<lambda>s. s\<lparr>sv_address := ip\<rparr>) sl))"

text \<open>Which of two priorities is the stronger, and the row that keeps the stronger settings.\<close>

fun merge_rank :: "server_priority \<Rightarrow> nat" where
  "merge_rank PrHigh = 2" | "merge_rank PrNormal = 1" | "merge_rank PrLow = 0" | "merge_rank (PrOther _) = 0"

definition absorb_row :: "server \<Rightarrow> server \<Rightarrow> server" where
  "absorb_row twin s =
     s\<lparr>sv_preference := (if merge_rank (sv_preference twin) > merge_rank (sv_preference s) then sv_preference twin else sv_preference s),
       sv_static := (sv_static s \<or> sv_static twin),
       sv_failedCount := min (sv_failedCount s) (sv_failedCount twin),
       sv_disabled := (sv_disabled s \<and> sv_disabled twin),
       sv_obfuscationPortTCP := (if sv_obfuscationPortTCP s = 0 then sv_obfuscationPortTCP twin else sv_obfuscationPortTCP s),
       sv_obfuscationPortUDP := (if sv_obfuscationPortUDP s = 0 then sv_obfuscationPortUDP twin else sv_obfuscationPortUDP s)\<rparr>"

definition merge_refused :: "server \<Rightarrow> server \<Rightarrow> address \<Rightarrow> bool" where
  "merge_refused twin entry a \<longleftrightarrow>
     (sv_hash twin \<noteq> None \<and> sv_hash entry \<noteq> None \<and> sv_hash twin \<noteq> sv_hash entry) \<or>
     (otherFamilyAddress twin a \<noteq> NoAddress \<and> \<not> hasAddress entry (otherFamilyAddress twin a))"

text \<open>Another address that the server behind a row says it has.\<close>

definition attachAddress :: "server_env \<Rightarrow> server \<Rightarrow> address \<Rightarrow> server_list \<Rightarrow> server_list" where
  "attachAddress env entry a sl =
     (if a = NoAddress \<or> hasDynIP entry \<or> hasAddress entry a then sl
      else if (if is_v6 a then ipv6Address entry else ipv4Address entry) \<noteq> NoAddress then sl
      else if \<not> se_routable env a \<or> isFilteredServerIP env a then sl
      else
        (case find (\<lambda>s. sv_id s \<noteq> sv_id entry \<and> sv_port s = sv_port entry \<and> hasAddress s a) (sl_servers sl) of
           None \<Rightarrow> update_row (sv_id entry) (\<lambda>s. snd (addAddress a s)) sl
         | Some twin \<Rightarrow>
             if merge_refused twin entry a then sl
             else snd (removeServer (sv_id twin)
               (update_row (sv_id entry) (\<lambda>s. absorb_row twin (snd (addAddress a s))) sl))))"

definition isServerAddress :: "address \<Rightarrow> server_list \<Rightarrow> bool" where
  "isServerAddress a sl \<longleftrightarrow> (\<exists>s \<in> set (sl_servers sl). hasAddress s a)"

definition getServerByIP :: "u32 \<Rightarrow> server_list \<Rightarrow> server option" where
  "getServerByIP ip sl = find (\<lambda>s. toNetworkUint32 (sv_address s) = ip) (sl_servers sl)"

definition serverAt :: "nat \<Rightarrow> server_list \<Rightarrow> server option" where
  "serverAt index sl = (if index < length (sl_servers sl) then Some (sl_servers sl ! index) else None)"

text \<open>The server behind the last one of a pass; none is left where the last one has gone.\<close>

definition getSuccServer :: "u32 option \<Rightarrow> server_list \<Rightarrow> server option" where
  "getSuccServer prev sl =
     (case prev of
        None \<Rightarrow> serverAt 0 sl
      | Some i \<Rightarrow> (case index_of i (sl_servers sl) of Some k \<Rightarrow> serverAt (k + 1) sl | None \<Rightarrow> None))"

section \<open>The order and the cursors\<close>

definition moveServerDown :: "u32 \<Rightarrow> server_list \<Rightarrow> server_list" where
  "moveServerDown i sl =
     (case index_of i (sl_servers sl) of
        Some k \<Rightarrow>
          if k + 1 < length (sl_servers sl)
          then sl\<lparr>sl_servers := erase_at k (sl_servers sl) @ [sl_servers sl ! k]\<rparr> else sl
      | None \<Rightarrow> sl)"

text \<open>The rows named, in the order named, then the others as they were.\<close>

fun take_named :: "(address \<times> u16) list \<Rightarrow> server list \<Rightarrow> server list \<times> server list" where
  "take_named [] ss = ([], ss)"
| "take_named ((a, port) # order) ss =
     (case find (\<lambda>s. hasAddress s a \<and> sv_port s = port) ss of
        None \<Rightarrow> take_named order ss
      | Some s \<Rightarrow> (let (placed, left) = take_named order (remove1 s ss) in (s # placed, left)))"

definition applyUserOrder :: "(address \<times> u16) list \<Rightarrow> server_list \<Rightarrow> server_list" where
  "applyUserOrder order sl =
     (let (placed, left) = take_named order (sl_servers sl)
      in sl\<lparr>sl_servers := placed @ left, sl_serverPos := 0, sl_searchPos := 0, sl_statPos := 0\<rparr>)"

fun preferenceRank :: "server_priority \<Rightarrow> nat" where
  "preferenceRank PrHigh = 0" | "preferenceRank PrNormal = 1" | "preferenceRank PrLow = 2" | "preferenceRank (PrOther _) = 1"

definition sortByPreference :: "server_list \<Rightarrow> server_list" where
  "sortByPreference sl = sl\<lparr>sl_servers := sort_key (preferenceRank \<circ> sv_preference) (sl_servers sl)\<rparr>"

definition autoConnectOrder :: "bool \<Rightarrow> bool \<Rightarrow> server_list \<Rightarrow> server list" where
  "autoConnectOrder usePriorities staticOnly sl =
     (let order = filter (\<lambda>s. \<not> (sv_disabled s \<or> staticOnly \<and> \<not> sv_static s)) (sl_servers sl)
      in if usePriorities then sort_key (preferenceRank \<circ> sv_preference) order else order)"

text \<open>Connecting: over the rows that are left, without a wrap.\<close>

definition dialled :: "bool \<Rightarrow> server \<Rightarrow> bool" where
  "dialled tryObfuscated s \<longleftrightarrow>
     \<not> sv_disabled s \<and> (\<not> tryObfuscated \<or> supportsObfuscationTCP s \<or> \<not> sv_triedCrypt s)"

fun scan_rows :: "bool \<Rightarrow> nat \<Rightarrow> server list \<Rightarrow> server option \<times> nat" where
  "scan_rows tryObfuscated pos [] = (None, pos)"
| "scan_rows tryObfuscated pos (s # ss) =
     (if dialled tryObfuscated s then (Some s, pos + 1) else scan_rows tryObfuscated (pos + 1) ss)"

definition nextServer :: "bool \<Rightarrow> server_list \<Rightarrow> server option \<times> server_list" where
  "nextServer tryObfuscated sl =
     (let (found, pos) = scan_rows tryObfuscated (sl_serverPos sl) (drop (sl_serverPos sl) (sl_servers sl))
      in (found, sl\<lparr>sl_serverPos := pos\<rparr>))"

definition setServerPosition :: "nat \<Rightarrow> server_list \<Rightarrow> server_list" where
  "setServerPosition pos sl = sl\<lparr>sl_serverPos := (if pos < length (sl_servers sl) then pos else 0)\<rparr>"

text \<open>Searching and pinging: round and round.\<close>

definition next_round :: "nat \<Rightarrow> server list \<Rightarrow> server option \<times> nat" where
  "next_round pos ss =
     (if ss = [] then (None, pos)
      else (let p = (if pos \<ge> length ss then 0 else pos) in (Some (ss ! p), (p + 1) mod length ss)))"

definition nextSearchServer :: "server_list \<Rightarrow> server option \<times> server_list" where
  "nextSearchServer sl = (let (s, p) = next_round (sl_searchPos sl) (sl_servers sl) in (s, sl\<lparr>sl_searchPos := p\<rparr>))"

definition nextStatServer :: "server_list \<Rightarrow> server option \<times> server_list" where
  "nextStatServer sl = (let (s, p) = next_round (sl_statPos sl) (sl_servers sl) in (s, sl\<lparr>sl_statPos := p\<rparr>))"

definition resetSearchServerPos :: "server_list \<Rightarrow> server_list" where
  "resetSearchServerPos sl = sl\<lparr>sl_searchPos := 0\<rparr>"


section \<open>Erasing a row\<close>

lemma split_at: "i < length xs \<Longrightarrow> xs = take i xs @ xs ! i # drop (Suc i) xs"
  by (rule id_take_nth_drop)

lemma distinct_split:
  assumes "distinct (map f (ys @ x # zs))"
  shows "filter (\<lambda>y. f y \<noteq> f x) ys = ys" "filter (\<lambda>y. f y \<noteq> f x) zs = zs"
  using assms by (auto simp: filter_id_conv rev_image_eqI)

lemma erase_at_filter:
  assumes "distinct (map f xs)" "i < length xs"
  shows "erase_at i xs = filter (\<lambda>x. f x \<noteq> f (xs ! i)) xs"
proof -
  define ys x zs where d: "ys = take i xs" "x = xs ! i" "zs = drop (Suc i) xs"
  have xs: "xs = ys @ x # zs" "length ys = i" unfolding d using split_at[OF assms(2)] assms(2) by auto
  have "filter (\<lambda>y. f y \<noteq> f x) xs = ys @ zs" using distinct_split[of f ys x zs] assms(1) by (simp add: xs(1))
  then show ?thesis by (simp add: erase_at_def d)
qed

lemma drop_take_erase:
  assumes "distinct (map f xs)" "i < length xs"
  shows "drop (if p > i then p - 1 else p) (erase_at i xs) = filter (\<lambda>x. f x \<noteq> f (xs ! i)) (drop p xs)"
    "take (if p > i then p - 1 else p) (erase_at i xs) = filter (\<lambda>x. f x \<noteq> f (xs ! i)) (take p xs)"
proof -
  define ys x zs where d: "ys = take i xs" "x = xs ! i" "zs = drop (Suc i) xs"
  have xs: "xs = ys @ x # zs" "length ys = i" unfolding d using split_at[OF assms(2)] assms(2) by auto
  have f: "filter (\<lambda>y. f y \<noteq> f x) ys = ys" "filter (\<lambda>y. f y \<noteq> f x) zs = zs"
    using distinct_split[of f ys x zs] assms(1) by (simp_all add: xs(1))
  have sub: "filter (\<lambda>y. f y \<noteq> f x) (drop k ys) = drop k ys" "filter (\<lambda>y. f y \<noteq> f x) (take k ys) = take k ys"
    "filter (\<lambda>y. f y \<noteq> f x) (drop k zs) = drop k zs" "filter (\<lambda>y. f y \<noteq> f x) (take k zs) = take k zs" for k
    using f by (auto simp: filter_id_conv dest: in_set_dropD in_set_takeD)
  have e: "erase_at i xs = ys @ zs" by (simp add: erase_at_def d)
  show "drop (if p > i then p - 1 else p) (erase_at i xs) = filter (\<lambda>x. f x \<noteq> f (xs ! i)) (drop p xs)"
    unfolding e d(2)[symmetric]
    by (cases "p > i") (auto simp: xs sub f drop_Cons' Suc_diff_le)
  show "take (if p > i then p - 1 else p) (erase_at i xs) = filter (\<lambda>x. f x \<noteq> f (xs ! i)) (take p xs)"
    unfolding e d(2)[symmetric]
    by (cases "p > i") (auto simp: xs sub f take_Cons' Suc_diff_le)
qed

text \<open>The rows in the order a cursor that goes round will visit them.\<close>

definition coming_round :: "nat \<Rightarrow> 'a list \<Rightarrow> 'a list" where
  "coming_round p xs = drop p xs @ take p xs"

lemma coming_round_erase:
  assumes "distinct (map f xs)" "i < length xs" "p < length xs"
  shows "coming_round (adjust_position (length xs - 1) i p) (erase_at i xs) = filter (\<lambda>x. f x \<noteq> f (xs ! i)) (coming_round p xs)"
proof (cases "p = i \<and> i = length xs - 1")
  case True
  then have "adjust_position (length xs - 1) i p = 0" by (auto simp: adjust_position_def)
  moreover have "erase_at i xs = take i xs" using True by (simp add: erase_at_def)
  moreover have "drop i xs = [xs ! i]" using True assms(2) by (metis Cons_nth_drop_Suc Suc_diff_1 drop_all le_refl length_greater_0_conv list.size(3) not_less_zero)
  moreover have "filter (\<lambda>x. f x \<noteq> f (xs ! i)) (take i xs) = take i xs"
    using distinct_split(1)[of f "take i xs" "xs ! i" "drop (Suc i) xs"] split_at[OF assms(2)] assms(1) by simp
  ultimately show ?thesis using True by (simp add: coming_round_def)
next
  case False
  then have "adjust_position (length xs - 1) i p = (if p > i then p - 1 else p)"
    using assms(2,3) by (auto simp: adjust_position_def)
  then show ?thesis using drop_take_erase[OF assms(1,2), of p] by (simp add: coming_round_def)
qed

lemma adjust_in_range:
  assumes "i < n" "p < n"
  shows "adjust_position (n - 1) i p < n - 1 \<or> adjust_position (n - 1) i p = 0"
  using assms by (auto simp: adjust_position_def)


section \<open>One row for a server\<close>

text \<open>Two rows that would be the same server: the same port and an address in common.\<close>

definition clash :: "server \<Rightarrow> server \<Rightarrow> bool" where
  "clash s t \<longleftrightarrow> sv_port s = sv_port t \<and> (hasAddress s (sv_address t) \<or> hasAddress s (sv_addressV6 t))"

definition rows_ok :: "server list \<Rightarrow> bool" where
  "rows_ok ss \<longleftrightarrow> distinct (map sv_id ss) \<and> (\<forall>s \<in> set ss. \<forall>t \<in> set ss. sv_id s \<noteq> sv_id t \<longrightarrow> \<not> clash s t)"

definition in_round :: "nat \<Rightarrow> nat \<Rightarrow> bool" where
  "in_round n p \<longleftrightarrow> p < n \<or> p = 0"

definition list_shape :: "server_list \<Rightarrow> bool" where
  "list_shape sl \<longleftrightarrow> distinct (map sv_id (sl_servers sl)) \<and> sl_serverPos sl \<le> length (sl_servers sl) \<and>
     in_round (length (sl_servers sl)) (sl_searchPos sl) \<and> in_round (length (sl_servers sl)) (sl_statPos sl)"

definition list_ok :: "server_list \<Rightarrow> bool" where
  "list_ok sl \<longleftrightarrow> list_shape sl \<and> rows_ok (sl_servers sl)"

lemma clash_iff: "clash s t \<longleftrightarrow> sv_port s = sv_port t \<and> (\<exists>a. hasAddress s a \<and> hasAddress t a)"
  by (auto simp: clash_def hasAddress_def)

lemma clash_commute: "clash s t \<longleftrightarrow> clash t s"
  unfolding clash_iff by metis

lemma rows_subset: "rows_ok ss \<Longrightarrow> set ts \<subseteq> set ss \<Longrightarrow> distinct (map sv_id ts) \<Longrightarrow> rows_ok ts"
  unfolding rows_ok_def by blast

lemma rows_filter:
  assumes "rows_ok ss"
  shows "rows_ok (filter P ss)"
  by (rule rows_subset[OF assms]) (use assms in \<open>auto simp: rows_ok_def intro: distinct_map_filter\<close>)

lemma rows_perm:
  assumes r: "rows_ok ss" and m: "mset ts = mset ss"
  shows "rows_ok ts"
proof (rule rows_subset[OF r])
  show "set ts \<subseteq> set ss" using mset_eq_setD[OF m] by simp
  have "mset (map sv_id ts) = mset (map sv_id ss)" using m by simp
  then show "distinct (map sv_id ts)" using r mset_eq_imp_distinct_iff unfolding rows_ok_def by blast
qed

lemma length_erase [simp]: "i < length xs \<Longrightarrow> length (erase_at i xs) = length xs - 1"
  by (simp add: erase_at_def)

lemma remove_at_servers [simp]: "sl_servers (remove_at i sl) = erase_at i (sl_servers sl)"
  by (simp add: remove_at_def)

lemma remove_at_shape:
  assumes "list_shape sl" "i < length (sl_servers sl)"
  shows "list_shape (remove_at i sl)"
proof -
  have d: "distinct (map sv_id (sl_servers sl))" using assms(1) by (simp add: list_shape_def)
  have "distinct (map sv_id (erase_at i (sl_servers sl)))" unfolding erase_at_filter[OF d assms(2)] by (rule distinct_map_filter[OF d])
  moreover have "in_round (length (sl_servers sl) - 1) (adjust_position (length (sl_servers sl) - 1) i p)"
    if "in_round (length (sl_servers sl)) p" for p
    using that adjust_in_range[OF assms(2), of p] assms(2) by (auto simp: in_round_def adjust_position_def)
  ultimately show ?thesis using assms
    by (auto simp: list_shape_def remove_at_def adjustPositionsAfterRemoval_def Let_def)
qed

lemma remove_back_shape:
  assumes "list_shape sl" "k \<le> length (sl_servers sl)"
  shows "list_shape (remove_back P k sl) \<and>
    sl_servers (remove_back P k sl) = filter (\<lambda>s. \<not> P s) (take k (sl_servers sl)) @ drop k (sl_servers sl)"
  using assms
proof (induction k arbitrary: sl)
  case (Suc k)
  have k: "k < length (sl_servers sl)" using Suc.prems(2) by simp
  let ?next = "if P (sl_servers sl ! k) then remove_at k sl else sl"
  have ok: "list_shape ?next" using Suc.prems(1) remove_at_shape k by auto
  have "k \<le> length (sl_servers ?next)" using k by auto
  note ih = Suc.IH[OF ok this]
  have "take (Suc k) (sl_servers sl) = take k (sl_servers sl) @ [sl_servers sl ! k]" using k by (rule take_Suc_conv_app_nth)
  moreover have "drop k (sl_servers sl) = sl_servers sl ! k # drop (Suc k) (sl_servers sl)" using k by (rule Cons_nth_drop_Suc[symmetric])
  ultimately show ?case using ih k by (auto simp: erase_at_def)
qed simp

lemma remove_rows_shape:
  assumes "list_shape sl"
  shows "list_shape (remove_rows P sl)" "sl_servers (remove_rows P sl) = filter (\<lambda>s. \<not> P s) (sl_servers sl)"
  using remove_back_shape[OF assms order.refl, of P] by (simp_all add: remove_rows_def)

lemma remove_rows_ok: "list_ok sl \<Longrightarrow> list_ok (remove_rows P sl)"
  using remove_rows_shape[of sl P] rows_filter by (simp add: list_ok_def)

lemma index_of_Some: "index_of i ss = Some k \<Longrightarrow> k < length ss \<and> sv_id (ss ! k) = i"
  by (induction ss arbitrary: k) (auto split: if_splits)

lemma index_of_None: "index_of i ss = None \<longleftrightarrow> i \<notin> sv_id ` set ss"
  by (induction ss) auto

lemma index_of_nth: "distinct (map sv_id ss) \<Longrightarrow> k < length ss \<Longrightarrow> index_of (sv_id (ss ! k)) ss = Some k"
proof (induction ss arbitrary: k)
  case (Cons s ss)
  then show ?case by (cases k) auto
qed simp

text \<open>A pass along the successors meets the rows in their order.\<close>

lemma successor_is_next:
  assumes "list_shape sl" "k < length (sl_servers sl)"
  shows "getSuccServer (Some (sv_id (sl_servers sl ! k))) sl = serverAt (Suc k) sl"
  using assms index_of_nth[of "sl_servers sl" k] by (simp add: getSuccServer_def list_shape_def)

lemma removeServer_servers:
  assumes "distinct (map sv_id (sl_servers sl))"
  shows "sl_servers (snd (removeServer i sl)) = filter (\<lambda>s. sv_id s \<noteq> i) (sl_servers sl)"
proof (cases "index_of i (sl_servers sl)")
  case None
  then show ?thesis using index_of_None[of i "sl_servers sl"] by (auto simp: removeServer_def intro!: filter_True[symmetric])
next
  case (Some k)
  then show ?thesis using index_of_Some[OF Some] erase_at_filter[OF assms, of k] by (simp add: removeServer_def)
qed

lemma removeServer_shape: "list_shape sl \<Longrightarrow> list_shape (snd (removeServer i sl))"
  using index_of_Some[of i "sl_servers sl"] remove_at_shape[of sl]
  by (auto simp: removeServer_def list_shape_def split: option.splits)

lemma removeServer_ok: "list_ok sl \<Longrightarrow> list_ok (snd (removeServer i sl))"
  using removeServer_shape[of sl i] removeServer_servers[of sl i] rows_filter by (simp add: list_ok_def list_shape_def)

text \<open>Changing one row.\<close>

lemma update_row_servers: "sl_servers (update_row i f sl) = map (\<lambda>s. if sv_id s = i then f s else s) (sl_servers sl)"
  by (simp add: update_row_def)

lemma map_row_ids: "(\<And>s. sv_id (f s) = sv_id s) \<Longrightarrow> map sv_id (map (\<lambda>s. if sv_id s = i then f s else s) ss) = map sv_id ss"
  by (induction ss) auto

text \<open>A change that leaves the identity alone, one that gains no address, and one that gains one address.\<close>

lemma gain_rows_ok:
  assumes r: "rows_ok ss" and f: "\<And>s. sv_id (f s) = sv_id s" "\<And>s. sv_port (f s) = sv_port s"
    and gain: "\<And>s b. s \<in> set ss \<Longrightarrow> sv_id s = i \<Longrightarrow> hasAddress (f s) b \<Longrightarrow> hasAddress s b \<or> b = a"
    and free: "\<And>s t. s \<in> set ss \<Longrightarrow> sv_id s = i \<Longrightarrow> t \<in> set ss \<Longrightarrow> P t \<Longrightarrow> sv_id t \<noteq> i \<Longrightarrow> sv_port t = sv_port s \<Longrightarrow> \<not> hasAddress t a"
  shows "rows_ok (filter P (map (\<lambda>s. if sv_id s = i then f s else s) ss))"
proof -
  let ?g = "\<lambda>s. if sv_id s = i then f s else s"
  have g: "sv_id (?g s) = sv_id s" "sv_port (?g s) = sv_port s" for s by (simp_all add: f)
  have "distinct (map sv_id (map ?g ss))" using r map_row_ids[of f i ss, OF f(1)] by (simp only: rows_ok_def)
  then have d: "distinct (map sv_id (filter P (map ?g ss)))" by (rule distinct_map_filter)
  have "\<not> clash x y" if x: "x \<in> set (filter P (map ?g ss))" and y: "y \<in> set (filter P (map ?g ss))" and ne: "sv_id x \<noteq> sv_id y" for x y
  proof
    assume "clash x y"
    obtain s t where s: "s \<in> set ss" "x = ?g s" "P x" and t: "t \<in> set ss" "y = ?g t" "P y" using x y by auto
    obtain b where b: "sv_port x = sv_port y" "hasAddress x b" "hasAddress y b" using \<open>clash x y\<close> by (auto simp: clash_iff)
    have st: "sv_id s \<noteq> sv_id t" "sv_port s = sv_port t" 
      using ne b(1) unfolding s(2) t(2) g .
    have no: "\<not> (hasAddress s b \<and> hasAddress t b)" using r st s(1) t(1) by (auto simp: rows_ok_def clash_iff)
    consider "sv_id s = i" "sv_id t \<noteq> i" | "sv_id t = i" "sv_id s \<noteq> i" | "sv_id s \<noteq> i" "sv_id t \<noteq> i" using st(1) by auto
    then show False
    proof cases
      case 1
      then have "hasAddress s b \<or> b = a" "hasAddress t b" "P t" using gain[OF s(1)] b s(2) t by auto
      then show False using no free[OF s(1) 1(1) t(1) _ 1(2)] st(2) by auto
    next
      case 2
      then have "hasAddress t b \<or> b = a" "hasAddress s b" "P s" using gain[OF t(1)] b s t(2) by auto
      then show False using no free[OF t(1) 2(1) s(1) _ 2(2)] st(2) by auto
    next
      case 3
      then show False using no b s(2) t(2) by auto
    qed
  qed
  then show ?thesis using d by (auto simp: rows_ok_def)
qed

lemma same_rows_ok:
  assumes "rows_ok ss" "\<And>s. sv_id (f s) = sv_id s" "\<And>s. sv_port (f s) = sv_port s"
    "\<And>s. sv_address (f s) = sv_address s" "\<And>s. sv_addressV6 (f s) = sv_addressV6 s"
  shows "rows_ok (map (\<lambda>s. if sv_id s = i then f s else s) ss)"
  using gain_rows_ok[OF assms(1-3), of i NoAddress "\<lambda>_. True"] assms(4,5) by (simp add: hasAddress_def)


definition row_sound :: "server \<Rightarrow> bool" where
  "row_sound s \<longleftrightarrow>
     (if hasDynIP s then sv_address s = NoAddress \<and> sv_addressV6 s = NoAddress
      else sv_addressV6 s \<noteq> NoAddress \<longrightarrow> is_v4 (sv_address s) \<and> is_v6 (sv_addressV6 s))"

lemma not_v6: "is_v4 a \<Longrightarrow> \<not> is_v6 a"
  by (cases a) (simp_all add: is_v4_def)

lemma update_shape:
  assumes "list_shape sl" "\<And>s. sv_id (f s) = sv_id s"
  shows "list_shape (update_row i f sl)"
proof -
  have "distinct (map sv_id (map (\<lambda>s. if sv_id s = i then f s else s) (sl_servers sl)))"
    using assms(1) map_row_ids[of f i "sl_servers sl", OF assms(2)] by (simp only: list_shape_def)
  then show ?thesis using assms(1) by (simp add: list_shape_def update_row_def)
qed

lemma update_list_ok:
  assumes "list_ok sl" "\<And>s. sv_id (f s) = sv_id s" "rows_ok (map (\<lambda>s. if sv_id s = i then f s else s) (sl_servers sl))"
  shows "list_ok (update_row i f sl)"
  using assms update_shape[of sl f i] by (simp add: list_ok_def update_row_def)

lemma reset_ok: "list_ok sl \<Longrightarrow> list_ok (update_row i resetFailedCount sl)"
  by (rule update_list_ok) (auto simp: list_ok_def resetFailedCount_def intro!: same_rows_ok)

lemma addServer_ok:
  assumes ok: "list_ok sl" and s: "row_sound s" "sv_id s \<notin> sv_id ` set (sl_servers sl)"
  shows "list_ok (snd (addServer env manual s sl))"
proof (cases "isDuplicate env s sl")
  case True
  then show ?thesis using ok reset_ok by (auto simp: addServer_def split: option.splits)
next
  case False
  have "\<not> clash s t" if t: "t \<in> set (sl_servers sl)" for t
  proof
    assume c: "clash s t"
    have n: "findByIPTcp a (sv_port s) sl = None \<longleftrightarrow> (\<forall>u \<in> set (sl_servers sl). hasAddress u a \<longrightarrow> sv_port u \<noteq> sv_port s)" for a
      by (auto simp: findByIPTcp_def find_None_iff)
    obtain a where a: "sv_port s = sv_port t" "hasAddress s a" "hasAddress t a" using c by (auto simp: clash_iff)
    have d: "\<not> hasDynIP s" using s(1) a(2) by (auto simp: row_sound_def hasAddress_def)
    have ne: "a \<noteq> NoAddress" using a(2) by (simp add: hasAddress_def)
    have "findByIPTcp a (sv_port s) sl \<noteq> None" using a t n[of a] by auto
    moreover have "a = sv_address s \<or> a = sv_addressV6 s" using a(2) by (simp add: hasAddress_def)
    moreover have "ipv6Address s = sv_addressV6 s" if "sv_addressV6 s \<noteq> NoAddress"
      using that s(1) d not_v6[of "sv_address s"] by (simp add: row_sound_def ipv6Address_def)
    ultimately show False using False d ne by (auto simp: isDuplicate_def hasBothFamilies_def)
  qed
  then have "\<forall>t \<in> set (sl_servers sl). \<not> clash s t \<and> \<not> clash t s" using clash_commute by blast
  then have "rows_ok (sl_servers sl @ [s])" using ok s(2) by (auto simp: list_ok_def rows_ok_def)
  then show ?thesis using ok False by (auto simp: addServer_def list_ok_def list_shape_def rows_ok_def in_round_def)
qed

lemma find_SomeD: "find P xs = Some x \<Longrightarrow> x \<in> set xs \<and> P x"
  by (induction xs) (auto split: if_splits)

lemma ids_equal: "rows_ok ss \<Longrightarrow> s \<in> set ss \<Longrightarrow> t \<in> set ss \<Longrightarrow> sv_id s = sv_id t \<Longrightarrow> s = t"
  by (auto simp: rows_ok_def distinct_map inj_on_def)

lemma applyResolvedIP_ok:
  assumes ok: "list_ok sl"
  shows "list_ok (applyResolvedIP env dn port ip sl)"
proof (cases "findByAddress env dn port sl")
  case None
  then show ?thesis using ok by (simp add: applyResolvedIP_def)
next
  case (Some e)
  have r: "rows_ok (sl_servers sl)" using ok by (simp add: list_ok_def)
  have e: "e \<in> set (sl_servers sl)" using Some find_SomeD[of _ "sl_servers sl"] unfolding findByAddress_def by blast
  let ?f = "\<lambda>s. s\<lparr>sv_address := ip\<rparr>" and ?ss = "sl_servers sl"
  let ?e = "?f e" and ?moved = "update_row (sv_id e) ?f sl"
  let ?twin = "\<lambda>s. sv_id s \<noteq> sv_id ?e \<and> sv_port s = sv_port ?e \<and> (hasAddress s (sv_address ?e) \<or> hasAddress s (ipv6Address ?e))"
  have gain: "hasAddress s b \<or> b = ip" if "hasAddress (?f s) b" for s b using that by (auto simp: hasAddress_def)
  have eq: "s = e" if "s \<in> set ?ss" "sv_id s = sv_id e" for s using ids_equal[OF r] that e by blast
  have kept: "rows_ok (filter (\<lambda>s. \<not> ?twin s \<or> ip = NoAddress) (map (\<lambda>s. if sv_id s = sv_id e then ?f s else s) ?ss))"
    by (rule gain_rows_ok[OF r, where a = ip]) (use gain eq in \<open>auto simp: hasAddress_def\<close>)
  have shape: "list_shape ?moved" by (rule update_shape) (use ok in \<open>simp_all add: list_ok_def\<close>)
  show ?thesis
  proof (cases "ip = NoAddress")
    case True
    have "list_ok ?moved" using ok kept True by (intro update_list_ok) simp_all
    then show ?thesis using Some True by (simp add: applyResolvedIP_def removeDuplicatesByIP_def)
  next
    case False
    have "list_ok (remove_rows ?twin ?moved)"
      using remove_rows_shape[OF shape, of ?twin] kept False by (simp only: list_ok_def update_row_servers) simp
    then show ?thesis using Some False by (simp add: applyResolvedIP_def removeDuplicatesByIP_def)
  qed
qed


lemma addAddress_same [simp]:
  "sv_id (snd (addAddress a s)) = sv_id s" "sv_port (snd (addAddress a s)) = sv_port s"
  by (simp_all add: addAddress_def)

lemma addAddress_gain: "hasAddress (snd (addAddress a s)) b \<Longrightarrow> hasAddress s b \<or> b = a"
  by (auto simp: addAddress_def hasAddress_def split: if_splits)

lemma absorb_same [simp]:
  "sv_id (absorb_row t s) = sv_id s" "sv_port (absorb_row t s) = sv_port s" "hasAddress (absorb_row t s) b = hasAddress s b"
  by (simp_all add: absorb_row_def hasAddress_def)

lemma attachAddress_ok:
  assumes ok: "list_ok sl" and e: "entry \<in> set (sl_servers sl)"
  shows "list_ok (attachAddress env entry a sl)"
proof -
  let ?ss = "sl_servers sl" and ?twin = "\<lambda>s. sv_id s \<noteq> sv_id entry \<and> sv_port s = sv_port entry \<and> hasAddress s a"
  have r: "rows_ok ?ss" using ok by (simp add: list_ok_def)
  have eq: "s = entry" if "s \<in> set ?ss" "sv_id s = sv_id entry" for s using ids_equal[OF r] that e by blast
  have none: "list_ok (update_row (sv_id entry) (\<lambda>s. snd (addAddress a s)) sl)" if n: "find ?twin ?ss = None"
  proof (rule update_list_ok[OF ok])
    have "rows_ok (filter (\<lambda>_. True) (map (\<lambda>s. if sv_id s = sv_id entry then snd (addAddress a s) else s) ?ss))"
      by (rule gain_rows_ok[OF r, where a = a]) (use n eq addAddress_gain in \<open>auto simp: find_None_iff\<close>)
    then show "rows_ok (map (\<lambda>s. if sv_id s = sv_id entry then snd (addAddress a s) else s) ?ss)" by simp
  qed simp
  have some: "list_ok (snd (removeServer (sv_id twin) (update_row (sv_id entry) (\<lambda>s. absorb_row twin (snd (addAddress a s))) sl)))"
    if t: "find ?twin ?ss = Some twin" for twin
  proof -
    let ?f = "\<lambda>s. absorb_row twin (snd (addAddress a s))"
    have tw: "twin \<in> set ?ss" "?twin twin" using find_SomeD[OF t] by auto
    have shape: "list_shape (update_row (sv_id entry) ?f sl)" by (rule update_shape) (use ok in \<open>simp_all add: list_ok_def\<close>)
    have free: "\<not> hasAddress u a" if "u \<in> set ?ss" "sv_id u \<noteq> sv_id twin" "sv_port u = sv_port entry" for u
      using r that tw unfolding rows_ok_def clash_iff by metis
    have "rows_ok (filter (\<lambda>s. sv_id s \<noteq> sv_id twin) (map (\<lambda>s. if sv_id s = sv_id entry then ?f s else s) ?ss))"
      by (rule gain_rows_ok[OF r, where a = a]) (use eq free addAddress_gain in auto)
    moreover have d: "distinct (map sv_id (sl_servers (update_row (sv_id entry) ?f sl)))" using shape by (simp only: list_shape_def)
    ultimately show ?thesis
      unfolding list_ok_def removeServer_servers[OF d] update_row_servers using removeServer_shape[OF shape] by simp
  qed
  show ?thesis using ok none some by (auto simp: attachAddress_def split: option.splits)
qed

lemma perm_ok:
  assumes "list_ok sl" "mset ss = mset (sl_servers sl)" "p \<le> length ss" "in_round (length ss) q" "in_round (length ss) r"
  shows "list_ok (sl\<lparr>sl_servers := ss, sl_serverPos := p, sl_searchPos := q, sl_statPos := r\<rparr>)"
  using assms rows_perm[of "sl_servers sl" ss] by (simp add: list_ok_def list_shape_def rows_ok_def)

lemma mset_erase: "k < length xs \<Longrightarrow> mset (erase_at k xs @ [xs ! k]) = mset xs"
proof -
  assume "k < length xs"
  then have "mset xs = mset (take k xs @ xs ! k # drop (Suc k) xs)" using split_at by metis
  then show ?thesis by (simp add: erase_at_def)
qed

lemma moveServerDown_ok:
  assumes "list_ok sl"
  shows "list_ok (moveServerDown i sl)"
proof (cases "index_of i (sl_servers sl)")
  case (Some k)
  then have k: "k < length (sl_servers sl)" using index_of_Some by blast
  let ?ss = "erase_at k (sl_servers sl) @ [sl_servers sl ! k]"
  have "length ?ss = length (sl_servers sl)" using k by (simp add: erase_at_def)
  then have "list_ok (sl\<lparr>sl_servers := ?ss\<rparr>)"
    using perm_ok[OF assms mset_erase[OF k], of "sl_serverPos sl" "sl_searchPos sl" "sl_statPos sl"] assms
    by (simp add: list_ok_def list_shape_def)
  then show ?thesis using Some assms by (simp add: moveServerDown_def)
qed (use assms in \<open>simp add: moveServerDown_def\<close>)

lemma take_named_perm: "take_named order ss = (placed, left) \<Longrightarrow> mset (placed @ left) = mset ss"
proof (induction order ss arbitrary: placed left rule: take_named.induct)
  case (2 a port order ss)
  show ?case
  proof (cases "find (\<lambda>s. hasAddress s a \<and> sv_port s = port) ss")
    case (Some s)
    obtain p l where pl: "take_named order (remove1 s ss) = (p, l)" by (cases "take_named order (remove1 s ss)")
    have "s \<in> set ss" using find_SomeD[OF Some] by simp
    then show ?thesis using 2(2)[OF Some pl] 2(3) Some pl by (auto simp: Let_def)
  qed (use 2 in simp)
qed simp

lemma applyUserOrder_ok:
  assumes "list_ok sl"
  shows "list_ok (applyUserOrder order sl)"
proof -
  obtain placed left where p: "take_named order (sl_servers sl) = (placed, left)" by (cases "take_named order (sl_servers sl)")
  show ?thesis using perm_ok[OF assms take_named_perm[OF p], of 0 0 0] by (simp add: applyUserOrder_def p in_round_def)
qed

lemma sortByPreference_ok: "list_ok sl \<Longrightarrow> list_ok (sortByPreference sl)"
  using perm_ok[of sl "sort_key (preferenceRank \<circ> sv_preference) (sl_servers sl)" "sl_serverPos sl" "sl_searchPos sl" "sl_statPos sl"]
  by (simp add: sortByPreference_def list_ok_def list_shape_def)

lemma scan_rows_pos: "scan_rows t pos ss = (found, pos') \<Longrightarrow> pos \<le> pos' \<and> pos' \<le> pos + length ss"
  by (induction ss arbitrary: pos) (force split: if_splits)+

lemma nextServer_ok: "list_ok sl \<Longrightarrow> list_ok (snd (nextServer t sl))"
  using scan_rows_pos[of t "sl_serverPos sl" "drop (sl_serverPos sl) (sl_servers sl)"]
  by (force simp: nextServer_def list_ok_def list_shape_def split: prod.splits)

lemma next_round_in: "in_round (length ss) pos \<Longrightarrow> in_round (length ss) (snd (next_round pos ss))"
  by (auto simp: next_round_def in_round_def Let_def)

lemma cursors_ok:
  assumes "list_ok sl"
  shows "list_ok (snd (nextSearchServer sl))" "list_ok (snd (nextStatServer sl))" "list_ok (setServerPosition pos sl)"
    "list_ok (resetSearchServerPos sl)"
  using assms next_round_in[of "sl_servers sl" "sl_searchPos sl"] next_round_in[of "sl_servers sl" "sl_statPos sl"]
  by (auto simp: nextSearchServer_def nextStatServer_def setServerPosition_def resetSearchServerPos_def list_ok_def list_shape_def
      in_round_def split: prod.splits)

text \<open>What happens to the list: its operations, and a change of a row that touches neither its addresses nor its
  port.  A server that comes from a link or a file by its host name brings no address.\<close>

inductive list_step :: "server_env \<Rightarrow> server_list \<Rightarrow> server_list \<Rightarrow> bool" for env where
  adds: "row_sound s \<Longrightarrow> sv_id s \<notin> sv_id ` set (sl_servers sl) \<Longrightarrow> list_step env sl (snd (addServer env manual s sl))"
| removes: "list_step env sl (snd (removeServer i sl))"
| filters: "list_step env sl (removeFilteredServers env filtering sl)"
| clears: "list_step env sl (removeAllServers sl)"
| same_name: "list_step env sl (removeDuplicatesByAddress env s sl)"
| resolves: "list_step env sl (applyResolvedIP env dn port ip sl)"
| attaches: "entry \<in> set (sl_servers sl) \<Longrightarrow> list_step env sl (attachAddress env entry a sl)"
| moves: "list_step env sl (moveServerDown i sl)"
| orders: "list_step env sl (applyUserOrder order sl)"
| sorts: "list_step env sl (sortByPreference sl)"
| connects: "list_step env sl (snd (nextServer tryObfuscated sl))"
| searches: "list_step env sl (snd (nextSearchServer sl))"
| pings: "list_step env sl (snd (nextStatServer sl))"
| positions: "list_step env sl (setServerPosition pos sl)"
| restarts: "list_step env sl (resetSearchServerPos sl)"
| changes: "(\<And>s. sv_id (f s) = sv_id s \<and> sv_port (f s) = sv_port s \<and> sv_address (f s) = sv_address s \<and>
    sv_addressV6 (f s) = sv_addressV6 s) \<Longrightarrow> list_step env sl (update_row i f sl)"

definition empty_list :: server_list where
  "empty_list = \<lparr>sl_servers = [], sl_serverPos = 0, sl_searchPos = 0, sl_statPos = 0, sl_deleted = 0\<rparr>"

inductive list_reached :: "server_env \<Rightarrow> server_list \<Rightarrow> bool" for env where
  start: "list_reached env empty_list"
| more: "list_reached env sl \<Longrightarrow> list_step env sl sl' \<Longrightarrow> list_reached env sl'"

lemma removeAllServers_ok: "list_ok (removeAllServers sl)"
  by (simp add: removeAllServers_def list_ok_def list_shape_def rows_ok_def in_round_def)

lemma list_step_ok: "list_step env sl sl' \<Longrightarrow> list_ok sl \<Longrightarrow> list_ok sl'"
proof (induction rule: list_step.induct)
  case (changes f sl i)
  have r: "rows_ok (sl_servers sl)" using changes.prems by (simp add: list_ok_def)
  show ?case by (rule update_list_ok[OF changes.prems _ same_rows_ok[OF r]]) (use changes.hyps in simp_all)
qed (simp_all add: addServer_ok removeServer_ok removeFilteredServers_def remove_rows_ok removeDuplicatesByAddress_def
    applyResolvedIP_ok attachAddress_ok moveServerDown_ok applyUserOrder_ok sortByPreference_ok nextServer_ok cursors_ok
    removeAllServers_ok)

lemma list_reached_ok: "list_reached env sl \<Longrightarrow> list_ok sl"
proof (induction rule: list_reached.induct)
  case start
  show ?case by (simp add: empty_list_def list_ok_def list_shape_def rows_ok_def in_round_def)
next
  case (more sl sl')
  then show ?case using list_step_ok by blast
qed


text \<open>C14. A server has one row: whatever is added, announced, resolved, merged, sorted or removed, two rows with the
  same port and an address in common are one row - so that no server is dialled, asked or pinged twice
  in a round under two entries.\<close>

theorem one_row_per_server:
  assumes "list_reached env sl" "s \<in> set (sl_servers sl)" "t \<in> set (sl_servers sl)"
    "sv_port s = sv_port t" "hasAddress s a" "hasAddress t a"
  shows "s = t"
proof -
  have r: "rows_ok (sl_servers sl)" using list_reached_ok[OF assms(1)] by (simp add: list_ok_def)
  have "clash s t" using assms(4-6) by (auto simp: clash_iff)
  then have "sv_id s = sv_id t" using r assms(2,3) by (auto simp: rows_ok_def)
  then show ?thesis using ids_equal[OF r assms(2,3)] by blast
qed

lemma removal_cursors:
  assumes "list_shape sl" "sl' = snd (removeServer i sl)"
  shows "drop (sl_serverPos sl') (sl_servers sl') = filter (\<lambda>s. sv_id s \<noteq> i) (drop (sl_serverPos sl) (sl_servers sl)) \<and>
    take (sl_serverPos sl') (sl_servers sl') = filter (\<lambda>s. sv_id s \<noteq> i) (take (sl_serverPos sl) (sl_servers sl)) \<and>
    coming_round (sl_searchPos sl') (sl_servers sl') = filter (\<lambda>s. sv_id s \<noteq> i) (coming_round (sl_searchPos sl) (sl_servers sl)) \<and>
    coming_round (sl_statPos sl') (sl_servers sl') = filter (\<lambda>s. sv_id s \<noteq> i) (coming_round (sl_statPos sl) (sl_servers sl))"
proof (cases "index_of i (sl_servers sl)")
  case None
  then have n: "\<forall>s \<in> set (sl_servers sl). sv_id s \<noteq> i" using index_of_None[of i "sl_servers sl"] by auto
  have f: "filter (\<lambda>s. sv_id s \<noteq> i) ss = ss" if "set ss \<subseteq> set (sl_servers sl)" for ss
    using that n by (auto simp: filter_id_conv)
  have same: "sl' = sl" using None assms(2) by (simp add: removeServer_def)
  have "set (coming_round p (sl_servers sl)) \<subseteq> set (sl_servers sl)" for p
    by (auto simp: coming_round_def dest: in_set_dropD in_set_takeD)
  then show ?thesis unfolding same using f set_drop_subset set_take_subset by metis
next
  case (Some k)
  have d: "distinct (map sv_id (sl_servers sl))" using assms(1) by (simp add: list_shape_def)
  have k: "k < length (sl_servers sl)" "sv_id (sl_servers sl ! k) = i" using index_of_Some[OF Some] by blast+
  have pos: "sl_searchPos sl < length (sl_servers sl)" "sl_statPos sl < length (sl_servers sl)"
    using assms(1) k(1) by (auto simp: list_shape_def in_round_def)
  have new: "sl_servers sl' = erase_at k (sl_servers sl)"
    "sl_serverPos sl' = (if sl_serverPos sl > k then sl_serverPos sl - 1 else sl_serverPos sl)"
    "sl_searchPos sl' = adjust_position (length (sl_servers sl) - 1) k (sl_searchPos sl)"
    "sl_statPos sl' = adjust_position (length (sl_servers sl) - 1) k (sl_statPos sl)"
    using Some assms(2) by (simp_all add: removeServer_def remove_at_def adjustPositionsAfterRemoval_def Let_def)
  show ?thesis
    using drop_take_erase[OF d k(1), of "sl_serverPos sl"] coming_round_erase[OF d k(1) pos(1)] coming_round_erase[OF d k(1) pos(2)]
    unfolding k(2) new by blast
qed

text \<open>Removing a server disturbs no round: the servers still to be dialled in this pass, and the order in which the
  others will be searched and pinged, are what they were, without the one that is gone - none is skipped, none
  comes twice.\<close>

theorem removal_keeps_rounds:
  assumes "list_reached env sl" "sl' = snd (removeServer i sl)"
  shows "drop (sl_serverPos sl') (sl_servers sl') = filter (\<lambda>s. sv_id s \<noteq> i) (drop (sl_serverPos sl) (sl_servers sl)) \<and>
    coming_round (sl_searchPos sl') (sl_servers sl') = filter (\<lambda>s. sv_id s \<noteq> i) (coming_round (sl_searchPos sl) (sl_servers sl)) \<and>
    coming_round (sl_statPos sl') (sl_servers sl') = filter (\<lambda>s. sv_id s \<noteq> i) (coming_round (sl_statPos sl) (sl_servers sl))"
  using removal_cursors[OF _ assms(2)] list_reached_ok[OF assms(1)] by (simp add: list_ok_def)


section \<open>A pass over the list\<close>

text \<open>A pass of the automatic connection: it asks for the next server while servers leave the list and
  announced ones join it.\<close>

datatype pass_event = Ask | Gone u32 | Announced server

fun pass_step :: "server_env \<Rightarrow> bool \<Rightarrow> pass_event \<Rightarrow> server list \<times> server_list \<Rightarrow> server list \<times> server_list" where
  "pass_step env t Ask (asked, sl) =
     (case nextServer t sl of (Some s, sl') \<Rightarrow> (asked @ [s], sl') | (None, sl') \<Rightarrow> (asked, sl'))"
| "pass_step env t (Gone i) (asked, sl) = (asked, snd (removeServer i sl))"
| "pass_step env t (Announced s) (asked, sl) = (asked, snd (addServer env False s sl))"

definition run_pass :: "server_env \<Rightarrow> bool \<Rightarrow> pass_event list \<Rightarrow> server_list \<Rightarrow> server list \<times> server_list" where
  "run_pass env t evs sl = fold (pass_step env t) evs ([], setServerPosition 0 sl)"

fun announced_ids :: "pass_event list \<Rightarrow> u32 list" where
  "announced_ids [] = []"
| "announced_ids (Announced s # evs) = sv_id s # announced_ids evs"
| "announced_ids (_ # evs) = announced_ids evs"

text \<open>The rows behind the cursor are dialled or not to be dialled, those before it are not dialled yet, and the
  servers still to be announced are none of either.\<close>

fun pass_ok :: "bool \<Rightarrow> u32 list \<Rightarrow> server list \<times> server_list \<Rightarrow> bool" where
  "pass_ok t new (asked, sl) \<longleftrightarrow>
     list_shape sl \<and> distinct (map sv_id asked) \<and> distinct new \<and>
     (\<forall>s \<in> set (drop (sl_serverPos sl) (sl_servers sl)). sv_id s \<notin> sv_id ` set asked) \<and>
     (\<forall>s \<in> set (take (sl_serverPos sl) (sl_servers sl)). dialled t s \<longrightarrow> s \<in> set asked) \<and>
     (\<forall>i \<in> set new. i \<notin> sv_id ` set asked \<and> i \<notin> sv_id ` set (sl_servers sl))"

lemma scan_rows_split:
  "scan_rows t pos ss = (found, pos') \<Longrightarrow>
     (\<forall>s \<in> set (take (pos' - pos) ss). dialled t s \<longrightarrow> Some s = found) \<and>
     (case found of Some s \<Rightarrow> pos' > pos \<and> pos' - pos \<le> length ss \<and> last (take (pos' - pos) ss) = s \<and> s \<in> set (take (pos' - pos) ss)
      | None \<Rightarrow> pos' = pos + length ss)"
proof (induction ss arbitrary: pos)
  case (Cons x ss)
  show ?case
  proof (cases "dialled t x")
    case True
    then show ?thesis using Cons.prems by auto
  next
    case False
    then have r: "scan_rows t (pos + 1) ss = (found, pos')" using Cons.prems by simp
    have "pos' - pos = Suc (pos' - (pos + 1))" using scan_rows_pos[OF r] by arith
    then have "take (pos' - pos) (x # ss) = x # take (pos' - (pos + 1)) ss" by simp
    then show ?thesis using Cons.IH[OF r] False by (auto split: option.splits)
  qed
qed simp

lemma pass_ask:
  assumes ok: "pass_ok t new (asked, sl)"
  shows "pass_ok t new (pass_step env t Ask (asked, sl))"
proof -
  let ?p = "sl_serverPos sl" and ?ss = "sl_servers sl"
  obtain found p' where n: "scan_rows t ?p (drop ?p ?ss) = (found, p')" by fastforce
  note sc = scan_rows_split[OF n] and le = scan_rows_pos[OF n]
  have p: "?p \<le> length ?ss" "?p \<le> p'" "p' \<le> length ?ss" using ok le by (auto simp: list_shape_def)
  have d: "distinct (map sv_id ?ss)" using ok by (simp add: list_shape_def)
  have shape: "list_shape (sl\<lparr>sl_serverPos := p'\<rparr>)" using ok p by (simp add: list_shape_def)
  have tk: "take p' ?ss = take ?p ?ss @ take (p' - ?p) (drop ?p ?ss)" using p by (metis le_add_diff_inverse take_add)
  have dr: "drop p' ?ss = drop (p' - ?p) (drop ?p ?ss)" using p by simp
  have dd: "distinct (map sv_id (drop ?p ?ss))" using d by (simp flip: drop_map)
  have seen: "\<forall>s \<in> set (drop ?p ?ss). sv_id s \<notin> sv_id ` set asked" "\<forall>s \<in> set (take ?p ?ss). dialled t s \<longrightarrow> s \<in> set asked"
    "distinct (map sv_id asked)" "distinct new" "\<forall>i \<in> set new. i \<notin> sv_id ` set asked \<and> i \<notin> sv_id ` set ?ss"
    using ok by simp_all
  have rest: "\<forall>s \<in> set (drop p' ?ss). sv_id s \<notin> sv_id ` set asked" 
    using seen(1) set_drop_subset[of "p' - ?p" "drop ?p ?ss"] unfolding dr by blast
  have done1: "\<forall>s \<in> set (take p' ?ss). dialled t s \<longrightarrow> s \<in> set asked \<or> Some s = found"
    unfolding tk set_append using seen(2) sc by blast
  show ?thesis
  proof (cases found)
    case None
    then have step: "pass_step env t Ask (asked, sl) = (asked, sl\<lparr>sl_serverPos := p'\<rparr>)" using n by (simp add: nextServer_def)
    show ?thesis unfolding step pass_ok.simps using None rest done1 shape seen(3-5) by simp
  next
    case (Some s)
    then have step: "pass_step env t Ask (asked, sl) = (asked @ [s], sl\<lparr>sl_serverPos := p'\<rparr>)" using n by (simp add: nextServer_def)
    have s: "s \<in> set (take (p' - ?p) (drop ?p ?ss))" using sc Some by simp
    then have s': "s \<in> set (drop ?p ?ss)" "s \<in> set ?ss" by (auto dest: in_set_takeD in_set_dropD)
    have "sv_id x \<noteq> sv_id s" if "x \<in> set (drop p' ?ss)" for x
    proof -
      have "distinct (map sv_id (take (p' - ?p) (drop ?p ?ss) @ drop (p' - ?p) (drop ?p ?ss)))"
        unfolding append_take_drop_id by (rule dd)
      then show ?thesis using s that unfolding dr map_append distinct_append by (metis IntI empty_iff image_eqI set_map)
    qed
    then show ?thesis unfolding step pass_ok.simps using Some rest done1 shape seen(1,3-5) s' by auto
  qed
qed

lemma pass_gone:
  assumes ok: "pass_ok t new (asked, sl)"
  shows "pass_ok t new (pass_step env t (Gone i) (asked, sl))"
proof -
  let ?sl = "snd (removeServer i sl)"
  have sh: "list_shape sl" using ok by simp
  have c: "drop (sl_serverPos ?sl) (sl_servers ?sl) = filter (\<lambda>s. sv_id s \<noteq> i) (drop (sl_serverPos sl) (sl_servers sl))"
    "take (sl_serverPos ?sl) (sl_servers ?sl) = filter (\<lambda>s. sv_id s \<noteq> i) (take (sl_serverPos sl) (sl_servers sl))"
    using removal_cursors[OF sh refl, of i] by blast+
  have s: "sl_servers ?sl = filter (\<lambda>s. sv_id s \<noteq> i) (sl_servers sl)"
    using removeServer_servers[of sl i] sh by (simp add: list_shape_def)
  have ids: "\<forall>s \<in> set (sl_servers ?sl). sv_id s \<notin> set new" using ok by (auto simp: s)
  show ?thesis using ok removeServer_shape[OF sh, of i] ids
    unfolding pass_step.simps pass_ok.simps c by auto
qed

lemma addServer_cases:
  "snd (addServer env False s sl) = sl \<or> snd (addServer env False s sl) = sl\<lparr>sl_servers := sl_servers sl @ [s]\<rparr>"
  by (auto simp: addServer_def)

lemma pass_announced:
  assumes ok: "pass_ok t (sv_id s # new) (asked, sl)"
  shows "pass_ok t new (pass_step env t (Announced s) (asked, sl))"
proof -
  have p: "sl_serverPos sl \<le> length (sl_servers sl)" using ok by (simp add: list_shape_def)
  have "list_shape (sl\<lparr>sl_servers := sl_servers sl @ [s]\<rparr>)"
    using ok by (auto simp: list_shape_def in_round_def)
  moreover have "\<forall>x \<in> set (sl_servers sl). sv_id x \<notin> set new" using ok by auto
  ultimately show ?thesis using addServer_cases[of env s sl] ok p by auto
qed

lemma pass_run: "pass_ok t (announced_ids evs @ new) st \<Longrightarrow> pass_ok t new (fold (pass_step env t) evs st)"
proof (induction evs arbitrary: st)
  case (Cons ev evs)
  obtain asked sl where st: "st = (asked, sl)" by (cases st)
  have "pass_ok t (announced_ids evs @ new) (pass_step env t ev st)"
    using Cons.prems pass_ask[of t "announced_ids evs @ new" asked sl env] pass_gone[of t "announced_ids evs @ new" asked sl env]
      pass_announced[of t _ "announced_ids evs @ new" asked sl env]
    unfolding st by (cases ev) (simp_all del: pass_ok.simps pass_step.simps)
  then show ?case using Cons.IH by simp
qed simp

text \<open>C15. A pass that looks for a server to connect to misses none and tries none twice, while servers leave the list
  and new ones are announced: when it finds no other server, every server then in the list that may be dialled has
  been tried in this pass.\<close>

theorem connect_pass_is_complete:
  assumes "list_reached env sl" "distinct (announced_ids evs)" "\<forall>i \<in> set (announced_ids evs). i \<notin> sv_id ` set (sl_servers sl)"
    "run_pass env t evs sl = (asked, sl')"
  shows "distinct (map sv_id asked) \<and>
    (fst (nextServer t sl') = None \<longrightarrow> (\<forall>s \<in> set (sl_servers sl'). dialled t s \<longrightarrow> s \<in> set asked))"
proof -
  have "list_shape (setServerPosition 0 sl)" 
    using cursors_ok(3)[OF list_reached_ok[OF assms(1)], of 0] by (simp add: list_ok_def)
  then have "pass_ok t (announced_ids evs @ []) ([], setServerPosition 0 sl)"
    using assms(2,3) by (simp add: setServerPosition_def)
  from pass_run[OF this, of env] have "pass_ok t [] (asked, sl')" using assms(4) by (simp add: run_pass_def)
  from pass_ask[OF this, of env] this show ?thesis
  proof (intro conjI impI ballI)
    assume ok: "pass_ok t [] (asked, sl')" and ok': "pass_ok t [] (pass_step env t Ask (asked, sl'))"
    show "distinct (map sv_id asked)" using ok by simp
    fix s assume none: "fst (nextServer t sl') = None" and s: "s \<in> set (sl_servers sl')" "dialled t s"
    obtain found p' where sc: "scan_rows t (sl_serverPos sl') (drop (sl_serverPos sl') (sl_servers sl')) = (found, p')" by fastforce
    then have f: "found = None" using none by (simp add: nextServer_def)
    then have "p' \<ge> length (sl_servers sl')" using scan_rows_split[OF sc] by simp
    moreover have "pass_step env t Ask (asked, sl') = (asked, sl'\<lparr>sl_serverPos := p'\<rparr>)" using sc f by (simp add: nextServer_def)
    ultimately show "s \<in> set asked" using ok' s by simp
  qed
qed


section \<open>Examples\<close>

definition sample_server_env :: server_env where
  "sample_server_env = \<lparr>se_text = (\<lambda>a. case a of IPv4 w \<Rightarrow> [ucast w] | IPv6 bs \<Rightarrow> map ucast bs | NoAddress \<Rightarrow> []),
     se_fold = (\<lambda>t. t), se_routable = (\<lambda>_. True), se_filtered = (\<lambda>_. False)\<rparr>"

definition sample_server :: "u32 \<Rightarrow> address \<Rightarrow> server" where
  "sample_server i a = \<lparr>sv_id = i, sv_address = a, sv_addressV6 = NoAddress, sv_port = 4661, sv_dynIP = [],
     sv_preference = PrNormal, sv_static = False, sv_failedCount = 0, sv_disabled = False, sv_tcpFlags = 0, sv_udpFlags = 0,
     sv_obfuscationPortTCP = 0, sv_obfuscationPortUDP = 0, sv_triedCrypt = False, sv_hash = None,
     sv_facts = no_facts\<rparr>"

definition sample_v6 :: address where "sample_v6 = IPv6 (0x20 # replicate 14 0 @ [1])"

definition two_rows :: server_list where
  "two_rows = snd (addServer sample_server_env False (sample_server 2 sample_v6)
     (snd (addServer sample_server_env False (sample_server 1 (IPv4 7)) empty_list)))"

definition merged_rows :: server_list where
  "merged_rows = attachAddress sample_server_env (sample_server 1 (IPv4 7)) sample_v6 two_rows"

lemma sample_rows:
  "sl_servers two_rows = [sample_server 1 (IPv4 7), sample_server 2 sample_v6]"
  "sl_servers merged_rows = [(sample_server 1 (IPv4 7))\<lparr>sv_addressV6 := sample_v6\<rparr>]"
  by code_simp+

lemma sample_sound: "row_sound (sample_server i a)"
  by (simp add: row_sound_def sample_server_def hasDynIP_def)

lemma sample_reached: "list_reached sample_server_env two_rows" "list_reached sample_server_env merged_rows"
proof -
  have one: "list_reached sample_server_env (snd (addServer sample_server_env False (sample_server 1 (IPv4 7)) empty_list))"
    by (rule list_reached.more[OF list_reached.start list_step.adds[OF sample_sound]]) (simp add: empty_list_def)
  have "sl_servers (snd (addServer sample_server_env False (sample_server 1 (IPv4 7)) empty_list)) = [sample_server 1 (IPv4 7)]"
    by code_simp
  then show two: "list_reached sample_server_env two_rows" unfolding two_rows_def
    by (intro list_reached.more[OF one list_step.adds[OF sample_sound]]) (simp add: sample_server_def)
  show "list_reached sample_server_env merged_rows" unfolding merged_rows_def
    by (rule list_reached.more[OF two list_step.attaches]) (simp add: sample_rows)
qed

lemma one_row_per_server_witness:
  "length (sl_servers merged_rows) = 1 \<and> hd (sl_servers merged_rows) = last (sl_servers merged_rows)"
proof -
  have h: "hasAddress (hd (sl_servers merged_rows)) sample_v6" "hasAddress (last (sl_servers merged_rows)) sample_v6" by code_simp+
  have "hd (sl_servers merged_rows) = last (sl_servers merged_rows)"
    by (rule one_row_per_server[OF sample_reached(2) _ _ _ h]) (simp_all add: sample_rows)
  then show ?thesis by (simp add: sample_rows)
qed

lemma connect_pass_is_complete_witness:
  "\<exists>asked sl'. run_pass sample_server_env False [Ask, Gone 1, Announced (sample_server 3 (IPv4 9)), Ask, Ask] two_rows = (asked, sl') \<and>
     map sv_id asked = [1, 2, 3] \<and> sample_server 3 (IPv4 9) \<in> set asked"
proof -
  let ?evs = "[Ask, Gone 1, Announced (sample_server 3 (IPv4 9)), Ask, Ask]"
  obtain asked sl' where r: "run_pass sample_server_env False ?evs two_rows = (asked, sl')" by fastforce
  have e: "distinct (announced_ids ?evs)" "\<forall>i \<in> set (announced_ids ?evs). i \<notin> sv_id ` set (sl_servers two_rows)"
    by (simp_all add: sample_rows sample_server_def)
  have i: "map sv_id (fst (run_pass sample_server_env False ?evs two_rows)) = [1, 2, 3]"
    and n: "fst (nextServer False (snd (run_pass sample_server_env False ?evs two_rows))) = None"
    and m: "list_ex (\<lambda>s. sv_id s = 3 \<and> s = sample_server 3 (IPv4 9)) (sl_servers (snd (run_pass sample_server_env False ?evs two_rows)))"
    by code_simp+
  have "dialled False (sample_server 3 (IPv4 9))" by code_simp
  moreover have "sample_server 3 (IPv4 9) \<in> set (sl_servers sl')" using m unfolding r by (auto simp: list_ex_iff)
  ultimately have "sample_server 3 (IPv4 9) \<in> set asked"
    using connect_pass_is_complete[OF sample_reached(1) e r] n unfolding r by auto
  then show ?thesis using r i by auto
qed

text \<open>A server whose row brings both a host name and an address is not compared by its address: it may become a
  second row for the server behind it.\<close>

lemma named_server_may_double:
  "let sl = snd (addServer sample_server_env False ((sample_server 2 (IPv4 7))\<lparr>sv_dynIP := [97]\<rparr>)
       (snd (addServer sample_server_env False (sample_server 1 (IPv4 7)) empty_list))) in
   map (\<lambda>s. (sv_address s, sv_port s)) (sl_servers sl) = [(IPv4 7, 4661), (IPv4 7, 4661)]"
  by code_simp

end
