(* ===== verification/Server_Announce.thy ===== *)
theory Server_Announce
  imports Server_List
begin

text \<open>
  Servers that a connected server announces (addServersFromPacket of src/core/server/ServerList.cpp): a
  list of IPv4 addresses with ports and, where the packet goes on, one of IPv6 addresses.  None is a read
  outside the packet.  The offsets stay below 6,200 and are natural numbers; the serverId of the next
  server made is an argument.
\<close>

definition peek_bytes :: "nat \<Rightarrow> u8 list \<Rightarrow> nat \<Rightarrow> u8 list option" where
  "peek_bytes k data off = (if off + k \<le> length data then Some (take k (drop off data)) else None)"

definition peekUInt8 :: "u8 list \<Rightarrow> nat \<Rightarrow> u8 option" where
  "peekUInt8 data off = map_option le_word (peek_bytes 1 data off)"
definition peekUInt16 :: "u8 list \<Rightarrow> nat \<Rightarrow> u16 option" where
  "peekUInt16 data off = map_option le_word (peek_bytes 2 data off)"
definition peekUInt32 :: "u8 list \<Rightarrow> nat \<Rightarrow> u32 option" where
  "peekUInt32 data off = map_option le_word (peek_bytes 4 data off)"

text \<open>A server as its constructor makes it.\<close>

definition new_server :: "u32 \<Rightarrow> address \<Rightarrow> u16 \<Rightarrow> server" where
  "new_server i a port = \<lparr>sv_id = i, sv_address = a, sv_addressV6 = NoAddress, sv_port = port, sv_dynIP = [],
     sv_preference = PrNormal, sv_static = False, sv_failedCount = 0, sv_disabled = False, sv_tcpFlags = 0, sv_udpFlags = 0,
     sv_obfuscationPortTCP = 0, sv_obfuscationPortUDP = 0, sv_triedCrypt = False, sv_hash = None,
     sv_facts = no_facts\<rparr>"

fun announced_v4 :: "u8 list \<Rightarrow> nat \<Rightarrow> nat \<Rightarrow> (address \<times> u16) list option" where
  "announced_v4 data 0 off = Some []"
| "announced_v4 data (Suc k) off = do {
     ip \<leftarrow> peekUInt32 data off;
     port \<leftarrow> peekUInt16 data (off + 4);
     rest \<leftarrow> announced_v4 data k (off + 6);
     Some ((fromNetworkOrder ip, port) # rest) }"

fun announced_v6 :: "u8 list \<Rightarrow> nat \<Rightarrow> nat \<Rightarrow> (address \<times> u16) list option" where
  "announced_v6 data 0 off = Some []"
| "announced_v6 data (Suc k) off = do {
     bs \<leftarrow> peek_bytes 16 data off;
     port \<leftarrow> peekUInt16 data (off + 16);
     rest \<leftarrow> announced_v6 data k (off + 18);
     Some ((IPv6 bs, port) # rest) }"

definition announced :: "u8 list \<Rightarrow> (address \<times> u16) list option" where
  "announced data =
     (if length data < 1 then Some []
      else do {
        k \<leftarrow> peekUInt8 data 0;
        if 1 + unat k * 6 > length data then Some []
        else do {
          v4 \<leftarrow> announced_v4 data (unat k) 1;
          v6 \<leftarrow> (if 1 + unat k * 6 < length data then do {
                   k6 \<leftarrow> peekUInt8 data (1 + unat k * 6);
                   if 2 + unat k * 6 + unat k6 * 18 \<le> length data
                   then announced_v6 data (unat k6) (2 + unat k * 6) else Some [] }
                 else Some []);
          Some (v4 @ v6) } })"

fun add_announced :: "server_env \<Rightarrow> u32 \<Rightarrow> (address \<times> u16) list \<Rightarrow> server_list \<Rightarrow> nat \<times> server_list" where
  "add_announced env i [] sl = (0, sl)"
| "add_announced env i ((a, port) # rows) sl =
     (let (raw, sl1) = addServer env False ((new_server i a port)\<lparr>sv_preference := PrLow\<rparr>) sl;
          (added, sl2) = add_announced env (i + 1) rows sl1
      in (if raw \<noteq> None then Suc added else added, sl2))"

definition addServersFromPacket :: "server_env \<Rightarrow> u32 \<Rightarrow> u8 list \<Rightarrow> server_list \<Rightarrow> (nat \<times> server_list) option" where
  "addServersFromPacket env i data sl = map_option (\<lambda>rows. add_announced env i rows sl) (announced data)"

section \<open>What an announcement can do\<close>

lemma peek_inside: "off + k \<le> length data \<Longrightarrow> peek_bytes k data off = Some (take k (drop off data))"
  by (simp add: peek_bytes_def)

lemmas peeks = peekUInt8_def peekUInt16_def peekUInt32_def peek_inside

lemma announced_v4_inside: "off + k * 6 \<le> length data \<Longrightarrow> \<exists>rows. announced_v4 data k off = Some rows \<and> length rows = k"
proof (induction k arbitrary: off)
  case (Suc k)
  have "(off + 6) + k * 6 \<le> length data" using Suc.prems by simp
  from Suc.IH[OF this] Suc.prems show ?case by (auto simp: peeks)
qed simp

lemma announced_v6_inside: "off + k * 18 \<le> length data \<Longrightarrow> \<exists>rows. announced_v6 data k off = Some rows \<and> length rows = k"
proof (induction k arbitrary: off)
  case (Suc k)
  have "(off + 18) + k * 18 \<le> length data" using Suc.prems by simp
  from Suc.IH[OF this] Suc.prems show ?case by (auto simp: peeks)
qed simp

lemma announced_inside: "\<exists>rows. announced data = Some rows \<and> length rows \<le> 510 \<and> 6 * length rows \<le> length data"
proof (cases "length data < 1")
  case False
  then obtain k :: u8 where k: "peekUInt8 data 0 = Some k" by (simp add: peeks)
  have k255: "unat k \<le> 255" using unsigned_less[of k, where 'a = nat] by simp
  show ?thesis
  proof (cases "1 + unat k * 6 > length data")
    case fits: False
    then obtain v4 where v4: "announced_v4 data (unat k) 1 = Some v4" "length v4 = unat k"
      using announced_v4_inside[of 1 "unat k" data] by auto
    have "\<exists>v6. (if 1 + unat k * 6 < length data then do {
                   k6 \<leftarrow> peekUInt8 data (1 + unat k * 6);
                   if 2 + unat k * 6 + unat k6 * 18 \<le> length data
                   then announced_v6 data (unat k6) (2 + unat k * 6) else Some [] }
                 else Some []) = Some v6 \<and> length v6 \<le> 255 \<and> 1 + unat k * 6 + 18 * length v6 \<le> length data"
    proof (cases "1 + unat k * 6 < length data")
      case True
      then obtain k6 :: u8 where k6: "peekUInt8 data (1 + unat k * 6) = Some k6" by (simp add: peeks)
      have "unat k6 \<le> 255" using unsigned_less[of k6, where 'a = nat] by simp
      then show ?thesis using True k6 announced_v6_inside[of "2 + unat k * 6" "unat k6" data] by auto
    qed (use fits in simp)
    then obtain v6 where "(if 1 + unat k * 6 < length data then do {
                   k6 \<leftarrow> peekUInt8 data (1 + unat k * 6);
                   if 2 + unat k * 6 + unat k6 * 18 \<le> length data
                   then announced_v6 data (unat k6) (2 + unat k * 6) else Some [] }
                 else Some []) = Some v6" "length v6 \<le> 255" "1 + unat k * 6 + 18 * length v6 \<le> length data" by blast
    then show ?thesis using False fits k v4 k255 by (simp add: announced_def)
  qed (use False k in \<open>simp add: announced_def\<close>)
qed (simp add: announced_def)

lemma new_row_sound: "row_sound ((new_server i a port)\<lparr>sv_preference := PrLow\<rparr>)"
  by (simp add: row_sound_def new_server_def hasDynIP_def)

text \<open>A row that an announcement made.\<close>

definition announced_row :: "server_env \<Rightarrow> server \<Rightarrow> bool" where
  "announced_row env s \<longleftrightarrow>
     sv_preference s = PrLow \<and> \<not> sv_static s \<and> \<not> hasDynIP s \<and> sv_port s \<noteq> 0 \<and>
     se_routable env (sv_address s) \<and> \<not> isFilteredServerIP env (sv_address s)"

lemma addServer_new:
  assumes "addServer env False s sl = (raw, sl1)"
  shows "raw = None \<and> sl1 = sl \<or> raw = Some s \<and> sl1 = sl\<lparr>sl_servers := sl_servers sl @ [s]\<rparr> \<and>
    (hasDynIP s \<or> isGoodServerIP env s \<and> \<not> isFilteredServerIP env (sv_address s))"
  using assms unfolding addServer_def by (simp split: if_splits) blast+

lemma announced_added:
  assumes "addServer env False ((new_server i a port)\<lparr>sv_preference := PrLow\<rparr>) sl = (raw, sl1)"
  shows "raw = None \<and> sl1 = sl \<or>
    (\<exists>s. raw = Some s \<and> sv_id s = i \<and> announced_row env s \<and> sl1 = sl\<lparr>sl_servers := sl_servers sl @ [s]\<rparr>)"
proof -
  let ?s = "(new_server i a port)\<lparr>sv_preference := PrLow\<rparr>"
  have n: "\<not> hasDynIP ?s" "sv_id ?s = i" "sv_preference ?s = PrLow" "\<not> sv_static ?s" by (simp_all add: new_server_def hasDynIP_def)
  have "announced_row env ?s" if "isGoodServerIP env ?s \<and> \<not> isFilteredServerIP env (sv_address ?s)"
    using that n unfolding announced_row_def isGoodServerIP_def by blast
  then show ?thesis using addServer_new[OF assms] n by blast
qed

lemma add_announced_ok:
  assumes "list_reached env sl" "unat i + length rows < 2 ^ 32" "\<forall>s \<in> set (sl_servers sl). unat (sv_id s) < unat i"
    "add_announced env i rows sl = (added, sl')"
  shows "list_reached env sl' \<and>
    (\<exists>new. sl' = sl\<lparr>sl_servers := sl_servers sl @ new\<rparr> \<and> length new = added \<and> added \<le> length rows \<and> (\<forall>s \<in> set new. announced_row env s))"
  using assms
proof (induction rows arbitrary: i sl added)
  case (Cons row rows)
  obtain a port where row: "row = (a, port)" by (cases row)
  let ?s = "(new_server i a port)\<lparr>sv_preference := PrLow\<rparr>"
  obtain raw sl1 where one: "addServer env False ?s sl = (raw, sl1)" by fastforce
  obtain n where rest: "add_announced env (i + 1) rows sl1 = (n, sl')" "added = (if raw \<noteq> None then Suc n else n)"
    using Cons.prems(4) one by (auto simp: row split: prod.splits)
  have i1: "unat (i + 1) = unat i + 1" using Cons.prems(2) by (simp add: unat_word_ariths)
  have fresh: "sv_id ?s \<notin> sv_id ` set (sl_servers sl)" using Cons.prems(3) by (force simp: new_server_def)
  have r1: "list_reached env sl1"
    using list_reached.more[OF Cons.prems(1) list_step.adds[OF new_row_sound fresh, of env False]] one by simp
  have below: "\<forall>s \<in> set (sl_servers sl1). unat (sv_id s) < unat (i + 1)"
    using announced_added[OF one] Cons.prems(3) i1 by (auto simp: less_SucI)
  have "unat (i + 1) + length rows < 2 ^ 32" using Cons.prems(2) i1 by simp
  from Cons.IH[OF r1 this below rest(1)] obtain new where
    new: "list_reached env sl'" "sl' = sl1\<lparr>sl_servers := sl_servers sl1 @ new\<rparr>" "length new = n" "n \<le> length rows"
      "\<forall>s \<in> set new. announced_row env s" by blast
  from announced_added[OF one] show ?case
  proof (elim disjE exE conjE)
    assume "raw = None" "sl1 = sl"
    then show ?thesis using new rest by auto
  next
    fix s assume "raw = Some s" "announced_row env s" "sl1 = sl\<lparr>sl_servers := sl_servers sl @ [s]\<rparr>"
    then show ?thesis using new rest by (intro conjI exI[of _ "s # new"]) simp_all
  qed
qed (auto intro: exI[of _ "[]"])

text \<open>C18. Whatever bytes a server announces, none outside the packet is read, at most 510 rows join the list, and one
  for every six bytes; the rows and the cursors that were there stay as they were.  What joins is of low priority,
  routable, has a port, passes the IP filter and is no second row of a server in the list.\<close>

theorem announcement_is_absorbed:
  assumes "list_reached env sl" "unat i + 510 < 2 ^ 32" "\<forall>s \<in> set (sl_servers sl). unat (sv_id s) < unat i"
  shows "\<exists>new. addServersFromPacket env i data sl = Some (length new, sl\<lparr>sl_servers := sl_servers sl @ new\<rparr>) \<and>
    length new \<le> 510 \<and> 6 * length new \<le> length data \<and> (\<forall>s \<in> set new. announced_row env s) \<and>
    list_reached env (sl\<lparr>sl_servers := sl_servers sl @ new\<rparr>)"
proof -
  obtain rows where rows: "announced data = Some rows" "length rows \<le> 510" "6 * length rows \<le> length data"
    using announced_inside by blast
  obtain added sl' where add: "add_announced env i rows sl = (added, sl')" by fastforce
  have "unat i + length rows < 2 ^ 32" using assms(2) rows(2) by simp
  from add_announced_ok[OF assms(1) this assms(3) add] show ?thesis
    using rows add by (auto simp: addServersFromPacket_def)
qed

lemma announcement_is_absorbed_witness:
  "\<exists>new. addServersFromPacket sample_server_env 3 [1, 7, 0, 0, 0, 53, 18] two_rows =
     Some (length new, two_rows\<lparr>sl_servers := sl_servers two_rows @ new\<rparr>) \<and> length new = 1"
proof -
  let ?d = "[1, 7, 0, 0, 0, 53, 18] :: u8 list"
  have n: "map_option fst (addServersFromPacket sample_server_env 3 ?d two_rows) = Some 1"
    by code_simp
  show ?thesis
    using announcement_is_absorbed[OF sample_reached(1), of 3 ?d] n by (auto simp: sample_rows sample_server_def)
qed

text \<open>The bytes of an announcement, IPv4 rows first, are the rows.\<close>

lemma announced_example:
  "announced ([1, 7, 0, 0, 1, 53, 18] @ [1] @ (0x20 # replicate 14 0 @ [1]) @ [53, 18]) =
     Some [(IPv4 0x07000001, 4661), (IPv6 (0x20 # replicate 14 0 @ [1]), 4661)]"
  by code_simp

end
