(* ===== verification/Server_Met.thy ===== *)
theory Server_Met
  imports Server_Announce
begin

text \<open>
  The file server.met (src/core/server/Server.cpp, ServerList.cpp): a server as a header and tags, saving,
  loading with the previous file to fall back on, and merging a list from elsewhere.  The text of a
  version number and the test of a URL are arguments.
\<close>

definition ST_SERVERNAME :: u8 where "ST_SERVERNAME = 0x01"
definition ST_DESCRIPTION :: u8 where "ST_DESCRIPTION = 0x0B"
definition ST_PING :: u8 where "ST_PING = 0x0C"
definition ST_FAIL :: u8 where "ST_FAIL = 0x0D"
definition ST_PREFERENCE :: u8 where "ST_PREFERENCE = 0x0E"
definition ST_DYNIP :: u8 where "ST_DYNIP = 0x85"
definition ST_MAXUSERS :: u8 where "ST_MAXUSERS = 0x87"
definition ST_SOFTFILES :: u8 where "ST_SOFTFILES = 0x88"
definition ST_HARDFILES :: u8 where "ST_HARDFILES = 0x89"
definition ST_LASTPING :: u8 where "ST_LASTPING = 0x90"
definition ST_VERSION :: u8 where "ST_VERSION = 0x91"
definition ST_UDPFLAGS :: u8 where "ST_UDPFLAGS = 0x92"
definition ST_AUXPORTSLIST :: u8 where "ST_AUXPORTSLIST = 0x93"
definition ST_LOWIDUSERS :: u8 where "ST_LOWIDUSERS = 0x94"
definition ST_UDPKEY :: u8 where "ST_UDPKEY = 0x95"
definition ST_UDPKEYIP :: u8 where "ST_UDPKEYIP = 0x96"
definition ST_TCPPORTOBFUSCATION :: u8 where "ST_TCPPORTOBFUSCATION = 0x97"
definition ST_UDPPORTOBFUSCATION :: u8 where "ST_UDPPORTOBFUSCATION = 0x98"
definition ST_IPV6 :: u8 where "ST_IPV6 = 0x99"

definition name_files :: "u8 list" where "name_files = [102, 105, 108, 101, 115]"
definition name_users :: "u8 list" where "name_users = [117, 115, 101, 114, 115]"
definition name_disabled :: "u8 list" where "name_disabled = [100, 105, 115, 97, 98, 108, 101, 100]"
definition name_metaapi :: "u8 list" where "name_metaapi = [109, 101, 116, 97, 97, 112, 105]"
definition name_metaapipin :: "u8 list" where "name_metaapipin = [109, 101, 116, 97, 97, 112, 105, 112, 105, 110]"
definition name_metanetworks :: "u8 list" where "name_metanetworks = [109, 101, 116, 97, 110, 101, 116, 119, 111, 114, 107, 115]"

lemmas st_defs = ST_SERVERNAME_def ST_DESCRIPTION_def ST_PING_def ST_FAIL_def ST_PREFERENCE_def ST_DYNIP_def
  ST_MAXUSERS_def ST_SOFTFILES_def ST_HARDFILES_def ST_LASTPING_def ST_VERSION_def ST_UDPFLAGS_def ST_AUXPORTSLIST_def
  ST_LOWIDUSERS_def ST_UDPKEY_def ST_UDPKEYIP_def ST_TCPPORTOBFUSCATION_def ST_UDPPORTOBFUSCATION_def ST_IPV6_def

lemmas name_defs = name_files_def name_users_def name_disabled_def name_metaapi_def name_metaapipin_def name_metanetworks_def

record met_env =
  me_codec :: text_codec
  me_versionText :: "u32 \<Rightarrow> qtext"
  me_isMetaApiUrl :: "qtext \<Rightarrow> bool"

fun priority_value :: "server_priority \<Rightarrow> u32" where
  "priority_value PrNormal = 0" | "priority_value PrHigh = 1" | "priority_value PrLow = 2" | "priority_value (PrOther w) = w"

definition priority_of :: "u32 \<Rightarrow> server_priority" where
  "priority_of w = (if w = 0 then PrNormal else if w = 1 then PrHigh else if w = 2 then PrLow else PrOther w)"

section \<open>Tags to a server\<close>

text \<open>The value of a tag that has the type asked for.  A tag that was read has a value of its type.\<close>

definition str_of :: "tag \<Rightarrow> qtext option" where
  "str_of t = (if t_type t = TAGTYPE_STRING then strValue t else None)"
definition int_of_tag :: "tag \<Rightarrow> u32 option" where
  "int_of_tag t = (if t_type t = TAGTYPE_UINT32 then intValue t else None)"
definition hash_of :: "tag \<Rightarrow> u8 list option" where
  "hash_of t = (if t_type t = TAGTYPE_HASH then hashValue t else None)"

definition facts :: "(server_facts \<Rightarrow> server_facts) \<Rightarrow> server \<Rightarrow> server" where
  "facts g s = s\<lparr>sv_facts := g (sv_facts s)\<rparr>"

definition on_int :: "tag \<Rightarrow> (u32 \<Rightarrow> server \<Rightarrow> server) \<Rightarrow> server \<Rightarrow> server" where
  "on_int t g s = (case int_of_tag t of Some v \<Rightarrow> g v s | None \<Rightarrow> s)"
definition on_str :: "tag \<Rightarrow> (qtext \<Rightarrow> server \<Rightarrow> server) \<Rightarrow> server \<Rightarrow> server" where
  "on_str t g s = (case str_of t of Some v \<Rightarrow> g v s | None \<Rightarrow> s)"

definition add_named_tag :: "met_env \<Rightarrow> tag \<Rightarrow> server \<Rightarrow> server" where
  "add_named_tag env t s =
     (if t_nameId t \<noteq> 0 then s
      else if t_name t = name_files then on_int t (\<lambda>v. facts (sf_files_update (\<lambda>_. v))) s
      else if t_name t = name_users then on_int t (\<lambda>v. facts (sf_users_update (\<lambda>_. v))) s
      else if t_name t = name_disabled then on_int t (\<lambda>v. sv_disabled_update (\<lambda>_. v \<noteq> 0)) s
      else if t_name t = name_metaapi then
        on_str t (\<lambda>v s. if me_isMetaApiUrl env v then facts (sf_metaApiUrl_update (\<lambda>_. v)) s else s) s
      else if t_name t = name_metaapipin then on_str t (\<lambda>v. facts (sf_metaApiPin_update (\<lambda>_. v))) s
      else if t_name t = name_metanetworks then on_int t (\<lambda>v. facts (sf_metaNetworks_update (\<lambda>_. v))) s
      else s)"

text \<open>The first name, description, host name and second address win.  ST_IP, ST_PORT and ST_NAT_PORT change
  nothing, like every unknown tag.\<close>

definition addTagFromFile :: "met_env \<Rightarrow> tag \<Rightarrow> server \<Rightarrow> server" where
  "addTagFromFile env t s =
     (let i = t_nameId t in
      if i = ST_SERVERNAME then on_str t (\<lambda>v s. if sf_name (sv_facts s) = [] then facts (sf_name_update (\<lambda>_. v)) s else s) s
      else if i = ST_DESCRIPTION then
        on_str t (\<lambda>v s. if sf_description (sv_facts s) = [] then facts (sf_description_update (\<lambda>_. v)) s else s) s
      else if i = ST_PING then on_int t (\<lambda>v. facts (sf_ping_update (\<lambda>_. v))) s
      else if i = ST_FAIL then on_int t (\<lambda>v. sv_failedCount_update (\<lambda>_. v)) s
      else if i = ST_PREFERENCE then on_int t (\<lambda>v. sv_preference_update (\<lambda>_. priority_of v)) s
      else if i = ST_DYNIP then
        on_str t (\<lambda>v s. if v \<noteq> [] \<and> sv_dynIP s = []
          then s\<lparr>sv_dynIP := v, sv_address := NoAddress, sv_addressV6 := NoAddress\<rparr> else s) s
      else if i = ST_IPV6 then
        (case hash_of t of
           Some bs \<Rightarrow> if sv_dynIP s = [] \<and> ipv6Address s = NoAddress then snd (addAddress (IPv6 bs) s) else s
         | None \<Rightarrow> s)
      else if i = ST_MAXUSERS then on_int t (\<lambda>v. facts (sf_maxUsers_update (\<lambda>_. v))) s
      else if i = ST_SOFTFILES then on_int t (\<lambda>v. facts (sf_softFiles_update (\<lambda>_. v))) s
      else if i = ST_HARDFILES then on_int t (\<lambda>v. facts (sf_hardFiles_update (\<lambda>_. v))) s
      else if i = ST_LASTPING then on_int t (\<lambda>v. facts (sf_lastPingedTime_update (\<lambda>_. v))) s
      else if i = ST_VERSION then
        (case str_of t of
           Some v \<Rightarrow> if sf_version (sv_facts s) = [] then facts (sf_version_update (\<lambda>_. v)) s else s
         | None \<Rightarrow> on_int t (\<lambda>v. facts (sf_version_update (\<lambda>_. me_versionText env v))) s)
      else if i = ST_UDPFLAGS then on_int t (\<lambda>v. sv_udpFlags_update (\<lambda>_. v)) s
      else if i = ST_AUXPORTSLIST then on_str t (\<lambda>v. facts (sf_auxPortsList_update (\<lambda>_. v))) s
      else if i = ST_LOWIDUSERS then on_int t (\<lambda>v. facts (sf_lowIDUsers_update (\<lambda>_. v))) s
      else if i = ST_UDPKEY then on_int t (\<lambda>v. facts (sf_serverKeyUDP_update (\<lambda>_. v))) s
      else if i = ST_UDPKEYIP then on_int t (\<lambda>v. facts (sf_serverKeyUDPIP_update (\<lambda>_. v))) s
      else if i = ST_TCPPORTOBFUSCATION then on_int t (\<lambda>v. sv_obfuscationPortTCP_update (\<lambda>_. ucast v)) s
      else if i = ST_UDPPORTOBFUSCATION then on_int t (\<lambda>v. sv_obfuscationPortUDP_update (\<lambda>_. ucast v)) s
      else add_named_tag env t s)"

definition read_server :: "met_env \<Rightarrow> u32 \<Rightarrow> in_bytes \<Rightarrow> (server \<times> in_bytes) option" where
  "read_server env i f = do {
     (ip, f1) \<leftarrow> readUInt32 f;
     (port, f2) \<leftarrow> readUInt16 f1;
     (ts, f3) \<leftarrow> readTagList (me_codec env) True kMaxFileTags f2;
     Some (fold (addTagFromFile env) ts (new_server i (fromNetworkOrder ip) port), f3) }"

section \<open>A server to tags\<close>

text \<open>Each tag with the encoding of its text and whether it is written in the short form; a number that is 0 and
  a text that is empty are left out.\<close>

type_synonym saved_tag = "utf8_mode \<times> bool \<times> tag"

definition num_tag :: "u8 \<Rightarrow> u32 \<Rightarrow> saved_tag list" where
  "num_tag i v = (if v = 0 then [] else [(Mode_None, True, tag_uint32 (By_id i) v)])"
definition text_tag :: "u8 \<Rightarrow> qtext \<Rightarrow> saved_tag list" where
  "text_tag i v = (if v = [] then [] else [(OptBOM, True, tag_string (By_id i) v)])"
definition named_num :: "u8 list \<Rightarrow> u32 \<Rightarrow> saved_tag list" where
  "named_num n v = (if v = 0 then [] else [(Mode_None, False, tag_uint32 (By_name n) v)])"
definition named_text :: "u8 list \<Rightarrow> qtext \<Rightarrow> saved_tag list" where
  "named_text n v = (if v = [] then [] else [(OptBOM, False, tag_string (By_name n) v)])"

definition v6_tag :: "server \<Rightarrow> saved_tag list" where
  "v6_tag s = (case ipv6Address s of
      IPv6 bs \<Rightarrow> if sv_dynIP s = [] then [(Mode_None, True, tag_hash (By_id ST_IPV6) bs)] else [] | _ \<Rightarrow> [])"

definition meta_tags :: "server_facts \<Rightarrow> saved_tag list" where
  "meta_tags f = (if sf_metaApiUrl f = [] then []
     else named_text name_metaapi (sf_metaApiUrl f) @ named_text name_metaapipin (sf_metaApiPin f)
       @ named_num name_metanetworks (sf_metaNetworks f))"

definition server_tags :: "server \<Rightarrow> saved_tag list" where
  "server_tags s = (let f = sv_facts s in
     text_tag ST_SERVERNAME (sf_name f) @ text_tag ST_DYNIP (sv_dynIP s) @ v6_tag s
     @ text_tag ST_DESCRIPTION (sf_description f) @ num_tag ST_FAIL (sv_failedCount s)
     @ named_num name_disabled (if sv_disabled s then 1 else 0) @ meta_tags f
     @ num_tag ST_PREFERENCE (priority_value (sv_preference s))
     @ named_num name_users (sf_users f) @ named_num name_files (sf_files f)
     @ num_tag ST_PING (sf_ping f) @ num_tag ST_LASTPING (sf_lastPingedTime f) @ num_tag ST_MAXUSERS (sf_maxUsers f)
     @ num_tag ST_SOFTFILES (sf_softFiles f) @ num_tag ST_HARDFILES (sf_hardFiles f)
     @ text_tag ST_VERSION (sf_version f) @ num_tag ST_UDPFLAGS (sv_udpFlags s) @ num_tag ST_LOWIDUSERS (sf_lowIDUsers f)
     @ num_tag ST_UDPKEY (sf_serverKeyUDP f) @ num_tag ST_UDPKEYIP (sf_serverKeyUDPIP f)
     @ num_tag ST_TCPPORTOBFUSCATION (ucast (sv_obfuscationPortTCP s))
     @ num_tag ST_UDPPORTOBFUSCATION (ucast (sv_obfuscationPortUDP s))
     @ text_tag ST_AUXPORTSLIST (sf_auxPortsList f))"

fun write_each :: "text_codec \<Rightarrow> saved_tag list \<Rightarrow> out_bytes option" where
  "write_each c [] = Some []"
| "write_each c ((mode, short, t) # ts) = do {
     (written, b) \<leftarrow> (if short then writeNewEd2kTag c mode t else writeTagToFile c mode t);
     bs \<leftarrow> write_each c ts;
     Some (b @ bs) }"

definition writeTags :: "text_codec \<Rightarrow> server \<Rightarrow> (u32 \<times> out_bytes) option" where
  "writeTags c s = map_option (Pair (of_nat (length (server_tags s)))) (write_each c (server_tags s))"

section \<open>The file\<close>

definition MET_HEADER :: u8 where "MET_HEADER = 0x0E"
definition MET_HEADER_I64TAGS :: u8 where "MET_HEADER_I64TAGS = 0x0F"
definition MET_HEADER_SERVERMET :: u8 where "MET_HEADER_SERVERMET = 0xE0"

definition write_row :: "text_codec \<Rightarrow> server \<Rightarrow> out_bytes option" where
  "write_row c s = do {
     (tagCount, b) \<leftarrow> writeTags c s;
     Some (writeUInt32 (if hasDynIP s then 0 else toNetworkUint32 (sv_address s)) @ writeUInt16 (sv_port s)
       @ writeUInt32 tagCount @ b) }"

fun write_rows :: "text_codec \<Rightarrow> server list \<Rightarrow> out_bytes option" where
  "write_rows c [] = Some []"
| "write_rows c (s # ss) = do { b \<leftarrow> write_row c s; bs \<leftarrow> write_rows c ss; Some (b @ bs) }"

text \<open>The bytes of the new file; None where writing throws, and the old file stays.\<close>

definition saveServerMet :: "text_codec \<Rightarrow> server_list \<Rightarrow> out_bytes option" where
  "saveServerMet c sl = do {
     b \<leftarrow> write_rows c (sl_servers sl);
     Some (writeUInt8 MET_HEADER_SERVERMET @ writeUInt32 (of_nat (length (sl_servers sl))) @ b) }"

definition met_row :: "server_env \<Rightarrow> bool \<Rightarrow> server \<Rightarrow> server_list \<Rightarrow> server_list" where
  "met_row senv merge s sl =
     (let s1 = (if merge then s\<lparr>sv_preference := PrNormal\<rparr> else s);
          parsedName = sf_name (sv_facts s1);
          parsedDesc = sf_description (sv_facts s1);
          s2 = (if parsedName = [] then facts (sf_name_update (\<lambda>_. addressText senv s1)) s1 else s1);
          (raw, sl1) = addServer senv False s2 sl
      in if raw = None \<and> merge then
           (case findByAddress senv (addressText senv s1) (sv_port s1) sl1 of
              Some existing \<Rightarrow>
                update_row (sv_id existing)
                  (facts (\<lambda>f. f\<lparr>sf_name := if parsedName \<noteq> [] then parsedName else sf_name f,
                    sf_description := if parsedDesc \<noteq> [] then parsedDesc else sf_description f\<rparr>)) sl1
            | None \<Rightarrow> sl1)
         else sl1)"

text \<open>Whether all rows could be read, the serverId of the next server made, and the list.\<close>

fun add_met_rows :: "met_env \<Rightarrow> server_env \<Rightarrow> bool \<Rightarrow> nat \<Rightarrow> u32 \<Rightarrow> in_bytes \<Rightarrow> server_list \<Rightarrow> bool \<times> u32 \<times> server_list" where
  "add_met_rows env senv merge 0 i f sl = (True, i, sl)"
| "add_met_rows env senv merge (Suc k) i f sl =
     (case read_server env i f of
        None \<Rightarrow> (False, i + 1, sl)
      | Some (s, f1) \<Rightarrow> add_met_rows env senv merge k (i + 1) f1 (met_row senv merge s sl))"

definition addServerMetToList :: "met_env \<Rightarrow> server_env \<Rightarrow> bool \<Rightarrow> u32 \<Rightarrow> in_bytes option \<Rightarrow> server_list \<Rightarrow> bool \<times> u32 \<times> server_list" where
  "addServerMetToList env senv merge i file sl =
     (case file of
        None \<Rightarrow> (False, i, sl)
      | Some f \<Rightarrow>
          (case readUInt8 f of
             None \<Rightarrow> (False, i, sl)
           | Some (header, f1) \<Rightarrow>
               if header \<noteq> MET_HEADER \<and> header \<noteq> MET_HEADER_I64TAGS \<and> header \<noteq> MET_HEADER_SERVERMET then (False, i, sl)
               else
                 (case readUInt32 f1 of
                    None \<Rightarrow> (False, i, sl)
                  | Some (serverCount, f2) \<Rightarrow> add_met_rows env senv merge (unat serverCount) i f2 sl)))"

text \<open>The file and the one saved before it, None where there is none.\<close>

definition loadServerMet :: "met_env \<Rightarrow> server_env \<Rightarrow> u32 \<Rightarrow> in_bytes option \<Rightarrow> in_bytes option \<Rightarrow> server_list \<Rightarrow> bool \<times> u32 \<times> server_list" where
  "loadServerMet env senv i file bak sl =
     (let (ok, i1, sl1) = addServerMetToList env senv False i file (removeAllServers sl)
      in if ok then (True, i1, sl1)
         else if bak \<noteq> None then addServerMetToList env senv False i1 bak sl1 else (False, i1, sl1))"


section \<open>The tags of a server make the server\<close>

definition apply_tags :: "met_env \<Rightarrow> saved_tag list \<Rightarrow> server \<Rightarrow> server" where
  "apply_tags env ts = fold (addTagFromFile env) (map (\<lambda>(_, _, t). t) ts)"

lemma apply_append [simp]: "apply_tags env (ts @ us) s = apply_tags env us (apply_tags env ts s)"
  by (simp add: apply_tags_def)

lemma facts_simps [simp]:
  "sv_id (facts g s) = sv_id s" "sv_address (facts g s) = sv_address s" "sv_addressV6 (facts g s) = sv_addressV6 s"
  "sv_port (facts g s) = sv_port s" "sv_dynIP (facts g s) = sv_dynIP s" "sv_preference (facts g s) = sv_preference s"
  "sv_failedCount (facts g s) = sv_failedCount s" "sv_disabled (facts g s) = sv_disabled s"
  "sv_udpFlags (facts g s) = sv_udpFlags s" "sv_obfuscationPortTCP (facts g s) = sv_obfuscationPortTCP s"
  "sv_obfuscationPortUDP (facts g s) = sv_obfuscationPortUDP s" "sv_facts (facts g s) = g (sv_facts s)"
  by (simp_all add: facts_def)

lemma ucast_wide: "(ucast (ucast (v :: u32) :: u64) :: u32) = v" "(ucast (ucast (p :: u16) :: u32) :: u16) = p"
  by (rule bit_word_eqI, auto simp: bit_ucast_iff dest: bit_imp_le_length)+

lemma labelled_fields: "t_data (labelled l ty v) = v" "t_type (labelled l ty v) = ty"
  by (cases l; simp add: labelled_def)+

lemma tag_values [simp]:
  "int_of_tag (tag_uint32 l v) = Some v" "str_of (tag_uint32 l v) = None" "hash_of (tag_uint32 l v) = None"
  "str_of (tag_string l u) = Some u" "int_of_tag (tag_string l u) = None"
  "length b = 16 \<Longrightarrow> hash_of (tag_hash l b) = Some b"
  "t_nameId (tag_uint32 (By_id i) v) = i" "t_nameId (tag_string (By_id i) u) = i" "t_nameId (tag_hash (By_id i) b) = i"
  "t_nameId (tag_uint32 (By_name n) v) = 0" "t_nameId (tag_string (By_name n) u) = 0"
  "t_name (tag_uint32 (By_name n) v) = n" "t_name (tag_string (By_name n) u) = n"
  by (simp_all add: int_of_tag_def str_of_def hash_of_def tag_constructors tag_accessors labelled_fields tagtype_defs ucast_wide)
    (simp_all add: labelled_def)

text \<open>A priority as a number names it.\<close>

definition priority_ok :: "server_priority \<Rightarrow> bool" where
  "priority_ok p \<longleftrightarrow> (case p of PrOther w \<Rightarrow> w > 2 | _ \<Rightarrow> True)"

lemma priority_back: "priority_ok p \<Longrightarrow> priority_of (priority_value p) = p"
  by (cases p) (auto simp: priority_ok_def priority_of_def)

lemma priority_zero: "priority_ok p \<Longrightarrow> priority_value p = 0 \<longleftrightarrow> p = PrNormal"
  by (cases p) (auto simp: priority_ok_def)

lemma ucast_zero: "ucast (p :: u16) = (0 :: u32) \<longleftrightarrow> p = 0"
  using ucast_wide(2)[of p] by auto

lemma apply_num:
  "sf_ping (sv_facts s) = 0 \<Longrightarrow> apply_tags env (num_tag ST_PING v) s = facts (sf_ping_update (\<lambda>_. v)) s"
  "sv_failedCount s = 0 \<Longrightarrow> apply_tags env (num_tag ST_FAIL v) s = s\<lparr>sv_failedCount := v\<rparr>"
  "sf_maxUsers (sv_facts s) = 0 \<Longrightarrow> apply_tags env (num_tag ST_MAXUSERS v) s = facts (sf_maxUsers_update (\<lambda>_. v)) s"
  "sf_softFiles (sv_facts s) = 0 \<Longrightarrow> apply_tags env (num_tag ST_SOFTFILES v) s = facts (sf_softFiles_update (\<lambda>_. v)) s"
  "sf_hardFiles (sv_facts s) = 0 \<Longrightarrow> apply_tags env (num_tag ST_HARDFILES v) s = facts (sf_hardFiles_update (\<lambda>_. v)) s"
  "sf_lastPingedTime (sv_facts s) = 0 \<Longrightarrow> apply_tags env (num_tag ST_LASTPING v) s = facts (sf_lastPingedTime_update (\<lambda>_. v)) s"
  "sv_udpFlags s = 0 \<Longrightarrow> apply_tags env (num_tag ST_UDPFLAGS v) s = s\<lparr>sv_udpFlags := v\<rparr>"
  "sf_lowIDUsers (sv_facts s) = 0 \<Longrightarrow> apply_tags env (num_tag ST_LOWIDUSERS v) s = facts (sf_lowIDUsers_update (\<lambda>_. v)) s"
  "sf_serverKeyUDP (sv_facts s) = 0 \<Longrightarrow> apply_tags env (num_tag ST_UDPKEY v) s = facts (sf_serverKeyUDP_update (\<lambda>_. v)) s"
  "sf_serverKeyUDPIP (sv_facts s) = 0 \<Longrightarrow> apply_tags env (num_tag ST_UDPKEYIP v) s = facts (sf_serverKeyUDPIP_update (\<lambda>_. v)) s"
  "sv_obfuscationPortTCP s = 0 \<Longrightarrow> apply_tags env (num_tag ST_TCPPORTOBFUSCATION (ucast p)) s = s\<lparr>sv_obfuscationPortTCP := p\<rparr>"
  "sv_obfuscationPortUDP s = 0 \<Longrightarrow> apply_tags env (num_tag ST_UDPPORTOBFUSCATION (ucast p)) s = s\<lparr>sv_obfuscationPortUDP := p\<rparr>"
  "sv_preference s = PrNormal \<Longrightarrow> priority_ok pr \<Longrightarrow> apply_tags env (num_tag ST_PREFERENCE (priority_value pr)) s = s\<lparr>sv_preference := pr\<rparr>"
  by (simp_all add: apply_tags_def num_tag_def addTagFromFile_def on_int_def st_defs facts_def ucast_wide ucast_zero priority_zero priority_back)

lemma apply_text:
  "sf_name (sv_facts s) = [] \<Longrightarrow> apply_tags env (text_tag ST_SERVERNAME u) s = facts (sf_name_update (\<lambda>_. u)) s"
  "sf_description (sv_facts s) = [] \<Longrightarrow> apply_tags env (text_tag ST_DESCRIPTION u) s = facts (sf_description_update (\<lambda>_. u)) s"
  "sf_version (sv_facts s) = [] \<Longrightarrow> apply_tags env (text_tag ST_VERSION u) s = facts (sf_version_update (\<lambda>_. u)) s"
  "sf_auxPortsList (sv_facts s) = [] \<Longrightarrow> apply_tags env (text_tag ST_AUXPORTSLIST u) s = facts (sf_auxPortsList_update (\<lambda>_. u)) s"
  "sv_dynIP s = [] \<Longrightarrow> apply_tags env (text_tag ST_DYNIP u) s =
     (if u = [] then s else s\<lparr>sv_dynIP := u, sv_address := NoAddress, sv_addressV6 := NoAddress\<rparr>)"
  by (simp_all add: apply_tags_def text_tag_def addTagFromFile_def on_str_def st_defs facts_def)

lemma apply_named:
  "sf_files (sv_facts s) = 0 \<Longrightarrow> apply_tags env (named_num name_files v) s = facts (sf_files_update (\<lambda>_. v)) s"
  "sf_users (sv_facts s) = 0 \<Longrightarrow> apply_tags env (named_num name_users v) s = facts (sf_users_update (\<lambda>_. v)) s"
  "\<not> sv_disabled s \<Longrightarrow> apply_tags env (named_num name_disabled (if d then 1 else 0)) s = s\<lparr>sv_disabled := d\<rparr>"
  "sf_metaNetworks (sv_facts s) = 0 \<Longrightarrow> apply_tags env (named_num name_metanetworks v) s = facts (sf_metaNetworks_update (\<lambda>_. v)) s"
  "sf_metaApiPin (sv_facts s) = [] \<Longrightarrow> apply_tags env (named_text name_metaapipin u) s = facts (sf_metaApiPin_update (\<lambda>_. u)) s"
  "sf_metaApiUrl (sv_facts s) = [] \<Longrightarrow> u \<noteq> [] \<longrightarrow> me_isMetaApiUrl env u \<Longrightarrow>
     apply_tags env (named_text name_metaapi u) s = facts (sf_metaApiUrl_update (\<lambda>_. u)) s"
  by (simp_all add: apply_tags_def named_num_def named_text_def addTagFromFile_def add_named_tag_def on_int_def on_str_def
      st_defs name_defs facts_def)

text \<open>What is left of a row in the file: no flags of the moment, no addresses of a named server, and of the
  catalogue service nothing where it has no address.\<close>

definition saved_row :: "u32 \<Rightarrow> server \<Rightarrow> server" where
  "saved_row i s = s\<lparr>sv_id := i,
     sv_address := if hasDynIP s then NoAddress else sv_address s,
     sv_addressV6 := if hasDynIP s then NoAddress else sv_addressV6 s,
     sv_static := False, sv_tcpFlags := 0, sv_triedCrypt := False, sv_hash := None,
     sv_facts := (sv_facts s)\<lparr>
       sf_metaApiPin := if sf_metaApiUrl (sv_facts s) = [] then [] else sf_metaApiPin (sv_facts s),
       sf_metaNetworks := if sf_metaApiUrl (sv_facts s) = [] then 0 else sf_metaNetworks (sv_facts s)\<rparr>\<rparr>"

text \<open>A row the file can hold.\<close>

definition addresses_ok :: "server \<Rightarrow> bool" where
  "addresses_ok s \<longleftrightarrow> hasDynIP s \<or>
     (wf_address (sv_address s) \<and> wf_address (sv_addressV6 s) \<and>
      (sv_addressV6 s \<noteq> NoAddress \<longrightarrow> is_v4 (sv_address s) \<and> is_v6 (sv_addressV6 s)))"

definition header_address :: "server \<Rightarrow> address" where
  "header_address s = fromNetworkOrder (if hasDynIP s then 0 else toNetworkUint32 (sv_address s))"

text \<open>The header and the tag of the second address give both addresses back.\<close>

lemma apply_v6:
  assumes "addresses_ok s" "\<not> hasDynIP s" "sv_dynIP r = []" "sv_address r = header_address s" "sv_addressV6 r = NoAddress"
  shows "apply_tags env (v6_tag s) r = r\<lparr>sv_address := sv_address s, sv_addressV6 := sv_addressV6 s\<rparr>"
proof -
  have d: "sv_dynIP s = []" using assms(2) by (simp add: hasDynIP_def)
  show ?thesis
  proof (cases "sv_address s")
    case NoAddress
    then have "sv_addressV6 s = NoAddress" using assms(1,2) by (auto simp: addresses_ok_def is_v4_def)
    then show ?thesis using NoAddress assms by (simp add: v6_tag_def ipv6Address_def apply_tags_def header_address_def fromNetworkOrder_def)
  next
    case (IPv4 w)
    have w: "w \<noteq> 0" using assms(1,2) IPv4 by (simp add: addresses_ok_def)
    then have h: "header_address s = IPv4 w" using IPv4 assms(2) by (simp add: header_address_def fromNetworkOrder_def)
    show ?thesis
    proof (cases "sv_addressV6 s")
      case (IPv6 bs)
      have "length bs = 16" using assms(1,2) IPv6 by (simp add: addresses_ok_def)
      then show ?thesis using IPv6 IPv4 d assms h
        by (simp add: v6_tag_def ipv6Address_def apply_tags_def addTagFromFile_def st_defs addAddress_def hasDynIP_def is_v4_def)
    qed (use IPv4 d assms h in \<open>auto simp: v6_tag_def ipv6Address_def apply_tags_def addresses_ok_def\<close>)
  next
    case (IPv6 bs)
    then have v: "sv_addressV6 s = NoAddress" using assms(1,2) by (auto simp: addresses_ok_def is_v4_def)
    have "header_address s = NoAddress" using IPv6 assms(2) by (simp add: header_address_def fromNetworkOrder_def)
    moreover have "length bs = 16" using assms(1,2) IPv6 by (simp add: addresses_ok_def)
    ultimately show ?thesis using IPv6 v d assms
      by (simp add: v6_tag_def ipv6Address_def apply_tags_def addTagFromFile_def st_defs addAddress_def hasDynIP_def is_v4_def)
  qed
qed


text \<open>The tags in the order of the file, in four groups.\<close>

definition tags_first :: "server \<Rightarrow> saved_tag list" where
  "tags_first s = text_tag ST_SERVERNAME (sf_name (sv_facts s)) @ text_tag ST_DYNIP (sv_dynIP s) @ v6_tag s"

definition tags_second :: "server \<Rightarrow> saved_tag list" where
  "tags_second s = text_tag ST_DESCRIPTION (sf_description (sv_facts s)) @ num_tag ST_FAIL (sv_failedCount s)
     @ named_num name_disabled (if sv_disabled s then 1 else 0) @ meta_tags (sv_facts s)
     @ num_tag ST_PREFERENCE (priority_value (sv_preference s))"

definition tags_third :: "server_facts \<Rightarrow> saved_tag list" where
  "tags_third f = named_num name_users (sf_users f) @ named_num name_files (sf_files f)
     @ num_tag ST_PING (sf_ping f) @ num_tag ST_LASTPING (sf_lastPingedTime f) @ num_tag ST_MAXUSERS (sf_maxUsers f)
     @ num_tag ST_SOFTFILES (sf_softFiles f) @ num_tag ST_HARDFILES (sf_hardFiles f)"

definition tags_last :: "server \<Rightarrow> saved_tag list" where
  "tags_last s = (let f = sv_facts s in
     text_tag ST_VERSION (sf_version f) @ num_tag ST_UDPFLAGS (sv_udpFlags s) @ num_tag ST_LOWIDUSERS (sf_lowIDUsers f)
     @ num_tag ST_UDPKEY (sf_serverKeyUDP f) @ num_tag ST_UDPKEYIP (sf_serverKeyUDPIP f)
     @ num_tag ST_TCPPORTOBFUSCATION (ucast (sv_obfuscationPortTCP s))
     @ num_tag ST_UDPPORTOBFUSCATION (ucast (sv_obfuscationPortUDP s))
     @ text_tag ST_AUXPORTSLIST (sf_auxPortsList f))"

lemma server_tags_groups: "server_tags s = tags_first s @ tags_second s @ tags_third (sv_facts s) @ tags_last s"
  by (simp add: server_tags_def tags_first_def tags_second_def tags_third_def tags_last_def Let_def)

lemma apply_first:
  assumes "addresses_ok s" "r = new_server i (header_address s) p"
  shows "apply_tags env (tags_first s) r = facts (sf_name_update (\<lambda>_. sf_name (sv_facts s)))
    (r\<lparr>sv_dynIP := sv_dynIP s, sv_address := sv_address (saved_row i s), sv_addressV6 := sv_addressV6 (saved_row i s)\<rparr>)"
proof -
  have f: "sv_facts r = no_facts" "sv_dynIP r = []" "sv_addressV6 r = NoAddress" "sv_address r = header_address s"
    by (simp_all add: assms(2) new_server_def)
  let ?r1 = "facts (sf_name_update (\<lambda>_. sf_name (sv_facts s))) r"
  have one: "apply_tags env (text_tag ST_SERVERNAME (sf_name (sv_facts s))) r = ?r1"
    by (rule apply_text) (simp add: f no_facts_def)
  show ?thesis
  proof (cases "hasDynIP s")
    case True
    then have "v6_tag s = []" by (simp add: v6_tag_def hasDynIP_def split: address.splits)
    then show ?thesis using True f one
      by (simp add: tags_first_def apply_text apply_tags_def[of env "[]"] hasDynIP_def saved_row_def) (simp add: facts_def)
  next
    case False
    then have d: "sv_dynIP s = []" by (simp add: hasDynIP_def)
    have "apply_tags env (v6_tag s) ?r1 = ?r1\<lparr>sv_address := sv_address s, sv_addressV6 := sv_addressV6 s\<rparr>"
      by (rule apply_v6[OF assms(1) False]) (simp_all add: f)
    then show ?thesis using False d f one by (simp add: tags_first_def apply_text saved_row_def) (simp add: facts_def)
  qed
qed

lemma apply_meta:
  assumes "sf_metaApiUrl (sv_facts x) = []" "sf_metaApiPin (sv_facts x) = []" "sf_metaNetworks (sv_facts x) = 0"
    "sf_metaApiUrl (sv_facts s) \<noteq> [] \<longrightarrow> me_isMetaApiUrl env (sf_metaApiUrl (sv_facts s))"
  shows "apply_tags env (meta_tags (sv_facts s)) x = facts (\<lambda>g. g\<lparr>sf_metaApiUrl := sf_metaApiUrl (sv_facts s),
      sf_metaApiPin := sf_metaApiPin (sv_facts (saved_row i s)), sf_metaNetworks := sf_metaNetworks (sv_facts (saved_row i s))\<rparr>) x"
proof (cases "sf_metaApiUrl (sv_facts s) = []")
  case True
  then show ?thesis using assms by (simp add: meta_tags_def apply_tags_def saved_row_def facts_def)
next
  case False
  then show ?thesis using assms by (simp add: meta_tags_def apply_named saved_row_def) (simp add: facts_def)
qed

lemma apply_second:
  assumes "sf_metaApiUrl (sv_facts x) = []" "sf_metaApiPin (sv_facts x) = []" "sf_metaNetworks (sv_facts x) = 0"
    "sf_description (sv_facts x) = []" "sv_failedCount x = 0" "\<not> sv_disabled x" "sv_preference x = PrNormal"
    "priority_ok (sv_preference s)"
    "sf_metaApiUrl (sv_facts s) \<noteq> [] \<longrightarrow> me_isMetaApiUrl env (sf_metaApiUrl (sv_facts s))"
  shows "apply_tags env (tags_second s) x = facts (\<lambda>g. g\<lparr>sf_description := sf_description (sv_facts s),
      sf_metaApiUrl := sf_metaApiUrl (sv_facts s), sf_metaApiPin := sf_metaApiPin (sv_facts (saved_row i s)),
      sf_metaNetworks := sf_metaNetworks (sv_facts (saved_row i s))\<rparr>)
    (x\<lparr>sv_failedCount := sv_failedCount s, sv_disabled := sv_disabled s, sv_preference := sv_preference s\<rparr>)"
  using assms by (simp add: tags_second_def apply_text apply_num apply_named apply_meta[where i = i]) (simp add: facts_def)

lemma apply_third:
  assumes "sf_users (sv_facts x) = 0" "sf_files (sv_facts x) = 0" "sf_ping (sv_facts x) = 0" "sf_lastPingedTime (sv_facts x) = 0"
    "sf_maxUsers (sv_facts x) = 0" "sf_softFiles (sv_facts x) = 0" "sf_hardFiles (sv_facts x) = 0"
  shows "apply_tags env (tags_third f) x = facts (\<lambda>g. g\<lparr>sf_users := sf_users f, sf_files := sf_files f, sf_ping := sf_ping f,
      sf_lastPingedTime := sf_lastPingedTime f, sf_maxUsers := sf_maxUsers f, sf_softFiles := sf_softFiles f,
      sf_hardFiles := sf_hardFiles f\<rparr>) x"
  using assms by (simp add: tags_third_def apply_num apply_named) (simp add: facts_def)

lemma apply_last:
  assumes "sf_version (sv_facts x) = []" "sv_udpFlags x = 0" "sf_lowIDUsers (sv_facts x) = 0" "sf_serverKeyUDP (sv_facts x) = 0"
    "sf_serverKeyUDPIP (sv_facts x) = 0" "sv_obfuscationPortTCP x = 0" "sv_obfuscationPortUDP x = 0"
    "sf_auxPortsList (sv_facts x) = []"
  shows "apply_tags env (tags_last s) x = facts (\<lambda>g. g\<lparr>sf_version := sf_version (sv_facts s),
      sf_lowIDUsers := sf_lowIDUsers (sv_facts s), sf_serverKeyUDP := sf_serverKeyUDP (sv_facts s),
      sf_serverKeyUDPIP := sf_serverKeyUDPIP (sv_facts s), sf_auxPortsList := sf_auxPortsList (sv_facts s)\<rparr>)
    (x\<lparr>sv_udpFlags := sv_udpFlags s, sv_obfuscationPortTCP := sv_obfuscationPortTCP s,
       sv_obfuscationPortUDP := sv_obfuscationPortUDP s\<rparr>)"
  using assms by (simp add: tags_last_def Let_def apply_num apply_text) (simp add: facts_def)

lemma apply_server_tags:
  assumes "addresses_ok s" "priority_ok (sv_preference s)"
    "sf_metaApiUrl (sv_facts s) \<noteq> [] \<longrightarrow> me_isMetaApiUrl env (sf_metaApiUrl (sv_facts s))"
  shows "apply_tags env (server_tags s) (new_server i (header_address s) (sv_port s)) = saved_row i s"
proof -
  let ?r = "new_server i (header_address s) (sv_port s)"
  obtain r where r: "r = ?r" by blast
  have f: "sv_facts r = no_facts" "sv_failedCount r = 0" "\<not> sv_disabled r" "sv_preference r = PrNormal" "sv_udpFlags r = 0"
    "sv_obfuscationPortTCP r = 0" "sv_obfuscationPortUDP r = 0"
    by (simp_all add: r new_server_def)
  have "apply_tags env (server_tags s) r = saved_row i s"
    unfolding server_tags_groups apply_append apply_first[OF assms(1) r]
    by (simp add: apply_second[OF _ _ _ _ _ _ _ assms(2,3), where i = i] apply_third apply_last f no_facts_def)
      (rule server.equality; (rule server_facts.equality)?; simp add: facts_def r new_server_def saved_row_def)
  then show ?thesis by (simp add: r)
qed

section \<open>What is saved is loaded\<close>

definition texts_of :: "server \<Rightarrow> qtext list" where
  "texts_of s = (let f = sv_facts s in [sf_name f, sv_dynIP s, sf_description f, sf_version f, sf_auxPortsList f,
     sf_metaApiUrl f, sf_metaApiPin f])"

definition saved_tag_ok :: "(qtext \<Rightarrow> bool) \<Rightarrow> text_codec \<Rightarrow> saved_tag \<Rightarrow> bool" where
  "saved_tag_ok proper c x \<longleftrightarrow> (case x of (mode, short, t) \<Rightarrow>
     (mode = OptBOM \<or> t_type t \<noteq> TAGTYPE_STRING) \<and> label_ok t \<and> data_ok (string_ok proper c OptBOM True) t \<and> short_tag t = t)"

lemma small_tag: "(ucast (v :: u32) :: u64) \<le> 0xFFFFFFFF"
proof -
  have "unat (ucast v :: u64) \<le> unat v" by (simp add: unsigned_ucast_eq)
  then show ?thesis using unsigned_less[of v, where 'a = nat] by (simp add: word_le_nat_alt)
qed

lemma saved_parts_ok:
  "i \<noteq> 0 \<Longrightarrow> \<forall>x \<in> set (num_tag i v). saved_tag_ok proper c x"
  "i \<noteq> 0 \<Longrightarrow> string_ok proper c OptBOM True u \<Longrightarrow> \<forall>x \<in> set (text_tag i u). saved_tag_ok proper c x"
  "length n < 65536 \<Longrightarrow> length n \<noteq> 1 \<Longrightarrow> \<forall>x \<in> set (named_num n v). saved_tag_ok proper c x"
  "length n < 65536 \<Longrightarrow> length n \<noteq> 1 \<Longrightarrow> string_ok proper c OptBOM True u \<Longrightarrow> \<forall>x \<in> set (named_text n u). saved_tag_ok proper c x"
  by (simp_all add: num_tag_def named_num_def text_tag_def named_text_def saved_tag_ok_def label_ok_def data_ok_def
      short_tag_def tag_constructors labelled_def tagtype_defs small_tag)

lemma v6_tag_ok: "addresses_ok s \<Longrightarrow> \<forall>x \<in> set (v6_tag s). saved_tag_ok proper c x"
  by (cases "sv_address s"; cases "sv_addressV6 s")
    (simp_all add: v6_tag_def ipv6Address_def addresses_ok_def hasDynIP_def is_v4_def saved_tag_ok_def label_ok_def data_ok_def
      short_tag_def tag_constructors labelled_def tagtype_defs st_defs)

lemma server_tags_ok:
  assumes "addresses_ok s" "\<forall>u \<in> set (texts_of s). string_ok proper c OptBOM True u"
  shows "\<forall>x \<in> set (server_tags s). saved_tag_ok proper c x"
proof -
  have t: "string_ok proper c OptBOM True (sf_name (sv_facts s))" "string_ok proper c OptBOM True (sv_dynIP s)"
    "string_ok proper c OptBOM True (sf_description (sv_facts s))" "string_ok proper c OptBOM True (sf_version (sv_facts s))"
    "string_ok proper c OptBOM True (sf_auxPortsList (sv_facts s))" "string_ok proper c OptBOM True (sf_metaApiUrl (sv_facts s))"
    "string_ok proper c OptBOM True (sf_metaApiPin (sv_facts s))"
    using assms(2) by (simp_all add: texts_of_def Let_def)
  have m: "\<forall>x \<in> set (meta_tags (sv_facts s)). saved_tag_ok proper c x"
    unfolding meta_tags_def using t
    by (simp add: ball_Un) (intro conjI impI saved_parts_ok; simp add: name_defs)
  show ?thesis
    unfolding server_tags_def Let_def set_append ball_Un
    by (intro conjI saved_parts_ok t m v6_tag_ok assms(1)) (simp_all add: st_defs name_defs)
qed

text \<open>Only texts depend on the encoding they are written in.\<close>

lemma mode_of_texts:
  "t_type t \<noteq> TAGTYPE_STRING \<Longrightarrow> writeNewEd2kTag c mode t = writeNewEd2kTag c OptBOM t"
  "t_type t \<noteq> TAGTYPE_STRING \<Longrightarrow> writeTagToFile c mode t = writeTagToFile c OptBOM t"
  by (simp_all add: writeNewEd2kTag_def writeTagToFile_def)

lemma write_each_tags:
  assumes "\<forall>x \<in> set ts. saved_tag_ok proper c x"
  shows "write_each c ts = write_tags c OptBOM (map snd ts)"
  using assms
proof (induction ts)
  case (Cons x ts)
  obtain mode short t where x: "x = (mode, short, t)" by (cases x)
  then have "mode = OptBOM \<or> t_type t \<noteq> TAGTYPE_STRING" using Cons.prems by (simp add: saved_tag_ok_def)
  then have "writeNewEd2kTag c mode t = writeNewEd2kTag c OptBOM t" "writeTagToFile c mode t = writeTagToFile c OptBOM t"
    using mode_of_texts[of t c mode] by auto
  then show ?case using Cons by (simp add: x)
qed simp

lemma few_tags: "length (server_tags s) \<le> 25"
proof -
  have one: "length (num_tag i v) \<le> 1" "length (text_tag i u) \<le> 1" "length (named_num n v) \<le> 1" "length (named_text n u) \<le> 1"
    "length (v6_tag s) \<le> 1" for i v u n
    by (simp_all add: num_tag_def text_tag_def named_num_def named_text_def v6_tag_def split: address.splits)
  have "length (named_text name_metaapi (sf_metaApiUrl (sv_facts s)) @ named_text name_metaapipin (sf_metaApiPin (sv_facts s))
      @ named_num name_metanetworks (sf_metaNetworks (sv_facts s))) \<le> 1 + 1 + 1"
    unfolding length_append add.assoc[symmetric] by (intro add_mono one)
  then have "length (meta_tags (sv_facts s)) \<le> 1 + 1 + 1" by (simp add: meta_tags_def)
  moreover have "length (tags_first s) \<le> 1 + 1 + 1" unfolding tags_first_def length_append add.assoc[symmetric] by (intro add_mono one)
  moreover have "length (tags_third (sv_facts s)) \<le> 1 + 1 + 1 + 1 + 1 + 1 + 1"
    unfolding tags_third_def length_append add.assoc[symmetric] by (intro add_mono one)
  moreover have "length (tags_last s) \<le> 1 + 1 + 1 + 1 + 1 + 1 + 1 + 1"
    unfolding tags_last_def Let_def length_append add.assoc[symmetric] by (intro add_mono one)
  ultimately show ?thesis
    using one(2)[of ST_DESCRIPTION "sf_description (sv_facts s)"] one(1)[of ST_FAIL "sv_failedCount s"]
      one(3)[of name_disabled "if sv_disabled s then 1 else 0"] one(1)[of ST_PREFERENCE "priority_value (sv_preference s)"]
    unfolding server_tags_groups tags_second_def length_append by linarith
qed

text \<open>A row that is written reads back.\<close>

definition savable :: "(qtext \<Rightarrow> bool) \<Rightarrow> met_env \<Rightarrow> server \<Rightarrow> bool" where
  "savable proper env s \<longleftrightarrow> addresses_ok s \<and> priority_ok (sv_preference s) \<and>
     (sf_metaApiUrl (sv_facts s) \<noteq> [] \<longrightarrow> me_isMetaApiUrl env (sf_metaApiUrl (sv_facts s))) \<and>
     (\<forall>u \<in> set (texts_of s). string_ok proper (me_codec env) OptBOM True u)"

lemma row_reads_back:
  assumes c: "codec_ok proper (me_codec env)" and s: "savable proper env s"
  shows "\<exists>b. write_row (me_codec env) s = Some b \<and> (\<forall>i f. read_server env i (b @ f) = Some (saved_row i s, f))"
proof -
  let ?c = "me_codec env" and ?ts = "map snd (server_tags s)"
  have ok: "\<forall>x \<in> set (server_tags s). saved_tag_ok proper ?c x" 
    using s by (intro server_tags_ok) (simp_all add: savable_def)
  have t: "\<forall>(short, t) \<in> set ?ts. label_ok t \<and> data_ok (string_ok proper ?c OptBOM True) t"
    using ok by (force simp: saved_tag_ok_def)
  have n: "length ?ts \<le> unat kMaxFileTags" using few_tags[of s] by (simp add: kMaxFileTags_def)
  obtain b where b: "tag_list_bytes ?c OptBOM ?ts = Some b"
    using tag_list_back[OF c t n, of "[]"] by blast
  have same: "map (\<lambda>(short, t). if short then short_tag t else t) ?ts = map (\<lambda>(_, _, t). t) (server_tags s)"
    using ok by (induction "server_tags s" arbitrary: s) (auto simp: saved_tag_ok_def)
  have read1: "readTagList ?c True kMaxFileTags (b @ f) = Some (map (\<lambda>(_, _, t). t) (server_tags s), f)" for f
    using tag_list_back[OF c t n, of f] b unfolding same by simp
  obtain b0 where b0: "write_each ?c (server_tags s) = Some b0" "b = writeUInt32 (of_nat (length (server_tags s))) @ b0"
    using b by (auto simp: tag_list_bytes_def write_each_tags[OF ok])
  let ?h = "writeUInt32 (if hasDynIP s then 0 else toNetworkUint32 (sv_address s)) @ writeUInt16 (sv_port s)"
  have w: "write_row ?c s = Some (?h @ b)" using b0 by (simp add: write_row_def writeTags_def)
  have "read_server env i ((?h @ b) @ f) = Some (saved_row i s, f)" for i f
    using read1[of f] apply_server_tags[of s env i] s
    by (simp add: read_server_def savable_def header_address_def apply_tags_def)
  then show ?thesis using w by blast
qed

section \<open>The list\<close>

text \<open>What two rows differ in when both are accepted, and the row as it is after loading: without a name it is
  called by its address.\<close>

definition row_text :: "server_env \<Rightarrow> server \<Rightarrow> u16 \<times> qtext" where
  "row_text senv s = (sv_port s, se_fold senv (addressText senv s))"

definition apart :: "server_env \<Rightarrow> server \<Rightarrow> server \<Rightarrow> bool" where
  "apart senv s t \<longleftrightarrow> row_text senv s \<noteq> row_text senv t \<and> \<not> clash s t"

definition admitted :: "server_env \<Rightarrow> server \<Rightarrow> bool" where
  "admitted senv s \<longleftrightarrow> sv_port s \<noteq> 0 \<and>
     (hasDynIP s \<or> se_routable senv (sv_address s) \<and> \<not> isFilteredServerIP senv (sv_address s))"

definition reloaded :: "server_env \<Rightarrow> u32 \<Rightarrow> server \<Rightarrow> server" where
  "reloaded senv i s = (let r = saved_row i s in
     if sf_name (sv_facts r) = [] then facts (sf_name_update (\<lambda>_. addressText senv r)) r else r)"

fun reloaded_rows :: "server_env \<Rightarrow> u32 \<Rightarrow> server list \<Rightarrow> server list" where
  "reloaded_rows senv i [] = []"
| "reloaded_rows senv i (s # ss) = reloaded senv i s # reloaded_rows senv (i + 1) ss"

lemma reloaded_fields:
  "sv_port (reloaded senv i s) = sv_port s" "hasDynIP (reloaded senv i s) = hasDynIP s"
  "sv_address (reloaded senv i s) = (if hasDynIP s then NoAddress else sv_address s)"
  "sv_addressV6 (reloaded senv i s) = (if hasDynIP s then NoAddress else sv_addressV6 s)"
  "addressText senv (reloaded senv i s) = addressText senv s"
  by (simp_all add: reloaded_def saved_row_def hasDynIP_def addressText_def Let_def)

lemma reloaded_apart: "apart senv s t \<Longrightarrow> apart senv (reloaded senv i s) t"
  by (auto simp: apart_def row_text_def reloaded_fields clash_iff hasAddress_def split: if_splits)

lemma reloaded_admitted: "admitted senv s \<Longrightarrow> admitted senv (reloaded senv i s)"
  by (auto simp: admitted_def reloaded_fields)

lemma admitted_added:
  assumes w: "admitted senv s" and a: "\<forall>u \<in> set (sl_servers sl). apart senv u s"
    and v6: "sv_addressV6 s \<noteq> NoAddress \<longrightarrow> \<not> is_v6 (sv_address s)"
  shows "addServer senv False s sl = (Some s, sl\<lparr>sl_servers := sl_servers sl @ [s]\<rparr>)"
proof -
  have "findByAddress senv (addressText senv s) (sv_port s) sl = None"
    using a w by (auto simp: findByAddress_def find_None_iff apart_def row_text_def admitted_def)
  moreover have "findByIPTcp x (sv_port s) sl = None" if "hasAddress s x" for x
    using a that by (auto simp: findByIPTcp_def find_None_iff apart_def clash_iff)
  moreover have "hasAddress s (sv_address s)" if "sv_address s \<noteq> NoAddress" using that by (simp add: hasAddress_def)
  moreover have "hasAddress s (ipv6Address s)" if "hasBothFamilies s"
    using that v6 by (simp add: hasAddress_def hasBothFamilies_def ipv6Address_def)
  ultimately have "\<not> isDuplicate senv s sl" unfolding isDuplicate_def by metis
  then show ?thesis using w by (auto simp: addServer_def admitted_def isGoodServerIP_def)
qed

lemma met_row_added:
  assumes "admitted senv s" "addresses_ok s" "\<forall>u \<in> set (sl_servers sl). apart senv u s"
  shows "met_row senv False (saved_row i s) sl = sl\<lparr>sl_servers := sl_servers sl @ [reloaded senv i s]\<rparr>"
proof -
  have sym: "apart senv u t \<Longrightarrow> apart senv t u" for u t using clash_commute[of u t] by (auto simp: apart_def)
  have "\<forall>u \<in> set (sl_servers sl). apart senv u (reloaded senv i s)"
    using assms(3) sym reloaded_apart by blast
  then have "addServer senv False (reloaded senv i s) sl = (Some (reloaded senv i s), sl\<lparr>sl_servers := sl_servers sl @ [reloaded senv i s]\<rparr>)"
    using assms(1,2) not_v6
    by (intro admitted_added reloaded_admitted) (auto simp: reloaded_fields addresses_ok_def)
  then show ?thesis by (simp add: met_row_def reloaded_def Let_def split: if_splits)
qed

lemma rows_read_back:
  assumes "codec_ok proper (me_codec env)" "\<forall>s \<in> set ss. savable proper env s \<and> admitted senv s"
    "sorted_wrt (apart senv) ss" "\<forall>u \<in> set (sl_servers sl). \<forall>s \<in> set ss. apart senv u s"
  shows "\<exists>b. write_rows (me_codec env) ss = Some b \<and>
    add_met_rows env senv False (length ss) i (b @ f) sl =
      (True, i + of_nat (length ss), sl\<lparr>sl_servers := sl_servers sl @ reloaded_rows senv i ss\<rparr>)"
  using assms(2-4)
proof (induction ss arbitrary: i sl)
  case (Cons s ss)
  have s: "savable proper env s" "admitted senv s" "addresses_ok s" using Cons.prems(1) by (simp_all add: savable_def)
  obtain b where b: "write_row (me_codec env) s = Some b" "\<And>i f. read_server env i (b @ f) = Some (saved_row i s, f)"
    using row_reads_back[OF assms(1) s(1)] by blast
  let ?sl = "sl\<lparr>sl_servers := sl_servers sl @ [reloaded senv i s]\<rparr>"
  have m: "met_row senv False (saved_row i s) sl = ?sl"
    by (rule met_row_added[OF s(2,3)]) (use Cons.prems(3) in simp)
  have "\<forall>u \<in> set (sl_servers ?sl). \<forall>t \<in> set ss. apart senv u t"
    using Cons.prems(2,3) reloaded_apart by auto
  then obtain bs where bs: "write_rows (me_codec env) ss = Some bs"
    "add_met_rows env senv False (length ss) (i + 1) (bs @ f) ?sl =
      (True, i + 1 + of_nat (length ss), ?sl\<lparr>sl_servers := sl_servers ?sl @ reloaded_rows senv (i + 1) ss\<rparr>)"
    using Cons.IH[of ?sl "i + 1"] Cons.prems(1,2) by auto
  show ?case using b bs m by (simp add: algebra_simps)
qed simp

text \<open>C16. The list of servers survives a restart: what saving writes, loading reads back row by row in the same order,
  with both addresses, priority, failures and counts of every server, whatever was in the list before and
  whatever the older file holds; the three cursors stand at the start.  A row must have texts of less than 64 KB,
  be allowed by the current filters, and differ from the others in its text.\<close>

theorem server_list_is_reloaded:
  assumes "codec_ok proper (me_codec env)" "list_reached senv sl" "length (sl_servers sl) < 2 ^ 32"
    "\<forall>s \<in> set (sl_servers sl). savable proper env s \<and> admitted senv s" "distinct (map (row_text senv) (sl_servers sl))"
  shows "\<exists>f deleted. saveServerMet (me_codec env) sl = Some f \<and>
    loadServerMet env senv i (Some f) bak old = (True, i + of_nat (length (sl_servers sl)),
      \<lparr>sl_servers = reloaded_rows senv i (sl_servers sl), sl_serverPos = 0, sl_searchPos = 0, sl_statPos = 0, sl_deleted = deleted\<rparr>)"
proof -
  let ?ss = "sl_servers sl"
  have r: "rows_ok ?ss" using list_reached_ok[OF assms(2)] by (simp add: list_ok_def)
  have "sorted_wrt (apart senv) ?ss"
    unfolding sorted_wrt_iff_nth_less
  proof (intro allI impI)
    fix j k assume jk: "j < k" "k < length ?ss"
    then have "row_text senv (?ss ! j) \<noteq> row_text senv (?ss ! k)"
      using nth_eq_iff_index_eq[OF assms(5), of j k] by simp
    moreover have "sv_id (?ss ! j) \<noteq> sv_id (?ss ! k)"
      using r jk nth_eq_iff_index_eq[of "map sv_id ?ss" j k] by (simp add: rows_ok_def)
    ultimately show "apart senv (?ss ! j) (?ss ! k)" using r jk by (auto simp: apart_def rows_ok_def)
  qed
  moreover have "sl_servers (removeAllServers old) = []" by (simp add: removeAllServers_def)
  ultimately obtain b where b: "write_rows (me_codec env) ?ss = Some b"
    "add_met_rows env senv False (length ?ss) i b (removeAllServers old) =
      (True, i + of_nat (length ?ss), (removeAllServers old)\<lparr>sl_servers := reloaded_rows senv i ?ss\<rparr>)"
    using rows_read_back[OF assms(1,4), of "removeAllServers old" i "[]"] by auto
  have n: "unat (of_nat (length ?ss) :: u32) = length ?ss" using assms(3) by (simp add: unat_of_nat)
  show ?thesis using b n
    by (auto simp: saveServerMet_def loadServerMet_def addServerMetToList_def removeAllServers_def)
qed

definition sample_met_env :: met_env where
  "sample_met_env = \<lparr>me_codec = sample_codec, me_versionText = (\<lambda>_. []), me_isMetaApiUrl = (\<lambda>_. True)\<rparr>"

lemma server_list_is_reloaded_witness:
  "\<exists>f deleted. saveServerMet sample_codec merged_rows = Some f \<and>
    loadServerMet sample_met_env sample_server_env 5 (Some f) None two_rows = (True, 6,
      \<lparr>sl_servers = reloaded_rows sample_server_env 5 (sl_servers merged_rows), sl_serverPos = 0, sl_searchPos = 0,
       sl_statPos = 0, sl_deleted = deleted\<rparr>)"
proof -
  let ?s = "(sample_server 1 (IPv4 7))\<lparr>sv_addressV6 := sample_v6\<rparr>"
  have c: "codec_ok (\<lambda>s. \<forall>ch \<in> set s. ch \<le> 0x7F) (me_codec sample_met_env)"
    using sample_codec_ok by (simp add: sample_met_env_def)
  have s: "savable (\<lambda>s. \<forall>ch \<in> set s. ch \<le> 0x7F) sample_met_env ?s"
    by (simp add: savable_def addresses_ok_def priority_ok_def texts_of_def string_ok_def carried_def encode_text_def
        sample_met_env_def sample_server_def no_facts_def sample_v6_def sample_codec_def is_v4_def hasDynIP_def)
  have w: "admitted sample_server_env ?s"
    by (simp add: admitted_def sample_server_def sample_server_env_def isFilteredServerIP_def)
  show ?thesis
    using server_list_is_reloaded[OF c sample_reached(2), of 5 None two_rows] s w
    by (simp add: sample_rows sample_met_env_def)
qed

text \<open>A text that takes 65536 bytes in the file is written with the length 0: the reader takes the text for the next
  server.  UTF-8 needs two bytes for a character that came as one, so a description of 32 KB is enough.\<close>

lemma long_description_breaks_file:
  assumes "length (encode_text (me_codec env) OptBOM u) = 65536" "u \<noteq> []"
    "s = facts (sf_description_update (\<lambda>_. u)) (new_server j (IPv4 7) 4661)"
  shows "\<exists>b. write_row (me_codec env) s = Some b \<and>
    read_server env i (b @ f) = Some (new_server i (IPv4 7) 4661, encode_text (me_codec env) OptBOM u @ f)"
proof -
  let ?c = "me_codec env" and ?t = "tag_string (By_id ST_DESCRIPTION) u"
  have d: "sf_description (sv_facts s) = u" "sv_port s = 4661" "sv_address s = IPv4 7" "\<not> hasDynIP s"
    "server_tags s = [(OptBOM, True, ?t)]"
    using assms(2) by (simp_all add: assms(3) new_server_def no_facts_def hasDynIP_def server_tags_def text_tag_def num_tag_def
        named_num_def v6_tag_def meta_tags_def ipv6Address_def Let_def)
  have t: "label_ok ?t" "t_type ?t = TAGTYPE_STRING" "t_data ?t = Str_data u"
    by (simp_all add: label_ok_def tag_constructors labelled_def ST_DESCRIPTION_def)
  obtain b where b: "writeNewEd2kTag ?c OptBOM ?t = Some (True, b)"
    "readTag ?c True (b @ f) = Some (?t\<lparr>t_data := Str_data []\<rparr>, encode_text ?c OptBOM u @ f)"
    using long_string_spills(2)[OF t assms(1), of True f] by blast
  have e: "addTagFromFile env (?t\<lparr>t_data := Str_data []\<rparr>) (new_server i (IPv4 7) 4661) = new_server i (IPv4 7) 4661"
    by (simp add: addTagFromFile_def on_str_def str_of_def strValue_def tag_constructors labelled_def st_defs facts_def
        new_server_def no_facts_def)
  have ne: "b \<noteq> []" using written_tag_grows[of True ?c OptBOM ?t b] b(1) by simp
  have h: "fromNetworkOrder (ntohl 7) = IPv4 7" by (simp add: fromNetworkOrder_def)
  have n: "readTagList ?c True kMaxFileTags (writeUInt32 1 @ b @ f) =
      Some ([?t\<lparr>t_data := Str_data []\<rparr>], encode_text ?c OptBOM u @ f)"
    using b(2) ne by (simp add: readTagList_def readTagCount_def checkTagCount_def kMaxFileTags_def)
  show ?thesis using b(1) e h n d
    by (simp add: write_row_def writeTags_def read_server_def)
qed

end
