(* ===== verification/Global_Search.thy ===== *)
theory Global_Search
  imports Server_List Packet_Frames
begin

text \<open>
  The global search over UDP (src/core/search/GlobalSearchScheduler.cpp): after the connected server
  has answered, or did not in time, one server of the list is asked at each tick, until the list has
  been walked once.  The packet is buildGlobalSearchPacket of src/core/search/SearchExprParser.cpp.
  The two timers are flags; the number of files found and of servers that sent catalogue rows, which
  the search list keeps, are arguments.
\<close>

section \<open>The packet\<close>

definition OP_GLOBSEARCHREQ3 :: u8 where "OP_GLOBSEARCHREQ3 = 0x90"
definition OP_GLOBSEARCHREQ2 :: u8 where "OP_GLOBSEARCHREQ2 = 0x92"
definition OP_GLOBSEARCHREQ :: u8 where "OP_GLOBSEARCHREQ = 0x98"
definition CT_SERVER_UDPSEARCH_FLAGS :: u8 where "CT_SERVER_UDPSEARCH_FLAGS = 0x0E"
definition SRVCAP_UDP_NEWTAGS_LARGEFILES :: u32 where "SRVCAP_UDP_NEWTAGS_LARGEFILES = 0x01"
definition SRVCAP_UDP_META_SEARCH :: u32 where "SRVCAP_UDP_META_SEARCH = 0x02"
definition SRVCAP_UDP_NO_META :: u32 where "SRVCAP_UDP_NO_META = 0x04"

definition supportsLargeFilesUDP :: "server \<Rightarrow> bool" where
  "supportsLargeFilesUDP s \<longleftrightarrow> sv_udpFlags s AND 0x100 \<noteq> 0"

definition extGetFiles :: "server \<Rightarrow> bool" where
  "extGetFiles s \<longleftrightarrow> sv_udpFlags s AND 0x2 \<noteq> 0"

definition search_flags :: "bool \<Rightarrow> tag" where
  "search_flags declineMeta = tag_uint32 (By_id CT_SERVER_UDPSEARCH_FLAGS)
     (SRVCAP_UDP_NEWTAGS_LARGEFILES OR (if declineMeta then SRVCAP_UDP_NO_META else SRVCAP_UDP_META_SEARCH))"

definition written_tag :: "(bool \<times> out_bytes) option \<Rightarrow> out_bytes" where
  "written_tag w = (case w of Some (_, b) \<Rightarrow> b | None \<Rightarrow> [])"

definition search_prefix :: "text_codec \<Rightarrow> bool \<Rightarrow> out_bytes" where
  "search_prefix c declineMeta = writeUInt32 1 @ written_tag (writeNewEd2kTag c Mode_None (search_flags declineMeta))"

definition search_packet :: "u8 \<Rightarrow> u8 list \<Rightarrow> packet" where
  "search_packet opcode data = \<lparr>pk_prot = OP_EDONKEYPROT, pk_opcode = opcode, pk_size = of_nat (length data), pk_data = data\<rparr>"

text \<open>None where the server cannot read the search.\<close>

definition buildGlobalSearchPacket :: "text_codec \<Rightarrow> server \<Rightarrow> u8 list \<Rightarrow> bool \<Rightarrow> bool \<Rightarrow> packet option" where
  "buildGlobalSearchPacket c s searchTerms is64BitSearch declineMeta =
     (if supportsLargeFilesUDP s \<and> extGetFiles s
      then Some (search_packet OP_GLOBSEARCHREQ3 (search_prefix c declineMeta @ searchTerms))
      else if is64BitSearch \<and> \<not> supportsLargeFilesUDP s then None
      else Some (search_packet (if extGetFiles s then OP_GLOBSEARCHREQ2 else OP_GLOBSEARCHREQ) searchTerms))"

definition declineGlobalSearchMeta :: "u32 \<Rightarrow> u32 \<Rightarrow> bool" where
  "declineGlobalSearchMeta catalogueServers threshold \<longleftrightarrow> threshold > 0 \<and> catalogueServers \<ge> threshold"

section \<open>The next server of a sweep\<close>

lemma nextSearchServer_servers [simp]: "sl_servers (snd (nextSearchServer sl)) = sl_servers sl"
  by (simp add: nextSearchServer_def split: prod.splits)

lemma nextSearch_same: "(x, sl') = nextSearchServer sl \<Longrightarrow> sl_servers sl' = sl_servers sl"
  using nextSearchServer_servers[of sl] by (metis snd_conv)

definition worth_asking :: "u32 option \<Rightarrow> u32 \<Rightarrow> server \<Rightarrow> bool" where
  "worth_asking connected deadServerRetries s \<longleftrightarrow> connected \<noteq> Some (sv_id s) \<and> \<not> isDeadFor deadServerRetries s"

text \<open>The server, the list with its cursor moved and the candidates examined so far, which stay far below 32 bits.\<close>

function nextGlobalSearchTarget :: "u32 option \<Rightarrow> u32 \<Rightarrow> server_list \<Rightarrow> nat \<Rightarrow> server option \<times> server_list \<times> nat" where
  "nextGlobalSearchTarget connected deadServerRetries sl examined =
     (if examined + 1 < length (sl_servers sl) then
        (case nextSearchServer sl of
           (None, sl') \<Rightarrow> (None, sl', examined + 1)
         | (Some s, sl') \<Rightarrow>
             if worth_asking connected deadServerRetries s then (Some s, sl', examined + 1)
             else nextGlobalSearchTarget connected deadServerRetries sl' (examined + 1))
      else (None, sl, examined + 1))"
  by pat_completeness auto
termination
  by (relation "measure (\<lambda>(_, _, sl, examined). length (sl_servers sl) - examined)") (auto dest!: nextSearch_same)

declare nextGlobalSearchTarget.simps [simp del]

section \<open>The scheduler\<close>

record scheduler =
  gs_searchID :: u32
  gs_searchTerms :: "u8 list"
  gs_examined :: nat
  gs_is64Bit :: bool
  gs_localTimeout :: bool
  gs_sweepTimer :: bool

definition idle_scheduler :: scheduler where
  "idle_scheduler = \<lparr>gs_searchID = 0, gs_searchTerms = [], gs_examined = 0, gs_is64Bit = False,
     gs_localTimeout = False, gs_sweepTimer = False\<rparr>"

text \<open>The signal of progress, and a packet sent to a server.\<close>

datatype sweep_event = Progress u32 nat nat bool | Sent u32 packet

definition kSweepMaxFiles :: u32 where "kSweepMaxFiles = 400"

definition emitProgress :: "nat \<Rightarrow> bool \<Rightarrow> scheduler \<Rightarrow> sweep_event list" where
  "emitProgress serverCount running g = [Progress (gs_searchID g) (gs_examined g) serverCount running]"

definition cancel :: "nat \<Rightarrow> scheduler \<Rightarrow> sweep_event list \<times> scheduler" where
  "cancel serverCount g =
     (if gs_searchID g = 0 then ([], g)
      else ([Progress (gs_searchID g) (gs_examined g) serverCount False], idle_scheduler))"

definition cancelSearch :: "nat \<Rightarrow> u32 \<Rightarrow> scheduler \<Rightarrow> sweep_event list \<times> scheduler" where
  "cancelSearch serverCount searchID g =
     (if searchID \<noteq> 0 \<and> searchID = gs_searchID g then cancel serverCount g else ([], g))"

definition beginSweep :: "nat \<Rightarrow> scheduler \<Rightarrow> sweep_event list \<times> scheduler" where
  "beginSweep serverCount g =
     (if gs_searchID g = 0 then ([], g)
      else if serverCount = 0 then cancel serverCount g
      else (let g' = g\<lparr>gs_sweepTimer := True\<rparr> in (emitProgress serverCount True g', g')))"

definition start_search :: "bool \<Rightarrow> u32 \<Rightarrow> u8 list \<Rightarrow> bool \<Rightarrow> bool \<Rightarrow> server_list \<Rightarrow> scheduler \<Rightarrow>
    sweep_event list \<times> server_list \<times> scheduler" where
  "start_search usePriorities searchID searchTerms is64BitSearch awaitLocalAnswer sl g =
     (let serverCount = length (sl_servers sl); (evs, g0) = cancel serverCount g in
      if searchID = 0 \<or> searchTerms = [] then (evs, sl, g0)
      else
        (let g1 = g0\<lparr>gs_searchID := searchID, gs_searchTerms := searchTerms, gs_is64Bit := is64BitSearch, gs_examined := 0\<rparr>;
             sl1 = (if usePriorities then resetSearchServerPos sl else sl)
         in if awaitLocalAnswer then
              (let g2 = g1\<lparr>gs_localTimeout := True\<rparr> in (evs @ emitProgress serverCount True g2, sl1, g2))
            else (let (evs2, g2) = beginSweep serverCount g1 in (evs @ evs2, sl1, g2))))"

text \<open>The timer for the local server is over by itself, or stopped by its answer.\<close>

definition onLocalTimeout :: "nat \<Rightarrow> scheduler \<Rightarrow> sweep_event list \<times> scheduler" where
  "onLocalTimeout serverCount g = beginSweep serverCount (g\<lparr>gs_localTimeout := False\<rparr>)"

definition onLocalAnswerReceived :: "nat \<Rightarrow> scheduler \<Rightarrow> sweep_event list \<times> scheduler" where
  "onLocalAnswerReceived serverCount g =
     (if gs_searchID g = 0 \<or> \<not> gs_localTimeout g then ([], g)
      else beginSweep serverCount (g\<lparr>gs_localTimeout := False\<rparr>))"

definition onResultCountChanged :: "nat \<Rightarrow> u32 \<Rightarrow> u32 \<Rightarrow> scheduler \<Rightarrow> sweep_event list \<times> scheduler" where
  "onResultCountChanged serverCount foundFiles searchID g =
     (if gs_searchID g = 0 \<or> searchID \<noteq> gs_searchID g then ([], g)
      else if foundFiles \<ge> kSweepMaxFiles then cancel serverCount g else ([], g))"

definition onSweepTick :: "text_codec \<Rightarrow> u32 option \<Rightarrow> u32 \<Rightarrow> bool \<Rightarrow> server_list \<times> scheduler \<Rightarrow>
    sweep_event list \<times> server_list \<times> scheduler" where
  "onSweepTick c connected deadServerRetries declineMeta st =
     (let (sl, g) = st; serverCount = length (sl_servers sl) in
      if gs_searchID g = 0 then (let (evs, g') = cancel serverCount g in (evs, sl, g'))
      else
        (case nextGlobalSearchTarget connected deadServerRetries sl (gs_examined g) of
           (None, sl', examined) \<Rightarrow>
             (let (evs, g') = cancel serverCount (g\<lparr>gs_examined := examined\<rparr>) in (evs, sl', g'))
         | (Some toask, sl', examined) \<Rightarrow>
             (let g' = g\<lparr>gs_examined := examined\<rparr> in
              ((case buildGlobalSearchPacket c toask (gs_searchTerms g) (gs_is64Bit g) declineMeta of
                  Some pkt \<Rightarrow> [Sent (sv_id toask) pkt] | None \<Rightarrow> [])
               @ emitProgress serverCount True g', sl', g'))))"

text \<open>Some ticks, as long as the timer runs.\<close>

fun sweep_ticks :: "text_codec \<Rightarrow> u32 option \<Rightarrow> u32 \<Rightarrow> bool \<Rightarrow> nat \<Rightarrow> server_list \<times> scheduler \<Rightarrow>
    sweep_event list \<times> server_list \<times> scheduler" where
  "sweep_ticks c connected r decline 0 st = ([], st)"
| "sweep_ticks c connected r decline (Suc k) st =
     (if gs_sweepTimer (snd st) then
        (let (evs, st1) = onSweepTick c connected r decline st; (evs', st2) = sweep_ticks c connected r decline k st1
         in (evs @ evs', st2))
      else ([], st))"


section \<open>A sweep reaches the servers and ends\<close>

lemma coming_round_next:
  assumes "sl_searchPos sl < length (sl_servers sl)" "coming_round (sl_searchPos sl) (sl_servers sl) = x # xs"
  shows "\<exists>sl'. nextSearchServer sl = (Some x, sl') \<and> sl_servers sl' = sl_servers sl \<and> sl_searchPos sl' < length (sl_servers sl) \<and>
    coming_round (sl_searchPos sl') (sl_servers sl) = xs @ [x]"
proof -
  let ?p = "sl_searchPos sl" and ?ss = "sl_servers sl"
  let ?q = "(?p + 1) mod length ?ss"
  have d: "drop ?p ?ss = ?ss ! ?p # drop (Suc ?p) ?ss" using assms(1) by (rule Cons_nth_drop_Suc[symmetric])
  then have x: "x = ?ss ! ?p" "xs = drop (Suc ?p) ?ss @ take ?p ?ss" using assms(2) by (simp_all add: coming_round_def)
  have "coming_round ?q ?ss = xs @ [x]"
  proof (cases "Suc ?p = length ?ss")
    case True
    then have "coming_round ?q ?ss = ?ss" by (simp add: coming_round_def)
    moreover have "take (Suc ?p) ?ss = take ?p ?ss @ [?ss ! ?p]" using assms(1) by (rule take_Suc_conv_app_nth)
    ultimately show ?thesis using True x by simp
  next
    case False
    then have "?q = Suc ?p" using assms(1) by simp
    then show ?thesis using x take_Suc_conv_app_nth[OF assms(1)] by (simp add: coming_round_def)
  qed
  moreover have "?q < length ?ss" using assms(1) by (intro mod_less_divisor) (cases ?ss, auto)
  moreover have "nextSearchServer sl = (Some x, sl\<lparr>sl_searchPos := ?q\<rparr>)"
    using assms(1) x(1) by (auto simp: nextSearchServer_def next_round_def Let_def)
  ultimately show ?thesis by auto
qed

text \<open>The servers a sweep has still to examine.\<close>

definition to_examine :: "server_list \<Rightarrow> nat \<Rightarrow> server list" where
  "to_examine sl examined = take (length (sl_servers sl) - 1 - examined) (coming_round (sl_searchPos sl) (sl_servers sl))"

lemma length_coming [simp]: "length (coming_round p xs) = length xs"
  by (simp add: coming_round_def)

lemma target_found:
  assumes "sl_searchPos sl < length (sl_servers sl)"
  shows "case dropWhile (\<lambda>s. \<not> worth_asking connected r s) (to_examine sl examined) of
      [] \<Rightarrow> \<exists>sl' ex. nextGlobalSearchTarget connected r sl examined = (None, sl', ex) \<and> sl_servers sl' = sl_servers sl
    | x # rest \<Rightarrow> \<exists>sl' ex. nextGlobalSearchTarget connected r sl examined = (Some x, sl', ex) \<and> sl_servers sl' = sl_servers sl \<and>
        sl_searchPos sl' < length (sl_servers sl) \<and> to_examine sl' ex = rest"
  using assms
proof (induction connected r sl examined rule: nextGlobalSearchTarget.induct)
  case (1 connected r sl examined)
  let ?ss = "sl_servers sl"
  show ?case
  proof (cases "examined + 1 < length ?ss")
    case False
    then have "to_examine sl examined = []" by (simp add: to_examine_def)
    then show ?thesis using False by (simp add: nextGlobalSearchTarget.simps)
  next
    case True
    have "coming_round (sl_searchPos sl) ?ss \<noteq> []" using True length_coming[of "sl_searchPos sl" ?ss] by force
    then obtain x xs where x: "coming_round (sl_searchPos sl) ?ss = x # xs" by (cases "coming_round (sl_searchPos sl) ?ss") auto
    obtain sl' where n: "nextSearchServer sl = (Some x, sl')" "sl_servers sl' = ?ss" "sl_searchPos sl' < length ?ss"
      "coming_round (sl_searchPos sl') ?ss = xs @ [x]" using coming_round_next[OF 1(2) x] by blast
    have lx: "length xs = length ?ss - 1" using length_coming[of "sl_searchPos sl" ?ss] by (simp add: x)
    have k: "length ?ss - 1 - examined = Suc (length ?ss - 1 - (examined + 1))" using True by arith
    have now: "to_examine sl examined = x # take (length ?ss - 1 - (examined + 1)) xs"
      unfolding to_examine_def k x by simp
    have nxt: "to_examine sl' (examined + 1) = take (length ?ss - 1 - (examined + 1)) xs"
      unfolding to_examine_def n(2,4) using lx by simp
    show ?thesis
    proof (cases "worth_asking connected r x")
      case w: True
      then show ?thesis using True n now nxt by (auto simp: nextGlobalSearchTarget.simps[of connected r sl])
    next
      case w: False
      have A: "nextGlobalSearchTarget connected r sl examined = nextGlobalSearchTarget connected r sl' (examined + 1)"
        using True n(1) w by (subst nextGlobalSearchTarget.simps) simp
      have B: "dropWhile (\<lambda>s. \<not> worth_asking connected r s) (to_examine sl examined) =
          dropWhile (\<lambda>s. \<not> worth_asking connected r s) (to_examine sl' (examined + 1))" using w now nxt by simp
      show ?thesis using 1(1)[OF True n(1)[symmetric] refl w] n(3) unfolding n(2) A B by blast
    qed
  qed
qed

fun sent_packets :: "sweep_event list \<Rightarrow> (u32 \<times> packet) list" where
  "sent_packets [] = []"
| "sent_packets (Sent i pkt # evs) = (i, pkt) # sent_packets evs"
| "sent_packets (Progress _ _ _ _ # evs) = sent_packets evs"

lemma sent_append [simp]: "sent_packets (evs @ evs') = sent_packets evs @ sent_packets evs'"
  by (induction evs rule: sent_packets.induct) simp_all

text \<open>What a server is sent: one packet, or nothing where it cannot read the search.\<close>

definition asked_with :: "text_codec \<Rightarrow> scheduler \<Rightarrow> bool \<Rightarrow> server \<Rightarrow> (u32 \<times> packet) list" where
  "asked_with c g decline s =
     (case buildGlobalSearchPacket c s (gs_searchTerms g) (gs_is64Bit g) decline of Some pkt \<Rightarrow> [(sv_id s, pkt)] | None \<Rightarrow> [])"

lemma filter_dropWhile: "filter P xs = (case dropWhile (\<lambda>x. \<not> P x) xs of [] \<Rightarrow> [] | x # rest \<Rightarrow> x # filter P rest)"
  by (induction xs) auto

lemma idle_ticks [simp]: "sweep_ticks c connected r decline k (sl, idle_scheduler) = ([], sl, idle_scheduler)"
  by (cases k) (simp_all add: idle_scheduler_def)

lemma sweep_runs:
  assumes "sl_searchPos sl < length (sl_servers sl)" "gs_searchID g \<noteq> 0" "gs_sweepTimer g"
    "length (filter (worth_asking connected r) (to_examine sl (gs_examined g))) < k"
  shows "\<exists>evs sl'. sweep_ticks c connected r decline k (sl, g) = (evs, sl', idle_scheduler) \<and>
    sent_packets evs = concat (map (asked_with c g decline) (filter (worth_asking connected r) (to_examine sl (gs_examined g))))"
  using assms
proof (induction k arbitrary: sl g)
  case (Suc k)
  let ?P = "worth_asking connected r" and ?L = "to_examine sl (gs_examined g)"
  note f = target_found[OF Suc.prems(1), of connected r "gs_examined g"]
  show ?case
  proof (cases "dropWhile (\<lambda>s. \<not> ?P s) ?L")
    case Nil
    then obtain sl' ex where "nextGlobalSearchTarget connected r sl (gs_examined g) = (None, sl', ex)" using f[unfolded Nil] by auto
    moreover have "filter ?P ?L = []" using Nil filter_dropWhile[of ?P ?L] by simp
    ultimately show ?thesis using Suc.prems(2,3) by (simp add: onSweepTick_def cancel_def)
  next
    case (Cons x rest)
    then obtain sl' ex where n: "nextGlobalSearchTarget connected r sl (gs_examined g) = (Some x, sl', ex)"
      "sl_servers sl' = sl_servers sl" "sl_searchPos sl' < length (sl_servers sl)" "to_examine sl' ex = rest" using f[unfolded Cons] by auto
    have fl: "filter ?P ?L = x # filter ?P rest" using Cons filter_dropWhile[of ?P ?L] by simp
    let ?g = "g\<lparr>gs_examined := ex\<rparr>"
    obtain evs sl2 where ih: "sweep_ticks c connected r decline k (sl', ?g) = (evs, sl2, idle_scheduler)"
      "sent_packets evs = concat (map (asked_with c ?g decline) (filter ?P rest))"
      using Suc.IH[of sl' ?g] n Suc.prems fl by auto
    have "asked_with c ?g decline = asked_with c g decline" by (simp add: asked_with_def fun_eq_iff)
    then show ?thesis using Suc.prems(2,3) n(1) ih fl asked_with_def[of c g decline x]
      by (auto simp: onSweepTick_def Let_def emitProgress_def split: option.splits)
  qed
qed simp

text \<open>The threshold for dead servers: the declaration of nextGlobalSearchTarget speaks of servers that failed more
  often than deadServerRetries, the code leaves out one that failed exactly that often.\<close>

lemma skipped_at_the_threshold:
  "0 < deadServerRetries \<Longrightarrow> sv_failedCount s = deadServerRetries \<Longrightarrow> \<not> worth_asking connected deadServerRetries s"
  by (simp add: worth_asking_def isDeadFor_def)

text \<open>C13. A sweep asks the servers and ends: once begun it needs no more ticks than the list has servers; by then every
  server of the round but the last has been sent the search, in the order of the round and once, except the
  connected one, the disabled ones, those that have failed deadServerRetries times or more (0 is no threshold) and
  those that cannot read it - and nobody else has.  This is a sweep during which the server list, the connected
  server and the threshold stay as they are: the ticks follow each other without another operation in between.
  That the code leaves out a server with exactly deadServerRetries failures differs from the declaration in
  GlobalSearchScheduler.h, which says more than that.\<close>

theorem sweep_asks_and_ends:
  assumes "list_reached env sl" "sl_servers sl \<noteq> []" "searchID \<noteq> 0" "terms \<noteq> []"
    "start_search prio searchID terms is64 False sl idle_scheduler = (evs0, sl0, g0)"
    "sweep_ticks c connected r decline (length (sl_servers sl)) (sl0, g0) = (evs, sl1, g1)"
  shows "g1 = idle_scheduler \<and>
    sent_packets evs = concat (map (asked_with c g0 decline)
      (filter (\<lambda>s. connected \<noteq> Some (sv_id s) \<and> \<not> sv_disabled s \<and> \<not> (0 < r \<and> r \<le> sv_failedCount s))
        (butlast (coming_round (sl_searchPos sl0) (sl_servers sl)))))"
proof -
  let ?n = "length (sl_servers sl)"
  have due: "worth_asking connected r = (\<lambda>s. connected \<noteq> Some (sv_id s) \<and> \<not> sv_disabled s \<and> \<not> (0 < r \<and> r \<le> sv_failedCount s))"
    by (auto simp: fun_eq_iff worth_asking_def isDeadFor_def)
  have g0: "gs_searchID g0 = searchID" "gs_sweepTimer g0" "gs_examined g0 = 0"
    and sl0: "sl0 = (if prio then resetSearchServerPos sl else sl)"
    using assms(2-5) by (auto simp: start_search_def cancel_def beginSweep_def idle_scheduler_def Let_def split: if_splits)
  have "list_ok sl0" using list_reached_ok[OF assms(1)] cursors_ok(4) sl0 by simp
  moreover have ss: "sl_servers sl0 = sl_servers sl" by (simp add: sl0 resetSearchServerPos_def)
  ultimately have pos: "sl_searchPos sl0 < length (sl_servers sl0)" using assms(2) by (auto simp: list_ok_def list_shape_def in_round_def)
  have ex: "to_examine sl0 0 = butlast (coming_round (sl_searchPos sl0) (sl_servers sl))"
    by (simp add: to_examine_def g0 ss butlast_conv_take)
  have "length (filter (worth_asking connected r) (to_examine sl0 0)) < ?n"
    unfolding ex using assms(2) length_filter_le[of _ "butlast (coming_round (sl_searchPos sl0) (sl_servers sl))"]
    by (intro le_less_trans[OF length_filter_le]) simp
  then show ?thesis
    using sweep_runs[OF pos, of g0 connected r ?n c decline] g0 assms(3,6) unfolding due[symmetric] by (auto simp: ex)
qed


definition sample_scheduler :: scheduler where
  "sample_scheduler = snd (snd (start_search False 5 [1, 2] False False two_rows idle_scheduler))"

lemma sweep_asks_and_ends_witness:
  "\<exists>evs sl1. sweep_ticks sample_codec (Some 9) 0 False 2 (two_rows, sample_scheduler) = (evs, sl1, idle_scheduler) \<and>
     sent_packets evs = [(1, search_packet OP_GLOBSEARCHREQ [1, 2])]"
proof -
  have st: "start_search False 5 [1, 2] False False two_rows idle_scheduler =
      ([Progress 5 0 2 True], two_rows, sample_scheduler)"
    by (simp add: sample_scheduler_def start_search_def cancel_def idle_scheduler_def beginSweep_def emitProgress_def sample_rows)
  obtain evs sl1 g1 where t: "sweep_ticks sample_codec (Some 9) 0 False (length (sl_servers two_rows)) (two_rows, sample_scheduler) = (evs, sl1, g1)"
    using prod_cases3 by blast
  have a: "concat (map (asked_with sample_codec sample_scheduler False)
      (filter (\<lambda>s. Some 9 \<noteq> Some (sv_id s) \<and> \<not> sv_disabled s \<and> \<not> (0 < (0 :: u32) \<and> 0 \<le> sv_failedCount s))
        (butlast (coming_round (sl_searchPos two_rows) (sl_servers two_rows))))) =
      [(1, search_packet OP_GLOBSEARCHREQ [1, 2])]" by code_simp
  have ne: "sl_servers two_rows \<noteq> []" "(5 :: u32) \<noteq> 0" "[1 :: u8, 2] \<noteq> []" by (simp_all add: sample_rows)
  have l: "length (sl_servers two_rows) = 2" by (simp add: sample_rows)
  show ?thesis using sweep_asks_and_ends[OF sample_reached(1) ne st t] t unfolding a l by auto
qed

text \<open>A server that reads large files and tags gets the flags of the search as a tag in front of its terms.\<close>

lemma search_packet_read:
  "readTagList c u kMaxWireTags (search_prefix c declineMeta @ searchTerms) = Some ([search_flags declineMeta], searchTerms)"
proof -
  let ?t = "search_flags declineMeta"
  have "label_ok ?t" by (simp add: label_ok_def search_flags_def tag_uint32_def labelled_def CT_SERVER_UDPSEARCH_FLAGS_def)
  moreover have "t_data ?t = Int_data 3 \<or> t_data ?t = Int_data 5"
    by (simp add: search_flags_def tag_uint32_def labelled_def SRVCAP_UDP_NEWTAGS_LARGEFILES_def SRVCAP_UDP_NO_META_def
        SRVCAP_UDP_META_SEARCH_def)
  moreover have "t_type ?t = TAGTYPE_UINT32" by (simp add: search_flags_def tag_uint32_def labelled_def)
  moreover have "?t\<lparr>t_data := v, t_type := TAGTYPE_UINT32\<rparr> = ?t" if "t_data ?t = v" for v
    using that by (simp add: search_flags_def tag_uint32_def labelled_def)
  ultimately have b: "\<exists>b. writeNewEd2kTag c Mode_None ?t = Some (True, b) \<and> b \<noteq> [] \<and> readTag c u (b @ searchTerms) = Some (?t, searchTerms)"
    using new_int[of ?t c u 3 searchTerms] new_int[of ?t c u 5 searchTerms]
    by (auto simp: writeNewEd2kTag_def intValue_def int64Value_def tagtype_defs write_new_int_def writeNameAndType_def written_byte)
  then obtain b where "writeNewEd2kTag c Mode_None ?t = Some (True, b)" "b \<noteq> []" "readTag c u (b @ searchTerms) = Some (?t, searchTerms)" by blast
  then show ?thesis
    by (cases b) (simp_all add: search_prefix_def written_tag_def readTagList_def readTagCount_def checkTagCount_def kMaxWireTags_def)
qed

text \<open>The candidates examined are counted, not remembered: when a server that was asked leaves the list, the count
  stays and the sweep ends one server earlier.  Of three servers the first is asked; once it is removed, the
  second, which was next, is never asked.\<close>

definition three_rows :: server_list where
  "three_rows = snd (addServer sample_server_env False (sample_server 3 (IPv4 8)) two_rows)"

lemma removal_ends_sweep_early:
  "let g = snd (snd (start_search False 5 [1, 2] False False three_rows idle_scheduler));
       (evs, sl1, g1) = sweep_ticks sample_codec None 0 False 1 (three_rows, g);
       (evs2, sl2, g2) = sweep_ticks sample_codec None 0 False 1 (snd (removeServer 1 sl1), g1)
   in map fst (sent_packets evs) = [1] \<and> map sv_id (sl_servers sl2) = [2, 3] \<and> sent_packets evs2 = [] \<and> g2 = idle_scheduler"
  by code_simp

end
