(* ===== verification/Corroboration.thy ===== *)
theory Corroboration
  imports Prelude "HOL-Library.AList"
begin

text \<open>
  Agreement of distinct voters on what cannot be verified, such as the public address a server says it
  sees (src/core/utils/CorroborationTally.h).  A std::map of candidates is an association list in the
  order of its keys, which breaks ties; the map of voters is one whose order does not matter.  Times are
  64-bit milliseconds that do not overflow.
\<close>

datatype corroboration_mode = Reelect | Sticky

record 'v claim =
  cl_voters :: "('v \<times> int) list"
  cl_warned :: bool

record ('c, 'v) tally =
  ta_entries :: "('c \<times> 'v claim) list"
  ta_adopted :: "'c option"
  ta_mode :: corroboration_mode

definition new_tally :: "corroboration_mode \<Rightarrow> ('c, 'v) tally" where
  "new_tally mode = \<lparr>ta_entries = [], ta_adopted = None, ta_mode = mode\<rparr>"

text \<open>\<open>m_entries[candidate].voters[voter] = nowMs\<close>: the entry is made where it is missing.\<close>

fun put_vote :: "'c::linorder \<Rightarrow> 'v \<Rightarrow> int \<Rightarrow> ('c \<times> 'v claim) list \<Rightarrow> ('c \<times> 'v claim) list" where
  "put_vote cand voter nowMs [] = [(cand, \<lparr>cl_voters = [(voter, nowMs)], cl_warned = False\<rparr>)]"
| "put_vote cand voter nowMs ((k, e) # es) =
     (if cand < k then (cand, \<lparr>cl_voters = [(voter, nowMs)], cl_warned = False\<rparr>) # (k, e) # es
      else if cand = k then (k, e\<lparr>cl_voters := AList.update voter nowMs (cl_voters e)\<rparr>) # es
      else (k, e) # put_vote cand voter nowMs es)"

text \<open>The vote the voter had cast for another candidate is taken back; a candidate left with none goes.\<close>

fun retract :: "'c \<Rightarrow> 'v \<Rightarrow> ('c \<times> 'v claim) list \<Rightarrow> ('c \<times> 'v claim) list" where
  "retract cand voter [] = []"
| "retract cand voter ((k, e) # es) =
     (if k = cand then (k, e) # retract cand voter es
      else (let vs = AList.delete voter (cl_voters e)
            in if vs = [] then retract cand voter es else (k, e\<lparr>cl_voters := vs\<rparr>) # retract cand voter es))"

definition record_vote :: "'c::linorder \<Rightarrow> 'v \<Rightarrow> int \<Rightarrow> ('c, 'v) tally \<Rightarrow> ('c, 'v) tally" where
  "record_vote cand voter nowMs ta = ta\<lparr>ta_entries := put_vote cand voter nowMs (retract cand voter (ta_entries ta))\<rparr>"

definition fresh_voters :: "int \<Rightarrow> int \<Rightarrow> 'v claim \<Rightarrow> ('v \<times> int) list" where
  "fresh_voters nowMs windowMs e = filter (\<lambda>(v, t). \<not> nowMs - t > windowMs) (cl_voters e)"

text \<open>One walk: stale votes go, and the first candidate with the most voters leads.\<close>

fun walk :: "int \<Rightarrow> int \<Rightarrow> ('c \<times> 'v claim) list \<Rightarrow> nat \<times> 'c option \<Rightarrow> ('c \<times> 'v claim) list \<times> nat \<times> 'c option" where
  "walk nowMs windowMs [] best = ([], best)"
| "walk nowMs windowMs ((k, e) # es) (bestCount, best) =
     (let vs = fresh_voters nowMs windowMs e in
      if vs = [] then walk nowMs windowMs es (bestCount, best)
      else
        (let (es', r) = walk nowMs windowMs es
               (if length vs > bestCount then (length vs, Some k) else (bestCount, best))
         in ((k, e\<lparr>cl_voters := vs\<rparr>) # es', r)))"

text \<open>The outcome: whether the adopted candidate changed, and the voters behind the leading one.\<close>

definition recompute :: "int \<Rightarrow> nat \<Rightarrow> int \<Rightarrow> ('c, 'v) tally \<Rightarrow> (bool \<times> nat) \<times> ('c, 'v) tally" where
  "recompute nowMs threshold windowMs ta =
     (let (es, bestCount, best) = walk nowMs windowMs (ta_entries ta) (0, None);
          next1 = (if best \<noteq> None \<and> bestCount \<ge> threshold then best
                   else if ta_mode ta = Sticky then ta_adopted ta else None)
      in ((next1 \<noteq> ta_adopted ta, bestCount), ta\<lparr>ta_entries := es, ta_adopted := next1\<rparr>))"

definition voterCount :: "'c \<Rightarrow> ('c, 'v) tally \<Rightarrow> nat" where
  "voterCount cand ta = (case map_of (ta_entries ta) cand of None \<Rightarrow> 0 | Some e \<Rightarrow> length (cl_voters e))"

definition markWarnedOnce :: "'c \<Rightarrow> ('c, 'v) tally \<Rightarrow> bool \<times> ('c, 'v) tally" where
  "markWarnedOnce cand ta =
     (case map_of (ta_entries ta) cand of
        None \<Rightarrow> (False, ta)
      | Some e \<Rightarrow>
          if cl_warned e then (False, ta)
          else (True, ta\<lparr>ta_entries := map (\<lambda>(k, e). (k, if k = cand then e\<lparr>cl_warned := True\<rparr> else e)) (ta_entries ta)\<rparr>))"

definition eraseCandidatesIf :: "('c \<Rightarrow> nat \<Rightarrow> bool) \<Rightarrow> ('c, 'v) tally \<Rightarrow> nat \<times> ('c, 'v) tally" where
  "eraseCandidatesIf P ta =
     (let es = filter (\<lambda>(k, e). \<not> P k (length (cl_voters e))) (ta_entries ta)
      in (length (ta_entries ta) - length es, ta\<lparr>ta_entries := es\<rparr>))"

definition clear :: "('c, 'v) tally \<Rightarrow> ('c, 'v) tally" where
  "clear ta = ta\<lparr>ta_entries := [], ta_adopted := None\<rparr>"


section \<open>What a vote stands for\<close>

datatype ('c, 'v) tally_event =
    Recorded 'c 'v int
  | Recomputed int nat int
  | Warned 'c
  | Erased "'c \<Rightarrow> nat \<Rightarrow> bool"
  | Cleared

fun tally_step :: "('c::linorder, 'v) tally_event \<Rightarrow> ('c, 'v) tally \<Rightarrow> ('c, 'v) tally" where
  "tally_step (Recorded cand voter nowMs) ta = record_vote cand voter nowMs ta"
| "tally_step (Recomputed nowMs threshold windowMs) ta = snd (recompute nowMs threshold windowMs ta)"
| "tally_step (Warned cand) ta = snd (markWarnedOnce cand ta)"
| "tally_step (Erased P) ta = snd (eraseCandidatesIf P ta)"
| "tally_step Cleared ta = clear ta"

definition run_tally :: "corroboration_mode \<Rightarrow> ('c::linorder, 'v) tally_event list \<Rightarrow> ('c, 'v) tally" where
  "run_tally mode evs = fold tally_step evs (new_tally mode)"

text \<open>The last thing a voter claimed, and when; forgotten when everything is.\<close>

fun claim_after :: "'v \<Rightarrow> ('c, 'v) tally_event \<Rightarrow> ('c \<times> int) option \<Rightarrow> ('c \<times> int) option" where
  "claim_after v (Recorded cand voter nowMs) old = (if voter = v then Some (cand, nowMs) else old)"
| "claim_after v Cleared old = None"
| "claim_after v _ old = old"

definition last_claim :: "'v \<Rightarrow> ('c, 'v) tally_event list \<Rightarrow> ('c \<times> int) option" where
  "last_claim v evs = fold (claim_after v) evs None"

text \<open>The candidates are in order, a voter counts once for a candidate, and its vote is the last thing it claimed.\<close>

definition tally_ok :: "('v \<Rightarrow> ('c::linorder \<times> int) option) \<Rightarrow> ('c \<times> 'v claim) list \<Rightarrow> bool" where
  "tally_ok said es \<longleftrightarrow> sorted_wrt (<) (map fst es) \<and>
     (\<forall>(k, e) \<in> set es. distinct (map fst (cl_voters e)) \<and> (\<forall>(v, t) \<in> set (cl_voters e). said v = Some (k, t)))"

lemma tally_okI:
  assumes "sorted_wrt (<) (map fst es)" "\<And>k e. (k, e) \<in> set es \<Longrightarrow> distinct (map fst (cl_voters e))"
    "\<And>k e v t. (k, e) \<in> set es \<Longrightarrow> (v, t) \<in> set (cl_voters e) \<Longrightarrow> said v = Some (k, t)"
  shows "tally_ok said es"
  using assms by (force simp: tally_ok_def)

lemma tally_okD:
  assumes "tally_ok said es"
  shows "sorted_wrt (<) (map fst es)" "(k, e) \<in> set es \<Longrightarrow> distinct (map fst (cl_voters e))"
    "(k, e) \<in> set es \<Longrightarrow> (v, t) \<in> set (cl_voters e) \<Longrightarrow> said v = Some (k, t)"
  using assms by (auto simp: tally_ok_def)

lemma retract_entries:
  "(k, e') \<in> set (retract cand voter es) \<Longrightarrow>
     \<exists>e. (k, e) \<in> set es \<and> (k = cand \<and> e' = e \<or> k \<noteq> cand \<and> cl_voters e' = AList.delete voter (cl_voters e))"
  by (induction cand voter es rule: retract.induct) (fastforce simp: Let_def split: if_splits)+

lemma retract_sorted: "sorted_wrt (<) (map fst es) \<Longrightarrow> sorted_wrt (<) (map fst (retract cand voter es))"
proof (induction cand voter es rule: retract.induct)
  case (2 cand voter k e es)
  have "\<forall>x \<in> set (retract cand voter es). k < fst x"
    using 2(4) retract_entries[of _ _ cand voter es] by fastforce
  then show ?case using 2 by (auto simp: Let_def)
qed simp

lemma put_vote_entries:
  "sorted_wrt (<) (map fst es) \<Longrightarrow> (k, e') \<in> set (put_vote cand voter nowMs es) \<Longrightarrow>
     k \<noteq> cand \<and> (k, e') \<in> set es \<or>
     k = cand \<and> (cl_voters e' = [(voter, nowMs)] \<or> (\<exists>e. (cand, e) \<in> set es \<and> cl_voters e' = AList.update voter nowMs (cl_voters e)))"
  by (induction cand voter nowMs es rule: put_vote.induct) (auto split: if_splits)

lemma put_vote_sorted: "sorted_wrt (<) (map fst es) \<Longrightarrow> sorted_wrt (<) (map fst (put_vote cand voter nowMs es))"
proof (induction cand voter nowMs es rule: put_vote.induct)
  case (2 cand voter nowMs k e es)
  have "\<forall>x \<in> set (put_vote cand voter nowMs es). k < fst x" if "k < cand"
    using 2(2) that put_vote_entries[of es _ _ cand voter nowMs] by fastforce
  then show ?case using 2 by auto
qed simp

lemma record_ok:
  assumes ok: "tally_ok said es"
  shows "tally_ok (\<lambda>v. if voter = v then Some (cand, nowMs) else said v) (put_vote cand voter nowMs (retract cand voter es))"
    (is "tally_ok ?said ?new")
proof (rule tally_okI)
  note s = retract_sorted[OF tally_okD(1)[OF ok], of cand voter]
  show "sorted_wrt (<) (map fst ?new)" by (rule put_vote_sorted[OF s])
  fix k e' assume e': "(k, e') \<in> set ?new"
  have cases: "(\<exists>e. k \<noteq> cand \<and> (k, e) \<in> set es \<and> cl_voters e' = AList.delete voter (cl_voters e)) \<or>
    k = cand \<and> (cl_voters e' = [(voter, nowMs)] \<or> (\<exists>e. (cand, e) \<in> set es \<and> cl_voters e' = AList.update voter nowMs (cl_voters e)))"
    using put_vote_entries[OF s e'] retract_entries[of _ _ cand voter es] by blast
  then show "distinct (map fst (cl_voters e'))"
    using tally_okD(2)[OF ok] by (auto simp: distinct_delete distinct_update)
  fix v t assume v: "(v, t) \<in> set (cl_voters e')"
  show "?said v = Some (k, t)" using cases
  proof (elim disjE exE conjE)
    fix e assume e: "k \<noteq> cand" "(k, e) \<in> set es" "cl_voters e' = AList.delete voter (cl_voters e)"
    have "(v, t) \<in> set (cl_voters e) \<and> v \<noteq> voter" using v e(3) by (auto simp: AList.delete_eq)
    then show ?thesis using tally_okD(3)[OF ok e(2)] by auto
  next
    assume "k = cand" "cl_voters e' = [(voter, nowMs)]"
    then show ?thesis using v by simp
  next
    fix e assume e: "k = cand" "(cand, e) \<in> set es" "cl_voters e' = AList.update voter nowMs (cl_voters e)"
    have d: "distinct (map fst (cl_voters e))" using tally_okD(2)[OF ok e(2)] .
    have "map_of (AList.update voter nowMs (cl_voters e)) v = Some t"
      using v d unfolding e(3) by (simp add: distinct_update)
    then have "(voter = v \<and> t = nowMs) \<or> (voter \<noteq> v \<and> (v, t) \<in> set (cl_voters e))"
      using map_of_SomeD[of "cl_voters e" v t] by (auto simp: update_conv' split: if_splits)
    then show ?thesis using tally_okD(3)[OF ok e(2)] e(1) by auto
  qed
qed

lemma walk_spec:
  "walk nowMs windowMs es (n0, b0) = (es', n, b) \<Longrightarrow>
     (\<forall>k e'. (k, e') \<in> set es' \<longrightarrow> (\<exists>e. (k, e) \<in> set es \<and> cl_voters e' = fresh_voters nowMs windowMs e) \<and> length (cl_voters e') \<le> n) \<and>
     n0 \<le> n \<and> (n = n0 \<and> b = b0 \<or> n0 < n \<and> (\<exists>k e'. b = Some k \<and> (k, e') \<in> set es' \<and> length (cl_voters e') = n))"
proof (induction es arbitrary: n0 b0 es' n b)
  case (Cons x es)
  obtain k e where x: "x = (k, e)" by (cases x)
  let ?vs = "fresh_voters nowMs windowMs e"
  show ?case
  proof (cases "?vs = []")
    case True
    then show ?thesis using Cons.IH[of n0 b0 es' n b] Cons.prems by (auto simp: x)
  next
    case False
    let ?best = "if length ?vs > n0 then (length ?vs, Some k) else (n0, b0)"
    obtain n1 b1 where best: "?best = (n1, b1)" by fastforce
    obtain es1 n2 b2 where w: "walk nowMs windowMs es (n1, b1) = (es1, n2, b2)" by (cases "walk nowMs windowMs es (n1, b1)")
    have r: "es' = (k, e\<lparr>cl_voters := ?vs\<rparr>) # es1" "n = n2" "b = b2" using Cons.prems False w best by (simp_all add: x Let_def)
    have n1: "n0 \<le> n1" "length ?vs \<le> n1" "n1 = n0 \<and> b1 = b0 \<or> n0 < n1 \<and> n1 = length ?vs \<and> b1 = Some k"
      using best by (auto split: if_splits)
    note ih = Cons.IH[OF w]
    have "(k, e\<lparr>cl_voters := ?vs\<rparr>) \<in> set es'" "cl_voters (e\<lparr>cl_voters := ?vs\<rparr>) = ?vs" by (simp_all add: r)
    then have "b1 = Some k \<Longrightarrow> n1 = length ?vs \<Longrightarrow> \<exists>k e'. b1 = Some k \<and> (k, e') \<in> set es' \<and> length (cl_voters e') = n1" by metis
    then show ?thesis using ih n1 by (auto simp: r x)
  qed
qed simp

lemma walk_sorted:
  "sorted_wrt (<) (map fst es) \<Longrightarrow> sorted_wrt (<) (map fst (fst (walk nowMs windowMs es best)))"
proof (induction es arbitrary: best)
  case (Cons x es)
  obtain k e n0 b0 where x: "x = (k, e)" "best = (n0, b0)" by (cases x, cases best)
  have "\<forall>y \<in> set (fst (walk nowMs windowMs es b)). k < fst y" for b
  proof
    fix y assume y: "y \<in> set (fst (walk nowMs windowMs es b))"
    obtain nb bb where b: "b = (nb, bb)" by (cases b)
    obtain es1 n1 b1 where w: "walk nowMs windowMs es (nb, bb) = (es1, n1, b1)" by (cases "walk nowMs windowMs es (nb, bb)")
    then have "fst y \<in> fst ` set es" using walk_spec[OF w] y b by (cases y) force
    then show "k < fst y" using Cons.prems by (auto simp: x)
  qed
  then show ?case using Cons by (auto simp: x Let_def split: prod.splits) (metis fst_conv)+
qed simp

lemma fresh_subset: "set (fresh_voters nowMs windowMs e) \<subseteq> set (cl_voters e)"
  by (auto simp: fresh_voters_def)

lemma sorted_map_filter: "sorted_wrt R (map f es) \<Longrightarrow> sorted_wrt R (map f (filter Q es))"
  by (induction es) auto

lemma tally_step_ok:
  assumes "tally_ok said (ta_entries ta)"
  shows "tally_ok (\<lambda>v. claim_after v ev (said v)) (ta_entries (tally_step ev ta))"
proof (cases ev)
  case (Recorded cand voter nowMs)
  then show ?thesis using record_ok[OF assms, of voter cand nowMs] by (simp add: record_vote_def)
next
  case (Recomputed nowMs threshold windowMs)
  obtain es n b where w: "walk nowMs windowMs (ta_entries ta) (0, None) = (es, n, b)" by (cases "walk nowMs windowMs (ta_entries ta) (0, None)")
  have "tally_ok said es"
  proof (rule tally_okI)
    show "sorted_wrt (<) (map fst es)" using walk_sorted[OF tally_okD(1)[OF assms], of nowMs windowMs "(0, None)"] w by simp
    fix k e' assume "(k, e') \<in> set es"
    then obtain e where e: "(k, e) \<in> set (ta_entries ta)" "cl_voters e' = fresh_voters nowMs windowMs e" using walk_spec[OF w] by blast
    show "distinct (map fst (cl_voters e'))" using tally_okD(2)[OF assms e(1)] e(2) by (simp add: fresh_voters_def distinct_map_filter)
    show "said v = Some (k, t)" if "(v, t) \<in> set (cl_voters e')" for v t
      using that tally_okD(3)[OF assms e(1)] e(2) fresh_subset[of nowMs windowMs e] by auto
  qed
  then show ?thesis using Recomputed w by (simp add: recompute_def)
next
  case (Warned cand)
  have "tally_ok said (map (\<lambda>(k, e). (k, if k = cand then e\<lparr>cl_warned := True\<rparr> else e)) (ta_entries ta))"
    using assms by (auto simp: tally_ok_def case_prod_unfold comp_def)
  then show ?thesis using Warned assms by (auto simp: markWarnedOnce_def split: option.splits)
next
  case (Erased P)
  then show ?thesis using sorted_map_filter[OF tally_okD(1)[OF assms]] assms by (auto simp: tally_ok_def eraseCandidatesIf_def Let_def)
next
  case Cleared
  then show ?thesis by (simp add: clear_def tally_ok_def)
qed

lemma run_tally_ok: "tally_ok (\<lambda>v. last_claim v evs) (ta_entries (run_tally mode evs))"
proof (induction evs rule: rev_induct)
  case Nil
  then show ?case by (simp add: run_tally_def new_tally_def tally_ok_def)
next
  case (snoc ev evs)
  then show ?case using tally_step_ok[OF snoc, of ev] by (simp add: run_tally_def last_claim_def)
qed


lemma tally_mode: "ta_mode (run_tally mode evs) = mode"
proof -
  have "ta_mode (tally_step ev ta) = ta_mode ta" for ev and ta :: "('a, 'b) tally"
    by (cases ev) (simp_all add: record_vote_def recompute_def markWarnedOnce_def eraseCandidatesIf_def clear_def Let_def
        split: prod.splits option.splits)
  then have "ta_mode (fold tally_step evs ta) = ta_mode ta" for ta :: "('a, 'b) tally"
    by (induction evs arbitrary: ta) simp_all
  then show ?thesis by (simp add: run_tally_def new_tally_def)
qed

text \<open>An election: the winner has the voters the walk counted, fresh and each with its last claim for it.\<close>

definition wins :: "corroboration_mode \<Rightarrow> ('c::linorder, 'v) tally_event list \<Rightarrow> int \<Rightarrow> nat \<Rightarrow> int \<Rightarrow> 'c \<Rightarrow> bool" where
  "wins mode evs nowMs threshold windowMs cand \<longleftrightarrow>
     (\<exists>V. distinct V \<and> 0 < length V \<and> threshold \<le> length V \<and>
        (\<forall>v \<in> set V. \<exists>t. last_claim v evs = Some (cand, t) \<and> nowMs - t \<le> windowMs) \<and>
        (\<forall>other. voterCount other (run_tally mode (evs @ [Recomputed nowMs threshold windowMs])) \<le> length V))"

lemma run_snoc: "run_tally mode (evs @ [ev]) = tally_step ev (run_tally mode evs)"
  by (simp add: run_tally_def)

lemma election_won:
  assumes w: "walk nowMs windowMs (ta_entries (run_tally mode evs)) (0, None) = (es, n, Some cand)" and n: "threshold \<le> n"
  shows "wins mode evs nowMs threshold windowMs cand"
proof -
  note sp = walk_spec[OF w]
  obtain e' where e': "0 < n" "(cand, e') \<in> set es" "length (cl_voters e') = n" using sp by auto
  obtain e where e: "(cand, e) \<in> set (ta_entries (run_tally mode evs))" "cl_voters e' = fresh_voters nowMs windowMs e"
    using sp e'(2) by blast
  let ?V = "map fst (cl_voters e')"
  have "distinct ?V" using tally_okD(2)[OF run_tally_ok e(1)] e(2) by (simp add: fresh_voters_def distinct_map_filter)
  moreover have "\<exists>t. last_claim v evs = Some (cand, t) \<and> nowMs - t \<le> windowMs" if "v \<in> set ?V" for v
    using that tally_okD(3)[OF run_tally_ok e(1)] unfolding e(2) by (fastforce simp: fresh_voters_def)
  moreover have "ta_entries (run_tally mode (evs @ [Recomputed nowMs threshold windowMs])) = es"
    unfolding run_snoc using w by (simp add: recompute_def Let_def)
  then have "voterCount other (run_tally mode (evs @ [Recomputed nowMs threshold windowMs])) \<le> n" for other
    using sp by (auto simp: voterCount_def split: option.splits dest: map_of_SomeD)
  ultimately show ?thesis unfolding wins_def using e' n by (intro exI[of _ ?V]) simp
qed

fun is_election :: "('c, 'v) tally_event \<Rightarrow> bool" where
  "is_election (Recomputed nowMs threshold windowMs) = True"
| "is_election _ = False"

lemma step_keeps_adopted:
  "\<not> is_election ev \<Longrightarrow> ev \<noteq> Cleared \<Longrightarrow> ta_adopted (tally_step ev ta) = ta_adopted ta"
  by (cases ev) (simp_all add: record_vote_def markWarnedOnce_def eraseCandidatesIf_def Let_def split: option.split)

text \<open>C21. An address is taken for our own only on the word of enough independent hosts, and held only as
  its rule allows.  In whatever history of claims, elections, erased candidates and resets, the address
  that is adopted now is the winner of one of the elections: at that election at least the threshold of
  distinct voters had each named it last, inside the window - a host that changed its mind or repeats
  itself counts for no more - and no other candidate had more voters.  Since then nothing was cleared.
  Under Reelect that election is the last one held; under Sticky later ones may have been held, and its
  voters may all have aged out.\<close>

theorem adopted_by_fresh_voters:
  assumes "ta_adopted (run_tally mode evs) = Some cand"
  shows "\<exists>evs1 nowMs threshold windowMs evs2.
    evs = evs1 @ Recomputed nowMs threshold windowMs # evs2 \<and> Cleared \<notin> set evs2 \<and>
    (mode = Reelect \<longrightarrow> (\<forall>ev \<in> set evs2. \<not> is_election ev)) \<and>
    (\<exists>V. distinct V \<and> 0 < length V \<and> threshold \<le> length V \<and>
       (\<forall>v \<in> set V. \<exists>t. last_claim v evs1 = Some (cand, t) \<and> nowMs - t \<le> windowMs) \<and>
       (\<forall>other. voterCount other (run_tally mode (evs1 @ [Recomputed nowMs threshold windowMs])) \<le> length V))"
  unfolding wins_def [symmetric] using assms
proof (induction evs rule: rev_induct)
  case Nil
  then show ?case by (simp add: run_tally_def new_tally_def)
next
  case (snoc ev evs)
  let ?ta = "run_tally mode evs"
  have kept: ?case if "ta_adopted ?ta = Some cand" "ev \<noteq> Cleared" "mode = Reelect \<longrightarrow> \<not> is_election ev"
  proof -
    note ih = snoc.IH[OF that(1)]
    obtain evs1 nowMs threshold windowMs evs2 where h: "evs = evs1 @ Recomputed nowMs threshold windowMs # evs2"
      "Cleared \<notin> set evs2" "mode = Reelect \<longrightarrow> (\<forall>ev \<in> set evs2. \<not> is_election ev)" "wins mode evs1 nowMs threshold windowMs cand"
      using ih by blast
    then have "evs @ [ev] = evs1 @ Recomputed nowMs threshold windowMs # (evs2 @ [ev])" "Cleared \<notin> set (evs2 @ [ev])"
      "mode = Reelect \<longrightarrow> (\<forall>ev \<in> set (evs2 @ [ev]). \<not> is_election ev)" using that by auto
    then show ?thesis using h(4) by blast
  qed
  show ?case
  proof (cases ev)
    case (Recomputed nowMs threshold windowMs)
    obtain es n b where w: "walk nowMs windowMs (ta_entries ?ta) (0, None) = (es, n, b)"
      by (cases "walk nowMs windowMs (ta_entries ?ta) (0, None)")
    have a: "(if b \<noteq> None \<and> threshold \<le> n then b else if mode = Sticky then ta_adopted ?ta else None) = Some cand"
      using snoc.prems w unfolding run_snoc Recomputed by (auto simp: recompute_def Let_def tally_mode split: if_splits)
    show ?thesis
    proof (cases "b \<noteq> None \<and> threshold \<le> n")
      case True
      then have "wins mode evs nowMs threshold windowMs cand" using election_won w a by fastforce
      then show ?thesis unfolding Recomputed by fastforce
    next
      case False
      then show ?thesis using a kept Recomputed by (cases mode) (auto split: if_splits)
    qed
  next
    case Cleared
    then show ?thesis using snoc.prems by (simp add: run_snoc clear_def)
  qed (use snoc.prems kept step_keeps_adopted[of ev ?ta] in \<open>simp_all add: run_snoc\<close>)
qed

definition sample_claims :: "(nat, nat) tally_event list" where
  "sample_claims = [Recorded 7 1 0, Recorded 8 2 10, Recorded 7 2 20, Recomputed 30 5 100, Recorded 7 3 40, Recorded 8 4 50]"

lemma adopted_by_fresh_voters_witness:
  "ta_adopted (run_tally Sticky (sample_claims @ [Recomputed 60 2 100, Recomputed 1000 2 100])) = Some 7 \<and>
   (\<exists>evs1 nowMs threshold windowMs evs2.
      sample_claims @ [Recomputed 60 2 100, Recomputed 1000 2 100] = evs1 @ Recomputed nowMs threshold windowMs # evs2 \<and>
      (\<exists>V. distinct V \<and> threshold \<le> length V \<and> 0 < length V \<and>
         (\<forall>v \<in> set V. \<exists>t. last_claim v evs1 = Some (7, t) \<and> nowMs - t \<le> windowMs)))"
proof -
  have a: "ta_adopted (run_tally Sticky (sample_claims @ [Recomputed 60 2 100, Recomputed 1000 2 100])) = Some 7"
    by code_simp
  show ?thesis using a adopted_by_fresh_voters[OF a] by blast
qed

text \<open>Under Sticky the votes behind the adopted candidate may all be gone.\<close>

lemma sticky_outlives_votes:
  "let ta = snd (recompute 1000 2 100 (run_tally Sticky (sample_claims @ [Recomputed 60 2 100])))
   in ta_adopted ta = Some 7 \<and> voterCount 7 ta = 0"
  by code_simp

end
