(* ===== verification/Spec2Isabelle.thy ===== *)
theory Spec2Isabelle
  imports Kad_ZoneSearch Kad_SafeKad Kad_PacketTracking Block_Runs Buddy_Relay Fruitless_Ledger Repeat_Chunk Yenc_Article Aich_Roundtrip Ip_Blocks Part_Check Corruption_Blame Packet_Stream Search_Print Kad_Tags Server_Met Global_Search Corroboration
begin

text \<open>
  A verification library for the core of eMule Qt, a client of the ED2K and Kademlia networks
  (src/core, and the yEnc decoder of src/usenet; every path below is under src/).

  The program and its parts.  Servers are kept in a list that connecting, searching and pinging walk.
  A search text is parsed into terms, put under the filters of the
  user and sent to a server or to a Kademlia node, which decodes it and matches its entries.
  Peers are found through the Kademlia routing table, a binary tree of zones whose leaves hold
  K-buckets of contacts; the UDP listener around it limits floods, matches answers with requests
  and keeps a reputation of nodes.  Peers talk TCP packets.  A download asks its sources for
  blocks that are still missing, buffers what arrives, writes it through a disk worker, checks
  each part and completes; a part that turns out wrong is repaired block by block through the AICH
  hash tree, and the records of who sent what decide whom to blame.  The IP filter keeps ranges of
  addresses out of all of this.

  Conventions.  A struct or class is a record, an enumeration or tagged pointer a datatype, an
  integer a word of its width; sizes and indices that the source keeps far below their limits are
  natural numbers, and the theory says so where it does that.  Code outside src/ (hash functions,
  zlib, Unicode, random numbers, the file system, the clock) is an argument.  A call that throws,
  refuses or never returns is a value: None, an outcome, an error list.  Loops without an obvious
  end are partial functions into option, so that returning is something to prove.

  Kademlia (core/kademlia).
    Kad_UInt128 models KadUInt128.cpp on four 32-bit chunks; its lemmas show that every operation
    computes on the 128-bit number.  Kad_Contact is KadContact.cpp with the liveness types 0 to 4.
    Kad_RoutingBin is KadRoutingBin.cpp: the bucket, oldest first, and the process-wide maps that
    limit the contacts per address and per /24.  Kad_RoutingZone holds the operations of
    KadRoutingZone.cpp (add, addUnfiltered, split, consolidate, merge, getClosestTo, small and big
    timer).  Kad_ZoneInv states the table invariant: a contact lies in the leaf its distance
    names, every leaf is a well-formed bucket, the maps count exactly the contacts of the tree.
    Kad_ZoneAdd and Kad_ZoneMaintain prove that every operation keeps it (table_invariant, over the
    step relation of the table), that adding changes at most one other contact, that nobody takes
    over the entry of a verified contact without its key, and that splitting and merging lose
    nothing.  Kad_ZoneSearch compares getClosestTo with the list of all contacts sorted by
    distance.  Kad_SafeKad is KadSafeKad.cpp: records and age maps that stay in step, so that no
    eviction follows a freed record.  Kad_PacketTracking is KadPacketTracking.cpp: the token bucket
    of every address and opcode bounds what is accepted in any window of time, and an answer is
    accepted only for a request of the last three minutes.

  Network (core/net, core/ipfilter).
    Net_Address is Address.cpp.  Packet_Frames is Packet.cpp and the receiving loop of
    EMSocket.cpp; Packet_Stream shows that the packets do not depend on how the stream is cut into
    reads, that what is sent arrives, that no stream overruns the buffer of a packet and that a
    packed packet unpacks.  Ip_Filter is IPFilter.cpp; Ip_Sweep proves its boundary sweep correct
    for any key space that is an interval of numbers, as a locale, and Ip_Blocks interprets it on
    32-bit keys and on 16-byte keys.

  Downloads (core/files/PartFile.cpp, core/client, core/utils).
    Part_Gaps is the ordered list of missing ranges and its file form; Part_Blocks the choice of the
    next blocks for a source and Part_Alloc its correctness (only missing bytes are asked for, at
    most twice in the endgame, and the loops end). Part_Buffer is the write buffer with the disk
    worker, as a step relation in which the disk may fail at any point; Part_Safe shows that a byte
    not in the gap list was received and is on the disk or held, Part_Check that a download
    completes only with every part verified. Corruption_Box is CorruptionBlackBox.cpp and
    Corruption_Blame what its records justify: who is judged for a part sent a byte of that part
    that was condemned. Repeat_Chunk, Fruitless_Ledger and Buddy_Relay are RepeatChunkGuard.cpp,
    FruitlessSessionLedger.cpp and BuddyRelayBudget.cpp. Block_Runs is the run-length form of block
    bitmaps (BlockRuns.cpp) and Safe_File the typed reads and writes of SafeFile.cpp. Yenc is
    YencDecoder.cpp of the Usenet module, fed by lines or by bytes; Yenc_Article shows that an
    article comes out as it was posted, at the offset its part header names, and what the verdict Ok
    rests on. Yenc_Crc proves the table-driven checksum equal to CRC-32 as IEEE 802.3 defines it,
    written apart from the code as a division by the generator polynomial bit by bit.

  Recovery hashes (core/crypto).
    Aich_Tree is the tree of AICHHashTree.cpp with a missing child as Null; Aich_Verify its shape
    invariant and what a verification commits to.  Aich_Set is the hash set with its votes,
    Aich_Store the file known2_64.met, Aich_Recovery the recovery packet (AICHHashSet.cpp).
    Aich_Routes shows where parts and blocks lie in the tree, Aich_Roundtrip that a packet of a
    client with the whole tree serves one that knows the root.

  Tags (core/protocol, core/kademlia/KadIO.cpp).
    Tags is Tag.cpp with the strings of SafeFile.cpp: named values in a long and a short form; a list
    of them reads back.  Kad_Tags is their form on the Kademlia wire: whatever a node reads it can
    serve.  Both show what a string too long for its 16-bit length does to what follows it.

  Servers (core/server).
    Server_List is ServerList.cpp with the rows of Server.h: adding, merging, removing, ordering and the
    three cursors.  Over the step relation of the list no two rows share a port and an address, a removal
    disturbs no round, and a pass of the automatic connection misses no server and tries none twice.
    Server_Announce reads the servers another server announces; Server_Met saves and loads server.met and
    shows that the list survives a restart.  Corroboration is CorroborationTally.h, the votes by which
    the own public address is adopted: it won an election, the last one under the rule Reelect; under
    Sticky it is held until another wins, even when its votes are gone.

  Searching (core/search, core/kademlia).
    Search_Expr is SearchExpr.cpp, the prefix form and its bytes.  Search_Scan and Search_Parse are
    the scanner and the recursive descent parser of SearchExprParser.cpp, with fuel; Search_Total
    shows that they return, Search_Trees that they yield one tree.  Search_Kad is the node that
    answers: createSearchExpressionTree, tokenizeOptQuotedSearchTerm and the matching of
    KadEntry.cpp; it decodes every parsed payload.  Search_Terms is filenameTerms, the words every
    match must hold; Search_Payload is buildSearchTermsPayload, the filters and the reduction for Kad.
    These hold for terms and filters that do not read like one of the operator tokens; a quoted term
    can be written that does (escaped_term_reads_as_operator, operator_text_is_not_decoded).
    Search_Print takes the documented grammar as a printer and parses it back.  Global_Search is
    GlobalSearchScheduler.cpp, the sweep that asks one server at each tick: while the
    list and the connected server stay as they are it ends, and by then has asked exactly the servers that
    were due, which leaves out those with deadServerRetries failures or more.

  Interfaces.  Where one part relies on a contract the contract is a locale, interpreted on the
  model's own definitions by the component that provides it: what the routing table needs of an
  operation on one bucket (bin_operation in Kad_ZoneInv, for setAlive, removal, change of address
  and refresh), the exclusive or behind the distance search (xor_distance in Kad_ZoneSearch), the
  key space of the boundary sweep (range_key in Ip_Sweep, for both address families in Ip_Blocks),
  records with a time of last reference (aged_record in Kad_SafeKad, for its three maps), queues
  ordered by time (timed_queue in Kad_PacketTracking, for requests and challenges), and what one
  operation may do to a ledger entry (entry_step in Fruitless_Ledger).  Prelude holds the shared
  types, rule collections and generic lemmas.

  Bounds and fuel.  Searching and verifying in a hash tree descend at most 22 levels, as in the
  source, which Aich_Routes shows to be enough for files of up to 256 GB; identifiers of a hash in
  a recovery packet have 16 or 32 bits.  The search parser gets as fuel the length of the text plus
  two; Search_Total shows that with it the parser returns for every text without a byte 0 and that
  more fuel changes nothing, and nul_never_returns that for a byte 0 no fuel is enough.  A Kad node
  decodes at most 24 levels; Search_Kad shows that parsed expressions have at most 12.  The number
  of splits, of steps of the block choice and of unpacking attempts is bounded by their measures.
  Tick counters are 64-bit words whose difference wraps.

  Not modelled.  Sockets, timers, threads, the preferences, logging and the windows, for which the
  program relies on Qt.  Of the files above: the reading of IP filter lists and of nodes.dat (text
  and file formats), the text files of servers, their status and description packets, sending and
  rate limits of EMSocket, the rest of PartFile (states, sources, moving and renaming), the rest of
  the Kademlia listener (handlers of the opcodes), searches and publishing.  Whole modules that are
  left out are listed with their reason in the manifest: they are clients of remote services, user
  interface, or state machines around sockets whose meaning lies in the calls they make.  Floating
  point values, shown to the user or used as text by a search term, are parameters.
\<close>

end
